(* ===== verification/Prelude.thy ===== *)
theory Prelude
  imports Main "HOL-Library.Word"
begin

text \<open>
  Shared vocabulary of the development: the machine-integer types, the byte
  strings, big- and little-endian readings of byte strings, \<open>size_t\<close> arithmetic
  with its wrap-around, and generic lemmas on lists and words.
\<close>

unbundle bit_operations_syntax

section \<open>Types\<close>

type_synonym u8 = "8 word"
type_synonym u16 = "16 word"
type_synonym u32 = "32 word"
type_synonym u64 = "64 word"
type_synonym bytes = "u8 list"

named_theorems getter_simps \<open>unfolding rules for parsing functions\<close>
named_theorems byte_simps \<open>facts about byte strings as numbers\<close>

section \<open>size_t arithmetic\<close>

text \<open>
  \<open>size_t\<close> is 64 bits wide on every platform the Pods are built for. Sizes are
  natural numbers below \<open>size_mod\<close>; a sum the C code tests for overflow is
  written with its wrap-around.
\<close>

definition size_mod :: nat where
  "size_mod = 2 ^ 64"

definition SIZE_MAX :: nat where
  "SIZE_MAX = size_mod - 1"

definition size_add :: "nat \<Rightarrow> nat \<Rightarrow> nat" where
  "size_add a b = (a + b) mod size_mod"

definition size_mul :: "nat \<Rightarrow> nat \<Rightarrow> nat" where
  "size_mul a b = (a * b) mod size_mod"

definition INT_MAX :: nat where
  "INT_MAX = 2147483647"

lemma size_mod_pos [simp]: "0 < size_mod"
  by (simp add: size_mod_def)

lemma size_add_exact: "a + b < size_mod \<Longrightarrow> size_add a b = a + b"
  by (simp add: size_add_def)

text \<open>The C idiom \<open>a + b < a\<close> detects exactly the sums that wrap.\<close>

lemma size_add_overflow_iff:
  assumes "a < size_mod" "b < size_mod"
  shows "size_add a b < a \<longleftrightarrow> size_mod \<le> a + b"
proof (cases "a + b < size_mod")
  case True
  then show ?thesis by (simp add: size_add_def)
next
  case False
  then have "(a + b) mod size_mod = a + b - size_mod"
    using assms by (subst le_mod_geq) auto
  with False assms show ?thesis by (simp add: size_add_def)
qed

section \<open>Byte strings as numbers\<close>

fun be_value :: "bytes \<Rightarrow> nat" where
  "be_value [] = 0"
| "be_value (b # bs) = unat b * 256 ^ length bs + be_value bs"

fun be_bytes :: "nat \<Rightarrow> nat \<Rightarrow> bytes" where
  "be_bytes 0 v = []"
| "be_bytes (Suc n) v = be_bytes n (v div 256) @ [of_nat v]"

fun le_value :: "bytes \<Rightarrow> nat" where
  "le_value [] = 0"
| "le_value (b # bs) = unat b + 256 * le_value bs"

fun le_bytes :: "nat \<Rightarrow> nat \<Rightarrow> bytes" where
  "le_bytes 0 v = []"
| "le_bytes (Suc n) v = of_nat v # le_bytes n (v div 256)"

lemma length_be_bytes [simp]: "length (be_bytes n v) = n"
  by (induction n arbitrary: v) auto

lemma length_le_bytes [simp]: "length (le_bytes n v) = n"
  by (induction n arbitrary: v) auto

lemma unat_of_nat_u8 [byte_simps]: "unat (of_nat v :: u8) = v mod 256"
  by (simp add: unat_of_nat)

lemma u8_less [simp]: "unat (b :: u8) < 256"
  using unsigned_less [of b, where ?'a = nat] by simp

lemma be_value_append [byte_simps]:
  "be_value (xs @ ys) = be_value xs * 256 ^ length ys + be_value ys"
  by (induction xs) (auto simp: algebra_simps power_add)

lemma be_value_less: "be_value bs < 256 ^ length bs"
proof (induction bs)
  case (Cons b bs)
  have "unat b \<le> 255" using u8_less [of b] by linarith
  then have "unat b * 256 ^ length bs \<le> 255 * 256 ^ length bs"
    by (rule mult_le_mono1)
  with Cons show ?case
    unfolding be_value.simps length_Cons power_Suc by linarith
qed simp

lemma be_value_be_bytes [byte_simps]: "be_value (be_bytes n v) = v mod 256 ^ n"
proof (induction n arbitrary: v)
  case (Suc n)
  have "v mod 256 ^ Suc n = 256 * (v div 256 mod 256 ^ n) + v mod 256"
    by (simp add: mod_mult2_eq)
  with Suc show ?case by (simp add: byte_simps)
qed simp

lemma be_bytes_be_value [byte_simps]: "be_bytes (length bs) (be_value bs) = bs"
proof (induction bs rule: rev_induct)
  case (snoc b bs)
  have "unat b < 256" by simp
  then have "(be_value bs * 256 + unat b) div 256 = be_value bs" by simp
  moreover have "(of_nat (be_value bs * 256 + unat b) :: u8) = b"
    unfolding word_unat_eq_iff unat_of_nat_u8 using \<open>unat b < 256\<close> by simp
  ultimately show ?case using snoc by (simp add: byte_simps)
qed simp

lemma be_bytes_mod: "be_bytes n (v mod 256 ^ n) = be_bytes n v"
  by (metis be_bytes_be_value be_value_be_bytes length_be_bytes)

lemma be_bytes_split: "be_bytes (n + k) v = be_bytes n (v div 256 ^ k) @ be_bytes k v"
proof (induction k arbitrary: v)
  case (Suc k)
  then show ?case using Suc [of "v div 256"] by (simp add: div_mult2_eq)
qed simp

lemma be_value_inj: "length xs = length ys \<Longrightarrow> be_value xs = be_value ys \<Longrightarrow> xs = ys"
  by (metis be_bytes_be_value)

lemma le_value_rev: "le_value (rev bs) = be_value bs"
proof -
  have "le_value (xs @ ys) = le_value xs + 256 ^ length xs * le_value ys" for xs ys
    by (induction xs) (auto simp: algebra_simps)
  then show ?thesis by (induction bs) (auto simp: algebra_simps)
qed

lemma rev_be_bytes: "rev (be_bytes n v) = le_bytes n v"
  by (induction n arbitrary: v) auto

lemma le_value_le_bytes [byte_simps]: "le_value (le_bytes n v) = v mod 256 ^ n"
  by (metis be_value_be_bytes le_value_rev rev_be_bytes)

lemma le_bytes_le_value [byte_simps]: "le_bytes (length bs) (le_value bs) = bs"
  by (metis be_bytes_be_value le_value_rev length_rev rev_be_bytes rev_rev_ident)

section \<open>Words as numbers\<close>

lemma and_push_small:
  fixes a b :: "'a::len word"
  assumes "unat b < 2 ^ n"
  shows "push_bit n a AND b = 0"
proof (rule bit_word_eqI)
  fix k assume "k < LENGTH('a)"
  have "\<not> bit b k" if "n \<le> k"
  proof -
    have "unat b < 2 ^ k" using assms that
      by (meson less_le_trans one_le_numeral power_increasing)
    then have "\<not> bit (unat b) k" by (simp add: bit_iff_odd)
    with \<open>k < LENGTH('a)\<close> show ?thesis by (simp add: bit_unsigned_iff)
  qed
  then show "bit (push_bit n a AND b) k = bit (0 :: 'a word) k"
    by (auto simp: bit_and_iff bit_push_bit_iff)
qed

lemma push_or_add:
  fixes a b :: "'a::len word"
  assumes "unat b < 2 ^ n"
  shows "push_bit n a OR b = push_bit n a + b"
  using disjunctive_add_eq_or [OF and_push_small [OF assms], of a] by simp

lemma unat_push_bit:
  "unat (push_bit n (a :: 'a::len word)) = unat a * 2 ^ n mod 2 ^ LENGTH('a)"
  by (subst unsigned_push_bit_eq) (simp add: take_bit_eq_mod push_bit_eq_mult)

lemma u8_bit_ge [simp]: "8 \<le> n \<Longrightarrow> \<not> bit (b :: u8) n"
  by (auto dest: bit_imp_le_length)

lemma u8_div_256 [simp]: "unat (b :: u8) div 256 = 0"
  by (rule div_less) simp

text \<open>Equality of two words of a concrete width, bit by bit.\<close>

lemma bits_eqI:
  fixes a b :: "'a::len word"
  assumes "list_all (\<lambda>n. bit a n = bit b n) [0..<LENGTH('a)]"
  shows "a = b"
  using assms by (intro bit_word_eqI) (auto simp: list_all_iff)

lemma bit_below_pow: "unat (x :: 'a::len word) < 2 ^ n \<Longrightarrow> n \<le> k \<Longrightarrow> \<not> bit x k"
proof -
  assume "unat x < 2 ^ n" "n \<le> k"
  then have "unat x < 2 ^ k"
    by (meson less_le_trans one_le_numeral power_increasing)
  then have "\<not> bit (unat x) k" by (simp add: bit_iff_odd)
  then show ?thesis using bit_imp_le_length [of x k] by (auto simp: bit_unsigned_iff)
qed

lemma unat_and_mask: "unat (x AND mask n :: 'a::len word) = unat x mod 2 ^ n"
  by (metis take_bit_eq_mask take_bit_eq_mod unsigned_take_bit_eq)

section \<open>Byte order\<close>

text \<open>The byte-swapping routines of \<open>crypto/internal.h\<close>, as the portable branch writes them.\<close>

definition CRYPTO_bswap2 :: "u16 \<Rightarrow> u16" where
  "CRYPTO_bswap2 x = drop_bit 8 x OR push_bit 8 x"

definition CRYPTO_bswap4 :: "u32 \<Rightarrow> u32" where
  "CRYPTO_bswap4 x = (let y = drop_bit 16 x OR push_bit 16 x in
     drop_bit 8 (y AND 0xff00ff00) OR push_bit 8 (y AND 0x00ff00ff))"

definition CRYPTO_bswap8 :: "u64 \<Rightarrow> u64" where
  "CRYPTO_bswap8 x = ucast (CRYPTO_bswap4 (ucast (drop_bit 32 x)))
     OR push_bit 32 (ucast (CRYPTO_bswap4 (ucast x)))"

text \<open>The big-endian reading of a byte string into a machine word, as the C loops do it.\<close>

definition load_be :: "bytes \<Rightarrow> 'a::len word" where
  "load_be ds = foldl (\<lambda>r d. push_bit 8 r OR ucast d) 0 ds"

lemma load_be_snoc: "load_be (ds @ [d]) = push_bit 8 (load_be ds) OR ucast d"
  by (simp add: load_be_def)

lemma unat_load_be:
  "unat (load_be ds :: 'a::len word) = be_value ds mod 2 ^ LENGTH('a)"
    if "8 \<le> LENGTH('a)"
proof (induction ds rule: rev_induct)
  case Nil
  show ?case by (simp add: load_be_def)
next
  case (snoc d ds)
  have "(2::nat) ^ 8 \<le> 2 ^ LENGTH('a)" using that by (intro power_increasing) auto
  then have "unat d < 2 ^ LENGTH('a)"
    by (intro less_le_trans [OF u8_less]) simp
  then have d: "unat (ucast d :: 'a word) = unat d"
    by (simp add: unsigned_ucast_eq take_bit_nat_eq_self)
  have "unat (load_be (ds @ [d]) :: 'a word) =
      unat (push_bit 8 (load_be ds :: 'a word) + ucast d)"
    using d by (simp add: load_be_snoc push_or_add)
  also have "\<dots> = (be_value ds * 256 + unat d) mod 2 ^ LENGTH('a)"
    by (simp add: unat_word_ariths unat_push_bit d snoc mod_simps)
  finally show ?case by (simp add: byte_simps)
qed

lemma unat_load_be_exact:
  assumes "8 * length ds \<le> LENGTH('a::len)" "8 \<le> LENGTH('a)"
  shows "unat (load_be ds :: 'a word) = be_value ds"
proof -
  have "(256::nat) ^ length ds = 2 ^ (8 * length ds)" by (simp add: power_mult)
  also have "\<dots> \<le> 2 ^ LENGTH('a)" using assms(1) by (intro power_increasing) auto
  finally have "be_value ds < 2 ^ LENGTH('a)"
    using be_value_less [of ds] by linarith
  with assms(2) show ?thesis by (simp add: unat_load_be)
qed

lemma CRYPTO_bswap2_load: "CRYPTO_bswap2 (load_be [a, b]) = load_be [b, a]"
  by (rule bits_eqI) (simp add: CRYPTO_bswap2_def load_be_def bit_simps upt_rec)

lemma CRYPTO_bswap4_load: "CRYPTO_bswap4 (load_be [a, b, c, d]) = load_be [d, c, b, a]"
  by (rule bits_eqI) (simp add: CRYPTO_bswap4_def load_be_def bit_simps upt_rec)

lemma CRYPTO_bswap8_load:
  "CRYPTO_bswap8 (load_be [a, b, c, d, e, f, g, h]) = load_be [h, g, f, e, d, c, b, a]"
proof -
  have "(ucast (drop_bit 32 (load_be [a, b, c, d, e, f, g, h] :: u64)) :: u32)
      = load_be [a, b, c, d]"
    by (rule bits_eqI) (simp add: load_be_def bit_simps upt_rec)
  moreover have "(ucast (load_be [a, b, c, d, e, f, g, h] :: u64) :: u32) = load_be [e, f, g, h]"
    by (rule bits_eqI) (simp add: load_be_def bit_simps upt_rec)
  moreover have "ucast (load_be [d, c, b, a] :: u32) OR push_bit 32 (ucast (load_be [h, g, f, e] :: u32))
      = (load_be [h, g, f, e, d, c, b, a] :: u64)"
    by (rule bits_eqI) (simp add: load_be_def bit_simps upt_rec)
  ultimately show ?thesis
    by (simp add: CRYPTO_bswap8_def CRYPTO_bswap4_load)
qed

end
