(* ===== verification/Codec.thy ===== *)
theory Codec
  imports Prelude "HOL-Library.Sublist"
begin

text \<open>
  The interface between the parsing half and the building half of the wire
  formats. A parser (\<open>'a getter\<close>) maps the unread input to a result and the
  input it leaves unread; the result is \<open>None\<close> when the C function returns 0,
  and the remaining input is given in that case too, because several of the C
  functions have already advanced their argument when they fail; the same
  combinators serve every operation on a state that may fail. The locale
  \<open>codec\<close> states what an encoder promises its decoder; every wire format of
  the development interprets it, and the facts about sequences of values are
  proved here once.
\<close>

section \<open>Parsing functions\<close>

type_synonym ('s, 'a) op = "'s \<Rightarrow> 'a option \<times> 's"
type_synonym 'a getter = "(bytes, 'a) op"

definition gret :: "'a \<Rightarrow> ('s, 'a) op" where
  "gret a s = (Some a, s)"

definition gfail :: "('s, 'a) op" where
  "gfail s = (None, s)"

text \<open>\<open>gbind p f\<close> is \<open>if (!p(cbs, &a)) return 0; ... f(cbs, a)\<close>.\<close>

definition gbind :: "('s, 'a) op \<Rightarrow> ('a \<Rightarrow> ('s, 'b) op) \<Rightarrow> ('s, 'b) op" where
  "gbind p f s = (case p s of (None, s') \<Rightarrow> (None, s') | (Some a, s') \<Rightarrow> f a s')"

text \<open>\<open>gassert c\<close> is \<open>if (!c) return 0\<close>.\<close>

definition gassert :: "bool \<Rightarrow> ('s, unit) op" where
  "gassert c s = (if c then Some () else None, s)"

declare gret_def [getter_simps] gfail_def [getter_simps]
  gbind_def [getter_simps] gassert_def [getter_simps]

lemma gbind_Some [simp]: "p s = (Some a, s') \<Longrightarrow> gbind p f s = f a s'"
  by (simp add: gbind_def)

lemma gbind_None [simp]: "p s = (None, s') \<Longrightarrow> gbind p f s = (None, s')"
  by (simp add: gbind_def)

lemma gbind_eq_Some_iff:
  "gbind p f s = (Some b, r) \<longleftrightarrow> (\<exists>a s'. p s = (Some a, s') \<and> f a s' = (Some b, r))"
  by (auto simp: gbind_def split: prod.splits option.splits)

lemma gret_eq [simp]: "gret a s = (Some b, r) \<longleftrightarrow> b = a \<and> r = s"
  by (auto simp: gret_def)

lemma gfail_eq [simp]: "gfail s = (Some b, r) \<longleftrightarrow> False"
  by (simp add: gfail_def)

lemma gassert_eq [simp]: "gassert c s = (Some u, r) \<longleftrightarrow> c \<and> r = s"
  by (auto simp: gassert_def)

subsection \<open>Reading only forward\<close>

text \<open>
  A parser is \<open>forward\<close> when what it leaves is a suffix of what it was given:
  it reads inside its input and never moves backwards, on failure as well.
\<close>

definition forward :: "'a getter \<Rightarrow> bool" where
  "forward p \<longleftrightarrow> (\<forall>s. suffix (snd (p s)) s)"

lemma forwardD: "forward p \<Longrightarrow> p s = (a, r) \<Longrightarrow> suffix r s"
  by (metis forward_def snd_conv)

lemma forward_length: "forward p \<Longrightarrow> p s = (a, r) \<Longrightarrow> length r \<le> length s"
  by (blast dest: forwardD suffix_length_le)

lemma forward_gret [intro]: "forward (gret a)"
  by (simp add: forward_def gret_def)

lemma forward_gfail [intro]: "forward gfail"
  by (simp add: forward_def gfail_def)

lemma forward_gassert [intro]: "forward (gassert c)"
  by (simp add: forward_def gassert_def)

lemma forward_gbind [intro]:
  assumes "forward p" "\<And>a. forward (f a)"
  shows "forward (gbind p f)"
  unfolding forward_def gbind_def
  using assms by (auto simp: forward_def split: prod.splits option.splits)
    (metis snd_conv suffix_order.trans)+

lemma forward_if [intro]: "forward p \<Longrightarrow> forward q \<Longrightarrow> forward (if c then p else q)"
  by simp

lemma forward_case_option [intro]:
  "forward p \<Longrightarrow> (\<And>a. forward (q a)) \<Longrightarrow> forward (case x of None \<Rightarrow> p | Some a \<Rightarrow> q a)"
  by (cases x) auto

subsection \<open>Reading everything\<close>

text \<open>
  The loop \<open>while (CBS_len(&cbs) != 0) { if (!get(&cbs, &x)) return 0; ... }\<close>.
  The test that the parser made progress keeps the recursion well founded; every
  parser it is used with consumes at least one byte when it succeeds.
\<close>

function get_all :: "'a getter \<Rightarrow> bytes \<Rightarrow> 'a list option" where
  "get_all p s =
     (if s = [] then Some []
      else case p s of
        (None, _) \<Rightarrow> None
      | (Some a, s') \<Rightarrow>
          if length s' < length s then map_option ((#) a) (get_all p s') else None)"
  by pat_completeness auto
termination
  by (relation "measure (\<lambda>(p, s). length s)") auto

declare get_all.simps [simp del]

lemma get_all_Nil [simp]: "get_all p [] = Some []"
  by (simp add: get_all.simps)

section \<open>Encoders and decoders\<close>

locale codec =
  fixes enc :: "'a \<Rightarrow> bytes" and dec :: "'a getter" and ok :: "'a \<Rightarrow> bool"
  assumes dec_enc: "ok x \<Longrightarrow> dec (enc x @ rest) = (Some x, rest)"
begin

lemma enc_prefix_free:
  assumes "ok x" "ok y" "enc x @ r = enc y @ r'"
  shows "x = y \<and> r = r'"
proof -
  have "(Some x, r) = (Some y, r')"
    unfolding dec_enc [OF assms(1), of r, symmetric] dec_enc [OF assms(2), of r', symmetric]
      assms(3) ..
  then show ?thesis by simp
qed

lemma enc_inj: "ok x \<Longrightarrow> ok y \<Longrightarrow> enc x = enc y \<Longrightarrow> x = y"
  by (drule enc_prefix_free [of x y "[]" "[]"]) auto

lemma enc_not_strict_prefix: "ok x \<Longrightarrow> ok y \<Longrightarrow> \<not> strict_prefix (enc x) (enc y)"
  by (auto simp: strict_prefix_def prefix_def dest: enc_prefix_free [of y x "[]", simplified])

end

locale progress_codec = codec +
  assumes enc_nonempty: "ok x \<Longrightarrow> enc x \<noteq> []"
begin

lemma get_all_enc:
  assumes "list_all ok xs"
  shows "get_all dec (concat (map enc xs)) = Some xs"
  using assms
proof (induction xs)
  case (Cons x xs)
  then have "ok x" "enc x \<noteq> []" by (auto simp: enc_nonempty)
  with Cons show ?case
    by (subst get_all.simps) (auto simp: dec_enc)
qed simp

lemma concat_enc_inj:
  assumes "list_all ok xs" "list_all ok ys" "concat (map enc xs) = concat (map enc ys)"
  shows "xs = ys"
  by (metis assms get_all_enc option.inject)

end

text \<open>
  A canonical codec accepts nothing but the encoder's own output: each value has
  one encoding only.
\<close>

locale canonical_codec = progress_codec +
  assumes enc_dec: "dec s = (Some x, rest) \<Longrightarrow> ok x \<and> s = enc x @ rest"
begin

lemma dec_iff: "dec s = (Some x, rest) \<longleftrightarrow> ok x \<and> s = enc x @ rest"
  using enc_dec dec_enc by blast

lemma get_all_sound:
  "get_all dec s = Some xs \<Longrightarrow> list_all ok xs \<and> s = concat (map enc xs)"
proof (induction s arbitrary: xs rule: measure_induct_rule [where f = length])
  case (less s)
  show ?case
  proof (cases "s = []")
    case True
    with less.prems show ?thesis by simp
  next
    case False
    with less.prems obtain a s' ys where d: "dec s = (Some a, s')" "length s' < length s"
      "get_all dec s' = Some ys" "xs = a # ys"
      by (auto simp: get_all.simps [of dec s] split: prod.splits option.splits if_splits)
    with less.IH [OF d(2,3)] enc_dec [OF d(1)] show ?thesis by simp
  qed
qed

lemma get_all_iff: "get_all dec s = Some xs \<longleftrightarrow> list_all ok xs \<and> s = concat (map enc xs)"
  using get_all_sound get_all_enc by blast

end

end
