(* ===== verification/Mem.thy ===== *)
theory Mem
  imports Prelude
begin

text \<open>
  \<open>crypto/mem.c\<close> of BoringSSL: the allocation wrappers, the constant-time
  comparison, the FNV-1a hash, the ASCII character classes and the C string
  helpers. A block of memory is the list of its bytes and a C string is the list
  of its characters up to, and without, the terminating NUL. What \<open>malloc\<close> of
  the C library answers and what a fresh block holds is the parameter
  \<open>heap_env\<close>. The weak hooks \<open>OPENSSL_memory_alloc\<close>, \<open>OPENSSL_memory_free\<close>
  and \<open>OPENSSL_memory_get_size\<close> are not set, as in the Pods build.
\<close>

section \<open>Allocation\<close>

record heap_env =
  libc_malloc :: "nat \<Rightarrow> bool"
  garbage :: "nat \<Rightarrow> u8"

definition OPENSSL_MALLOC_PREFIX :: nat where
  "OPENSSL_MALLOC_PREFIX = 8"

definition OPENSSL_malloc :: "heap_env \<Rightarrow> nat \<Rightarrow> bytes option" where
  "OPENSSL_malloc env sz =
     (if size_add sz OPENSSL_MALLOC_PREFIX < sz then None
      else if \<not> libc_malloc env (size_add sz OPENSSL_MALLOC_PREFIX) then None
      else Some (map (garbage env) [0..<sz]))"

definition OPENSSL_zalloc :: "heap_env \<Rightarrow> nat \<Rightarrow> bytes option" where
  "OPENSSL_zalloc env sz =
     (case OPENSSL_malloc env sz of None \<Rightarrow> None | Some blk \<Rightarrow> Some (replicate sz 0))"

definition OPENSSL_calloc :: "heap_env \<Rightarrow> nat \<Rightarrow> nat \<Rightarrow> bytes option" where
  "OPENSSL_calloc env num sz =
     (if sz \<noteq> 0 \<and> num > SIZE_MAX div sz then None
      else OPENSSL_zalloc env (size_mul num sz))"

text \<open>The old block is \<open>None\<close> for a null pointer.\<close>

definition OPENSSL_realloc :: "heap_env \<Rightarrow> bytes option \<Rightarrow> nat \<Rightarrow> bytes option" where
  "OPENSSL_realloc env orig new_size =
     (case orig of
        None \<Rightarrow> OPENSSL_malloc env new_size
      | Some old \<Rightarrow>
          (case OPENSSL_malloc env new_size of
             None \<Rightarrow> None
           | Some ret \<Rightarrow>
               (let to_copy = (if length old < new_size then length old else new_size)
                in Some (take to_copy old @ drop to_copy ret))))"

definition OPENSSL_memdup :: "heap_env \<Rightarrow> bytes \<Rightarrow> bytes option" where
  "OPENSSL_memdup env data =
     (if length data = 0 then None
      else case OPENSSL_malloc env (length data) of None \<Rightarrow> None | Some _ \<Rightarrow> Some data)"

lemma OPENSSL_malloc_length:
  "OPENSSL_malloc env sz = Some blk \<Longrightarrow> length blk = sz"
  by (auto simp: OPENSSL_malloc_def split: if_splits)

lemma OPENSSL_realloc_Some:
  assumes "OPENSSL_realloc env (Some old) n = Some blk"
  shows "length blk = n" "take (min (length old) n) blk = take n old"
  using assms OPENSSL_malloc_length [of env n]
  by (auto simp: OPENSSL_realloc_def Let_def min_def split: option.splits if_splits)

lemma OPENSSL_realloc_grow:
  assumes "OPENSSL_realloc env (Some old) n = Some blk" "length old \<le> n"
  shows "length blk = n \<and> take (length old) blk = old"
  using OPENSSL_realloc_Some [OF assms(1)] assms(2) by (simp add: min_def)

text \<open>
  A request that is granted is never one whose size arithmetic wrapped: the block
  \<open>OPENSSL_calloc\<close> returns holds \<open>num\<close> items of \<open>size\<close> bytes, all zero.
\<close>

lemma OPENSSL_calloc_Some:
  assumes "OPENSSL_calloc env num sz = Some blk"
  shows "blk = replicate (num * sz) 0"
proof -
  have "num * sz < size_mod"
  proof (cases "sz = 0")
    case False
    with assms have "num \<le> SIZE_MAX div sz"
      by (auto simp: OPENSSL_calloc_def split: if_splits)
    with False have "num * sz \<le> SIZE_MAX" by (simp add: less_eq_div_iff_mult_less_eq)
    then show ?thesis by (simp add: SIZE_MAX_def size_mod_def)
  qed simp
  with assms show ?thesis
    by (auto simp: OPENSSL_calloc_def OPENSSL_zalloc_def size_mul_def
        split: if_splits option.splits)
qed

section \<open>Comparison and hashing\<close>

text \<open>\<open>CRYPTO_memcmp\<close> on two blocks of the same length \<open>len\<close>.\<close>

definition CRYPTO_memcmp :: "bytes \<Rightarrow> bytes \<Rightarrow> u8" where
  "CRYPTO_memcmp a b = foldl (\<lambda>x (p, q). x OR (p XOR q)) 0 (zip a b)"

definition OPENSSL_hash32 :: "bytes \<Rightarrow> u32" where
  "OPENSSL_hash32 ds = foldl (\<lambda>h d. (h XOR ucast d) * 16777619) 2166136261 ds"

lemma xor_eq_0_iff: "(a :: u8) XOR b = 0 \<longleftrightarrow> a = b"
proof
  assume "a XOR b = 0"
  then have "a XOR (a XOR b) = a" by simp
  then show "a = b" by (simp flip: xor.assoc)
qed simp

lemma memcmp_fold_zero:
  "foldl (\<lambda>x (p, q). x OR (p XOR q)) (x :: u8) ps = 0
     \<longleftrightarrow> x = 0 \<and> (\<forall>(p, q) \<in> set ps. p = q)"
  by (induction ps arbitrary: x) (auto simp: or_eq_0_iff xor_eq_0_iff)

lemma CRYPTO_memcmp_eq_0:
  "length a = length b \<Longrightarrow> CRYPTO_memcmp a b = 0 \<longleftrightarrow> a = b"
  unfolding CRYPTO_memcmp_def memcmp_fold_zero
  by (auto simp: list_eq_iff_nth_eq set_zip)

section \<open>Character classes\<close>

text \<open>The C functions take an \<open>int\<close>; the callers pass a byte or a \<open>char\<close>.\<close>

definition OPENSSL_isalpha :: "int \<Rightarrow> bool" where
  "OPENSSL_isalpha c \<longleftrightarrow> (97 \<le> c \<and> c \<le> 122) \<or> (65 \<le> c \<and> c \<le> 90)"

definition OPENSSL_isdigit :: "int \<Rightarrow> bool" where
  "OPENSSL_isdigit c \<longleftrightarrow> 48 \<le> c \<and> c \<le> 57"

definition OPENSSL_isxdigit :: "int \<Rightarrow> bool" where
  "OPENSSL_isxdigit c \<longleftrightarrow>
     OPENSSL_isdigit c \<or> (97 \<le> c \<and> c \<le> 102) \<or> (65 \<le> c \<and> c \<le> 70)"

definition OPENSSL_fromxdigit :: "int \<Rightarrow> u8 option" where
  "OPENSSL_fromxdigit c =
     (if OPENSSL_isdigit c then Some (of_int (c - 48))
      else if 97 \<le> c \<and> c \<le> 102 then Some (of_int (c - 97 + 10))
      else if 65 \<le> c \<and> c \<le> 70 then Some (of_int (c - 65 + 10))
      else None)"

definition OPENSSL_isalnum :: "int \<Rightarrow> bool" where
  "OPENSSL_isalnum c \<longleftrightarrow> OPENSSL_isalpha c \<or> OPENSSL_isdigit c"

definition OPENSSL_tolower :: "int \<Rightarrow> int" where
  "OPENSSL_tolower c = (if 65 \<le> c \<and> c \<le> 90 then c + (97 - 65) else c)"

definition OPENSSL_isspace :: "int \<Rightarrow> bool" where
  "OPENSSL_isspace c \<longleftrightarrow> c = 9 \<or> c = 10 \<or> c = 11 \<or> c = 12 \<or> c = 13 \<or> c = 32"

section \<open>C strings\<close>

text \<open>Number of bytes before the first NUL, at most the length of the region.\<close>

fun OPENSSL_strnlen :: "bytes \<Rightarrow> nat \<Rightarrow> nat" where
  "OPENSSL_strnlen (c # s) (Suc len) = (if c = 0 then 0 else Suc (OPENSSL_strnlen s len))"
| "OPENSSL_strnlen _ _ = 0"

text \<open>The result of \<open>OPENSSL_strndup\<close> includes the terminator it writes.\<close>

definition OPENSSL_strndup :: "heap_env \<Rightarrow> bytes \<Rightarrow> nat \<Rightarrow> bytes option" where
  "OPENSSL_strndup env str size0 =
     (let sz = OPENSSL_strnlen str size0; alloc_size = size_add sz 1 in
      if alloc_size < sz then None
      else case OPENSSL_malloc env alloc_size of
        None \<Rightarrow> None
      | Some ret \<Rightarrow> Some (take sz str @ [0]))"

lemma OPENSSL_strnlen_le: "OPENSSL_strnlen s n \<le> n \<and> OPENSSL_strnlen s n \<le> length s"
  by (induction s n rule: OPENSSL_strnlen.induct) auto

lemma OPENSSL_strnlen_takeWhile:
  "OPENSSL_strnlen s n = length (takeWhile (\<lambda>c. c \<noteq> 0) (take n s))"
  by (induction s n rule: OPENSSL_strnlen.induct) auto

lemma take_strnlen: "take (OPENSSL_strnlen s n) s = takeWhile (\<lambda>c. c \<noteq> 0) (take n s)"
  by (induction s n rule: OPENSSL_strnlen.induct) auto

text \<open>
  Case-insensitive comparison. A \<open>char\<close> is signed on the platforms of the
  build, so characters are compared as signed values; the end of a list stands
  for the NUL.
\<close>

definition str_char :: "bytes \<Rightarrow> int" where
  "str_char s = (case s of [] \<Rightarrow> 0 | c # _ \<Rightarrow> sint c)"

function OPENSSL_strcasecmp :: "bytes \<Rightarrow> bytes \<Rightarrow> int" where
  "OPENSSL_strcasecmp a b =
     (let aa = OPENSSL_tolower (str_char a); bb = OPENSSL_tolower (str_char b) in
      if aa < bb then -1
      else if aa > bb then 1
      else if aa = 0 then 0
      else OPENSSL_strcasecmp (tl a) (tl b))"
  by pat_completeness auto
termination
proof (relation "measure (\<lambda>(a, b). length a)")
  fix a b :: bytes and aa bb
  assume "aa = OPENSSL_tolower (str_char a)" "aa \<noteq> 0"
  then have "a \<noteq> []" by (auto simp: str_char_def OPENSSL_tolower_def)
  then show "((tl a, tl b), (a, b)) \<in> measure (\<lambda>(a, b). length a)" by simp
qed simp

declare OPENSSL_strcasecmp.simps [simp del]

fun OPENSSL_strncasecmp :: "bytes \<Rightarrow> bytes \<Rightarrow> nat \<Rightarrow> int" where
  "OPENSSL_strncasecmp a b 0 = 0"
| "OPENSSL_strncasecmp a b (Suc n) =
     (let aa = OPENSSL_tolower (str_char a); bb = OPENSSL_tolower (str_char b) in
      if aa < bb then -1
      else if aa > bb then 1
      else if aa = 0 then 0
      else OPENSSL_strncasecmp (tl a) (tl b) n)"

text \<open>
  \<open>OPENSSL_strlcpy\<close>: the destination is the block that starts at \<open>dst\<close>; the
  result is the return value and the block after the call.
\<close>

fun strlcpy_loop :: "bytes \<Rightarrow> nat \<Rightarrow> bytes \<Rightarrow> nat \<Rightarrow> nat \<Rightarrow> nat \<times> bytes" where
  "strlcpy_loop dst i src dst_size l =
     (if dst_size > 1 \<and> src \<noteq> []
      then strlcpy_loop (dst[i := hd src]) (Suc i) (tl src) (dst_size - 1) (Suc l)
      else (l + length src, if dst_size \<noteq> 0 then dst[i := 0] else dst))"

declare strlcpy_loop.simps [simp del]

definition OPENSSL_strlcpy :: "bytes \<Rightarrow> bytes \<Rightarrow> nat \<Rightarrow> nat \<times> bytes" where
  "OPENSSL_strlcpy dst src dst_size = strlcpy_loop dst 0 src dst_size 0"

fun OPENSSL_strlcat :: "bytes \<Rightarrow> bytes \<Rightarrow> nat \<Rightarrow> nat \<times> bytes" where
  "OPENSSL_strlcat (c # dst) src (Suc n) =
     (if c \<noteq> 0
      then (case OPENSSL_strlcat dst src n of (l, dst') \<Rightarrow> (Suc l, c # dst'))
      else OPENSSL_strlcpy (c # dst) src (Suc n))"
| "OPENSSL_strlcat dst src dst_size = OPENSSL_strlcpy dst src dst_size"

lemma strlcpy_loop_eq:
  assumes "i + dst_size \<le> length dst"
  shows "strlcpy_loop dst i src dst_size l =
    (l + length src,
     if dst_size = 0 then dst
     else take i dst @ take (dst_size - 1) src @ 0 #
       drop (i + Suc (min (dst_size - 1) (length src))) dst)"
  using assms
proof (induction dst i src dst_size l rule: strlcpy_loop.induct)
  case (1 dst i src dst_size l)
  show ?case
  proof (cases "dst_size > 1 \<and> src \<noteq> []")
    case True
    then obtain c cs m where c: "src = c # cs" "dst_size = Suc (Suc m)"
      by (metis Suc_lessD gr0_implies_Suc less_numeral_extra(3) list.exhaust not_less_eq
          One_nat_def less_imp_Suc_add plus_nat.simps(1) add_Suc_right)
    with 1 show ?thesis
      by (subst strlcpy_loop.simps)
        (simp add: take_Suc_conv_app_nth list_update_append take_update_swap)
  next
    case False
    then have "dst_size = 0 \<or> dst_size = 1 \<or> (src = [] \<and> dst_size > 0)" by auto
    with "1.prems" show ?thesis
      by (subst strlcpy_loop.simps) (auto simp: upd_conv_take_nth_drop)
  qed
qed

lemma OPENSSL_strlcpy_eq:
  assumes "dst_size \<le> length dst"
  shows "OPENSSL_strlcpy dst src dst_size =
    (length src,
     if dst_size = 0 then dst
     else take (dst_size - 1) src @ 0 # drop (Suc (min (dst_size - 1) (length src))) dst)"
  using strlcpy_loop_eq [of 0 dst_size dst src 0] assms by (simp add: OPENSSL_strlcpy_def)

lemma tolower_zero: "OPENSSL_tolower (str_char a) = 0 \<longleftrightarrow> str_char a = 0"
  by (auto simp: OPENSSL_tolower_def)

lemma str_char_zero: "0 \<notin> set a \<Longrightarrow> str_char a = 0 \<longleftrightarrow> a = []"
  by (auto simp: str_char_def signed_eq_0_iff split: list.splits)

text \<open>Two C strings compare equal exactly when they agree after lower-casing.\<close>

lemma OPENSSL_strcasecmp_eq_0:
  assumes "0 \<notin> set a" "0 \<notin> set b"
  shows "OPENSSL_strcasecmp a b = 0 \<longleftrightarrow>
    map (\<lambda>c. OPENSSL_tolower (sint c)) a = map (\<lambda>c. OPENSSL_tolower (sint c)) b"
  using assms
proof (induction a arbitrary: b)
  case Nil
  then show ?case
    by (cases b) (auto simp: OPENSSL_strcasecmp.simps [of "[]"] Let_def str_char_def
        OPENSSL_tolower_def signed_eq_0_iff)
next
  case (Cons c a)
  then show ?case
    by (cases b) (auto simp: OPENSSL_strcasecmp.simps [of "c # a"] Let_def str_char_def
        OPENSSL_tolower_def signed_eq_0_iff split: if_splits)
qed

end
