(* ===== verification/CBS_Read.thy ===== *)
theory CBS_Read
  imports Codec Mem
begin

text \<open>
  \<open>crypto/bytestring/cbs.c\<close>, first part: a \<open>CBS\<close> is a view of bytes still to be
  read, here the list of those bytes. Each reader takes the view and returns its
  result with the view it leaves behind. The integers, the fixed-size chunks and
  the length-prefixed strings are read here; ASN.1 is in \<open>CBS_ASN1\<close>.
\<close>

section \<open>Readers\<close>

type_synonym cbs = bytes

definition cbs_get :: "nat \<Rightarrow> bytes getter" where
  "cbs_get n cbs = (if length cbs < n then (None, cbs) else (Some (take n cbs), drop n cbs))"

definition CBS_skip :: "nat \<Rightarrow> unit getter" where
  "CBS_skip n = gbind (cbs_get n) (\<lambda>dummy. gret ())"

text \<open>
  \<open>CBS_stow\<close> yields the new contents of \<open>*out_ptr\<close> (\<open>None\<close> for null) and the
  success bit; \<open>CBS_strdup\<close> the copy with its terminator.
\<close>

definition CBS_stow :: "heap_env \<Rightarrow> cbs \<Rightarrow> bytes option \<times> bool" where
  "CBS_stow env cbs =
     (if length cbs = 0 then (None, True)
      else case OPENSSL_memdup env cbs of
        None \<Rightarrow> (None, False)
      | Some p \<Rightarrow> (Some p, True))"

definition CBS_strdup :: "heap_env \<Rightarrow> cbs \<Rightarrow> bytes option" where
  "CBS_strdup env cbs = OPENSSL_strndup env cbs (length cbs)"

definition OPENSSL_memchr :: "bytes \<Rightarrow> u8 \<Rightarrow> nat option" where
  "OPENSSL_memchr s c =
     (let i = length (takeWhile (\<lambda>b. b \<noteq> c) s) in if i = length s then None else Some i)"

definition CBS_contains_zero_byte :: "cbs \<Rightarrow> bool" where
  "CBS_contains_zero_byte cbs \<longleftrightarrow> OPENSSL_memchr cbs 0 \<noteq> None"

definition CBS_mem_equal :: "cbs \<Rightarrow> bytes \<Rightarrow> bool" where
  "CBS_mem_equal cbs data \<longleftrightarrow>
     (if length data \<noteq> length cbs then False else CRYPTO_memcmp cbs data = 0)"

definition cbs_get_u :: "nat \<Rightarrow> u64 getter" where
  "cbs_get_u len = gbind (cbs_get len)
     (\<lambda>data. gret (foldl (\<lambda>result d. push_bit 8 result OR ucast d) 0 data))"

definition CBS_get_u8 :: "u8 getter" where
  "CBS_get_u8 = gbind (cbs_get 1) (\<lambda>v. gret (v ! 0))"

definition CBS_get_u16 :: "u16 getter" where
  "CBS_get_u16 = gbind (cbs_get_u 2) (\<lambda>v. gret (ucast v))"

definition CBS_get_u16le :: "u16 getter" where
  "CBS_get_u16le = gbind CBS_get_u16 (\<lambda>v. gret (CRYPTO_bswap2 v))"

definition CBS_get_u24 :: "u32 getter" where
  "CBS_get_u24 = gbind (cbs_get_u 3) (\<lambda>v. gret (ucast v))"

definition CBS_get_u32 :: "u32 getter" where
  "CBS_get_u32 = gbind (cbs_get_u 4) (\<lambda>v. gret (ucast v))"

definition CBS_get_u32le :: "u32 getter" where
  "CBS_get_u32le = gbind CBS_get_u32 (\<lambda>v. gret (CRYPTO_bswap4 v))"

definition CBS_get_u64 :: "u64 getter" where
  "CBS_get_u64 = cbs_get_u 8"

definition CBS_get_u64le :: "u64 getter" where
  "CBS_get_u64le = gbind (cbs_get_u 8) (\<lambda>v. gret (CRYPTO_bswap8 v))"

definition CBS_get_last_u8 :: "u8 getter" where
  "CBS_get_last_u8 cbs =
     (if length cbs = 0 then (None, cbs)
      else (Some (cbs ! (length cbs - 1)), take (length cbs - 1) cbs))"

definition CBS_get_bytes :: "nat \<Rightarrow> cbs getter" where
  "CBS_get_bytes len = gbind (cbs_get len) (\<lambda>v. gret v)"

definition CBS_copy_bytes :: "nat \<Rightarrow> bytes getter" where
  "CBS_copy_bytes len = gbind (cbs_get len) (\<lambda>v. gret v)"

definition cbs_get_length_prefixed :: "nat \<Rightarrow> cbs getter" where
  "cbs_get_length_prefixed len_len =
     gbind (cbs_get_u len_len) (\<lambda>len. CBS_get_bytes (unat len))"

definition CBS_get_u8_length_prefixed :: "cbs getter" where
  "CBS_get_u8_length_prefixed = cbs_get_length_prefixed 1"

definition CBS_get_u16_length_prefixed :: "cbs getter" where
  "CBS_get_u16_length_prefixed = cbs_get_length_prefixed 2"

definition CBS_get_u24_length_prefixed :: "cbs getter" where
  "CBS_get_u24_length_prefixed = cbs_get_length_prefixed 3"

definition CBS_get_until_first :: "u8 \<Rightarrow> cbs getter" where
  "CBS_get_until_first c cbs =
     (case OPENSSL_memchr cbs c of
        None \<Rightarrow> (None, cbs)
      | Some split \<Rightarrow> CBS_get_bytes split cbs)"

definition UINT64_MAX :: u64 where
  "UINT64_MAX = 0xFFFFFFFFFFFFFFFF"

text \<open>The loop of \<open>CBS_get_u64_decimal\<close>, with the locals \<open>v\<close> and \<open>seen_digit\<close>.\<close>

fun decimal_loop :: "cbs \<Rightarrow> u64 \<Rightarrow> bool \<Rightarrow> u64 option \<times> cbs" where
  "decimal_loop [] v seen_digit = (if seen_digit then Some v else None, [])"
| "decimal_loop (c # cbs) v seen_digit =
     (if \<not> OPENSSL_isdigit (uint c)
      then (if seen_digit then Some v else None, c # cbs)
      else if (v = 0 \<and> seen_digit) \<or> v > UINT64_MAX div 10
           \<or> v * 10 > UINT64_MAX - (ucast c - 48)
      then (None, cbs)
      else decimal_loop cbs (v * 10 + (ucast c - 48)) True)"

definition CBS_get_u64_decimal :: "u64 getter" where
  "CBS_get_u64_decimal cbs = decimal_loop cbs 0 False"

section \<open>Reading only forward\<close>

lemma forward_cbs_get [intro]: "forward (cbs_get n)"
  by (simp add: forward_def cbs_get_def suffix_drop)

lemma forward_cbs_get_u [intro]: "forward (cbs_get_u n)"
  unfolding cbs_get_u_def by (intro forward_gbind forward_cbs_get forward_gret)

lemma forward_CBS_skip [intro]: "forward (CBS_skip n)"
  unfolding CBS_skip_def by (intro forward_gbind forward_cbs_get forward_gret)

lemma forward_CBS_get_u8 [intro]: "forward CBS_get_u8"
  unfolding CBS_get_u8_def by (intro forward_gbind forward_cbs_get forward_gret)

lemma forward_CBS_get_bytes [intro]: "forward (CBS_get_bytes n)"
  unfolding CBS_get_bytes_def by (intro forward_gbind forward_cbs_get forward_gret)

lemma forward_length_prefixed [intro]: "forward (cbs_get_length_prefixed n)"
  unfolding cbs_get_length_prefixed_def by (intro forward_gbind) auto

section \<open>What the readers return\<close>

lemma cbs_get_append [simp]: "length xs = n \<Longrightarrow> cbs_get n (xs @ rest) = (Some xs, rest)"
  by (simp add: cbs_get_def)

lemma cbs_get_eq:
  "cbs_get n s = (Some d, r) \<longleftrightarrow> length d = n \<and> s = d @ r"
  by (auto simp: cbs_get_def)

lemma CBS_get_bytes_eq [simp]: "CBS_get_bytes n = cbs_get n"
  by (rule ext) (simp add: CBS_get_bytes_def gbind_def gret_def split: prod.splits option.splits)

lemma CBS_skip_eq: "CBS_skip n s = (Some u, r) \<longleftrightarrow> n \<le> length s \<and> r = drop n s"
  by (auto simp: CBS_skip_def cbs_get_def getter_simps)

lemma CBS_get_u8_Cons [simp]: "CBS_get_u8 (b # s) = (Some b, s)"
  by (simp add: CBS_get_u8_def cbs_get_def getter_simps)

lemma CBS_get_u8_Nil [simp]: "CBS_get_u8 [] = (None, [])"
  by (simp add: CBS_get_u8_def cbs_get_def getter_simps)

lemma CBS_get_u8_eq: "CBS_get_u8 s = (Some b, r) \<longleftrightarrow> s = b # r"
  by (cases s) auto

lemma cbs_get_u_load: "cbs_get_u n = gbind (cbs_get n) (\<lambda>d. gret (load_be d))"
  by (simp add: cbs_get_u_def load_be_def)

lemma cbs_get_u_eq:
  "cbs_get_u n s = (Some v, r) \<longleftrightarrow>
     (\<exists>d. length d = n \<and> s = d @ r \<and> v = load_be d)"
  by (auto simp: cbs_get_u_load gbind_eq_Some_iff cbs_get_eq)

lemma load_be_eq_iff:
  fixes v :: u64
  assumes "length d = n" "n \<le> 8"
  shows "v = load_be d \<longleftrightarrow> unat v < 256 ^ n \<and> d = be_bytes n (unat v)"
proof
  assume "v = load_be d"
  with assms have "unat v = be_value d" by (simp add: unat_load_be_exact)
  with assms show "unat v < 256 ^ n \<and> d = be_bytes n (unat v)"
    using be_value_less [of d] be_bytes_be_value [of d] by simp
next
  assume d: "unat v < 256 ^ n \<and> d = be_bytes n (unat v)"
  with assms have "unat (load_be d :: u64) = unat v"
    by (simp add: unat_load_be_exact be_value_be_bytes)
  then show "v = load_be d" by (simp add: word_unat_eq_iff)
qed

text \<open>The integer reader inverts big-endian encoding, and accepts nothing else.\<close>

lemma cbs_get_u_iff:
  assumes "n \<le> 8"
  shows "cbs_get_u n s = (Some v, r) \<longleftrightarrow> unat v < 256 ^ n \<and> s = be_bytes n (unat v) @ r"
proof
  assume "cbs_get_u n s = (Some v, r)"
  then obtain d where "length d = n" "s = d @ r" "v = load_be d"
    by (auto simp: cbs_get_u_eq)
  with load_be_eq_iff [of d n v] assms show "unat v < 256 ^ n \<and> s = be_bytes n (unat v) @ r"
    by simp
next
  assume "unat v < 256 ^ n \<and> s = be_bytes n (unat v) @ r"
  with load_be_eq_iff [of "be_bytes n (unat v)" n v] assms
  show "cbs_get_u n s = (Some v, r)" by (auto simp: cbs_get_u_eq)
qed

lemma be_bytes_nonempty: "0 < n \<Longrightarrow> be_bytes n v \<noteq> []"
  by (cases n) auto

lemma le_bytes_nonempty: "0 < n \<Longrightarrow> le_bytes n v \<noteq> []"
  by (cases n) auto

interpretation u8c: canonical_codec "\<lambda>v. [v]" CBS_get_u8 "\<lambda>_. True"
  by unfold_locales (auto simp: CBS_get_u8_eq)

lemma CBS_get_narrow_iff:
  fixes v :: "'a::len word"
  assumes "LENGTH('a) \<le> 64" "256 ^ n \<le> (2::nat) ^ LENGTH('a)" "n \<le> 8"
  shows "gbind (cbs_get_u n) (\<lambda>v. gret (ucast v)) s = (Some v, r)
     \<longleftrightarrow> unat v < 256 ^ n \<and> s = be_bytes n (unat v) @ r"
proof -
  have small: "unat (ucast w :: 'a word) = unat w" if "unat w < 256 ^ n" for w :: u64
    using that assms(2) by (simp add: unsigned_ucast_eq take_bit_nat_eq_self)
  have big: "unat (ucast v :: u64) = unat v"
  proof -
    have "(2::nat) ^ LENGTH('a) \<le> 2 ^ 64" using assms(1) by (intro power_increasing) auto
    then have "unat v < 2 ^ 64"
      by (rule less_le_trans [OF unsigned_less [of v, where ?'a = nat]])
    then show ?thesis by (simp add: unsigned_ucast_eq take_bit_nat_eq_self)
  qed
  show ?thesis
  proof
    assume "gbind (cbs_get_u n) (\<lambda>v. gret (ucast v)) s = (Some v, r)"
    then obtain w where "cbs_get_u n s = (Some w, r)" "v = ucast w"
      by (auto simp: gbind_eq_Some_iff)
    with small [of w] show "unat v < 256 ^ n \<and> s = be_bytes n (unat v) @ r"
      by (simp add: cbs_get_u_iff assms)
  next
    assume "unat v < 256 ^ n \<and> s = be_bytes n (unat v) @ r"
    then have "cbs_get_u n s = (Some (ucast v), r)"
      by (simp add: cbs_get_u_iff assms big)
    moreover have "ucast (ucast v :: u64) = v"
      using unsigned_less [of v, where ?'a = nat]
      by (simp add: word_unat_eq_iff unsigned_ucast_eq [of "ucast v :: u64"] big
          take_bit_nat_eq_self)
    ultimately show "gbind (cbs_get_u n) (\<lambda>v. gret (ucast v)) s = (Some v, r)"
      by (simp add: gret_def)
  qed
qed

lemma CBS_get_u16_iff: "CBS_get_u16 s = (Some v, r) \<longleftrightarrow> s = be_bytes 2 (unat v) @ r"
  using unsigned_less [of v, where ?'a = nat]
  by (simp add: CBS_get_u16_def CBS_get_narrow_iff)

lemma CBS_get_u24_iff:
  "CBS_get_u24 s = (Some v, r) \<longleftrightarrow> unat v < 2 ^ 24 \<and> s = be_bytes 3 (unat v) @ r"
  by (simp add: CBS_get_u24_def CBS_get_narrow_iff)

lemma CBS_get_u32_iff: "CBS_get_u32 s = (Some v, r) \<longleftrightarrow> s = be_bytes 4 (unat v) @ r"
  using unsigned_less [of v, where ?'a = nat]
  by (simp add: CBS_get_u32_def CBS_get_narrow_iff)

lemma CBS_get_u64_iff: "CBS_get_u64 s = (Some v, r) \<longleftrightarrow> s = be_bytes 8 (unat v) @ r"
  using unsigned_less [of v, where ?'a = nat]
  by (simp add: CBS_get_u64_def cbs_get_u_iff)

interpretation u16c: canonical_codec "\<lambda>v. be_bytes 2 (unat v)" CBS_get_u16 "\<lambda>_. True"
  by unfold_locales (auto simp: CBS_get_u16_iff be_bytes_nonempty)

interpretation u24c: canonical_codec "\<lambda>v. be_bytes 3 (unat v)" CBS_get_u24 "\<lambda>v. unat v < 2 ^ 24"
  by unfold_locales (auto simp: CBS_get_u24_iff be_bytes_nonempty)

interpretation u32c: canonical_codec "\<lambda>v. be_bytes 4 (unat v)" CBS_get_u32 "\<lambda>_. True"
  by unfold_locales (auto simp: CBS_get_u32_iff be_bytes_nonempty)

interpretation u64c: canonical_codec "\<lambda>v. be_bytes 8 (unat v)" CBS_get_u64 "\<lambda>_. True"
  by unfold_locales (auto simp: CBS_get_u64_iff be_bytes_nonempty)

subsection \<open>Little-endian integers\<close>

lemma load_be_be_bytes:
  fixes v :: "'a::len word"
  assumes "LENGTH('a) = 8 * n" "0 < n"
  shows "load_be (be_bytes n (unat v)) = v"
proof -
  have "(256::nat) ^ n = 2 ^ LENGTH('a)" by (simp add: assms(1) power_mult)
  moreover from assms have "8 \<le> LENGTH('a)" by simp
  ultimately have "unat (load_be (be_bytes n (unat v)) :: 'a word) = unat v"
    by (simp add: unat_load_be be_value_be_bytes)
  then show ?thesis by (simp add: word_unat_eq_iff)
qed

lemma be_bytes_load_be:
  assumes "LENGTH('a::len) = 8 * length d" "d \<noteq> []"
  shows "be_bytes (length d) (unat (load_be d :: 'a word)) = d"
proof -
  have "(256::nat) ^ length d = 2 ^ LENGTH('a)" by (simp add: assms(1) power_mult)
  moreover from assms have "8 \<le> LENGTH('a)" by (cases d) auto
  ultimately have "unat (load_be d :: 'a word) = be_value d"
    using be_value_less [of d] by (simp add: unat_load_be)
  then show ?thesis by (simp add: be_bytes_be_value)
qed

lemma length_2: "length xs = 2 \<Longrightarrow> \<exists>a b. xs = [a, b]"
  by (auto simp: length_Suc_conv numeral_eq_Suc)

lemma length_4: "length xs = 4 \<Longrightarrow> \<exists>a b c d. xs = [a, b, c, d]"
  by (auto simp: length_Suc_conv numeral_eq_Suc)

lemma length_8: "length xs = 8 \<Longrightarrow> \<exists>a b c d e f g h. xs = [a, b, c, d, e, f, g, h]"
  by (auto simp: length_Suc_conv numeral_eq_Suc)

lemma u16_load: "\<exists>a b. v = load_be [a, b]" for v :: u16
  using load_be_be_bytes [of 2 v] length_2 [of "be_bytes 2 (unat v)"] by fastforce

lemma u32_load: "\<exists>a b c d. v = load_be [a, b, c, d]" for v :: u32
  using load_be_be_bytes [of 4 v] length_4 [of "be_bytes 4 (unat v)"] by fastforce

lemma u64_load: "\<exists>a b c d e f g h. v = load_be [a, b, c, d, e, f, g, h]" for v :: u64
  using load_be_be_bytes [of 8 v] length_8 [of "be_bytes 8 (unat v)"] by fastforce

lemma bytes_load_2: "be_bytes 2 (unat (load_be [a, b] :: u16)) = [a, b]"
  using be_bytes_load_be [of "[a, b]", where ?'a = 16]
  by (simp add: numeral_eq_Suc del: be_bytes.simps)

lemma bytes_load_4: "be_bytes 4 (unat (load_be [a, b, c, d] :: u32)) = [a, b, c, d]"
  using be_bytes_load_be [of "[a, b, c, d]", where ?'a = 32]
  by (simp add: numeral_eq_Suc del: be_bytes.simps)

lemma bytes_load_8:
  "be_bytes 8 (unat (load_be [a, b, c, d, e, f, g, h] :: u64)) = [a, b, c, d, e, f, g, h]"
  using be_bytes_load_be [of "[a, b, c, d, e, f, g, h]", where ?'a = 64]
  by (simp add: numeral_eq_Suc del: be_bytes.simps)

lemma bswap2_bytes: "be_bytes 2 (unat (CRYPTO_bswap2 v)) = le_bytes 2 (unat v)"
  using u16_load [of v] by (auto simp: CRYPTO_bswap2_load bytes_load_2 simp flip: rev_be_bytes)

lemma bswap4_bytes: "be_bytes 4 (unat (CRYPTO_bswap4 v)) = le_bytes 4 (unat v)"
  using u32_load [of v] by (auto simp: CRYPTO_bswap4_load bytes_load_4 simp flip: rev_be_bytes)

lemma bswap8_bytes: "be_bytes 8 (unat (CRYPTO_bswap8 v)) = le_bytes 8 (unat v)"
  using u64_load [of v] by (auto simp: CRYPTO_bswap8_load bytes_load_8 simp flip: rev_be_bytes)

lemma bswap2_invol [simp]: "CRYPTO_bswap2 (CRYPTO_bswap2 v) = v"
  using u16_load [of v] by (auto simp: CRYPTO_bswap2_load)

lemma bswap4_invol [simp]: "CRYPTO_bswap4 (CRYPTO_bswap4 v) = v"
  using u32_load [of v] by (auto simp: CRYPTO_bswap4_load)

lemma bswap8_invol [simp]: "CRYPTO_bswap8 (CRYPTO_bswap8 v) = v"
  using u64_load [of v] by (auto simp: CRYPTO_bswap8_load)

lemma gbind_map_iff:
  assumes "\<And>v. g (g v) = v"
  shows "gbind p (\<lambda>v. gret (g v)) s = (Some v, r) \<longleftrightarrow> p s = (Some (g v), r)"
  by (auto simp: gbind_eq_Some_iff assms)

lemma CBS_get_u16le_iff: "CBS_get_u16le s = (Some v, r) \<longleftrightarrow> s = le_bytes 2 (unat v) @ r"
  by (simp add: CBS_get_u16le_def gbind_map_iff CBS_get_u16_iff bswap2_bytes)

lemma CBS_get_u32le_iff: "CBS_get_u32le s = (Some v, r) \<longleftrightarrow> s = le_bytes 4 (unat v) @ r"
  by (simp add: CBS_get_u32le_def gbind_map_iff CBS_get_u32_iff bswap4_bytes)

lemma CBS_get_u64le_iff: "CBS_get_u64le s = (Some v, r) \<longleftrightarrow> s = le_bytes 8 (unat v) @ r"
  using CBS_get_u64_iff [of s "CRYPTO_bswap8 v" r]
  by (simp add: CBS_get_u64le_def gbind_map_iff bswap8_bytes flip: CBS_get_u64_def)

interpretation u16lec: canonical_codec "\<lambda>v. le_bytes 2 (unat v)" CBS_get_u16le "\<lambda>_. True"
  by unfold_locales (auto simp: CBS_get_u16le_iff le_bytes_nonempty)

interpretation u32lec: canonical_codec "\<lambda>v. le_bytes 4 (unat v)" CBS_get_u32le "\<lambda>_. True"
  by unfold_locales (auto simp: CBS_get_u32le_iff le_bytes_nonempty)

interpretation u64lec: canonical_codec "\<lambda>v. le_bytes 8 (unat v)" CBS_get_u64le "\<lambda>_. True"
  by unfold_locales (auto simp: CBS_get_u64le_iff le_bytes_nonempty)

subsection \<open>Length-prefixed strings\<close>

definition length_prefixed :: "nat \<Rightarrow> bytes \<Rightarrow> bytes" where
  "length_prefixed len_len x = be_bytes len_len (length x) @ x"

lemma cbs_get_length_prefixed_iff:
  assumes "n \<le> 7"
  shows "cbs_get_length_prefixed n s = (Some x, r) \<longleftrightarrow>
    length x < 256 ^ n \<and> s = length_prefixed n x @ r"
proof -
  have "(256::nat) ^ n \<le> 256 ^ 7" using assms by (intro power_increasing) auto
  then have small: "l < 2 ^ 64" if "l < 256 ^ n" for l :: nat using that by simp
  have "cbs_get_length_prefixed n s = (Some x, r) \<longleftrightarrow>
    (\<exists>v :: u64. unat v < 256 ^ n \<and> length x = unat v \<and> s = be_bytes n (unat v) @ x @ r)"
    using assms
    by (auto simp: cbs_get_length_prefixed_def gbind_eq_Some_iff cbs_get_u_iff cbs_get_eq)
  also have "\<dots> \<longleftrightarrow> length x < 256 ^ n \<and> s = be_bytes n (length x) @ x @ r"
    using small [of "length x"]
    by (auto simp: unat_of_nat intro!: exI [of _ "of_nat (length x)"])
  finally show ?thesis by (simp add: length_prefixed_def)
qed

lemma length_prefixed_nonempty: "0 < n \<Longrightarrow> length_prefixed n x \<noteq> []"
  by (simp add: length_prefixed_def be_bytes_nonempty)

interpretation u8lp: canonical_codec "length_prefixed 1" CBS_get_u8_length_prefixed
  "\<lambda>x. length x < 256"
  by unfold_locales (auto simp: CBS_get_u8_length_prefixed_def cbs_get_length_prefixed_iff
      length_prefixed_nonempty)

interpretation u16lp: canonical_codec "length_prefixed 2" CBS_get_u16_length_prefixed
  "\<lambda>x. length x < 65536"
  by unfold_locales (auto simp: CBS_get_u16_length_prefixed_def cbs_get_length_prefixed_iff
      length_prefixed_nonempty)

interpretation u24lp: canonical_codec "length_prefixed 3" CBS_get_u24_length_prefixed
  "\<lambda>x. length x < 16777216"
  by unfold_locales (auto simp: CBS_get_u24_length_prefixed_def cbs_get_length_prefixed_iff
      length_prefixed_nonempty)

subsection \<open>Searching\<close>

lemma memchr_length: "length (takeWhile (\<lambda>b. b \<noteq> c) s) = length s \<longleftrightarrow> c \<notin> set s"
  by (induction s) auto

lemma OPENSSL_memchr_None: "OPENSSL_memchr s c = None \<longleftrightarrow> c \<notin> set s"
  by (simp add: OPENSSL_memchr_def Let_def memchr_length)

lemma OPENSSL_memchr_Some:
  assumes "OPENSSL_memchr s c = Some i"
  shows "i < length s" "s ! i = c" "c \<notin> set (take i s)"
proof -
  have i: "i = length (takeWhile (\<lambda>b. b \<noteq> c) s)" "i \<noteq> length s"
    using assms by (auto simp: OPENSSL_memchr_def Let_def split: if_splits)
  then show "i < length s"
    using length_takeWhile_le [of "\<lambda>b. b \<noteq> c" s] by simp
  with i(1) show "s ! i = c" using nth_length_takeWhile by fastforce
  have "take i s = takeWhile (\<lambda>b. b \<noteq> c) s"
    by (simp only: i(1) takeWhile_eq_take [symmetric])
  then show "c \<notin> set (take i s)" by (auto dest: set_takeWhileD)
qed

section \<open>Decimal numbers\<close>

text \<open>What \<open>snprintf\<close> writes for an unsigned number in decimal.\<close>

fun dec_digits :: "nat \<Rightarrow> bytes" where
  "dec_digits n = (if n < 10 then [48 + of_nat n]
     else dec_digits (n div 10) @ [48 + of_nat (n mod 10)])"

declare dec_digits.simps [simp del]

definition is_digit_byte :: "u8 \<Rightarrow> bool" where
  "is_digit_byte c \<longleftrightarrow> 48 \<le> unat c \<and> unat c \<le> 57"

lemma OPENSSL_isdigit_byte [simp]: "OPENSSL_isdigit (uint c) \<longleftrightarrow> is_digit_byte c" for c :: u8
proof -
  have "uint c = int (unat c)" by simp
  then show ?thesis unfolding OPENSSL_isdigit_def is_digit_byte_def by linarith
qed

lemma unat_digit:
  assumes "is_digit_byte c"
  shows "unat (ucast c - 48 :: u64) = unat c - 48"
proof -
  have "unat (ucast c :: u64) = unat c"
    by (simp add: unsigned_ucast_eq take_bit_nat_eq_self less_trans [OF u8_less])
  moreover from this assms have "(48 :: u64) \<le> ucast c"
    by (simp add: word_le_nat_alt is_digit_byte_def)
  ultimately show ?thesis by (simp add: unat_sub)
qed

text \<open>The overflow test of the loop, read on numbers.\<close>

lemma decimal_overflow_iff:
  fixes v e :: u64
  assumes "unat e \<le> 9"
  shows "(v > UINT64_MAX div 10 \<or> v * 10 > UINT64_MAX - e) \<longleftrightarrow> unat v * 10 + unat e \<ge> 2 ^ 64"
proof -
  have q: "unat (UINT64_MAX div 10) = (2 ^ 64 - 1) div 10"
    by (simp add: UINT64_MAX_def unat_div)
  have m: "unat (UINT64_MAX - e) = 2 ^ 64 - 1 - unat e"
    using assms by (simp add: UINT64_MAX_def unat_sub word_le_nat_alt)
  show ?thesis
  proof (cases "v > UINT64_MAX div 10")
    case True
    then have "unat v > (2 ^ 64 - 1) div 10" by (simp add: word_less_nat_alt q)
    then have "unat v * 10 + unat e \<ge> 2 ^ 64" by simp
    with True show ?thesis by simp
  next
    case False
    then have "unat v \<le> (2 ^ 64 - 1) div 10" by (simp add: word_less_nat_alt q)
    then have "unat v * 10 < 2 ^ 64" by simp
    then have "unat (v * 10) = unat v * 10" by (simp add: unat_word_ariths)
    with False assms show ?thesis by (auto simp: word_less_nat_alt m)
  qed
qed

lemma decimal_step:
  assumes "is_digit_byte c" "unat v * 10 + (unat c - 48) < 2 ^ 64"
  shows "unat (v * 10 + (ucast c - 48) :: u64) = unat v * 10 + (unat c - 48)"
  using assms by (simp add: unat_word_ariths unat_digit)

lemma digit_le_9: "is_digit_byte c \<Longrightarrow> unat (ucast c - 48 :: u64) \<le> 9"
  by (subst unat_digit) (auto simp only: is_digit_byte_def)

lemma decimal_loop_digit:
  assumes "is_digit_byte c"
  shows "decimal_loop (c # s) v seen =
    (if (v = 0 \<and> seen) \<or> 2 ^ 64 \<le> unat v * 10 + (unat c - 48) then (None, s)
     else decimal_loop s (v * 10 + (ucast c - 48)) True)"
  using decimal_overflow_iff [OF digit_le_9 [OF assms], of v] assms
  by (auto simp: unat_digit)

lemma unat_digit_byte [simp]: "d < 10 \<Longrightarrow> unat (48 + of_nat d :: u8) = 48 + d"
  by (simp add: unat_word_ariths unat_of_nat)

lemma is_digit_byte_of_nat [simp]: "d < 10 \<Longrightarrow> is_digit_byte (48 + of_nat d)"
  by (simp add: is_digit_byte_def)

lemma dec_digits_loop:
  assumes "n < 2 ^ 64"
  shows "decimal_loop (dec_digits n @ s) 0 False = decimal_loop s (of_nat n) True"
  using assms
proof (induction n arbitrary: s rule: dec_digits.induct)
  case (1 n)
  show ?case
  proof (cases "n < 10")
    case True
    let ?c = "48 + of_nat n :: u8"
    have "unat (ucast ?c - 48 :: u64) = n" using True by (simp add: unat_digit)
    then have "ucast ?c - 48 = (of_nat n :: u64)"
      using True by (simp add: word_unat_eq_iff unat_of_nat)
    then show ?thesis
      using True decimal_loop_digit [OF is_digit_byte_of_nat [OF True], of s 0 False]
      by (simp add: dec_digits.simps [of n] del: decimal_loop.simps)
  next
    case False
    let ?c = "48 + of_nat (n mod 10) :: u8" and ?v = "of_nat (n div 10) :: u64"
    have c: "is_digit_byte ?c" "unat ?c - 48 = n mod 10" by simp_all
    have v: "unat ?v = n div 10" using "1.prems" by (simp add: unat_of_nat)
    with False have "?v \<noteq> 0" by (auto simp: word_unat_eq_iff)
    moreover have less: "unat ?v * 10 + (unat ?c - 48) < 2 ^ 64"
      unfolding v c(2) using "1.prems" by simp
    moreover have "?v * 10 + (ucast ?c - 48) = of_nat n"
      unfolding word_unat_eq_iff decimal_step [OF c(1) less] v c(2)
      using "1.prems" by (simp add: unat_of_nat)
    ultimately have "decimal_loop (?c # s) ?v True = decimal_loop s (of_nat n) True"
      by (simp add: decimal_loop_digit [OF c(1)] del: decimal_loop.simps)
    with 1 False show ?thesis
      by (simp add: dec_digits.simps [of n] del: decimal_loop.simps)
  qed
qed

text \<open>A printed number is read back, whatever non-digit follows it.\<close>

lemma CBS_get_u64_decimal_digits:
  assumes "s = [] \<or> \<not> is_digit_byte (hd s)"
  shows "CBS_get_u64_decimal (dec_digits (unat v) @ s) = (Some v, s)"
proof -
  have "unat v < 2 ^ 64" using unsigned_less [of v, where ?'a = nat] by simp
  then have "CBS_get_u64_decimal (dec_digits (unat v) @ s) = decimal_loop s v True"
    using dec_digits_loop [of "unat v" s] by (simp add: CBS_get_u64_decimal_def)
  with assms show ?thesis by (cases s) auto
qed

end
