(* ===== verification/CBS_ASN1.thy ===== *)
theory CBS_ASN1
  imports CBS_Read
begin

text \<open>
  \<open>crypto/bytestring/cbs.c\<close>, second part: DER and BER elements. A tag is a
  32-bit number with class and constructed bit in its upper bits, as
  \<open>include/openssl/bytestring.h\<close> lays it out. The reader of one element returns
  the out-parameters of the C function as a record.
\<close>

section \<open>Tags\<close>

type_synonym asn1_tag = u32

definition CBS_ASN1_TAG_SHIFT :: nat where
  "CBS_ASN1_TAG_SHIFT = 24"

definition CBS_ASN1_CONSTRUCTED :: asn1_tag where
  "CBS_ASN1_CONSTRUCTED = 0x20000000"

definition CBS_ASN1_TAG_NUMBER_MASK :: asn1_tag where
  "CBS_ASN1_TAG_NUMBER_MASK = 0x1FFFFFFF"

definition CBS_ASN1_BOOLEAN :: asn1_tag where "CBS_ASN1_BOOLEAN = 1"
definition CBS_ASN1_INTEGER :: asn1_tag where "CBS_ASN1_INTEGER = 2"
definition CBS_ASN1_OCTETSTRING :: asn1_tag where "CBS_ASN1_OCTETSTRING = 4"
definition CBS_ASN1_SEQUENCE :: asn1_tag where "CBS_ASN1_SEQUENCE = 0x10 OR CBS_ASN1_CONSTRUCTED"

text \<open>The loop of \<open>parse_base128_integer\<close>, with the local \<open>v\<close>.\<close>

fun base128_loop :: "cbs \<Rightarrow> u64 \<Rightarrow> u64 option \<times> cbs" where
  "base128_loop [] v = (None, [])"
| "base128_loop (b # cbs) v =
     (if drop_bit (64 - 7) v \<noteq> 0 then (None, cbs)
      else if v = 0 \<and> b = 0x80 then (None, cbs)
      else let v' = push_bit 7 v OR ucast (b AND 0x7f) in
        if b AND 0x80 \<noteq> 0 then base128_loop cbs v' else (Some v', cbs))"

definition parse_base128_integer :: "u64 getter" where
  "parse_base128_integer cbs = base128_loop cbs 0"

definition parse_asn1_tag :: "asn1_tag getter" where
  "parse_asn1_tag =
     gbind CBS_get_u8 (\<lambda>tag_byte.
       let tag = push_bit CBS_ASN1_TAG_SHIFT (ucast tag_byte AND 0xe0);
           tag_number = ucast (tag_byte AND 0x1f) in
       gbind (if tag_number = 0x1f
              then gbind parse_base128_integer (\<lambda>v.
                gbind (gassert (\<not> (v > ucast CBS_ASN1_TAG_NUMBER_MASK \<or> v < 0x1f)))
                  (\<lambda>_. gret (ucast v)))
              else gret tag_number)
       (\<lambda>tag_number. let tag = tag OR tag_number in
         gbind (gassert (tag AND NOT CBS_ASN1_CONSTRUCTED \<noteq> 0)) (\<lambda>_. gret tag)))"

section \<open>Elements\<close>

record asn1_element =
  el_out :: cbs
  el_tag :: asn1_tag
  el_header_len :: nat
  el_ber_found :: bool
  el_indefinite :: bool

definition cbs_take_element ::
  "cbs \<Rightarrow> asn1_tag \<Rightarrow> nat \<Rightarrow> nat \<Rightarrow> bool \<Rightarrow> bool \<Rightarrow> asn1_element option \<times> cbs" where
  "cbs_take_element cbs tag header_len len ber indef =
     gbind (CBS_get_bytes len) (\<lambda>out. gret
       \<lparr>el_out = out, el_tag = tag, el_header_len = header_len,
        el_ber_found = ber, el_indefinite = indef\<rparr>) cbs"

definition cbs_get_any_asn1_element :: "bool \<Rightarrow> asn1_element getter" where
  "cbs_get_any_asn1_element ber_ok cbs =
    (case parse_asn1_tag cbs of (None, _) \<Rightarrow> (None, cbs) | (Some tag, header) \<Rightarrow>
    (case CBS_get_u8 header of (None, _) \<Rightarrow> (None, cbs) | (Some length_byte, header) \<Rightarrow>
      let header_len = length cbs - length header in
      if length_byte AND 0x80 = 0
      then cbs_take_element cbs tag header_len (unat length_byte + header_len) False False
      else let num_bytes = unat (length_byte AND 0x7f) in
        if ber_ok \<and> tag AND CBS_ASN1_CONSTRUCTED \<noteq> 0 \<and> num_bytes = 0
        then cbs_take_element cbs tag header_len header_len True True
        else if num_bytes = 0 \<or> num_bytes > 4 then (None, cbs)
        else (case cbs_get_u num_bytes header of (None, _) \<Rightarrow> (None, cbs) | (Some len64, _) \<Rightarrow>
          let not_short = len64 < 128;
              not_minimal = drop_bit ((num_bytes - 1) * 8) len64 = 0;
              len = unat len64 in
          if \<not> ber_ok \<and> not_short then (None, cbs)
          else if \<not> ber_ok \<and> not_minimal then (None, cbs)
          else if size_add (size_add len header_len) num_bytes < len then (None, cbs)
          else cbs_take_element cbs tag (header_len + num_bytes)
            (size_add len (header_len + num_bytes)) (not_short \<or> not_minimal) False)))"

definition CBS_get_any_asn1_element :: "asn1_element getter" where
  "CBS_get_any_asn1_element = cbs_get_any_asn1_element False"

definition CBS_get_any_ber_asn1_element :: "asn1_element getter" where
  "CBS_get_any_ber_asn1_element = cbs_get_any_asn1_element True"

text \<open>
  \<open>CBS_get_any_asn1\<close> with non-null \<open>out\<close>: the contents and the tag. With a null
  \<open>out\<close> the C function passes the null pointer on to \<open>CBS_skip\<close>.
\<close>

definition CBS_get_any_asn1 :: "(cbs \<times> asn1_tag) getter" where
  "CBS_get_any_asn1 = gbind CBS_get_any_asn1_element (\<lambda>el s.
     case CBS_skip (el_header_len el) (el_out el) of
       (None, _) \<Rightarrow> (None, s)
     | (Some _, out) \<Rightarrow> (Some (out, el_tag el), s))"

definition cbs_get_asn1 :: "asn1_tag \<Rightarrow> bool \<Rightarrow> cbs getter" where
  "cbs_get_asn1 tag_value skip_header = gbind CBS_get_any_asn1_element (\<lambda>el s.
     if el_tag el \<noteq> tag_value then (None, s)
     else if \<not> skip_header then (Some (el_out el), s)
     else case CBS_skip (el_header_len el) (el_out el) of
       (None, _) \<Rightarrow> (None, s)
     | (Some _, out) \<Rightarrow> (Some out, s))"

definition CBS_get_asn1 :: "asn1_tag \<Rightarrow> cbs getter" where
  "CBS_get_asn1 tag_value = cbs_get_asn1 tag_value True"

definition CBS_get_asn1_element :: "asn1_tag \<Rightarrow> cbs getter" where
  "CBS_get_asn1_element tag_value = cbs_get_asn1 tag_value False"

definition CBS_peek_asn1_tag :: "cbs \<Rightarrow> asn1_tag \<Rightarrow> bool" where
  "CBS_peek_asn1_tag cbs tag_value \<longleftrightarrow>
     (case parse_asn1_tag cbs of (None, _) \<Rightarrow> False | (Some actual_tag, _) \<Rightarrow> tag_value = actual_tag)"

section \<open>INTEGER, BOOLEAN, BIT STRING and OBJECT IDENTIFIER bodies\<close>

text \<open>The result is \<open>None\<close> for an invalid body, else whether it is negative.\<close>

definition CBS_is_valid_asn1_integer :: "cbs \<Rightarrow> bool option" where
  "CBS_is_valid_asn1_integer cbs =
     (case CBS_get_u8 cbs of
        (None, _) \<Rightarrow> None
      | (Some first_byte, copy) \<Rightarrow>
          let is_negative = (first_byte AND 0x80 \<noteq> 0) in
          (case CBS_get_u8 copy of
             (None, _) \<Rightarrow> Some is_negative
           | (Some second_byte, _) \<Rightarrow>
               if (first_byte = 0 \<and> second_byte AND 0x80 = 0)
                  \<or> (first_byte = 0xff \<and> second_byte AND 0x80 \<noteq> 0)
               then None else Some is_negative))"

definition CBS_is_unsigned_asn1_integer :: "cbs \<Rightarrow> bool" where
  "CBS_is_unsigned_asn1_integer cbs \<longleftrightarrow> CBS_is_valid_asn1_integer cbs = Some False"

text \<open>The loop of \<open>CBS_get_asn1_uint64\<close> over the body.\<close>

fun asn1_uint64_loop :: "bytes \<Rightarrow> u64 \<Rightarrow> u64 option" where
  "asn1_uint64_loop [] out = Some out"
| "asn1_uint64_loop (d # ds) out =
     (if drop_bit 56 out \<noteq> 0 then None
      else asn1_uint64_loop ds (push_bit 8 out OR ucast d))"

definition CBS_get_asn1_uint64 :: "u64 getter" where
  "CBS_get_asn1_uint64 = gbind (CBS_get_asn1 CBS_ASN1_INTEGER) (\<lambda>bs s.
     if \<not> CBS_is_unsigned_asn1_integer bs then (None, s)
     else (asn1_uint64_loop bs 0, s))"

text \<open>The result is the two's complement bit pattern of the \<open>int64_t\<close>.\<close>

definition CBS_get_asn1_int64 :: "u64 getter" where
  "CBS_get_asn1_int64 = gbind (CBS_get_asn1 CBS_ASN1_INTEGER) (\<lambda>bs s.
     case CBS_is_valid_asn1_integer bs of
       None \<Rightarrow> (None, s)
     | Some is_negative \<Rightarrow>
         if length bs > 8 then (None, s)
         else (Some (load_be (replicate (8 - length bs) (if is_negative then 0xff else 0) @ bs)), s))"

definition CBS_get_asn1_bool :: "bool getter" where
  "CBS_get_asn1_bool = gbind (CBS_get_asn1 CBS_ASN1_BOOLEAN) (\<lambda>bs s.
     if length bs \<noteq> 1 then (None, s)
     else let value = bs ! 0 in
       if value \<noteq> 0 \<and> value \<noteq> 0xff then (None, s) else (Some (value \<noteq> 0), s))"

text \<open>Optional elements: \<open>None\<close> inside \<open>Some\<close> is an absent element.\<close>

definition CBS_get_optional_asn1 :: "asn1_tag \<Rightarrow> cbs option getter" where
  "CBS_get_optional_asn1 tag cbs =
     (if CBS_peek_asn1_tag cbs tag
      then gbind (CBS_get_asn1 tag) (\<lambda>out. gret (Some out)) cbs
      else (Some None, cbs))"

definition CBS_get_optional_asn1_octet_string :: "asn1_tag \<Rightarrow> (cbs \<times> bool) getter" where
  "CBS_get_optional_asn1_octet_string tag = gbind (CBS_get_optional_asn1 tag) (\<lambda>child s.
     case child of
       None \<Rightarrow> (Some ([], False), s)
     | Some child \<Rightarrow>
         (case CBS_get_asn1 CBS_ASN1_OCTETSTRING child of
            (None, _) \<Rightarrow> (None, s)
          | (Some out, child) \<Rightarrow> if length child \<noteq> 0 then (None, s) else (Some (out, True), s)))"

definition CBS_get_optional_asn1_uint64 :: "asn1_tag \<Rightarrow> u64 \<Rightarrow> u64 getter" where
  "CBS_get_optional_asn1_uint64 tag default_value = gbind (CBS_get_optional_asn1 tag) (\<lambda>child s.
     case child of
       None \<Rightarrow> (Some default_value, s)
     | Some child \<Rightarrow>
         (case CBS_get_asn1_uint64 child of
            (None, _) \<Rightarrow> (None, s)
          | (Some out, child) \<Rightarrow> if length child \<noteq> 0 then (None, s) else (Some out, s)))"

definition CBS_get_optional_asn1_bool :: "asn1_tag \<Rightarrow> int \<Rightarrow> int getter" where
  "CBS_get_optional_asn1_bool tag default_value = gbind (CBS_get_optional_asn1 tag) (\<lambda>child s.
     case child of
       None \<Rightarrow> (Some default_value, s)
     | Some child \<Rightarrow>
         (case CBS_get_asn1 CBS_ASN1_BOOLEAN child of
            (None, _) \<Rightarrow> (None, s)
          | (Some child2, child) \<Rightarrow>
              if length child2 \<noteq> 1 \<or> length child \<noteq> 0 then (None, s)
              else let boolean = child2 ! 0 in
                if boolean = 0 then (Some 0, s)
                else if boolean = 0xff then (Some 1, s)
                else (None, s)))"

definition CBS_is_valid_asn1_bitstring :: "cbs \<Rightarrow> bool" where
  "CBS_is_valid_asn1_bitstring cbs =
     (case CBS_get_u8 cbs of
        (None, _) \<Rightarrow> False
      | (Some num_unused_bits, s) \<Rightarrow>
          if num_unused_bits > 7 then False
          else if num_unused_bits = 0 then True
          else (case CBS_get_last_u8 s of
             (None, _) \<Rightarrow> False
           | (Some last_byte, _) \<Rightarrow> last_byte AND (push_bit (unat num_unused_bits) 1 - 1) = 0))"

definition CBS_asn1_bitstring_has_bit :: "cbs \<Rightarrow> u32 \<Rightarrow> bool" where
  "CBS_asn1_bitstring_has_bit cbs i =
     (if \<not> CBS_is_valid_asn1_bitstring cbs then False
      else let byte_num = unat (drop_bit 3 i + 1); bit_num = unat (7 - (i AND 7)) in
        byte_num < length cbs \<and> (cbs ! byte_num) AND push_bit bit_num 1 \<noteq> 0)"

text \<open>The loop of \<open>CBS_is_valid_asn1_oid\<close>, with the local \<open>prev\<close>.\<close>

fun asn1_oid_loop :: "cbs \<Rightarrow> u8 \<Rightarrow> bool" where
  "asn1_oid_loop [] prev \<longleftrightarrow> prev AND 0x80 = 0"
| "asn1_oid_loop (v # copy) prev \<longleftrightarrow>
     (if prev AND 0x80 = 0 \<and> v = 0x80 then False else asn1_oid_loop copy v)"

definition CBS_is_valid_asn1_oid :: "cbs \<Rightarrow> bool" where
  "CBS_is_valid_asn1_oid cbs \<longleftrightarrow> (if length cbs = 0 then False else asn1_oid_loop cbs 0)"

section \<open>Base-128 integers\<close>

text \<open>
  The minimal base-128 encoding: the bytes before the last have their top bit
  set, and the first is not \<open>0x80\<close>.
\<close>

fun base128_high :: "nat \<Rightarrow> bytes" where
  "base128_high n = (if n = 0 then [] else base128_high (n div 128) @ [128 + of_nat (n mod 128)])"

declare base128_high.simps [simp del]

definition base128 :: "nat \<Rightarrow> bytes" where
  "base128 n = base128_high (n div 128) @ [of_nat (n mod 128)]"

lemma base128_high_0 [simp]: "base128_high 0 = []"
  by (simp add: base128_high.simps)

lemma u8_top_bit: "b AND 0x80 = 0 \<longleftrightarrow> unat b < 128" for b :: u8
proof -
  have "b AND 0x80 = 0 \<longleftrightarrow> \<not> bit b 7"
    using and_exp_eq_0_iff_not_bit [of b 7] by simp
  also have "\<dots> \<longleftrightarrow> \<not> bit (unat b) 7" by (simp add: bit_unsigned_iff)
  also have "\<dots> \<longleftrightarrow> unat b < 128"
  proof (cases "unat b < 128")
    case False
    have "unat b \<le> 255" using u8_less [of b] by linarith
    then have "unat b div 128 \<le> 1" using div_le_mono [of "unat b" 255 128] by simp
    moreover have "unat b div 128 \<noteq> 0" using False by (simp add: div_eq_0_iff)
    ultimately have "unat b div 128 = 1" by linarith
    with False show ?thesis by (simp add: bit_iff_odd)
  qed (simp add: bit_iff_odd)
  finally show ?thesis .
qed

lemma u8_low_bits: "unat (b AND 0x7f) = unat b mod 128" for b :: u8
  using unat_and_mask [of b 7] by (simp add: mask_eq_exp_minus_1)

lemma unat_ucast_u8 [simp]:
  "8 \<le> LENGTH('a) \<Longrightarrow> unat (ucast (b :: u8) :: 'a::len word) = unat b"
proof -
  assume "8 \<le> LENGTH('a)"
  then have "(2::nat) ^ 8 \<le> 2 ^ LENGTH('a)" by (intro power_increasing) auto
  then have "unat b < 2 ^ LENGTH('a)" by (intro less_le_trans [OF u8_less]) simp
  then show ?thesis by (simp add: unsigned_ucast_eq take_bit_nat_eq_self)
qed

lemma drop_bit_eq_0_iff: "drop_bit n (v :: 'a::len word) = 0 \<longleftrightarrow> unat v < 2 ^ n"
proof -
  have "unat (drop_bit n v) = unat v div 2 ^ n"
    by (simp only: unat_drop_bit_eq drop_bit_eq_div [where 'a = nat])
  then show ?thesis by (metis div_eq_0_iff power_not_zero unat_eq_zero zero_neq_numeral)
qed

lemma base128_step:
  assumes "unat v < 2 ^ 57"
  shows "unat (push_bit 7 v OR ucast (b AND 0x7f :: u8) :: u64) = unat v * 128 + unat b mod 128"
proof -
  have "unat (ucast (b AND 0x7f :: u8) :: u64) = unat b mod 128" by (simp add: u8_low_bits)
  moreover from this have "unat (ucast (b AND 0x7f :: u8) :: u64) < 2 ^ 7" by simp
  ultimately have "unat (push_bit 7 v OR ucast (b AND 0x7f :: u8) :: u64)
      = (unat v * 128 + unat b mod 128) mod 2 ^ 64"
    by (simp add: push_or_add unat_word_ariths unat_push_bit mod_simps)
  moreover have "unat b mod 128 < 128" by simp
  then have "unat v * 128 + unat b mod 128 < 2 ^ 64" using assms by simp
  ultimately show ?thesis by simp
qed

lemma base128_loop_Cons:
  "base128_loop (b # s) v =
    (if 2 ^ 57 \<le> unat v \<or> (v = 0 \<and> b = 0x80) then (None, s)
     else if 128 \<le> unat b then base128_loop s (push_bit 7 v OR ucast (b AND 0x7f))
     else (Some (push_bit 7 v OR ucast (b AND 0x7f)), s))"
  by (auto simp: Let_def drop_bit_eq_0_iff u8_top_bit)

declare base128_loop.simps(2) [simp del]

lemma unat_high_byte: "m < 128 \<Longrightarrow> unat (128 + of_nat m :: u8) = 128 + m"
  by (simp add: unat_word_ariths unat_of_nat)

lemma base128_loop_high:
  assumes "n < 2 ^ 57"
  shows "base128_loop (base128_high n @ s) 0 = base128_loop s (of_nat n)"
  using assms
proof (induction n arbitrary: s rule: base128_high.induct)
  case (1 n)
  show ?case
  proof (cases "n = 0")
    case False
    obtain b :: u8 where b_def: "b = 128 + of_nat (n mod 128)" by blast
    obtain v :: u64 where v_def: "v = of_nat (n div 128)" by blast
    have v: "unat v = n div 128" using "1.prems" by (simp add: v_def unat_of_nat)
    then have less: "unat v < 2 ^ 57" using "1.prems" by simp
    have b: "unat b = 128 + n mod 128" unfolding b_def by (rule unat_high_byte) simp
    have "\<not> (v = 0 \<and> b = 0x80)"
    proof
      assume zero: "v = 0 \<and> b = 0x80"
      then have "n div 128 = 0" using v by simp
      moreover from zero b have "n mod 128 = 0" by simp
      ultimately show False using False by (metis div_mult_mod_eq mult_0 add_0)
    qed
    moreover have "unat (push_bit 7 v OR ucast (b AND 0x7f) :: u64) = n"
      by (simp only: base128_step [OF less] v b) simp
    then have "push_bit 7 v OR ucast (b AND 0x7f) = of_nat n"
      using "1.prems" by (simp add: word_unat_eq_iff unat_of_nat)
    ultimately have "base128_loop (b # s) v = base128_loop s (of_nat n)"
      using b less by (auto simp: base128_loop_Cons)
    moreover have "base128_high n = base128_high (n div 128) @ [b]"
      using False by (simp add: base128_high.simps [of n] b_def)
    moreover have "base128_loop (base128_high (n div 128) @ b # s) 0 = base128_loop (b # s) v"
      using 1 False by (simp add: v_def)
    ultimately show ?thesis by simp
  qed simp
qed

lemma unat_less_64: "unat (v :: u64) < 2 ^ 64"
  using unsigned_less [of v, where ?'a = nat] by simp

lemma parse_base128_enc: "parse_base128_integer (base128 (unat v) @ s) = (Some v, s)"
proof -
  let ?b = "of_nat (unat v mod 128) :: u8" and ?w = "of_nat (unat v div 128) :: u64"
  have q: "unat v div 128 < 2 ^ 57" using unat_less_64 [of v] by simp
  then have w: "unat ?w = unat v div 128" by (simp add: unat_of_nat)
  have b: "unat ?b = unat v mod 128" by (simp add: unat_of_nat)
  have less: "unat ?w < 2 ^ 57" using q w by simp
  have "unat (push_bit 7 ?w OR ucast (?b AND 0x7f) :: u64) = unat v"
    by (simp only: base128_step [OF less] w b) simp
  then have "push_bit 7 ?w OR ucast (?b AND 0x7f) = v" by (simp add: word_unat_eq_iff)
  moreover have "?b \<noteq> 0x80" using b by auto
  moreover have "\<not> 128 \<le> unat ?b" using b by simp
  ultimately have "base128_loop (?b # s) ?w = (Some v, s)"
    using less by (simp add: base128_loop_Cons)
  with q show ?thesis
    by (simp add: parse_base128_integer_def base128_def base128_loop_high)
qed

lemma base128_high_snoc:
  assumes "128 \<le> unat b" "\<not> (n = 0 \<and> b = 0x80)"
  shows "base128_high (n * 128 + unat b mod 128) = base128_high n @ [b]"
proof -
  have "unat b - 128 < 128" using u8_less [of b] by linarith
  then have m: "unat b mod 128 = unat b - 128" using assms(1) by (simp add: mod_if)
  with assms(1) \<open>unat b - 128 < 128\<close> have "128 + of_nat (unat b mod 128) = b"
    using unat_high_byte [of "unat b mod 128"] by (simp add: word_unat_eq_iff)
  moreover have "n * 128 + unat b mod 128 \<noteq> 0"
    using assms m by (auto simp: word_unat_eq_iff)
  ultimately show ?thesis
    by (simp add: base128_high.simps [of "n * 128 + unat b mod 128"])
qed

lemma base128_loop_sound:
  assumes "base128_loop s v = (Some w, r)"
  shows "base128_high (unat v) @ s = base128 (unat w) @ r"
  using assms
proof (induction s arbitrary: v)
  case (Cons b s)
  then have less: "unat v < 2 ^ 57" and min: "\<not> (v = 0 \<and> b = 0x80)"
    by (auto simp: base128_loop_Cons split: if_splits)
  let ?v = "push_bit 7 v OR ucast (b AND 0x7f) :: u64"
  note step = base128_step [OF less, of b]
  show ?case
  proof (cases "128 \<le> unat b")
    case True
    with Cons.prems less min have "base128_loop s ?v = (Some w, r)"
      by (simp add: base128_loop_Cons)
    from Cons.IH [OF this] True min step show ?thesis
      by (simp add: base128_high_snoc word_unat_eq_iff)
  next
    case False
    with Cons.prems less min have "w = ?v" "r = s"
      by (auto simp: base128_loop_Cons split: if_splits)
    moreover from False have "of_nat (unat b mod 128) = b" by (simp add: word_unat_eq_iff)
    ultimately show ?thesis using step False by (simp add: base128_def)
  qed
qed simp

lemma base128_nonempty [simp]: "base128 n \<noteq> []"
  by (simp add: base128_def)

interpretation base128c: canonical_codec "\<lambda>v. base128 (unat v)" parse_base128_integer "\<lambda>_. True"
proof unfold_locales
  fix s v rest
  assume "parse_base128_integer s = (Some v, rest)"
  from base128_loop_sound [OF this [unfolded parse_base128_integer_def]]
  show "True \<and> s = base128 (unat v) @ rest" by simp
qed (simp_all add: parse_base128_enc)

section \<open>Identifier octets\<close>

text \<open>The DER identifier octets of a tag, and the tags that have one.\<close>

definition asn1_tag_bytes :: "asn1_tag \<Rightarrow> bytes" where
  "asn1_tag_bytes tag =
     (let tag_bits = ucast (drop_bit CBS_ASN1_TAG_SHIFT tag) AND 0xe0;
          tag_number = tag AND CBS_ASN1_TAG_NUMBER_MASK in
      if tag_number \<ge> 0x1f then (tag_bits OR 0x1f) # base128 (unat tag_number)
      else [tag_bits OR ucast tag_number])"

definition valid_tag :: "asn1_tag \<Rightarrow> bool" where
  "valid_tag tag \<longleftrightarrow> tag AND NOT CBS_ASN1_CONSTRUCTED \<noteq> 0"

lemmas tag_const_defs = CBS_ASN1_TAG_SHIFT_def CBS_ASN1_CONSTRUCTED_def CBS_ASN1_TAG_NUMBER_MASK_def

definition tag_of :: "u8 \<Rightarrow> u32 \<Rightarrow> asn1_tag" where
  "tag_of tag_bits tag_number = push_bit 24 (ucast tag_bits AND 0xe0) OR tag_number"

lemma tag_split: "t = tag_of (ucast (drop_bit 24 t) AND 0xe0) (t AND 0x1FFFFFFF)"
  by (rule bits_eqI) (simp add: tag_of_def bit_simps upt_rec, simp add: numeral_eq_Suc)

lemma tag_of_number:
  assumes "m \<le> 0x1FFFFFFF"
  shows "tag_of c m AND 0x1FFFFFFF = m"
proof -
  have "unat m < 2 ^ 29" using assms by (simp add: word_le_nat_alt)
  then have "m = m AND 0x1FFFFFFF"
    using unat_and_mask [of m 29] by (simp add: word_unat_eq_iff mask_eq_exp_minus_1)
  moreover have "tag_of c (m AND 0x1FFFFFFF) AND 0x1FFFFFFF = m AND 0x1FFFFFFF"
    by (rule bits_eqI) (simp add: tag_of_def bit_simps upt_rec)
  ultimately show ?thesis by simp
qed

lemma tag_of_class:
  assumes "m \<le> 0x1FFFFFFF"
  shows "ucast (drop_bit 24 (tag_of c m)) AND 0xe0 = c AND 0xe0"
proof -
  have "unat m < 2 ^ 29" using assms by (simp add: word_le_nat_alt)
  then have "m = m AND 0x1FFFFFFF"
    using unat_and_mask [of m 29] by (simp add: word_unat_eq_iff mask_eq_exp_minus_1)
  moreover have "ucast (drop_bit 24 (tag_of c (m AND 0x1FFFFFFF))) AND 0xe0 = c AND 0xe0"
    by (rule bits_eqI) (simp add: tag_of_def bit_simps upt_rec)
  ultimately show ?thesis by simp
qed

lemma byte_split: "(b AND 0xe0) OR (b AND 0x1f) = b" for b :: u8
  by (rule bits_eqI) (simp add: bit_simps upt_rec)

lemma byte_class: "((c AND 0xe0) OR (m AND 0x1f)) AND 0xe0 = c AND 0xe0" for c :: u8
  by (rule bits_eqI) (simp add: bit_simps upt_rec)

lemma byte_number: "((c AND 0xe0) OR (m AND 0x1f)) AND 0x1f = m AND 0x1f" for c :: u8
  by (rule bits_eqI) (simp add: bit_simps upt_rec)

lemma u32_of_u8_number: "(ucast (b AND 0x1f :: u8) :: u32) = 0x1f \<longleftrightarrow> b AND 0x1f = 0x1f"
  by (simp add: word_unat_eq_iff)

lemma u8_number_less: "b AND 0x1f \<noteq> 0x1f \<Longrightarrow> (ucast (b AND 0x1f :: u8) :: u32) < 0x1f"
proof -
  assume "b AND 0x1f \<noteq> 0x1f"
  moreover have "unat (b AND 0x1f) = unat b mod 32"
    using unat_and_mask [of b 5] by (simp add: mask_eq_exp_minus_1)
  ultimately show ?thesis by (simp add: word_less_nat_alt word_unat_eq_iff)
qed

lemma CBS_get_bytes_1 [simp]: "gbind CBS_get_u8 f (b # s) = f b s"
  by simp

lemma parse_asn1_tag_sound:
  assumes "parse_asn1_tag s = (Some t, r)"
  shows "valid_tag t \<and> s = asn1_tag_bytes t @ r"
proof -
  from assms obtain b s' m where b: "s = b # s'"
    and m: "(if (ucast (b AND 0x1f) :: u32) = 0x1f
       then gbind parse_base128_integer (\<lambda>v. gbind (gassert (\<not> (v > ucast CBS_ASN1_TAG_NUMBER_MASK \<or> v < 0x1f)))
                  (\<lambda>_. gret (ucast v)))
       else gret (ucast (b AND 0x1f))) s' = (Some m, r)"
    and t: "t = tag_of b m" and ok: "valid_tag t"
    by (auto simp: parse_asn1_tag_def gbind_eq_Some_iff CBS_get_u8_eq Let_def tag_const_defs
        tag_of_def valid_tag_def)
  have "s = asn1_tag_bytes t @ r"
  proof (cases "b AND 0x1f = 0x1f")
    case True
    with m obtain v :: u64 where v: "s' = base128 (unat v) @ r" "v \<le> 0x1FFFFFFF" "0x1f \<le> v" "m = ucast v"
      by (auto simp: u32_of_u8_number gbind_eq_Some_iff base128c.dec_iff tag_const_defs not_less)
    then have "unat v \<le> 0x1FFFFFFF" "0x1f \<le> unat v" by (auto simp: word_le_nat_alt)
    then have "unat m = unat v"
      by (simp add: v(4) unsigned_ucast_eq take_bit_nat_eq_self)
    with v \<open>unat v \<le> _\<close> \<open>_ \<le> unat v\<close> have "m \<le> 0x1FFFFFFF" "0x1f \<le> m" "s' = base128 (unat m) @ r"
      by (auto simp: word_le_nat_alt)
    with True byte_split [of b] show ?thesis
      by (simp add: asn1_tag_bytes_def b t tag_const_defs tag_of_number tag_of_class)
  next
    case False
    with m have m: "m = ucast (b AND 0x1f)" "r = s'" by (auto simp: u32_of_u8_number)
    with u8_number_less [OF False] have "m < 0x1f" by simp
    then have "m \<le> 0x1FFFFFFF" "\<not> 0x1f \<le> m" by (auto simp: word_le_nat_alt word_less_nat_alt)
    moreover have "(ucast m :: u8) = b AND 0x1f"
      by (simp add: m(1) word_unat_eq_iff unsigned_ucast_eq take_bit_word_eq_self)
    ultimately show ?thesis using byte_split [of b]
      by (simp add: asn1_tag_bytes_def b t m(2) tag_const_defs tag_of_number tag_of_class)
  qed
  with ok show ?thesis by simp
qed

lemma parse_asn1_tag_enc:
  assumes "valid_tag t"
  shows "parse_asn1_tag (asn1_tag_bytes t @ r) = (Some t, r)"
proof -
  let ?m = "t AND 0x1FFFFFFF" and ?c = "ucast (drop_bit 24 t) AND 0xe0 :: u8"
  have t: "tag_of ?c ?m = t" by (rule tag_split [symmetric])
  have "unat ?m < 2 ^ 29"
    using unat_and_mask [of t 29] by (simp add: mask_eq_exp_minus_1)
  then have small: "unat ?m \<le> 0x1FFFFFFF" by simp
  have finish: "gbind (gassert (tag_of b ?m AND NOT CBS_ASN1_CONSTRUCTED \<noteq> 0)) (\<lambda>_. gret (tag_of b ?m)) r
      = (Some t, r)" if "b AND 0xe0 = ?c" for b
  proof -
    have "tag_of b ?m = tag_of ?c ?m"
      unfolding that [symmetric] tag_of_def
      by (rule bits_eqI) (simp add: bit_simps upt_rec)
    with t assms show ?thesis by (simp add: getter_simps valid_tag_def)
  qed
  have cls: "(?c OR 0x1f) AND 0xe0 = ?c" "(?c OR 0x1f) AND 0x1f = 0x1f"
    using byte_class [of ?c "0x1f"] byte_number [of ?c "0x1f"] by (simp_all add: ac_simps)
  show ?thesis
  proof (cases "0x1f \<le> ?m")
    case True
    then have ge: "0x1f \<le> unat ?m" by (simp add: word_le_nat_alt)
    obtain v :: u64 where v: "v = ucast ?m" by blast
    have uv: "unat v = unat ?m"
      unfolding v using small by (subst unsigned_ucast_eq) (simp add: take_bit_nat_eq_self)
    then have lim: "v \<le> 0x1FFFFFFF" "\<not> v < 0x1f" and bk: "ucast v = ?m"
      using small ge by (simp_all add: word_le_nat_alt word_less_nat_alt word_unat_eq_iff
          unsigned_ucast_eq [of v] take_bit_nat_eq_self)
    have "asn1_tag_bytes t = (?c OR 0x1f) # base128 (unat v)"
      using True uv by (simp add: asn1_tag_bytes_def Let_def tag_const_defs)
    moreover have "parse_asn1_tag ((?c OR 0x1f) # base128 (unat v) @ r) = (Some t, r)"
      using lim finish [of "?c OR 0x1f"] cls(1)
      by (simp add: parse_asn1_tag_def gbind_def cls(2) tag_const_defs parse_base128_enc
          gassert_def gret_def bk tag_of_def Let_def)
    ultimately show ?thesis by simp
  next
    case False
    then have "unat ?m < 0x1f" by (simp add: word_le_nat_alt)
    obtain m :: u8 where m: "m = ucast ?m" by blast
    have um: "unat m = unat ?m" unfolding m
      using \<open>unat ?m < 0x1f\<close> by (subst unsigned_ucast_eq) (simp add: take_bit_nat_eq_self)
    then have m5: "m AND 0x1f = m"
      using unat_and_mask [of m 5] \<open>unat ?m < 0x1f\<close> by (simp add: mask_eq_exp_minus_1 word_unat_eq_iff)
    have b: "(?c OR m) AND 0x1f = m" "(?c OR m) AND 0xe0 = ?c"
      using byte_number [of ?c m] byte_class [of ?c m] by (simp_all add: m5 ac_simps)
    have um32: "(ucast m :: u32) = ?m" using um by (simp add: word_unat_eq_iff)
    have "?m \<noteq> 0x1f" using \<open>unat ?m < 0x1f\<close> by auto
    have "asn1_tag_bytes t = [?c OR m]"
      using False m by (simp add: asn1_tag_bytes_def Let_def tag_const_defs)
    moreover have "parse_asn1_tag ((?c OR m) # r) = (Some t, r)"
      using finish [of "?c OR m"] b \<open>?m \<noteq> 0x1f\<close>
      by (simp add: parse_asn1_tag_def gbind_def tag_const_defs um32 gassert_def gret_def
          tag_of_def Let_def)
    ultimately show ?thesis by simp
  qed
qed

lemma asn1_tag_bytes_nonempty [simp]: "asn1_tag_bytes t \<noteq> []"
  by (simp add: asn1_tag_bytes_def Let_def)

interpretation tagc: canonical_codec asn1_tag_bytes parse_asn1_tag valid_tag
  by unfold_locales (auto simp: parse_asn1_tag_enc dest: parse_asn1_tag_sound)

section \<open>DER elements\<close>

text \<open>The DER length octets of a body of \<open>n < 2 ^ 32\<close> bytes.\<close>

definition asn1_length_bytes :: "nat \<Rightarrow> bytes" where
  "asn1_length_bytes n =
     (if n < 0x80 then [of_nat n]
      else if n < 0x100 then 0x81 # be_bytes 1 n
      else if n < 0x10000 then 0x82 # be_bytes 2 n
      else if n < 0x1000000 then 0x83 # be_bytes 3 n
      else 0x84 # be_bytes 4 n)"

definition der_header :: "asn1_tag \<Rightarrow> nat \<Rightarrow> bytes" where
  "der_header tag n = asn1_tag_bytes tag @ asn1_length_bytes n"

definition der :: "bytes \<times> asn1_tag \<Rightarrow> bytes" where
  "der = (\<lambda>(body, tag). der_header tag (length body) @ body)"

definition der_ok :: "bytes \<times> asn1_tag \<Rightarrow> bool" where
  "der_ok = (\<lambda>(body, tag). valid_tag tag \<and> length body < 2 ^ 32)"

definition der_el :: "bytes \<Rightarrow> asn1_tag \<Rightarrow> asn1_element" where
  "der_el body tag = \<lparr>el_out = der (body, tag), el_tag = tag,
     el_header_len = length (der_header tag (length body)), el_ber_found = False,
     el_indefinite = False\<rparr>"

lemma length_base128_high: "n < 128 ^ k \<Longrightarrow> length (base128_high n) \<le> k"
proof (induction n arbitrary: k rule: base128_high.induct)
  case (1 n)
  show ?case
  proof (cases "n = 0")
    case False
    with "1.prems" obtain k' where k: "k = Suc k'" by (cases k) auto
    with "1.prems" have "n div 128 < 128 ^ k'" by (simp add: less_mult_imp_div_less mult.commute)
    with 1 False k show ?thesis by (subst base128_high.simps) auto
  qed simp
qed

lemma length_asn1_tag_bytes: "length (asn1_tag_bytes t) \<le> 6"
proof -
  have "unat (t AND 0x1FFFFFFF) < 2 ^ 29"
    using unat_and_mask [of t 29] by (simp add: mask_eq_exp_minus_1)
  then have "unat (t AND 0x1FFFFFFF) div 128 < 128 ^ 4" by simp
  from length_base128_high [OF this] show ?thesis
    by (simp add: asn1_tag_bytes_def Let_def base128_def tag_const_defs)
qed

lemma cbs_take_element_eq:
  "cbs_take_element cbs tag hl n ber indef = (Some el, r) \<longleftrightarrow>
     (\<exists>out. length out = n \<and> cbs = out @ r \<and>
       el = \<lparr>el_out = out, el_tag = tag, el_header_len = hl, el_ber_found = ber, el_indefinite = indef\<rparr>)"
  by (auto simp: cbs_take_element_def gbind_eq_Some_iff cbs_get_eq)

lemma append_take_body:
  "length out = length hdr + n \<Longrightarrow> hdr @ rest = out @ r \<Longrightarrow>
     \<exists>body. length body = n \<and> out = hdr @ body \<and> rest = body @ r"
  by (auto simp: append_eq_append_conv2)

lemma asn1_length_bytes_long:
  assumes "k \<in> {1..4}" "256 ^ (k - 1) \<le> n" "n < 256 ^ k" "0x80 \<le> n"
  shows "asn1_length_bytes n = (0x80 OR of_nat k) # be_bytes k n"
proof -
  from assms(1) consider "k = 1" | "k = 2" | "k = 3" | "k = 4"
    unfolding atLeastAtMost_iff by linarith
  then show ?thesis
    by cases (use assms(2-4) in \<open>simp_all add: asn1_length_bytes_def del: be_bytes.simps\<close>)
qed

lemma asn1_length_bytes_cases:
  assumes "n < 2 ^ 32"
  obtains "n < 0x80" "asn1_length_bytes n = [of_nat n]"
  | k where "k \<in> {1..4}" "256 ^ (k - 1) \<le> n" "n < 256 ^ k" "0x80 \<le> n"
      "asn1_length_bytes n = (0x80 OR of_nat k) # be_bytes k n"
proof (cases "n < 0x80")
  case True
  then show ?thesis using that(1) by (simp add: asn1_length_bytes_def)
next
  case False
  then consider "n < 256 ^ 1" | "256 ^ 1 \<le> n" "n < 256 ^ 2" | "256 ^ 2 \<le> n" "n < 256 ^ 3"
    | "256 ^ 3 \<le> n" by (meson not_le)
  then show ?thesis
  proof cases
    case 1
    with False have c: "256 ^ (1 - 1) \<le> n" "n < 256 ^ 1" "0x80 \<le> n" by auto
    from asn1_length_bytes_long [of 1 n] c show ?thesis by (intro that(2) [of 1]) auto
  next
    case 2
    then show ?thesis using asn1_length_bytes_long [of 2 n] by (intro that(2) [of 2]) auto
  next
    case 3
    then show ?thesis using asn1_length_bytes_long [of 3 n] by (intro that(2) [of 3]) auto
  next
    case 4
    then show ?thesis using asn1_length_bytes_long [of 4 n] assms by (intro that(2) [of 4]) auto
  qed
qed

lemma u8_high_length: "128 \<le> unat b \<Longrightarrow> unat b = 128 + unat (b AND 0x7f)" for b :: u8
proof -
  assume ge: "128 \<le> unat b"
  have "unat b - 128 < 128" using u8_less [of b] by linarith
  then have "(unat b - 128) mod 128 = unat b - 128" by (rule mod_less)
  with ge show ?thesis by (simp add: u8_low_bits le_mod_geq)
qed

lemma high_length_byte:
  assumes "unat (b :: u8) = 128 + k" "k \<in> {1..4}"
  shows "b = 0x80 OR of_nat k"
proof -
  have "unat b = unat (128 + of_nat k :: u8)"
    using assms by (subst unat_high_byte) auto
  then have "b = 128 + of_nat k" by (simp only: word_unat_eq_iff)
  moreover from assms(2) have "k \<in> {1, 2, 3, 4}" by auto
  then have "(128 + of_nat k :: u8) = 0x80 OR of_nat k" by auto
  ultimately show ?thesis by simp
qed

lemma pow_256: "(256::nat) ^ n = 2 ^ (n * 8)"
  using power_mult [of "2::nat" 8 n] by (simp add: mult.commute)

lemma any_element_enc:
  assumes "der_ok (body, tag)"
  shows "CBS_get_any_asn1_element (der (body, tag) @ r) = (Some (der_el body tag), r)"
proof -
  from assms have tag: "valid_tag tag" and len: "length body < 2 ^ 32" by (auto simp: der_ok_def)
  let ?s = "der (body, tag) @ r"
  have take: "cbs_take_element ?s tag hl n False False = (Some (der_el body tag), r)"
    if "hl = length (der_header tag (length body))" "n = length body + hl" for hl n
    using that by (simp add: cbs_take_element_eq der_el_def der_def)
  show ?thesis using len
  proof (cases rule: asn1_length_bytes_cases)
    case 1
    have "unat (of_nat (length body) :: u8) = length body" using 1 by (simp add: unat_of_nat)
    moreover from this have "(of_nat (length body) :: u8) AND 0x80 = 0"
      using 1 by (simp only: u8_top_bit)
    ultimately show ?thesis using 1 take
      by (simp add: CBS_get_any_asn1_element_def cbs_get_any_asn1_element_def der_def der_header_def
          parse_asn1_tag_enc [OF tag])
  next
    case (2 k)
    let ?n = "length body"
    from 2(1) have "k \<in> {1, 2, 3, 4}" by auto
    then have lb: "(0x80 OR of_nat k :: u8) AND 0x80 \<noteq> 0" "unat ((0x80 OR of_nat k :: u8) AND 0x7f) = k"
      by auto
    obtain v :: u64 where v: "v = of_nat ?n" by blast
    have uv: "unat v = ?n" using len by (simp add: v unat_of_nat)
    have get: "cbs_get_u k (be_bytes k ?n @ t) = (Some v, t)" for t
      using 2 uv by (simp add: cbs_get_u_iff)
    have short: "\<not> v < 128" using 2 uv by (simp add: word_less_nat_alt)
    have "(256::nat) ^ (k - 1) = 2 ^ ((k - 1) * 8)" by (rule pow_256)
    then have minimal: "drop_bit ((k - 1) * 8) v \<noteq> 0" using 2 uv by (simp add: drop_bit_eq_0_iff)
    have hdr: "length (der_header tag ?n) = length (asn1_tag_bytes tag) + 1 + k"
      using 2 by (simp add: der_header_def)
    have small: "?n + (length (asn1_tag_bytes tag) + 1) + k < size_mod"
      using length_asn1_tag_bytes [of tag] 2(1) len by (simp add: size_mod_def)
    then have "\<not> size_add (size_add ?n (length (asn1_tag_bytes tag) + 1)) k < ?n"
      by (simp add: size_add_exact)
    moreover have "size_add ?n (length (asn1_tag_bytes tag) + 1 + k) = ?n + length (der_header tag ?n)"
      using small hdr by (simp add: size_add_exact)
    ultimately show ?thesis
      using 2(1,5) lb short minimal uv get hdr take
        [of "length (asn1_tag_bytes tag) + 1 + k" "?n + length (der_header tag ?n)"]
      by (simp add: CBS_get_any_asn1_element_def cbs_get_any_asn1_element_def Let_def
        der_def der_header_def parse_asn1_tag_enc [OF tag])
  qed
qed

lemma any_element_sound:
  assumes "CBS_get_any_asn1_element s = (Some el, r)"
  shows "\<exists>body tag. der_ok (body, tag) \<and> el = der_el body tag \<and> s = der (body, tag) @ r"
proof -
  from assms obtain tag h where "parse_asn1_tag s = (Some tag, h)"
    by (auto simp: CBS_get_any_asn1_element_def cbs_get_any_asn1_element_def
        split: prod.splits option.splits)
  then have tag: "valid_tag tag" and s: "s = asn1_tag_bytes tag @ h"
    by (auto dest: parse_asn1_tag_sound)
  with assms obtain lb h' where h: "h = lb # h'"
    by (cases h) (auto simp: CBS_get_any_asn1_element_def cbs_get_any_asn1_element_def
        parse_asn1_tag_enc [of tag "[]", simplified])
  let ?tl = "length (asn1_tag_bytes tag)"
  have hl: "length s - length h' = ?tl + 1" by (simp add: s h)
  note unfolded = assms [unfolded CBS_get_any_asn1_element_def cbs_get_any_asn1_element_def s h
      parse_asn1_tag_enc [OF tag] CBS_get_u8_Cons prod.case option.case, folded h, folded s,
      unfolded hl Let_def]
  show ?thesis
  proof (cases "lb AND 0x80 = 0")
    case True
    with unfolded have "cbs_take_element s tag (?tl + 1) (unat lb + (?tl + 1)) False False = (Some el, r)"
      by simp
    then obtain out where "length out = ?tl + 1 + unat lb" "s = out @ r"
      and el: "el = \<lparr>el_out = out, el_tag = tag, el_header_len = ?tl + 1, el_ber_found = False, el_indefinite = False\<rparr>"
      by (auto simp: cbs_take_element_eq add.commute)
    with append_take_body [of out "asn1_tag_bytes tag @ [lb]" "unat lb" h' r] obtain body
      where body: "length body = unat lb" "out = asn1_tag_bytes tag @ lb # body" "h' = body @ r"
      by (auto simp: s h)
    have small: "unat lb < 0x80" using True by (simp only: u8_top_bit)
    then have lb: "asn1_length_bytes (length body) = [lb]"
      by (simp add: asn1_length_bytes_def body(1))
    have "der_ok (body, tag)" using tag small body(1) by (simp add: der_ok_def)
    moreover have "el = der_el body tag"
      using lb body(1,2) by (simp add: der_el_def der_def el der_header_def)
    moreover have "s = der (body, tag) @ r"
      using lb body by (simp add: der_def der_header_def s h)
    ultimately show ?thesis by blast
  next
    case False
    let ?k = "unat (lb AND 0x7f)"
    from unfolded False obtain v h2 where k: "1 \<le> ?k" "?k \<le> 4"
      and get: "cbs_get_u ?k h' = (Some v, h2)" and short: "\<not> v < 128"
      and minimal: "drop_bit ((?k - 1) * 8) v \<noteq> 0"
      and take: "cbs_take_element s tag (?tl + 1 + ?k) (size_add (unat v) (?tl + 1 + ?k)) False False = (Some el, r)"
      by (auto split: prod.splits option.splits if_splits)
    from get k have v: "unat v < 256 ^ ?k" "h' = be_bytes ?k (unat v) @ h2"
      by (auto simp: cbs_get_u_iff)
    have "(256::nat) ^ ?k \<le> 256 ^ 4" using k by (intro power_increasing) auto
    with v have v32: "unat v < 2 ^ 32" by simp
    have ge: "0x80 \<le> unat v" using short by (simp add: word_less_nat_alt)
    have "(256::nat) ^ (?k - 1) = 2 ^ ((?k - 1) * 8)" by (rule pow_256)
    with minimal have ge_pow: "256 ^ (?k - 1) \<le> unat v" by (simp add: drop_bit_eq_0_iff)
    have "128 \<le> unat lb" using False unfolding u8_top_bit by simp
    then have "unat lb = 128 + ?k" by (rule u8_high_length)
    then have lb: "lb = 0x80 OR of_nat ?k" using k by (intro high_length_byte) auto
    have len: "asn1_length_bytes (unat v) = lb # be_bytes ?k (unat v)"
      using asn1_length_bytes_long [of ?k "unat v"] k v(1) ge ge_pow lb by simp
    have "unat v + (?tl + 1 + ?k) < size_mod"
      using length_asn1_tag_bytes [of tag] k(2) v32 by (simp add: size_mod_def)
    with take obtain out where "length out = ?tl + 1 + ?k + unat v" "s = out @ r"
      and el: "el = \<lparr>el_out = out, el_tag = tag, el_header_len = ?tl + 1 + ?k, el_ber_found = False, el_indefinite = False\<rparr>"
      by (auto simp: cbs_take_element_eq size_add_exact add.commute)
    with append_take_body [of out "asn1_tag_bytes tag @ lb # be_bytes ?k (unat v)" "unat v" h2 r]
    obtain body where body: "length body = unat v"
      "out = asn1_tag_bytes tag @ lb # be_bytes ?k (unat v) @ body" "h2 = body @ r"
      by (auto simp: s h v(2))
    have "der_ok (body, tag)" using tag v32 body(1) by (simp add: der_ok_def)
    moreover have "el = der_el body tag"
      using len body(1,2) by (simp add: der_el_def der_def el der_header_def)
    moreover have "s = der (body, tag) @ r"
      using len body by (simp add: der_def der_header_def s h v(2))
    ultimately show ?thesis by blast
  qed
qed

lemma any_element_iff:
  "CBS_get_any_asn1_element s = (Some el, r) \<longleftrightarrow>
     (\<exists>body tag. der_ok (body, tag) \<and> el = der_el body tag \<and> s = der (body, tag) @ r)"
  using any_element_sound any_element_enc by blast

lemma cbs_get_any_asn1_element_fail:
  assumes "cbs_get_any_asn1_element ber s = (None, r)"
  shows "r = s"
proof -
  have take: "cbs_take_element s tag hl n b i = (None, r) \<Longrightarrow> r = s" for tag hl n b i r
    by (auto simp: cbs_take_element_def getter_simps cbs_get_def split: if_splits)
  show ?thesis
    using assms unfolding cbs_get_any_asn1_element_def Let_def
    by (auto split: prod.splits option.splits if_splits dest: take)
qed

lemma el_skip_header [simp]:
  "CBS_skip (el_header_len (der_el body tag)) (der (body, tag)) = (Some (), body)"
  by (simp add: der_el_def der_def CBS_skip_eq)

lemma el_tag_der_el [simp]: "el_tag (der_el body tag) = tag"
  by (simp add: der_el_def)

lemma el_out_der_el [simp]: "el_out (der_el body tag) = der (body, tag)"
  by (simp add: der_el_def)

lemma gbind_element_iff:
  "gbind CBS_get_any_asn1_element f s = (Some x, r) \<longleftrightarrow>
     (\<exists>body tag s'. der_ok (body, tag) \<and> s = der (body, tag) @ s' \<and>
       f (der_el body tag) s' = (Some x, r))"
  by (simp add: gbind_eq_Some_iff any_element_iff) blast

lemma CBS_get_any_asn1_iff:
  "CBS_get_any_asn1 s = (Some x, r) \<longleftrightarrow> der_ok x \<and> s = der x @ r"
proof -
  have "CBS_get_any_asn1 s = (Some (body, tag), r) \<longleftrightarrow> der_ok (body, tag) \<and> s = der (body, tag) @ r"
    for body tag
    by (auto simp: CBS_get_any_asn1_def gbind_element_iff)
  then show ?thesis by (cases x) simp
qed

lemma der_nonempty: "der x \<noteq> []"
  by (cases x) (simp add: der_def der_header_def)

interpretation derc: canonical_codec der CBS_get_any_asn1 der_ok
  by unfold_locales (simp_all add: CBS_get_any_asn1_iff der_nonempty)

lemma CBS_get_asn1_iff:
  "CBS_get_asn1 tag s = (Some body, r) \<longleftrightarrow> der_ok (body, tag) \<and> s = der (body, tag) @ r"
  by (auto simp: CBS_get_asn1_def cbs_get_asn1_def gbind_element_iff split: if_splits)

lemma CBS_get_asn1_element_iff:
  "CBS_get_asn1_element tag s = (Some out, r) \<longleftrightarrow>
     (\<exists>body. der_ok (body, tag) \<and> out = der (body, tag)) \<and> s = out @ r"
  by (auto simp: CBS_get_asn1_element_def cbs_get_asn1_def gbind_element_iff split: if_splits)

lemma CBS_peek_asn1_tag_iff:
  "CBS_peek_asn1_tag s tag \<longleftrightarrow> valid_tag tag \<and> prefix (asn1_tag_bytes tag) s"
proof -
  have "CBS_peek_asn1_tag s tag \<longleftrightarrow> (\<exists>r. parse_asn1_tag s = (Some tag, r))"
    by (auto simp: CBS_peek_asn1_tag_def split: prod.splits option.splits)
  then show ?thesis by (auto simp: tagc.dec_iff prefix_def)
qed

text \<open>
  The BER reader agrees with the DER reader on every element it does not mark
  as BER: relaxing the rules never changes the reading of a DER element.
\<close>

lemma ber_der_agree:
  "CBS_get_any_ber_asn1_element s = (Some el, r) \<and> \<not> el_ber_found el \<longleftrightarrow>
     CBS_get_any_asn1_element s = (Some el, r)"
proof -
  obtain t h where t: "parse_asn1_tag s = (t, h)" by fastforce
  show ?thesis
  proof (cases "t = None \<or> h = []")
    case True
    with t show ?thesis
      by (auto simp: CBS_get_any_ber_asn1_element_def CBS_get_any_asn1_element_def
          cbs_get_any_asn1_element_def split: option.splits)
  next
    case False
    then obtain tag lb h' where th: "t = Some tag" "h = lb # h'" by (cases h) auto
    obtain n hi where n: "unat (lb AND 0x7f) = n" and hi: "(lb AND 0x80 = 0) = hi" by blast
    obtain v h2 where v: "cbs_get_u n h' = (v, h2)" by fastforce
    note unfold_reader = CBS_get_any_ber_asn1_element_def CBS_get_any_asn1_element_def
      cbs_get_any_asn1_element_def t th prod.case option.case CBS_get_u8_Cons n hi v Let_def
    show ?thesis
    proof (cases v)
      case None
      then show ?thesis unfolding unfold_reader by (auto simp: cbs_take_element_eq)
    next
      case (Some len64)
      obtain short long over sz where "(len64 < 128) = short" "(drop_bit ((n - 1) * 8) len64 = 0) = long"
        "(size_add (size_add (unat len64) (length s - length h')) n < unat len64) = over"
        "size_add (unat len64) (length s - length h' + n) = sz" by blast
      note generalise = this
      show ?thesis unfolding unfold_reader Some option.case generalise
        by (auto simp: cbs_take_element_eq)
    qed
  qed
qed

section \<open>INTEGER values\<close>

definition strip_zeros :: "bytes \<Rightarrow> bytes" where
  "strip_zeros = dropWhile (\<lambda>b. b = 0)"

text \<open>The minimal INTEGER body of an unsigned value.\<close>

definition der_uint :: "nat \<Rightarrow> bytes" where
  "der_uint v =
     (case strip_zeros (be_bytes 8 v) of
        [] \<Rightarrow> [0]
      | b # bs \<Rightarrow> if b AND 0x80 \<noteq> 0 then 0 # b # bs else b # bs)"

lemma be_value_strip_zeros [simp]: "be_value (strip_zeros d) = be_value d"
  by (induction d) (auto simp: strip_zeros_def)

lemma be_value_ge: "d \<noteq> [] \<Longrightarrow> hd d \<noteq> 0 \<Longrightarrow> 256 ^ (length d - 1) \<le> be_value d"
  by (cases d) (auto simp: trans_le_add1 Suc_leI unat_gt_0)

lemma strip_zeros_hd: "strip_zeros d \<noteq> [] \<Longrightarrow> hd (strip_zeros d) \<noteq> 0"
  unfolding strip_zeros_def using hd_dropWhile [of "\<lambda>b. b = 0" d] by blast

lemma normal_length_le:
  assumes "d = [] \<or> hd d \<noteq> 0" "be_value d \<le> be_value e"
  shows "length d \<le> length e"
proof (cases "d = []")
  case False
  with assms be_value_ge [of d] have "256 ^ (length d - 1) \<le> be_value d" by simp
  also have "\<dots> < 256 ^ length e" using assms(2) be_value_less [of e] by simp
  finally have "length d - 1 < length e" by (simp add: power_less_imp_less_exp)
  then show ?thesis by simp
qed simp

lemma strip_zeros_cong:
  assumes "be_value d = be_value e"
  shows "strip_zeros d = strip_zeros e"
proof (rule be_value_inj)
  show "length (strip_zeros d) = length (strip_zeros e)"
    using assms strip_zeros_hd by (intro antisym normal_length_le) auto
qed (simp add: assms)

lemma asn1_uint64_loop_iff:
  "asn1_uint64_loop ds out = Some v \<longleftrightarrow>
     unat out * 256 ^ length ds + be_value ds = unat v"
proof (induction ds arbitrary: out)
  case Nil
  show ?case by (auto simp: word_unat_eq_iff)
next
  case (Cons d ds)
  show ?case
  proof (cases "unat out < 2 ^ 56")
    case True
    have d: "unat (ucast d :: u64) = unat d" by simp
    have "unat out < 72057594037927936" using True by simp
    then have "unat out * 256 + unat d < 18446744073709551616" using u8_less [of d] by linarith
    then have "unat out * 256 + unat d < 2 ^ 64" by simp
    then have "unat (push_bit 8 out OR ucast d) = unat out * 256 + unat d"
      by (simp add: push_or_add unat_word_ariths unat_push_bit d mod_simps)
    with True Cons.IH show ?thesis by (simp add: drop_bit_eq_0_iff algebra_simps)
  next
    case False
    have "(2::nat) ^ 64 \<le> 2 ^ 56 * 256 ^ length (d # ds)" by simp
    also have "\<dots> \<le> unat out * 256 ^ length (d # ds)"
      using False by (intro mult_le_mono1) simp
    also have "\<dots> \<le> unat out * 256 ^ length (d # ds) + be_value (d # ds)" by (rule le_add1)
    finally have "2 ^ 64 \<le> unat out * 256 ^ length (d # ds) + be_value (d # ds)" .
    with False unat_less_64 [of v] show ?thesis by (auto simp: drop_bit_eq_0_iff)
  qed
qed

lemma valid_integer_Cons:
  "CBS_is_valid_asn1_integer (b # bs) =
     (case bs of [] \<Rightarrow> Some (b AND 0x80 \<noteq> 0)
      | c # _ \<Rightarrow> if (b = 0 \<and> c AND 0x80 = 0) \<or> (b = 0xff \<and> c AND 0x80 \<noteq> 0)
                then None else Some (b AND 0x80 \<noteq> 0))"
  by (cases bs) (simp_all add: CBS_is_valid_asn1_integer_def)

lemma valid_integer_Nil [simp]: "CBS_is_valid_asn1_integer [] = None"
  by (simp add: CBS_is_valid_asn1_integer_def)

text \<open>The valid unsigned bodies are exactly the normal forms.\<close>

lemma unsigned_integer_normal:
  assumes "CBS_is_unsigned_asn1_integer bs"
  shows "bs = (case strip_zeros bs of [] \<Rightarrow> [0]
      | b # r \<Rightarrow> if b AND 0x80 \<noteq> 0 then 0 # b # r else b # r)"
  using assms
  by (cases bs)
    (auto simp: CBS_is_unsigned_asn1_integer_def valid_integer_Cons strip_zeros_def
      split: list.splits if_splits)

lemma der_uint_unsigned: "CBS_is_unsigned_asn1_integer (der_uint v)"
proof (cases "strip_zeros (be_bytes 8 v)")
  case (Cons b bs)
  then have "b \<noteq> 0" using strip_zeros_hd [of "be_bytes 8 v"] by simp
  with Cons show ?thesis
    by (auto simp: der_uint_def CBS_is_unsigned_asn1_integer_def valid_integer_Cons split: list.splits)
qed (simp add: der_uint_def CBS_is_unsigned_asn1_integer_def valid_integer_Cons)

lemma be_value_der_uint: "be_value (der_uint v) = v mod 2 ^ 64"
proof -
  have "be_value (der_uint v) = be_value (strip_zeros (be_bytes 8 v))"
    by (auto simp: der_uint_def simp del: be_value_strip_zeros split: list.splits)
  then show ?thesis by (simp add: be_value_be_bytes)
qed

lemma uint64_body_iff:
  "CBS_is_unsigned_asn1_integer bs \<and> asn1_uint64_loop bs 0 = Some v \<longleftrightarrow> bs = der_uint (unat v)"
proof
  assume l: "CBS_is_unsigned_asn1_integer bs \<and> asn1_uint64_loop bs 0 = Some v"
  then have "be_value bs = unat v" by (simp add: asn1_uint64_loop_iff)
  then have "be_value bs = be_value (be_bytes 8 (unat v))"
    using unat_less_64 [of v] by (simp add: be_value_be_bytes)
  from strip_zeros_cong [OF this] unsigned_integer_normal [of bs] l
  show "bs = der_uint (unat v)" by (simp add: der_uint_def)
next
  assume "bs = der_uint (unat v)"
  then show "CBS_is_unsigned_asn1_integer bs \<and> asn1_uint64_loop bs 0 = Some v"
    using der_uint_unsigned unat_less_64 [of v] be_value_der_uint [of "unat v"]
    by (simp add: asn1_uint64_loop_iff)
qed

lemma length_der_uint: "length (der_uint v) \<le> 9"
proof -
  have "length (strip_zeros (be_bytes 8 v)) \<le> 8"
    unfolding strip_zeros_def by (metis length_be_bytes length_dropWhile_le)
  then show ?thesis by (auto simp: der_uint_def split: list.splits)
qed

lemma valid_tag_INTEGER [simp]: "valid_tag CBS_ASN1_INTEGER"
  by (simp add: valid_tag_def CBS_ASN1_INTEGER_def CBS_ASN1_CONSTRUCTED_def)

lemma valid_tag_BOOLEAN [simp]: "valid_tag CBS_ASN1_BOOLEAN"
  by (simp add: valid_tag_def CBS_ASN1_BOOLEAN_def CBS_ASN1_CONSTRUCTED_def)

lemma valid_tag_OCTETSTRING [simp]: "valid_tag CBS_ASN1_OCTETSTRING"
  by (simp add: valid_tag_def CBS_ASN1_OCTETSTRING_def CBS_ASN1_CONSTRUCTED_def)

lemma CBS_get_asn1_uint64_iff:
  "CBS_get_asn1_uint64 s = (Some v, r) \<longleftrightarrow> s = der (der_uint (unat v), CBS_ASN1_INTEGER) @ r"
proof -
  have "CBS_get_asn1_uint64 s = (Some v, r) \<longleftrightarrow>
    (\<exists>bs. der_ok (bs, CBS_ASN1_INTEGER) \<and> s = der (bs, CBS_ASN1_INTEGER) @ r
       \<and> CBS_is_unsigned_asn1_integer bs \<and> asn1_uint64_loop bs 0 = Some v)"
    by (auto simp: CBS_get_asn1_uint64_def gbind_eq_Some_iff CBS_get_asn1_iff split: if_splits)
  also have "\<dots> \<longleftrightarrow> der_ok (der_uint (unat v), CBS_ASN1_INTEGER)
      \<and> s = der (der_uint (unat v), CBS_ASN1_INTEGER) @ r"
    unfolding uint64_body_iff by blast
  finally show ?thesis using length_der_uint [of "unat v"] by (simp add: der_ok_def)
qed

interpretation asn1_uint64c: canonical_codec
  "\<lambda>v. der (der_uint (unat v), CBS_ASN1_INTEGER)" CBS_get_asn1_uint64 "\<lambda>_. True"
  by unfold_locales (simp_all add: CBS_get_asn1_uint64_iff der_nonempty)

definition der_bool :: "bool \<Rightarrow> bytes" where
  "der_bool v = der ([if v then 0xff else 0], CBS_ASN1_BOOLEAN)"

lemma CBS_get_asn1_bool_iff: "CBS_get_asn1_bool s = (Some v, r) \<longleftrightarrow> s = der_bool v @ r"
proof
  assume "CBS_get_asn1_bool s = (Some v, r)"
  then show "s = der_bool v @ r"
    by (auto simp: CBS_get_asn1_bool_def gbind_eq_Some_iff CBS_get_asn1_iff der_bool_def Let_def
        length_Suc_conv split: if_splits)
next
  assume "s = der_bool v @ r"
  then have "CBS_get_asn1 CBS_ASN1_BOOLEAN s = (Some [if v then 0xff else 0], r)"
    by (simp add: CBS_get_asn1_iff der_ok_def der_bool_def)
  then show "CBS_get_asn1_bool s = (Some v, r)" by (simp add: CBS_get_asn1_bool_def)
qed

interpretation asn1_boolc: canonical_codec der_bool CBS_get_asn1_bool "\<lambda>_. True"
  by unfold_locales (simp_all add: CBS_get_asn1_bool_iff der_bool_def der_nonempty)

section \<open>OBJECT IDENTIFIER bodies\<close>

lemma base128_high_top: "b \<in> set (base128_high n) \<Longrightarrow> 128 \<le> unat b"
proof (induction n rule: base128_high.induct)
  case (1 n)
  then show ?case
    by (cases "n = 0") (auto simp: base128_high.simps [of n] unat_high_byte)
qed

lemma base128_high_Nil_iff [simp]: "base128_high n = [] \<longleftrightarrow> n = 0"
  by (cases "n = 0") (auto simp: base128_high.simps [of n])

lemma unat_low_byte: "unat (of_nat (n mod 128) :: u8) = n mod 128"
proof -
  have "n mod 128 < 128" by simp
  then have "n mod 128 mod 256 = n mod 128" by simp
  then show ?thesis by (simp add: unat_of_nat_u8)
qed

lemma hd_base128_high: "n \<noteq> 0 \<Longrightarrow> unat (hd (base128_high n)) \<noteq> 128"
proof (induction n rule: base128_high.induct)
  case (1 n)
  show ?case
  proof (cases "n div 128 = 0")
    case True
    then have "n mod 128 = n" by (simp add: div_eq_0_iff)
    with True 1 show ?thesis by (simp add: base128_high.simps [of n] unat_high_byte)
  next
    case False
    with 1 show ?thesis by (simp add: base128_high.simps [of n])
  qed
qed

lemma hd_base128: "unat (hd (base128 n)) \<noteq> 128"
proof (cases "n div 128 = 0")
  case True
  have "n mod 128 \<noteq> 128" by (metis mod_less_divisor less_irrefl zero_less_numeral)
  then have "unat (of_nat (n mod 128) :: u8) \<noteq> 128" by (simp only: unat_low_byte) simp
  with True show ?thesis unfolding base128_def by simp
next
  case False
  with hd_base128_high [OF False] show ?thesis by (simp add: base128_def)
qed

lemma takeWhile_base128:
  "takeWhile (\<lambda>b. 128 \<le> unat b) (base128 n @ s) = base128_high (n div 128)"
  using base128_high_top [of _ "n div 128"]
  by (simp add: base128_def unat_low_byte not_le takeWhile_append2 del: of_nat_mod)

lemma base128_append_eq:
  assumes "base128 m @ x = base128 n @ y"
  shows "x = y"
proof -
  have "base128_high (m div 128) = base128_high (n div 128)"
    using takeWhile_base128 [of m x] takeWhile_base128 [of n y] assms by simp
  then have "length (base128 m) = length (base128 n)" by (simp add: base128_def)
  with assms show ?thesis by simp
qed

lemma base128_low: "unat b < 128 \<Longrightarrow> base128_high n @ [b] = base128 (n * 128 + unat b)"
  by (simp add: base128_def word_unat_eq_iff unat_low_byte del: of_nat_mod)

lemma asn1_oid_loop_iff:
  shows "prev AND 0x80 = 0 \<Longrightarrow>
      asn1_oid_loop s prev \<longleftrightarrow> (\<exists>ns. s = concat (map base128 ns))"
    and "prev AND 0x80 \<noteq> 0 \<Longrightarrow> 0 < n \<Longrightarrow>
      asn1_oid_loop s prev \<longleftrightarrow> (\<exists>m ns. base128_high n @ s = base128 m @ concat (map base128 ns))"
proof (induction s arbitrary: prev n)
  case Nil
  {
    case 1
    then show ?case by (auto intro: exI [of _ "[]"])
  next
    case 2
    have "base128_high n \<noteq> base128 m @ x" for m x
    proof
      assume eq: "base128_high n = base128 m @ x"
      then have "of_nat (m mod 128) \<in> set (base128_high n)" by (simp add: base128_def)
      from base128_high_top [OF this] show False by (simp add: unat_low_byte not_le del: of_nat_mod)
    qed
    with 2 show ?case by auto
  }
next
  case (Cons v s)
  have low: "(\<exists>m ns. base128_high k @ v # s = base128 m @ concat (map base128 ns))
      \<longleftrightarrow> asn1_oid_loop s v" if "unat v < 128" for k
  proof -
    have eq: "base128_high k @ v # s = base128 (k * 128 + unat v) @ s"
      using base128_low [OF that, of k] by simp
    have "asn1_oid_loop s v \<longleftrightarrow> (\<exists>ns. s = concat (map base128 ns))"
      using that u8_top_bit by (intro Cons.IH(1)) simp
    then show ?thesis unfolding eq by (auto dest: base128_append_eq)
  qed
  have high: "(\<exists>m ns. base128_high k @ v # s = base128 m @ concat (map base128 ns))
      \<longleftrightarrow> asn1_oid_loop s v" if v: "128 \<le> unat v" "k \<noteq> 0 \<or> unat v \<noteq> 128" for k
  proof -
    have "\<not> (k = 0 \<and> v = 0x80)" using v by auto
    from base128_high_snoc [OF v(1) this]
    have eq: "base128_high k @ v # s = base128_high (k * 128 + unat v mod 128) @ s" by simp
    have "k * 128 + unat v mod 128 \<noteq> 0"
    proof -
      have "unat v mod 128 = unat v - 128"
        using u8_high_length [OF v(1)] by (simp add: u8_low_bits)
      with v show ?thesis by linarith
    qed
    then show ?thesis unfolding eq using v u8_top_bit by (intro Cons.IH(2) [symmetric]) auto
  qed
  {
    case 1
    have first: "(\<exists>ns. v # s = concat (map base128 ns)) \<longleftrightarrow>
        (\<exists>m ns. base128_high 0 @ v # s = base128 m @ concat (map base128 ns))"
    proof
      assume "\<exists>ns. v # s = concat (map base128 ns)"
      then obtain m ns where "v # s = concat (map base128 (m # ns))" by (metis list.exhaust list.simps(8) concat.simps(1) list.distinct(1))
      then show "\<exists>m ns. base128_high 0 @ v # s = base128 m @ concat (map base128 ns)" by auto
    next
      assume "\<exists>m ns. base128_high 0 @ v # s = base128 m @ concat (map base128 ns)"
      then obtain m ns where "v # s = concat (map base128 (m # ns))" by auto
      then show "\<exists>ns. v # s = concat (map base128 ns)" by blast
    qed
    have "v \<noteq> 0x80" if "base128_high 0 @ v # s = base128 m @ x" for m x
    proof -
      from that have "v = hd (base128 m)" by (cases "base128 m") auto
      then show ?thesis using hd_base128 [of m] by auto
    qed
    with 1 first low [of 0] high [of 0] show ?case
      by (cases "v = 0x80"; cases "unat v < 128") (auto simp: word_unat_eq_iff)
  next
    case 2
    with low [of n] high [of n] show ?case by (cases "unat v < 128") auto
  }
qed

text \<open>A valid body is a non-empty sequence of minimally encoded components.\<close>

lemma CBS_is_valid_asn1_oid_iff:
  "CBS_is_valid_asn1_oid s \<longleftrightarrow> (\<exists>ns. ns \<noteq> [] \<and> s = concat (map base128 ns))"
  using asn1_oid_loop_iff(1) [of 0 s] by (auto simp: CBS_is_valid_asn1_oid_def)

end
