(* ===== verification/CBB.thy ===== *)
theory CBB
  imports CBS_ASN1
begin

text \<open>
  \<open>crypto/bytestring/cbb.c\<close>: the byte builder. A top-level \<open>CBB\<close> owns the
  buffer; every operation that opens a length-prefixed region makes a child
  \<open>CBB\<close> that writes into the same buffer, and the prefix is filled in when an
  ancestor is next written to (\<open>CBB_flush\<close>). The live handles form a chain, so
  the state is the buffer and the list of the open regions, outermost first,
  and a handle is its depth in the chain: 0 is the top-level \<open>CBB\<close>, \<open>d + 1\<close> the
  child of \<open>d\<close>. The \<open>child\<close> pointer of \<open>d\<close> is non-null exactly when \<open>d\<close> is below
  the number of open regions and no error has cleared it; a handle beyond that
  number is a flushed child, whose \<open>base\<close> the code has set to null. Accesses
  through that null pointer are undefined in C; the model records them in
  \<open>cbb_fault\<close>. An error locks the builder: \<open>cbb_on_error\<close> clears the \<open>child\<close>
  pointer of one handle (\<open>cbb_cut\<close>) and leaves the \<open>base\<close> of every child alone,
  so the children it drops stay in \<open>cbb_frames\<close> and their handles stay alive.
  Discarding a child that has an open child of its own takes both out of the
  model, although the code clears only the base of the first.
\<close>

section \<open>State\<close>

record cbb_buffer =
  b_buf :: bytes
  b_len :: nat
  b_cap :: nat
  b_can_resize :: bool
  b_error :: bool

record cbb_child =
  c_offset :: nat
  c_pending_len_len :: nat
  c_pending_is_asn1 :: bool

record cbb =
  cbb_base :: cbb_buffer
  cbb_frames :: "cbb_child list"
  cbb_cut :: "nat set"
  cbb_fault :: bool

type_synonym handle = nat
type_synonym 'a cbb_op = "(cbb, 'a) op"

text \<open>The \<open>base\<close> of a handle is not null; its \<open>child\<close> is not null.\<close>

definition cbb_alive :: "handle \<Rightarrow> cbb \<Rightarrow> bool" where
  "cbb_alive d s \<longleftrightarrow> d \<le> length (cbb_frames s)"

definition cbb_has_child :: "handle \<Rightarrow> cbb \<Rightarrow> bool" where
  "cbb_has_child d s \<longleftrightarrow> d < length (cbb_frames s) \<and> d \<notin> cbb_cut s"

text \<open>Bytes stored into the buffer at an index.\<close>

definition put_bytes :: "nat \<Rightarrow> bytes \<Rightarrow> bytes \<Rightarrow> bytes" where
  "put_bytes i bs m = take i m @ bs @ drop (i + length bs) m"

definition cbb_put :: "nat \<Rightarrow> bytes \<Rightarrow> cbb \<Rightarrow> cbb" where
  "cbb_put i bs s = s\<lparr>cbb_base := (cbb_base s)\<lparr>b_buf := put_bytes i bs (b_buf (cbb_base s))\<rparr>\<rparr>"

section \<open>Buffer\<close>

definition cbb_init :: "bytes \<Rightarrow> nat \<Rightarrow> bool \<Rightarrow> cbb" where
  "cbb_init buf cap can_resize =
     \<lparr>cbb_base = \<lparr>b_buf = buf, b_len = 0, b_cap = cap, b_can_resize = can_resize, b_error = False\<rparr>,
      cbb_frames = [], cbb_cut = {}, cbb_fault = False\<rparr>"

text \<open>
  \<open>CBB_init\<close> yields no state when it returns 0. A null buffer of capacity 0 is the
  empty block: \<open>OPENSSL_realloc\<close> treats the two alike.
\<close>

definition CBB_init :: "heap_env \<Rightarrow> nat \<Rightarrow> cbb option" where
  "CBB_init env initial_capacity =
     (case OPENSSL_malloc env initial_capacity of
        None \<Rightarrow> if initial_capacity > 0 then None else Some (cbb_init [] initial_capacity True)
      | Some buf \<Rightarrow> Some (cbb_init buf initial_capacity True))"

definition CBB_init_fixed :: "bytes \<Rightarrow> cbb" where
  "CBB_init_fixed buf = cbb_init buf (length buf) False"

text \<open>Makes room for \<open>len\<close> bytes; the result is the index \<open>*out\<close> points to.\<close>

definition cbb_buffer_reserve :: "heap_env \<Rightarrow> nat \<Rightarrow> (cbb_buffer, nat) op" where
  "cbb_buffer_reserve env len base =
     (let newlen = size_add (b_len base) len; err = (None, base\<lparr>b_error := True\<rparr>) in
      if newlen < b_len base then err
      else if newlen > b_cap base then
        if \<not> b_can_resize base then err
        else let newcap = size_mul (b_cap base) 2;
                 newcap = (if newcap < b_cap base \<or> newcap < newlen then newlen else newcap) in
          (case OPENSSL_realloc env (Some (b_buf base)) newcap of
             None \<Rightarrow> err
           | Some newbuf \<Rightarrow> (Some (b_len base), base\<lparr>b_buf := newbuf, b_cap := newcap\<rparr>))
      else (Some (b_len base), base))"

definition cbb_buffer_add :: "heap_env \<Rightarrow> nat \<Rightarrow> (cbb_buffer, nat) op" where
  "cbb_buffer_add env len = gbind (cbb_buffer_reserve env len)
     (\<lambda>out base. (Some out, base\<lparr>b_len := b_len base + len\<rparr>))"

definition on_base :: "(cbb_buffer, 'a) op \<Rightarrow> 'a cbb_op" where
  "on_base f s = (case f (cbb_base s) of (r, base) \<Rightarrow> (r, s\<lparr>cbb_base := base\<rparr>))"

definition cbb_on_error :: "handle \<Rightarrow> cbb \<Rightarrow> cbb" where
  "cbb_on_error d s =
     (if \<not> cbb_alive d s then s\<lparr>cbb_fault := True\<rparr>
      else s\<lparr>cbb_base := (cbb_base s)\<lparr>b_error := True\<rparr>, cbb_cut := insert d (cbb_cut s)\<rparr>)"

section \<open>Flushing\<close>

text \<open>
  The loop that writes a length prefix, last byte first, and returns what is left
  of the length.
\<close>

fun write_len_loop :: "nat \<Rightarrow> nat \<Rightarrow> nat \<Rightarrow> bytes \<Rightarrow> nat \<times> bytes" where
  "write_len_loop offset 0 len m = (len, m)"
| "write_len_loop offset (Suc i) len m =
     write_len_loop offset i (len div 256) (m[offset + i := of_nat len])"

text \<open>\<open>len_len\<close>, the initial length byte and the value of \<open>len\<close> after the branch.\<close>

definition asn1_len_choice :: "nat \<Rightarrow> (nat \<times> u8 \<times> nat) option" where
  "asn1_len_choice len =
     (if len > 0xfffffffe then None
      else if len > 0xffffff then Some (5, 0x80 OR 4, len)
      else if len > 0xffff then Some (4, 0x80 OR 3, len)
      else if len > 0xff then Some (3, 0x80 OR 2, len)
      else if len > 0x7f then Some (2, 0x80 OR 1, len)
      else Some (1, of_nat len, 0))"

definition memmove :: "nat \<Rightarrow> nat \<Rightarrow> nat \<Rightarrow> bytes \<Rightarrow> bytes" where
  "memmove dst src n m = put_bytes dst (take n (drop src m)) m"

definition cbb_write_prefix :: "handle \<Rightarrow> nat \<Rightarrow> nat \<Rightarrow> nat \<Rightarrow> unit cbb_op" where
  "cbb_write_prefix d offset pending_len_len len s =
     (case write_len_loop offset pending_len_len len (b_buf (cbb_base s)) of (rest, m) \<Rightarrow>
        let s = s\<lparr>cbb_base := (cbb_base s)\<lparr>b_buf := m\<rparr>\<rparr> in
        if rest \<noteq> 0 then (None, cbb_on_error d s)
        else (Some (), s\<lparr>cbb_frames := take d (cbb_frames s)\<rparr>))"

text \<open>The part of \<open>CBB_flush\<close> after the recursive call, for the child at depth \<open>d\<close>.\<close>

definition cbb_flush_child :: "heap_env \<Rightarrow> handle \<Rightarrow> unit cbb_op" where
  "cbb_flush_child env d s =
     (let child = cbb_frames s ! d;
          offset = c_offset child;
          pll = c_pending_len_len child;
          child_start = size_add offset pll in
      if child_start < offset \<or> b_len (cbb_base s) < child_start then (None, cbb_on_error d s)
      else let len = b_len (cbb_base s) - child_start in
        if c_pending_is_asn1 child then
          (case asn1_len_choice len of
             None \<Rightarrow> (None, cbb_on_error d s)
           | Some (len_len, initial_length_byte, len) \<Rightarrow>
               if len_len \<noteq> 1 then
                 (case on_base (cbb_buffer_add env (len_len - 1)) s of
                    (None, s) \<Rightarrow> (None, cbb_on_error d s)
                  | (Some _, s) \<Rightarrow>
                      let m = memmove (child_start + (len_len - 1)) child_start len (b_buf (cbb_base s));
                          m = m[offset := initial_length_byte] in
                      cbb_write_prefix d (offset + 1) (len_len - 1) len
                        (s\<lparr>cbb_base := (cbb_base s)\<lparr>b_buf := m\<rparr>\<rparr>))
               else
                 cbb_write_prefix d (offset + 1) (len_len - 1) len
                   (s\<lparr>cbb_base := (cbb_base s)\<lparr>b_buf := (b_buf (cbb_base s))[offset := initial_length_byte]\<rparr>\<rparr>))
        else cbb_write_prefix d offset pll len s)"

text \<open>\<open>cbb_flush_from\<close> is \<open>CBB_flush\<close> with the number of open regions below the handle.\<close>

fun cbb_flush_from :: "heap_env \<Rightarrow> nat \<Rightarrow> handle \<Rightarrow> unit cbb_op" where
  "cbb_flush_from env 0 d s = (if b_error (cbb_base s) then None else Some (), s)"
| "cbb_flush_from env (Suc n) d s =
     (if b_error (cbb_base s) then (None, s)
      else case cbb_flush_from env n (Suc d) s of
        (None, s) \<Rightarrow> (None, cbb_on_error d s)
      | (Some _, s) \<Rightarrow> cbb_flush_child env d s)"

definition CBB_flush :: "heap_env \<Rightarrow> handle \<Rightarrow> unit cbb_op" where
  "CBB_flush env d s =
     (if \<not> cbb_alive d s then (None, s)
      else cbb_flush_from env (length (cbb_frames s) - d) d s)"

definition CBB_zero :: cbb where
  "CBB_zero = cbb_init [] 0 False"

definition CBB_cleanup :: "handle \<Rightarrow> cbb \<Rightarrow> cbb" where
  "CBB_cleanup d s =
     (if d \<noteq> 0 then s
      else if b_can_resize (cbb_base s) then s\<lparr>cbb_base := (cbb_base s)\<lparr>b_buf := []\<rparr>\<rparr> else s)"

text \<open>
  \<open>CBB_finish\<close> with the pointers \<open>out_data\<close> and \<open>out_len\<close> present or null; the
  result is the block handed over and its length.
\<close>

definition CBB_finish :: "heap_env \<Rightarrow> handle \<Rightarrow> bool \<Rightarrow> bool \<Rightarrow> (bytes \<times> nat) cbb_op" where
  "CBB_finish env d has_out_data has_out_len s =
     (if d \<noteq> 0 then (None, s)
      else gbind (CBB_flush env d) (\<lambda>_ s.
        if b_can_resize (cbb_base s) \<and> (\<not> has_out_data \<or> \<not> has_out_len) then (None, s)
        else (Some (b_buf (cbb_base s), b_len (cbb_base s)),
              CBB_cleanup d (s\<lparr>cbb_base := (cbb_base s)\<lparr>b_buf := []\<rparr>\<rparr>))) s)"

text \<open>
  \<open>CBB_data\<close> as an index into the buffer. Both functions read through the null
  base of a dead handle; then they have no value.
\<close>

definition CBB_data :: "handle \<Rightarrow> cbb \<Rightarrow> nat option" where
  "CBB_data d s =
     (if \<not> cbb_alive d s then None
      else if d = 0 then Some 0
      else let c = cbb_frames s ! (d - 1) in Some (c_offset c + c_pending_len_len c))"

definition CBB_len :: "handle \<Rightarrow> cbb \<Rightarrow> nat option" where
  "CBB_len d s =
     (if \<not> cbb_alive d s then None
      else if d = 0 then Some (b_len (cbb_base s))
      else let c = cbb_frames s ! (d - 1) in
        Some (b_len (cbb_base s) - c_offset c - c_pending_len_len c))"

section \<open>Opening regions\<close>

definition cbb_add_child :: "heap_env \<Rightarrow> nat \<Rightarrow> bool \<Rightarrow> unit cbb_op" where
  "cbb_add_child env len_len is_asn1 s =
     (let offset = b_len (cbb_base s) in
      gbind (on_base (cbb_buffer_add env len_len)) (\<lambda>prefix_bytes s.
        let s = cbb_put prefix_bytes (replicate len_len 0) s in
        (Some (), s\<lparr>cbb_frames := cbb_frames s @
          [\<lparr>c_offset = offset, c_pending_len_len = len_len, c_pending_is_asn1 = is_asn1\<rparr>]\<rparr>)) s)"

definition cbb_add_length_prefixed :: "heap_env \<Rightarrow> handle \<Rightarrow> nat \<Rightarrow> unit cbb_op" where
  "cbb_add_length_prefixed env d len_len =
     gbind (CBB_flush env d) (\<lambda>_. cbb_add_child env len_len False)"

definition CBB_add_u8_length_prefixed :: "heap_env \<Rightarrow> handle \<Rightarrow> unit cbb_op" where
  "CBB_add_u8_length_prefixed env d = cbb_add_length_prefixed env d 1"

definition CBB_add_u16_length_prefixed :: "heap_env \<Rightarrow> handle \<Rightarrow> unit cbb_op" where
  "CBB_add_u16_length_prefixed env d = cbb_add_length_prefixed env d 2"

definition CBB_add_u24_length_prefixed :: "heap_env \<Rightarrow> handle \<Rightarrow> unit cbb_op" where
  "CBB_add_u24_length_prefixed env d = cbb_add_length_prefixed env d 3"

section \<open>Adding bytes\<close>

definition CBB_add_space :: "heap_env \<Rightarrow> handle \<Rightarrow> nat \<Rightarrow> nat cbb_op" where
  "CBB_add_space env d len =
     gbind (CBB_flush env d) (\<lambda>_. on_base (cbb_buffer_add env len))"

definition CBB_reserve :: "heap_env \<Rightarrow> handle \<Rightarrow> nat \<Rightarrow> nat cbb_op" where
  "CBB_reserve env d len =
     gbind (CBB_flush env d) (\<lambda>_. on_base (cbb_buffer_reserve env len))"

definition CBB_add_bytes :: "heap_env \<Rightarrow> handle \<Rightarrow> bytes \<Rightarrow> unit cbb_op" where
  "CBB_add_bytes env d data =
     gbind (CBB_add_space env d (length data)) (\<lambda>out s. (Some (), cbb_put out data s))"

definition CBB_add_zeros :: "heap_env \<Rightarrow> handle \<Rightarrow> nat \<Rightarrow> unit cbb_op" where
  "CBB_add_zeros env d len =
     gbind (CBB_add_space env d len) (\<lambda>out s. (Some (), cbb_put out (replicate len 0) s))"

definition CBB_did_write :: "handle \<Rightarrow> nat \<Rightarrow> unit cbb_op" where
  "CBB_did_write d len s =
     (if \<not> cbb_alive d s then (None, s\<lparr>cbb_fault := True\<rparr>)
      else let base = cbb_base s; newlen = size_add (b_len base) len in
        if cbb_has_child d s \<or> newlen < b_len base \<or> newlen > b_cap base then (None, s)
        else (Some (), s\<lparr>cbb_base := base\<lparr>b_len := newlen\<rparr>\<rparr>))"

text \<open>The loop of \<open>cbb_add_u\<close>, on the bytes \<open>out[0..i)\<close>; it also returns what is left of \<open>v\<close>.\<close>

fun add_u_loop :: "nat \<Rightarrow> nat \<Rightarrow> u64 \<Rightarrow> bytes \<Rightarrow> u64 \<times> bytes" where
  "add_u_loop out 0 v m = (v, m)"
| "add_u_loop out (Suc i) v m = add_u_loop out i (drop_bit 8 v) (m[out + i := ucast v])"

definition cbb_add_u :: "heap_env \<Rightarrow> handle \<Rightarrow> u64 \<Rightarrow> nat \<Rightarrow> unit cbb_op" where
  "cbb_add_u env d v len_len =
     gbind (CBB_add_space env d len_len) (\<lambda>out s.
       case add_u_loop out len_len v (b_buf (cbb_base s)) of (v, m) \<Rightarrow>
         let s = s\<lparr>cbb_base := (cbb_base s)\<lparr>b_buf := m\<rparr>\<rparr> in
         if v \<noteq> 0 then (None, cbb_on_error d s) else (Some (), s))"

definition CBB_add_u8 :: "heap_env \<Rightarrow> handle \<Rightarrow> u8 \<Rightarrow> unit cbb_op" where
  "CBB_add_u8 env d value = cbb_add_u env d (ucast value) 1"

definition CBB_add_u16 :: "heap_env \<Rightarrow> handle \<Rightarrow> u16 \<Rightarrow> unit cbb_op" where
  "CBB_add_u16 env d value = cbb_add_u env d (ucast value) 2"

definition CBB_add_u16le :: "heap_env \<Rightarrow> handle \<Rightarrow> u16 \<Rightarrow> unit cbb_op" where
  "CBB_add_u16le env d value = CBB_add_u16 env d (CRYPTO_bswap2 value)"

definition CBB_add_u24 :: "heap_env \<Rightarrow> handle \<Rightarrow> u32 \<Rightarrow> unit cbb_op" where
  "CBB_add_u24 env d value = cbb_add_u env d (ucast value) 3"

definition CBB_add_u32 :: "heap_env \<Rightarrow> handle \<Rightarrow> u32 \<Rightarrow> unit cbb_op" where
  "CBB_add_u32 env d value = cbb_add_u env d (ucast value) 4"

definition CBB_add_u32le :: "heap_env \<Rightarrow> handle \<Rightarrow> u32 \<Rightarrow> unit cbb_op" where
  "CBB_add_u32le env d value = CBB_add_u32 env d (CRYPTO_bswap4 value)"

definition CBB_add_u64 :: "heap_env \<Rightarrow> handle \<Rightarrow> u64 \<Rightarrow> unit cbb_op" where
  "CBB_add_u64 env d value = cbb_add_u env d value 8"

definition CBB_add_u64le :: "heap_env \<Rightarrow> handle \<Rightarrow> u64 \<Rightarrow> unit cbb_op" where
  "CBB_add_u64le env d value = CBB_add_u64 env d (CRYPTO_bswap8 value)"

definition CBB_discard_child :: "handle \<Rightarrow> cbb \<Rightarrow> cbb" where
  "CBB_discard_child d s =
     (if \<not> cbb_has_child d s then s
      else s\<lparr>cbb_base := (cbb_base s)\<lparr>b_len := c_offset (cbb_frames s ! d)\<rparr>,
             cbb_frames := take d (cbb_frames s)\<rparr>)"

section \<open>ASN.1\<close>

text \<open>The first loop of \<open>add_base128_integer\<close>: the number of 7-bit groups.\<close>

function base128_len :: "u64 \<Rightarrow> nat" where
  "base128_len copy = (if copy > 0 then Suc (base128_len (drop_bit 7 copy)) else 0)"
  by pat_completeness auto
termination
proof (relation "measure unat")
  fix copy :: u64
  assume "copy > 0"
  then have "0 < unat copy" by (simp add: unat_gt_0)
  moreover have "unat (drop_bit 7 copy) = unat copy div 2 ^ 7"
    by (simp only: unat_drop_bit_eq drop_bit_eq_div [where 'a = nat])
  ultimately show "(drop_bit 7 copy, copy) \<in> measure unat" by simp
qed simp

declare base128_len.simps [simp del]

fun base128_write_loop :: "heap_env \<Rightarrow> handle \<Rightarrow> u64 \<Rightarrow> nat \<Rightarrow> unit cbb_op" where
  "base128_write_loop env d v 0 = gret ()"
| "base128_write_loop env d v (Suc i) =
     (let byte = ucast (drop_bit (7 * i) v) AND 0x7f;
          byte = (if i \<noteq> 0 then byte OR 0x80 else byte) in
      gbind (CBB_add_u8 env d byte) (\<lambda>_. base128_write_loop env d v i))"

definition add_base128_integer :: "heap_env \<Rightarrow> handle \<Rightarrow> u64 \<Rightarrow> unit cbb_op" where
  "add_base128_integer env d v =
     (let len_len = base128_len v; len_len = (if len_len = 0 then 1 else len_len) in
      base128_write_loop env d v len_len)"

definition CBB_add_asn1 :: "heap_env \<Rightarrow> handle \<Rightarrow> asn1_tag \<Rightarrow> unit cbb_op" where
  "CBB_add_asn1 env d tag =
     gbind (CBB_flush env d) (\<lambda>_.
       let tag_bits = ucast (drop_bit CBS_ASN1_TAG_SHIFT tag) AND 0xe0;
           tag_number = tag AND CBS_ASN1_TAG_NUMBER_MASK in
       gbind (if tag_number \<ge> 0x1f
              then gbind (CBB_add_u8 env d (tag_bits OR 0x1f))
                     (\<lambda>_. add_base128_integer env d (ucast tag_number))
              else CBB_add_u8 env d (tag_bits OR ucast tag_number))
         (\<lambda>_. cbb_add_child env 1 True))"

text \<open>A failing call of one of these operations locks the handle's builder.\<close>

definition or_error :: "handle \<Rightarrow> 'a cbb_op \<Rightarrow> 'a cbb_op" where
  "or_error d f s = (case f s of
     (None, s) \<Rightarrow> (None, cbb_on_error d s)
   | (Some a, s) \<Rightarrow> (Some a, s))"

text \<open>The loop of \<open>CBB_add_asn1_uint64_with_tag\<close>, for the bytes from the \<open>i\<close>-th last on.\<close>

fun asn1_uint64_write_loop :: "heap_env \<Rightarrow> handle \<Rightarrow> u64 \<Rightarrow> nat \<Rightarrow> bool \<Rightarrow> bool cbb_op" where
  "asn1_uint64_write_loop env child value 0 started = gret started"
| "asn1_uint64_write_loop env child value (Suc i) started =
     (let byte = ucast (drop_bit (8 * i) value AND 0xff) in
      if \<not> started \<and> byte = 0 then asn1_uint64_write_loop env child value i started
      else
        gbind (if \<not> started \<and> byte AND 0x80 \<noteq> 0 then CBB_add_u8 env child 0 else gret ())
          (\<lambda>_. gbind (CBB_add_u8 env child byte)
            (\<lambda>_. asn1_uint64_write_loop env child value i True)))"

text \<open>The calls that lead to \<open>goto err\<close> are inside \<open>or_error\<close>, the last flush is not.\<close>

definition CBB_add_asn1_uint64_with_tag :: "heap_env \<Rightarrow> handle \<Rightarrow> u64 \<Rightarrow> asn1_tag \<Rightarrow> unit cbb_op" where
  "CBB_add_asn1_uint64_with_tag env d value tag =
     gbind (or_error d
       (gbind (CBB_add_asn1 env d tag) (\<lambda>_.
        gbind (asn1_uint64_write_loop env (Suc d) value 8 False) (\<lambda>started.
          if \<not> started then CBB_add_u8 env (Suc d) 0 else gret ()))))
       (\<lambda>_. CBB_flush env d)"

definition CBB_add_asn1_uint64 :: "heap_env \<Rightarrow> handle \<Rightarrow> u64 \<Rightarrow> unit cbb_op" where
  "CBB_add_asn1_uint64 env d value = CBB_add_asn1_uint64_with_tag env d value CBS_ASN1_INTEGER"

text \<open>The loop that skips sign-extension bytes, on the little-endian bytes of the value.\<close>

fun int64_start_loop :: "bytes \<Rightarrow> nat \<Rightarrow> nat" where
  "int64_start_loop bs 0 = 0"
| "int64_start_loop bs (Suc i) =
     (if bs ! Suc i = 0xff \<and> (bs ! i) AND 0x80 \<noteq> 0 then int64_start_loop bs i else Suc i)"

fun add_bytes_down :: "heap_env \<Rightarrow> handle \<Rightarrow> bytes \<Rightarrow> nat \<Rightarrow> unit cbb_op" where
  "add_bytes_down env d bs 0 = gret ()"
| "add_bytes_down env d bs (Suc i) =
     gbind (CBB_add_u8 env d (bs ! i)) (\<lambda>_. add_bytes_down env d bs i)"

text \<open>The \<open>int64_t\<close> is given as its two's complement bit pattern.\<close>

definition CBB_add_asn1_int64_with_tag :: "heap_env \<Rightarrow> handle \<Rightarrow> u64 \<Rightarrow> asn1_tag \<Rightarrow> unit cbb_op" where
  "CBB_add_asn1_int64_with_tag env d value tag =
     (if 0 \<le> sint value then CBB_add_asn1_uint64_with_tag env d value tag
      else let bs = le_bytes 8 (unat value); start = int64_start_loop bs 7 in
        gbind (or_error d
          (gbind (CBB_add_asn1 env d tag) (\<lambda>_. add_bytes_down env (Suc d) bs (Suc start))))
          (\<lambda>_. CBB_flush env d))"

definition CBB_add_asn1_int64 :: "heap_env \<Rightarrow> handle \<Rightarrow> u64 \<Rightarrow> unit cbb_op" where
  "CBB_add_asn1_int64 env d value = CBB_add_asn1_int64_with_tag env d value CBS_ASN1_INTEGER"

definition CBB_add_asn1_octet_string :: "heap_env \<Rightarrow> handle \<Rightarrow> bytes \<Rightarrow> unit cbb_op" where
  "CBB_add_asn1_octet_string env d data = or_error d
     (gbind (CBB_add_asn1 env d CBS_ASN1_OCTETSTRING) (\<lambda>_.
      gbind (CBB_add_bytes env (Suc d) data) (\<lambda>_. CBB_flush env d)))"

definition CBB_add_asn1_bool :: "heap_env \<Rightarrow> handle \<Rightarrow> int \<Rightarrow> unit cbb_op" where
  "CBB_add_asn1_bool env d value = or_error d
     (gbind (CBB_add_asn1 env d CBS_ASN1_BOOLEAN) (\<lambda>_.
      gbind (CBB_add_u8 env (Suc d) (if value \<noteq> 0 then 0xff else 0)) (\<lambda>_. CBB_flush env d)))"

section \<open>Stores into the buffer\<close>

lemma length_put_bytes [simp]: "i + length bs \<le> length m \<Longrightarrow> length (put_bytes i bs m) = length m"
  by (simp add: put_bytes_def)

lemma put_bytes_append: "put_bytes (length a) bs (a @ m) = a @ bs @ drop (length bs) m"
  by (simp add: put_bytes_def)

lemma put_bytes_snoc:
  assumes "i + length bs < length m"
  shows "put_bytes i bs (m[i + length bs := b]) = put_bytes i (bs @ [b]) m"
  using assms by (simp add: put_bytes_def drop_update_swap take_update_cancel
      upd_conv_take_nth_drop [of "length bs"] list_update_beyond Cons_nth_drop_Suc [symmetric]
      add.commute)

lemma write_len_loop_eq:
  "offset + n \<le> length m \<Longrightarrow>
     write_len_loop offset n len m = (len div 256 ^ n, put_bytes offset (be_bytes n len) m)"
proof (induction n arbitrary: len m)
  case 0
  show ?case by (simp add: put_bytes_def)
next
  case (Suc n)
  have "write_len_loop offset (Suc n) len m = write_len_loop offset n (len div 256) (m[offset + n := of_nat len])"
    by simp
  also have "\<dots> = (len div 256 div 256 ^ n, put_bytes offset (be_bytes n (len div 256)) (m[offset + n := of_nat len]))"
    using Suc by (subst Suc.IH) auto
  also have "len div 256 div 256 ^ n = len div 256 ^ Suc n" by (simp add: div_mult2_eq)
  also have "put_bytes offset (be_bytes n (len div 256)) (m[offset + n := of_nat len])
      = put_bytes offset (be_bytes (Suc n) len) m"
    using Suc.prems put_bytes_snoc [of offset "be_bytes n (len div 256)" m "of_nat len"] by simp
  finally show ?case .
qed

lemma ucast_u64_u8: "(ucast (v :: u64) :: u8) = of_nat (unat v)"
  by (simp add: word_unat_eq_iff unsigned_ucast_eq unat_of_nat take_bit_eq_mod)

lemma unat_drop_bit_div: "unat (drop_bit n (v :: 'a::len word)) = unat v div 2 ^ n"
  by (simp only: unat_drop_bit_eq drop_bit_eq_div [where 'a = nat])

lemma add_u_loop_eq:
  "out + n \<le> length m \<Longrightarrow>
     add_u_loop out n v m = (drop_bit (8 * n) v, put_bytes out (be_bytes n (unat v)) m)"
proof (induction n arbitrary: v m)
  case 0
  show ?case by (simp add: put_bytes_def)
next
  case (Suc n)
  have v8: "unat (drop_bit 8 v) = unat v div 256" using unat_drop_bit_div [of 8 v] by simp
  have "add_u_loop out (Suc n) v m = add_u_loop out n (drop_bit 8 v) (m[out + n := ucast v])"
    by simp
  also have "\<dots> = (drop_bit (8 * n) (drop_bit 8 v),
      put_bytes out (be_bytes n (unat (drop_bit 8 v))) (m[out + n := ucast v]))"
    using Suc by (subst Suc.IH) auto
  also have "drop_bit (8 * n) (drop_bit 8 v) = drop_bit (8 * Suc n) v" by (simp add: add.commute)
  also have "put_bytes out (be_bytes n (unat (drop_bit 8 v))) (m[out + n := ucast v])
      = put_bytes out (be_bytes (Suc n) (unat v)) m"
    using Suc.prems put_bytes_snoc [of out "be_bytes n (unat v div 256)" m "ucast v"]
    by (simp only: v8 ucast_u64_u8 be_bytes.simps length_be_bytes)
  finally show ?case .
qed

section \<open>Invariant of the buffer\<close>

definition base_inv :: "cbb_buffer \<Rightarrow> bool" where
  "base_inv b \<longleftrightarrow> length (b_buf b) = b_cap b \<and> b_len b \<le> b_cap b \<and> b_cap b < size_mod"

definition b_data :: "cbb_buffer \<Rightarrow> bytes" where
  "b_data b = take (b_len b) (b_buf b)"

lemma length_b_data [simp]: "base_inv b \<Longrightarrow> length (b_data b) = b_len b"
  by (simp add: base_inv_def b_data_def)

lemma reserve_Some:
  assumes "cbb_buffer_reserve env n b = (Some out, b')" "base_inv b" "n < size_mod"
  shows "out = b_len b \<and> base_inv b' \<and> b_len b' = b_len b \<and> b_data b' = b_data b
    \<and> b_len b + n \<le> b_cap b' \<and> b_error b' = b_error b"
proof -
  have b: "length (b_buf b) = b_cap b" "b_len b \<le> b_cap b" "b_cap b < size_mod"
    using assms(2) by (auto simp: base_inv_def)
  let ?new = "size_add (b_len b) n"
  have over: "\<not> ?new < b_len b"
    using assms(1) by (auto simp: cbb_buffer_reserve_def Let_def)
  then have new: "?new = b_len b + n"
    using size_add_overflow_iff [of "b_len b" n] b assms(3) by (simp add: size_add_exact)
  show ?thesis
  proof (cases "b_cap b < ?new")
    case False
    with assms(1) over have "out = b_len b" "b' = b"
      by (auto simp: cbb_buffer_reserve_def Let_def)
    with False new assms(2) show ?thesis by simp
  next
    case True
    obtain newcap where newcap: "newcap = (if size_mul (b_cap b) 2 < b_cap b \<or> size_mul (b_cap b) 2 < ?new
      then ?new else size_mul (b_cap b) 2)" by blast
    have "?new < size_mod" "size_mul (b_cap b) 2 < size_mod"
      by (simp_all add: size_add_def size_mul_def)
    then have c: "?new \<le> newcap" "newcap < size_mod" by (auto simp: newcap)
    from assms(1) have "(if \<not> b_can_resize b then (None, b\<lparr>b_error := True\<rparr>)
        else case OPENSSL_realloc env (Some (b_buf b)) newcap of
          None \<Rightarrow> (None, b\<lparr>b_error := True\<rparr>)
        | Some newbuf \<Rightarrow> (Some (b_len b), b\<lparr>b_buf := newbuf, b_cap := newcap\<rparr>)) = (Some out, b')"
      using over True unfolding cbb_buffer_reserve_def Let_def newcap [symmetric] by simp
    then obtain newbuf
      where r: "OPENSSL_realloc env (Some (b_buf b)) newcap = Some newbuf"
        and b': "b' = b\<lparr>b_buf := newbuf, b_cap := newcap\<rparr>" "out = b_len b"
      by (auto split: if_splits option.splits)
    have "length newbuf = newcap" "take (b_cap b) newbuf = b_buf b"
      using OPENSSL_realloc_grow [OF r] b c True by auto
    moreover from this b have "take (b_len b) newbuf = take (b_len b) (b_buf b)"
      by (metis min.absorb1 take_take)
    ultimately show ?thesis using b c new by (auto simp: base_inv_def b_data_def b')
  qed
qed

lemma reserve_None:
  "cbb_buffer_reserve env n b = (None, b') \<Longrightarrow> b' = b\<lparr>b_error := True\<rparr>"
  by (auto simp: cbb_buffer_reserve_def Let_def split: if_splits option.splits)

lemma reserve_fits:
  "base_inv b \<Longrightarrow> b_len b + n \<le> b_cap b \<Longrightarrow> cbb_buffer_reserve env n b = (Some (b_len b), b)"
  by (auto simp: cbb_buffer_reserve_def base_inv_def size_add_exact)

lemma add_Some:
  assumes "cbb_buffer_add env n b = (Some out, b')" "base_inv b" "n < size_mod"
  shows "out = b_len b \<and> base_inv b' \<and> b_len b' = b_len b + n \<and> take (b_len b) (b_buf b') = b_data b
    \<and> b_error b' = b_error b"
proof -
  from assms(1) obtain b1 where r: "cbb_buffer_reserve env n b = (Some out, b1)"
    and b': "b' = b1\<lparr>b_len := b_len b1 + n\<rparr>"
    by (auto simp: cbb_buffer_add_def gbind_eq_Some_iff)
  from reserve_Some [OF r assms(2,3)] show ?thesis by (auto simp: b' base_inv_def b_data_def)
qed

lemma add_None: "cbb_buffer_add env n b = (None, b') \<Longrightarrow> b' = b\<lparr>b_error := True\<rparr>"
  by (auto simp: cbb_buffer_add_def gbind_def dest: reserve_None split: prod.splits option.splits)

text \<open>After room has been added and filled, the buffer holds what it held and the new bytes.\<close>

lemma add_put_data:
  assumes "cbb_buffer_add env (length x) b = (Some out, b')" "base_inv b" "length x < size_mod"
  shows "b_data (b'\<lparr>b_buf := put_bytes out x (b_buf b')\<rparr>) = b_data b @ x"
    "base_inv (b'\<lparr>b_buf := put_bytes out x (b_buf b')\<rparr>)"
proof -
  note a = add_Some [OF assms]
  have len: "b_len b + length x \<le> length (b_buf b')" using a by (auto simp: base_inv_def)
  have l: "length (b_data b) = b_len b" using assms(2) by simp
  have "b_buf b' = b_data b @ drop (b_len b) (b_buf b')"
    using a append_take_drop_id [of "b_len b" "b_buf b'"] by simp
  then have "put_bytes out x (b_buf b') = b_data b @ x @ drop (b_len b + length x) (b_buf b')"
    using a l put_bytes_append [of "b_data b" x "drop (b_len b) (b_buf b')"] by (simp add: add.commute)
  with a l show "b_data (b'\<lparr>b_buf := put_bytes out x (b_buf b')\<rparr>) = b_data b @ x"
    by (simp add: b_data_def)
  show "base_inv (b'\<lparr>b_buf := put_bytes out x (b_buf b')\<rparr>)"
    using a len by (simp add: base_inv_def)
qed

section \<open>Abstract builder\<close>

text \<open>
  What the builder promises, free of buffers and offsets: the bytes written at
  the top level and, for every open region, the kind of its prefix and the bytes
  written into it so far. Closing a region appends its prefix and its bytes to
  the region around it.
\<close>

datatype region_kind = Fixed_len nat | Asn1_len

type_synonym builder = "bytes \<times> (region_kind \<times> bytes) list"

definition region_bytes :: "region_kind \<Rightarrow> bytes \<Rightarrow> bytes option" where
  "region_bytes k body = (case k of
     Fixed_len n \<Rightarrow> if length body < 256 ^ n then Some (length_prefixed n body) else None
   | Asn1_len \<Rightarrow> if length body \<le> 0xfffffffe then Some (asn1_length_bytes (length body) @ body) else None)"

fun collapse :: "(region_kind \<times> bytes) list \<Rightarrow> bytes option" where
  "collapse [] = Some []"
| "collapse ((k, b) # ps) = Option.bind (collapse ps) (\<lambda>t. region_bytes k (b @ t))"

fun app_last :: "bytes \<Rightarrow> builder \<Rightarrow> builder" where
  "app_last x (tp, []) = (tp @ x, [])"
| "app_last x (tp, [(k, b)]) = (tp, [(k, b @ x)])"
| "app_last x (tp, p # q # ps) = (tp, p # snd (app_last x (tp, q # ps)))"

definition w_flush :: "nat \<Rightarrow> builder \<Rightarrow> builder option" where
  "w_flush d A = (if d > length (snd A) then None
     else map_option (\<lambda>t. app_last t (fst A, take d (snd A))) (collapse (drop d (snd A))))"

definition w_add :: "nat \<Rightarrow> bytes \<Rightarrow> builder \<Rightarrow> builder option" where
  "w_add d x A = map_option (app_last x) (w_flush d A)"

definition w_open :: "nat \<Rightarrow> region_kind \<Rightarrow> builder \<Rightarrow> builder option" where
  "w_open d k A = map_option (\<lambda>(tp, ps). (tp, ps @ [(k, [])])) (w_flush d A)"

text \<open>The abstract state that a concrete one represents.\<close>

definition child_kind :: "cbb_child \<Rightarrow> region_kind" where
  "child_kind c = (if c_pending_is_asn1 c then Asn1_len else Fixed_len (c_pending_len_len c))"

definition c_start :: "cbb_child \<Rightarrow> nat" where
  "c_start c = c_offset c + c_pending_len_len c"

definition next_off :: "cbb_child list \<Rightarrow> bytes \<Rightarrow> nat" where
  "next_off cs data = (case cs of [] \<Rightarrow> length data | c # _ \<Rightarrow> c_offset c)"

fun pending :: "cbb_child list \<Rightarrow> bytes \<Rightarrow> (region_kind \<times> bytes) list" where
  "pending [] data = []"
| "pending (c # cs) data =
     (child_kind c, drop (c_start c) (take (next_off cs data) data)) # pending cs data"

definition regions :: "cbb_child list \<Rightarrow> bytes \<Rightarrow> builder" where
  "regions cs data = (take (next_off cs data) data, pending cs data)"

definition cbb_abs :: "cbb \<Rightarrow> builder" where
  "cbb_abs s = regions (cbb_frames s) (b_data (cbb_base s))"

text \<open>The open regions are nested and inside the data.\<close>

fun chain :: "nat \<Rightarrow> cbb_child list \<Rightarrow> nat \<Rightarrow> bool" where
  "chain lo [] n \<longleftrightarrow> lo \<le> n"
| "chain lo (c # cs) n \<longleftrightarrow> lo \<le> c_offset c \<and> chain (c_start c) cs n"

definition child_ok :: "cbb_child \<Rightarrow> bool" where
  "child_ok c \<longleftrightarrow> (c_pending_is_asn1 c \<longrightarrow> c_pending_len_len c = 1)"

definition cbb_inv :: "cbb \<Rightarrow> bool" where
  "cbb_inv s \<longleftrightarrow> base_inv (cbb_base s) \<and> chain 0 (cbb_frames s) (b_len (cbb_base s))
     \<and> list_all child_ok (cbb_frames s)"

subsection \<open>Regions of a byte string\<close>

lemma length_pending [simp]: "length (pending cs data) = length cs"
  by (induction cs) auto

lemma chain_le: "chain lo cs n \<Longrightarrow> lo \<le> n"
proof (induction cs arbitrary: lo)
  case (Cons c cs)
  from Cons.IH [of "c_start c"] Cons.prems show ?case by (simp add: c_start_def)
qed simp

lemma chain_next_off: "chain lo cs (length data) \<Longrightarrow> lo \<le> next_off cs data \<and> next_off cs data \<le> length data"
  by (cases cs) (auto simp: next_off_def c_start_def dest: chain_le)

lemma chain_mono: "chain lo cs n \<Longrightarrow> n \<le> m \<Longrightarrow> chain lo cs m"
  by (induction cs arbitrary: lo) auto

lemma chain_take: "chain lo cs n \<Longrightarrow> chain lo (take d cs) n"
proof (induction cs arbitrary: lo d)
  case (Cons c cs)
  then show ?case by (cases d) (auto dest: chain_le simp: c_start_def)
qed simp

lemma chain_append:
  "chain lo (cs @ [c]) n \<longleftrightarrow> chain lo cs (c_offset c) \<and> c_start c \<le> n"
  by (induction cs arbitrary: lo) auto

lemma chain_take_next:
  "chain lo cs (length data) \<Longrightarrow> chain lo (take d cs) (next_off (drop d cs) data)"
proof (induction cs arbitrary: lo d)
  case (Cons c cs)
  then show ?case by (cases d) (auto simp: next_off_def)
qed (simp add: next_off_def)

lemma pending_append:
  assumes "chain lo (c # cs) (length data)"
  shows "pending (c # cs) (data @ t) = snd (app_last t (tp, pending (c # cs) data))"
  using assms
proof (induction cs arbitrary: lo c)
  case Nil
  then show ?case by (simp add: next_off_def)
next
  case (Cons c' cs)
  then have "chain (c_start c) (c' # cs) (length data)" by simp
  from Cons.IH [OF this] chain_next_off [OF this] show ?case
    by (simp add: next_off_def)
qed

lemma fst_app_last: "ps \<noteq> [] \<Longrightarrow> fst (app_last t (tp, ps)) = tp"
  by (induction t "(tp, ps)" rule: app_last.induct) auto

lemma app_last_Nil_snd: "ps \<noteq> [] \<Longrightarrow> app_last t (tp, ps) = (tp, snd (app_last t (tp, ps)))"
  using fst_app_last [of ps t tp] by (metis prod.collapse)

lemma regions_append:
  assumes "chain 0 cs (length data)"
  shows "regions cs (data @ t) = app_last t (regions cs data)"
proof (cases cs)
  case Nil
  then show ?thesis by (simp add: regions_def next_off_def)
next
  case (Cons c cs')
  have "pending cs data \<noteq> []" by (simp add: Cons)
  have tp: "take (next_off cs (data @ t)) (data @ t) = take (next_off cs data) data"
    using chain_next_off [OF assms] by (simp add: next_off_def Cons)
  have "regions cs (data @ t)
      = (take (next_off cs data) data, snd (app_last t (take (next_off cs data) data, pending cs data)))"
    using pending_append [of 0 c cs' data t "take (next_off cs data) data"] assms tp
    by (simp only: regions_def Cons)
  also have "\<dots> = app_last t (regions cs data)"
    unfolding regions_def by (rule app_last_Nil_snd [symmetric]) fact
  finally show ?thesis .
qed

lemma chain_next_mono:
  "chain lo cs (length data) \<Longrightarrow> next_off cs data \<le> next_off (drop d cs) data"
proof (induction cs arbitrary: lo d)
  case (Cons c cs)
  show ?case
  proof (cases d)
    case (Suc e)
    have ch: "chain (c_start c) cs (length data)" using Cons.prems by simp
    have "c_offset c \<le> next_off cs data"
      using chain_next_off [OF ch] by (simp add: c_start_def)
    with Cons.IH [OF ch, of e] Suc show ?thesis by (simp add: next_off_def)
  qed simp
qed simp

lemma next_off_take:
  assumes "chain lo cs (length data)"
  shows "next_off (take d cs) (take (next_off (drop d cs) data) data) = next_off cs data"
proof (cases "cs = [] \<or> d = 0")
  case True
  with chain_next_off [OF assms] show ?thesis by (auto simp: next_off_def)
next
  case False
  then show ?thesis by (cases cs; cases d) (auto simp: next_off_def)
qed

lemma pending_take:
  assumes "chain lo cs (length data)"
  shows "pending (take d cs) (take (next_off (drop d cs) data) data) = take d (pending cs data)"
  using assms
proof (induction cs arbitrary: lo d)
  case (Cons c cs)
  show ?case
  proof (cases d)
    case (Suc e)
    have ch: "chain (c_start c) cs (length data)" using Cons.prems by simp
    show ?thesis using Cons.IH [OF ch, of e] next_off_take [OF ch, of e] chain_next_mono [OF ch, of e] Suc
      by (simp add: min_def)
  qed simp
qed simp

lemma regions_take:
  assumes "chain 0 cs (length data)"
  shows "regions (take d cs) (take (next_off (drop d cs) data) data)
    = (fst (regions cs data), take d (snd (regions cs data)))"
  using next_off_take [OF assms, of d] pending_take [OF assms, of d] chain_next_mono [OF assms, of d]
  by (simp add: regions_def min_def)

lemma regions_open:
  assumes "chain 0 cs (length data)" "c_offset c = length data" "length z = c_pending_len_len c"
  shows "regions (cs @ [c]) (data @ z) = (fst (regions cs data), snd (regions cs data) @ [(child_kind c, [])])"
proof -
  have "pending (cs @ [c]) (data @ z) = pending cs data @ [(child_kind c, [])]"
    if "chain lo cs (length data)" for lo
    using that
  proof (induction cs arbitrary: lo)
    case Nil
    then show ?case using assms(2,3) by (simp add: next_off_def c_start_def)
  next
    case (Cons c' cs)
    then have ch: "chain (c_start c') cs (length data)" by simp
    have "take (next_off (cs @ [c]) (data @ z)) (data @ z) = take (next_off cs data) data"
      using chain_next_off [OF ch] assms(2) by (cases cs) (auto simp: next_off_def)
    with Cons.IH [OF ch] show ?case by simp
  qed
  moreover have "take (next_off (cs @ [c]) (data @ z)) (data @ z) = take (next_off cs data) data"
    using chain_next_off [OF assms(1)] assms(2) by (cases cs) (auto simp: next_off_def)
  ultimately show ?thesis using assms(1) by (simp add: regions_def)
qed

section \<open>Flushing implements closing\<close>

lemma asn1_len_choice_None: "asn1_len_choice n = None \<longleftrightarrow> n > 0xfffffffe"
  by (simp add: asn1_len_choice_def)

lemma asn1_len_choice_Some:
  assumes "asn1_len_choice n = Some (k, b, l)"
  shows "asn1_length_bytes n = b # be_bytes (k - 1) l" "1 \<le> k" "k \<le> 5" "l div 256 ^ (k - 1) = 0"
    "k = 1 \<or> l = n" "n \<le> 0xfffffffe"
  using assms unfolding asn1_len_choice_def asn1_length_bytes_def
  by (auto simp: div_eq_0_iff be_bytes.simps(1) simp del: be_bytes.simps(2) split: if_splits)

lemma data_split:
  assumes "base_inv b" "b_data b = pre @ z @ body"
  shows "b_buf b = pre @ z @ body @ drop (b_len b) (b_buf b)"
    "b_len b = length pre + length z + length body"
  using assms append_take_drop_id [of "b_len b" "b_buf b"] length_b_data [of b]
  by (simp_all add: b_data_def)

text \<open>The state in which a region has been closed.\<close>

definition closed :: "handle \<Rightarrow> cbb \<Rightarrow> bytes \<Rightarrow> cbb \<Rightarrow> bool" where
  "closed d s data s' \<longleftrightarrow> base_inv (cbb_base s') \<and> b_data (cbb_base s') = data
     \<and> cbb_frames s' = take d (cbb_frames s) \<and> cbb_fault s' = cbb_fault s
     \<and> b_error (cbb_base s') = b_error (cbb_base s)"

definition locked :: "handle \<Rightarrow> cbb \<Rightarrow> cbb \<Rightarrow> bool" where
  "locked d s s' \<longleftrightarrow> b_error (cbb_base s') \<and> cbb_fault s' = cbb_fault s \<and> cbb_alive d s'"

lemma on_error_locked: "cbb_alive d s' \<Longrightarrow> cbb_fault s' = cbb_fault s \<Longrightarrow> locked d s (cbb_on_error d s')"
  by (simp add: cbb_on_error_def locked_def cbb_alive_def)

lemma with_buf:
  assumes "base_inv b" "length x = b_len b"
  shows "base_inv (b\<lparr>b_buf := x @ drop (b_len b) (b_buf b)\<rparr>)"
    "b_data (b\<lparr>b_buf := x @ drop (b_len b) (b_buf b)\<rparr>) = x"
  using assms by (simp_all add: base_inv_def b_data_def)

lemma write_prefix_data:
  assumes inv: "base_inv (cbb_base s)" "b_data (cbb_base s) = pre @ z @ body"
    and "length z = n" "d \<le> length (cbb_frames s)"
  shows "case cbb_write_prefix d (length pre) n l s of
      (None, s') \<Rightarrow> l div 256 ^ n \<noteq> 0 \<and> locked d s s'
    | (Some _, s') \<Rightarrow> l div 256 ^ n = 0 \<and> closed d s (pre @ be_bytes n l @ body) s'"
proof -
  let ?b = "cbb_base s"
  note sp = data_split [OF inv]
  have le: "length pre + n \<le> length (b_buf ?b)"
    using sp assms(1,3) by (simp add: base_inv_def)
  obtain x where x: "x = pre @ be_bytes n l @ body" by blast
  have put: "put_bytes (length pre) (be_bytes n l) (b_buf ?b) = x @ drop (b_len ?b) (b_buf ?b)"
    using put_bytes_append [of pre "be_bytes n l" "z @ body @ drop (b_len ?b) (b_buf ?b)"]
      sp(1) assms(3) x by simp
  have "length x = b_len ?b" using sp(2) assms(3) x by simp
  note buf = with_buf [OF inv(1) this]
  from buf assms(4) have "case cbb_write_prefix d (length pre) n l s of
      (None, s') \<Rightarrow> l div 256 ^ n \<noteq> 0 \<and> locked d s s'
    | (Some _, s') \<Rightarrow> l div 256 ^ n = 0 \<and> closed d s x s'"
    by (simp add: cbb_write_prefix_def write_len_loop_eq [OF le] put Let_def closed_def
        on_error_locked cbb_alive_def)
  then show ?thesis unfolding x .
qed

lemma flush_child_fixed:
  assumes inv: "base_inv (cbb_base s)" "b_data (cbb_base s) = pre @ z @ body"
    and c: "cbb_frames s ! d = c" "d < length (cbb_frames s)" "c_offset c = length pre"
      "c_pending_len_len c = length z" "\<not> c_pending_is_asn1 c"
  shows "case cbb_flush_child env d s of
      (None, s') \<Rightarrow> locked d s s'
    | (Some _, s') \<Rightarrow> \<exists>x. region_bytes (child_kind c) body = Some x \<and> closed d s (pre @ x) s'"
proof -
  note sp = data_split [OF inv]
  let ?n = "length z"
  have "b_len (cbb_base s) < size_mod" using inv(1) by (simp add: base_inv_def)
  then have start: "size_add (length pre) ?n = length pre + ?n" using sp(2) by (simp add: size_add_exact)
  have len: "b_len (cbb_base s) - (length pre + ?n) = length body" using sp(2) by simp
  have flush: "cbb_flush_child env d s = cbb_write_prefix d (length pre) ?n (length body) s"
    using c start sp(2) by (simp add: cbb_flush_child_def Let_def len)
  show ?thesis
    using write_prefix_data [OF inv, of ?n d "length body"] c
    by (auto simp: flush region_bytes_def child_kind_def length_prefixed_def div_eq_0_iff
        split: prod.splits option.splits)
qed

lemma flush_child_asn1:
  assumes inv: "base_inv (cbb_base s)" "b_data (cbb_base s) = pre @ [z] @ body"
    and c: "cbb_frames s ! d = c" "d < length (cbb_frames s)" "c_offset c = length pre"
      "c_pending_len_len c = 1" "c_pending_is_asn1 c"
  shows "case cbb_flush_child env d s of
      (None, s') \<Rightarrow> locked d s s'
    | (Some _, s') \<Rightarrow> \<exists>x. region_bytes (child_kind c) body = Some x \<and> closed d s (pre @ x) s'"
proof -
  note sp = data_split [OF inv]
  let ?b = "cbb_base s" and ?o = "length pre" and ?n = "length body"
  have "b_len ?b < size_mod" using inv(1) by (simp add: base_inv_def)
  then have start: "size_add ?o (Suc 0) = Suc ?o" using sp(2) by (simp add: size_add_exact)
  have len: "b_len ?b - Suc ?o = ?n" using sp(2) by simp
  note unfold_flush = cbb_flush_child_def Let_def c(1,3,4) start len
  show ?thesis
  proof (cases "asn1_len_choice ?n")
    case None
    with c sp(2) show ?thesis
      by (simp add: unfold_flush on_error_locked cbb_alive_def)
  next
    case (Some r)
    then obtain k ib l where ch: "asn1_len_choice ?n = Some (k, ib, l)" by (cases r) auto
    note k = asn1_len_choice_Some [OF ch]
    have region: "region_bytes (child_kind c) body = Some (ib # be_bytes (k - 1) l @ body)"
      using k(1,6) c(5) by (simp add: region_bytes_def child_kind_def)
    show ?thesis
    proof (cases "k = 1")
      case True
      obtain s1 where s1: "s1 = s\<lparr>cbb_base := ?b\<lparr>b_buf := (b_buf ?b)[?o := ib]\<rparr>\<rparr>" by blast
      have "(b_buf ?b)[?o := ib] = (pre @ [ib] @ body) @ drop (b_len ?b) (b_buf ?b)"
        by (subst sp(1)) simp
      with with_buf [OF inv(1), of "pre @ [ib] @ body"] sp(2)
      have b1: "base_inv (cbb_base s1)" "b_data (cbb_base s1) = (pre @ [ib]) @ [] @ body"
        by (simp_all add: s1)
      have "cbb_flush_child env d s = cbb_write_prefix d (?o + 1) 0 l s1"
        using c(5) sp(2) True ch by (simp add: unfold_flush s1)
      with write_prefix_data [OF b1, of 0 d l] c(2) show ?thesis
        using True region k(4)
        by (auto simp: s1 locked_def closed_def split: prod.splits option.splits)
    next
      case False
      then have l: "l = ?n" and e: "0 < k - 1" using k(2,5) by auto
      obtain r1 b1 where add: "cbb_buffer_add env (k - 1) ?b = (r1, b1)" by fastforce
      show ?thesis
      proof (cases r1)
        case None
        with add have "cbb_flush_child env d s = (None, cbb_on_error d (s\<lparr>cbb_base := b1\<rparr>))"
          using c(5) sp(2) False ch by (simp add: unfold_flush on_base_def)
        with c(2) show ?thesis by (simp add: on_error_locked cbb_alive_def)
      next
        case (Some out)
        have small: "k - 1 < size_mod" using k(3) by (simp add: size_mod_def)
        note a = add_Some [OF add [unfolded Some] inv(1) small]
        have pres: "take (b_len ?b) (b_buf b1) = pre @ [z] @ body" using a inv(2) by simp
        have "length (drop (b_len ?b) (b_buf b1)) \<ge> k - 1" using a by (auto simp: base_inv_def)
        moreover have "b_buf b1 = pre @ z # body @ drop (b_len ?b) (b_buf b1)"
          using append_take_drop_id [of "b_len ?b" "b_buf b1"] pres by simp
        ultimately obtain R where R: "b_buf b1 = pre @ z # body @ R" "k - 1 \<le> length R" by blast
        obtain w where w: "take (k - 1) (body @ R) = w" "length w = k - 1" using R(2) by simp
        have "memmove (?o + 1 + (k - 1)) (?o + 1) l (b_buf b1)
            = pre @ z # w @ body @ drop (k - 1) R"
          using w R(2) by (simp add: memmove_def put_bytes_def R(1) l add.commute)
        then have m: "(memmove (?o + 1 + (k - 1)) (?o + 1) l (b_buf b1))[?o := ib]
            = (pre @ [ib] @ w @ body) @ drop (b_len b1) (b_buf b1)"
          using a sp(2) R by simp
        obtain s1 where s1: "s1 = s\<lparr>cbb_base := b1\<lparr>b_buf := (memmove (?o + 1 + (k - 1)) (?o + 1) l (b_buf b1))[?o := ib]\<rparr>\<rparr>"
          by blast
        have "length (pre @ [ib] @ w @ body) = b_len b1" using a sp(2) w(2) by simp
        from with_buf [OF _ this] a m
        have i1: "base_inv (cbb_base s1)" "b_data (cbb_base s1) = (pre @ [ib]) @ w @ body"
          by (simp_all add: s1)
        have "cbb_flush_child env d s = cbb_write_prefix d (?o + 1) (k - 1) l s1"
          using c(5) sp(2) False ch add Some by (simp add: unfold_flush on_base_def s1)
        with write_prefix_data [OF i1, of "k - 1" d l] c(2) w(2) show ?thesis
          using region a by (auto simp: s1 locked_def closed_def split: prod.splits option.splits)
      qed
    qed
  qed
qed

lemma chain_drop: "chain lo cs n \<Longrightarrow> \<exists>lo'. chain lo' (drop d cs) n"
proof (induction cs arbitrary: lo d)
  case (Cons c cs)
  then show ?case by (cases d) auto
qed auto

lemma pending_drop: "pending (drop d cs) data = drop d (pending cs data)"
proof (induction cs arbitrary: d)
  case (Cons c cs)
  then show ?case by (cases d) auto
qed simp

lemma list_all_nth: "list_all P xs \<Longrightarrow> i < length xs \<Longrightarrow> P (xs ! i)"
  by (simp add: list_all_length)

lemma flush_child_region:
  assumes inv: "base_inv (cbb_base s)" "b_data (cbb_base s) = pre @ z @ body"
    and c: "cbb_frames s ! d = c" "d < length (cbb_frames s)" "c_offset c = length pre"
      "c_pending_len_len c = length z" "child_ok c"
  shows "case cbb_flush_child env d s of
      (None, s') \<Rightarrow> locked d s s'
    | (Some _, s') \<Rightarrow> \<exists>x. region_bytes (child_kind c) body = Some x \<and> closed d s (pre @ x) s'"
proof (cases "c_pending_is_asn1 c")
  case True
  with c obtain y where "z = [y]" by (auto simp: child_ok_def length_Suc_conv)
  with flush_child_asn1 [of s pre y body d c] inv c True show ?thesis by (simp add: child_ok_def)
next
  case False
  with flush_child_fixed [OF inv c(1-4)] show ?thesis by simp
qed

lemma take_drop_segment:
  "i \<le> j \<Longrightarrow> j \<le> k \<Longrightarrow> k \<le> length xs \<Longrightarrow>
     take k xs = take i xs @ drop i (take j xs) @ drop j (take k xs)"
  by (metis append.assoc append_take_drop_id min.absorb1 take_take)

lemma cbb_flush_from_eq:
  assumes "cbb_inv s" "d + n = length (cbb_frames s)" "data = b_data (cbb_base s)"
  shows "case cbb_flush_from env n d s of
      (None, s') \<Rightarrow> locked d s s'
    | (Some _, s') \<Rightarrow> \<exists>t. collapse (drop d (pending (cbb_frames s) data)) = Some t
        \<and> closed d s (take (next_off (drop d (cbb_frames s)) data) data @ t) s' \<and> \<not> b_error (cbb_base s)"
  using assms(2)
proof (induction n arbitrary: d)
  case 0
  have "take (next_off [] data) data = data" by (simp add: next_off_def)
  with assms 0 show ?case
    by (simp add: locked_def closed_def cbb_alive_def cbb_inv_def)
next
  case (Suc n)
  let ?cs = "cbb_frames s"
  obtain c where c: "?cs ! d = c" and d: "d < length ?cs" using Suc.prems by auto
  have dropd: "drop d ?cs = c # drop (Suc d) ?cs" using c d by (metis Cons_nth_drop_Suc)
  have len: "length data = b_len (cbb_base s)" using assms by (simp add: cbb_inv_def)
  have ok: "child_ok c" using assms(1) c d by (auto simp: cbb_inv_def dest: list_all_nth)
  from assms(1) len have "chain 0 ?cs (length data)" by (simp add: cbb_inv_def)
  from chain_drop [OF this, of d] obtain lo where "chain lo (c # drop (Suc d) ?cs) (length data)"
    by (auto simp: dropd)
  then have "chain (c_start c) (drop (Suc d) ?cs) (length data)" by simp
  note nx = chain_next_off [OF this]
  let ?next = "next_off (drop (Suc d) ?cs) data"
  have split: "take ?next data = take (c_offset c) data @ drop (c_offset c) (take (c_start c) data)
      @ drop (c_start c) (take ?next data)"
    using nx by (intro take_drop_segment) (auto simp: c_start_def)
  show ?case
  proof (cases "b_error (cbb_base s)")
    case True
    with d show ?thesis by (simp add: locked_def cbb_alive_def)
  next
    case False
    obtain r s1 where rec: "cbb_flush_from env n (Suc d) s = (r, s1)" by fastforce
    note IH = Suc.IH [of "Suc d"]
    show ?thesis
    proof (cases r)
      case None
      with IH rec Suc.prems have "locked (Suc d) s s1" by simp
      then show ?thesis using False rec None
        by (simp add: locked_def cbb_on_error_def cbb_alive_def)
    next
      case (Some u)
      with IH rec Suc.prems obtain t1
        where t1: "collapse (drop (Suc d) (pending ?cs data)) = Some t1"
          and s1: "closed (Suc d) s (take ?next data @ t1) s1"
        by auto
      from t1 have t1': "collapse (pending (drop (Suc d) ?cs) data) = Some t1"
        by (simp only: pending_drop)
      let ?pre = "take (c_offset c) data" and ?z = "drop (c_offset c) (take (c_start c) data)"
        and ?body = "drop (c_start c) (take ?next data) @ t1"
      have inv1: "base_inv (cbb_base s1)" "b_data (cbb_base s1) = ?pre @ ?z @ ?body"
        using s1 split by (simp_all add: closed_def)
      have c1: "cbb_frames s1 ! d = c" "d < length (cbb_frames s1)" "c_offset c = length ?pre"
          "c_pending_len_len c = length ?z"
        using s1 c d nx by (auto simp: closed_def c_start_def)
      have col: "collapse (drop d (pending ?cs data)) = region_bytes (child_kind c) ?body"
        by (simp add: dropd t1' del: drop_Suc flip: pending_drop)
      have nxt: "next_off (drop d ?cs) data = c_offset c" by (simp add: dropd next_off_def)
      have "cbb_flush_from env (Suc n) d s = cbb_flush_child env d s1"
        using False rec Some by simp
      with flush_child_region [OF inv1 c1 ok, of env] s1 False show ?thesis
        unfolding col nxt
        by (auto simp: closed_def locked_def split: prod.splits option.splits)
    qed
  qed
qed

text \<open>\<open>CBB_flush\<close> implements closing every region opened below the handle, or locks the builder.\<close>

lemma CBB_flush_Some:
  assumes "CBB_flush env d s = (Some u, s')" "cbb_inv s"
  shows "cbb_inv s' \<and> w_flush d (cbb_abs s) = Some (cbb_abs s') \<and> length (cbb_frames s') = d
    \<and> cbb_fault s' = cbb_fault s \<and> \<not> b_error (cbb_base s')"
proof -
  let ?cs = "cbb_frames s" and ?data = "b_data (cbb_base s)"
  from assms have d: "d \<le> length ?cs" and fl: "cbb_flush_from env (length ?cs - d) d s = (Some u, s')"
    by (auto simp: CBB_flush_def cbb_alive_def split: if_splits)
  with cbb_flush_from_eq [OF assms(2) _ refl, of d "length ?cs - d" env] obtain t
    where t: "collapse (drop d (pending ?cs ?data)) = Some t"
      and s': "closed d s (take (next_off (drop d ?cs) ?data) ?data @ t) s'" "\<not> b_error (cbb_base s)"
    by auto
  let ?pre = "take (next_off (drop d ?cs) ?data) ?data"
  have len: "length ?data = b_len (cbb_base s)" using assms by (simp add: cbb_inv_def)
  with assms(2) have ch: "chain 0 ?cs (length ?data)" by (simp add: cbb_inv_def)
  have pre: "length ?pre = next_off (drop d ?cs) ?data"
  proof -
    from chain_drop [OF ch, of d] obtain lo where "chain lo (drop d ?cs) (length ?data)" by blast
    from chain_next_off [OF this] show ?thesis by simp
  qed
  have ch': "chain 0 (take d ?cs) (length ?pre)" unfolding pre by (rule chain_take_next [OF ch])
  have "length (?pre @ t) = b_len (cbb_base s')" using s'(1) length_b_data [of "cbb_base s'"]
    by (simp add: closed_def)
  with chain_mono [OF ch', of "length (?pre @ t)"] have "chain 0 (take d ?cs) (b_len (cbb_base s'))"
    by simp
  with s'(1) assms(2) have inv: "cbb_inv s'"
    by (auto simp: cbb_inv_def closed_def list_all_length)
  have "cbb_abs s' = app_last t (regions (take d ?cs) ?pre)"
    using s'(1) regions_append [OF ch', of t] by (simp add: cbb_abs_def closed_def)
  also have "regions (take d ?cs) ?pre = (fst (cbb_abs s), take d (snd (cbb_abs s)))"
    unfolding cbb_abs_def by (rule regions_take [OF ch])
  finally show ?thesis
    using inv d t s' by (simp add: w_flush_def cbb_abs_def regions_def closed_def)
qed

lemma CBB_flush_None:
  assumes "CBB_flush env d s = (None, s')" "cbb_inv s"
  shows "if cbb_alive d s then locked d s s' else s' = s"
proof (cases "cbb_alive d s")
  case True
  then have "d \<le> length (cbb_frames s)" by (simp add: cbb_alive_def)
  with cbb_flush_from_eq [OF assms(2) _ refl, of d "length (cbb_frames s) - d" env] assms(1) True
  show ?thesis by (simp add: CBB_flush_def)
next
  case False
  with assms show ?thesis by (simp add: CBB_flush_def)
qed

section \<open>Operations implement their specifications\<close>

text \<open>
  \<open>implements f g\<close>: whenever \<open>f\<close> succeeds on a well-formed builder, the result
  is well formed, no null base was read, and the abstract state changed as \<open>g\<close>
  says.
\<close>

definition implements :: "'a cbb_op \<Rightarrow> (builder \<Rightarrow> builder option) \<Rightarrow> bool" where
  "implements f g \<longleftrightarrow> (\<forall>s a s'. cbb_inv s \<longrightarrow> f s = (Some a, s') \<longrightarrow>
     cbb_inv s' \<and> g (cbb_abs s) = Some (cbb_abs s') \<and> cbb_fault s' = cbb_fault s)"

lemma implementsI:
  assumes "\<And>s a s'. cbb_inv s \<Longrightarrow> f s = (Some a, s') \<Longrightarrow>
     cbb_inv s' \<and> g (cbb_abs s) = Some (cbb_abs s') \<and> cbb_fault s' = cbb_fault s"
  shows "implements f g"
  using assms unfolding implements_def by blast

lemma implementsD:
  assumes "implements f g" "cbb_inv s" "f s = (Some a, s')"
  shows "cbb_inv s'" "g (cbb_abs s) = Some (cbb_abs s')" "cbb_fault s' = cbb_fault s"
  using assms unfolding implements_def by blast+

lemma implements_gbind:
  assumes "implements f g" "\<And>a. implements (h a) k"
  shows "implements (gbind f h) (\<lambda>A. Option.bind (g A) k)"
proof (rule implementsI)
  fix s a s'
  assume s: "cbb_inv s" "gbind f h s = (Some a, s')"
  then obtain b s1 where f: "f s = (Some b, s1)" and h: "h b s1 = (Some a, s')"
    by (auto simp: gbind_eq_Some_iff)
  note f = implementsD [OF assms(1) s(1) f]
  with implementsD [OF assms(2) f(1) h]
  show "cbb_inv s' \<and> Option.bind (g (cbb_abs s)) k = Some (cbb_abs s')
      \<and> cbb_fault s' = cbb_fault s" by simp
qed

lemma implements_gret: "implements (gret a) Some"
  by (rule implementsI) simp

lemma or_error_Some: "or_error d f s = (Some a, s') \<longleftrightarrow> f s = (Some a, s')"
proof -
  obtain r s1 where f: "f s = (r, s1)" by fastforce
  show ?thesis unfolding or_error_def f by (cases r) simp_all
qed

lemma implements_or_error: "implements f g \<Longrightarrow> implements (or_error d f) g"
  unfolding implements_def or_error_Some .

lemma implements_cong: "implements f g \<Longrightarrow> (\<And>A. g A = g' A) \<Longrightarrow> implements f g'"
proof -
  assume f: "implements f g" and eq: "\<And>A. g A = g' A"
  have "g = g'" by (rule ext) (rule eq)
  with f show ?thesis by simp
qed

lemma implements_CBB_flush: "implements (CBB_flush env d) (w_flush d)"
  using CBB_flush_Some by (blast intro: implementsI)

text \<open>Algebra of the abstract operations.\<close>

lemma length_app_last [simp]: "length (snd (app_last x A)) = length (snd A)"
  by (induction x A rule: app_last.induct) auto

lemma app_last_app_last [simp]: "app_last y (app_last x A) = app_last (x @ y) A"
proof (induction x A rule: app_last.induct)
  case (3 x tp p q ps)
  have "snd (app_last x (tp, q # ps)) \<noteq> []"
    using length_app_last [of x "(tp, q # ps)"] by (metis length_0_conv list.distinct(1) snd_conv)
  then obtain q' ps' where q: "snd (app_last x (tp, q # ps)) = q' # ps'" by (cases "snd (app_last x (tp, q # ps))") auto
  have "app_last x (tp, q # ps) = (tp, q' # ps')"
    using app_last_Nil_snd [of "q # ps" x tp] q by simp
  with 3 q show ?case by simp
qed auto

lemma app_last_empty [simp]: "app_last [] A = A"
proof (induction "[] :: bytes" A rule: app_last.induct)
  case (3 tp p q ps)
  then show ?case by simp
qed auto

lemma app_last_snoc: "app_last x (tp, ps @ [(k, b)]) = (tp, ps @ [(k, b @ x)])"
proof (induction ps)
  case (Cons p ps)
  then show ?case by (cases ps) auto
qed simp

lemma w_flush_length: "w_flush d A = Some B \<Longrightarrow> length (snd B) = d"
  by (auto simp: w_flush_def split: if_splits)

lemma w_add_length: "w_add d x A = Some B \<Longrightarrow> length (snd B) = d"
  by (auto simp: w_add_def dest: w_flush_length)

lemma w_flush_id: "length (snd A) = d \<Longrightarrow> w_flush d A = Some A"
  by (simp add: w_flush_def)

lemma w_flush_add: "Option.bind (w_flush d A) (w_add d x) = w_add d x A"
proof (cases "w_flush d A")
  case (Some B)
  from w_flush_id [OF w_flush_length [OF Some]] Some show ?thesis by (simp add: w_add_def)
qed (simp add: w_add_def)

lemma w_add_add [simp]: "Option.bind (w_add d x A) (w_add d y) = w_add d (x @ y) A"
proof (cases "w_flush d A")
  case (Some B)
  have "w_flush d (app_last x B) = Some (app_last x B)"
    using w_flush_length [OF Some] by (intro w_flush_id) simp
  with Some show ?thesis by (simp add: w_add_def)
qed (simp add: w_add_def)

lemma w_add_flush [simp]: "Option.bind (w_add d x A) (w_flush d) = w_add d x A"
  by (cases "w_add d x A") (auto dest!: w_add_length simp: w_flush_id)

text \<open>Filling space that has just been added.\<close>

lemma cbb_put_simps [simp]:
  "cbb_fault (cbb_put i x s) = cbb_fault s" "cbb_frames (cbb_put i x s) = cbb_frames s"
  by (simp_all add: cbb_put_def)

lemma base_add_put:
  assumes "on_base (cbb_buffer_add env (length x)) s = (Some out, s1)" "cbb_inv s" "length x < size_mod"
  shows "cbb_inv (cbb_put out x s1) \<and> cbb_abs (cbb_put out x s1) = app_last x (cbb_abs s)
    \<and> cbb_fault s1 = cbb_fault s \<and> cbb_frames s1 = cbb_frames s \<and> out = b_len (cbb_base s)
    \<and> b_data (cbb_base (cbb_put out x s1)) = b_data (cbb_base s) @ x
    \<and> b_buf (cbb_base s1) = b_data (cbb_base s) @ drop out (b_buf (cbb_base s1))
    \<and> out + length x \<le> length (b_buf (cbb_base s1))"
proof -
  obtain b1 where b1: "cbb_buffer_add env (length x) (cbb_base s) = (Some out, b1)"
      "s1 = s\<lparr>cbb_base := b1\<rparr>"
    using assms(1) by (auto simp: on_base_def split: prod.splits)
  have inv: "base_inv (cbb_base s)" "chain 0 (cbb_frames s) (length (b_data (cbb_base s)))"
    using assms(2) by (auto simp: cbb_inv_def)
  note put = add_put_data [OF b1(1) inv(1) assms(3)]
  note a = add_Some [OF b1(1) inv(1) assms(3)]
  let ?s = "cbb_put out x s1"
  have base: "cbb_base ?s = b1\<lparr>b_buf := put_bytes out x (b_buf b1)\<rparr>" "cbb_frames s1 = cbb_frames s"
    by (simp_all add: cbb_put_def b1(2))
  have "b_len (cbb_base s) \<le> b_len (cbb_base ?s)" using a unfolding base by simp
  with inv have "chain 0 (cbb_frames s) (b_len (cbb_base ?s))"
    by (auto intro: chain_mono)
  with put assms(2) have "cbb_inv ?s" by (simp add: cbb_inv_def base)
  moreover have "cbb_abs ?s = app_last x (cbb_abs s)"
    using regions_append [OF inv(2), of x] put(1) by (simp add: cbb_abs_def base)
  moreover have "b_buf b1 = b_data (cbb_base s) @ drop out (b_buf b1)"
    using a append_take_drop_id [of out "b_buf b1"] by simp
  moreover have "out + length x \<le> length (b_buf b1)" using a by (auto simp: base_inv_def)
  moreover have "b_data (cbb_base ?s) = b_data (cbb_base s) @ x" using put(1) by (simp add: base)
  ultimately show ?thesis using a by (simp add: b1(2))
qed

lemma implements_space_put:
  assumes "length x < size_mod"
  shows "implements (gbind (CBB_add_space env d (length x)) (\<lambda>out s. (Some (), cbb_put out x s))) (w_add d x)"
proof (rule implementsI)
  fix s a s'
  assume s: "cbb_inv s" "gbind (CBB_add_space env d (length x)) (\<lambda>out s. (Some (), cbb_put out x s)) s = (Some a, s')"
  then obtain u s1 out s2 where f: "CBB_flush env d s = (Some u, s1)"
    and add: "on_base (cbb_buffer_add env (length x)) s1 = (Some out, s2)"
    and s': "s' = cbb_put out x s2"
    by (auto simp: CBB_add_space_def gbind_eq_Some_iff)
  note fl = CBB_flush_Some [OF f s(1)]
  then have inv1: "cbb_inv s1" by blast
  from base_add_put [OF add inv1 assms]
  have "cbb_inv s'" "cbb_abs s' = app_last x (cbb_abs s1)" "cbb_fault s' = cbb_fault s1"
    unfolding s' by (elim conjE; simp only: cbb_put_simps)+
  with fl show "cbb_inv s' \<and> w_add d x (cbb_abs s) = Some (cbb_abs s') \<and> cbb_fault s' = cbb_fault s"
    by (simp add: w_add_def)
qed

lemma implements_CBB_add_bytes:
  "length x < size_mod \<Longrightarrow> implements (CBB_add_bytes env d x) (w_add d x)"
  unfolding CBB_add_bytes_def by (rule implements_space_put)

lemma implements_CBB_add_zeros:
  "n < size_mod \<Longrightarrow> implements (CBB_add_zeros env d n) (w_add d (replicate n 0))"
  using implements_space_put [of "replicate n 0" env d] by (simp add: CBB_add_zeros_def)

lemma implements_cbb_add_u:
  assumes "n \<le> 8"
  shows "implements (cbb_add_u env d v n)
    (\<lambda>A. if unat v < 256 ^ n then w_add d (be_bytes n (unat v)) A else None)"
proof (rule implementsI)
  fix s a s'
  assume s: "cbb_inv s" "cbb_add_u env d v n s = (Some a, s')"
  then obtain out s2 where sp: "CBB_add_space env d n s = (Some out, s2)"
    and wr: "(case add_u_loop out n v (b_buf (cbb_base s2)) of (v, m) \<Rightarrow>
         let s = s2\<lparr>cbb_base := (cbb_base s2)\<lparr>b_buf := m\<rparr>\<rparr> in
         if v \<noteq> 0 then (None, cbb_on_error d s) else (Some (), s)) = (Some a, s')"
    by (auto simp: cbb_add_u_def gbind_eq_Some_iff)
  have small: "length (be_bytes n (unat v)) < size_mod" using assms by (simp add: size_mod_def)
  obtain u s1 where f: "CBB_flush env d s = (Some u, s1)"
    and add: "on_base (cbb_buffer_add env (length (be_bytes n (unat v)))) s1 = (Some out, s2)"
    using sp by (auto simp: CBB_add_space_def gbind_eq_Some_iff)
  note fl = CBB_flush_Some [OF f s(1)]
  then have "out + n \<le> length (b_buf (cbb_base s2))"
    using base_add_put [OF add _ small] by simp
  from add_u_loop_eq [OF this] wr
  have fits: "drop_bit (8 * n) v = 0" and s': "s' = cbb_put out (be_bytes n (unat v)) s2"
    by (auto simp: cbb_put_def Let_def split: if_splits)
  have "(2::nat) ^ (8 * n) = 256 ^ n" by (simp add: power_mult)
  with fits have fits: "unat v < 256 ^ n" by (simp add: drop_bit_eq_0_iff)
  have "gbind (CBB_add_space env d (length (be_bytes n (unat v))))
      (\<lambda>out s. (Some (), cbb_put out (be_bytes n (unat v)) s)) s = (Some (), s')"
    using sp by (simp add: s')
  from implementsD [OF implements_space_put [OF small] s(1) this] fits
  show "cbb_inv s' \<and> (if unat v < 256 ^ n then w_add d (be_bytes n (unat v)) (cbb_abs s) else None)
      = Some (cbb_abs s') \<and> cbb_fault s' = cbb_fault s"
    by simp
qed

lemma unat_ucast_up [simp]:
  "LENGTH('a) \<le> LENGTH('b) \<Longrightarrow> unat (ucast (v :: 'a::len word) :: 'b::len word) = unat v"
proof -
  assume "LENGTH('a) \<le> LENGTH('b)"
  then have "(2::nat) ^ LENGTH('a) \<le> 2 ^ LENGTH('b)" by (intro power_increasing) auto
  then have "unat v < 2 ^ LENGTH('b)" by (rule less_le_trans [OF unsigned_less [of v, where ?'a = nat]])
  then show ?thesis by (simp add: unsigned_ucast_eq take_bit_nat_eq_self)
qed

lemma unat_bounds:
  "unat (a :: u8) < 256" "unat (b :: u16) < 65536" "unat (c :: u32) < 4294967296"
  using unsigned_less [of a, where ?'a = nat] unsigned_less [of b, where ?'a = nat]
    unsigned_less [of c, where ?'a = nat] by simp_all

lemma be_bytes_1: "be_bytes 1 (unat (v :: u8)) = [v]"
  by simp

lemma implements_CBB_add_u8: "implements (CBB_add_u8 env d v) (w_add d [v])"
  using implements_cbb_add_u [of 1 env d "ucast v"] unfolding CBB_add_u8_def
  by (rule implements_cong) (simp_all del: One_nat_def add: be_bytes_1 unat_bounds)

lemma implements_CBB_add_u16: "implements (CBB_add_u16 env d v) (w_add d (be_bytes 2 (unat v)))"
  using implements_cbb_add_u [of 2 env d "ucast v"] unfolding CBB_add_u16_def
  by (rule implements_cong) (simp_all add: unat_bounds)

lemma implements_CBB_add_u24:
  "implements (CBB_add_u24 env d v)
     (\<lambda>A. if unat v < 2 ^ 24 then w_add d (be_bytes 3 (unat v)) A else None)"
  using implements_cbb_add_u [of 3 env d "ucast v"] unfolding CBB_add_u24_def
  by (rule implements_cong) simp_all

lemma implements_CBB_add_u32: "implements (CBB_add_u32 env d v) (w_add d (be_bytes 4 (unat v)))"
  using implements_cbb_add_u [of 4 env d "ucast v"] unfolding CBB_add_u32_def
  by (rule implements_cong) (simp_all add: unat_bounds)

lemma implements_CBB_add_u64: "implements (CBB_add_u64 env d v) (w_add d (be_bytes 8 (unat v)))"
  using implements_cbb_add_u [of 8 env d v] unat_less_64 [of v] unfolding CBB_add_u64_def
  by (intro implements_cong [OF implements_cbb_add_u]) simp_all

lemma implements_CBB_add_u16le: "implements (CBB_add_u16le env d v) (w_add d (le_bytes 2 (unat v)))"
  unfolding CBB_add_u16le_def bswap2_bytes [symmetric] by (rule implements_CBB_add_u16)

lemma implements_CBB_add_u32le: "implements (CBB_add_u32le env d v) (w_add d (le_bytes 4 (unat v)))"
  unfolding CBB_add_u32le_def bswap4_bytes [symmetric] by (rule implements_CBB_add_u32)

lemma implements_CBB_add_u64le: "implements (CBB_add_u64le env d v) (w_add d (le_bytes 8 (unat v)))"
  unfolding CBB_add_u64le_def bswap8_bytes [symmetric] by (rule implements_CBB_add_u64)

subsection \<open>Regions\<close>

definition w_push :: "region_kind \<Rightarrow> builder \<Rightarrow> builder option" where
  "w_push k A = Some (fst A, snd A @ [(k, [])])"

lemma w_open_push: "w_open d k A = Option.bind (w_flush d A) (w_push k)"
  by (cases "w_flush d A") (simp_all add: w_open_def w_push_def split: prod.splits)

lemma implements_add_child:
  assumes "n < size_mod" "asn1 \<longrightarrow> n = 1"
  shows "implements (cbb_add_child env n asn1) (w_push (if asn1 then Asn1_len else Fixed_len n))"
proof (rule implementsI)
  fix s :: cbb and a and s' :: cbb
  let ?c = "\<lparr>c_offset = b_len (cbb_base s), c_pending_len_len = n, c_pending_is_asn1 = asn1\<rparr>"
  let ?z = "replicate n 0 :: bytes"
  assume s: "cbb_inv s" "cbb_add_child env n asn1 s = (Some a, s')"
  then obtain out s1 where add: "on_base (cbb_buffer_add env (length ?z)) s = (Some out, s1)"
    and s': "s' = (cbb_put out ?z s1)\<lparr>cbb_frames := cbb_frames s1 @ [?c]\<rparr>"
    by (auto simp: cbb_add_child_def gbind_eq_Some_iff Let_def)
  have "length ?z < size_mod" using assms by simp
  note P = base_add_put [OF add s(1) this]
  let ?s2 = "cbb_put out ?z s1"
  from P have inv2: "cbb_inv ?s2" and data2: "b_data (cbb_base ?s2) = b_data (cbb_base s) @ ?z"
    and frames: "cbb_frames s1 = cbb_frames s" and fault: "cbb_fault s1 = cbb_fault s"
    by blast+
  have inv: "base_inv (cbb_base s)" "chain 0 (cbb_frames s) (b_len (cbb_base s))"
    using s(1) by (auto simp: cbb_inv_def)
  have len: "b_len (cbb_base ?s2) = b_len (cbb_base s) + n"
    using data2 inv(1) inv2 length_b_data [of "cbb_base ?s2"] by (simp add: cbb_inv_def)
  have "cbb_inv s'"
    using inv2 inv(2) assms(2) by (simp add: s' cbb_inv_def frames chain_append len c_start_def child_ok_def)
  moreover have "cbb_abs s' = (fst (cbb_abs s), snd (cbb_abs s) @ [(child_kind ?c, [])])"
    using regions_open [of "cbb_frames s" "b_data (cbb_base s)" ?c ?z] inv
    by (simp add: cbb_abs_def s' frames data2)
  ultimately show "cbb_inv s' \<and> w_push (if asn1 then Asn1_len else Fixed_len n) (cbb_abs s) = Some (cbb_abs s')
      \<and> cbb_fault s' = cbb_fault s"
    using fault by (simp add: w_push_def child_kind_def s')
qed

lemma implements_length_prefixed:
  "n < size_mod \<Longrightarrow> implements (cbb_add_length_prefixed env d n) (w_open d (Fixed_len n))"
  using implements_gbind [OF implements_CBB_flush implements_add_child [of n False]]
  unfolding cbb_add_length_prefixed_def w_open_push [abs_def] by simp

text \<open>The bytes \<open>add_base128_integer\<close> writes are the base-128 encoding.\<close>

fun base128_bytes :: "u64 \<Rightarrow> nat \<Rightarrow> bytes" where
  "base128_bytes v 0 = []"
| "base128_bytes v (Suc i) =
     (let byte = ucast (drop_bit (7 * i) v) AND 0x7f in (if i \<noteq> 0 then byte OR 0x80 else byte))
       # base128_bytes v i"

lemma implements_base128_write_loop:
  "implements (base128_write_loop env d v (Suc n)) (w_add d (base128_bytes v (Suc n)))"
proof (induction n)
  case 0
  have "implements (base128_write_loop env d v (Suc 0))
      (\<lambda>A. Option.bind (w_add d [ucast v AND 0x7f] A) Some)"
    unfolding base128_write_loop.simps Let_def
    by (rule implements_gbind) (simp_all add: implements_CBB_add_u8 implements_gret)
  then show ?case by (simp add: Let_def)
next
  case (Suc n)
  let ?b = "(ucast (drop_bit (7 * Suc n) v) AND 0x7f :: u8) OR 0x80"
  have "implements (base128_write_loop env d v (Suc (Suc n)))
      (\<lambda>A. Option.bind (w_add d [?b] A) (w_add d (base128_bytes v (Suc n))))"
    unfolding base128_write_loop.simps(2) [of env d v "Suc n"] Let_def
    by (rule implements_gbind) (use implements_CBB_add_u8 Suc in simp_all)
  then show ?case by (simp add: Let_def)
qed

lemma base128_high_byte:
  "(ucast (w :: u64) AND 0x7f :: u8) OR 0x80 = 128 + of_nat (unat w mod 128)"
proof -
  let ?b = "ucast w :: u8"
  have b: "unat ?b = unat w mod 256" by (simp add: unsigned_ucast_eq take_bit_eq_mod)
  have low: "unat (?b AND 0x7f) = unat w mod 128"
    unfolding u8_low_bits b by (simp add: mod_mod_cancel)
  then have "unat (?b AND 0x7f) < 2 ^ 7" by simp
  then have "push_bit 7 1 OR (?b AND 0x7f) = push_bit 7 1 + (?b AND 0x7f)" by (rule push_or_add)
  then have "(?b AND 0x7f) OR 0x80 = 128 + (?b AND 0x7f)" by (simp add: or.commute)
  moreover have "?b AND 0x7f = of_nat (unat w mod 128)"
    using low by (simp only: word_unat_eq_iff unat_low_byte)
  ultimately show ?thesis by simp
qed

lemma base128_low_byte: "(ucast (w :: u64) AND 0x7f :: u8) = of_nat (unat w mod 128)"
proof -
  have b: "unat (ucast w :: u8) = unat w mod 256" by (simp add: unsigned_ucast_eq take_bit_eq_mod)
  have "unat (ucast w AND 0x7f :: u8) = unat w mod 128"
    unfolding u8_low_bits b by (simp add: mod_mod_cancel)
  then show ?thesis by (simp only: word_unat_eq_iff unat_low_byte)
qed

definition base128_groups :: "u64 \<Rightarrow> nat \<Rightarrow> bytes" where
  "base128_groups w n = map (\<lambda>i. (ucast (drop_bit (7 * i) w) AND 0x7f) OR 0x80) (rev [0..<n])"

lemma base128_groups_Suc:
  "base128_groups w (Suc n) = base128_groups (drop_bit 7 w) n @ [(ucast w AND 0x7f) OR 0x80]"
proof -
  have "[0..<Suc n] = 0 # map Suc [0..<n]" by (simp add: upt_conv_Cons map_Suc_upt)
  then show ?thesis
    by (simp add: base128_groups_def rev_map comp_def add.commute)
qed

lemma base128_groups_eq: "base128_groups w (base128_len w) = base128_high (unat w)"
proof (induction w rule: base128_len.induct)
  case (1 w)
  show ?case
  proof (cases "w = 0")
    case True
    then show ?thesis by (simp add: base128_len.simps [of 0] base128_groups_def)
  next
    case False
    then have pos: "w > 0" "unat w \<noteq> 0" by (simp_all add: word_gt_0 unat_eq_zero del: neq0_conv)
    have "base128_len w = Suc (base128_len (drop_bit 7 w))"
      using pos by (simp add: base128_len.simps [of w])
    moreover have "unat (drop_bit 7 w) = unat w div 128" using unat_drop_bit_div [of 7 w] by simp
    ultimately show ?thesis
      using 1 pos by (simp only: base128_groups_Suc base128_high.simps [of "unat w"]
          base128_high_byte if_False)
  qed
qed

lemma base128_bytes_groups:
  "base128_bytes v (Suc n) = base128_groups (drop_bit 7 v) n @ [ucast v AND 0x7f]"
proof (induction n)
  case 0
  show ?case by (simp add: base128_groups_def Let_def)
next
  case (Suc n)
  have "base128_bytes v (Suc (Suc n)) = ((ucast (drop_bit (7 * Suc n) v) AND 0x7f) OR 0x80) # base128_bytes v (Suc n)"
    by (simp add: Let_def)
  moreover have "base128_groups (drop_bit 7 v) (Suc n)
      = ((ucast (drop_bit (7 * Suc n) v) AND 0x7f) OR 0x80) # base128_groups (drop_bit 7 v) n"
    by (simp add: base128_groups_def add.commute)
  ultimately show ?case using Suc by simp
qed

lemma base128_bytes_eq:
  "base128_bytes v (if base128_len v = 0 then 1 else base128_len v) = base128 (unat v)"
proof (cases "v = 0")
  case True
  then show ?thesis by (simp add: base128_len.simps [of 0] base128_def Let_def)
next
  case False
  then have "base128_len v = Suc (base128_len (drop_bit 7 v))"
    by (simp add: base128_len.simps [of v] word_gt_0)
  then have len: "(if base128_len v = 0 then 1 else base128_len v) = Suc (base128_len (drop_bit 7 v))"
    by simp
  have "unat (drop_bit 7 v) = unat v div 128" using unat_drop_bit_div [of 7 v] by simp
  then show ?thesis
    unfolding len base128_bytes_groups base128_groups_eq base128_low_byte base128_def by simp
qed

lemma implements_add_base128_integer:
  "implements (add_base128_integer env d v) (w_add d (base128 (unat v)))"
proof -
  obtain n where n: "(if base128_len v = 0 then 1 else base128_len v) = Suc n"
    by (cases "base128_len v") auto
  show ?thesis
    unfolding add_base128_integer_def Let_def base128_bytes_eq [symmetric] n
    by (rule implements_base128_write_loop)
qed

lemma implements_CBB_add_asn1:
  "implements (CBB_add_asn1 env d tag)
     (\<lambda>A. Option.bind (w_add d (asn1_tag_bytes tag) A) (w_push Asn1_len))"
proof -
  let ?bits = "ucast (drop_bit CBS_ASN1_TAG_SHIFT tag) AND 0xe0 :: u8"
    and ?n = "tag AND CBS_ASN1_TAG_NUMBER_MASK"
  have child: "implements (cbb_add_child env 1 True) (w_push Asn1_len)"
    using implements_add_child [of 1 True env] by (simp add: size_mod_def)
  have tagb: "implements (if ?n \<ge> 0x1f
        then gbind (CBB_add_u8 env d (?bits OR 0x1f)) (\<lambda>_. add_base128_integer env d (ucast ?n))
        else CBB_add_u8 env d (?bits OR ucast ?n)) (w_add d (asn1_tag_bytes tag))"
  proof (cases "?n \<ge> 0x1f")
    case True
    have "implements (gbind (CBB_add_u8 env d (?bits OR 0x1f)) (\<lambda>_. add_base128_integer env d (ucast ?n)))
       (\<lambda>A. Option.bind (w_add d [?bits OR 0x1f] A) (w_add d (base128 (unat ?n))))"
      using implements_add_base128_integer [of env d "ucast ?n"]
      by (intro implements_gbind implements_CBB_add_u8) simp
    with True show ?thesis by (simp add: asn1_tag_bytes_def Let_def)
  next
    case False
    with implements_CBB_add_u8 [of env d "?bits OR ucast ?n"] show ?thesis
      by (simp add: asn1_tag_bytes_def Let_def)
  qed
  have "implements (CBB_add_asn1 env d tag) (\<lambda>A. Option.bind (w_flush d A)
      (\<lambda>A. Option.bind (w_add d (asn1_tag_bytes tag) A) (w_push Asn1_len)))"
    unfolding CBB_add_asn1_def Let_def
    by (intro implements_gbind implements_CBB_flush tagb child)
  moreover have "Option.bind (w_flush d A) (\<lambda>A. Option.bind (w_add d (asn1_tag_bytes tag) A) (w_push Asn1_len))
      = Option.bind (w_add d (asn1_tag_bytes tag) A) (w_push Asn1_len)" for A
    unfolding Option.bind_assoc [symmetric] w_flush_add ..
  ultimately show ?thesis by (rule implements_cong)
qed

end
