(* ===== verification/CBB_DER.thy ===== *)
theory CBB_DER
  imports CBB "HOL-Library.List_Lexorder" "HOL-Library.Multiset"
begin

text \<open>
  DER values written with the builder of \<open>CBB\<close>: what \<open>CBB_add_asn1_uint64\<close>,
  \<open>CBB_add_asn1_int64\<close>, \<open>CBB_add_asn1_octet_string\<close> and \<open>CBB_add_asn1_bool\<close>
  leave in the buffer, the textual form of object identifiers
  (\<open>CBB_add_asn1_oid_from_text\<close> and \<open>CBS_asn1_oid_to_text\<close>), the canonical order
  of SET OF (\<open>CBB_flush_asn1_set_of\<close>) and \<open>CBB_finish_i2d\<close> of
  \<open>crypto/bytestring/asn1_compat.c\<close>.
\<close>

section \<open>Elements\<close>

lemma w_der:
  "Option.bind (Option.bind (w_add d (asn1_tag_bytes tag) A) (w_push Asn1_len))
     (\<lambda>A. Option.bind (w_add (Suc d) x A) (w_flush d))
   = (if length x \<le> 0xfffffffe then w_add d (der (x, tag)) A else None)"
proof (cases "w_flush d A")
  case None
  then show ?thesis by (simp add: w_add_def)
next
  case (Some F)
  obtain B where B: "B = app_last (asn1_tag_bytes tag) F" by blast
  have len: "length (snd B) = d" using w_flush_length [OF Some] by (simp add: B)
  have add: "w_add d y A = Some (app_last y F)" for y by (simp add: w_add_def Some)
  have "w_add (Suc d) x (fst B, snd B @ [(Asn1_len, [])]) = Some (fst B, snd B @ [(Asn1_len, x)])"
    using len by (simp add: w_add_def w_flush_id app_last_snoc)
  moreover have "w_flush d (fst B, snd B @ [(Asn1_len, x)])
      = (if length x \<le> 0xfffffffe then Some (app_last (asn1_length_bytes (length x) @ x) B) else None)"
    using len by (simp add: w_flush_def region_bytes_def)
  ultimately show ?thesis
    by (simp add: add B w_push_def der_def der_header_def)
qed

lemma implements_der:
  assumes "implements f (w_add (Suc d) x)"
  shows "implements (gbind (CBB_add_asn1 env d tag) (\<lambda>_. gbind f (\<lambda>_. CBB_flush env d)))
    (\<lambda>A. if length x \<le> 0xfffffffe then w_add d (der (x, tag)) A else None)"
proof (rule implements_cong)
  show "implements (gbind (CBB_add_asn1 env d tag) (\<lambda>_. gbind f (\<lambda>_. CBB_flush env d)))
    (\<lambda>A. Option.bind (Option.bind (w_add d (asn1_tag_bytes tag) A) (w_push Asn1_len))
     (\<lambda>A. Option.bind (w_add (Suc d) x A) (w_flush d)))"
    by (intro implements_gbind implements_CBB_add_asn1 assms implements_CBB_flush)
qed (rule w_der)

lemma gbind_assoc: "gbind (gbind f g) h = gbind f (\<lambda>a. gbind (g a) h)"
proof (rule ext)
  fix s
  obtain r s1 where f: "f s = (r, s1)" by fastforce
  show "gbind (gbind f g) h s = gbind f (\<lambda>a. gbind (g a) h) s"
    by (cases r) (simp_all add: gbind_def f)
qed

lemma implements_weaken:
  assumes "implements f (\<lambda>A. if c then g A else None)"
  shows "implements f g"
proof (rule implementsI)
  fix s a s'
  assume s: "cbb_inv s" "f s = (Some a, s')"
  from implementsD [OF assms s]
  show "cbb_inv s' \<and> g (cbb_abs s) = Some (cbb_abs s') \<and> cbb_fault s' = cbb_fault s"
    by (cases c) simp_all
qed

lemma implements_or_error_bind:
  assumes "implements (gbind f h) g"
  shows "implements (gbind (or_error d f) h) g"
proof (rule implementsI)
  fix s a s'
  assume s: "cbb_inv s" "gbind (or_error d f) h s = (Some a, s')"
  then have "gbind f h s = (Some a, s')"
    by (auto simp: gbind_eq_Some_iff or_error_Some)
  from implementsD [OF assms s(1) this]
  show "cbb_inv s' \<and> g (cbb_abs s) = Some (cbb_abs s') \<and> cbb_fault s' = cbb_fault s" by simp
qed

lemma implements_octet_string:
  assumes "length data < size_mod"
  shows "implements (CBB_add_asn1_octet_string env d data) (w_add d (der (data, CBS_ASN1_OCTETSTRING)))"
  unfolding CBB_add_asn1_octet_string_def
  by (rule implements_or_error, rule implements_weaken, rule implements_der)
    (rule implements_CBB_add_bytes [OF assms])

lemma implements_bool:
  "implements (CBB_add_asn1_bool env d value) (w_add d (der_bool (value \<noteq> 0)))"
proof -
  have "implements (CBB_add_asn1_bool env d value)
      (w_add d (der ([if value \<noteq> 0 then 0xff else 0], CBS_ASN1_BOOLEAN)))"
    unfolding CBB_add_asn1_bool_def
    by (rule implements_or_error, rule implements_weaken, rule implements_der)
      (rule implements_CBB_add_u8)
  then show ?thesis by (simp add: der_bool_def)
qed

section \<open>INTEGER\<close>

definition w_maybe :: "nat \<Rightarrow> bytes \<Rightarrow> builder \<Rightarrow> builder option" where
  "w_maybe d x A = (if x = [] then Some A else w_add d x A)"

lemma w_maybe_bind: "Option.bind (w_maybe d x A) (w_maybe d y) = w_maybe d (x @ y) A"
  by (cases "x = []"; cases "y = []") (simp_all add: w_maybe_def [abs_def])

lemma w_add_maybe: "Option.bind (w_add d x A) (w_maybe d y) = w_add d (x @ y) A"
  by (cases "y = []") (simp_all add: w_maybe_def [abs_def])

lemma be_bytes_Cons: "be_bytes (Suc n) v = of_nat (v div 256 ^ n) # be_bytes n v"
proof (induction n arbitrary: v)
  case (Suc n)
  have "be_bytes (Suc (Suc n)) v = be_bytes (Suc n) (v div 256) @ [of_nat v]" by simp
  also have "\<dots> = of_nat (v div 256 div 256 ^ n) # be_bytes n (v div 256) @ [of_nat v]"
    by (simp only: Suc append_Cons)
  finally show ?case by (simp add: div_mult2_eq)
qed simp

definition uint_body :: "bytes \<Rightarrow> bytes" where
  "uint_body bs = (case strip_zeros bs of
     [] \<Rightarrow> [] | b # r \<Rightarrow> if b AND 0x80 \<noteq> 0 then 0 # b # r else b # r)"

lemma uint_body_Cons:
  "uint_body (b # bs) = (if b = 0 then uint_body bs else if b AND 0x80 \<noteq> 0 then 0 # b # bs else b # bs)"
  by (simp add: uint_body_def strip_zeros_def)

lemma uint64_loop_byte: "ucast (drop_bit (8 * i) (v :: u64) AND 0xff) = (of_nat (unat v div 256 ^ i) :: u8)"
proof -
  have "unat (drop_bit (8 * i) v AND 0xff) = unat (drop_bit (8 * i) v) mod 256"
    using unat_and_mask [of "drop_bit (8 * i) v" 8] by (simp add: mask_eq_exp_minus_1)
  also have "unat (drop_bit (8 * i) v) = unat v div 256 ^ i"
    by (simp add: unat_drop_bit_div power_mult)
  finally have "unat (ucast (drop_bit (8 * i) v AND 0xff) :: u8) = unat v div 256 ^ i mod 256"
    by (simp add: unsigned_ucast_eq take_bit_eq_mod)
  then show ?thesis by (simp only: word_unat_eq_iff unat_of_nat_u8)
qed

lemma uint64_write_loop_Suc:
  "asn1_uint64_write_loop env c v (Suc i) started =
     (let byte = of_nat (unat v div 256 ^ i) in
      if \<not> started \<and> byte = 0 then asn1_uint64_write_loop env c v i started
      else gbind (if \<not> started \<and> byte AND 0x80 \<noteq> 0 then CBB_add_u8 env c 0 else gret ())
          (\<lambda>_. gbind (CBB_add_u8 env c byte) (\<lambda>_. asn1_uint64_write_loop env c v i True)))"
  by (simp only: asn1_uint64_write_loop.simps uint64_loop_byte)

declare asn1_uint64_write_loop.simps(2) [simp del]

lemma implements_uint64_loop_True:
  "implements (asn1_uint64_write_loop env c v i True) (w_maybe c (be_bytes i (unat v)))"
proof (induction i)
  case 0
  show ?case by (rule implements_cong [OF implements_gret [of True, folded asn1_uint64_write_loop.simps(1) [of env c v]]])
      (simp add: w_maybe_def)
next
  case (Suc i)
  let ?b = "of_nat (unat v div 256 ^ i) :: u8"
  have "implements (asn1_uint64_write_loop env c v (Suc i) True)
      (\<lambda>A. Option.bind (Some A) (\<lambda>A. Option.bind (w_add c [?b] A) (w_maybe c (be_bytes i (unat v)))))"
    unfolding uint64_write_loop_Suc Let_def
    by (simp del: bind.bind_lunit) (intro implements_gbind implements_gret implements_CBB_add_u8 Suc)
  then show ?case
    by (rule implements_cong) (simp add: w_add_maybe w_maybe_def be_bytes_Cons del: be_bytes.simps)
qed

lemma implements_uint64_loop_False:
  "implements (asn1_uint64_write_loop env c v i False) (w_maybe c (uint_body (be_bytes i (unat v))))"
proof (induction i)
  case 0
  show ?case by (rule implements_cong [OF implements_gret [of False, folded asn1_uint64_write_loop.simps(1) [of env c v]]])
      (simp add: w_maybe_def uint_body_def strip_zeros_def)
next
  case (Suc i)
  obtain b :: u8 where b: "b = of_nat (unat v div 256 ^ i)" by blast
  note step = uint64_write_loop_Suc [of env c v i False, folded b]
  have bytes: "be_bytes (Suc i) (unat v) = b # be_bytes i (unat v)" by (simp only: be_bytes_Cons b)
  show ?case
  proof (cases "b = 0")
    case True
    with Suc show ?thesis unfolding bytes step by (simp add: uint_body_Cons)
  next
    case False
    let ?z = "if b AND 0x80 \<noteq> 0 then [0] else [] :: bytes"
    have pad: "implements (if b AND 0x80 \<noteq> 0 then CBB_add_u8 env c 0 else gret ()) (w_maybe c ?z)"
      using implements_CBB_add_u8 [of env c 0] implements_gret [of "()"]
      by (simp add: w_maybe_def [abs_def])
    have "implements (asn1_uint64_write_loop env c v (Suc i) False)
      (\<lambda>A. Option.bind (w_maybe c ?z A)
        (\<lambda>A. Option.bind (w_add c [b] A) (w_maybe c (be_bytes i (unat v)))))"
      unfolding step Let_def
      by (simp only: False simp_thms if_False)
        (intro implements_gbind pad implements_CBB_add_u8 implements_uint64_loop_True)
    then show ?thesis unfolding bytes
      by (rule implements_cong) (simp add: w_add_maybe uint_body_Cons False w_maybe_def)
  qed
qed

lemma uint64_loop_started:
  assumes "asn1_uint64_write_loop env c v i started s = (Some b, s')"
  shows "b \<longleftrightarrow> started \<or> uint_body (be_bytes i (unat v)) \<noteq> []"
  using assms
proof (induction i arbitrary: started s)
  case 0
  then show ?case by (auto simp: uint_body_def strip_zeros_def)
next
  case (Suc i)
  obtain x :: u8 where x: "x = of_nat (unat v div 256 ^ i)" by blast
  have bytes: "be_bytes (Suc i) (unat v) = x # be_bytes i (unat v)" by (simp only: be_bytes_Cons x)
  note step = Suc.prems [unfolded uint64_write_loop_Suc Let_def, folded x]
  show ?case
  proof (cases "\<not> started \<and> x = 0")
    case True
    with step have "asn1_uint64_write_loop env c v i started s = (Some b, s')" by simp
    from Suc.IH [OF this] True show ?thesis unfolding bytes by (simp add: uint_body_Cons)
  next
    case False
    with step obtain s1 where "asn1_uint64_write_loop env c v i True s1 = (Some b, s')"
      by (auto simp: gbind_eq_Some_iff)
    from Suc.IH [OF this] False show ?thesis unfolding bytes by (auto simp: uint_body_Cons)
  qed
qed

lemma der_uint_body: "der_uint n = (if uint_body (be_bytes 8 n) = [] then [0] else uint_body (be_bytes 8 n))"
  by (simp add: der_uint_def uint_body_def split: list.splits)

lemma implements_uint64_body:
  "implements (gbind (asn1_uint64_write_loop env c v 8 False)
      (\<lambda>started. if \<not> started then CBB_add_u8 env c 0 else gret ()))
    (w_add c (der_uint (unat v)))"
proof (rule implementsI)
  fix s a s'
  let ?bs = "uint_body (be_bytes 8 (unat v))"
  assume s: "cbb_inv s" "gbind (asn1_uint64_write_loop env c v 8 False)
      (\<lambda>started. if \<not> started then CBB_add_u8 env c 0 else gret ()) s = (Some a, s')"
  then obtain b s1 where l: "asn1_uint64_write_loop env c v 8 False s = (Some b, s1)"
    and r: "(if \<not> b then CBB_add_u8 env c 0 else gret ()) s1 = (Some a, s')"
    by (auto simp: gbind_eq_Some_iff)
  note L = implementsD [OF implements_uint64_loop_False s(1) l]
  have b: "b \<longleftrightarrow> ?bs \<noteq> []" using uint64_loop_started [OF l] by simp
  show "cbb_inv s' \<and> w_add c (der_uint (unat v)) (cbb_abs s) = Some (cbb_abs s') \<and> cbb_fault s' = cbb_fault s"
  proof (cases b)
    case True
    with r have "s' = s1" by simp
    with L b True show ?thesis by (simp add: der_uint_body w_maybe_def)
  next
    case False
    with r have r: "CBB_add_u8 env c 0 s1 = (Some a, s')" by simp
    from implementsD [OF implements_CBB_add_u8 L(1) r] L b False show ?thesis
      by (simp add: der_uint_body w_maybe_def)
  qed
qed

lemma implements_asn1_uint64_with_tag:
  "implements (CBB_add_asn1_uint64_with_tag env d v tag) (w_add d (der (der_uint (unat v), tag)))"
proof -
  have "implements (gbind (gbind (CBB_add_asn1 env d tag) (\<lambda>_.
        gbind (asn1_uint64_write_loop env (Suc d) v 8 False) (\<lambda>started.
          if \<not> started then CBB_add_u8 env (Suc d) 0 else gret ())))
       (\<lambda>_. CBB_flush env d)) (w_add d (der (der_uint (unat v), tag)))"
    unfolding gbind_assoc [of "CBB_add_asn1 env d tag"]
    by (rule implements_weaken, rule implements_der) (rule implements_uint64_body)
  then show ?thesis unfolding CBB_add_asn1_uint64_with_tag_def by (rule implements_or_error_bind)
qed

lemma implements_asn1_uint64:
  "implements (CBB_add_asn1_uint64 env d v) (w_add d (der (der_uint (unat v), CBS_ASN1_INTEGER)))"
  unfolding CBB_add_asn1_uint64_def by (rule implements_asn1_uint64_with_tag)

subsection \<open>Signed integers\<close>

text \<open>The body of a negative value: its two's complement bytes without redundant sign bytes.\<close>

definition der_int :: "u64 \<Rightarrow> bytes" where
  "der_int v = (if 0 \<le> sint v then der_uint (unat v)
     else be_bytes (Suc (int64_start_loop (le_bytes 8 (unat v)) 7)) (unat v))"

lemma implements_add_bytes_down:
  "implements (add_bytes_down env d bs n) (w_maybe d (rev (map ((!) bs) [0..<n])))"
proof (induction n)
  case 0
  show ?case
    by (rule implements_cong [OF implements_gret [of "()", folded add_bytes_down.simps(1) [of env d bs]]])
      (simp add: w_maybe_def)
next
  case (Suc n)
  have "implements (add_bytes_down env d bs (Suc n))
      (\<lambda>A. Option.bind (w_add d [bs ! n] A) (w_maybe d (rev (map ((!) bs) [0..<n]))))"
    unfolding add_bytes_down.simps by (intro implements_gbind implements_CBB_add_u8 Suc)
  then show ?case by (rule implements_cong) (simp add: w_add_maybe w_maybe_def)
qed

lemma le_bytes_rev_take: "n \<le> m \<Longrightarrow> rev (take n (le_bytes m v)) = be_bytes n v"
proof (induction m arbitrary: n v)
  case (Suc m)
  then show ?case by (cases n) simp_all
qed simp

lemma rev_map_nth_upt: "n \<le> length bs \<Longrightarrow> rev (map ((!) bs) [0..<n]) = rev (take n bs)"
proof -
  assume "n \<le> length bs"
  then have "map ((!) bs) [0..<n] = take n bs" by (intro nth_equalityI) auto
  then show ?thesis by simp
qed

lemma implements_asn1_int64_with_tag:
  "implements (CBB_add_asn1_int64_with_tag env d v tag) (w_add d (der (der_int v, tag)))"
proof (cases "0 \<le> sint v")
  case True
  then show ?thesis
    using implements_asn1_uint64_with_tag by (simp add: CBB_add_asn1_int64_with_tag_def der_int_def)
next
  case False
  obtain bs st where bs: "bs = le_bytes 8 (unat v)" and st: "st = int64_start_loop bs 7" by blast
  have "int64_start_loop bs n \<le> n" for n by (induction n) auto
  then have "st \<le> 7" unfolding st .
  then have "rev (map ((!) bs) [0..<Suc st]) = be_bytes (Suc st) (unat v)"
    by (simp only: rev_map_nth_upt le_bytes_rev_take bs length_le_bytes)
  then have "implements (add_bytes_down env (Suc d) bs (Suc st)) (w_maybe (Suc d) (der_int v))"
    using implements_add_bytes_down [of env "Suc d" bs "Suc st"] False
    by (simp only: der_int_def bs st if_False)
  moreover have "der_int v \<noteq> []" using False by (simp add: der_int_def be_bytes_nonempty del: be_bytes.simps)
  ultimately have body: "implements (add_bytes_down env (Suc d) bs (Suc st)) (w_add (Suc d) (der_int v))"
    by (simp add: w_maybe_def [abs_def])
  have "implements (gbind (gbind (CBB_add_asn1 env d tag) (\<lambda>_. add_bytes_down env (Suc d) bs (Suc st)))
       (\<lambda>_. CBB_flush env d)) (w_add d (der (der_int v, tag)))"
    unfolding gbind_assoc [of "CBB_add_asn1 env d tag"]
    by (rule implements_weaken, rule implements_der) (rule body)
  then show ?thesis
    using False unfolding CBB_add_asn1_int64_with_tag_def Let_def bs st
    by (simp only: if_False) (rule implements_or_error_bind)
qed

text \<open>Reading the bytes back.\<close>

lemma int64_start_loop_props:
  "int64_start_loop bs n \<le> n
    \<and> (\<forall>k. int64_start_loop bs n < k \<longrightarrow> k \<le> n \<longrightarrow> bs ! k = 0xff)
    \<and> (int64_start_loop bs n = 0 \<or> \<not> (bs ! int64_start_loop bs n = 0xff
         \<and> (bs ! (int64_start_loop bs n - 1)) AND 0x80 \<noteq> 0))
    \<and> (bs ! n AND 0x80 \<noteq> 0 \<longrightarrow> bs ! int64_start_loop bs n AND 0x80 \<noteq> 0)"
  by (induction n) (auto simp: le_Suc_eq)

lemma sint_neg_iff: "0 \<le> sint v \<longleftrightarrow> unat v < 2 ^ 63" for v :: u64
proof -
  have "bit v 63 \<longleftrightarrow> sint v < 0" using bit_last_iff [of v] by simp
  moreover have "bit v 63 \<longleftrightarrow> bit (unat v) 63" by (simp add: bit_unsigned_iff)
  moreover have "\<dots> \<longleftrightarrow> odd (unat v div 2 ^ 63)" by (simp only: bit_iff_odd)
  moreover have less: "unat v div 2 ^ 63 < 2"
    using unat_less_64 [of v] by (simp add: less_mult_imp_div_less)
  have aux: "odd n \<longleftrightarrow> n \<noteq> 0" if "n < 2" for n :: nat using that by presburger
  have "odd (unat v div 2 ^ 63) \<longleftrightarrow> unat v div 2 ^ 63 \<noteq> 0" by (rule aux [OF less])
  ultimately have "sint v < 0 \<longleftrightarrow> unat v div 2 ^ 63 \<noteq> 0" by blast
  moreover have "unat v div 2 ^ 63 = 0 \<longleftrightarrow> unat v < 2 ^ 63" by (simp add: div_eq_0_iff)
  ultimately show ?thesis by (metis not_less)
qed

lemma sint_neg_top_byte:
  assumes "\<not> 0 \<le> sint (v :: u64)"
  shows "of_nat (unat v div 256 ^ 7) AND 0x80 \<noteq> (0 :: u8)"
proof -
  have "unat v div 2 ^ 63 = unat v div 256 ^ 7 div 128" by (simp flip: div_mult2_eq)
  moreover have "unat v div 2 ^ 63 \<noteq> 0" using assms by (simp add: sint_neg_iff div_eq_0_iff)
  ultimately have "unat v div 256 ^ 7 div 128 \<noteq> 0" by simp
  then have "\<not> unat v div 256 ^ 7 < 128" by (simp add: div_eq_0_iff)
  moreover have "unat v div 256 ^ 7 < 256" using unat_less_64 [of v] by (simp add: less_mult_imp_div_less)
  ultimately have "\<not> unat (of_nat (unat v div 256 ^ 7) :: u8) < 128" by (simp only: unat_of_nat_u8) simp
  then show ?thesis by (simp only: u8_top_bit not_False_eq_True)
qed

lemma be_bytes_prepend_ff:
  assumes "\<forall>k. n < Suc k \<longrightarrow> k < m \<longrightarrow> of_nat (v div 256 ^ k) = (0xff :: u8)" "n \<le> m"
  shows "be_bytes m v = replicate (m - n) 0xff @ be_bytes n v"
  using assms
proof (induction m)
  case (Suc m)
  show ?case
  proof (cases "n = Suc m")
    case False
    with Suc have "be_bytes m v = replicate (m - n) 0xff @ be_bytes n v" by simp
    moreover from Suc.prems False have "of_nat (v div 256 ^ m) = (0xff :: u8)" by auto
    ultimately show ?thesis using Suc.prems False
      unfolding be_bytes_Cons by (simp add: Suc_diff_le del: be_bytes.simps)
  qed simp
qed simp

lemma le_bytes_nth: "k < n \<Longrightarrow> le_bytes n v ! k = of_nat (v div 256 ^ k)"
proof (induction n arbitrary: k v)
  case (Suc n)
  then show ?case by (cases k) (simp_all add: div_mult2_eq)
qed simp

lemma be_value_zeros [simp]: "be_value (replicate k 0 @ bs) = be_value bs"
  by (induction k) auto

lemma der_int_nonneg:
  assumes "0 \<le> sint v"
  shows "CBS_is_valid_asn1_integer (der_int v) = Some False" "length (der_int v) \<le> 8"
    "load_be (replicate (8 - length (der_int v)) 0 @ der_int v) = v"
proof -
  have di: "der_int v = der_uint (unat v)" using assms by (simp add: der_int_def)
  show "CBS_is_valid_asn1_integer (der_int v) = Some False"
    using der_uint_unsigned by (simp add: di CBS_is_unsigned_asn1_integer_def)
  have val: "be_value (der_int v) = unat v"
    using unat_less_64 [of v] by (simp add: di be_value_der_uint)
  have "unat v < 2 ^ 63" using assms by (simp only: sint_neg_iff)
  show len: "length (der_int v) \<le> 8"
  proof (rule ccontr)
    assume "\<not> length (der_int v) \<le> 8"
    then have nine: "length (der_uint (unat v)) = 9" using length_der_uint [of "unat v"] di by simp
    have "length (strip_zeros (be_bytes 8 (unat v))) \<le> 8"
      unfolding strip_zeros_def by (metis length_be_bytes length_dropWhile_le)
    with nine obtain b bs where b: "der_uint (unat v) = 0 # b # bs" "b AND 0x80 \<noteq> 0" "length bs = 7"
      by (auto simp: der_uint_def split: list.splits if_splits)
    then have "128 \<le> unat b" unfolding u8_top_bit by simp
    then have "128 * 256 ^ 7 \<le> unat b * 256 ^ 7" by (rule mult_le_mono1)
    then have "2 ^ 63 \<le> be_value (der_int v)" using b by (simp add: di)
    with val \<open>unat v < 2 ^ 63\<close> show False by simp
  qed
  have "unat (load_be (replicate (8 - length (der_int v)) 0 @ der_int v) :: u64) = unat v"
    using len val by (simp add: unat_load_be_exact)
  then show "load_be (replicate (8 - length (der_int v)) 0 @ der_int v) = v"
    by (simp add: word_unat_eq_iff)
qed

lemma der_int_neg:
  assumes "\<not> 0 \<le> sint v"
  shows "CBS_is_valid_asn1_integer (der_int v) = Some True" "length (der_int v) \<le> 8"
    "load_be (replicate (8 - length (der_int v)) 0xff @ der_int v) = v"
proof -
  obtain bs st where bs: "bs = le_bytes 8 (unat v)" and st: "st = int64_start_loop bs 7" by blast
  note P = int64_start_loop_props [of bs 7, folded st]
  have di: "der_int v = be_bytes (Suc st) (unat v)"
    using assms by (simp only: der_int_def bs st if_False)
  have "bs ! 7 AND 0x80 \<noteq> 0"
    using sint_neg_top_byte [OF assms] by (simp only: bs) (simp add: le_bytes_nth del: le_bytes.simps)
  with P have top: "bs ! st AND 0x80 \<noteq> 0" by blast
  have nth: "bs ! k = of_nat (unat v div 256 ^ k)" if "k \<le> 7" for k
    using that unfolding bs by (intro le_bytes_nth) simp
  have st7: "st \<le> 7" using P by blast
  have hd: "der_int v = bs ! st # be_bytes st (unat v)"
    unfolding di be_bytes_Cons nth [OF st7] ..
  show "CBS_is_valid_asn1_integer (der_int v) = Some True"
  proof (cases st)
    case 0
    with hd top show ?thesis by (simp add: valid_integer_Cons)
  next
    case (Suc j)
    have "be_bytes st (unat v) = bs ! j # be_bytes j (unat v)"
      unfolding Suc be_bytes_Cons using nth [of j] st7 Suc by simp
    moreover have "\<not> (bs ! st = 0xff \<and> bs ! j AND 0x80 \<noteq> 0)" using P Suc by auto
    moreover have "bs ! st \<noteq> 0" using top by auto
    ultimately show ?thesis using hd top by (auto simp: valid_integer_Cons)
  qed
  show "length (der_int v) \<le> 8" using st7 by (simp add: di del: be_bytes.simps)
  have "be_bytes 8 (unat v) = replicate (8 - Suc st) 0xff @ be_bytes (Suc st) (unat v)"
    using P nth st7 by (intro be_bytes_prepend_ff) auto
  then show "load_be (replicate (8 - length (der_int v)) 0xff @ der_int v) = v"
    using load_be_be_bytes [of 8 v] by (simp add: di del: be_bytes.simps)
qed

lemma CBS_get_asn1_int64_der_int:
  "CBS_get_asn1_int64 (der (der_int v, CBS_ASN1_INTEGER) @ r) = (Some v, r)"
proof -
  have len: "length (der_int v) \<le> 8" using der_int_neg(2) der_int_nonneg(2) by blast
  then have "CBS_get_asn1 CBS_ASN1_INTEGER (der (der_int v, CBS_ASN1_INTEGER) @ r) = (Some (der_int v), r)"
    by (simp add: CBS_get_asn1_iff der_ok_def)
  then show ?thesis
    using der_int_neg [of v] der_int_nonneg [of v]
    by (cases "0 \<le> sint v") (simp_all add: CBS_get_asn1_int64_def)
qed

interpretation asn1_int64c: progress_codec
  "\<lambda>v. der (der_int v, CBS_ASN1_INTEGER)" CBS_get_asn1_int64 "\<lambda>_. True"
  by unfold_locales (simp_all add: CBS_get_asn1_int64_der_int der_nonempty)

section \<open>Errors are sticky\<close>

lemma CBB_flush_error: "b_error (cbb_base s) \<Longrightarrow> CBB_flush env d s = (None, s)"
  by (cases "length (cbb_frames s) - d") (simp_all add: CBB_flush_def)

lemma CBB_flush_dead: "\<not> cbb_alive d s \<Longrightarrow> CBB_flush env d s = (None, s)"
  by (simp add: CBB_flush_def)

lemma flush_first_fails:
  assumes "CBB_flush env d s = (None, s)"
  shows "CBB_add_space env d n s = (None, s)" "CBB_reserve env d n s = (None, s)"
    "CBB_add_bytes env d x s = (None, s)" "CBB_add_zeros env d n s = (None, s)"
    "cbb_add_u env d v n s = (None, s)" "cbb_add_length_prefixed env d n s = (None, s)"
    "CBB_add_asn1 env d tag s = (None, s)"
  using assms
  by (simp_all add: CBB_add_space_def CBB_reserve_def CBB_add_bytes_def CBB_add_zeros_def cbb_add_u_def
      cbb_add_length_prefixed_def CBB_add_asn1_def gbind_def)

text \<open>A failing write locks the builder it was made on.\<close>

lemma on_base_add_None:
  "on_base (cbb_buffer_add env n) s = (None, s') \<Longrightarrow> cbb_alive d s \<Longrightarrow> cbb_fault s = cbb_fault s0
     \<Longrightarrow> locked d s0 s'"
  by (auto simp: on_base_def locked_def cbb_alive_def dest: add_None split: prod.splits)

lemma CBB_add_space_None:
  assumes "CBB_add_space env d n s = (None, s')" "cbb_inv s" "cbb_alive d s"
  shows "locked d s s'"
proof (cases "CBB_flush env d s")
  case (Pair r s1)
  show ?thesis
  proof (cases r)
    case None
    with CBB_flush_None [of env d s s1] assms Pair show ?thesis
      by (simp add: CBB_add_space_def gbind_def)
  next
    case (Some u)
    note fl = CBB_flush_Some [OF Pair [unfolded Some] assms(2)]
    from assms(1) Pair Some have "on_base (cbb_buffer_add env n) s1 = (None, s')"
      by (simp add: CBB_add_space_def gbind_def)
    from on_base_add_None [OF this, of d s] fl show ?thesis by (simp add: cbb_alive_def)
  qed
qed

lemma CBB_add_bytes_None:
  assumes "CBB_add_bytes env d x s = (None, s')" "cbb_inv s" "cbb_alive d s"
  shows "locked d s s'"
  using assms CBB_add_space_None [of env d "length x" s s']
  by (auto simp: CBB_add_bytes_def gbind_def split: prod.splits option.splits)

section \<open>Writes that succeed\<close>

text \<open>A reservation that succeeds grows the capacity to at most twice the new length.\<close>

lemma reserve_granted:
  assumes "base_inv b" "b_len b + n \<le> b_cap b
      \<or> b_can_resize b \<and> (\<forall>n. libc_malloc env n) \<and> b_len b + n < 2 ^ 62 \<and> b_cap b < 2 ^ 62"
  shows "\<exists>b'. cbb_buffer_reserve env n b = (Some (b_len b), b') \<and> b_can_resize b' = b_can_resize b
    \<and> b_cap b' \<le> max (b_cap b) (2 * (b_len b + n))"
proof (cases "b_len b + n \<le> b_cap b")
  case True
  with reserve_fits [OF assms(1)] show ?thesis by simp
next
  case False
  with assms(2) have g: "b_can_resize b" "\<forall>n. libc_malloc env n" "b_len b + n < 2 ^ 62" "b_cap b < 2 ^ 62"
    by simp_all
  define newcap where "newcap = (if b_cap b * 2 < b_cap b \<or> b_cap b * 2 < b_len b + n then b_len b + n
    else b_cap b * 2)"
  have cap: "newcap < 2 ^ 63" "newcap \<le> 2 * (b_len b + n)" using g False by (simp_all add: newcap_def)
  have "\<exists>blk. OPENSSL_realloc env (Some (b_buf b)) newcap = Some blk"
    using cap(1) g(2) by (simp add: OPENSSL_realloc_def OPENSSL_malloc_def size_add_def size_mod_def
        OPENSSL_MALLOC_PREFIX_def Let_def)
  then obtain blk where "OPENSSL_realloc env (Some (b_buf b)) newcap = Some blk" by blast
  moreover have "size_add (b_len b) n = b_len b + n" "size_mul (b_cap b) 2 = b_cap b * 2"
    using g by (simp_all add: size_add_def size_mul_def size_mod_def)
  ultimately have "cbb_buffer_reserve env n b = (Some (b_len b), b\<lparr>b_buf := blk, b_cap := newcap\<rparr>)"
    using False g(1) by (auto simp: cbb_buffer_reserve_def Let_def newcap_def)
  with cap(2) show ?thesis by simp
qed

lemma innermost_write:
  assumes "cbb_inv s" "\<not> b_error (cbb_base s)" "d = length (cbb_frames s)"
    and room: "b_len (cbb_base s) + length x \<le> b_cap (cbb_base s)
      \<or> b_can_resize (cbb_base s) \<and> (\<forall>n. libc_malloc env n)
        \<and> b_len (cbb_base s) + length x < 2 ^ 62 \<and> b_cap (cbb_base s) < 2 ^ 62"
  shows "\<exists>s'. CBB_add_bytes env d x s = (Some (), s') \<and> cbb_abs s' = app_last x (cbb_abs s)
    \<and> b_len (cbb_base s') = b_len (cbb_base s) + length x \<and> cbb_inv s' \<and> \<not> b_error (cbb_base s')
    \<and> cbb_frames s' = cbb_frames s \<and> b_can_resize (cbb_base s') = b_can_resize (cbb_base s)
    \<and> b_cap (cbb_base s') \<le> max (b_cap (cbb_base s)) (2 * b_len (cbb_base s'))"
proof -
  let ?b = "cbb_base s"
  have inv: "base_inv ?b" using assms(1) by (simp add: cbb_inv_def)
  obtain b' where b': "cbb_buffer_reserve env (length x) ?b = (Some (b_len ?b), b')"
    "b_can_resize b' = b_can_resize ?b" "b_cap b' \<le> max (b_cap ?b) (2 * (b_len ?b + length x))"
    using reserve_granted [OF inv room] by blast
  have small: "length x < size_mod"
    using room inv by (auto simp: base_inv_def size_mod_def)
  note R = reserve_Some [OF b'(1) inv small]
  define s' where "s' = cbb_put (b_len ?b) x (s\<lparr>cbb_base := b'\<lparr>b_len := b_len b' + length x\<rparr>\<rparr>)"
  have flush: "CBB_flush env d s = (Some (), s)" using assms(2,3) by (simp add: CBB_flush_def cbb_alive_def)
  then have run: "CBB_add_bytes env d x s = (Some (), s')"
    by (simp add: CBB_add_bytes_def CBB_add_space_def cbb_buffer_add_def on_base_def gbind_def b'(1) s'_def)
  note I = implementsD [OF implements_CBB_add_bytes [OF small] assms(1) run]
  have "length (snd (cbb_abs s)) = d" using assms(3) by (simp add: cbb_abs_def regions_def)
  then have "cbb_abs s' = app_last x (cbb_abs s)" using I(2) by (simp add: w_add_def w_flush_id)
  with run I(1) R b' assms(2) show ?thesis
    by (intro exI [of _ s']) (simp add: s'_def cbb_put_def)
qed

lemma add_u8_bytes:
  assumes "CBB_add_bytes env d [c] s = (Some (), s')" "cbb_inv s"
  shows "CBB_add_u8 env d c s = (Some (), s')"
proof -
  obtain u s1 out s2 where f: "CBB_flush env d s = (Some u, s1)"
    and add: "on_base (cbb_buffer_add env (length [c])) s1 = (Some out, s2)"
    and s': "s' = cbb_put out [c] s2"
    using assms(1) by (auto simp: CBB_add_bytes_def CBB_add_space_def gbind_eq_Some_iff)
  have "cbb_inv s1" using CBB_flush_Some [OF f assms(2)] by blast
  then have out: "out + 1 \<le> length (b_buf (cbb_base s2))"
    using base_add_put [OF add] by (simp add: size_mod_def)
  have loop: "add_u_loop out 1 (ucast c) (b_buf (cbb_base s2)) = (0, put_bytes out [c] (b_buf (cbb_base s2)))"
    using add_u_loop_eq [OF out, of "ucast c"]
    by (simp add: drop_bit_eq_0_iff del: add_u_loop.simps)
  have "CBB_add_space env d 1 s = (Some out, s2)"
    using f add by (simp add: CBB_add_space_def gbind_def)
  then show ?thesis
    using loop by (simp add: CBB_add_u8_def cbb_add_u_def gbind_def s' cbb_put_def del: One_nat_def)
qed

text \<open>A growing builder with nothing open, in which the allocator never says no.\<close>

definition growing :: "cbb \<Rightarrow> bool" where
  "growing s \<longleftrightarrow> cbb_inv s \<and> \<not> b_error (cbb_base s) \<and> cbb_frames s = [] \<and> b_can_resize (cbb_base s)
     \<and> b_cap (cbb_base s) \<le> max 32 (2 * b_len (cbb_base s))"

lemma growing_add_bytes:
  assumes "growing s" "\<forall>n. libc_malloc env n" "b_len (cbb_base s) + length x < 2 ^ 61"
  shows "\<exists>s'. CBB_add_bytes env 0 x s = (Some (), s') \<and> growing s'
    \<and> b_len (cbb_base s') = b_len (cbb_base s) + length x"
proof -
  have "b_cap (cbb_base s) < 2 ^ 62" using assms(1,3) by (auto simp: growing_def)
  then have "b_can_resize (cbb_base s) \<and> (\<forall>n. libc_malloc env n)
        \<and> b_len (cbb_base s) + length x < 2 ^ 62 \<and> b_cap (cbb_base s) < 2 ^ 62"
    using assms by (simp add: growing_def)
  then obtain s' where s': "CBB_add_bytes env 0 x s = (Some (), s')"
      "b_len (cbb_base s') = b_len (cbb_base s) + length x" "cbb_inv s'" "\<not> b_error (cbb_base s')"
      "cbb_frames s' = cbb_frames s" "b_can_resize (cbb_base s') = b_can_resize (cbb_base s)"
      "b_cap (cbb_base s') \<le> max (b_cap (cbb_base s)) (2 * b_len (cbb_base s'))"
    using innermost_write [of s 0 x env] assms(1) unfolding growing_def by auto
  have "b_cap (cbb_base s') \<le> max 32 (2 * b_len (cbb_base s'))"
    using s'(2,7) assms(1) unfolding growing_def by linarith
  with s' assms(1) show ?thesis
    by (intro exI [of _ s']) (simp add: growing_def)
qed

section \<open>Object identifiers as text\<close>

definition parse_dotted_decimal :: "u64 getter" where
  "parse_dotted_decimal = gbind CBS_get_u64_decimal (\<lambda>out cbs.
     case CBS_get_u8 cbs of
       (None, cbs) \<Rightarrow> (Some out, cbs)
     | (Some dot, cbs) \<Rightarrow> if dot = 46 \<and> length cbs > 0 then (Some out, cbs) else (None, cbs))"

lemma dec_digits_nonempty [simp]: "dec_digits n \<noteq> []"
  by (simp add: dec_digits.simps [of n])

lemma digit_byte_eq: "is_digit_byte c \<Longrightarrow> 48 + of_nat (unat c - 48) = c"
  by (simp add: word_unat_eq_iff unat_word_ariths unat_of_nat is_digit_byte_def)

lemma dec_digits_snoc:
  "0 < n \<Longrightarrow> is_digit_byte c \<Longrightarrow> dec_digits (n * 10 + (unat c - 48)) = dec_digits n @ [c]"
proof -
  assume n: "0 < n" and c: "is_digit_byte c"
  have aux: "(n * 10 + e) div 10 = n" "(n * 10 + e) mod 10 = e" if "e < 10" for e :: nat
    using that by simp_all
  have "unat c - 48 < 10" using c by (auto simp: is_digit_byte_def)
  note m = aux [OF this]
  show ?thesis
    using n by (subst dec_digits.simps) (simp only: m digit_byte_eq [OF c], simp)
qed

lemma dec_digits_single: "is_digit_byte c \<Longrightarrow> dec_digits (unat c - 48) = [c]"
  by (subst dec_digits.simps) (auto simp: digit_byte_eq is_digit_byte_def)

lemma decimal_loop_sound:
  assumes "decimal_loop s v seen = (Some w, r)" "seen \<or> v = 0"
  shows "(if seen then dec_digits (unat v) @ s else s) = dec_digits (unat w) @ r
    \<and> (r = [] \<or> \<not> is_digit_byte (hd r))"
  using assms
proof (induction s arbitrary: v seen)
  case Nil
  then show ?case by (auto split: if_splits)
next
  case (Cons c s)
  show ?case
  proof (cases "is_digit_byte c")
    case False
    with Cons.prems show ?thesis by (auto split: if_splits)
  next
    case True
    with Cons.prems have less: "unat v * 10 + (unat c - 48) < 2 ^ 64" and z: "\<not> (v = 0 \<and> seen)"
      and rec: "decimal_loop s (v * 10 + (ucast c - 48)) True = (Some w, r)"
      by (auto simp: decimal_loop_digit not_le simp del: decimal_loop.simps split: if_splits)
    note step = decimal_step [OF True less]
    have "dec_digits (unat v * 10 + (unat c - 48)) = (if seen then dec_digits (unat v) else []) @ [c]"
    proof (cases seen)
      case True
      with z have "0 < unat v" by (simp add: unat_gt_0)
      with dec_digits_snoc [OF this \<open>is_digit_byte c\<close>] True show ?thesis by simp
    next
      case False
      with Cons.prems have "v = 0" by simp
      with dec_digits_single [OF \<open>is_digit_byte c\<close>] False show ?thesis by simp
    qed
    with Cons.IH [OF rec] show ?thesis by (simp add: step split: if_splits)
  qed
qed

lemma CBS_get_u64_decimal_iff:
  "CBS_get_u64_decimal s = (Some v, r) \<longleftrightarrow>
     s = dec_digits (unat v) @ r \<and> (r = [] \<or> \<not> is_digit_byte (hd r))"
  using decimal_loop_sound [of s 0 False v r] CBS_get_u64_decimal_digits [of r v]
  by (auto simp: CBS_get_u64_decimal_def)

lemma parse_dotted_decimal_iff:
  "parse_dotted_decimal s = (Some v, r) \<longleftrightarrow>
     s = dec_digits (unat v) @ (if r = [] then [] else 46 # r)"
proof -
  have dot: "\<not> is_digit_byte 46" by (simp add: is_digit_byte_def)
  have "parse_dotted_decimal s = (Some v, r) \<longleftrightarrow>
     (\<exists>t. CBS_get_u64_decimal s = (Some v, t) \<and> (t = [] \<and> r = [] \<or> t = 46 # r \<and> r \<noteq> []))"
    unfolding parse_dotted_decimal_def gbind_eq_Some_iff
  proof (intro iffI; elim exE conjE)
    fix a t
    assume g: "CBS_get_u64_decimal s = (Some a, t)"
      and h: "(case CBS_get_u8 t of (None, cbs) \<Rightarrow> (Some a, cbs)
        | (Some dot, cbs) \<Rightarrow> if dot = 46 \<and> length cbs > 0 then (Some a, cbs) else (None, cbs)) = (Some v, r)"
    then show "\<exists>t. CBS_get_u64_decimal s = (Some v, t) \<and> (t = [] \<and> r = [] \<or> t = 46 # r \<and> r \<noteq> [])"
      by (cases t) (auto split: if_splits)
  next
    fix t
    assume "CBS_get_u64_decimal s = (Some v, t)" "t = [] \<and> r = [] \<or> t = 46 # r \<and> r \<noteq> []"
    then show "\<exists>a t. CBS_get_u64_decimal s = (Some a, t) \<and>
      (case CBS_get_u8 t of (None, cbs) \<Rightarrow> (Some a, cbs)
        | (Some dot, cbs) \<Rightarrow> if dot = 46 \<and> length cbs > 0 then (Some a, cbs) else (None, cbs)) = (Some v, r)"
      by (intro exI [of _ v] exI [of _ t]) auto
  qed
  also have "\<dots> \<longleftrightarrow> s = dec_digits (unat v) @ (if r = [] then [] else 46 # r)"
    using dot by (auto simp: CBS_get_u64_decimal_iff)
  finally show ?thesis .
qed

lemma parse_dotted_decimal_shorter:
  assumes "parse_dotted_decimal s = (Some v, r)"
  shows "length r < length s"
proof -
  have "0 < length (dec_digits (unat v))" by simp
  with assms show ?thesis by (auto simp: parse_dotted_decimal_iff simp del: length_greater_0_conv)
qed

text \<open>The loop over the remaining components.\<close>

function oid_text_loop :: "heap_env \<Rightarrow> handle \<Rightarrow> cbs \<Rightarrow> unit cbb_op" where
  "oid_text_loop env d cbs s =
     (if length cbs = 0 then (Some (), s)
      else case parse_dotted_decimal cbs of
        (None, _) \<Rightarrow> (None, s)
      | (Some a, cbs) \<Rightarrow>
          (case add_base128_integer env d a s of
             (None, s) \<Rightarrow> (None, s)
           | (Some _, s) \<Rightarrow> oid_text_loop env d cbs s))"
  by pat_completeness auto
termination
  by (relation "measure (\<lambda>(env, d, cbs, s). length cbs)")
    (auto dest: parse_dotted_decimal_shorter [OF sym])

declare oid_text_loop.simps [simp del]

definition CBB_add_asn1_oid_from_text :: "heap_env \<Rightarrow> handle \<Rightarrow> bytes \<Rightarrow> unit cbb_op" where
  "CBB_add_asn1_oid_from_text env d text = gbind (CBB_flush env d) (\<lambda>_ s.
     case parse_dotted_decimal text of (None, _) \<Rightarrow> (None, s) | (Some a, cbs) \<Rightarrow>
     (case parse_dotted_decimal cbs of (None, _) \<Rightarrow> (None, s) | (Some b, cbs) \<Rightarrow>
        if a > 2 \<or> (a < 2 \<and> b > 39) \<or> b > UINT64_MAX - 80 then (None, s)
        else gbind (add_base128_integer env d (40 * a + b)) (\<lambda>_. oid_text_loop env d cbs) s))"

text \<open>\<open>snprintf\<close> with \<open>PRIu64\<close> writes the decimal digits of the value.\<close>

definition add_decimal :: "heap_env \<Rightarrow> handle \<Rightarrow> u64 \<Rightarrow> unit cbb_op" where
  "add_decimal env d v = CBB_add_bytes env d (dec_digits (unat v))"

lemma parse_base128_shorter:
  assumes "parse_base128_integer s = (Some v, r)"
  shows "length r < length s"
proof -
  have "0 < length (base128 (unat v))" by (simp add: base128_def)
  with assms show ?thesis by (auto simp: base128c.dec_iff simp del: length_greater_0_conv)
qed

function oid_to_text_loop :: "heap_env \<Rightarrow> cbs \<Rightarrow> unit cbb_op" where
  "oid_to_text_loop env copy s =
     (if length copy = 0 then (Some (), s)
      else case parse_base128_integer copy of
        (None, _) \<Rightarrow> (None, s)
      | (Some v, copy) \<Rightarrow>
          (case gbind (CBB_add_u8 env 0 46) (\<lambda>_. add_decimal env 0 v) s of
             (None, s) \<Rightarrow> (None, s)
           | (Some _, s) \<Rightarrow> oid_to_text_loop env copy s))"
  by pat_completeness auto
termination
  by (relation "measure (\<lambda>(env, copy, s). length copy)")
    (auto dest: parse_base128_shorter [OF sym])

declare oid_to_text_loop.simps [simp del]

text \<open>The result is the block with the terminated string; \<open>None\<close> is the null pointer.\<close>

definition CBS_asn1_oid_to_text :: "heap_env \<Rightarrow> cbs \<Rightarrow> bytes option" where
  "CBS_asn1_oid_to_text env cbs =
     (case CBB_init env 32 of None \<Rightarrow> None | Some cbb \<Rightarrow>
      (case parse_base128_integer cbs of (None, _) \<Rightarrow> None | (Some v, copy) \<Rightarrow>
        fst (gbind (if v \<ge> 80
                    then gbind (CBB_add_bytes env 0 [50, 46]) (\<lambda>_. add_decimal env 0 (v - 80))
                    else gbind (add_decimal env 0 (v div 40)) (\<lambda>_.
                         gbind (CBB_add_u8 env 0 46) (\<lambda>_. add_decimal env 0 (v mod 40))))
             (\<lambda>_. gbind (oid_to_text_loop env copy)
             (\<lambda>_. gbind (CBB_add_u8 env 0 0)
             (\<lambda>_. gbind (CBB_finish env 0 True True) (\<lambda>(txt, txt_len). gret txt)))) cbb)))"

text \<open>The dotted text and the encoding of a list of components.\<close>

fun dotted :: "u64 list \<Rightarrow> bytes" where
  "dotted [] = []"
| "dotted [a] = dec_digits (unat a)"
| "dotted (a # b # as) = dec_digits (unat a) @ 46 # dotted (b # as)"

definition oid_tail :: "u64 list \<Rightarrow> bytes" where
  "oid_tail as = concat (map (\<lambda>a. base128 (unat a)) as)"

lemma dotted_eq: "dotted (a # as) = dec_digits (unat a) @ (if as = [] then [] else 46 # dotted as)"
  by (cases as) simp_all

lemma dotted_Nil_iff [simp]: "dotted as = [] \<longleftrightarrow> as = []"
  by (cases as) (simp_all add: dotted_eq)

lemma dotted_dots: "dotted (a # as) = dec_digits (unat a) @ concat (map (\<lambda>a. 46 # dec_digits (unat a)) as)"
  by (induction as arbitrary: a) (simp_all add: dotted_eq)

lemma oid_text_loop_props:
  assumes "oid_text_loop env d cbs s = (Some u, s')" "cbb_inv s"
  shows "\<exists>as. cbs = dotted as \<and> cbb_inv s' \<and> w_maybe d (oid_tail as) (cbb_abs s) = Some (cbb_abs s')
    \<and> cbb_fault s' = cbb_fault s"
  using assms
proof (induction env d cbs s rule: oid_text_loop.induct)
  case (1 env d cbs s)
  show ?case
  proof (cases "cbs = []")
    case True
    with "1.prems" have "s' = s" by (simp add: oid_text_loop.simps)
    with True "1.prems" show ?thesis
      by (intro exI [of _ "[]"]) (simp add: oid_tail_def w_maybe_def)
  next
    case False
    with "1.prems"(1) obtain a cbs' s1 where a: "parse_dotted_decimal cbs = (Some a, cbs')"
      and b: "add_base128_integer env d a s = (Some (), s1)"
      and rec: "oid_text_loop env d cbs' s1 = (Some u, s')"
      by (subst (asm) oid_text_loop.simps) (auto split: prod.splits option.splits)
    note I = implementsD [OF implements_add_base128_integer "1.prems"(2) b]
    obtain as where as: "cbs' = dotted as" "cbb_inv s'"
      "w_maybe d (oid_tail as) (cbb_abs s1) = Some (cbb_abs s')" "cbb_fault s' = cbb_fault s1"
      using "1.IH" [OF _ a [symmetric] refl b [symmetric] refl rec I(1)] False by auto
    have "cbs = dotted (a # as)"
      using a as(1) by (simp add: parse_dotted_decimal_iff dotted_eq)
    moreover have "w_maybe d (oid_tail (a # as)) (cbb_abs s) = Some (cbb_abs s')"
      using w_add_maybe [of d "base128 (unat a)" "cbb_abs s" "oid_tail as"] I(2) as(3)
      by (simp add: oid_tail_def w_maybe_def)
    ultimately show ?thesis using as(2,4) I(3) by auto
  qed
qed

lemma oid_to_text_loop_props:
  assumes "oid_to_text_loop env copy s = (Some u, s')" "cbb_inv s" "copy = oid_tail as"
    and "list_all (\<lambda>a. length (dec_digits (unat a)) < size_mod) as"
  shows "cbb_inv s' \<and> w_maybe 0 (concat (map (\<lambda>a. 46 # dec_digits (unat a)) as)) (cbb_abs s) = Some (cbb_abs s')"
  using assms
proof (induction as arbitrary: copy s)
  case Nil
  then show ?case by (simp add: oid_tail_def oid_to_text_loop.simps w_maybe_def)
next
  case (Cons a as)
  have copy: "copy = base128 (unat a) @ oid_tail as" using Cons.prems(3) by (simp add: oid_tail_def)
  then have p: "parse_base128_integer copy = (Some a, oid_tail as)" by (simp add: base128c.dec_iff)
  have "copy \<noteq> []" by (simp add: copy)
  with Cons.prems(1) p obtain w s1
    where w: "gbind (CBB_add_u8 env 0 46) (\<lambda>_. add_decimal env 0 a) s = (Some w, s1)"
      and rec: "oid_to_text_loop env (oid_tail as) s1 = (Some u, s')"
    by (subst (asm) oid_to_text_loop.simps) (auto split: prod.splits option.splits)
  have small: "length (dec_digits (unat a)) < size_mod" using Cons.prems(4) by simp
  have "implements (gbind (CBB_add_u8 env 0 46) (\<lambda>_. add_decimal env 0 a))
      (\<lambda>A. Option.bind (w_add 0 [46] A) (w_add 0 (dec_digits (unat a))))"
    unfolding add_decimal_def by (intro implements_gbind implements_CBB_add_u8 implements_CBB_add_bytes small)
  note I = implementsD [OF this Cons.prems(2) w]
  from Cons.IH [OF rec I(1) refl] Cons.prems(4) I(1,2)
    w_add_maybe [of 0 "46 # dec_digits (unat a)" "cbb_abs s" "concat (map (\<lambda>a. 46 # dec_digits (unat a)) as)"]
  show ?case by (simp add: w_maybe_def)
qed

lemma length_dec_digits: "n < 10 ^ k \<Longrightarrow> 0 < k \<Longrightarrow> length (dec_digits n) \<le> k"
proof (induction n arbitrary: k rule: dec_digits.induct)
  case (1 n)
  show ?case
  proof (cases "n < 10")
    case True
    with "1.prems" show ?thesis by (simp add: dec_digits.simps [of n])
  next
    case False
    with "1.prems" obtain k' where k: "k = Suc k'" "0 < k'" by (cases k; cases "k - 1") auto
    with "1.prems" have "n div 10 < 10 ^ k'" by (simp add: less_mult_imp_div_less mult.commute)
    with 1 False k show ?thesis by (simp add: dec_digits.simps [of n])
  qed
qed

lemma length_dec_digits_u64: "length (dec_digits (unat (v :: u64))) < size_mod"
proof -
  have "unat v < 10 ^ 20" using unat_less_64 [of v] by simp
  from length_dec_digits [OF this] show ?thesis by (simp add: size_mod_def)
qed

lemma CBB_init_props:
  assumes "CBB_init env n = Some s" "n < size_mod"
  shows "cbb_inv s" "cbb_abs s = ([], [])"
  using assms OPENSSL_malloc_length [of env n]
  by (auto simp: CBB_init_def cbb_init_def cbb_inv_def base_inv_def cbb_abs_def regions_def b_data_def
      split: option.splits if_splits)

text \<open>What \<open>CBB_finish\<close> hands over: the bytes of the top level, all regions closed.\<close>

lemma CBB_finish_Some:
  assumes "CBB_finish env d True True s = (Some (block, len), s')" "cbb_inv s"
  shows "w_flush 0 (cbb_abs s) = Some (take len block, []) \<and> d = 0 \<and> len \<le> length block"
proof -
  from assms(1) obtain s1 u where d: "d = 0" and fl: "CBB_flush env 0 s = (Some u, s1)"
    and b: "block = b_buf (cbb_base s1)" "len = b_len (cbb_base s1)"
    by (auto simp: CBB_finish_def gbind_eq_Some_iff split: if_splits)
  note F = CBB_flush_Some [OF fl assms(2)]
  then have "cbb_frames s1 = []" by simp
  then have "cbb_abs s1 = (b_data (cbb_base s1), [])"
    by (simp add: cbb_abs_def regions_def next_off_def)
  with F d b show ?thesis by (auto simp: b_data_def cbb_inv_def base_inv_def)
qed

lemma w_flush_top: "w_flush 0 (x, []) = Some (x, [])"
  by (simp add: w_flush_def)

lemma w_add_top [simp]: "w_add 0 y (x, []) = Some (x @ y, [])"
  by (simp add: w_add_def w_flush_def)

lemma implements_first_arcs:
  "implements (if v \<ge> 80
      then gbind (CBB_add_bytes env 0 [50, 46]) (\<lambda>_. add_decimal env 0 (v - 80))
      else gbind (add_decimal env 0 (v div 40)) (\<lambda>_.
           gbind (CBB_add_u8 env 0 46) (\<lambda>_. add_decimal env 0 (v mod 40))))
    (w_add 0 (dotted (if v \<ge> 80 then [2, v - 80] else [v div 40, v mod 40])))"
proof (cases "v \<ge> 80")
  case True
  have "implements (gbind (CBB_add_bytes env 0 [50, 46]) (\<lambda>_. add_decimal env 0 (v - 80)))
      (\<lambda>A. Option.bind (w_add 0 [50, 46] A) (w_add 0 (dec_digits (unat (v - 80)))))"
    unfolding add_decimal_def
    by (intro implements_gbind implements_CBB_add_bytes length_dec_digits_u64) (simp add: size_mod_def)
  moreover have "dec_digits (unat (2 :: u64)) = [50]" by (simp add: dec_digits.simps)
  ultimately show ?thesis using True by simp
next
  case False
  have "implements (gbind (add_decimal env 0 (v div 40)) (\<lambda>_.
           gbind (CBB_add_u8 env 0 46) (\<lambda>_. add_decimal env 0 (v mod 40))))
      (\<lambda>A. Option.bind (w_add 0 (dec_digits (unat (v div 40))) A)
        (\<lambda>A. Option.bind (w_add 0 [46] A) (w_add 0 (dec_digits (unat (v mod 40))))))"
    unfolding add_decimal_def
    by (intro implements_gbind implements_CBB_add_bytes implements_CBB_add_u8 length_dec_digits_u64)
  then show ?thesis using False by simp
qed

lemma fst_SomeE: "fst p = Some a \<Longrightarrow> (\<And>s. p = (Some a, s) \<Longrightarrow> thesis) \<Longrightarrow> thesis"
  by (cases p) auto

lemma dotted_append2: "dotted ([a, b] @ as) = dotted [a, b] @ concat (map (\<lambda>a. 46 # dec_digits (unat a)) as)"
  by (simp add: dotted_dots)

lemma oid_to_text_text:
  assumes "CBS_asn1_oid_to_text env (base128 (unat v) @ oid_tail as) = Some txt"
  shows "\<exists>len. take len txt = dotted ((if v \<ge> 80 then [2, v - 80] else [v div 40, v mod 40]) @ as) @ [0]"
proof -
  have p: "parse_base128_integer (base128 (unat v) @ oid_tail as) = (Some v, oid_tail as)"
    by (simp add: base128c.dec_iff)
  let ?first = "if v \<ge> 80
      then gbind (CBB_add_bytes env 0 [50, 46]) (\<lambda>_. add_decimal env 0 (v - 80))
      else gbind (add_decimal env 0 (v div 40)) (\<lambda>_.
           gbind (CBB_add_u8 env 0 46) (\<lambda>_. add_decimal env 0 (v mod 40)))"
  let ?arcs = "if v \<ge> 80 then [2, v - 80] else [v div 40, v mod 40]"
  let ?rest = "concat (map (\<lambda>a. 46 # dec_digits (unat a)) as)"
  from assms obtain s0 where i: "CBB_init env 32 = Some s0"
    by (auto simp: CBS_asn1_oid_to_text_def split: option.splits)
  with assms p have "fst (gbind ?first (\<lambda>_. gbind (oid_to_text_loop env (oid_tail as))
      (\<lambda>_. gbind (CBB_add_u8 env 0 0) (\<lambda>_. gbind (CBB_finish env 0 True True) (\<lambda>(txt, txt_len). gret txt)))) s0) = Some txt"
    by (simp add: CBS_asn1_oid_to_text_def)
  then obtain s4 where "gbind ?first (\<lambda>_. gbind (oid_to_text_loop env (oid_tail as))
      (\<lambda>_. gbind (CBB_add_u8 env 0 0) (\<lambda>_. gbind (CBB_finish env 0 True True) (\<lambda>(txt, txt_len). gret txt)))) s0 = (Some txt, s4)"
    by (rule fst_SomeE)
  then obtain u1 s1 u2 s2 u3 s3 len where f: "?first s0 = (Some u1, s1)"
      and l: "oid_to_text_loop env (oid_tail as) s1 = (Some u2, s2)"
      and z: "CBB_add_u8 env 0 0 s2 = (Some u3, s3)"
      and fin: "CBB_finish env 0 True True s3 = (Some (txt, len), s4)"
    unfolding gbind_eq_Some_iff by auto
  have "(32::nat) < size_mod" by (simp add: size_mod_def)
  note I = CBB_init_props [OF i this]
  note F = implementsD [OF implements_first_arcs I(1) f]
  have "list_all (\<lambda>a. length (dec_digits (unat a)) < size_mod) as"
    by (simp add: list_all_iff length_dec_digits_u64)
  note L = oid_to_text_loop_props [OF l F(1) refl this]
  note Z = implementsD [OF implements_CBB_add_u8 conjunct1 [OF L] z]
  have s1: "cbb_abs s1 = (dotted ?arcs, [])" using F(2) I(2) by simp
  then have s2: "cbb_abs s2 = (dotted ?arcs @ ?rest, [])"
    using L by (cases "?rest = []") (simp_all only: w_maybe_def if_True if_False w_add_top option.inject simp_thms append_Nil2)
  then have "cbb_abs s3 = (dotted ?arcs @ ?rest @ [0], [])" using Z(2) by simp
  with CBB_finish_Some [OF fin Z(1)] have "take len txt = dotted ?arcs @ ?rest @ [0]"
    by (simp add: w_flush_top)
  moreover have "dotted ?arcs @ ?rest = dotted (?arcs @ as)"
    by (cases "v \<ge> 80") (simp_all only: if_True if_False dotted_append2)
  ultimately show ?thesis by (intro exI [of _ len]) simp
qed

text \<open>With memory to spare the text is made.\<close>

lemma gbind_run: "f s = (Some a, s') \<Longrightarrow> gbind f h s = h a s'"
  by (simp add: gbind_def)

lemma growing_add_u8:
  assumes "growing s" "\<forall>n. libc_malloc env n" "b_len (cbb_base s) + 1 < 2 ^ 61"
  shows "\<exists>s'. CBB_add_u8 env 0 c s = (Some (), s') \<and> growing s' \<and> b_len (cbb_base s') = b_len (cbb_base s) + 1"
proof -
  obtain s' where s': "CBB_add_bytes env 0 [c] s = (Some (), s')" "growing s'"
    "b_len (cbb_base s') = b_len (cbb_base s) + 1"
    using growing_add_bytes [OF assms(1,2), of "[c]"] assms(3) by auto
  moreover from s'(1) assms(1) have "CBB_add_u8 env 0 c s = (Some (), s')"
    by (intro add_u8_bytes) (simp_all add: growing_def)
  ultimately show ?thesis by blast
qed

lemma oid_to_text_loop_grows:
  assumes "growing s" "\<forall>n. libc_malloc env n"
    and "b_len (cbb_base s) + length (concat (map (\<lambda>a. 46 # dec_digits (unat a)) as)) < 2 ^ 61"
  shows "\<exists>s'. oid_to_text_loop env (oid_tail as) s = (Some (), s') \<and> growing s'
    \<and> b_len (cbb_base s') = b_len (cbb_base s) + length (concat (map (\<lambda>a. 46 # dec_digits (unat a)) as))"
  using assms(1,3)
proof (induction as arbitrary: s)
  case Nil
  then show ?case by (simp add: oid_tail_def oid_to_text_loop.simps)
next
  case (Cons a as)
  let ?rest = "length (concat (map (\<lambda>a. 46 # dec_digits (unat a)) as))"
  have p: "parse_base128_integer (oid_tail (a # as)) = (Some a, oid_tail as)" and "oid_tail (a # as) \<noteq> []"
    by (simp_all add: oid_tail_def base128c.dec_iff)
  from Cons.prems have len: "b_len (cbb_base s) + 1 < 2 ^ 61"
    "b_len (cbb_base s) + 1 + length (dec_digits (unat a)) + ?rest < 2 ^ 61" by simp_all
  obtain s1 where s1: "CBB_add_u8 env 0 46 s = (Some (), s1)" "growing s1"
    "b_len (cbb_base s1) = b_len (cbb_base s) + 1"
    using growing_add_u8 [OF Cons.prems(1) assms(2) len(1)] by blast
  obtain s2 where s2: "add_decimal env 0 a s1 = (Some (), s2)" "growing s2"
    "b_len (cbb_base s2) = b_len (cbb_base s) + 1 + length (dec_digits (unat a))"
    using growing_add_bytes [OF s1(2) assms(2), of "dec_digits (unat a)"] len(2) s1(3)
    by (auto simp: add_decimal_def)
  have "b_len (cbb_base s2) + ?rest < 2 ^ 61" using len(2) s2(3) by simp
  from Cons.IH [OF s2(2) this] s1(1) s2 p \<open>oid_tail (a # as) \<noteq> []\<close>
  show ?case by (subst oid_to_text_loop.simps) (auto simp: gbind_def)
qed

lemma first_arcs_grow:
  assumes "growing s" "\<forall>n. libc_malloc env n" "b_len (cbb_base s) = 0"
    and "length (dotted (if v \<ge> 80 then [2, v - 80] else [v div 40, v mod 40])) < 2 ^ 61"
  shows "\<exists>s'. (if v \<ge> 80
      then gbind (CBB_add_bytes env 0 [50, 46]) (\<lambda>_. add_decimal env 0 (v - 80))
      else gbind (add_decimal env 0 (v div 40)) (\<lambda>_.
           gbind (CBB_add_u8 env 0 46) (\<lambda>_. add_decimal env 0 (v mod 40)))) s = (Some (), s') \<and> growing s'
    \<and> b_len (cbb_base s') = length (dotted (if v \<ge> 80 then [2, v - 80] else [v div 40, v mod 40]))"
proof (cases "v \<ge> 80")
  case True
  have two: "dec_digits 2 = [50]" by (simp add: dec_digits.simps)
  obtain s1 where s1: "CBB_add_bytes env 0 [50, 46] s = (Some (), s1)" "growing s1" "b_len (cbb_base s1) = 2"
    using growing_add_bytes [OF assms(1,2), of "[50, 46]"] assms(3) by auto
  obtain s2 where "CBB_add_bytes env 0 (dec_digits (unat (v - 80))) s1 = (Some (), s2)" "growing s2"
    "b_len (cbb_base s2) = 2 + length (dec_digits (unat (v - 80)))"
    using growing_add_bytes [OF s1(2) assms(2), of "dec_digits (unat (v - 80))"] s1(3) assms(4) True
    by (auto simp: two)
  with s1(1) True show ?thesis by (simp add: gbind_def add_decimal_def two)
next
  case False
  let ?q = "dec_digits (unat (v div 40))" and ?r = "dec_digits (unat (v mod 40))"
  from assms(4) False have len: "length ?q + 1 + length ?r < 2 ^ 61" by simp
  obtain s1 where s1: "CBB_add_bytes env 0 ?q s = (Some (), s1)" "growing s1" "b_len (cbb_base s1) = length ?q"
    using growing_add_bytes [OF assms(1,2), of ?q] assms(3) len by auto
  obtain s2 where s2: "CBB_add_u8 env 0 46 s1 = (Some (), s2)" "growing s2" "b_len (cbb_base s2) = length ?q + 1"
    using growing_add_u8 [OF s1(2) assms(2)] s1(3) len by auto
  obtain s3 where "CBB_add_bytes env 0 ?r s2 = (Some (), s3)" "growing s3"
    "b_len (cbb_base s3) = length ?q + 1 + length ?r"
    using growing_add_bytes [OF s2(2) assms(2), of ?r] s2(3) len by auto
  with s1(1) s2(1) False show ?thesis by (simp add: gbind_def add_decimal_def)
qed

lemma oid_to_text_succeeds:
  assumes "\<forall>n. libc_malloc env n"
    and "length (dotted ((if v \<ge> 80 then [2, v - 80] else [v div 40, v mod 40]) @ as)) < 2 ^ 60"
  shows "CBS_asn1_oid_to_text env (base128 (unat v) @ oid_tail as) \<noteq> None"
proof -
  let ?arcs = "if v \<ge> 80 then [2, v - 80] else [v div 40, v mod 40]"
  let ?first = "if v \<ge> 80
      then gbind (CBB_add_bytes env 0 [50, 46]) (\<lambda>_. add_decimal env 0 (v - 80))
      else gbind (add_decimal env 0 (v div 40)) (\<lambda>_.
           gbind (CBB_add_u8 env 0 46) (\<lambda>_. add_decimal env 0 (v mod 40)))"
  have "dotted (?arcs @ as) = dotted ?arcs @ concat (map (\<lambda>a. 46 # dec_digits (unat a)) as)"
    by (cases "v \<ge> 80") (simp_all only: if_True if_False dotted_append2)
  with assms(2) have len: "length (dotted ?arcs)
      + length (concat (map (\<lambda>a. 46 # dec_digits (unat a)) as)) < 2 ^ 60" by simp
  obtain s0 where s0: "CBB_init env 32 = Some s0" and l0: "b_len (cbb_base s0) = 0"
    and r0: "\<not> b_error (cbb_base s0)" "cbb_frames s0 = []" "b_can_resize (cbb_base s0)" "b_cap (cbb_base s0) = 32"
    using assms(1) by (auto simp: CBB_init_def cbb_init_def OPENSSL_malloc_def OPENSSL_MALLOC_PREFIX_def
        size_add_def size_mod_def Let_def)
  have g0: "growing s0" using CBB_init_props(1) [OF s0] r0 by (simp add: growing_def size_mod_def)
  from first_arcs_grow [OF g0 assms(1) l0, of v] len obtain s1
    where s1: "?first s0 = (Some (), s1)"
      "growing s1" "b_len (cbb_base s1) = length (dotted ?arcs)" by auto
  from oid_to_text_loop_grows [OF s1(2) assms(1), of as] s1(3) len obtain s2
    where s2: "oid_to_text_loop env (oid_tail as) s1 = (Some (), s2)" "growing s2"
      "b_len (cbb_base s2) < 2 ^ 60" by auto
  from growing_add_u8 [OF s2(2) assms(1), of 0] s2(3) obtain s3
    where s3: "CBB_add_u8 env 0 0 s2 = (Some (), s3)" "growing s3" by auto
  obtain t n s4 where fin: "CBB_finish env 0 True True s3 = (Some (t, n), s4)"
    using s3(2) by (auto simp: growing_def CBB_finish_def gbind_def CBB_flush_def cbb_alive_def)
  let ?rest = "\<lambda>_. gbind (oid_to_text_loop env (oid_tail as))
      (\<lambda>_. gbind (CBB_add_u8 env 0 0) (\<lambda>_. gbind (CBB_finish env 0 True True) (\<lambda>(txt, txt_len). gret txt)))"
  have "parse_base128_integer (base128 (unat v) @ oid_tail as) = (Some v, oid_tail as)"
    by (simp add: base128c.dec_iff)
  then have "CBS_asn1_oid_to_text env (base128 (unat v) @ oid_tail as) = fst (gbind ?first ?rest s0)"
    using s0 by (simp add: CBS_asn1_oid_to_text_def)
  also have "\<dots> = fst (?rest () s1)"
    by (simp only: gbind_run [where f = ?first, OF s1(1)])
  also have "\<dots> = Some t"
    by (simp add: gbind_def s2(1) s3(1) fin gret_def)
  finally show ?thesis by simp
qed

lemma take_prefix: "take n t = x \<Longrightarrow> take (length x) t = x"
  by (cases "n \<le> length t") auto

lemma case_op_Some:
  "(case p of (None, r) \<Rightarrow> (None, g r) | (Some a, r) \<Rightarrow> f a r) = (Some x, t)
     \<longleftrightarrow> (\<exists>a r. p = (Some a, r) \<and> f a r = (Some x, t))"
  by (auto split: prod.splits option.splits)

text \<open>What a successful \<open>CBB_add_asn1_oid_from_text\<close> has read and written.\<close>

lemma oid_from_text_props:
  assumes "CBB_add_asn1_oid_from_text env d text s = (Some u, s')" "cbb_inv s"
  shows "\<exists>a b as. text = dotted (a # b # as) \<and> a \<le> 2 \<and> (a < 2 \<longrightarrow> b \<le> 39) \<and> b \<le> UINT64_MAX - 80
    \<and> cbb_inv s' \<and> cbb_fault s' = cbb_fault s
    \<and> w_add d (base128 (unat (40 * a + b)) @ oid_tail as) (cbb_abs s) = Some (cbb_abs s')"
proof -
  from assms(1) obtain a b cbs1 cbs2 s1 s2 v w
    where fl: "CBB_flush env d s = (Some v, s1)"
      and a: "parse_dotted_decimal text = (Some a, cbs1)"
      and b: "parse_dotted_decimal cbs1 = (Some b, cbs2)"
      and ok: "\<not> (a > 2 \<or> (a < 2 \<and> b > 39) \<or> b > UINT64_MAX - 80)"
      and first: "add_base128_integer env d (40 * a + b) s1 = (Some w, s2)"
      and loop: "oid_text_loop env d cbs2 s2 = (Some u, s')"
    by (auto simp: CBB_add_asn1_oid_from_text_def gbind_eq_Some_iff case_op_Some
        split: if_splits)
  note F = CBB_flush_Some [OF fl assms(2)]
  then have inv1: "cbb_inv s1" by blast
  note I = implementsD [OF implements_add_base128_integer inv1 first]
  obtain as where as: "cbs2 = dotted as" "cbb_inv s'"
      "w_maybe d (oid_tail as) (cbb_abs s2) = Some (cbb_abs s')" "cbb_fault s' = cbb_fault s2"
    using oid_text_loop_props [OF loop I(1)] by blast
  have text_eq: "text = dotted (a # b # as)"
    using a b as(1) by (auto simp: parse_dotted_decimal_iff dotted_eq)
  have "w_add d (base128 (unat (40 * a + b))) (cbb_abs s) = Some (cbb_abs s2)"
    using w_flush_add [of d "cbb_abs s" "base128 (unat (40 * a + b))"] F I(2) by simp
  with w_add_maybe [of d "base128 (unat (40 * a + b))" "cbb_abs s" "oid_tail as"] as(3)
  have "w_add d (base128 (unat (40 * a + b)) @ oid_tail as) (cbb_abs s) = Some (cbb_abs s')" by simp
  with text_eq ok as F I show ?thesis
    by (intro exI [of _ a] exI [of _ b] exI [of _ as]) (auto simp: not_less)
qed

lemma oid_arcs_split:
  assumes "a \<le> 2" "a < 2 \<longrightarrow> b \<le> 39" "b \<le> UINT64_MAX - 80"
  shows "(if 40 * a + b \<ge> 80 then [2, 40 * a + b - 80] else [(40 * a + b) div 40, (40 * a + b) mod 40]) = [a, b :: u64]"
proof -
  have b: "unat b \<le> 2 ^ 64 - 81"
    using assms(3) by (simp add: word_le_nat_alt UINT64_MAX_def)
  have "unat a \<le> 2" using assms(1) by (simp add: word_le_nat_alt)
  then consider "unat a = 0" | "unat a = 1" | "unat a = 2" by linarith
  then show ?thesis
  proof cases
    case 3
    then have a: "a = 2" by (simp add: word_unat_eq_iff)
    have "unat (80 + b) = 80 + unat b" using b by (simp add: unat_word_ariths)
    then have "80 \<le> 80 + b" by (simp add: word_le_nat_alt)
    then show ?thesis by (simp add: a)
  next
    case 1
    then have a: "a = 0" by (simp add: word_unat_eq_iff)
    with assms have "unat b \<le> 39" by (simp add: word_le_nat_alt)
    then have "\<not> 80 \<le> b" "unat (b div 40) = 0" "unat (b mod 40) = unat b"
      by (simp_all add: word_le_nat_alt unat_div unat_mod)
    then show ?thesis by (simp add: a word_unat_eq_iff)
  next
    case 2
    then have a: "a = 1" by (simp add: word_unat_eq_iff)
    with assms have b: "unat b \<le> 39" by (simp add: word_le_nat_alt)
    then have v: "unat (40 + b) = 40 + unat b" by (simp add: unat_word_ariths)
    with b have "\<not> 80 \<le> 40 + b" "unat ((40 + b) div 40) = 1" "unat ((40 + b) mod 40) = unat b"
      by (simp_all add: word_le_nat_alt unat_div unat_mod)
    then show ?thesis by (simp add: a word_unat_eq_iff)
  qed
qed

lemma oid_bytes_valid: "CBS_is_valid_asn1_oid (base128 n @ oid_tail as)"
  unfolding CBS_is_valid_asn1_oid_iff oid_tail_def
  by (rule exI [of _ "n # map unat as"]) (simp add: comp_def)

section \<open>SET OF\<close>

text \<open>\<open>memcmp\<close> on the first \<open>n\<close> bytes; only the sign of its result is specified.\<close>

fun OPENSSL_memcmp :: "bytes \<Rightarrow> bytes \<Rightarrow> nat \<Rightarrow> int" where
  "OPENSSL_memcmp (a # as) (b # bs) (Suc n) =
     (if a < b then -1 else if b < a then 1 else OPENSSL_memcmp as bs n)"
| "OPENSSL_memcmp _ _ _ = 0"

definition compare_set_of_element :: "cbs \<Rightarrow> cbs \<Rightarrow> int" where
  "compare_set_of_element a b =
     (let a_len = length a; b_len = length b; min_len = (if a_len < b_len then a_len else b_len);
          ret = OPENSSL_memcmp a b min_len in
      if ret \<noteq> 0 then ret
      else if a_len = b_len then 0
      else if a_len < b_len then -1 else 1)"

text \<open>\<open>qsort\<close> of the C library: the items in the order of the comparison function.\<close>

fun qsort_insert :: "('a \<Rightarrow> 'a \<Rightarrow> int) \<Rightarrow> 'a \<Rightarrow> 'a list \<Rightarrow> 'a list" where
  "qsort_insert cmp x [] = [x]"
| "qsort_insert cmp x (y # ys) = (if cmp x y \<le> 0 then x # y # ys else y # qsort_insert cmp x ys)"

definition qsort :: "('a \<Rightarrow> 'a \<Rightarrow> int) \<Rightarrow> 'a list \<Rightarrow> 'a list" where
  "qsort cmp xs = foldr (qsort_insert cmp) xs []"

definition sizeof_CBS :: nat where
  "sizeof_CBS = 16"

text \<open>
  The two loops over the elements read the same bytes, the first from the builder's
  buffer and the second from the copy.
\<close>

definition CBB_flush_asn1_set_of :: "heap_env \<Rightarrow> handle \<Rightarrow> unit cbb_op" where
  "CBB_flush_asn1_set_of env d = gbind (CBB_flush env d) (\<lambda>_ s.
     case (CBB_data d s, CBB_len d s) of
       (Some data, Some len) \<Rightarrow>
         let contents = take len (drop data (b_buf (cbb_base s))) in
         (case get_all CBS_get_any_asn1_element contents of
            None \<Rightarrow> (None, s)
          | Some children \<Rightarrow>
              if length children < 2 then (Some (), s)
              else (case (OPENSSL_memdup env contents, OPENSSL_calloc env (length children) sizeof_CBS) of
                 (Some buf, Some _) \<Rightarrow>
                   (case get_all CBS_get_any_asn1_element buf of
                      None \<Rightarrow> (None, s)
                    | Some children \<Rightarrow>
                        (Some (), cbb_put data
                          (concat (qsort compare_set_of_element (map el_out children))) s))
               | _ \<Rightarrow> (None, s)))
     | _ \<Rightarrow> (None, s\<lparr>cbb_fault := True\<rparr>))"

section \<open>Finishing\<close>

text \<open>
  \<open>CBB_finish_i2d\<close>. \<open>outp\<close> is \<open>None\<close> for a null argument, \<open>Some None\<close> when it points
  to a null pointer, else the block \<open>*outp\<close> points into. The result is the return
  value, that memory afterwards, and how far \<open>*outp\<close> has advanced.
\<close>

definition CBB_finish_i2d :: "heap_env \<Rightarrow> bytes option option \<Rightarrow> cbb \<Rightarrow> int \<times> bytes option option \<times> nat" where
  "CBB_finish_i2d env outp cbb =
     (case CBB_finish env 0 True True cbb of
        (None, _) \<Rightarrow> (-1, outp, 0)
      | (Some (blk, der_len), _) \<Rightarrow>
          if der_len > INT_MAX then (-1, outp, 0)
          else (case outp of
              None \<Rightarrow> (int der_len, None, 0)
            | Some None \<Rightarrow> (int der_len, Some (Some blk), 0)
            | Some (Some dst) \<Rightarrow> (int der_len, Some (Some (put_bytes 0 (take der_len blk) dst)), der_len)))"

subsection \<open>The order of SET OF\<close>

lemma compare_Nil: "compare_set_of_element [] b = (if b = [] then 0 else -1)"
  by (cases b) (simp_all add: compare_set_of_element_def)

lemma compare_Cons_Nil: "compare_set_of_element (x # a) [] = 1"
  by (simp add: compare_set_of_element_def)

lemma compare_Cons:
  "compare_set_of_element (x # a) (y # b) = (if x < y then -1 else if y < x then 1 else compare_set_of_element a b)"
  by (simp add: compare_set_of_element_def Let_def)

text \<open>The comparison function is the lexicographic order of byte strings.\<close>

lemma compare_set_of_element_le: "compare_set_of_element a b \<le> 0 \<longleftrightarrow> a \<le> b"
proof (induction a arbitrary: b)
  case Nil
  show ?case by (simp add: compare_Nil)
next
  case (Cons x a)
  then show ?case by (cases b) (auto simp: compare_Cons compare_Cons_Nil)
qed

lemma qsort_sort: "qsort compare_set_of_element xs = sort xs"
proof -
  have "qsort_insert compare_set_of_element x ys = insort x ys" for x ys
    by (induction ys) (simp_all add: compare_set_of_element_le)
  then show ?thesis by (induction xs) (simp_all add: qsort_def)
qed

definition el_ok :: "asn1_element \<Rightarrow> bool" where
  "el_ok el \<longleftrightarrow> (\<exists>body tag. der_ok (body, tag) \<and> el = der_el body tag)"

interpretation elementc: canonical_codec el_out CBS_get_any_asn1_element el_ok
proof unfold_locales
  fix el rest
  assume "el_ok el"
  then show "CBS_get_any_asn1_element (el_out el @ rest) = (Some el, rest)"
    by (auto simp: el_ok_def any_element_enc)
next
  fix el
  assume "el_ok el"
  then show "el_out el \<noteq> []" by (auto simp: el_ok_def der_nonempty)
next
  fix s el rest
  assume "CBS_get_any_asn1_element s = (Some el, rest)"
  then show "el_ok el \<and> s = el_out el @ rest" by (auto simp: any_element_iff el_ok_def)
qed

text \<open>The region a handle writes into.\<close>

definition region_start :: "cbb \<Rightarrow> nat" where
  "region_start s = (if cbb_frames s = [] then 0 else c_start (last (cbb_frames s)))"

lemma chain_last_start:
  "chain lo cs n \<Longrightarrow> cs \<noteq> [] \<Longrightarrow> chain lo cs (c_start (last cs)) \<and> c_start (last cs) \<le> n"
proof (induction cs arbitrary: lo)
  case (Cons c cs)
  then show ?case by (cases cs) auto
qed simp

lemma region_start_chain:
  assumes "cbb_inv s"
  shows "chain 0 (cbb_frames s) (region_start s)" "region_start s \<le> b_len (cbb_base s)"
  using assms chain_last_start [of 0 "cbb_frames s" "b_len (cbb_base s)"]
  by (auto simp: cbb_inv_def region_start_def)

lemma CBB_data_len:
  assumes "cbb_inv s" "length (cbb_frames s) = d"
  shows "CBB_data d s = Some (region_start s)" "CBB_len d s = Some (b_len (cbb_base s) - region_start s)"
proof -
  have "last (cbb_frames s) = cbb_frames s ! (d - 1)" if "d \<noteq> 0"
    using that assms(2) last_conv_nth [of "cbb_frames s"] by auto
  then show "CBB_data d s = Some (region_start s)" "CBB_len d s = Some (b_len (cbb_base s) - region_start s)"
    using assms(2) by (auto simp: CBB_data_def CBB_len_def cbb_alive_def region_start_def c_start_def Let_def)
qed

lemma region_split:
  assumes "cbb_inv s" "x = drop (region_start s) (b_data (cbb_base s))"
  shows "cbb_abs s = app_last x (regions (cbb_frames s) (take (region_start s) (b_data (cbb_base s))))"
proof -
  have "length (b_data (cbb_base s)) = b_len (cbb_base s)" using assms by (simp add: cbb_inv_def)
  with region_start_chain [OF assms(1)]
  have "chain 0 (cbb_frames s) (length (take (region_start s) (b_data (cbb_base s))))" by simp
  from regions_append [OF this, of x] show ?thesis by (simp add: cbb_abs_def assms(2))
qed

text \<open>Rewriting a region with as many bytes as it holds.\<close>

lemma rewrite_region:
  assumes "cbb_inv s" "length x = b_len (cbb_base s) - region_start s"
  shows "cbb_inv (cbb_put (region_start s) x s)"
    "cbb_abs (cbb_put (region_start s) x s)
      = app_last x (regions (cbb_frames s) (take (region_start s) (b_data (cbb_base s))))"
proof -
  let ?b = "cbb_base s" and ?s = "cbb_put (region_start s) x s" and ?n = "region_start s"
  have inv: "base_inv ?b" using assms by (simp add: cbb_inv_def)
  note le = region_start_chain(2) [OF assms(1)]
  have buf: "length (b_buf ?b) = b_cap ?b" "b_len ?b \<le> b_cap ?b" using inv by (simp_all add: base_inv_def)
  have base: "cbb_base ?s = ?b\<lparr>b_buf := put_bytes ?n x (b_buf ?b)\<rparr>" by (simp add: cbb_put_def)
  have inv': "base_inv (cbb_base ?s)" using inv buf le assms(2) by (simp add: base base_inv_def)
  with assms(1) show "cbb_inv ?s" by (simp add: cbb_inv_def base)
  have data: "b_data (cbb_base ?s) = take ?n (b_data ?b) @ x"
    using buf le assms(2) by (simp add: base b_data_def put_bytes_def min_def)
  have "length (take ?n (b_data ?b)) = ?n" using inv le by simp
  with region_start_chain(1) [OF assms(1)] have "chain 0 (cbb_frames s) (length (take ?n (b_data ?b)))" by simp
  from regions_append [OF this, of x]
  show "cbb_abs ?s = app_last x (regions (cbb_frames s) (take ?n (b_data ?b)))"
    by (simp add: cbb_abs_def data)
qed

lemma mset_sort_concat_length: "length (concat (sort xs)) = length (concat xs)" for xs :: "bytes list"
proof -
  have "sum_list (map length (sort xs)) = sum_list (map length xs)"
    by (metis mset_map mset_sort sum_mset_sum_list)
  then show ?thesis by (simp add: length_concat)
qed

text \<open>The contents of the innermost region.\<close>

definition last_region :: "builder \<Rightarrow> bytes" where
  "last_region A = (if snd A = [] then fst A else snd (last (snd A)))"

lemma last_region_app_last: "last_region (app_last x A) = last_region A @ x"
proof (cases "snd A" rule: rev_cases)
  case Nil
  then show ?thesis by (cases A) (simp add: last_region_def)
next
  case (snoc ps p)
  then show ?thesis by (cases A; cases p) (simp add: last_region_def app_last_snoc)
qed

lemma last_region_before:
  assumes "cbb_inv s"
  shows "last_region (regions (cbb_frames s) (take (region_start s) (b_data (cbb_base s)))) = []"
proof (cases "cbb_frames s" rule: rev_cases)
  case Nil
  then show ?thesis by (simp add: last_region_def regions_def region_start_def next_off_def)
next
  case (snoc cs c)
  have ne: "pending (ds @ [c]) data \<noteq> []" for ds data
    using length_pending [of "ds @ [c]" data] by force
  then have "last (pending (cs @ [c]) data) = (child_kind c, drop (c_start c) data)" for data
    by (induction cs) (simp_all add: next_off_def)
  with ne show ?thesis using snoc by (simp add: last_region_def regions_def region_start_def)
qed

lemma set_of_props:
  assumes "CBB_flush_asn1_set_of env d s = (Some u, s')" "cbb_inv s"
  shows "\<exists>els E. list_all el_ok els \<and> w_flush d (cbb_abs s) = Some (app_last (concat (map el_out els)) E)
    \<and> cbb_inv s' \<and> cbb_abs s' = app_last (concat (sort (map el_out els))) E \<and> last_region E = []"
proof -
  from assms(1) obtain v s1 where fl: "CBB_flush env d s = (Some v, s1)"
    by (auto simp: CBB_flush_asn1_set_of_def gbind_eq_Some_iff)
  note F = CBB_flush_Some [OF fl assms(2)]
  then have inv1: "cbb_inv s1" and d: "length (cbb_frames s1) = d" by auto
  let ?n = "region_start s1" and ?len = "b_len (cbb_base s1) - region_start s1"
  obtain x where x: "x = take ?len (drop ?n (b_buf (cbb_base s1)))" by blast
  have xd: "x = drop ?n (b_data (cbb_base s1))"
    using region_start_chain(2) [OF inv1] by (simp add: x b_data_def drop_take)
  have lenx: "length x = ?len" using inv1 by (simp add: xd cbb_inv_def)
  let ?E = "regions (cbb_frames s1) (take ?n (b_data (cbb_base s1)))"
  have abs1: "cbb_abs s1 = app_last x ?E" by (rule region_split [OF inv1 xd])
  from assms(1) fl obtain els where els: "get_all CBS_get_any_asn1_element x = Some els"
    and r: "length els < 2 \<and> s' = s1 \<or> s' = cbb_put ?n (concat (qsort compare_set_of_element (map el_out els))) s1"
    by (auto simp: CBB_flush_asn1_set_of_def CBB_data_len [OF inv1 d] Let_def OPENSSL_memdup_def
        simp flip: x split: option.splits if_splits)
  from els have ok: "list_all el_ok els" and cat: "x = concat (map el_out els)"
    by (simp_all add: elementc.get_all_iff)
  have "cbb_inv s' \<and> cbb_abs s' = app_last (concat (sort (map el_out els))) ?E"
    using r
  proof
    assume "length els < 2 \<and> s' = s1"
    moreover from this have "sort (map el_out els) = map el_out els"
      by (cases els; cases "tl els") auto
    ultimately show ?thesis using inv1 abs1 cat by simp
  next
    assume s': "s' = cbb_put ?n (concat (qsort compare_set_of_element (map el_out els))) s1"
    have "length (concat (sort (map el_out els))) = ?len"
      using lenx cat by (simp only: mset_sort_concat_length)
    from rewrite_region [OF inv1 this] show ?thesis by (simp add: s' qsort_sort)
  qed
  with ok F abs1 cat last_region_before [OF inv1] show ?thesis
    by (intro exI [of _ els] exI [of _ ?E]) simp
qed

section \<open>Sequences of operations\<close>

text \<open>
  A client of the builder: any sequence of writes on any handles, interleaved with
  openings of regions and flushes.
\<close>

datatype cbb_cmd =
    Do_flush handle
  | Do_bytes handle bytes
  | Do_zeros handle nat
  | Do_u8 handle u8
  | Do_u16 handle u16
  | Do_u24 handle u32
  | Do_u32 handle u32
  | Do_u64 handle u64
  | Do_u16le handle u16
  | Do_u32le handle u32
  | Do_u64le handle u64
  | Do_u8_length_prefixed handle
  | Do_u16_length_prefixed handle
  | Do_u24_length_prefixed handle
  | Do_asn1 handle asn1_tag
  | Do_asn1_uint64 handle u64
  | Do_asn1_int64 handle u64
  | Do_asn1_octet_string handle bytes
  | Do_asn1_bool handle int

fun run_cmd :: "heap_env \<Rightarrow> cbb_cmd \<Rightarrow> unit cbb_op" where
  "run_cmd env (Do_flush d) = CBB_flush env d"
| "run_cmd env (Do_bytes d x) = CBB_add_bytes env d x"
| "run_cmd env (Do_zeros d n) = CBB_add_zeros env d n"
| "run_cmd env (Do_u8 d v) = CBB_add_u8 env d v"
| "run_cmd env (Do_u16 d v) = CBB_add_u16 env d v"
| "run_cmd env (Do_u24 d v) = CBB_add_u24 env d v"
| "run_cmd env (Do_u32 d v) = CBB_add_u32 env d v"
| "run_cmd env (Do_u64 d v) = CBB_add_u64 env d v"
| "run_cmd env (Do_u16le d v) = CBB_add_u16le env d v"
| "run_cmd env (Do_u32le d v) = CBB_add_u32le env d v"
| "run_cmd env (Do_u64le d v) = CBB_add_u64le env d v"
| "run_cmd env (Do_u8_length_prefixed d) = CBB_add_u8_length_prefixed env d"
| "run_cmd env (Do_u16_length_prefixed d) = CBB_add_u16_length_prefixed env d"
| "run_cmd env (Do_u24_length_prefixed d) = CBB_add_u24_length_prefixed env d"
| "run_cmd env (Do_asn1 d tag) = CBB_add_asn1 env d tag"
| "run_cmd env (Do_asn1_uint64 d v) = CBB_add_asn1_uint64 env d v"
| "run_cmd env (Do_asn1_int64 d v) = CBB_add_asn1_int64 env d v"
| "run_cmd env (Do_asn1_octet_string d x) = CBB_add_asn1_octet_string env d x"
| "run_cmd env (Do_asn1_bool d b) = CBB_add_asn1_bool env d b"

fun run_cmds :: "heap_env \<Rightarrow> cbb_cmd list \<Rightarrow> unit cbb_op" where
  "run_cmds env [] = gret ()"
| "run_cmds env (c # cs) = gbind (run_cmd env c) (\<lambda>_. run_cmds env cs)"

text \<open>What each command means on the abstract builder.\<close>

fun spec_cmd :: "cbb_cmd \<Rightarrow> builder \<Rightarrow> builder option" where
  "spec_cmd (Do_flush d) = w_flush d"
| "spec_cmd (Do_bytes d x) = w_add d x"
| "spec_cmd (Do_zeros d n) = w_add d (replicate n 0)"
| "spec_cmd (Do_u8 d v) = w_add d [v]"
| "spec_cmd (Do_u16 d v) = w_add d (be_bytes 2 (unat v))"
| "spec_cmd (Do_u24 d v) = (\<lambda>A. if unat v < 2 ^ 24 then w_add d (be_bytes 3 (unat v)) A else None)"
| "spec_cmd (Do_u32 d v) = w_add d (be_bytes 4 (unat v))"
| "spec_cmd (Do_u64 d v) = w_add d (be_bytes 8 (unat v))"
| "spec_cmd (Do_u16le d v) = w_add d (le_bytes 2 (unat v))"
| "spec_cmd (Do_u32le d v) = w_add d (le_bytes 4 (unat v))"
| "spec_cmd (Do_u64le d v) = w_add d (le_bytes 8 (unat v))"
| "spec_cmd (Do_u8_length_prefixed d) = w_open d (Fixed_len 1)"
| "spec_cmd (Do_u16_length_prefixed d) = w_open d (Fixed_len 2)"
| "spec_cmd (Do_u24_length_prefixed d) = w_open d (Fixed_len 3)"
| "spec_cmd (Do_asn1 d tag) = (\<lambda>A. Option.bind (w_add d (asn1_tag_bytes tag) A) (w_push Asn1_len))"
| "spec_cmd (Do_asn1_uint64 d v) = w_add d (der (der_uint (unat v), CBS_ASN1_INTEGER))"
| "spec_cmd (Do_asn1_int64 d v) = w_add d (der (der_int v, CBS_ASN1_INTEGER))"
| "spec_cmd (Do_asn1_octet_string d x) = w_add d (der (x, CBS_ASN1_OCTETSTRING))"
| "spec_cmd (Do_asn1_bool d b) = w_add d (der_bool (b \<noteq> 0))"

fun spec_cmds :: "cbb_cmd list \<Rightarrow> builder \<Rightarrow> builder option" where
  "spec_cmds [] A = Some A"
| "spec_cmds (c # cs) A = Option.bind (spec_cmd c A) (spec_cmds cs)"

text \<open>Lengths handed to the builder are \<open>size_t\<close> values.\<close>

fun cmd_ok :: "cbb_cmd \<Rightarrow> bool" where
  "cmd_ok (Do_bytes d x) \<longleftrightarrow> length x < size_mod"
| "cmd_ok (Do_zeros d n) \<longleftrightarrow> n < size_mod"
| "cmd_ok (Do_asn1_octet_string d x) \<longleftrightarrow> length x < size_mod"
| "cmd_ok _ \<longleftrightarrow> True"

lemma small_sizes: "1 < size_mod" "2 < size_mod" "3 < size_mod"
  by (simp_all add: size_mod_def)

lemma implements_cmd: "cmd_ok c \<Longrightarrow> implements (run_cmd env c) (spec_cmd c)"
  by (cases c)
    (simp_all only: run_cmd.simps spec_cmd.simps cmd_ok.simps implements_CBB_flush implements_CBB_add_bytes
      implements_CBB_add_zeros implements_CBB_add_u8 implements_CBB_add_u16 implements_CBB_add_u24
      implements_CBB_add_u32 implements_CBB_add_u64 implements_CBB_add_u16le implements_CBB_add_u32le
      implements_CBB_add_u64le implements_length_prefixed small_sizes CBB_add_u8_length_prefixed_def
      CBB_add_u16_length_prefixed_def CBB_add_u24_length_prefixed_def implements_CBB_add_asn1
      implements_asn1_uint64 implements_asn1_int64_with_tag CBB_add_asn1_int64_def implements_octet_string
      implements_bool)

lemma implements_cmds: "list_all cmd_ok cs \<Longrightarrow> implements (run_cmds env cs) (spec_cmds cs)"
proof (induction cs)
  case Nil
  have "spec_cmds [] = Some" by (rule ext) simp
  then show ?case using implements_gret by simp
next
  case (Cons c cs)
  have "spec_cmds (c # cs) = (\<lambda>A. Option.bind (spec_cmd c A) (spec_cmds cs))" by (rule ext) simp
  with Cons show ?case by (simp add: implements_gbind implements_cmd)
qed

end
