(* ===== verification/CBB_Props.thy ===== *)
theory CBB_Props
  imports CBB_DER
begin

text \<open>
  The properties of the byte builder (\<open>crypto/bytestring/cbb.c\<close>) and of its use
  together with the readers of \<open>cbs.c\<close>. Witnesses run the builder in a fixed
  buffer of zero bytes; \<open>cbb_eval\<close> collects the equations that evaluate it.
\<close>

section \<open>Evaluation\<close>

lemma loop_numerals:
  "write_len_loop offset (numeral n) len m =
     write_len_loop offset (pred_numeral n) (len div 256) (m[offset + pred_numeral n := of_nat len])"
  "add_u_loop out (numeral n) v m =
     add_u_loop out (pred_numeral n) (drop_bit 8 v) (m[out + pred_numeral n := ucast v])"
  "asn1_uint64_write_loop env c w (numeral n) started =
     (let byte = ucast (drop_bit (8 * pred_numeral n) w AND 0xff) in
      if \<not> started \<and> byte = 0 then asn1_uint64_write_loop env c w (pred_numeral n) started
      else
        gbind (if \<not> started \<and> byte AND 0x80 \<noteq> 0 then CBB_add_u8 env c 0 else gret ())
          (\<lambda>_. gbind (CBB_add_u8 env c byte)
            (\<lambda>_. asn1_uint64_write_loop env c w (pred_numeral n) True)))"
  "replicate (numeral n) a = a # replicate (pred_numeral n) a"
  by (simp_all only: numeral_eq_Suc write_len_loop.simps add_u_loop.simps replicate.simps asn1_uint64_write_loop.simps)

text \<open>Congruences that keep the simplifier out of the continuations while it runs an operation.\<close>

lemma gbind_weak_cong: "p = q \<Longrightarrow> gbind p f = gbind q f"
  by simp

lemmas cbb_eval = loop_numerals gbind_def gret_def CBB_flush_def cbb_alive_def cbb_has_child_def cbb_flush_child_def
  cbb_write_prefix_def cbb_on_error_def cbb_put_def put_bytes_def cbb_init_def CBB_init_fixed_def
  cbb_buffer_reserve_def cbb_buffer_add_def on_base_def asn1_len_choice_def memmove_def CBB_finish_def
  CBB_cleanup_def CBB_data_def CBB_len_def cbb_add_child_def cbb_add_length_prefixed_def
  CBB_add_u8_length_prefixed_def CBB_add_u16_length_prefixed_def CBB_add_u24_length_prefixed_def
  CBB_add_space_def CBB_reserve_def CBB_add_bytes_def CBB_add_zeros_def CBB_did_write_def
  cbb_add_u_def CBB_add_u8_def CBB_add_u16_def CBB_add_u24_def CBB_add_u32_def CBB_add_u64_def
  CBB_add_asn1_def add_base128_integer_def or_error_def CBB_add_asn1_uint64_def
  CBB_add_asn1_uint64_with_tag_def asn1_uint64_write_loop.simps(2) CBB_add_asn1_int64_def
  CBB_add_asn1_int64_with_tag_def CBB_add_asn1_octet_string_def CBB_add_asn1_bool_def
  size_add_def size_mul_def size_mod_def SIZE_MAX_def Let_def
  tag_const_defs CBS_ASN1_SEQUENCE_def CBS_ASN1_INTEGER_def CBS_ASN1_BOOLEAN_def CBS_ASN1_OCTETSTRING_def

text \<open>An allocator that grants every request, for the witnesses.\<close>

definition demo_env :: heap_env where
  "demo_env = \<lparr>libc_malloc = (\<lambda>_. True), garbage = (\<lambda>_. 0xaa)\<rparr>"

definition demo_cmds :: "cbb_cmd list" where
  "demo_cmds = [Do_asn1 0 CBS_ASN1_SEQUENCE, Do_asn1_uint64 1 300, Do_asn1_bool 1 1, Do_u16_length_prefixed 0,
     Do_u8 1 5]"

lemma low_tag_number: "\<not> (0x1f :: u32) \<le> 1"
  by (simp add: word_le_nat_alt)

lemmas alloc_eval = low_tag_number demo_env_def CBB_init_def OPENSSL_malloc_def OPENSSL_realloc_def
  OPENSSL_MALLOC_PREFIX_def upt_rec

section \<open>Properties\<close>

text \<open>C1 Whatever sequence of writes, openings and flushes a client makes on whatever handles, if
  every call succeeds and \<open>CBB_finish\<close> does, then the bytes handed over are those of the
  abstract builder: every prefix is filled in with the length of its region, in the
  minimal DER form for ASN.1 regions, and the contents are what was written in order.\<close>

theorem cbb_program_refines:
  assumes "list_all cmd_ok cs" "n < size_mod" "CBB_init env n = Some s0"
    and "run_cmds env cs s0 = (Some u, s1)"
    and "CBB_finish env 0 True True s1 = (Some (block, len), s2)"
  shows "\<exists>A. spec_cmds cs ([], []) = Some A \<and> w_flush 0 A = Some (take len block, [])"
proof -
  note I = CBB_init_props [OF assms(3,2)]
  note R = implementsD [OF implements_cmds [OF assms(1)] I(1) assms(4)]
  from CBB_finish_Some [OF assms(5) R(1)] R(2) I(2) show ?thesis by auto
qed

lemma demo_run:
  "\<exists>s0 u s1 block s2. CBB_init demo_env 3 = Some s0 \<and> run_cmds demo_env demo_cmds s0 = (Some u, s1)
     \<and> CBB_finish demo_env 0 True True s1 = (Some (block, 12), s2)
     \<and> take 12 block = [0x30, 7, 2, 2, 1, 44, 1, 1, 0xff, 0, 1, 5]"
  by (simp add: demo_cmds_def cbb_eval alloc_eval cong: gbind_weak_cong let_weak_cong)

theorem cbb_program_refines_witness:
  "\<exists>A. spec_cmds demo_cmds ([], []) = Some A
     \<and> w_flush 0 A = Some ([0x30, 7, 2, 2, 1, 44, 1, 1, 0xff, 0, 1, 5], [])"
proof -
  obtain s0 u s1 block s2 where run: "CBB_init demo_env 3 = Some s0"
    "run_cmds demo_env demo_cmds s0 = (Some u, s1)"
    "CBB_finish demo_env 0 True True s1 = (Some (block, 12), s2)"
    and b: "take 12 block = [0x30, 7, 2, 2, 1, 44, 1, 1, 0xff, 0, 1, 5]"
    using demo_run by blast
  have "list_all cmd_ok demo_cmds" "(3::nat) < size_mod"
    by (simp_all add: demo_cmds_def size_mod_def)
  from cbb_program_refines [OF this run] show ?thesis unfolding b .
qed

text \<open>C7 No sequence of successful operations breaks the builder: the buffer block has
  the recorded capacity and the data fit in it, the open regions stay nested
  inside the data with their placeholder prefixes, and no call reads through the
  null base of a flushed child.\<close>

theorem cbb_program_invariant:
  assumes "list_all cmd_ok cs" "cbb_inv s" "run_cmds env cs s = (Some u, s')"
  shows "cbb_inv s' \<and> cbb_fault s' = cbb_fault s"
  using implementsD [OF implements_cmds [OF assms(1)] assms(2,3)] by blast

text \<open>A builder that has hit an error accepts nothing more: every operation fails and
  neither the buffer nor the length changes, and the error mark stays.\<close>

theorem cbb_error_sticky:
  assumes "b_error (cbb_base s)"
  shows "fst (run_cmd env c s) = None
    \<and> b_buf (cbb_base (snd (run_cmd env c s))) = b_buf (cbb_base s)
    \<and> b_len (cbb_base (snd (run_cmd env c s))) = b_len (cbb_base s)
    \<and> b_error (cbb_base (snd (run_cmd env c s)))"
proof -
  note F = flush_first_fails [OF CBB_flush_error [OF assms]]
  note bind_fails = gbind_def [where s = s]
  have err: "b_buf (cbb_base (cbb_on_error d s)) = b_buf (cbb_base s)
    \<and> b_len (cbb_base (cbb_on_error d s)) = b_len (cbb_base s) \<and> b_error (cbb_base (cbb_on_error d s))" for d
    using assms by (simp add: cbb_on_error_def)
  show ?thesis
    using assms err
    by (cases c) (simp_all add: F CBB_flush_error bind_fails or_error_def CBB_add_u8_def CBB_add_u16_def
      CBB_add_u24_def CBB_add_u32_def CBB_add_u64_def CBB_add_u16le_def CBB_add_u32le_def CBB_add_u64le_def
      CBB_add_u8_length_prefixed_def CBB_add_u16_length_prefixed_def CBB_add_u24_length_prefixed_def
      CBB_add_asn1_uint64_def CBB_add_asn1_uint64_with_tag_def CBB_add_asn1_int64_def
      CBB_add_asn1_int64_with_tag_def CBB_add_asn1_octet_string_def CBB_add_asn1_bool_def Let_def)
qed

lemma cbb_error_sticky_witness:
  "fst (run_cmd demo_env (Do_u8 0 7) ((CBB_init_fixed [0])\<lparr>cbb_base := (cbb_base (CBB_init_fixed [0]))\<lparr>b_error := True\<rparr>\<rparr>)) = None"
  using cbb_error_sticky [of "(CBB_init_fixed [0])\<lparr>cbb_base := (cbb_base (CBB_init_fixed [0]))\<lparr>b_error := True\<rparr>\<rparr>" demo_env "Do_u8 0 7"]
  by simp

text \<open>A write that fails on a live handle leaves the builder locked, whatever the
  cause: an open child whose length does not fit its prefix, no room in a fixed
  buffer, or no memory.\<close>

lemma cbb_failure_locks:
  assumes "cbb_inv s" "cbb_alive d s" "CBB_add_bytes env d x s = (None, s')"
  shows "b_error (cbb_base s') \<and> cbb_fault s' = cbb_fault s"
  using CBB_add_bytes_None [OF assms(3,1,2)] by (simp add: locked_def)

lemma demo_state:
  "\<exists>s0 u s1. CBB_init demo_env 3 = Some s0 \<and> run_cmds demo_env demo_cmds s0 = (Some u, s1)"
  using demo_run by blast

lemma cmd_ok_demo: "list_all cmd_ok demo_cmds"
  by (simp add: demo_cmds_def)

theorem cbb_program_invariant_witness:
  "\<exists>s0 s1. CBB_init demo_env 3 = Some s0 \<and> cbb_inv s1 \<and> cbb_fault s1 = cbb_fault s0"
proof -
  obtain s0 u s1 where run: "CBB_init demo_env 3 = Some s0" "run_cmds demo_env demo_cmds s0 = (Some u, s1)"
    using demo_state by blast
  have "cbb_inv s0" using CBB_init_props [OF run(1)] by (simp add: size_mod_def)
  from cbb_program_invariant [OF cmd_ok_demo this run(2)] run(1) show ?thesis by blast
qed

lemma fixed_inv: "length m < size_mod \<Longrightarrow> cbb_inv (CBB_init_fixed m)"
  by (simp add: CBB_init_fixed_def cbb_init_def cbb_inv_def base_inv_def)

lemma cbb_failure_locks_demo:
  "b_error (cbb_base (snd (CBB_add_bytes demo_env 0 [1, 2] (CBB_init_fixed [0]))))"
proof -
  have inv: "cbb_inv (CBB_init_fixed [0])" by (rule fixed_inv) (simp add: size_mod_def)
  have alive: "cbb_alive 0 (CBB_init_fixed [0])" by (simp add: cbb_alive_def)
  have "CBB_add_bytes demo_env 0 [1, 2] (CBB_init_fixed [0])
      = (None, snd (CBB_add_bytes demo_env 0 [1, 2] (CBB_init_fixed [0])))"
    by (simp add: cbb_eval cong: gbind_weak_cong let_weak_cong)
  from cbb_failure_locks [OF inv alive this] show ?thesis by simp
qed

text \<open>C9 While no error has occurred, \<open>CBB_add_bytes\<close> on the innermost handle succeeds if the
  buffer already has the space, or if it may grow, the allocator grants every request, and the new
  length and the old capacity are below \<open>2 ^ 62\<close>. It then appends exactly the bytes to the region of
  the handle and keeps the builder well formed, with no error and no other region changed.\<close>

theorem cbb_write_succeeds:
  assumes "cbb_inv s" "\<not> b_error (cbb_base s)" "d = length (cbb_frames s)"
    and "b_len (cbb_base s) + length x \<le> b_cap (cbb_base s)
      \<or> b_can_resize (cbb_base s) \<and> (\<forall>n. libc_malloc env n)
        \<and> b_len (cbb_base s) + length x < 2 ^ 62 \<and> b_cap (cbb_base s) < 2 ^ 62"
  shows "\<exists>s'. CBB_add_bytes env d x s = (Some (), s') \<and> cbb_abs s' = app_last x (cbb_abs s)
    \<and> b_len (cbb_base s') = b_len (cbb_base s) + length x \<and> cbb_inv s' \<and> \<not> b_error (cbb_base s')"
  using innermost_write [OF assms] by blast

theorem cbb_write_succeeds_witness:
  "\<exists>s'. CBB_add_bytes demo_env 0 [1, 2] (CBB_init_fixed [0, 0]) = (Some (), s')
    \<and> cbb_abs s' = ([1, 2], [])"
proof -
  have "cbb_inv (CBB_init_fixed [0, 0])" by (rule fixed_inv) (simp add: size_mod_def)
  from cbb_write_succeeds [OF this, of 0 "[1, 2]" demo_env]
  show ?thesis
    by (auto simp: CBB_init_fixed_def cbb_init_def cbb_abs_def regions_def b_data_def)
qed

lemma spec_cmds_fun:
  "spec_cmds [] = Some" "spec_cmds (c # cs) = (\<lambda>A. Option.bind (spec_cmd c A) (spec_cmds cs))"
  by (rule ext, simp)+

text \<open>C6 A DER element written with \<open>CBB_add_asn1\<close>, its body and a flush is read back by
  \<open>CBS_get_any_asn1\<close>: the same body and tag, with nothing left over.\<close>

theorem cbb_cbs_der_roundtrip:
  assumes "valid_tag tag" "length body < size_mod" "n < size_mod"
    and "CBB_init env n = Some s0"
    and "run_cmds env [Do_asn1 0 tag, Do_bytes 1 body, Do_flush 0] s0 = (Some u, s1)"
    and "CBB_finish env 0 True True s1 = (Some (block, len), s2)"
  shows "CBS_get_any_asn1 (take len block) = (Some (body, tag), [])"
proof -
  have ok: "list_all cmd_ok [Do_asn1 0 tag, Do_bytes 1 body, Do_flush 0]" using assms(2) by simp
  note I = CBB_init_props [OF assms(4,3)]
  note R = implementsD [OF implements_cmds [OF ok] I(1) assms(5)]
  have "spec_cmds [Do_asn1 0 tag, Do_bytes 1 body, Do_flush 0] ([], [])
      = (if length body \<le> 0xfffffffe then w_add 0 (der (body, tag)) ([], []) else None)"
    using w_der [of 0 tag "([], [])" body]
    unfolding spec_cmds_fun spec_cmd.simps Option.bind_assoc by simp
  with R(2) I(2) have s1: "length body \<le> 0xfffffffe" "cbb_abs s1 = (der (body, tag), [])"
    by (auto split: if_splits)
  from CBB_finish_Some [OF assms(6) R(1)] s1(2) have "take len block = der (body, tag)"
    by (simp add: w_flush_top)
  then show ?thesis using s1(1) assms(1) CBS_get_any_asn1_iff [of "take len block" "(body, tag)" "[]"]
    by (simp add: der_ok_def)
qed

theorem cbb_cbs_der_roundtrip_witness:
  "CBS_get_any_asn1 [4, 3, 7, 8, 9] = (Some ([7, 8, 9], CBS_ASN1_OCTETSTRING), [])"
proof -
  have "\<exists>s0 u s1 block s2. CBB_init demo_env 4 = Some s0
     \<and> run_cmds demo_env [Do_asn1 0 CBS_ASN1_OCTETSTRING, Do_bytes 1 [7, 8, 9], Do_flush 0] s0 = (Some u, s1)
     \<and> CBB_finish demo_env 0 True True s1 = (Some (block, 5), s2) \<and> take 5 block = [4, 3, 7, 8, 9]"
    by (simp add: cbb_eval alloc_eval cong: gbind_weak_cong let_weak_cong)
  then obtain s0 u s1 block s2 where run: "CBB_init demo_env 4 = Some s0"
     "run_cmds demo_env [Do_asn1 0 CBS_ASN1_OCTETSTRING, Do_bytes 1 [7, 8, 9], Do_flush 0] s0 = (Some u, s1)"
     "CBB_finish demo_env 0 True True s1 = (Some (block, 5), s2)" and b: "take 5 block = [4, 3, 7, 8, 9]"
    by blast
  have "length [7, 8, 9 :: u8] < size_mod" "(4::nat) < size_mod" by (simp_all add: size_mod_def)
  from cbb_cbs_der_roundtrip [OF valid_tag_OCTETSTRING this run] show ?thesis unfolding b .
qed

text \<open>Writing an integer with \<open>CBB_add_asn1_int64\<close> and finishing leaves a DER INTEGER
  that \<open>CBS_get_asn1_int64\<close> reads back to the same 64-bit value, negative values
  included, and consumes entirely.\<close>

theorem asn1_int64_roundtrip:
  assumes "n < size_mod" "CBB_init env n = Some s0"
    and "CBB_add_asn1_int64 env 0 v s0 = (Some u, s1)"
    and "CBB_finish env 0 True True s1 = (Some (block, len), s2)"
  shows "CBS_get_asn1_int64 (take len block) = (Some v, [])"
proof -
  note I = CBB_init_props [OF assms(2,1)]
  note R = implementsD [OF implements_asn1_int64_with_tag I(1) assms(3) [unfolded CBB_add_asn1_int64_def]]
  from R(2) I(2) have "cbb_abs s1 = (der (der_int v, CBS_ASN1_INTEGER), [])" by simp
  with CBB_finish_Some [OF assms(4) R(1)] have "take len block = der (der_int v, CBS_ASN1_INTEGER)"
    by (simp add: w_flush_top)
  then show ?thesis using CBS_get_asn1_int64_der_int [of v "[]"] by simp
qed

lemma int64_eval:
  "int64_start_loop bs (numeral n) =
     (if bs ! numeral n = 0xff \<and> (bs ! pred_numeral n) AND 0x80 \<noteq> 0
      then int64_start_loop bs (pred_numeral n) else numeral n)"
  "le_bytes (numeral n) w = of_nat w # le_bytes (pred_numeral n) (w div 256)"
  "add_bytes_down env d bs (numeral n) =
     gbind (CBB_add_u8 env d (bs ! pred_numeral n)) (\<lambda>_. add_bytes_down env d bs (pred_numeral n))"
  by (simp_all only: numeral_eq_Suc int64_start_loop.simps le_bytes.simps add_bytes_down.simps)

theorem asn1_int64_roundtrip_witness:
  "CBS_get_asn1_int64 [2, 2, 0xff, 0x7f] = (Some 0xffffffffffffff7f, [])"
proof -
  have "\<exists>s0 u s1 block s2. CBB_init demo_env 0 = Some s0
     \<and> CBB_add_asn1_int64 demo_env 0 0xffffffffffffff7f s0 = (Some u, s1)
     \<and> CBB_finish demo_env 0 True True s1 = (Some (block, 4), s2) \<and> take 4 block = [2, 2, 0xff, 0x7f]"
    by (simp add: int64_eval cbb_eval alloc_eval cong: gbind_weak_cong let_weak_cong)
  then obtain s0 u s1 block s2 where run: "CBB_init demo_env 0 = Some s0"
     "CBB_add_asn1_int64 demo_env 0 0xffffffffffffff7f s0 = (Some u, s1)"
     "CBB_finish demo_env 0 True True s1 = (Some (block, 4), s2)" and b: "take 4 block = [2, 2, 0xff, 0x7f]"
    by blast
  from asn1_int64_roundtrip [OF _ run] show ?thesis unfolding b by (simp add: size_mod_def)
qed

text \<open>C8 \<open>CBB_flush_asn1_set_of\<close> puts the contents of a region in the order of X.690, section
  11.6. After the open children are flushed into it, the region is a sequence of DER elements
  \<open>els\<close> with nothing in between or after them; the call leaves in their place the same elements,
  with their multiplicities, sorted by the comparison function, and changes nothing else in the
  builder.\<close>

theorem set_of_sorted:
  assumes "cbb_inv s" "CBB_flush_asn1_set_of env d s = (Some u, s')"
  shows "\<exists>A els E ys. w_flush d (cbb_abs s) = Some A
    \<and> get_all CBS_get_any_asn1_element (last_region A) = Some els
    \<and> A = app_last (concat (map el_out els)) E \<and> last_region E = []
    \<and> cbb_abs s' = app_last (concat ys) E \<and> last_region (cbb_abs s') = concat ys
    \<and> mset ys = mset (map el_out els) \<and> sorted_wrt (\<lambda>a b. compare_set_of_element a b \<le> 0) ys \<and> cbb_inv s'"
proof -
  obtain els E where ok: "list_all el_ok els"
    and E: "w_flush d (cbb_abs s) = Some (app_last (concat (map el_out els)) E)"
      "cbb_inv s'" "cbb_abs s' = app_last (concat (sort (map el_out els))) E" "last_region E = []"
    using set_of_props [OF assms(2,1)] by blast
  have "sorted_wrt (\<lambda>a b. compare_set_of_element a b \<le> 0) (sort (map el_out els))"
    unfolding compare_set_of_element_le by (rule sorted_sort)
  moreover have "get_all CBS_get_any_asn1_element (last_region (app_last (concat (map el_out els)) E)) = Some els"
    using elementc.get_all_enc [OF ok] E(4) by (simp add: last_region_app_last)
  ultimately show ?thesis using E
    by (intro exI [of _ "app_last (concat (map el_out els)) E"] exI [of _ els] exI [of _ E]
      exI [of _ "sort (map el_out els)"]) (simp add: last_region_app_last)
qed

text \<open>The order of SET OF never has to compare a string with a longer one that it begins,
  as the comment in the comparison function says: no DER element is a proper prefix
  of another.\<close>

theorem der_elements_prefix_free:
  assumes "CBS_get_any_asn1_element x = (Some a, [])" "CBS_get_any_asn1_element y = (Some b, [])"
  shows "\<not> strict_prefix x y"
  using assms elementc.enc_dec [of x a "[]"] elementc.enc_dec [of y b "[]"]
    elementc.enc_not_strict_prefix [of a b] by simp

theorem der_elements_prefix_free_witness: "\<not> strict_prefix [5, 0] [4, 1, (5 :: u8)]"
proof -
  have "CBS_get_any_asn1_element [5, 0] = (Some (der_el [] 5), [])"
    using any_element_enc [of "[]" 5 "[]"]
    by (simp add: der_ok_def valid_tag_def CBS_ASN1_CONSTRUCTED_def der_def der_header_def
        asn1_tag_bytes_def asn1_length_bytes_def tag_const_defs)
  moreover have "CBS_get_any_asn1_element [4, 1, 5] = (Some (der_el [5] 4), [])"
    using any_element_enc [of "[5]" 4 "[]"]
    by (simp add: der_ok_def valid_tag_def CBS_ASN1_CONSTRUCTED_def der_def der_header_def
        asn1_tag_bytes_def asn1_length_bytes_def tag_const_defs)
  ultimately show ?thesis by (rule der_elements_prefix_free)
qed

text \<open>C4 Object identifiers survive the way through their binary form: when
  \<open>CBB_add_asn1_oid_from_text\<close> accepts a text, the bytes it appends are a valid OBJECT
  IDENTIFIER body; \<open>CBS_asn1_oid_to_text\<close> turns that body into a string whenever memory is
  granted and the text is shorter than \<open>2 ^ 60\<close> bytes; and any string it returns is the text
  itself with its terminator.\<close>

theorem oid_text_roundtrip:
  assumes "cbb_inv s" "CBB_add_asn1_oid_from_text env d text s = (Some u, s')"
  shows "\<exists>body. w_add d body (cbb_abs s) = Some (cbb_abs s') \<and> CBS_is_valid_asn1_oid body
    \<and> (\<forall>env'. (\<forall>n. libc_malloc env' n) \<longrightarrow> length text < 2 ^ 60 \<longrightarrow> CBS_asn1_oid_to_text env' body \<noteq> None)
    \<and> (\<forall>env' t. CBS_asn1_oid_to_text env' body = Some t \<longrightarrow> take (length text + 1) t = text @ [0])"
proof -
  obtain a b as where p: "text = dotted (a # b # as)" "a \<le> 2" "a < 2 \<longrightarrow> b \<le> 39" "b \<le> UINT64_MAX - 80"
    "w_add d (base128 (unat (40 * a + b)) @ oid_tail as) (cbb_abs s) = Some (cbb_abs s')"
    using oid_from_text_props [OF assms(2,1)] by blast
  note arcs = oid_arcs_split [OF p(2-4)]
  have "take (length text + 1) t = text @ [0]"
    if t: "CBS_asn1_oid_to_text env' (base128 (unat (40 * a + b)) @ oid_tail as) = Some t" for env' t
  proof -
    obtain len where "take len t = text @ [0]"
      using oid_to_text_text [OF t] unfolding arcs p(1) by auto
    from take_prefix [OF this] show ?thesis by simp
  qed
  moreover have "CBS_asn1_oid_to_text env' (base128 (unat (40 * a + b)) @ oid_tail as) \<noteq> None"
    if "\<forall>n. libc_malloc env' n" "length text < 2 ^ 60" for env'
    using oid_to_text_succeeds [of env' "40 * a + b" as] that unfolding arcs p(1) by simp
  ultimately show ?thesis using p(5) oid_bytes_valid
    by (intro exI [of _ "base128 (unat (40 * a + b)) @ oid_tail as"]) auto
qed

theorem oid_text_roundtrip_witness:
  "\<exists>s' body t. CBB_add_asn1_oid_from_text demo_env 0 [50, 46, 57, 57, 57] (CBB_init_fixed [0, 0, 0]) = (Some (), s')
    \<and> w_add 0 body (cbb_abs (CBB_init_fixed [0, 0, 0])) = Some (cbb_abs s') \<and> CBS_is_valid_asn1_oid body
    \<and> CBS_asn1_oid_to_text demo_env body = Some t \<and> take 6 t = [50, 46, 57, 57, 57, 0]"
proof -
  have parse: "parse_dotted_decimal [50, 46, 57, 57, 57] = (Some 2, [57, 57, 57])"
    "parse_dotted_decimal [57, 57, 57] = (Some 999, [])"
    by (simp_all add: parse_dotted_decimal_iff dec_digits.simps)
  have len: "base128_len 1079 = 2"
    by (simp add: base128_len.simps [of 1079] base128_len.simps [of 8] base128_len.simps [of 0])
  have loop: "base128_write_loop env d v 2 = gbind (CBB_add_u8 env d ((ucast (drop_bit 7 v) AND 0x7f) OR 0x80))
      (\<lambda>_. gbind (CBB_add_u8 env d (ucast v AND 0x7f)) (\<lambda>_. gret ()))" for env d v
    by (simp add: numeral_eq_Suc)
  have "\<exists>s'. CBB_add_asn1_oid_from_text demo_env 0 [50, 46, 57, 57, 57] (CBB_init_fixed [0, 0, 0]) = (Some (), s')"
    by (simp add: CBB_add_asn1_oid_from_text_def parse UINT64_MAX_def len loop oid_text_loop.simps
      cbb_eval cong: gbind_weak_cong let_weak_cong)
  then obtain s' where run: "CBB_add_asn1_oid_from_text demo_env 0 [50, 46, 57, 57, 57] (CBB_init_fixed [0, 0, 0]) = (Some (), s')"
    by blast
  have "cbb_inv (CBB_init_fixed [0, 0, 0])" by (rule fixed_inv) (simp add: size_mod_def)
  from oid_text_roundtrip [OF this run] obtain body
    where b: "w_add 0 body (cbb_abs (CBB_init_fixed [0, 0, 0])) = Some (cbb_abs s')" "CBS_is_valid_asn1_oid body"
      and grant: "\<forall>env'. (\<forall>n. libc_malloc env' n) \<longrightarrow> length [50, 46, 57, 57, 57 :: u8] < 2 ^ 60
        \<longrightarrow> CBS_asn1_oid_to_text env' body \<noteq> None"
      and str: "\<forall>env' t. CBS_asn1_oid_to_text env' body = Some t
        \<longrightarrow> take (length [50, 46, 57, 57, 57 :: u8] + 1) t = [50, 46, 57, 57, 57] @ [0]"
    by blast
  have "CBS_asn1_oid_to_text demo_env body \<noteq> None" using grant by (simp add: demo_env_def)
  then obtain t where t: "CBS_asn1_oid_to_text demo_env body = Some t" by blast
  with str have "take 6 t = [50, 46, 57, 57, 57, 0]" by (fastforce simp: eval_nat_numeral)
  with run b t show ?thesis by blast
qed

theorem set_of_sorted_witness:
  "\<exists>s s'. CBB_add_bytes demo_env 0 [5, 0, 4, 1, 5] (CBB_init_fixed [0, 0, 0, 0, 0]) = (Some (), s)
    \<and> CBB_flush_asn1_set_of demo_env 0 s = (Some (), s') \<and> last_region (cbb_abs s') = [4, 1, 5, 5, 0]"
proof -
  let ?s = "snd (CBB_add_bytes demo_env 0 [5, 0, 4, 1, 5] (CBB_init_fixed [0, 0, 0, 0, 0]))"
  have run: "CBB_add_bytes demo_env 0 [5, 0, 4, 1, 5] (CBB_init_fixed [0, 0, 0, 0, 0]) = (Some (), ?s)"
    by (simp add: cbb_eval cong: gbind_weak_cong let_weak_cong)
  have small: "length [5, 0, 4, 1, 5 :: u8] < size_mod" by (simp add: size_mod_def)
  have "cbb_inv (CBB_init_fixed [0, 0, 0, 0, 0])" by (rule fixed_inv) (simp add: size_mod_def)
  from implementsD(1) [OF implements_CBB_add_bytes [OF small] this run] have inv: "cbb_inv ?s" .
  have outs: "el_out (der_el [] 5) = [5, 0]" "el_out (der_el [5] 4) = [4, 1, 5]"
    by (simp_all add: der_def der_header_def asn1_tag_bytes_def asn1_length_bytes_def tag_const_defs)
  have "el_ok (der_el [] 5)" "el_ok (der_el [5] 4)"
    unfolding el_ok_def
    by (rule exI [of _ "[]"], rule exI [of _ 5],
        simp add: der_ok_def valid_tag_def CBS_ASN1_CONSTRUCTED_def)
      (rule exI [of _ "[5]"], rule exI [of _ 4],
        simp add: der_ok_def valid_tag_def CBS_ASN1_CONSTRUCTED_def)
  then have "list_all el_ok [der_el [] 5, der_el [5] 4]" by simp
  from elementc.get_all_enc [OF this]
  have get: "get_all CBS_get_any_asn1_element [5, 0, 4, 1, 5] = Some [der_el [] 5, der_el [5] 4]"
    by (simp add: outs del: el_out_der_el)
  have "\<exists>s'. CBB_flush_asn1_set_of demo_env 0 ?s = (Some (), s')"
    by (simp add: CBB_flush_asn1_set_of_def get OPENSSL_memdup_def OPENSSL_calloc_def OPENSSL_zalloc_def
        sizeof_CBS_def alloc_eval cbb_eval cong: gbind_weak_cong let_weak_cong)
  then obtain s' where flush: "CBB_flush_asn1_set_of demo_env 0 ?s = (Some (), s')" by blast
  have start: "cbb_abs (CBB_init_fixed [0, 0, 0, 0, 0]) = ([], [])"
    by (simp add: CBB_init_fixed_def cbb_init_def cbb_abs_def regions_def b_data_def)
  have "cbb_abs ?s = ([5, 0, 4, 1, 5], [])"
    using implementsD(2) [OF implements_CBB_add_bytes [OF small] \<open>cbb_inv (CBB_init_fixed [0, 0, 0, 0, 0])\<close> run]
    unfolding start w_add_top by simp
  then have "w_flush 0 (cbb_abs ?s) = Some ([5, 0, 4, 1, 5], [])" by (simp add: w_flush_top)
  with set_of_sorted [OF inv flush] get obtain ys where ys: "last_region (cbb_abs s') = concat ys"
    "mset ys = mset [[5, 0], [4, 1, 5]]" "sorted_wrt (\<lambda>a b. compare_set_of_element a b \<le> 0) ys"
    by (auto simp: last_region_def outs simp del: el_out_der_el)
  have "ys = sort [[5, 0], [4, 1, 5]]"
    using ys(2,3) unfolding compare_set_of_element_le by (metis properties_for_sort)
  then have "last_region (cbb_abs s') = [4, 1, 5, 5, 0]" using ys(1) by simp
  with run flush show ?thesis by blast
qed

text \<open>\<open>CBB_finish_i2d\<close> never reports more bytes than an \<open>int\<close> can hold, and when it
  copies into a caller's buffer it writes exactly the finished bytes at its start,
  leaves the rest alone and advances the pointer by the number it returns.\<close>

theorem finish_i2d_copies:
  assumes "cbb_inv s" "CBB_finish_i2d env (Some (Some dst)) s = (n, out, adv)" "0 \<le> n"
  shows "\<exists>bs. w_flush 0 (cbb_abs s) = Some (bs, []) \<and> n = int (length bs) \<and> length bs \<le> INT_MAX
    \<and> adv = length bs \<and> out = Some (Some (bs @ drop (length bs) dst))"
proof -
  obtain r s1 where f: "CBB_finish env 0 True True s = (r, s1)" by fastforce
  with assms(2,3) obtain blk len where r: "r = Some (blk, len)"
    by (cases r) (auto simp: CBB_finish_i2d_def)
  note F = CBB_finish_Some [OF f [unfolded r] assms(1)]
  from assms(2,3) f r have "len \<le> INT_MAX \<and> n = int len \<and> adv = len
      \<and> out = Some (Some (put_bytes 0 (take len blk) dst))"
    by (auto simp: CBB_finish_i2d_def split: if_splits)
  with F show ?thesis by (intro exI [of _ "take len blk"]) (simp add: put_bytes_def)
qed

theorem finish_i2d_copies_witness:
  "\<exists>bs. w_flush 0 (cbb_abs (snd (CBB_add_u8 demo_env 0 7 (CBB_init_fixed [0])))) = Some (bs, [])
    \<and> (1::int) = int (length bs)"
proof -
  let ?s = "snd (CBB_add_u8 demo_env 0 7 (CBB_init_fixed [0]))"
  have run: "CBB_add_u8 demo_env 0 7 (CBB_init_fixed [0]) = (Some (), ?s)"
    by (simp add: cbb_eval cong: gbind_weak_cong let_weak_cong)
  have "cbb_inv (CBB_init_fixed [0])" by (rule fixed_inv) (simp add: size_mod_def)
  from implementsD(1) [OF implements_CBB_add_u8 this run] have inv: "cbb_inv ?s" .
  have "CBB_finish_i2d demo_env (Some (Some [1, 2])) ?s = (1, Some (Some [7, 2]), 1)"
    by (simp add: CBB_finish_i2d_def INT_MAX_def cbb_eval cong: gbind_weak_cong let_weak_cong)
  from finish_i2d_copies [OF inv this] show ?thesis by auto
qed

text \<open>C10 Flushing a handle makes every handle below it a dead child, whose \<open>base\<close> is null. A
  plain write to it fails cleanly, but the typed ASN.1 writers mark the error of the failed call
  through the handle they were given and so store through the null pointer. A child that an error
  has dropped keeps its \<open>base\<close>: the same calls on it fail and nothing faults.\<close>

theorem cbb_dead_child_fault:
  assumes "cbb_inv s" "CBB_flush env d s = (Some u, s')" "d < e" "e \<le> length (cbb_frames s)"
  shows "CBB_add_asn1 env e tag s' = (None, s') \<and> CBB_add_bytes env e x s' = (None, s')
    \<and> CBB_add_asn1_uint64 env e v s' = (None, s'\<lparr>cbb_fault := True\<rparr>)
    \<and> CBB_add_asn1_octet_string env e x s' = (None, s'\<lparr>cbb_fault := True\<rparr>)
    \<and> CBB_add_asn1_bool env e b s' = (None, s'\<lparr>cbb_fault := True\<rparr>)
    \<and> fst (CBB_add_asn1_uint64 env e v (cbb_on_error d s)) = None
    \<and> cbb_fault (snd (CBB_add_asn1_uint64 env e v (cbb_on_error d s))) = cbb_fault s"
proof -
  have dead: "\<not> cbb_alive e s'"
    using CBB_flush_Some [OF assms(2,1)] assms(3) by (simp add: cbb_alive_def)
  have "cbb_alive d s" "cbb_alive e s" using assms(3,4) by (simp_all add: cbb_alive_def)
  then have error: "b_error (cbb_base (cbb_on_error d s))" and fault: "cbb_fault (cbb_on_error d s) = cbb_fault s"
    and kept: "cbb_alive e (cbb_on_error d s)"
    by (simp_all add: cbb_on_error_def cbb_alive_def)
  note D = flush_first_fails [OF CBB_flush_dead [OF dead]]
  note E = flush_first_fails [OF CBB_flush_error [OF error]]
  have k: "cbb_on_error e t = t\<lparr>cbb_base := (cbb_base t)\<lparr>b_error := True\<rparr>, cbb_cut := insert e (cbb_cut t)\<rparr>"
    if "cbb_alive e t" for t using that by (simp add: cbb_on_error_def)
  show ?thesis
    using dead fault kept
    by (simp add: D E k CBB_add_asn1_uint64_def CBB_add_asn1_uint64_with_tag_def CBB_add_asn1_octet_string_def
      CBB_add_asn1_bool_def gbind_def [where s = s'] gbind_def [where s = "cbb_on_error d s"] or_error_def
      cbb_on_error_def [of e s'])
qed

theorem cbb_dead_child_fault_witness:
  "\<exists>s s'. CBB_add_u8_length_prefixed demo_env 0 (CBB_init_fixed [0, 0]) = (Some (), s)
    \<and> CBB_flush demo_env 0 s = (Some (), s')
    \<and> CBB_add_asn1_uint64 demo_env 1 5 s' = (None, s'\<lparr>cbb_fault := True\<rparr>)
    \<and> cbb_fault (snd (CBB_add_asn1_uint64 demo_env 1 5 (cbb_on_error 0 s))) = cbb_fault s"
proof -
  have "\<exists>s s'. CBB_add_u8_length_prefixed demo_env 0 (CBB_init_fixed [0, 0]) = (Some (), s)
    \<and> CBB_flush demo_env 0 s = (Some (), s') \<and> length (cbb_frames s) = 1"
    by (simp add: cbb_eval cong: gbind_weak_cong let_weak_cong)
  then obtain s s' where run: "CBB_add_u8_length_prefixed demo_env 0 (CBB_init_fixed [0, 0]) = (Some (), s)"
    "CBB_flush demo_env 0 s = (Some (), s')" and f: "1 \<le> length (cbb_frames s)"
    by auto
  have "cbb_inv (CBB_init_fixed [0, 0])" by (rule fixed_inv) (simp add: size_mod_def)
  from implementsD(1) [OF implements_length_prefixed this run(1) [unfolded CBB_add_u8_length_prefixed_def]]
  have inv: "cbb_inv s" by (simp add: size_mod_def)
  from cbb_dead_child_fault [OF inv run(2) zero_less_one f, of 0 "[]" 5 0] run show ?thesis by blast
qed

section \<open>Properties of the readers\<close>

text \<open>C5 \<open>CBS_get_any_asn1\<close> accepts exactly DER: it yields body and tag, leaving \<open>r\<close>, if and
  only if the input is the minimal DER encoding of that body under that tag followed
  by \<open>r\<close>, with a tag that has an encoding and a body shorter than \<open>2 ^ 32\<close>.\<close>

theorem CBS_get_any_asn1_canonical:
  "CBS_get_any_asn1 s = (Some (body, tag), r) \<longleftrightarrow>
     valid_tag tag \<and> length body < 2 ^ 32 \<and> s = der_header tag (length body) @ body @ r"
  by (simp add: CBS_get_any_asn1_iff der_ok_def der_def)

text \<open>Accepting BER never changes how DER is read: the BER reader returns an element
  without its BER mark if and only if the DER reader returns that element, and both
  leave the input alone when they fail.\<close>

theorem ber_reader_extends_der:
  "(CBS_get_any_ber_asn1_element s = (Some el, r) \<and> \<not> el_ber_found el \<longleftrightarrow>
      CBS_get_any_asn1_element s = (Some el, r))
   \<and> (fst (CBS_get_any_asn1_element s) = None \<longleftrightarrow> CBS_get_any_asn1_element s = (None, s))
   \<and> (fst (CBS_get_any_ber_asn1_element s) = None \<longleftrightarrow> CBS_get_any_ber_asn1_element s = (None, s))"
proof -
  have "fst (cbs_get_any_asn1_element b s) = None \<longleftrightarrow> cbs_get_any_asn1_element b s = (None, s)" for b
    using cbs_get_any_asn1_element_fail [of b s] by (cases "cbs_get_any_asn1_element b s") auto
  then show ?thesis
    using ber_der_agree [of s el r]
    by (simp add: CBS_get_any_asn1_element_def CBS_get_any_ber_asn1_element_def)
qed

text \<open>\<open>CBS_get_asn1_uint64\<close> accepts exactly the minimal DER INTEGER of each unsigned
  64-bit value: no value has two encodings, and none that overflows is accepted.\<close>

theorem asn1_uint64_canonical:
  "CBS_get_asn1_uint64 s = (Some v, r) \<longleftrightarrow> s = der (der_uint (unat v), CBS_ASN1_INTEGER) @ r"
  by (rule CBS_get_asn1_uint64_iff)

text \<open>\<open>CBS_is_valid_asn1_oid\<close> accepts exactly the non-empty sequences of minimally encoded
  base-128 integers, of any size.\<close>

theorem asn1_oid_valid_iff:
  "CBS_is_valid_asn1_oid s \<longleftrightarrow> (\<exists>ns. ns \<noteq> [] \<and> s = concat (map base128 ns))"
  by (rule CBS_is_valid_asn1_oid_iff)

text \<open>\<open>CBS_get_u64_decimal\<close> reads exactly the shortest decimal form of a 64-bit number and
  stops at the first character that is no digit: leading zeros, an empty number and a
  value of \<open>2 ^ 64\<close> or more are refused.\<close>

theorem u64_decimal_canonical:
  "CBS_get_u64_decimal s = (Some v, r) \<longleftrightarrow>
     s = dec_digits (unat v) @ r \<and> \<not> (r \<noteq> [] \<and> OPENSSL_isdigit (uint (hd r)))"
  unfolding OPENSSL_isdigit_byte CBS_get_u64_decimal_iff by blast

text \<open>A list of length-prefixed strings is read back unchanged and in one way only: reading
  16-bit length-prefixed strings to the end succeeds with \<open>xs\<close> if and only if the input is
  the concatenation of their encodings.\<close>

theorem length_prefixed_list_iff:
  "get_all CBS_get_u16_length_prefixed s = Some xs \<longleftrightarrow>
     list_all (\<lambda>x. length x < 65536) xs \<and> s = concat (map (\<lambda>x. be_bytes 2 (length x) @ x) xs)"
  using u16lp.get_all_iff [of s xs] by (simp add: length_prefixed_def [abs_def])

end
