(* ===== verification/Unicode_Conv.thy ===== *)
theory Unicode_Conv
  imports CBB
begin

text \<open>
  \<open>crypto/bytestring/unicode.c\<close>: reading and writing Unicode code points in UTF-8,
  Latin-1, UCS-2 and UTF-32. Each encoding is a canonical codec on the code
  points it can represent.
\<close>

section \<open>Code points\<close>

definition is_valid_code_point :: "u32 \<Rightarrow> bool" where
  "is_valid_code_point v \<longleftrightarrow>
     (if v > 0x10ffff \<or> v AND 0xfffe = 0xfffe \<or> (v \<ge> 0xfdd0 \<and> v \<le> 0xfdef)
        \<or> (v \<ge> 0xd800 \<and> v \<le> 0xdfff)
      then False else True)"

definition BOTTOM_BITS :: "nat \<Rightarrow> u8" where
  "BOTTOM_BITS n = ucast (push_bit n 1 - 1 :: u32)"

definition TOP_BITS :: "nat \<Rightarrow> u8" where
  "TOP_BITS n = NOT (BOTTOM_BITS (8 - n))"

lemma bits_consts:
  "BOTTOM_BITS 3 = 0x07" "BOTTOM_BITS 4 = 0x0f" "BOTTOM_BITS 5 = 0x1f" "BOTTOM_BITS 6 = 0x3f"
  "TOP_BITS 1 = 0x80" "TOP_BITS (Suc 0) = 0x80" "TOP_BITS 2 = 0xc0" "TOP_BITS 3 = 0xe0"
  "TOP_BITS 4 = 0xf0" "TOP_BITS 5 = 0xf8"
  by (simp_all add: BOTTOM_BITS_def TOP_BITS_def)

section \<open>Readers\<close>

text \<open>The loop over the continuation bytes.\<close>

fun utf8_loop :: "nat \<Rightarrow> u32 \<Rightarrow> u32 getter" where
  "utf8_loop 0 v = gret v"
| "utf8_loop (Suc n) v = gbind CBS_get_u8 (\<lambda>c.
     gbind (gassert (c AND TOP_BITS 2 = TOP_BITS 1))
       (\<lambda>_. utf8_loop n (push_bit 6 v OR ucast (c AND BOTTOM_BITS 6))))"

definition CBS_get_utf8 :: "u32 getter" where
  "CBS_get_utf8 = gbind CBS_get_u8 (\<lambda>c.
     if c \<le> 0x7f then gret (ucast c)
     else
       let tail = (\<lambda>v len lower_bound. gbind (utf8_loop len v) (\<lambda>v.
         gbind (gassert (\<not> (\<not> is_valid_code_point v \<or> v < lower_bound))) (\<lambda>_. gret v))) in
       if c AND TOP_BITS 3 = TOP_BITS 2 then tail (ucast (c AND BOTTOM_BITS 5)) 1 0x80
       else if c AND TOP_BITS 4 = TOP_BITS 3 then tail (ucast (c AND BOTTOM_BITS 4)) 2 0x800
       else if c AND TOP_BITS 5 = TOP_BITS 4 then tail (ucast (c AND BOTTOM_BITS 3)) 3 0x10000
       else gfail)"

definition CBS_get_latin1 :: "u32 getter" where
  "CBS_get_latin1 = gbind CBS_get_u8 (\<lambda>c. gret (ucast c))"

definition CBS_get_ucs2_be :: "u32 getter" where
  "CBS_get_ucs2_be = gbind CBS_get_u16 (\<lambda>c.
     gbind (gassert (is_valid_code_point (ucast c))) (\<lambda>_. gret (ucast c)))"

definition CBS_get_utf32_be :: "u32 getter" where
  "CBS_get_utf32_be = gbind CBS_get_u32 (\<lambda>out.
     gbind (gassert (is_valid_code_point out)) (\<lambda>_. gret out))"

section \<open>Writers\<close>

definition CBB_get_utf8_len :: "u32 \<Rightarrow> nat" where
  "CBB_get_utf8_len u = (if u \<le> 0x7f then 1 else if u \<le> 0x7ff then 2 else if u \<le> 0xffff then 3 else 4)"

definition CBB_add_utf8 :: "heap_env \<Rightarrow> handle \<Rightarrow> u32 \<Rightarrow> unit cbb_op" where
  "CBB_add_utf8 env d u =
     (if \<not> is_valid_code_point u then gfail
      else if u \<le> 0x7f then CBB_add_u8 env d (ucast u)
      else if u \<le> 0x7ff then
        gbind (CBB_add_u8 env d (TOP_BITS 2 OR ucast (drop_bit 6 u)))
          (\<lambda>_. CBB_add_u8 env d (TOP_BITS 1 OR (ucast u AND BOTTOM_BITS 6)))
      else if u \<le> 0xffff then
        gbind (CBB_add_u8 env d (TOP_BITS 3 OR ucast (drop_bit 12 u)))
          (\<lambda>_. gbind (CBB_add_u8 env d (TOP_BITS 1 OR (ucast (drop_bit 6 u) AND BOTTOM_BITS 6)))
          (\<lambda>_. CBB_add_u8 env d (TOP_BITS 1 OR (ucast u AND BOTTOM_BITS 6))))
      else if u \<le> 0x10ffff then
        gbind (CBB_add_u8 env d (TOP_BITS 4 OR ucast (drop_bit 18 u)))
          (\<lambda>_. gbind (CBB_add_u8 env d (TOP_BITS 1 OR (ucast (drop_bit 12 u) AND BOTTOM_BITS 6)))
          (\<lambda>_. gbind (CBB_add_u8 env d (TOP_BITS 1 OR (ucast (drop_bit 6 u) AND BOTTOM_BITS 6)))
          (\<lambda>_. CBB_add_u8 env d (TOP_BITS 1 OR (ucast u AND BOTTOM_BITS 6)))))
      else gfail)"

definition CBB_add_latin1 :: "heap_env \<Rightarrow> handle \<Rightarrow> u32 \<Rightarrow> unit cbb_op" where
  "CBB_add_latin1 env d u = (if u \<le> 0xff then CBB_add_u8 env d (ucast u) else gfail)"

definition CBB_add_ucs2_be :: "heap_env \<Rightarrow> handle \<Rightarrow> u32 \<Rightarrow> unit cbb_op" where
  "CBB_add_ucs2_be env d u =
     (if u \<le> 0xffff \<and> is_valid_code_point u then CBB_add_u16 env d (ucast u) else gfail)"

definition CBB_add_utf32_be :: "heap_env \<Rightarrow> handle \<Rightarrow> u32 \<Rightarrow> unit cbb_op" where
  "CBB_add_utf32_be env d u = (if is_valid_code_point u then CBB_add_u32 env d u else gfail)"

section \<open>UTF-8\<close>

text \<open>The encoding of a code point.\<close>

definition utf8 :: "u32 \<Rightarrow> bytes" where
  "utf8 u =
     (if u \<le> 0x7f then [ucast u]
      else if u \<le> 0x7ff then [0xc0 OR ucast (drop_bit 6 u), 0x80 OR (ucast u AND 0x3f)]
      else if u \<le> 0xffff then [0xe0 OR ucast (drop_bit 12 u), 0x80 OR (ucast (drop_bit 6 u) AND 0x3f),
        0x80 OR (ucast u AND 0x3f)]
      else [0xf0 OR ucast (drop_bit 18 u), 0x80 OR (ucast (drop_bit 12 u) AND 0x3f),
        0x80 OR (ucast (drop_bit 6 u) AND 0x3f), 0x80 OR (ucast u AND 0x3f)])"

lemma and_mask_id: "unat (u :: u32) < 2 ^ n \<Longrightarrow> u AND mask n = u"
  using unat_and_mask [of u n] by (simp add: word_unat_eq_iff)

lemma below_mask:
  "u \<le> 0x7f \<Longrightarrow> u = u AND 0x7f" "u \<le> 0x7ff \<Longrightarrow> u = u AND 0x7ff" "u \<le> 0xffff \<Longrightarrow> u = u AND 0xffff"
  "u \<le> 0x10ffff \<Longrightarrow> u = u AND 0x1fffff" for u :: u32
  using and_mask_id [of u 7] and_mask_id [of u 11] and_mask_id [of u 16] and_mask_id [of u 21]
  by (simp_all add: mask_eq_exp_minus_1 word_le_nat_alt)

lemma continuation: "((0x80 OR (x AND 0x3f)) AND 0xc0 = (0x80 :: u8))"
  "((0x80 OR (x AND 0x3f)) AND 0x3f = (x AND 0x3f :: u8))" for x :: u8
  by (rule bits_eqI; simp add: bit_simps upt_rec; simp add: numeral_eq_Suc)+

definition join :: "u32 \<Rightarrow> u8 \<Rightarrow> u32" where
  "join v x = push_bit 6 v OR ucast (x AND 0x3f)"

lemma join2: "join (ucast ((0xc0 OR ucast (drop_bit 6 (u AND 0x7ff))) AND 0x1f :: u8)) (ucast (u AND 0x7ff)) = u AND 0x7ff"
  for u :: u32
  unfolding join_def by (rule bits_eqI) (simp add: bit_simps upt_rec; simp add: numeral_eq_Suc)

lemma join3: "join (join (ucast ((0xe0 OR ucast (drop_bit 12 (u AND 0xffff))) AND 0x0f :: u8))
    (ucast (drop_bit 6 (u AND 0xffff)))) (ucast (u AND 0xffff)) = u AND 0xffff" for u :: u32
  unfolding join_def by (rule bits_eqI) (simp add: bit_simps upt_rec; simp add: numeral_eq_Suc)

lemma join4: "join (join (join (ucast ((0xf0 OR ucast (drop_bit 18 (u AND 0x1fffff))) AND 0x07 :: u8))
    (ucast (drop_bit 12 (u AND 0x1fffff)))) (ucast (drop_bit 6 (u AND 0x1fffff)))) (ucast (u AND 0x1fffff))
    = u AND 0x1fffff" for u :: u32
  unfolding join_def by (rule bits_eqI) (simp add: bit_simps upt_rec; simp add: numeral_eq_Suc)

lemma lead2: "(0xc0 OR ucast (drop_bit 6 (u AND 0x7ff))) AND 0xe0 = (0xc0 :: u8)" for u :: u32
  by (rule bits_eqI) (simp add: bit_simps upt_rec; simp add: numeral_eq_Suc)

lemma lead3: "(0xe0 OR ucast (drop_bit 12 (u AND 0xffff))) AND 0xf0 = (0xe0 :: u8)"
    "(0xe0 OR ucast (drop_bit 12 (u AND 0xffff))) AND 0xe0 = (0xe0 :: u8)" for u :: u32
  by (rule bits_eqI; simp add: bit_simps upt_rec; simp add: numeral_eq_Suc)+

lemma lead4: "(0xf0 OR ucast (drop_bit 18 (u AND 0x1fffff))) AND 0xf8 = (0xf0 :: u8)"
    "(0xf0 OR ucast (drop_bit 18 (u AND 0x1fffff))) AND 0xf0 = (0xf0 :: u8)"
    "(0xf0 OR ucast (drop_bit 18 (u AND 0x1fffff))) AND 0xe0 = (0xe0 :: u8)" for u :: u32
  by (rule bits_eqI; simp add: bit_simps upt_rec; simp add: numeral_eq_Suc)+

lemma high_byte_and: "b AND 0x80 = 0x80 \<Longrightarrow> \<not> b \<le> 0x7f" for b :: u8
  using u8_top_bit [of b] by (auto simp: word_le_nat_alt)

lemma lead_not_ascii:
  "\<not> 0xc0 OR x \<le> (0x7f :: u8)" "\<not> 0xe0 OR x \<le> (0x7f :: u8)" "\<not> 0xf0 OR x \<le> (0x7f :: u8)"
  by (rule high_byte_and, rule bits_eqI, simp add: bit_simps upt_rec)+

lemma utf8_loop_cont:
  "utf8_loop (Suc n) v ((0x80 OR (x AND 0x3f)) # s) = utf8_loop n (join v x) s"
  by (simp add: gbind_def gassert_def bits_consts continuation join_def)

declare utf8_loop.simps(2) [simp del]

lemma utf8_loop_run:
  "utf8_loop 1 v ((0x80 OR (x AND 0x3f)) # s) = (Some (join v x), s)"
  "utf8_loop 2 v ((0x80 OR (x AND 0x3f)) # (0x80 OR (y AND 0x3f)) # s) = (Some (join (join v x) y), s)"
  "utf8_loop 3 v ((0x80 OR (x AND 0x3f)) # (0x80 OR (y AND 0x3f)) # (0x80 OR (z AND 0x3f)) # s)
     = (Some (join (join (join v x) y) z), s)"
  by (simp_all add: numeral_eq_Suc utf8_loop_cont gret_def del: push_bit_numeral)

lemma utf8_dec_enc:
  assumes "is_valid_code_point u"
  shows "CBS_get_utf8 (utf8 u @ r) = (Some u, r)"
proof -
  consider "u \<le> 0x7f" | "\<not> u \<le> 0x7f" "u \<le> 0x7ff" | "\<not> u \<le> 0x7ff" "u \<le> 0xffff" | "\<not> u \<le> 0xffff" by blast
  then show ?thesis
  proof cases
    case 1
    then have "unat u \<le> 127" by (simp add: word_le_nat_alt)
    then have "unat (ucast u :: u8) = unat u" by (simp add: unsigned_ucast_eq take_bit_nat_eq_self)
    with 1 show ?thesis
      by (simp add: CBS_get_utf8_def utf8_def word_le_nat_alt word_unat_eq_iff gret_def)
  next
    case 2
    obtain w where w: "u = w AND 0x7ff" using below_mask(2) [OF 2(2)] by blast
    have "utf8 u = [0xc0 OR ucast (drop_bit 6 u), 0x80 OR (ucast u AND 0x3f)]"
      using 2 by (simp add: utf8_def)
    moreover have "\<not> u < 0x80" using 2(1) by (simp add: word_le_nat_alt word_less_nat_alt)
    ultimately show ?thesis using assms
      by (simp add: CBS_get_utf8_def gbind_def gassert_def gret_def bits_consts lead_not_ascii
          utf8_loop_run [simplified] lead2 [of w, folded w] join2 [of w, folded w])
  next
    case 3
    obtain w where w: "u = w AND 0xffff" using below_mask(3) [OF 3(2)] by blast
    have "\<not> u \<le> 0x7f" using 3(1) by (auto simp: word_le_nat_alt)
    then have "utf8 u = [0xe0 OR ucast (drop_bit 12 u), 0x80 OR (ucast (drop_bit 6 u) AND 0x3f),
        0x80 OR (ucast u AND 0x3f)]"
      using 3 by (simp add: utf8_def)
    moreover have "\<not> u < 0x800" using 3(1) by (simp add: word_le_nat_alt word_less_nat_alt)
    ultimately show ?thesis using assms
      by (simp add: CBS_get_utf8_def gbind_def gassert_def gret_def bits_consts lead_not_ascii
          utf8_loop_run lead3 [of w, folded w] join3 [of w, folded w])
  next
    case 4
    have "u \<le> 0x10ffff" using assms by (auto simp: is_valid_code_point_def not_less split: if_splits)
    then obtain w where w: "u = w AND 0x1fffff" using below_mask(4) by blast
    have "\<not> u \<le> 0x7f" "\<not> u \<le> 0x7ff" using 4 by (auto simp: word_le_nat_alt)
    then have "utf8 u = [0xf0 OR ucast (drop_bit 18 u), 0x80 OR (ucast (drop_bit 12 u) AND 0x3f),
        0x80 OR (ucast (drop_bit 6 u) AND 0x3f), 0x80 OR (ucast u AND 0x3f)]"
      using 4 by (simp add: utf8_def)
    moreover have "\<not> u < 0x10000" using 4 by (simp add: word_le_nat_alt word_less_nat_alt)
    ultimately show ?thesis using assms
      by (simp add: CBS_get_utf8_def gbind_def gassert_def gret_def bits_consts lead_not_ascii
          utf8_loop_run lead4 [of w, folded w] join4 [of w, folded w])
  qed
qed

text \<open>Nothing else is accepted.\<close>

lemma byte_lead: "c AND m = k \<Longrightarrow> (c AND m) OR (c AND NOT m) = c" for c :: u8
  by (rule bit_eqI) (auto simp: bit_simps)

lemma utf8_loop_join:
  "utf8_loop (Suc n) v s = (Some w, r) \<longleftrightarrow>
     (\<exists>x s'. s = (0x80 OR (x AND 0x3f)) # s' \<and> utf8_loop n (join v x) s' = (Some w, r))"
proof
  assume "utf8_loop (Suc n) v s = (Some w, r)"
  then obtain c s' where c: "s = c # s'" "c AND 0xc0 = 0x80"
    and l: "utf8_loop n (join v c) s' = (Some w, r)"
    by (auto simp: utf8_loop.simps gbind_eq_Some_iff CBS_get_u8_eq bits_consts join_def)
  have "(c AND 0xc0) OR (c AND 0x3f) = c"
    by (rule bits_eqI) (simp add: bit_simps upt_rec)
  with c have "c = 0x80 OR (c AND 0x3f)" by simp
  with c(1) l show "\<exists>x s'. s = (0x80 OR (x AND 0x3f)) # s' \<and> utf8_loop n (join v x) s' = (Some w, r)"
    by blast
qed (auto simp: utf8_loop_cont)

lemma below_and: "u = u AND 0x7ff \<Longrightarrow> u \<le> 0x7ff" "u = u AND 0xffff \<Longrightarrow> u \<le> 0xffff" for u :: u32
  by (metis word_and_le1)+

lemma split2:
  fixes c x :: u8 defines "v \<equiv> join (ucast (c AND 0x1f)) x"
  shows "ucast (drop_bit 6 v) = c AND 0x1f" "ucast v AND 0x3f = x AND 0x3f" "v = v AND 0x7ff"
  unfolding v_def join_def by (rule bits_eqI; simp add: bit_simps upt_rec; simp add: numeral_eq_Suc)+

lemma split3:
  fixes c x y :: u8 defines "v \<equiv> join (join (ucast (c AND 0x0f)) x) y"
  shows "ucast (drop_bit 12 v) = c AND 0x0f" "ucast (drop_bit 6 v) AND 0x3f = x AND 0x3f"
    "ucast v AND 0x3f = y AND 0x3f" "v = v AND 0xffff"
  unfolding v_def join_def by (rule bits_eqI; simp add: bit_simps upt_rec; simp add: numeral_eq_Suc)+

lemma split4:
  fixes c x y z :: u8 defines "v \<equiv> join (join (join (ucast (c AND 0x07)) x) y) z"
  shows "ucast (drop_bit 18 v) = c AND 0x07" "ucast (drop_bit 12 v) AND 0x3f = x AND 0x3f"
    "ucast (drop_bit 6 v) AND 0x3f = y AND 0x3f" "ucast v AND 0x3f = z AND 0x3f"
  unfolding v_def join_def by (rule bits_eqI; simp add: bit_simps upt_rec; simp add: numeral_eq_Suc)+

lemma lead_eq: "c AND 0xe0 = 0xc0 \<Longrightarrow> c = 0xc0 OR (c AND 0x1f)" "c AND 0xf0 = 0xe0 \<Longrightarrow> c = 0xe0 OR (c AND 0x0f)"
  "c AND 0xf8 = 0xf0 \<Longrightarrow> c = 0xf0 OR (c AND 0x07)" for c :: u8
proof -
  have "(c AND 0xe0) OR (c AND 0x1f) = c" "(c AND 0xf0) OR (c AND 0x0f) = c" "(c AND 0xf8) OR (c AND 0x07) = c"
    by (rule bits_eqI; simp add: bit_simps upt_rec)+
  then show "c AND 0xe0 = 0xc0 \<Longrightarrow> c = 0xc0 OR (c AND 0x1f)" "c AND 0xf0 = 0xe0 \<Longrightarrow> c = 0xe0 OR (c AND 0x0f)"
    "c AND 0xf8 = 0xf0 \<Longrightarrow> c = 0xf0 OR (c AND 0x07)"
    by metis+
qed

lemma utf8_loop_0: "utf8_loop 0 v s = (Some w, r) \<longleftrightarrow> w = v \<and> s = r"
  by auto

lemma u8_u32_u8: "(ucast (ucast c :: u32) :: u8) = c" for c :: u8
  by (simp add: word_unat_eq_iff unsigned_ucast_eq take_bit_word_eq_self)

lemma ascii_valid: "c \<le> 0x7f \<Longrightarrow> is_valid_code_point (ucast (c :: u8)) \<and> utf8 (ucast c) = [c]"
proof -
  assume c: "c \<le> 0x7f"
  then have u: "unat (ucast c :: u32) \<le> 127" by (simp add: word_le_nat_alt)
  have "(ucast c :: u32) AND 0xfffe \<le> ucast c" by (rule word_and_le2)
  with u have "(ucast c :: u32) AND 0xfffe \<noteq> 0xfffe" by (auto simp: word_le_nat_alt)
  with u have "is_valid_code_point (ucast c)"
    by (simp add: is_valid_code_point_def word_le_nat_alt word_less_nat_alt)
  moreover have "(ucast (ucast c :: u32) :: u8) = c"
    by (simp add: word_unat_eq_iff unsigned_ucast_eq take_bit_word_eq_self)
  ultimately show ?thesis using u by (simp add: utf8_def word_le_nat_alt)
qed

lemma utf8_sound:
  assumes "CBS_get_utf8 s = (Some v, r)"
  shows "is_valid_code_point v \<and> s = utf8 v @ r"
proof -
  from assms obtain c s' where s: "s = c # s'" by (auto simp: CBS_get_utf8_def gbind_eq_Some_iff CBS_get_u8_eq)
  let ?tail = "\<lambda>v0 n lb. utf8_loop n v0 s' = (Some v, r) \<and> is_valid_code_point v \<and> \<not> v < lb"
  from assms consider (ascii) "c \<le> 0x7f" "v = ucast c" "r = s'"
    | (two) "c AND 0xe0 = 0xc0" "?tail (ucast (c AND 0x1f)) 1 0x80"
    | (three) "c AND 0xf0 = 0xe0" "?tail (ucast (c AND 0x0f)) 2 0x800"
    | (four) "c AND 0xf8 = 0xf0" "?tail (ucast (c AND 0x07)) 3 0x10000"
    by (auto simp: CBS_get_utf8_def s bits_consts Let_def gbind_eq_Some_iff simp del: One_nat_def
        split: if_splits)
  then show ?thesis
  proof cases
    case ascii
    with ascii_valid [of c] show ?thesis by (simp add: s)
  next
    case two
    then obtain x where x: "s' = (0x80 OR (x AND 0x3f)) # r" "v = join (ucast (c AND 0x1f)) x"
      by (auto simp: utf8_loop_join utf8_loop_0)
    note sp = split2 [of c x, folded x(2)]
    have "v \<le> 0x7ff" "\<not> v \<le> 0x7f"
      using below_and(1) [OF sp(3)] two(2) by (auto simp: word_le_nat_alt word_less_nat_alt)
    with sp(1,2) lead_eq(1) [OF two(1)] two(2) show ?thesis by (simp add: s x(1) utf8_def)
  next
    case three
    then obtain x y where x: "s' = (0x80 OR (x AND 0x3f)) # (0x80 OR (y AND 0x3f)) # r"
      "v = join (join (ucast (c AND 0x0f)) x) y"
      by (auto simp: utf8_loop_join utf8_loop_0 numeral_2_eq_2)
    note sp = split3 [of c x y, folded x(2)]
    have "v \<le> 0xffff" "\<not> v \<le> 0x7ff" "\<not> v \<le> 0x7f"
      using below_and(2) [OF sp(4)] three(2) by (auto simp: word_le_nat_alt word_less_nat_alt)
    with sp(1-3) lead_eq(2) [OF three(1)] three(2) show ?thesis by (simp add: s x(1) utf8_def)
  next
    case four
    then obtain x y z where x: "s' = (0x80 OR (x AND 0x3f)) # (0x80 OR (y AND 0x3f)) # (0x80 OR (z AND 0x3f)) # r"
      "v = join (join (join (ucast (c AND 0x07)) x) y) z"
      by (auto simp: utf8_loop_join utf8_loop_0 numeral_3_eq_3)
    note sp = split4 [of c x y z, folded x(2)]
    have "\<not> v \<le> 0xffff" "\<not> v \<le> 0x7ff" "\<not> v \<le> 0x7f"
      using four(2) by (auto simp: word_le_nat_alt word_less_nat_alt)
    with sp lead_eq(3) [OF four(1)] four(2) show ?thesis by (simp add: s x(1) utf8_def)
  qed
qed

lemma utf8_nonempty: "utf8 u \<noteq> []"
  by (simp add: utf8_def)

interpretation utf8c: canonical_codec utf8 CBS_get_utf8 is_valid_code_point
  by unfold_locales (simp_all add: utf8_dec_enc utf8_sound utf8_nonempty)

section \<open>The other encodings\<close>

interpretation latin1c: canonical_codec "\<lambda>u. [ucast u]" CBS_get_latin1 "\<lambda>u. u \<le> 0xff"
proof unfold_locales
  fix u :: u32 and rest
  assume "u \<le> 0xff"
  then have "unat u \<le> 255" by (simp add: word_le_nat_alt)
  then have "unat (ucast u :: u8) = unat u"
    by (simp add: unsigned_ucast_eq take_bit_nat_eq_self)
  then have "(ucast (ucast u :: u8) :: u32) = u"
    using unsigned_less [of u, where ?'a = nat]
    by (simp add: word_unat_eq_iff unsigned_ucast_eq [of "ucast u :: u8"] take_bit_word_eq_self
        take_bit_nat_eq_self)
  then show "CBS_get_latin1 ([ucast u] @ rest) = (Some u, rest)"
    by (simp add: CBS_get_latin1_def gret_def)
next
  fix s u rest
  assume "CBS_get_latin1 s = (Some u, rest)"
  then obtain c where c: "s = c # rest" "u = ucast c"
    by (auto simp: CBS_get_latin1_def gbind_eq_Some_iff CBS_get_u8_eq)
  have "unat c \<le> 255" using u8_less [of c] by linarith
  then show "u \<le> 0xff \<and> s = [ucast u] @ rest"
    using c u8_u32_u8 [of c] by (simp add: word_le_nat_alt)
qed simp

definition ucs2_ok :: "u32 \<Rightarrow> bool" where
  "ucs2_ok u \<longleftrightarrow> u \<le> 0xffff \<and> is_valid_code_point u"

lemma u32_u16: "u \<le> 0xffff \<Longrightarrow> unat (ucast u :: u16) = unat u" for u :: u32
  by (simp add: word_le_nat_alt unsigned_ucast_eq take_bit_nat_eq_self)

interpretation ucs2c: canonical_codec "\<lambda>u. be_bytes 2 (unat u)" CBS_get_ucs2_be ucs2_ok
proof unfold_locales
  fix u rest
  assume u: "ucs2_ok u"
  then have "CBS_get_u16 (be_bytes 2 (unat u) @ rest) = (Some (ucast u), rest)"
    by (simp add: CBS_get_u16_iff u32_u16 ucs2_ok_def)
  moreover have "(ucast (ucast u :: u16) :: u32) = u"
    using u by (simp add: word_unat_eq_iff u32_u16 ucs2_ok_def)
  ultimately show "CBS_get_ucs2_be (be_bytes 2 (unat u) @ rest) = (Some u, rest)"
    using u by (simp add: CBS_get_ucs2_be_def gbind_def gassert_def gret_def ucs2_ok_def)
next
  fix s u rest
  assume "CBS_get_ucs2_be s = (Some u, rest)"
  then obtain c :: u16 where c: "CBS_get_u16 s = (Some c, rest)" "u = ucast c" "is_valid_code_point u"
    by (auto simp: CBS_get_ucs2_be_def gbind_eq_Some_iff)
  have "unat c \<le> 65535" using unat_bounds(2) [of c] by linarith
  with c show "ucs2_ok u \<and> s = be_bytes 2 (unat u) @ rest"
    by (simp add: ucs2_ok_def CBS_get_u16_iff word_le_nat_alt)
qed (simp add: be_bytes_nonempty)

interpretation utf32c: canonical_codec "\<lambda>u. be_bytes 4 (unat u)" CBS_get_utf32_be is_valid_code_point
  by unfold_locales (auto simp: CBS_get_utf32_be_def gbind_eq_Some_iff CBS_get_u32_iff be_bytes_nonempty)

section \<open>Writing\<close>

lemma implements_gfail: "implements gfail g"
  by (rule implementsI) simp

lemma implements_bytes2:
  "implements (gbind (CBB_add_u8 env d a) (\<lambda>_. CBB_add_u8 env d b)) (w_add d [a, b])"
  by (rule implements_cong [OF implements_gbind [OF implements_CBB_add_u8 implements_CBB_add_u8]]) simp

lemma implements_bytes3:
  "implements (gbind (CBB_add_u8 env d a) (\<lambda>_. gbind (CBB_add_u8 env d b) (\<lambda>_. CBB_add_u8 env d c)))
    (w_add d [a, b, c])"
  by (rule implements_cong [OF implements_gbind [OF implements_CBB_add_u8 implements_bytes2]]) simp

lemma implements_bytes4:
  "implements (gbind (CBB_add_u8 env d a) (\<lambda>_. gbind (CBB_add_u8 env d b) (\<lambda>_.
     gbind (CBB_add_u8 env d c) (\<lambda>_. CBB_add_u8 env d e)))) (w_add d [a, b, c, e])"
  by (rule implements_cong [OF implements_gbind [OF implements_CBB_add_u8 implements_bytes3]]) simp

lemma implements_CBB_add_utf8:
  "implements (CBB_add_utf8 env d u) (\<lambda>A. if is_valid_code_point u then w_add d (utf8 u) A else None)"
  unfolding CBB_add_utf8_def utf8_def bits_consts
  by (auto simp: implements_gfail is_valid_code_point_def
      intro: implements_CBB_add_u8 implements_bytes2 implements_bytes3 implements_bytes4)

lemma implements_CBB_add_latin1:
  "implements (CBB_add_latin1 env d u) (\<lambda>A. if u \<le> 0xff then w_add d [ucast u] A else None)"
  by (simp add: CBB_add_latin1_def implements_gfail implements_CBB_add_u8)

lemma implements_CBB_add_ucs2_be:
  "implements (CBB_add_ucs2_be env d u) (\<lambda>A. if ucs2_ok u then w_add d (be_bytes 2 (unat u)) A else None)"
  using implements_CBB_add_u16 [of env d "ucast u"] u32_u16 [of u]
  by (auto simp: CBB_add_ucs2_be_def implements_gfail ucs2_ok_def)

lemma implements_CBB_add_utf32_be:
  "implements (CBB_add_utf32_be env d u)
     (\<lambda>A. if is_valid_code_point u then w_add d (be_bytes 4 (unat u)) A else None)"
  by (simp add: CBB_add_utf32_be_def implements_gfail implements_CBB_add_u32)

section \<open>Properties\<close>

text \<open>C11 UTF-8 is read strictly: \<open>CBS_get_utf8\<close> yields a code point exactly when the input
  begins with the shortest encoding of a valid code point; overlong forms, surrogates,
  noncharacters, stray continuation bytes and values above 0x10ffff are refused.\<close>

theorem utf8_canonical:
  "CBS_get_utf8 s = (Some u, r) \<longleftrightarrow> is_valid_code_point u \<and> s = utf8 u @ r"
  by (rule utf8c.dec_iff)

text \<open>What \<open>CBB_add_utf8\<close> appends is a single encoding that \<open>CBS_get_utf8\<close> reads back, of the
  length that \<open>CBB_get_utf8_len\<close> announces; it refuses invalid code points.\<close>

theorem utf8_written_read:
  assumes "cbb_inv s" "CBB_add_utf8 env d u s = (Some x, s')"
  shows "\<exists>bs. w_add d bs (cbb_abs s) = Some (cbb_abs s') \<and> length bs = CBB_get_utf8_len u
    \<and> CBS_get_utf8 bs = (Some u, []) \<and> is_valid_code_point u"
proof -
  from implementsD(2) [OF implements_CBB_add_utf8 assms]
  have u: "is_valid_code_point u" "w_add d (utf8 u) (cbb_abs s) = Some (cbb_abs s')"
    by (auto split: if_splits)
  moreover have "length (utf8 u) = CBB_get_utf8_len u"
    by (simp add: utf8_def CBB_get_utf8_len_def)
  ultimately show ?thesis using utf8_dec_enc [of u "[]"] by auto
qed

lemma utf8_written_read_witness:
  "\<exists>s' bs. w_add 0 bs (cbb_abs (CBB_init_fixed [0])) = Some (cbb_abs s') \<and> CBS_get_utf8 bs = (Some 0x41, [])"
proof -
  have inv: "cbb_inv (CBB_init_fixed [0])"
    by (simp add: CBB_init_fixed_def cbb_init_def cbb_inv_def base_inv_def size_mod_def)
  have "\<exists>x s'. CBB_add_utf8 \<lparr>libc_malloc = \<lambda>_. True, garbage = \<lambda>_. 0\<rparr> 0 0x41 (CBB_init_fixed [0]) = (Some x, s')"
    by (simp add: CBB_add_utf8_def is_valid_code_point_def CBB_add_u8_def cbb_add_u_def CBB_add_space_def
        CBB_flush_def cbb_alive_def CBB_init_fixed_def cbb_init_def on_base_def cbb_buffer_add_def
        cbb_buffer_reserve_def gbind_def size_add_def size_mod_def Let_def)
  then obtain x s' where "CBB_add_utf8 \<lparr>libc_malloc = \<lambda>_. True, garbage = \<lambda>_. 0\<rparr> 0 0x41 (CBB_init_fixed [0]) = (Some x, s')"
    by blast
  from utf8_written_read [OF inv this] show ?thesis by blast
qed

end
