(* ===== verification/BER.thy ===== *)
theory BER
  imports CBB_Props
begin

text \<open>
  \<open>crypto/bytestring/ber.c\<close>: conversion of BER to DER. \<open>cbs_find_ber\<close> looks for
  elements that only BER allows, \<open>cbs_convert_ber\<close> rewrites them through a
  builder, and \<open>CBS_get_asn1_implicit_string\<close> joins the fragments of an
  implicitly tagged string. The conversion is shown to implement the relation
  \<open>der_of\<close>, a grammar of BER contents with the DER they stand for.
\<close>

section \<open>String types\<close>

definition kMaxDepth :: nat where
  "kMaxDepth = 128"

definition CBS_ASN1_UTF8STRING :: asn1_tag where "CBS_ASN1_UTF8STRING = 0xc"
definition CBS_ASN1_NUMERICSTRING :: asn1_tag where "CBS_ASN1_NUMERICSTRING = 0x12"
definition CBS_ASN1_PRINTABLESTRING :: asn1_tag where "CBS_ASN1_PRINTABLESTRING = 0x13"
definition CBS_ASN1_T61STRING :: asn1_tag where "CBS_ASN1_T61STRING = 0x14"
definition CBS_ASN1_VIDEOTEXSTRING :: asn1_tag where "CBS_ASN1_VIDEOTEXSTRING = 0x15"
definition CBS_ASN1_IA5STRING :: asn1_tag where "CBS_ASN1_IA5STRING = 0x16"
definition CBS_ASN1_GRAPHICSTRING :: asn1_tag where "CBS_ASN1_GRAPHICSTRING = 0x19"
definition CBS_ASN1_VISIBLESTRING :: asn1_tag where "CBS_ASN1_VISIBLESTRING = 0x1a"
definition CBS_ASN1_GENERALSTRING :: asn1_tag where "CBS_ASN1_GENERALSTRING = 0x1b"
definition CBS_ASN1_UNIVERSALSTRING :: asn1_tag where "CBS_ASN1_UNIVERSALSTRING = 0x1c"
definition CBS_ASN1_BMPSTRING :: asn1_tag where "CBS_ASN1_BMPSTRING = 0x1e"

definition is_string_type :: "asn1_tag \<Rightarrow> bool" where
  "is_string_type tag \<longleftrightarrow> tag AND NOT CBS_ASN1_CONSTRUCTED \<in>
     set [CBS_ASN1_OCTETSTRING, CBS_ASN1_UTF8STRING, CBS_ASN1_NUMERICSTRING, CBS_ASN1_PRINTABLESTRING,
       CBS_ASN1_T61STRING, CBS_ASN1_VIDEOTEXSTRING, CBS_ASN1_IA5STRING, CBS_ASN1_GRAPHICSTRING,
       CBS_ASN1_VISIBLESTRING, CBS_ASN1_GENERALSTRING, CBS_ASN1_UNIVERSALSTRING, CBS_ASN1_BMPSTRING]"

lemmas string_tag_defs = CBS_ASN1_OCTETSTRING_def CBS_ASN1_UTF8STRING_def CBS_ASN1_NUMERICSTRING_def
  CBS_ASN1_PRINTABLESTRING_def CBS_ASN1_T61STRING_def CBS_ASN1_VIDEOTEXSTRING_def CBS_ASN1_IA5STRING_def
  CBS_ASN1_GRAPHICSTRING_def CBS_ASN1_VISIBLESTRING_def CBS_ASN1_GENERALSTRING_def
  CBS_ASN1_UNIVERSALSTRING_def CBS_ASN1_BMPSTRING_def

section \<open>Reading one BER element\<close>

text \<open>An element is a header and its contents; the reader consumes both.\<close>

lemma parse_asn1_tag_shape:
  "parse_asn1_tag s = (Some tag, h) \<Longrightarrow> valid_tag tag \<and> s = asn1_tag_bytes tag @ h"
  by (simp add: tagc.dec_iff)

lemma take_shape:
  assumes "cbs_take_element s tag hl n ber indef = (Some el, r)" "s = hdr @ t" "hl = length hdr" "hl \<le> n"
  shows "\<exists>body. s = hdr @ body @ r \<and> el_out el = hdr @ body \<and> el_header_len el = length hdr
    \<and> el_tag el = tag \<and> el_ber_found el = ber \<and> el_indefinite el = indef \<and> length body = n - hl"
proof -
  from assms(1) obtain out where out: "length out = n" "s = out @ r" "el_out el = out"
    "el_header_len el = hl" "el_tag el = tag" "el_ber_found el = ber" "el_indefinite el = indef"
    by (auto simp: cbs_take_element_eq)
  from append_take_body [of out hdr "n - hl" t r] out(1,2) assms(2-4) obtain body
    where "length body = n - hl" "out = hdr @ body" "t = body @ r" by auto
  with out assms show ?thesis by auto
qed

lemma ber_element_shape:
  assumes "cbs_get_any_asn1_element ber_ok s = (Some el, r)"
  shows "\<exists>hdr body. hdr \<noteq> [] \<and> s = hdr @ body @ r \<and> el_out el = hdr @ body
    \<and> el_header_len el = length hdr \<and> valid_tag (el_tag el) \<and> length body < 2 ^ 32
    \<and> prefix (asn1_tag_bytes (el_tag el)) s
    \<and> (el_indefinite el \<longrightarrow> body = [] \<and> el_tag el AND CBS_ASN1_CONSTRUCTED \<noteq> 0 \<and> el_ber_found el)"
proof -
  from assms obtain tag h where p: "parse_asn1_tag s = (Some tag, h)"
    by (auto simp: cbs_get_any_asn1_element_def split: prod.splits option.splits)
  note T = parse_asn1_tag_shape [OF p]
  with assms p obtain lb h' where h: "h = lb # h'"
    by (cases h) (auto simp: cbs_get_any_asn1_element_def)
  let ?tl = "length (asn1_tag_bytes tag)"
  let ?k = "unat (lb AND 0x7f)"
  have hl: "length s - length h' = Suc ?tl" using T by (simp add: h)
  note unfolded = assms [unfolded cbs_get_any_asn1_element_def p h CBS_get_u8_Cons prod.case option.case
      hl Let_def]
  have done_: ?thesis
    if "cbs_take_element s tag hl n ber indef = (Some el, r)" "s = hdr @ t" "hl = length hdr" "hl \<le> n"
      "hdr \<noteq> []" "n < 2 ^ 32 + hl" "indef \<Longrightarrow> n = hl \<and> tag AND CBS_ASN1_CONSTRUCTED \<noteq> 0 \<and> ber"
    for hl n ber indef hdr t
    using take_shape [OF that(1-4)] that(5-7) T by (auto simp: prefix_def intro!: exI)
  have s1: "s = (asn1_tag_bytes tag @ [lb]) @ h'" using T by (simp add: h)
  have lb: "unat lb < 2 ^ 32" by (rule less_trans [OF u8_less]) simp
  consider "lb AND 0x80 = 0" | "lb AND 0x80 \<noteq> 0" "ber_ok \<and> tag AND CBS_ASN1_CONSTRUCTED \<noteq> 0 \<and> ?k = 0"
    | "lb AND 0x80 \<noteq> 0" "\<not> (ber_ok \<and> tag AND CBS_ASN1_CONSTRUCTED \<noteq> 0 \<and> ?k = 0)" by blast
  then show ?thesis
  proof cases
    case 1
    with unfolded have "cbs_take_element s tag (Suc ?tl) (unat lb + Suc ?tl) False False = (Some el, r)"
      by simp
    then show ?thesis by (rule done_ [OF _ s1]) (use lb in auto)
  next
    case 2
    with unfolded have "cbs_take_element s tag (Suc ?tl) (Suc ?tl) True True = (Some el, r)" by simp
    then show ?thesis by (rule done_ [OF _ s1]) (use 2 in auto)
  next
    case 3
    from unfolded 3 obtain v h2 where k: "1 \<le> ?k" "?k \<le> 4" and get: "cbs_get_u ?k h' = (Some v, h2)"
      and take: "cbs_take_element s tag (Suc ?tl + ?k) (size_add (unat v) (Suc ?tl + ?k))
        (v < 128 \<or> drop_bit ((?k - 1) * 8) v = 0) False = (Some el, r)"
      by (auto split: prod.splits option.splits if_splits)
    from get k have v: "unat v < 256 ^ ?k" "h' = be_bytes ?k (unat v) @ h2"
      by (auto simp: cbs_get_u_iff)
    have "(256::nat) ^ ?k \<le> 256 ^ 4" using k by (intro power_increasing) auto
    with v have v32: "unat v < 2 ^ 32" by simp
    then have n: "size_add (unat v) (Suc ?tl + ?k) = unat v + (Suc ?tl + ?k)"
      using length_asn1_tag_bytes [of tag] k by (intro size_add_exact) (simp add: size_mod_def)
    have "s = (asn1_tag_bytes tag @ lb # be_bytes ?k (unat v)) @ h2" using T v by (simp add: h)
    then show ?thesis by (rule done_ [OF take [unfolded n]]) (use v32 in auto)
  qed
qed

lemma ber_element_shorter:
  assumes "CBS_get_any_ber_asn1_element s = (Some el, r)"
  shows "length r < length s" "CBS_skip (el_header_len el) (el_out el) = (u, c) \<Longrightarrow> length c < length s"
  using ber_element_shape [OF assms [unfolded CBS_get_any_ber_asn1_element_def]]
  by (auto simp: CBS_skip_def getter_simps cbs_get_def)

section \<open>Looking for BER\<close>

text \<open>
  \<open>cbs_find_ber\<close>: \<open>None\<close> when it returns 0, else the flag \<open>*ber_found\<close>. The
  test of the depth is repeated before each element of the loop; the depth does
  not change there.
\<close>

function cbs_find_ber :: "cbs \<Rightarrow> nat \<Rightarrow> bool option" where
  "cbs_find_ber orig_in depth =
     (if depth > kMaxDepth then None
      else if orig_in = [] then Some False
      else case CBS_get_any_ber_asn1_element orig_in of
        (None, _) \<Rightarrow> None
      | (Some el, in') \<Rightarrow>
          if el_ber_found el then Some True
          else if el_tag el AND CBS_ASN1_CONSTRUCTED \<noteq> 0 then
            if is_string_type (el_tag el) then Some True
            else (case CBS_skip (el_header_len el) (el_out el) of
                (None, _) \<Rightarrow> None
              | (Some _, contents) \<Rightarrow>
                  (case cbs_find_ber contents (depth + 1) of
                     None \<Rightarrow> None
                   | Some ber_found \<Rightarrow> if ber_found then Some True else cbs_find_ber in' depth))
          else cbs_find_ber in' depth)"
  by pat_completeness auto
termination
  by (relation "measure (\<lambda>(s, d). length s)") 
    (auto dest: ber_element_shorter(1) [OF sym] ber_element_shorter(2) [OF sym sym])

declare cbs_find_ber.simps [simp del]

section \<open>Conversion\<close>

definition cbs_get_eoc :: "unit getter" where
  "cbs_get_eoc cbs =
     (if length cbs \<ge> 2 \<and> cbs ! 0 = 0 \<and> cbs ! 1 = 0 then CBS_skip 2 cbs else (None, cbs))"

text \<open>
  The part of an iteration of \<open>cbs_convert_ber\<close> that chooses where the contents
  of the element go: the handle \<open>out_contents\<close> and the tag \<open>child_string_tag\<close>.
\<close>

definition convert_open :: "heap_env \<Rightarrow> handle \<Rightarrow> asn1_tag \<Rightarrow> asn1_tag \<Rightarrow> (handle \<times> asn1_tag) cbb_op" where
  "convert_open env out string_tag tag =
     (if string_tag \<noteq> 0 then
        gbind (gassert (tag AND NOT CBS_ASN1_CONSTRUCTED = string_tag)) (\<lambda>_. gret (out, string_tag))
      else
        let (out_tag, child_string_tag) =
          (if tag AND CBS_ASN1_CONSTRUCTED \<noteq> 0 \<and> is_string_type tag
           then (tag AND NOT CBS_ASN1_CONSTRUCTED, tag AND NOT CBS_ASN1_CONSTRUCTED)
           else (tag, string_tag)) in
        gbind (CBB_add_asn1 env out out_tag) (\<lambda>_. gret (Suc out, child_string_tag)))"

text \<open>
  The unread input \<open>in\<close> is part of the result, since the recursive call for an
  element of indefinite length continues in the caller's input.
\<close>

function cbs_convert_ber ::
  "heap_env \<Rightarrow> handle \<Rightarrow> asn1_tag \<Rightarrow> bool \<Rightarrow> nat \<Rightarrow> cbs \<Rightarrow> cbb \<Rightarrow> unit option \<times> cbs \<times> cbb" where
  "cbs_convert_ber env out string_tag looking_for_eoc depth inp s =
     (if depth > kMaxDepth then (None, inp, s)
      else if inp = [] then (if looking_for_eoc then None else Some (), inp, s)
      else case if looking_for_eoc then cbs_get_eoc inp else (None, inp) of
        (Some _, inp1) \<Rightarrow> (Some (), inp1, s)
      | (None, _) \<Rightarrow>
      (case CBS_get_any_ber_asn1_element inp of
        (None, inp1) \<Rightarrow> (None, inp1, s)
      | (Some el, inp1) \<Rightarrow>
      (case convert_open env out string_tag (el_tag el) s of
        (None, s1) \<Rightarrow> (None, inp1, s1)
      | (Some (out_contents, child_string_tag), s1) \<Rightarrow>
          if el_indefinite el then
            (case cbs_convert_ber env out_contents child_string_tag True (depth + 1) inp1 s1 of
              (None, inp2, s2) \<Rightarrow> (None, inp2, s2)
            | (Some _, inp2, s2) \<Rightarrow>
                (case CBB_flush env out s2 of
                  (None, s3) \<Rightarrow> (None, inp2, s3)
                | (Some _, s3) \<Rightarrow> cbs_convert_ber env out string_tag looking_for_eoc depth inp2 s3))
          else
            (case CBS_skip (el_header_len el) (el_out el) of
              (None, _) \<Rightarrow> (None, inp1, s1)
            | (Some _, contents) \<Rightarrow>
            (case if el_tag el AND CBS_ASN1_CONSTRUCTED \<noteq> 0
                  then (case cbs_convert_ber env out_contents child_string_tag False (depth + 1) contents s1 of
                    (r, _, s2) \<Rightarrow> (r, s2))
                  else CBB_add_bytes env out_contents contents s1 of
              (None, s2) \<Rightarrow> (None, inp1, s2)
            | (Some _, s2) \<Rightarrow>
                (case CBB_flush env out s2 of
                  (None, s3) \<Rightarrow> (None, inp1, s3)
                | (Some _, s3) \<Rightarrow> cbs_convert_ber env out string_tag looking_for_eoc depth inp1 s3))))))"
  by pat_completeness auto

lemma get_eoc_shape: "cbs_get_eoc s = (Some u, r) \<longleftrightarrow> s = 0 # 0 # r"
  by (cases s; cases "tl s") (auto simp: cbs_get_eoc_def CBS_skip_eq)

text \<open>The conversion never moves backwards, so its loop ends.\<close>

lemma convert_ber_advances:
  assumes "cbs_convert_ber_dom (env, out, st, eoc, depth, inp, s)"
  shows "length (fst (snd (cbs_convert_ber env out st eoc depth inp s))) \<le> length inp"
  using assms
proof (induction rule: cbs_convert_ber.pinduct)
  case (1 env out st eoc depth inp s)
  note step = cbs_convert_ber.psimps [OF 1(1)]
  show ?case
  proof (cases "depth > kMaxDepth \<or> inp = []")
    case True
    then show ?thesis by (subst step) auto
  next
    case False
    then have c1: "\<not> depth > kMaxDepth" "inp \<noteq> []" by auto
    obtain e inp0 where c2: "(if eoc then cbs_get_eoc inp else (None, inp)) = (e, inp0)" by fastforce
    obtain el inp1 where c3: "CBS_get_any_ber_asn1_element inp = (el, inp1)" by fastforce
    show ?thesis
    proof (cases "e = None \<and> el \<noteq> None")
      case False
      have "e \<noteq> None \<Longrightarrow> length inp0 \<le> length inp" "el = None \<Longrightarrow> inp1 = inp"
        using c2 c3 get_eoc_shape [of inp "()" inp0] cbs_get_any_asn1_element_fail [of True inp inp1]
        by (auto split: if_splits simp: CBS_get_any_ber_asn1_element_def)
      with False c1 c2 c3 show ?thesis by (subst step) (auto split: option.splits)
    next
      case True
      then obtain el' where el: "e = None" "el = Some el'" by auto
      note c2' = c2 [unfolded el, symmetric] and c3' = c3 [unfolded el, symmetric]
      have len1: "length inp1 < length inp" using ber_element_shorter(1) [OF c3' [symmetric]] .
      obtain oc s1 where c4: "convert_open env out st (el_tag el') s = (oc, s1)" by fastforce
      show ?thesis
      proof (cases oc)
        case None
        with len1 show ?thesis by (subst step) (simp add: c1 c2' [symmetric] c3' [symmetric] c4)
      next
        case (Some p)
        obtain out_c child where p: "p = (out_c, child)" by fastforce
        note c4' = c4 [unfolded Some p, symmetric]
        note known = c1 c2' [symmetric] c3' [symmetric] c4' [symmetric]
        show ?thesis
        proof (cases "el_indefinite el'")
          case ind: True
          obtain r2 inp2 s2 where c5: "cbs_convert_ber env out_c child True (depth + 1) inp1 s1 = (r2, inp2, s2)"
            by (metis prod_cases3)
          have len2: "length inp2 \<le> length inp1"
            using 1(2) [OF c1 c2' refl c3' refl c4' refl refl ind] c5 by simp
          obtain f s3 where c6: "CBB_flush env out s2 = (f, s3)" by fastforce
          have "length (fst (snd (cbs_convert_ber env out st eoc depth inp2 s3))) \<le> length inp2"
            if "r2 = Some ()" "f = Some ()"
            using 1(3) [OF c1 c2' refl c3' refl c4' refl refl ind c5 [unfolded that, symmetric] refl refl
                c6 [unfolded that, symmetric] refl] .
          with len1 len2 ind show ?thesis
            by (subst step) (auto simp: known c5 c6 simp del: One_nat_def split: option.split)
        next
          case ind: False
          obtain k contents where c5: "CBS_skip (el_header_len el') (el_out el') = (k, contents)" by fastforce
          obtain b s2 where c6: "(if el_tag el' AND CBS_ASN1_CONSTRUCTED \<noteq> 0
              then (case cbs_convert_ber env out_c child False (depth + 1) contents s1 of (r, _, s2) \<Rightarrow> (r, s2))
              else CBB_add_bytes env out_c contents s1) = (b, s2)" by fastforce
          obtain f s3 where c7: "CBB_flush env out s2 = (f, s3)" by fastforce
          have "length (fst (snd (cbs_convert_ber env out st eoc depth inp1 s3))) \<le> length inp1"
            if "k = Some ()" "b = Some ()" "f = Some ()"
            using 1(5) [OF c1 c2' refl c3' refl c4' refl refl ind c5 [unfolded that, symmetric] refl
                c6 [unfolded that, symmetric] refl c7 [unfolded that, symmetric] refl] .
          with len1 ind show ?thesis
            by (subst step, simp add: known c5 c6 c7 del: One_nat_def split: option.split split del: if_split, meson le_less_trans less_or_eq_imp_le order.trans less_imp_le)
        qed
      qed
    qed
  qed
qed

lemma convert_ber_result:
  "cbs_convert_ber_dom (env, out, st, eoc, depth, inp, s) \<Longrightarrow>
    (r, inp', s') = cbs_convert_ber env out st eoc depth inp s \<Longrightarrow> length inp' \<le> length inp"
  using convert_ber_advances [of env out st eoc depth inp s]
  by (cases "cbs_convert_ber env out st eoc depth inp s") simp

termination cbs_convert_ber
proof (relation "measure (\<lambda>(env, out, st, eoc, depth, inp, s). length inp)", goal_cases)
  case (3 env out st eoc depth inp s e inp0 el inp1 el' oc s1 p out_c child r2 q u inp2 s2)
  then have "length inp1 < length inp" by (auto dest: ber_element_shorter(1) [OF sym])
  moreover from 3 have "length inp2 \<le> length inp1" by (auto dest: convert_ber_result)
  ultimately show ?case by simp
qed (auto dest: ber_element_shorter(1) [OF sym] ber_element_shorter(2) [OF sym sym])

declare cbs_convert_ber.simps [simp del]

text \<open>
  \<open>CBS_asn1_ber_to_der\<close>: the view \<open>out\<close> and the block \<open>*out_storage\<close>, which is
  \<open>None\<close> when the pointer is set to null.
\<close>

definition CBS_asn1_ber_to_der :: "heap_env \<Rightarrow> (cbs \<times> bytes option) getter" where
  "CBS_asn1_ber_to_der env inp =
     (case cbs_find_ber inp 0 of
       None \<Rightarrow> (None, inp)
     | Some conversion_needed \<Rightarrow>
         if \<not> conversion_needed then
           gbind CBS_get_any_asn1_element (\<lambda>el. gret (el_out el, None)) inp
         else (case CBB_init env (length inp) of
             None \<Rightarrow> (None, inp)
           | Some cbb \<Rightarrow>
               (case cbs_convert_ber env 0 0 False 0 inp cbb of
                 (None, inp', _) \<Rightarrow> (None, inp')
               | (Some _, inp', cbb) \<Rightarrow>
                   (case CBB_finish env 0 True True cbb of
                     (None, _) \<Rightarrow> (None, inp')
                   | (Some (data, len), _) \<Rightarrow> (Some (take len data, Some data), inp')))))"

text \<open>The loop of \<open>CBS_get_asn1_implicit_string\<close> over the fragments.\<close>

lemma get_asn1_shorter: "CBS_get_asn1 tag s = (Some chunk, r) \<Longrightarrow> length r < length s"
  by (auto simp: CBS_get_asn1_iff der_nonempty)

function implicit_string_loop :: "heap_env \<Rightarrow> asn1_tag \<Rightarrow> cbs \<Rightarrow> unit cbb_op" where
  "implicit_string_loop env inner_tag child result =
     (if child = [] then (Some (), result)
      else case CBS_get_asn1 inner_tag child of
        (None, _) \<Rightarrow> (None, result)
      | (Some chunk, child') \<Rightarrow>
          (case CBB_add_bytes env 0 chunk result of
            (None, result') \<Rightarrow> (None, result')
          | (Some _, result') \<Rightarrow> implicit_string_loop env inner_tag child' result'))"
  by pat_completeness auto
termination
  by (relation "measure (\<lambda>(env, tag, child, result). length child)")
    (auto dest: get_asn1_shorter [OF sym])

declare implicit_string_loop.simps [simp del]

definition CBS_get_asn1_implicit_string ::
  "heap_env \<Rightarrow> asn1_tag \<Rightarrow> asn1_tag \<Rightarrow> (cbs \<times> bytes option) getter" where
  "CBS_get_asn1_implicit_string env outer_tag inner_tag inp =
     (if CBS_peek_asn1_tag inp outer_tag
      then gbind (CBS_get_asn1 outer_tag) (\<lambda>out. gret (out, None)) inp
      else case CBB_init env (length inp) of
        None \<Rightarrow> (None, inp)
      | Some result \<Rightarrow>
          (case CBS_get_asn1 (outer_tag OR CBS_ASN1_CONSTRUCTED) inp of
            (None, inp') \<Rightarrow> (None, inp')
          | (Some child, inp') \<Rightarrow>
              (case implicit_string_loop env inner_tag child result of
                (None, _) \<Rightarrow> (None, inp')
              | (Some _, result) \<Rightarrow>
                  (case CBB_finish env 0 True True result of
                    (None, _) \<Rightarrow> (None, inp')
                  | (Some (data, len), _) \<Rightarrow> (Some (take len data, Some data), inp')))))"

section \<open>The grammar of BER contents\<close>

text \<open>
  \<open>der_of depth st eoc s o r\<close>: a run of elements at the front of \<open>s\<close>, up to its
  end, or up to and including an end-of-contents marker when \<open>eoc\<close>, stands for
  the DER bytes \<open>o\<close> and leaves \<open>r\<close>. Inside a constructed string of type \<open>st\<close> the
  elements are fragments and only their contents count.
\<close>

definition joins :: "asn1_tag \<Rightarrow> bool" where
  "joins tag \<longleftrightarrow> tag AND CBS_ASN1_CONSTRUCTED \<noteq> 0 \<and> is_string_type tag"

definition child_tag :: "asn1_tag \<Rightarrow> asn1_tag \<Rightarrow> asn1_tag" where
  "child_tag st tag = (if st = 0 \<and> joins tag then tag AND NOT CBS_ASN1_CONSTRUCTED else st)"

definition wrap_der :: "asn1_tag \<Rightarrow> asn1_tag \<Rightarrow> bytes \<Rightarrow> bytes" where
  "wrap_der st tag body =
     (if st \<noteq> 0 then body
      else der (body, if joins tag then tag AND NOT CBS_ASN1_CONSTRUCTED else tag))"

definition fits :: "asn1_tag \<Rightarrow> asn1_tag \<Rightarrow> bytes \<Rightarrow> bool" where
  "fits st tag body \<longleftrightarrow> (if st \<noteq> 0 then tag AND NOT CBS_ASN1_CONSTRUCTED = st
     else length body \<le> 0xfffffffe)"

inductive der_of :: "nat \<Rightarrow> asn1_tag \<Rightarrow> bool \<Rightarrow> bytes \<Rightarrow> bytes \<Rightarrow> bytes \<Rightarrow> bool" where
  stop: "depth \<le> kMaxDepth \<Longrightarrow> der_of depth st False [] [] []"
| eoc: "depth \<le> kMaxDepth \<Longrightarrow> der_of depth st True (0 # 0 # r) [] r"
| indefinite: "depth \<le> kMaxDepth \<Longrightarrow> CBS_get_any_ber_asn1_element s = (Some el, s1) \<Longrightarrow>
    el_indefinite el \<Longrightarrow> der_of (Suc depth) (child_tag st (el_tag el)) True s1 body s2 \<Longrightarrow>
    fits st (el_tag el) body \<Longrightarrow> der_of depth st e s2 out r \<Longrightarrow>
    der_of depth st e s (wrap_der st (el_tag el) body @ out) r"
| constructed: "depth \<le> kMaxDepth \<Longrightarrow> CBS_get_any_ber_asn1_element s = (Some el, s1) \<Longrightarrow>
    \<not> el_indefinite el \<Longrightarrow> el_tag el AND CBS_ASN1_CONSTRUCTED \<noteq> 0 \<Longrightarrow>
    CBS_skip (el_header_len el) (el_out el) = (Some (), contents) \<Longrightarrow>
    der_of (Suc depth) (child_tag st (el_tag el)) False contents body [] \<Longrightarrow>
    fits st (el_tag el) body \<Longrightarrow> der_of depth st e s1 out r \<Longrightarrow>
    der_of depth st e s (wrap_der st (el_tag el) body @ out) r"
| primitive: "depth \<le> kMaxDepth \<Longrightarrow> CBS_get_any_ber_asn1_element s = (Some el, s1) \<Longrightarrow>
    \<not> el_indefinite el \<Longrightarrow> el_tag el AND CBS_ASN1_CONSTRUCTED = 0 \<Longrightarrow>
    CBS_skip (el_header_len el) (el_out el) = (Some (), body) \<Longrightarrow>
    fits st (el_tag el) body \<Longrightarrow> der_of depth st e s1 out r \<Longrightarrow>
    der_of depth st e s (wrap_der st (el_tag el) body @ out) r"

text \<open>In a run that is not ended by a marker nothing is left.\<close>

lemma der_of_rest: "der_of depth st e s out r \<Longrightarrow> \<not> e \<Longrightarrow> r = []"
  by (induction rule: der_of.induct) auto

subsection \<open>DER output\<close>

lemma find_ber_der:
  assumes "der_ok (body, tag)" "depth \<le> kMaxDepth" "\<not> joins tag"
    "tag AND CBS_ASN1_CONSTRUCTED \<noteq> 0 \<Longrightarrow> cbs_find_ber body (Suc depth) = Some False"
    "cbs_find_ber r depth = Some False"
  shows "cbs_find_ber (der (body, tag) @ r) depth = Some False"
proof -
  have "CBS_get_any_ber_asn1_element (der (body, tag) @ r) = (Some (der_el body tag), r)"
    using any_element_enc [OF assms(1), of r] ber_der_agree by blast
  then show ?thesis using assms(2-)
    by (subst cbs_find_ber.simps) (auto simp: der_nonempty joins_def der_el_def el_skip_header [unfolded der_el_def, simplified])
qed

text \<open>A constructed string becomes a primitive element.\<close>

lemma clear_constructed: "(t AND NOT CBS_ASN1_CONSTRUCTED) AND CBS_ASN1_CONSTRUCTED = 0"
  by (simp add: CBS_ASN1_CONSTRUCTED_def) (rule bit_eqI, auto simp: bit_simps)

lemma valid_clear_constructed: "valid_tag t \<Longrightarrow> valid_tag (t AND NOT CBS_ASN1_CONSTRUCTED)"
  by (simp add: valid_tag_def and.assoc)

lemma wrap_is_der:
  assumes "CBS_get_any_ber_asn1_element s = (Some el, s1)" "depth \<le> kMaxDepth" "fits 0 (el_tag el) body"
    "el_tag el AND CBS_ASN1_CONSTRUCTED \<noteq> 0 \<Longrightarrow> child_tag 0 (el_tag el) = 0 \<Longrightarrow>
       cbs_find_ber body (Suc depth) = Some False"
    "cbs_find_ber out depth = Some False"
  shows "cbs_find_ber (wrap_der 0 (el_tag el) body @ out) depth = Some False"
proof -
  have v: "valid_tag (el_tag el)"
    using ber_element_shape [of True s el s1] assms(1) by (auto simp: CBS_get_any_ber_asn1_element_def)
  show ?thesis
    unfolding wrap_der_def using assms(2-) v
    by (auto simp: fits_def child_tag_def clear_constructed valid_clear_constructed der_ok_def joins_def
        intro!: find_ber_der)
qed

lemma der_of_is_der:
  "der_of depth st e s out r \<Longrightarrow> st = 0 \<Longrightarrow> cbs_find_ber out depth = Some False"
proof (induction rule: der_of.induct)
  case (stop depth st)
  then show ?case by (simp add: cbs_find_ber.simps)
next
  case (eoc depth st r)
  then show ?case by (simp add: cbs_find_ber.simps)
next
  case (indefinite depth s el s1 st body s2 e out r)
  then show ?case using wrap_is_der [of s el s1 depth body out] by simp
next
  case (constructed depth s el s1 contents st body e out r)
  then show ?case using wrap_is_der [of s el s1 depth body out] by simp
next
  case (primitive depth s el s1 body st e out r)
  then show ?case using wrap_is_der [of s el s1 depth body out] by simp
qed

subsection \<open>The conversion implements the grammar\<close>

lemma convert_open_spec:
  assumes "convert_open env d st tag s = (Some (oc, ct), s1)" "cbb_inv s" "length (snd (cbb_abs s)) = d"
  shows "cbb_inv s1 \<and> cbb_fault s1 = cbb_fault s \<and> ct = child_tag st tag \<and> length (snd (cbb_abs s1)) = oc
    \<and> (\<forall>body A. w_flush d (app_last body (cbb_abs s1)) = Some A \<longrightarrow>
         fits st tag body \<and> A = app_last (wrap_der st tag body) (cbb_abs s))"
proof (cases "st = 0")
  case False
  with assms(1) have "s1 = s" "oc = d" "ct = st" "tag AND NOT CBS_ASN1_CONSTRUCTED = st"
    by (auto simp: convert_open_def gbind_eq_Some_iff)
  with False assms(2,3) show ?thesis
    by (auto simp: child_tag_def fits_def wrap_der_def w_flush_id)
next
  case True
  let ?t = "if joins tag then tag AND NOT CBS_ASN1_CONSTRUCTED else tag"
  from True assms(1) obtain u where a: "CBB_add_asn1 env d ?t s = (Some u, s1)" "oc = Suc d" "ct = child_tag st tag"
    by (auto simp: convert_open_def gbind_eq_Some_iff joins_def child_tag_def split: if_splits)
  note A = implementsD [OF implements_CBB_add_asn1 assms(2) a(1)]
  let ?B = "app_last (asn1_tag_bytes ?t) (cbb_abs s)"
  have "w_add d (asn1_tag_bytes ?t) (cbb_abs s) = Some ?B"
    using assms(3) by (simp add: w_add_def w_flush_id)
  with A(2) have s1: "cbb_abs s1 = (fst ?B, snd ?B @ [(Asn1_len, [])])"
    by (simp add: w_push_def)
  have len: "length (snd ?B) = d" using assms(3) by simp
  have "w_flush d (app_last body (cbb_abs s1))
      = (if length body \<le> 0xfffffffe then Some (app_last (asn1_length_bytes (length body) @ body) ?B) else None)"
    for body
    using len by (simp add: s1 app_last_snoc w_flush_def region_bytes_def)
  with A a True assms(3) show ?thesis
    by (auto simp: s1 fits_def wrap_der_def der_def der_header_def split: if_splits)
qed

lemma convert_open_opened:
  assumes "convert_open env d st tag s = (Some oc, s1)" "cbb_inv s" "length (snd (cbb_abs s)) = d"
  shows "cbb_inv s1" "cbb_fault s1 = cbb_fault s" "snd oc = child_tag st tag" "length (snd (cbb_abs s1)) = fst oc"
    "w_flush d (app_last body (cbb_abs s1)) = Some A \<Longrightarrow> fits st tag body"
    "w_flush d (app_last body (cbb_abs s1)) = Some A \<Longrightarrow> A = app_last (wrap_der st tag body) (cbb_abs s)"
  using convert_open_spec [of env d st tag s "fst oc" "snd oc" s1] assms unfolding prod.collapse by blast+

lemma add_bytes_spec:
  assumes "CBB_add_bytes env d x s = (Some u, s')" "cbb_inv s" "length (snd (cbb_abs s)) = d"
    "length x < size_mod"
  shows "cbb_inv s' \<and> cbb_fault s' = cbb_fault s \<and> cbb_abs s' = app_last x (cbb_abs s)"
  using implementsD [OF implements_CBB_add_bytes [OF assms(4)] assms(2,1)] assms(3)
  by (simp add: w_add_def w_flush_id)

lemma CBB_flush_spec:
  assumes "CBB_flush env d s = (Some u, s')" "cbb_inv s"
  shows "cbb_inv s' \<and> cbb_fault s' = cbb_fault s \<and> w_flush d (cbb_abs s) = Some (cbb_abs s')"
  using implementsD [OF implements_CBB_flush assms(2,1)] by simp

lemma convert_ber_cases:
  assumes "cbs_convert_ber env d st e depth s b = (Some u, r, b')"
  obtains (stop) "s = []" "r = []" "\<not> e" "b' = b"
  | (eoc) "e" "s = 0 # 0 # r" "b' = b"
  | (indefinite) el s1 oc b1 s2 b2 b3 where
      "CBS_get_any_ber_asn1_element s = (Some el, s1)" "el_indefinite el"
      "convert_open env d st (el_tag el) b = (Some oc, b1)"
      "cbs_convert_ber env (fst oc) (snd oc) True (depth + 1) s1 b1 = (Some (), s2, b2)"
      "CBB_flush env d b2 = (Some (), b3)"
      "cbs_convert_ber env d st e depth s2 b3 = (Some (), r, b')"
  | (constructed) el s1 oc b1 contents s2 b2 b3 where
      "CBS_get_any_ber_asn1_element s = (Some el, s1)" "\<not> el_indefinite el"
      "convert_open env d st (el_tag el) b = (Some oc, b1)"
      "el_tag el AND CBS_ASN1_CONSTRUCTED \<noteq> 0"
      "CBS_skip (el_header_len el) (el_out el) = (Some (), contents)"
      "cbs_convert_ber env (fst oc) (snd oc) False (depth + 1) contents b1 = (Some (), s2, b2)"
      "CBB_flush env d b2 = (Some (), b3)"
      "cbs_convert_ber env d st e depth s1 b3 = (Some (), r, b')"
  | (primitive) el s1 oc b1 contents b2 b3 where
      "CBS_get_any_ber_asn1_element s = (Some el, s1)" "\<not> el_indefinite el"
      "convert_open env d st (el_tag el) b = (Some oc, b1)"
      "el_tag el AND CBS_ASN1_CONSTRUCTED = 0"
      "CBS_skip (el_header_len el) (el_out el) = (Some (), contents)"
      "CBB_add_bytes env (fst oc) contents b1 = (Some (), b2)"
      "CBB_flush env d b2 = (Some (), b3)"
      "cbs_convert_ber env d st e depth s1 b3 = (Some (), r, b')"
proof (cases "s = [] \<or> e \<and> fst (cbs_get_eoc s) = Some ()")
  case True
  with assms stop eoc show ?thesis
    by (subst (asm) cbs_convert_ber.simps) (auto simp: get_eoc_shape split: if_splits prod.splits option.splits)
next
  case False
  then have f: "s \<noteq> []" "fst (if e then cbs_get_eoc s else (None, s)) = None"
    by (cases "fst (cbs_get_eoc s)"; auto)+
  have d: "\<not> depth > kMaxDepth" using assms by (subst (asm) cbs_convert_ber.simps) (auto split: if_splits)
  obtain e0 where e0: "(if e then cbs_get_eoc s else (None, s)) = (None, e0)"
    using f by (cases "if e then cbs_get_eoc s else (None, s)") (simp del: fst_conv, simp)
  note unfolded = assms [unfolded cbs_convert_ber.simps [of env d st e depth s b] e0 if_not_P [OF d]
      if_not_P [OF f(1)] prod.case option.case]
  from unfolded obtain el s1 where el: "CBS_get_any_ber_asn1_element s = (Some el, s1)"
    by (auto split: prod.splits option.splits)
  from unfolded [unfolded el prod.case option.case] obtain o1 ct b1
    where oc: "convert_open env d st (el_tag el) b = (Some (o1, ct), b1)"
    by (auto split: prod.splits option.splits)
  note rest = unfolded [unfolded el prod.case option.case oc]
  show ?thesis
  proof (cases "el_indefinite el")
    case True
    obtain a s2 b2 where c: "cbs_convert_ber env o1 ct True (depth + 1) s1 b1 = (a, s2, b2)"
      by (metis prod_cases3)
    obtain f b3 where fl: "CBB_flush env d b2 = (f, b3)" by fastforce
    from rest True have "a = Some () \<and> f = Some () \<and> cbs_convert_ber env d st e depth s2 b3 = (Some (), r, b')"
      by (simp add: c fl del: One_nat_def split: option.splits)
    with c fl show ?thesis using indefinite [OF el True oc] by simp
  next
    case ind: False
    with rest obtain contents where sk: "CBS_skip (el_header_len el) (el_out el) = (Some (), contents)"
      by (cases "CBS_skip (el_header_len el) (el_out el)") (auto split: option.splits)
    show ?thesis
    proof (cases "el_tag el AND CBS_ASN1_CONSTRUCTED = 0")
      case True
      obtain a b2 where c: "CBB_add_bytes env o1 contents b1 = (a, b2)" by fastforce
      obtain f b3 where fl: "CBB_flush env d b2 = (f, b3)" by fastforce
      from rest True ind have "a = Some () \<and> f = Some () \<and> cbs_convert_ber env d st e depth s1 b3 = (Some (), r, b')"
        by (simp add: sk c fl split: option.splits)
      with c fl show ?thesis using primitive [OF el ind oc True sk] by simp
    next
      case False
      obtain a s2 b2 where c: "cbs_convert_ber env o1 ct False (depth + 1) contents b1 = (a, s2, b2)"
        by (metis prod_cases3)
      obtain f b3 where fl: "CBB_flush env d b2 = (f, b3)" by fastforce
      from rest False ind have "a = Some () \<and> f = Some () \<and> cbs_convert_ber env d st e depth s1 b3 = (Some (), r, b')"
        by (simp add: sk c fl del: One_nat_def split: option.splits)
      with c fl show ?thesis using constructed [OF el ind oc False sk] by simp
    qed
  qed
qed

lemma der_of_shorter: "der_of depth st e s out r \<Longrightarrow> length r \<le> length s"
  by (induction rule: der_of.induct) (auto dest!: ber_element_shorter(1))

lemma element_small:
  assumes "CBS_get_any_ber_asn1_element s = (Some el, s1)" "length s < size_mod"
  shows "length s1 < length s" "length s1 < size_mod"
    "CBS_skip (el_header_len el) (el_out el) = (u, c) \<Longrightarrow> length c < length s"
    "CBS_skip (el_header_len el) (el_out el) = (u, c) \<Longrightarrow> length c < size_mod"
  using ber_element_shorter [OF assms(1)] assms(2) by (auto intro: less_trans)

lemma convert_depth:
  "cbs_convert_ber env d st e depth s b = (Some u, r, b') \<Longrightarrow> depth \<le> kMaxDepth"
  by (subst (asm) cbs_convert_ber.simps) (auto split: if_splits)

lemma convert_ber_spec:
  assumes "cbs_convert_ber env d st e depth s b = (Some u, r, b')" "cbb_inv b" "length (snd (cbb_abs b)) = d"
    "length s < size_mod"
  shows "\<exists>out. der_of depth st e s out r \<and> cbb_abs b' = app_last out (cbb_abs b) \<and> cbb_inv b'
    \<and> cbb_fault b' = cbb_fault b"
  using assms
proof (induction s arbitrary: d st e depth b u r b' rule: measure_induct_rule [where f = length])
  case (less s)
  note depth = convert_depth [OF less.prems(1)]
  from less.prems(1) have "cbs_convert_ber env d st e depth s b = (Some (), r, b')" by simp
  then show ?case
  proof (cases rule: convert_ber_cases)
    case stop
    with depth less.prems(2) show ?thesis by (auto intro!: exI [of _ "[]"] der_of.stop)
  next
    case eoc
    with depth less.prems(2) show ?thesis by (auto intro!: exI [of _ "[]"] der_of.eoc)
  next
    case (indefinite el s1 oc b1 s2 b2 b3)
    note small = element_small [OF indefinite(1) less.prems(4)]
    note O = convert_open_opened [OF indefinite(3) less.prems(2,3)]
    from less.IH [OF small(1) indefinite(4) _ _ small(2)] O(1-4) obtain body
      where body: "der_of (depth + 1) (snd oc) True s1 body s2" "cbb_abs b2 = app_last body (cbb_abs b1)"
        "cbb_inv b2" "cbb_fault b2 = cbb_fault b1" by blast
    note F = CBB_flush_spec [OF indefinite(5) body(3)]
    have A: "fits st (el_tag el) body" "cbb_abs b3 = app_last (wrap_der st (el_tag el) body) (cbb_abs b)"
      using F O(5,6) [of body "cbb_abs b3"] unfolding body(2) by blast+
    have "length s2 \<le> length s1" by (rule der_of_shorter [OF body(1)])
    with small have s2: "length s2 < length s" "length s2 < size_mod" by auto
    from less.IH [OF s2(1) indefinite(6) _ _ s2(2)] F A less.prems(3) obtain out
      where out: "der_of depth st e s2 out r" "cbb_abs b' = app_last out (cbb_abs b3)" "cbb_inv b'"
        "cbb_fault b' = cbb_fault b3" by auto
    from der_of.indefinite [OF depth indefinite(1,2) _ A(1) out(1)] body(1) O(3)
    have "der_of depth st e s (wrap_der st (el_tag el) body @ out) r" by simp
    with A out F O(2) body(4) show ?thesis by auto
  next
    case (constructed el s1 oc b1 contents s2 b2 b3)
    note small = element_small [OF constructed(1) less.prems(4)]
    note O = convert_open_opened [OF constructed(3) less.prems(2,3)]
    from less.IH [OF small(3) [OF constructed(5)] constructed(6) _ _ small(4) [OF constructed(5)]] O(1-4) obtain body
      where body: "der_of (depth + 1) (snd oc) False contents body s2" "cbb_abs b2 = app_last body (cbb_abs b1)"
        "cbb_inv b2" "cbb_fault b2 = cbb_fault b1" by blast
    note F = CBB_flush_spec [OF constructed(7) body(3)]
    have A: "fits st (el_tag el) body" "cbb_abs b3 = app_last (wrap_der st (el_tag el) body) (cbb_abs b)"
      using F O(5,6) [of body "cbb_abs b3"] unfolding body(2) by blast+
    from less.IH [OF small(1) constructed(8) _ _ small(2)] F A less.prems(3) obtain out
      where out: "der_of depth st e s1 out r" "cbb_abs b' = app_last out (cbb_abs b3)" "cbb_inv b'"
        "cbb_fault b' = cbb_fault b3" by auto
    from der_of.constructed [OF depth constructed(1,2,4,5) _ A(1) out(1)] body(1) O(3) der_of_rest [OF body(1)]
    have "der_of depth st e s (wrap_der st (el_tag el) body @ out) r" by simp
    with A out F O(2) body(4) show ?thesis by auto
  next
    case (primitive el s1 oc b1 contents b2 b3)
    note small = element_small [OF primitive(1) less.prems(4)]
    note O = convert_open_opened [OF primitive(3) less.prems(2,3)]
    have B: "cbb_inv b2 \<and> cbb_fault b2 = cbb_fault b1 \<and> cbb_abs b2 = app_last contents (cbb_abs b1)"
      using O(1-4) small(4) [OF primitive(5)] by (intro add_bytes_spec [OF primitive(6)]) auto
    note F = CBB_flush_spec [OF primitive(7) conjunct1 [OF B]]
    have A: "fits st (el_tag el) contents" "cbb_abs b3 = app_last (wrap_der st (el_tag el) contents) (cbb_abs b)"
      using F O(5,6) [of contents "cbb_abs b3"] B by auto
    from less.IH [OF small(1) primitive(8) _ _ small(2)] F A less.prems(3) obtain out
      where out: "der_of depth st e s1 out r" "cbb_abs b' = app_last out (cbb_abs b3)" "cbb_inv b'"
        "cbb_fault b' = cbb_fault b3" by auto
    from der_of.primitive [OF depth primitive(1,2,4,5) A(1) out(1)] A out F O(2) B
    show ?thesis by auto
  qed
qed

subsection \<open>DER input\<close>

text \<open>On input without BER the conversion changes nothing.\<close>

lemma wrap_plain:
  assumes "CBS_get_any_ber_asn1_element s = (Some el, s1)" "\<not> el_ber_found el"
    "CBS_skip (el_header_len el) (el_out el) = (Some (), contents)" "\<not> joins (el_tag el)"
  shows "s = wrap_der 0 (el_tag el) contents @ s1"
proof -
  from assms(1,2) ber_der_agree [of s el s1] any_element_iff [of s el s1] obtain body tag
    where el: "el = der_el body tag" "s = der (body, tag) @ s1" by auto
  with assms(3,4) show ?thesis by (simp add: wrap_der_def)
qed

lemma find_ber_False:
  assumes "cbs_find_ber s depth = Some False" "CBS_get_any_ber_asn1_element s = (Some el, s1)"
    "CBS_skip (el_header_len el) (el_out el) = (Some (), contents)" "s \<noteq> []"
  shows "\<not> el_ber_found el" "\<not> joins (el_tag el)" "cbs_find_ber s1 depth = Some False"
    "el_tag el AND CBS_ASN1_CONSTRUCTED \<noteq> 0 \<Longrightarrow> cbs_find_ber contents (Suc depth) = Some False"
  using assms by (auto simp: cbs_find_ber.simps [of s] joins_def split: if_splits option.splits)

lemma ber_element_skip:
  assumes "CBS_get_any_ber_asn1_element s = (Some el, s1)"
  shows "s \<noteq> []" "\<exists>contents. CBS_skip (el_header_len el) (el_out el) = (Some (), contents)"
    "el_indefinite el \<Longrightarrow> el_ber_found el"
  using ber_element_shape [OF assms [unfolded CBS_get_any_ber_asn1_element_def]]
  by (auto simp: CBS_skip_eq)

lemma der_of_der:
  "der_of depth st e s out r \<Longrightarrow> st = 0 \<Longrightarrow> \<not> e \<Longrightarrow> cbs_find_ber s depth = Some False \<Longrightarrow> out = s"
proof (induction rule: der_of.induct)
  case (indefinite depth s el s1 st body s2 e out r)
  from ber_element_skip [OF indefinite(2)] obtain c
    where "CBS_skip (el_header_len el) (el_out el) = (Some (), c)" "s \<noteq> []" by blast
  from find_ber_False [OF indefinite.prems(3) indefinite(2) this] ber_element_skip(3) [OF indefinite(2)] indefinite(3)
  show ?case by simp
next
  case (constructed depth s el s1 contents st body e out r)
  note F = find_ber_False [OF constructed.prems(3) constructed(2,5) ber_element_skip(1) [OF constructed(2)]]
  with constructed have "body = contents" "out = s1" by (auto simp: child_tag_def)
  with wrap_plain [OF constructed(2) F(1) constructed(5) F(2)] constructed.prems show ?case by simp
next
  case (primitive depth s el s1 body st e out r)
  note F = find_ber_False [OF primitive.prems(3) primitive(2,5) ber_element_skip(1) [OF primitive(2)]]
  with primitive have "out = s1" by auto
  with wrap_plain [OF primitive(2) F(1) primitive(5) F(2)] primitive.prems show ?case by simp
qed auto

section \<open>Fragments of an implicitly tagged string\<close>

lemma implicit_string_loop_spec:
  assumes "implicit_string_loop env tag child b = (Some u, b')" "cbb_inv b" "length (snd (cbb_abs b)) = 0"
    "length child < size_mod"
  shows "\<exists>chunks. list_all (\<lambda>c. der_ok (c, tag)) chunks \<and> child = concat (map (\<lambda>c. der (c, tag)) chunks)
    \<and> cbb_abs b' = app_last (concat chunks) (cbb_abs b) \<and> cbb_inv b'"
  using assms
proof (induction child arbitrary: b u rule: measure_induct_rule [where f = length])
  case (less child)
  show ?case
  proof (cases "child = []")
    case True
    with less.prems show ?thesis by (auto simp: implicit_string_loop.simps intro!: exI [of _ "[]"])
  next
    case False
    with less.prems(1) obtain chunk child' b1 where g: "CBS_get_asn1 tag child = (Some chunk, child')"
      and a: "CBB_add_bytes env 0 chunk b = (Some (), b1)"
      and l: "implicit_string_loop env tag child' b1 = (Some u, b')"
      by (subst (asm) implicit_string_loop.simps) (auto split: prod.splits option.splits)
    from g have c: "der_ok (chunk, tag)" "child = der (chunk, tag) @ child'" by (auto simp: CBS_get_asn1_iff)
    from c(2) have len: "length chunk < size_mod" "length child' < size_mod" "length child' < length child"
      using less.prems(4) der_nonempty [of "(chunk, tag)"] by (auto simp: der_def)
    note B = add_bytes_spec [OF a less.prems(2,3) len(1)]
    from less.IH [OF len(3) l _ _ len(2)] B less.prems(3) obtain chunks
      where "list_all (\<lambda>c. der_ok (c, tag)) chunks" "child' = concat (map (\<lambda>c. der (c, tag)) chunks)"
        "cbb_abs b' = app_last (concat chunks) (cbb_abs b1)" "cbb_inv b'" by auto
    with B c show ?thesis by (intro exI [of _ "chunk # chunks"]) auto
  qed
qed

section \<open>Properties\<close>

text \<open>C12 \<open>CBS_asn1_ber_to_der\<close> yields DER: when it succeeds, looking for BER in its output finds
  none. If the input has none either, the output is the first element of the input itself, without
  a copy; otherwise it is the DER that the whole input stands for in the grammar of BER contents,
  and the input is used up.\<close>

theorem ber_to_der_spec:
  assumes "CBS_asn1_ber_to_der env inp = (Some (out, storage), r)" "length inp < size_mod"
  shows "(if cbs_find_ber inp 0 = Some False
      then storage = None \<and> inp = out @ r \<and> (\<exists>body tag. der_ok (body, tag) \<and> out = der (body, tag))
      else storage \<noteq> None \<and> r = [] \<and> der_of 0 0 False inp out [])
    \<and> cbs_find_ber out 0 = Some False"
proof (cases "cbs_find_ber inp 0 = Some False")
  case True
  with assms(1) obtain el where el: "CBS_get_any_asn1_element inp = (Some el, r)" "out = el_out el" "storage = None"
    by (auto simp: CBS_asn1_ber_to_der_def gbind_eq_Some_iff)
  then obtain body tag where d: "der_ok (body, tag)" "el = der_el body tag" "inp = der (body, tag) @ r"
    by (auto simp: any_element_iff)
  have ber: "CBS_get_any_ber_asn1_element inp = (Some (der_el body tag), r)"
    using el(1) d(2) ber_der_agree by blast
  note F = find_ber_False [OF True ber, unfolded el_out_der_el el_tag_der_el, OF el_skip_header ber_element_skip(1) [OF ber]]
  have nil: "cbs_find_ber [] 0 = Some False" by (simp add: cbs_find_ber.simps)
  have "cbs_find_ber (der (body, tag) @ []) 0 = Some False"
    by (rule find_ber_der [OF d(1) _ F(2) _ nil]) (use F(4) in auto)
  with True el d show ?thesis by auto
next
  case False
  with assms(1) obtain b b1 b2 data len where
    i: "CBB_init env (length inp) = Some b" and c: "cbs_convert_ber env 0 0 False 0 inp b = (Some (), r, b1)"
    and f: "CBB_finish env 0 True True b1 = (Some (data, len), b2)"
    and res: "out = take len data" "storage = Some data"
    by (auto simp: CBS_asn1_ber_to_der_def split: option.splits prod.splits)
  note I = CBB_init_props [OF i assms(2)]
  from convert_ber_spec [OF c I(1) _ assms(2)] I obtain x
    where x: "der_of 0 0 False inp x r" "cbb_abs b1 = (x, [])" "cbb_inv b1" by auto
  from CBB_finish_Some [OF f x(3)] x(2) have "out = x" by (simp add: w_flush_top res)
  with False x(1) der_of_rest [OF x(1)] der_of_is_der [OF x(1) refl] res show ?thesis by simp
qed

text \<open>The conversion is a projection: input without BER is converted to itself, and hence
  converting its own output again changes nothing.\<close>

theorem ber_conversion_fixes_der:
  assumes "cbs_convert_ber env 0 0 False 0 inp b = (Some u, r, b')" "CBB_init env (length inp) = Some b"
    "length inp < size_mod" "cbs_find_ber inp 0 = Some False"
  shows "r = [] \<and> cbb_abs b' = (inp, [])"
proof -
  note I = CBB_init_props [OF assms(2,3)]
  from convert_ber_spec [OF assms(1) I(1) _ assms(3)] I obtain x
    where x: "der_of 0 0 False inp x r" "cbb_abs b' = (x, [])" by auto
  with der_of_rest [OF x(1)] der_of_der [OF x(1) refl _ assms(4)] show ?thesis by simp
qed

text \<open>\<open>CBS_get_asn1_implicit_string\<close> reads a string tagged \<open>outer_tag\<close> in place, or, when the
  element is constructed, joins fragments that are all tagged \<open>inner_tag\<close>, one level deep.\<close>

theorem implicit_string_joins:
  assumes "CBS_get_asn1_implicit_string env outer_tag inner_tag inp = (Some (out, storage), r)"
    "length inp < size_mod"
  shows "if CBS_peek_asn1_tag inp outer_tag then inp = der (out, outer_tag) @ r \<and> storage = None
    else storage \<noteq> None \<and> (\<exists>chunks. out = concat chunks
      \<and> inp = der (concat (map (\<lambda>c. der (c, inner_tag)) chunks), outer_tag OR CBS_ASN1_CONSTRUCTED) @ r)"
proof (cases "CBS_peek_asn1_tag inp outer_tag")
  case True
  with assms(1) show ?thesis
    by (auto simp: CBS_get_asn1_implicit_string_def gbind_eq_Some_iff CBS_get_asn1_iff)
next
  case False
  with assms(1) obtain b child b1 b2 data len where
    i: "CBB_init env (length inp) = Some b"
    and c: "CBS_get_asn1 (outer_tag OR CBS_ASN1_CONSTRUCTED) inp = (Some child, r)"
    and l: "implicit_string_loop env inner_tag child b = (Some (), b1)"
    and f: "CBB_finish env 0 True True b1 = (Some (data, len), b2)"
    and res: "out = take len data" "storage = Some data"
    by (auto simp: CBS_get_asn1_implicit_string_def split: option.splits prod.splits)
  from c have inp: "inp = der (child, outer_tag OR CBS_ASN1_CONSTRUCTED) @ r" by (simp add: CBS_get_asn1_iff)
  then have len: "length child < size_mod" using assms(2) by (simp add: der_def)
  note I = CBB_init_props [OF i assms(2)]
  from implicit_string_loop_spec [OF l I(1) _ len] I obtain chunks
    where ch: "child = concat (map (\<lambda>c. der (c, inner_tag)) chunks)" "cbb_abs b1 = (concat chunks, [])" "cbb_inv b1"
    by auto
  from CBB_finish_Some [OF f ch(3)] ch(2) have "out = concat chunks" by (simp add: w_flush_top res)
  with False inp ch(1) res(2) show ?thesis by (auto intro!: exI [of _ chunks] simp del: res)
qed

section \<open>A constructed string in BER\<close>

definition demo_ber :: bytes where
  "demo_ber = [0x24, 0x80, 0x04, 0x01, 0x07, 0x00, 0x00]"

lemmas element_eval = CBS_get_any_ber_asn1_element_def CBS_get_any_asn1_element_def
  cbs_get_any_asn1_element_def parse_asn1_tag_def getter_simps cbs_take_element_def cbs_get_def
  tag_const_defs size_add_def size_mod_def

lemma demo_ber_elements:
  "CBS_get_any_ber_asn1_element demo_ber = (Some \<lparr>el_out = [0x24, 0x80], el_tag = 0x20000004, el_header_len = 2,
     el_ber_found = True, el_indefinite = True\<rparr>, [0x04, 0x01, 0x07, 0x00, 0x00])"
  "CBS_get_any_ber_asn1_element [0x04, 0x01, 0x07, 0x00, 0x00] = (Some \<lparr>el_out = [0x04, 0x01, 0x07], el_tag = 4,
     el_header_len = 2, el_ber_found = False, el_indefinite = False\<rparr>, [0, 0])"
  by (simp_all add: demo_ber_def element_eval)

lemmas demo_steps = cbs_convert_ber.simps [where inp = demo_ber]
  cbs_convert_ber.simps [where inp = "[0x04, 0x01, 0x07, 0x00, 0x00]"]
  cbs_convert_ber.simps [where inp = "[0, 0]"] cbs_convert_ber.simps [where inp = "[]"]

lemma demo_ber_find: "cbs_find_ber demo_ber 0 = Some True"
  by (simp add: cbs_find_ber.simps [of demo_ber] demo_ber_elements kMaxDepth_def) (simp add: demo_ber_def)

lemma demo_eoc: "cbs_get_eoc demo_ber = (None, demo_ber)" "cbs_get_eoc [0x04, 0x01, 0x07, 0x00, 0x00] = (None, [0x04, 0x01, 0x07, 0x00, 0x00])"
  "cbs_get_eoc [0, 0] = (Some (), [])" "demo_ber \<noteq> []" "length demo_ber = 7"
  by (simp_all add: cbs_get_eoc_def demo_ber_def CBS_skip_def getter_simps cbs_get_def)

lemma demo_ber_convert:
  "\<exists>st. CBS_asn1_ber_to_der demo_env demo_ber = (Some ([4, 1, 7], Some st), [])"
  by (simp add: CBS_asn1_ber_to_der_def demo_ber_find demo_steps demo_ber_elements demo_eoc kMaxDepth_def
      convert_open_def is_string_type_def CBS_skip_def cbs_get_def gassert_def
      cbb_eval alloc_eval cong: gbind_weak_cong let_weak_cong)

theorem ber_to_der_spec_witness:
  "der_of 0 0 False demo_ber [4, 1, 7] [] \<and> cbs_find_ber [4, 1, 7] 0 = Some False"
proof -
  obtain st where st: "CBS_asn1_ber_to_der demo_env demo_ber = (Some ([4, 1, 7], Some st), [])"
    using demo_ber_convert by blast
  have "length demo_ber < size_mod" by (simp add: demo_eoc size_mod_def)
  from ber_to_der_spec [OF st this] show ?thesis by (simp add: demo_ber_find)
qed

lemma demo_der: "CBS_get_any_ber_asn1_element [4, 1, 7] = (Some \<lparr>el_out = [4, 1, 7], el_tag = 4,
     el_header_len = 2, el_ber_found = False, el_indefinite = False\<rparr>, [])"
  by (simp add: element_eval)

lemma demo_der_convert:
  "\<exists>b b'. CBB_init demo_env (length [4, 1, 7 :: u8]) = Some b
     \<and> cbs_convert_ber demo_env 0 0 False 0 [4, 1, 7] b = (Some (), [], b')"
  by (simp add: cbs_convert_ber.simps [where inp = "[4, 1, 7]"] cbs_convert_ber.simps [where inp = "[]"] demo_der
      kMaxDepth_def convert_open_def is_string_type_def CBS_skip_def cbs_get_def gassert_def
      cbb_eval alloc_eval cong: gbind_weak_cong let_weak_cong)

theorem ber_conversion_fixes_der_witness:
  "\<exists>b b'. cbs_convert_ber demo_env 0 0 False 0 [4, 1, 7] b = (Some (), [], b') \<and> cbb_abs b' = ([4, 1, 7], [])"
proof -
  obtain b b' where d: "CBB_init demo_env (length [4, 1, 7 :: u8]) = Some b"
    "cbs_convert_ber demo_env 0 0 False 0 [4, 1, 7] b = (Some (), [], b')" using demo_der_convert by blast
  have "length [4, 1, 7 :: u8] < size_mod" by (simp add: size_mod_def)
  moreover have "cbs_find_ber [4, 1, 7] 0 = Some False"
    by (simp add: cbs_find_ber.simps [of "[4, 1, 7]"] cbs_find_ber.simps [of "[]"] demo_der kMaxDepth_def
        CBS_ASN1_CONSTRUCTED_def)
  ultimately show ?thesis using ber_conversion_fixes_der [OF d(2,1)] d(2) by blast
qed

lemma demo_implicit:
  "\<exists>st. CBS_get_asn1_implicit_string demo_env 0x80000000 4 [0xa0, 0x06, 0x04, 0x01, 0x07, 0x04, 0x01, 0x08]
     = (Some ([7, 8], Some st), [])"
  by (simp add: CBS_get_asn1_implicit_string_def CBS_peek_asn1_tag_def CBS_get_asn1_def cbs_get_asn1_def
      implicit_string_loop.simps [of _ _ "[4, b, c, d, e, f]" for b c d e f] implicit_string_loop.simps [of _ _ "[4, b, c]" for b c]
      implicit_string_loop.simps [of _ _ "[]"] element_eval CBS_skip_def
      cbb_eval alloc_eval cong: gbind_weak_cong let_weak_cong)

theorem implicit_string_joins_witness:
  "\<exists>chunks. [7, 8 :: u8] = concat chunks \<and> [0xa0, 0x06, 0x04, 0x01, 0x07, 0x04, 0x01, 0x08]
     = der (concat (map (\<lambda>c. der (c, 4)) chunks), 0x80000000 OR CBS_ASN1_CONSTRUCTED) @ []"
proof -
  let ?inp = "[0xa0, 0x06, 0x04, 0x01, 0x07, 0x04, 0x01, 0x08] :: u8 list"
  obtain st where st: "CBS_get_asn1_implicit_string demo_env 0x80000000 4 ?inp = (Some ([7, 8], Some st), [])"
    using demo_implicit by blast
  have "\<not> CBS_peek_asn1_tag ?inp 0x80000000"
    by (simp add: CBS_peek_asn1_tag_def element_eval)
  moreover have "length ?inp < size_mod" by (simp add: size_mod_def)
  ultimately show ?thesis using implicit_string_joins [OF st] by (simp only: if_False)
qed

end
