(* ===== verification/Base64.thy ===== *)
theory Base64
  imports Prelude
begin

text \<open>
  \<open>crypto/base64/base64.c\<close> with the constant-time helpers of
  \<open>crypto/internal.h\<close> it uses: one-shot and streaming base64. Bytes written to
  an output pointer are returned as a list, in the order of the memory they
  fill, the trailing NUL included.
\<close>

section \<open>Constant-time selection\<close>

type_synonym crypto_word_t = u64

definition constant_time_msb_w :: "crypto_word_t \<Rightarrow> crypto_word_t" where
  "constant_time_msb_w a = 0 - drop_bit (8 * 8 - 1) a"

definition constant_time_lt_w :: "crypto_word_t \<Rightarrow> crypto_word_t \<Rightarrow> crypto_word_t" where
  "constant_time_lt_w a b = constant_time_msb_w (a XOR ((a XOR b) OR ((a - b) XOR a)))"

definition constant_time_lt_8 :: "crypto_word_t \<Rightarrow> crypto_word_t \<Rightarrow> u8" where
  "constant_time_lt_8 a b = ucast (constant_time_lt_w a b)"

definition constant_time_ge_w :: "crypto_word_t \<Rightarrow> crypto_word_t \<Rightarrow> crypto_word_t" where
  "constant_time_ge_w a b = NOT (constant_time_lt_w a b)"

definition constant_time_ge_8 :: "crypto_word_t \<Rightarrow> crypto_word_t \<Rightarrow> u8" where
  "constant_time_ge_8 a b = ucast (constant_time_ge_w a b)"

definition constant_time_is_zero_w :: "crypto_word_t \<Rightarrow> crypto_word_t" where
  "constant_time_is_zero_w a = constant_time_msb_w (NOT a AND (a - 1))"

definition constant_time_eq_w :: "crypto_word_t \<Rightarrow> crypto_word_t \<Rightarrow> crypto_word_t" where
  "constant_time_eq_w a b = constant_time_is_zero_w (a XOR b)"

definition constant_time_eq_8 :: "crypto_word_t \<Rightarrow> crypto_word_t \<Rightarrow> u8" where
  "constant_time_eq_8 a b = ucast (constant_time_eq_w a b)"

definition constant_time_select_w :: "crypto_word_t \<Rightarrow> crypto_word_t \<Rightarrow> crypto_word_t \<Rightarrow> crypto_word_t" where
  "constant_time_select_w msk a b = (msk AND a) OR (NOT msk AND b)"

definition constant_time_select_8 :: "crypto_word_t \<Rightarrow> u8 \<Rightarrow> u8 \<Rightarrow> u8" where
  "constant_time_select_8 msk a b = (let m = ucast msk in (m AND a) OR (NOT m AND b))"

definition constant_time_lt_args_8 :: "u8 \<Rightarrow> u8 \<Rightarrow> u8" where
  "constant_time_lt_args_8 a b = ucast (constant_time_msb_w (ucast a - ucast b))"

definition constant_time_in_range_8 :: "u8 \<Rightarrow> u8 \<Rightarrow> u8 \<Rightarrow> u8" where
  "constant_time_in_range_8 a mn mx = constant_time_lt_args_8 (a - mn) (mx - mn + 1)"

section \<open>Encoding\<close>

definition conv_bin2ascii :: "u8 \<Rightarrow> u8" where
  "conv_bin2ascii a0 =
     (let a = a0 AND 0x3f;
          ret = constant_time_select_8 (ucast (constant_time_eq_8 (ucast a) 62)) 43 47;
          ret = constant_time_select_8 (ucast (constant_time_lt_args_8 a 62)) (a - 52 + 48) ret;
          ret = constant_time_select_8 (ucast (constant_time_lt_args_8 a 52)) (a - 26 + 97) ret;
          ret = constant_time_select_8 (ucast (constant_time_lt_args_8 a 26)) (a + 65) ret
      in ret)"

text \<open>\<open>EVP_EncodedLength\<close>, with the three tests for wrap-around.\<close>

definition EVP_EncodedLength :: "nat \<Rightarrow> nat option" where
  "EVP_EncodedLength len0 =
     (if size_add len0 2 < len0 then None
      else let len = size_add len0 2; len = len div 3 in
        if size_mul len 4 div 4 \<noteq> len then None
        else let len = size_mul len 4 in
          if size_add len 1 < len then None else Some (size_add len 1))"

record evp_encode_ctx =
  data_used :: nat
  ctx_data :: bytes
  eof_seen :: bool
  error_encountered :: bool

definition sizeof_data :: nat where
  "sizeof_data = 48"

definition EVP_EncodeInit :: evp_encode_ctx where
  "EVP_EncodeInit = \<lparr>data_used = 0, ctx_data = replicate sizeof_data 0, eof_seen = False, error_encountered = False\<rparr>"

text \<open>The loop of \<open>EVP_EncodeBlock\<close>: the characters it writes.\<close>

fun encode_block_loop :: "bytes \<Rightarrow> bytes" where
  "encode_block_loop [] = []"
| "encode_block_loop (x # y # z # src) =
     (let l = push_bit 16 (ucast x) OR push_bit 8 (ucast y) OR ucast z :: u32 in
      [conv_bin2ascii (ucast (drop_bit 18 l)), conv_bin2ascii (ucast (drop_bit 12 l)),
       conv_bin2ascii (ucast (drop_bit 6 l)), conv_bin2ascii (ucast l)] @ encode_block_loop src)"
| "encode_block_loop [x] =
     (let l = push_bit 16 (ucast x) :: u32 in
      [conv_bin2ascii (ucast (drop_bit 18 l)), conv_bin2ascii (ucast (drop_bit 12 l)), 61, 61])"
| "encode_block_loop [x, y] =
     (let l = push_bit 16 (ucast x) OR push_bit 8 (ucast y) :: u32 in
      [conv_bin2ascii (ucast (drop_bit 18 l)), conv_bin2ascii (ucast (drop_bit 12 l)),
       conv_bin2ascii (ucast (drop_bit 6 l)), 61])"

text \<open>The memory written at \<open>dst\<close>, and the result.\<close>

definition EVP_EncodeBlock :: "bytes \<Rightarrow> bytes \<times> nat" where
  "EVP_EncodeBlock src = (encode_block_loop src @ [0], length (encode_block_loop src))"

text \<open>
  In \<open>EVP_EncodeUpdate\<close> the pointer \<open>out\<close> moves over the output; each block ends
  in a newline that replaces the NUL of \<open>EVP_EncodeBlock\<close>, followed by a new NUL
  that the next block overwrites. \<open>written\<close> is the memory before \<open>out\<close>.
\<close>

function encode_update_loop :: "bytes \<Rightarrow> bytes \<Rightarrow> nat \<Rightarrow> (bytes \<times> bytes \<times> nat) option \<times> bytes" where
  "encode_update_loop inp written tot =
     (if length inp \<ge> sizeof_data then
        let (blk, encoded) = EVP_EncodeBlock (take sizeof_data inp);
            written = written @ take encoded blk @ [10] in
        if size_add (size_add tot encoded) 1 < tot then (None, written)
        else encode_update_loop (drop sizeof_data inp) written (size_add (size_add tot encoded) 1)
      else (Some (inp, written, tot), written))"
  by pat_completeness auto
termination
  by (relation "measure (\<lambda>(inp, w, t). length inp)") (auto simp: sizeof_data_def)

declare encode_update_loop.simps [simp del]

text \<open>The new context, the output with its final NUL, and \<open>*out_len\<close>.\<close>

definition EVP_EncodeUpdate :: "evp_encode_ctx \<Rightarrow> bytes \<Rightarrow> evp_encode_ctx \<times> bytes \<times> nat" where
  "EVP_EncodeUpdate ctx inp =
     (if inp = [] then (ctx, [], 0)
      else if sizeof_data - data_used ctx > length inp then
        (ctx\<lparr>ctx_data := take (data_used ctx) (ctx_data ctx) @ inp @ drop (data_used ctx + length inp) (ctx_data ctx),
           data_used := data_used ctx + length inp\<rparr>, [], 0)
      else
        let (ctx, inp, written, tot) =
          (if data_used ctx \<noteq> 0 then
             let todo = sizeof_data - data_used ctx;
                 ctx = ctx\<lparr>ctx_data := take (data_used ctx) (ctx_data ctx) @ take todo inp\<rparr>;
                 (blk, encoded) = EVP_EncodeBlock (ctx_data ctx) in
             (ctx\<lparr>data_used := 0\<rparr>, drop todo inp, take encoded blk @ [10], encoded + 1)
           else (ctx, inp, [], 0)) in
        (case encode_update_loop inp written tot of
          (None, written) \<Rightarrow> (ctx, written @ [0], 0)
        | (Some (inp, _, tot), written) \<Rightarrow>
            (ctx\<lparr>ctx_data := inp @ drop (length inp) (ctx_data ctx), data_used := length inp\<rparr>,
             written @ [0], if tot > INT_MAX then 0 else tot)))"

definition EVP_EncodeFinal :: "evp_encode_ctx \<Rightarrow> evp_encode_ctx \<times> bytes \<times> nat" where
  "EVP_EncodeFinal ctx =
     (if data_used ctx = 0 then (ctx, [], 0)
      else let (blk, encoded) = EVP_EncodeBlock (take (data_used ctx) (ctx_data ctx)) in
        (ctx\<lparr>data_used := 0\<rparr>, take encoded blk @ [10, 0], encoded + 1))"

section \<open>Decoding\<close>

definition EVP_DecodedLength :: "nat \<Rightarrow> nat option" where
  "EVP_DecodedLength len = (if len mod 4 \<noteq> 0 then None else Some (size_mul (len div 4) 3))"

definition EVP_DecodeInit :: evp_encode_ctx where
  "EVP_DecodeInit = \<lparr>data_used = 0, ctx_data = replicate sizeof_data 0, eof_seen = False, error_encountered = False\<rparr>"

definition base64_ascii_to_bin :: "u8 \<Rightarrow> u8" where
  "base64_ascii_to_bin a =
     (let is_upper = constant_time_in_range_8 a 65 90;
          is_lower = constant_time_in_range_8 a 97 122;
          is_digit = constant_time_in_range_8 a 48 57;
          is_plus = constant_time_eq_8 (ucast a) 43;
          is_slash = constant_time_eq_8 (ucast a) 47;
          is_equals = constant_time_eq_8 (ucast a) 61;
          ret = 0;
          ret = ret OR (is_upper AND (a - 65));
          ret = ret OR (is_lower AND (a - 97 + 26));
          ret = ret OR (is_digit AND (a - 48 + 52));
          ret = ret OR (is_plus AND 62);
          ret = ret OR (is_slash AND 63);
          is_valid = is_upper OR is_lower OR is_digit OR is_plus OR is_slash OR is_equals
      in ret OR NOT is_valid)"

text \<open>\<open>base64_decode_quad\<close>: the one to three bytes it writes, or \<open>None\<close>.\<close>

definition base64_decode_quad :: "bytes \<Rightarrow> bytes option" where
  "base64_decode_quad inp =
     (let a = base64_ascii_to_bin (inp ! 0); b = base64_ascii_to_bin (inp ! 1);
          c = base64_ascii_to_bin (inp ! 2); d = base64_ascii_to_bin (inp ! 3) in
      if a = 0xff \<or> b = 0xff \<or> c = 0xff \<or> d = 0xff then None
      else let v = push_bit 18 (ucast a) OR push_bit 12 (ucast b) OR push_bit 6 (ucast c) OR ucast d :: u32;
               padding_pattern = push_bit 3 (of_bool (inp ! 0 = 61)) OR push_bit 2 (of_bool (inp ! 1 = 61))
                 OR push_bit 1 (of_bool (inp ! 2 = 61)) OR of_bool (inp ! 3 = 61) :: u32 in
        if padding_pattern = 0 then Some [ucast (drop_bit 16 v), ucast (drop_bit 8 v), ucast v]
        else if padding_pattern = 1 then Some [ucast (drop_bit 16 v), ucast (drop_bit 8 v)]
        else if padding_pattern = 3 then Some [ucast (drop_bit 16 v)]
        else None)"

definition is_base64_space :: "u8 \<Rightarrow> bool" where
  "is_base64_space c \<longleftrightarrow> c = 32 \<or> c = 9 \<or> c = 13 \<or> c = 10"

text \<open>
  The loop of \<open>EVP_DecodeUpdate\<close>: the context, the bytes written, and whether the
  loop ran to its end (else the function has returned \<open>-1\<close>).
\<close>

fun decode_update_loop :: "evp_encode_ctx \<Rightarrow> bytes \<Rightarrow> bytes \<Rightarrow> evp_encode_ctx \<times> bytes \<times> bool" where
  "decode_update_loop ctx out [] = (ctx, out, True)"
| "decode_update_loop ctx out (c # inp) =
     (if is_base64_space c then decode_update_loop ctx out inp
      else if eof_seen ctx then (ctx\<lparr>error_encountered := True\<rparr>, out, False)
      else let ctx = ctx\<lparr>ctx_data := (ctx_data ctx)[data_used ctx := c], data_used := data_used ctx + 1\<rparr> in
        if data_used ctx = 4 then
          (case base64_decode_quad (ctx_data ctx) of
            None \<Rightarrow> (ctx\<lparr>error_encountered := True\<rparr>, out, False)
          | Some bs \<Rightarrow>
              let ctx = ctx\<lparr>data_used := 0\<rparr> in
              decode_update_loop (if length bs < 3 then ctx\<lparr>eof_seen := True\<rparr> else ctx) (out @ bs) inp)
        else decode_update_loop ctx out inp)"

text \<open>The new context, the memory written at \<open>out\<close>, \<open>*out_len\<close> and the result.\<close>

definition EVP_DecodeUpdate :: "evp_encode_ctx \<Rightarrow> bytes \<Rightarrow> evp_encode_ctx \<times> bytes \<times> nat \<times> int" where
  "EVP_DecodeUpdate ctx inp =
     (if error_encountered ctx then (ctx, [], 0, - 1)
      else case decode_update_loop ctx [] inp of
        (ctx, out, ok) \<Rightarrow>
          if \<not> ok then (ctx, out, 0, - 1)
          else if length out > INT_MAX then (ctx\<lparr>error_encountered := True\<rparr>, out, 0, - 1)
          else (ctx, out, length out, if eof_seen ctx then 0 else 1))"

definition EVP_DecodeFinal :: "evp_encode_ctx \<Rightarrow> nat \<times> int" where
  "EVP_DecodeFinal ctx = (0, if error_encountered ctx \<or> data_used ctx \<noteq> 0 then - 1 else 1)"

text \<open>The loop of \<open>EVP_DecodeBase64\<close> takes four characters at a time.\<close>

fun decode_base64_loop :: "bytes \<Rightarrow> bytes \<Rightarrow> bytes option" where
  "decode_base64_loop out (a # b # c # d # inp) =
     (case base64_decode_quad [a, b, c, d] of
       None \<Rightarrow> None
     | Some bs \<Rightarrow> if length bs \<noteq> 3 \<and> inp \<noteq> [] then None else decode_base64_loop (out @ bs) inp)"
| "decode_base64_loop out _ = Some out"

definition EVP_DecodeBase64 :: "nat \<Rightarrow> bytes \<Rightarrow> bytes option" where
  "EVP_DecodeBase64 max_out inp =
     (if length inp mod 4 \<noteq> 0 then None
      else case EVP_DecodedLength (length inp) of
        None \<Rightarrow> None
      | Some max_len \<Rightarrow> if max_out < max_len then None else decode_base64_loop [] inp)"

definition trim_end :: "bytes \<Rightarrow> bytes" where
  "trim_end src = rev (dropWhile is_base64_space (rev src))"

function pad_to_3 :: "bytes \<Rightarrow> bytes" where
  "pad_to_3 dst = (if length dst mod 3 \<noteq> 0 then pad_to_3 (dst @ [0]) else dst)"
  by pat_completeness auto
termination
proof (relation "measure (\<lambda>dst. (3 - length dst mod 3) mod 3)", simp, goal_cases)
  case (1 dst)
  then show ?case by (simp add: mod_Suc) linarith
qed

declare pad_to_3.simps [simp del]

definition EVP_DecodeBlock :: "bytes \<Rightarrow> bytes option" where
  "EVP_DecodeBlock src0 =
     (let src = dropWhile (\<lambda>c. c = 32 \<or> c = 9) src0; src = trim_end src in
      case EVP_DecodedLength (length src) of
        None \<Rightarrow> None
      | Some dst_len \<Rightarrow>
          if dst_len > INT_MAX then None
          else map_option pad_to_3 (EVP_DecodeBase64 dst_len src))"

section \<open>The constant-time helpers\<close>

lemma bit_63_iff: "bit x 63 \<longleftrightarrow> 2 ^ 63 \<le> unat x" for x :: u64
proof -
  have "bit x 63 \<longleftrightarrow> bit (unat x) 63" by (simp add: bit_unsigned_iff)
  also have "\<dots> \<longleftrightarrow> odd (unat x div 2 ^ 63)" by (simp add: bit_iff_odd)
  also have "\<dots> \<longleftrightarrow> 2 ^ 63 \<le> unat x"
  proof (cases "2 ^ 63 \<le> unat x")
    case True
    have "unat x < 2 ^ 64" using unsigned_less [of x, where ?'a = nat] by simp
    with True have "unat x div 2 ^ 63 = 1" by (intro div_nat_eqI) auto
    with True show ?thesis by simp
  next
    case False
    then have "unat x div 2 ^ 63 = 0" by simp
    with False show ?thesis by simp
  qed
  finally show ?thesis .
qed

lemma msb_w: "constant_time_msb_w a = (if bit a 63 then - 1 else 0)"
proof -
  have "bit (drop_bit 63 a) n = bit (of_bool (bit a 63) :: u64) n" for n
    using bit_imp_le_length [of a "63 + n"] by (cases n) (auto simp: bit_simps)
  then have "drop_bit 63 a = of_bool (bit a 63)" by (intro bit_word_eqI)
  then show ?thesis by (simp add: constant_time_msb_w_def)
qed

lemma is_zero_w: "constant_time_is_zero_w a = (if a = 0 then - 1 else 0)"
proof (cases "a = 0")
  case False
  then have "unat (a - 1) = unat a - 1" by (simp add: unat_minus_one)
  then have "\<not> (\<not> bit a 63 \<and> bit (a - 1) 63)" by (auto simp: bit_63_iff)
  with False show ?thesis by (auto simp: constant_time_is_zero_w_def msb_w bit_simps)
qed (simp add: constant_time_is_zero_w_def msb_w)

lemma eq_w: "constant_time_eq_w a b = (if a = b then - 1 else 0)"
proof -
  have "a = (a XOR b) XOR b" by (simp add: xor.assoc)
  then have "a XOR b = 0 \<Longrightarrow> a = b" by simp
  then show ?thesis by (auto simp: constant_time_eq_w_def is_zero_w)
qed

lemma unat_sub_64: "unat (a - b) = (if unat b \<le> unat a then unat a - unat b else unat a + 2 ^ 64 - unat b)" for a b :: u64
  by (simp add: unat_sub_if_size word_size)

lemma lt_w: "constant_time_lt_w a b = (if a < b then - 1 else 0)"
proof -
  have "unat a < 2 ^ 64" "unat b < 2 ^ 64"
    using unsigned_less [of a, where ?'a = nat] unsigned_less [of b, where ?'a = nat] by simp_all
  moreover have "bit (a XOR ((a XOR b) OR ((a - b) XOR a))) 63
      \<longleftrightarrow> (if bit a 63 = bit b 63 then bit (a - b) 63 else bit b 63)"
    by (auto simp: bit_xor_iff bit_or_iff)
  ultimately have "bit (a XOR ((a XOR b) OR ((a - b) XOR a))) 63 \<longleftrightarrow> a < b"
    by (simp add: bit_63_iff unat_sub_64 word_less_nat_alt) linarith
  then show ?thesis by (simp add: constant_time_lt_w_def msb_w)
qed

lemma u8_le: "unat b \<le> 255" for b :: u8
  using u8_less [of b] by linarith

lemma u8_in_64: "unat (ucast x :: u64) = unat x" for x :: u8
  using less_trans [OF u8_less [of x], of "2 ^ 64"] by (simp add: unsigned_ucast_eq take_bit_nat_eq_self)

lemma ucast_minus_1: "(ucast (- 1 :: u64) :: u8) = 0xff"
  by (rule bits_eqI) (simp add: bit_simps upt_rec)

lemma lt_args_8: "constant_time_lt_args_8 a b = (if a < b then 0xff else 0)"
proof -
  have "bit (ucast a - ucast b :: u64) 63 \<longleftrightarrow> a < b"
    using u8_le [of a] u8_le [of b] by (auto simp: bit_63_iff unat_sub_64 u8_in_64 word_less_nat_alt)
  then show ?thesis by (simp add: constant_time_lt_args_8_def msb_w ucast_minus_1)
qed

lemma eq_8: "constant_time_eq_8 a b = (if a = b then 0xff else 0)"
  by (simp add: constant_time_eq_8_def eq_w ucast_minus_1)

lemma u8_255: "(255 :: u8) AND x = x" "(- 256 :: u8) = 0" "NOT (255 :: u8) = 0" "x OR (255 :: u8) = 255"
    "x AND (255 :: u8) = x"
proof -
  have m: "(255 :: u8) = - 1" by simp
  show "(255 :: u8) AND x = x" "(- 256 :: u8) = 0" "NOT (255 :: u8) = 0" "x OR (255 :: u8) = 255" "x AND (255 :: u8) = x"
    unfolding m by simp_all
qed

lemma select_8: "constant_time_select_8 (ucast (if c then 0xff else 0 :: u8)) a b = (if c then a else b)"
proof -
  have "(ucast (ucast (0xff :: u8) :: u64) :: u8) = 0xff" by simp
  then show ?thesis by (cases c) (simp_all add: constant_time_select_8_def Let_def u8_255)
qed

lemma unat_sub_8: "unat (a - b) = (if unat b \<le> unat a then unat a - unat b else unat a + 2 ^ 8 - unat b)" for a b :: u8
  by (simp add: unat_sub_if_size word_size)

lemma in_range_8:
  assumes "mn \<le> mx" "unat mx - unat mn < 255"
  shows "constant_time_in_range_8 a mn mx = (if mn \<le> a \<and> a \<le> mx then 0xff else 0)"
proof -
  have "unat (mx - mn + 1) = unat mx - unat mn + 1"
    using assms by (simp add: unat_word_ariths(1) unat_sub_8 word_le_nat_alt)
  then have "a - mn < mx - mn + 1 \<longleftrightarrow> mn \<le> a \<and> a \<le> mx"
    using assms(1) u8_le [of a] u8_le [of mx] unfolding word_le_nat_alt word_less_nat_alt unat_sub_8 by auto
  then show ?thesis by (simp add: constant_time_in_range_8_def lt_args_8)
qed

section \<open>The alphabet\<close>

text \<open>The alphabet of RFC 4648.\<close>

definition base64_char :: "nat \<Rightarrow> u8" where
  "base64_char n = (if n < 26 then 65 + of_nat n else if n < 52 then 97 + of_nat (n - 26)
     else if n < 62 then 48 + of_nat (n - 52) else if n = 62 then 43 else 47)"

lemma conv_bin2ascii_char: "conv_bin2ascii a = base64_char (unat a mod 64)"
proof -
  define x where "x = a AND 0x3f"
  have x: "unat x = unat a mod 64" unfolding x_def using unat_and_mask [of a 6] by (simp add: mask_eq_exp_minus_1)
  have sub: "x - of_nat k = of_nat (unat x - k)" if "k \<le> unat x" for k
    using that by (simp add: of_nat_diff)
  have eq: "(ucast x :: u64) = 62 \<longleftrightarrow> x = 62"
    by (simp only: word_unat_eq_iff u8_in_64) simp
  have conv: "conv_bin2ascii a = (if x < 26 then x + 65 else if x < 52 then x - 26 + 97
     else if x < 62 then x - 52 + 48 else if x = 62 then 43 else 47)"
    unfolding conv_bin2ascii_def Let_def x_def [symmetric] lt_args_8 eq_8 select_8 eq by (rule refl)
  have lt: "x < 26 \<longleftrightarrow> unat x < 26" "x < 52 \<longleftrightarrow> unat x < 52" "x < 62 \<longleftrightarrow> unat x < 62"
    "x = 62 \<longleftrightarrow> unat x = 62"
    by (simp_all add: word_less_nat_alt word_unat_eq_iff [of x])
  show ?thesis
    unfolding conv x [symmetric] base64_char_def lt
    using sub [of 26] sub [of 52] by (simp del: of_nat_diff add: add.commute [of _ x])
qed

lemma if_mask: "(if c then 0xff else 0 :: u8) AND x = (if c then x else 0)"
  by (simp add: u8_255)

lemma ascii_to_bin:
  "base64_ascii_to_bin a =
     (if 65 \<le> unat a \<and> unat a \<le> 90 then of_nat (unat a - 65)
      else if 97 \<le> unat a \<and> unat a \<le> 122 then of_nat (unat a - 71)
      else if 48 \<le> unat a \<and> unat a \<le> 57 then of_nat (unat a + 4)
      else if unat a = 43 then 62 else if unat a = 47 then 63 else if unat a = 61 then 0 else 0xff)"
proof -
  have range: "constant_time_in_range_8 a 65 90 = (if 65 \<le> unat a \<and> unat a \<le> 90 then 0xff else 0)"
    "constant_time_in_range_8 a 97 122 = (if 97 \<le> unat a \<and> unat a \<le> 122 then 0xff else 0)"
    "constant_time_in_range_8 a 48 57 = (if 48 \<le> unat a \<and> unat a \<le> 57 then 0xff else 0)"
    by (simp_all add: in_range_8 word_le_nat_alt)
  have eq: "constant_time_eq_8 (ucast a) 43 = (if unat a = 43 then 0xff else 0)"
    "constant_time_eq_8 (ucast a) 47 = (if unat a = 47 then 0xff else 0)"
    "constant_time_eq_8 (ucast a) 61 = (if unat a = 61 then 0xff else 0)"
    by (simp_all add: eq_8 word_unat_eq_iff u8_in_64)
  have sub: "a - 65 = of_nat (unat a - 65)" if "65 \<le> unat a" using that by (simp add: of_nat_diff)
  have sub': "a - 97 + 26 = of_nat (unat a - 71)" if "97 \<le> unat a" using that by (simp add: of_nat_diff)
  have add: "a - 48 + 52 = of_nat (unat a + 4)" by simp
  note unfolded = base64_ascii_to_bin_def [of a, unfolded Let_def range eq if_mask]
  consider "65 \<le> unat a \<and> unat a \<le> 90" | "97 \<le> unat a \<and> unat a \<le> 122" | "48 \<le> unat a \<and> unat a \<le> 57"
    | "unat a = 43" | "unat a = 47" | "unat a = 61"
    | "\<not> (65 \<le> unat a \<and> unat a \<le> 90)" "\<not> (97 \<le> unat a \<and> unat a \<le> 122)" "\<not> (48 \<le> unat a \<and> unat a \<le> 57)"
      "unat a \<noteq> 43" "unat a \<noteq> 47" "unat a \<noteq> 61" by blast
  then show ?thesis
  proof cases
    case 1
    with sub show ?thesis by (simp add: unfolded u8_255 del: of_nat_diff)
  next
    case 2
    with sub' show ?thesis by (simp add: unfolded u8_255 del: of_nat_diff)
  next
    case 3
    with add show ?thesis by (simp add: unfolded u8_255 del: of_nat_diff of_nat_add)
  qed (auto simp: unfolded u8_255)
qed

lemma unat_base64_char:
  "n < 64 \<Longrightarrow> unat (base64_char n) = (if n < 26 then 65 + n else if n < 52 then 71 + n
     else if n < 62 then n - 4 else if n = 62 then 43 else 47)"
  by (auto simp: base64_char_def unat_word_ariths(1) unat_of_nat_u8 simp del: of_nat_diff)

lemma ascii_to_bin_char: "n < 64 \<Longrightarrow> base64_ascii_to_bin (base64_char n) = of_nat n"
  by (cases "n = 63"; cases "n = 62") (auto simp: ascii_to_bin unat_base64_char)

lemma base64_char_plain:
  "n < 64 \<Longrightarrow> base64_char n \<noteq> 61 \<and> \<not> is_base64_space (base64_char n)"
  by (auto simp: is_base64_space_def word_unat_eq_iff unat_base64_char)

lemma ascii_to_bin_inv:
  assumes "base64_ascii_to_bin a \<noteq> 0xff" "a \<noteq> 61"
  shows "unat (base64_ascii_to_bin a) < 64 \<and> a = base64_char (unat (base64_ascii_to_bin a))"
proof -
  have a: "unat a \<noteq> 61" using assms(2) by (auto simp: word_unat_eq_iff)
  have "\<exists>n < 64. unat a = unat (base64_char n)"
  proof -
    consider "65 \<le> unat a \<and> unat a \<le> 90" | "97 \<le> unat a \<and> unat a \<le> 122" | "48 \<le> unat a \<and> unat a \<le> 57"
      | "unat a = 43" | "unat a = 47" using assms(1) a by (auto simp: ascii_to_bin split: if_splits)
    then show ?thesis
    proof cases
      case 1 then show ?thesis by (intro exI [of _ "unat a - 65"]) (auto simp: unat_base64_char)
    next
      case 2 then show ?thesis by (intro exI [of _ "unat a - 71"]) (auto simp: unat_base64_char)
    next
      case 3 then show ?thesis by (intro exI [of _ "unat a + 4"]) (auto simp: unat_base64_char)
    next
      case 4 then show ?thesis by (intro exI [of _ 62]) (auto simp: unat_base64_char)
    next
      case 5 then show ?thesis by (intro exI [of _ 63]) (auto simp: unat_base64_char)
    qed
  qed
  then obtain n where "n < 64" "a = base64_char n" by (auto simp: word_unat_eq_iff)
  then show ?thesis by (simp add: ascii_to_bin_char unat_of_nat_u8)
qed

lemma conv_back: "base64_ascii_to_bin (conv_bin2ascii b) = b AND 0x3f" "conv_bin2ascii b \<noteq> 61"
  "\<not> is_base64_space (conv_bin2ascii b)" "b AND 0x3f \<noteq> 0xff"
proof -
  have u: "unat (b AND 0x3f) = unat b mod 64" using unat_and_mask [of b 6] by (simp add: mask_eq_exp_minus_1)
  show "base64_ascii_to_bin (conv_bin2ascii b) = b AND 0x3f"
    unfolding conv_bin2ascii_char by (simp add: ascii_to_bin_char word_unat_eq_iff u unat_of_nat_u8)
  show "conv_bin2ascii b \<noteq> 61" "\<not> is_base64_space (conv_bin2ascii b)"
    using base64_char_plain [of "unat b mod 64"] by (simp_all add: conv_bin2ascii_char)
  show "b AND 0x3f \<noteq> 0xff"
  proof
    assume "b AND 0x3f = 0xff"
    then have "unat b mod 64 = 255" using u by simp
    moreover have "unat b mod 64 < 64" by simp
    ultimately show False by linarith
  qed
qed

lemma equals_bin: "base64_ascii_to_bin 61 = 0"
  by (simp add: ascii_to_bin)

section \<open>One quad\<close>

lemma quad_bits3:
  fixes x y z :: u8 defines "l \<equiv> push_bit 16 (ucast x) OR push_bit 8 (ucast y) OR ucast z :: u32"
  defines "v \<equiv> push_bit 18 (ucast (ucast (drop_bit 18 l) AND 0x3f :: u8)) OR push_bit 12 (ucast (ucast (drop_bit 12 l) AND 0x3f :: u8))
    OR push_bit 6 (ucast (ucast (drop_bit 6 l) AND 0x3f :: u8)) OR ucast (ucast l AND 0x3f :: u8) :: u32"
  shows "ucast (drop_bit 16 v) = x" "ucast (drop_bit 8 v) = y" "ucast v = z"
  unfolding v_def l_def by (rule bits_eqI; simp add: bit_simps upt_rec; simp add: numeral_eq_Suc)+

lemma quad_bits2:
  fixes x y :: u8 defines "l \<equiv> push_bit 16 (ucast x) OR push_bit 8 (ucast y) :: u32"
  defines "v \<equiv> push_bit 18 (ucast (ucast (drop_bit 18 l) AND 0x3f :: u8)) OR push_bit 12 (ucast (ucast (drop_bit 12 l) AND 0x3f :: u8))
    OR push_bit 6 (ucast (ucast (drop_bit 6 l) AND 0x3f :: u8)) OR ucast (0 :: u8) :: u32"
  shows "ucast (drop_bit 16 v) = x" "ucast (drop_bit 8 v) = y"
  unfolding v_def l_def by (rule bits_eqI; simp add: bit_simps upt_rec; simp add: numeral_eq_Suc)+

lemma quad_bits1:
  fixes x :: u8 defines "l \<equiv> push_bit 16 (ucast x) :: u32"
  defines "v \<equiv> push_bit 18 (ucast (ucast (drop_bit 18 l) AND 0x3f :: u8)) OR push_bit 12 (ucast (ucast (drop_bit 12 l) AND 0x3f :: u8))
    OR push_bit 6 (ucast (0 :: u8)) OR ucast (0 :: u8) :: u32"
  shows "ucast (drop_bit 16 v) = x"
  unfolding v_def l_def by (rule bits_eqI; simp add: bit_simps upt_rec; simp add: numeral_eq_Suc)

lemma decode_quad:
  "base64_decode_quad (encode_block_loop [x, y, z]) = Some [x, y, z]"
  "base64_decode_quad (encode_block_loop [x, y]) = Some [x, y]"
  "base64_decode_quad (encode_block_loop [x]) = Some [x]"
  using quad_bits3 [of x y z] quad_bits2 [of x y] quad_bits1 [of x]
  by (simp_all add: base64_decode_quad_def Let_def conv_back equals_bin del: push_bit_numeral)

section \<open>Blocks\<close>

lemma length_encode_block: "length (encode_block_loop s) = 4 * ((length s + 2) div 3)"
proof (induction s rule: encode_block_loop.induct)
  case (2 x y z src)
  have "(5 + length src) div 3 = Suc (Suc (Suc (length src)) div 3)" by presburger
  with 2 show ?case by (simp add: Let_def)
qed (simp_all add: Let_def)

lemma encode_block_append:
  "length s mod 3 = 0 \<Longrightarrow> encode_block_loop (s @ t) = encode_block_loop s @ encode_block_loop t"
  by (induction s rule: encode_block_loop.induct) (auto simp: Let_def)

lemma encode_block_3: "encode_block_loop (x # y # z # s) = encode_block_loop [x, y, z] @ encode_block_loop s"
  by (simp add: Let_def)

lemma encode_block_quad:
  "s \<noteq> [] \<Longrightarrow> length s \<le> 3 \<Longrightarrow> \<exists>a b c d. encode_block_loop s = [a, b, c, d] \<and> base64_decode_quad [a, b, c, d] = Some s"
  using decode_quad(1) [of "s ! 0" "s ! 1" "s ! 2"] decode_quad(2) [of "s ! 0" "s ! 1"] decode_quad(3) [of "s ! 0"]
  by (cases s rule: encode_block_loop.cases) (auto simp: Let_def)

lemma decode_base64_loop_enc: "decode_base64_loop out (encode_block_loop s) = Some (out @ s)"
proof (induction s arbitrary: out rule: encode_block_loop.induct)
  case (2 x y z src)
  obtain a b c d where q: "encode_block_loop [x, y, z] = [a, b, c, d]" "base64_decode_quad [a, b, c, d] = Some [x, y, z]"
    using encode_block_quad [of "[x, y, z]"] by auto
  have "decode_base64_loop out (encode_block_loop (x # y # z # src)) = decode_base64_loop (out @ [x, y, z]) (encode_block_loop src)"
    unfolding encode_block_3 [of x y z src] q(1) by (simp add: q(2))
  also have "\<dots> = Some ((out @ [x, y, z]) @ src)"
    by (rule 2 [OF refl])
  finally show ?case by simp
next
  case (3 v)
  obtain a b c d where q: "encode_block_loop [v] = [a, b, c, d]" "base64_decode_quad [a, b, c, d] = Some [v]"
    using encode_block_quad [of "[v]"] by auto
  show ?case unfolding q(1) by (simp add: q(2))
next
  case (4 v va)
  obtain a b c d where q: "encode_block_loop [v, va] = [a, b, c, d]" "base64_decode_quad [a, b, c, d] = Some [v, va]"
    using encode_block_quad [of "[v, va]"] by auto
  show ?case unfolding q(1) by (simp add: q(2))
qed simp

section \<open>Streaming\<close>

text \<open>The text a stream of input stands for: lines of 48 bytes, and a last shorter line.\<close>

function full_lines :: "bytes \<Rightarrow> bytes" where
  "full_lines s = (if length s \<ge> 48 then encode_block_loop (take 48 s) @ 10 # full_lines (drop 48 s) else [])"
  by pat_completeness auto
termination
  by (relation "measure length") auto

declare full_lines.simps [simp del]

definition last_line :: "bytes \<Rightarrow> bytes" where
  "last_line s = drop (48 * (length s div 48)) s"

definition base64_text :: "bytes \<Rightarrow> bytes" where
  "base64_text s = full_lines s @ (if last_line s = [] then [] else encode_block_loop (last_line s) @ [10])"

lemma length_last_line: "length (last_line s) = length s mod 48"
  by (simp add: last_line_def minus_mult_div_eq_mod)

lemma last_line_short: "length s < 48 \<Longrightarrow> last_line s = s"
  by (simp add: last_line_def)

lemma last_line_step: "48 \<le> length s \<Longrightarrow> last_line (drop 48 s) = last_line s"
  by (simp add: last_line_def le_div_geq add.commute)

lemma full_lines_short: "length s < 48 \<Longrightarrow> full_lines s = []"
  by (simp add: full_lines.simps)

lemma full_lines_step: "48 \<le> length s \<Longrightarrow> full_lines s = encode_block_loop (take 48 s) @ 10 # full_lines (drop 48 s)"
  by (simp add: full_lines.simps [of s])

lemma stream_append:
  "full_lines (xs @ ys) = full_lines xs @ full_lines (last_line xs @ ys)
    \<and> last_line (xs @ ys) = last_line (last_line xs @ ys)"
proof (induction xs rule: full_lines.induct)
  case (1 xs)
  show ?case
  proof (cases "length xs \<ge> 48")
    case True
    with 1 show ?thesis
      using last_line_step [of "xs @ ys"]
      by (simp add: full_lines_step [of "xs @ ys"] full_lines_step [of xs] last_line_step)
  next
    case False
    then show ?thesis by (simp add: full_lines_short last_line_short)
  qed
qed

lemma length_full_lines: "length (full_lines s) = 65 * (length s div 48)"
proof (induction s rule: full_lines.induct)
  case (1 s)
  then show ?case by (subst full_lines.simps) (auto simp: length_encode_block le_div_geq)
qed

lemma encode_update_loop_eq:
  "tot + length (full_lines inp) < size_mod \<Longrightarrow> encode_update_loop inp written tot
     = (Some (last_line inp, written @ full_lines inp, tot + length (full_lines inp)), written @ full_lines inp)"
proof (induction inp written tot rule: encode_update_loop.induct)
  case (1 inp written tot)
  show ?case
  proof (cases "length inp \<ge> 48")
    case True
    have len: "length (encode_block_loop (take 48 inp)) = 64" using True by (simp add: length_encode_block)
    with True 1(2) have small: "tot + 65 + length (full_lines (drop 48 inp)) < size_mod"
      by (simp add: full_lines_step)
    then have "size_add (size_add tot 64) 1 = tot + 65" by (simp add: size_add_exact)
    then show ?thesis
      using True 1(1) [of "EVP_EncodeBlock (take 48 inp)" "fst (EVP_EncodeBlock (take 48 inp))" "snd (EVP_EncodeBlock (take 48 inp))"] small len
      by (subst encode_update_loop.simps) (simp add: sizeof_data_def EVP_EncodeBlock_def full_lines_step last_line_step)
  next
    case False
    then show ?thesis by (subst encode_update_loop.simps) (simp add: sizeof_data_def full_lines_short last_line_short)
  qed
qed

text \<open>What the context holds after the input \<open>xs\<close>.\<close>

definition stream_inv :: "evp_encode_ctx \<Rightarrow> bytes \<Rightarrow> bool" where
  "stream_inv ctx xs \<longleftrightarrow> length (ctx_data ctx) = 48 \<and> data_used ctx = length (last_line xs)
     \<and> take (data_used ctx) (ctx_data ctx) = last_line xs"

lemma encode_update_stream:
  assumes "stream_inv ctx xs" "length ys \<le> 2 ^ 30" "EVP_EncodeUpdate ctx ys = (ctx', out, n)"
  shows "stream_inv ctx' (xs @ ys) \<and> full_lines (xs @ ys) = full_lines xs @ take n out"
proof -
  let ?p = "last_line xs"
  have p: "length ?p < 48" by (simp add: length_last_line)
  have data: "length (ctx_data ctx) = 48" "data_used ctx = length ?p" "take (length ?p) (ctx_data ctx) = ?p"
    using assms(1) by (auto simp: stream_inv_def)
  note app = stream_append [of xs ys]
  consider "ys = []" | "ys \<noteq> []" "length ?p + length ys < 48" | "ys \<noteq> []" "length ?p + length ys \<ge> 48" by linarith
  then show ?thesis
  proof cases
    case 1
    with assms show ?thesis by (auto simp: EVP_EncodeUpdate_def)
  next
    case 2
    have "length ys < 48 - length ?p" using 2 by linarith
    with 2 have u: "EVP_EncodeUpdate ctx ys = (ctx\<lparr>ctx_data := ?p @ ys @ drop (length ?p + length ys) (ctx_data ctx),
        data_used := length ?p + length ys\<rparr>, [], 0)"
      using data by (simp add: EVP_EncodeUpdate_def sizeof_data_def)
    with 2 assms(3) app data show ?thesis
      by (auto simp: stream_inv_def last_line_short full_lines_short)
  next
    case 3
    let ?w = "full_lines (?p @ ys)"
    have "length ?w = 65 * ((length ?p + length ys) div 48)" by (simp add: length_full_lines)
    also have "\<dots> \<le> 65 * ((48 + 2 ^ 30) div 48)"
      using p assms(2) by (intro mult_le_mono2 div_le_mono) simp
    finally have len: "length ?w \<le> INT_MAX" "length ?w < size_mod"
      by (auto simp: INT_MAX_def size_mod_def)
    have "EVP_EncodeUpdate ctx ys = (ctx\<lparr>ctx_data := last_line (?p @ ys) @ drop (length (last_line (?p @ ys)))
        (if ?p = [] then ctx_data ctx else take 48 (?p @ ys)), data_used := length (last_line (?p @ ys))\<rparr>,
        ?w @ [0], length ?w)"
    proof (cases "?p = []")
      case True
      with 3 data len show ?thesis
        by (simp add: EVP_EncodeUpdate_def sizeof_data_def encode_update_loop_eq)
    next
      case False
      let ?q = "?p @ take (48 - length ?p) ys" and ?r = "drop (48 - length ?p) ys"
      have s: "?p @ ys = ?q @ ?r" "length ?q = 48" using 3 p by simp_all
      then have w: "?w = encode_block_loop ?q @ 10 # full_lines ?r" "last_line (?p @ ys) = last_line ?r"
        using 3 full_lines_step [of "?p @ ys"] last_line_step [of "?p @ ys"] p by simp_all
      have e: "length (encode_block_loop ?q) = 64" unfolding length_encode_block s(2) by simp
      have loop: "encode_update_loop ?r (encode_block_loop ?q @ [10]) 65
          = (Some (last_line ?r, ?w, length ?w), ?w)"
        using encode_update_loop_eq [of 65 ?r "encode_block_loop ?q @ [10]"] len(2) e unfolding w(1) by simp
      have todo: "48 - length ?p \<le> length ys" using 3 by simp
      show ?thesis
        using False 3(1) data len(1) todo s(2) e loop p
        by (simp add: EVP_EncodeUpdate_def sizeof_data_def EVP_EncodeBlock_def w(2) Let_def)
    qed
    moreover obtain D where D: "D = (if ?p = [] then ctx_data ctx else take 48 (?p @ ys))" by blast
    ultimately have u: "EVP_EncodeUpdate ctx ys = (ctx\<lparr>ctx_data := last_line (?p @ ys) @ drop (length (last_line (?p @ ys))) D,
        data_used := length (last_line (?p @ ys))\<rparr>, ?w @ [0], length ?w)" by simp
    have "length D = 48" using 3 data p unfolding D by simp
    moreover have "length (last_line (?p @ ys)) \<le> 48" by (simp add: length_last_line)
    ultimately show ?thesis using assms(3) app unfolding u by (auto simp: stream_inv_def)
  qed
qed

text \<open>A whole stream: the output of the updates, each as long as \<open>*out_len\<close> says, then of the final call.\<close>

fun encode_updates :: "evp_encode_ctx \<Rightarrow> bytes list \<Rightarrow> evp_encode_ctx \<times> bytes" where
  "encode_updates ctx [] = (ctx, [])"
| "encode_updates ctx (c # cs) =
     (case EVP_EncodeUpdate ctx c of (ctx, out, n) \<Rightarrow>
      case encode_updates ctx cs of (ctx, rest) \<Rightarrow> (ctx, take n out @ rest))"

definition encode_stream :: "bytes list \<Rightarrow> bytes" where
  "encode_stream cs = (case encode_updates EVP_EncodeInit cs of (ctx, out) \<Rightarrow>
     case EVP_EncodeFinal ctx of (_, fin, n) \<Rightarrow> out @ take n fin)"

lemma encode_updates_stream:
  assumes "stream_inv ctx xs" "list_all (\<lambda>c. length c \<le> 2 ^ 30) cs" "encode_updates ctx cs = (ctx', out)"
  shows "stream_inv ctx' (xs @ concat cs) \<and> full_lines (xs @ concat cs) = full_lines xs @ out"
  using assms
proof (induction cs arbitrary: ctx xs out)
  case (Cons c cs)
  obtain ctx1 o1 n where u: "EVP_EncodeUpdate ctx c = (ctx1, o1, n)" by (metis prod_cases3)
  obtain rest where r: "encode_updates ctx1 cs = (ctx', rest)" "out = take n o1 @ rest"
    using Cons.prems(3) u by (auto split: prod.splits)
  have "length c \<le> 2 ^ 30" using Cons.prems(2) by simp
  from encode_update_stream [OF Cons.prems(1) this u] Cons.IH [OF _ _ r(1), of "xs @ c"] Cons.prems(2) r(2)
  show ?case by simp
qed simp

lemma encode_final_stream:
  "stream_inv ctx xs \<Longrightarrow> EVP_EncodeFinal ctx = (ctx', out, n) \<Longrightarrow>
     take n out = (if last_line xs = [] then [] else encode_block_loop (last_line xs) @ [10])"
  by (auto simp: stream_inv_def EVP_EncodeFinal_def EVP_EncodeBlock_def split: if_splits)

lemma encode_stream_text:
  assumes "list_all (\<lambda>c. length c \<le> 2 ^ 30) cs"
  shows "encode_stream cs = base64_text (concat cs)"
proof -
  have "stream_inv EVP_EncodeInit []"
    by (simp add: stream_inv_def EVP_EncodeInit_def sizeof_data_def last_line_def)
  moreover obtain ctx out where u: "encode_updates EVP_EncodeInit cs = (ctx, out)" by fastforce
  ultimately have "stream_inv ctx (concat cs)" "full_lines (concat cs) = out"
    using encode_updates_stream [of EVP_EncodeInit "[]" cs ctx out] assms
    by (auto simp: full_lines_short)
  moreover obtain ctx' l n where f: "EVP_EncodeFinal ctx = (ctx', l, n)" by (metis prod_cases3)
  ultimately show ?thesis
    using encode_final_stream [of ctx "concat cs" ctx' l n] by (simp add: encode_stream_def u base64_text_def)
qed

subsection \<open>Decoding a stream\<close>

lemma decode_loop_append:
  "decode_update_loop ctx out (xs @ ys) =
     (case decode_update_loop ctx out xs of (ctx, out, ok) \<Rightarrow>
        if ok then decode_update_loop ctx out ys else (ctx, out, ok))"
  by (induction ctx out xs rule: decode_update_loop.induct)
    (auto simp: Let_def split: option.splits)

declare decode_update_loop.simps(2) [simp del]

text \<open>The context between two quads.\<close>

definition quad_start :: "evp_encode_ctx \<Rightarrow> bool" where
  "quad_start ctx \<longleftrightarrow> length (ctx_data ctx) = 48 \<and> data_used ctx = 0 \<and> \<not> eof_seen ctx \<and> \<not> error_encountered ctx"

lemma length_48: "length xs = 48 \<Longrightarrow> \<exists>a b c d t. xs = a # b # c # d # t"
  by (cases xs; cases "tl xs"; cases "tl (tl xs)"; cases "tl (tl (tl xs))") auto

lemma decode_loop_quad:
  assumes "quad_start ctx" "list_all (\<lambda>c. \<not> is_base64_space c) [a, b, c, d]"
    "base64_decode_quad [a, b, c, d] = Some bs"
  shows "\<exists>dat. length dat = 48 \<and> decode_update_loop ctx out ([a, b, c, d] @ s)
     = decode_update_loop (ctx\<lparr>ctx_data := dat, eof_seen := length bs < 3\<rparr>) (out @ bs) s"
proof -
  from assms(1) length_48 [of "ctx_data ctx"] obtain w x y z t where dat: "ctx_data ctx = w # x # y # z # t"
    and len: "length t = 44" by (auto simp: quad_start_def)
  have quad: "base64_decode_quad ([a, b, c, d] @ t) = base64_decode_quad [a, b, c, d]"
    by (simp add: base64_decode_quad_def)
  have "decode_update_loop ctx out ([a, b, c, d] @ s)
      = decode_update_loop (ctx\<lparr>ctx_data := [a, b, c, d] @ t, eof_seen := length bs < 3\<rparr>) (out @ bs) s"
    using assms(1-3) quad dat
    by (cases ctx) (simp add: quad_start_def Let_def decode_update_loop.simps(2) numeral_2_eq_2 numeral_3_eq_3)
  with len show ?thesis
    by (intro exI [of _ "[a, b, c, d] @ t"]) (simp del: decode_update_loop.simps)
qed

lemma encode_block_plain: "list_all (\<lambda>c. \<not> is_base64_space c) (encode_block_loop s)"
proof -
  have eq: "\<not> is_base64_space 61" by (simp add: is_base64_space_def)
  show ?thesis by (induction s rule: encode_block_loop.induct) (simp_all add: Let_def conv_back(3) eq)
qed

lemma block_quad:
  assumes "xs \<noteq> []" "length xs \<le> 3"
  shows "\<exists>a b c d. encode_block_loop xs = [a, b, c, d] \<and> base64_decode_quad [a, b, c, d] = Some xs
    \<and> list_all (\<lambda>c. \<not> is_base64_space c) [a, b, c, d]"
  using encode_block_quad [OF assms] encode_block_plain [of xs] by auto

lemma decode_loop_block:
  assumes "quad_start ctx" "xs \<noteq> []"
  shows "\<exists>dat. length dat = 48 \<and> decode_update_loop ctx out (encode_block_loop xs @ s)
     = decode_update_loop (ctx\<lparr>ctx_data := dat, eof_seen := length xs mod 3 \<noteq> 0\<rparr>) (out @ xs) s"
  using assms
proof (induction xs arbitrary: ctx out rule: encode_block_loop.induct)
  case (2 x y z src)
  obtain a b c d where q: "encode_block_loop [x, y, z] = [a, b, c, d]" "base64_decode_quad [a, b, c, d] = Some [x, y, z]"
    "list_all (\<lambda>c. \<not> is_base64_space c) [a, b, c, d]"
    using block_quad [of "[x, y, z]"] by auto
  obtain dat where dat: "length dat = 48" "decode_update_loop ctx out ([a, b, c, d] @ encode_block_loop src @ s)
     = decode_update_loop (ctx\<lparr>ctx_data := dat, eof_seen := False\<rparr>) (out @ [x, y, z]) (encode_block_loop src @ s)"
    using decode_loop_quad [OF 2(2) q(3,2)] by auto
  have start: "quad_start (ctx\<lparr>ctx_data := dat, eof_seen := False\<rparr>)"
    using 2(2) dat(1) by (simp add: quad_start_def)
  have eq: "encode_block_loop (x # y # z # src) @ s = [a, b, c, d] @ encode_block_loop src @ s"
    unfolding encode_block_3 [of x y z src] q(1) by simp
  have m: "length (x # y # z # src) mod 3 = length src mod 3" by simp
  show ?case
  proof (cases "src = []")
    case True
    with dat show ?thesis unfolding eq by auto
  next
    case False
    from 2(1) [OF refl start False, of "out @ [x, y, z]"] show ?thesis
      unfolding eq dat(2) m by auto
  qed
next
  case (3 v)
  obtain a b c d where q: "encode_block_loop [v] = [a, b, c, d]" "base64_decode_quad [a, b, c, d] = Some [v]"
    "list_all (\<lambda>c. \<not> is_base64_space c) [a, b, c, d]" using block_quad [of "[v]"] by auto
  from decode_loop_quad [OF 3(1) q(3,2)] show ?case unfolding q(1) by simp
next
  case (4 v va)
  obtain a b c d where q: "encode_block_loop [v, va] = [a, b, c, d]" "base64_decode_quad [a, b, c, d] = Some [v, va]"
    "list_all (\<lambda>c. \<not> is_base64_space c) [a, b, c, d]" using block_quad [of "[v, va]"] by auto
  from decode_loop_quad [OF 4(1) q(3,2)] show ?case unfolding q(1) by simp
qed simp

lemma decode_loop_newline: "decode_update_loop ctx out (10 # s) = decode_update_loop ctx out s"
  by (simp add: decode_update_loop.simps(2) is_base64_space_def)

lemma decode_loop_lines:
  assumes "quad_start ctx"
  shows "\<exists>dat. length dat = 48 \<and> decode_update_loop ctx out (full_lines xs @ s)
     = decode_update_loop (ctx\<lparr>ctx_data := dat\<rparr>) (out @ take (48 * (length xs div 48)) xs) s"
  using assms
proof (induction xs arbitrary: ctx out rule: full_lines.induct)
  case (1 xs)
  show ?case
  proof (cases "length xs \<ge> 48")
    case True
    then have t: "take 48 xs \<noteq> []" by auto
    obtain dat where dat: "length dat = 48" "decode_update_loop ctx out (encode_block_loop (take 48 xs) @ 10 # full_lines (drop 48 xs) @ s)
       = decode_update_loop (ctx\<lparr>ctx_data := dat, eof_seen := False\<rparr>) (out @ take 48 xs) (full_lines (drop 48 xs) @ s)"
      using decode_loop_block [OF 1(2) t, of out "10 # full_lines (drop 48 xs) @ s"] True
      unfolding decode_loop_newline by auto
    have start: "quad_start (ctx\<lparr>ctx_data := dat, eof_seen := False\<rparr>)"
      using 1(2) dat(1) by (simp add: quad_start_def)
    have eof: "ctx\<lparr>ctx_data := d, eof_seen := False\<rparr> = ctx\<lparr>ctx_data := d\<rparr>" for d
      using 1(2) by (cases ctx) (simp add: quad_start_def)
    have tk: "take (48 * (length xs div 48)) xs = take 48 xs @ take (48 * (length (drop 48 xs) div 48)) (drop 48 xs)"
      using True by (simp add: le_div_geq take_add)
    have fl: "full_lines xs @ s = encode_block_loop (take 48 xs) @ 10 # full_lines (drop 48 xs) @ s"
      by (simp add: full_lines_step [OF True])
    from 1(1) [OF True start, of "out @ take 48 xs"] obtain d where d: "length d = 48"
      "decode_update_loop (ctx\<lparr>ctx_data := dat, eof_seen := False\<rparr>) (out @ take 48 xs) (full_lines (drop 48 xs) @ s)
       = decode_update_loop (ctx\<lparr>ctx_data := dat, eof_seen := False, ctx_data := d\<rparr>)
           ((out @ take 48 xs) @ take (48 * (length (drop 48 xs) div 48)) (drop 48 xs)) s" by blast
    have r: "ctx\<lparr>ctx_data := dat, eof_seen := False, ctx_data := d\<rparr> = ctx\<lparr>ctx_data := d\<rparr>"
      using 1(2) by (cases ctx) (simp add: quad_start_def)
    show ?thesis using d(1) unfolding fl dat(2) d(2) r tk append_assoc by blast
  next
    case False
    with 1(2) show ?thesis by (intro exI [of _ "ctx_data ctx"]) (simp add: full_lines_short quad_start_def)
  qed
qed

lemma decode_loop_text:
  assumes "quad_start ctx"
  shows "\<exists>dat. decode_update_loop ctx [] (base64_text s)
     = (ctx\<lparr>ctx_data := dat, eof_seen := length s mod 3 \<noteq> 0\<rparr>, s, True)"
proof -
  have m: "length (last_line s) mod 3 = length s mod 3"
    by (simp add: length_last_line mod_mod_cancel)
  have s: "take (48 * (length s div 48)) s @ last_line s = s" by (simp add: last_line_def)
  obtain dat where dat: "length dat = 48" "decode_update_loop ctx [] (base64_text s)
     = decode_update_loop (ctx\<lparr>ctx_data := dat\<rparr>) (take (48 * (length s div 48)) s)
         (if last_line s = [] then [] else encode_block_loop (last_line s) @ [10])"
    using decode_loop_lines [OF assms, of "[]" s] unfolding base64_text_def by auto
  have start: "quad_start (ctx\<lparr>ctx_data := dat\<rparr>)" using assms dat(1) by (simp add: quad_start_def)
  show ?thesis
  proof (cases "last_line s = []")
    case True
    then have "length s mod 3 = 0" using m by simp
    moreover have "eof_seen ctx = False" using assms by (simp add: quad_start_def)
    ultimately show ?thesis using True s dat(2) by (cases ctx) auto
  next
    case False
    from decode_loop_block [OF start False, of "take (48 * (length s div 48)) s" "[10]"]
    show ?thesis using False dat(2) unfolding decode_loop_newline by (auto simp: s m)
  qed
qed

lemma decode_loop_out:
  "decode_update_loop ctx out xs =
     (case decode_update_loop ctx [] xs of (ctx, o1, ok) \<Rightarrow> (ctx, out @ o1, ok))"
proof (induction xs arbitrary: ctx out)
  case (Cons c xs)
  show ?case
    by (subst (1 2) decode_update_loop.simps(2), subst (1 2 3 4 5 6) Cons.IH)
      (auto simp: Let_def split: option.splits prod.splits)
qed simp

text \<open>A sequence of updates, ended by the final call; the output is what \<open>*out_len\<close> announces.\<close>

fun decode_updates :: "evp_encode_ctx \<Rightarrow> bytes list \<Rightarrow> evp_encode_ctx \<times> bytes" where
  "decode_updates ctx [] = (ctx, [])"
| "decode_updates ctx (c # cs) =
     (case EVP_DecodeUpdate ctx c of (ctx, out, n, _) \<Rightarrow>
      case decode_updates ctx cs of (ctx, rest) \<Rightarrow> (ctx, take n out @ rest))"

lemma decode_loop_ok_ctx:
  "decode_update_loop ctx out xs = (ctx', out', True) \<Longrightarrow> error_encountered ctx' = error_encountered ctx"
  by (induction ctx out xs rule: decode_update_loop.induct)
    (auto simp: decode_update_loop.simps(2) Let_def split: if_splits option.splits)

lemma decode_updates_loop:
  assumes "decode_update_loop ctx [] (concat cs) = (ctx', out, True)" "length out \<le> INT_MAX" "\<not> error_encountered ctx"
  shows "decode_updates ctx cs = (ctx', out)"
  using assms
proof (induction cs arbitrary: ctx out)
  case (Cons c cs)
  obtain ctx1 o1 ok where l: "decode_update_loop ctx [] c = (ctx1, o1, ok)" by (metis prod_cases3)
  with Cons.prems(1) have ok: "ok" and r: "decode_update_loop ctx1 o1 (concat cs) = (ctx', out, True)"
    by (auto simp: decode_loop_append split: if_splits)
  obtain o2 where o2: "decode_update_loop ctx1 [] (concat cs) = (ctx', o2, True)" "out = o1 @ o2"
    using r decode_loop_out [of ctx1 o1 "concat cs"] by (auto split: prod.splits)
  have err: "\<not> error_encountered ctx1" using decode_loop_ok_ctx [of ctx "[]" c] l ok Cons.prems(3) by auto
  have "decode_updates ctx1 cs = (ctx', o2)" using Cons.IH [OF o2(1) _ err] o2(2) Cons.prems(2) by simp
  moreover have "EVP_DecodeUpdate ctx c = (ctx1, o1, length o1, if eof_seen ctx1 then 0 else 1)"
    using l ok Cons.prems(2,3) o2(2) by (simp add: EVP_DecodeUpdate_def)
  ultimately show ?case by (simp add: o2(2))
qed simp

lemma pad_to_3: "pad_to_3 s = s @ replicate ((3 - length s mod 3) mod 3) 0"
proof (induction s rule: pad_to_3.induct)
  case (1 s)
  consider "length s mod 3 = 0" | "length s mod 3 = 1" | "length s mod 3 = 2" by linarith
  then show ?case
  proof cases
    case 1
    then show ?thesis by (simp add: pad_to_3.simps)
  next
    case 2
    then have "length (s @ [0]) mod 3 = 2" by (simp add: mod_Suc)
    with 1 2 show ?thesis by (subst pad_to_3.simps) (simp add: numeral_2_eq_2)
  next
    case 3
    then have "length (s @ [0]) mod 3 = 0" by (simp add: mod_Suc)
    with 1 3 show ?thesis by (subst pad_to_3.simps) simp
  qed
qed

lemma decoded_length: "length s < 2 ^ 62 \<Longrightarrow>
    EVP_DecodedLength (length (encode_block_loop s)) = Some (3 * ((length s + 2) div 3))"
  by (simp add: EVP_DecodedLength_def length_encode_block size_mul_def size_mod_def)

section \<open>Properties\<close>

text \<open>The constant-time alphabet is that of RFC 4648: \<open>conv_bin2ascii\<close> maps the six low bits to
  the character at that position, \<open>base64_ascii_to_bin\<close> inverts it, and yields 0xff exactly on the
  characters that are neither in the alphabet nor the padding character.\<close>

theorem base64_alphabet:
  "conv_bin2ascii a = base64_char (unat a mod 64)
    \<and> base64_ascii_to_bin (conv_bin2ascii a) = a AND 0x3f
    \<and> (base64_ascii_to_bin c = 0xff \<longleftrightarrow> c \<noteq> 61 \<and> c \<notin> range conv_bin2ascii)"
proof -
  have "base64_ascii_to_bin c \<noteq> 0xff" if "c \<in> range conv_bin2ascii" using that conv_back by auto
  moreover have "c \<in> range conv_bin2ascii" if "base64_ascii_to_bin c \<noteq> 0xff" "c \<noteq> 61"
  proof -
    from ascii_to_bin_inv [OF that] have "c = conv_bin2ascii (base64_ascii_to_bin c)"
      by (simp add: conv_bin2ascii_char)
    then show ?thesis by blast
  qed
  ultimately show ?thesis using conv_back(1) by (auto simp: conv_bin2ascii_char equals_bin)
qed

text \<open>C13 One-shot base64 round trip: what \<open>EVP_EncodeBlock\<close> writes fills exactly the
  \<open>EVP_EncodedLength\<close> bytes announced for it, NUL included, and \<open>EVP_DecodeBase64\<close> recovers the
  input from it in any buffer of the decoded length.\<close>

theorem base64_roundtrip:
  assumes "EVP_EncodeBlock src = (dst, n)" "length src < 2 ^ 62" "3 * ((length src + 2) div 3) \<le> max_out"
  shows "EVP_EncodedLength (length src) = Some (length dst) \<and> EVP_DecodeBase64 max_out (take n dst) = Some src"
proof -
  have d: "dst = encode_block_loop src @ [0]" "n = length (encode_block_loop src)"
    using assms(1) by (auto simp: EVP_EncodeBlock_def)
  have small: "4 * ((length src + 2) div 3) + 1 < size_mod" using assms(2) by (simp add: size_mod_def)
  then have "EVP_EncodedLength (length src) = Some (4 * ((length src + 2) div 3) + 1)"
    using assms(2) by (simp add: EVP_EncodedLength_def Let_def size_add_def size_mul_def size_mod_def)
  moreover have "EVP_DecodeBase64 max_out (encode_block_loop src) = Some src"
    using assms(3) decoded_length [OF assms(2)]
    by (simp add: EVP_DecodeBase64_def decode_base64_loop_enc del: length_encode_block) (simp add: length_encode_block)
  ultimately show ?thesis by (simp add: d length_encode_block)
qed

theorem base64_roundtrip_witness: "EVP_DecodeBase64 6 [81, 85, 74, 68, 82, 65, 61, 61] = Some [65, 66, 67, 68]"
proof -
  have "EVP_EncodeBlock [65, 66, 67, 68] = ([81, 85, 74, 68, 82, 65, 61, 61, 0], 8)"
    by (simp add: EVP_EncodeBlock_def Let_def conv_bin2ascii_char base64_char_def)
  from base64_roundtrip [OF this, of 6] show ?thesis by simp
qed

text \<open>Streaming: however the input is cut into chunks, the updates followed by the final call
  write the same text, the lines of 48 encoded bytes each of the whole input.\<close>

theorem base64_stream_text:
  assumes "list_all (\<lambda>c. length c \<le> 2 ^ 30) cs"
  shows "encode_stream cs = base64_text (concat cs)"
  using assms by (rule encode_stream_text)

theorem base64_stream_text_witness:
  "encode_stream [[65], [], [66, 67, 68]] = base64_text [65, 66, 67, 68]"
  using base64_stream_text [of "[[65], [], [66, 67, 68]]"] by simp

text \<open>C14 Streaming decode inverts streaming encode: feed data to \<open>EVP_EncodeUpdate\<close> in pieces
  \<open>ds\<close> of any sizes up to \<open>2 ^ 30\<close> and finish with \<open>EVP_EncodeFinal\<close>; cut the text the calls wrote
  into chunks \<open>cs\<close> in any other way and feed these to \<open>EVP_DecodeUpdate\<close>. Then the decoder writes
  the data, the final call reports success, and the end marker was seen exactly when the text ended
  in padding. The text itself is the base64 of the data in lines of 64 characters.\<close>

theorem base64_stream_roundtrip:
  assumes "list_all (\<lambda>d. length d \<le> 2 ^ 30) ds" "concat cs = encode_stream ds" "length (concat ds) \<le> INT_MAX"
  shows "\<exists>ctx. decode_updates EVP_DecodeInit cs = (ctx, concat ds) \<and> EVP_DecodeFinal ctx = (0, 1)
    \<and> (eof_seen ctx \<longleftrightarrow> length (concat ds) mod 3 \<noteq> 0) \<and> encode_stream ds = base64_text (concat ds)"
proof -
  have start: "quad_start EVP_DecodeInit" by (simp add: quad_start_def EVP_DecodeInit_def sizeof_data_def)
  note enc = encode_stream_text [OF assms(1)]
  from decode_loop_text [OF start, of "concat ds"] obtain dat where
    l: "decode_update_loop EVP_DecodeInit [] (concat cs)
      = (EVP_DecodeInit\<lparr>ctx_data := dat, eof_seen := length (concat ds) mod 3 \<noteq> 0\<rparr>, concat ds, True)"
    using assms(2) enc by auto
  from decode_updates_loop [OF l assms(3)] enc show ?thesis
    by (simp add: EVP_DecodeInit_def EVP_DecodeFinal_def)
qed

theorem base64_stream_roundtrip_witness:
  "\<exists>ctx. decode_updates EVP_DecodeInit [[81, 85, 74], [68, 82, 65, 61, 61, 10]] = (ctx, [65, 66, 67, 68])
    \<and> encode_stream [[65, 66], [], [67, 68]] = [81, 85, 74, 68, 82, 65, 61, 61, 10]"
proof -
  have t: "base64_text [65, 66, 67, 68] = [81, 85, 74, 68, 82, 65, 61, 61, 10]"
    by (simp add: base64_text_def full_lines_short last_line_short Let_def conv_bin2ascii_char base64_char_def)
  then have "concat [[81, 85, 74], [68, 82, 65, 61, 61, 10]] = encode_stream [[65, 66], [], [67, 68]]"
    by (simp add: encode_stream_text)
  from base64_stream_roundtrip [OF _ this] show ?thesis
    using t by (auto simp: INT_MAX_def)
qed

text \<open>\<open>EVP_DecodeBlock\<close> ignores blanks and tabs before the text and white space after it, and pads
  the decoded bytes with zeros to a multiple of three.\<close>

theorem decode_block_padded:
  assumes "set lead \<subseteq> {32, 9}" "list_all is_base64_space trail" "src \<noteq> []" "length src < 2 ^ 30"
  shows "EVP_DecodeBlock (lead @ encode_block_loop src @ trail)
    = Some (src @ replicate ((3 - length src mod 3) mod 3) 0)"
proof -
  let ?e = "encode_block_loop src"
  have ne: "?e \<noteq> []" using assms(3) length_encode_block [of src] by (cases src) auto
  then have hd: "\<not> (hd ?e = 32 \<or> hd ?e = 9)" and lst: "\<not> is_base64_space (last ?e)"
    using encode_block_plain [of src] by (auto simp: list_all_iff is_base64_space_def)
  have "dropWhile (\<lambda>c. c = 32 \<or> c = 9) (lead @ ?e @ trail) = ?e @ trail"
    using assms(1) ne hd by (subst dropWhile_append2) (auto simp: dropWhile_append3 dropWhile_eq_self_iff)
  moreover have "dropWhile is_base64_space (rev ?e) = rev ?e"
    using ne lst by (simp add: dropWhile_eq_self_iff hd_rev)
  then have "trim_end (?e @ trail) = ?e"
    using assms(2) unfolding trim_end_def rev_append by (subst dropWhile_append2) (auto simp: list_all_iff)
  moreover have len: "EVP_DecodedLength (length ?e) = Some (3 * ((length src + 2) div 3))"
    using assms(4) by (intro decoded_length) simp
  moreover have "3 * ((length src + 2) div 3) \<le> INT_MAX" using assms(4) by (simp add: INT_MAX_def)
  moreover have "length ?e mod 4 = 0" by (simp add: length_encode_block)
  ultimately show ?thesis
    by (simp add: EVP_DecodeBlock_def Let_def EVP_DecodeBase64_def decode_base64_loop_enc pad_to_3)
qed

theorem decode_block_padded_witness:
  "EVP_DecodeBlock [32, 81, 85, 74, 68, 82, 65, 61, 61, 10] = Some [65, 66, 67, 68, 0, 0]"
proof -
  have e: "[32] @ encode_block_loop [65, 66, 67, 68] @ [10] = [32, 81, 85, 74, 68, 82, 65, 61, 61, 10]"
    by (simp add: Let_def conv_bin2ascii_char base64_char_def)
  have "EVP_DecodeBlock ([32] @ encode_block_loop [65, 66, 67, 68] @ [10]) = Some ([65, 66, 67, 68] @ replicate 2 0)"
    using decode_block_padded [of "[32]" "[10]" "[65, 66, 67, 68]"] by (simp add: is_base64_space_def)
  then show ?thesis unfolding e by (simp add: numeral_2_eq_2)
qed

end
