(* ===== verification/Stack.thy ===== *)
theory Stack
  imports CBB_Props
begin

text \<open>
  \<open>crypto/stack/stack.c\<close>: the growing array of pointers behind \<open>STACK_OF\<close>. A
  pointer is \<open>None\<close> for \<open>NULL\<close> and otherwise the value it points to, which
  stands for its address as well; a stack that may be null is an \<open>option\<close>.
  Comparison functions are identified by a number, as function pointers are by
  their address, and \<open>call_cmp_func\<close> applies one, as in the C signatures. The
  cells of a block that has just grown hold \<open>fresh i\<close>.
\<close>

section \<open>State\<close>

record 'v stack =
  sk_num :: nat
  sk_data :: "'v option list"
  sk_sorted :: bool
  sk_num_alloc :: nat
  sk_comp :: "nat option"

type_synonym 'v call_cmp = "nat \<Rightarrow> 'v option \<Rightarrow> 'v option \<Rightarrow> int"

definition kMinSize :: nat where
  "kMinSize = 4"

definition sizeof_STACK :: nat where
  "sizeof_STACK = 40"

definition sizeof_ptr :: nat where
  "sizeof_ptr = 8"

section \<open>Operations\<close>

definition OPENSSL_sk_new :: "heap_env \<Rightarrow> nat option \<Rightarrow> 'v stack option" where
  "OPENSSL_sk_new env cmpf =
     (case OPENSSL_zalloc env sizeof_STACK of
       None \<Rightarrow> None
     | Some _ \<Rightarrow>
         (case OPENSSL_calloc env kMinSize sizeof_ptr of
           None \<Rightarrow> None
         | Some _ \<Rightarrow> Some \<lparr>sk_num = 0, sk_data = replicate kMinSize None, sk_sorted = False,
             sk_num_alloc = kMinSize, sk_comp = cmpf\<rparr>))"

definition OPENSSL_sk_new_null :: "heap_env \<Rightarrow> 'v stack option" where
  "OPENSSL_sk_new_null env = OPENSSL_sk_new env None"

definition OPENSSL_sk_num :: "'v stack option \<Rightarrow> nat" where
  "OPENSSL_sk_num sk = (case sk of None \<Rightarrow> 0 | Some s \<Rightarrow> sk_num s)"

definition OPENSSL_sk_zero :: "'v stack option \<Rightarrow> 'v stack option" where
  "OPENSSL_sk_zero sk = (case sk of None \<Rightarrow> None | Some s \<Rightarrow>
     if sk_num s = 0 then Some s
     else Some (s\<lparr>sk_data := replicate (sk_num s) None @ drop (sk_num s) (sk_data s), sk_num := 0,
       sk_sorted := False\<rparr>))"

definition OPENSSL_sk_value :: "'v stack option \<Rightarrow> nat \<Rightarrow> 'v option" where
  "OPENSSL_sk_value sk i = (case sk of None \<Rightarrow> None | Some s \<Rightarrow>
     if i \<ge> sk_num s then None else sk_data s ! i)"

definition OPENSSL_sk_set :: "'v stack option \<Rightarrow> nat \<Rightarrow> 'v option \<Rightarrow> 'v option \<times> 'v stack option" where
  "OPENSSL_sk_set sk i v = (case sk of None \<Rightarrow> (None, None) | Some s \<Rightarrow>
     if i \<ge> sk_num s then (None, Some s)
     else (v, Some (s\<lparr>sk_data := (sk_data s)[i := v]\<rparr>)))"

text \<open>The pointers that \<open>OPENSSL_sk_pop_free_ex\<close> passes to the free function, in order.\<close>

definition OPENSSL_sk_pop_free_ex :: "'v stack option \<Rightarrow> 'v list" where
  "OPENSSL_sk_pop_free_ex sk = (case sk of None \<Rightarrow> [] | Some s \<Rightarrow>
     List.map_filter (\<lambda>p. p) (take (sk_num s) (sk_data s)))"

text \<open>\<open>OPENSSL_memmove\<close> of \<open>n\<close> cells.\<close>

definition ptr_memmove :: "nat \<Rightarrow> nat \<Rightarrow> nat \<Rightarrow> 'a list \<Rightarrow> 'a list" where
  "ptr_memmove dst src n m = take dst m @ take n (drop src m) @ drop (dst + n) m"

text \<open>The part of \<open>OPENSSL_sk_insert\<close> that makes room; \<open>None\<close> when it returns 0.\<close>

definition sk_grow :: "heap_env \<Rightarrow> (nat \<Rightarrow> 'v option) \<Rightarrow> 'v stack \<Rightarrow> 'v stack option" where
  "sk_grow env fresh s =
     (if sk_num_alloc s \<le> sk_num s + 1 then
        let new_alloc = size_mul (sk_num_alloc s) 2;
            alloc_size = size_mul new_alloc sizeof_ptr;
            (new_alloc, alloc_size) =
              (if new_alloc < sk_num_alloc s \<or> alloc_size div sizeof_ptr \<noteq> new_alloc
               then (size_add (sk_num_alloc s) 1, size_mul (size_add (sk_num_alloc s) 1) sizeof_ptr)
               else (new_alloc, alloc_size)) in
        if new_alloc < sk_num_alloc s \<or> alloc_size div sizeof_ptr \<noteq> new_alloc then None
        else if OPENSSL_malloc env alloc_size = None then None
        else Some (s\<lparr>sk_data := sk_data s @ map fresh [sk_num_alloc s..<new_alloc], sk_num_alloc := new_alloc\<rparr>)
      else Some s)"

definition OPENSSL_sk_insert ::
  "heap_env \<Rightarrow> (nat \<Rightarrow> 'v option) \<Rightarrow> 'v stack option \<Rightarrow> 'v option \<Rightarrow> nat \<Rightarrow> nat \<times> 'v stack option" where
  "OPENSSL_sk_insert env fresh sk p pos = (case sk of None \<Rightarrow> (0, None) | Some s0 \<Rightarrow>
     if sk_num s0 \<ge> INT_MAX then (0, Some s0)
     else (case sk_grow env fresh s0 of None \<Rightarrow> (0, Some s0) | Some s \<Rightarrow>
       let d = (if pos \<ge> sk_num s then (sk_data s)[sk_num s := p]
                else (ptr_memmove (pos + 1) pos (sk_num s - pos) (sk_data s))[pos := p]) in
       (sk_num s + 1, Some (s\<lparr>sk_data := d, sk_num := sk_num s + 1, sk_sorted := False\<rparr>))))"

definition OPENSSL_sk_delete :: "'v stack option \<Rightarrow> nat \<Rightarrow> 'v option \<times> 'v stack option" where
  "OPENSSL_sk_delete sk pos = (case sk of None \<Rightarrow> (None, None) | Some s \<Rightarrow>
     if pos \<ge> sk_num s then (None, Some s)
     else let ret = sk_data s ! pos;
              d = (if pos \<noteq> sk_num s - 1
                   then ptr_memmove pos (pos + 1) (sk_num s - pos - 1) (sk_data s) else sk_data s) in
       (ret, Some (s\<lparr>sk_data := d, sk_num := sk_num s - 1\<rparr>)))"

text \<open>The loops \<open>for (i = 0; i < num; i++)\<close> that look for an index.\<close>

function scan_from :: "(nat \<Rightarrow> bool) \<Rightarrow> nat \<Rightarrow> nat \<Rightarrow> nat option" where
  "scan_from P i num = (if i < num then if P i then Some i else scan_from P (i + 1) num else None)"
  by pat_completeness auto
termination
  by (relation "measure (\<lambda>(P, i, num). num - i)") auto

declare scan_from.simps [simp del]

definition OPENSSL_sk_delete_ptr :: "'v stack option \<Rightarrow> 'v option \<Rightarrow> 'v option \<times> 'v stack option" where
  "OPENSSL_sk_delete_ptr sk p = (case sk of None \<Rightarrow> (None, None) | Some s \<Rightarrow>
     (case scan_from (\<lambda>i. sk_data s ! i = p) 0 (sk_num s) of
       None \<Rightarrow> (None, sk) | Some i \<Rightarrow> OPENSSL_sk_delete sk i))"

text \<open>The loop of \<open>OPENSSL_sk_delete_if\<close>, which compacts the array in place.\<close>

function delete_if_loop :: "('v option \<Rightarrow> bool) \<Rightarrow> nat \<Rightarrow> nat \<Rightarrow> nat \<Rightarrow> 'v option list \<Rightarrow> 'v option list \<times> nat" where
  "delete_if_loop func num i new_num d =
     (if i < num then
        if \<not> func (d ! i) then delete_if_loop func num (i + 1) (new_num + 1) (d[new_num := d ! i])
        else delete_if_loop func num (i + 1) new_num d
      else (d, new_num))"
  by pat_completeness auto
termination
  by (relation "measure (\<lambda>(f, num, i, k, d). num - i)") auto

declare delete_if_loop.simps [simp del]

definition OPENSSL_sk_delete_if :: "('v option \<Rightarrow> bool) \<Rightarrow> 'v stack option \<Rightarrow> 'v stack option" where
  "OPENSSL_sk_delete_if func sk = (case sk of None \<Rightarrow> None | Some s \<Rightarrow>
     case delete_if_loop func (sk_num s) 0 0 (sk_data s) of
       (d, new_num) \<Rightarrow> Some (s\<lparr>sk_data := d, sk_num := new_num\<rparr>))"

definition OPENSSL_sk_is_sorted :: "'v stack option \<Rightarrow> bool" where
  "OPENSSL_sk_is_sorted sk \<longleftrightarrow> (case sk of None \<Rightarrow> True | Some s \<Rightarrow>
     sk_sorted s \<or> (sk_comp s \<noteq> None \<and> sk_num s < 2))"

text \<open>The binary search of \<open>OPENSSL_sk_find\<close>; \<open>r\<close> compares the key with the element at an index.\<close>

function bsearch_loop :: "(nat \<Rightarrow> int) \<Rightarrow> nat \<Rightarrow> nat \<Rightarrow> nat option" where
  "bsearch_loop cmp lo hi =
     (if lo < hi then
        let mid = lo + (hi - lo - 1) div 2; r = cmp mid in
        if r > 0 then bsearch_loop cmp (mid + 1) hi
        else if r < 0 then bsearch_loop cmp lo mid
        else if hi - lo = 1 then Some mid
        else bsearch_loop cmp lo (mid + 1)
      else None)"
  by pat_completeness auto
termination
  by (relation "measure (\<lambda>(c, lo, hi). hi - lo)") (auto simp: Let_def)

declare bsearch_loop.simps [simp del]

definition OPENSSL_sk_find :: "'v call_cmp \<Rightarrow> 'v stack option \<Rightarrow> 'v option \<Rightarrow> nat option" where
  "OPENSSL_sk_find call_cmp_func sk p = (case sk of None \<Rightarrow> None | Some s \<Rightarrow>
     (case sk_comp s of
       None \<Rightarrow> scan_from (\<lambda>i. sk_data s ! i = p) 0 (sk_num s)
     | Some cmpf \<Rightarrow>
         if p = None then None
         else if \<not> OPENSSL_sk_is_sorted sk
         then scan_from (\<lambda>i. call_cmp_func cmpf p (sk_data s ! i) = 0) 0 (sk_num s)
         else bsearch_loop (\<lambda>i. call_cmp_func cmpf p (sk_data s ! i)) 0 (sk_num s)))"

definition OPENSSL_sk_shift :: "'v stack option \<Rightarrow> 'v option \<times> 'v stack option" where
  "OPENSSL_sk_shift sk = (case sk of None \<Rightarrow> (None, None) | Some s \<Rightarrow>
     if sk_num s = 0 then (None, sk) else OPENSSL_sk_delete sk 0)"

text \<open>\<open>OPENSSL_sk_push\<close> reads \<open>sk->num\<close>: it has no meaning for a null stack.\<close>

definition OPENSSL_sk_push ::
  "heap_env \<Rightarrow> (nat \<Rightarrow> 'v option) \<Rightarrow> 'v stack \<Rightarrow> 'v option \<Rightarrow> nat \<times> 'v stack option" where
  "OPENSSL_sk_push env fresh s p = OPENSSL_sk_insert env fresh (Some s) p (sk_num s)"

definition OPENSSL_sk_pop :: "'v stack option \<Rightarrow> 'v option \<times> 'v stack option" where
  "OPENSSL_sk_pop sk = (case sk of None \<Rightarrow> (None, None) | Some s \<Rightarrow>
     if sk_num s = 0 then (None, sk) else OPENSSL_sk_delete sk (sk_num s - 1))"

text \<open>\<open>OPENSSL_memdup\<close> of the whole array; it fails on an empty block.\<close>

definition OPENSSL_sk_dup :: "heap_env \<Rightarrow> 'v stack option \<Rightarrow> 'v stack option" where
  "OPENSSL_sk_dup env sk = (case sk of None \<Rightarrow> None | Some s \<Rightarrow>
     (case OPENSSL_zalloc env sizeof_STACK of
       None \<Rightarrow> None
     | Some _ \<Rightarrow>
         if size_mul sizeof_ptr (sk_num_alloc s) = 0
           \<or> OPENSSL_malloc env (size_mul sizeof_ptr (sk_num_alloc s)) = None then None
         else Some \<lparr>sk_num = sk_num s, sk_data = sk_data s, sk_sorted = sk_sorted s,
           sk_num_alloc = sk_num_alloc s, sk_comp = sk_comp s\<rparr>))"

definition parent_idx :: "nat \<Rightarrow> nat" where
  "parent_idx idx = (idx - 1) div 2"

definition left_idx :: "nat \<Rightarrow> nat" where
  "left_idx idx = 2 * idx + 1"

definition swap :: "nat \<Rightarrow> nat \<Rightarrow> 'a list \<Rightarrow> 'a list" where
  "swap i j d = (let tmp = d ! i; d = d[i := d ! j] in d[j := tmp])"

definition largest_child :: "('a \<Rightarrow> 'a \<Rightarrow> int) \<Rightarrow> nat \<Rightarrow> nat \<Rightarrow> 'a list \<Rightarrow> nat" where
  "largest_child cmp i num d =
     (let left = left_idx i;
          nxt = (if cmp (d ! i) (d ! left) < 0 then left else i);
          right = left + 1 in
      if right < num \<and> cmp (d ! nxt) (d ! right) < 0 then right else nxt)"

function down_heap :: "('a \<Rightarrow> 'a \<Rightarrow> int) \<Rightarrow> nat \<Rightarrow> nat \<Rightarrow> 'a list \<Rightarrow> 'a list" where
  "down_heap cmp i num d =
     (if left_idx i \<ge> num then d
      else let nxt = largest_child cmp i num d in
        if i = nxt then d else down_heap cmp nxt num (swap i nxt d))"
  by pat_completeness auto
termination
  by (relation "measure (\<lambda>(c, i, num, d). num - i)")
    (auto simp: largest_child_def left_idx_def Let_def split: if_splits)

declare down_heap.simps [simp del]

text \<open>
  The two loops of \<open>OPENSSL_sk_sort\<close>. The first counts \<open>i\<close> down to 0 and ends when
  \<open>i--\<close> wraps around; its argument here is \<open>i + 1\<close>.
\<close>

fun build_loop :: "('a \<Rightarrow> 'a \<Rightarrow> int) \<Rightarrow> nat \<Rightarrow> nat \<Rightarrow> 'a list \<Rightarrow> 'a list" where
  "build_loop cmp num 0 d = d"
| "build_loop cmp num (Suc i) d = build_loop cmp num i (down_heap cmp i num d)"

fun extract_loop :: "('a \<Rightarrow> 'a \<Rightarrow> int) \<Rightarrow> nat \<Rightarrow> 'a list \<Rightarrow> 'a list" where
  "extract_loop cmp 0 d = d"
| "extract_loop cmp (Suc i) d = extract_loop cmp i (down_heap cmp 0 (Suc i) (swap 0 (Suc i) d))"

definition OPENSSL_sk_sort :: "'v call_cmp \<Rightarrow> 'v stack option \<Rightarrow> 'v stack option" where
  "OPENSSL_sk_sort call_cmp_func sk = (case sk of None \<Rightarrow> None | Some s \<Rightarrow>
     (case sk_comp s of None \<Rightarrow> Some s | Some cmpf \<Rightarrow>
       if sk_sorted s then Some s
       else
         let cmp = call_cmp_func cmpf;
             d = (if sk_num s \<ge> 2
                  then extract_loop cmp (sk_num s - 1)
                    (build_loop cmp (sk_num s) (parent_idx (sk_num s - 1) + 1) (sk_data s))
                  else sk_data s) in
         Some (s\<lparr>sk_data := d, sk_sorted := True\<rparr>)))"

definition OPENSSL_sk_set_cmp_func :: "'v stack \<Rightarrow> nat option \<Rightarrow> nat option \<times> 'v stack" where
  "OPENSSL_sk_set_cmp_func s cmpf =
     (sk_comp s, s\<lparr>sk_sorted := (if sk_comp s \<noteq> cmpf then False else sk_sorted s), sk_comp := cmpf\<rparr>)"

text \<open>
  The loop of \<open>OPENSSL_sk_deep_copy\<close> over the cells still to copy, with the copies
  made so far: \<open>Inl\<close> the pointers freed when a copy fails, else \<open>Inr\<close> the array.
\<close>

fun deep_copy_loop :: "('v \<Rightarrow> 'v option) \<Rightarrow> 'v option list \<Rightarrow> 'v option list \<Rightarrow> 'v list + 'v option list" where
  "deep_copy_loop copy_func copied [] = Inr copied"
| "deep_copy_loop copy_func copied (None # todo) = deep_copy_loop copy_func (copied @ [None]) todo"
| "deep_copy_loop copy_func copied (Some v # todo) =
     (case copy_func v of
       None \<Rightarrow> Inl (List.map_filter (\<lambda>p. p) copied)
     | Some w \<Rightarrow> deep_copy_loop copy_func (copied @ [Some w]) todo)"

text \<open>The copy, if any, and the pointers passed to the free function.\<close>

definition OPENSSL_sk_deep_copy ::
  "heap_env \<Rightarrow> ('v \<Rightarrow> 'v option) \<Rightarrow> 'v stack option \<Rightarrow> 'v stack option \<times> 'v list" where
  "OPENSSL_sk_deep_copy env copy_func sk = (case OPENSSL_sk_dup env sk of
     None \<Rightarrow> (None, [])
   | Some ret \<Rightarrow>
       (case deep_copy_loop copy_func [] (take (sk_num ret) (sk_data ret)) of
         Inl freed \<Rightarrow> (None, freed)
       | Inr copies \<Rightarrow> (Some (ret\<lparr>sk_data := copies @ drop (sk_num ret) (sk_data ret)\<rparr>), [])))"

section \<open>Comparison functions\<close>

text \<open>What a comparison function promises: a total preorder, with a result that only its sign matters.\<close>

locale comparator =
  fixes cmp :: "'a \<Rightarrow> 'a \<Rightarrow> int"
  assumes cmp_sym: "cmp a b < 0 \<longleftrightarrow> 0 < cmp b a"
    and cmp_trans: "cmp a b \<le> 0 \<Longrightarrow> cmp b c \<le> 0 \<Longrightarrow> cmp a c \<le> 0"
begin

lemma cmp_refl: "cmp a a = 0"
  using cmp_sym [of a a] by linarith

lemma cmp_total: "cmp a b \<le> 0 \<or> cmp b a \<le> 0"
  using cmp_sym [of a b] cmp_sym [of b a] by linarith

lemma cmp_not_less: "\<not> cmp a b < 0 \<longleftrightarrow> cmp b a \<le> 0"
  using cmp_sym [of a b] by linarith

lemma cmp_above: "0 < cmp p x \<Longrightarrow> cmp y x \<le> 0 \<Longrightarrow> 0 < cmp p y"
  using cmp_trans [of p y x] by linarith

lemma cmp_below: "cmp p x < 0 \<Longrightarrow> cmp x y \<le> 0 \<Longrightarrow> cmp p y < 0"
  using cmp_trans [of x y p] cmp_sym [of p x] cmp_sym [of p y] by linarith

end

section \<open>Heap sort\<close>

lemma length_swap [simp]: "length (swap i j d) = length d"
  by (simp add: swap_def Let_def)

lemma swap_nth:
  "i < length d \<Longrightarrow> j < length d \<Longrightarrow> k < length d \<Longrightarrow>
     swap i j d ! k = (if k = j then d ! i else if k = i then d ! j else d ! k)"
  by (simp add: swap_def Let_def nth_list_update)

lemma swap_0_nth:
  "j < length d \<Longrightarrow> k < length d \<Longrightarrow>
     swap 0 j d ! k = (if k = j then d ! 0 else if k = 0 then d ! j else d ! k)"
  by (rule swap_nth) auto

lemma mset_swap: "i < length d \<Longrightarrow> j < length d \<Longrightarrow> mset (swap i j d) = mset d"
  unfolding swap_def Let_def by (rule mset_swap)

lemma mset_swap_0: "j < length d \<Longrightarrow> mset (swap 0 j d) = mset d"
  by (rule mset_swap) auto

lemma drop_swap: "i < n \<Longrightarrow> j < n \<Longrightarrow> drop n (swap i j d) = drop n d"
  by (simp add: swap_def Let_def)

lemma largest_child_range: "left_idx i < num \<Longrightarrow> largest_child cmp i num d < num"
  by (auto simp: largest_child_def left_idx_def Let_def)

lemma down_heap_perm:
  "num \<le> length d \<Longrightarrow> mset (down_heap cmp i num d) = mset d \<and> length (down_heap cmp i num d) = length d
     \<and> drop num (down_heap cmp i num d) = drop num d"
proof (induction cmp i num d rule: down_heap.induct)
  case (1 cmp i num d)
  show ?case
  proof (cases "left_idx i \<ge> num \<or> i = largest_child cmp i num d")
    case True
    then show ?thesis by (subst (1 2 3) down_heap.simps) (auto simp: Let_def)
  next
    case False
    then have c: "largest_child cmp i num d < num" "i < num"
      using largest_child_range [of i num cmp d] by (auto simp: left_idx_def)
    have "down_heap cmp i num d = down_heap cmp (largest_child cmp i num d) num (swap i (largest_child cmp i num d) d)"
      using False by (subst down_heap.simps) (simp add: Let_def)
    with 1 False c show ?thesis
      by (simp add: mset_swap drop_swap)
  qed
qed

text \<open>Every node from \<open>lo\<close> on, except \<open>ex\<close>, is at least as large as its children.\<close>

definition heap_except :: "('a \<Rightarrow> 'a \<Rightarrow> int) \<Rightarrow> nat \<Rightarrow> nat option \<Rightarrow> 'a list \<Rightarrow> nat \<Rightarrow> bool" where
  "heap_except cmp lo ex d num \<longleftrightarrow>
     (\<forall>j c. lo \<le> j \<longrightarrow> ex \<noteq> Some j \<longrightarrow> c < num \<longrightarrow> (c = 2 * j + 1 \<or> c = 2 * j + 2) \<longrightarrow> cmp (d ! c) (d ! j) \<le> 0)"

text \<open>The children of \<open>i\<close> are no larger than its parent.\<close>

definition skips :: "('a \<Rightarrow> 'a \<Rightarrow> int) \<Rightarrow> nat \<Rightarrow> nat \<Rightarrow> 'a list \<Rightarrow> nat \<Rightarrow> bool" where
  "skips cmp lo i d num \<longleftrightarrow>
     (\<forall>p c. lo \<le> p \<longrightarrow> (i = 2 * p + 1 \<or> i = 2 * p + 2) \<longrightarrow> c < num \<longrightarrow> (c = 2 * i + 1 \<or> c = 2 * i + 2) \<longrightarrow>
        cmp (d ! c) (d ! p) \<le> 0)"

lemma heap_exceptD:
  "heap_except cmp lo ex d num \<Longrightarrow> lo \<le> j \<Longrightarrow> ex \<noteq> Some j \<Longrightarrow> c < num \<Longrightarrow> c = 2 * j + 1 \<or> c = 2 * j + 2 \<Longrightarrow>
     cmp (d ! c) (d ! j) \<le> 0"
  unfolding heap_except_def by blast

context comparator
begin

lemma largest_child_max:
  assumes "left_idx i < num" "c < num" "c = 2 * i + 1 \<or> c = 2 * i + 2 \<or> c = i"
  shows "cmp (d ! c) (d ! largest_child cmp i num d) \<le> 0"
proof -
  let ?l = "2 * i + 1"
  define m where "m = (if cmp (d ! i) (d ! ?l) < 0 then ?l else i)"
  have m: "cmp (d ! i) (d ! m) \<le> 0" "cmp (d ! ?l) (d ! m) \<le> 0"
    using cmp_refl cmp_not_less [of "d ! i" "d ! ?l"] by (auto simp: m_def)
  have eq: "largest_child cmp i num d = (if Suc ?l < num \<and> cmp (d ! m) (d ! Suc ?l) < 0 then Suc ?l else m)"
    by (simp add: largest_child_def left_idx_def m_def Let_def)
  show ?thesis
  proof (cases "Suc ?l < num \<and> cmp (d ! m) (d ! Suc ?l) < 0")
    case True
    then have "cmp (d ! m) (d ! Suc ?l) \<le> 0" by simp
    then have "cmp (d ! i) (d ! Suc ?l) \<le> 0" "cmp (d ! ?l) (d ! Suc ?l) \<le> 0"
      using m by (blast intro: cmp_trans)+
    with True assms(3) cmp_refl show ?thesis by (auto simp: eq)
  next
    case False
    with m assms(2,3) cmp_not_less [of "d ! m" "d ! Suc ?l"] show ?thesis by (auto simp: eq)
  qed
qed

lemma largest_child_idx: "left_idx i < num \<Longrightarrow>
    largest_child cmp i num d \<in> {i, 2 * i + 1, 2 * i + 2}"
  by (auto simp: largest_child_def left_idx_def Let_def)

lemma down_heap_heap:
  assumes "heap_except cmp lo (Some i) d num" "skips cmp lo i d num" "lo \<le> i" "i < num" "num \<le> length d"
  shows "heap_except cmp lo None (down_heap cmp i num d) num"
  using assms
proof (induction "num - i" arbitrary: i d rule: less_induct)
  case less
  let ?m = "largest_child cmp i num d"
  show ?case
  proof (cases "left_idx i \<ge> num")
    case True
    then have "down_heap cmp i num d = d" by (subst down_heap.simps) simp
    moreover have "heap_except cmp lo None d num"
      using less.prems(1) True by (auto simp: heap_except_def left_idx_def)
    ultimately show ?thesis by simp
  next
    case left: False
    then have left': "left_idx i < num" by simp
    note max = largest_child_max [OF left', of _ d]
    show ?thesis
    proof (cases "i = ?m")
      case True
      then have "down_heap cmp i num d = d" using left by (subst down_heap.simps) (simp add: Let_def)
      moreover have "heap_except cmp lo None d num"
        unfolding heap_except_def
      proof (intro allI impI)
        fix j c assume jc: "lo \<le> j" "c < num" "c = 2 * j + 1 \<or> c = 2 * j + 2"
        show "cmp (d ! c) (d ! j) \<le> 0"
        proof (cases "j = i")
          case True
          with jc max [of c] \<open>i = ?m\<close> show ?thesis by auto
        next
          case False
          with jc less.prems(1) show ?thesis by (auto simp: heap_except_def)
        qed
      qed
      ultimately show ?thesis by simp
    next
      case False
      then have eq: "down_heap cmp i num d = down_heap cmp ?m num (swap i ?m d)"
        using left by (subst down_heap.simps) (simp add: Let_def)
      have m: "?m < num" "?m = 2 * i + 1 \<or> ?m = 2 * i + 2" "i < ?m"
        using largest_child_range [OF left', of cmp d] largest_child_idx [OF left', of d] False by auto
      note len = m(1) less.prems(4,5)
      let ?d = "swap i ?m d"
      have nth: "?d ! k = (if k = ?m then d ! i else if k = i then d ! ?m else d ! k)" if "k < num" for k
        using that len by (intro swap_nth) auto
      have "heap_except cmp lo (Some ?m) ?d num"
        unfolding heap_except_def
      proof (intro allI impI)
        fix j c assume jc: "lo \<le> j" "Some ?m \<noteq> Some j" "c < num" "c = 2 * j + 1 \<or> c = 2 * j + 2"
        have j: "j < num" "c \<noteq> j" using jc by auto
        show "cmp (?d ! c) (?d ! j) \<le> 0"
        proof (cases "j = i")
          case True
          with max [of i] max [of c] jc m(1) less.prems(4) show ?thesis by (auto simp: nth)
        next
          case ji: False
          have "c \<noteq> ?m" using ji m(2) jc(4) by auto
          show ?thesis
          proof (cases "c = i")
            case True
            with less.prems(2) jc m have "cmp (d ! ?m) (d ! j) \<le> 0" by (auto simp: skips_def)
            with True ji jc j show ?thesis by (auto simp: nth)
          next
            case False
            with less.prems(1) ji jc have "cmp (d ! c) (d ! j) \<le> 0" by (auto simp: heap_except_def)
            with False ji jc j \<open>c \<noteq> ?m\<close> show ?thesis by (auto simp: nth)
          qed
        qed
      qed
      moreover have "skips cmp lo ?m ?d num"
        unfolding skips_def
      proof (intro allI impI)
        fix p c assume pc: "lo \<le> p" "?m = 2 * p + 1 \<or> ?m = 2 * p + 2" "c < num" "c = 2 * ?m + 1 \<or> c = 2 * ?m + 2"
        then have p: "p = i" using m(2) by auto
        have "cmp (d ! c) (d ! ?m) \<le> 0"
          by (rule heap_exceptD [OF less.prems(1)]) (use pc m(3) less.prems(3) in auto)
        with pc p m less.prems(4) show "cmp (?d ! c) (?d ! p) \<le> 0" by (auto simp: nth)
      qed
      ultimately show ?thesis
        unfolding eq using m less.prems(3,5) by (intro less.hyps) auto
    qed
  qed
qed

lemma build_loop_heap:
  assumes "heap_except cmp k None d num" "num \<le> length d" "k \<le> num"
  shows "heap_except cmp 0 None (build_loop cmp num k d) num"
  using assms
proof (induction k arbitrary: d)
  case (Suc k)
  have "heap_except cmp k (Some k) d num"
    unfolding heap_except_def
    by (intro allI impI, rule heap_exceptD [OF Suc.prems(1)]) auto
  moreover have "skips cmp k k d num" by (auto simp: skips_def)
  ultimately have "heap_except cmp k None (down_heap cmp k num d) num"
    using Suc.prems by (intro down_heap_heap) auto
  with Suc down_heap_perm [OF Suc.prems(2), of cmp k] show ?case by simp
qed simp

lemma heap_top:
  "heap_except cmp 0 None d num \<Longrightarrow> k < num \<Longrightarrow> cmp (d ! k) (d ! 0) \<le> 0"
proof (induction k rule: less_induct)
  case (less k)
  show ?case
  proof (cases "k = 0")
    case False
    define p where "p = (k - 1) div 2"
    have p: "k = 2 * p + 1 \<or> k = 2 * p + 2" "p < k" using False by (auto simp: p_def)
    with less.prems have "cmp (d ! k) (d ! p) \<le> 0" by (auto simp: heap_except_def)
    moreover have "cmp (d ! p) (d ! 0) \<le> 0" using less p by auto
    ultimately show ?thesis by (rule cmp_trans)
  qed (simp add: cmp_refl)
qed

end

context comparator
begin

lemma heap_swap_top:
  assumes "heap_except cmp 0 None d (Suc (Suc i))" "Suc i < length d"
  shows "heap_except cmp 0 None (down_heap cmp 0 (Suc i) (swap 0 (Suc i) d)) (Suc i)"
proof -
  have nth: "swap 0 (Suc i) d ! k = (if k = 0 then d ! Suc i else d ! k)" if "k < Suc i" for k
    using that assms(2) by (simp add: swap_0_nth)
  have "heap_except cmp 0 (Some 0) (swap 0 (Suc i) d) (Suc i)"
    unfolding heap_except_def
  proof (intro allI impI)
    fix j c assume jc: "Some 0 \<noteq> Some j" "c < Suc i" "c = 2 * j + 1 \<or> c = 2 * j + 2"
    have "cmp (d ! c) (d ! j) \<le> 0" by (rule heap_exceptD [OF assms(1)]) (use jc in auto)
    with jc show "cmp (swap 0 (Suc i) d ! c) (swap 0 (Suc i) d ! j) \<le> 0" by (auto simp: nth)
  qed
  moreover have "skips cmp 0 0 (swap 0 (Suc i) d) (Suc i)" by (auto simp: skips_def)
  ultimately show ?thesis using assms(2) by (intro down_heap_heap) auto
qed

lemma extract_loop_sorted:
  assumes "heap_except cmp 0 None d (Suc i)" "Suc i \<le> n" "n \<le> length d"
    "sorted_wrt (\<lambda>a b. cmp a b \<le> 0) (drop (Suc i) (take n d))"
    "\<And>a b. a \<in> set (take (Suc i) d) \<Longrightarrow> b \<in> set (drop (Suc i) (take n d)) \<Longrightarrow> cmp a b \<le> 0"
  shows "sorted_wrt (\<lambda>a b. cmp a b \<le> 0) (take n (extract_loop cmp i d))"
  using assms
proof (induction i arbitrary: d)
  case 0
  then obtain x xs where d: "d = x # xs" by (cases d) auto
  obtain m where m: "n = Suc m" using 0(2) by (cases n) auto
  from 0 show ?case by (simp add: d m)
next
  case (Suc i)
  let ?s = "swap 0 (Suc i) d" and ?d = "down_heap cmp 0 (Suc i) (swap 0 (Suc i) d)"
  have len: "Suc i < length d" "Suc i < n" using Suc.prems(2,3) by auto
  note P = down_heap_perm [of "Suc i" ?s cmp 0]
  have dl: "length ?d = length d" "mset ?d = mset ?s" "drop (Suc i) ?d = drop (Suc i) ?s"
    using P len by simp_all
  have cons: "drop (Suc i) ?s = d ! 0 # drop (Suc (Suc i)) d"
  proof -
    have "drop (Suc i) ?s = ?s ! Suc i # drop (Suc (Suc i)) ?s"
      using len by (subst Cons_nth_drop_Suc) auto
    then show ?thesis using len by (simp add: swap_0_nth drop_swap)
  qed
  have suf: "drop (Suc i) (take n ?d) = d ! 0 # drop (Suc (Suc i)) (take n d)"
  proof -
    have "drop (Suc i) (take n ?d) = take (n - Suc i) (drop (Suc i) ?d)" by (simp add: drop_take)
    also have "\<dots> = d ! 0 # take (n - Suc (Suc i)) (drop (Suc (Suc i)) d)"
      unfolding dl(3) cons using len(2) by (simp add: take_Cons')
    finally show ?thesis by (simp add: drop_take)
  qed
  have pre: "set (take (Suc i) ?d) \<subseteq> set (take (Suc (Suc i)) d)"
  proof -
    have "mset (take (Suc i) ?d) + mset (drop (Suc i) ?d) = mset (take (Suc i) ?s) + mset (drop (Suc i) ?s)"
      using dl(2) by (simp flip: mset_append)
    then have "mset (take (Suc i) ?d) = mset (take (Suc i) ?s)" unfolding dl(3) by simp
    then have "set (take (Suc i) ?d) = set (take (Suc i) ?s)" by (metis set_mset_mset)
    also have "\<dots> \<subseteq> set (take (Suc (Suc i)) d)"
    proof
      fix x assume "x \<in> set (take (Suc i) ?s)"
      then obtain k where "k < Suc i" "x = ?s ! k" using len by (auto simp: in_set_conv_nth)
      then have "x = d ! (if k = 0 then Suc i else k)" "(if k = 0 then Suc i else k) < Suc (Suc i)"
        using len by (auto simp: swap_0_nth)
      then show "x \<in> set (take (Suc (Suc i)) d)" using len(1) by (auto simp: in_set_conv_nth)
    qed
    finally show ?thesis .
  qed
  have top: "cmp a (d ! 0) \<le> 0" if "a \<in> set (take (Suc (Suc i)) d)" for a
    using that heap_top [OF Suc.prems(1)] len(1) by (auto simp: in_set_conv_nth)
  have zero: "d ! 0 \<in> set (take (Suc (Suc i)) d)" using len(1) by (auto simp: in_set_conv_nth)
  have "sorted_wrt (\<lambda>a b. cmp a b \<le> 0) (take n (extract_loop cmp i ?d))"
  proof (rule Suc.IH)
    show "heap_except cmp 0 None ?d (Suc i)" by (rule heap_swap_top [OF Suc.prems(1) len(1)])
    show "Suc i \<le> n" "n \<le> length ?d" using len Suc.prems(3) dl(1) by simp_all
    show "sorted_wrt (\<lambda>a b. cmp a b \<le> 0) (drop (Suc i) (take n ?d))"
      unfolding suf using Suc.prems(4,5) zero by auto
    show "cmp a b \<le> 0" if "a \<in> set (take (Suc i) ?d)" "b \<in> set (drop (Suc i) (take n ?d))" for a b
      using that pre top Suc.prems(5) unfolding suf by auto
  qed
  then show ?case by simp
qed

end

lemma build_loop_perm:
  "num \<le> length d \<Longrightarrow> mset (build_loop cmp num k d) = mset d \<and> length (build_loop cmp num k d) = length d
     \<and> drop num (build_loop cmp num k d) = drop num d"
  by (induction k arbitrary: d) (simp_all add: down_heap_perm)

lemma extract_loop_perm:
  "Suc i \<le> num \<Longrightarrow> num \<le> length d \<Longrightarrow> mset (extract_loop cmp i d) = mset d
     \<and> length (extract_loop cmp i d) = length d \<and> drop num (extract_loop cmp i d) = drop num d"
proof (induction i arbitrary: d)
  case (Suc i)
  note P = down_heap_perm [of "Suc i" "swap 0 (Suc i) d" cmp 0]
  have "drop num (down_heap cmp 0 (Suc i) (swap 0 (Suc i) d)) = drop num (swap 0 (Suc i) d)"
  proof -
    have "drop num xs = drop (num - Suc i) (drop (Suc i) xs)" for xs :: "'a list"
      using Suc.prems(1) by simp
    with P Suc.prems show ?thesis by (metis Suc_leD le_trans length_swap)
  qed
  with Suc P show ?case by (simp add: mset_swap_0 drop_swap)
qed simp

section \<open>The stack as a list\<close>

definition sk_items :: "'v stack \<Rightarrow> 'v option list" where
  "sk_items s = take (sk_num s) (sk_data s)"

definition sk_inv :: "'v stack \<Rightarrow> bool" where
  "sk_inv s \<longleftrightarrow> length (sk_data s) = sk_num_alloc s \<and> sk_num s \<le> sk_num_alloc s \<and> 0 < sk_num_alloc s
     \<and> sk_num s \<le> INT_MAX \<and> sk_num_alloc s < size_mod"

text \<open>The flag is only set on a stack whose elements ascend.\<close>

definition sk_flag_ok :: "'v call_cmp \<Rightarrow> 'v stack \<Rightarrow> bool" where
  "sk_flag_ok call_cmp_func s \<longleftrightarrow> (sk_sorted s \<longrightarrow> (\<exists>c. sk_comp s = Some c
     \<and> sorted_wrt (\<lambda>a b. call_cmp_func c a b \<le> 0) (sk_items s)))"

lemma length_sk_items [simp]: "sk_inv s \<Longrightarrow> length (sk_items s) = sk_num s"
  by (simp add: sk_items_def sk_inv_def)

lemma sk_items_nth: "i < sk_num s \<Longrightarrow> sk_items s ! i = sk_data s ! i"
  by (simp add: sk_items_def)

lemma sk_new_inv:
  "OPENSSL_sk_new env c = Some s \<Longrightarrow> sk_inv s \<and> sk_items s = [] \<and> \<not> sk_sorted s \<and> sk_comp s = c"
  by (auto simp: OPENSSL_sk_new_def sk_inv_def sk_items_def kMinSize_def size_mod_def split: option.splits)

text \<open>Growing keeps the elements and leaves a free cell.\<close>

lemma sk_grow_Some:
  assumes "sk_grow env fresh s = Some s'" "sk_inv s"
  shows "sk_inv s' \<and> sk_items s' = sk_items s \<and> sk_num s' = sk_num s \<and> sk_num s < sk_num_alloc s'
    \<and> sk_comp s' = sk_comp s"
proof (cases "sk_num_alloc s \<le> sk_num s + 1")
  case True
  let ?n = "sk_num_alloc s"
  have inv: "length (sk_data s) = ?n" "sk_num s \<le> ?n" "0 < ?n" "?n \<le> INT_MAX + 1"
    using assms(2) True by (auto simp: sk_inv_def)
  from assms(1) True obtain m where m: "s' = s\<lparr>sk_data := sk_data s @ map fresh [?n..<m], sk_num_alloc := m\<rparr>"
    "m = size_mul ?n 2 \<or> m = size_add ?n 1"
    by (auto simp: sk_grow_def Let_def split: if_splits)
  have "size_mul ?n 2 = ?n * 2" "size_add ?n 1 = ?n + 1"
    using inv(4) by (simp_all add: size_mul_def size_add_def size_mod_def INT_MAX_def)
  with m(2) inv(3,4) have "?n < m" "m < size_mod" by (auto simp: size_mod_def INT_MAX_def)
  with m(1) inv assms(2) show ?thesis by (simp add: sk_inv_def sk_items_def)
next
  case False
  with assms show ?thesis by (auto simp: sk_grow_def)
qed

lemma sk_insert_Some:
  assumes "OPENSSL_sk_insert env fresh (Some s) p pos = (n, sk)" "sk_inv s" "n \<noteq> 0"
  shows "\<exists>s'. sk = Some s' \<and> sk_inv s' \<and> n = sk_num s' \<and> \<not> sk_sorted s' \<and> sk_comp s' = sk_comp s
    \<and> sk_items s' = take pos (sk_items s) @ p # drop pos (sk_items s)"
proof -
  from assms(1,3) obtain g where g: "sk_grow env fresh s = Some g" "sk_num s < INT_MAX"
    by (auto simp: OPENSSL_sk_insert_def split: if_splits option.splits)
  note G = sk_grow_Some [OF g(1) assms(2)]
  let ?d = "if pos \<ge> sk_num g then (sk_data g)[sk_num g := p]
      else (ptr_memmove (pos + 1) pos (sk_num g - pos) (sk_data g))[pos := p]"
  have r: "n = sk_num g + 1" "sk = Some (g\<lparr>sk_data := ?d, sk_num := sk_num g + 1, sk_sorted := False\<rparr>)"
    using assms(1) g by (auto simp: OPENSSL_sk_insert_def Let_def)
  have len: "length (sk_data g) = sk_num_alloc g" "sk_num g < sk_num_alloc g"
    using G by (auto simp: sk_inv_def)
  have "length ?d = length (sk_data g) \<and> take (sk_num g + 1) ?d
      = take pos (take (sk_num g) (sk_data g)) @ p # drop pos (take (sk_num g) (sk_data g))"
  proof (cases "pos \<ge> sk_num g")
    case True
    with len show ?thesis by (simp add: take_Suc_conv_app_nth)
  next
    case False
    then have "ptr_memmove (pos + 1) pos (sk_num g - pos) (sk_data g)
       = (take pos (sk_data g) @ [sk_data g ! pos]) @ take (sk_num g - pos) (drop pos (sk_data g)) @ drop (sk_num g + 1) (sk_data g)"
      using len by (simp add: ptr_memmove_def take_Suc_conv_app_nth)
    with False len show ?thesis by (simp add: list_update_append take_drop min_def Suc_diff_le)
  qed
  moreover obtain D where D: "D = ?d" by blast
  ultimately have d: "length D = length (sk_data g)" "take (sk_num g + 1) D = take pos (sk_items g) @ p # drop pos (sk_items g)"
    unfolding sk_items_def by blast+
  let ?s = "g\<lparr>sk_data := D, sk_num := sk_num g + 1, sk_sorted := False\<rparr>"
  have "sk_items ?s = take (sk_num g + 1) D" by (simp add: sk_items_def)
  moreover have "sk_inv ?s" using G g(2) d(1) by (simp add: sk_inv_def)
  ultimately show ?thesis using r G d(2) unfolding D [symmetric] by auto
qed

lemma sk_insert_fails: "OPENSSL_sk_insert env fresh (Some s) p pos = (0, sk) \<Longrightarrow> sk = Some s"
  by (auto simp: OPENSSL_sk_insert_def Let_def split: if_splits option.splits)

lemma sk_delete_Some:
  assumes "pos < sk_num s" "sk_inv s"
  shows "\<exists>s'. OPENSSL_sk_delete (Some s) pos = (sk_items s ! pos, Some s') \<and> sk_inv s'
    \<and> sk_items s' = take pos (sk_items s) @ drop (Suc pos) (sk_items s)
    \<and> sk_sorted s' = sk_sorted s \<and> sk_comp s' = sk_comp s"
proof -
  have len: "length (sk_data s) = sk_num_alloc s" "sk_num s \<le> sk_num_alloc s" using assms(2) by (auto simp: sk_inv_def)
  let ?d = "if pos \<noteq> sk_num s - 1 then ptr_memmove pos (pos + 1) (sk_num s - pos - 1) (sk_data s) else sk_data s"
  have r: "OPENSSL_sk_delete (Some s) pos = (sk_data s ! pos, Some (s\<lparr>sk_data := ?d, sk_num := sk_num s - 1\<rparr>))"
    using assms(1) by (simp add: OPENSSL_sk_delete_def)
  have "length ?d = length (sk_data s) \<and> take (sk_num s - 1) ?d
      = take pos (take (sk_num s) (sk_data s)) @ drop (Suc pos) (take (sk_num s) (sk_data s))"
  proof (cases "pos = sk_num s - 1")
    case True
    with assms(1) len show ?thesis by (simp add: min_def)
  next
    case False
    with assms(1) len show ?thesis by (auto simp: ptr_memmove_def take_drop min_def)
  qed
  then show ?thesis unfolding r using assms by (auto simp: sk_inv_def sk_items_def)
qed

section \<open>Searching\<close>

lemma scan_from_eq: "scan_from P i num = find P [i..<num]"
proof (induction P i num rule: scan_from.induct)
  case (1 P i num)
  then show ?case by (subst scan_from.simps) (auto simp: upt_rec)
qed

lemma scan_from_cong: "(\<And>i. i < num \<Longrightarrow> P i = Q i) \<Longrightarrow> scan_from P k num = scan_from Q k num"
  unfolding scan_from_eq by (intro find_cong) auto

lemma find_Some_first:
  "find P [a..<b] = Some k \<longleftrightarrow> a \<le> k \<and> k < b \<and> P k \<and> (\<forall>i. a \<le> i \<and> i < k \<longrightarrow> \<not> P i)"
proof (induction "b - a" arbitrary: a)
  case 0
  then show ?case by auto
next
  case (Suc n)
  then have "[a..<b] = a # [Suc a..<b]" by (simp add: upt_rec)
  moreover have "find P [Suc a..<b] = Some k \<longleftrightarrow> Suc a \<le> k \<and> k < b \<and> P k \<and> (\<forall>i. Suc a \<le> i \<and> i < k \<longrightarrow> \<not> P i)"
    using Suc by auto
  ultimately show ?case using Suc.hyps(2)
    by (auto simp: Suc_le_eq dest: le_neq_implies_less)
qed

lemma find_append: "find P (xs @ ys) = (case find P xs of None \<Rightarrow> find P ys | Some x \<Rightarrow> Some x)"
  by (induction xs) auto

lemma find_none: "(\<And>x. x \<in> set xs \<Longrightarrow> \<not> P x) \<Longrightarrow> find P xs = None"
  by (induction xs) auto

lemma find_split: "a \<le> m \<Longrightarrow> m \<le> b \<Longrightarrow>
    find P [a..<b] = (case find P [a..<m] of None \<Rightarrow> find P [m..<b] | Some x \<Rightarrow> Some x)"
  by (metis find_append le_Suc_ex upt_add_eq_append)

context comparator
begin

text \<open>On an ascending array the binary search finds what the linear search finds.\<close>

lemma bsearch_loop_find:
  assumes "hi \<le> length d" "\<And>i j. i \<le> j \<Longrightarrow> j < length d \<Longrightarrow> cmp (d ! i) (d ! j) \<le> 0"
  shows "bsearch_loop (\<lambda>i. cmp p (d ! i)) lo hi = find (\<lambda>i. cmp p (d ! i) = 0) [lo..<hi]"
  using assms(1)
proof (induction "hi - lo" arbitrary: lo hi rule: less_induct)
  case less
  let ?P = "\<lambda>i. cmp p (d ! i) = 0"
  show ?case
  proof (cases "lo < hi")
    case False
    then show ?thesis by (simp add: bsearch_loop.simps)
  next
    case True
    define mid where "mid = lo + (hi - lo - 1) div 2"
    have mid: "lo \<le> mid" "mid < hi" using True by (auto simp: mid_def)
    note step = bsearch_loop.simps [of "\<lambda>i. cmp p (d ! i)" lo hi, unfolded Let_def, folded mid_def]
    consider "cmp p (d ! mid) > 0" | "cmp p (d ! mid) < 0" | "cmp p (d ! mid) = 0" "hi - lo = 1"
      | "cmp p (d ! mid) = 0" "hi - lo \<noteq> 1" by linarith
    then show ?thesis
    proof cases
      case 1
      have "find ?P [lo..<Suc mid] = None"
      proof (rule find_none)
        fix k assume "k \<in> set [lo..<Suc mid]"
        then have "cmp (d ! k) (d ! mid) \<le> 0" using assms(2) [of k mid] mid less.prems by auto
        with cmp_above [OF 1] show "cmp p (d ! k) \<noteq> 0" by fastforce
      qed
      then have "find ?P [lo..<hi] = find ?P [Suc mid..<hi]"
        using find_split [of lo "Suc mid" hi ?P] mid by simp
      with 1 True mid less.prems less.hyps [of hi "Suc mid"] show ?thesis by (subst step) simp
    next
      case 2
      have "find ?P [mid..<hi] = None"
      proof (rule find_none)
        fix k assume "k \<in> set [mid..<hi]"
        then have "cmp (d ! mid) (d ! k) \<le> 0" using assms(2) [of mid k] less.prems by auto
        with cmp_below [OF 2] show "cmp p (d ! k) \<noteq> 0" by fastforce
      qed
      then have "find ?P [lo..<hi] = find ?P [lo..<mid]"
        using find_split [of lo mid hi ?P] mid by (simp split: option.split)
      with 2 True mid less.prems less.hyps [of mid lo] show ?thesis by (subst step) simp
    next
      case 3
      then have "mid = lo" "[lo..<hi] = [lo]" using True by (auto simp: mid_def upt_rec)
      with 3 True show ?thesis by (subst step) simp
    next
      case 4
      have m: "Suc mid < hi" using 4(2) True by (auto simp: mid_def)
      have "find ?P [lo..<Suc mid] \<noteq> None" using mid 4(1) by (auto simp: find_None_iff)
      then have "find ?P [lo..<hi] = find ?P [lo..<Suc mid]"
        using find_split [of lo "Suc mid" hi ?P] mid by auto
      with 4 True mid m less.prems less.hyps [of "Suc mid" lo] show ?thesis by (subst step) simp
    qed
  qed
qed

lemma sorted_items_le:
  "sorted_wrt (\<lambda>a b. cmp a b \<le> 0) xs \<Longrightarrow> i \<le> j \<Longrightarrow> j < length xs \<Longrightarrow> cmp (xs ! i) (xs ! j) \<le> 0"
  by (cases "i = j") (auto simp: sorted_wrt_iff_nth_less cmp_refl)

end

section \<open>Removing in place\<close>

lemma delete_if_loop_filter:
  assumes "k \<le> i" "i \<le> num" "num \<le> length d" "delete_if_loop func num i k d = (d', n)"
  shows "length d' = length d \<and> n \<le> num
    \<and> take n d' = take k d @ filter (\<lambda>p. \<not> func p) (drop i (take num d))"
  using assms
proof (induction func num i k d rule: delete_if_loop.induct)
  case (1 func num i k d)
  show ?case
  proof (cases "i < num")
    case False
    with 1(3-6) show ?thesis by (subst (asm) delete_if_loop.simps) auto
  next
    case True
    then have d: "drop i (take num d) = d ! i # drop (Suc i) (take num d)"
      using 1(5) Cons_nth_drop_Suc [of i "take num d"] by simp
    show ?thesis
    proof (cases "func (d ! i)")
      case f: True
      have "delete_if_loop func num (i + 1) k d = (d', n)"
        using 1(6) f True by (subst (asm) delete_if_loop.simps) auto
      from 1(2) [OF True _ _ _ _ this] 1(3-5) f True d show ?thesis by simp
    next
      case False
      let ?d = "d[k := d ! i]"
      have "delete_if_loop func num (i + 1) (k + 1) ?d = (d', n)"
        using 1(6) False True by (subst (asm) delete_if_loop.simps) auto
      from 1(1) [OF True False _ _ _ this] 1(3-5) True
      have "length d' = length ?d \<and> n \<le> num
        \<and> take n d' = take (k + 1) ?d @ filter (\<lambda>p. \<not> func p) (drop (i + 1) (take num ?d))" by auto
      moreover have "take (k + 1) ?d = take k d @ [d ! i]"
        using 1(3,5) True by (simp add: take_Suc_conv_app_nth)
      moreover have "drop (i + 1) (take num ?d) = drop (i + 1) (take num d)"
        using 1(3) by (simp add: take_update_swap)
      ultimately show ?thesis using False d by simp
    qed
  qed
qed

lemma sk_delete_if_items:
  assumes "sk_inv s"
  shows "\<exists>s'. OPENSSL_sk_delete_if func (Some s) = Some s' \<and> sk_inv s'
    \<and> sk_items s' = filter (\<lambda>p. \<not> func p) (sk_items s) \<and> sk_sorted s' = sk_sorted s \<and> sk_comp s' = sk_comp s"
proof -
  obtain d n where l: "delete_if_loop func (sk_num s) 0 0 (sk_data s) = (d, n)" by fastforce
  have "sk_num s \<le> length (sk_data s)" using assms by (simp add: sk_inv_def)
  from delete_if_loop_filter [OF _ _ this l] assms l show ?thesis
    by (auto simp: OPENSSL_sk_delete_if_def sk_inv_def sk_items_def)
qed

section \<open>Sequences of insertions and removals\<close>

text \<open>The interface of a container addressed by position.\<close>

locale seq_store =
  fixes items :: "'s \<Rightarrow> 'a list" and inv :: "'s \<Rightarrow> bool"
    and ins :: "nat \<Rightarrow> 'a \<Rightarrow> 's \<Rightarrow> 's option" and del :: "nat \<Rightarrow> 's \<Rightarrow> ('a \<times> 's) option"
  assumes ins_items: "inv s \<Longrightarrow> ins i p s = Some s' \<Longrightarrow>
      inv s' \<and> items s' = take i (items s) @ p # drop i (items s)"
    and del_items: "inv s \<Longrightarrow> del i s = Some (p, s') \<Longrightarrow>
      i < length (items s) \<and> p = items s ! i \<and> inv s' \<and> items s' = take i (items s) @ drop (Suc i) (items s)"
    and del_defined: "inv s \<Longrightarrow> i < length (items s) \<Longrightarrow> del i s \<noteq> None"

datatype 'a seq_cmd = Ins nat 'a | Del nat

fun run_seq :: "(nat \<Rightarrow> 'a \<Rightarrow> 's \<Rightarrow> 's option) \<Rightarrow> (nat \<Rightarrow> 's \<Rightarrow> ('a \<times> 's) option) \<Rightarrow> 'a seq_cmd list \<Rightarrow> 's \<Rightarrow> ('a list \<times> 's) option" where
  "run_seq ins del [] s = Some ([], s)"
| "run_seq ins del (Ins i p # cs) s = Option.bind (ins i p s) (run_seq ins del cs)"
| "run_seq ins del (Del i # cs) s = Option.bind (del i s) (\<lambda>(p, s).
     map_option (\<lambda>(ps, s). (p # ps, s)) (run_seq ins del cs s))"

definition list_ins :: "nat \<Rightarrow> 'a \<Rightarrow> 'a list \<Rightarrow> 'a list option" where
  "list_ins i p xs = Some (take i xs @ p # drop i xs)"

definition list_del :: "nat \<Rightarrow> 'a list \<Rightarrow> ('a \<times> 'a list) option" where
  "list_del i xs = (if i < length xs then Some (xs ! i, take i xs @ drop (Suc i) xs) else None)"

context seq_store
begin

lemma run_seq_refines:
  "inv s \<Longrightarrow> run_seq ins del cs s = Some (ps, s') \<Longrightarrow>
     inv s' \<and> run_seq list_ins list_del cs (items s) = Some (ps, items s')"
proof (induction cs arbitrary: s ps)
  case (Cons c cs)
  show ?case
  proof (cases c)
    case (Ins i p)
    with Cons.prems obtain s1 where s1: "ins i p s = Some s1" "run_seq ins del cs s1 = Some (ps, s')"
      by (auto simp: bind_eq_Some_conv)
    note I = ins_items [OF Cons.prems(1) s1(1)]
    have "run_seq list_ins list_del (Ins i p # cs) (items s) = run_seq list_ins list_del cs (items s1)"
      using I by (simp add: list_ins_def [of i p])
    with Cons.IH [OF _ s1(2)] I Ins show ?thesis by simp
  next
    case (Del i)
    with Cons.prems obtain p s1 qs where d: "del i s = Some (p, s1)" "run_seq ins del cs s1 = Some (qs, s')" "ps = p # qs"
      by (auto simp: bind_eq_Some_conv)
    note D = del_items [OF Cons.prems(1) d(1)]
    have "run_seq list_ins list_del (Del i # cs) (items s)
        = map_option (\<lambda>(ps, s). (p # ps, s)) (run_seq list_ins list_del cs (items s1))"
      using D by (simp add: list_del_def [of i])
    with Cons.IH [OF _ d(2)] D Del d(3) show ?thesis by simp
  qed
qed simp

lemma take_back:
  assumes "inv s" "ins i p s = Some s'" "i \<le> length (items s)"
  shows "\<exists>s''. del i s' = Some (p, s'') \<and> items s'' = items s"
proof -
  note I = ins_items [OF assms(1,2)]
  with assms(3) obtain q s'' where d: "del i s' = Some (q, s'')"
    using del_defined [of s' i] by fastforce
  with del_items [OF _ d] I assms(3) show ?thesis by (auto simp: nth_append)
qed

end

definition sk_ins :: "heap_env \<Rightarrow> (nat \<Rightarrow> 'v option) \<Rightarrow> nat \<Rightarrow> 'v option \<Rightarrow> 'v stack \<Rightarrow> 'v stack option" where
  "sk_ins env fresh i p s = (case OPENSSL_sk_insert env fresh (Some s) p i of (n, s') \<Rightarrow> if n = 0 then None else s')"

definition sk_del :: "nat \<Rightarrow> 'v stack \<Rightarrow> ('v option \<times> 'v stack) option" where
  "sk_del i s = (case OPENSSL_sk_delete (Some s) i of (p, s') \<Rightarrow>
     if i \<ge> sk_num s then None else map_option (Pair p) s')"

interpretation sks: seq_store sk_items sk_inv "sk_ins env fresh" sk_del
proof unfold_locales
  fix s s' and i and p :: "'a option"
  assume "sk_inv (s :: 'a stack)" "sk_ins env fresh i p s = Some s'"
  then show "sk_inv s' \<and> sk_items s' = take i (sk_items s) @ p # drop i (sk_items s)"
    using sk_insert_Some [of env fresh s p i] by (fastforce simp: sk_ins_def split: prod.splits if_splits)
next
  fix s s' and i and p :: "'a option"
  assume "sk_inv (s :: 'a stack)" "sk_del i s = Some (p, s')"
  then show "i < length (sk_items s) \<and> p = sk_items s ! i \<and> sk_inv s' \<and> sk_items s' = take i (sk_items s) @ drop (Suc i) (sk_items s)"
    using sk_delete_Some [of i s] by (auto simp: sk_del_def split: prod.splits if_splits)
next
  fix s :: "'a stack" and i
  assume "sk_inv s" "i < length (sk_items s)"
  then show "sk_del i s \<noteq> None"
    using sk_delete_Some [of i s] by (auto simp: sk_del_def)
qed

section \<open>Sorting and copying\<close>

lemma mset_take_eq:
  "mset xs = mset ys \<Longrightarrow> drop n xs = drop n ys \<Longrightarrow> mset (take n xs) = mset (take n ys)"
  by (metis add_right_cancel append_take_drop_id mset_append)

lemma parent_last: "2 \<le> num \<Longrightarrow> parent_idx (num - 1) + 1 \<le> num \<and> num \<le> 2 * (parent_idx (num - 1) + 1) + 1"
  by (auto simp: parent_idx_def)

lemma sk_sort_run:
  assumes "comparator (call c)" "sk_inv s" "sk_comp s = Some c" "\<not> sk_sorted s"
  shows "\<exists>d. OPENSSL_sk_sort call (Some s) = Some (s\<lparr>sk_data := d, sk_sorted := True\<rparr>)
    \<and> length d = length (sk_data s) \<and> mset (take (sk_num s) d) = mset (sk_items s)
    \<and> sorted_wrt (\<lambda>a b. call c a b \<le> 0) (take (sk_num s) d)"
proof -
  let ?n = "sk_num s"
  have len: "?n \<le> length (sk_data s)" using assms(2) by (simp add: sk_inv_def)
  show ?thesis
  proof (cases "?n \<ge> 2")
    case False
    then have "length (sk_items s) < 2" using assms(2) by simp
    then have "sorted_wrt (\<lambda>a b. call c a b \<le> 0) (sk_items s)"
      by (cases "sk_items s"; cases "tl (sk_items s)") auto
    with False assms(3,4) show ?thesis
      by (intro exI [of _ "sk_data s"]) (simp add: OPENSSL_sk_sort_def sk_items_def)
  next
    case True
    let ?k = "parent_idx (?n - 1) + 1"
    define b where "b = build_loop (call c) ?n ?k (sk_data s)"
    define d where "d = extract_loop (call c) (?n - 1) b"
    have "heap_except (call c) ?k None (sk_data s) ?n"
      using parent_last [OF True] by (auto simp: heap_except_def)
    then have "heap_except (call c) 0 None b ?n"
      unfolding b_def using parent_last [OF True] len by (intro comparator.build_loop_heap [OF assms(1)]) auto
    moreover have b: "mset b = mset (sk_data s)" "length b = length (sk_data s)" "drop ?n b = drop ?n (sk_data s)"
      unfolding b_def using build_loop_perm [OF len, of "call c" ?k] by blast+
    ultimately have "sorted_wrt (\<lambda>a b. call c a b \<le> 0) (take ?n d)"
      unfolding d_def using True len by (intro comparator.extract_loop_sorted [OF assms(1)]) auto
    moreover have "mset d = mset b" "length d = length b" "drop ?n d = drop ?n b"
      using extract_loop_perm [of "?n - 1" ?n b "call c"] True len b(2) by (simp_all add: d_def)
    moreover have "OPENSSL_sk_sort call (Some s) = Some (s\<lparr>sk_data := d, sk_sorted := True\<rparr>)"
      using True assms(3,4) by (simp add: OPENSSL_sk_sort_def Let_def d_def b_def)
    ultimately show ?thesis using b mset_take_eq [of d "sk_data s" ?n] by (auto simp: sk_items_def)
  qed
qed

lemma deep_copy_loop_Inr:
  "deep_copy_loop f cs todo = Inr r \<Longrightarrow>
     r = cs @ map (\<lambda>p. Option.bind p f) todo \<and> (\<forall>w. Some w \<in> set todo \<longrightarrow> f w \<noteq> None)"
  by (induction f cs todo rule: deep_copy_loop.induct) (auto split: option.splits)

lemma deep_copy_loop_Inl:
  "deep_copy_loop f cs todo = Inl freed \<Longrightarrow>
     \<exists>xs v ys. todo = xs @ Some v # ys \<and> f v = None \<and> (\<forall>w. Some w \<in> set xs \<longrightarrow> f w \<noteq> None)
       \<and> freed = List.map_filter (\<lambda>p. p) (cs @ map (\<lambda>p. Option.bind p f) xs)"
proof (induction f cs todo rule: deep_copy_loop.induct)
  case (2 f cs todo)
  then obtain xs v ys where "todo = xs @ Some v # ys" "f v = None" "\<forall>w. Some w \<in> set xs \<longrightarrow> f w \<noteq> None"
    "freed = List.map_filter (\<lambda>p. p) ((cs @ [None]) @ map (\<lambda>p. Option.bind p f) xs)" by auto
  then show ?case by (intro exI [of _ "None # xs"] exI [of _ v] exI [of _ ys]) auto
next
  case (3 f cs u todo)
  show ?case
  proof (cases "f u")
    case None
    with 3 show ?thesis by (intro exI [of _ "[]"] exI [of _ u] exI [of _ todo]) auto
  next
    case (Some w)
    with 3 obtain xs v ys where "todo = xs @ Some v # ys" "f v = None" "\<forall>w. Some w \<in> set xs \<longrightarrow> f w \<noteq> None"
      "freed = List.map_filter (\<lambda>p. p) ((cs @ [Some w]) @ map (\<lambda>p. Option.bind p f) xs)" by auto
    with Some show ?thesis by (intro exI [of _ "Some u # xs"] exI [of _ v] exI [of _ ys]) auto
  qed
qed simp

lemma sk_dup_Some: "OPENSSL_sk_dup env (Some s) = Some s' \<Longrightarrow> s' = s"
  by (cases s) (auto simp: OPENSSL_sk_dup_def split: option.splits if_splits)

section \<open>A comparison function for the examples\<close>

text \<open>The order of \<open>SET OF\<close> elements in \<open>crypto/bytestring/cbb.c\<close> is a comparison function.\<close>

lemma compare_set_of_element_sym: "compare_set_of_element a b < 0 \<longleftrightarrow> 0 < compare_set_of_element b a"
proof (induction a arbitrary: b)
  case Nil
  show ?case by (cases b) (simp_all add: compare_Nil compare_Cons_Nil)
next
  case (Cons x a)
  then show ?case by (cases b) (auto simp: compare_Nil compare_Cons_Nil compare_Cons)
qed

interpretation set_of_cmp: comparator compare_set_of_element
  by unfold_locales (auto simp: compare_set_of_element_le compare_set_of_element_sym)

lemma comparator_on: "comparator cmp \<Longrightarrow> comparator (\<lambda>a b. cmp (f a) (f b))"
  unfolding comparator_def by blast

definition demo_call :: "bytes call_cmp" where
  "demo_call c a b = compare_set_of_element (case a of None \<Rightarrow> [] | Some x \<Rightarrow> x) (case b of None \<Rightarrow> [] | Some x \<Rightarrow> x)"

lemma demo_call_comparator: "comparator (demo_call c)"
  using comparator_on [OF set_of_cmp.comparator_axioms, of "\<lambda>a. case a of None \<Rightarrow> [] | Some x \<Rightarrow> x"]
  by (simp add: demo_call_def [abs_def])

definition demo_stack :: "bool \<Rightarrow> bytes option list \<Rightarrow> bytes stack" where
  "demo_stack b xs = \<lparr>sk_num = length xs, sk_data = xs @ [None], sk_sorted = b,
     sk_num_alloc = length xs + 1, sk_comp = Some 1\<rparr>"

lemma demo_stack_inv: "length xs < INT_MAX \<Longrightarrow> sk_inv (demo_stack b xs) \<and> sk_items (demo_stack b xs) = xs"
  by (simp add: demo_stack_def sk_inv_def sk_items_def INT_MAX_def size_mod_def)

section \<open>Properties\<close>

text \<open>C15 The growing array behaves as a list: any sequence of insertions and removals that succeed on
  a new stack returns the pointers that the same operations on lists return, and leaves the stack with
  the elements of that list.\<close>

theorem stack_refines_list:
  assumes "OPENSSL_sk_new env c = Some s" "run_seq (sk_ins env fresh) sk_del cs s = Some (ps, s')"
  shows "run_seq list_ins list_del cs [] = Some (ps, sk_items s') \<and> sk_inv s'"
  using sks.run_seq_refines [OF _ assms(2)] sk_new_inv [OF assms(1)] by simp

text \<open>C16 \<open>OPENSSL_sk_sort\<close> is a heap sort that works: under a comparison function that is a total
  preorder it leaves the same elements, in ascending order, and sets the flag; the rest of the block
  is untouched.\<close>

theorem sk_sort_sorts:
  assumes "comparator (call c)" "sk_inv s" "sk_comp s = Some c" "sk_flag_ok call s"
  shows "\<exists>s'. OPENSSL_sk_sort call (Some s) = Some s' \<and> sk_inv s' \<and> sk_sorted s' \<and> sk_flag_ok call s'
    \<and> mset (sk_items s') = mset (sk_items s)"
proof (cases "sk_sorted s")
  case True
  with assms show ?thesis by (auto simp: OPENSSL_sk_sort_def)
next
  case False
  from sk_sort_run [of call c s, OF assms(1-3) False] assms(2,3) show ?thesis
    by (auto simp: sk_inv_def sk_flag_ok_def sk_items_def)
qed

text \<open>C17 \<open>OPENSSL_sk_find\<close> finds the first element equal to the key, by binary search when the flag
  says the stack is sorted and by linear search otherwise.\<close>

theorem sk_find_first:
  assumes "comparator (call c)" "sk_inv s" "sk_comp s = Some c" "sk_flag_ok call s" "p \<noteq> None"
  shows "OPENSSL_sk_find call (Some s) p = Some k \<longleftrightarrow>
    k < sk_num s \<and> call c p (sk_items s ! k) = 0 \<and> (\<forall>i. \<not> (i < k \<and> call c p (sk_items s ! i) = 0))"
proof -
  from assms(5) obtain v where p: "p = Some v" by auto
  let ?P = "\<lambda>i. call c p (sk_data s ! i) = 0"
  have "OPENSSL_sk_find call (Some s) p = find ?P [0..<sk_num s]"
  proof (cases "OPENSSL_sk_is_sorted (Some s)")
    case False
    with assms(3) p show ?thesis by (simp add: OPENSSL_sk_find_def scan_from_eq)
  next
    case True
    have small: "sorted_wrt (\<lambda>a b. call c a b \<le> 0) (sk_items s)" if "sk_num s < 2"
      using that assms(2) length_sk_items [of s] by (cases "sk_items s"; cases "tl (sk_items s)") auto
    have sorted: "sorted_wrt (\<lambda>a b. call c a b \<le> 0) (sk_items s)"
      using True assms(3,4) small by (auto simp: OPENSSL_sk_is_sorted_def sk_flag_ok_def)
    have data: "bsearch_loop (\<lambda>i. call c p (sk_data s ! i)) lo hi = bsearch_loop (\<lambda>i. call c p (sk_items s ! i)) lo hi"
      if "hi \<le> sk_num s" for lo hi
      using that
    proof (induction "\<lambda>i. call c p (sk_data s ! i)" lo hi rule: bsearch_loop.induct)
      case (1 lo hi)
      have "lo + (hi - lo - 1) div 2 < sk_num s" if "lo < hi" using that 1(4) by auto
      with 1 show ?case
        by (subst (1 2) bsearch_loop.simps) (auto simp: Let_def sk_items_nth)
    qed
    have "OPENSSL_sk_find call (Some s) p = bsearch_loop (\<lambda>i. call c p (sk_items s ! i)) 0 (sk_num s)"
      using True assms(3) p data [of "sk_num s" 0] by (simp add: OPENSSL_sk_find_def)
    also have "\<dots> = find (\<lambda>i. call c p (sk_items s ! i) = 0) [0..<sk_num s]"
      using comparator.sorted_items_le [OF assms(1) sorted] assms(2)
      by (intro comparator.bsearch_loop_find [OF assms(1)]) auto
    also have "\<dots> = find ?P [0..<sk_num s]" by (intro find_cong) (auto simp: sk_items_nth)
    finally show ?thesis .
  qed
  then show ?thesis by (auto simp: find_Some_first sk_items_nth)
qed

lemma down_heap_stop: "num \<le> 2 * i + 1 \<Longrightarrow> down_heap cmp i num d = d"
  "largest_child cmp i num d = i \<Longrightarrow> down_heap cmp i num d = d"
  by (simp_all add: down_heap.simps [of cmp i num d] left_idx_def)

lemma demo_call_bytes: "demo_call c (Some [a]) (Some [b]) = (if a < b then - 1 else if b < a then 1 else 0)"
  by (simp add: demo_call_def compare_Cons compare_Nil)

lemma sort_numerals:
  "build_loop cmp num (numeral n) d = build_loop cmp num (pred_numeral n) (down_heap cmp (pred_numeral n) num d)"
  "extract_loop cmp (numeral n) d
     = extract_loop cmp (pred_numeral n) (down_heap cmp 0 (numeral n) (swap 0 (numeral n) d))"
  by (simp_all add: numeral_eq_Suc)

lemma demo_sort:
  "OPENSSL_sk_sort demo_call (Some (demo_stack False [Some [3], Some [1], Some [2]]))
    = Some (demo_stack True [Some [1], Some [2], Some [3]])"
  by (simp add: OPENSSL_sk_sort_def demo_stack_def parent_idx_def down_heap.simps
      largest_child_def left_idx_def swap_def demo_call_bytes sort_numerals)

lemma demo_flag: "sk_flag_ok demo_call (demo_stack False xs)"
  by (simp add: sk_flag_ok_def demo_stack_def)

lemma replicate_numeral4: "replicate 4 x = [x, x, x, x]"
  by (simp add: eval_nat_numeral)

lemma demo_new: "OPENSSL_sk_new demo_env c = Some \<lparr>sk_num = 0, sk_data = [None, None, None, None], sk_sorted = False,
    sk_num_alloc = 4, sk_comp = c\<rparr>"
  by (simp add: OPENSSL_sk_new_def OPENSSL_zalloc_def OPENSSL_calloc_def OPENSSL_malloc_def demo_env_def
      sizeof_STACK_def sizeof_ptr_def kMinSize_def OPENSSL_MALLOC_PREFIX_def size_add_def size_mul_def size_mod_def
      SIZE_MAX_def replicate_numeral4)

theorem stack_refines_list_witness:
  "\<exists>s' :: bytes stack. sk_items s' = [Some [2]] \<and> sk_inv s'"
proof -
  have "\<exists>s'. run_seq (sk_ins demo_env (\<lambda>_. None)) sk_del [Ins 0 (Some [1]), Ins 1 (Some [2]), Del 0]
      \<lparr>sk_num = 0, sk_data = [None, None, None, None], sk_sorted = False, sk_num_alloc = 4, sk_comp = None\<rparr>
      = Some ([Some [1 :: u8]], s')"
    by (simp add: sk_ins_def sk_del_def OPENSSL_sk_insert_def OPENSSL_sk_delete_def sk_grow_def ptr_memmove_def
        INT_MAX_def)
  then obtain s' where "run_seq (sk_ins demo_env (\<lambda>_. None)) sk_del [Ins 0 (Some [1]), Ins 1 (Some [2]), Del 0]
      \<lparr>sk_num = 0, sk_data = [None, None, None, None], sk_sorted = False, sk_num_alloc = 4, sk_comp = None\<rparr>
      = Some ([Some [1 :: u8]], s')" by blast
  from stack_refines_list [OF demo_new this] show ?thesis by (auto simp: list_ins_def list_del_def)
qed

theorem sk_sort_sorts_witness:
  "sk_flag_ok demo_call (demo_stack True [Some [1], Some [2], Some [3]])"
proof -
  have inv: "sk_inv (demo_stack False [Some [3], Some [1], Some [2]])"
    using demo_stack_inv by (simp add: INT_MAX_def)
  have "sk_comp (demo_stack False [Some [3], Some [1], Some [2]]) = Some 1" by (simp add: demo_stack_def)
  from sk_sort_sorts [of demo_call 1, OF demo_call_comparator inv this demo_flag] show ?thesis
    unfolding demo_sort by auto
qed

theorem sk_find_first_witness:
  "OPENSSL_sk_find demo_call (Some (demo_stack False [Some [3], Some [1]])) (Some [1]) = Some 1"
proof -
  let ?s = "demo_stack False [Some [3], Some [1]]"
  have s: "sk_inv ?s" "sk_items ?s = [Some [3], Some [1]]" using demo_stack_inv by (simp_all add: INT_MAX_def)
  have "sk_comp ?s = Some 1" "sk_num ?s = 2" by (simp_all add: demo_stack_def)
  with sk_find_first [of demo_call 1, OF demo_call_comparator s(1) _ demo_flag, of "Some [1]" 1] show ?thesis
    by (auto simp: s(2) demo_call_def compare_Cons compare_Nil less_Suc_eq_0_disj)
qed

text \<open>\<open>OPENSSL_sk_deep_copy\<close> is all or nothing: either every element that is not null has been
  copied, in place, or a copy failed and exactly the copies made before it are freed.\<close>

theorem sk_deep_copy_all_or_nothing:
  assumes "OPENSSL_sk_deep_copy env f (Some s) = (r, freed)" "OPENSSL_sk_dup env (Some s) \<noteq> None" "sk_inv s"
  shows "(case r of
      Some s' \<Rightarrow> freed = [] \<and> sk_items s' = map (\<lambda>p. Option.bind p f) (sk_items s)
        \<and> None \<notin> f ` {v. Some v \<in> set (sk_items s)}
    | None \<Rightarrow> \<exists>xs v ys. sk_items s = xs @ Some v # ys \<and> f v = None
        \<and> freed = List.map_filter (\<lambda>p. Option.bind p f) xs)"
proof -
  from assms(2) have dup: "OPENSSL_sk_dup env (Some s) = Some s" using sk_dup_Some by fastforce
  show ?thesis
  proof (cases "deep_copy_loop f [] (sk_items s)")
    case (Inl fr)
    with assms(1) dup have r: "r = None" "freed = fr" by (auto simp: OPENSSL_sk_deep_copy_def sk_items_def)
    from deep_copy_loop_Inl [OF Inl] r obtain xs v ys where "sk_items s = xs @ Some v # ys" "f v = None"
      "freed = List.map_filter (\<lambda>p. p) (map (\<lambda>p. Option.bind p f) xs)" by auto
    moreover have "List.map_filter (\<lambda>p. p) (map (\<lambda>p. Option.bind p f) xs) = List.map_filter (\<lambda>p. Option.bind p f) xs"
      by (induction xs) (auto simp: List.map_filter_simps split: option.split)
    ultimately show ?thesis using r(1) by auto
  next
    case (Inr copies)
    with assms(1) dup have r: "r = Some (s\<lparr>sk_data := copies @ drop (sk_num s) (sk_data s)\<rparr>)" "freed = []"
      by (auto simp: OPENSSL_sk_deep_copy_def sk_items_def)
    from deep_copy_loop_Inr [OF Inr] have "copies = map (\<lambda>p. Option.bind p f) (sk_items s)"
      "\<forall>w. Some w \<in> set (sk_items s) \<longrightarrow> f w \<noteq> None" by auto
    moreover from this have "length copies = sk_num s" using assms(3) by simp
    ultimately show ?thesis using r by (auto simp: sk_items_def)
  qed
qed

theorem sk_deep_copy_all_or_nothing_witness:
  "\<exists>xs v ys. [Some [1], None, Some [2 :: u8]] = xs @ Some v # ys \<and> v = [2]
    \<and> [[1 :: u8, 0]] = List.map_filter (\<lambda>p. Option.bind p (\<lambda>w. if w = [2] then None else Some (w @ [0]))) xs"
proof -
  let ?s = "demo_stack False [Some [1], None, Some [2]]" and ?f = "\<lambda>w. if w = [2] then None else Some (w @ [0 :: u8])"
  have s: "sk_inv ?s" "sk_items ?s = [Some [1], None, Some [2]]" using demo_stack_inv by (simp_all add: INT_MAX_def)
  have d: "OPENSSL_sk_dup demo_env (Some ?s) = Some ?s"
    by (simp add: OPENSSL_sk_dup_def OPENSSL_zalloc_def OPENSSL_malloc_def demo_env_def demo_stack_def
        sizeof_STACK_def sizeof_ptr_def OPENSSL_MALLOC_PREFIX_def size_add_def size_mul_def size_mod_def)
  then have "OPENSSL_sk_deep_copy demo_env ?f (Some ?s) = (None, [[1, 0]])"
    using s(2) by (simp add: OPENSSL_sk_deep_copy_def sk_items_def List.map_filter_simps)
  from sk_deep_copy_all_or_nothing [OF this _ s(1)] d s(2) show ?thesis by (auto split: if_splits)
qed

text \<open>\<open>OPENSSL_sk_set\<close> leaves the flag alone: after it a stack may be marked as sorted although it is
  not, and \<open>OPENSSL_sk_find\<close> then misses an element that is there.\<close>

theorem sk_set_breaks_order:
  "\<exists>s. OPENSSL_sk_set (Some (demo_stack True [Some [1], Some [2], Some [3]])) 0 (Some [4]) = (Some [4], Some s)
    \<and> sk_flag_ok demo_call (demo_stack True [Some [1], Some [2], Some [3]]) \<and> \<not> sk_flag_ok demo_call s
    \<and> Some [4] \<in> set (sk_items s) \<and> OPENSSL_sk_is_sorted (Some s)
    \<and> OPENSSL_sk_find demo_call (Some s) (Some [4]) = None"
proof -
  let ?s = "\<lparr>sk_num = 3, sk_data = [Some [4], Some [2], Some [3], None], sk_sorted = True, sk_num_alloc = 4,
    sk_comp = Some 1\<rparr> :: bytes stack"
  have "OPENSSL_sk_set (Some (demo_stack True [Some [1], Some [2], Some [3]])) 0 (Some [4]) = (Some [4], Some ?s)"
    by (simp add: OPENSSL_sk_set_def demo_stack_def)
  moreover have "sk_flag_ok demo_call (demo_stack True [Some [1], Some [2], Some [3]])"
    by (simp add: sk_flag_ok_def demo_stack_def sk_items_def demo_call_bytes)
  moreover have "sk_items ?s = [Some [4], Some [2], Some [3]]" by (simp add: sk_items_def)
  moreover from this have "\<not> sk_flag_ok demo_call ?s" by (simp add: sk_flag_ok_def demo_call_bytes)
  moreover have "OPENSSL_sk_is_sorted (Some ?s)" by (simp add: OPENSSL_sk_is_sorted_def)
  moreover from this have "OPENSSL_sk_find demo_call (Some ?s) (Some [4]) = None"
    by (simp add: OPENSSL_sk_find_def bsearch_loop.simps demo_call_bytes)
  ultimately show ?thesis by (intro exI [of _ ?s] conjI) (assumption | simp)+
qed

end
