(* ===== verification/LHash.thy ===== *)
theory LHash
  imports Stack
begin

text \<open>
  \<open>crypto/lhash/lhash.c\<close>: the hash table with chained buckets behind
  \<open>LHASH_OF\<close>. A chain is the list of its items, so a pointer to a \<open>next\<close> field is
  a bucket and a position in its chain; it points to null when the position is
  the length of the chain. The data pointers are the values of type \<open>'v\<close>. Hash
  and comparison functions are identified by numbers and applied by the helpers
  that every operation takes, as in the C signatures.
\<close>

section \<open>State\<close>

record 'v lhash_item =
  it_data :: 'v
  it_hash :: u32

record 'v lhash =
  lh_num_items :: nat
  lh_buckets :: "'v lhash_item list list"
  lh_num_buckets :: nat
  lh_callback_depth :: nat
  lh_comp :: nat
  lh_hash :: nat

type_synonym 'v call_hash = "nat \<Rightarrow> 'v \<Rightarrow> u32"
type_synonym 'v call_eq = "nat \<Rightarrow> 'v \<Rightarrow> 'v \<Rightarrow> int"

definition kMinNumBuckets :: nat where
  "kMinNumBuckets = 16"

definition kMaxAverageChainLength :: nat where
  "kMaxAverageChainLength = 2"

definition kMinAverageChainLength :: nat where
  "kMinAverageChainLength = 1"

definition sizeof_LHASH :: nat where
  "sizeof_LHASH = 48"

definition sizeof_LHASH_ITEM :: nat where
  "sizeof_LHASH_ITEM = 24"

definition UINT_MAX :: nat where
  "UINT_MAX = 4294967295"

section \<open>Operations\<close>

definition OPENSSL_lh_new :: "heap_env \<Rightarrow> nat \<Rightarrow> nat \<Rightarrow> 'v lhash option" where
  "OPENSSL_lh_new env hashf cmpf =
     (case OPENSSL_zalloc env sizeof_LHASH of
       None \<Rightarrow> None
     | Some _ \<Rightarrow>
         (case OPENSSL_calloc env kMinNumBuckets sizeof_ptr of
           None \<Rightarrow> None
         | Some _ \<Rightarrow> Some \<lparr>lh_num_items = 0, lh_buckets = replicate kMinNumBuckets [],
             lh_num_buckets = kMinNumBuckets, lh_callback_depth = 0, lh_comp = cmpf, lh_hash = hashf\<rparr>))"

text \<open>The items that \<open>OPENSSL_lh_free\<close> frees before the array and the table, in order.\<close>

definition OPENSSL_lh_free :: "'v lhash option \<Rightarrow> 'v lhash_item list" where
  "OPENSSL_lh_free lh = (case lh of None \<Rightarrow> [] | Some lh \<Rightarrow> concat (lh_buckets lh))"

definition OPENSSL_lh_num_items :: "'v lhash \<Rightarrow> nat" where
  "OPENSSL_lh_num_items lh = lh_num_items lh"

text \<open>The walk along a chain up to the first item that matches.\<close>

fun chain_pos :: "('v \<Rightarrow> bool) \<Rightarrow> 'v lhash_item list \<Rightarrow> nat" where
  "chain_pos matches [] = 0"
| "chain_pos matches (cur # rest) = (if matches (it_data cur) then 0 else Suc (chain_pos matches rest))"

definition get_next_ptr_and_hash ::
  "'v lhash \<Rightarrow> 'v \<Rightarrow> 'v call_hash \<Rightarrow> 'v call_eq \<Rightarrow> u32 \<times> nat \<times> nat" where
  "get_next_ptr_and_hash lh data call_hash_func call_cmp_func =
     (let hash = call_hash_func (lh_hash lh) data;
          b = unat hash mod lh_num_buckets lh in
      (hash, b, chain_pos (\<lambda>x. call_cmp_func (lh_comp lh) x data = 0) (lh_buckets lh ! b)))"

definition get_next_ptr_by_key :: "'v lhash \<Rightarrow> 'k \<Rightarrow> u32 \<Rightarrow> ('k \<Rightarrow> 'v \<Rightarrow> int) \<Rightarrow> nat \<times> nat" where
  "get_next_ptr_by_key lh key key_hash cmp_key =
     (let b = unat key_hash mod lh_num_buckets lh in
      (b, chain_pos (\<lambda>x. cmp_key key x = 0) (lh_buckets lh ! b)))"

text \<open>What a pointer points to.\<close>

definition lh_deref :: "'v lhash \<Rightarrow> nat \<times> nat \<Rightarrow> 'v lhash_item option" where
  "lh_deref lh p = (case p of (b, k) \<Rightarrow>
     if k < length (lh_buckets lh ! b) then Some (lh_buckets lh ! b ! k) else None)"

definition OPENSSL_lh_retrieve :: "'v lhash \<Rightarrow> 'v \<Rightarrow> 'v call_hash \<Rightarrow> 'v call_eq \<Rightarrow> 'v option" where
  "OPENSSL_lh_retrieve lh data call_hash_func call_cmp_func =
     (case get_next_ptr_and_hash lh data call_hash_func call_cmp_func of
       (_, next_ptr) \<Rightarrow> map_option it_data (lh_deref lh next_ptr))"

definition OPENSSL_lh_retrieve_key :: "'v lhash \<Rightarrow> 'k \<Rightarrow> u32 \<Rightarrow> ('k \<Rightarrow> 'v \<Rightarrow> int) \<Rightarrow> 'v option" where
  "OPENSSL_lh_retrieve_key lh key key_hash cmp_key =
     map_option it_data (lh_deref lh (get_next_ptr_by_key lh key key_hash cmp_key))"

text \<open>The two loops of \<open>lh_rebucket\<close>.\<close>

fun rebucket_chain :: "nat \<Rightarrow> 'v lhash_item list \<Rightarrow> 'v lhash_item list list \<Rightarrow> 'v lhash_item list list" where
  "rebucket_chain n [] new_buckets = new_buckets"
| "rebucket_chain n (cur # rest) new_buckets =
     (let new_bucket = unat (it_hash cur) mod n in
      rebucket_chain n rest (new_buckets[new_bucket := cur # new_buckets ! new_bucket]))"

fun rebucket_loop :: "nat \<Rightarrow> 'v lhash_item list list \<Rightarrow> 'v lhash_item list list \<Rightarrow> 'v lhash_item list list" where
  "rebucket_loop n [] new_buckets = new_buckets"
| "rebucket_loop n (c # cs) new_buckets = rebucket_loop n cs (rebucket_chain n c new_buckets)"

definition lh_rebucket :: "heap_env \<Rightarrow> 'v lhash \<Rightarrow> nat \<Rightarrow> 'v lhash" where
  "lh_rebucket env lh new_num_buckets =
     (let alloc_size = size_mul sizeof_ptr new_num_buckets in
      if alloc_size div sizeof_ptr \<noteq> new_num_buckets then lh
      else (case OPENSSL_zalloc env alloc_size of
        None \<Rightarrow> lh
      | Some _ \<Rightarrow> lh\<lparr>lh_num_buckets := new_num_buckets,
          lh_buckets := rebucket_loop new_num_buckets (lh_buckets lh) (replicate new_num_buckets [])\<rparr>))"

definition lh_maybe_resize :: "heap_env \<Rightarrow> 'v lhash \<Rightarrow> 'v lhash" where
  "lh_maybe_resize env lh =
     (if lh_callback_depth lh > 0 then lh
      else
        let avg_chain_length = lh_num_items lh div lh_num_buckets lh in
        if avg_chain_length > kMaxAverageChainLength then
          let new_num_buckets = size_mul (lh_num_buckets lh) 2 in
          if new_num_buckets > lh_num_buckets lh then lh_rebucket env lh new_num_buckets else lh
        else if avg_chain_length < kMinAverageChainLength \<and> lh_num_buckets lh > kMinNumBuckets then
          let new_num_buckets = lh_num_buckets lh div 2;
              new_num_buckets = (if new_num_buckets < kMinNumBuckets then kMinNumBuckets else new_num_buckets) in
          lh_rebucket env lh new_num_buckets
        else lh)"

text \<open>The result, the data that was replaced, and the table.\<close>

definition OPENSSL_lh_insert ::
  "heap_env \<Rightarrow> 'v lhash \<Rightarrow> 'v \<Rightarrow> 'v call_hash \<Rightarrow> 'v call_eq \<Rightarrow> bool \<times> 'v option \<times> 'v lhash" where
  "OPENSSL_lh_insert env lh data call_hash_func call_cmp_func =
     (case get_next_ptr_and_hash lh data call_hash_func call_cmp_func of
       (hash, b, k) \<Rightarrow>
         (case lh_deref lh (b, k) of
           Some it \<Rightarrow> (True, Some (it_data it),
             lh\<lparr>lh_buckets := (lh_buckets lh)[b := (lh_buckets lh ! b)[k := it\<lparr>it_data := data\<rparr>]]\<rparr>)
         | None \<Rightarrow>
             (case OPENSSL_malloc env sizeof_LHASH_ITEM of
               None \<Rightarrow> (False, None, lh)
             | Some _ \<Rightarrow>
                 let item = \<lparr>it_data = data, it_hash = hash\<rparr>;
                     lh = lh\<lparr>lh_buckets := (lh_buckets lh)[b := lh_buckets lh ! b @ [item]]\<rparr>;
                     lh = lh\<lparr>lh_num_items := lh_num_items lh + 1\<rparr> in
                 (True, None, lh_maybe_resize env lh))))"

definition OPENSSL_lh_delete ::
  "heap_env \<Rightarrow> 'v lhash \<Rightarrow> 'v \<Rightarrow> 'v call_hash \<Rightarrow> 'v call_eq \<Rightarrow> 'v option \<times> 'v lhash" where
  "OPENSSL_lh_delete env lh data call_hash_func call_cmp_func =
     (case get_next_ptr_and_hash lh data call_hash_func call_cmp_func of
       (_, b, k) \<Rightarrow>
         (case lh_deref lh (b, k) of
           None \<Rightarrow> (None, lh)
         | Some item \<Rightarrow>
             let lh = lh\<lparr>lh_buckets := (lh_buckets lh)[b :=
                   take k (lh_buckets lh ! b) @ drop (k + 1) (lh_buckets lh ! b)]\<rparr>;
                 lh = lh\<lparr>lh_num_items := lh_num_items lh - 1\<rparr> in
             (Some (it_data item), lh_maybe_resize env lh)))"

text \<open>
  The walk over all items with a callback that does not change the table; its
  effect is a change of the state \<open>'s\<close> behind \<open>arg\<close>.
\<close>

fun doall_chain :: "('v \<Rightarrow> 's \<Rightarrow> 's) \<Rightarrow> 'v lhash_item list \<Rightarrow> 's \<Rightarrow> 's" where
  "doall_chain func [] s = s"
| "doall_chain func (cur # rest) s = doall_chain func rest (func (it_data cur) s)"

fun doall_loop :: "('v \<Rightarrow> 's \<Rightarrow> 's) \<Rightarrow> 'v lhash_item list list \<Rightarrow> 's \<Rightarrow> 's" where
  "doall_loop func [] s = s"
| "doall_loop func (c # cs) s = doall_loop func cs (doall_chain func c s)"

definition OPENSSL_lh_doall_arg ::
  "heap_env \<Rightarrow> 'v lhash option \<Rightarrow> ('v \<Rightarrow> 's \<Rightarrow> 's) \<Rightarrow> 's \<Rightarrow> 's \<times> 'v lhash option" where
  "OPENSSL_lh_doall_arg env lh func s = (case lh of None \<Rightarrow> (s, None) | Some lh \<Rightarrow>
     let lh = (if lh_callback_depth lh < UINT_MAX then lh\<lparr>lh_callback_depth := lh_callback_depth lh + 1\<rparr> else lh);
         s = doall_loop func (lh_buckets lh) s;
         lh = (if lh_callback_depth lh < UINT_MAX then lh\<lparr>lh_callback_depth := lh_callback_depth lh - 1\<rparr> else lh) in
     (s, Some (lh_maybe_resize env lh)))"

section \<open>Hash and comparison functions\<close>

text \<open>What a table relies on: equality by comparison is an equivalence and the hash respects it.\<close>

locale hash_cmp =
  fixes h :: "'v \<Rightarrow> u32" and cmp :: "'v \<Rightarrow> 'v \<Rightarrow> int"
  assumes eq_refl: "cmp a a = 0"
    and eq_sym: "cmp a b = 0 \<Longrightarrow> cmp b a = 0"
    and eq_trans: "cmp a b = 0 \<Longrightarrow> cmp b c = 0 \<Longrightarrow> cmp a c = 0"
    and eq_hash: "cmp a b = 0 \<Longrightarrow> h a = h b"
begin

lemma eq_comm: "cmp a b = 0 \<longleftrightarrow> cmp b a = 0"
  using eq_sym by blast

lemma eq_cong: "cmp a b = 0 \<Longrightarrow> cmp a c = 0 \<longleftrightarrow> cmp b c = 0"
  using eq_sym eq_trans by blast

lemma eq_cong': "cmp a b = 0 \<Longrightarrow> cmp c a = 0 \<longleftrightarrow> cmp c b = 0"
  using eq_sym eq_trans by blast

text \<open>The number of elements equal to a key.\<close>

definition hits :: "'v \<Rightarrow> 'v multiset \<Rightarrow> nat" where
  "hits k M = size {#x \<in># M. cmp x k = 0#}"

definition uniq :: "'v multiset \<Rightarrow> bool" where
  "uniq M \<longleftrightarrow> (\<forall>k. hits k M \<le> 1)"

definition lookup_mset :: "'v multiset \<Rightarrow> 'v \<Rightarrow> 'v option" where
  "lookup_mset M k = (if \<exists>x. x \<in># M \<and> cmp x k = 0 then Some (SOME x. x \<in># M \<and> cmp x k = 0) else None)"

lemma hits_add: "hits k (add_mset x M) = (if cmp x k = 0 then 1 else 0) + hits k M"
  by (simp add: hits_def)

lemma hits_zero: "hits k M = 0 \<longleftrightarrow> (\<forall>x \<in># M. cmp x k \<noteq> 0)"
  by (simp add: hits_def filter_mset_eq_conv)

lemma uniq_unique:
  assumes "uniq M" "x \<in># M" "y \<in># M" "cmp x k = 0" "cmp y k = 0"
  shows "x = y"
proof (rule ccontr)
  assume "x \<noteq> y"
  obtain N where M: "M = add_mset x N" using assms(2) by (metis multi_member_split)
  with \<open>x \<noteq> y\<close> assms(3) obtain N' where "N = add_mset y N'" by (metis insert_noteq_member multi_member_split set_mset_add_mset_insert insertE)
  with M assms have "hits k M \<ge> 2" by (simp add: hits_add)
  with assms(1) show False unfolding uniq_def by (metis Suc_1 not_less_eq_eq)
qed

lemma lookup_mset_Some: "uniq M \<Longrightarrow> lookup_mset M k = Some x \<longleftrightarrow> x \<in># M \<and> cmp x k = 0"
  using uniq_unique [of M _ _ k] someI_ex [of "\<lambda>x. x \<in># M \<and> cmp x k = 0"]
  unfolding lookup_mset_def by (auto split: if_splits)

lemma lookup_mset_None: "lookup_mset M k = None \<longleftrightarrow> (\<forall>x \<in># M. cmp x k \<noteq> 0)"
  by (auto simp: lookup_mset_def)

end

text \<open>The FNV hash of \<open>crypto/mem.c\<close> with the comparison of \<open>cbb.c\<close> is such a pair.\<close>

interpretation bytes_hash: hash_cmp OPENSSL_hash32 compare_set_of_element
proof
  show "compare_set_of_element a a = 0" for a by (rule set_of_cmp.cmp_refl)
  have eq: "compare_set_of_element a b = 0 \<longleftrightarrow> a = b" for a b
    using compare_set_of_element_le [of a b] compare_set_of_element_le [of b a]
      set_of_cmp.cmp_not_less [of a b] by force
  show "compare_set_of_element a b = 0 \<Longrightarrow> compare_set_of_element b a = 0" for a b by (simp add: eq)
  show "compare_set_of_element a b = 0 \<Longrightarrow> compare_set_of_element b c = 0 \<Longrightarrow> compare_set_of_element a c = 0" for a b c
    by (simp add: eq)
  show "compare_set_of_element a b = 0 \<Longrightarrow> OPENSSL_hash32 a = OPENSSL_hash32 b" for a b by (simp add: eq)
qed

section \<open>Invariant and contents\<close>

definition lh_items :: "'v lhash \<Rightarrow> 'v lhash_item multiset" where
  "lh_items lh = mset (concat (lh_buckets lh))"

definition lh_contents :: "'v lhash \<Rightarrow> 'v multiset" where
  "lh_contents lh = image_mset it_data (lh_items lh)"

text \<open>Every item is in the bucket of its hash, the cached hash is right, and the sizes are.\<close>

definition placed :: "nat \<Rightarrow> 'v lhash_item list list \<Rightarrow> bool" where
  "placed n bs \<longleftrightarrow> length bs = n \<and> (\<forall>i<n. \<forall>it \<in> set (bs ! i). unat (it_hash it) mod n = i)"

definition lh_shape :: "('v \<Rightarrow> u32) \<Rightarrow> 'v lhash \<Rightarrow> bool" where
  "lh_shape h lh \<longleftrightarrow> 16 \<le> lh_num_buckets lh \<and> lh_num_buckets lh < size_mod
     \<and> placed (lh_num_buckets lh) (lh_buckets lh)
     \<and> lh_num_items lh = size (lh_items lh) \<and> (\<forall>it \<in># lh_items lh. it_hash it = h (it_data it))"

lemma lh_items_update:
  "b < length (lh_buckets lh) \<Longrightarrow>
     lh_items (lh\<lparr>lh_buckets := (lh_buckets lh)[b := c]\<rparr>) + mset (lh_buckets lh ! b) = lh_items lh + mset c"
  unfolding lh_items_def
  by (subst (4) id_take_nth_drop [of b]) (simp_all add: upd_conv_take_nth_drop ac_simps)

lemma lh_items_fields [simp]:
  "lh_items (lh_num_items_update f lh) = lh_items lh"
  "lh_items (lh_callback_depth_update g lh) = lh_items lh"
  by (simp_all add: lh_items_def)

lemma placed_update:
  "placed n bs \<Longrightarrow> b < n \<Longrightarrow> \<forall>it \<in> set c. unat (it_hash it) mod n = b \<Longrightarrow> placed n (bs[b := c])"
  by (auto simp: placed_def nth_list_update)

lemma size_lh_contents: "size (lh_contents lh) = size (lh_items lh)"
  by (simp add: lh_contents_def)

subsection \<open>Moving the items to another array\<close>

lemma rebucket_chain_placed: "0 < n \<Longrightarrow> placed n bs \<Longrightarrow> placed n (rebucket_chain n c bs)"
proof (induction c arbitrary: bs)
  case (Cons it c)
  let ?b = "unat (it_hash it) mod n"
  have "?b < n" using Cons.prems by simp
  moreover from this have "\<forall>x \<in> set (it # bs ! ?b). unat (it_hash x) mod n = ?b"
    using Cons.prems by (auto simp: placed_def)
  ultimately have "placed n (bs[?b := it # bs ! ?b])" by (intro placed_update Cons.prems)
  with Cons show ?case by (simp add: Let_def)
qed simp

lemma mset_concat_update:
  "b < length bs \<Longrightarrow> mset (concat (bs[b := it # bs ! b])) = add_mset it (mset (concat bs))"
  by (subst (3) id_take_nth_drop [of b]) (simp_all add: upd_conv_take_nth_drop)

lemma rebucket_chain_mset:
  "0 < n \<Longrightarrow> length bs = n \<Longrightarrow> mset (concat (rebucket_chain n c bs)) = mset c + mset (concat bs)"
  by (induction c arbitrary: bs) (simp_all add: Let_def mset_concat_update)

lemma rebucket_loop_ok:
  "0 < n \<Longrightarrow> placed n bs \<Longrightarrow>
     placed n (rebucket_loop n cs bs) \<and> mset (concat (rebucket_loop n cs bs)) = mset (concat cs) + mset (concat bs)"
proof (induction cs arbitrary: bs)
  case (Cons c cs)
  then have "placed n (rebucket_chain n c bs)" "length bs = n"
    by (simp_all add: rebucket_chain_placed) (simp add: placed_def)
  with Cons show ?case by (simp add: rebucket_chain_mset)
qed simp

lemma lh_rebucket_ok:
  assumes "lh_shape h lh" "16 \<le> n" "n < size_mod"
  shows "lh_shape h (lh_rebucket env lh n) \<and> lh_items (lh_rebucket env lh n) = lh_items lh"
proof -
  have "placed n (replicate n [])" by (simp add: placed_def)
  from rebucket_loop_ok [OF _ this, of "lh_buckets lh"] assms(2) have r: "placed n (rebucket_loop n (lh_buckets lh) (replicate n []))"
      "mset (concat (rebucket_loop n (lh_buckets lh) (replicate n []))) = lh_items lh"
    by (simp_all add: lh_items_def)
  let ?lh = "lh\<lparr>lh_num_buckets := n, lh_buckets := rebucket_loop n (lh_buckets lh) (replicate n [])\<rparr>"
  have i: "lh_items ?lh = lh_items lh" using r(2) by (simp add: lh_items_def [of ?lh])
  have "lh_shape h ?lh" using assms r(1) unfolding lh_shape_def i by simp
  then show ?thesis using assms(1) i
    by (simp add: lh_rebucket_def Let_def split: option.split)
qed

lemma lh_maybe_resize_ok:
  assumes "lh_shape h lh"
  shows "lh_shape h (lh_maybe_resize env lh) \<and> lh_items (lh_maybe_resize env lh) = lh_items lh"
proof -
  have n: "16 \<le> lh_num_buckets lh" "lh_num_buckets lh < size_mod" using assms by (auto simp: lh_shape_def)
  have "size_mul (lh_num_buckets lh) 2 < size_mod" by (simp add: size_mul_def)
  with assms n show ?thesis
    by (auto simp: lh_maybe_resize_def Let_def kMinNumBuckets_def intro!: lh_rebucket_ok [THEN conjunct1]
        lh_rebucket_ok [THEN conjunct2])
qed

lemma lh_maybe_resize_contents: "lh_shape h lh \<Longrightarrow> lh_contents (lh_maybe_resize env lh) = lh_contents lh"
  using lh_maybe_resize_ok by (metis lh_contents_def)

lemma lh_resize_fields [simp]:
  "lh_comp (lh_maybe_resize env lh) = lh_comp lh" "lh_hash (lh_maybe_resize env lh) = lh_hash lh"
  "lh_callback_depth (lh_maybe_resize env lh) = lh_callback_depth lh"
  "lh_num_items (lh_maybe_resize env lh) = lh_num_items lh"
  by (simp_all add: lh_maybe_resize_def lh_rebucket_def Let_def split: option.split)

section \<open>Looking up\<close>

lemma chain_pos_le: "chain_pos P c \<le> length c"
  by (induction c) auto

lemma chain_pos_hit: "chain_pos P c < length c \<Longrightarrow> P (it_data (c ! chain_pos P c))"
  by (induction c) auto

lemma chain_pos_miss: "\<not> chain_pos P c < length c \<longleftrightarrow> (\<forall>it \<in> set c. \<not> P (it_data it))"
  by (induction c) auto

lemma lh_item_bucket:
  assumes "lh_shape h lh" "it \<in># lh_items lh"
  shows "it \<in> set (lh_buckets lh ! (unat (it_hash it) mod lh_num_buckets lh))"
proof -
  from assms(2) obtain c where "c \<in> set (lh_buckets lh)" "it \<in> set c" by (auto simp: lh_items_def)
  then obtain i where "i < length (lh_buckets lh)" "it \<in> set (lh_buckets lh ! i)" by (metis in_set_conv_nth)
  with assms(1) show ?thesis by (auto simp: lh_shape_def placed_def)
qed

lemma bucket_item: "b < length (lh_buckets lh) \<Longrightarrow> it \<in> set (lh_buckets lh ! b) \<Longrightarrow> it \<in># lh_items lh"
  using nth_mem by (fastforce simp: lh_items_def)

context hash_cmp
begin

definition lh_good :: "'v lhash \<Rightarrow> bool" where
  "lh_good lh \<longleftrightarrow> lh_shape h lh \<and> uniq (lh_contents lh)"

definition lookup :: "'v lhash \<Rightarrow> 'v \<Rightarrow> 'v option" where
  "lookup lh = lookup_mset (lh_contents lh)"

text \<open>The pointer that the search returns: to the element equal to the key, or to the end of the chain.\<close>

lemma get_next_ptr_cases:
  assumes "lh_good lh" "call_hash (lh_hash lh) = h" "call_cmp (lh_comp lh) = cmp"
  obtains (hit) b k it where "get_next_ptr_and_hash lh key call_hash call_cmp = (h key, b, k)"
      "b < length (lh_buckets lh)" "k < length (lh_buckets lh ! b)" "lh_deref lh (b, k) = Some it"
      "it = lh_buckets lh ! b ! k" "cmp (it_data it) key = 0" "lookup lh key = Some (it_data it)"
      "b = unat (h key) mod lh_num_buckets lh"
    | (miss) b k where "get_next_ptr_and_hash lh key call_hash call_cmp = (h key, b, k)"
      "b < length (lh_buckets lh)" "lh_deref lh (b, k) = None" "lookup lh key = None"
      "b = unat (h key) mod lh_num_buckets lh"
proof -
  let ?b = "unat (h key) mod lh_num_buckets lh" and ?P = "\<lambda>x. cmp x key = 0"
  let ?c = "lh_buckets lh ! ?b"
  let ?k = "chain_pos ?P ?c"
  from assms(1) have shape: "lh_shape h lh" and u: "uniq (lh_contents lh)" by (auto simp: lh_good_def)
  have b: "?b < length (lh_buckets lh)" using shape by (auto simp: lh_shape_def placed_def)
  have p: "get_next_ptr_and_hash lh key call_hash call_cmp = (h key, ?b, ?k)"
    using assms(2,3) by (simp add: get_next_ptr_and_hash_def Let_def)
  show thesis
  proof (cases "?k < length ?c")
    case True
    have m: "?c ! ?k \<in># lh_items lh" by (rule bucket_item [OF b]) (use True in simp)
    then have "it_data (?c ! ?k) \<in># lh_contents lh" by (simp add: lh_contents_def)
    moreover note chain_pos_hit [OF True]
    ultimately have "lookup lh key = Some (it_data (?c ! ?k))" using u by (simp add: lookup_def lookup_mset_Some)
    with hit [OF p b True _ refl] chain_pos_hit [OF True] True show thesis by (simp add: lh_deref_def)
  next
    case False
    have "cmp (it_data it) key \<noteq> 0" if it: "it \<in># lh_items lh" for it
    proof
      assume e: "cmp (it_data it) key = 0"
      with it shape have "it_hash it = h key" by (auto simp: lh_shape_def eq_hash)
      with lh_item_bucket [OF shape it] have "it \<in> set ?c" by simp
      with False e show False using chain_pos_miss [of ?P ?c] by auto
    qed
    then have "lookup lh key = None" by (auto simp: lookup_def lookup_mset_None lh_contents_def)
    with miss [OF p b] False show thesis by (simp add: lh_deref_def)
  qed
qed

lemma lh_retrieve_lookup:
  assumes "lh_good lh" "call_hash (lh_hash lh) = h" "call_cmp (lh_comp lh) = cmp"
  shows "OPENSSL_lh_retrieve lh key call_hash call_cmp = lookup lh key"
  using assms by (rule get_next_ptr_cases [where key = key]) (simp_all add: OPENSSL_lh_retrieve_def)

lemma lookup_ext:
  assumes "uniq M" "uniq N" "\<And>x. x \<in># N \<longleftrightarrow> x \<in># M \<and> cmp k x \<noteq> 0 \<or> Some x = v"
    "\<And>x. v = Some x \<Longrightarrow> cmp x k = 0"
  shows "lookup_mset N = (\<lambda>x. if cmp k x = 0 then v else lookup_mset M x)"
proof
  fix x
  have "lookup_mset N x = Some y \<longleftrightarrow> (if cmp k x = 0 then v else lookup_mset M x) = Some y" for y
  proof (cases "cmp k x = 0")
    case True
    then show ?thesis using assms(3) [of y] assms(4) [of y] eq_cong' [OF True, of y] eq_comm [of y k]
      by (auto simp: lookup_mset_Some [OF assms(2)])
  next
    case False
    have "cmp y x \<noteq> 0" if "cmp k y = 0" using that False eq_trans by blast
    then show ?thesis using False assms(3) [of y] assms(4) [of y] eq_comm [of y k]
      by (auto simp: lookup_mset_Some [OF assms(1)] lookup_mset_Some [OF assms(2)])
  qed
  then show "lookup_mset N x = (if cmp k x = 0 then v else lookup_mset M x)" by (metis option.exhaust)
qed

end

section \<open>Inserting and deleting\<close>

context hash_cmp
begin

lemma lookup_put:
  assumes "uniq M" "uniq N" "k \<in># N" "\<And>x. cmp k x \<noteq> 0 \<Longrightarrow> x \<in># N \<longleftrightarrow> x \<in># M"
  shows "lookup_mset N = (\<lambda>x. if cmp k x = 0 then Some k else lookup_mset M x)"
proof (rule lookup_ext [OF assms(1,2)])
  show "x \<in># N \<longleftrightarrow> x \<in># M \<and> cmp k x \<noteq> 0 \<or> Some x = Some k" for x
    using assms(3) assms(4) [of x] uniq_unique [OF assms(2), of x k k] eq_refl [of k] eq_sym [of k x] by blast
qed (simp add: eq_refl)

lemma lookup_del:
  assumes "uniq M" "uniq N" "\<And>x. x \<in># N \<longleftrightarrow> x \<in># M \<and> cmp k x \<noteq> 0"
  shows "lookup_mset N = (\<lambda>x. if cmp k x = 0 then None else lookup_mset M x)"
  by (rule lookup_ext [OF assms(1,2)]) (use assms(3) in simp_all)

lemma uniq_swap:
  assumes "uniq M" "add_mset x N = add_mset y M" "cmp x y = 0"
  shows "uniq N"
proof -
  have "hits k N = hits k M" for k
    using arg_cong [OF assms(2), of "hits k"] eq_cong [OF assms(3), of k] by (simp add: hits_add)
  with assms(1) show ?thesis by (simp add: uniq_def)
qed

lemma uniq_less: "uniq (add_mset x M) \<Longrightarrow> uniq M"
  unfolding uniq_def hits_add by (metis add_leD2)

lemma uniq_more:
  assumes "uniq M" "lookup_mset M k = None"
  shows "uniq (add_mset k M)"
  unfolding uniq_def
proof
  fix x
  have "hits x M = 0" if "cmp k x = 0"
    using assms(2) eq_cong' [OF that] by (auto simp: hits_zero lookup_mset_None)
  with assms(1) show "hits x (add_mset k M) \<le> 1" by (simp add: hits_add uniq_def)
qed

lemma shape_update:
  assumes "lh_shape h lh" "b < length (lh_buckets lh)" "lh_items lh' = M" "lh_num_items lh' = size M"
    "lh_num_buckets lh' = lh_num_buckets lh" "lh_buckets lh' = (lh_buckets lh)[b := c]"
    "\<forall>it \<in> set c. unat (it_hash it) mod lh_num_buckets lh = b" "\<forall>it \<in># M. it_hash it = h (it_data it)"
  shows "lh_shape h lh'"
  using assms by (auto simp: lh_shape_def intro!: placed_update) (simp add: placed_def)

lemma lh_insert_ok:
  assumes "lh_good lh" "call_hash (lh_hash lh) = h" "call_cmp (lh_comp lh) = cmp"
    and ins: "OPENSSL_lh_insert env lh key call_hash call_cmp = (True, old, lh')"
  shows "lh_good lh' \<and> old = lookup lh key \<and> lookup lh' = (\<lambda>x. if cmp key x = 0 then Some key else lookup lh x)"
proof -
  from assms(1) have shape: "lh_shape h lh" and u: "uniq (lh_contents lh)" by (auto simp: lh_good_def)
  from assms(1-3) show ?thesis
  proof (cases rule: get_next_ptr_cases [where key = key])
    case (hit b k it)
    let ?c = "lh_buckets lh ! b"
    let ?new = "it\<lparr>it_data := key\<rparr>"
    from ins hit have lh': "lh' = lh\<lparr>lh_buckets := (lh_buckets lh)[b := ?c[k := ?new]]\<rparr>" "old = Some (it_data it)"
      by (simp_all add: OPENSSL_lh_insert_def)
    have c: "?c = take k ?c @ it # drop (Suc k) ?c" using hit by (simp add: id_take_nth_drop [symmetric])
    have c': "?c[k := ?new] = take k ?c @ ?new # drop (Suc k) ?c" using hit by (simp add: upd_conv_take_nth_drop)
    have items: "add_mset it (lh_items lh') = add_mset ?new (lh_items lh)"
      using lh_items_update [OF hit(2), of "?c[k := ?new]"] unfolding lh'(1) c' by (subst (asm) (2) c) simp
    then have contents: "add_mset (it_data it) (lh_contents lh') = add_mset key (lh_contents lh)"
      unfolding lh_contents_def by (metis image_mset_add_mset lhash_item.select_convs(1) lhash_item.update_convs(1) lhash_item.surjective)
    have u': "uniq (lh_contents lh')" by (rule uniq_swap [OF u contents hit(6)])
    have h: "it_hash it = h key" using bucket_item [OF hit(2)] hit(3,5) shape eq_hash [OF hit(6)]
      by (auto simp: lh_shape_def)
    have size: "lh_num_items lh' = size (lh_items lh')"
      using arg_cong [OF items, of size] shape by (simp add: lh'(1) lh_shape_def)
    have set_items: "insert it (set_mset (lh_items lh')) = insert ?new (set_mset (lh_items lh))"
      using arg_cong [OF items, of set_mset] by simp
    have "lh_shape h lh'"
    proof (rule shape_update [OF shape hit(2) refl size])
      show "\<forall>x \<in> set (?c[k := ?new]). unat (it_hash x) mod lh_num_buckets lh = b"
        using set_update_subset_insert [of ?c k ?new] shape hit(2,3,5)
        by (auto simp: lh_shape_def placed_def)
      show "\<forall>x \<in># lh_items lh'. it_hash x = h (it_data x)"
      proof
        fix x assume "x \<in># lh_items lh'"
        then have "x = ?new \<or> x \<in># lh_items lh" using set_items by blast
        with h shape show "it_hash x = h (it_data x)" by (auto simp: lh_shape_def)
      qed
    qed (simp_all add: lh'(1))
    moreover have "lookup lh' = (\<lambda>x. if cmp key x = 0 then Some key else lookup lh x)"
      unfolding lookup_def
    proof (rule lookup_put [OF u u'])
      have s: "insert (it_data it) (set_mset (lh_contents lh')) = insert key (set_mset (lh_contents lh))"
        using arg_cong [OF contents, of set_mset] by simp
      have "it_data it \<in># lh_contents lh" using hit(7) u by (simp add: lookup_def lookup_mset_Some)
      with s contents show "key \<in># lh_contents lh'" by (cases "key = it_data it") auto
      show "x \<in># lh_contents lh' \<longleftrightarrow> x \<in># lh_contents lh" if "cmp key x \<noteq> 0" for x
      proof -
        have "x \<noteq> it_data it" "x \<noteq> key" using that eq_sym [OF hit(6)] eq_refl [of key] by auto
        with s show ?thesis by blast
      qed
    qed
    ultimately show ?thesis using u' hit(7) lh'(2) by (simp add: lh_good_def)
  next
    case (miss b k)
    let ?c = "lh_buckets lh ! b" and ?item = "\<lparr>it_data = key, it_hash = h key\<rparr>"
    let ?lh = "lh\<lparr>lh_buckets := (lh_buckets lh)[b := ?c @ [?item]], lh_num_items := lh_num_items lh + 1\<rparr>"
    from ins miss have lh': "lh' = lh_maybe_resize env ?lh" "old = None"
      by (auto simp: OPENSSL_lh_insert_def Let_def split: option.splits)
    have items: "lh_items ?lh = add_mset ?item (lh_items lh)"
      using lh_items_update [OF miss(2), of "?c @ [?item]"] by simp
    then have contents: "lh_contents ?lh = add_mset key (lh_contents lh)" by (simp add: lh_contents_def)
    have "lh_shape h ?lh"
    proof (rule shape_update [OF shape miss(2) items])
      show "lh_num_items ?lh = size (add_mset ?item (lh_items lh))" using shape by (simp add: lh_shape_def)
    qed (use shape miss(2,5) in \<open>auto simp: lh_shape_def placed_def\<close>)
    then have lh'': "lh_shape h lh'" "lh_contents lh' = add_mset key (lh_contents lh)"
      unfolding lh'(1) using lh_maybe_resize_ok [of h ?lh env] contents by (simp_all add: lh_maybe_resize_contents)
    have u': "uniq (add_mset key (lh_contents lh))" using u miss(4) unfolding lookup_def by (rule uniq_more)
    have "lookup lh' = (\<lambda>x. if cmp key x = 0 then Some key else lookup lh x)"
      unfolding lookup_def lh''(2)
      by (rule lookup_put [OF u u']) (use eq_refl [of key] in auto)
    with lh'' u' miss(4) lh'(2) show ?thesis by (simp add: lh_good_def)
  qed
qed

lemma lh_insert_fail:
  assumes "lh_good lh" "call_hash (lh_hash lh) = h" "call_cmp (lh_comp lh) = cmp"
    and ins: "OPENSSL_lh_insert env lh key call_hash call_cmp = (False, old, lh')"
  shows "lh' = lh \<and> old = None \<and> lookup lh key = None \<and> OPENSSL_malloc env sizeof_LHASH_ITEM = None"
  using assms(1-3)
  by (rule get_next_ptr_cases [where key = key]) (use ins in \<open>auto simp: OPENSSL_lh_insert_def Let_def split: option.splits\<close>)

lemma lh_delete_ok:
  assumes "lh_good lh" "call_hash (lh_hash lh) = h" "call_cmp (lh_comp lh) = cmp"
    and del: "OPENSSL_lh_delete env lh key call_hash call_cmp = (old, lh')"
  shows "lh_good lh' \<and> old = lookup lh key \<and> lookup lh' = (\<lambda>x. if cmp key x = 0 then None else lookup lh x)"
proof -
  from assms(1) have shape: "lh_shape h lh" and u: "uniq (lh_contents lh)" by (auto simp: lh_good_def)
  from assms(1-3) show ?thesis
  proof (cases rule: get_next_ptr_cases [where key = key])
    case (hit b k it)
    let ?c = "lh_buckets lh ! b"
    let ?rest = "take k ?c @ drop (k + 1) ?c"
    let ?lh = "lh\<lparr>lh_buckets := (lh_buckets lh)[b := ?rest], lh_num_items := lh_num_items lh - 1\<rparr>"
    from del hit have lh': "lh' = lh_maybe_resize env ?lh" "old = Some (it_data it)"
      by (auto simp: OPENSSL_lh_delete_def Let_def)
    have c: "mset ?c = add_mset it (mset ?rest)"
      using hit by (subst id_take_nth_drop [of k ?c]) simp_all
    have items: "add_mset it (lh_items ?lh) = lh_items lh"
      using lh_items_update [OF hit(2), of ?rest] by (simp add: c)
    then have contents: "add_mset (it_data it) (lh_contents ?lh) = lh_contents lh"
      unfolding lh_contents_def by (metis image_mset_add_mset)
    have "lh_shape h ?lh"
    proof (rule shape_update [OF shape hit(2) refl])
      show "lh_num_items ?lh = size (lh_items ?lh)" using shape arg_cong [OF items, of size] by (simp add: lh_shape_def)
      show "\<forall>x \<in> set ?rest. unat (it_hash x) mod lh_num_buckets lh = b"
        using shape hit(2) set_take_subset [of k ?c] set_drop_subset [of "k + 1" ?c]
        by (auto simp: lh_shape_def placed_def)
      show "\<forall>x \<in># lh_items ?lh. it_hash x = h (it_data x)"
        using shape items [symmetric] by (auto simp: lh_shape_def)
    qed simp_all
    then have lh'': "lh_shape h lh'" "lh_contents lh' = lh_contents ?lh"
      unfolding lh'(1) using lh_maybe_resize_ok [of h ?lh env] by (simp_all add: lh_maybe_resize_contents)
    have u': "uniq (lh_contents ?lh)" using u unfolding contents [symmetric] by (rule uniq_less)
    have "lookup lh' = (\<lambda>x. if cmp key x = 0 then None else lookup lh x)"
      unfolding lookup_def lh''(2)
    proof (rule lookup_del [OF u u'])
      show "x \<in># lh_contents ?lh \<longleftrightarrow> x \<in># lh_contents lh \<and> cmp key x \<noteq> 0" for x
      proof (cases "cmp key x = 0")
        case True
        have "x \<notin># lh_contents ?lh"
        proof
          assume "x \<in># lh_contents ?lh"
          then have "hits key (lh_contents ?lh) \<noteq> 0" using True eq_sym [of key x] unfolding hits_zero by auto
          then have "hits key (lh_contents lh) \<ge> 2" using hit(6) by (simp add: contents [symmetric] hits_add)
          with u show False unfolding uniq_def by (metis Suc_1 not_less_eq_eq)
        qed
        with True show ?thesis by simp
      next
        case False
        with hit(6) have "x \<noteq> it_data it" using eq_sym by blast
        with False show ?thesis by (simp add: contents [symmetric])
      qed
    qed
    with lh'' u' hit(7) lh'(2) show ?thesis by (simp add: lh_good_def)
  next
    case (miss b k)
    with del have d: "lh' = lh" "old = None" by (auto simp: OPENSSL_lh_delete_def)
    have "lookup lh x = None" if "cmp key x = 0" for x
      using miss(4) eq_cong' [OF that] by (simp add: lookup_def lookup_mset_None)
    with d assms(1) miss(4) show ?thesis by auto
  qed
qed

end

section \<open>Sequences of operations\<close>

text \<open>The interface of a dictionary of elements that are compared by \<open>same\<close>.\<close>

locale dict =
  fixes lookup :: "'s \<Rightarrow> 'v \<Rightarrow> 'v option" and inv :: "'s \<Rightarrow> bool" and same :: "'v \<Rightarrow> 'v \<Rightarrow> bool"
    and put :: "'v \<Rightarrow> 's \<Rightarrow> ('v option \<times> 's) option" and del :: "'v \<Rightarrow> 's \<Rightarrow> 'v option \<times> 's"
    and get :: "'v \<Rightarrow> 's \<Rightarrow> 'v option"
  assumes put_lookup: "inv s \<Longrightarrow> put k s = Some (v, s') \<Longrightarrow>
      inv s' \<and> v = lookup s k \<and> lookup s' = (\<lambda>x. if same k x then Some k else lookup s x)"
    and del_lookup: "inv s \<Longrightarrow> del k s = (v, s') \<Longrightarrow>
      inv s' \<and> v = lookup s k \<and> lookup s' = (\<lambda>x. if same k x then None else lookup s x)"
    and get_lookup: "inv s \<Longrightarrow> get k s = lookup s k"

datatype 'v dict_cmd = Put 'v | Take 'v | Get 'v

text \<open>The results of the commands; \<open>None\<close> when a \<open>put\<close> fails.\<close>

fun run_dict :: "('v \<Rightarrow> 's \<Rightarrow> ('v option \<times> 's) option) \<Rightarrow> ('v \<Rightarrow> 's \<Rightarrow> 'v option \<times> 's) \<Rightarrow> ('v \<Rightarrow> 's \<Rightarrow> 'v option)
    \<Rightarrow> 'v dict_cmd list \<Rightarrow> 's \<Rightarrow> ('v option list \<times> 's) option" where
  "run_dict put del get [] s = Some ([], s)"
| "run_dict put del get (Put k # cs) s = Option.bind (put k s) (\<lambda>(v, s).
     map_option (\<lambda>(vs, s). (v # vs, s)) (run_dict put del get cs s))"
| "run_dict put del get (Take k # cs) s = (case del k s of (v, s) \<Rightarrow>
     map_option (\<lambda>(vs, s). (v # vs, s)) (run_dict put del get cs s))"
| "run_dict put del get (Get k # cs) s =
     map_option (\<lambda>(vs, s'). (get k s # vs, s')) (run_dict put del get cs s)"

definition map_put :: "('v \<Rightarrow> 'v \<Rightarrow> bool) \<Rightarrow> 'v \<Rightarrow> ('v \<Rightarrow> 'v option) \<Rightarrow> ('v option \<times> ('v \<Rightarrow> 'v option)) option" where
  "map_put same k m = Some (m k, \<lambda>x. if same k x then Some k else m x)"

definition map_del :: "('v \<Rightarrow> 'v \<Rightarrow> bool) \<Rightarrow> 'v \<Rightarrow> ('v \<Rightarrow> 'v option) \<Rightarrow> 'v option \<times> ('v \<Rightarrow> 'v option)" where
  "map_del same k m = (m k, \<lambda>x. if same k x then None else m x)"

definition map_get :: "'v \<Rightarrow> ('v \<Rightarrow> 'v option) \<Rightarrow> 'v option" where
  "map_get k m = m k"

context dict
begin

lemma run_dict_refines:
  "inv s \<Longrightarrow> run_dict put del get cs s = Some (vs, s') \<Longrightarrow>
     inv s' \<and> run_dict (map_put same) (map_del same) map_get cs (lookup s) = Some (vs, lookup s')"
proof (induction cs arbitrary: s vs)
  case (Cons c cs)
  show ?case
  proof (cases c)
    case (Put k)
    with Cons.prems obtain v s1 ws where p: "put k s = Some (v, s1)" "run_dict put del get cs s1 = Some (ws, s')" "vs = v # ws"
      by (auto simp: bind_eq_Some_conv)
    note P = put_lookup [OF Cons.prems(1) p(1)]
    have "run_dict (map_put same) (map_del same) map_get (Put k # cs) (lookup s)
        = map_option (\<lambda>(vs, m). (v # vs, m)) (run_dict (map_put same) (map_del same) map_get cs (lookup s1))"
      using P by (simp add: map_put_def [of same k])
    with Cons.IH [OF _ p(2)] P Put p(3) show ?thesis by simp
  next
    case (Take k)
    with Cons.prems obtain v s1 ws where p: "del k s = (v, s1)" "run_dict put del get cs s1 = Some (ws, s')" "vs = v # ws"
      by (auto split: prod.splits)
    note P = del_lookup [OF Cons.prems(1) p(1)]
    have "run_dict (map_put same) (map_del same) map_get (Take k # cs) (lookup s)
        = map_option (\<lambda>(vs, m). (v # vs, m)) (run_dict (map_put same) (map_del same) map_get cs (lookup s1))"
      using P by (simp add: map_del_def [of same k])
    with Cons.IH [OF _ p(2)] P Take p(3) show ?thesis by simp
  next
    case (Get k)
    with Cons.prems obtain ws where p: "run_dict put del get cs s = Some (ws, s')" "vs = get k s # ws"
      by auto
    with Cons.IH [OF Cons.prems(1) p(1)] get_lookup [OF Cons.prems(1)] Get show ?thesis by (simp add: map_get_def [of k])
  qed
qed simp

end

definition lh_put :: "heap_env \<Rightarrow> 'v call_hash \<Rightarrow> 'v call_eq \<Rightarrow> 'v \<Rightarrow> 'v lhash \<Rightarrow> ('v option \<times> 'v lhash) option" where
  "lh_put env ch cc k lh = (case OPENSSL_lh_insert env lh k ch cc of (ok, old, lh') \<Rightarrow> if ok then Some (old, lh') else None)"

definition lh_del :: "heap_env \<Rightarrow> 'v call_hash \<Rightarrow> 'v call_eq \<Rightarrow> 'v \<Rightarrow> 'v lhash \<Rightarrow> 'v option \<times> 'v lhash" where
  "lh_del env ch cc k lh = OPENSSL_lh_delete env lh k ch cc"

definition lh_get :: "'v call_hash \<Rightarrow> 'v call_eq \<Rightarrow> 'v \<Rightarrow> 'v lhash \<Rightarrow> 'v option" where
  "lh_get ch cc k lh = OPENSSL_lh_retrieve lh k ch cc"

lemma lh_op_fields:
  "OPENSSL_lh_insert env lh k ch cc = (ok, old, lh') \<Longrightarrow> lh_hash lh' = lh_hash lh \<and> lh_comp lh' = lh_comp lh
     \<and> lh_callback_depth lh' = lh_callback_depth lh"
  "OPENSSL_lh_delete env lh k ch cc = (old, lh') \<Longrightarrow> lh_hash lh' = lh_hash lh \<and> lh_comp lh' = lh_comp lh
     \<and> lh_callback_depth lh' = lh_callback_depth lh"
  by (auto simp: OPENSSL_lh_insert_def OPENSSL_lh_delete_def Let_def split: prod.splits option.splits)

context hash_cmp
begin

lemma lh_dict:
  "dict lookup (\<lambda>lh. lh_good lh \<and> ch (lh_hash lh) = h \<and> cc (lh_comp lh) = cmp) (\<lambda>a b. cmp a b = 0)
     (lh_put env ch cc) (lh_del env ch cc) (lh_get ch cc)"
proof
  fix lh k v lh'
  assume i: "lh_good lh \<and> ch (lh_hash lh) = h \<and> cc (lh_comp lh) = cmp"
  {
    assume "lh_put env ch cc k lh = Some (v, lh')"
    then have "OPENSSL_lh_insert env lh k ch cc = (True, v, lh')"
      by (auto simp: lh_put_def split: prod.splits if_splits)
    with lh_insert_ok [of lh ch cc env k v lh'] lh_op_fields(1) [OF this] i
    show "(lh_good lh' \<and> ch (lh_hash lh') = h \<and> cc (lh_comp lh') = cmp) \<and> v = lookup lh k
        \<and> lookup lh' = (\<lambda>x. if cmp k x = 0 then Some k else lookup lh x)"
      by simp
  next
    assume "lh_del env ch cc k lh = (v, lh')"
    with lh_delete_ok [of lh ch cc env k v lh'] lh_op_fields(2) [of env lh k ch cc v lh'] i
    show "(lh_good lh' \<and> ch (lh_hash lh') = h \<and> cc (lh_comp lh') = cmp) \<and> v = lookup lh k
        \<and> lookup lh' = (\<lambda>x. if cmp k x = 0 then None else lookup lh x)"
      by (simp add: lh_del_def)
  next
    show "lh_get ch cc k lh = lookup lh k" using i by (simp add: lh_get_def lh_retrieve_lookup)
  }
qed

lemma lh_new_good: "OPENSSL_lh_new env hf cf = Some lh \<Longrightarrow> lh_good lh \<and> lookup lh = (\<lambda>_. None)
    \<and> lh_hash lh = hf \<and> lh_comp lh = cf \<and> lh_callback_depth lh = 0"
  by (auto simp: OPENSSL_lh_new_def kMinNumBuckets_def size_mod_def lh_good_def lh_shape_def placed_def lh_items_def
      lh_contents_def lookup_def lookup_mset_def uniq_def hits_def split: option.splits)

text \<open>The counter is the number of elements.\<close>

lemma lh_num_items_card:
  assumes "lh_good lh"
  shows "finite (ran (lookup lh)) \<and> lh_num_items lh = card (ran (lookup lh))"
proof -
  let ?C = "lh_contents lh"
  have u: "uniq ?C" using assms by (simp add: lh_good_def)
  have ran: "ran (lookup lh) = set_mset ?C"
    unfolding lookup_def ran_def using lookup_mset_Some [OF u] eq_refl by blast
  have "count ?C x \<le> hits x ?C" for x
    unfolding hits_def using count_le_size [of "{#y \<in># ?C. cmp y x = 0#}" x] eq_refl by simp
  then have "count ?C x = 1" if "x \<in># ?C" for x
    using that u unfolding uniq_def
    by (intro le_antisym order_trans [of "count ?C x" "hits x ?C" 1]) simp_all
  then have "size ?C = card (set_mset ?C)" by (simp add: size_multiset_overloaded_eq)
  with assms ran show ?thesis by (simp add: lh_good_def lh_shape_def size_lh_contents)
qed

end

interpretation bytes_tab: dict bytes_hash.lookup
  "\<lambda>lh. bytes_hash.lh_good lh \<and> (\<lambda>_. OPENSSL_hash32) (lh_hash lh) = OPENSSL_hash32
     \<and> (\<lambda>_. compare_set_of_element) (lh_comp lh) = compare_set_of_element"
  "\<lambda>a b. compare_set_of_element a b = 0"
  "lh_put env (\<lambda>_. OPENSSL_hash32) (\<lambda>_. compare_set_of_element)"
  "lh_del env (\<lambda>_. OPENSSL_hash32) (\<lambda>_. compare_set_of_element)"
  "lh_get (\<lambda>_. OPENSSL_hash32) (\<lambda>_. compare_set_of_element)" for env
  by (rule bytes_hash.lh_dict)

section \<open>Walking over the table\<close>

lemma doall_chain_fold: "doall_chain func c s = fold func (map it_data c) s"
  by (induction c arbitrary: s) simp_all

lemma doall_loop_fold: "doall_loop func bs s = fold func (map it_data (concat bs)) s"
  by (induction bs arbitrary: s) (simp_all add: doall_chain_fold)

text \<open>Every element is visited once; the table keeps its elements, and its depth unless the counter is saturated.\<close>

lemma lh_doall_ok:
  assumes "lh_shape h lh" "OPENSSL_lh_doall_arg env (Some lh) func s = (s', Some lh')"
  shows "\<exists>xs. mset xs = lh_contents lh \<and> s' = fold func xs s" "lh_contents lh' = lh_contents lh"
    "lh_callback_depth lh < UINT_MAX - 1 \<Longrightarrow> lh_callback_depth lh' = lh_callback_depth lh"
proof -
  have shape: "lh_shape h (lh\<lparr>lh_callback_depth := d\<rparr>)" for d using assms(1) by (simp add: lh_shape_def)
  have items: "lh_contents (lh\<lparr>lh_callback_depth := d\<rparr>) = lh_contents lh" for d by (simp add: lh_contents_def)
  have "mset (map it_data (concat (lh_buckets lh))) = lh_contents lh" by (simp add: lh_contents_def lh_items_def)
  with assms(2) show "\<exists>xs. mset xs = lh_contents lh \<and> s' = fold func xs s"
    by (intro exI [of _ "map it_data (concat (lh_buckets lh))"])
      (auto simp: OPENSSL_lh_doall_arg_def Let_def doall_loop_fold split: if_splits)
  show "lh_contents lh' = lh_contents lh"
    using assms(2) lh_maybe_resize_contents [OF shape, of env] lh_maybe_resize_contents [OF assms(1), of env] items
    by (auto simp: OPENSSL_lh_doall_arg_def Let_def split: if_splits)
  show "lh_callback_depth lh' = lh_callback_depth lh" if "lh_callback_depth lh < UINT_MAX - 1"
    using assms(2) that by (auto simp: OPENSSL_lh_doall_arg_def Let_def split: if_splits)
qed

section \<open>Load\<close>

text \<open>At most three elements per bucket on average, and at least one unless the table has its smallest size.\<close>

definition lh_balanced :: "'v lhash \<Rightarrow> bool" where
  "lh_balanced lh \<longleftrightarrow> lh_num_items lh < 3 * lh_num_buckets lh
     \<and> (lh_num_buckets lh = kMinNumBuckets \<or> lh_num_buckets lh \<le> lh_num_items lh)"

lemma lh_rebucket_granted:
  assumes "\<And>n. libc_malloc env n" "n \<le> 2 ^ 57"
  shows "lh_num_buckets (lh_rebucket env lh n) = n"
proof -
  have "sizeof_ptr * n < size_mod" "size_add (sizeof_ptr * n) OPENSSL_MALLOC_PREFIX = sizeof_ptr * n + OPENSSL_MALLOC_PREFIX"
    using assms(2) by (simp_all add: sizeof_ptr_def size_mod_def size_add_def OPENSSL_MALLOC_PREFIX_def)
  with assms(1) show ?thesis
    by (simp add: lh_rebucket_def OPENSSL_zalloc_def OPENSSL_malloc_def size_mul_def sizeof_ptr_def Let_def)
qed

lemma div_bounds: "0 < n \<Longrightarrow> 2 < m div n \<longleftrightarrow> 3 * n \<le> m" "0 < n \<Longrightarrow> m div n < 1 \<longleftrightarrow> m < n" for m n :: nat
proof -
  assume n: "0 < n"
  have "2 < m div n \<longleftrightarrow> 3 \<le> m div n" by linarith
  then show "2 < m div n \<longleftrightarrow> 3 * n \<le> m" using n by (simp add: less_eq_div_iff_mult_less_eq)
  show "m div n < 1 \<longleftrightarrow> m < n" using n by (simp add: div_eq_0_iff)
qed

lemma lh_resize_balanced:
  assumes "16 \<le> lh_num_buckets lh" "lh_num_buckets lh \<le> 2 ^ 56" "lh_callback_depth lh = 0" "\<And>n. libc_malloc env n"
    "lh_num_items lh \<le> 3 * lh_num_buckets lh" "lh_num_buckets lh = 16 \<or> lh_num_buckets lh \<le> lh_num_items lh + 1"
  shows "lh_balanced (lh_maybe_resize env lh)"
proof -
  let ?n = "lh_num_buckets lh" and ?m = "lh_num_items lh"
  have n: "0 < ?n" "size_mul ?n 2 = 2 * ?n" using assms(1,2) by (simp_all add: size_mul_def size_mod_def)
  have grown: "lh_num_buckets (lh_rebucket env lh (2 * ?n)) = 2 * ?n"
    "lh_num_buckets (lh_rebucket env lh k) = k" if "k \<le> ?n" for k
    using assms(2) that by (simp_all add: lh_rebucket_granted [OF assms(4)])
  have items: "lh_num_items (lh_rebucket env lh k) = ?m" for k
    by (simp add: lh_rebucket_def Let_def split: option.split)
  consider "3 * ?n \<le> ?m" | "?m < ?n" "16 < ?n" | "?m < 3 * ?n" "\<not> (?m < ?n \<and> 16 < ?n)" by linarith
  then show ?thesis
  proof cases
    case 1
    then have "lh_maybe_resize env lh = lh_rebucket env lh (2 * ?n)"
      using assms(3) n by (simp add: lh_maybe_resize_def Let_def kMaxAverageChainLength_def div_bounds)
    with 1 assms(5) n grown(1) [of 0] items show ?thesis by (simp add: lh_balanced_def)
  next
    case 2
    let ?k = "if ?n div 2 < 16 then 16 else ?n div 2"
    from 2 have "lh_maybe_resize env lh = lh_rebucket env lh ?k"
      using assms(3) n
      by (simp add: lh_maybe_resize_def Let_def kMaxAverageChainLength_def kMinAverageChainLength_def
          kMinNumBuckets_def div_bounds del: One_nat_def)
    moreover have "?k \<le> ?n" using 2 by auto
    ultimately have "lh_num_buckets (lh_maybe_resize env lh) = ?k" "lh_num_items (lh_maybe_resize env lh) = ?m"
      using grown(2) items by simp_all
    with 2 assms(6) show ?thesis by (auto simp: lh_balanced_def kMinNumBuckets_def)
  next
    case 3
    then have "lh_maybe_resize env lh = lh"
      using n by (auto simp: lh_maybe_resize_def Let_def kMaxAverageChainLength_def kMinAverageChainLength_def
          kMinNumBuckets_def div_bounds div_eq_0_iff)
    with 3 assms(1,6) show ?thesis by (auto simp: lh_balanced_def kMinNumBuckets_def)
  qed
qed

section \<open>Properties\<close>

text \<open>C18 A table behaves as a map: whatever sequence of insertions, deletions and retrievals runs on a new
  table, through every growth and shrinking of its array, the results are those of a map from keys to
  elements under the equality of the comparison function, and the counter is the number of elements; this holds
  for every hash function that respects that equality.\<close>

theorem lh_refines_map:
  assumes "hash_cmp (ch hf) (cc cf)" "OPENSSL_lh_new env hf cf = Some lh0"
    "run_dict (lh_put env ch cc) (lh_del env ch cc) (lh_get ch cc) cs lh0 = Some (vs, lh)"
  shows "\<exists>m. run_dict (map_put (\<lambda>a b. cc cf a b = 0)) (map_del (\<lambda>a b. cc cf a b = 0)) map_get cs (\<lambda>_. None) = Some (vs, m)
    \<and> finite (ran m) \<and> OPENSSL_lh_num_items lh = card (ran m)"
proof -
  note d = hash_cmp.lh_dict [OF assms(1), of ch cc env]
  have "hash_cmp.lh_good (ch hf) (cc cf) lh0" "hash_cmp.lookup (cc cf) lh0 = (\<lambda>_. None)" "lh_hash lh0 = hf" "lh_comp lh0 = cf"
    using hash_cmp.lh_new_good [OF assms(1,2)] by auto
  with dict.run_dict_refines [OF d _ assms(3)] hash_cmp.lh_num_items_card [OF assms(1), of lh] show ?thesis
    by (auto simp: OPENSSL_lh_num_items_def)
qed

text \<open>The load stays in bounds: as long as memory is granted and no walk is in progress, insertion and
  deletion keep fewer than three elements per bucket on average, and at least one unless the table has
  its smallest size.\<close>

theorem lh_stays_balanced:
  assumes "lh_balanced lh" "16 \<le> lh_num_buckets lh" "lh_num_buckets lh \<le> 2 ^ 56" "lh_callback_depth lh = 0"
    "\<And>n. libc_malloc env n"
  shows "lh_balanced (snd (snd (OPENSSL_lh_insert env lh k ch cc))) \<and> lh_balanced (snd (OPENSSL_lh_delete env lh k ch cc))"
proof
  obtain hash b p where g: "get_next_ptr_and_hash lh k ch cc = (hash, b, p)" by (cases "get_next_ptr_and_hash lh k ch cc")
  have keep: "lh_balanced (lh\<lparr>lh_buckets := bs\<rparr>)" for bs using assms(1) by (simp add: lh_balanced_def)
  have bal: "lh_num_items lh < 3 * lh_num_buckets lh" "lh_num_buckets lh = 16 \<or> lh_num_buckets lh \<le> lh_num_items lh"
    using assms(1) by (auto simp: lh_balanced_def kMinNumBuckets_def)
  have resize: "lh_balanced (lh_maybe_resize env (lh\<lparr>lh_buckets := bs, lh_num_items := m\<rparr>))"
    if "m \<le> 3 * lh_num_buckets lh" "lh_num_buckets lh = 16 \<or> lh_num_buckets lh \<le> m + 1" for bs m
    using assms(2-5) that by (intro lh_resize_balanced) simp_all
  show "lh_balanced (snd (snd (OPENSSL_lh_insert env lh k ch cc)))"
    using g assms(1) keep bal resize [of "lh_num_items lh + 1"]
    by (auto simp: OPENSSL_lh_insert_def Let_def split: option.split)
  show "lh_balanced (snd (OPENSSL_lh_delete env lh k ch cc))"
    using g assms(1) bal resize [of "lh_num_items lh - 1"]
    by (auto simp: OPENSSL_lh_delete_def Let_def split: option.split)
qed

abbreviation demo_ch :: "bytes call_hash" where
  "demo_ch \<equiv> \<lambda>_. OPENSSL_hash32"

abbreviation demo_cc :: "bytes call_eq" where
  "demo_cc \<equiv> \<lambda>_. compare_set_of_element"

definition demo_lh :: "bytes lhash" where
  "demo_lh = \<lparr>lh_num_items = 0, lh_buckets = replicate 16 [], lh_num_buckets = 16, lh_callback_depth = 0,
     lh_comp = 1, lh_hash = 2\<rparr>"

lemma demo_lh_new: "OPENSSL_lh_new demo_env 2 1 = Some demo_lh"
  by (simp add: OPENSSL_lh_new_def demo_lh_def sizeof_LHASH_def kMinNumBuckets_def sizeof_ptr_def
      OPENSSL_zalloc_def OPENSSL_calloc_def OPENSSL_malloc_def demo_env_def OPENSSL_MALLOC_PREFIX_def
      size_add_def size_mul_def size_mod_def SIZE_MAX_def)

lemma demo_hash: "unat (OPENSSL_hash32 [1]) mod 16 = 12"
  by (simp add: OPENSSL_hash32_def)

lemmas demo_lh_eval = lh_put_def lh_get_def OPENSSL_lh_insert_def OPENSSL_lh_retrieve_def get_next_ptr_and_hash_def
  lh_deref_def lh_maybe_resize_def kMaxAverageChainLength_def kMinAverageChainLength_def kMinNumBuckets_def
  sizeof_LHASH_ITEM_def demo_lh_def demo_hash demo_env_def OPENSSL_malloc_def OPENSSL_MALLOC_PREFIX_def
  size_add_def size_mod_def Let_def

lemma demo_lh_put: "OPENSSL_lh_insert demo_env demo_lh [1] demo_ch demo_cc = (True, None,
    demo_lh\<lparr>lh_num_items := 1, lh_buckets := (replicate 16 [])[12 := [\<lparr>it_data = [1], it_hash = OPENSSL_hash32 [1]\<rparr>]]\<rparr>)"
  by (simp add: demo_lh_eval)

theorem lh_refines_map_witness:
  "\<exists>m. run_dict (map_put (\<lambda>a b. compare_set_of_element a b = 0)) (map_del (\<lambda>a b. compare_set_of_element a b = 0)) map_get
     [Put [1], Get [1]] (\<lambda>_. None) = Some ([None, Some [1]], m) \<and> card (ran m) = 1"
proof -
  have g: "OPENSSL_lh_retrieve (demo_lh\<lparr>lh_num_items := 1, lh_buckets := (replicate 16 [])[12 :=
      [\<lparr>it_data = [1], it_hash = OPENSSL_hash32 [1]\<rparr>]]\<rparr>) [1] demo_ch demo_cc = Some [1]"
    by (simp add: demo_lh_eval set_of_cmp.cmp_refl)
  have "\<exists>lh. run_dict (lh_put demo_env demo_ch demo_cc) (lh_del demo_env demo_ch demo_cc) (lh_get demo_ch demo_cc)
      [Put [1], Get [1]] demo_lh = Some ([None, Some [1]], lh) \<and> lh_num_items lh = 1"
    using g by (simp add: lh_put_def lh_get_def demo_lh_put)
  then obtain lh where "run_dict (lh_put demo_env demo_ch demo_cc) (lh_del demo_env demo_ch demo_cc) (lh_get demo_ch demo_cc)
      [Put [1], Get [1]] demo_lh = Some ([None, Some [1]], lh)" "lh_num_items lh = 1" by blast
  with lh_refines_map [OF bytes_hash.hash_cmp_axioms demo_lh_new this(1)] show ?thesis
    by (auto simp: OPENSSL_lh_num_items_def)
qed

theorem lh_stays_balanced_witness:
  "lh_balanced (snd (snd (OPENSSL_lh_insert demo_env demo_lh [1] demo_ch demo_cc)))"
proof -
  have "lh_balanced demo_lh" "16 \<le> lh_num_buckets demo_lh" "lh_num_buckets demo_lh \<le> 2 ^ 56"
    "lh_callback_depth demo_lh = 0" "libc_malloc demo_env n" for n
    by (simp_all add: lh_balanced_def demo_lh_def kMinNumBuckets_def demo_env_def)
  from lh_stays_balanced [OF this] show ?thesis by blast
qed

end
