(* ===== verification/Posix_Time.thy ===== *)
theory Posix_Time
  imports Prelude "HOL-Library.Signed_Division"
begin

text \<open>
  \<open>crypto/asn1/posix_time.c\<close>: the conversion between \<open>struct tm\<close> and seconds since
  1970. An \<open>int64_t\<close> is an integer, with \<open>sdiv\<close> and \<open>smod\<close> for the division of C,
  which rounds towards zero; \<open>OPENSSL_gmtime_adj\<close> keeps the tests of the source against
  overflow. A function that stores its result through a pointer returns it, or \<open>None\<close> where
  the C code returns 0. The reference is a calendar that counts days year by year and month by
  month.
\<close>

section \<open>State and constants\<close>

record tm =
  tm_sec :: int
  tm_min :: int
  tm_hour :: int
  tm_mday :: int
  tm_mon :: int
  tm_year :: int
  tm_wday :: int
  tm_yday :: int
  tm_isdst :: int

definition tm_zero :: tm where
  "tm_zero = \<lparr>tm_sec = 0, tm_min = 0, tm_hour = 0, tm_mday = 0, tm_mon = 0, tm_year = 0,
     tm_wday = 0, tm_yday = 0, tm_isdst = 0\<rparr>"

definition SECS_PER_HOUR :: int where
  "SECS_PER_HOUR = 60 * 60"

definition SECS_PER_DAY :: int where
  "SECS_PER_DAY = 24 * SECS_PER_HOUR"

definition MIN_POSIX_TIME :: int where
  "MIN_POSIX_TIME = -62167219200"

definition MAX_POSIX_TIME :: int where
  "MAX_POSIX_TIME = 253402300799"

definition INT64_MAX :: int where
  "INT64_MAX = 2 ^ 63 - 1"

definition INT64_MIN :: int where
  "INT64_MIN = - (2 ^ 63)"

definition INT32_MAX :: int where
  "INT32_MAX = 2 ^ 31 - 1"

definition INT32_MIN :: int where
  "INT32_MIN = - (2 ^ 31)"

section \<open>Operations\<close>

definition is_valid_date :: "int \<Rightarrow> int \<Rightarrow> int \<Rightarrow> bool" where
  "is_valid_date year month day =
     (if day < 1 \<or> month < 1 \<or> year < 0 \<or> year > 9999 then False
      else if month \<in> {1, 3, 5, 7, 8, 10, 12} then day > 0 \<and> day \<le> 31
      else if month \<in> {4, 6, 9, 11} then day > 0 \<and> day \<le> 30
      else if month = 2 then
        (if (year smod 4 = 0 \<and> year smod 100 \<noteq> 0) \<or> year smod 400 = 0 then day > 0 \<and> day \<le> 29
         else day > 0 \<and> day \<le> 28)
      else False)"

definition is_valid_time :: "int \<Rightarrow> int \<Rightarrow> int \<Rightarrow> bool" where
  "is_valid_time hours minutes seconds \<longleftrightarrow>
     \<not> (hours < 0 \<or> minutes < 0 \<or> seconds < 0 \<or> hours > 23 \<or> minutes > 59 \<or> seconds > 59)"

definition is_valid_posix_time :: "int \<Rightarrow> bool" where
  "is_valid_posix_time time \<longleftrightarrow> MIN_POSIX_TIME \<le> time \<and> time \<le> MAX_POSIX_TIME"

definition posix_time_from_utc :: "int \<Rightarrow> int \<Rightarrow> int \<Rightarrow> int \<Rightarrow> int \<Rightarrow> int \<Rightarrow> int option" where
  "posix_time_from_utc year month day hours minutes seconds =
     (if \<not> is_valid_date year month day \<or> \<not> is_valid_time hours minutes seconds then None
      else
        let year = (if month \<le> 2 then year - 1 else year);
            era = (if year \<ge> 0 then year else year - 399) sdiv 400;
            year_of_era = year - era * 400;
            day_of_year = (153 * (if month > 2 then month - 3 else month + 9) + 2) sdiv 5 + day - 1;
            day_of_era = year_of_era * 365 + year_of_era sdiv 4 - year_of_era sdiv 100 + day_of_year;
            posix_days = era * 146097 + day_of_era - 719468 in
        Some (posix_days * SECS_PER_DAY + hours * SECS_PER_HOUR + minutes * 60 + seconds))"

definition utc_from_posix_time :: "int \<Rightarrow> (int \<times> int \<times> int \<times> int \<times> int \<times> int) option" where
  "utc_from_posix_time time =
     (if \<not> is_valid_posix_time time then None
      else
        let days = time sdiv SECS_PER_DAY;
            leftover_seconds = time smod SECS_PER_DAY;
            (days, leftover_seconds) =
              (if leftover_seconds < 0 then (days - 1, leftover_seconds + SECS_PER_DAY)
               else (days, leftover_seconds));
            days = days + 719468;
            era = (if days > 0 then days else days - 146096) sdiv 146097;
            day_of_era = days - era * 146097;
            year_of_era = (day_of_era - day_of_era sdiv 1460 + day_of_era sdiv 36524
              - day_of_era sdiv 146096) sdiv 365;
            out_year = year_of_era + era * 400;
            day_of_year = day_of_era - (365 * year_of_era + year_of_era sdiv 4 - year_of_era sdiv 100);
            month_of_year = (5 * day_of_year + 2) sdiv 153;
            out_month = (if month_of_year < 10 then month_of_year + 3 else month_of_year - 9);
            out_year = (if out_month \<le> 2 then out_year + 1 else out_year);
            out_day = day_of_year - (153 * month_of_year + 2) sdiv 5 + 1;
            out_hours = leftover_seconds sdiv SECS_PER_HOUR;
            leftover_seconds = leftover_seconds smod SECS_PER_HOUR;
            out_minutes = leftover_seconds sdiv 60;
            out_seconds = leftover_seconds smod 60 in
        Some (out_year, out_month, out_day, out_hours, out_minutes, out_seconds))"

definition OPENSSL_tm_to_posix :: "tm \<Rightarrow> int option" where
  "OPENSSL_tm_to_posix tm =
     posix_time_from_utc (tm_year tm + 1900) (tm_mon tm + 1) (tm_mday tm) (tm_hour tm) (tm_min tm) (tm_sec tm)"

definition OPENSSL_posix_to_tm :: "int \<Rightarrow> tm option" where
  "OPENSSL_posix_to_tm time =
     (case utc_from_posix_time time of
       None \<Rightarrow> None
     | Some (y, mo, d, h, mi, s) \<Rightarrow>
         let tmp_tm = tm_zero\<lparr>tm_year := y, tm_mon := mo, tm_mday := d, tm_hour := h, tm_min := mi, tm_sec := s\<rparr>;
             tmp_tm = tmp_tm\<lparr>tm_year := tm_year tmp_tm - 1900\<rparr>;
             tmp_tm = tmp_tm\<lparr>tm_mon := tm_mon tmp_tm - 1\<rparr> in
         Some tmp_tm)"

text \<open>\<open>time_t\<close> has 4 or 8 bytes; its width is the first argument.\<close>

definition OPENSSL_timegm :: "nat \<Rightarrow> tm \<Rightarrow> int option" where
  "OPENSSL_timegm sizeof_time_t tm =
     (case OPENSSL_tm_to_posix tm of
       None \<Rightarrow> None
     | Some posix_time \<Rightarrow>
         if sizeof_time_t = 4 \<and> (posix_time > INT32_MAX \<or> posix_time < INT32_MIN) then None
         else Some posix_time)"

definition OPENSSL_gmtime :: "int \<Rightarrow> tm option" where
  "OPENSSL_gmtime time = OPENSSL_posix_to_tm time"

definition OPENSSL_gmtime_adj :: "tm \<Rightarrow> int \<Rightarrow> int \<Rightarrow> tm option" where
  "OPENSSL_gmtime_adj tm offset_day offset_sec =
     (case OPENSSL_tm_to_posix tm of
       None \<Rightarrow> None
     | Some posix_time \<Rightarrow>
         let posix_time = posix_time + offset_day * SECS_PER_DAY in
         if posix_time > 0 \<and> offset_sec > INT64_MAX - posix_time then None
         else if posix_time < 0 \<and> offset_sec < INT64_MIN - posix_time then None
         else OPENSSL_posix_to_tm (posix_time + offset_sec))"

definition OPENSSL_gmtime_diff :: "tm \<Rightarrow> tm \<Rightarrow> (int \<times> int) option" where
  "OPENSSL_gmtime_diff from_tm to_tm =
     (case OPENSSL_tm_to_posix to_tm of
       None \<Rightarrow> None
     | Some time_to \<Rightarrow>
         (case OPENSSL_tm_to_posix from_tm of
           None \<Rightarrow> None
         | Some time_from \<Rightarrow>
             let timediff = time_to - time_from;
                 daydiff = timediff sdiv SECS_PER_DAY;
                 timediff = timediff smod SECS_PER_DAY in
             Some (daydiff, timediff)))"

section \<open>The calendar\<close>

text \<open>The reference: leap years, lengths of months and years, and days counted from 1 January 0.\<close>

definition leap_year :: "int \<Rightarrow> bool" where
  "leap_year y \<longleftrightarrow> 4 dvd y \<and> (100 dvd y \<longrightarrow> 400 dvd y)"

definition month_length :: "int \<Rightarrow> int \<Rightarrow> int" where
  "month_length y m = (if m = 2 then (if leap_year y then 29 else 28)
     else if m \<in> {4, 6, 9, 11} then 30 else 31)"

definition year_length :: "int \<Rightarrow> int" where
  "year_length y = (\<Sum>m\<leftarrow>[1..12]. month_length y m)"

definition valid_date :: "int \<Rightarrow> int \<Rightarrow> int \<Rightarrow> bool" where
  "valid_date y m d \<longleftrightarrow> 0 \<le> y \<and> y \<le> 9999 \<and> 1 \<le> m \<and> m \<le> 12 \<and> 1 \<le> d \<and> d \<le> month_length y m"

definition calendar_days :: "int \<Rightarrow> int \<Rightarrow> int \<Rightarrow> int" where
  "calendar_days y m d = (\<Sum>i\<leftarrow>[0..y - 1]. year_length i) + (\<Sum>j\<leftarrow>[1..m - 1]. month_length y j) + (d - 1)"

definition calendar_seconds :: "int \<Rightarrow> int \<Rightarrow> int \<Rightarrow> int \<Rightarrow> int \<Rightarrow> int \<Rightarrow> int" where
  "calendar_seconds y m d h mi s =
     (calendar_days y m d - calendar_days 1970 1 1) * 86400 + h * 3600 + mi * 60 + s"

section \<open>Division in C\<close>

lemma sdiv_nonneg [simp]: "0 \<le> a \<Longrightarrow> 0 < b \<Longrightarrow> a sdiv b = a div b" for a b :: int
  by (auto simp: signed_divide_int_def sgn_if)

lemma smod_nonneg [simp]: "0 \<le> a \<Longrightarrow> 0 < b \<Longrightarrow> a smod b = a mod b" for a b :: int
  by (auto simp: signed_modulo_int_def sgn_if)

lemma sdiv_neg: "a < 0 \<Longrightarrow> 0 < b \<Longrightarrow> a sdiv b = - (- a div b)" for a b :: int
  by (auto simp: signed_divide_int_def sgn_if)

lemma smod_neg: "a < 0 \<Longrightarrow> 0 < b \<Longrightarrow> a smod b = - (- a mod b)" for a b :: int
  by (auto simp: signed_modulo_int_def sgn_if)

lemma smod_zero_iff: "0 < b \<Longrightarrow> a smod b = 0 \<longleftrightarrow> b dvd a" for a b :: int
  by (cases "a < 0") (auto simp: smod_neg dvd_eq_mod_eq_0 [symmetric])

lemma div_by_parts: "a = q * b + r \<Longrightarrow> 0 \<le> r \<Longrightarrow> r < b \<Longrightarrow> a div b = q" for a b q r :: int
  by (intro int_div_pos_eq) (simp_all add: mult.commute)

text \<open>Rounding down, as the source writes it.\<close>

lemma floor_sdiv:
  fixes a b :: int
  assumes "0 < b"
  shows "(if 0 \<le> a then a else a - (b - 1)) sdiv b = a div b"
proof (cases "0 \<le> a")
  case False
  let ?q = "a div b" and ?r = "a mod b"
  have a: "a = ?q * b + ?r" by simp
  have r: "0 \<le> ?r" "?r < b" using assms by simp_all
  have "- (a - (b - 1)) = - ?q * b + (b - 1 - ?r)" using a by (simp add: algebra_simps)
  then have "(- (a - (b - 1))) div b = - ?q" by (rule div_by_parts) (use r in auto)
  with False assms show ?thesis by (simp add: sdiv_neg)
qed (use assms in simp)

lemma floor_sdiv_smod:
  fixes a b :: int
  assumes "0 < b"
  shows "(if a smod b < 0 then (a sdiv b - 1, a smod b + b) else (a sdiv b, a smod b)) = (a div b, a mod b)"
proof (cases "0 \<le> a")
  case False
  then show ?thesis using assms
    by (cases "b dvd a") (auto simp: sdiv_neg smod_neg zdiv_zminus1_eq_if zmod_zminus1_eq_if dvd_eq_mod_eq_0
        dest: order_antisym)
qed (use assms in \<open>simp add: not_less\<close>)

section \<open>The formula and the calendar\<close>

lemma month_cases:
  "1 \<le> m \<Longrightarrow> m \<le> 12 \<Longrightarrow>
     m = 1 \<or> m = 2 \<or> m = 3 \<or> m = 4 \<or> m = 5 \<or> m = 6 \<or> m = 7 \<or> m = 8 \<or> m = 9 \<or> m = 10 \<or> m = 11 \<or> m = 12"
  for m :: int
  by arith

lemma leap_year_smod: "(y smod 4 = 0 \<and> y smod 100 \<noteq> 0) \<or> y smod 400 = 0 \<longleftrightarrow> leap_year y"
proof -
  have "400 dvd y \<longrightarrow> 4 dvd y" by (auto intro: dvd_trans [of 4 400])
  then show ?thesis by (auto simp: leap_year_def smod_zero_iff)
qed

lemma is_valid_date_eq: "is_valid_date y m d \<longleftrightarrow> valid_date y m d"
proof -
  have "m \<in> {1, 3, 5, 7, 8, 10, 12} \<or> m \<in> {4, 6, 9, 11} \<or> m = 2 \<or> m < 1 \<or> 12 < m"
    using month_cases [of m] by force
  then show ?thesis
    unfolding is_valid_date_def valid_date_def month_length_def leap_year_smod
    by (elim disjE) auto
qed

lemma month_length_bounds: "28 \<le> month_length y m" "month_length y m \<le> 31"
  by (auto simp: month_length_def)

lemma upto_1_numeral: "[1..numeral n] = 1 # [2..numeral n]"
  by (simp add: upto_rec1)

lemma year_length_eq: "year_length y = (if leap_year y then 366 else 365)"
  by (simp add: year_length_def month_length_def upto_1_numeral upto_rec_numeral)

text \<open>The days since 1 March of the year 0, by the formula with its divisions rounded down.\<close>

definition march_year :: "int \<Rightarrow> int \<Rightarrow> int" where
  "march_year y m = (if m \<le> 2 then y - 1 else y)"

definition march_day :: "int \<Rightarrow> int \<Rightarrow> int" where
  "march_day m d = (153 * (if m > 2 then m - 3 else m + 9) + 2) div 5 + d - 1"

definition march_days :: "int \<Rightarrow> int" where
  "march_days y = 365 * y + y div 4 - y div 100 + y div 400"

lemma div_pred:
  fixes y b :: int
  assumes "0 < b"
  shows "y div b = (y - 1) div b + (if b dvd y then 1 else 0)"
proof (cases "b dvd y")
  case True
  then obtain k where k: "y = k * b" by (auto simp: dvd_def mult.commute)
  then have "y - 1 = (k - 1) * b + (b - 1)" by (simp add: algebra_simps)
  then have "(y - 1) div b = k - 1" by (rule div_by_parts) (use assms in auto)
  with True k assms show ?thesis by simp
next
  case False
  then have "0 < y mod b" using assms pos_mod_sign [of b y] by (auto simp: dvd_eq_mod_eq_0 order_less_le)
  moreover have "y div b * b + y mod b = y" by simp
  ultimately have "(y - 1) div b = y div b"
    using assms pos_mod_bound [of b y] by (intro div_by_parts [of _ _ _ "y mod b - 1"]) linarith+
  with False show ?thesis by simp
qed

lemma march_days_step: "march_days y = march_days (y - 1) + (if leap_year y then 366 else 365)"
proof -
  have d: "4 dvd y" if "100 dvd y" using that by (rule dvd_trans [rotated]) simp
  have d': "100 dvd y" if "400 dvd y" using that by (rule dvd_trans [rotated]) simp
  have bools: "(Q \<Longrightarrow> P) \<Longrightarrow> (R \<Longrightarrow> Q) \<Longrightarrow>
      365 + (if P then 1 else 0) - (if Q then 1 else 0) + (if R then 1 else 0)
        = (if P \<and> (Q \<longrightarrow> R) then 366 else 365 :: int)" for P Q R
    by (cases P; cases Q; cases R) simp_all
  have leap: "365 + (if 4 dvd y then 1 else 0) - (if 100 dvd y then 1 else 0) + (if 400 dvd y then 1 else 0)
      = (if leap_year y then 366 else 365 :: int)"
    unfolding leap_year_def by (rule bools) (erule d d')+
  have sum: "A = A' + i \<Longrightarrow> B = B' + j \<Longrightarrow> C = C' + k \<Longrightarrow>
      365 * y + A - B + C = 365 * (y - 1) + A' - B' + C' + (365 + i - j + k)" for A A' B B' C C' i j k :: int
    by simp
  show ?thesis
    unfolding march_days_def leap [symmetric] by (intro sum div_pred) simp_all
qed

lemma years_before:
  assumes "0 \<le> y"
  shows "(\<Sum>i\<leftarrow>[0..y - 1]. year_length i) = march_days (y - 1) + 366"
  using assms
proof (induction y rule: int_ge_induct)
  case (step y)
  have "[0..y + 1 - 1] = [0..y - 1] @ [y]" using step.hyps by (simp add: upto_rec2)
  with step.IH march_days_step [of y] show ?case by (simp add: year_length_eq [of y])
qed (simp add: march_days_def)

lemma calendar_epoch: "calendar_days 1970 1 1 = 719528"
  unfolding calendar_days_def by (subst years_before) (simp_all add: march_days_def)

lemma march_days_era:
  assumes "y = era * 400 + yoe" "0 \<le> yoe" "yoe < 400"
  shows "march_days y = era * 146097 + (yoe * 365 + yoe div 4 - yoe div 100)"
proof -
  have "(yoe + (era * 100) * 4) div 4 = era * 100 + yoe div 4" "(yoe + (era * 4) * 100) div 100 = era * 4 + yoe div 100"
    by (rule div_mult_self1, simp)+
  moreover have "yoe + (era * 100) * 4 = y" "yoe + (era * 4) * 100 = y" using assms(1) by simp_all
  ultimately have d4: "y div 4 = era * 100 + yoe div 4" and d100: "y div 100 = era * 4 + yoe div 100"
    by (simp_all only:)
  have d400: "y div 400 = era" using assms by (rule div_by_parts)
  have "365 * (era * 400 + yoe) + (era * 100 + p) - (era * 4 + q) + era = era * 146097 + (yoe * 365 + p - q)" for p q
    by simp
  then show ?thesis unfolding march_days_def d4 d100 d400 unfolding assms(1) .
qed

lemma posix_time_from_utc_eq:
  "posix_time_from_utc y m d h mi s =
     (if valid_date y m d \<and> is_valid_time h mi s
      then Some ((march_days (march_year y m) + march_day m d - 719468) * 86400 + h * 3600 + mi * 60 + s)
      else None)"
proof (cases "valid_date y m d \<and> is_valid_time h mi s")
  case True
  let ?y = "march_year y m" and ?e = "march_year y m div 400" and ?r = "march_year y m mod 400"
  from True have vd: "1 \<le> m" "m \<le> 12" "1 \<le> d" by (auto simp: valid_date_def)
  have "0 \<le> ?r" by simp
  then have r: "?r sdiv 4 = ?r div 4" "?r sdiv 100 = ?r div 100" by simp_all
  have era: "(if ?y \<ge> 0 then ?y else ?y - 399) sdiv 400 = ?e" using floor_sdiv [of 400 ?y] by (cases "0 \<le> ?y") simp_all
  have doy: "(153 * (if m > 2 then m - 3 else m + 9) + 2) sdiv 5 + d - 1 = march_day m d"
    using vd by (auto simp: march_day_def)
  have "march_days ?y = ?e * 146097 + (?r * 365 + ?r div 4 - ?r div 100)"
    by (intro march_days_era) simp_all
  moreover have "?y - ?e * 400 = ?r" by (simp add: minus_div_mult_eq_mod)
  ultimately show ?thesis
    using True unfolding posix_time_from_utc_def is_valid_date_eq march_year_def [symmetric] Let_def era doy
    by (simp add: r SECS_PER_DAY_def SECS_PER_HOUR_def)
qed (simp add: posix_time_from_utc_def is_valid_date_eq)

lemma months_before:
  assumes "1 \<le> m" "m \<le> 12"
  shows "march_days (y - 1) + 366 + (\<Sum>j\<leftarrow>[1..m - 1]. month_length y j) + (d - 1)
    = march_days (march_year y m) + march_day m d + 60"
  using month_cases [OF assms] march_days_step [of y]
  by (elim disjE) (simp_all add: march_year_def march_day_def month_length_def upto_1_numeral upto_rec_numeral)

lemma calendar_days_eq:
  assumes "valid_date y m d"
  shows "calendar_days y m d = march_days (march_year y m) + march_day m d + 60"
  using assms months_before [of m y d] years_before [of y]
  by (simp add: calendar_days_def valid_date_def)

section \<open>Back from days to dates\<close>

lemma year_of_era_parts:
  fixes c q r k :: int
  assumes "0 \<le> c" "c < 4" "0 \<le> q" "q < 25" "0 \<le> r" "r < 4" "0 \<le> k" "k \<le> 365"
    and k: "k = 365 \<longrightarrow> r = 3 \<and> (q = 24 \<longrightarrow> c = 3)"
  defines "n \<equiv> 36524 * c + 1461 * q + 365 * r + k"
  shows "0 \<le> n \<and> n \<le> 146096 \<and> (n - n div 1460 + n div 36524 - n div 146096) div 365 = 100 * c + 4 * q + r"
proof -
  have n: "n = 36524 * c + (1461 * q + 365 * r + k)" by (simp add: n_def)
  have low: "0 \<le> n" "n \<le> 146096" using assms by auto
  consider (final) "k = 365" "q = 24" "c = 3" "r = 3" | (leap) "k = 365" "q < 24" "r = 3" | (day) "k < 365"
    using assms by linarith
  then show ?thesis
  proof cases
    case final
    with n have "n = 146096" by simp
    with final show ?thesis by simp
  next
    case leap
    have "n div 36524 = c" using leap assms by (intro div_by_parts [of _ _ _ "1461 * q + 365 * r + k"]) (auto simp: n)
    moreover have "n div 146096 = 0" using leap assms low by (intro div_pos_pos_trivial) auto
    moreover have "n div 1460 = 25 * c + q + 1"
      using leap assms by (intro div_by_parts [of _ _ _ "24 * c + q"]) (auto simp: n)
    moreover have "(n - (25 * c + q + 1) + c) div 365 = 100 * c + 4 * q + r"
      using leap by (intro div_by_parts [of _ _ _ 364]) (auto simp: n)
    ultimately show ?thesis using low by simp
  next
    case day
    have "n div 36524 = c" using day assms by (intro div_by_parts [of _ _ _ "1461 * q + 365 * r + k"]) (auto simp: n)
    moreover have "n div 146096 = 0" using day assms low by (intro div_pos_pos_trivial) auto
    moreover have "(n - n div 1460 + c) div 365 = 100 * c + 4 * q + r"
    proof (cases "24 * c + q + 365 * r + k < 1460")
      case True
      then have "n div 1460 = 25 * c + q"
        using day assms by (intro div_by_parts [of _ _ _ "24 * c + q + 365 * r + k"]) (auto simp: n)
      then show ?thesis using day assms by (intro div_by_parts [of _ _ _ k]) (auto simp: n)
    next
      case False
      then have "n div 1460 = 25 * c + q + 1"
        using day assms by (intro div_by_parts [of _ _ _ "24 * c + q + 365 * r + k - 1460"]) (auto simp: n)
      then show ?thesis using day assms False by (intro div_by_parts [of _ _ _ "k - 1"]) (auto simp: n)
    qed
    ultimately show ?thesis using low by simp
  qed
qed

lemma leap_year_era: "leap_year (era * 400 + y) \<longleftrightarrow> leap_year y"
proof -
  have "b dvd era * 400 + y \<longleftrightarrow> b dvd y" if "b dvd 400" for b :: int
    by (rule dvd_add_right_iff) (rule dvd_mult [OF that])
  then show ?thesis by (simp add: leap_year_def)
qed

lemma leap_year_parts:
  assumes "0 \<le> c" "c < 4" "0 \<le> q" "q < 25" "0 \<le> r" "r < 4" "leap_year (100 * c + 4 * q + r + 1)"
  shows "r = 3 \<and> (q = 24 \<longrightarrow> c = 3)"
proof -
  have "4 dvd 4 * (25 * c + q) + (r + 1)" using assms(7) by (simp add: leap_year_def algebra_simps)
  then have "4 dvd r + 1" by (simp add: dvd_add_right_iff)
  then have r: "r = 3" using assms(5,6) zdvd_imp_le [of 4 "r + 1"] by simp
  moreover have "c = 3" if "q = 24"
  proof -
    have y: "100 * c + 4 * q + r + 1 = 100 * (c + 1)" using that r by simp
    have "400 dvd 100 * (c + 1)" using assms(7) unfolding y by (simp add: leap_year_def)
    then have "4 dvd c + 1" using dvd_times_left_cancel_iff [of 100 4 "c + 1"] by simp
    then show ?thesis using assms(1,2) zdvd_imp_le [of 4 "c + 1"] by simp
  qed
  ultimately show ?thesis by simp
qed

lemma year_of_era:
  assumes "0 \<le> yoe" "yoe < 400" "0 \<le> k" "k \<le> 365" "k = 365 \<longrightarrow> leap_year (yoe + 1)"
    "n = yoe * 365 + yoe div 4 - yoe div 100 + k"
  shows "0 \<le> n \<and> n \<le> 146096 \<and> (n - n div 1460 + n div 36524 - n div 146096) div 365 = yoe"
proof -
  define c s where "c = yoe div 100" and "s = yoe mod 100"
  define q r where "q = s div 4" and "r = s mod 4"
  have s: "s = 4 * q + r" and r: "0 \<le> r" "r < 4" by (simp_all add: q_def r_def)
  have "yoe = 100 * c + s" and s': "0 \<le> s" "s < 100" by (simp_all add: c_def s_def)
  then have yoe: "yoe = 100 * c + 4 * q + r" using s by simp
  with s' have cq: "0 \<le> c" "c < 4" "0 \<le> q" "q < 25" using s r assms(1,2) by linarith+
  have "yoe div 4 = 25 * c + q" using r by (intro div_by_parts [of _ _ _ r]) (simp_all add: yoe)
  moreover have "yoe div 100 = c" by (simp add: c_def)
  ultimately have n: "n = 36524 * c + 1461 * q + 365 * r + k" using assms(6) by (simp add: yoe)
  have "k = 365 \<longrightarrow> r = 3 \<and> (q = 24 \<longrightarrow> c = 3)"
    using assms(5) leap_year_parts [OF cq r] unfolding yoe by blast
  from year_of_era_parts [OF cq r assms(3,4) this] show ?thesis unfolding n yoe .
qed

text \<open>The day and the month of a year that starts in March.\<close>

lemma march_day_bounds:
  assumes "valid_date y m d"
  shows "0 \<le> march_day m d" "march_day m d \<le> 365" "march_day m d = 365 \<longrightarrow> leap_year (march_year y m + 1)"
proof -
  from assms have v: "1 \<le> m" "m \<le> 12" "1 \<le> d" "d \<le> month_length y m" by (auto simp: valid_date_def)
  from month_cases [OF v(1,2)] v(3,4)
  have "0 \<le> march_day m d \<and> march_day m d \<le> 365 \<and> (march_day m d = 365 \<longrightarrow> leap_year (march_year y m + 1))"
    by (elim disjE) (auto simp: march_day_def march_year_def month_length_def split: if_splits)
  then show "0 \<le> march_day m d" "march_day m d \<le> 365" "march_day m d = 365 \<longrightarrow> leap_year (march_year y m + 1)"
    by simp_all
qed

definition march_month :: "int \<Rightarrow> int" where
  "march_month m = (if m > 2 then m - 3 else m + 9)"

lemma march_month_of_day:
  assumes "valid_date y m d"
  shows "(5 * march_day m d + 2) div 153 = march_month m"
proof -
  from assms have v: "1 \<le> m" "m \<le> 12" "1 \<le> d" "d \<le> month_length y m" by (auto simp: valid_date_def)
  then have d: "d \<le> 31" "m \<in> {4, 6, 9, 11} \<longrightarrow> d \<le> 30" "m = 2 \<longrightarrow> d \<le> 29"
    by (auto simp: month_length_def split: if_splits)
  from month_cases [OF v(1,2)] v(3) d show ?thesis
    by (elim disjE) (simp_all add: march_day_def march_month_def)
qed

lemma march_month_back:
  assumes "1 \<le> m" "m \<le> 12"
  shows "(if march_month m < 10 then march_month m + 3 else march_month m - 9) = m"
    "march_day m d - (153 * march_month m + 2) div 5 + 1 = d" "0 \<le> march_month m"
  using assms by (auto simp: march_month_def march_day_def)

text \<open>Splitting a number of seconds.\<close>

lemma seconds_parts:
  assumes "is_valid_time h mi s" "r = h * 3600 + mi * 60 + s"
  shows "0 \<le> r" "r < 86400" "r div 3600 = h" "r mod 3600 div 60 = mi" "r mod 3600 mod 60 = s"
proof -
  from assms(1) have v: "0 \<le> h" "h \<le> 23" "0 \<le> mi" "mi \<le> 59" "0 \<le> s" "s \<le> 59"
    by (auto simp: is_valid_time_def)
  then show "0 \<le> r" "r < 86400" using assms(2) by linarith+
  show h: "r div 3600 = h" using v assms(2) by (intro div_by_parts [of _ _ _ "mi * 60 + s"]) linarith+
  then have m: "r mod 3600 = mi * 60 + s" using assms(2) by (simp add: minus_div_mult_eq_mod [symmetric])
  show mi: "r mod 3600 div 60 = mi" unfolding m using v by (intro div_by_parts [of _ _ _ s]) linarith+
  show "r mod 3600 mod 60 = s" using m mi by (simp add: minus_div_mult_eq_mod [symmetric])
qed

text \<open>The fields that \<open>utc_from_posix_time\<close> computes from a day number and the seconds of the day.\<close>

lemma utc_from_posix_time_parts:
  assumes "valid_date y m d" "is_valid_time h mi s"
    and t: "t = (march_days (march_year y m) + march_day m d - 719468) * 86400 + h * 3600 + mi * 60 + s"
    and "is_valid_posix_time t"
  shows "utc_from_posix_time t = Some (y, m, d, h, mi, s)"
proof -
  let ?Y = "march_year y m" and ?k = "march_day m d"
  define era yoe where "era = ?Y div 400" and "yoe = ?Y mod 400"
  define r where "r = h * 3600 + mi * 60 + s"
  define n where "n = yoe * 365 + yoe div 4 - yoe div 100 + ?k"
  have Y: "?Y = era * 400 + yoe" and yoe: "0 \<le> yoe" "yoe < 400" by (simp_all add: era_def yoe_def)
  from assms(1) have m: "1 \<le> m" "m \<le> 12" by (auto simp: valid_date_def)
  note k = march_day_bounds [OF assms(1)] and r = seconds_parts [OF assms(2) r_def]
  have leap: "?k = 365 \<longrightarrow> leap_year (yoe + 1)"
    using k(3) leap_year_era [of era "yoe + 1"] unfolding Y by (simp add: add.assoc)
  have n: "0 \<le> n" "n \<le> 146096" "(n - n div 1460 + n div 36524 - n div 146096) div 365 = yoe"
    using year_of_era [OF yoe k(1,2) leap n_def] by simp_all
  have days: "march_days ?Y + ?k = era * 146097 + n"
    using march_days_era [OF Y yoe] by (simp add: n_def)
  have t': "t = (era * 146097 + n - 719468) * 86400 + r" using t unfolding days r_def by simp
  have dm: "t div 86400 = era * 146097 + n - 719468" using t' r(1,2) by (rule div_by_parts)
  have dm': "t mod 86400 = r" unfolding minus_div_mult_eq_mod [symmetric] dm using t' by simp
  have split: "(if t smod 86400 < 0 then (t sdiv 86400 - 1, t smod 86400 + 86400) else (t sdiv 86400, t smod 86400))
      = (era * 146097 + n - 719468, r)"
    using floor_sdiv_smod [of 86400 t] unfolding dm dm' by simp
  have era: "(if 0 < era * 146097 + n then era * 146097 + n else era * 146097 + n - 146096) sdiv 146097 = era"
  proof -
    have "(era * 146097 + n) div 146097 = era" using n by (intro div_by_parts) auto
    with floor_sdiv [of 146097 "era * 146097 + n"] show ?thesis
      by (cases "era * 146097 + n = 0") (auto simp: sdiv_neg split: if_splits)
  qed
  have "0 \<le> (n - n div 1460 + n div 36524 - n div 146096) div 365" unfolding n(3) by (rule yoe)
  then have "0 \<le> n - n div 1460 + n div 36524 - n div 146096" by (simp add: pos_imp_zdiv_nonneg_iff)
  then have year: "(n - n sdiv 1460 + n sdiv 36524 - n sdiv 146096) sdiv 365 = yoe"
    using n by simp
  have doy: "n - (365 * yoe + yoe sdiv 4 - yoe sdiv 100) = ?k" using yoe by (simp add: n_def)
  have month: "(5 * ?k + 2) sdiv 153 = march_month m" using k(1) march_month_of_day [OF assms(1)] by simp
  note mb = march_month_back [OF m]
  have day: "?k - (153 * march_month m + 2) sdiv 5 + 1 = d" using mb(2,3) by simp
  have year': "(if m \<le> 2 then yoe + era * 400 + 1 else yoe + era * 400) = y"
    using Y by (auto simp: march_year_def split: if_splits)
  have time: "r sdiv 3600 = h" "r smod 3600 sdiv 60 = mi" "r smod 3600 smod 60 = s" using r by simp_all
  have shift: "era * 146097 + n - 719468 + 719468 = era * 146097 + n" by simp
  have secs: "SECS_PER_DAY = 86400" "SECS_PER_HOUR = 3600" by (simp_all add: SECS_PER_DAY_def SECS_PER_HOUR_def)
  show ?thesis
    unfolding utc_from_posix_time_def Let_def secs split prod.case shift era add_diff_cancel_left'
    using assms(4) by (simp only: year doy month mb(1) day year' time) simp
qed

section \<open>Every second of the calendar\<close>

fun next_date :: "int \<times> int \<times> int \<Rightarrow> int \<times> int \<times> int" where
  "next_date (y, m, d) =
     (if d < month_length y m then (y, m, d + 1) else if m < 12 then (y, m + 1, 1) else (y + 1, 1, 1))"

lemma calendar_days_next:
  assumes "0 \<le> y" "1 \<le> m" "m \<le> 12" "1 \<le> d" "d \<le> month_length y m" "next_date (y, m, d) = (y', m', d')"
  shows "calendar_days y' m' d' = calendar_days y m d + 1"
proof -
  have months: "[1..m] = [1..m - 1] @ [m]" and years: "[0..y] = [0..y - 1] @ [y]"
    using assms by (simp_all add: upto_rec2)
  consider "d < month_length y m" | "d = month_length y m" "m < 12" | "d = month_length y m" "m = 12"
    using assms by linarith
  then show ?thesis
  proof cases
    case 3
    then have "(\<Sum>j\<leftarrow>[1..m - 1]. month_length y j) + d = year_length y"
      by (simp add: year_length_def upto_1_numeral upto_rec_numeral)
    with assms 3 years show ?thesis by (auto simp: calendar_days_def)
  qed (use assms months in \<open>auto simp: calendar_days_def\<close>)
qed

lemma march_days_mono: "y \<le> z \<Longrightarrow> march_days y \<le> march_days z"
proof (induction z rule: int_ge_induct)
  case (step z)
  with march_days_step [of "z + 1"] show ?case by (auto split: if_splits)
qed simp

lemma calendar_days_bounds:
  assumes "valid_date y m d"
  shows "0 \<le> calendar_days y m d" "calendar_days y m d < 3652425"
proof -
  from assms have v: "0 \<le> y" "y \<le> 9999" "1 \<le> m" "m \<le> 12" "1 \<le> d" "d \<le> month_length y m"
    by (auto simp: valid_date_def)
  have "0 \<le> (\<Sum>i\<leftarrow>xs. year_length i)" "0 \<le> (\<Sum>j\<leftarrow>xs. month_length y j)" for xs
    by (auto intro!: sum_list_nonneg simp: year_length_eq month_length_def)
  with v show "0 \<le> calendar_days y m d" by (simp add: calendar_days_def)
  have "(\<Sum>j\<leftarrow>[1..m - 1]. month_length y j) + d \<le> 366 \<and> (leap_year y \<or>
      (\<Sum>j\<leftarrow>[1..m - 1]. month_length y j) + d \<le> 365)"
    using month_cases [OF v(3,4)] v(5,6)
    by (elim disjE) (auto simp: month_length_def upto_1_numeral upto_rec_numeral split: if_splits)
  moreover have "march_days (y - 1) + (if leap_year y then 366 else 365) \<le> march_days 9999"
    using march_days_mono [OF v(2)] march_days_step [of y] by simp
  ultimately show "calendar_days y m d < 3652425"
    using years_before [OF v(1)] by (auto simp: calendar_days_def march_days_def [of 9999] split: if_splits)
qed

lemma calendar_days_surj:
  assumes "0 \<le> n" "n < 3652425"
  shows "\<exists>y m d. valid_date y m d \<and> calendar_days y m d = n"
  using assms
proof (induction n rule: int_ge_induct)
  case base
  have "valid_date 0 1 1" "calendar_days 0 1 1 = 0"
    by (simp_all add: valid_date_def month_length_def calendar_days_def)
  then show ?case by blast
next
  case (step n)
  then obtain y m d where v: "valid_date y m d" and n: "calendar_days y m d = n" by auto
  obtain y' m' d' where nd: "next_date (y, m, d) = (y', m', d')" by (metis prod_cases3)
  from v have c: "calendar_days y' m' d' = n + 1"
    using calendar_days_next [OF _ _ _ _ _ nd] n by (auto simp: valid_date_def)
  have "valid_date y' m' d'"
  proof (cases "y' \<le> 9999")
    case True
    with v nd month_length_bounds [of y' m'] show ?thesis by (auto simp: valid_date_def split: if_splits)
  next
    case False
    with v nd have "y' = 10000" "m' = 1" "d' = 1" by (auto simp: valid_date_def split: if_splits)
    with c step.prems have "calendar_days 10000 1 1 < 3652425" by simp
    moreover have "calendar_days 10000 1 1 = 3652425"
      unfolding calendar_days_def by (subst years_before) (simp_all add: march_days_def)
    ultimately show ?thesis by simp
  qed
  with c show ?case by blast
qed

lemma calendar_seconds_eq:
  "calendar_seconds y m d h mi s = (calendar_days y m d - 719528) * 86400 + h * 3600 + mi * 60 + s"
  by (simp add: calendar_seconds_def calendar_epoch)

lemma posix_time_from_utc_calendar:
  "posix_time_from_utc y m d h mi s = Some t \<longleftrightarrow>
     valid_date y m d \<and> is_valid_time h mi s \<and> t = calendar_seconds y m d h mi s"
  by (auto simp: posix_time_from_utc_eq calendar_seconds_eq calendar_days_eq)

lemma posix_time_from_utc_range: "posix_time_from_utc y m d h mi s = Some t \<Longrightarrow> is_valid_posix_time t"
  using calendar_days_bounds [of y m d] seconds_parts(1,2) [OF _ refl, of h mi s]
  by (auto simp: posix_time_from_utc_calendar calendar_seconds_eq is_valid_posix_time_def MIN_POSIX_TIME_def
      MAX_POSIX_TIME_def)

lemma valid_time_parts:
  assumes "0 \<le> k" "k < 86400"
  shows "is_valid_time (k div 3600) (k mod 3600 div 60) (k mod 3600 mod 60)
    \<and> k div 3600 * 3600 + k mod 3600 div 60 * 60 + k mod 3600 mod 60 = k"
proof -
  define h b mi s where "h = k div 3600" and "b = k mod 3600" and "mi = b div 60" and "s = b mod 60"
  have k: "h * 3600 + b = k" and b: "0 \<le> b" "b < 3600" by (simp_all add: h_def b_def)
  have b': "mi * 60 + s = b" and s: "0 \<le> s" "s < 60" by (simp_all add: mi_def s_def)
  have "0 \<le> h" "h \<le> 23" "0 \<le> mi" "mi \<le> 59" using assms k b b' s by linarith+
  with s have "is_valid_time h mi s" by (simp add: is_valid_time_def)
  moreover have "h * 3600 + mi * 60 + s = k" using k b' by linarith
  ultimately show ?thesis by (simp only: h_def mi_def s_def b_def simp_thms)
qed

lemma utc_from_posix_time_None: "\<not> is_valid_posix_time t \<Longrightarrow> utc_from_posix_time t = None"
  by (simp add: utc_from_posix_time_def)

lemma utc_posix_inverse:
  "utc_from_posix_time t = Some (y, m, d, h, mi, s) \<longleftrightarrow> posix_time_from_utc y m d h mi s = Some t"
proof -
  have to: "utc_from_posix_time t = Some (y, m, d, h, mi, s)" if "posix_time_from_utc y m d h mi s = Some t" for y m d h mi s
    using that utc_from_posix_time_parts [of y m d h mi s t] posix_time_from_utc_range [OF that]
    by (auto simp: posix_time_from_utc_eq split: if_splits)
  show ?thesis
  proof
    assume u: "utc_from_posix_time t = Some (y, m, d, h, mi, s)"
    then have "is_valid_posix_time t" using utc_from_posix_time_None [of t] by fastforce
    then have r: "0 \<le> t + 719528 * 86400" "t + 719528 * 86400 < 3652425 * 86400"
      by (simp_all add: is_valid_posix_time_def MIN_POSIX_TIME_def MAX_POSIX_TIME_def)
    define n k where "n = (t + 719528 * 86400) div 86400" and "k = (t + 719528 * 86400) mod 86400"
    have t: "t = (n - 719528) * 86400 + k" and k: "0 \<le> k" "k < 86400" by (simp_all add: n_def k_def algebra_simps)
    have "0 \<le> n" "n < 3652425" using r k t by simp_all
    then obtain y' m' d' where v: "valid_date y' m' d'" "calendar_days y' m' d' = n"
      using calendar_days_surj by blast
    have "is_valid_time (k div 3600) (k mod 3600 div 60) (k mod 3600 mod 60)"
      "k div 3600 * 3600 + k mod 3600 div 60 * 60 + k mod 3600 mod 60 = k"
      using valid_time_parts [OF k] by blast+
    then have "posix_time_from_utc y' m' d' (k div 3600) (k mod 3600 div 60) (k mod 3600 mod 60) = Some t"
      using v t by (simp add: posix_time_from_utc_calendar calendar_seconds_eq)
    moreover from to [OF this] u have "y' = y" "m' = m" "d' = d" "k div 3600 = h" "k mod 3600 div 60 = mi" "k mod 3600 mod 60 = s"
      by simp_all
    ultimately show "posix_time_from_utc y m d h mi s = Some t" by simp
  qed (rule to)
qed

section \<open>struct tm\<close>

definition valid_tm :: "tm \<Rightarrow> bool" where
  "valid_tm t \<longleftrightarrow> valid_date (tm_year t + 1900) (tm_mon t + 1) (tm_mday t)
     \<and> is_valid_time (tm_hour t) (tm_min t) (tm_sec t)"

definition tm_seconds :: "tm \<Rightarrow> int" where
  "tm_seconds t = calendar_seconds (tm_year t + 1900) (tm_mon t + 1) (tm_mday t) (tm_hour t) (tm_min t) (tm_sec t)"

text \<open>The fields that the source does not compute are zero.\<close>

definition tm_plain :: "tm \<Rightarrow> tm" where
  "tm_plain t = t\<lparr>tm_wday := 0, tm_yday := 0, tm_isdst := 0\<rparr>"

lemma tm_plain_fields [simp]:
  "tm_year (tm_plain t) = tm_year t" "tm_mon (tm_plain t) = tm_mon t" "tm_mday (tm_plain t) = tm_mday t"
  "tm_hour (tm_plain t) = tm_hour t" "tm_min (tm_plain t) = tm_min t" "tm_sec (tm_plain t) = tm_sec t"
  "tm_plain (tm_plain t) = tm_plain t"
  by (simp_all add: tm_plain_def)

lemma tm_to_posix_Some: "OPENSSL_tm_to_posix t = Some p \<longleftrightarrow> valid_tm t \<and> p = tm_seconds t"
  by (simp add: OPENSSL_tm_to_posix_def posix_time_from_utc_calendar valid_tm_def tm_seconds_def)

lemma posix_to_tm_Some: "OPENSSL_posix_to_tm p = Some t \<longleftrightarrow> valid_tm t \<and> p = tm_seconds t \<and> tm_plain t = t"
proof -
  have "OPENSSL_posix_to_tm p = Some t \<longleftrightarrow>
      utc_from_posix_time p = Some (tm_year t + 1900, tm_mon t + 1, tm_mday t, tm_hour t, tm_min t, tm_sec t)
      \<and> tm_plain t = t"
    by (cases t)
      (auto simp: OPENSSL_posix_to_tm_def tm_zero_def tm_plain_def Let_def split: option.splits prod.splits)
  then show ?thesis
    by (auto simp: utc_posix_inverse posix_time_from_utc_calendar valid_tm_def tm_seconds_def)
qed

lemma valid_tm_range: "valid_tm t \<Longrightarrow> is_valid_posix_time (tm_seconds t)"
  using posix_time_from_utc_range by (auto simp: valid_tm_def tm_seconds_def posix_time_from_utc_calendar)

lemma posix_to_tm_seconds: "valid_tm t \<Longrightarrow> OPENSSL_posix_to_tm (tm_seconds t) = Some (tm_plain t)"
  by (auto simp: posix_to_tm_Some valid_tm_def tm_seconds_def)

lemma posix_to_tm_None: "OPENSSL_posix_to_tm p = None \<longleftrightarrow> \<not> is_valid_posix_time p"
proof
  assume n: "OPENSSL_posix_to_tm p = None"
  have "utc_from_posix_time p = None"
    using n by (auto simp: OPENSSL_posix_to_tm_def Let_def split: option.splits)
  then show "\<not> is_valid_posix_time p"
    by (cases "is_valid_posix_time p")
      (simp_all only: utc_from_posix_time_def Let_def prod.case_eq_if option.distinct simp_thms if_False)
qed (simp add: OPENSSL_posix_to_tm_def utc_from_posix_time_None)

lemma tm_plain_unique:
  "valid_tm a \<Longrightarrow> valid_tm b \<Longrightarrow> tm_seconds a = tm_seconds b \<Longrightarrow> tm_plain a = tm_plain b"
  using posix_to_tm_seconds [of a] posix_to_tm_seconds [of b] by simp

text \<open>What \<open>OPENSSL_gmtime_adj\<close> computes when no integer overflows, which its tests ensure.\<close>

lemma gmtime_adj_exact:
  assumes "valid_tm t" "- (2 ^ 31) \<le> days" "days < 2 ^ 31" "INT64_MIN \<le> secs" "secs \<le> INT64_MAX"
  shows "OPENSSL_gmtime_adj t days secs = OPENSSL_posix_to_tm (tm_seconds t + days * 86400 + secs)"
    "INT64_MIN \<le> tm_seconds t + days * 86400" "tm_seconds t + days * 86400 \<le> INT64_MAX"
proof -
  from valid_tm_range [OF assms(1)] have t: "- 62167219200 \<le> tm_seconds t" "tm_seconds t \<le> 253402300799"
    by (simp_all add: is_valid_posix_time_def MIN_POSIX_TIME_def MAX_POSIX_TIME_def)
  show "INT64_MIN \<le> tm_seconds t + days * 86400" "tm_seconds t + days * 86400 \<le> INT64_MAX"
    using t assms(2,3) by (simp_all add: INT64_MIN_def INT64_MAX_def)
  have "OPENSSL_tm_to_posix t = Some (tm_seconds t)" using assms(1) by (simp add: tm_to_posix_Some)
  moreover have "OPENSSL_posix_to_tm (p + secs) = None" if "INT64_MAX - p < secs \<or> secs < INT64_MIN - p" for p
    using that
    by (auto simp: posix_to_tm_None is_valid_posix_time_def MIN_POSIX_TIME_def MAX_POSIX_TIME_def INT64_MAX_def INT64_MIN_def)
  ultimately show "OPENSSL_gmtime_adj t days secs = OPENSSL_posix_to_tm (tm_seconds t + days * 86400 + secs)"
    by (simp add: OPENSSL_gmtime_adj_def SECS_PER_DAY_def SECS_PER_HOUR_def Let_def)
qed

section \<open>Properties\<close>

text \<open>C19 \<open>OPENSSL_tm_to_posix\<close> agrees with the calendar: it accepts exactly the existing dates of the
  years 0 to 9999 with a time of day, and returns the days counted year by year and month by month from
  1 January 1970, in seconds.\<close>

theorem tm_to_posix_calendar:
  "OPENSSL_tm_to_posix t = Some p \<longleftrightarrow>
     valid_date (tm_year t + 1900) (tm_mon t + 1) (tm_mday t) \<and> is_valid_time (tm_hour t) (tm_min t) (tm_sec t)
     \<and> p = calendar_seconds (tm_year t + 1900) (tm_mon t + 1) (tm_mday t) (tm_hour t) (tm_min t) (tm_sec t)"
  by (simp add: tm_to_posix_Some valid_tm_def tm_seconds_def)

text \<open>C20 \<open>OPENSSL_posix_to_tm\<close> is the inverse of \<open>OPENSSL_tm_to_posix\<close>, and it is defined exactly on the
  seconds of the years 0 to 9999.\<close>

theorem posix_tm_roundtrip:
  "(OPENSSL_posix_to_tm p = Some t \<longleftrightarrow>
      OPENSSL_tm_to_posix t = Some p \<and> tm_wday t = 0 \<and> tm_yday t = 0 \<and> tm_isdst t = 0)
   \<and> (OPENSSL_posix_to_tm p \<noteq> None \<longleftrightarrow> MIN_POSIX_TIME \<le> p \<and> p \<le> MAX_POSIX_TIME)"
proof -
  have "tm_plain t = t \<longleftrightarrow> tm_wday t = 0 \<and> tm_yday t = 0 \<and> tm_isdst t = 0"
    by (cases t) (auto simp: tm_plain_def)
  then show ?thesis
    unfolding posix_to_tm_None posix_to_tm_Some tm_to_posix_Some is_valid_posix_time_def by blast
qed

lemma gmtime_diff_adj_parts:
  assumes "OPENSSL_gmtime_diff a b = Some (days, secs)"
  shows "OPENSSL_gmtime_adj a days secs = Some (tm_plain b)" "\<bar>secs\<bar> < 86400" "0 \<le> days * secs"
    "\<bar>days\<bar> < 2 ^ 31"
proof -
  from assms have v: "valid_tm a" "valid_tm b"
    and d: "days = (tm_seconds b - tm_seconds a) sdiv 86400" "secs = (tm_seconds b - tm_seconds a) smod 86400"
    by (auto simp: OPENSSL_gmtime_diff_def tm_to_posix_Some SECS_PER_DAY_def SECS_PER_HOUR_def Let_def
        split: option.splits)
  let ?x = "tm_seconds b - tm_seconds a"
  have "- 62167219200 \<le> tm_seconds a \<and> tm_seconds a \<le> 253402300799"
    "- 62167219200 \<le> tm_seconds b \<and> tm_seconds b \<le> 253402300799"
    using valid_tm_range [OF v(1)] valid_tm_range [OF v(2)]
    by (simp_all add: is_valid_posix_time_def MIN_POSIX_TIME_def MAX_POSIX_TIME_def)
  then have x: "\<bar>?x\<bar> \<le> 315569519999" by linarith
  have e: "days * 86400 + secs = ?x" unfolding d by (rule sdiv_mult_smod_eq)
  show s: "\<bar>secs\<bar> < 86400" unfolding d by (cases "0 \<le> ?x") (simp_all add: smod_neg not_le)
  show days: "\<bar>days\<bar> < 2 ^ 31" using x s e by simp
  have "0 \<le> days \<and> 0 \<le> secs \<or> days \<le> 0 \<and> secs \<le> 0"
    unfolding d by (cases "0 \<le> ?x") (auto simp: sdiv_neg smod_neg not_le pos_imp_zdiv_nonneg_iff)
  then show "0 \<le> days * secs" by (auto intro: mult_nonneg_nonneg mult_nonpos_nonpos)
  have "OPENSSL_gmtime_adj a days secs = OPENSSL_posix_to_tm (tm_seconds a + days * 86400 + secs)"
    using days s by (intro gmtime_adj_exact(1) [OF v(1)]) (auto simp: INT64_MIN_def INT64_MAX_def)
  also have "tm_seconds a + days * 86400 + secs = tm_seconds b" using e by simp
  also have "OPENSSL_posix_to_tm (tm_seconds b) = Some (tm_plain b)" by (rule posix_to_tm_seconds [OF v(2)])
  finally show "OPENSSL_gmtime_adj a days secs = Some (tm_plain b)" .
qed

text \<open>The difference of two times brings one to the other: \<open>OPENSSL_gmtime_adj\<close> by the result of
  \<open>OPENSSL_gmtime_diff\<close> ends at the second time, the seconds stay within a day and have the sign
  of the days, and the days fit an \<open>int\<close>.\<close>

theorem gmtime_diff_adj:
  assumes "OPENSSL_gmtime_diff a b = Some (days, secs)"
  shows "OPENSSL_gmtime_adj a days secs = Some (tm_plain b) \<and> \<bar>secs\<bar> < 86400 \<and> 0 \<le> days * secs \<and> \<bar>days\<bar> < 2 ^ 31"
  using gmtime_diff_adj_parts [OF assms] by blast

text \<open>No overflow: for any \<open>int\<close> number of days and any 64-bit number of seconds, \<open>OPENSSL_gmtime_adj\<close>
  gives the time that the exact sum stands for, or fails because that is outside the years 0 to 9999; its
  first addition stays within 64 bits.\<close>

theorem gmtime_adj_bounds:
  assumes "OPENSSL_tm_to_posix t = Some p" "- (2 ^ 31) \<le> days" "days < 2 ^ 31" "INT64_MIN \<le> secs" "secs \<le> INT64_MAX"
  shows "OPENSSL_gmtime_adj t days secs = OPENSSL_posix_to_tm (p + days * 86400 + secs)
    \<and> INT64_MIN \<le> p + days * 86400 \<and> p + days * 86400 \<le> INT64_MAX"
proof -
  from assms(1) have "valid_tm t" "p = tm_seconds t" by (auto simp: tm_to_posix_Some)
  with gmtime_adj_exact [OF _ assms(2-5)] show ?thesis by blast
qed

text \<open>Evaluation of the reference on numerals.\<close>

lemmas march_eval = march_days_def march_year_def march_day_def month_length_def leap_year_def

theorem gmtime_diff_adj_witness:
  "OPENSSL_gmtime_adj (tm_zero\<lparr>tm_year := 70, tm_mday := 1\<rparr>) 59 3600
    = Some (tm_zero\<lparr>tm_year := 70, tm_mon := 2, tm_mday := 1, tm_hour := 1\<rparr>)"
proof -
  have "OPENSSL_gmtime_diff (tm_zero\<lparr>tm_year := 70, tm_mday := 1\<rparr>)
      (tm_zero\<lparr>tm_year := 70, tm_mon := 2, tm_mday := 1, tm_hour := 1\<rparr>) = Some (59, 3600)"
    by (simp add: OPENSSL_gmtime_diff_def OPENSSL_tm_to_posix_def posix_time_from_utc_eq tm_zero_def valid_date_def
        is_valid_time_def march_eval SECS_PER_DAY_def SECS_PER_HOUR_def)
  from gmtime_diff_adj [OF this] show ?thesis by (simp add: tm_plain_def tm_zero_def)
qed

theorem gmtime_adj_bounds_witness:
  "OPENSSL_gmtime_adj (tm_zero\<lparr>tm_year := 70, tm_mday := 1\<rparr>) 0 INT64_MAX = None"
proof -
  have t: "OPENSSL_tm_to_posix (tm_zero\<lparr>tm_year := 70, tm_mday := 1\<rparr>) = Some 0"
    by (simp add: OPENSSL_tm_to_posix_def posix_time_from_utc_eq tm_zero_def valid_date_def
        is_valid_time_def march_eval)
  have "INT64_MIN \<le> INT64_MAX" "OPENSSL_posix_to_tm INT64_MAX = None"
    by (simp_all add: INT64_MIN_def INT64_MAX_def posix_to_tm_None is_valid_posix_time_def MAX_POSIX_TIME_def)
  with gmtime_adj_bounds [OF t, of 0 INT64_MAX] show ?thesis by simp
qed

end
