(* ===== verification/Time_Parse.thy ===== *)
theory Time_Parse
  imports Posix_Time CBS_ASN1
begin

text \<open>
  The time parsers of \<open>crypto/bytestring/cbs.c\<close>: UTCTime and GeneralizedTime of RFC 5280,
  \<open>YYMMDDHHMMSSZ\<close> and \<open>YYYYMMDDHHMMSSZ\<close>, with an optional four-digit time zone
  instead of the \<open>Z\<close>. The \<open>struct tm\<close> that receives the result may be null; the parser
  returns whether it succeeded and the structure it leaves behind. The reference prints a date.
\<close>

section \<open>Operations\<close>

definition cbs_get_two_digits :: "int getter" where
  "cbs_get_two_digits =
     gbind CBS_get_u8 (\<lambda>first_digit.
     gbind (gassert (OPENSSL_isdigit (uint first_digit))) (\<lambda>_.
     gbind CBS_get_u8 (\<lambda>second_digit.
     gbind (gassert (OPENSSL_isdigit (uint second_digit))) (\<lambda>_.
     gret ((uint first_digit - 48) * 10 + (uint second_digit - 48))))))"

definition is_valid_day :: "int \<Rightarrow> int \<Rightarrow> int \<Rightarrow> bool" where
  "is_valid_day year month day =
     (if day < 1 then False
      else if month \<in> {1, 3, 5, 7, 8, 10, 12} then day \<le> 31
      else if month \<in> {4, 6, 9, 11} then day \<le> 30
      else if month = 2 then
        (if (year smod 4 = 0 \<and> year smod 100 \<noteq> 0) \<or> year smod 400 = 0 then day \<le> 29 else day \<le> 28)
      else False)"

text \<open>The year: four digits in a GeneralizedTime, two digits for 1950 to 2049 in a UTCTime.\<close>

definition rfc5280_year :: "bool \<Rightarrow> int getter" where
  "rfc5280_year is_gentime =
     (if is_gentime then
        gbind cbs_get_two_digits (\<lambda>tmp. let year = tmp * 100 in
        gbind cbs_get_two_digits (\<lambda>tmp. gret (year + tmp)))
      else
        gbind cbs_get_two_digits (\<lambda>tmp.
          let year = 1900 + tmp; year = (if year < 1950 then year + 100 else year) in
          if year \<ge> 2050 then gfail else gret year))"

text \<open>The zone: \<open>Z\<close>, or the offset in seconds where that is allowed.\<close>

definition rfc5280_zone :: "bool \<Rightarrow> int getter" where
  "rfc5280_zone allow_timezone_offset =
     gbind CBS_get_u8 (\<lambda>tz.
       if tz = 90 then gret 0
       else if tz = 43 \<or> tz = 45 then
         let offset_sign = (if tz = 43 then 1 else - 1) in
         gbind (gassert allow_timezone_offset) (\<lambda>_.
         gbind cbs_get_two_digits (\<lambda>offset_hours. gbind (gassert (\<not> offset_hours > 23)) (\<lambda>_.
         gbind cbs_get_two_digits (\<lambda>offset_minutes. gbind (gassert (\<not> offset_minutes > 59)) (\<lambda>_.
         gret (offset_sign * (offset_hours * 3600 + offset_minutes * 60)))))))
       else gfail)"

text \<open>All that is read, with the tests in the order of the source.\<close>

definition rfc5280_fields :: "bool \<Rightarrow> bool \<Rightarrow> (int \<times> int \<times> int \<times> int \<times> int \<times> int \<times> int) getter" where
  "rfc5280_fields is_gentime allow_timezone_offset =
     gbind (rfc5280_year is_gentime) (\<lambda>year.
     gbind cbs_get_two_digits (\<lambda>month. gbind (gassert (\<not> (month < 1 \<or> month > 12))) (\<lambda>_.
     gbind cbs_get_two_digits (\<lambda>day. gbind (gassert (is_valid_day year month day)) (\<lambda>_.
     gbind cbs_get_two_digits (\<lambda>hour. gbind (gassert (\<not> hour > 23)) (\<lambda>_.
     gbind cbs_get_two_digits (\<lambda>minute. gbind (gassert (\<not> minute > 59)) (\<lambda>_.
     gbind cbs_get_two_digits (\<lambda>sec. gbind (gassert (\<not> sec > 59)) (\<lambda>_.
     gbind (rfc5280_zone allow_timezone_offset) (\<lambda>offset_seconds.
     gret (year, month, day, hour, minute, sec, offset_seconds)))))))))))))"

definition CBS_parse_rfc5280_time_internal :: "cbs \<Rightarrow> bool \<Rightarrow> bool \<Rightarrow> tm option \<Rightarrow> bool \<times> tm option" where
  "CBS_parse_rfc5280_time_internal cbs is_gentime allow_timezone_offset out_tm =
     (case rfc5280_fields is_gentime allow_timezone_offset cbs of
       (Some (year, month, day, hour, minute, sec, offset_seconds), []) \<Rightarrow>
         (case out_tm of
           None \<Rightarrow> (True, None)
         | Some out \<Rightarrow>
             let out = out\<lparr>tm_year := year - 1900, tm_mon := month - 1, tm_mday := day, tm_hour := hour,
                   tm_min := minute, tm_sec := sec\<rparr> in
             if offset_seconds \<noteq> 0 then
               (case OPENSSL_gmtime_adj out 0 offset_seconds of
                 None \<Rightarrow> (False, Some out)
               | Some adj \<Rightarrow> (True, Some adj))
             else (True, Some out))
     | _ \<Rightarrow> (False, out_tm))"

definition CBS_parse_generalized_time :: "cbs \<Rightarrow> tm option \<Rightarrow> bool \<Rightarrow> bool \<times> tm option" where
  "CBS_parse_generalized_time cbs out_tm allow_timezone_offset =
     CBS_parse_rfc5280_time_internal cbs True allow_timezone_offset out_tm"

definition CBS_parse_utc_time :: "cbs \<Rightarrow> tm option \<Rightarrow> bool \<Rightarrow> bool \<times> tm option" where
  "CBS_parse_utc_time cbs out_tm allow_timezone_offset =
     CBS_parse_rfc5280_time_internal cbs False allow_timezone_offset out_tm"

section \<open>Printing\<close>

definition two_digits :: "int \<Rightarrow> bytes" where
  "two_digits n = [of_int (48 + n div 10), of_int (48 + n mod 10)]"

definition year_text :: "bool \<Rightarrow> int \<Rightarrow> bytes" where
  "year_text is_gentime y =
     (if is_gentime then two_digits (y div 100) @ two_digits (y mod 100) else two_digits (y mod 100))"

definition year_ok :: "bool \<Rightarrow> int \<Rightarrow> bool" where
  "year_ok is_gentime y \<longleftrightarrow> (if is_gentime then 0 \<le> y \<and> y \<le> 9999 else 1950 \<le> y \<and> y < 2050)"

text \<open>A zone is \<open>None\<close> for \<open>Z\<close>, or a sign (true for \<open>+\<close>), hours and minutes.\<close>

fun zone_text :: "(bool \<times> int \<times> int) option \<Rightarrow> bytes" where
  "zone_text None = [90]"
| "zone_text (Some (pos, h, m)) = (if pos then 43 else 45) # two_digits h @ two_digits m"

fun zone_ok :: "bool \<Rightarrow> (bool \<times> int \<times> int) option \<Rightarrow> bool" where
  "zone_ok allow None = True"
| "zone_ok allow (Some (pos, h, m)) = (allow \<and> 0 \<le> h \<and> h \<le> 23 \<and> 0 \<le> m \<and> m \<le> 59)"

fun zone_seconds :: "(bool \<times> int \<times> int) option \<Rightarrow> int" where
  "zone_seconds None = 0"
| "zone_seconds (Some (pos, h, m)) = (if pos then 1 else - 1) * (h * 3600 + m * 60)"

definition time_text :: "bool \<Rightarrow> tm \<Rightarrow> bytes" where
  "time_text is_gentime t = year_text is_gentime (tm_year t + 1900) @ two_digits (tm_mon t + 1)
     @ two_digits (tm_mday t) @ two_digits (tm_hour t) @ two_digits (tm_min t) @ two_digits (tm_sec t)"

section \<open>Digits\<close>

lemma uint_unat_le: "uint (w :: u8) \<le> 255" "0 \<le> uint (w :: u8)"
  using uint_lt2p [of w] by simp_all

lemma is_digit_byte_uint: "is_digit_byte c \<longleftrightarrow> 48 \<le> uint c \<and> uint c \<le> 57"
proof -
  have "uint c = int (unat c)" by simp
  then show ?thesis unfolding is_digit_byte_def by linarith
qed

lemma of_int_digit:
  assumes "0 \<le> d" "d \<le> 9"
  shows "uint (48 + word_of_int d :: u8) = 48 + d"
proof -
  have "48 + word_of_int d = (word_of_int (48 + d) :: u8)" by simp
  then have "uint (48 + word_of_int d :: u8) = (48 + d) mod 2 ^ LENGTH(8)" by (simp only: uint_word_of_int)
  with assms show ?thesis by simp
qed

lemma cbs_get_two_digits_eq:
  "cbs_get_two_digits s = (Some n, r) \<longleftrightarrow> (\<exists>a b. s = a # b # r \<and> is_digit_byte a \<and> is_digit_byte b
     \<and> n = (uint a - 48) * 10 + (uint b - 48))"
  by (auto simp: cbs_get_two_digits_def gbind_eq_Some_iff CBS_get_u8_eq)

interpretation digits2: canonical_codec two_digits cbs_get_two_digits "\<lambda>n. 0 \<le> n \<and> n \<le> 99"
proof
  fix n r assume n: "0 \<le> n \<and> n \<le> (99 :: int)"
  then have "0 \<le> n div 10" "n div 10 \<le> 9" "0 \<le> n mod 10" "n mod 10 \<le> 9" by linarith+
  then show "cbs_get_two_digits (two_digits n @ r) = (Some n, r)"
    unfolding cbs_get_two_digits_eq two_digits_def is_digit_byte_uint by (simp add: of_int_digit)
next
  fix s r and n :: int assume "cbs_get_two_digits s = (Some n, r)"
  then obtain a b where s: "s = a # b # r" "n = (uint a - 48) * 10 + (uint b - 48)"
    and d: "48 \<le> uint a" "uint a \<le> 57" "48 \<le> uint b" "uint b \<le> 57"
    by (auto simp: cbs_get_two_digits_eq is_digit_byte_uint)
  have "n div 10 = uint a - 48" using s(2) d by (intro div_by_parts [of _ _ _ "uint b - 48"]) auto
  moreover from this have "n mod 10 = uint b - 48" using s(2) by (simp add: minus_div_mult_eq_mod [symmetric])
  ultimately show "(0 \<le> n \<and> n \<le> 99) \<and> s = two_digits n @ r"
    using s d by (simp add: two_digits_def)
qed (simp add: two_digits_def)

section \<open>What is accepted\<close>

lemma is_valid_day_eq: "1 \<le> m \<Longrightarrow> m \<le> 12 \<Longrightarrow> is_valid_day y m d \<longleftrightarrow> 1 \<le> d \<and> d \<le> month_length y m"
proof -
  assume "1 \<le> m" "m \<le> 12"
  from month_cases [OF this] show ?thesis
    unfolding is_valid_day_def month_length_def leap_year_smod by (elim disjE) auto
qed

lemma two_digits_bounds: "cbs_get_two_digits s = (Some n, r) \<Longrightarrow> 0 \<le> n \<and> n \<le> 99"
  using digits2.dec_iff by blast

lemma year_of_digits:
  "0 \<le> a \<Longrightarrow> a \<le> 99 \<Longrightarrow> 0 \<le> b \<Longrightarrow> b \<le> 99 \<Longrightarrow> (a * 100 + b) div 100 = a \<and> (a * 100 + b) mod 100 = b" for a b :: int
  by simp

lemma year_mod:
  fixes a :: int
  assumes "0 \<le> a" "a \<le> 99"
  shows "(1900 + a) mod 100 = a \<and> (2000 + a) mod 100 = a"
proof -
  have "(k * 100 + a) mod 100 = a" for k unfolding mod_mult_self3 using assms by (intro mod_pos_pos_trivial) simp_all
  from this [of 19] this [of 20] show ?thesis by simp
qed

lemma rfc5280_year_iff: "rfc5280_year g s = (Some y, r) \<longleftrightarrow> year_ok g y \<and> s = year_text g y @ r"
proof (cases g)
  case True
  show ?thesis
  proof
    assume "rfc5280_year g s = (Some y, r)"
    with True obtain a b where s: "0 \<le> a \<and> a \<le> 99" "0 \<le> b \<and> b \<le> 99" "s = two_digits a @ two_digits b @ r" "y = a * 100 + b"
      by (auto simp: rfc5280_year_def gbind_eq_Some_iff digits2.dec_iff)
    with True year_of_digits [of a b] show "year_ok g y \<and> s = year_text g y @ r"
      by (auto simp: year_ok_def year_text_def)
  next
    assume "year_ok g y \<and> s = year_text g y @ r"
    moreover from this True have "0 \<le> y div 100" "y div 100 \<le> 99" "0 \<le> y mod 100" "y mod 100 \<le> 99"
      by (auto simp: year_ok_def)
    ultimately show "rfc5280_year g s = (Some y, r)"
      using True by (simp add: rfc5280_year_def year_text_def digits2.dec_enc)
  qed
next
  case False
  show ?thesis
  proof
    assume "rfc5280_year g s = (Some y, r)"
    then obtain a r' where "0 \<le> a \<and> a \<le> 99" "s = two_digits a @ r'"
        "(if (if 1900 + a < 1950 then 1900 + a + 100 else 1900 + a) \<ge> 2050 then gfail
          else gret (if 1900 + a < 1950 then 1900 + a + 100 else 1900 + a)) r' = (Some y, r)"
      by (simp only: False rfc5280_year_def if_False Let_def gbind_eq_Some_iff digits2.dec_iff) blast
    then have a: "0 \<le> a \<and> a \<le> 99" "s = two_digits a @ r" "y = (if a < 50 then 2000 + a else 1900 + a)"
      by (auto split: if_splits)
    have "(k * 100 + a) mod 100 = a" for k unfolding mod_mult_self3 using a(1) by (simp add: mod_pos_pos_trivial)
    from this [of 20] this [of 19] a(3) have "y mod 100 = a" by (simp split: if_splits)
    with False a show "year_ok g y \<and> s = year_text g y @ r"
      by (auto simp: year_ok_def year_text_def)
  next
    assume a: "year_ok g y \<and> s = year_text g y @ r"
    with False have y: "1950 \<le> y" "y < 2050" by (simp_all add: year_ok_def)
    show "rfc5280_year g s = (Some y, r)"
    proof (cases "y < 2000")
      case True
      with year_mod [of "y - 1900"] y have "y mod 100 = y - 1900" by simp
      with a False True y show ?thesis by (simp add: rfc5280_year_def year_text_def digits2.dec_enc)
    next
      case False
      with year_mod [of "y - 2000"] y have "y mod 100 = y - 2000" by simp
      with a \<open>\<not> g\<close> False y show ?thesis by (simp add: rfc5280_year_def year_text_def digits2.dec_enc)
    qed
  qed
qed

lemma zone_offset_iff:
  "gbind (gassert allow) (\<lambda>_. gbind cbs_get_two_digits (\<lambda>oh. gbind (gassert (\<not> oh > 23)) (\<lambda>_.
     gbind cbs_get_two_digits (\<lambda>om. gbind (gassert (\<not> om > 59)) (\<lambda>_. gret (f oh om)))))) s = (Some n, r)
   \<longleftrightarrow> allow \<and> (\<exists>h m. 0 \<le> h \<and> h \<le> 23 \<and> 0 \<le> m \<and> m \<le> 59 \<and> s = two_digits h @ two_digits m @ r \<and> n = f h m)"
  (is "?lhs \<longleftrightarrow> ?rhs")
proof
  assume ?lhs
  then obtain h s1 m where "allow" "\<not> h > 23" "\<not> m > 59" "cbs_get_two_digits s = (Some h, s1)"
    "cbs_get_two_digits s1 = (Some m, r)" "n = f h m"
    unfolding gbind_eq_Some_iff gassert_eq gret_eq by blast
  then show ?rhs unfolding digits2.dec_iff not_less by blast
next
  assume ?rhs
  then show ?lhs by (auto simp: digits2.dec_enc getter_simps)
qed

lemma rfc5280_zone_iff:
  "rfc5280_zone allow s = (Some n, r) \<longleftrightarrow> (\<exists>z. zone_ok allow z \<and> s = zone_text z @ r \<and> n = zone_seconds z)"
proof
  assume "rfc5280_zone allow s = (Some n, r)"
  then obtain tz s1 where s: "s = tz # s1" and tz: "(if tz = 90 then gret 0 else if tz = 43 \<or> tz = 45 then
      gbind (gassert allow) (\<lambda>_. gbind cbs_get_two_digits (\<lambda>oh. gbind (gassert (\<not> oh > 23)) (\<lambda>_.
        gbind cbs_get_two_digits (\<lambda>om. gbind (gassert (\<not> om > 59)) (\<lambda>_.
        gret ((if tz = 43 then 1 else - 1) * (oh * 3600 + om * 60))))))) else gfail) s1 = (Some n, r)"
    unfolding rfc5280_zone_def Let_def gbind_eq_Some_iff [of CBS_get_u8] CBS_get_u8_eq by blast
  from tz consider (Z) "tz = 90" "n = 0" "r = s1"
    | (off) h m where "tz \<in> {43, 45}" "allow" "0 \<le> h" "h \<le> 23" "0 \<le> m" "m \<le> 59"
        "s1 = two_digits h @ two_digits m @ r" "n = (if tz = 43 then 1 else - 1) * (h * 3600 + m * 60)"
    unfolding zone_offset_iff by (cases "tz = 90"; cases "tz = 43 \<or> tz = 45") (simp_all add: zone_offset_iff, blast+)
  then show "\<exists>z. zone_ok allow z \<and> s = zone_text z @ r \<and> n = zone_seconds z"
  proof cases
    case Z
    with s show ?thesis by (intro exI [of _ None]) simp
  next
    case off
    with s show ?thesis by (intro exI [of _ "Some (tz = 43, h, m)"]) auto
  qed
next
  assume "\<exists>z. zone_ok allow z \<and> s = zone_text z @ r \<and> n = zone_seconds z"
  then obtain z where z: "zone_ok allow z" "s = zone_text z @ r" "n = zone_seconds z" by blast
  show "rfc5280_zone allow s = (Some n, r)"
  proof (cases z)
    case (Some p)
    obtain pos h m where "p = (pos, h, m)" by (cases p)
    with z Some show ?thesis
      by (cases pos) (simp_all add: rfc5280_zone_def digits2.dec_enc getter_simps)
  qed (use z in \<open>simp add: rfc5280_zone_def\<close>)
qed

lemma rfc5280_fields_to_zone:
  assumes "year_ok g y" "valid_date y mo d" "is_valid_time h mi sec"
  shows "rfc5280_fields g allow (year_text g y @ two_digits mo @ two_digits d @ two_digits h @ two_digits mi
      @ two_digits sec @ rest)
    = gbind (rfc5280_zone allow) (\<lambda>off. gret (y, mo, d, h, mi, sec, off)) rest"
proof -
  have v: "1 \<le> mo" "mo \<le> 12" "is_valid_day y mo d" "1 \<le> d" "d \<le> 31"
    using assms(2) month_length_bounds(2) [of y mo] by (auto simp: valid_date_def is_valid_day_eq)
  have t: "0 \<le> h" "h \<le> 23" "0 \<le> mi" "mi \<le> 59" "0 \<le> sec" "sec \<le> 59" using assms(3) by (auto simp: is_valid_time_def)
  have "rfc5280_year g (year_text g y @ x) = (Some y, x)" for x using assms(1) by (simp add: rfc5280_year_iff)
  with v t show ?thesis by (simp add: rfc5280_fields_def getter_simps digits2.dec_enc)
qed

lemma rfc5280_fields_iff:
  "rfc5280_fields g allow s = (Some (y, mo, d, h, mi, sec, off), r) \<longleftrightarrow>
     year_ok g y \<and> valid_date y mo d \<and> is_valid_time h mi sec
     \<and> (\<exists>z. zone_ok allow z \<and> off = zone_seconds z \<and> s = year_text g y @ two_digits mo @ two_digits d
        @ two_digits h @ two_digits mi @ two_digits sec @ zone_text z @ r)"
  (is "?lhs \<longleftrightarrow> ?rhs")
proof
  assume ?lhs
  then obtain s1 s2 s3 s4 s5 s6 where year: "rfc5280_year g s = (Some y, s1)"
    and fields: "cbs_get_two_digits s1 = (Some mo, s2)" "cbs_get_two_digits s2 = (Some d, s3)"
      "cbs_get_two_digits s3 = (Some h, s4)" "cbs_get_two_digits s4 = (Some mi, s5)"
      "cbs_get_two_digits s5 = (Some sec, s6)"
    and tests: "\<not> (mo < 1 \<or> mo > 12)" "is_valid_day y mo d" "\<not> h > 23" "\<not> mi > 59" "\<not> sec > 59"
    and zone: "rfc5280_zone allow s6 = (Some off, r)"
    unfolding rfc5280_fields_def gbind_eq_Some_iff gassert_eq gret_eq by blast
  have "valid_date y mo d" using tests(1,2) year
    by (auto simp: valid_date_def is_valid_day_eq rfc5280_year_iff year_ok_def split: if_splits)
  moreover have "is_valid_time h mi sec"
    using tests(3-5) fields(3-5)[THEN two_digits_bounds] by (simp add: is_valid_time_def)
  ultimately show ?rhs
    using year fields zone unfolding rfc5280_year_iff digits2.dec_iff rfc5280_zone_iff by auto
next
  assume r: ?rhs
  then obtain z where z: "zone_ok allow z" "off = zone_seconds z" and s: "s = year_text g y @ two_digits mo @ two_digits d
      @ two_digits h @ two_digits mi @ two_digits sec @ zone_text z @ r"
    by blast
  have "rfc5280_zone allow (zone_text z @ r) = (Some off, r)" using z by (auto simp: rfc5280_zone_iff)
  then show ?lhs unfolding s using rfc5280_fields_to_zone [of g y mo d h mi sec allow "zone_text z @ r"] r by simp
qed

text \<open>The date that was read, in the fields of a structure that had other contents before.\<close>

definition same_rest :: "tm \<Rightarrow> tm \<Rightarrow> bool" where
  "same_rest a b \<longleftrightarrow> tm_wday a = tm_wday b \<and> tm_yday a = tm_yday b \<and> tm_isdst a = tm_isdst b"

lemma valid_tm_year: "valid_tm t \<Longrightarrow> year_ok True (tm_year t + 1900)"
  by (simp add: valid_tm_def valid_date_def year_ok_def)

lemma zone_seconds_bounds: "zone_ok allow z \<Longrightarrow> \<bar>zone_seconds z\<bar> < 86400"
  by (cases "(allow, z)" rule: zone_ok.cases) auto

lemma parse_time_iff:
  "CBS_parse_rfc5280_time_internal s g allow (Some t0) = (True, Some t) \<longleftrightarrow>
     (\<exists>l z. valid_tm l \<and> same_rest l t0 \<and> year_ok g (tm_year l + 1900) \<and> zone_ok allow z
        \<and> s = time_text g l @ zone_text z
        \<and> (if zone_seconds z = 0 then t = l else OPENSSL_posix_to_tm (tm_seconds l + zone_seconds z) = Some t))"
  (is "?lhs \<longleftrightarrow> ?rhs")
proof
  have adj: "OPENSSL_gmtime_adj l 0 (zone_seconds z) = OPENSSL_posix_to_tm (tm_seconds l + zone_seconds z)"
    if "valid_tm l" "zone_ok allow z" for l z
    using gmtime_adj_exact(1) [OF that(1), of 0 "zone_seconds z"] zone_seconds_bounds [OF that(2)]
    by (simp add: INT64_MIN_def INT64_MAX_def)
  {
    assume ?lhs
    then obtain y mo d h mi sec off where f: "rfc5280_fields g allow s = (Some (y, mo, d, h, mi, sec, off), [])"
      and out: "(let out = t0\<lparr>tm_year := y - 1900, tm_mon := mo - 1, tm_mday := d, tm_hour := h,
                   tm_min := mi, tm_sec := sec\<rparr> in
             if off \<noteq> 0 then
               (case OPENSSL_gmtime_adj out 0 off of
                 None \<Rightarrow> (False, Some out)
               | Some adj \<Rightarrow> (True, Some adj))
             else (True, Some out)) = (True, Some t)"
      by (auto simp: CBS_parse_rfc5280_time_internal_def split: prod.splits option.splits list.splits)
    let ?l = "t0\<lparr>tm_year := y - 1900, tm_mon := mo - 1, tm_mday := d, tm_hour := h, tm_min := mi, tm_sec := sec\<rparr>"
    from f obtain z where z: "zone_ok allow z" "off = zone_seconds z" and v: "valid_tm ?l" "year_ok g y"
      and s: "s = time_text g ?l @ zone_text z"
      by (auto simp: rfc5280_fields_iff valid_tm_def time_text_def)
    have "if zone_seconds z = 0 then t = ?l else OPENSSL_posix_to_tm (tm_seconds ?l + zone_seconds z) = Some t"
      using out z(2) adj [OF v(1) z(1)] by (auto simp: Let_def split: option.splits if_splits)
    with z v s show ?rhs
      by (intro exI [of _ ?l] exI [of _ z]) (simp add: same_rest_def)
  next
    assume ?rhs
    then obtain l z where v: "valid_tm l" "same_rest l t0" "year_ok g (tm_year l + 1900)" "zone_ok allow z"
      and s: "s = time_text g l @ zone_text z"
      and t: "if zone_seconds z = 0 then t = l else OPENSSL_posix_to_tm (tm_seconds l + zone_seconds z) = Some t"
      by blast
    have f: "rfc5280_fields g allow s = (Some (tm_year l + 1900, tm_mon l + 1, tm_mday l, tm_hour l, tm_min l,
        tm_sec l, zone_seconds z), [])"
      using v s by (auto simp: rfc5280_fields_iff valid_tm_def time_text_def)
    have "t0\<lparr>tm_year := tm_year l, tm_mon := tm_mon l, tm_mday := tm_mday l, tm_hour := tm_hour l,
        tm_min := tm_min l, tm_sec := tm_sec l\<rparr> = l"
      using v(2) by (cases l; cases t0) (simp add: same_rest_def)
    with t f adj [OF v(1,4)] show ?lhs
      by (auto simp: CBS_parse_rfc5280_time_internal_def Let_def split: if_splits)
  }
qed

section \<open>Properties\<close>

text \<open>C21 The time parsers accept exactly the printed times: without time zones
  \<open>CBS_parse_generalized_time\<close> returns \<open>t\<close> for the 15 characters of \<open>t\<close> and \<open>Z\<close>, and
  \<open>CBS_parse_utc_time\<close> for the 13 characters of a time of the years 1950 to 2049. So no date that does not
  exist and no other spelling is accepted, and the fields that are not in the text keep their contents.\<close>

theorem time_text_canonical:
  "(CBS_parse_generalized_time s (Some t0) False = (True, Some t) \<longleftrightarrow>
      valid_tm t \<and> same_rest t t0 \<and> s = time_text True t @ [90])
   \<and> (CBS_parse_utc_time s (Some t0) False = (True, Some t) \<longleftrightarrow>
      valid_tm t \<and> same_rest t t0 \<and> 1950 \<le> tm_year t + 1900 \<and> tm_year t + 1900 < 2050
      \<and> s = time_text False t @ [90])"
proof -
  have z: "zone_ok False z \<longleftrightarrow> z = None" for z by (cases z) auto
  show ?thesis
    unfolding CBS_parse_generalized_time_def CBS_parse_utc_time_def parse_time_iff z
    using valid_tm_year [of t] by (auto simp: year_ok_def)
qed

text \<open>C22 The time zone: with time zones allowed, a local time \<open>l\<close> followed by \<open>+hhmm\<close> is converted to
  \<open>l\<close> \<^emph>\<open>plus\<close> the offset and one followed by \<open>-hhmm\<close> to \<open>l\<close> minus it, although the universal time is
  the local time minus its offset; the call fails when the sum is outside the years 0 to 9999. Without
  permission the zone is rejected.\<close>

theorem time_zone_offset:
  assumes "OPENSSL_tm_to_posix l = Some p" "same_rest l t0"
    and "0 \<le> h" "h \<le> 23" "0 \<le> m" "m \<le> 59" "0 < h * 3600 + m * 60"
  shows "CBS_parse_generalized_time (time_text True l @ (if pos then 43 else 45) # two_digits h @ two_digits m) (Some t0) allow
    = (if allow then
         (case OPENSSL_posix_to_tm (p + (if pos then h * 3600 + m * 60 else - (h * 3600 + m * 60))) of
           None \<Rightarrow> (False, Some l)
         | Some t \<Rightarrow> (True, Some t))
       else (False, Some t0))"
proof -
  let ?z = "Some (pos, h, m)"
  from assms(1) have l: "valid_tm l" "p = tm_seconds l" by (auto simp: tm_to_posix_Some)
  have "zone_text ?z = (if pos then 43 else 45) # two_digits h @ two_digits m" by simp
  then have s: "time_text True l @ (if pos then 43 else 45) # two_digits h @ two_digits m = time_text True l @ zone_text ?z"
    by (simp only:)
  have fields: "rfc5280_fields True allow (time_text True l @ zone_text ?z)
      = gbind (rfc5280_zone allow) (\<lambda>off. gret (tm_year l + 1900, tm_mon l + 1, tm_mday l, tm_hour l, tm_min l,
          tm_sec l, off)) (zone_text ?z)"
    using rfc5280_fields_to_zone [OF valid_tm_year [OF l(1)]] l(1)
    by (simp add: valid_tm_def time_text_def del: zone_text.simps)
  show ?thesis
  proof (cases allow)
    case True
    have "rfc5280_zone allow (zone_text ?z) = (Some (zone_seconds ?z), [])"
      unfolding rfc5280_zone_iff using assms(3-6) True by (intro exI [of _ ?z]) simp
    with fields have f: "rfc5280_fields True allow (time_text True l @ zone_text ?z)
        = (Some (tm_year l + 1900, tm_mon l + 1, tm_mday l, tm_hour l, tm_min l, tm_sec l, zone_seconds ?z), [])"
      by (simp del: zone_text.simps zone_seconds.simps)
    have "t0\<lparr>tm_year := tm_year l, tm_mon := tm_mon l, tm_mday := tm_mday l, tm_hour := tm_hour l,
        tm_min := tm_min l, tm_sec := tm_sec l\<rparr> = l"
      using assms(2) by (cases l; cases t0) (simp add: same_rest_def)
    moreover have "zone_seconds ?z \<noteq> 0" using assms(7) by simp
    moreover have "OPENSSL_gmtime_adj l 0 (zone_seconds ?z) = OPENSSL_posix_to_tm (p + zone_seconds ?z)"
      using gmtime_adj_exact(1) [OF l(1), of 0 "zone_seconds ?z"] zone_seconds_bounds [of True ?z] assms(3-6) l(2)
      by (simp add: INT64_MIN_def INT64_MAX_def)
    moreover have "(if pos then h * 3600 + m * 60 else - (h * 3600 + m * 60)) = zone_seconds ?z" by simp
    ultimately show ?thesis
      unfolding s CBS_parse_generalized_time_def CBS_parse_rfc5280_time_internal_def f Let_def
      using True by (simp del: zone_seconds.simps split: option.split)
  next
    case False
    then have "fst (rfc5280_zone allow (zone_text ?z)) = None"
      by (simp add: rfc5280_zone_def getter_simps)
    with fields have "fst (rfc5280_fields True allow (time_text True l @ zone_text ?z)) = None"
      by (cases "rfc5280_zone allow (zone_text ?z)") (simp del: zone_text.simps)
    then obtain r where f: "rfc5280_fields True allow (time_text True l @ zone_text ?z) = (None, r)"
      by (cases "rfc5280_fields True allow (time_text True l @ zone_text ?z)") simp
    show ?thesis
      unfolding s CBS_parse_generalized_time_def CBS_parse_rfc5280_time_internal_def f using False by simp
  qed
qed

theorem time_zone_offset_witness:
  "CBS_parse_generalized_time (time_text True (tm_zero\<lparr>tm_year := 124, tm_mday := 1\<rparr>) @ [43, 48, 49, 48, 48])
      (Some tm_zero) True
    = (True, Some (tm_zero\<lparr>tm_year := 124, tm_mday := 1, tm_hour := 1\<rparr>))"
proof -
  let ?l = "tm_zero\<lparr>tm_year := 124, tm_mday := 1\<rparr>"
  have l: "OPENSSL_tm_to_posix ?l = Some 1704067200"
    by (simp add: OPENSSL_tm_to_posix_def posix_time_from_utc_eq tm_zero_def valid_date_def
        is_valid_time_def march_eval)
  have "OPENSSL_tm_to_posix (?l\<lparr>tm_hour := 1\<rparr>) = Some 1704070800"
    by (simp add: OPENSSL_tm_to_posix_def posix_time_from_utc_eq tm_zero_def valid_date_def
        is_valid_time_def march_eval)
  then have "OPENSSL_posix_to_tm 1704070800 = Some (?l\<lparr>tm_hour := 1\<rparr>)"
    by (auto simp: posix_to_tm_Some tm_to_posix_Some tm_plain_def tm_zero_def)
  with time_zone_offset [OF l, of tm_zero 1 0 True True] show ?thesis
    by (simp add: same_rest_def tm_zero_def two_digits_def)
qed

end
