(* ===== verification/PB_Stream.thy ===== *)
theory PB_Stream
  imports CBB_Props
begin

text \<open>
  The streams and the wire primitives of nanopb (\<open>Pods/nanopb/pb_encode.c\<close> and
  \<open>pb_decode.c\<close>, built with \<open>PB_FIELD_32BIT\<close>, 64-bit integers and error messages). An
  input stream reads from memory (\<open>buf_read\<close>) or through a callback; an output
  stream counts only (a null callback), writes into memory (\<open>buf_write\<close>) or
  through a callback. A callback is a function on the state behind
  \<open>stream->state\<close>. \<open>uint_fast8_t\<close> has 8 bits on the platforms of the Pods.
\<close>

section \<open>Streams\<close>

datatype 'st isource =
  Buf_read bytes
| Icallback "'st \<Rightarrow> nat \<Rightarrow> bytes option \<times> 'st" 'st

record 'st pb_istream =
  i_src :: "'st isource"
  bytes_left :: nat
  i_errmsg :: "string option"

datatype 'st osink =
  Null_sink
| Buf_write bytes nat
| Ocallback "'st \<Rightarrow> bytes \<Rightarrow> bool \<times> 'st" 'st

record 'st pb_ostream =
  o_sink :: "'st osink"
  max_size :: nat
  bytes_written :: nat
  o_errmsg :: "string option"

type_synonym ('st, 'a) iop = "('st pb_istream, 'a) op"
type_synonym ('st, 'a) oop = "('st pb_ostream, 'a) op"

text \<open>\<open>PB_RETURN_ERROR\<close>: the first message is kept.\<close>

definition i_error :: "string \<Rightarrow> ('st, 'a) iop" where
  "i_error msg s = (None, s\<lparr>i_errmsg := (case i_errmsg s of None \<Rightarrow> Some msg | Some m \<Rightarrow> Some m)\<rparr>)"

definition o_error :: "string \<Rightarrow> ('st, 'a) oop" where
  "o_error msg s = (None, s\<lparr>o_errmsg := (case o_errmsg s of None \<Rightarrow> Some msg | Some m \<Rightarrow> Some m)\<rparr>)"

section \<open>Reading\<close>

text \<open>The call through \<open>stream->callback\<close> with a buffer that is not null.\<close>

definition buf_read :: "bytes \<Rightarrow> nat \<Rightarrow> bytes \<times> bytes" where
  "buf_read source cnt = (take cnt source, drop cnt source)"

definition i_call :: "nat \<Rightarrow> ('st, bytes) iop" where
  "i_call cnt s = (case i_src s of
     Buf_read source \<Rightarrow> (case buf_read source cnt of (bs, rest) \<Rightarrow> (Some bs, s\<lparr>i_src := Buf_read rest\<rparr>))
   | Icallback f st \<Rightarrow> (case f st cnt of (r, st') \<Rightarrow> (r, s\<lparr>i_src := Icallback f st'\<rparr>)))"

text \<open>\<open>pb_read\<close> into a buffer.\<close>

definition pb_read_buf :: "nat \<Rightarrow> ('st, bytes) iop" where
  "pb_read_buf cnt s =
     (if cnt = 0 then (Some [], s)
      else if bytes_left s < cnt then i_error ''end-of-stream'' s
      else case i_call cnt s of
        (None, s) \<Rightarrow> i_error ''io error'' s
      | (Some bs, s) \<Rightarrow> (Some bs, s\<lparr>bytes_left := bytes_left s - cnt\<rparr>))"

text \<open>The loop of \<open>pb_read\<close> that skips through a callback, 16 bytes at a time.\<close>

function pb_skip_loop :: "nat \<Rightarrow> ('st, unit) iop" where
  "pb_skip_loop cnt =
     (if cnt > 16 then gbind (pb_read_buf 16) (\<lambda>_. pb_skip_loop (cnt - 16))
      else gbind (pb_read_buf cnt) (\<lambda>_. gret ()))"
  by pat_completeness auto
termination pb_skip_loop
  by (relation "measure id") auto

declare pb_skip_loop.simps [simp del]

text \<open>\<open>pb_read\<close> with a null buffer: the bytes are skipped.\<close>

definition pb_read_null :: "nat \<Rightarrow> ('st, unit) iop" where
  "pb_read_null cnt s =
     (if cnt = 0 then (Some (), s)
      else case i_src s of
        Icallback _ _ \<Rightarrow> pb_skip_loop cnt s
      | Buf_read source \<Rightarrow>
          if bytes_left s < cnt then i_error ''end-of-stream'' s
          else (Some (), s\<lparr>i_src := Buf_read (drop cnt source), bytes_left := bytes_left s - cnt\<rparr>))"

definition pb_readbyte :: "('st, u8) iop" where
  "pb_readbyte s =
     (if bytes_left s = 0 then i_error ''end-of-stream'' s
      else case i_call 1 s of
        (None, s) \<Rightarrow> i_error ''io error'' s
      | (Some bs, s) \<Rightarrow> (Some (bs ! 0), s\<lparr>bytes_left := bytes_left s - 1\<rparr>))"

definition pb_istream_from_buffer :: "bytes \<Rightarrow> nat \<Rightarrow> 'st pb_istream" where
  "pb_istream_from_buffer buf bufsize = \<lparr>i_src = Buf_read buf, bytes_left = bufsize, i_errmsg = None\<rparr>"

lemma i_call_left: "i_call n s = (r, s') \<Longrightarrow> bytes_left s' = bytes_left s"
  by (auto simp: i_call_def split: isource.splits prod.splits)

lemma i_error_eq: "i_error m s = (r, s') \<longleftrightarrow>
    r = None \<and> s' = s\<lparr>i_errmsg := (case i_errmsg s of None \<Rightarrow> Some m | Some m \<Rightarrow> Some m)\<rparr>"
  by (auto simp: i_error_def)

lemma pb_readbyte_Some:
  assumes "pb_readbyte s = (Some b, s')"
  obtains bs s1 where "bytes_left s \<noteq> 0" "i_call 1 s = (Some bs, s1)" "b = bs ! 0"
    "s' = s1\<lparr>bytes_left := bytes_left s1 - 1\<rparr>"
  using assms by (cases "i_call 1 s"; cases "fst (i_call 1 s)")
    (auto simp: pb_readbyte_def i_error_eq split: if_splits)

lemma pb_readbyte_left: "pb_readbyte s = (Some b, s') \<Longrightarrow> bytes_left s = Suc (bytes_left s')"
  by (erule pb_readbyte_Some) (simp add: i_call_left)

lemma pb_read_buf_left:
  assumes "pb_read_buf n s = (Some b, s')"
  shows "bytes_left s = bytes_left s' + n"
  using assms by (cases "i_call n s"; cases "fst (i_call n s)")
    (auto simp: pb_read_buf_def i_error_eq i_call_left split: if_splits)

lemma read_less:
  "(Some b, s') = pb_readbyte s \<Longrightarrow> bytes_left s' < bytes_left s"
  "(Some bs, s') = pb_read_buf (Suc n) s \<Longrightarrow> bytes_left s' < bytes_left s"
  by (auto dest!: sym [of "(Some _, _)"] simp: pb_readbyte_left pb_read_buf_left)

section \<open>Varints\<close>

text \<open>
  The loop of \<open>pb_decode_varint32_eof\<close> after the first byte, with its locals
  \<open>bitpos\<close> and \<open>result\<close>.
\<close>

function varint32_loop :: "u8 \<Rightarrow> u32 \<Rightarrow> ('st, u32) iop" where
  "varint32_loop bitpos result s =
     (case pb_readbyte s of
       (None, s') \<Rightarrow> (None, s')
     | (Some byte, s') \<Rightarrow>
         let sign_extension = (if bitpos < 63 then 0xFF else 0x01);
             overflow = (byte AND 0x7F \<noteq> 0 \<and> (drop_bit 31 result = 0 \<or> byte \<noteq> sign_extension)) in
         if bitpos \<ge> 32 \<and> overflow then i_error ''varint overflow'' s'
         else
           let result = (if bitpos \<ge> 32 then result
                 else result OR push_bit (unat bitpos) (ucast (byte AND 0x7F)));
               bitpos = bitpos + 7 in
           if byte AND 0x80 \<noteq> 0 then varint32_loop bitpos result s'
           else if bitpos = 35 \<and> byte AND 0x70 \<noteq> 0 then i_error ''varint overflow'' s'
           else (Some result, s'))"
  by pat_completeness auto
termination varint32_loop
  by (relation "measure (\<lambda>(b, r, s). bytes_left s)") (auto dest: read_less)

declare varint32_loop.simps [simp del]

text \<open>The result, the flag \<open>*eof\<close> if the stream ended before the first byte, and the stream.\<close>

definition pb_decode_varint32_eof :: "'st pb_istream \<Rightarrow> u32 option \<times> bool \<times> 'st pb_istream" where
  "pb_decode_varint32_eof s =
     (case pb_readbyte s of
       (None, s') \<Rightarrow> (None, bytes_left s' = 0, s')
     | (Some byte, s') \<Rightarrow>
         if byte AND 0x80 = 0 then (Some (ucast byte), False, s')
         else case varint32_loop 7 (ucast (byte AND 0x7F)) s' of (r, s'') \<Rightarrow> (r, False, s''))"

definition pb_decode_varint32 :: "('st, u32) iop" where
  "pb_decode_varint32 s = (case pb_decode_varint32_eof s of (r, _, s') \<Rightarrow> (r, s'))"

text \<open>The loop of \<open>pb_decode_varint\<close>, with its locals \<open>bitpos\<close> and \<open>result\<close>.\<close>

function varint_loop :: "u8 \<Rightarrow> u64 \<Rightarrow> ('st, u64) iop" where
  "varint_loop bitpos result s =
     (if bitpos \<ge> 64 then i_error ''varint overflow'' s
      else case pb_readbyte s of
        (None, s') \<Rightarrow> (None, s')
      | (Some byte, s') \<Rightarrow>
          let result = result OR push_bit (unat bitpos) (ucast (byte AND 0x7F));
              bitpos = bitpos + 7 in
          if byte AND 0x80 \<noteq> 0 then varint_loop bitpos result s' else (Some result, s'))"
  by pat_completeness auto
termination varint_loop
  by (relation "measure (\<lambda>(b, r, s). bytes_left s)") (auto dest: read_less)

declare varint_loop.simps [simp del]

definition pb_decode_varint :: "('st, u64) iop" where
  "pb_decode_varint = varint_loop 0 0"

definition pb_decode_svarint :: "('st, 64 word) iop" where
  "pb_decode_svarint = gbind pb_decode_varint (\<lambda>value.
     gret (if value AND 1 \<noteq> 0 then NOT (drop_bit 1 value) else drop_bit 1 value))"

function pb_skip_varint :: "('st, unit) iop" where
  "pb_skip_varint s =
     (case pb_read_buf 1 s of
       (None, s') \<Rightarrow> (None, s')
     | (Some bs, s') \<Rightarrow> if bs ! 0 AND 0x80 \<noteq> 0 then pb_skip_varint s' else (Some (), s'))"
  by pat_completeness auto
termination pb_skip_varint
  by (relation "measure bytes_left") (auto dest: read_less)

declare pb_skip_varint.simps [simp del]

definition pb_skip_string :: "('st, unit) iop" where
  "pb_skip_string = gbind pb_decode_varint32 (\<lambda>len. pb_read_null (unat len))"

section \<open>Tags, values and substreams\<close>

definition PB_WT_VARINT :: u32 where "PB_WT_VARINT = 0"
definition PB_WT_64BIT :: u32 where "PB_WT_64BIT = 1"
definition PB_WT_STRING :: u32 where "PB_WT_STRING = 2"
definition PB_WT_32BIT :: u32 where "PB_WT_32BIT = 5"

lemmas PB_WT_defs = PB_WT_VARINT_def PB_WT_64BIT_def PB_WT_STRING_def PB_WT_32BIT_def

text \<open>The wire type and the tag, the flag \<open>*eof\<close>, and the stream.\<close>

definition pb_decode_tag :: "'st pb_istream \<Rightarrow> (u32 \<times> u32) option \<times> bool \<times> 'st pb_istream" where
  "pb_decode_tag s =
     (case pb_decode_varint32_eof s of
       (None, eof, s') \<Rightarrow> (None, eof, s')
     | (Some temp, _, s') \<Rightarrow>
         if temp = 0 then (None, True, s') else (Some (temp AND 7, drop_bit 3 temp), False, s'))"

definition pb_skip_field :: "u32 \<Rightarrow> ('st, unit) iop" where
  "pb_skip_field wire_type =
     (if wire_type = PB_WT_VARINT then pb_skip_varint
      else if wire_type = PB_WT_64BIT then pb_read_null 8
      else if wire_type = PB_WT_STRING then pb_skip_string
      else if wire_type = PB_WT_32BIT then pb_read_null 4
      else i_error ''invalid wire_type'')"

text \<open>The varint branch of \<open>read_raw_value\<close>, with the bytes read so far.\<close>

fun raw_varint_loop :: "nat \<Rightarrow> bytes \<Rightarrow> ('st, bytes) iop" where
  "raw_varint_loop 0 buf s = (None, s)"
| "raw_varint_loop (Suc room) buf s =
     (case pb_read_buf 1 s of
       (None, s') \<Rightarrow> (None, s')
     | (Some bs, s') \<Rightarrow>
         if bs ! 0 AND 0x80 \<noteq> 0 then raw_varint_loop room (buf @ [bs ! 0]) s' else (Some (buf @ [bs ! 0]), s'))"

definition read_raw_value :: "u32 \<Rightarrow> nat \<Rightarrow> ('st, bytes) iop" where
  "read_raw_value wire_type maximum =
     (if wire_type = PB_WT_VARINT then raw_varint_loop maximum []
      else if wire_type = PB_WT_64BIT then pb_read_buf 8
      else if wire_type = PB_WT_32BIT then pb_read_buf 4
      else i_error ''invalid wire_type'')"

definition pb_make_string_substream :: "('st, 'st pb_istream) iop" where
  "pb_make_string_substream = gbind pb_decode_varint32 (\<lambda>size s.
     let substream = s in
     if bytes_left substream < unat size then i_error ''parent stream too short'' s
     else (Some (substream\<lparr>bytes_left := unat size\<rparr>), s\<lparr>bytes_left := bytes_left s - unat size\<rparr>))"

text \<open>
  What a callback reads from is shared by a stream and its substream, so it has moved even where
  the parent does not take over the state of the substream.
\<close>

definition shared_source :: "'st pb_istream \<Rightarrow> 'st pb_istream \<Rightarrow> 'st pb_istream" where
  "shared_source substream s = s\<lparr>i_src := (case i_src substream of Buf_read _ \<Rightarrow> i_src s | k \<Rightarrow> k)\<rparr>"

text \<open>The state of the parent stream is taken over from the substream when the skip succeeds.\<close>

definition pb_close_string_substream :: "'st pb_istream \<Rightarrow> ('st, unit) iop" where
  "pb_close_string_substream substream s =
     (case (if bytes_left substream \<noteq> 0 then pb_read_null (bytes_left substream) substream else (Some (), substream)) of
       (None, substream) \<Rightarrow> (None, shared_source substream s)
     | (Some _, substream) \<Rightarrow> (Some (), s\<lparr>i_src := i_src substream, i_errmsg := i_errmsg substream\<rparr>))"

definition pb_decode_fixed32 :: "('st, u32) iop" where
  "pb_decode_fixed32 = gbind (pb_read_buf 4) (\<lambda>bs. gret
     (push_bit 0 (ucast (bs ! 0)) OR push_bit 8 (ucast (bs ! 1)) OR push_bit 16 (ucast (bs ! 2))
        OR push_bit 24 (ucast (bs ! 3))))"

definition pb_decode_fixed64 :: "('st, u64) iop" where
  "pb_decode_fixed64 = gbind (pb_read_buf 8) (\<lambda>bs. gret
     (push_bit 0 (ucast (bs ! 0)) OR push_bit 8 (ucast (bs ! 1)) OR push_bit 16 (ucast (bs ! 2))
        OR push_bit 24 (ucast (bs ! 3)) OR push_bit 32 (ucast (bs ! 4)) OR push_bit 40 (ucast (bs ! 5))
        OR push_bit 48 (ucast (bs ! 6)) OR push_bit 56 (ucast (bs ! 7))))"

definition pb_dec_bool :: "('st, bool) iop" where
  "pb_dec_bool = gbind pb_decode_varint32 (\<lambda>value. gret (value \<noteq> 0))"

definition pb_decode_bool :: "('st, bool) iop" where
  "pb_decode_bool = pb_dec_bool"

section \<open>Writing\<close>

definition pb_ostream_from_buffer :: "bytes \<Rightarrow> nat \<Rightarrow> 'st pb_ostream" where
  "pb_ostream_from_buffer buf bufsize =
     \<lparr>o_sink = Buf_write buf 0, max_size = bufsize, bytes_written = 0, o_errmsg = None\<rparr>"

definition PB_OSTREAM_SIZING :: "'st pb_ostream" where
  "PB_OSTREAM_SIZING = \<lparr>o_sink = Null_sink, max_size = 0, bytes_written = 0, o_errmsg = None\<rparr>"

definition buf_write :: "bytes \<Rightarrow> nat \<Rightarrow> bytes \<Rightarrow> bytes \<times> nat" where
  "buf_write mem pos buf = (put_bytes pos buf mem, pos + length buf)"

text \<open>The call through \<open>stream->callback\<close>.\<close>

definition o_call :: "bytes \<Rightarrow> 'st osink \<Rightarrow> bool \<times> 'st osink" where
  "o_call buf k = (case k of
     Null_sink \<Rightarrow> (True, Null_sink)
   | Buf_write mem pos \<Rightarrow> (case buf_write mem pos buf of (mem, pos) \<Rightarrow> (True, Buf_write mem pos))
   | Ocallback f st \<Rightarrow> (case f st buf of (ok, st) \<Rightarrow> (ok, Ocallback f st)))"

definition pb_write :: "bytes \<Rightarrow> ('st, unit) oop" where
  "pb_write buf s =
     (if length buf > 0 \<and> o_sink s \<noteq> Null_sink then
        if size_add (bytes_written s) (length buf) < bytes_written s
          \<or> size_add (bytes_written s) (length buf) > max_size s
        then o_error ''stream full'' s
        else case o_call buf (o_sink s) of
          (False, k) \<Rightarrow> o_error ''io error'' (s\<lparr>o_sink := k\<rparr>)
        | (True, k) \<Rightarrow> (Some (), s\<lparr>o_sink := k, bytes_written := size_add (bytes_written s) (length buf)\<rparr>)
      else (Some (), s\<lparr>bytes_written := size_add (bytes_written s) (length buf)\<rparr>))"

text \<open>The loop of \<open>pb_encode_varint\<close>: the bytes it stores.\<close>

function varint_store_loop :: "u64 \<Rightarrow> bytes" where
  "varint_store_loop value =
     (if value \<noteq> 0 then (ucast (value AND 0x7F) OR 0x80) # varint_store_loop (drop_bit 7 value) else [])"
  by pat_completeness auto
termination varint_store_loop
proof (relation "measure unat")
  fix v :: u64 assume "v \<noteq> 0"
  then have "0 < unat v" by (simp add: unat_gt_0)
  then show "(drop_bit 7 v, v) \<in> measure unat" by (simp add: unat_drop_bit_eq) (simp add: drop_bit_eq_div)
qed simp

declare varint_store_loop.simps [simp del]

definition pb_encode_varint :: "u64 \<Rightarrow> ('st, unit) oop" where
  "pb_encode_varint value =
     (if value \<le> 0x7F then pb_write [ucast value]
      else let buffer = varint_store_loop value; i = length buffer in
        pb_write (buffer[i - 1 := buffer ! (i - 1) AND 0x7F]))"

definition pb_encode_svarint :: "64 word \<Rightarrow> ('st, unit) oop" where
  "pb_encode_svarint value =
     (let zigzagged = (if value <s 0 then NOT (push_bit 1 value) else push_bit 1 value) in pb_encode_varint zigzagged)"

definition pb_encode_fixed32 :: "u32 \<Rightarrow> ('st, unit) oop" where
  "pb_encode_fixed32 val = pb_write [ucast (val AND 0xFF), ucast (drop_bit 8 val AND 0xFF),
     ucast (drop_bit 16 val AND 0xFF), ucast (drop_bit 24 val AND 0xFF)]"

definition pb_encode_fixed64 :: "u64 \<Rightarrow> ('st, unit) oop" where
  "pb_encode_fixed64 val = pb_write [ucast (val AND 0xFF), ucast (drop_bit 8 val AND 0xFF),
     ucast (drop_bit 16 val AND 0xFF), ucast (drop_bit 24 val AND 0xFF),
     ucast (drop_bit 32 val AND 0xFF), ucast (drop_bit 40 val AND 0xFF),
     ucast (drop_bit 48 val AND 0xFF), ucast (drop_bit 56 val AND 0xFF)]"

definition pb_encode_tag :: "u32 \<Rightarrow> u32 \<Rightarrow> ('st, unit) oop" where
  "pb_encode_tag wiretype field_number =
     (let tag = push_bit 3 (ucast field_number) OR ucast wiretype :: u64 in pb_encode_varint tag)"

text \<open>The size of the string is a \<open>size_t\<close>.\<close>

definition pb_encode_string :: "bytes \<Rightarrow> ('st, unit) oop" where
  "pb_encode_string buffer = gbind (pb_encode_varint (of_nat (length buffer))) (\<lambda>_. pb_write buffer)"

section \<open>Streams in memory\<close>

abbreviation ibuf :: "bytes \<Rightarrow> nat \<Rightarrow> string option \<Rightarrow> 'st pb_istream" where
  "ibuf bs n e \<equiv> \<lparr>i_src = Buf_read bs, bytes_left = n, i_errmsg = e\<rparr>"

lemma pb_readbyte_ibuf [simp]: "pb_readbyte (ibuf (b # bs) (Suc n) e) = (Some b, ibuf bs n e)"
  by (simp add: pb_readbyte_def i_call_def buf_read_def)

lemma pb_read_buf_ibuf: "n \<le> m \<Longrightarrow> pb_read_buf n (ibuf bs m e) = (Some (take n bs), ibuf (drop n bs) (m - n) e)"
  by (simp add: pb_read_buf_def i_call_def buf_read_def)

lemma pb_read_null_ibuf: "n \<le> m \<Longrightarrow> pb_read_null n (ibuf bs m e) = (Some (), ibuf (drop n bs) (m - n) e)"
  by (simp add: pb_read_null_def)

section \<open>Varints as bytes\<close>

text \<open>The canonical varint of a value.\<close>

function varint_bytes :: "u64 \<Rightarrow> bytes" where
  "varint_bytes v = (if v \<le> 0x7F then [ucast v] else (ucast (v AND 0x7F) OR 0x80) # varint_bytes (drop_bit 7 v))"
  by pat_completeness auto
termination varint_bytes
proof (relation "measure unat")
  fix v :: u64 assume "\<not> v \<le> 0x7F"
  then have "0 < unat v" by (cases "v = 0") (auto simp: unat_gt_0)
  then show "(drop_bit 7 v, v) \<in> measure unat" by (simp add: unat_drop_bit_eq) (simp add: drop_bit_eq_div)
qed simp

declare varint_bytes.simps [simp del]

lemma unat_drop7: "unat (drop_bit 7 (v :: u64)) = unat v div 128"
  by (simp add: unat_drop_bit_eq) (simp add: drop_bit_eq_div)

lemma varint_bytes_small: "v \<le> 0x7F \<Longrightarrow> varint_bytes v = [ucast v]"
  by (simp add: varint_bytes.simps)

lemma varint_bytes_big: "\<not> v \<le> 0x7F \<Longrightarrow> varint_bytes v = (ucast (v AND 0x7F) OR 0x80) # varint_bytes (drop_bit 7 v)"
  by (simp add: varint_bytes.simps [of v])

lemma big_unat: "\<not> v \<le> 0x7F \<longleftrightarrow> 128 \<le> unat v" for v :: u64
  by (auto simp: word_le_nat_alt)

lemma small_drop7: "v \<le> 0x7F \<longleftrightarrow> drop_bit 7 v = 0" for v :: u64
proof -
  have "v \<le> 0x7F \<longleftrightarrow> unat v div 128 = 0" by (auto simp: div_eq_0_iff word_le_nat_alt)
  also have "\<dots> \<longleftrightarrow> drop_bit 7 v = 0" by (simp add: unsigned_eq_0_iff flip: unat_drop7)
  finally show ?thesis .
qed

lemma ucast_and7: "ucast (v AND 0x7F) = (ucast v AND 0x7F :: u8)" for v :: u64
  by (simp add: unsigned_and_eq)

lemma low_byte_mask:
  "(ucast (v AND 0x7F) OR 0x80) AND 0x7F = (ucast (v AND 0x7F) :: u8)"
  "(ucast (v AND 0x7F) OR 0x80) AND 0x80 = (0x80 :: u8)" for v :: u64
  by (simp_all add: ucast_and7 bit.conj_disj_distrib2 and.assoc)

lemma small_and7: "v \<le> 0x7F \<Longrightarrow> v AND 0x7F = v" for v :: u64
proof -
  assume "v \<le> 0x7F"
  then have "unat v < 2 ^ 7" by (simp add: word_le_nat_alt)
  then have "unat (take_bit 7 v) = unat v" by (simp add: unsigned_take_bit_eq take_bit_nat_eq_self)
  then have "take_bit 7 v = v" by (simp only: unsigned_word_eqI)
  then show ?thesis by (simp add: take_bit_eq_mask mask_eq_exp_minus_1)
qed

lemma small_byte: "v \<le> 0x7F \<Longrightarrow> (ucast v :: u8) AND 0x7F = ucast v \<and> (ucast v :: u8) AND 0x80 = 0" for v :: u64
proof -
  assume "v \<le> 0x7F"
  then have eq: "(ucast v :: u8) = ucast v AND 0x7F" using ucast_and7 [of v] by (simp add: small_and7)
  have "(ucast v AND 0x7F) AND 0x80 = (0 :: u8)" by (simp add: and.assoc)
  then show ?thesis by (simp only: eq [symmetric] simp_thms)
qed

lemma varint_store_loop_bytes:
  assumes "v \<noteq> 0"
  shows "(varint_store_loop v)[length (varint_store_loop v) - 1 :=
      varint_store_loop v ! (length (varint_store_loop v) - 1) AND 0x7F] = varint_bytes v \<and> varint_store_loop v \<noteq> []"
  using assms
proof (induction v rule: varint_store_loop.induct)
  case (1 v)
  let ?b = "ucast (v AND 0x7F) OR 0x80 :: u8" and ?rest = "varint_store_loop (drop_bit 7 v)"
  have st: "varint_store_loop v = ?b # ?rest" using 1(2) by (simp add: varint_store_loop.simps [of v])
  show ?case
  proof (cases "v \<le> 0x7F")
    case True
    then have "?rest = []" by (simp add: small_drop7 varint_store_loop.simps [of 0])
    moreover have "(ucast v OR 0x80) AND 0x7F = (ucast v :: u8)"
      using low_byte_mask(1) [of v] by (simp add: small_and7 [OF True])
    ultimately show ?thesis using True st by (simp add: varint_bytes_small small_and7)
  next
    case False
    then have "drop_bit 7 v \<noteq> 0" by (simp add: small_drop7)
    with 1 have "?rest[length ?rest - 1 := ?rest ! (length ?rest - 1) AND 0x7F] = varint_bytes (drop_bit 7 v)" "?rest \<noteq> []"
      by simp_all
    moreover obtain k where "length ?rest = Suc k" using calculation(2) by (cases "length ?rest") simp_all
    ultimately show ?thesis unfolding st varint_bytes_big [OF False] by simp
  qed
qed

lemma pb_encode_varint_write: "pb_encode_varint v = pb_write (varint_bytes v)"
proof (cases "v \<le> 0x7F")
  case False
  then have "v \<noteq> 0" by auto
  from varint_store_loop_bytes [OF this, THEN conjunct1] show ?thesis
    unfolding pb_encode_varint_def Let_def if_not_P [OF False] by (rule arg_cong)
qed (simp add: pb_encode_varint_def varint_bytes_small)

lemma length_varint_bytes: "unat v < 2 ^ (7 * Suc k) \<Longrightarrow> length (varint_bytes v) \<le> Suc k"
proof (induction k arbitrary: v)
  case 0
  then show ?case by (simp add: varint_bytes_small word_le_nat_alt)
next
  case (Suc k)
  show ?case
  proof (cases "v \<le> 0x7F")
    case False
    have "unat (drop_bit 7 v) < 2 ^ (7 * Suc k)"
      using Suc.prems by (simp add: unat_drop7 less_mult_imp_div_less power_add)
    from Suc.IH [OF this] False show ?thesis by (simp add: varint_bytes_big)
  qed (simp add: varint_bytes_small)
qed

section \<open>Decoding varints\<close>

lemma of_nat_u8: "p < 256 \<Longrightarrow> unat (of_nat p :: u8) = p"
  by (simp add: unsigned_of_nat take_bit_nat_eq_self)

lemma of_nat_u8_less: "p < 256 \<Longrightarrow> m < 256 \<Longrightarrow> (of_nat p :: u8) < of_nat m \<longleftrightarrow> p < m"
  by (simp add: word_less_nat_alt of_nat_u8)

lemma of_nat_u8_eq: "p < 256 \<Longrightarrow> m < 256 \<Longrightarrow> (of_nat p :: u8) = of_nat m \<longleftrightarrow> p = m"
  by (metis of_nat_u8)

text \<open>One round of the two loops, with the position as a number.\<close>

lemma varint_loop_step:
  assumes "p < 64"
  shows "varint_loop (of_nat p) r (ibuf (b # bs) (Suc n) e) =
    (if b AND 0x80 \<noteq> 0 then varint_loop (of_nat (p + 7)) (r OR push_bit p (ucast (b AND 0x7F))) (ibuf bs n e)
     else (Some (r OR push_bit p (ucast (b AND 0x7F))), ibuf bs n e))"
proof -
  have "\<not> 64 \<le> (of_nat p :: u8)" using of_nat_u8_less [of p 64] assms by simp
  then show ?thesis using assms by (subst varint_loop.simps) (simp add: of_nat_u8 add.commute)
qed

definition overflow32 :: "nat \<Rightarrow> u32 \<Rightarrow> u8 \<Rightarrow> bool" where
  "overflow32 p r b \<longleftrightarrow> p \<ge> 32 \<and> b AND 0x7F \<noteq> 0 \<and> (drop_bit 31 r = 0 \<or> b \<noteq> (if p < 63 then 0xFF else 1))"

definition result32 :: "nat \<Rightarrow> u32 \<Rightarrow> u8 \<Rightarrow> u32" where
  "result32 p r b = (if p \<ge> 32 then r else r OR push_bit p (ucast (b AND 0x7F)))"

lemma varint32_loop_step:
  assumes "p < 249"
  shows "varint32_loop (of_nat p) r (ibuf (b # bs) (Suc n) e) =
    (if overflow32 p r b then i_error ''varint overflow'' (ibuf bs n e)
     else if b AND 0x80 \<noteq> 0 then varint32_loop (of_nat (p + 7)) (result32 p r b) (ibuf bs n e)
     else if p = 28 \<and> b AND 0x70 \<noteq> 0 then i_error ''varint overflow'' (ibuf bs n e)
     else (Some (result32 p r b), ibuf bs n e))"
proof -
  have le: "32 \<le> (of_nat p :: u8) \<longleftrightarrow> 32 \<le> p" "(of_nat p :: u8) < 63 \<longleftrightarrow> p < 63"
    using of_nat_u8_less [of p 32] of_nat_u8_less [of p 63] assms by (simp_all flip: not_less)
  have "(of_nat p :: u8) + 7 = 35 \<longleftrightarrow> (of_nat (p + 7) :: u8) = of_nat 35" by (simp add: add.commute)
  also have "\<dots> \<longleftrightarrow> p = 28" using assms by (subst of_nat_u8_eq) auto
  finally have e: "(of_nat p :: u8) + 7 = 35 \<longleftrightarrow> p = 28" .
  have a: "(of_nat (p + 7) :: u8) = of_nat p + 7" by (simp add: add.commute)
  show ?thesis
    unfolding a using assms
    by (subst varint32_loop.simps) (auto simp: le e overflow32_def result32_def of_nat_u8 Let_def)
qed

lemma push_bit_parts: "push_bit p (v AND 0x7F) OR push_bit (p + 7) (drop_bit 7 v) = push_bit p v" for v :: "'a::len word"
proof -
  have "v AND mask 7 OR push_bit 7 (drop_bit 7 v) = v"
  proof (rule bit_eqI)
    fix n show "bit (v AND mask 7 OR push_bit 7 (drop_bit 7 v)) n = bit v n"
      by (cases "n < 7") (auto simp: bit_simps dest: bit_imp_le_length)
  qed
  then have "push_bit p (v AND mask 7 OR push_bit 7 (drop_bit 7 v)) = push_bit p v" by (rule arg_cong)
  then show ?thesis by (simp add: mask_eq_exp_minus_1 push_bit_or)
qed

lemma ucast_low_byte: "ucast (ucast (v AND 0x7F) :: u8) = v AND 0x7F" for v :: u64
proof -
  have "ucast (ucast (v AND mask 7) :: u8) = v AND mask 7" by (rule bit_eqI) (auto simp: bit_simps)
  then show ?thesis by (simp add: mask_eq_exp_minus_1)
qed

lemma varint_loop_bytes:
  "p < 64 \<Longrightarrow> unat v < 2 ^ (64 - p) \<Longrightarrow>
     varint_loop (of_nat p) r (ibuf (varint_bytes v @ rest) (length (varint_bytes v) + n) e)
       = (Some (r OR push_bit p v), ibuf rest n e)"
proof (induction v arbitrary: p r rule: varint_bytes.induct)
  case (1 v)
  show ?case
  proof (cases "v \<le> 0x7F")
    case True
    have "ucast (ucast v :: u8) = v" using ucast_low_byte [of v] by (simp add: small_and7 [OF True])
    with True 1(2) show ?thesis by (simp add: varint_bytes_small varint_loop_step small_byte)
  next
    case False
    then have "2 ^ 7 \<le> unat v" by (simp add: big_unat)
    with 1(3) have "(2 :: nat) ^ 7 < 2 ^ (64 - p)" by linarith
    then have p: "p + 7 < 64" using power_less_imp_less_exp [of "2 :: nat" 7 "64 - p"] by simp
    have "2 ^ (64 - p) = 2 ^ (64 - (p + 7)) * (128 :: nat)"
      using p power_add [of "2 :: nat" "64 - (p + 7)" 7] by simp
    then have v: "unat (drop_bit 7 v) < 2 ^ (64 - (p + 7))"
      using 1(3) by (simp add: unat_drop7 less_mult_imp_div_less)
    have "(r OR push_bit p (v AND 0x7F)) OR push_bit (p + 7) (drop_bit 7 v) = r OR push_bit p v"
      unfolding or.assoc push_bit_parts ..
    with 1(1) [OF False p v] False 1(2) show ?thesis
      by (simp add: varint_bytes_big varint_loop_step low_byte_mask ucast_low_byte)
  qed
qed

lemma pb_decode_varint_bytes:
  "pb_decode_varint (ibuf (varint_bytes v @ rest) (length (varint_bytes v) + n) e) = (Some v, ibuf rest n e)"
proof -
  have "unat v < 2 ^ 64" using unsigned_less [of v, where ?'a = nat] by simp
  then show ?thesis
    using varint_loop_bytes [of 0 v 0] by (simp add: pb_decode_varint_def)
qed

section \<open>Decoding varints to 32 bits\<close>

lemma push_bit_parts32:
  "push_bit p (ucast (ucast (v AND 0x7F) :: u8)) OR push_bit (p + 7) (ucast (drop_bit 7 v)) = push_bit p (ucast v :: u32)"
  for v :: u64
proof -
  have "ucast (ucast (v AND mask 7) :: u8) OR push_bit 7 (ucast (drop_bit 7 v)) = (ucast v :: u32)"
  proof (rule bit_eqI)
    fix n show "bit (ucast (ucast (v AND mask 7) :: u8) OR push_bit 7 (ucast (drop_bit 7 v)) :: u32) n = bit (ucast v :: u32) n"
      by (cases "n < 7") (auto simp: bit_simps)
  qed
  then have "push_bit p (ucast (ucast (v AND mask 7) :: u8) OR push_bit 7 (ucast (drop_bit 7 v))) = push_bit p (ucast v :: u32)"
    by (rule arg_cong)
  then show ?thesis by (simp add: mask_eq_exp_minus_1 push_bit_or)
qed

lemma and_mask_small: "unat v < 2 ^ k \<Longrightarrow> v AND mask k = v" for v :: "'a::len word"
proof -
  assume "unat v < 2 ^ k"
  then have "unat (take_bit k v) = unat v" by (simp add: unsigned_take_bit_eq take_bit_nat_eq_self)
  then show ?thesis by (simp only: take_bit_eq_mask [symmetric] unsigned_word_eqI)
qed

lemma top_bits_28: "v \<le> 0x7F \<Longrightarrow> (ucast v :: u8) AND 0x70 = 0 \<longleftrightarrow> unat v < 16" for v :: u64
proof
  assume v: "v \<le> 0x7F" and z: "(ucast v :: u8) AND 0x70 = 0"
  have "(ucast v :: u8) = ucast v AND (0x70 OR 0x0F)" using small_byte [OF v] by simp
  also have "\<dots> = ucast v AND 0x0F" unfolding bit.conj_disj_distrib z by simp
  finally have "(ucast v :: u8) = ucast v AND mask 4" by (simp add: mask_eq_exp_minus_1)
  then have eq: "unat (ucast v :: u8) = unat (take_bit 4 (ucast v :: u8))" by (simp only: take_bit_eq_mask)
  have "unat (take_bit 4 (ucast v :: u8)) < 2 ^ 4" unfolding unsigned_take_bit_eq by (rule take_bit_nat_less_exp)
  then have "unat (ucast v :: u8) < 16" unfolding eq [symmetric] by simp
  moreover have "unat (ucast v :: u8) = unat v"
    using v by (simp add: unsigned_ucast_eq take_bit_nat_eq_self word_le_nat_alt)
  ultimately show "unat v < 16" by simp
next
  assume "v \<le> 0x7F" and "unat v < 16"
  then have "v AND mask 4 = v" by (intro and_mask_small) simp
  moreover have "ucast (v AND 0x0F) = (ucast v AND 0x0F :: u8)" by (simp add: unsigned_and_eq)
  ultimately have "(ucast v :: u8) = ucast v AND 0x0F" by (simp add: mask_eq_exp_minus_1)
  moreover have "(ucast v AND 0x0F) AND 0x70 = (0 :: u8)" by (simp add: and.assoc)
  ultimately show "(ucast v :: u8) AND 0x70 = 0" by simp
qed

lemma varint32_loop_fits:
  "p \<in> {7, 14, 21, 28} \<Longrightarrow> unat v < 2 ^ (32 - p) \<Longrightarrow>
     varint32_loop (of_nat p) r (ibuf (varint_bytes v @ rest) (length (varint_bytes v) + n) e :: 'st pb_istream)
       = (Some (r OR push_bit p (ucast v)), ibuf rest n e)"
proof (induction v arbitrary: p r rule: varint_bytes.induct)
  case (1 v)
  show ?case
  proof (cases "v \<le> 0x7F")
    case True
    have "p = 28 \<Longrightarrow> (ucast v :: u8) AND 0x70 = 0" using 1(3) by (simp add: top_bits_28 [OF True])
    moreover have "ucast (ucast v :: u8) = (ucast v :: u32)"
      using push_bit_parts32 [of 0 v] True by (simp add: small_and7 small_drop7 [THEN iffD1])
    moreover have "p < 249" "\<not> 32 \<le> p" using 1(2) by auto
    ultimately show ?thesis using True
      by (auto simp: varint_bytes_small varint32_loop_step small_byte overflow32_def result32_def)
  next
    case False
    then have "2 ^ 7 \<le> unat v" by (simp add: big_unat)
    with 1(3) have "(2 :: nat) ^ 7 < 2 ^ (32 - p)" by linarith
    then have "7 < 32 - p" using power_less_imp_less_exp [of "2 :: nat" 7 "32 - p"] by simp
    with 1(2) have p: "p + 7 \<in> {7, 14, 21, 28}" by auto
    then have "2 ^ (32 - p) = 2 ^ (32 - (p + 7)) * (128 :: nat)"
      using power_add [of "2 :: nat" "32 - (p + 7)" 7] by auto
    then have v: "unat (drop_bit 7 v) < 2 ^ (32 - (p + 7))"
      using 1(3) by (simp add: unat_drop7 less_mult_imp_div_less)
    have "(r OR push_bit p (ucast (ucast (v AND 0x7F) :: u8))) OR push_bit (p + 7) (ucast (drop_bit 7 v)) = r OR push_bit p (ucast v)"
      unfolding or.assoc push_bit_parts32 ..
    moreover have "varint32_loop (of_nat p) r (ibuf (varint_bytes v @ rest) (length (varint_bytes v) + n) e :: 'st pb_istream)
        = varint32_loop (of_nat (p + 7)) (r OR push_bit p (ucast (ucast (v AND 0x7F) :: u8)))
            (ibuf (varint_bytes (drop_bit 7 v) @ rest) (length (varint_bytes (drop_bit 7 v)) + n) e :: 'st pb_istream)"
    proof -
      have "p < 249" "\<not> 32 \<le> p" using 1(2) by auto
      with False show ?thesis by (simp add: varint_bytes_big varint32_loop_step low_byte_mask overflow32_def result32_def)
    qed
    ultimately show ?thesis using 1(1) [OF False p v] by (simp only:)
  qed
qed

text \<open>Past the bits that fit, a positive value is rejected.\<close>

lemma varint32_loop_tail:
  "32 \<le> p \<Longrightarrow> p \<le> 63 \<Longrightarrow> v \<noteq> 0 \<Longrightarrow> unat v < 2 ^ (63 - p) \<Longrightarrow>
     fst (varint32_loop (of_nat p) r (ibuf (varint_bytes v @ rest) (length (varint_bytes v) + n) e :: 'st pb_istream)) = None"
proof (induction v arbitrary: p r rule: varint_bytes.induct)
  case (1 v)
  have p: "p < 63" using 1(3-5) by (cases "p = 63") (simp_all add: unat_eq_zero)
  show ?case
  proof (cases "v \<le> 0x7F")
    case True
    have "(ucast v :: u8) AND 0x7F \<noteq> 0"
    proof
      assume "(ucast v :: u8) AND 0x7F = 0"
      then have "unat (ucast v :: u8) = 0" using small_byte [OF True] by simp
      moreover have "unat (ucast v :: u8) = unat v"
        using True by (simp add: unsigned_ucast_eq take_bit_nat_eq_self word_le_nat_alt)
      ultimately show False using 1(4) by (simp add: unat_eq_zero)
    qed
    moreover have "(ucast v :: u8) \<noteq> 0xFF" using small_byte [OF True] by auto
    ultimately have "overflow32 p r (ucast v)" using 1(2) p by (simp add: overflow32_def)
    with True p show ?thesis by (simp add: varint_bytes_small varint32_loop_step i_error_def)
  next
    case False
    then have "2 ^ 7 \<le> unat v" by (simp add: big_unat)
    with 1(5) have "(2 :: nat) ^ 7 < 2 ^ (63 - p)" by linarith
    then have p7: "p + 7 \<le> 63" using power_less_imp_less_exp [of "2 :: nat" 7 "63 - p"] by simp
    have "2 ^ (63 - p) = 2 ^ (63 - (p + 7)) * (128 :: nat)"
      using p7 power_add [of "2 :: nat" "63 - (p + 7)" 7] by simp
    then have v: "unat (drop_bit 7 v) < 2 ^ (63 - (p + 7))"
      using 1(5) by (simp add: unat_drop7 less_mult_imp_div_less)
    have nz: "drop_bit 7 v \<noteq> 0" using False by (simp add: small_drop7)
    have p32: "32 \<le> p + 7" using 1(2) by simp
    from 1(1) [OF False p32 p7 nz v] have rest: "fst (varint32_loop (of_nat (p + 7)) (result32 p r x)
        (ibuf (varint_bytes (drop_bit 7 v) @ rest) (length (varint_bytes (drop_bit 7 v)) + n) e :: 'st pb_istream)) = None" for x
      by simp
    have "varint32_loop (of_nat p) r (ibuf (varint_bytes v @ rest) (length (varint_bytes v) + n) e :: 'st pb_istream)
      = (if overflow32 p r (ucast (v AND 0x7F) OR 0x80)
         then i_error ''varint overflow'' (ibuf (varint_bytes (drop_bit 7 v) @ rest) (length (varint_bytes (drop_bit 7 v)) + n) e :: 'st pb_istream)
         else varint32_loop (of_nat (p + 7)) (result32 p r (ucast (v AND 0x7F) OR 0x80))
            (ibuf (varint_bytes (drop_bit 7 v) @ rest) (length (varint_bytes (drop_bit 7 v)) + n) e :: 'st pb_istream))"
      using False p by (simp add: varint_bytes_big varint32_loop_step low_byte_mask)
    with rest show ?thesis by (simp only: i_error_def split: if_split) simp
  qed
qed

lemma varint32_loop_large:
  "p \<in> {7, 14, 21, 28} \<Longrightarrow> 2 ^ (32 - p) \<le> unat v \<Longrightarrow> unat v < 2 ^ (63 - p) \<Longrightarrow>
     fst (varint32_loop (of_nat p) r (ibuf (varint_bytes v @ rest) (length (varint_bytes v) + n) e :: 'st pb_istream)) = None"
proof (induction v arbitrary: p r rule: varint_bytes.induct)
  case (1 v)
  have p: "p < 249" "\<not> 32 \<le> p" "p \<le> 28" using 1(2) by auto
  show ?case
  proof (cases "v \<le> 0x7F")
    case True
    then have "unat v < 2 ^ 7" by (simp add: word_le_nat_alt)
    with 1(3) have "(2 :: nat) ^ (32 - p) < 2 ^ 7" by linarith
    then have "32 - p < 7" by (rule power_less_imp_less_exp [rotated]) simp
    with 1(2) have p28: "p = 28" by auto
    with 1(3) have "(ucast v :: u8) AND 0x70 \<noteq> 0" by (simp add: top_bits_28 [OF True])
    then have "varint32_loop (of_nat p) r (ibuf (ucast v # rest) (Suc n) e :: 'st pb_istream)
        = i_error ''varint overflow'' (ibuf rest n e)"
      using p p28 small_byte [OF True] by (simp only: varint32_loop_step overflow32_def) simp
    then show ?thesis using True by (simp add: varint_bytes_small i_error_def)
  next
    case False
    then have nz: "drop_bit 7 v \<noteq> 0" by (simp add: small_drop7)
    have step: "varint32_loop (of_nat p) r (ibuf (varint_bytes v @ rest) (length (varint_bytes v) + n) e :: 'st pb_istream)
      = varint32_loop (of_nat (p + 7)) (result32 p r (ucast (v AND 0x7F) OR 0x80))
            (ibuf (varint_bytes (drop_bit 7 v) @ rest) (length (varint_bytes (drop_bit 7 v)) + n) e :: 'st pb_istream)"
      using False p by (simp add: varint_bytes_big varint32_loop_step low_byte_mask overflow32_def)
    have hi: "unat (drop_bit 7 v) < 2 ^ (63 - (p + 7))"
    proof -
      have "2 ^ (63 - p) = 2 ^ (63 - (p + 7)) * (128 :: nat)"
        using p power_add [of "2 :: nat" "63 - (p + 7)" 7] by simp
      then show ?thesis using 1(4) by (simp add: unat_drop7 less_mult_imp_div_less)
    qed
    show ?thesis
    proof (cases "p = 28")
      case True
      then show ?thesis unfolding step using hi nz by (intro varint32_loop_tail) simp_all
    next
      case p28: False
      with 1(2) have p7: "p + 7 \<in> {7, 14, 21, 28}" by auto
      then have "2 ^ (32 - p) = 2 ^ (32 - (p + 7)) * (128 :: nat)"
        using power_add [of "2 :: nat" "32 - (p + 7)" 7] by auto
      then have "2 ^ (32 - (p + 7)) \<le> unat (drop_bit 7 v)"
        using 1(3) by (simp add: unat_drop7 less_eq_div_iff_mult_less_eq)
      then show ?thesis unfolding step using hi by (intro 1(1) [OF False p7]) 
    qed
  qed
qed

end
