(* ===== verification/PB_Wire.thy ===== *)
theory PB_Wire
  imports PB_Stream
begin

text \<open>
  What the writing and the reading half of the wire primitives of nanopb promise each
  other. The locale \<open>wire\<close> is the contract of one kind of value: the reader inverts
  the bytes that the writer passes to \<open>pb_write\<close>. It is interpreted for varints,
  32-bit varints, zigzag integers, fixed-width integers and strings; the
  facts about whole sequences of values written into a buffer and read back are
  proved in it once.
\<close>

section \<open>Writing into memory\<close>

abbreviation obuf :: "bytes \<Rightarrow> nat \<Rightarrow> nat \<Rightarrow> string option \<Rightarrow> 'st pb_ostream" where
  "obuf mem n w e \<equiv> \<lparr>o_sink = Buf_write mem w, max_size = n, bytes_written = w, o_errmsg = e\<rparr>"

lemma size_add_limit:
  assumes "w \<le> n" "n < size_mod" "len < size_mod"
  shows "size_add w len < w \<or> size_add w len > n \<longleftrightarrow> n < w + len"
  using size_add_overflow_iff [of w len] size_add_exact [of w len] assms by (cases "w + len < size_mod") auto

lemma put_bytes_Nil [simp]: "put_bytes i [] m = m"
  by (simp add: put_bytes_def)

lemma put_bytes_twice:
  assumes "i + length a \<le> length m"
  shows "put_bytes (i + length a) b (put_bytes i a m) = put_bytes i (a @ b) m"
  using assms by (simp add: put_bytes_def min_absorb1 ac_simps)

lemma pb_write_obuf:
  assumes "w \<le> n" "n < size_mod" "length bs < size_mod"
  shows "pb_write bs (obuf mem n w e) =
    (if w + length bs \<le> n then (Some (), obuf (put_bytes w bs mem) n (w + length bs) e)
     else o_error ''stream full'' (obuf mem n w e))"
  using assms size_add_limit [OF assms] size_add_exact [of w "length bs"]
  by (cases "bs = []") (auto simp: pb_write_def o_call_def buf_write_def)

lemma pb_write_sizing:
  "pb_write bs \<lparr>o_sink = Null_sink, max_size = n, bytes_written = w, o_errmsg = e\<rparr> =
    (Some (), \<lparr>o_sink = Null_sink, max_size = n, bytes_written = size_add w (length bs), o_errmsg = e\<rparr>)"
  by (simp add: pb_write_def)

section \<open>Sequences of values\<close>

text \<open>The values of a list one after the other, up to the first failure.\<close>

fun each :: "('a \<Rightarrow> ('s, unit) op) \<Rightarrow> 'a list \<Rightarrow> ('s, unit) op" where
  "each f [] = gret ()"
| "each f (x # xs) = gbind (f x) (\<lambda>_. each f xs)"

lemma each_cong: "(\<And>x. x \<in> set xs \<Longrightarrow> f x = g (h x)) \<Longrightarrow> each f xs = each g (map h xs)"
  by (induction xs) simp_all

lemma each_pb_write:
  assumes "w \<le> n" "n < size_mod" "\<forall>bs \<in> set bss. length bs < size_mod" "n \<le> length mem"
  shows "(w + length (concat bss) \<le> n \<longrightarrow>
      each pb_write bss (obuf mem n w e :: 'st pb_ostream) = (Some (), obuf (put_bytes w (concat bss) mem) n (w + length (concat bss)) e))
    \<and> (n < w + length (concat bss) \<longrightarrow> (\<exists>mem' w'. each pb_write bss (obuf mem n w None :: 'st pb_ostream)
        = (None, obuf mem' n w' (Some ''stream full'')) \<and> w' \<le> n \<and> length mem' = length mem
          \<and> take w mem' = take w mem \<and> drop n mem' = drop n mem))"
  using assms
proof (induction bss arbitrary: w mem)
  case Nil
  then show ?case by (simp add: gret_def)
next
  case (Cons bs bss)
  show ?case
  proof (cases "w + length bs \<le> n")
    case True
    let ?m = "put_bytes w bs mem"
    have m: "length ?m = length mem" "take w ?m = take w mem" "drop n ?m = drop n mem"
      using True Cons.prems by (simp_all add: put_bytes_def min_absorb1)
    have step: "pb_write bs (obuf mem n w e :: 'st pb_ostream) = (Some (), obuf ?m n (w + length bs) e)" for e
      using True Cons.prems by (simp add: pb_write_obuf)
    have join: "put_bytes (w + length bs) (concat bss) ?m = put_bytes w (concat (bs # bss)) mem"
      using True Cons.prems by (simp add: put_bytes_twice)
    have IH: "(w + length bs + length (concat bss) \<le> n \<longrightarrow> each pb_write bss (obuf ?m n (w + length bs) e :: 'st pb_ostream)
        = (Some (), obuf (put_bytes (w + length bs) (concat bss) ?m) n (w + length bs + length (concat bss)) e))
      \<and> (n < w + length bs + length (concat bss) \<longrightarrow> (\<exists>mem' w'. each pb_write bss (obuf ?m n (w + length bs) None :: 'st pb_ostream)
        = (None, obuf mem' n w' (Some ''stream full'')) \<and> w' \<le> n \<and> length mem' = length ?m
          \<and> take (w + length bs) mem' = take (w + length bs) ?m \<and> drop n mem' = drop n ?m))"
      using True Cons.prems by (intro Cons.IH) (simp_all add: m(1))
    have cut: "take (w + length bs) mem' = take (w + length bs) ?m \<Longrightarrow> take w mem' = take w mem" for mem'
      using m(2) by (metis le_add1 min_absorb1 take_take)
    show ?thesis using IH by (auto simp: step join add.assoc m(1,3) dest: cut)
  next
    case False
    then have "pb_write bs (obuf mem n w None :: 'st pb_ostream) = (None, obuf mem n w (Some ''stream full''))"
      using Cons.prems by (simp add: pb_write_obuf o_error_def)
    then show ?thesis using False Cons.prems by auto
  qed
qed

lemma each_pb_write_sizing:
  "each pb_write bss \<lparr>o_sink = Null_sink, max_size = n, bytes_written = w, o_errmsg = e\<rparr> =
    (Some (), \<lparr>o_sink = Null_sink, max_size = n,
      bytes_written = (if bss = [] then w else (w + length (concat bss)) mod size_mod), o_errmsg = e\<rparr>)"
proof (induction bss arbitrary: w)
  case (Cons bs bss)
  then show ?case by (simp add: pb_write_sizing size_add_def mod_add_left_eq add.assoc)
qed (simp add: gret_def)

section \<open>The contract of a kind of value\<close>

definition unread :: "'st pb_istream \<Rightarrow> bytes" where
  "unread s = (case i_src s of Buf_read bs \<Rightarrow> bs | Icallback _ _ \<Rightarrow> [])"

text \<open>A reading function as a parser of a buffer.\<close>

definition istream_get :: "(unit, 'a) iop \<Rightarrow> 'a getter" where
  "istream_get rd bs = (case rd (pb_istream_from_buffer bs (length bs)) of (r, s) \<Rightarrow> (r, unread s))"

lemma each_append: "each f (xs @ ys) = gbind (each f xs) (\<lambda>_. each f ys)"
  by (induction xs) (auto simp: fun_eq_iff gbind_def gret_def split: prod.splits option.splits)

lemma each_each: "each (\<lambda>x. each f (g x)) xs = each f (concat (map g xs))"
  by (induction xs) (simp_all add: each_append)

lemma each_single: "each f [x] = f x"
  by (auto simp: fun_eq_iff gbind_def gret_def split: prod.splits option.splits)

locale wire =
  fixes chunks :: "'a \<Rightarrow> bytes list" and ok :: "'a \<Rightarrow> bool"
    and wr :: "'a \<Rightarrow> (unit, unit) oop" and rd :: "(unit, 'a) iop"
  assumes wr_chunks: "ok x \<Longrightarrow> wr x = each pb_write (chunks x)"
    and rd_chunks: "ok x \<Longrightarrow> rd (ibuf (concat (chunks x) @ rest) (length (concat (chunks x)) + n) e) = (Some x, ibuf rest n e)"
    and chunks_nonempty: "ok x \<Longrightarrow> concat (chunks x) \<noteq> []"
    and chunks_short: "ok x \<Longrightarrow> \<forall>c \<in> set (chunks x). length c < size_mod"

sublocale wire \<subseteq> progress_codec "\<lambda>x. concat (chunks x)" "istream_get rd" ok
proof unfold_locales
  fix x rest assume "ok x"
  from rd_chunks [OF this, of rest "length rest" None]
  show "istream_get rd (concat (chunks x) @ rest) = (Some x, rest)"
    by (simp add: istream_get_def pb_istream_from_buffer_def unread_def)
qed (rule chunks_nonempty)

context wire
begin

definition image :: "'a list \<Rightarrow> bytes" where
  "image xs = concat (map (\<lambda>x. concat (chunks x)) xs)"

lemma image_chunks: "image xs = concat (concat (map chunks xs))"
  by (induction xs) (simp_all add: image_def)

lemma each_wr: "list_all ok xs \<Longrightarrow> each wr xs = each pb_write (concat (map chunks xs))"
  by (induction xs) (simp_all add: wr_chunks each_append)

lemma write_read_all:
  assumes "list_all ok xs" "n \<le> length mem" "n < size_mod"
  shows "if length (image xs) \<le> n
    then \<exists>mem'. each wr xs (pb_ostream_from_buffer mem n) = (Some (), obuf mem' n (length (image xs)) None)
      \<and> drop (length (image xs)) mem' = drop (length (image xs)) mem
      \<and> get_all (istream_get rd) (take (length (image xs)) mem') = Some xs
    else \<exists>mem' w. each wr xs (pb_ostream_from_buffer mem n) = (None, obuf mem' n w (Some ''stream full''))
      \<and> w \<le> n \<and> drop n mem' = drop n mem"
proof -
  have c: "\<forall>bs \<in> set (concat (map chunks xs)). length bs < size_mod"
    using assms(1) chunks_short by (fastforce simp: list_all_iff)
  have g: "get_all (istream_get rd) (image xs) = Some xs" unfolding image_def using assms(1) by (rule get_all_enc)
  show ?thesis
    using each_pb_write [of 0 n "concat (map chunks xs)" mem None, OF _ assms(3) c assms(2)] g assms(2)
    by (auto simp: each_wr [OF assms(1)] image_chunks [symmetric] pb_ostream_from_buffer_def put_bytes_def)
qed

text \<open>A pass over a null sink counts what the writing pass will need.\<close>

lemma sizing_all:
  assumes "list_all ok xs" "length (image xs) < size_mod"
  shows "each wr xs PB_OSTREAM_SIZING = (Some (), PB_OSTREAM_SIZING\<lparr>bytes_written := length (image xs)\<rparr>)"
  using assms(2) unfolding each_wr [OF assms(1)] PB_OSTREAM_SIZING_def each_pb_write_sizing
  by (simp add: image_chunks)

end

section \<open>Varints\<close>

lemma length_varint: "varint_bytes v \<noteq> [] \<and> length (varint_bytes v) \<le> 10"
proof -
  have "unat v < 2 ^ 64" using unsigned_less [of v, where ?'a = nat] by simp
  then have "unat v < 2 ^ (7 * Suc 9)" by simp
  from length_varint_bytes [OF this] show ?thesis by (simp add: varint_bytes.simps [of v])
qed

lemma varint_short: "length (varint_bytes v) < size_mod"
  using length_varint [of v] by (simp add: size_mod_def)

interpretation varint: wire "\<lambda>v. [varint_bytes v]" "\<lambda>_. True" pb_encode_varint pb_decode_varint
  by unfold_locales
    (simp_all add: each_single pb_encode_varint_write pb_decode_varint_bytes length_varint varint_short del: each.simps)

definition zigzag :: "64 word \<Rightarrow> u64" where
  "zigzag v = (if v <s 0 then NOT (push_bit 1 v) else push_bit 1 v)"

lemma bit_zigzag: "bit (zigzag v) n \<longleftrightarrow> n < 64 \<and> (if n = 0 then v <s 0 else bit v (n - 1) \<noteq> (v <s 0))"
proof -
  have "bit (push_bit 1 v) n \<longleftrightarrow> 1 \<le> n \<and> n < 64 \<and> bit v (n - 1)"
    using bit_imp_le_length [of "push_bit 1 v" n] by (simp only: bit_push_bit_iff) (auto dest: bit_imp_le_length)
  then show ?thesis by (cases "n = 0") (auto simp: zigzag_def bit_not_iff exp_eq_zero_iff simp del: push_bit_Suc)
qed

lemma sless_zero: "v <s 0 \<longleftrightarrow> bit v 63" for v :: "64 word"
  using bit_last_iff [of v] by (simp add: word_sless_alt)

lemma unzigzag: "(if zigzag v AND 1 \<noteq> 0 then NOT (drop_bit 1 (zigzag v)) else drop_bit 1 (zigzag v)) = v"
proof -
  have "zigzag v AND 1 \<noteq> 0 \<longleftrightarrow> bit (zigzag v) 0"
    by (simp add: and_one_eq bit_0 odd_iff_mod_2_eq_one even_iff_mod_2_eq_zero)
  then have odd: "zigzag v AND 1 \<noteq> 0 \<longleftrightarrow> v <s 0" by (simp add: bit_zigzag)
  have last: "n < 64 \<Longrightarrow> 63 \<le> n \<Longrightarrow> n = 63" for n :: nat by simp
  show ?thesis unfolding odd
    by (rule bit_eqI) (auto simp: bit_simps bit_zigzag sless_zero not_less dest: last intro: ccontr)
qed

lemma pb_encode_svarint_write: "pb_encode_svarint v = pb_write (varint_bytes (zigzag v))"
  by (simp add: pb_encode_svarint_def zigzag_def pb_encode_varint_write)

lemma pb_decode_svarint_bytes:
  "pb_decode_svarint (ibuf (varint_bytes (zigzag v) @ rest) (length (varint_bytes (zigzag v)) + n) e) = (Some v, ibuf rest n e)"
  unfolding pb_decode_svarint_def
  by (simp add: gbind_Some [where p = pb_decode_varint] pb_decode_varint_bytes unzigzag gret_def)

interpretation svarint: wire "\<lambda>v. [varint_bytes (zigzag v)]" "\<lambda>_. True" pb_encode_svarint pb_decode_svarint
  by unfold_locales
    (simp_all add: each_single pb_encode_svarint_write pb_decode_svarint_bytes length_varint varint_short del: each.simps)

lemma uint_push_1: "uint (push_bit 1 v) = (2 * sint v) mod 2 ^ 64" for v :: "64 word"
proof -
  have "uint (push_bit 1 v) = (2 * uint v) mod 2 ^ 64"
    by (simp add: uint_word_ariths mult.commute)
  also have "\<dots> = (2 * sint v) mod 2 ^ 64"
    by (subst (1) uint_sint) (simp add: take_bit_eq_mod mod_mult_right_eq)
  finally show ?thesis .
qed

lemma sint_range64: "- (2 ^ 63) \<le> sint v \<and> sint v < 2 ^ 63" for v :: "64 word"
  using sint_greater_eq [of v] sint_less [of v] by simp

lemma uint_not64: "uint (NOT w) = 2 ^ 64 - 1 - uint w" for w :: "64 word"
  using uint_lt2p [of w]
  by (simp add: unsigned_not_eq take_bit_not_eq_mask_diff mask_eq_exp_minus_1 take_bit_int_eq_self)

lemma uint_zigzag: "uint (zigzag v) = (if 0 \<le> sint v then 2 * sint v else - 2 * sint v - 1)"
proof (cases "0 \<le> sint v")
  case True
  then have "\<not> v <s 0" by (simp add: word_sless_alt)
  then have "uint (zigzag v) = (2 * sint v) mod 2 ^ 64" by (simp only: zigzag_def if_False uint_push_1)
  then show ?thesis using True sint_range64 [of v] by simp
next
  case False
  then have "v <s 0" by (simp add: word_sless_alt)
  then have "uint (zigzag v) = 2 ^ 64 - 1 - uint (push_bit 1 v)"
    unfolding zigzag_def by (simp only: if_True uint_not64)
  also have "uint (push_bit 1 v) = 2 * sint v + 2 ^ 64"
  proof -
    have "(2 * sint v) mod 2 ^ 64 = (2 * sint v + 2 ^ 64) mod 2 ^ 64" by simp
    also have "\<dots> = 2 * sint v + 2 ^ 64" using False sint_range64 [of v] by (intro mod_pos_pos_trivial) simp_all
    finally show ?thesis by (simp only: uint_push_1)
  qed
  finally show ?thesis using False by simp
qed

section \<open>Varints of 32 bits\<close>

lemma low_byte_u32: "ucast (ucast (v AND 0x7F) :: u8) OR push_bit 7 (ucast (drop_bit 7 v)) = (ucast v :: u32)" for v :: u64
  using push_bit_parts32 [of 0 v] by simp

lemma varint32_first:
  "pb_decode_varint32 (ibuf (varint_bytes v @ rest) (length (varint_bytes v) + n) e :: 'st pb_istream) =
    (if v \<le> 0x7F then (Some (ucast v), ibuf rest n e)
     else varint32_loop (of_nat 7) (ucast (ucast (v AND 0x7F) :: u8))
       (ibuf (varint_bytes (drop_bit 7 v) @ rest) (length (varint_bytes (drop_bit 7 v)) + n) e))"
proof (cases "v \<le> 0x7F")
  case True
  have "ucast (ucast v :: u8) = (ucast v :: u32)"
    using low_byte_u32 [of v] True by (simp add: small_and7 small_drop7 [THEN iffD1])
  then show ?thesis using True small_byte [OF True]
    by (simp add: pb_decode_varint32_def pb_decode_varint32_eof_def varint_bytes_small)
next
  case False
  then show ?thesis
    by (simp add: pb_decode_varint32_def pb_decode_varint32_eof_def varint_bytes_big low_byte_mask split: prod.splits)
qed

lemma drop7_bound: "unat v < 2 ^ k \<Longrightarrow> 7 \<le> k \<Longrightarrow> unat (drop_bit 7 v) < 2 ^ (k - 7)" for v :: u64
proof -
  assume "unat v < 2 ^ k" "7 \<le> k"
  moreover from this(2) have "2 ^ k = 2 ^ (k - 7) * (128 :: nat)" using power_add [of "2 :: nat" "k - 7" 7] by simp
  ultimately show ?thesis by (simp add: unat_drop7 less_mult_imp_div_less)
qed

lemma varint32_fits:
  assumes "unat v < 2 ^ 32"
  shows "pb_decode_varint32 (ibuf (varint_bytes v @ rest) (length (varint_bytes v) + n) e :: 'st pb_istream)
    = (Some (ucast v), ibuf rest n e)"
proof (cases "v \<le> 0x7F")
  case False
  have "unat (drop_bit 7 v) < 2 ^ (32 - 7)" using drop7_bound [OF assms] by simp
  then show ?thesis using False
    by (simp add: varint32_first varint32_loop_fits [of 7, simplified] low_byte_u32)
qed (simp add: varint32_first)

lemma varint32_large:
  assumes "2 ^ 32 \<le> unat v" "unat v < 2 ^ 63"
  shows "fst (pb_decode_varint32 (ibuf (varint_bytes v @ rest) (length (varint_bytes v) + n) e :: 'st pb_istream)) = None"
proof -
  have v: "\<not> v \<le> 0x7F" using assms(1) by (simp add: word_le_nat_alt)
  have "2 ^ (32 - 7) \<le> unat (drop_bit 7 v)" using assms(1) by (simp add: unat_drop7)
  moreover have "unat (drop_bit 7 v) < 2 ^ (63 - 7)" using drop7_bound [OF assms(2)] by simp
  ultimately show ?thesis unfolding varint32_first if_not_P [OF v] by (intro varint32_loop_large) simp_all
qed

lemma join_groups32:
  fixes v :: u64
  shows "(((ucast (ucast (v AND 0x7F) :: u8) OR push_bit 7 (ucast (ucast (drop_bit 7 v AND 0x7F) :: u8)))
      OR push_bit 14 (ucast (ucast (drop_bit 14 v AND 0x7F) :: u8))) OR push_bit 21 (ucast (ucast (drop_bit 21 v AND 0x7F) :: u8)))
      OR push_bit 28 (ucast (ucast (drop_bit 28 v AND 0x7F) :: u8)) = (ucast v :: u32)"
proof -
  have "push_bit 35 x = 0" for x :: u32 by (rule bit_eqI) (auto simp: bit_simps)
  then show ?thesis
    using push_bit_parts32 [of 28 "drop_bit 28 v"] push_bit_parts32 [of 21 "drop_bit 21 v"]
      push_bit_parts32 [of 14 "drop_bit 14 v"] push_bit_parts32 [of 7 "drop_bit 7 v"] low_byte_u32 [of v]
    by (simp add: or.assoc)
qed

text \<open>A sign-extended negative number has ten bytes, and its low 32 bits are returned.\<close>

lemma varint_of_ones: "varint_bytes 0x1FFFFFFF = [0xFF, 0xFF, 0xFF, 0xFF, 0x01]"
  by (simp add: varint_bytes.simps unsigned_numeral take_bit_numeral_numeral)

lemma varint32_negative:
  assumes "2 ^ 64 - 2 ^ 31 \<le> unat v"
  shows "pb_decode_varint32 (ibuf (varint_bytes v @ rest) (length (varint_bytes v) + n) e :: 'st pb_istream)
    = (Some (ucast v), ibuf rest n e)"
proof -
  have lt: "unat v < 2 ^ 64" using unsigned_less [of v, where ?'a = nat] by simp
  define w1 w2 w3 w4 where "w1 = drop_bit 7 v" "w2 = drop_bit 7 w1" "w3 = drop_bit 7 w2" "w4 = drop_bit 7 w3"
  note w = this
  have big: "\<not> v \<le> 0x7F" "\<not> w1 \<le> 0x7F" "\<not> w2 \<le> 0x7F" "\<not> w3 \<le> 0x7F" "\<not> w4 \<le> 0x7F"
    using assms unfolding big_unat w unat_drop7 by simp_all
  have tail: "drop_bit 7 w4 = 0x1FFFFFFF"
  proof -
    have "unat (drop_bit 7 w4) = unat v div 2 ^ 35" unfolding w unat_drop7 by (simp add: div_mult2_eq [symmetric])
    also have "\<dots> = 0x1FFFFFFF" using assms lt by (intro div_nat_eqI) simp_all
    finally have "unat (drop_bit 7 w4) = unat (0x1FFFFFFF :: u64)" by (simp add: unsigned_numeral take_bit_numeral_numeral)
    then show ?thesis by (simp only: unsigned_word_eqI)
  qed
  let ?lo = "\<lambda>x :: u64. ucast (ucast (x AND 0x7F) :: u8) :: u32"
  let ?r = "((((?lo v OR push_bit 7 (?lo w1)) OR push_bit 14 (?lo w2)) OR push_bit 21 (?lo w3)) OR push_bit 28 (?lo w4))"
  have r: "?r = ucast v" using join_groups32 [of v] by (simp add: w)
  have hi: "drop_bit 31 (ucast v :: u32) \<noteq> 0"
  proof -
    have "unat v div 2 ^ 31 = 0x1FFFFFFFF" using assms lt by (intro div_nat_eqI) simp_all
    then have "odd (unat v div 2 ^ 31)" by simp
    then have "bit (unat v) 31" by (simp add: bit_iff_odd)
    then have "bit v 31" by (simp add: bit_unsigned_iff)
    then have "bit (drop_bit 31 (ucast v :: u32)) 0" by (simp add: bit_simps)
    then show ?thesis by (metis bit_0_eq bot_apply bot_bool_def)
  qed
  have step: "varint32_loop (of_nat p) q (ibuf (varint_bytes x @ rest) (length (varint_bytes x) + n) e :: 'st pb_istream)
      = varint32_loop (of_nat (p + 7)) (q OR push_bit p (?lo x))
          (ibuf (varint_bytes (drop_bit 7 x) @ rest) (length (varint_bytes (drop_bit 7 x)) + n) e)"
    if "\<not> x \<le> 0x7F" "p < 32" for p q x
    using that by (simp add: varint_bytes_big varint32_loop_step low_byte_mask overflow32_def result32_def)
  have ones: "varint32_loop (of_nat 35) q (ibuf (varint_bytes 0x1FFFFFFF @ rest) (length (varint_bytes 0x1FFFFFFF) + n) e
        :: 'st pb_istream) = (Some q, ibuf rest n e)" if "drop_bit 31 q \<noteq> 0" for q
    using that by (simp add: varint_of_ones varint32_loop_step [of 35, simplified] varint32_loop_step [of 42, simplified]
      varint32_loop_step [of 49, simplified] varint32_loop_step [of 56, simplified]
      varint32_loop_step [of 63, simplified] overflow32_def result32_def)
  show ?thesis
    unfolding varint32_first if_not_P [OF big(1)] w(1) [symmetric]
    using step [of w1 7 "?lo v"] step [of w2 14] step [of w3 21] step [of w4 28] big ones [of ?r] hi
    by (simp add: w(2-4) [symmetric] tail r)
qed

lemma unat_ucast_u32: "unat (ucast v :: u64) = unat v" "ucast (ucast v :: u64) = v" for v :: u32
proof -
  show "ucast (ucast v :: u64) = v" by (rule bit_eqI) (auto simp: bit_simps)
  have "unat v < 2 ^ 32" using unsigned_less [of v, where ?'a = nat] by simp
  then show "unat (ucast v :: u64) = unat v" by (simp add: unsigned_ucast_eq take_bit_nat_eq_self)
qed

interpretation varint32: wire "\<lambda>v :: u32. [varint_bytes (ucast v)]" "\<lambda>_. True"
  "\<lambda>v. pb_encode_varint (ucast v)" pb_decode_varint32
proof unfold_locales
  fix v :: u32 and rest n e
  have "unat (ucast v :: u64) < 2 ^ 32" using unsigned_less [of v, where ?'a = nat] by (simp add: unat_ucast_u32)
  from varint32_fits [OF this]
  show "pb_decode_varint32 (ibuf (concat [varint_bytes (ucast v)] @ rest) (length (concat [varint_bytes (ucast v)]) + n) e)
      = (Some v, ibuf rest n e)" by (simp add: unat_ucast_u32)
qed (simp_all add: each_single pb_encode_varint_write length_varint varint_short del: each.simps)

section \<open>Fixed-width values\<close>

definition fixed32_bytes :: "u32 \<Rightarrow> bytes" where
  "fixed32_bytes v = [ucast v, ucast (drop_bit 8 v), ucast (drop_bit 16 v), ucast (drop_bit 24 v)]"

definition fixed64_bytes :: "u64 \<Rightarrow> bytes" where
  "fixed64_bytes v = [ucast v, ucast (drop_bit 8 v), ucast (drop_bit 16 v), ucast (drop_bit 24 v),
     ucast (drop_bit 32 v), ucast (drop_bit 40 v), ucast (drop_bit 48 v), ucast (drop_bit 56 v)]"

lemma ucast_and_byte: "ucast (x AND 0xFF) = (ucast x :: u8)" for x :: "'a::len word"
proof -
  have "ucast (x AND mask 8) = (ucast x :: u8)" by (rule bit_eqI) (auto simp: bit_simps intro: bit_imp_le_length)
  then show ?thesis by (simp add: mask_eq_exp_minus_1)
qed

lemma pb_encode_fixed_write:
  "pb_encode_fixed32 v = pb_write (fixed32_bytes v)" "pb_encode_fixed64 w = pb_write (fixed64_bytes w)"
  by (simp_all add: pb_encode_fixed32_def pb_encode_fixed64_def fixed32_bytes_def fixed64_bytes_def ucast_and_byte)

lemma join_byte: "take_bit p v OR push_bit p (ucast (ucast (drop_bit p v) :: u8)) = take_bit (p + 8) v" for v :: "'a::len word"
  by (rule bit_eqI) (auto simp: bit_simps not_less le_less_trans intro: bit_imp_le_length)

lemma first_byte: "ucast (ucast v :: u8) = take_bit 8 v" for v :: "'a::len word"
  by (rule bit_eqI) (auto simp: bit_simps intro: bit_imp_le_length)

lemma join_fixed32:
  "ucast (ucast v :: u8) OR push_bit 8 (ucast (ucast (drop_bit 8 v) :: u8))
    OR push_bit 16 (ucast (ucast (drop_bit 16 v) :: u8)) OR push_bit 24 (ucast (ucast (drop_bit 24 v) :: u8)) = v" for v :: u32
  using join_byte [of 8 v] join_byte [of 16 v] join_byte [of 24 v] by (simp add: first_byte take_bit_word_eq_self flip: or.assoc)

lemma join_fixed64:
  "ucast (ucast v :: u8) OR push_bit 8 (ucast (ucast (drop_bit 8 v) :: u8))
    OR push_bit 16 (ucast (ucast (drop_bit 16 v) :: u8)) OR push_bit 24 (ucast (ucast (drop_bit 24 v) :: u8))
    OR push_bit 32 (ucast (ucast (drop_bit 32 v) :: u8)) OR push_bit 40 (ucast (ucast (drop_bit 40 v) :: u8))
    OR push_bit 48 (ucast (ucast (drop_bit 48 v) :: u8)) OR push_bit 56 (ucast (ucast (drop_bit 56 v) :: u8)) = v" for v :: u64
  using join_byte [of 8 v] join_byte [of 16 v] join_byte [of 24 v] join_byte [of 32 v] join_byte [of 40 v]
    join_byte [of 48 v] join_byte [of 56 v] by (simp add: first_byte take_bit_word_eq_self flip: or.assoc)

interpretation fixed32: wire "\<lambda>v. [fixed32_bytes v]" "\<lambda>_. True" pb_encode_fixed32 pb_decode_fixed32
proof unfold_locales
  fix v rest n e
  show "pb_decode_fixed32 (ibuf (concat [fixed32_bytes v] @ rest) (length (concat [fixed32_bytes v]) + n) e)
      = (Some v, ibuf rest n e)"
    using join_fixed32 [of v]
    by (simp add: pb_decode_fixed32_def gbind_def pb_read_buf_ibuf gret_def fixed32_bytes_def or.assoc)
qed (simp_all add: each_single pb_encode_fixed_write fixed32_bytes_def size_mod_def del: each.simps)

interpretation fixed64: wire "\<lambda>v. [fixed64_bytes v]" "\<lambda>_. True" pb_encode_fixed64 pb_decode_fixed64
proof unfold_locales
  fix v rest n e
  show "pb_decode_fixed64 (ibuf (concat [fixed64_bytes v] @ rest) (length (concat [fixed64_bytes v]) + n) e)
      = (Some v, ibuf rest n e)"
    using join_fixed64 [of v]
    by (simp add: pb_decode_fixed64_def gbind_def pb_read_buf_ibuf gret_def fixed64_bytes_def or.assoc)
qed (simp_all add: each_single pb_encode_fixed_write fixed64_bytes_def size_mod_def del: each.simps)

section \<open>Skipping values\<close>

lemma i_call_frame:
  "i_call n (s\<lparr>bytes_left := m\<rparr>) = (case i_call n s of (r, s') \<Rightarrow> (r, s'\<lparr>bytes_left := m\<rparr>))"
  by (auto simp: i_call_def split: isource.splits prod.splits)

lemma pb_read_buf_eq_Some:
  "pb_read_buf n s = (Some bs, s') \<longleftrightarrow> n = 0 \<and> bs = [] \<and> s' = s \<or> n \<noteq> 0 \<and> n \<le> bytes_left s \<and>
     (\<exists>t. i_call n s = (Some bs, t) \<and> s' = t\<lparr>bytes_left := bytes_left s - n\<rparr>)"
  using i_call_left [of n s] by (cases "i_call n s"; cases "fst (i_call n s)") (auto simp: pb_read_buf_def i_error_eq)

lemma pb_read_buf_frame:
  assumes "pb_read_buf n s = (Some bs, s')"
  shows "pb_read_buf n (s\<lparr>bytes_left := bytes_left s + k\<rparr>) = (Some bs, s'\<lparr>bytes_left := bytes_left s' + k\<rparr>)"
  using assms unfolding pb_read_buf_eq_Some by (auto simp: i_call_frame)

lemma pb_skip_loop_frame:
  "pb_skip_loop n s = (Some (), s') \<Longrightarrow> bytes_left s = bytes_left s' + n \<and>
     pb_skip_loop n (s\<lparr>bytes_left := bytes_left s + k\<rparr>) = (Some (), s'\<lparr>bytes_left := bytes_left s' + k\<rparr>)"
proof (induction n arbitrary: s rule: pb_skip_loop.induct)
  case (1 n)
  show ?case
  proof (cases "n > 16")
    case True
    with 1(2) obtain bs t where t: "pb_read_buf 16 s = (Some bs, t)" "pb_skip_loop (n - 16) t = (Some (), s')"
      by (auto simp: pb_skip_loop.simps [of n] gbind_eq_Some_iff)
    have left: "bytes_left s = bytes_left t + 16" by (rule pb_read_buf_left [OF t(1)])
    have "pb_skip_loop n (s\<lparr>bytes_left := bytes_left s + k\<rparr>) = pb_skip_loop (n - 16) (t\<lparr>bytes_left := bytes_left t + k\<rparr>)"
      using True pb_read_buf_frame [OF t(1), of k] by (simp add: pb_skip_loop.simps [of n] gbind_def)
    from trans [OF this] 1(1) [OF True t(2)] have "pb_skip_loop n (s\<lparr>bytes_left := bytes_left s + k\<rparr>)
        = (Some (), s'\<lparr>bytes_left := bytes_left s' + k\<rparr>)" by blast
    moreover have "bytes_left s = bytes_left s' + n" using 1(1) [OF True t(2)] left True by simp
    ultimately show ?thesis by blast
  next
    case False
    with 1(2) obtain bs where t: "pb_read_buf n s = (Some bs, s')"
      by (auto simp: pb_skip_loop.simps [of n] gbind_eq_Some_iff)
    with pb_read_buf_left [OF t] pb_read_buf_frame [OF t] False show ?thesis
      by (simp add: pb_skip_loop.simps [of n] gbind_Some [where p = "pb_read_buf n"] gret_def)
  qed
qed

lemma pb_read_null_frame:
  assumes "pb_read_null n s = (Some (), s')"
  shows "bytes_left s = bytes_left s' + n \<and>
    pb_read_null n (s\<lparr>bytes_left := bytes_left s + k\<rparr>) = (Some (), s'\<lparr>bytes_left := bytes_left s' + k\<rparr>)"
  using assms pb_skip_loop_frame [of n s s' k]
  by (auto simp: pb_read_null_def i_error_eq split: if_splits isource.splits)

lemma pb_readbyte_read:
  assumes "pb_readbyte s = (Some b, s')"
  obtains bs where "pb_read_buf 1 s = (Some bs, s')" "bs ! 0 = b"
  using assms
  by (cases "i_call 1 s"; cases "fst (i_call 1 s)") (auto simp: pb_readbyte_def pb_read_buf_def i_error_eq split: if_splits)

lemma skip_as_readbyte:
  assumes "pb_readbyte s = (Some b, s')"
  shows "pb_skip_varint s = (if b AND 0x80 \<noteq> 0 then pb_skip_varint s' else (Some (), s'))"
proof -
  obtain bs where "pb_read_buf 1 s = (Some bs, s')" "bs ! 0 = b" using assms by (rule pb_readbyte_read)
  then show ?thesis by (simp add: pb_skip_varint.simps [of s] del: One_nat_def)
qed

lemma varint_loop_Some:
  assumes "varint_loop p r s = (Some v, s')"
  obtains b t where "\<not> 64 \<le> p" "pb_readbyte s = (Some b, t)"
    "(if b AND 0x80 \<noteq> 0 then varint_loop (p + 7) (r OR push_bit (unat p) (ucast (b AND 0x7F))) t
      else (Some (r OR push_bit (unat p) (ucast (b AND 0x7F))), t)) = (Some v, s')"
proof -
  have p: "\<not> 64 \<le> p"
  proof
    assume "64 \<le> p"
    then have "varint_loop p r s = i_error ''varint overflow'' s" unfolding varint_loop.simps [of p r s] by (rule if_P)
    then show False using assms by (simp add: i_error_def)
  qed
  obtain x t where x: "pb_readbyte s = (x, t)" by (cases "pb_readbyte s")
  show thesis using assms [unfolded varint_loop.simps [of p r s] x Let_def if_not_P [OF p]]
    by (cases x) (use that p x in simp_all)
qed

lemma varint_loop_skip: "varint_loop p r s = (Some v, s') \<Longrightarrow> pb_skip_varint s = (Some (), s')"
proof (induction "bytes_left s" arbitrary: p r s rule: less_induct)
  case less
  from less(2) obtain b t r' where b: "pb_readbyte s = (Some b, t)"
    "(if b AND 0x80 \<noteq> 0 then varint_loop (p + 7) r' t else (Some r', t)) = (Some v, s')"
    by (rule varint_loop_Some) blast
  show ?case using less(1) [of t] b(2) pb_readbyte_left [OF b(1)]
    by (simp add: skip_as_readbyte [OF b(1)] split: if_splits)
qed

lemma varint32_loop_skip: "varint32_loop p r s = (Some v, s') \<Longrightarrow> pb_skip_varint s = (Some (), s')"
proof (induction "bytes_left s" arbitrary: p r s rule: less_induct)
  case less
  obtain x t where x: "pb_readbyte s = (x, t)" by (cases "pb_readbyte s")
  note run = less(2) [unfolded varint32_loop.simps [of p r s] x Let_def]
  from run obtain b where b: "pb_readbyte s = (Some b, t)" using x by (cases x) simp_all
  show ?case using run less(1) [of t] pb_readbyte_left [OF b] b x
    by (simp add: skip_as_readbyte [OF b] i_error_def split: if_splits)
qed

lemma varint32_skip: "pb_decode_varint32 s = (Some v, s') \<Longrightarrow> pb_skip_varint s = (Some (), s')"
  by (auto simp: pb_decode_varint32_def pb_decode_varint32_eof_def skip_as_readbyte dest: varint32_loop_skip
      split: option.splits prod.splits if_splits)

lemma raw_varint_skip: "raw_varint_loop n buf s = (Some bs, s') \<Longrightarrow> pb_skip_varint s = (Some (), s')"
proof (induction n buf s rule: raw_varint_loop.induct)
  case (2 n buf s)
  from 2(2) obtain b t where b: "pb_read_buf 1 s = (Some b, t)"
    by (auto split: option.splits prod.splits)
  show ?case using 2(1) [OF b [symmetric] refl] 2(2) [unfolded raw_varint_loop.simps b]
    by (subst pb_skip_varint.simps) (auto simp: b simp del: One_nat_def split: if_splits)
qed simp

lemma pb_read_null_small:
  assumes "pb_read_buf n s = (Some bs, s')" "n \<le> 16"
  shows "pb_read_null n s = (Some (), s')"
  using assms by (auto simp: pb_read_null_def pb_skip_loop.simps [of n] gbind_def gret_def pb_read_buf_def i_call_def
    buf_read_def i_error_eq split: if_splits isource.splits)

section \<open>What a reader may do to a stream\<close>

text \<open>
  Everything the decoders do to a stream is a sequence of reads of bytes, of
  blocks and of skips, and the recording of an error message.
\<close>

inductive reads :: "'st pb_istream \<Rightarrow> 'st pb_istream \<Rightarrow> bool" where
  reads_refl: "reads s s"
| reads_byte: "reads s t \<Longrightarrow> pb_readbyte t = (r, t') \<Longrightarrow> reads s t'"
| reads_buf: "reads s t \<Longrightarrow> pb_read_buf n t = (bs, t') \<Longrightarrow> reads s t'"
| reads_skip: "reads s t \<Longrightarrow> pb_read_null n t = (u, t') \<Longrightarrow> reads s t'"
| reads_error: "reads s t \<Longrightarrow> reads s (t\<lparr>i_errmsg := m\<rparr>)"

lemma reads_trans: "reads t u \<Longrightarrow> reads s t \<Longrightarrow> reads s u"
  by (induction rule: reads.induct) (auto intro: reads.intros)

lemmas reads_steps = reads_byte [OF reads_refl] reads_buf [OF reads_refl] reads_skip [OF reads_refl] reads_error [OF reads_refl]

lemma reads_i_error: "i_error m s = (r, s') \<Longrightarrow> reads s s'"
  by (auto simp: i_error_eq intro: reads_steps)

lemma varint_loop_reads: "varint_loop p r s = (x, s') \<Longrightarrow> reads s s'"
proof (induction "bytes_left s" arbitrary: p r s rule: less_induct)
  case less
  obtain y t where y: "pb_readbyte s = (y, t)" by (cases "pb_readbyte s")
  note run = less(2) [unfolded varint_loop.simps [of p r s] y Let_def]
  have st: "reads s t" by (rule reads_steps(1) [OF y])
  show ?case
  proof (cases y)
    case (Some b)
    then have lt: "bytes_left t < bytes_left s" using pb_readbyte_left [of s b t] y by simp
    show ?thesis using run Some less(1) [OF lt] st reads_trans [OF _ st]
      by (auto split: if_splits dest: reads_i_error)
  qed (use run st in \<open>auto split: if_splits dest: reads_i_error\<close>)
qed

lemma varint32_loop_reads: "varint32_loop p r s = (x, s') \<Longrightarrow> reads s s'"
proof (induction "bytes_left s" arbitrary: p r s rule: less_induct)
  case less
  obtain y t where y: "pb_readbyte s = (y, t)" by (cases "pb_readbyte s")
  note run = less(2) [unfolded varint32_loop.simps [of p r s] y Let_def]
  have st: "reads s t" by (rule reads_steps(1) [OF y])
  show ?case
  proof (cases y)
    case (Some b)
    then have lt: "bytes_left t < bytes_left s" using pb_readbyte_left [of s b t] y by simp
    show ?thesis using run Some less(1) [OF lt] st reads_trans [OF _ st]
      by (auto split: if_splits dest: reads_i_error)
  qed (use run st in auto)
qed

lemma gbind_reads:
  assumes "gbind p f s = (x, s')" "\<And>r t. p s = (r, t) \<Longrightarrow> reads s t" "\<And>a t y u. f a t = (y, u) \<Longrightarrow> reads t u"
  shows "reads s s'"
proof -
  obtain r t where p: "p s = (r, t)" by (cases "p s")
  show ?thesis
  proof (cases r)
    case (Some a)
    with assms(1) p have "f a t = (x, s')" by simp
    from reads_trans [OF assms(3) [OF this] assms(2) [OF p]] show ?thesis .
  qed (use assms(1) assms(2) [OF p] p in simp)
qed

lemma gret_reads: "gret a s = (x, s') \<Longrightarrow> reads s s'"
  by (simp add: gret_def reads_refl)

lemma decoders_read:
  "pb_decode_varint s = (a, s') \<Longrightarrow> reads s s'"
  "pb_decode_svarint s = (b, s') \<Longrightarrow> reads s s'"
  "pb_decode_varint32 s = (c, s') \<Longrightarrow> reads s s'"
  "pb_decode_fixed32 s = (d, s') \<Longrightarrow> reads s s'"
  "pb_decode_fixed64 s = (f, s') \<Longrightarrow> reads s s'"
  "pb_dec_bool s = (g, s') \<Longrightarrow> reads s s'"
proof -
  show v: "pb_decode_varint s = (a, s') \<Longrightarrow> reads s s'" for a s'
    by (simp add: pb_decode_varint_def varint_loop_reads)
  show "pb_decode_svarint s = (b, s') \<Longrightarrow> reads s s'"
    unfolding pb_decode_svarint_def by (rule gbind_reads) (auto dest: v gret_reads)
  show v32: "pb_decode_varint32 s = (c, s') \<Longrightarrow> reads s s'" for c s'
  proof -
    assume run: "pb_decode_varint32 s = (c, s')"
    obtain y t where y: "pb_readbyte s = (y, t)" by (cases "pb_readbyte s")
    have "reads s t" by (rule reads_steps(1) [OF y])
    with run y show "reads s s'"
      by (auto simp: pb_decode_varint32_def pb_decode_varint32_eof_def split: option.splits prod.splits if_splits
          dest: varint32_loop_reads intro: reads_trans)
  qed
  show "pb_decode_fixed32 s = (d, s') \<Longrightarrow> reads s s'"
    unfolding pb_decode_fixed32_def by (rule gbind_reads) (auto dest: reads_steps(2) gret_reads)
  show "pb_decode_fixed64 s = (f, s') \<Longrightarrow> reads s s'"
    unfolding pb_decode_fixed64_def by (rule gbind_reads) (auto dest: reads_steps(2) gret_reads)
  show "pb_dec_bool s = (g, s') \<Longrightarrow> reads s s'"
    unfolding pb_dec_bool_def by (rule gbind_reads) (auto dest: v32 gret_reads)
qed

text \<open>A stream in memory stays in step: the bytes read and the bytes left add up.\<close>

definition in_step :: "bytes \<Rightarrow> nat \<Rightarrow> 'st pb_istream \<Rightarrow> bool" where
  "in_step base len s \<longleftrightarrow> (\<exists>k \<le> len. i_src s = Buf_read (drop k base) \<and> bytes_left s = len - k)"

lemma in_step_call:
  assumes "in_step base len s" "n \<le> bytes_left s"
  shows "in_step base len (s\<lparr>i_src := (case i_src s of Buf_read bs \<Rightarrow> Buf_read (drop n bs) | k \<Rightarrow> k), bytes_left := bytes_left s - n\<rparr>)"
proof -
  obtain k where "k \<le> len" "i_src s = Buf_read (drop k base)" "bytes_left s = len - k"
    using assms(1) unfolding in_step_def by blast
  then show ?thesis using assms(2) unfolding in_step_def by (intro exI [of _ "k + n"]) (simp add: add.commute)
qed

lemma in_step_reads: "reads s t \<Longrightarrow> in_step base len s \<Longrightarrow> in_step base len t"
proof (induction rule: reads.induct)
  case (reads_byte s t r t')
  with in_step_call [of base len t 1] show ?case
    by (auto simp: pb_readbyte_def i_call_def buf_read_def i_error_def in_step_def split: if_splits)
next
  case (reads_buf s t n bs t')
  with in_step_call [of base len t n] show ?case
    by (auto simp: pb_read_buf_def i_call_def buf_read_def i_error_def in_step_def split: if_splits)
next
  case (reads_skip s t n u t')
  with in_step_call [of base len t n] show ?case
    by (auto simp: pb_read_null_def i_error_def in_step_def split: if_splits)
qed (simp_all add: in_step_def)

lemma pb_readbyte_pos: "0 < n \<Longrightarrow> pb_readbyte (ibuf (b # bs) n e) = (Some b, ibuf bs (n - 1) e)"
  by (cases n) simp_all

section \<open>Properties\<close>

text \<open>C23 A list of 64-bit integers written as varints into a buffer of \<open>n\<close> bytes, one
  after the other, fits exactly if the canonical encodings have at most \<open>n\<close> bytes
  together. Then decoding until the written part is used up gives the list again
  and nothing behind it has changed; otherwise the encoder reports a full
  stream and nothing past the \<open>n\<close> bytes has changed.\<close>

theorem varint_stream_roundtrip:
  assumes "n \<le> length mem" "n < size_mod"
  shows "let len = length (concat (map varint_bytes vs)) in
    if len \<le> n
    then \<exists>mem'. each pb_encode_varint vs (pb_ostream_from_buffer mem n :: unit pb_ostream) = (Some (), obuf mem' n len None)
      \<and> drop len mem' = drop len mem \<and> get_all (istream_get pb_decode_varint) (take len mem') = Some vs
    else \<exists>mem' w. each pb_encode_varint vs (pb_ostream_from_buffer mem n :: unit pb_ostream) = (None, obuf mem' n w (Some ''stream full''))
      \<and> w \<le> n \<and> drop n mem' = drop n mem"
proof -
  have image: "varint.image vs = concat (map varint_bytes vs)" by (simp add: varint.image_def)
  have all: "list_all (\<lambda>_. True) vs" by (simp add: list_all_iff)
  show ?thesis using varint.write_read_all [OF all assms] unfolding image Let_def .
qed

theorem varint_stream_roundtrip_witness:
  "\<exists>mem'. each pb_encode_varint [5, 300] (pb_ostream_from_buffer [7, 7, 7, 7, 7] 4 :: unit pb_ostream) = (Some (), obuf mem' 4 3 None)
    \<and> drop 3 mem' = [7, 7] \<and> get_all (istream_get pb_decode_varint) (take 3 mem') = Some [5, 300]"
proof -
  have "varint_bytes 5 = [5]" "varint_bytes 300 = [0xAC, 0x02]"
    by (simp_all add: varint_bytes.simps [of 5] varint_bytes.simps [of 300] varint_bytes.simps [of 2])
  then have bytes: "concat (map varint_bytes [5, 300]) = [5, 0xAC, 0x02]" by simp
  have len: "length [5, 0xAC, 0x02 :: u8] = 3" by simp
  show ?thesis using varint_stream_roundtrip [of 4 "[7, 7, 7, 7, 7]" "[5, 300]"] unfolding bytes len Let_def
    by (simp add: size_mod_def del: each.simps)
qed

text \<open>\<open>pb_encode_svarint\<close> writes the varint of \<open>2 * v\<close> for a number that is not
  negative and of \<open>-2 * v - 1\<close> for a negative one, so that numbers near zero are
  short, and \<open>pb_decode_svarint\<close> recovers the number.\<close>

theorem svarint_zigzag:
  "\<exists>z. uint z = (if 0 \<le> sint v then 2 * sint v else - 2 * sint v - 1)
    \<and> pb_encode_svarint v = pb_encode_varint z
    \<and> pb_decode_svarint (ibuf (varint_bytes z @ rest) (length (varint_bytes z) + n) e) = (Some v, ibuf rest n e)"
  by (intro exI [of _ "zigzag v"])
    (simp add: uint_zigzag pb_encode_svarint_write pb_encode_varint_write pb_decode_svarint_bytes)

text \<open>\<open>pb_decode_varint32\<close> on the canonical varint of a 64-bit number returns the low
  32 bits if the number is below \<open>2 ^ 32\<close> or is a sign-extended negative number of 32
  bits. Any other number below \<open>2 ^ 63\<close> is rejected.\<close>

theorem varint32_range:
  "if unat v < 2 ^ 32 \<or> 2 ^ 64 - 2 ^ 31 \<le> unat v
   then pb_decode_varint32 (ibuf (varint_bytes v @ rest) (length (varint_bytes v) + n) e :: 'st pb_istream)
     = (Some (ucast v), ibuf rest n e)
   else 2 ^ 63 \<le> unat v
     \<or> fst (pb_decode_varint32 (ibuf (varint_bytes v @ rest) (length (varint_bytes v) + n) e :: 'st pb_istream)) = None"
  using varint32_fits [of v rest n e, where ?'st = 'st] varint32_negative [of v rest n e, where ?'st = 'st]
    varint32_large [of v rest n e, where ?'st = 'st]
  by (cases "2 ^ 63 \<le> unat v") (auto simp: not_le)

text \<open>C24 \<open>pb_skip_field\<close> leaves any stream, with a callback or in memory, exactly where
  the decoder of the wire type would: after a varint of 64 or 32 bits, a
  fixed-width value, a raw value copied for a callback, or a string whose substream is opened and closed
  at once.\<close>

theorem skip_matches_decode:
  "(pb_decode_varint s = (Some a, s') \<longrightarrow> pb_skip_field PB_WT_VARINT s = (Some (), s'))
   \<and> (pb_decode_varint32 s = (Some b, s') \<longrightarrow> pb_skip_field PB_WT_VARINT s = (Some (), s'))
   \<and> (pb_decode_fixed32 s = (Some c, s') \<longrightarrow> pb_skip_field PB_WT_32BIT s = (Some (), s'))
   \<and> (pb_decode_fixed64 s = (Some d, s') \<longrightarrow> pb_skip_field PB_WT_64BIT s = (Some (), s'))
   \<and> (read_raw_value wt maximum s = (Some raw, s') \<longrightarrow> pb_skip_field wt s = (Some (), s'))
   \<and> (pb_make_string_substream s = (Some sub, p) \<and> pb_close_string_substream sub p = (Some (), s')
       \<longrightarrow> pb_skip_field PB_WT_STRING s = (Some (), s'))"
proof (intro conjI impI)
  assume "pb_make_string_substream s = (Some sub, p) \<and> pb_close_string_substream sub p = (Some (), s')"
  then obtain len t where t: "pb_decode_varint32 s = (Some len, t)" "unat len \<le> bytes_left t"
      "sub = t\<lparr>bytes_left := unat len\<rparr>" "p = t\<lparr>bytes_left := bytes_left t - unat len\<rparr>"
    and close: "pb_close_string_substream sub p = (Some (), s')"
    by (auto simp: pb_make_string_substream_def gbind_eq_Some_iff i_error_eq Let_def split: if_splits)
  have "pb_read_null (unat len) t = (Some (), s')"
  proof (cases "len = 0")
    case False
    with close obtain sub' where sub': "pb_read_null (unat len) sub = (Some (), sub')"
      "s' = p\<lparr>i_src := i_src sub', i_errmsg := i_errmsg sub'\<rparr>"
      by (auto simp: pb_close_string_substream_def t(3) unsigned_eq_0_iff split: prod.splits option.splits if_splits)
    from pb_read_null_frame [OF sub'(1), of "bytes_left t - unat len"] t(2) show ?thesis
      by (simp add: sub'(2) t(3,4))
  qed (use close in \<open>simp add: pb_close_string_substream_def t pb_read_null_def\<close>)
  with t(1) show "pb_skip_field PB_WT_STRING s = (Some (), s')"
    by (simp add: pb_skip_field_def PB_WT_defs pb_skip_string_def gbind_def)
qed (auto simp: pb_skip_field_def PB_WT_defs pb_decode_varint_def varint_loop_skip varint32_skip
    pb_decode_fixed32_def pb_decode_fixed64_def gbind_eq_Some_iff read_raw_value_def raw_varint_skip
    i_error_eq intro: pb_read_null_small split: if_splits)

theorem skip_matches_decode_witness:
  "pb_skip_field PB_WT_VARINT (ibuf [5, 9] 2 None :: unit pb_istream) = (Some (), ibuf [9] 1 None)"
proof -
  have "pb_decode_varint32 (ibuf [5, 9] 2 None :: unit pb_istream) = (Some 5, ibuf [9] 1 None)"
    by (simp add: pb_decode_varint32_def pb_decode_varint32_eof_def pb_readbyte_pos)
  then show ?thesis
    using skip_matches_decode [THEN conjunct2, THEN conjunct1, of "ibuf [5, 9] 2 None :: unit pb_istream" 5 "ibuf [9] 1 None"]
    by blast
qed

text \<open>C25 Whatever is read from the substream of a string, and whether or not it
  succeeds, closing the substream leaves the parent stream behind the last byte of
  the string, with as many bytes left as it had after the length less the
  length.\<close>

theorem substream_closes_at_end:
  fixes s :: "'st pb_istream"
  assumes "pb_decode_varint32 s = (Some len, ibuf bs m e)"
    and "pb_make_string_substream s = (Some sub, p)" and "reads sub sub'"
  shows "\<exists>e'. pb_close_string_substream sub' p = (Some (), ibuf (drop (unat len) bs) (m - unat len) e')"
proof -
  have open_: "sub = ibuf bs (unat len) e" "p = ibuf bs (m - unat len) e"
    using assms(1,2) by (auto simp: pb_make_string_substream_def gbind_def i_error_def Let_def split: if_splits)
  have "in_step bs (unat len) sub" by (auto simp: open_ in_step_def intro: exI [of _ 0])
  with assms(3) have "in_step bs (unat len) sub'" by (rule in_step_reads)
  then obtain k where "k \<le> unat len" "i_src sub' = Buf_read (drop k bs)" "bytes_left sub' = unat len - k"
    unfolding in_step_def by blast
  then show ?thesis by (auto simp: pb_close_string_substream_def pb_read_null_def open_)
qed

theorem substream_closes_at_end_witness:
  "\<exists>e'. pb_close_string_substream (ibuf [8, 9] 1 None :: unit pb_istream) (ibuf [7, 8, 9] 1 None) = (Some (), ibuf [9] 1 e')"
proof -
  let ?s = "ibuf [2, 7, 8, 9] 4 None :: unit pb_istream"
  have d: "pb_decode_varint32 ?s = (Some 2, ibuf [7, 8, 9] 3 None)"
    by (simp add: pb_decode_varint32_def pb_decode_varint32_eof_def pb_readbyte_pos)
  have m: "pb_make_string_substream ?s = (Some (ibuf [7, 8, 9] 2 None), ibuf [7, 8, 9] 1 None)"
    by (simp add: pb_make_string_substream_def gbind_def d)
  have r: "pb_readbyte (ibuf [7, 8, 9] 2 None :: unit pb_istream) = (Some 7, ibuf [8, 9] 1 None)"
    by (simp add: pb_readbyte_pos)
  show ?thesis using substream_closes_at_end [OF d m reads_steps(1) [OF r]] by simp
qed

text \<open>The low 35 bits of a number as five continued groups, and a group of zeros.\<close>

definition overlong :: "u64 \<Rightarrow> bytes" where
  "overlong v = map (\<lambda>i. ucast (drop_bit (7 * i) v AND 0x7F) OR 0x80) [0..<5] @ [0]"

lemma join_group: "take_bit p v OR push_bit p (ucast (ucast (drop_bit p v AND 0x7F) :: u8)) = take_bit (p + 7) v" for v :: u64
proof -
  have "take_bit p v OR push_bit p (ucast (ucast (drop_bit p v AND mask 7) :: u8)) = take_bit (p + 7) v"
    by (rule bit_eqI) (auto simp: bit_simps not_less le_less_trans intro: bit_imp_le_length)
  then show ?thesis by (simp add: mask_eq_exp_minus_1)
qed

lemma overlong_list: "overlong v = [ucast (v AND 0x7F) OR 0x80, ucast (drop_bit 7 v AND 0x7F) OR 0x80,
    ucast (drop_bit 14 v AND 0x7F) OR 0x80, ucast (drop_bit 21 v AND 0x7F) OR 0x80,
    ucast (drop_bit 28 v AND 0x7F) OR 0x80, 0]"
  by (simp add: overlong_def upt_rec)

lemma varint_loop_pos:
  assumes "p < 64" "0 < n"
  shows "varint_loop (of_nat p) r (ibuf (b # bs) n e) =
    (if b AND 0x80 \<noteq> 0 then varint_loop (of_nat (p + 7)) (r OR push_bit p (ucast (b AND 0x7F))) (ibuf bs (n - 1) e)
     else (Some (r OR push_bit p (ucast (b AND 0x7F))), ibuf bs (n - 1) e))"
  using assms varint_loop_step [OF assms(1), of r b bs "n - 1" e] by simp

lemma varint32_loop_pos:
  assumes "p < 249" "0 < n"
  shows "varint32_loop (of_nat p) r (ibuf (b # bs) n e) =
    (if overflow32 p r b then i_error ''varint overflow'' (ibuf bs (n - 1) e)
     else if b AND 0x80 \<noteq> 0 then varint32_loop (of_nat (p + 7)) (result32 p r b) (ibuf bs (n - 1) e)
     else if p = 28 \<and> b AND 0x70 \<noteq> 0 then i_error ''varint overflow'' (ibuf bs (n - 1) e)
     else (Some (result32 p r b), ibuf bs (n - 1) e))"
  using assms varint32_loop_step [OF assms(1), of r b bs "n - 1" e] by simp

lemmas loop_rounds = varint_loop_pos [of 0, simplified] varint_loop_pos [of 7, simplified] varint_loop_pos [of 14, simplified]
  varint_loop_pos [of 21, simplified] varint_loop_pos [of 28, simplified] varint_loop_pos [of 35, simplified]
  varint32_loop_pos [of 7, simplified] varint32_loop_pos [of 14, simplified] varint32_loop_pos [of 21, simplified]
  varint32_loop_pos [of 28, simplified] varint32_loop_pos [of 35, simplified]

text \<open>C26 \<open>pb_decode_varint32\<close> rejects the canonical encoding of a number of 33 to 35
  bits, but the same number with one more group of zero bits is accepted, and
  bits 32 to 34 are dropped. After 37 groups of zeros the 8-bit position
  has wrapped, and the next group is stored at bit 3; \<open>pb_decode_varint\<close> reports an overflow there.\<close>

theorem varint32_overlong:
  "fst (pb_decode_varint32 (pb_istream_from_buffer (overlong v) 6)) = Some (ucast v)
   \<and> fst (pb_decode_varint (pb_istream_from_buffer (overlong v) 6)) = Some (take_bit 35 v)
   \<and> fst (pb_decode_varint32 (pb_istream_from_buffer (replicate 37 0x80 @ [1]) 38)) = Some 8
   \<and> fst (pb_decode_varint (pb_istream_from_buffer (replicate 37 0x80 @ [1]) 38)) = None"
proof (intro conjI)
  show "fst (pb_decode_varint32 (pb_istream_from_buffer (replicate 37 0x80 @ [1]) 38)) = Some 8" by code_simp
  show "fst (pb_decode_varint (pb_istream_from_buffer (replicate 37 0x80 @ [1]) 38)) = None" by code_simp
  show "fst (pb_decode_varint32 (pb_istream_from_buffer (overlong v) 6)) = Some (ucast v)"
    using join_groups32 [of v]
    by (simp add: pb_istream_from_buffer_def overlong_list pb_decode_varint32_def pb_decode_varint32_eof_def pb_readbyte_pos
      low_byte_mask loop_rounds overflow32_def result32_def)
  show "fst (pb_decode_varint (pb_istream_from_buffer (overlong v) 6)) = Some (take_bit 35 v)"
    using join_group [of 0 v] join_group [of 7 v] join_group [of 14 v] join_group [of 21 v] join_group [of 28 v]
    by (simp add: pb_istream_from_buffer_def overlong_list pb_decode_varint_def loop_rounds low_byte_mask)
qed

end
