(* ===== verification/Flat_Memory.thy ===== *)
theory Flat_Memory
  imports Prelude
begin

text \<open>
  A flat memory that maps addresses to bytes, for the code that works on pointers which may overlap.
\<close>

type_synonym mem = "nat \<Rightarrow> u8"

definition mem_read :: "mem \<Rightarrow> nat \<Rightarrow> nat \<Rightarrow> bytes" where
  "mem_read m a n = map m [a..<a + n]"

definition mem_write :: "nat \<Rightarrow> bytes \<Rightarrow> mem \<Rightarrow> mem" where
  "mem_write a bs m = (\<lambda>i. if a \<le> i \<and> i < a + length bs then bs ! (i - a) else m i)"

definition mem_nat :: "mem \<Rightarrow> nat \<Rightarrow> nat \<Rightarrow> nat" where
  "mem_nat m a n = le_value (mem_read m a n)"

lemma mem_read_write [simp]: "length bs = n \<Longrightarrow> mem_read (mem_write a bs m) a n = bs"
  by (auto simp: mem_read_def mem_write_def intro: nth_equalityI)

lemma mem_read_other: "b + n \<le> a \<or> a + length bs \<le> b \<Longrightarrow> mem_read (mem_write a bs m) b n = mem_read m b n"
  by (auto simp: mem_read_def mem_write_def)

lemma length_mem_read [simp]: "length (mem_read m a n) = n"
  by (simp add: mem_read_def)

lemma mem_read_append: "mem_read m a (n + k) = mem_read m a n @ mem_read m (a + n) k"
  using upt_add_eq_append [of a "a + n" k] by (simp add: mem_read_def add.assoc)

lemma mem_write_append: "mem_write a (xs @ ys) m = mem_write (a + length xs) ys (mem_write a xs m)"
  by (rule ext) (auto simp: mem_write_def nth_append)

lemma mem_read_nth: "i < n \<Longrightarrow> mem_read m a n ! i = m (a + i)"
  by (simp add: mem_read_def)

lemma mem_write_Nil [simp]: "mem_write a [] m = m"
  by (rule ext) (auto simp: mem_write_def)

lemma mem_write_other: "i < a \<or> a + length bs \<le> i \<Longrightarrow> mem_write a bs m i = m i"
  by (auto simp: mem_write_def)

lemma mem_write_same: "mem_write a (mem_read m a n) m = m"
  by (rule ext) (auto simp: mem_write_def mem_read_def)

lemma mem_write_twice: "length xs = length ys \<Longrightarrow> mem_write a ys (mem_write a xs m) = mem_write a ys m"
  by (rule ext) (simp add: mem_write_def)

lemma mem_write_swap:
  "a + length xs \<le> b \<or> b + length ys \<le> a \<Longrightarrow>
     mem_write a xs (mem_write b ys m) = mem_write b ys (mem_write a xs m)"
  by (rule ext) (auto simp: mem_write_def)

end
