(* ===== verification/PB_Fields.thy ===== *)
theory PB_Fields
  imports PB_Wire Flat_Memory
begin

text \<open>
  Message descriptors of nanopb: the field iterator (\<open>Pods/nanopb/pb_common.c\<close>) and the
  encoders and decoders of single values (\<open>pb_enc_...\<close> of \<open>pb_encode.c\<close> and \<open>pb_dec_...\<close> of
  \<open>pb_decode.c\<close>). A message structure lies in the flat memory of
  \<open>Flat_Memory\<close>; address 0 is the null pointer. Integers are stored little-endian, as on the
  processors the Pods are built for, and pointers have eight bytes. \<open>pb_size_t\<close> is
  \<open>uint32_t\<close> (\<open>PB_FIELD_32BIT\<close>); its values are natural numbers here.
\<close>

section \<open>Descriptors\<close>

record pb_field =
  f_tag :: nat
  f_type :: u8
  data_offset :: nat
  size_offset :: int
  data_size :: nat
  array_size :: nat
  f_ptr :: nat

definition PB_SIZE_MAX :: nat where "PB_SIZE_MAX = 2 ^ 32 - 1"

definition PB_LTYPE_BOOL :: u8 where "PB_LTYPE_BOOL = 0x00"
definition PB_LTYPE_VARINT :: u8 where "PB_LTYPE_VARINT = 0x01"
definition PB_LTYPE_UVARINT :: u8 where "PB_LTYPE_UVARINT = 0x02"
definition PB_LTYPE_SVARINT :: u8 where "PB_LTYPE_SVARINT = 0x03"
definition PB_LTYPE_FIXED32 :: u8 where "PB_LTYPE_FIXED32 = 0x04"
definition PB_LTYPE_FIXED64 :: u8 where "PB_LTYPE_FIXED64 = 0x05"
definition PB_LTYPE_BYTES :: u8 where "PB_LTYPE_BYTES = 0x06"
definition PB_LTYPE_STRING :: u8 where "PB_LTYPE_STRING = 0x07"
definition PB_LTYPE_SUBMESSAGE :: u8 where "PB_LTYPE_SUBMESSAGE = 0x08"
definition PB_LTYPE_EXTENSION :: u8 where "PB_LTYPE_EXTENSION = 0x09"
definition PB_LTYPE_FIXED_LENGTH_BYTES :: u8 where "PB_LTYPE_FIXED_LENGTH_BYTES = 0x0A"

definition PB_HTYPE_REQUIRED :: u8 where "PB_HTYPE_REQUIRED = 0x00"
definition PB_HTYPE_OPTIONAL :: u8 where "PB_HTYPE_OPTIONAL = 0x10"
definition PB_HTYPE_REPEATED :: u8 where "PB_HTYPE_REPEATED = 0x20"
definition PB_HTYPE_ONEOF :: u8 where "PB_HTYPE_ONEOF = 0x30"
definition PB_ATYPE_STATIC :: u8 where "PB_ATYPE_STATIC = 0x00"
definition PB_ATYPE_POINTER :: u8 where "PB_ATYPE_POINTER = 0x80"

lemmas PB_LTYPE_defs = PB_LTYPE_BOOL_def PB_LTYPE_VARINT_def PB_LTYPE_UVARINT_def PB_LTYPE_SVARINT_def
  PB_LTYPE_FIXED32_def PB_LTYPE_FIXED64_def PB_LTYPE_BYTES_def PB_LTYPE_STRING_def PB_LTYPE_SUBMESSAGE_def
  PB_LTYPE_EXTENSION_def PB_LTYPE_FIXED_LENGTH_BYTES_def

definition PB_LTYPE :: "u8 \<Rightarrow> u8" where "PB_LTYPE x = x AND 0x0F"
definition PB_HTYPE :: "u8 \<Rightarrow> u8" where "PB_HTYPE x = x AND 0x30"
definition PB_ATYPE :: "u8 \<Rightarrow> u8" where "PB_ATYPE x = x AND 0xC0"

section \<open>The field iterator\<close>

text \<open>The array of descriptors ends with one whose tag is 0; \<open>iter_pos\<close> is an index of it.\<close>

record pb_field_iter =
  iter_start :: "pb_field list"
  iter_pos :: nat
  required_field_index :: nat
  dest_struct :: nat
  pData :: nat
  pSize :: nat

definition cur_field :: "pb_field_iter \<Rightarrow> pb_field" where
  "cur_field it = iter_start it ! iter_pos it"

definition size_addr :: "nat \<Rightarrow> pb_field \<Rightarrow> nat" where
  "size_addr data f = nat (int data + size_offset f)"

definition pb_field_iter_begin :: "pb_field list \<Rightarrow> nat \<Rightarrow> bool \<times> pb_field_iter" where
  "pb_field_iter_begin fs dest =
     (let f = fs ! 0;
          (data, size) = (if dest = 0 then (0, 0) else let data = dest + data_offset f in (data, size_addr data f)) in
      (f_tag f \<noteq> 0,
       \<lparr>iter_start = fs, iter_pos = 0, required_field_index = 0, dest_struct = dest, pData = data, pSize = size\<rparr>))"

definition pb_field_iter_next :: "pb_field_iter \<Rightarrow> bool \<times> pb_field_iter" where
  "pb_field_iter_next it =
     (let prev = cur_field it in
      if f_tag prev = 0 then (False, it)
      else
        let it = it\<lparr>iter_pos := iter_pos it + 1\<rparr>; f = cur_field it in
        if f_tag f = 0 then (False, snd (pb_field_iter_begin (iter_start it) (dest_struct it)))
        else if PB_HTYPE (f_type prev) = PB_HTYPE_ONEOF \<and> PB_HTYPE (f_type f) = PB_HTYPE_ONEOF
          \<and> data_offset f = PB_SIZE_MAX then (True, it)
        else
          let prev_size = (if PB_ATYPE (f_type prev) = PB_ATYPE_STATIC \<and> PB_HTYPE (f_type prev) = PB_HTYPE_REPEATED
                then data_size prev * array_size prev
                else if PB_ATYPE (f_type prev) = PB_ATYPE_POINTER then 8
                else data_size prev);
              req = (if PB_HTYPE (f_type prev) = PB_HTYPE_REQUIRED then required_field_index it + 1
                else required_field_index it);
              data = pData it + prev_size + data_offset f in
          (True, it\<lparr>required_field_index := req, pData := data, pSize := size_addr data f\<rparr>))"

text \<open>The loop of \<open>pb_field_iter_find\<close>; it may not end on an array without terminator.\<close>

partial_function (option) iter_find_loop :: "nat \<Rightarrow> nat \<Rightarrow> pb_field_iter \<Rightarrow> (bool \<times> pb_field_iter) option" where
  "iter_find_loop tag start it =
     (if f_tag (cur_field it) = tag \<and> PB_LTYPE (f_type (cur_field it)) \<noteq> PB_LTYPE_EXTENSION then Some (True, it)
      else let it = snd (pb_field_iter_next it) in
        if iter_pos it \<noteq> start then iter_find_loop tag start it else Some (False, it))"

definition pb_field_iter_find :: "pb_field_iter \<Rightarrow> nat \<Rightarrow> (bool \<times> pb_field_iter) option" where
  "pb_field_iter_find it tag = iter_find_loop tag (iter_pos it) it"

subsection \<open>Walking over the descriptors\<close>

text \<open>
  A descriptor array as the generator emits it: only the last tag is 0. With the
  layout \<open>offs\<close> of the structure, \<open>data_offset\<close> is the gap to the end of
  the field before, or \<open>PB_SIZE_MAX\<close> for a further member of the same union.
\<close>

definition terminated :: "pb_field list \<Rightarrow> bool" where
  "terminated fs \<longleftrightarrow> fs \<noteq> [] \<and> (\<forall>k < length fs. f_tag (fs ! k) = 0 \<longleftrightarrow> k = length fs - 1)"

definition field_space :: "pb_field \<Rightarrow> nat" where
  "field_space f = (if PB_ATYPE (f_type f) = PB_ATYPE_STATIC \<and> PB_HTYPE (f_type f) = PB_HTYPE_REPEATED
     then data_size f * array_size f else if PB_ATYPE (f_type f) = PB_ATYPE_POINTER then 8 else data_size f)"

definition same_union :: "pb_field \<Rightarrow> pb_field \<Rightarrow> bool" where
  "same_union f g \<longleftrightarrow> PB_HTYPE (f_type f) = PB_HTYPE_ONEOF \<and> PB_HTYPE (f_type g) = PB_HTYPE_ONEOF \<and> data_offset g = PB_SIZE_MAX"

definition laid_out :: "pb_field list \<Rightarrow> (nat \<Rightarrow> nat) \<Rightarrow> bool" where
  "laid_out fs offs \<longleftrightarrow> offs 0 = data_offset (fs ! 0) \<and> (\<forall>k. Suc k < length fs - 1 \<longrightarrow>
     (if same_union (fs ! k) (fs ! Suc k) then offs (Suc k) = offs k
      else data_offset (fs ! Suc k) = offs (Suc k) - (offs k + field_space (fs ! k)) \<and> offs k + field_space (fs ! k) \<le> offs (Suc k)))"

text \<open>The iterator at index \<open>k\<close>.\<close>

definition iter_at :: "pb_field list \<Rightarrow> nat \<Rightarrow> nat \<Rightarrow> pb_field_iter" where
  "iter_at fs dest k = ((\<lambda>it. snd (pb_field_iter_next it)) ^^ k) (snd (pb_field_iter_begin fs dest))"

lemma iter_at_0: "iter_at fs dest 0 = snd (pb_field_iter_begin fs dest)"
  by (simp add: iter_at_def)

lemma iter_at_Suc: "iter_at fs dest (Suc k) = snd (pb_field_iter_next (iter_at fs dest k))"
  by (simp add: iter_at_def)

lemma begin_simps: "iter_start (snd (pb_field_iter_begin fs dest)) = fs" "iter_pos (snd (pb_field_iter_begin fs dest)) = 0"
  "dest_struct (snd (pb_field_iter_begin fs dest)) = dest" "required_field_index (snd (pb_field_iter_begin fs dest)) = 0"
  "dest \<noteq> 0 \<Longrightarrow> pData (snd (pb_field_iter_begin fs dest)) = dest + data_offset (fs ! 0)"
  by (simp_all add: pb_field_iter_begin_def Let_def)

lemma next_step:
  assumes "terminated fs" "iter_start it = fs" "iter_pos it < length fs - 1"
  shows "if Suc (iter_pos it) < length fs - 1
    then \<exists>it'. pb_field_iter_next it = (True, it') \<and> iter_start it' = fs \<and> iter_pos it' = Suc (iter_pos it)
      \<and> dest_struct it' = dest_struct it
      \<and> pData it' = (if same_union (fs ! iter_pos it) (fs ! Suc (iter_pos it)) then pData it
         else pData it + field_space (fs ! iter_pos it) + data_offset (fs ! Suc (iter_pos it)))
      \<and> required_field_index it' = required_field_index it + of_bool (PB_HTYPE (f_type (fs ! iter_pos it)) = PB_HTYPE_REQUIRED)
      \<and> (pSize it = size_addr (pData it) (fs ! iter_pos it) \<and> \<not> same_union (fs ! iter_pos it) (fs ! Suc (iter_pos it))
          \<longrightarrow> pSize it' = size_addr (pData it') (fs ! Suc (iter_pos it)))
    else pb_field_iter_next it = (False, snd (pb_field_iter_begin fs (dest_struct it)))"
proof -
  have tags: "f_tag (fs ! iter_pos it) \<noteq> 0" "f_tag (fs ! Suc (iter_pos it)) = 0 \<longleftrightarrow> Suc (iter_pos it) = length fs - 1"
    using assms by (auto simp: terminated_def)
  have ne: "PB_HTYPE_ONEOF \<noteq> PB_HTYPE_REQUIRED" by (simp add: PB_HTYPE_ONEOF_def PB_HTYPE_REQUIRED_def)
  show ?thesis
    using assms(2,3) tags ne unfolding pb_field_iter_next_def cur_field_def Let_def
    by (auto simp: same_union_def field_space_def)
qed

lemma iter_at_inv:
  assumes "terminated fs" "k < length fs - 1"
  shows "iter_start (iter_at fs dest k) = fs \<and> iter_pos (iter_at fs dest k) = k \<and> dest_struct (iter_at fs dest k) = dest"
  using assms(2)
proof (induction k)
  case 0
  show ?case by (simp add: iter_at_0 begin_simps)
next
  case (Suc k)
  then have "iter_start (iter_at fs dest k) = fs" "iter_pos (iter_at fs dest k) = k" "dest_struct (iter_at fs dest k) = dest"
    by simp_all
  with next_step [OF assms(1), of "iter_at fs dest k"] Suc.prems show ?case
    by (auto simp: iter_at_Suc split: if_splits)
qed

lemma iter_at_next:
  assumes "terminated fs" "k < length fs - 1"
  shows "pb_field_iter_next (iter_at fs dest k) =
    (if Suc k < length fs - 1 then (True, iter_at fs dest (Suc k)) else (False, iter_at fs dest 0))"
  using next_step [OF assms(1), of "iter_at fs dest k"] iter_at_inv [OF assms, of dest] assms(2)
  by (auto simp: iter_at_Suc iter_at_0 split: if_splits)

lemma iter_at_data:
  assumes "terminated fs" "laid_out fs offs" "dest \<noteq> 0" "k < length fs - 1"
  shows "pData (iter_at fs dest k) = dest + offs k
    \<and> required_field_index (iter_at fs dest k) = length (filter (\<lambda>f. PB_HTYPE (f_type f) = PB_HTYPE_REQUIRED) (take k fs))"
  using assms(4)
proof (induction k)
  case 0
  show ?case using assms(2,3) by (simp add: iter_at_0 begin_simps laid_out_def)
next
  case (Suc k)
  then have IH: "pData (iter_at fs dest k) = dest + offs k"
    "required_field_index (iter_at fs dest k) = length (filter (\<lambda>f. PB_HTYPE (f_type f) = PB_HTYPE_REQUIRED) (take k fs))"
    by simp_all
  have inv: "iter_start (iter_at fs dest k) = fs" "iter_pos (iter_at fs dest k) = k"
    using iter_at_inv [OF assms(1), of k dest] Suc.prems by simp_all
  have lay: "if same_union (fs ! k) (fs ! Suc k) then offs (Suc k) = offs k
      else data_offset (fs ! Suc k) = offs (Suc k) - (offs k + field_space (fs ! k)) \<and> offs k + field_space (fs ! k) \<le> offs (Suc k)"
    using assms(2) Suc.prems unfolding laid_out_def by blast
  have req: "filter P (take (Suc k) fs) = filter P (take k fs) @ (if P (fs ! k) then [fs ! k] else [])" for P
    using Suc.prems by (simp add: take_Suc_conv_app_nth)
  obtain it' where it': "pb_field_iter_next (iter_at fs dest k) = (True, it')"
    "pData it' = (if same_union (fs ! k) (fs ! Suc k) then dest + offs k
       else dest + offs k + field_space (fs ! k) + data_offset (fs ! Suc k))"
    "required_field_index it' = required_field_index (iter_at fs dest k) + of_bool (PB_HTYPE (f_type (fs ! k)) = PB_HTYPE_REQUIRED)"
    using next_step [OF assms(1) inv(1)] Suc.prems unfolding inv(2) IH(1) by auto
  show ?case unfolding iter_at_Suc it'(1) snd_conv it'(2,3) IH(2) req using lay by auto
qed

subsection \<open>Finding a field\<close>

definition is_field :: "pb_field list \<Rightarrow> nat \<Rightarrow> nat \<Rightarrow> bool" where
  "is_field fs tag k \<longleftrightarrow> f_tag (fs ! k) = tag \<and> PB_LTYPE (f_type (fs ! k)) \<noteq> PB_LTYPE_EXTENSION"

lemma find_hit:
  "f_tag (cur_field it) = tag \<and> PB_LTYPE (f_type (cur_field it)) \<noteq> PB_LTYPE_EXTENSION \<Longrightarrow>
     iter_find_loop tag s it = Some (True, it)"
  by (simp add: iter_find_loop.simps)

lemma find_miss:
  "\<not> (f_tag (cur_field it) = tag \<and> PB_LTYPE (f_type (cur_field it)) \<noteq> PB_LTYPE_EXTENSION) \<Longrightarrow>
     snd (pb_field_iter_next it) = it' \<Longrightarrow>
     iter_find_loop tag s it = (if iter_pos it' \<noteq> s then iter_find_loop tag s it' else Some (False, it'))"
  by (subst iter_find_loop.simps) (auto simp: Let_def)

lemma cycle_reaches: "s < n \<Longrightarrow> j < n \<Longrightarrow> \<exists>i < n. (s + i) mod n = j" for n :: nat
  by (cases "s \<le> j") (auto intro: exI [of _ "j - s"] exI [of _ "j + n - s"])

lemma iter_find_loop_runs:
  assumes fs: "terminated fs" and s: "s < length fs - 1" and i: "i < length fs - 1"
    and before: "\<forall>j < i. \<not> is_field fs tag ((s + j) mod (length fs - 1))"
  shows "\<exists>k < length fs - 1. iter_find_loop tag s (iter_at fs dest ((s + i) mod (length fs - 1)))
      = Some (is_field fs tag k, iter_at fs dest k)
    \<and> (is_field fs tag k \<or> k = s \<and> (\<forall>j < length fs - 1. \<not> is_field fs tag j))"
  using i before
proof (induction "length fs - 1 - i" arbitrary: i)
  case 0
  then show ?case by simp
next
  case (Suc d)
  let ?n = "length fs - 1" and ?k = "(s + i) mod (length fs - 1)"
  have k: "?k < ?n" using s by simp
  have cur: "cur_field (iter_at fs dest ?k) = fs ! ?k"
    using iter_at_inv [OF fs k, of dest] by (simp add: cur_field_def)
  show ?case
  proof (cases "is_field fs tag ?k")
    case True
    then have "iter_find_loop tag s (iter_at fs dest ?k) = Some (True, iter_at fs dest ?k)"
      unfolding is_field_def by (intro find_hit) (simp add: cur del: One_nat_def)
    with True k show ?thesis by (intro exI [of _ ?k]) (simp del: One_nat_def)
  next
    case False
    have nxt: "snd (pb_field_iter_next (iter_at fs dest ?k)) = iter_at fs dest ((s + Suc i) mod ?n)"
      using k unfolding iter_at_next [OF fs k] add_Suc_right mod_Suc [of "s + i"] by auto
    have pos: "iter_pos (iter_at fs dest ((s + Suc i) mod ?n)) = (s + Suc i) mod ?n"
      using iter_at_inv [OF fs, of "(s + Suc i) mod ?n" dest] s by simp
    have step: "iter_find_loop tag s (iter_at fs dest ?k) =
        (if (s + Suc i) mod ?n \<noteq> s then iter_find_loop tag s (iter_at fs dest ((s + Suc i) mod ?n))
         else Some (False, iter_at fs dest ((s + Suc i) mod ?n)))"
      using find_miss [OF _ nxt] False unfolding cur is_field_def pos by blast
    have none: "\<forall>j < Suc i. \<not> is_field fs tag ((s + j) mod ?n)"
      using False Suc.prems(2) by (auto simp: less_Suc_eq)
    show ?thesis
    proof (cases "Suc i < ?n")
      case True
      have "(s + Suc i) mod ?n \<noteq> s"
      proof (cases "s + Suc i < ?n")
        case False
        then have "(s + Suc i) mod ?n = (s + Suc i - ?n) mod ?n" by (intro le_mod_geq) simp
        also have "\<dots> = s + Suc i - ?n" using True s by (intro mod_less) linarith
        finally have "(s + Suc i) mod ?n = s + Suc i - ?n" .
        then show ?thesis using False True by linarith
      qed simp
      with Suc.hyps(1) [of "Suc i", OF _ True none] Suc.hyps(2) step show ?thesis by simp
    next
      case False
      then have n: "Suc i = ?n" using Suc.prems(1) by simp
      have "(s + Suc i) mod ?n = s" unfolding n mod_add_self2 using s by (rule mod_less)
      moreover have "\<not> is_field fs tag j" if "j < ?n" for j
        using cycle_reaches [OF s that] none unfolding n by blast
      ultimately show ?thesis using step s by (intro exI [of _ s]) (auto simp: is_field_def)
    qed
  qed
qed

text \<open>Whatever is done with an iterator on a message that has fields, it is one of the \<open>iter_at\<close>.\<close>

inductive iter_reach :: "pb_field list \<Rightarrow> nat \<Rightarrow> pb_field_iter \<Rightarrow> bool" for fs dest where
  reach_begin: "iter_reach fs dest (snd (pb_field_iter_begin fs dest))"
| reach_next: "iter_reach fs dest it \<Longrightarrow> iter_reach fs dest (snd (pb_field_iter_next it))"
| reach_find: "iter_reach fs dest it \<Longrightarrow> pb_field_iter_find it tag = Some (b, it') \<Longrightarrow> iter_reach fs dest it'"

lemma iter_find_at:
  assumes "terminated fs" "k < length fs - 1"
  shows "\<exists>j < length fs - 1. pb_field_iter_find (iter_at fs dest k) tag = Some (is_field fs tag j, iter_at fs dest j)
    \<and> (is_field fs tag j \<or> j = k \<and> (\<forall>i < length fs - 1. \<not> is_field fs tag i))"
proof -
  have "iter_pos (iter_at fs dest k) = k" using iter_at_inv [OF assms] by blast
  moreover have "(k + 0) mod (length fs - 1) = k" "0 < length fs - 1" using assms(2) by simp_all
  ultimately show ?thesis
    using iter_find_loop_runs [OF assms(1,2), of 0 tag dest] by (simp add: pb_field_iter_find_def del: One_nat_def)
qed

lemma iter_reach_at:
  assumes "iter_reach fs dest it" "terminated fs" "1 < length fs"
  shows "\<exists>k < length fs - 1. it = iter_at fs dest k"
  using assms(1)
proof induction
  case reach_begin
  show ?case using assms(3) by (intro exI [of _ 0]) (simp add: iter_at_0)
next
  case (reach_next it)
  then obtain k where k: "k < length fs - 1" "it = iter_at fs dest k" by blast
  show ?case unfolding k(2) iter_at_next [OF assms(2) k(1)]
    using assms(3) by (cases "Suc k < length fs - 1") (auto intro: exI [of _ "Suc k"] exI [of _ 0])
next
  case (reach_find it tag b it')
  then obtain k where k: "k < length fs - 1" "it = iter_at fs dest k" by blast
  show ?case using iter_find_at [OF assms(2) k(1), of dest tag] reach_find.hyps(2) unfolding k(2) by auto
qed

section \<open>Values in memory\<close>

text \<open>Decoders change a stream and the memory.\<close>

record 'st pb_dctx =
  d_in :: "'st pb_istream"
  d_mem :: mem

type_synonym ('st, 'a) dop = "('st pb_dctx, 'a) op"

definition on_in :: "('st, 'a) iop \<Rightarrow> ('st, 'a) dop" where
  "on_in p c = (case p (d_in c) of (r, s) \<Rightarrow> (r, c\<lparr>d_in := s\<rparr>))"

definition store :: "nat \<Rightarrow> bytes \<Rightarrow> ('st, unit) dop" where
  "store a bs c = (Some (), c\<lparr>d_mem := mem_write a bs (d_mem c)\<rparr>)"

text \<open>\<open>pb_read\<close> into memory.\<close>

definition read_into :: "nat \<Rightarrow> nat \<Rightarrow> ('st, unit) dop" where
  "read_into a cnt = gbind (on_in (pb_read_buf cnt)) (store a)"

text \<open>The conversions of \<open>clamped\<close>: to a field of \<open>n\<close> bytes and back to 64 bits.\<close>

definition clamp_signed :: "nat \<Rightarrow> u64 \<Rightarrow> u64 option" where
  "clamp_signed n v =
     (if n = 8 then Some v
      else if n = 4 then Some (scast (ucast v :: 32 word))
      else if n = 2 then Some (scast (ucast v :: 16 word))
      else if n = 1 then Some (scast (ucast v :: 8 word))
      else None)"

definition clamp_unsigned :: "nat \<Rightarrow> u64 \<Rightarrow> u64 option" where
  "clamp_unsigned n v =
     (if n = 8 then Some v
      else if n = 4 then Some (ucast (ucast v :: 32 word))
      else if n = 2 then Some (ucast (ucast v :: 16 word))
      else if n = 1 then Some (ucast (ucast v :: 8 word))
      else None)"

definition store_clamped :: "nat \<Rightarrow> nat \<Rightarrow> u64 \<Rightarrow> u64 option \<Rightarrow> ('st, unit) dop" where
  "store_clamped dest n v clamped = (case clamped of
     None \<Rightarrow> on_in (i_error ''invalid data_size'')
   | Some w \<Rightarrow> gbind (store dest (le_bytes n (unat w))) (\<lambda>_.
       if w \<noteq> v then on_in (i_error ''integer too large'') else gret ()))"

definition dec_bool :: "pb_field \<Rightarrow> nat \<Rightarrow> ('st, unit) dop" where
  "dec_bool f dest = gbind (on_in pb_dec_bool) (\<lambda>b. store dest [of_bool b])"

definition pb_dec_varint :: "pb_field \<Rightarrow> nat \<Rightarrow> ('st, unit) dop" where
  "pb_dec_varint f dest = gbind (on_in pb_decode_varint) (\<lambda>value.
     let svalue = (if data_size f = 8 then value else scast (ucast value :: 32 word)) in
     store_clamped dest (data_size f) svalue (clamp_signed (data_size f) svalue))"

definition pb_dec_uvarint :: "pb_field \<Rightarrow> nat \<Rightarrow> ('st, unit) dop" where
  "pb_dec_uvarint f dest = gbind (on_in pb_decode_varint) (\<lambda>value.
     store_clamped dest (data_size f) value (clamp_unsigned (data_size f) value))"

definition pb_dec_svarint :: "pb_field \<Rightarrow> nat \<Rightarrow> ('st, unit) dop" where
  "pb_dec_svarint f dest = gbind (on_in pb_decode_svarint) (\<lambda>value.
     store_clamped dest (data_size f) value (clamp_signed (data_size f) value))"

definition pb_dec_fixed32 :: "pb_field \<Rightarrow> nat \<Rightarrow> ('st, unit) dop" where
  "pb_dec_fixed32 f dest = gbind (on_in pb_decode_fixed32) (\<lambda>v. store dest (le_bytes 4 (unat v)))"

definition pb_dec_fixed64 :: "pb_field \<Rightarrow> nat \<Rightarrow> ('st, unit) dop" where
  "pb_dec_fixed64 f dest = gbind (on_in pb_decode_fixed64) (\<lambda>v. store dest (le_bytes 8 (unat v)))"

text \<open>
  \<open>pb_realloc\<close> is a parameter: the block for an old pointer and a size, 0 if there is none, and
  the memory, in which the old contents have moved.
\<close>

type_synonym pb_realloc = "mem \<Rightarrow> nat \<Rightarrow> nat \<Rightarrow> nat \<times> mem"

definition allocate_field :: "pb_realloc \<Rightarrow> nat \<Rightarrow> nat \<Rightarrow> nat \<Rightarrow> ('st, unit) dop" where
  "allocate_field realloc data dsize asize c =
     (let p = mem_nat (d_mem c) data 8; check_limit = 2 ^ 32 in
      if dsize = 0 \<or> asize = 0 then on_in (i_error ''invalid size'') c
      else if (dsize \<ge> check_limit \<or> asize \<ge> check_limit) \<and> SIZE_MAX div asize < dsize
        then on_in (i_error ''size too large'') c
      else case realloc (d_mem c) p (asize * dsize) of (p, m) \<Rightarrow>
        if p = 0 then on_in (i_error ''realloc failed'') (c\<lparr>d_mem := m\<rparr>)
        else store data (le_bytes 8 p) (c\<lparr>d_mem := m\<rparr>))"

definition BYTES_OFFSET :: nat where "BYTES_OFFSET = 4"

definition pb_dec_bytes :: "pb_realloc \<Rightarrow> pb_field \<Rightarrow> nat \<Rightarrow> ('st, unit) dop" where
  "pb_dec_bytes realloc f dest = gbind (on_in pb_decode_varint32) (\<lambda>len.
     let size = unat len; alloc_size = size_add size BYTES_OFFSET;
         fill = (\<lambda>bdest. gbind (store bdest (le_bytes 4 size)) (\<lambda>_. read_into (bdest + BYTES_OFFSET) size)) in
     if size > PB_SIZE_MAX then on_in (i_error ''bytes overflow'')
     else if size > alloc_size then on_in (i_error ''size too large'')
     else if PB_ATYPE (f_type f) = PB_ATYPE_POINTER then (\<lambda>c.
       if bytes_left (d_in c) < size then on_in (i_error ''end-of-stream'') c
       else gbind (allocate_field realloc dest alloc_size 1) (\<lambda>_ c. fill (mem_nat (d_mem c) dest 8) c) c)
     else if alloc_size > data_size f then on_in (i_error ''bytes overflow'')
     else fill dest)"

text \<open>The terminator is written whether or not the contents could be read.\<close>

definition read_string :: "nat \<Rightarrow> nat \<Rightarrow> ('st, unit) dop" where
  "read_string dest sz c = (case read_into dest sz c of
     (status, c) \<Rightarrow> (status, c\<lparr>d_mem := mem_write (dest + sz) [0] (d_mem c)\<rparr>))"

definition pb_dec_string :: "pb_realloc \<Rightarrow> pb_field \<Rightarrow> nat \<Rightarrow> ('st, unit) dop" where
  "pb_dec_string realloc f dest = gbind (on_in pb_decode_varint32) (\<lambda>len.
     let size = unat len; alloc_size = unat (len + 1) in
     if alloc_size < size then on_in (i_error ''size too large'')
     else if PB_ATYPE (f_type f) = PB_ATYPE_POINTER then (\<lambda>c.
       if bytes_left (d_in c) < size then on_in (i_error ''end-of-stream'') c
       else gbind (allocate_field realloc dest alloc_size 1) (\<lambda>_ c. read_string (mem_nat (d_mem c) dest 8) size c) c)
     else if alloc_size > data_size f then on_in (i_error ''string overflow'')
     else read_string dest size)"

definition pb_dec_fixed_length_bytes :: "pb_field \<Rightarrow> nat \<Rightarrow> ('st, unit) dop" where
  "pb_dec_fixed_length_bytes f dest = gbind (on_in pb_decode_varint32) (\<lambda>len.
     let size = unat len in
     if size > PB_SIZE_MAX then on_in (i_error ''bytes overflow'')
     else if size = 0 then store dest (replicate (data_size f) 0)
     else if size \<noteq> data_size f then on_in (i_error ''incorrect fixed length bytes size'')
     else read_into dest (data_size f))"

section \<open>Values from memory\<close>

definition safe_read_bool :: "mem \<Rightarrow> nat \<Rightarrow> bool" where
  "safe_read_bool m p \<longleftrightarrow> m p \<noteq> 0"

text \<open>A signed or unsigned integer of \<open>n\<close> bytes as a 64-bit one.\<close>

definition sign_extend :: "nat \<Rightarrow> nat \<Rightarrow> u64 option" where
  "sign_extend n x =
     (if n = 1 then Some (scast (of_nat x :: 8 word))
      else if n = 2 then Some (scast (of_nat x :: 16 word))
      else if n = 4 then Some (scast (of_nat x :: 32 word))
      else if n = 8 then Some (of_nat x)
      else None)"

definition zero_extend :: "nat \<Rightarrow> nat \<Rightarrow> u64 option" where
  "zero_extend n x =
     (if n = 1 then Some (ucast (of_nat x :: 8 word))
      else if n = 2 then Some (ucast (of_nat x :: 16 word))
      else if n = 4 then Some (ucast (of_nat x :: 32 word))
      else if n = 8 then Some (of_nat x)
      else None)"

definition pb_enc_bool :: "pb_field \<Rightarrow> mem \<Rightarrow> nat \<Rightarrow> ('st, unit) oop" where
  "pb_enc_bool f m src = (let value = (if safe_read_bool m src then 1 else 0) in pb_encode_varint value)"

definition pb_enc_varint :: "pb_field \<Rightarrow> mem \<Rightarrow> nat \<Rightarrow> ('st, unit) oop" where
  "pb_enc_varint f m src = (case sign_extend (data_size f) (mem_nat m src (data_size f)) of
     None \<Rightarrow> o_error ''invalid data_size'' | Some value \<Rightarrow> pb_encode_varint value)"

definition pb_enc_uvarint :: "pb_field \<Rightarrow> mem \<Rightarrow> nat \<Rightarrow> ('st, unit) oop" where
  "pb_enc_uvarint f m src = (case zero_extend (data_size f) (mem_nat m src (data_size f)) of
     None \<Rightarrow> o_error ''invalid data_size'' | Some value \<Rightarrow> pb_encode_varint value)"

definition pb_enc_svarint :: "pb_field \<Rightarrow> mem \<Rightarrow> nat \<Rightarrow> ('st, unit) oop" where
  "pb_enc_svarint f m src = (case sign_extend (data_size f) (mem_nat m src (data_size f)) of
     None \<Rightarrow> o_error ''invalid data_size'' | Some value \<Rightarrow> pb_encode_svarint value)"

definition pb_enc_fixed32 :: "pb_field \<Rightarrow> mem \<Rightarrow> nat \<Rightarrow> ('st, unit) oop" where
  "pb_enc_fixed32 f m src = pb_encode_fixed32 (of_nat (mem_nat m src 4))"

definition pb_enc_fixed64 :: "pb_field \<Rightarrow> mem \<Rightarrow> nat \<Rightarrow> ('st, unit) oop" where
  "pb_enc_fixed64 f m src = pb_encode_fixed64 (of_nat (mem_nat m src 8))"

text \<open>\<open>field->data_size - offsetof(...)\<close> is a \<open>size_t\<close> and wraps.\<close>

definition pb_enc_bytes :: "pb_field \<Rightarrow> mem \<Rightarrow> nat \<Rightarrow> ('st, unit) oop" where
  "pb_enc_bytes f m src =
     (if src = 0 then pb_encode_string []
      else let len = mem_nat m src 4 in
        if PB_ATYPE (f_type f) = PB_ATYPE_STATIC \<and> len > size_add (data_size f) (size_mod - BYTES_OFFSET)
        then o_error ''bytes size exceeded''
        else pb_encode_string (mem_read m (src + BYTES_OFFSET) len))"

text \<open>The loop of \<open>pb_enc_string\<close>: the length of a string of at most \<open>room\<close> bytes.\<close>

fun strlen_loop :: "nat \<Rightarrow> mem \<Rightarrow> nat \<Rightarrow> nat" where
  "strlen_loop 0 m p = 0"
| "strlen_loop (Suc room) m p = (if m p \<noteq> 0 then Suc (strlen_loop room m (p + 1)) else 0)"

definition pb_enc_string :: "pb_field \<Rightarrow> mem \<Rightarrow> nat \<Rightarrow> ('st, unit) oop" where
  "pb_enc_string f m src =
     (let maximum = (if PB_ATYPE (f_type f) = PB_ATYPE_POINTER then SIZE_MAX else data_size f);
          len = (if src = 0 then 0 else strlen_loop maximum m src) in
      pb_encode_string (mem_read m src len))"

definition pb_enc_fixed_length_bytes :: "pb_field \<Rightarrow> mem \<Rightarrow> nat \<Rightarrow> ('st, unit) oop" where
  "pb_enc_fixed_length_bytes f m src = pb_encode_string (mem_read m src (data_size f))"

definition pb_encode_tag_for_field :: "pb_field \<Rightarrow> ('st, unit) oop" where
  "pb_encode_tag_for_field f =
     (let t = PB_LTYPE (f_type f) in
      if t \<in> {PB_LTYPE_BOOL, PB_LTYPE_VARINT, PB_LTYPE_UVARINT, PB_LTYPE_SVARINT}
      then pb_encode_tag PB_WT_VARINT (of_nat (f_tag f))
      else if t = PB_LTYPE_FIXED32 then pb_encode_tag PB_WT_32BIT (of_nat (f_tag f))
      else if t = PB_LTYPE_FIXED64 then pb_encode_tag PB_WT_64BIT (of_nat (f_tag f))
      else if t \<in> {PB_LTYPE_BYTES, PB_LTYPE_STRING, PB_LTYPE_SUBMESSAGE, PB_LTYPE_FIXED_LENGTH_BYTES}
      then pb_encode_tag PB_WT_STRING (of_nat (f_tag f))
      else o_error ''invalid field type'')"

section \<open>Arrays\<close>

text \<open>The items of an array at \<open>p\<close>, each given to \<open>func\<close>.\<close>

fun item_loop :: "(nat \<Rightarrow> ('st, unit) oop) \<Rightarrow> nat \<Rightarrow> nat \<Rightarrow> nat \<Rightarrow> ('st, unit) oop" where
  "item_loop func step 0 p = gret ()"
| "item_loop func step (Suc n) p = gbind (func p) (\<lambda>_. item_loop func step n (p + step))"

text \<open>\<open>pb_write\<close> with a null buffer, on a stream that only counts.\<close>

definition pb_write_null :: "nat \<Rightarrow> ('st, unit) oop" where
  "pb_write_null cnt s = (Some (), s\<lparr>bytes_written := size_add (bytes_written s) cnt\<rparr>)"

type_synonym 'st encoder = "pb_field \<Rightarrow> mem \<Rightarrow> nat \<Rightarrow> ('st, unit) oop"

definition encode_array :: "pb_field \<Rightarrow> mem \<Rightarrow> nat \<Rightarrow> nat \<Rightarrow> 'st encoder \<Rightarrow> ('st, unit) oop" where
  "encode_array f m data cnt func =
     (if cnt = 0 then gret ()
      else if PB_ATYPE (f_type f) \<noteq> PB_ATYPE_POINTER \<and> cnt > array_size f then o_error ''array max size exceeded''
      else if PB_LTYPE (f_type f) \<le> PB_LTYPE_FIXED64 then
        gbind (pb_encode_tag PB_WT_STRING (of_nat (f_tag f))) (\<lambda>_ s.
          let sizing = item_loop (func f m) (data_size f) cnt data PB_OSTREAM_SIZING;
              sz = (if PB_LTYPE (f_type f) = PB_LTYPE_FIXED32 then Some (4 * cnt)
                else if PB_LTYPE (f_type f) = PB_LTYPE_FIXED64 then Some (8 * cnt)
                else case sizing of (None, _) \<Rightarrow> None | (Some _, z) \<Rightarrow> Some (bytes_written z)) in
          case sz of None \<Rightarrow> (None, s)
          | Some n \<Rightarrow> gbind (pb_encode_varint (of_nat n)) (\<lambda>_ s.
              if o_sink s = Null_sink then pb_write_null n s
              else item_loop (func f m) (data_size f) cnt data s) s)
      else
        item_loop (\<lambda>p. gbind (pb_encode_tag_for_field f) (\<lambda>_.
          if PB_ATYPE (f_type f) = PB_ATYPE_POINTER
            \<and> (PB_LTYPE (f_type f) = PB_LTYPE_STRING \<or> PB_LTYPE (f_type f) = PB_LTYPE_BYTES)
          then func f m (mem_nat m p 8) else func f m p)) (data_size f) cnt data)"

section \<open>Integer fields\<close>

lemma byte_size_cases: "n \<in> {1, 2, 4, 8} \<Longrightarrow> n = 1 \<or> n = 2 \<or> n = 4 \<or> n = (8 :: nat)"
  by auto

lemma unat_ucast_mod: "unat (ucast v :: 'b::len word) = unat v mod 2 ^ LENGTH('b)" for v :: "'a::len word"
  by (simp add: unsigned_ucast_eq take_bit_eq_mod)

lemma bit_scast_up:
  "bit (scast (w :: 8 word) :: u64) n \<longleftrightarrow> n < 64 \<and> bit w (if n < 7 then n else 7)"
  "bit (scast (x :: 16 word) :: u64) n \<longleftrightarrow> n < 64 \<and> bit x (if n < 15 then n else 15)"
  "bit (scast (y :: 32 word) :: u64) n \<longleftrightarrow> n < 64 \<and> bit y (if n < 31 then n else 31)"
  by (auto simp: bit_simps min_def dest: bit_imp_le_length)

lemma ucast_scast_down:
  "ucast (scast (w :: 8 word) :: u64) = w" "ucast (scast (x :: 16 word) :: u64) = x" "ucast (scast (y :: 32 word) :: u64) = y"
  "scast (ucast (scast w :: u64) :: 32 word) = (scast w :: u64)" "scast (ucast (scast x :: u64) :: 32 word) = (scast x :: u64)"
proof -
  show "ucast (scast w :: u64) = w"
  proof (rule bit_eqI)
    fix n show "bit (ucast (scast w :: u64) :: 8 word) n = bit w n"
      by (cases "n < 7"; cases "n = 7") (auto simp: bit_ucast_iff bit_scast_up dest: bit_imp_le_length)
  qed
  show "ucast (scast x :: u64) = x"
  proof (rule bit_eqI)
    fix n show "bit (ucast (scast x :: u64) :: 16 word) n = bit x n"
      by (cases "n < 15"; cases "n = 15") (auto simp: bit_ucast_iff bit_scast_up dest: bit_imp_le_length)
  qed
  show "ucast (scast y :: u64) = y"
  proof (rule bit_eqI)
    fix n show "bit (ucast (scast y :: u64) :: 32 word) n = bit y n"
      by (cases "n < 31"; cases "n = 31") (auto simp: bit_ucast_iff bit_scast_up dest: bit_imp_le_length)
  qed
  show "scast (ucast (scast w :: u64) :: 32 word) = (scast w :: u64)"
    by (rule bit_eqI) (auto simp: bit_scast_up bit_ucast_iff)
  show "scast (ucast (scast x :: u64) :: 32 word) = (scast x :: u64)"
    by (rule bit_eqI) (auto simp: bit_scast_up bit_ucast_iff)
qed

lemma ucast_ucast_down:
  "ucast (ucast (w :: 8 word) :: u64) = w" "ucast (ucast (x :: 16 word) :: u64) = x" "ucast (ucast (y :: 32 word) :: u64) = y"
  by (rule bit_eqI, auto simp: bit_simps)+

lemma le_bytes_mod: "le_bytes n (v mod 256 ^ n) = le_bytes n v"
  by (metis be_bytes_mod rev_be_bytes)

lemma le_value_less: "le_value bs < 256 ^ length bs"
  by (metis be_value_less le_value_rev length_rev rev_rev_ident)

text \<open>What is loaded from \<open>n\<close> bytes fits them, and storing it gives the bytes back.\<close>

lemma sign_extend_bytes:
  assumes "n \<in> {1, 2, 4, 8}" "length bs = n"
  obtains v where "sign_extend n (le_value bs) = Some v" "clamp_signed n v = Some v" "le_bytes n (unat v) = bs"
    "(if n = 8 then v else scast (ucast v :: 32 word)) = v"
proof -
  let ?x = "le_value bs"
  have x: "?x < 256 ^ n" using le_value_less [of bs] assms(2) by simp
  have again: "le_bytes n (unat v) = bs" if "unat v mod 256 ^ n = ?x" for v :: u64
    using le_bytes_mod [of n "unat v"] le_bytes_le_value [of bs] assms(2) by (simp add: that)
  from byte_size_cases [OF assms(1)] show thesis
  proof (elim disjE)
    assume n: "n = 1"
    have "unat (scast (of_nat ?x :: 8 word) :: u64) mod 2 ^ 8 = unat (of_nat ?x :: 8 word)"
      using unat_ucast_mod [of "scast (of_nat ?x :: 8 word) :: u64", where ?'b = 8] by (simp add: ucast_scast_down)
    then show thesis using n x again [of "scast (of_nat ?x :: 8 word)"] that [of "scast (of_nat ?x :: 8 word)"]
      by (simp add: sign_extend_def clamp_signed_def ucast_scast_down unsigned_of_nat take_bit_nat_eq_self)
  next
    assume n: "n = 2"
    have "unat (scast (of_nat ?x :: 16 word) :: u64) mod 2 ^ 16 = unat (of_nat ?x :: 16 word)"
      using unat_ucast_mod [of "scast (of_nat ?x :: 16 word) :: u64", where ?'b = 16] by (simp add: ucast_scast_down)
    then show thesis using n x again [of "scast (of_nat ?x :: 16 word)"] that [of "scast (of_nat ?x :: 16 word)"]
      by (simp add: sign_extend_def clamp_signed_def ucast_scast_down unsigned_of_nat take_bit_nat_eq_self)
  next
    assume n: "n = 4"
    have "unat (scast (of_nat ?x :: 32 word) :: u64) mod 2 ^ 32 = unat (of_nat ?x :: 32 word)"
      using unat_ucast_mod [of "scast (of_nat ?x :: 32 word) :: u64", where ?'b = 32] by (simp add: ucast_scast_down)
    then show thesis using n x again [of "scast (of_nat ?x :: 32 word)"] that [of "scast (of_nat ?x :: 32 word)"]
      by (simp add: sign_extend_def clamp_signed_def ucast_scast_down unsigned_of_nat take_bit_nat_eq_self)
  next
    assume n: "n = 8"
    then show thesis using x again [of "of_nat ?x"] that [of "of_nat ?x"]
      by (simp add: sign_extend_def clamp_signed_def unsigned_of_nat take_bit_nat_eq_self)
  qed
qed

lemma zero_extend_bytes:
  assumes "n \<in> {1, 2, 4, 8}" "length bs = n"
  obtains v where "zero_extend n (le_value bs) = Some v" "clamp_unsigned n v = Some v" "le_bytes n (unat v) = bs"
proof -
  let ?x = "le_value bs"
  have x: "?x < 256 ^ n" using le_value_less [of bs] assms(2) by simp
  have again: "le_bytes n ?x = bs" using le_bytes_le_value [of bs] assms(2) by simp
  from byte_size_cases [OF assms(1)] show thesis
    using x again that
    by (elim disjE) (simp_all add: zero_extend_def clamp_unsigned_def ucast_ucast_down unsigned_of_nat
      unat_ucast_mod take_bit_nat_eq_self)
qed

text \<open>The contract of a field type of \<open>n\<close> bytes: what is stored is written, and reading it stores the same.\<close>

abbreviation dctx :: "bytes \<Rightarrow> nat \<Rightarrow> string option \<Rightarrow> mem \<Rightarrow> 'st pb_dctx" where
  "dctx bs n e m \<equiv> \<lparr>d_in = ibuf bs n e, d_mem = m\<rparr>"

locale field_codec =
  fixes n :: nat and ok :: "bytes \<Rightarrow> bool" and image :: "bytes \<Rightarrow> bytes"
    and enc :: "mem \<Rightarrow> nat \<Rightarrow> (unit, unit) oop" and dec :: "nat \<Rightarrow> (unit, unit) dop"
  assumes enc_image: "ok (mem_read m src n) \<Longrightarrow> enc m src = pb_write (image (mem_read m src n))"
    and dec_image: "ok bs \<Longrightarrow> length bs = n \<Longrightarrow>
      dec dest (dctx (image bs @ rest) (length (image bs) + k) e m) = (Some (), dctx rest k e (mem_write dest bs m))"
    and image_nonempty: "ok bs \<Longrightarrow> length bs = n \<Longrightarrow> image bs \<noteq> []"
    and image_short: "ok bs \<Longrightarrow> length bs = n \<Longrightarrow> length (image bs) < size_mod"

definition signed_image :: "bytes \<Rightarrow> bytes" where
  "signed_image bs = varint_bytes (the (sign_extend (length bs) (le_value bs)))"

definition unsigned_image :: "bytes \<Rightarrow> bytes" where
  "unsigned_image bs = varint_bytes (the (zero_extend (length bs) (le_value bs)))"

definition zigzag_image :: "bytes \<Rightarrow> bytes" where
  "zigzag_image bs = varint_bytes (zigzag (the (sign_extend (length bs) (le_value bs))))"

lemma on_in_bind: "p s = (Some a, s') \<Longrightarrow> gbind (on_in p) f \<lparr>d_in = s, d_mem = m\<rparr> = f a \<lparr>d_in = s', d_mem = m\<rparr>"
  by (simp add: gbind_def on_in_def)

lemma store_clamped_fits:
  "clamped = Some v \<Longrightarrow> le_bytes n (unat v) = bs \<Longrightarrow>
     store_clamped dest n v clamped \<lparr>d_in = s, d_mem = m\<rparr> = (Some (), \<lparr>d_in = s, d_mem = mem_write dest bs m\<rparr>)"
  by (simp add: store_clamped_def store_def gbind_def gret_def)

interpretation varint_field: field_codec "data_size f" "\<lambda>_. data_size f \<in> {1, 2, 4, 8}" signed_image
  "pb_enc_varint f" "pb_dec_varint f" for f
proof unfold_locales
  fix m src assume n: "data_size f \<in> {1, 2, 4, 8}"
  let ?bs = "mem_read m src (data_size f)"
  obtain v where "sign_extend (data_size f) (le_value ?bs) = Some v" by (rule sign_extend_bytes [OF n, of ?bs]) simp_all
  then show "pb_enc_varint f m src = pb_write (signed_image ?bs)"
    by (simp add: pb_enc_varint_def signed_image_def mem_nat_def pb_encode_varint_write)
next
  fix bs rest :: bytes and dest k e m assume n: "data_size f \<in> {1, 2, 4, 8}" and bs: "length bs = data_size f"
  obtain v where v: "sign_extend (data_size f) (le_value bs) = Some v" "clamp_signed (data_size f) v = Some v"
    "le_bytes (data_size f) (unat v) = bs" "(if data_size f = 8 then v else scast (ucast v :: 32 word)) = v"
    by (rule sign_extend_bytes [OF n bs])
  show "pb_dec_varint f dest (dctx (signed_image bs @ rest) (length (signed_image bs) + k) e m)
      = (Some (), dctx rest k e (mem_write dest bs m))"
    unfolding pb_dec_varint_def signed_image_def bs v(1) option.sel
    by (simp only: on_in_bind [where p = pb_decode_varint, OF pb_decode_varint_bytes] Let_def v(4) store_clamped_fits [OF v(2,3)])
qed (simp_all add: signed_image_def length_varint varint_short)

interpretation uvarint_field: field_codec "data_size f" "\<lambda>_. data_size f \<in> {1, 2, 4, 8}" unsigned_image
  "pb_enc_uvarint f" "pb_dec_uvarint f" for f
proof unfold_locales
  fix m src assume n: "data_size f \<in> {1, 2, 4, 8}"
  let ?bs = "mem_read m src (data_size f)"
  obtain v where "zero_extend (data_size f) (le_value ?bs) = Some v" by (rule zero_extend_bytes [OF n, of ?bs]) simp_all
  then show "pb_enc_uvarint f m src = pb_write (unsigned_image ?bs)"
    by (simp add: pb_enc_uvarint_def unsigned_image_def mem_nat_def pb_encode_varint_write)
next
  fix bs rest :: bytes and dest k e m assume n: "data_size f \<in> {1, 2, 4, 8}" and bs: "length bs = data_size f"
  obtain v where v: "zero_extend (data_size f) (le_value bs) = Some v" "clamp_unsigned (data_size f) v = Some v"
    "le_bytes (data_size f) (unat v) = bs"
    by (rule zero_extend_bytes [OF n bs])
  show "pb_dec_uvarint f dest (dctx (unsigned_image bs @ rest) (length (unsigned_image bs) + k) e m)
      = (Some (), dctx rest k e (mem_write dest bs m))"
    unfolding pb_dec_uvarint_def unsigned_image_def bs v(1) option.sel
    by (simp only: on_in_bind [where p = pb_decode_varint, OF pb_decode_varint_bytes] store_clamped_fits [OF v(2,3)])
qed (simp_all add: unsigned_image_def length_varint varint_short)

interpretation svarint_field: field_codec "data_size f" "\<lambda>_. data_size f \<in> {1, 2, 4, 8}" zigzag_image
  "pb_enc_svarint f" "pb_dec_svarint f" for f
proof unfold_locales
  fix m src assume n: "data_size f \<in> {1, 2, 4, 8}"
  let ?bs = "mem_read m src (data_size f)"
  obtain v where "sign_extend (data_size f) (le_value ?bs) = Some v" by (rule sign_extend_bytes [OF n, of ?bs]) simp_all
  then show "pb_enc_svarint f m src = pb_write (zigzag_image ?bs)"
    by (simp add: pb_enc_svarint_def zigzag_image_def mem_nat_def pb_encode_svarint_write)
next
  fix bs rest :: bytes and dest k e m assume n: "data_size f \<in> {1, 2, 4, 8}" and bs: "length bs = data_size f"
  obtain v where v: "sign_extend (data_size f) (le_value bs) = Some v" "clamp_signed (data_size f) v = Some v"
    "le_bytes (data_size f) (unat v) = bs"
    by (rule sign_extend_bytes [OF n bs])
  show "pb_dec_svarint f dest (dctx (zigzag_image bs @ rest) (length (zigzag_image bs) + k) e m)
      = (Some (), dctx rest k e (mem_write dest bs m))"
    unfolding pb_dec_svarint_def zigzag_image_def bs v(1) option.sel
    by (simp only: on_in_bind [where p = pb_decode_svarint, OF pb_decode_svarint_bytes] store_clamped_fits [OF v(2,3)])
qed (simp_all add: zigzag_image_def length_varint varint_short)

lemma le_bytes_digits: "le_bytes n x = map (\<lambda>i. of_nat (x div 2 ^ (8 * i))) [0..<n]"
proof (induction n arbitrary: x)
  case (Suc n)
  have "x div 256 div 2 ^ (8 * i) = x div 2 ^ (8 * Suc i)" for i
    by (simp add: div_mult2_eq [symmetric] power_add)
  then show ?case unfolding le_bytes.simps Suc map_upt_Suc by simp
qed simp

lemma fixed_bytes_le: "fixed32_bytes v = le_bytes 4 (unat v)" "fixed64_bytes w = le_bytes 8 (unat w)"
proof -
  have byte: "of_nat (unat x div 2 ^ k) = (ucast (drop_bit k x) :: u8)" for x :: "'a::len word" and k
  proof -
    have "unat (drop_bit k x) = unat x div 2 ^ k" unfolding unat_drop_bit_eq by (rule drop_bit_eq_div)
    then show ?thesis by (metis of_nat_unat)
  qed
  show "fixed32_bytes v = le_bytes 4 (unat v)" "fixed64_bytes w = le_bytes 8 (unat w)"
    unfolding le_bytes_digits byte by (simp_all add: fixed32_bytes_def fixed64_bytes_def upt_rec)
qed

lemma fixed_of_bytes:
  "length bs = 4 \<Longrightarrow> fixed32_bytes (of_nat (le_value bs)) = bs"
  "length bs = 8 \<Longrightarrow> fixed64_bytes (of_nat (le_value bs)) = bs"
  using le_value_less [of bs] le_bytes_le_value [of bs]
  by (simp_all add: fixed_bytes_le unsigned_of_nat take_bit_nat_eq_self)

lemma pb_decode_fixed_bytes:
  "pb_decode_fixed32 (ibuf (fixed32_bytes v @ rest) (length (fixed32_bytes v) + n) e) = (Some v, ibuf rest n e)"
  "pb_decode_fixed64 (ibuf (fixed64_bytes w @ rest) (length (fixed64_bytes w) + n) e) = (Some w, ibuf rest n e)"
  using join_fixed32 [of v] join_fixed64 [of w]
  by (simp_all add: pb_decode_fixed32_def pb_decode_fixed64_def gbind_def pb_read_buf_ibuf gret_def
    fixed32_bytes_def fixed64_bytes_def or.assoc)

interpretation fixed32_field: field_codec 4 "\<lambda>_. True" "\<lambda>bs. bs" "pb_enc_fixed32 f" "pb_dec_fixed32 f" for f
proof unfold_locales
  fix m src
  show "pb_enc_fixed32 f m src = pb_write (mem_read m src 4)"
    by (simp add: pb_enc_fixed32_def mem_nat_def pb_encode_fixed_write fixed_of_bytes)
next
  fix bs rest :: bytes and dest k e m assume bs: "length bs = 4"
  obtain v where v: "fixed32_bytes v = bs" "le_bytes 4 (unat v) = bs"
    using fixed_of_bytes(1) [OF bs] by (metis fixed_bytes_le(1))
  have "pb_decode_fixed32 (ibuf (bs @ rest) (length bs + k) e :: unit pb_istream) = (Some v, ibuf rest k e)"
    using pb_decode_fixed_bytes(1) [of v rest k e] unfolding v .
  then show "pb_dec_fixed32 f dest (dctx (bs @ rest) (length bs + k) e m :: unit pb_dctx) = (Some (), dctx rest k e (mem_write dest bs m))"
    by (simp add: pb_dec_fixed32_def gbind_def on_in_def store_def v)
next
  fix bs :: bytes assume "length bs = 4"
  then show "bs \<noteq> []" "length bs < size_mod" by (auto simp: size_mod_def)
qed

interpretation fixed64_field: field_codec 8 "\<lambda>_. True" "\<lambda>bs. bs" "pb_enc_fixed64 f" "pb_dec_fixed64 f" for f
proof unfold_locales
  fix m src
  show "pb_enc_fixed64 f m src = pb_write (mem_read m src 8)"
    by (simp add: pb_enc_fixed64_def mem_nat_def pb_encode_fixed_write fixed_of_bytes)
next
  fix bs rest :: bytes and dest k e m assume bs: "length bs = 8"
  obtain v where v: "fixed64_bytes v = bs" "le_bytes 8 (unat v) = bs"
    using fixed_of_bytes(2) [OF bs] by (metis fixed_bytes_le(2))
  have "pb_decode_fixed64 (ibuf (bs @ rest) (length bs + k) e :: unit pb_istream) = (Some v, ibuf rest k e)"
    using pb_decode_fixed_bytes(2) [of v rest k e] unfolding v .
  then show "pb_dec_fixed64 f dest (dctx (bs @ rest) (length bs + k) e m :: unit pb_dctx) = (Some (), dctx rest k e (mem_write dest bs m))"
    by (simp add: pb_dec_fixed64_def gbind_def on_in_def store_def v)
next
  fix bs :: bytes assume "length bs = 8"
  then show "bs \<noteq> []" "length bs < size_mod" by (auto simp: size_mod_def)
qed

lemma varint_0_1: "varint_bytes 0 = [0]" "varint_bytes 1 = [1]"
  by (simp_all add: varint_bytes_small)

interpretation bool_field: field_codec 1 "\<lambda>bs. bs = [0] \<or> bs = [1]" "\<lambda>bs. bs" "pb_enc_bool f" "dec_bool f" for f
proof unfold_locales
  fix m src assume "mem_read m src 1 = [0] \<or> mem_read m src 1 = [1]"
  then show "pb_enc_bool f m src = pb_write (mem_read m src 1)"
    by (auto simp: pb_enc_bool_def safe_read_bool_def mem_read_def pb_encode_varint_write varint_0_1)
next
  fix bs rest :: bytes and dest k e m assume bs: "bs = [0] \<or> bs = [1]"
  have "pb_decode_varint32 (ibuf (bs @ rest) (length bs + k) e :: unit pb_istream) = (Some (of_bool (bs = [1])), ibuf rest k e)"
    using bs varint32_fits [of 0 rest k e] varint32_fits [of 1 rest k e] by (auto simp: varint_0_1)
  then have "pb_dec_bool (ibuf (bs @ rest) (length bs + k) e :: unit pb_istream) = (Some (bs = [1]), ibuf rest k e)"
    by (simp add: pb_dec_bool_def gbind_def gret_def)
  then show "dec_bool f dest (dctx (bs @ rest) (length bs + k) e m :: unit pb_dctx) = (Some (), dctx rest k e (mem_write dest bs m))"
    using bs by (auto simp: dec_bool_def gbind_def on_in_def store_def)
qed (auto simp: size_mod_def)

section \<open>Packed arrays\<close>

text \<open>
  The loop of \<open>decode_static_field\<close> over a packed array, with the counter \<open>*size\<close> in memory;
  \<open>False\<close> when an item could not be read.
\<close>

partial_function (option) packed_loop ::
  "(nat \<Rightarrow> ('st, unit) dop) \<Rightarrow> pb_field \<Rightarrow> nat \<Rightarrow> nat \<Rightarrow> 'st pb_dctx \<Rightarrow> (bool \<times> 'st pb_dctx) option" where
  "packed_loop func f data psize c =
     (let cnt = mem_nat (d_mem c) psize 4 in
      if bytes_left (d_in c) > 0 \<and> cnt < array_size f then
        (case func (data + data_size f * cnt) c of
          (None, c) \<Rightarrow> Some (False, c)
        | (Some _, c) \<Rightarrow> packed_loop func f data psize
            (c\<lparr>d_mem := mem_write psize (le_bytes 4 (mem_nat (d_mem c) psize 4 + 1)) (d_mem c)\<rparr>))
      else Some (True, c))"

definition decode_packed :: "(nat \<Rightarrow> ('st, unit) dop) \<Rightarrow> pb_field \<Rightarrow> nat \<Rightarrow> nat
    \<Rightarrow> 'st pb_dctx \<Rightarrow> (unit option \<times> 'st pb_dctx) option" where
  "decode_packed func f data psize c = (case on_in pb_make_string_substream c of
     (None, c) \<Rightarrow> Some (None, c)
   | (Some sub, c) \<Rightarrow>
       (case packed_loop func f data psize \<lparr>d_in = sub, d_mem = d_mem c\<rparr> of
         None \<Rightarrow> None
       | Some (status, sc) \<Rightarrow>
           let c = c\<lparr>d_mem := d_mem sc\<rparr> in
           if bytes_left (d_in sc) \<noteq> 0
           then Some (on_in (\<lambda>s. i_error ''array overflow'' (shared_source (d_in sc) s)) c)
           else case on_in (pb_close_string_substream (d_in sc)) c of
             (None, c) \<Rightarrow> Some (None, c)
           | (Some _, c) \<Rightarrow> Some (if status then Some () else None, c)))"

end
