(* ===== verification/PB_Arrays.thy ===== *)
theory PB_Arrays
  imports PB_Fields
begin

text \<open>
  Whole fields of nanopb: the tag and the value of a field as they go over the wire, the
  skipping of fields that the receiver does not know, packed arrays, and the ranges of
  the integer types. The contract \<open>field_codec\<close> of the field types carries the proofs about
  arrays.
\<close>

section \<open>Tags\<close>

lemma word_eq_unatI: "unat a = unat b \<Longrightarrow> a = b" for a b :: "'a::len word"
  by (simp only: unsigned_word_eqI)

lemma tag_word:
  assumes "t < 2 ^ 29" "w < (8 :: nat)"
  shows "unat (push_bit 3 (ucast (of_nat t :: u32)) OR ucast (of_nat w :: u32) :: u64) = 8 * t + w"
proof -
  have t: "unat (of_nat t :: u32) = t" and w: "unat (of_nat w :: u32) = w"
    using assms by (simp_all add: unsigned_of_nat take_bit_nat_eq_self)
  have lo: "unat (ucast (of_nat w :: u32) :: u64) < 2 ^ 3" using assms(2) by (simp add: unat_ucast_u32 w)
  have "unat (push_bit 3 (ucast (of_nat t :: u32)) :: u64) = 8 * t"
    using assms(1) by (simp add: unat_push_bit unat_ucast_u32 t)
  then show ?thesis unfolding push_or_add [OF lo]
    using assms by (simp add: unat_word_ariths(1) unat_ucast_u32 w)
qed

definition tag_bytes :: "nat \<Rightarrow> nat \<Rightarrow> bytes" where
  "tag_bytes w t = varint_bytes (of_nat (8 * t + w))"

lemma pb_encode_tag_write:
  assumes "t < 2 ^ 29" "w < 8"
  shows "pb_encode_tag (of_nat w) (of_nat t) = pb_write (tag_bytes w t)"
proof -
  have "push_bit 3 (ucast (of_nat t :: u32)) OR ucast (of_nat w :: u32) = (of_nat (8 * t + w) :: u64)"
  proof (rule word_eq_unatI)
    have "unat (of_nat (8 * t + w) :: u64) = 8 * t + w"
      using assms by (simp add: unsigned_of_nat take_bit_nat_eq_self del: of_nat_add of_nat_mult)
    with tag_word [OF assms] show "unat (push_bit 3 (ucast (of_nat t :: u32)) OR ucast (of_nat w :: u32) :: u64)
        = unat (of_nat (8 * t + w) :: u64)" by (simp only:)
  qed
  then show ?thesis by (simp add: pb_encode_tag_def Let_def tag_bytes_def pb_encode_varint_write)
qed

lemma varint32_eof_of:
  "pb_decode_varint32 s = (Some v, s') \<Longrightarrow> pb_decode_varint32_eof s = (Some v, fst (snd (pb_decode_varint32_eof s)), s')"
  by (cases "pb_decode_varint32_eof s") (auto simp: pb_decode_varint32_def)

lemma pb_decode_tag_bytes:
  assumes "t < 2 ^ 29" "w < 8" "0 < t"
  shows "pb_decode_tag (ibuf (tag_bytes w t @ rest) (length (tag_bytes w t) + n) e :: 'st pb_istream) = (Some (of_nat w, of_nat t), False, ibuf rest n e)"
proof -
  let ?v = "of_nat (8 * t + w) :: u64"
  have v: "unat ?v = 8 * t + w" using assms by (simp add: unsigned_of_nat take_bit_nat_eq_self del: of_nat_add of_nat_mult)
  have u: "unat (ucast ?v :: u32) = 8 * t + w"
    using assms by (simp add: unat_ucast_mod v del: of_nat_add of_nat_mult)
  have nz: "ucast ?v \<noteq> (0 :: u32)" using u assms(3) by (metis add_is_0 mult_is_0 not_gr_zero unat_0 zero_neq_numeral)
  have "unat ?v < 2 ^ 32" using assms by (simp only: v) simp
  from varint32_eof_of [OF varint32_fits [OF this]]
  have d: "\<exists>eof. pb_decode_varint32_eof (ibuf (varint_bytes ?v @ rest) (length (varint_bytes ?v) + n) e :: 'st pb_istream)
      = (Some (ucast ?v), eof, ibuf rest n e)" by blast
  have lo: "x AND 7 = (of_nat w :: u32)" if "unat x = 8 * t + w" for x :: u32
  proof (rule word_eq_unatI)
    have "unat (x AND mask 3) = (8 * t + w) mod 8" by (simp add: unat_and_mask that)
    then show "unat (x AND 7) = unat (of_nat w :: u32)"
      using assms(2) by (simp add: mask_eq_exp_minus_1 unsigned_of_nat take_bit_nat_eq_self)
  qed
  have hi: "drop_bit 3 x = (of_nat t :: u32)" if "unat x = 8 * t + w" for x :: u32
  proof (rule word_eq_unatI)
    have "unat (drop_bit 3 x) = (8 * t + w) div 2 ^ 3"
      unfolding unat_drop_bit_eq that by (rule drop_bit_eq_div)
    then show "unat (drop_bit 3 x) = unat (of_nat t :: u32)"
      using assms(1,2) by (simp add: unsigned_of_nat take_bit_nat_eq_self)
  qed
  from d show ?thesis unfolding tag_bytes_def pb_decode_tag_def using nz lo [OF u] hi [OF u] by (auto simp del: of_nat_add of_nat_mult)
qed

section \<open>Arrays of items\<close>

definition blocks :: "mem \<Rightarrow> nat \<Rightarrow> nat \<Rightarrow> nat \<Rightarrow> bytes list" where
  "blocks m p n cnt = map (\<lambda>i. mem_read m (p + n * i) n) [0..<cnt]"

lemma blocks_Suc: "blocks m p n (Suc cnt) = mem_read m p n # blocks m (p + n) n cnt"
  unfolding blocks_def map_upt_Suc by (simp add: add.assoc)

lemma blocks_simps: "length (blocks m p n cnt) = cnt" "i < cnt \<Longrightarrow> blocks m p n cnt ! i = mem_read m (p + n * i) n"
  by (simp_all add: blocks_def)

text \<open>The memory after the items \<open>bss\<close> have been stored from index \<open>k\<close> on, with the counter at \<open>psize\<close>.\<close>

fun store_items :: "nat \<Rightarrow> nat \<Rightarrow> nat \<Rightarrow> nat \<Rightarrow> bytes list \<Rightarrow> mem \<Rightarrow> mem" where
  "store_items n data psize k [] m = m"
| "store_items n data psize k (bs # bss) m =
     store_items n data psize (Suc k) bss (mem_write psize (le_bytes 4 (Suc k)) (mem_write (data + n * k) bs m))"

definition apart :: "nat \<Rightarrow> nat \<Rightarrow> nat \<Rightarrow> bool" where
  "apart data len psize \<longleftrightarrow> psize + 4 \<le> data \<or> data + len \<le> psize"

lemma item_range: "k < maximum \<Longrightarrow> n * k + n \<le> n * maximum" for n :: nat
  by (metis Suc_leI mult_Suc_right add.commute mult_le_mono2)

lemma mem_nat_counter:
  "k \<le> PB_SIZE_MAX \<Longrightarrow> mem_nat (mem_write psize (le_bytes 4 k) m) psize 4 = k"
  by (simp add: mem_nat_def byte_simps PB_SIZE_MAX_def)

lemma store_items_effect:
  assumes "\<forall>bs \<in> set bss. length bs = n" "apart data (n * maximum) psize" "k + length bss \<le> maximum" "maximum \<le> PB_SIZE_MAX"
    and "mem_nat m psize 4 = k"
  shows "mem_nat (store_items n data psize k bss m) psize 4 = k + length bss
    \<and> (\<forall>i < length bss. mem_read (store_items n data psize k bss m) (data + n * (k + i)) n = bss ! i)
    \<and> (\<forall>i < k. mem_read (store_items n data psize k bss m) (data + n * i) n = mem_read m (data + n * i) n)
    \<and> (\<forall>a. \<not> (psize \<le> a \<and> a < psize + 4) \<and> \<not> (data \<le> a \<and> a < data + n * maximum)
        \<longrightarrow> store_items n data psize k bss m a = m a)"
  using assms(1,3,5)
proof (induction bss arbitrary: k m)
  case Nil
  then show ?case by simp
next
  case (Cons bs bss)
  let ?m1 = "mem_write (data + n * k) bs m" and ?m = "mem_write psize (le_bytes 4 (Suc k)) (mem_write (data + n * k) bs m)"
  have bs: "length bs = n" and k: "k < maximum" using Cons.prems by simp_all
  have kr: "n * k + n \<le> n * maximum" using k by (rule item_range)
  have cnt: "mem_nat ?m psize 4 = Suc k" using Cons.prems(2) assms(4) by (intro mem_nat_counter) simp
  have sz: "mem_read ?m (data + n * i) n = mem_read ?m1 (data + n * i) n" if "i \<le> k" for i
  proof -
    have "n * i + n \<le> n * maximum" using that k by (intro item_range) simp
    then show ?thesis using assms(2) by (intro mem_read_other) (auto simp: apart_def)
  qed
  have new: "mem_read ?m (data + n * k) n = bs" using sz [of k] bs by simp
  have old: "mem_read ?m (data + n * i) n = mem_read m (data + n * i) n" if "i < k" for i
    using sz [of i] that item_range [OF that, of n] bs by (simp add: mem_read_other)
  have out: "?m a = m a" if "\<not> (psize \<le> a \<and> a < psize + 4)" "\<not> (data \<le> a \<and> a < data + n * maximum)" for a
    using that kr bs by (auto simp: mem_write_def)
  have IH: "mem_nat (store_items n data psize (Suc k) bss ?m) psize 4 = Suc k + length bss
    \<and> (\<forall>i < length bss. mem_read (store_items n data psize (Suc k) bss ?m) (data + n * (Suc k + i)) n = bss ! i)
    \<and> (\<forall>i < Suc k. mem_read (store_items n data psize (Suc k) bss ?m) (data + n * i) n = mem_read ?m (data + n * i) n)
    \<and> (\<forall>a. \<not> (psize \<le> a \<and> a < psize + 4) \<and> \<not> (data \<le> a \<and> a < data + n * maximum)
        \<longrightarrow> store_items n data psize (Suc k) bss ?m a = ?m a)"
    using Cons.prems by (intro Cons.IH cnt) simp_all
  show ?case
  proof (intro conjI allI impI)
    fix i assume "i < length (bs # bss)"
    then show "mem_read (store_items n data psize k (bs # bss) m) (data + n * (k + i)) n = (bs # bss) ! i"
      using IH new by (cases i) auto
  next
    fix i assume "i < k"
    then show "mem_read (store_items n data psize k (bs # bss) m) (data + n * i) n = mem_read m (data + n * i) n"
      using IH old by simp
  qed (use IH out in auto)
qed

context field_codec
begin

definition packed_bytes :: "bytes list \<Rightarrow> bytes" where
  "packed_bytes bss = concat (map image bss)"

lemma item_loop_writes:
  "\<forall>bs \<in> set (blocks m p n cnt). ok bs \<Longrightarrow>
     item_loop (enc m) n cnt p = each pb_write (map image (blocks m p n cnt))"
proof (induction cnt arbitrary: p)
  case (Suc cnt)
  then show ?case by (simp add: blocks_Suc enc_image)
qed (simp add: blocks_def)

lemma images_short:
  "\<forall>bs \<in> set bss. ok bs \<and> length bs = n \<Longrightarrow> \<forall>x \<in> set (map image bss). length x < size_mod"
  using image_short by auto

lemma encode_array_writes:
  assumes ok: "\<forall>bs \<in> set (blocks m p n cnt). ok bs" and f: "data_size f = n" "PB_LTYPE (f_type f) \<le> PB_LTYPE_FIXED64"
    "PB_ATYPE (f_type f) = PB_ATYPE_POINTER \<or> cnt \<le> array_size f" "0 < f_tag f" "f_tag f < 2 ^ 29"
    and cnt: "0 < cnt" "length (packed_bytes (blocks m p n cnt)) < size_mod"
    and fixed: "PB_LTYPE (f_type f) = PB_LTYPE_FIXED32 \<Longrightarrow> length (packed_bytes (blocks m p n cnt)) = 4 * cnt"
      "PB_LTYPE (f_type f) = PB_LTYPE_FIXED64 \<Longrightarrow> length (packed_bytes (blocks m p n cnt)) = 8 * cnt"
  shows "encode_array f m p cnt (\<lambda>_. enc) = each pb_write (tag_bytes 2 (f_tag f)
    # varint_bytes (of_nat (length (packed_bytes (blocks m p n cnt)))) # map image (blocks m p n cnt))"
proof -
  let ?bss = "blocks m p n cnt"
  let ?len = "length (packed_bytes ?bss)"
  have tag: "pb_encode_tag PB_WT_STRING (of_nat (f_tag f)) = pb_write (tag_bytes 2 (f_tag f))"
    using pb_encode_tag_write [of "f_tag f" 2] f(5) by (simp add: PB_WT_STRING_def)
  have items: "item_loop (enc m) n cnt p = each pb_write (map image ?bss)" by (rule item_loop_writes [OF ok])
  have sizing: "item_loop (enc m) n cnt p PB_OSTREAM_SIZING = (Some (), PB_OSTREAM_SIZING\<lparr>bytes_written := ?len\<rparr>)"
    unfolding items PB_OSTREAM_SIZING_def each_pb_write_sizing using cnt by (auto simp: packed_bytes_def blocks_def)
  have null: "pb_write_null ?len s = each pb_write (map image ?bss) s" if "o_sink s = Null_sink" for s :: "unit pb_ostream"
  proof -
    have s: "s = \<lparr>o_sink = Null_sink, max_size = max_size s, bytes_written = bytes_written s, o_errmsg = o_errmsg s\<rparr>"
      using that by (cases s) simp
    have ne: "?bss \<noteq> []" using cnt(1) by (simp add: blocks_def)
    show ?thesis
      by (subst (1 2) s) (simp add: each_pb_write_sizing pb_write_null_def size_add_def packed_bytes_def ne)
  qed
  have sz: "(if PB_LTYPE (f_type f) = PB_LTYPE_FIXED32 then Some (4 * cnt)
      else if PB_LTYPE (f_type f) = PB_LTYPE_FIXED64 then Some (8 * cnt)
      else case item_loop (enc m) n cnt p PB_OSTREAM_SIZING of (None, _) \<Rightarrow> None | (Some _, z) \<Rightarrow> Some (bytes_written z)) = Some ?len"
    using fixed by (simp add: sizing)
  have tail: "(\<lambda>_ s. if o_sink s = Null_sink then pb_write_null ?len s else item_loop (enc m) n cnt p s)
      = (\<lambda>_ :: unit. each pb_write (map image ?bss))"
    by (auto simp: fun_eq_iff null items)
  have guards: "cnt \<noteq> 0" "\<not> (PB_ATYPE (f_type f) \<noteq> PB_ATYPE_POINTER \<and> cnt > array_size f)" using cnt f by auto
  show ?thesis
    unfolding encode_array_def tag f(1) Let_def sz option.case tail if_not_P [OF guards(1)] if_not_P [OF guards(2)] if_P [OF f(2)]
    by (simp add: pb_encode_varint_write fun_eq_iff)
qed

end

context field_codec
begin

lemma packed_loop_reads:
  assumes "\<forall>bs \<in> set bss. ok bs \<and> length bs = n" "data_size f = n" "k + length bss \<le> array_size f" "array_size f \<le> PB_SIZE_MAX"
    and "apart data (n * array_size f) psize" "mem_nat m psize 4 = k"
  shows "packed_loop dec f data psize (dctx (packed_bytes bss @ rest) (length (packed_bytes bss)) e m)
    = Some (True, dctx rest 0 e (store_items n data psize k bss m))"
  using assms(1,3,6)
proof (induction bss arbitrary: k m)
  case Nil
  then show ?case by (simp add: packed_loop.simps packed_bytes_def)
next
  case (Cons bs bss)
  let ?m1 = "mem_write (data + n * k) bs m"
  let ?m = "mem_write psize (le_bytes 4 (Suc k)) ?m1"
  have bs: "ok bs" "length bs = n" and k: "k < array_size f" using Cons.prems by simp_all
  have "data + n * k + n \<le> data + n * array_size f" using item_range [OF k, of n] by simp
  then have "psize + 4 \<le> data + n * k \<or> data + n * k + length bs \<le> psize"
    using assms(5) bs(2) unfolding apart_def by linarith
  then have "mem_nat ?m1 psize 4 = k" using Cons.prems(3) by (simp add: mem_nat_def mem_read_other)
  moreover have "dec (data + n * k) (dctx (packed_bytes (bs # bss) @ rest) (length (packed_bytes (bs # bss))) e m)
      = (Some (), dctx (packed_bytes bss @ rest) (length (packed_bytes bss)) e ?m1)"
    using dec_image [OF bs, of "data + n * k" "packed_bytes bss @ rest" "length (packed_bytes bss)" e m]
    by (simp add: packed_bytes_def)
  moreover have "packed_bytes (bs # bss) \<noteq> []" using image_nonempty [OF bs] by (simp add: packed_bytes_def)
  ultimately have "packed_loop dec f data psize (dctx (packed_bytes (bs # bss) @ rest) (length (packed_bytes (bs # bss))) e m)
      = packed_loop dec f data psize (dctx (packed_bytes bss @ rest) (length (packed_bytes bss)) e ?m)"
    using k Cons.prems(3) assms(2) by (subst packed_loop.simps) simp
  also have "\<dots> = Some (True, dctx rest 0 e (store_items n data psize (Suc k) bss ?m))"
    using Cons.prems k assms(4) by (intro Cons.IH mem_nat_counter) simp_all
  finally show ?case by simp
qed

lemma decode_packed_reads:
  assumes bss: "\<forall>bs \<in> set bss. ok bs \<and> length bs = n" and f: "data_size f = n" "array_size f \<le> PB_SIZE_MAX"
    and len: "length bss \<le> array_size f" "length (packed_bytes bss) < 2 ^ 32"
    and mem: "apart data (n * array_size f) psize" "mem_nat m psize 4 = 0"
  shows "decode_packed dec f data psize
      (dctx (varint_bytes (of_nat (length (packed_bytes bss))) @ packed_bytes bss @ rest)
        (length (varint_bytes (of_nat (length (packed_bytes bss)))) + length (packed_bytes bss) + r) e m)
    = Some (Some (), dctx rest r e (store_items n data psize 0 bss m))"
proof -
  let ?len = "length (packed_bytes bss)"
  let ?v = "of_nat ?len :: u64"
  have v: "unat ?v = ?len" "unat (ucast ?v :: u32) = ?len"
  proof -
    show *: "unat ?v = ?len" using len(2) by (simp add: unsigned_of_nat take_bit_nat_eq_self)
    show "unat (ucast ?v :: u32) = ?len" using len(2) unfolding unat_ucast_mod * by simp
  qed
  have "unat ?v < 2 ^ 32" using v(1) len(2) by simp
  from varint32_fits [OF this, where ?'st = unit, of "packed_bytes bss @ rest" "?len + r" e]
  have open_: "on_in pb_make_string_substream
      (dctx (varint_bytes ?v @ packed_bytes bss @ rest) (length (varint_bytes ?v) + ?len + r) e m :: unit pb_dctx)
    = (Some (ibuf (packed_bytes bss @ rest) ?len e), dctx (packed_bytes bss @ rest) r e m)"
    by (simp add: on_in_def pb_make_string_substream_def gbind_def v(2) add.assoc)
  have loop: "packed_loop dec f data psize (dctx (packed_bytes bss @ rest) ?len e m)
      = Some (True, dctx rest 0 e (store_items n data psize 0 bss m))"
    using bss f len mem by (intro packed_loop_reads) simp_all
  show ?thesis
    unfolding decode_packed_def open_ by (simp add: loop on_in_def pb_close_string_substream_def)
qed

text \<open>Writing a packed array into a buffer and reading it into another structure.\<close>

lemma packed_roundtrip:
  assumes ok: "\<forall>bs \<in> set (blocks m p n cnt). ok bs" and f: "data_size f = n" "PB_LTYPE (f_type f) \<le> PB_LTYPE_FIXED64"
    "cnt \<le> array_size f" "array_size f \<le> PB_SIZE_MAX" "0 < f_tag f" "f_tag f < 2 ^ 29"
    and cnt: "0 < cnt" "length (packed_bytes (blocks m p n cnt)) < 2 ^ 32"
    and fixed: "PB_LTYPE (f_type f) = PB_LTYPE_FIXED32 \<Longrightarrow> length (packed_bytes (blocks m p n cnt)) = 4 * cnt"
      "PB_LTYPE (f_type f) = PB_LTYPE_FIXED64 \<Longrightarrow> length (packed_bytes (blocks m p n cnt)) = 8 * cnt"
    and mem: "apart data (n * array_size f) psize" "mem_nat m' psize 4 = 0"
    and room: "20 + length (packed_bytes (blocks m p n cnt)) \<le> sz" "sz \<le> length buf" "sz < size_mod"
  shows "\<exists>w buf'. encode_array f m p cnt (\<lambda>_. enc) (pb_ostream_from_buffer buf sz) = (Some (), obuf buf' sz w None)
    \<and> (\<exists>s m''. pb_decode_tag (pb_istream_from_buffer buf' w :: unit pb_istream) = (Some (PB_WT_STRING, of_nat (f_tag f)), False, s)
      \<and> decode_packed dec f data psize \<lparr>d_in = s, d_mem = m'\<rparr> = Some (Some (), dctx (drop w buf') 0 None m'')
      \<and> mem_nat m'' psize 4 = cnt
      \<and> (\<forall>i < cnt. mem_read m'' (data + n * i) n = mem_read m (p + n * i) n)
      \<and> (\<forall>a. \<not> (psize \<le> a \<and> a < psize + 4) \<and> \<not> (data \<le> a \<and> a < data + n * array_size f) \<longrightarrow> m'' a = m' a))"
proof -
  let ?bss = "blocks m p n cnt"
  let ?len = "length (packed_bytes ?bss)"
  let ?tag = "tag_bytes 2 (f_tag f)" and ?vl = "varint_bytes (of_nat ?len)"
  let ?chunks = "?tag # ?vl # map image ?bss"
  let ?out = "?tag @ ?vl @ packed_bytes ?bss"
  have bss: "\<forall>bs \<in> set ?bss. ok bs \<and> length bs = n" using ok by (auto simp: blocks_def)
  have out: "concat ?chunks = ?out" by (simp add: packed_bytes_def)
  have short: "\<forall>x \<in> set ?chunks. length x < size_mod"
    using images_short [OF bss] varint_short by (auto simp: tag_bytes_def)
  have fit: "length ?out \<le> sz" using length_varint [of "of_nat ?len"] length_varint [of "of_nat (8 * f_tag f + 2)"] room(1)
    by (simp add: tag_bytes_def)
  have e: "encode_array f m p cnt (\<lambda>_. enc) = each pb_write ?chunks"
    using ok f cnt fixed by (intro encode_array_writes) (simp_all add: size_mod_def)
  have w: "encode_array f m p cnt (\<lambda>_. enc) (pb_ostream_from_buffer buf sz)
      = (Some (), obuf (put_bytes 0 ?out buf) sz (length ?out) None)"
    using each_pb_write [of 0 sz ?chunks buf None, OF _ room(3) short room(2)] fit
    unfolding e pb_ostream_from_buffer_def out by simp
  have buf': "put_bytes 0 ?out buf = ?out @ drop (length ?out) buf" by (simp add: put_bytes_def)
  have tag: "pb_decode_tag (pb_istream_from_buffer (?out @ drop (length ?out) buf) (length ?out) :: unit pb_istream)
      = (Some (of_nat 2, of_nat (f_tag f)), False, ibuf (?vl @ packed_bytes ?bss @ drop (length ?out) buf) (length ?vl + ?len) None)"
    using pb_decode_tag_bytes [of "f_tag f" 2 "?vl @ packed_bytes ?bss @ drop (length ?out) buf" "length ?vl + ?len" None] f(5,6)
    by (simp add: pb_istream_from_buffer_def)
  have d: "decode_packed dec f data psize (dctx (?vl @ packed_bytes ?bss @ drop (length ?out) buf) (length ?vl + ?len) None m')
      = Some (Some (), dctx (drop (length ?out) buf) 0 None (store_items n data psize 0 ?bss m'))"
    using decode_packed_reads [OF bss f(1,4) _ cnt(2) mem, of "drop (length ?out) buf" 0 None] f(3)
    by (simp add: blocks_simps)
  have eff: "mem_nat (store_items n data psize 0 ?bss m') psize 4 = cnt
      \<and> (\<forall>i < cnt. mem_read (store_items n data psize 0 ?bss m') (data + n * i) n = mem_read m (p + n * i) n)
      \<and> (\<forall>a. \<not> (psize \<le> a \<and> a < psize + 4) \<and> \<not> (data \<le> a \<and> a < data + n * array_size f)
        \<longrightarrow> store_items n data psize 0 ?bss m' a = m' a)"
    using store_items_effect [of ?bss n data "array_size f" psize 0 m'] bss mem f(3,4) by (auto simp: blocks_simps)
  show ?thesis
    unfolding w buf' using tag d eff
    by (intro exI [of _ "length ?out"] exI [of _ "?out @ drop (length ?out) buf"]) (auto simp: PB_WT_STRING_def)
qed

end

section \<open>The ranges of the integer types\<close>

lemma sint_scast_ucast:
  "sint (scast (ucast v :: 8 word) :: u64) = signed_take_bit 7 (sint v)"
  "sint (scast (ucast v :: 16 word) :: u64) = signed_take_bit 15 (sint v)"
  "sint (scast (ucast v :: 32 word) :: u64) = signed_take_bit 31 (sint v)" for v :: u64
  by (rule bit_eqI; auto simp: bit_simps bit_sint_iff min_def bit_signed_take_bit_iff dest: bit_imp_le_length)+

lemma clamp_signed_iff:
  assumes "n \<in> {1, 2, 4, 8}"
  shows "clamp_signed n v = Some v \<longleftrightarrow> - (2 ^ (8 * n - 1)) \<le> sint v \<and> sint v < 2 ^ (8 * n - 1)"
proof -
  have eq: "w = v \<longleftrightarrow> sint w = sint v" for w :: u64 by (rule word_eq_iff_signed)
  from byte_size_cases [OF assms] show ?thesis
    using sint_range64 [of v]
    by (elim disjE) (simp_all add: clamp_signed_def eq [of "scast _"] sint_scast_ucast signed_take_bit_int_eq_self_iff)
qed

lemma clamp_unsigned_iff:
  assumes "n \<in> {1, 2, 4, 8}"
  shows "clamp_unsigned n v = Some v \<longleftrightarrow> unat v < 256 ^ n"
proof -
  have eq: "w = v \<longleftrightarrow> unat w = unat v" for w :: u64 by (auto intro: word_eq_unatI)
  have lt: "unat v mod k = unat v \<longleftrightarrow> unat v < k" if "0 < k" for k using that by (metis mod_less mod_less_divisor)
  have "unat v < 2 ^ 64" using unsigned_less [of v, where ?'a = nat] by simp
  with byte_size_cases [OF assms] show ?thesis
    by (elim disjE) (simp_all add: clamp_unsigned_def eq [of "ucast _"] unat_ucast_mod lt)
qed

lemma clamp_exists: "n \<in> {1, 2, 4, 8} \<Longrightarrow> \<exists>w. clamp_signed n v = Some w" "n \<in> {1, 2, 4, 8} \<Longrightarrow> \<exists>w. clamp_unsigned n v = Some w"
  by (auto simp: clamp_signed_def clamp_unsigned_def)

lemma store_clamped_result:
  assumes "clamped = Some w"
  shows "fst (store_clamped dest n v clamped c) = (if w = v then Some () else None)"
    and "d_mem (snd (store_clamped dest n v clamped c)) = mem_write dest (le_bytes n (unat w)) (d_mem c)"
  using assms by (simp_all add: store_clamped_def store_def gbind_def gret_def on_in_def i_error_def)

section \<open>Strings\<close>

lemma pb_encode_string_chunks: "(pb_encode_string bs :: ('st, unit) oop) = each pb_write [varint_bytes (of_nat (length bs)), bs]"
proof -
  have "gbind (pb_write bs) (\<lambda>_. gret ()) = (pb_write bs :: ('st, unit) oop)" using each_single [of pb_write bs] by (simp only: each.simps)
  then show ?thesis by (simp only: pb_encode_string_def pb_encode_varint_write each.simps)
qed

definition string_bytes :: "bytes \<Rightarrow> bytes" where
  "string_bytes bs = varint_bytes (of_nat (length bs)) @ bs"

lemma length_prefix_read:
  assumes "length bs < 2 ^ 32"
  shows "pb_decode_varint32 (ibuf (string_bytes bs @ rest) (length (string_bytes bs) + n) e :: 'st pb_istream)
      = (Some (of_nat (length bs)), ibuf (bs @ rest) (length bs + n) e)"
proof -
  let ?v = "of_nat (length bs) :: u64"
  have v: "unat ?v = length bs" using assms by (simp add: unsigned_of_nat take_bit_nat_eq_self)
  have "unat ?v < 2 ^ 32" unfolding v using assms .
  moreover have "ucast ?v = (of_nat (length bs) :: u32)"
    using assms v by (intro word_eq_unatI) (simp only: unat_ucast_mod v, simp add: unsigned_of_nat take_bit_nat_eq_self)
  ultimately show ?thesis
    using varint32_fits [of ?v "bs @ rest" "length bs + n" e, where ?'st = 'st] by (simp only: string_bytes_def append_assoc length_append add.assoc)
qed

lemma strlen_loop_le: "strlen_loop maximum m p \<le> maximum"
  by (induction maximum arbitrary: p) simp_all

lemma strlen_loop_chars: "i < strlen_loop maximum m p \<Longrightarrow> m (p + i) \<noteq> 0"
proof (induction maximum arbitrary: p i)
  case (Suc maximum)
  show ?case
  proof (cases i)
    case (Suc j)
    with Suc.prems Suc.IH [of j "p + 1"] show ?thesis by (simp split: if_splits)
  qed (use Suc.prems in \<open>simp split: if_splits\<close>)
qed simp

lemma strlen_loop_unique:
  "\<forall>i < len. m (p + i) \<noteq> 0 \<Longrightarrow> m (p + len) = 0 \<Longrightarrow> len < maximum \<Longrightarrow> strlen_loop maximum m p = len"
proof (induction maximum arbitrary: p len)
  case (Suc maximum)
  show ?case
  proof (cases len)
    case 0
    with Suc.prems(2) show ?thesis by simp
  next
    case (Suc k)
    have "strlen_loop maximum m (p + 1) = k"
    proof (rule Suc.IH)
      show "\<forall>i < k. m (p + 1 + i) \<noteq> 0"
      proof (intro allI impI)
        fix i assume "i < k"
        then show "m (p + 1 + i) \<noteq> 0" using Suc.prems(1) [rule_format, of "Suc i"] Suc by simp
      qed
    qed (use Suc.prems(2,3) Suc in simp_all)
    moreover have "m p \<noteq> 0" using Suc.prems(1) [rule_format, of 0] Suc by simp
    ultimately show ?thesis using Suc by simp
  qed
qed simp

lemma read_into_ibuf:
  "read_into dest (length bs) (dctx (bs @ rest) (length bs + n) e m) = (Some (), dctx rest n e (mem_write dest bs m))"
  by (simp add: read_into_def gbind_def on_in_def pb_read_buf_ibuf store_def)

lemma pb_dec_string_static:
  assumes "PB_ATYPE (f_type f) \<noteq> PB_ATYPE_POINTER" "length bs < 2 ^ 32 - 1"
  shows "pb_dec_string realloc f dest (dctx (string_bytes bs @ rest) (length (string_bytes bs) + n) e m :: 'st pb_dctx) =
    (if length bs < data_size f
     then (Some (), dctx rest n e (mem_write (dest + length bs) [0] (mem_write dest bs m)))
     else on_in (i_error ''string overflow'') (dctx (bs @ rest) (length bs + n) e m))"
proof -
  have u: "unat (of_nat (length bs) :: u32) = length bs" "unat (of_nat (length bs) + 1 :: u32) = length bs + 1"
  proof -
    show *: "unat (of_nat (length bs) :: u32) = length bs" using assms(2) by (simp add: unsigned_of_nat take_bit_nat_eq_self)
    show "unat (of_nat (length bs) + 1 :: u32) = length bs + 1" using assms(2) by (simp only: unat_word_ariths(1) *) simp
  qed
  have "length bs < 2 ^ 32" using assms(2) by simp
  note d = length_prefix_read [OF this, of rest n e, where ?'st = 'st]
  have "gbind (on_in pb_decode_varint32) g (dctx (string_bytes bs @ rest) (length (string_bytes bs) + n) e m :: 'st pb_dctx)
      = g (of_nat (length bs)) (dctx (bs @ rest) (length bs + n) e m)" for g :: "u32 \<Rightarrow> ('st, unit) dop"
    by (rule on_in_bind) (rule d)
  then show ?thesis
    using assms(1) by (simp add: pb_dec_string_def u read_string_def read_into_ibuf)
qed

section \<open>Unknown fields\<close>

text \<open>What follows the tag of a field of each type on the wire.\<close>

inductive value_bytes :: "u8 \<Rightarrow> bytes \<Rightarrow> bool" where
  value_varint: "t \<in> {PB_LTYPE_BOOL, PB_LTYPE_VARINT, PB_LTYPE_UVARINT, PB_LTYPE_SVARINT} \<Longrightarrow> value_bytes t (varint_bytes v)"
| value_fixed32: "value_bytes PB_LTYPE_FIXED32 (fixed32_bytes v32)"
| value_fixed64: "value_bytes PB_LTYPE_FIXED64 (fixed64_bytes v64)"
| value_string: "t \<in> {PB_LTYPE_BYTES, PB_LTYPE_STRING, PB_LTYPE_SUBMESSAGE, PB_LTYPE_FIXED_LENGTH_BYTES} \<Longrightarrow>
    length bs < 2 ^ 32 \<Longrightarrow> value_bytes t (string_bytes bs)"

definition wire_type_of :: "u8 \<Rightarrow> nat" where
  "wire_type_of t = (if t \<in> {PB_LTYPE_BOOL, PB_LTYPE_VARINT, PB_LTYPE_UVARINT, PB_LTYPE_SVARINT} then 0
     else if t = PB_LTYPE_FIXED32 then 5 else if t = PB_LTYPE_FIXED64 then 1 else 2)"

lemma encode_tag_for_field_write:
  assumes "value_bytes (PB_LTYPE (f_type f)) vb" "f_tag f < 2 ^ 29"
  shows "pb_encode_tag_for_field f = pb_write (tag_bytes (wire_type_of (PB_LTYPE (f_type f))) (f_tag f))"
  using assms(1) pb_encode_tag_write [OF assms(2), of 0] pb_encode_tag_write [OF assms(2), of 1]
    pb_encode_tag_write [OF assms(2), of 2] pb_encode_tag_write [OF assms(2), of 5]
  by cases (auto simp: pb_encode_tag_for_field_def wire_type_of_def PB_WT_defs PB_LTYPE_defs)

lemma skip_value:
  assumes "value_bytes t vb"
  shows "pb_skip_field (of_nat (wire_type_of t)) (ibuf (vb @ rest) (length vb + n) e :: 'st pb_istream) = (Some (), ibuf rest n e)"
  using assms
proof cases
  case (value_varint v)
  have "pb_skip_varint (ibuf (vb @ rest) (length vb + n) e :: 'st pb_istream) = (Some (), ibuf rest n e)"
    using varint_loop_skip [OF pb_decode_varint_bytes [of v rest n e, where ?'a = 'st, unfolded pb_decode_varint_def]]
    by (simp add: value_varint)
  then show ?thesis using value_varint(2) by (simp add: wire_type_of_def pb_skip_field_def PB_WT_VARINT_def)
next
  case (value_fixed32 v)
  then show ?thesis
    by (simp add: wire_type_of_def PB_LTYPE_defs pb_skip_field_def PB_WT_defs pb_read_null_ibuf fixed32_bytes_def)
next
  case (value_fixed64 v)
  then show ?thesis
    by (simp add: wire_type_of_def PB_LTYPE_defs pb_skip_field_def PB_WT_defs pb_read_null_ibuf fixed64_bytes_def)
next
  case (value_string bs)
  have "unat (of_nat (length bs) :: u32) = length bs"
    using value_string(3) by (simp add: unsigned_of_nat take_bit_nat_eq_self)
  then have "pb_skip_string (ibuf (vb @ rest) (length vb + n) e :: 'st pb_istream) = (Some (), ibuf rest n e)"
    using length_prefix_read [OF value_string(3), of rest n e, where ?'st = 'st]
    by (simp add: pb_skip_string_def gbind_def value_string(1) pb_read_null_ibuf)
  then show ?thesis using value_string(2)
    by (auto simp: wire_type_of_def PB_LTYPE_defs pb_skip_field_def PB_WT_defs)
qed

section \<open>Properties\<close>

text \<open>An iterator over the descriptors of a message never drifts: whatever sequence of steps and
  searches led to it, \<open>pData\<close> is the address that the layout of the structure gives its
  field and \<open>required_field_index\<close> counts the required fields before it. A search
  returns, either at a field with the tag or, if there is none, where it started.\<close>

theorem field_iter_stays:
  assumes "terminated fs" "1 < length fs" "laid_out fs offs" "dest \<noteq> 0" "iter_reach fs dest it"
  shows "iter_pos it < length fs - 1 \<and> pData it = dest + offs (iter_pos it)
    \<and> required_field_index it = length (filter (\<lambda>f. PB_HTYPE (f_type f) = PB_HTYPE_REQUIRED) (take (iter_pos it) fs))
    \<and> (\<exists>found it'. pb_field_iter_find it tag = Some (found, it') \<and> iter_reach fs dest it'
        \<and> (if found then f_tag (cur_field it') = tag \<and> PB_LTYPE (f_type (cur_field it')) \<noteq> PB_LTYPE_EXTENSION
           else it' = it \<and> (\<forall>k < length fs - 1. f_tag (fs ! k) = tag \<longrightarrow> PB_LTYPE (f_type (fs ! k)) = PB_LTYPE_EXTENSION)))"
proof -
  obtain k where k: "k < length fs - 1" "it = iter_at fs dest k" using iter_reach_at [OF assms(5,1,2)] by blast
  note inv = iter_at_inv [OF assms(1) k(1), of dest]
  note data = iter_at_data [OF assms(1,3,4) k(1)]
  obtain j where j: "j < length fs - 1" "pb_field_iter_find it tag = Some (is_field fs tag j, iter_at fs dest j)"
    "is_field fs tag j \<or> j = k \<and> (\<forall>i < length fs - 1. \<not> is_field fs tag i)"
    using iter_find_at [OF assms(1) k(1), of dest tag] k(2) by blast
  have cur: "cur_field (iter_at fs dest j) = fs ! j" using iter_at_inv [OF assms(1) j(1), of dest] by (simp add: cur_field_def)
  have "iter_reach fs dest (iter_at fs dest j)" using reach_find [OF assms(5) j(2)] .
  then have "\<exists>found it'. pb_field_iter_find it tag = Some (found, it') \<and> iter_reach fs dest it'
        \<and> (if found then f_tag (cur_field it') = tag \<and> PB_LTYPE (f_type (cur_field it')) \<noteq> PB_LTYPE_EXTENSION
           else it' = it \<and> (\<forall>k < length fs - 1. f_tag (fs ! k) = tag \<longrightarrow> PB_LTYPE (f_type (fs ! k)) = PB_LTYPE_EXTENSION))"
    using j k(2) cur by (intro exI [of _ "is_field fs tag j"] exI [of _ "iter_at fs dest j"]) (auto simp: is_field_def)
  with inv data k show ?thesis by simp
qed

text \<open>A packed array of integers that is written into a buffer and read into another structure with a zero counter arrives
  item by item, with its count, and nothing outside the array and the counter changes there.\<close>

theorem packed_integers_roundtrip:
  fixes f :: pb_field
  assumes "(enc, dec) \<in> {(pb_enc_varint, pb_dec_varint), (pb_enc_uvarint, pb_dec_uvarint), (pb_enc_svarint, pb_dec_svarint)}"
    and "PB_LTYPE (f_type f) \<in> {PB_LTYPE_VARINT, PB_LTYPE_UVARINT, PB_LTYPE_SVARINT}" "data_size f \<in> {1, 2, 4, 8}"
    and "0 < f_tag f" "f_tag f < 2 ^ 29" "0 < cnt" "cnt \<le> array_size f" "array_size f \<le> PB_SIZE_MAX" "10 * cnt < 2 ^ 32"
    and "apart data (data_size f * array_size f) psize" "mem_nat m' psize 4 = 0"
    and "20 + 10 * cnt \<le> sz" "sz \<le> length buf" "sz < size_mod"
  shows "\<exists>w buf'. encode_array f m p cnt enc (pb_ostream_from_buffer buf sz :: unit pb_ostream) = (Some (), obuf buf' sz w None)
    \<and> (\<exists>s m''. pb_decode_tag (pb_istream_from_buffer buf' w :: unit pb_istream) = (Some (PB_WT_STRING, of_nat (f_tag f)), False, s)
      \<and> decode_packed (dec f) f data psize \<lparr>d_in = s, d_mem = m'\<rparr> = Some (Some (), dctx (drop w buf') 0 None m'')
      \<and> mem_nat m'' psize 4 = cnt
      \<and> (\<forall>i < cnt. mem_read m'' (data + data_size f * i) (data_size f) = mem_read m (p + data_size f * i) (data_size f))
      \<and> (\<forall>a. \<not> (psize \<le> a \<and> a < psize + 4) \<and> \<not> (data \<le> a \<and> a < data + data_size f * array_size f) \<longrightarrow> m'' a = m' a))"
proof -
  have t: "PB_LTYPE (f_type f) \<le> PB_LTYPE_FIXED64" "PB_LTYPE (f_type f) \<noteq> PB_LTYPE_FIXED32" "PB_LTYPE (f_type f) \<noteq> PB_LTYPE_FIXED64"
    using assms(2) by (auto simp: PB_LTYPE_defs)
  have only: "encode_array f m p cnt g = encode_array f m p cnt (\<lambda>_. g f)" for g :: "unit encoder"
    by (simp add: encode_array_def)
  have short: "length (concat (map image bss)) \<le> 10 * length bss"
    if "\<And>bs. length (image bs) \<le> 10" for image :: "bytes \<Rightarrow> bytes" and bss
    using that by (induction bss) (simp_all add: add_mono)
  have len: "length (varint_field.packed_bytes (blocks m p (data_size f) cnt)) \<le> 10 * cnt"
    "length (uvarint_field.packed_bytes (blocks m p (data_size f) cnt)) \<le> 10 * cnt"
    "length (svarint_field.packed_bytes (blocks m p (data_size f) cnt)) \<le> 10 * cnt"
    unfolding varint_field.packed_bytes_def uvarint_field.packed_bytes_def svarint_field.packed_bytes_def
    using short [of signed_image "blocks m p (data_size f) cnt"] short [of unsigned_image "blocks m p (data_size f) cnt"]
      short [of zigzag_image "blocks m p (data_size f) cnt"] length_varint
    by (simp_all add: signed_image_def unsigned_image_def zigzag_image_def blocks_simps)
  from assms(1) consider "enc = pb_enc_varint" "dec = pb_dec_varint" | "enc = pb_enc_uvarint" "dec = pb_dec_uvarint"
    | "enc = pb_enc_svarint" "dec = pb_dec_svarint" by auto
  then show ?thesis
  proof cases
    case 1
    show ?thesis unfolding 1 only [of pb_enc_varint]
      using assms(3-) t len(1) by (intro varint_field.packed_roundtrip) simp_all
  next
    case 2
    show ?thesis unfolding 2 only [of pb_enc_uvarint]
      using assms(3-) t len(2) by (intro uvarint_field.packed_roundtrip) simp_all
  next
    case 3
    show ?thesis unfolding 3 only [of pb_enc_svarint]
      using assms(3-) t len(3) by (intro svarint_field.packed_roundtrip) simp_all
  qed
qed

text \<open>A message with a required 32-bit integer and a repeated one of at most three items.\<close>

definition example_fields :: "pb_field list" where
  "example_fields = [\<lparr>f_tag = 1, f_type = 0x01, data_offset = 0, size_offset = 0, data_size = 4, array_size = 0, f_ptr = 0\<rparr>,
     \<lparr>f_tag = 2, f_type = 0x21, data_offset = 4, size_offset = -4, data_size = 4, array_size = 3, f_ptr = 0\<rparr>,
     \<lparr>f_tag = 0, f_type = 0, data_offset = 0, size_offset = 0, data_size = 0, array_size = 0, f_ptr = 0\<rparr>]"

theorem field_iter_stays_witness:
  "pData (snd (pb_field_iter_next (snd (pb_field_iter_begin example_fields 100)))) = 108"
proof -
  have "terminated example_fields" by (auto simp: terminated_def example_fields_def less_Suc_eq)
  moreover have "laid_out example_fields (\<lambda>k. if k = 0 then 0 else 8)"
    by (auto simp: laid_out_def example_fields_def same_union_def field_space_def PB_HTYPE_def PB_ATYPE_def PB_HTYPE_ONEOF_def
      PB_HTYPE_REPEATED_def PB_ATYPE_STATIC_def PB_ATYPE_POINTER_def)
  moreover have "iter_reach example_fields 100 (snd (pb_field_iter_next (snd (pb_field_iter_begin example_fields 100))))"
    by (intro reach_next reach_begin)
  moreover have "iter_pos (snd (pb_field_iter_next (snd (pb_field_iter_begin example_fields 100)))) = 1" by code_simp
  ultimately show ?thesis
    using field_iter_stays [of example_fields "\<lambda>k. if k = 0 then 0 else 8" 100
        "snd (pb_field_iter_next (snd (pb_field_iter_begin example_fields 100)))"]
    by (simp add: example_fields_def)
qed

theorem packed_integers_roundtrip_witness:
  "\<exists>w buf'. encode_array (example_fields ! 1) (\<lambda>_. 5) 100 2 pb_enc_varint
     (pb_ostream_from_buffer (replicate 50 0) 50 :: unit pb_ostream) = (Some (), obuf buf' 50 w None)"
  using packed_integers_roundtrip [of pb_enc_varint pb_dec_varint "example_fields ! 1" 2 104 100 "\<lambda>_. 0" 50 "replicate 50 0"
      "\<lambda>_. 5" 100]
  by (auto simp: example_fields_def PB_LTYPE_def PB_LTYPE_defs PB_SIZE_MAX_def apart_def mem_nat_def mem_read_def size_mod_def
    upt_rec)

lemma sint_scast_up: "sint (scast w :: u64) = sint w" for w :: u32
  by (rule bit_eqI) (auto simp: bit_simps bit_sint_iff min_def dest: bit_imp_le_length)

lemma signed_value_clamp:
  fixes v :: u64
  assumes "n \<in> {1, 2, 4, 8}"
  shows "clamp_signed n (if n = 8 then v else scast (ucast v :: u32)) = Some (if n = 8 then v else scast (ucast v :: u32)) \<longleftrightarrow>
    n \<in> {4, 8} \<or> - (2 ^ (8 * n - 1)) \<le> sint (ucast v :: u32) \<and> sint (ucast v :: u32) < 2 ^ (8 * n - 1)"
proof (cases "n \<in> {4, 8}")
  case True
  then show ?thesis by (auto simp: clamp_signed_def ucast_scast_down)
next
  case False
  then show ?thesis using clamp_signed_iff [OF assms, of "scast (ucast v :: u32)"] by (auto simp: sint_scast_up)
qed

lemma clamped_result:
  assumes "clamped = Some w"
  shows "fst (store_clamped dest n v clamped c) = (if clamped = Some v then Some () else None)"
  by (subst store_clamped_result(1) [OF assms]) (simp add: assms)

text \<open>What an integer field accepts: after a varint has been read, an unsigned field of \<open>n\<close> bytes accepts
  the values below \<open>256 ^ n\<close> and a zigzag field those that its signed type holds. A signed field accepts
  everything if it has 8 or 4 bytes - the upper half of the varint is then dropped - and otherwise what its type
  holds of the lower 32 bits. The memory has been written even when the value is rejected.\<close>

theorem integer_field_ranges:
  assumes "data_size f \<in> {1, 2, 4, 8}" "pb_decode_varint s = (Some v, s')"
  shows "fst (pb_dec_uvarint f dest \<lparr>d_in = s, d_mem = m\<rparr>) = (if unat v < 256 ^ data_size f then Some () else None)
    \<and> fst (pb_dec_varint f dest \<lparr>d_in = s, d_mem = m\<rparr>) = (if data_size f \<in> {4, 8}
        \<or> - (2 ^ (8 * data_size f - 1)) \<le> sint (ucast v :: u32) \<and> sint (ucast v :: u32) < 2 ^ (8 * data_size f - 1)
        then Some () else None)
    \<and> (let x = (if v AND 1 \<noteq> 0 then NOT (drop_bit 1 v) else drop_bit 1 v) in
        fst (pb_dec_svarint f dest \<lparr>d_in = s, d_mem = m\<rparr>)
        = (if - (2 ^ (8 * data_size f - 1)) \<le> sint x \<and> sint x < 2 ^ (8 * data_size f - 1) then Some () else None))
    \<and> (\<exists>bs. length bs = data_size f \<and> d_mem (snd (pb_dec_uvarint f dest \<lparr>d_in = s, d_mem = m\<rparr>)) = mem_write dest bs m)"
proof -
  let ?n = "data_size f"
  let ?sv = "if ?n = 8 then v else scast (ucast v :: u32)"
  let ?x = "if v AND 1 \<noteq> 0 then NOT (drop_bit 1 v) else drop_bit 1 v"
  obtain u w z where c: "clamp_unsigned ?n v = Some u" "clamp_signed ?n ?sv = Some w" "clamp_signed ?n ?x = Some z"
    using clamp_exists [OF assms(1)] by blast
  have un: "pb_dec_uvarint f dest \<lparr>d_in = s, d_mem = m\<rparr>
      = store_clamped dest ?n v (clamp_unsigned ?n v) \<lparr>d_in = s', d_mem = m\<rparr>"
    unfolding pb_dec_uvarint_def by (rule on_in_bind) (rule assms(2))
  have si: "pb_dec_varint f dest \<lparr>d_in = s, d_mem = m\<rparr>
      = store_clamped dest ?n ?sv (clamp_signed ?n ?sv) \<lparr>d_in = s', d_mem = m\<rparr>"
    unfolding pb_dec_varint_def Let_def by (rule on_in_bind) (rule assms(2))
  have "pb_decode_svarint s = (Some ?x, s')"
    by (simp add: pb_decode_svarint_def gbind_def assms(2) gret_def)
  then have zz: "pb_dec_svarint f dest \<lparr>d_in = s, d_mem = m\<rparr>
      = store_clamped dest ?n ?x (clamp_signed ?n ?x) \<lparr>d_in = s', d_mem = m\<rparr>"
    unfolding pb_dec_svarint_def by (rule on_in_bind)
  show ?thesis
  proof (intro conjI)
    show "fst (pb_dec_uvarint f dest \<lparr>d_in = s, d_mem = m\<rparr>) = (if unat v < 256 ^ ?n then Some () else None)"
      unfolding un clamped_result [OF c(1)] clamp_unsigned_iff [OF assms(1)] by (rule refl)
    show "fst (pb_dec_varint f dest \<lparr>d_in = s, d_mem = m\<rparr>) = (if ?n \<in> {4, 8}
        \<or> - (2 ^ (8 * ?n - 1)) \<le> sint (ucast v :: u32) \<and> sint (ucast v :: u32) < 2 ^ (8 * ?n - 1) then Some () else None)"
      unfolding si clamped_result [OF c(2)] signed_value_clamp [OF assms(1)] by (rule refl)
    show "let x = ?x in fst (pb_dec_svarint f dest \<lparr>d_in = s, d_mem = m\<rparr>)
        = (if - (2 ^ (8 * ?n - 1)) \<le> sint x \<and> sint x < 2 ^ (8 * ?n - 1) then Some () else None)"
      unfolding Let_def zz clamped_result [OF c(3)] clamp_signed_iff [OF assms(1)] by (rule refl)
    show "\<exists>bs. length bs = ?n \<and> d_mem (snd (pb_dec_uvarint f dest \<lparr>d_in = s, d_mem = m\<rparr>)) = mem_write dest bs m"
      unfolding un store_clamped_result(2) [OF c(1)] by (intro exI [of _ "le_bytes ?n (unat u)"]) simp
  qed
qed

theorem integer_field_ranges_witness:
  "fst (pb_dec_uvarint (example_fields ! 0) 100 \<lparr>d_in = ibuf [5] 1 None :: unit pb_istream, d_mem = \<lambda>_. 0\<rparr>) = Some ()"
proof -
  have "pb_decode_varint (ibuf [5] 1 None :: unit pb_istream) = (Some 5, ibuf [] 0 None)"
    using pb_decode_varint_bytes [of 5 "[]" 0 None, where ?'a = unit] by (simp add: varint_bytes_small)
  from integer_field_ranges [OF _ this, of "example_fields ! 0", THEN conjunct1] show ?thesis
    by (simp add: example_fields_def)
qed

text \<open>A receiver can pass over a field that it does not know: the tag and the value of a field of any type, followed by
  anything, are read as the wire type and the tag number, and \<open>pb_skip_field\<close> for that wire type stops exactly
  behind the value.\<close>

theorem unknown_field_skipped:
  assumes "value_bytes (PB_LTYPE (f_type f)) vb" "0 < f_tag f" "f_tag f < 2 ^ 29"
  shows "\<exists>tb wt s. pb_encode_tag_for_field f = (pb_write tb :: ('st, unit) oop)
    \<and> pb_decode_tag (ibuf (tb @ vb @ rest) (length tb + length vb + n) e :: 'st pb_istream) = (Some (wt, of_nat (f_tag f)), False, s)
    \<and> pb_skip_field wt s = (Some (), ibuf rest n e)"
proof -
  let ?w = "wire_type_of (PB_LTYPE (f_type f))"
  let ?tb = "tag_bytes ?w (f_tag f)"
  have w: "?w < 8" by (simp add: wire_type_of_def)
  have "pb_decode_tag (ibuf (?tb @ vb @ rest) (length ?tb + (length vb + n)) e :: 'st pb_istream)
      = (Some (of_nat ?w, of_nat (f_tag f)), False, ibuf (vb @ rest) (length vb + n) e)"
    using assms(3) w assms(2) by (rule pb_decode_tag_bytes)
  then show ?thesis
    using encode_tag_for_field_write [OF assms(1,3)] skip_value [OF assms(1), of rest n e, where ?'st = 'st]
    by (intro exI [of _ ?tb] exI [of _ "of_nat ?w"] exI [of _ "ibuf (vb @ rest) (length vb + n) e"]) (simp add: add.assoc)
qed

theorem unknown_field_skipped_witness:
  "\<exists>tb wt s. pb_encode_tag_for_field (example_fields ! 0) = (pb_write tb :: (unit, unit) oop)
    \<and> pb_decode_tag (ibuf (tb @ varint_bytes 300 @ [7]) (length tb + length (varint_bytes 300) + 1) None :: unit pb_istream)
      = (Some (wt, 1), False, s)
    \<and> pb_skip_field wt s = (Some (), ibuf [7] 1 None)"
proof -
  have "value_bytes (PB_LTYPE (f_type (example_fields ! 0))) (varint_bytes 300)"
    by (rule value_varint) (simp add: example_fields_def PB_LTYPE_def PB_LTYPE_defs)
  from unknown_field_skipped [OF this, of "[7]" 1 None] show ?thesis by (simp add: example_fields_def)
qed

text \<open>A string in a character array of \<open>data_size\<close> bytes survives the way through \<open>pb_enc_string\<close> and
  \<open>pb_dec_string\<close> if it is terminated within the array: the receiver finds the same characters and a terminator. A full array without
  terminator is written all the same, and the receiver with the same descriptor rejects it.\<close>

theorem string_field_roundtrip:
  assumes "PB_ATYPE (f_type f) \<noteq> PB_ATYPE_POINTER" "src \<noteq> 0" "data_size f < PB_SIZE_MAX"
    and "len = strlen_loop (data_size f) m src"
  shows "pb_enc_string f m src = (each pb_write [varint_bytes (of_nat len), mem_read m src len] :: ('st, unit) oop)
    \<and> (if len < data_size f
       then \<exists>m''. pb_dec_string realloc f dest (dctx (varint_bytes (of_nat len) @ mem_read m src len @ rest)
            (length (varint_bytes (of_nat len)) + len + n) e m' :: 'st pb_dctx) = (Some (), dctx rest n e m'')
         \<and> strlen_loop (data_size f) m'' dest = len \<and> mem_read m'' dest len = mem_read m src len
       else fst (pb_dec_string realloc f dest (dctx (varint_bytes (of_nat len) @ mem_read m src len @ rest)
            (length (varint_bytes (of_nat len)) + len + n) e m' :: 'st pb_dctx)) = None)"
proof -
  let ?bs = "mem_read m src len"
  let ?m = "mem_write (dest + len) [0] (mem_write dest ?bs m')"
  have len: "len \<le> data_size f" using strlen_loop_le assms(4) by simp
  have enc: "pb_enc_string f m src = (each pb_write [varint_bytes (of_nat len), ?bs] :: ('st, unit) oop)"
    using pb_encode_string_chunks [of ?bs, where ?'st = 'st] assms(1,2,4) by (simp add: pb_enc_string_def Let_def del: each.simps)
  have dec: "pb_dec_string realloc f dest (dctx (varint_bytes (of_nat len) @ ?bs @ rest)
        (length (varint_bytes (of_nat len)) + len + n) e m' :: 'st pb_dctx)
      = (if len < data_size f then (Some (), dctx rest n e ?m)
         else on_in (i_error ''string overflow'') (dctx (?bs @ rest) (len + n) e m'))"
    using pb_dec_string_static [of f ?bs realloc dest rest n e m', where ?'st = 'st] assms(1,3) len
    by (simp add: string_bytes_def PB_SIZE_MAX_def)
  have read: "mem_read ?m dest len = ?bs" by (simp add: mem_read_other)
  have "strlen_loop (data_size f) ?m dest = len" if "len < data_size f"
  proof (rule strlen_loop_unique [OF _ _ that])
    show "?m (dest + len) = 0" by (simp add: mem_write_def)
    have "?m (dest + i) = m (src + i)" if "i < len" for i
      using that by (simp add: mem_write_def mem_read_def)
    then show "\<forall>i < len. ?m (dest + i) \<noteq> 0" using strlen_loop_chars [of _ "data_size f" m src] assms(4) by simp
  qed
  then show ?thesis using enc read unfolding dec by (auto simp: on_in_def i_error_def)
qed

theorem string_field_roundtrip_witness:
  "fst (pb_dec_string (\<lambda>m p n. (0, m)) (example_fields ! 0) 100 (dctx (varint_bytes 4 @ [7, 7, 7, 7]) 5 None (\<lambda>_. 0) :: unit pb_dctx)) = None"
proof -
  let ?f = "example_fields ! 0"
  have a: "PB_ATYPE (f_type ?f) \<noteq> PB_ATYPE_POINTER" by code_simp
  have ds: "data_size ?f = 4" by (simp add: example_fields_def)
  have c: "data_size ?f < PB_SIZE_MAX" by (simp add: ds PB_SIZE_MAX_def)
  have d: "4 = strlen_loop (data_size ?f) (\<lambda>_. 7) 200" unfolding ds by code_simp
  have r: "mem_read (\<lambda>_. 7) 200 4 = [7, 7, 7, 7]" by (simp add: mem_read_def upt_rec)
  have v: "varint_bytes (of_nat 4) = [4]" by (simp add: varint_bytes_small)
  show ?thesis
    using string_field_roundtrip [OF a _ c d, of "\<lambda>m p n. (0, m)" 100 "[]" 0 None "\<lambda>_. 0", THEN conjunct2, where ?'st1 = unit]
    unfolding ds r v by (simp add: varint_bytes_small)
qed

end
