(* ===== verification/Digest_MD32.thy ===== *)
theory Digest_MD32
  imports Prelude
begin

text \<open>
  The collector that the hash functions share, \<open>crypto/fipsmodule/digest/md32_common.h\<close>, with the
  unaligned loads and stores and the rotations of \<open>crypto/internal.h\<close>. The host is little-endian. A
  buffer is the list of its bytes; \<open>memcpy_at\<close> writes at an offset. The block function is an argument, as
  in the C code. The locale \<open>block_hash\<close> says what a block function owes the collector; under it the
  running state of a context is a function of the bytes absorbed so far, however they were cut into
  calls.
\<close>

section \<open>Loads, stores, rotations\<close>

definition CRYPTO_load_u32_le :: "bytes \<Rightarrow> u32" where
  "CRYPTO_load_u32_le p = load_be (rev (take 4 p))"

definition CRYPTO_store_u32_le :: "u32 \<Rightarrow> bytes" where
  "CRYPTO_store_u32_le v = le_bytes 4 (unat v)"

definition CRYPTO_load_u32_be :: "bytes \<Rightarrow> u32" where
  "CRYPTO_load_u32_be p = CRYPTO_bswap4 (CRYPTO_load_u32_le p)"

definition CRYPTO_store_u32_be :: "u32 \<Rightarrow> bytes" where
  "CRYPTO_store_u32_be v = CRYPTO_store_u32_le (CRYPTO_bswap4 v)"

definition CRYPTO_load_u64_le :: "bytes \<Rightarrow> u64" where
  "CRYPTO_load_u64_le p = load_be (rev (take 8 p))"

definition CRYPTO_store_u64_le :: "u64 \<Rightarrow> bytes" where
  "CRYPTO_store_u64_le v = le_bytes 8 (unat v)"

definition CRYPTO_load_u64_be :: "bytes \<Rightarrow> u64" where
  "CRYPTO_load_u64_be p = CRYPTO_bswap8 (CRYPTO_load_u64_le p)"

definition CRYPTO_store_u64_be :: "u64 \<Rightarrow> bytes" where
  "CRYPTO_store_u64_be v = CRYPTO_store_u64_le (CRYPTO_bswap8 v)"

definition CRYPTO_rotl_u32 :: "u32 \<Rightarrow> nat \<Rightarrow> u32" where
  "CRYPTO_rotl_u32 v shift =
     push_bit shift v OR drop_bit (nat ((- int shift) AND 31)) v"

definition CRYPTO_rotr_u32 :: "u32 \<Rightarrow> nat \<Rightarrow> u32" where
  "CRYPTO_rotr_u32 v shift =
     drop_bit shift v OR push_bit (nat ((- int shift) AND 31)) v"

definition CRYPTO_rotr_u64 :: "u64 \<Rightarrow> nat \<Rightarrow> u64" where
  "CRYPTO_rotr_u64 v shift =
     drop_bit shift v OR push_bit (nat ((- int shift) AND 63)) v"

definition CRYPTO_addc_u32 :: "u32 \<Rightarrow> u32 \<Rightarrow> u32 \<Rightarrow> u32 \<times> u32" where
  "CRYPTO_addc_u32 x y carry =
     (let ret = ucast carry + (ucast x + ucast y :: u64) in (ucast ret, ucast (drop_bit 32 ret)))"

text \<open>\<open>OPENSSL_memcpy(buf + off, src, length src)\<close>.\<close>

definition memcpy_at :: "bytes \<Rightarrow> nat \<Rightarrow> bytes \<Rightarrow> bytes" where
  "memcpy_at buf off src = take off buf @ src @ drop (off + length src) buf"

definition memset_at :: "bytes \<Rightarrow> nat \<Rightarrow> u8 \<Rightarrow> nat \<Rightarrow> bytes" where
  "memset_at buf off b n = memcpy_at buf off (replicate n b)"

lemma length_memcpy_at [simp]:
  "off + length src \<le> length buf \<Longrightarrow> length (memcpy_at buf off src) = length buf"
  by (simp add: memcpy_at_def)

lemma length_memset_at [simp]:
  "off + n \<le> length buf \<Longrightarrow> length (memset_at buf off b n) = length buf"
  by (simp add: memset_at_def)

lemma memset_all: "length buf = n \<Longrightarrow> memset_at buf 0 b n = replicate n b"
  by (simp add: memset_at_def memcpy_at_def)

lemma length_store [simp]:
  "length (CRYPTO_store_u32_le v) = 4" "length (CRYPTO_store_u32_be v) = 4"
  "length (CRYPTO_store_u64_le w) = 8" "length (CRYPTO_store_u64_be w) = 8"
  by (simp_all add: CRYPTO_store_u32_le_def CRYPTO_store_u32_be_def CRYPTO_store_u64_le_def
      CRYPTO_store_u64_be_def)

lemma neg_and_31:
  assumes "0 < n" "n < 32"
  shows "nat ((- int n) AND 31) = 32 - n"
proof -
  have "(- int n) AND 31 = (- int n) mod 32"
    using take_bit_eq_mask [of 5 "- int n"]
    by (simp add: mask_eq_exp_minus_1 take_bit_eq_mod)
  also have "\<dots> = 32 - int n" using assms by (simp add: zmod_zminus1_eq_if)
  finally show ?thesis using assms by simp
qed

lemma neg_and_63:
  assumes "0 < n" "n < 64"
  shows "nat ((- int n) AND 63) = 64 - n"
proof -
  have "(- int n) AND 63 = (- int n) mod 64"
    using take_bit_eq_mask [of 6 "- int n"] by (simp add: mask_eq_exp_minus_1 take_bit_eq_mod)
  also have "\<dots> = 64 - int n" using assms by (simp add: zmod_zminus1_eq_if)
  finally show ?thesis using assms by simp
qed

text \<open>The shifts of the C code are rotations.\<close>

lemma rotr_shifts:
  fixes v :: "'a::len word"
  assumes "0 < n" "n < LENGTH('a)"
  shows "drop_bit n v OR push_bit (LENGTH('a) - n) v = word_rotr n v"
proof (rule bit_word_eqI)
  fix k assume k: "k < LENGTH('a)"
  show "bit (drop_bit n v OR push_bit (LENGTH('a) - n) v) k = bit (word_rotr n v) k"
  proof (cases "k + n < LENGTH('a)")
    case True
    then have "\<not> LENGTH('a) - n \<le> k" using assms by linarith
    with True show ?thesis using k by (simp add: bit_simps add.commute)
  next
    case False
    then have "(k + n) mod LENGTH('a) = k + n - LENGTH('a)"
      using k assms by (simp add: mod_if)
    also have "\<dots> = k - (LENGTH('a) - n)" using False assms by linarith
    finally have "bit (word_rotr n v) k = bit v (k - (LENGTH('a) - n))"
      using k by (simp only: bit_word_rotr_iff simp_thms)
    moreover have "\<not> bit (drop_bit n v) k"
      using False bit_imp_le_length [of v "n + k"] by (simp only: bit_drop_bit_eq o_def) linarith
    moreover have "bit (push_bit (LENGTH('a) - n) v) k = bit v (k - (LENGTH('a) - n))"
      using False k by (simp only: bit_push_bit_iff) auto
    ultimately show ?thesis by (simp only: bit_or_iff simp_thms)
  qed
qed

lemma rotr_u32: "0 < n \<Longrightarrow> n < 32 \<Longrightarrow> CRYPTO_rotr_u32 v n = word_rotr n v"
  using rotr_shifts [of n v] by (simp add: CRYPTO_rotr_u32_def neg_and_31)

lemma rotr_u64: "0 < n \<Longrightarrow> n < 64 \<Longrightarrow> CRYPTO_rotr_u64 v n = word_rotr n v"
  using rotr_shifts [of n v] by (simp add: CRYPTO_rotr_u64_def neg_and_63)

lemma rotl_rotr:
  "0 < n \<Longrightarrow> n < LENGTH('a) \<Longrightarrow> word_rotl n (v :: 'a::len word) = word_rotr (LENGTH('a) - n) v"
  by (rule bit_word_eqI) (simp add: bit_simps mod_if add.commute)

lemma rotl_u32: "0 < n \<Longrightarrow> n < 32 \<Longrightarrow> CRYPTO_rotl_u32 v n = word_rotl n v"
  using rotr_shifts [of "32 - n" v]
  by (simp add: CRYPTO_rotl_u32_def neg_and_31 rotl_rotr or.commute)

lemma be_bytes_of: "length ds = n \<Longrightarrow> be_bytes n (be_value ds) = ds"
  by (metis be_bytes_be_value)

lemma list_4: "length p = 4 \<Longrightarrow> \<exists>a b c d. p = [a, b, c, d]"
  by (auto simp: numeral_eq_Suc length_Suc_conv)

lemma list_8: "length p = 8 \<Longrightarrow> \<exists>a b c d e f g h. p = [a, b, c, d, e, f, g, h]"
  by (auto simp: numeral_eq_Suc length_Suc_conv)

lemma load_u32_be: "4 \<le> length p \<Longrightarrow> CRYPTO_load_u32_be p = load_be (take 4 p)"
proof -
  assume "4 \<le> length p"
  then have "length (take 4 p) = 4" by simp
  then obtain a b c d where "take 4 p = [a, b, c, d]" using list_4 by blast
  then show ?thesis
    by (simp add: CRYPTO_load_u32_be_def CRYPTO_load_u32_le_def CRYPTO_bswap4_load)
qed

lemma load_u64_be: "8 \<le> length p \<Longrightarrow> CRYPTO_load_u64_be p = load_be (take 8 p)"
proof -
  assume "8 \<le> length p"
  then have "length (take 8 p) = 8" by simp
  then obtain a b c d e f g h where "take 8 p = [a, b, c, d, e, f, g, h]" using list_8 by blast
  then show ?thesis
    by (simp add: CRYPTO_load_u64_be_def CRYPTO_load_u64_le_def CRYPTO_bswap8_load)
qed

lemma store_u32_be: "CRYPTO_store_u32_be v = be_bytes 4 (unat v)"
proof -
  define p where "p = be_bytes 4 (unat v)"
  have "length p = 4" by (simp add: p_def)
  then obtain a b c d where p: "p = [a, b, c, d]" using list_4 by blast
  have "be_value p = unat v"
    using unsigned_less [of v, where ?'a = nat] by (simp add: p_def be_value_be_bytes)
  then have "unat (load_be p :: u32) = unat v"
    using \<open>length p = 4\<close> by (subst unat_load_be_exact) auto
  then have v: "v = load_be [a, b, c, d]" using p by (simp add: word_unat_eq_iff)
  have "CRYPTO_store_u32_be v = rev (be_bytes 4 (unat (load_be [d, c, b, a] :: u32)))"
    by (simp only: CRYPTO_store_u32_be_def CRYPTO_store_u32_le_def v CRYPTO_bswap4_load rev_be_bytes)
  also have "unat (load_be [d, c, b, a] :: u32) = be_value [d, c, b, a]"
    by (subst unat_load_be_exact) auto
  also have "be_bytes 4 \<dots> = [d, c, b, a]"
    by (rule be_bytes_of) simp
  finally show ?thesis using p by (simp add: p_def)
qed

lemma store_u64_be: "CRYPTO_store_u64_be v = be_bytes 8 (unat v)"
proof -
  define p where "p = be_bytes 8 (unat v)"
  have "length p = 8" by (simp add: p_def)
  then obtain a b c d e f g h where p: "p = [a, b, c, d, e, f, g, h]" using list_8 by blast
  have "be_value p = unat v"
    using unsigned_less [of v, where ?'a = nat] by (simp add: p_def be_value_be_bytes)
  then have "unat (load_be p :: u64) = unat v"
    using \<open>length p = 8\<close> by (subst unat_load_be_exact) auto
  then have v: "v = load_be [a, b, c, d, e, f, g, h]" using p by (simp add: word_unat_eq_iff)
  have "CRYPTO_store_u64_be v = rev (be_bytes 8 (unat (load_be [h, g, f, e, d, c, b, a] :: u64)))"
    by (simp only: CRYPTO_store_u64_be_def CRYPTO_store_u64_le_def v CRYPTO_bswap8_load rev_be_bytes)
  also have "unat (load_be [h, g, f, e, d, c, b, a] :: u64) = be_value [h, g, f, e, d, c, b, a]"
    by (subst unat_load_be_exact) auto
  also have "be_bytes 8 \<dots> = [h, g, f, e, d, c, b, a]"
    by (rule be_bytes_of) simp
  finally show ?thesis using p by (simp add: p_def)
qed

lemma upt_append: "a \<le> b \<Longrightarrow> b \<le> c \<Longrightarrow> [a..<b] @ [b..<c] = [a..<c]"
  by (metis le_add_diff_inverse upt_add_eq_append)

lemma take_drop_append:
  "n + k \<le> length d \<Longrightarrow> take n (drop k (d @ e)) = take n (drop k d)"
  by simp

lemma and_0x0f: "n AND 0x0f = n mod (16 :: nat)"
  using take_bit_eq_mask [of 4 n] by (simp add: mask_eq_exp_minus_1 take_bit_eq_mod)

section \<open>Message schedules\<close>

text \<open>A list that is extended word by word, each computed from the words before it.\<close>

primrec grow :: "('a list \<Rightarrow> 'a) \<Rightarrow> 'a list \<Rightarrow> nat \<Rightarrow> 'a list" where
  "grow f M 0 = M"
| "grow f M (Suc n) = (let W = grow f M n in W @ [f W])"

lemma length_grow [simp]: "length (grow f M n) = length M + n"
  by (induction n) (simp_all add: Let_def)

lemma grow_words: "t < length M \<Longrightarrow> grow f M n ! t = M ! t"
  by (induction n) (simp_all add: Let_def nth_append)

lemma grow_nth:
  "length M \<le> t \<Longrightarrow> t < length M + n \<Longrightarrow> grow f M n ! t = f (take t (grow f M n))"
  by (induction n) (auto simp: Let_def nth_append less_Suc_eq)

text \<open>The ring \<open>X\<close> holds the sixteen words of the schedule before \<open>t\<close>.\<close>

definition ring :: "'a list \<Rightarrow> nat \<Rightarrow> 'a list \<Rightarrow> bool" where
  "ring W t X \<longleftrightarrow> length X = 16 \<and> (\<forall>k. k < t \<longrightarrow> t \<le> k + 16 \<longrightarrow> X ! (k mod 16) = W ! k)"

lemma ring_start: "length M = 16 \<Longrightarrow> (\<And>t. t < 16 \<Longrightarrow> W ! t = M ! t) \<Longrightarrow> ring W 16 M"
  by (auto simp: ring_def)

lemma ring_step: "ring W t X \<Longrightarrow> ring W (t + 1) (X[t mod 16 := W ! t])"
proof -
  assume r: "ring W t X"
  have "X[t mod 16 := W ! t] ! (k mod 16) = W ! k" if "k < t + 1" "t + 1 \<le> k + 16" for k
  proof (cases "k = t")
    case False
    then have "k < t" "t < k + 16" using that by simp_all
    then have "k mod 16 \<noteq> t mod 16"
      using mod_eq_dvd_iff_nat [of k t 16] by (auto dest: dvd_imp_le)
    then show ?thesis using r \<open>k < t\<close> that by (simp add: ring_def)
  qed (use r in \<open>simp add: ring_def\<close>)
  then show ?thesis using r by (simp add: ring_def)
qed

lemma ring_nth:
  assumes "ring W t X" "16 \<le> t" "i + j = 16" "0 < i"
  shows "X ! ((t + j) mod 16) = W ! (t - i)"
proof -
  have "t + j - 16 = t - i" using assms(2-) by linarith
  then have "(t + j) mod 16 = (t - i) mod 16" using assms(2) by (simp add: le_mod_geq)
  moreover have "t - i < t" "t \<le> t - i + 16" using assms(2-) by auto
  ultimately show ?thesis using assms(1) by (simp add: ring_def)
qed

section \<open>The collector\<close>

text \<open>
  The part of a hash context that the collector works on. \<open>SHA_CTX\<close>, \<open>MD5_CTX\<close> and \<open>MD4_CTX\<close>
  are this record; \<open>SHA256_CTX\<close> extends it.
\<close>

record md32_ctx =
  md_h :: "u32 list"
  md_Nl :: u32
  md_Nh :: u32
  md_data :: bytes
  md_num :: nat

type_synonym md32_block_func = "u32 list \<Rightarrow> bytes \<Rightarrow> nat \<Rightarrow> u32 list"

text \<open>The end of \<open>crypto_md32_update\<close>: whole blocks straight from the input, the rest into the buffer.\<close>

definition md32_update_blocks ::
  "md32_block_func \<Rightarrow> nat \<Rightarrow> 'a md32_ctx_scheme \<Rightarrow> bytes \<Rightarrow> 'a md32_ctx_scheme" where
  "md32_update_blocks block_func block_size c inp =
     (let n = length inp div block_size;
          c = (if n > 0 then c\<lparr>md_h := block_func (md_h c) inp n\<rparr> else c);
          inp = drop (n * block_size) inp;
          len = length inp
      in if len \<noteq> 0 then c\<lparr>md_num := len, md_data := memcpy_at (md_data c) 0 inp\<rparr> else c)"

definition crypto_md32_update ::
  "md32_block_func \<Rightarrow> nat \<Rightarrow> 'a md32_ctx_scheme \<Rightarrow> bytes \<Rightarrow> 'a md32_ctx_scheme" where
  "crypto_md32_update block_func block_size c inp =
     (let len = length inp in
      if len = 0 then c else
      let l = md_Nl c + push_bit 3 (of_nat len);
          c = (if l < md_Nl c then c\<lparr>md_Nh := md_Nh c + 1\<rparr> else c);
          c = c\<lparr>md_Nh := md_Nh c + of_nat (drop_bit 29 len), md_Nl := l\<rparr>;
          n = md_num c
      in if n \<noteq> 0 then
           (if len \<ge> block_size \<or> size_add len n \<ge> block_size then
              let d = memcpy_at (md_data c) n (take (block_size - n) inp)
              in md32_update_blocks block_func block_size
                   (c\<lparr>md_h := block_func (md_h c) d 1, md_num := 0,
                      md_data := memset_at d 0 0 block_size\<rparr>)
                   (drop (block_size - n) inp)
            else c\<lparr>md_data := memcpy_at (md_data c) n inp, md_num := n + len\<rparr>)
         else md32_update_blocks block_func block_size c inp)"

definition crypto_md32_final ::
  "md32_block_func \<Rightarrow> nat \<Rightarrow> bool \<Rightarrow> 'a md32_ctx_scheme \<Rightarrow> 'a md32_ctx_scheme" where
  "crypto_md32_final block_func block_size is_big_endian c =
     (let n = md_num c;
          d = (md_data c)[n := 0x80];
          n = n + 1;
          (h, d, n) =
            (if n > block_size - 8 then
               let d = memset_at d n 0 (block_size - n) in (block_func (md_h c) d 1, d, 0)
             else (md_h c, d, n));
          d = memset_at d n 0 (block_size - 8 - n);
          d = (if is_big_endian then
                 memcpy_at (memcpy_at d (block_size - 8) (CRYPTO_store_u32_be (md_Nh c)))
                   (block_size - 4) (CRYPTO_store_u32_be (md_Nl c))
               else
                 memcpy_at (memcpy_at d (block_size - 8) (CRYPTO_store_u32_le (md_Nl c)))
                   (block_size - 4) (CRYPTO_store_u32_le (md_Nh c)))
      in c\<lparr>md_h := block_func h d 1, md_num := 0, md_data := memset_at d 0 0 block_size\<rparr>)"

section \<open>The Merkle-Damgard construction\<close>

text \<open>
  The reference: a message is cut into blocks, the block function absorbs them from left to right, and
  the padding is a bit 1, zeros, and the length of the message in bits, in as few blocks as possible.
\<close>

function absorb :: "('h \<Rightarrow> bytes \<Rightarrow> 'h) \<Rightarrow> nat \<Rightarrow> 'h \<Rightarrow> bytes \<Rightarrow> 'h" where
  "absorb f bs h m =
     (if bs = 0 \<or> length m < bs then h else absorb f bs (f h (take bs m)) (drop bs m))"
  by pat_completeness auto
termination
  by (relation "measure (\<lambda>(f, bs, h, m). length m)") auto

declare absorb.simps [simp del]

definition unread :: "nat \<Rightarrow> bytes \<Rightarrow> bytes" where
  "unread bs m = drop (length m div bs * bs) m"

definition pad_zeros :: "nat \<Rightarrow> nat \<Rightarrow> nat \<Rightarrow> nat" where
  "pad_zeros bs lb n = (bs - (n + 1 + lb) mod bs) mod bs"

definition md_padded :: "nat \<Rightarrow> nat \<Rightarrow> (nat \<Rightarrow> bytes) \<Rightarrow> bytes \<Rightarrow> bytes" where
  "md_padded bs lb enc m =
     m @ [0x80] @ replicate (pad_zeros bs lb (length m)) 0 @ enc (8 * length m)"

definition md_hash ::
  "('h \<Rightarrow> bytes \<Rightarrow> 'h) \<Rightarrow> nat \<Rightarrow> nat \<Rightarrow> (nat \<Rightarrow> bytes) \<Rightarrow> 'h \<Rightarrow> bytes \<Rightarrow> 'h" where
  "md_hash f bs lb enc iv m = absorb f bs iv (md_padded bs lb enc m)"

lemma absorb_short: "length m < bs \<Longrightarrow> absorb f bs h m = h"
  by (simp add: absorb.simps)

lemma absorb_block:
  "length d = bs \<Longrightarrow> 0 < bs \<Longrightarrow> absorb f bs h (d @ m) = absorb f bs (f h d) m"
  by (subst absorb.simps) simp

lemma absorb_one: "length d = bs \<Longrightarrow> 0 < bs \<Longrightarrow> absorb f bs h d = f h d"
  using absorb_block [of d bs f h "[]"] by (simp add: absorb_short)

lemma unread_short: "length m < bs \<Longrightarrow> unread bs m = m"
  by (simp add: unread_def)

lemma length_unread [simp]: "length (unread bs m) = length m mod bs"
  by (simp add: unread_def minus_div_mult_eq_mod)

lemma unread_block: "length d = bs \<Longrightarrow> 0 < bs \<Longrightarrow> unread bs (d @ m) = unread bs m"
  using div_add_self1 [of bs "length m"] by (simp add: unread_def)

lemma absorb_cong:
  assumes "\<And>h d. length d = bs \<Longrightarrow> f h d = g h d" "0 < bs"
  shows "absorb f bs h m = absorb g bs h m"
proof (induction "length m" arbitrary: h m rule: less_induct)
  case less
  show ?case
    using less [of "drop bs m" "g h (take bs m)"] assms
    by (subst (1 2) absorb.simps) auto
qed

text \<open>What was absorbed and what is left determine what a longer message is absorbed to.\<close>

lemma absorb_append:
  assumes bs: "0 < bs"
  shows "absorb f bs h (m @ e) = absorb f bs (absorb f bs h m) (unread bs m @ e)"
proof (induction "length m" arbitrary: h m rule: less_induct)
  case less
  show ?case
  proof (cases "length m < bs")
    case True
    then show ?thesis by (simp add: absorb_short unread_short)
  next
    case False
    then obtain d m' where m: "m = d @ m'" "length d = bs"
      using append_take_drop_id [of bs m] by (metis length_take min.absorb2 not_less)
    then have "length m' < length m" using bs by simp
    from less [OF this, of "f h d"] show ?thesis
      using m bs by (simp add: absorb_block unread_block)
  qed
qed

lemma unread_append:
  assumes bs: "0 < bs"
  shows "unread bs (m @ e) = unread bs (unread bs m @ e)"
proof (induction "length m" arbitrary: m rule: less_induct)
  case less
  show ?case
  proof (cases "length m < bs")
    case True
    then show ?thesis by (simp add: unread_short)
  next
    case False
    then obtain d m' where m: "m = d @ m'" "length d = bs"
      using append_take_drop_id [of bs m] by (metis length_take min.absorb2 not_less)
    then have "length m' < length m" using bs by simp
    from less [OF this] show ?thesis using m bs by (simp add: unread_block)
  qed
qed

text \<open>The padding is minimal and fills the last block.\<close>

lemma pad_zeros_least:
  assumes "0 < bs"
  shows "bs dvd n + 1 + pad_zeros bs lb n + lb"
    and "bs dvd n + 1 + k + lb \<Longrightarrow> pad_zeros bs lb n \<le> k"
proof -
  define r where "r = (n + 1 + lb) mod bs"
  have r: "r < bs" using assms by (simp add: r_def)
  have k: "(n + 1 + k + lb) mod bs = (r + k) mod bs" for k
    unfolding r_def by (simp add: mod_simps ac_simps)
  have p: "pad_zeros bs lb n = (if r = 0 then 0 else bs - r)"
    unfolding pad_zeros_def r_def [symmetric] using r by simp
  show "bs dvd n + 1 + pad_zeros bs lb n + lb"
    using r by (simp only: dvd_eq_mod_eq_0 k p) auto
  show "pad_zeros bs lb n \<le> k" if "bs dvd n + 1 + k + lb"
  proof -
    have "bs dvd r + k" using that by (simp only: dvd_eq_mod_eq_0 k)
    then show ?thesis using r by (auto simp: p dest: dvd_imp_le)
  qed
qed

text \<open>
  A context tracks the message \<open>m\<close> from the initial value \<open>iv\<close> when its chaining value has absorbed the
  blocks of \<open>m\<close> and its buffer starts with what is left of \<open>m\<close>.
\<close>

definition tracks ::
  "('h \<Rightarrow> bytes \<Rightarrow> 'h) \<Rightarrow> nat \<Rightarrow> 'h \<Rightarrow> bytes \<Rightarrow> 'h \<Rightarrow> bytes \<Rightarrow> nat \<Rightarrow> bool" where
  "tracks f bs iv m h d n \<longleftrightarrow>
     h = absorb f bs iv m \<and> length d = bs \<and> n = length m mod bs \<and> take n d = unread bs m"

lemma tracks_empty: "length d = bs \<Longrightarrow> 0 < bs \<Longrightarrow> tracks f bs iv [] iv d 0"
  by (simp add: tracks_def absorb_short unread_def)

definition md_step :: "('h \<Rightarrow> bytes \<Rightarrow> nat \<Rightarrow> 'h) \<Rightarrow> 'h \<Rightarrow> bytes \<Rightarrow> 'h" where
  "md_step blocks h d = blocks h d 1"

text \<open>
  What a block function promises: it reads one block for each one it is asked for, and asking for
  several at once is asking for them one after the other.
\<close>

locale block_hash =
  fixes blocks :: "'h \<Rightarrow> bytes \<Rightarrow> nat \<Rightarrow> 'h"
    and bs lb :: nat
  assumes lb_less: "lb < bs"
    and blocks_one: "length d = bs \<Longrightarrow> blocks h (d @ e) 1 = blocks h d 1"
    and blocks_Suc: "blocks h d (Suc (Suc n)) = blocks (blocks h d 1) (drop bs d) (Suc n)"
begin

abbreviation one :: "'h \<Rightarrow> bytes \<Rightarrow> 'h" where
  "one \<equiv> md_step blocks"

lemmas one_def = md_step_def [of blocks]

lemma bs_pos: "0 < bs"
  using lb_less by simp

lemma one_append: "length d = bs \<Longrightarrow> one h (d @ e) = one h d"
  unfolding one_def by (rule blocks_one)

lemma blocks_absorb:
  "Suc n * bs \<le> length d \<Longrightarrow> blocks h d (Suc n) = absorb one bs h (take (Suc n * bs) d)"
proof (induction n arbitrary: h d)
  case 0
  then have "blocks h d 1 = one h (take bs d @ drop bs d)" by (simp add: one_def)
  also have "\<dots> = one h (take bs d)" using 0 by (intro one_append) simp
  finally show ?case using 0 bs_pos by (simp add: absorb_one)
next
  case (Suc n)
  have first: "blocks h d 1 = one h (take bs d)"
    using one_append [of "take bs d" h "drop bs d"] Suc.prems by (simp add: one_def)
  have "blocks h d (Suc (Suc n)) = absorb one bs (one h (take bs d)) (take (Suc n * bs) (drop bs d))"
    using Suc.IH [of "drop bs d" "one h (take bs d)"] Suc.prems
    by (simp add: blocks_Suc first del: One_nat_def)
  also have "\<dots> = absorb one bs h (take bs d @ take (Suc n * bs) (drop bs d))"
    using Suc.prems bs_pos by (intro absorb_block [symmetric]) auto
  also have "take bs d @ take (Suc n * bs) (drop bs d) = take (Suc (Suc n) * bs) d"
    by (simp add: take_add add.assoc)
  finally show ?case .
qed

lemma blocks_div:
  assumes "0 < length d div bs"
  shows "blocks h d (length d div bs) = absorb one bs h d"
proof -
  obtain n where n: "length d div bs = Suc n" using assms gr0_conv_Suc by blast
  have le: "Suc n * bs \<le> length d" unfolding n [symmetric] by simp
  have split: "d = take (Suc n * bs) d @ unread bs d" by (simp only: unread_def n append_take_drop_id)
  have "unread bs (take (Suc n * bs) d) = []" using le by (simp add: unread_def)
  then have "absorb one bs h d = absorb one bs (absorb one bs h (take (Suc n * bs) d)) (unread bs d)"
    using absorb_append [OF bs_pos, of one h "take (Suc n * bs) d" "unread bs d"] split by simp
  then show ?thesis using le bs_pos by (simp add: n blocks_absorb absorb_short)
qed

lemma tracks_fill:
  assumes t: "tracks one bs iv m h d n" and x: "length x = bs - n" and d': "length d' = bs"
  shows "tracks one bs iv (m @ x) (one h (memcpy_at d n x)) d' 0"
proof -
  have n: "n < bs" using t bs_pos by (simp add: tracks_def)
  have d: "memcpy_at d n x = unread bs m @ x" using t x n by (auto simp: memcpy_at_def tracks_def)
  have len: "length (unread bs m @ x) = bs" using t x n by (simp add: tracks_def)
  then have "unread bs (m @ x) = []"
    using unread_append [OF bs_pos, of m x] unread_block [of "unread bs m @ x" bs "[]"] bs_pos
    by (simp add: unread_short)
  moreover from this have "length (m @ x) mod bs = 0" using length_unread [of bs "m @ x"] by simp
  moreover have "absorb one bs iv (m @ x) = one h (unread bs m @ x)"
    using absorb_append [OF bs_pos, of one iv m x] len t bs_pos
    by (simp add: tracks_def absorb_one)
  ultimately show ?thesis using d d' by (simp add: tracks_def)
qed

lemma tracks_buffer:
  assumes t: "tracks one bs iv m h d n" and x: "n + length x < bs"
  shows "tracks one bs iv (m @ x) h (memcpy_at d n x) (n + length x)"
proof -
  have short: "length (unread bs m @ x) < bs" using t x by (simp add: tracks_def)
  then have "absorb one bs iv (m @ x) = h"
    using absorb_append [OF bs_pos, of one iv m x] t by (simp add: tracks_def absorb_short)
  moreover have u: "unread bs (m @ x) = unread bs m @ x"
    using unread_append [OF bs_pos, of m x] short by (simp add: unread_short)
  moreover have "length (m @ x) mod bs = n + length x"
    using length_unread [of bs "m @ x"] t by (simp add: u tracks_def)
  ultimately show ?thesis using t x by (auto simp: tracks_def memcpy_at_def)
qed

lemma tracks_blocks:
  fixes x :: bytes
  assumes t: "tracks one bs iv m h d 0"
  defines "k \<equiv> length x div bs"
  defines "h' \<equiv> if k > 0 then blocks h x k else h"
  shows "tracks one bs iv (m @ x) h' (memcpy_at d 0 (drop (k * bs) x)) (length x - k * bs)"
proof -
  have m: "unread bs m = []" "length m mod bs = 0" "h = absorb one bs iv m" "length d = bs"
    using t by (simp_all add: tracks_def)
  have rest: "drop (k * bs) x = unread bs x" by (simp add: unread_def k_def)
  have less: "length x - k * bs = length x mod bs" by (simp add: k_def minus_div_mult_eq_mod)
  have "h' = absorb one bs h x"
    using bs_pos by (auto simp: h'_def k_def blocks_div absorb_short div_eq_0_iff)
  moreover have "absorb one bs iv (m @ x) = absorb one bs h x"
    using absorb_append [OF bs_pos, of one iv m x] m by simp
  moreover have "unread bs (m @ x) = unread bs x" using unread_append [OF bs_pos, of m x] m by simp
  moreover have "length (m @ x) mod bs = length x mod bs" using m(2) by (simp add: mod_add_eq [symmetric])
  moreover have "length x mod bs < bs" using bs_pos by simp
  ultimately show ?thesis using m(4)
    by (simp add: tracks_def rest less memcpy_at_def)
qed

text \<open>The last block, or the last two when the length does not fit behind the message.\<close>

lemma padded_one_block:
  assumes t: "tracks one bs iv m h d n" and fits: "n + 1 + lb \<le> bs"
    and len: "length (enc (8 * length m)) = lb"
  shows "md_hash one bs lb enc iv m
    = one h (memcpy_at (memset_at (d[n := 0x80]) (n + 1) 0 (bs - lb - (n + 1))) (bs - lb) (enc (8 * length m)))"
proof -
  have d: "length d = bs" "n = length m mod bs" "h = absorb one bs iv m" "take n d = unread bs m"
    using t by (auto simp: tracks_def)
  have "(length m + 1 + lb) mod bs = (n + 1 + lb) mod bs"
    by (simp only: d(2) add.assoc mod_add_left_eq)
  then have k: "pad_zeros bs lb (length m) = bs - lb - (n + 1)"
    using fits lb_less by (cases "n + 1 + lb = bs") (auto simp: pad_zeros_def)
  have "take n (d[n := 0x80]) @ [0x80] = take (Suc n) (d[n := 0x80])"
    using d fits by (simp add: take_Suc_conv_app_nth)
  then have "memcpy_at (memset_at (d[n := 0x80]) (n + 1) 0 (bs - lb - (n + 1))) (bs - lb) (enc (8 * length m))
      = unread bs m @ [0x80] @ replicate (bs - lb - (n + 1)) 0 @ enc (8 * length m)"
    using d fits len by (simp add: memset_at_def memcpy_at_def)
  moreover have "absorb one bs h (unread bs m @ [0x80] @ replicate (bs - lb - (n + 1)) 0 @ enc (8 * length m))
      = one h (unread bs m @ [0x80] @ replicate (bs - lb - (n + 1)) 0 @ enc (8 * length m))"
    using fits len bs_pos d by (intro absorb_one) auto
  ultimately show ?thesis
    using absorb_append [OF bs_pos, of one iv m] by (simp add: md_hash_def md_padded_def k d(3))
qed

lemma padded_two_blocks:
  assumes t: "tracks one bs iv m h d n" and full: "\<not> n + 1 + lb \<le> bs"
    and len: "length (enc (8 * length m)) = lb"
  defines "d1 \<equiv> memset_at (d[n := 0x80]) (n + 1) 0 (bs - (n + 1))"
  shows "md_hash one bs lb enc iv m
    = one (one h d1) (memcpy_at (memset_at d1 0 0 (bs - lb)) (bs - lb) (enc (8 * length m)))"
proof -
  have d: "length d = bs" "n = length m mod bs" "h = absorb one bs iv m" "take n d = unread bs m"
    using t by (auto simp: tracks_def)
  have n: "n < bs" using d bs_pos by simp
  have "(length m + 1 + lb) mod bs = (n + 1 + lb) mod bs"
    by (simp only: d(2) add.assoc mod_add_left_eq)
  also have "\<dots> = n + 1 + lb - bs" using full n lb_less by (simp add: mod_if)
  finally have k: "pad_zeros bs lb (length m) = (bs - (n + 1)) + (bs - lb)"
    using full n lb_less by (simp add: pad_zeros_def)
  have "take n (d[n := 0x80]) @ [0x80] = take (Suc n) (d[n := 0x80])"
    using d n by (simp add: take_Suc_conv_app_nth)
  then have d1: "d1 = unread bs m @ [0x80] @ replicate (bs - (n + 1)) 0"
    using d n by (simp add: d1_def memset_at_def memcpy_at_def)
  have l1: "length d1 = bs" using d n by (simp add: d1)
  have d2: "memcpy_at (memset_at d1 0 0 (bs - lb)) (bs - lb) (enc (8 * length m))
      = replicate (bs - lb) 0 @ enc (8 * length m)"
    using l1 len lb_less by (simp add: memset_at_def memcpy_at_def)
  have "md_hash one bs lb enc iv m = absorb one bs h (d1 @ replicate (bs - lb) 0 @ enc (8 * length m))"
    using absorb_append [OF bs_pos, of one iv m]
    by (simp add: md_hash_def md_padded_def k d(3) d1 replicate_add)
  also have "\<dots> = absorb one bs (one h d1) (replicate (bs - lb) 0 @ enc (8 * length m))"
    using l1 bs_pos by (rule absorb_block)
  also have "\<dots> = one (one h d1) (replicate (bs - lb) 0 @ enc (8 * length m))"
    using len lb_less bs_pos by (intro absorb_one) auto
  finally show ?thesis by (simp add: d2)
qed

end

section \<open>The collector keeps track of the message\<close>

text \<open>The two halves of the bit counter as one number.\<close>

definition bit_count :: "'a::len word \<Rightarrow> 'a word \<Rightarrow> nat" where
  "bit_count Nh Nl = unat Nh * 2 ^ LENGTH('a) + unat Nl"

lemma mod_digit: "b < c \<Longrightarrow> (a mod e) * c + b = (a * c + b) mod (c * e)" for a b c e :: nat
  by (simp add: mod_mult2_eq)

lemma bit_count_add:
  fixes Nh Nl :: "'a::len word" and len :: nat
  assumes w: "3 \<le> LENGTH('a)"
  defines "l \<equiv> Nl + push_bit 3 (of_nat len)"
  defines "c \<equiv> (if l < Nl then Nh + 1 else Nh)"
  shows "bit_count (c + of_nat (drop_bit (LENGTH('a) - 3) len)) l
    = (bit_count Nh Nl + 8 * len) mod (2 ^ LENGTH('a) * 2 ^ LENGTH('a))"
proof -
  define M :: nat where "M = 2 ^ LENGTH('a)"
  define q r where "q = len div 2 ^ (LENGTH('a) - 3)" and "r = 8 * len mod M"
  have M: "M = 8 * 2 ^ (LENGTH('a) - 3)"
    using w power_add [of "2 :: nat" 3 "LENGTH('a) - 3"] by (simp add: M_def)
  have "8 * len div M = q" unfolding M q_def by (rule div_mult_mult1) simp
  then have len8: "8 * len = q * M + r"
    unfolding r_def using div_mult_mod_eq [of "8 * len" M] by simp
  define carry :: nat where "carry = (if l < Nl then 1 else 0)"
  have nl: "unat Nl < M" and r: "r < M"
    using unsigned_less [of Nl, where ?'a = nat] by (simp_all add: r_def M_def)
  have "unat (push_bit 3 (of_nat len) :: 'a word) = r"
    by (simp add: unat_push_bit unat_of_nat r_def M_def mod_simps mult.commute)
  then have l: "unat l = (unat Nl + r) mod M" by (simp add: l_def unat_word_ariths M_def)
  have lc: "unat l + carry * M = unat Nl + r"
    using l nl r by (auto simp: carry_def word_less_nat_alt mod_if split: if_splits)
  have add: "unat (Nh + of_nat k) = (unat Nh + k) mod M" for k
    unfolding M_def using unat_of_nat [of "unat Nh + k", where ?'a = 'a] by simp
  have "unat (c + of_nat q) = (unat Nh + carry + q) mod M"
    using add [of q] add [of "Suc q"] by (simp add: c_def carry_def ac_simps)
  then have "bit_count (c + of_nat (drop_bit (LENGTH('a) - 3) len)) l
      = (unat Nh + carry + q) mod M * M + unat l"
    by (simp add: bit_count_def drop_bit_eq_div q_def M_def)
  also have "\<dots> = ((unat Nh + carry + q) * M + unat l) mod (M * M)"
    using unsigned_less [of l, where ?'a = nat] by (intro mod_digit) (simp add: M_def)
  also have "(unat Nh + carry + q) * M + unat l = bit_count Nh Nl + 8 * len"
    using lc len8 by (simp add: bit_count_def M_def algebra_simps)
  finally show ?thesis by (simp add: M_def)
qed

lemma md32_length_be:
  assumes "bit_count Nh Nl = n mod 2 ^ 64"
  shows "CRYPTO_store_u32_be Nh @ CRYPTO_store_u32_be Nl = be_bytes 8 n"
proof -
  have "unat Nh < 256 ^ 4" "unat Nl < 256 ^ 4"
    using unsigned_less [of Nh, where ?'a = nat] unsigned_less [of Nl, where ?'a = nat] by simp_all
  then have "be_value (be_bytes 4 (unat Nh) @ be_bytes 4 (unat Nl)) = bit_count Nh Nl"
    by (simp add: byte_simps bit_count_def)
  then have "be_bytes 8 (bit_count Nh Nl) = be_bytes 4 (unat Nh) @ be_bytes 4 (unat Nl)"
    by (metis be_bytes_of length_append length_be_bytes numeral_Bit0)
  then show ?thesis using be_bytes_mod [of 8 n] by (simp add: store_u32_be assms)
qed

lemma md32_length_le:
  assumes "bit_count Nh Nl = n mod 2 ^ 64"
  shows "CRYPTO_store_u32_le Nl @ CRYPTO_store_u32_le Nh = le_bytes 8 n"
proof -
  have "rev (CRYPTO_store_u32_le Nl @ CRYPTO_store_u32_le Nh)
      = be_bytes 4 (unat Nh) @ be_bytes 4 (unat Nl)"
    by (simp add: CRYPTO_store_u32_le_def flip: rev_be_bytes)
  also have "\<dots> = be_bytes 8 n" using md32_length_be [OF assms] by (simp add: store_u32_be)
  finally show ?thesis by (metis rev_be_bytes rev_rev_ident)
qed

definition md32_length :: "bool \<Rightarrow> nat \<Rightarrow> bytes" where
  "md32_length is_big_endian n = (if is_big_endian then be_bytes 8 n else le_bytes 8 n)"

lemma length_md32_length [simp]: "length (md32_length be n) = 8"
  by (simp add: md32_length_def)

text \<open>The buffer is zero behind the partial block, and the counter is that of the message.\<close>

definition md32_tracks ::
  "md32_block_func \<Rightarrow> nat \<Rightarrow> u32 list \<Rightarrow> bytes \<Rightarrow> 'a md32_ctx_scheme \<Rightarrow> bool" where
  "md32_tracks block_func block_size iv m c \<longleftrightarrow>
     tracks (md_step block_func) block_size iv m (md_h c) (md_data c) (md_num c) \<and>
     drop (md_num c) (md_data c) = replicate (block_size - md_num c) 0 \<and>
     bit_count (md_Nh c) (md_Nl c) = 8 * length m mod 2 ^ 64"

locale md32_hash = block_hash blocks bs 8
  for blocks :: md32_block_func and bs :: nat +
  assumes bs_small: "bs < 2 ^ 32"
begin

lemma update_blocks_tracks:
  assumes t: "tracks one bs iv m (md_h c) (md_data c) 0" and z: "md_data c = replicate bs 0"
    and num: "md_num c = 0"
  shows "tracks one bs iv (m @ inp) (md_h (md32_update_blocks blocks bs c inp))
      (md_data (md32_update_blocks blocks bs c inp)) (md_num (md32_update_blocks blocks bs c inp))
    \<and> drop (md_num (md32_update_blocks blocks bs c inp)) (md_data (md32_update_blocks blocks bs c inp))
      = replicate (bs - md_num (md32_update_blocks blocks bs c inp)) 0
    \<and> md_Nh (md32_update_blocks blocks bs c inp) = md_Nh c
    \<and> md_Nl (md32_update_blocks blocks bs c inp) = md_Nl c"
proof -
  define k where "k = length inp div bs"
  have rest: "length inp - k * bs < bs" using bs_pos by (simp add: k_def minus_div_mult_eq_mod)
  show ?thesis
    using tracks_blocks [OF t, of inp, folded k_def] num z rest
    by (auto simp: md32_update_blocks_def Let_def memcpy_at_def simp flip: k_def)
qed

text \<open>One call of the collector, by the three ways the input can meet the buffer.\<close>

definition counted :: "'a md32_ctx_scheme \<Rightarrow> nat \<Rightarrow> 'a md32_ctx_scheme" where
  "counted c len =
     (let l = md_Nl c + push_bit 3 (of_nat len);
          c = (if l < md_Nl c then c\<lparr>md_Nh := md_Nh c + 1\<rparr> else c)
      in c\<lparr>md_Nh := md_Nh c + of_nat (drop_bit 29 len), md_Nl := l\<rparr>)"

lemma counted_simps [simp]:
  "md_h (counted c len) = md_h c" "md_data (counted c len) = md_data c"
  "md_num (counted c len) = md_num c"
  by (simp_all add: counted_def Let_def)

lemma counted_count:
  assumes "bit_count (md_Nh c) (md_Nl c) = 8 * n mod 2 ^ 64"
  shows "bit_count (md_Nh (counted c len)) (md_Nl (counted c len)) = 8 * (n + len) mod 2 ^ 64"
proof -
  have "bit_count (md_Nh (counted c len)) (md_Nl (counted c len))
      = (bit_count (md_Nh c) (md_Nl c) + 8 * len) mod 2 ^ 64"
    using bit_count_add [of "md_Nl c" len "md_Nh c"]
    by (auto simp: counted_def Let_def split: if_splits)
  also have "\<dots> = 8 * (n + len) mod 2 ^ 64"
    unfolding assms by (simp only: mod_add_left_eq distrib_left)
  finally show ?thesis .
qed

lemma update_by_cases:
  assumes "inp \<noteq> []" "length inp < size_mod" "md_num c < bs"
  shows "crypto_md32_update blocks bs c inp =
      (let c = counted c (length inp); n = md_num c in
       if n \<noteq> 0 then
         (if bs \<le> n + length inp then
            let d = memcpy_at (md_data c) n (take (bs - n) inp) in
            md32_update_blocks blocks bs
              (c\<lparr>md_h := one (md_h c) d, md_num := 0, md_data := memset_at d 0 0 bs\<rparr>)
              (drop (bs - n) inp)
          else c\<lparr>md_data := memcpy_at (md_data c) n inp, md_num := n + length inp\<rparr>)
       else md32_update_blocks blocks bs c inp)"
proof -
  have big: "bs \<le> length inp \<or> bs \<le> size_add (length inp) (md_num c) \<longleftrightarrow> bs \<le> md_num c + length inp"
  proof (cases "bs \<le> length inp")
    case False
    then have "length inp + md_num c < size_mod" using assms(3) bs_small by (simp add: size_mod_def)
    then show ?thesis by (auto simp: size_add_exact add.commute)
  qed simp
  have "crypto_md32_update blocks bs c inp =
      (let c = counted c (length inp); n = md_num c in
       if n \<noteq> 0 then
         (if bs \<le> length inp \<or> bs \<le> size_add (length inp) n then
            let d = memcpy_at (md_data c) n (take (bs - n) inp) in
            md32_update_blocks blocks bs
              (c\<lparr>md_h := one (md_h c) d, md_num := 0, md_data := memset_at d 0 0 bs\<rparr>)
              (drop (bs - n) inp)
          else c\<lparr>md_data := memcpy_at (md_data c) n inp, md_num := n + length inp\<rparr>)
       else md32_update_blocks blocks bs c inp)"
    using assms(1) by (simp add: crypto_md32_update_def Let_def md_step_def counted_def)
  then show ?thesis by (simp only: Let_def counted_simps big)
qed

lemma update_tracks:
  assumes t: "md32_tracks blocks bs iv m c" and len: "length inp < size_mod"
  shows "md32_tracks blocks bs iv (m @ inp) (crypto_md32_update blocks bs c inp)"
proof (cases "inp = []")
  case True
  then show ?thesis using t by (simp add: crypto_md32_update_def)
next
  case nonempty: False
  define c1 n x where "c1 = counted c (length inp)" and "n = md_num c" and "x = take (bs - n) inp"
  have tr: "tracks one bs iv m (md_h c1) (md_data c1) n"
    and z: "drop n (md_data c1) = replicate (bs - n) 0"
    using t by (simp_all add: md32_tracks_def n_def c1_def)
  have n: "n < bs" and num: "md_num c1 = n" and D: "length (md_data c1) = bs"
    using tr bs_pos by (simp_all add: tracks_def n_def c1_def)
  have count: "bit_count (md_Nh c1) (md_Nl c1) = 8 * length (m @ inp) mod 2 ^ 64"
    using t counted_count [of c "length m" "length inp"] by (simp add: c1_def md32_tracks_def)
  note upd = update_by_cases [OF nonempty len n [unfolded n_def], unfolded Let_def, folded c1_def]
  consider "n = 0" | "n \<noteq> 0" "bs \<le> n + length inp" | "n \<noteq> 0" "n + length inp < bs" by linarith
  then show ?thesis
  proof cases
    case 1
    then show ?thesis
      using update_blocks_tracks [of iv m c1 inp] tr z D num count
      by (simp add: upd md32_tracks_def)
  next
    case 2
    define d c2 where "d = memcpy_at (md_data c1) n x"
      and "c2 = c1\<lparr>md_h := one (md_h c1) d, md_num := 0, md_data := memset_at d 0 0 bs\<rparr>"
    have x: "length x = bs - n" using 2 by (simp add: x_def)
    have zero: "memset_at d 0 0 bs = replicate bs 0"
      using D x n by (simp add: memset_at_def memcpy_at_def d_def)
    have "tracks one bs iv (m @ x) (md_h c2) (md_data c2) 0"
      using tracks_fill [OF tr x, of "replicate bs 0"] by (simp add: c2_def zero flip: d_def)
    then show ?thesis
      using update_blocks_tracks [of iv "m @ x" c2 "drop (bs - n) inp"] zero 2 count num
      by (simp add: upd md32_tracks_def x_def c2_def d_def)
  next
    case 3
    have "drop (n + length inp) (md_data c1) = replicate (bs - (n + length inp)) 0"
      using arg_cong [OF z, of "drop (length inp)"] by (simp add: add.commute)
    with 3 show ?thesis
      using tracks_buffer [OF tr, of inp] D count num
      by (simp add: upd md32_tracks_def memcpy_at_def)
  qed
qed

text \<open>Closing the message computes the hash of everything that was absorbed.\<close>

lemma final_hash:
  assumes t: "md32_tracks blocks bs iv m c"
  shows "md_h (crypto_md32_final blocks bs be c) = md_hash one bs 8 (md32_length be) iv m"
proof -
  have tr: "tracks one bs iv m (md_h c) (md_data c) (md_num c)" using t by (simp add: md32_tracks_def)
  have D: "length (md_data c) = bs" and n: "md_num c < bs"
    using tr bs_pos by (simp_all add: tracks_def)
  have len: "(if be then memcpy_at (memcpy_at d (bs - 8) (CRYPTO_store_u32_be (md_Nh c)))
                   (bs - 4) (CRYPTO_store_u32_be (md_Nl c))
               else memcpy_at (memcpy_at d (bs - 8) (CRYPTO_store_u32_le (md_Nl c)))
                   (bs - 4) (CRYPTO_store_u32_le (md_Nh c)))
      = memcpy_at d (bs - 8) (md32_length be (8 * length m))" if "length d = bs" for d
    using that lb_less md32_length_be [of "md_Nh c" "md_Nl c" "8 * length m"]
      md32_length_le [of "md_Nh c" "md_Nl c" "8 * length m"] t
    by (auto simp: memcpy_at_def md32_tracks_def md32_length_def)
  show ?thesis
  proof (cases "md_num c + 1 + 8 \<le> bs")
    case True
    then have "\<not> bs - 8 < Suc (md_num c)" by linarith
    then show ?thesis
      using padded_one_block [OF tr True, of "md32_length be"] D True
      by (simp add: crypto_md32_final_def Let_def len md_step_def)
  next
    case False
    then have "bs - 8 < Suc (md_num c)" by linarith
    then show ?thesis
      using padded_two_blocks [OF tr False, of "md32_length be"] D n lb_less
      by (simp add: crypto_md32_final_def Let_def len md_step_def)
  qed
qed

lemma final_clears:
  assumes t: "md32_tracks blocks bs iv m c"
  shows "md_num (crypto_md32_final blocks bs be c) = 0
    \<and> md_data (crypto_md32_final blocks bs be c) = replicate bs 0"
proof -
  have "length (md_data c) = bs" "md_num c < bs"
    using t bs_pos by (simp_all add: md32_tracks_def tracks_def)
  then show ?thesis
    using lb_less by (simp add: crypto_md32_final_def Let_def memset_all)
qed

lemma stream_tracks:
  "md32_tracks blocks bs iv m c \<Longrightarrow> \<forall>x \<in> set xs. length x < size_mod \<Longrightarrow>
     md32_tracks blocks bs iv (m @ concat xs) (foldl (crypto_md32_update blocks bs) c xs)"
proof (induction xs arbitrary: m c)
  case (Cons x xs)
  then show ?case using Cons.IH [OF update_tracks [OF Cons.prems(1), of x]] by simp
qed simp

end

end
