(* ===== verification/SHA2.thy ===== *)
theory SHA2
  imports Digest_MD32
begin

text \<open>
  \<open>crypto/fipsmodule/sha/sha256.c\<close> and \<open>sha512.c\<close>, the portable branch: the assembly versions are
  not part of the C code. The block functions keep the message schedule in a ring of sixteen words and
  rename the eight working variables from round to round; the reference is FIPS 180-4, with the whole
  schedule in a list and the variables shifted by one place in each round. The locale \<open>sha2_rounds\<close> is
  what both word sizes share.
\<close>

section \<open>SHA-224 and SHA-256\<close>

abbreviation (input) SHA256_CBLOCK :: nat where "SHA256_CBLOCK \<equiv> 64"
abbreviation (input) SHA224_DIGEST_LENGTH :: nat where "SHA224_DIGEST_LENGTH \<equiv> 28"
abbreviation (input) SHA256_DIGEST_LENGTH :: nat where "SHA256_DIGEST_LENGTH \<equiv> 32"

record SHA256_CTX = md32_ctx +
  md_len :: nat

definition SHA224_Init :: "SHA256_CTX" where
  "SHA224_Init = \<lparr>md_h = [0xc1059ed8, 0x367cd507, 0x3070dd17, 0xf70e5939,
     0xffc00b31, 0x68581511, 0x64f98fa7, 0xbefa4fa4],
     md_Nl = 0, md_Nh = 0, md_data = replicate 64 0, md_num = 0, md_len = SHA224_DIGEST_LENGTH\<rparr>"

definition SHA256_Init :: "SHA256_CTX" where
  "SHA256_Init = \<lparr>md_h = [0x6a09e667, 0xbb67ae85, 0x3c6ef372, 0xa54ff53a,
     0x510e527f, 0x9b05688c, 0x1f83d9ab, 0x5be0cd19],
     md_Nl = 0, md_Nh = 0, md_data = replicate 64 0, md_num = 0, md_len = SHA256_DIGEST_LENGTH\<rparr>"

definition K256 :: "u32 list" where
  "K256 = [0x428a2f98, 0x71374491, 0xb5c0fbcf, 0xe9b5dba5]
   @ [0x3956c25b, 0x59f111f1, 0x923f82a4, 0xab1c5ed5]
   @ [0xd807aa98, 0x12835b01, 0x243185be, 0x550c7dc3]
   @ [0x72be5d74, 0x80deb1fe, 0x9bdc06a7, 0xc19bf174]
   @ [0xe49b69c1, 0xefbe4786, 0x0fc19dc6, 0x240ca1cc]
   @ [0x2de92c6f, 0x4a7484aa, 0x5cb0a9dc, 0x76f988da]
   @ [0x983e5152, 0xa831c66d, 0xb00327c8, 0xbf597fc7]
   @ [0xc6e00bf3, 0xd5a79147, 0x06ca6351, 0x14292967]
   @ [0x27b70a85, 0x2e1b2138, 0x4d2c6dfc, 0x53380d13]
   @ [0x650a7354, 0x766a0abb, 0x81c2c92e, 0x92722c85]
   @ [0xa2bfe8a1, 0xa81a664b, 0xc24b8b70, 0xc76c51a3]
   @ [0xd192e819, 0xd6990624, 0xf40e3585, 0x106aa070]
   @ [0x19a4c116, 0x1e376c08, 0x2748774c, 0x34b0bcb5]
   @ [0x391c0cb3, 0x4ed8aa4a, 0x5b9cca4f, 0x682e6ff3]
   @ [0x748f82ee, 0x78a5636f, 0x84c87814, 0x8cc70208]
   @ [0x90befffa, 0xa4506ceb, 0xbef9a3f7, 0xc67178f2]"

definition Sigma0_256 :: "u32 \<Rightarrow> u32" where
  "Sigma0_256 x = CRYPTO_rotr_u32 x 2 XOR CRYPTO_rotr_u32 x 13 XOR CRYPTO_rotr_u32 x 22"

definition Sigma1_256 :: "u32 \<Rightarrow> u32" where
  "Sigma1_256 x = CRYPTO_rotr_u32 x 6 XOR CRYPTO_rotr_u32 x 11 XOR CRYPTO_rotr_u32 x 25"

definition sigma0_256 :: "u32 \<Rightarrow> u32" where
  "sigma0_256 x = CRYPTO_rotr_u32 x 7 XOR CRYPTO_rotr_u32 x 18 XOR drop_bit 3 x"

definition sigma1_256 :: "u32 \<Rightarrow> u32" where
  "sigma1_256 x = CRYPTO_rotr_u32 x 17 XOR CRYPTO_rotr_u32 x 19 XOR drop_bit 10 x"

definition Ch :: "'a::len word \<Rightarrow> 'a word \<Rightarrow> 'a word \<Rightarrow> 'a word" where
  "Ch x y z = (x AND y) XOR (NOT x AND z)"

definition Maj :: "'a::len word \<Rightarrow> 'a word \<Rightarrow> 'a word \<Rightarrow> 'a word" where
  "Maj x y z = (x AND y) XOR (x AND z) XOR (y AND z)"

text \<open>The round macros change \<open>d\<close> and \<open>h\<close>, which they return; \<open>T1\<close> is live only inside a round.\<close>

definition ROUND_00_15_256 ::
  "u32 \<Rightarrow> nat \<Rightarrow> u32 \<Rightarrow> u32 \<Rightarrow> u32 \<Rightarrow> u32 \<Rightarrow> u32 \<Rightarrow> u32 \<Rightarrow> u32 \<Rightarrow> u32 \<Rightarrow> u32 \<times> u32" where
  "ROUND_00_15_256 T1 i a b c d e f g h =
     (let T1 = T1 + (h + Sigma1_256 e + Ch e f g + K256 ! i);
          h = Sigma0_256 a + Maj a b c;
          d = d + T1;
          h = h + T1
      in (d, h))"

definition ROUND_16_63 ::
  "nat \<Rightarrow> u32 \<Rightarrow> u32 \<Rightarrow> u32 \<Rightarrow> u32 \<Rightarrow> u32 \<Rightarrow> u32 \<Rightarrow> u32 \<Rightarrow> u32 \<Rightarrow> u32 list \<Rightarrow> u32 \<times> u32 \<times> u32 list" where
  "ROUND_16_63 i a b c d e f g h X =
     (let s0 = X ! ((i + 1) AND 0x0f);
          s0 = sigma0_256 s0;
          s1 = X ! ((i + 14) AND 0x0f);
          s1 = sigma1_256 s1;
          x = X ! (i AND 0x0f) + (s0 + s1 + X ! ((i + 9) AND 0x0f));
          X = X[i AND 0x0f := x];
          (d, h) = ROUND_00_15_256 x i a b c d e f g h
      in (d, h, X))"

type_synonym regs256 = "u32 \<times> u32 \<times> u32 \<times> u32 \<times> u32 \<times> u32 \<times> u32 \<times> u32"

text \<open>The first sixteen rounds; \<open>X\<close> holds the words of the block, which the code loads one by one.\<close>

definition sha256_rounds_00_15 :: "u32 list \<Rightarrow> regs256 \<Rightarrow> regs256" where
  "sha256_rounds_00_15 X r =
     (let (a, b, c, d, e, f, g, h) = r;
          (d, h) = ROUND_00_15_256 (X ! 0) 0 a b c d e f g h;
          (c, g) = ROUND_00_15_256 (X ! 1) 1 h a b c d e f g;
          (b, f) = ROUND_00_15_256 (X ! 2) 2 g h a b c d e f;
          (a, e) = ROUND_00_15_256 (X ! 3) 3 f g h a b c d e;
          (h, d) = ROUND_00_15_256 (X ! 4) 4 e f g h a b c d;
          (g, c) = ROUND_00_15_256 (X ! 5) 5 d e f g h a b c;
          (f, b) = ROUND_00_15_256 (X ! 6) 6 c d e f g h a b;
          (e, a) = ROUND_00_15_256 (X ! 7) 7 b c d e f g h a;
          (d, h) = ROUND_00_15_256 (X ! 8) 8 a b c d e f g h;
          (c, g) = ROUND_00_15_256 (X ! 9) 9 h a b c d e f g;
          (b, f) = ROUND_00_15_256 (X ! 10) 10 g h a b c d e f;
          (a, e) = ROUND_00_15_256 (X ! 11) 11 f g h a b c d e;
          (h, d) = ROUND_00_15_256 (X ! 12) 12 e f g h a b c d;
          (g, c) = ROUND_00_15_256 (X ! 13) 13 d e f g h a b c;
          (f, b) = ROUND_00_15_256 (X ! 14) 14 c d e f g h a b;
          (e, a) = ROUND_00_15_256 (X ! 15) 15 b c d e f g h a
      in (a, b, c, d, e, f, g, h))"

text \<open>The body of the loop \<open>for (i = 16; i < 64; i += 8)\<close>, and the loop.\<close>

definition sha256_rounds_8 :: "nat \<Rightarrow> regs256 \<times> u32 list \<Rightarrow> regs256 \<times> u32 list" where
  "sha256_rounds_8 i s =
     (let ((a, b, c, d, e, f, g, h), X) = s;
          (d, h, X) = ROUND_16_63 (i + 0) a b c d e f g h X;
          (c, g, X) = ROUND_16_63 (i + 1) h a b c d e f g X;
          (b, f, X) = ROUND_16_63 (i + 2) g h a b c d e f X;
          (a, e, X) = ROUND_16_63 (i + 3) f g h a b c d e X;
          (h, d, X) = ROUND_16_63 (i + 4) e f g h a b c d X;
          (g, c, X) = ROUND_16_63 (i + 5) d e f g h a b c X;
          (f, b, X) = ROUND_16_63 (i + 6) c d e f g h a b X;
          (e, a, X) = ROUND_16_63 (i + 7) b c d e f g h a X
      in ((a, b, c, d, e, f, g, h), X))"

function sha256_rounds_16_63 :: "nat \<Rightarrow> regs256 \<times> u32 list \<Rightarrow> regs256 \<times> u32 list" where
  "sha256_rounds_16_63 i s =
     (if i < 64 then sha256_rounds_16_63 (i + 8) (sha256_rounds_8 i s) else s)"
  by pat_completeness auto
termination
  by (relation "measure (\<lambda>(i, s). 64 - i)") auto

definition sha256_block :: "u32 list \<Rightarrow> bytes \<Rightarrow> u32 list" where
  "sha256_block state data =
     (let X = map (\<lambda>j. CRYPTO_load_u32_be (drop (4 * j) data)) [0..<16];
          r = (state ! 0, state ! 1, state ! 2, state ! 3, state ! 4, state ! 5, state ! 6, state ! 7);
          r = sha256_rounds_00_15 X r;
          ((a, b, c, d, e, f, g, h), X) = sha256_rounds_16_63 16 (r, X)
      in [state ! 0 + a, state ! 1 + b, state ! 2 + c, state ! 3 + d,
          state ! 4 + e, state ! 5 + f, state ! 6 + g, state ! 7 + h])"

text \<open>The loop \<open>while (num--)\<close>.\<close>

primrec sha256_block_data_order :: "nat \<Rightarrow> u32 list \<Rightarrow> bytes \<Rightarrow> u32 list" where
  "sha256_block_data_order 0 state data = state"
| "sha256_block_data_order (Suc num) state data =
     sha256_block_data_order num (sha256_block state data) (drop 64 data)"

definition sha256_blocks :: md32_block_func where
  "sha256_blocks state data num = sha256_block_data_order num state data"

definition SHA256_Transform :: "'a md32_ctx_scheme \<Rightarrow> bytes \<Rightarrow> 'a md32_ctx_scheme" where
  "SHA256_Transform c data = c\<lparr>md_h := sha256_blocks (md_h c) data 1\<rparr>"

definition SHA256_Update :: "SHA256_CTX \<Rightarrow> bytes \<Rightarrow> SHA256_CTX" where
  "SHA256_Update c data = crypto_md32_update sha256_blocks SHA256_CBLOCK c data"

definition SHA224_Update :: "SHA256_CTX \<Rightarrow> bytes \<Rightarrow> SHA256_CTX" where
  "SHA224_Update ctx data = SHA256_Update ctx data"

text \<open>The digest that is written to \<open>out\<close>, and the context that is left.\<close>

definition sha256_final_impl :: "nat \<Rightarrow> SHA256_CTX \<Rightarrow> bytes option \<times> SHA256_CTX" where
  "sha256_final_impl len c =
     (let c = crypto_md32_final sha256_blocks SHA256_CBLOCK True c in
      if len > SHA256_DIGEST_LENGTH then (None, c)
      else (Some (concat (map (\<lambda>i. CRYPTO_store_u32_be (md_h c ! i)) [0..<len div 4])), c))"

definition SHA256_Final :: "SHA256_CTX \<Rightarrow> bytes option \<times> SHA256_CTX" where
  "SHA256_Final c = sha256_final_impl (md_len c) c"

definition SHA224_Final :: "SHA256_CTX \<Rightarrow> bytes option \<times> SHA256_CTX" where
  "SHA224_Final c = sha256_final_impl SHA224_DIGEST_LENGTH c"

definition SHA224 :: "bytes \<Rightarrow> bytes option" where
  "SHA224 data = fst (SHA224_Final (SHA224_Update SHA224_Init data))"

definition SHA256 :: "bytes \<Rightarrow> bytes option" where
  "SHA256 data = fst (SHA256_Final (SHA256_Update SHA256_Init data))"

section \<open>The rounds of SHA-2 against FIPS 180-4\<close>

text \<open>
  The reference: the message schedule is a list that grows from the sixteen words of the block, and a
  round shifts the working variables by one place.
\<close>

type_synonym 'a regs8 = "'a word \<times> 'a word \<times> 'a word \<times> 'a word \<times> 'a word \<times> 'a word \<times> 'a word \<times> 'a word"

definition fips_schedule ::
  "('a::len word \<Rightarrow> 'a word) \<Rightarrow> ('a word \<Rightarrow> 'a word) \<Rightarrow> 'a word list \<Rightarrow> nat \<Rightarrow> 'a word list" where
  "fips_schedule s0 s1 = grow (\<lambda>W. let t = length W in
     s1 (W ! (t - 2)) + W ! (t - 7) + s0 (W ! (t - 15)) + W ! (t - 16))"

definition fips_round ::
  "('a::len word \<Rightarrow> 'a word) \<Rightarrow> ('a word \<Rightarrow> 'a word) \<Rightarrow> 'a word list \<Rightarrow> 'a word list
    \<Rightarrow> 'a regs8 \<Rightarrow> nat \<Rightarrow> 'a regs8" where
  "fips_round S0 S1 K W r t =
     (let (a, b, c, d, e, f, g, h) = r;
          T1 = h + S1 e + Ch e f g + K ! t + W ! t;
          T2 = S0 a + Maj a b c
      in (T1 + T2, a, b, c, d + T1, e, f, g))"

lemma regs8: "\<exists>a b c d e f g h. r = (a, b, c, d, e, f, g, h)"
  by (metis surj_pair)

definition fips_recurrence ::
  "('a::len word \<Rightarrow> 'a word) \<Rightarrow> ('a word \<Rightarrow> 'a word) \<Rightarrow> 'a word list \<Rightarrow> bool" where
  "fips_recurrence s0 s1 W \<longleftrightarrow> (\<forall>t. 16 \<le> t \<longrightarrow> t < length W \<longrightarrow>
     W ! t = s1 (W ! (t - 2)) + W ! (t - 7) + s0 (W ! (t - 15)) + W ! (t - 16))"

lemma length_fips_schedule [simp]: "length (fips_schedule s0 s1 M n) = length M + n"
  by (simp add: fips_schedule_def)

lemma fips_schedule_words: "t < length M \<Longrightarrow> fips_schedule s0 s1 M n ! t = M ! t"
  by (simp add: fips_schedule_def grow_words)

lemma fips_schedule_ring: "length M = 16 \<Longrightarrow> ring (fips_schedule s0 s1 M n) 16 M"
  by (rule ring_start) (simp_all add: fips_schedule_words)

lemma fips_schedule_recurrence:
  assumes "length M = 16"
  shows "fips_recurrence s0 s1 (fips_schedule s0 s1 M n)"
  using assms by (auto simp: fips_recurrence_def fips_schedule_def grow_nth Let_def)

text \<open>
  What the round macros of both word sizes do. The rules \<open>chain_00_15\<close> and \<open>chain_16\<close> walk an unrolled
  sequence of rounds and the fold of the reference in parallel.
\<close>

locale sha2_rounds =
  fixes S0 S1 s0 s1 :: "'a::len word \<Rightarrow> 'a word"
    and K :: "'a word list"
    and R :: "'a word \<Rightarrow> nat \<Rightarrow> 'a word \<Rightarrow> 'a word \<Rightarrow> 'a word \<Rightarrow> 'a word \<Rightarrow> 'a word \<Rightarrow> 'a word \<Rightarrow> 'a word \<Rightarrow> 'a word
      \<Rightarrow> 'a word \<times> 'a word"
    and ix :: "nat \<Rightarrow> nat \<Rightarrow> nat"
    and R16 :: "nat \<Rightarrow> nat \<Rightarrow> 'a word \<Rightarrow> 'a word \<Rightarrow> 'a word \<Rightarrow> 'a word \<Rightarrow> 'a word \<Rightarrow> 'a word \<Rightarrow> 'a word \<Rightarrow> 'a word
      \<Rightarrow> 'a word list \<Rightarrow> 'a word \<times> 'a word \<times> 'a word list"
  assumes R: "R x t a b c d e f g h =
      (d + (x + (h + S1 e + Ch e f g + K ! t)), S0 a + Maj a b c + (x + (h + S1 e + Ch e f g + K ! t)))"
    and R16: "t = ix i j \<Longrightarrow> j mod 16 = t mod 16 \<Longrightarrow> R16 i j a b c d e f g h X =
      (let x = X ! (j mod 16) + (s0 (X ! ((j + 1) mod 16)) + s1 (X ! ((j + 14) mod 16)) + X ! ((j + 9) mod 16));
           (d, h) = R x t a b c d e f g h
       in (d, h, X[j mod 16 := x]))"
begin

lemma R_round:
  "R (W ! t) t a b c d e f g h = (d', h') \<Longrightarrow>
     fips_round S0 S1 K W (a, b, c, d, e, f, g, h) t = (h', a, b, c, d', e, f, g)"
  by (auto simp: R fips_round_def Let_def algebra_simps)

lemma R16_round:
  assumes ring: "ring W t X" and t: "16 \<le> t" "t < length W" and ix: "t = ix i j" and j: "j mod 16 = t mod 16"
    and W: "fips_recurrence s0 s1 W" and r: "R16 i j a b c d e f g h X = (d', h', X')"
  shows "fips_round S0 S1 K W (a, b, c, d, e, f, g, h) t = (h', a, b, c, d', e, f, g)"
    and "ring W (t + 1) X'"
proof -
  have j': "(j + i) mod 16 = (t + i) mod 16" for i using j by (metis mod_add_left_eq)
  note word = ring_nth [OF ring t(1)]
  have "X ! (j mod 16) = W ! (t - 16)" using word [of 16 0] j by simp
  moreover have "X ! ((j + 1) mod 16) = W ! (t - 15)" unfolding j' by (rule word) simp_all
  moreover have "X ! ((j + 14) mod 16) = W ! (t - 2)" unfolding j' by (rule word) simp_all
  moreover have "X ! ((j + 9) mod 16) = W ! (t - 7)" unfolding j' by (rule word) simp_all
  moreover have "W ! t = s1 (W ! (t - 2)) + W ! (t - 7) + s0 (W ! (t - 15)) + W ! (t - 16)"
    using W t by (simp add: fips_recurrence_def)
  ultimately have x: "X ! (j mod 16)
      + (s0 (X ! ((j + 1) mod 16)) + s1 (X ! ((j + 14) mod 16)) + X ! ((j + 9) mod 16)) = W ! t"
    by (simp only: ac_simps)
  note R16 = R16 [OF ix j]
  from r show "fips_round S0 S1 K W (a, b, c, d, e, f, g, h) t = (h', a, b, c, d', e, f, g)"
    by (intro R_round) (auto simp: R16 Let_def x simp del: One_nat_def split: prod.splits)
  from r have "X' = X[t mod 16 := W ! t]"
    by (auto simp: R16 Let_def x simp del: One_nat_def split: prod.splits) (simp add: j)
  then show "ring W (t + 1) X'" using ring_step [OF ring] by simp
qed

lemma chain_00_15:
  assumes "\<And>d' h'. Q (k d' h') (foldl (fips_round S0 S1 K W) (h', a, b, c, d', e, f, g) [s + 1..<n])"
    and "s = t" "x = W ! t" "s < n"
  shows "Q (case R x t a b c d e f g h of (d', h') \<Rightarrow> k d' h')
    (foldl (fips_round S0 S1 K W) (a, b, c, d, e, f, g, h) [s..<n])"
proof -
  obtain d' h' where r: "R x t a b c d e f g h = (d', h')" by (cases "R x t a b c d e f g h")
  then show ?thesis
    using assms(1) [of d' h'] R_round [of W t a b c d e f g h d' h'] assms(2-)
    by (simp add: upt_conv_Cons)
qed

lemma chain_16:
  assumes "\<And>d' h' X'. ring W (s + 1) X' \<Longrightarrow>
      Q (k d' h' X') (foldl (fips_round S0 S1 K W) (h', a, b, c, d', e, f, g) [s + 1..<n])"
    and "ring W s X" "fips_recurrence s0 s1 W"
    and "s = ix i j" "16 \<le> s" "s < n" "n \<le> length W" "j mod 16 = s mod 16"
  shows "Q (case R16 i j a b c d e f g h X of (d', h', X') \<Rightarrow> k d' h' X')
    (foldl (fips_round S0 S1 K W) (a, b, c, d, e, f, g, h) [s..<n])"
proof -
  obtain d' h' X' where r: "R16 i j a b c d e f g h X = (d', h', X')"
    by (cases "R16 i j a b c d e f g h X")
  then show ?thesis
    using assms(1) [of X' d' h'] R16_round [OF assms(2) _ _ _ _ assms(3), of i j a b c d e f g h d' h' X']
      assms(4-)
    by (simp add: upt_conv_Cons)
qed

end

section \<open>The block function of SHA-256\<close>

definition fips_Sigma0_256 :: "u32 \<Rightarrow> u32" where
  "fips_Sigma0_256 x = word_rotr 2 x XOR word_rotr 13 x XOR word_rotr 22 x"

definition fips_Sigma1_256 :: "u32 \<Rightarrow> u32" where
  "fips_Sigma1_256 x = word_rotr 6 x XOR word_rotr 11 x XOR word_rotr 25 x"

definition fips_sigma0_256 :: "u32 \<Rightarrow> u32" where
  "fips_sigma0_256 x = word_rotr 7 x XOR word_rotr 18 x XOR drop_bit 3 x"

definition fips_sigma1_256 :: "u32 \<Rightarrow> u32" where
  "fips_sigma1_256 x = word_rotr 17 x XOR word_rotr 19 x XOR drop_bit 10 x"

lemma sigmas_256:
  "Sigma0_256 = fips_Sigma0_256" "Sigma1_256 = fips_Sigma1_256"
  "sigma0_256 = fips_sigma0_256" "sigma1_256 = fips_sigma1_256"
  by (simp_all add: fun_eq_iff Sigma0_256_def Sigma1_256_def sigma0_256_def sigma1_256_def
      fips_Sigma0_256_def fips_Sigma1_256_def fips_sigma0_256_def fips_sigma1_256_def rotr_u32)

interpretation sha256: sha2_rounds fips_Sigma0_256 fips_Sigma1_256 fips_sigma0_256 fips_sigma1_256
  K256 ROUND_00_15_256 "\<lambda>i j. i" "\<lambda>i j. ROUND_16_63 i"
proof unfold_locales
  fix t i j :: nat and a b c d e f g h x :: u32 and X :: "u32 list"
  show "ROUND_00_15_256 x t a b c d e f g h =
      (d + (x + (h + fips_Sigma1_256 e + Ch e f g + K256 ! t)),
       fips_Sigma0_256 a + Maj a b c + (x + (h + fips_Sigma1_256 e + Ch e f g + K256 ! t)))"
    by (simp add: ROUND_00_15_256_def Let_def sigmas_256)
  assume "t = i" and "j mod 16 = t mod 16"
  then have j: "(j + i) mod 16 = (t + i) mod 16" for i by (metis mod_add_left_eq)
  show "ROUND_16_63 i a b c d e f g h X =
      (let x = X ! (j mod 16) + (fips_sigma0_256 (X ! ((j + 1) mod 16))
          + fips_sigma1_256 (X ! ((j + 14) mod 16)) + X ! ((j + 9) mod 16));
           (d, h) = ROUND_00_15_256 x t a b c d e f g h
       in (d, h, X[j mod 16 := x]))"
    unfolding \<open>t = i\<close> [symmetric] ROUND_16_63_def and_0x0f sigmas_256 Let_def j \<open>j mod 16 = t mod 16\<close> by (rule refl)
qed

definition fips_sha256_block :: "u32 list \<Rightarrow> bytes \<Rightarrow> u32 list" where
  "fips_sha256_block H d =
     (let M = map (\<lambda>j. load_be (take 4 (drop (4 * j) d))) [0..<16];
          W = fips_schedule fips_sigma0_256 fips_sigma1_256 M 48;
          r = (H ! 0, H ! 1, H ! 2, H ! 3, H ! 4, H ! 5, H ! 6, H ! 7);
          (a, b, c, d, e, f, g, h) = foldl (fips_round fips_Sigma0_256 fips_Sigma1_256 K256 W) r [0..<64]
      in [H ! 0 + a, H ! 1 + b, H ! 2 + c, H ! 3 + d, H ! 4 + e, H ! 5 + f, H ! 6 + g, H ! 7 + h])"

lemma sha256_first_rounds:
  assumes "length X = 16" "\<And>t. t < 16 \<Longrightarrow> W ! t = X ! t"
  shows "sha256_rounds_00_15 X r
    = foldl (fips_round fips_Sigma0_256 fips_Sigma1_256 K256 W) r [0..<16]"
proof -
  obtain a b c d e f g h where r: "r = (a, b, c, d, e, f, g, h)" using regs8 [of r] by blast
  note chain = sha256.chain_00_15 [where Q = "(=)" and W = W]
  show ?thesis
    unfolding sha256_rounds_00_15_def r Let_def prod.case
    by (rule chain; (simp add: assms)?)+
qed

lemma sha256_eight_rounds:
  assumes ring: "ring W i X" and W: "fips_recurrence fips_sigma0_256 fips_sigma1_256 W"
    and i: "16 \<le> i" "i + 8 \<le> length W"
  shows "\<exists>X'. sha256_rounds_8 i (r, X)
      = (foldl (fips_round fips_Sigma0_256 fips_Sigma1_256 K256 W) r [i..<i + 8], X')
    \<and> ring W (i + 8) X'"
proof -
  obtain a b c d e f g h where r: "r = (a, b, c, d, e, f, g, h)" using regs8 [of r] by blast
  note chain = sha256.chain_16 [OF _ _ W, where n = "i + 8"
      and Q = "\<lambda>z s. \<exists>X'. z = (s, X') \<and> ring W (i + 8) X'"]
  show ?thesis
    unfolding sha256_rounds_8_def r Let_def prod.case
    by (rule chain; (insert i, simp add: ring add.assoc del: One_nat_def add_2_eq_Suc')?)+
qed

declare sha256_rounds_16_63.simps [simp del]

lemma sha256_loop_rounds:
  assumes "ring W i X" "fips_recurrence fips_sigma0_256 fips_sigma1_256 W" "length W = 64"
    and "16 \<le> i" "i \<le> 64" "8 dvd i"
  shows "fst (sha256_rounds_16_63 i (r, X))
      = foldl (fips_round fips_Sigma0_256 fips_Sigma1_256 K256 W) r [i..<64]"
  using assms
proof (induction "64 - i" arbitrary: i r X rule: less_induct)
  case less
  show ?case
  proof (cases "i < 64")
    case True
    then have i: "i + 8 \<le> 64" using less.prems(6) by (auto elim!: dvdE)
    obtain X' where X': "sha256_rounds_8 i (r, X)
        = (foldl (fips_round fips_Sigma0_256 fips_Sigma1_256 K256 W) r [i..<i + 8], X')" "ring W (i + 8) X'"
      using sha256_eight_rounds [OF less.prems(1,2,4), of r] i less.prems(3) by auto
    have "fst (sha256_rounds_16_63 (i + 8) (sha256_rounds_8 i (r, X)))
        = foldl (fips_round fips_Sigma0_256 fips_Sigma1_256 K256 W) r ([i..<i + 8] @ [i + 8..<64])"
      unfolding X'(1) foldl_append
      using X'(2) less.prems i True by (intro less.hyps) auto
    then show ?thesis
      using True i by (subst sha256_rounds_16_63.simps) (simp add: upt_append)
  next
    case False
    then show ?thesis by (subst sha256_rounds_16_63.simps) simp
  qed
qed

lemma sha256_block_fips:
  assumes "64 \<le> length d"
  shows "sha256_block H d = fips_sha256_block H d"
proof -
  define M where "M = map (\<lambda>j. CRYPTO_load_u32_be (drop (4 * j) d)) [0..<16]"
  define W where "W = fips_schedule fips_sigma0_256 fips_sigma1_256 M 48"
  have M: "M = map (\<lambda>j. load_be (take 4 (drop (4 * j) d))) [0..<16]"
    using assms by (simp add: M_def load_u32_be)
  have len: "length M = 16" by (simp add: M_def)
  have W: "ring W 16 M" "fips_recurrence fips_sigma0_256 fips_sigma1_256 W" "length W = 64"
    unfolding W_def using len by (auto intro: fips_schedule_ring fips_schedule_recurrence)
  have "W ! t = M ! t" if "t < 16" for t using that len by (simp add: W_def fips_schedule_words)
  moreover have cond: "(16 :: nat) \<le> 16" "(16 :: nat) \<le> 64" "(8 :: nat) dvd 16" "(0 :: nat) \<le> 16" by simp_all
  ultimately have rounds: "fst (sha256_rounds_16_63 16 (sha256_rounds_00_15 M r, M))
      = foldl (fips_round fips_Sigma0_256 fips_Sigma1_256 K256 W) r [0..<64]" for r
    using sha256_loop_rounds [OF W, of "sha256_rounds_00_15 M r"] sha256_first_rounds [OF len, of W r]
    by (simp only: foldl_append [symmetric] upt_append [of 0 16 64] cond)
  show ?thesis
    unfolding sha256_block_def fips_sha256_block_def Let_def
    by (simp only: split_beta rounds W_def [symmetric] M [symmetric] M_def [symmetric])
qed

section \<open>SHA-224 and SHA-256 as a whole\<close>

lemma sha256_blocks_one: "sha256_blocks h d 1 = sha256_block h d"
  by (simp add: sha256_blocks_def)

interpretation sha256md: md32_hash sha256_blocks SHA256_CBLOCK
proof unfold_locales
  show "(8 :: nat) < 64" "(64 :: nat) < 2 ^ 32" by simp_all
  show "sha256_blocks h d (Suc (Suc n)) = sha256_blocks (sha256_blocks h d 1) (drop 64 d) (Suc n)"
    for h d n by (simp add: sha256_blocks_def)
  fix d e :: bytes and h assume d: "length d = 64"
  have "map (\<lambda>j. load_be (take 4 (drop (4 * j) (d @ e))) :: u32) [0..<16]
      = map (\<lambda>j. load_be (take 4 (drop (4 * j) d))) [0..<16]"
    using d by (intro map_cong refl) (auto simp: take_drop_append)
  then have "fips_sha256_block h (d @ e) = fips_sha256_block h d"
    by (simp only: fips_sha256_block_def)
  then show "sha256_blocks h (d @ e) 1 = sha256_blocks h d 1"
    using d unfolding sha256_blocks_one by (simp add: sha256_block_fips)
qed

text \<open>The reference: hash the padded message block by block, output the first \<open>len\<close> bytes.\<close>

definition fips_sha256 :: "u32 list \<Rightarrow> nat \<Rightarrow> bytes \<Rightarrow> bytes" where
  "fips_sha256 iv len m =
     (let H = md_hash fips_sha256_block 64 8 (be_bytes 8) iv m
      in concat (map (\<lambda>i. be_bytes 4 (unat (H ! i))) [0..<len div 4]))"

lemma sha256_hash:
  "md_hash (md_step sha256_blocks) 64 8 (md32_length True) iv m
    = md_hash fips_sha256_block 64 8 (be_bytes 8) iv m"
proof -
  have "md_padded 64 8 (md32_length True) m = md_padded 64 8 (be_bytes 8) m"
    by (simp add: md_padded_def md32_length_def)
  moreover have "absorb (md_step sha256_blocks) 64 iv p = absorb fips_sha256_block 64 iv p" for p
    by (rule absorb_cong) (simp_all add: md_step_def sha256_blocks_one [simplified] sha256_block_fips)
  ultimately show ?thesis by (simp add: md_hash_def)
qed

lemma sha256_init_tracks:
  "md32_tracks sha256_blocks 64 (md_h SHA256_Init) [] SHA256_Init"
  "md32_tracks sha256_blocks 64 (md_h SHA224_Init) [] SHA224_Init"
  by (auto simp: md32_tracks_def bit_count_def SHA256_Init_def SHA224_Init_def intro: tracks_empty)

lemma md_len_kept:
  "md_len (SHA256_Update c x) = md_len c"
  "md_len (foldl SHA256_Update c xs) = md_len c"
proof -
  show one: "md_len (SHA256_Update c x) = md_len c" for c x
    by (simp add: SHA256_Update_def crypto_md32_update_def md32_update_blocks_def Let_def)
  show "md_len (foldl SHA256_Update c xs) = md_len c"
    by (induction xs arbitrary: c) (simp_all add: one)
qed

lemma sha256_final_tracks:
  assumes "md32_tracks sha256_blocks 64 iv m c" "len \<le> 32"
  shows "fst (sha256_final_impl len c) = Some (fips_sha256 iv len m)"
  using assms(2) sha256md.final_hash [OF assms(1), of True]
  by (simp add: sha256_final_impl_def Let_def fips_sha256_def sha256_hash store_u32_be)

lemma sha256_stream_tracks:
  assumes "\<forall>x \<in> set xs. length x < size_mod" "md32_tracks sha256_blocks 64 iv [] c"
  shows "md32_tracks sha256_blocks 64 iv (concat xs) (foldl SHA256_Update c xs)"
proof -
  have "SHA256_Update = crypto_md32_update sha256_blocks 64"
    by (simp add: fun_eq_iff SHA256_Update_def)
  then show ?thesis using sha256md.stream_tracks [OF assms(2,1)] by simp
qed

text \<open>C29 However a message is cut into calls of \<open>SHA256_Update\<close> or \<open>SHA224_Update\<close>, the digest is the
  one of FIPS 180-4 for the whole message: the portable block function with its ring of sixteen
  words and renamed variables, the partial block that the context carries from call to call, the
  64-bit counter in two halves and the padding compute what the standard defines.\<close>
theorem sha256_stream:
  assumes "\<forall>x \<in> set xs. length x < size_mod"
  shows "fst (SHA256_Final (foldl SHA256_Update SHA256_Init xs))
      = Some (fips_sha256 (md_h SHA256_Init) 32 (concat xs))
    \<and> fst (SHA224_Final (foldl SHA224_Update SHA224_Init xs))
      = Some (fips_sha256 (md_h SHA224_Init) 28 (concat xs))"
proof
  have "SHA224_Update = SHA256_Update" by (simp add: fun_eq_iff SHA224_Update_def)
  then show "fst (SHA224_Final (foldl SHA224_Update SHA224_Init xs))
      = Some (fips_sha256 (md_h SHA224_Init) 28 (concat xs))"
    using sha256_final_tracks [OF sha256_stream_tracks [OF assms sha256_init_tracks(2)], of 28]
    by (simp add: SHA224_Final_def)
  have "md_len SHA256_Init = 32" by (simp add: SHA256_Init_def)
  then show "fst (SHA256_Final (foldl SHA256_Update SHA256_Init xs))
      = Some (fips_sha256 (md_h SHA256_Init) 32 (concat xs))"
    using sha256_final_tracks [OF sha256_stream_tracks [OF assms sha256_init_tracks(1)], of 32]
    by (simp add: SHA256_Final_def md_len_kept)
qed

section \<open>SHA-384, SHA-512 and SHA-512/256\<close>

abbreviation (input) SHA512_CBLOCK :: nat where "SHA512_CBLOCK \<equiv> 128"
abbreviation (input) SHA384_DIGEST_LENGTH :: nat where "SHA384_DIGEST_LENGTH \<equiv> 48"
abbreviation (input) SHA512_DIGEST_LENGTH :: nat where "SHA512_DIGEST_LENGTH \<equiv> 64"
abbreviation (input) SHA512_256_DIGEST_LENGTH :: nat where "SHA512_256_DIGEST_LENGTH \<equiv> 32"

text \<open>
  Unlike the 32-bit contexts, a fresh \<open>SHA512_CTX\<close> keeps whatever its buffer \<open>p\<close> holds: it is an
  argument of the initialisers.
\<close>

record SHA512_CTX =
  s5_h :: "u64 list"
  s5_Nl :: u64
  s5_Nh :: u64
  s5_p :: bytes
  s5_num :: nat
  s5_md_len :: nat

definition SHA384_Init :: "bytes \<Rightarrow> SHA512_CTX" where
  "SHA384_Init p = \<lparr>s5_h = [0xcbbb9d5dc1059ed8, 0x629a292a367cd507, 0x9159015a3070dd17, 0x152fecd8f70e5939,
     0x67332667ffc00b31, 0x8eb44a8768581511, 0xdb0c2e0d64f98fa7, 0x47b5481dbefa4fa4],
     s5_Nl = 0, s5_Nh = 0, s5_p = p, s5_num = 0, s5_md_len = SHA384_DIGEST_LENGTH\<rparr>"

definition SHA512_Init :: "bytes \<Rightarrow> SHA512_CTX" where
  "SHA512_Init p = \<lparr>s5_h = [0x6a09e667f3bcc908, 0xbb67ae8584caa73b, 0x3c6ef372fe94f82b, 0xa54ff53a5f1d36f1,
     0x510e527fade682d1, 0x9b05688c2b3e6c1f, 0x1f83d9abfb41bd6b, 0x5be0cd19137e2179],
     s5_Nl = 0, s5_Nh = 0, s5_p = p, s5_num = 0, s5_md_len = SHA512_DIGEST_LENGTH\<rparr>"

definition SHA512_256_Init :: "bytes \<Rightarrow> SHA512_CTX" where
  "SHA512_256_Init p = \<lparr>s5_h = [0x22312194fc2bf72c, 0x9f555fa3c84c64c2, 0x2393b86b6f53b151, 0x963877195940eabd,
     0x96283ee2a88effe3, 0xbe5e1e2553863992, 0x2b0199fc2c85b8aa, 0x0eb72ddc81c52ca2],
     s5_Nl = 0, s5_Nh = 0, s5_p = p, s5_num = 0, s5_md_len = SHA512_256_DIGEST_LENGTH\<rparr>"

definition K512 :: "u64 list" where
  "K512 = [0x428a2f98d728ae22, 0x7137449123ef65cd, 0xb5c0fbcfec4d3b2f, 0xe9b5dba58189dbbc]
   @ [0x3956c25bf348b538, 0x59f111f1b605d019, 0x923f82a4af194f9b, 0xab1c5ed5da6d8118]
   @ [0xd807aa98a3030242, 0x12835b0145706fbe, 0x243185be4ee4b28c, 0x550c7dc3d5ffb4e2]
   @ [0x72be5d74f27b896f, 0x80deb1fe3b1696b1, 0x9bdc06a725c71235, 0xc19bf174cf692694]
   @ [0xe49b69c19ef14ad2, 0xefbe4786384f25e3, 0x0fc19dc68b8cd5b5, 0x240ca1cc77ac9c65]
   @ [0x2de92c6f592b0275, 0x4a7484aa6ea6e483, 0x5cb0a9dcbd41fbd4, 0x76f988da831153b5]
   @ [0x983e5152ee66dfab, 0xa831c66d2db43210, 0xb00327c898fb213f, 0xbf597fc7beef0ee4]
   @ [0xc6e00bf33da88fc2, 0xd5a79147930aa725, 0x06ca6351e003826f, 0x142929670a0e6e70]
   @ [0x27b70a8546d22ffc, 0x2e1b21385c26c926, 0x4d2c6dfc5ac42aed, 0x53380d139d95b3df]
   @ [0x650a73548baf63de, 0x766a0abb3c77b2a8, 0x81c2c92e47edaee6, 0x92722c851482353b]
   @ [0xa2bfe8a14cf10364, 0xa81a664bbc423001, 0xc24b8b70d0f89791, 0xc76c51a30654be30]
   @ [0xd192e819d6ef5218, 0xd69906245565a910, 0xf40e35855771202a, 0x106aa07032bbd1b8]
   @ [0x19a4c116b8d2d0c8, 0x1e376c085141ab53, 0x2748774cdf8eeb99, 0x34b0bcb5e19b48a8]
   @ [0x391c0cb3c5c95a63, 0x4ed8aa4ae3418acb, 0x5b9cca4f7763e373, 0x682e6ff3d6b2b8a3]
   @ [0x748f82ee5defb2fc, 0x78a5636f43172f60, 0x84c87814a1f0ab72, 0x8cc702081a6439ec]
   @ [0x90befffa23631e28, 0xa4506cebde82bde9, 0xbef9a3f7b2c67915, 0xc67178f2e372532b]
   @ [0xca273eceea26619c, 0xd186b8c721c0c207, 0xeada7dd6cde0eb1e, 0xf57d4f7fee6ed178]
   @ [0x06f067aa72176fba, 0x0a637dc5a2c898a6, 0x113f9804bef90dae, 0x1b710b35131c471b]
   @ [0x28db77f523047d84, 0x32caab7b40c72493, 0x3c9ebe0a15c9bebc, 0x431d67c49c100d4c]
   @ [0x4cc5d4becb3e42b6, 0x597f299cfc657e2a, 0x5fcb6fab3ad6faec, 0x6c44198c4a475817]"

definition Sigma0_512 :: "u64 \<Rightarrow> u64" where
  "Sigma0_512 x = CRYPTO_rotr_u64 x 28 XOR CRYPTO_rotr_u64 x 34 XOR CRYPTO_rotr_u64 x 39"

definition Sigma1_512 :: "u64 \<Rightarrow> u64" where
  "Sigma1_512 x = CRYPTO_rotr_u64 x 14 XOR CRYPTO_rotr_u64 x 18 XOR CRYPTO_rotr_u64 x 41"

definition sigma0_512 :: "u64 \<Rightarrow> u64" where
  "sigma0_512 x = CRYPTO_rotr_u64 x 1 XOR CRYPTO_rotr_u64 x 8 XOR drop_bit 7 x"

definition sigma1_512 :: "u64 \<Rightarrow> u64" where
  "sigma1_512 x = CRYPTO_rotr_u64 x 19 XOR CRYPTO_rotr_u64 x 61 XOR drop_bit 6 x"

definition ROUND_00_15_512 ::
  "u64 \<Rightarrow> nat \<Rightarrow> u64 \<Rightarrow> u64 \<Rightarrow> u64 \<Rightarrow> u64 \<Rightarrow> u64 \<Rightarrow> u64 \<Rightarrow> u64 \<Rightarrow> u64 \<Rightarrow> u64 \<times> u64" where
  "ROUND_00_15_512 T1 i a b c d e f g h =
     (let T1 = T1 + (h + Sigma1_512 e + Ch e f g + K512 ! i);
          h = Sigma0_512 a + Maj a b c;
          d = d + T1;
          h = h + T1
      in (d, h))"

definition ROUND_16_80 ::
  "nat \<Rightarrow> nat \<Rightarrow> u64 \<Rightarrow> u64 \<Rightarrow> u64 \<Rightarrow> u64 \<Rightarrow> u64 \<Rightarrow> u64 \<Rightarrow> u64 \<Rightarrow> u64 \<Rightarrow> u64 list \<Rightarrow> u64 \<times> u64 \<times> u64 list" where
  "ROUND_16_80 i j a b c d e f g h X =
     (let s0 = X ! ((j + 1) AND 0x0f);
          s0 = sigma0_512 s0;
          s1 = X ! ((j + 14) AND 0x0f);
          s1 = sigma1_512 s1;
          x = X ! (j AND 0x0f) + (s0 + s1 + X ! ((j + 9) AND 0x0f));
          X = X[j AND 0x0f := x];
          (d, h) = ROUND_00_15_512 x (i + j) a b c d e f g h
      in (d, h, X))"

type_synonym regs512 = "u64 \<times> u64 \<times> u64 \<times> u64 \<times> u64 \<times> u64 \<times> u64 \<times> u64"

definition sha512_rounds_00_15 :: "u64 list \<Rightarrow> regs512 \<Rightarrow> regs512" where
  "sha512_rounds_00_15 X r =
     (let (a, b, c, d, e, f, g, h) = r;
          (d, h) = ROUND_00_15_512 (X ! 0) 0 a b c d e f g h;
          (c, g) = ROUND_00_15_512 (X ! 1) 1 h a b c d e f g;
          (b, f) = ROUND_00_15_512 (X ! 2) 2 g h a b c d e f;
          (a, e) = ROUND_00_15_512 (X ! 3) 3 f g h a b c d e;
          (h, d) = ROUND_00_15_512 (X ! 4) 4 e f g h a b c d;
          (g, c) = ROUND_00_15_512 (X ! 5) 5 d e f g h a b c;
          (f, b) = ROUND_00_15_512 (X ! 6) 6 c d e f g h a b;
          (e, a) = ROUND_00_15_512 (X ! 7) 7 b c d e f g h a;
          (d, h) = ROUND_00_15_512 (X ! 8) 8 a b c d e f g h;
          (c, g) = ROUND_00_15_512 (X ! 9) 9 h a b c d e f g;
          (b, f) = ROUND_00_15_512 (X ! 10) 10 g h a b c d e f;
          (a, e) = ROUND_00_15_512 (X ! 11) 11 f g h a b c d e;
          (h, d) = ROUND_00_15_512 (X ! 12) 12 e f g h a b c d;
          (g, c) = ROUND_00_15_512 (X ! 13) 13 d e f g h a b c;
          (f, b) = ROUND_00_15_512 (X ! 14) 14 c d e f g h a b;
          (e, a) = ROUND_00_15_512 (X ! 15) 15 b c d e f g h a
      in (a, b, c, d, e, f, g, h))"

text \<open>The body of the loop \<open>for (i = 16; i < 80; i += 16)\<close>, and the loop.\<close>

definition sha512_rounds_16 :: "nat \<Rightarrow> regs512 \<times> u64 list \<Rightarrow> regs512 \<times> u64 list" where
  "sha512_rounds_16 i s =
     (let ((a, b, c, d, e, f, g, h), X) = s;
          (d, h, X) = ROUND_16_80 i 0 a b c d e f g h X;
          (c, g, X) = ROUND_16_80 i 1 h a b c d e f g X;
          (b, f, X) = ROUND_16_80 i 2 g h a b c d e f X;
          (a, e, X) = ROUND_16_80 i 3 f g h a b c d e X;
          (h, d, X) = ROUND_16_80 i 4 e f g h a b c d X;
          (g, c, X) = ROUND_16_80 i 5 d e f g h a b c X;
          (f, b, X) = ROUND_16_80 i 6 c d e f g h a b X;
          (e, a, X) = ROUND_16_80 i 7 b c d e f g h a X;
          (d, h, X) = ROUND_16_80 i 8 a b c d e f g h X;
          (c, g, X) = ROUND_16_80 i 9 h a b c d e f g X;
          (b, f, X) = ROUND_16_80 i 10 g h a b c d e f X;
          (a, e, X) = ROUND_16_80 i 11 f g h a b c d e X;
          (h, d, X) = ROUND_16_80 i 12 e f g h a b c d X;
          (g, c, X) = ROUND_16_80 i 13 d e f g h a b c X;
          (f, b, X) = ROUND_16_80 i 14 c d e f g h a b X;
          (e, a, X) = ROUND_16_80 i 15 b c d e f g h a X
      in ((a, b, c, d, e, f, g, h), X))"

function sha512_rounds_16_80 :: "nat \<Rightarrow> regs512 \<times> u64 list \<Rightarrow> regs512 \<times> u64 list" where
  "sha512_rounds_16_80 i s =
     (if i < 80 then sha512_rounds_16_80 (i + 16) (sha512_rounds_16 i s) else s)"
  by pat_completeness auto
termination
  by (relation "measure (\<lambda>(i, s). 80 - i)") auto

declare sha512_rounds_16_80.simps [simp del]

definition sha512_block :: "u64 list \<Rightarrow> bytes \<Rightarrow> u64 list" where
  "sha512_block state data =
     (let X = map (\<lambda>j. CRYPTO_load_u64_be (drop (8 * j) data)) [0..<16];
          r = (state ! 0, state ! 1, state ! 2, state ! 3, state ! 4, state ! 5, state ! 6, state ! 7);
          r = sha512_rounds_00_15 X r;
          ((a, b, c, d, e, f, g, h), X) = sha512_rounds_16_80 16 (r, X)
      in [state ! 0 + a, state ! 1 + b, state ! 2 + c, state ! 3 + d,
          state ! 4 + e, state ! 5 + f, state ! 6 + g, state ! 7 + h])"

primrec sha512_block_data_order :: "nat \<Rightarrow> u64 list \<Rightarrow> bytes \<Rightarrow> u64 list" where
  "sha512_block_data_order 0 state data = state"
| "sha512_block_data_order (Suc num) state data =
     sha512_block_data_order num (sha512_block state data) (drop (16 * 8) data)"

definition sha512_blocks :: "u64 list \<Rightarrow> bytes \<Rightarrow> nat \<Rightarrow> u64 list" where
  "sha512_blocks state data num = sha512_block_data_order num state data"

definition SHA512_Transform :: "SHA512_CTX \<Rightarrow> bytes \<Rightarrow> SHA512_CTX" where
  "SHA512_Transform c data = c\<lparr>s5_h := sha512_blocks (s5_h c) data 1\<rparr>"

text \<open>The end of \<open>SHA512_Update\<close>: whole blocks straight from the input, the rest into the buffer.\<close>

definition sha512_update_blocks :: "SHA512_CTX \<Rightarrow> bytes \<Rightarrow> SHA512_CTX" where
  "sha512_update_blocks c data =
     (let len = length data;
          (c, data) =
            (if len \<ge> SHA512_CBLOCK then
               (c\<lparr>s5_h := sha512_blocks (s5_h c) data (len div SHA512_CBLOCK)\<rparr>,
                drop (len - len mod SHA512_CBLOCK) data)
             else (c, data));
          len = length data
      in if len \<noteq> 0 then c\<lparr>s5_p := memcpy_at (s5_p c) 0 data, s5_num := len\<rparr> else c)"

definition SHA512_Update :: "SHA512_CTX \<Rightarrow> bytes \<Rightarrow> SHA512_CTX" where
  "SHA512_Update c data =
     (let len = length data in
      if len = 0 then c else
      let l = s5_Nl c + push_bit 3 (of_nat len);
          c = (if l < s5_Nl c then c\<lparr>s5_Nh := s5_Nh c + 1\<rparr> else c);
          c = c\<lparr>s5_Nh := s5_Nh c + of_nat (drop_bit 61 len), s5_Nl := l\<rparr>
      in if s5_num c \<noteq> 0 then
           (let n = SHA512_CBLOCK - s5_num c in
            if len < n then
              c\<lparr>s5_p := memcpy_at (s5_p c) (s5_num c) data, s5_num := s5_num c + len\<rparr>
            else
              let p = memcpy_at (s5_p c) (s5_num c) (take n data)
              in sha512_update_blocks
                   (c\<lparr>s5_p := p, s5_num := 0, s5_h := sha512_blocks (s5_h c) p 1\<rparr>) (drop n data))
         else sha512_update_blocks c data)"

definition SHA384_Update :: "SHA512_CTX \<Rightarrow> bytes \<Rightarrow> SHA512_CTX" where
  "SHA384_Update c data = SHA512_Update c data"

definition SHA512_256_Update :: "SHA512_CTX \<Rightarrow> bytes \<Rightarrow> SHA512_CTX" where
  "SHA512_256_Update c data = SHA512_Update c data"

text \<open>\<open>out_null\<close> says that the caller passes a null pointer for the digest.\<close>

definition sha512_final_impl :: "bool \<Rightarrow> nat \<Rightarrow> SHA512_CTX \<Rightarrow> bytes option \<times> SHA512_CTX" where
  "sha512_final_impl out_null len c =
     (let n = s5_num c;
          p = (s5_p c)[n := 0x80];
          n = n + 1;
          (h, p, n) =
            (if n > SHA512_CBLOCK - 16 then
               let p = memset_at p n 0 (SHA512_CBLOCK - n) in (sha512_blocks (s5_h c) p 1, p, 0)
             else (s5_h c, p, n));
          p = memset_at p n 0 (SHA512_CBLOCK - 16 - n);
          p = memcpy_at p (SHA512_CBLOCK - 16) (CRYPTO_store_u64_be (s5_Nh c));
          p = memcpy_at p (SHA512_CBLOCK - 8) (CRYPTO_store_u64_be (s5_Nl c));
          c = c\<lparr>s5_p := p, s5_h := sha512_blocks h p 1\<rparr>
      in if out_null then (None, c)
         else (Some (concat (map (\<lambda>i. CRYPTO_store_u64_be (s5_h c ! i)) [0..<len div 8])), c))"

definition SHA512_Final :: "SHA512_CTX \<Rightarrow> bytes option \<times> SHA512_CTX" where
  "SHA512_Final c = sha512_final_impl False (s5_md_len c) c"

definition SHA384_Final :: "SHA512_CTX \<Rightarrow> bytes option \<times> SHA512_CTX" where
  "SHA384_Final c = sha512_final_impl False SHA384_DIGEST_LENGTH c"

definition SHA512_256_Final :: "SHA512_CTX \<Rightarrow> bytes option \<times> SHA512_CTX" where
  "SHA512_256_Final c = sha512_final_impl False SHA512_256_DIGEST_LENGTH c"

text \<open>The one-shot functions; \<open>p\<close> is what the context on their stack happens to hold.\<close>

definition SHA384 :: "bytes \<Rightarrow> bytes \<Rightarrow> bytes option" where
  "SHA384 p data = fst (SHA384_Final (SHA384_Update (SHA384_Init p) data))"

definition SHA512 :: "bytes \<Rightarrow> bytes \<Rightarrow> bytes option" where
  "SHA512 p data = fst (SHA512_Final (SHA512_Update (SHA512_Init p) data))"

definition SHA512_256 :: "bytes \<Rightarrow> bytes \<Rightarrow> bytes option" where
  "SHA512_256 p data = fst (SHA512_256_Final (SHA512_256_Update (SHA512_256_Init p) data))"

section \<open>The block function of SHA-512\<close>

definition fips_Sigma0_512 :: "u64 \<Rightarrow> u64" where
  "fips_Sigma0_512 x = word_rotr 28 x XOR word_rotr 34 x XOR word_rotr 39 x"

definition fips_Sigma1_512 :: "u64 \<Rightarrow> u64" where
  "fips_Sigma1_512 x = word_rotr 14 x XOR word_rotr 18 x XOR word_rotr 41 x"

definition fips_sigma0_512 :: "u64 \<Rightarrow> u64" where
  "fips_sigma0_512 x = word_rotr 1 x XOR word_rotr 8 x XOR drop_bit 7 x"

definition fips_sigma1_512 :: "u64 \<Rightarrow> u64" where
  "fips_sigma1_512 x = word_rotr 19 x XOR word_rotr 61 x XOR drop_bit 6 x"

lemma sigmas_512:
  "Sigma0_512 = fips_Sigma0_512" "Sigma1_512 = fips_Sigma1_512"
  "sigma0_512 = fips_sigma0_512" "sigma1_512 = fips_sigma1_512"
  by (simp_all add: fun_eq_iff Sigma0_512_def Sigma1_512_def sigma0_512_def sigma1_512_def
      fips_Sigma0_512_def fips_Sigma1_512_def fips_sigma0_512_def fips_sigma1_512_def rotr_u64)

interpretation sha512: sha2_rounds fips_Sigma0_512 fips_Sigma1_512 fips_sigma0_512 fips_sigma1_512
  K512 ROUND_00_15_512 "(+)" ROUND_16_80
proof unfold_locales
  fix t i j :: nat and a b c d e f g h x :: u64 and X :: "u64 list"
  show "ROUND_00_15_512 x t a b c d e f g h =
      (d + (x + (h + fips_Sigma1_512 e + Ch e f g + K512 ! t)),
       fips_Sigma0_512 a + Maj a b c + (x + (h + fips_Sigma1_512 e + Ch e f g + K512 ! t)))"
    by (simp add: ROUND_00_15_512_def Let_def sigmas_512)
  assume t: "t = i + j" and j: "j mod 16 = t mod 16"
  show "ROUND_16_80 i j a b c d e f g h X =
      (let x = X ! (j mod 16) + (fips_sigma0_512 (X ! ((j + 1) mod 16))
          + fips_sigma1_512 (X ! ((j + 14) mod 16)) + X ! ((j + 9) mod 16));
           (d, h) = ROUND_00_15_512 x t a b c d e f g h
       in (d, h, X[j mod 16 := x]))"
    unfolding ROUND_16_80_def and_0x0f sigmas_512 Let_def t by (rule refl)
qed

definition fips_sha512_block :: "u64 list \<Rightarrow> bytes \<Rightarrow> u64 list" where
  "fips_sha512_block H d =
     (let M = map (\<lambda>j. load_be (take 8 (drop (8 * j) d))) [0..<16];
          W = fips_schedule fips_sigma0_512 fips_sigma1_512 M 64;
          r = (H ! 0, H ! 1, H ! 2, H ! 3, H ! 4, H ! 5, H ! 6, H ! 7);
          (a, b, c, d, e, f, g, h) = foldl (fips_round fips_Sigma0_512 fips_Sigma1_512 K512 W) r [0..<80]
      in [H ! 0 + a, H ! 1 + b, H ! 2 + c, H ! 3 + d, H ! 4 + e, H ! 5 + f, H ! 6 + g, H ! 7 + h])"

lemma sha512_first_rounds:
  assumes "length X = 16" "\<And>t. t < 16 \<Longrightarrow> W ! t = X ! t"
  shows "sha512_rounds_00_15 X r
    = foldl (fips_round fips_Sigma0_512 fips_Sigma1_512 K512 W) r [0..<16]"
proof -
  obtain a b c d e f g h where r: "r = (a, b, c, d, e, f, g, h)" using regs8 [of r] by blast
  note chain = sha512.chain_00_15 [where Q = "(=)" and W = W]
  show ?thesis
    unfolding sha512_rounds_00_15_def r Let_def prod.case
    by (rule chain; (simp add: assms)?)+
qed

lemma mod_16_add: "16 dvd i \<Longrightarrow> (i + j) mod 16 = j mod (16 :: nat)"
  by (auto elim: dvdE)

lemma sha512_sixteen_rounds:
  assumes ring: "ring W i X" and W: "fips_recurrence fips_sigma0_512 fips_sigma1_512 W"
    and i: "16 \<le> i" "i + 16 \<le> length W" "16 dvd i"
  shows "\<exists>X'. sha512_rounds_16 i (r, X)
      = (foldl (fips_round fips_Sigma0_512 fips_Sigma1_512 K512 W) r [i..<i + 16], X')
    \<and> ring W (i + 16) X'"
proof -
  obtain a b c d e f g h where r: "r = (a, b, c, d, e, f, g, h)" using regs8 [of r] by blast
  note chain = sha512.chain_16 [OF _ _ W, where n = "i + 16"
      and Q = "\<lambda>z s. \<exists>X'. z = (s, X') \<and> ring W (i + 16) X'"]
  show ?thesis
    unfolding sha512_rounds_16_def r Let_def prod.case
    by (rule chain; (insert i, simp add: ring add.assoc mod_16_add del: One_nat_def add_2_eq_Suc')?)+
qed

lemma sha512_loop_rounds:
  assumes "ring W i X" "fips_recurrence fips_sigma0_512 fips_sigma1_512 W" "length W = 80"
    and "16 \<le> i" "i \<le> 80" "16 dvd i"
  shows "fst (sha512_rounds_16_80 i (r, X))
      = foldl (fips_round fips_Sigma0_512 fips_Sigma1_512 K512 W) r [i..<80]"
  using assms
proof (induction "80 - i" arbitrary: i r X rule: less_induct)
  case less
  show ?case
  proof (cases "i < 80")
    case True
    then have i: "i + 16 \<le> 80" using less.prems(6) by (auto elim!: dvdE)
    obtain X' where X': "sha512_rounds_16 i (r, X)
        = (foldl (fips_round fips_Sigma0_512 fips_Sigma1_512 K512 W) r [i..<i + 16], X')" "ring W (i + 16) X'"
      using sha512_sixteen_rounds [OF less.prems(1,2,4), of r] i less.prems(3,6) by auto
    have "fst (sha512_rounds_16_80 (i + 16) (sha512_rounds_16 i (r, X)))
        = foldl (fips_round fips_Sigma0_512 fips_Sigma1_512 K512 W) r ([i..<i + 16] @ [i + 16..<80])"
      unfolding X'(1) foldl_append
      using X'(2) less.prems i True by (intro less.hyps) auto
    then show ?thesis
      using True i by (subst sha512_rounds_16_80.simps) (simp add: upt_append)
  next
    case False
    then show ?thesis by (subst sha512_rounds_16_80.simps) simp
  qed
qed

lemma sha512_block_fips:
  assumes "128 \<le> length d"
  shows "sha512_block H d = fips_sha512_block H d"
proof -
  define M where "M = map (\<lambda>j. CRYPTO_load_u64_be (drop (8 * j) d)) [0..<16]"
  define W where "W = fips_schedule fips_sigma0_512 fips_sigma1_512 M 64"
  have M: "M = map (\<lambda>j. load_be (take 8 (drop (8 * j) d))) [0..<16]"
    using assms by (simp add: M_def load_u64_be)
  have len: "length M = 16" by (simp add: M_def)
  have W: "ring W 16 M" "fips_recurrence fips_sigma0_512 fips_sigma1_512 W" "length W = 80"
    unfolding W_def using len by (auto intro: fips_schedule_ring fips_schedule_recurrence)
  have "W ! t = M ! t" if "t < 16" for t using that len by (simp add: W_def fips_schedule_words)
  moreover have cond: "(16 :: nat) \<le> 16" "(16 :: nat) \<le> 80" "(16 :: nat) dvd 16" "(0 :: nat) \<le> 16" by simp_all
  ultimately have rounds: "fst (sha512_rounds_16_80 16 (sha512_rounds_00_15 M r, M))
      = foldl (fips_round fips_Sigma0_512 fips_Sigma1_512 K512 W) r [0..<80]" for r
    using sha512_loop_rounds [OF W, of "sha512_rounds_00_15 M r"] sha512_first_rounds [OF len, of W r]
    by (simp only: foldl_append [symmetric] upt_append [of 0 16 80] cond)
  show ?thesis
    unfolding sha512_block_def fips_sha512_block_def Let_def
    by (simp only: split_beta rounds W_def [symmetric] M [symmetric] M_def [symmetric])
qed

section \<open>SHA-384, SHA-512 and SHA-512/256 as a whole\<close>

lemma sha512_blocks_one: "sha512_blocks h d 1 = sha512_block h d"
  by (simp add: sha512_blocks_def)

interpretation sha512md: block_hash sha512_blocks SHA512_CBLOCK 16
proof unfold_locales
  show "(16 :: nat) < 128" by simp
  show "sha512_blocks h d (Suc (Suc n)) = sha512_blocks (sha512_blocks h d 1) (drop 128 d) (Suc n)"
    for h d n by (simp add: sha512_blocks_def)
  fix d e :: bytes and h assume d: "length d = 128"
  have "map (\<lambda>j. load_be (take 8 (drop (8 * j) (d @ e))) :: u64) [0..<16]
      = map (\<lambda>j. load_be (take 8 (drop (8 * j) d))) [0..<16]"
    using d by (intro map_cong refl) (auto simp: take_drop_append)
  then have "fips_sha512_block h (d @ e) = fips_sha512_block h d"
    by (simp only: fips_sha512_block_def)
  then show "sha512_blocks h (d @ e) 1 = sha512_blocks h d 1"
    using d unfolding sha512_blocks_one by (simp add: sha512_block_fips)
qed

definition sha512_tracks :: "u64 list \<Rightarrow> bytes \<Rightarrow> SHA512_CTX \<Rightarrow> bool" where
  "sha512_tracks iv m c \<longleftrightarrow>
     tracks (md_step sha512_blocks) 128 iv m (s5_h c) (s5_p c) (s5_num c) \<and>
     bit_count (s5_Nh c) (s5_Nl c) = 8 * length m mod 2 ^ 128"

definition sha512_counted :: "SHA512_CTX \<Rightarrow> nat \<Rightarrow> SHA512_CTX" where
  "sha512_counted c len =
     (let l = s5_Nl c + push_bit 3 (of_nat len);
          c = (if l < s5_Nl c then c\<lparr>s5_Nh := s5_Nh c + 1\<rparr> else c)
      in c\<lparr>s5_Nh := s5_Nh c + of_nat (drop_bit 61 len), s5_Nl := l\<rparr>)"

lemma sha512_counted_simps [simp]:
  "s5_h (sha512_counted c len) = s5_h c" "s5_p (sha512_counted c len) = s5_p c"
  "s5_num (sha512_counted c len) = s5_num c"
  by (simp_all add: sha512_counted_def Let_def)

lemma SHA512_Update_cases:
  assumes "data \<noteq> []"
  shows "SHA512_Update c data =
      (let c = sha512_counted c (length data); n = 128 - s5_num c in
       if s5_num c \<noteq> 0 then
         (if length data < n then
            c\<lparr>s5_p := memcpy_at (s5_p c) (s5_num c) data, s5_num := s5_num c + length data\<rparr>
          else
            let p = memcpy_at (s5_p c) (s5_num c) (take n data)
            in sha512_update_blocks
                 (c\<lparr>s5_p := p, s5_num := 0, s5_h := sha512md.one (s5_h c) p\<rparr>) (drop n data))
       else sha512_update_blocks c data)"
  using assms by (simp add: SHA512_Update_def Let_def md_step_def sha512_counted_def)

lemma sha512_counted_count:
  assumes "bit_count (s5_Nh c) (s5_Nl c) = 8 * n mod 2 ^ 128"
  shows "bit_count (s5_Nh (sha512_counted c len)) (s5_Nl (sha512_counted c len))
    = 8 * (n + len) mod 2 ^ 128"
proof -
  have "bit_count (s5_Nh (sha512_counted c len)) (s5_Nl (sha512_counted c len))
      = (bit_count (s5_Nh c) (s5_Nl c) + 8 * len) mod 2 ^ 128"
    using bit_count_add [of "s5_Nl c" len "s5_Nh c"]
    by (auto simp: sha512_counted_def Let_def split: if_splits)
  also have "\<dots> = 8 * (n + len) mod 2 ^ 128"
    unfolding assms by (simp only: mod_add_left_eq distrib_left)
  finally show ?thesis .
qed

lemma sha512_update_blocks_tracks:
  assumes t: "tracks sha512md.one 128 iv m (s5_h c) (s5_p c) 0" and num: "s5_num c = 0"
  shows "tracks sha512md.one 128 iv (m @ inp) (s5_h (sha512_update_blocks c inp))
      (s5_p (sha512_update_blocks c inp)) (s5_num (sha512_update_blocks c inp))
    \<and> s5_Nh (sha512_update_blocks c inp) = s5_Nh c \<and> s5_Nl (sha512_update_blocks c inp) = s5_Nl c"
proof -
  define k where "k = length inp div 128"
  have k: "128 \<le> length inp \<longleftrightarrow> 0 < k" "length inp - length inp mod 128 = k * 128"
    by (auto simp: k_def minus_mod_eq_div_mult)
  have rest: "length inp - k * 128 < 128" by (simp add: k_def minus_div_mult_eq_mod)
  show ?thesis
    using sha512md.tracks_blocks [OF t, of inp, folded k_def] num rest
    by (auto simp: sha512_update_blocks_def Let_def k memcpy_at_def simp flip: k_def)
qed

lemma sha512_update_tracks:
  assumes t: "sha512_tracks iv m c"
  shows "sha512_tracks iv (m @ inp) (SHA512_Update c inp)"
proof (cases "inp = []")
  case True
  then show ?thesis using t by (simp add: SHA512_Update_def)
next
  case nonempty: False
  define c1 n x where "c1 = sha512_counted c (length inp)" and "n = s5_num c" and "x = take (128 - n) inp"
  have tr: "tracks sha512md.one 128 iv m (s5_h c1) (s5_p c1) n"
    using t by (simp add: sha512_tracks_def n_def c1_def)
  have n: "n < 128" and num: "s5_num c1 = n" and D: "length (s5_p c1) = 128"
    using tr by (simp_all add: tracks_def n_def c1_def)
  have count: "bit_count (s5_Nh c1) (s5_Nl c1) = 8 * length (m @ inp) mod 2 ^ 128"
    using t sha512_counted_count [of c "length m" "length inp"] by (simp add: c1_def sha512_tracks_def)
  note upd = SHA512_Update_cases [OF nonempty, of c, unfolded Let_def, folded c1_def]
  consider "n = 0" | "n \<noteq> 0" "128 \<le> n + length inp" | "n \<noteq> 0" "n + length inp < 128" by linarith
  then show ?thesis
  proof cases
    case 1
    then show ?thesis
      using sha512_update_blocks_tracks [of iv m c1 inp] tr num count
      by (simp add: upd sha512_tracks_def)
  next
    case 2
    have x: "length x = 128 - n" "\<not> length inp < 128 - n" using 2 by (simp_all add: x_def)
    have "tracks sha512md.one 128 iv (m @ x) (sha512md.one (s5_h c1) (memcpy_at (s5_p c1) n x))
        (memcpy_at (s5_p c1) n x) 0"
      using D x n by (intro sha512md.tracks_fill [OF tr x(1)]) simp
    then show ?thesis
      using sha512_update_blocks_tracks [of iv "m @ x" "c1\<lparr>s5_p := memcpy_at (s5_p c1) n x, s5_num := 0,
           s5_h := sha512md.one (s5_h c1) (memcpy_at (s5_p c1) n x)\<rparr>" "drop (128 - n) inp"] 2 x(2) count
      num by (simp add: upd sha512_tracks_def x_def)
  next
    case 3
    then have "length inp < 128 - n" by linarith
    with 3 show ?thesis
      using sha512md.tracks_buffer [OF tr, of inp] count num
      by (simp add: upd sha512_tracks_def)
  qed
qed

lemma sha512_stream_tracks:
  "sha512_tracks iv m c \<Longrightarrow> sha512_tracks iv (m @ concat xs) (foldl SHA512_Update c xs)"
proof (induction xs arbitrary: m c)
  case (Cons x xs)
  then show ?case using Cons.IH [OF sha512_update_tracks [OF Cons.prems(1), of x]] by simp
qed simp

lemma sha512_length:
  assumes "bit_count Nh Nl = n mod 2 ^ 128"
  shows "CRYPTO_store_u64_be Nh @ CRYPTO_store_u64_be Nl = be_bytes 16 n"
proof -
  have "unat Nh < 256 ^ 8" "unat Nl < 256 ^ 8"
    using unsigned_less [of Nh, where ?'a = nat] unsigned_less [of Nl, where ?'a = nat] by simp_all
  then have "be_value (be_bytes 8 (unat Nh) @ be_bytes 8 (unat Nl)) = bit_count Nh Nl"
    by (simp add: byte_simps bit_count_def)
  then have "be_bytes 16 (bit_count Nh Nl) = be_bytes 8 (unat Nh) @ be_bytes 8 (unat Nl)"
    by (metis be_bytes_of length_append length_be_bytes numeral_Bit0)
  then show ?thesis using be_bytes_mod [of 16 n] by (simp add: store_u64_be assms)
qed

definition fips_sha512 :: "u64 list \<Rightarrow> nat \<Rightarrow> bytes \<Rightarrow> bytes" where
  "fips_sha512 iv len m =
     (let H = md_hash fips_sha512_block 128 16 (be_bytes 16) iv m
      in concat (map (\<lambda>i. be_bytes 8 (unat (H ! i))) [0..<len div 8]))"

lemma sha512_hash:
  "md_hash (md_step sha512_blocks) 128 16 enc iv m = md_hash fips_sha512_block 128 16 enc iv m"
  unfolding md_hash_def
  by (rule absorb_cong) (simp_all add: md_step_def sha512_blocks_one [simplified] sha512_block_fips)

lemma sha512_final_tracks:
  assumes t: "sha512_tracks iv m c"
  shows "fst (sha512_final_impl False len c) = Some (fips_sha512 iv len m)"
proof -
  have tr: "tracks sha512md.one 128 iv m (s5_h c) (s5_p c) (s5_num c)"
    using t by (simp add: sha512_tracks_def)
  have D: "length (s5_p c) = 128" and n: "s5_num c < 128" using tr by (simp_all add: tracks_def)
  have len: "memcpy_at (memcpy_at p 112 (CRYPTO_store_u64_be (s5_Nh c))) 120
      (CRYPTO_store_u64_be (s5_Nl c)) = memcpy_at p 112 (be_bytes 16 (8 * length m))"
    if "length p = 128" for p
    using that sha512_length [of "s5_Nh c" "s5_Nl c" "8 * length m", symmetric] t
    by (simp add: memcpy_at_def sha512_tracks_def)
  have "s5_h (snd (sha512_final_impl False len c))
      = md_hash sha512md.one 128 16 (be_bytes 16) iv m"
  proof (cases "s5_num c + 1 + 16 \<le> 128")
    case True
    then show ?thesis
      using sha512md.padded_one_block [OF tr True, of "be_bytes 16"] D
      by (simp add: sha512_final_impl_def Let_def len md_step_def)
  next
    case False
    then show ?thesis
      using sha512md.padded_two_blocks [OF tr False, of "be_bytes 16"] D n
      by (simp add: sha512_final_impl_def Let_def len md_step_def)
  qed
  moreover have "fst (sha512_final_impl False len c) = Some (concat (map (\<lambda>i. CRYPTO_store_u64_be
      (s5_h (snd (sha512_final_impl False len c)) ! i)) [0..<len div 8]))"
    by (simp add: sha512_final_impl_def Let_def)
  ultimately show ?thesis by (simp add: fips_sha512_def sha512_hash store_u64_be)
qed

lemma sha512_update_blocks_md_len: "s5_md_len (sha512_update_blocks c x) = s5_md_len c"
  by (simp add: sha512_update_blocks_def Let_def)

lemma s5_md_len_kept: "s5_md_len (foldl SHA512_Update c xs) = s5_md_len c"
proof (induction xs arbitrary: c)
  case (Cons x xs)
  have "s5_md_len (sha512_counted c n) = s5_md_len c" for n by (simp add: sha512_counted_def Let_def)
  then have "s5_md_len (SHA512_Update c x) = s5_md_len c"
    by (cases "x = []")
      (simp_all add: SHA512_Update_cases Let_def sha512_update_blocks_md_len, simp add: SHA512_Update_def)
  then show ?case using Cons by simp
qed simp

lemma sha512_init_tracks:
  assumes "length p = 128"
  shows "sha512_tracks (s5_h (SHA512_Init p)) [] (SHA512_Init p)"
    "sha512_tracks (s5_h (SHA384_Init p)) [] (SHA384_Init p)"
    "sha512_tracks (s5_h (SHA512_256_Init p)) [] (SHA512_256_Init p)"
  using assms
  by (auto simp: sha512_tracks_def bit_count_def SHA512_Init_def SHA384_Init_def SHA512_256_Init_def
      intro: tracks_empty)

text \<open>C30 The same for \<open>sha512.c\<close>, which has a collector of its own, with blocks of 128 bytes, a 128-bit
  counter, and a buffer that is never cleared: whatever the fresh context held, and however the
  message is cut, SHA-512, SHA-384 and SHA-512/256 are those of FIPS 180-4.\<close>
theorem sha512_stream:
  assumes p: "length p = 128"
  shows "fst (SHA512_Final (foldl SHA512_Update (SHA512_Init p) xs))
      = Some (fips_sha512 (s5_h (SHA512_Init [])) 64 (concat xs))
    \<and> fst (SHA384_Final (foldl SHA384_Update (SHA384_Init p) xs))
      = Some (fips_sha512 (s5_h (SHA384_Init [])) 48 (concat xs))
    \<and> fst (SHA512_256_Final (foldl SHA512_256_Update (SHA512_256_Init p) xs))
      = Some (fips_sha512 (s5_h (SHA512_256_Init [])) 32 (concat xs))"
proof (intro conjI)
  note stream = sha512_final_tracks [OF sha512_stream_tracks [where m = "[]", simplified]]
  have upd: "SHA384_Update = SHA512_Update" "SHA512_256_Update = SHA512_Update"
    by (simp_all add: fun_eq_iff SHA384_Update_def SHA512_256_Update_def)
  have iv: "s5_h (SHA512_Init p) = s5_h (SHA512_Init [])" "s5_h (SHA384_Init p) = s5_h (SHA384_Init [])"
    "s5_h (SHA512_256_Init p) = s5_h (SHA512_256_Init [])" "s5_md_len (SHA512_Init p) = 64"
    by (simp_all add: SHA512_Init_def SHA384_Init_def SHA512_256_Init_def)
  show "fst (SHA512_Final (foldl SHA512_Update (SHA512_Init p) xs))
      = Some (fips_sha512 (s5_h (SHA512_Init [])) 64 (concat xs))"
    using stream [OF sha512_init_tracks(1) [OF p]] by (simp add: SHA512_Final_def s5_md_len_kept iv)
  show "fst (SHA384_Final (foldl SHA384_Update (SHA384_Init p) xs))
      = Some (fips_sha512 (s5_h (SHA384_Init [])) 48 (concat xs))"
    using stream [OF sha512_init_tracks(2) [OF p]] by (simp add: SHA384_Final_def upd iv)
  show "fst (SHA512_256_Final (foldl SHA512_256_Update (SHA512_256_Init p) xs))
      = Some (fips_sha512 (s5_h (SHA512_256_Init [])) 32 (concat xs))"
    using stream [OF sha512_init_tracks(3) [OF p]] by (simp add: SHA512_256_Final_def upd iv)
qed

section \<open>The constants\<close>

text \<open>
  FIPS 180-4 takes the constants from the fractional parts of roots of the first primes: \<open>c\<close> is the
  first \<open>w\<close> bits behind the point of the \<open>k\<close>-th root of \<open>p\<close>, whose integer part is \<open>q\<close>;
  all these roots are below 8.
\<close>

definition root_bits :: "nat \<Rightarrow> nat \<Rightarrow> int \<Rightarrow> int \<Rightarrow> bool" where
  "root_bits k w p c =
     (let q = int (length (takeWhile (\<lambda>q. q ^ k \<le> p) [1, 2, 3, 4, 5, 6, 7])); x = q * 2 ^ w + c
      in c < 2 ^ w \<and> x ^ k \<le> p * 2 ^ (w * k) \<and> p * 2 ^ (w * k) < (x + 1) ^ k)"

definition first_primes :: "int list" where
  "first_primes =
    [2, 3, 5, 7, 11, 13, 17, 19, 23, 29, 31, 37, 41, 43, 47, 53, 59, 61, 67, 71,
     73, 79, 83, 89, 97, 101, 103, 107, 109, 113, 127, 131, 137, 139, 149, 151, 157, 163, 167, 173,
     179, 181, 191, 193, 197, 199, 211, 223, 227, 229, 233, 239, 241, 251, 257, 263, 269, 271, 277, 281,
     283, 293, 307, 311, 313, 317, 331, 337, 347, 349, 353, 359, 367, 373, 379, 383, 389, 397, 401, 409]"

lemma roots_below_8: "list_all (\<lambda>p. p < 8 ^ 3) first_primes" "list_all (\<lambda>p. p < 8 ^ 2) (take 16 first_primes)"
  by (simp_all add: first_primes_def)

text \<open>Every constant of the code is the one of the standard: the round constants of SHA-256 and
  SHA-512 are the fractional parts of the cube roots of the first 64 and 80 primes, their initial
  values those of the square roots of the first eight primes, SHA-384 takes the next eight, and
  SHA-224 the low halves of the words of SHA-384.\<close>
theorem sha2_constants:
  "list_all2 (\<lambda>p c. root_bits 3 32 p (uint c)) (take 64 first_primes) K256
    \<and> list_all2 (\<lambda>p c. root_bits 3 64 p (uint c)) first_primes K512
    \<and> list_all2 (\<lambda>p c. root_bits 2 32 p (uint c)) (take 8 first_primes) (md_h SHA256_Init)
    \<and> list_all2 (\<lambda>p c. root_bits 2 64 p (uint c)) (take 8 first_primes) (s5_h (SHA512_Init p))
    \<and> list_all2 (\<lambda>p c. root_bits 2 64 p (uint c)) (take 8 (drop 8 first_primes)) (s5_h (SHA384_Init p))
    \<and> md_h SHA224_Init = map ucast (s5_h (SHA384_Init p))"
proof (intro conjI)
  show "list_all2 (\<lambda>p c. root_bits 3 32 p (uint c)) (take 64 first_primes) K256"
    by code_simp
  show "list_all2 (\<lambda>p c. root_bits 3 64 p (uint c)) first_primes K512"
    by code_simp
  show "list_all2 (\<lambda>p c. root_bits 2 32 p (uint c)) (take 8 first_primes) (md_h SHA256_Init)"
    by code_simp
  show "list_all2 (\<lambda>p c. root_bits 2 64 p (uint c)) (take 8 first_primes) (s5_h (SHA512_Init p))"
    unfolding SHA512_Init_def SHA512_CTX.simps by code_simp
  show "list_all2 (\<lambda>p c. root_bits 2 64 p (uint c)) (take 8 (drop 8 first_primes)) (s5_h (SHA384_Init p))"
    unfolding SHA384_Init_def SHA512_CTX.simps by code_simp
  show "md_h SHA224_Init = map ucast (s5_h (SHA384_Init p))"
    by (simp add: SHA224_Init_def SHA384_Init_def)
qed

lemma sha256_stream_witness:
  "fst (SHA256_Final (SHA256_Update (SHA256_Update SHA256_Init [0x61, 0x62]) [0x63]))
      = Some (fips_sha256 (md_h SHA256_Init) 32 [0x61, 0x62, 0x63])
    \<and> fst (SHA224_Final (SHA224_Update (SHA224_Update SHA224_Init [0x61, 0x62]) [0x63]))
      = Some (fips_sha256 (md_h SHA224_Init) 28 [0x61, 0x62, 0x63])"
  using sha256_stream [of "[[0x61, 0x62], [0x63]]"] by (simp add: size_mod_def)

lemma sha512_stream_witness:
  "fst (SHA512_Final (foldl SHA512_Update (SHA512_Init (replicate 128 7)) [replicate 130 1, [2, 3]]))
      = Some (fips_sha512 (s5_h (SHA512_Init [])) 64 (concat [replicate 130 1, [2, 3]]))
    \<and> fst (SHA384_Final (foldl SHA384_Update (SHA384_Init (replicate 128 7)) [replicate 130 1, [2, 3]]))
      = Some (fips_sha512 (s5_h (SHA384_Init [])) 48 (concat [replicate 130 1, [2, 3]]))
    \<and> fst (SHA512_256_Final (foldl SHA512_256_Update (SHA512_256_Init (replicate 128 7)) [replicate 130 1, [2, 3]]))
      = Some (fips_sha512 (s5_h (SHA512_256_Init [])) 32 (concat [replicate 130 1, [2, 3]]))"
  by (rule sha512_stream) (rule length_replicate)

end
