(* ===== verification/SHA1.thy ===== *)
theory SHA1
  imports SHA2
begin

text \<open>
  \<open>crypto/fipsmodule/sha/sha1.c\<close>, portable branch. The C code unrolls the eighty rounds and rotates the
  names of six variables; the calls are written out here as they are there, and proved equal to the loop
  of FIPS 180-4. The words of the block are in a list \<open>X\<close> in place of the sixteen variables \<open>XX0\<close> to
  \<open>XX15\<close>. Also the generator of FIPS 186-2 on top of the compression function.
\<close>

section \<open>SHA-1\<close>

abbreviation (input) SHA_CBLOCK :: nat where "SHA_CBLOCK \<equiv> 64"
abbreviation (input) SHA_DIGEST_LENGTH :: nat where "SHA_DIGEST_LENGTH \<equiv> 20"

type_synonym SHA_CTX = md32_ctx

definition SHA1_Init :: SHA_CTX where
  "SHA1_Init = \<lparr>md_h = [0x67452301, 0xefcdab89, 0x98badcfe, 0x10325476, 0xc3d2e1f0],
     md_Nl = 0, md_Nh = 0, md_data = replicate 64 0, md_num = 0\<rparr>"

definition F_00_19 :: "u32 \<Rightarrow> u32 \<Rightarrow> u32 \<Rightarrow> u32" where
  "F_00_19 b c d = ((c XOR d) AND b) XOR d"

definition F_20_39 :: "u32 \<Rightarrow> u32 \<Rightarrow> u32 \<Rightarrow> u32" where
  "F_20_39 b c d = b XOR c XOR d"

definition F_40_59 :: "u32 \<Rightarrow> u32 \<Rightarrow> u32 \<Rightarrow> u32" where
  "F_40_59 b c d = (b AND c) OR ((b OR c) AND d)"

definition F_60_79 :: "u32 \<Rightarrow> u32 \<Rightarrow> u32 \<Rightarrow> u32" where
  "F_60_79 b c d = F_20_39 b c d"

text \<open>
  A round assigns \<open>f\<close> and \<open>b\<close>, which the macros return; from round 16 on it first updates the word
  \<open>xi\<close> (or \<open>xa\<close>) of the schedule.
\<close>

definition Xupdate :: "u32 \<Rightarrow> u32 \<Rightarrow> u32 \<Rightarrow> u32 \<Rightarrow> u32" where
  "Xupdate ia ib ic i_d = CRYPTO_rotl_u32 (ia XOR ib XOR ic XOR i_d) 1"

definition BODY_00_15 :: "nat \<Rightarrow> u32 \<Rightarrow> u32 \<Rightarrow> u32 \<Rightarrow> u32 \<Rightarrow> u32 \<Rightarrow> u32 \<Rightarrow> u32 \<times> u32" where
  "BODY_00_15 i a b c d e xi =
     (let f = xi + e + 0x5a827999 + CRYPTO_rotl_u32 a 5 + F_00_19 b c d;
          b = CRYPTO_rotl_u32 b 30
      in (f, b))"

definition BODY_16_19 ::
  "nat \<Rightarrow> u32 \<Rightarrow> u32 \<Rightarrow> u32 \<Rightarrow> u32 \<Rightarrow> u32 \<Rightarrow> nat \<Rightarrow> nat \<Rightarrow> nat \<Rightarrow> nat \<Rightarrow> nat \<Rightarrow> u32 list \<Rightarrow> u32 \<times> u32 \<times> u32 list" where
  "BODY_16_19 i a b c d e xi xa xb xc xd X =
     (let f = Xupdate (X ! xa) (X ! xb) (X ! xc) (X ! xd);
          X = X[xi := f];
          f = f + (e + 0x5a827999 + CRYPTO_rotl_u32 a 5 + F_00_19 b c d);
          b = CRYPTO_rotl_u32 b 30
      in (f, b, X))"

definition BODY_20_31 ::
  "nat \<Rightarrow> u32 \<Rightarrow> u32 \<Rightarrow> u32 \<Rightarrow> u32 \<Rightarrow> u32 \<Rightarrow> nat \<Rightarrow> nat \<Rightarrow> nat \<Rightarrow> nat \<Rightarrow> nat \<Rightarrow> u32 list \<Rightarrow> u32 \<times> u32 \<times> u32 list" where
  "BODY_20_31 i a b c d e xi xa xb xc xd X =
     (let f = Xupdate (X ! xa) (X ! xb) (X ! xc) (X ! xd);
          X = X[xi := f];
          f = f + (e + 0x6ed9eba1 + CRYPTO_rotl_u32 a 5 + F_20_39 b c d);
          b = CRYPTO_rotl_u32 b 30
      in (f, b, X))"

definition BODY_32_39 ::
  "nat \<Rightarrow> u32 \<Rightarrow> u32 \<Rightarrow> u32 \<Rightarrow> u32 \<Rightarrow> u32 \<Rightarrow> nat \<Rightarrow> nat \<Rightarrow> nat \<Rightarrow> nat \<Rightarrow> u32 list \<Rightarrow> u32 \<times> u32 \<times> u32 list" where
  "BODY_32_39 i a b c d e xa xb xc xd X =
     (let f = Xupdate (X ! xa) (X ! xb) (X ! xc) (X ! xd);
          X = X[xa := f];
          f = f + (e + 0x6ed9eba1 + CRYPTO_rotl_u32 a 5 + F_20_39 b c d);
          b = CRYPTO_rotl_u32 b 30
      in (f, b, X))"

definition BODY_40_59 ::
  "nat \<Rightarrow> u32 \<Rightarrow> u32 \<Rightarrow> u32 \<Rightarrow> u32 \<Rightarrow> u32 \<Rightarrow> nat \<Rightarrow> nat \<Rightarrow> nat \<Rightarrow> nat \<Rightarrow> u32 list \<Rightarrow> u32 \<times> u32 \<times> u32 list" where
  "BODY_40_59 i a b c d e xa xb xc xd X =
     (let f = Xupdate (X ! xa) (X ! xb) (X ! xc) (X ! xd);
          X = X[xa := f];
          f = f + (e + 0x8f1bbcdc + CRYPTO_rotl_u32 a 5 + F_40_59 b c d);
          b = CRYPTO_rotl_u32 b 30
      in (f, b, X))"

definition BODY_60_79 ::
  "nat \<Rightarrow> u32 \<Rightarrow> u32 \<Rightarrow> u32 \<Rightarrow> u32 \<Rightarrow> u32 \<Rightarrow> nat \<Rightarrow> nat \<Rightarrow> nat \<Rightarrow> nat \<Rightarrow> u32 list \<Rightarrow> u32 \<times> u32 \<times> u32 list" where
  "BODY_60_79 i a b c d e xa xb xc xd X =
     (let f = Xupdate (X ! xa) (X ! xb) (X ! xc) (X ! xd);
          X = X[xa := f];
          f = X ! xa + e + 0xca62c1d6 + CRYPTO_rotl_u32 a 5 + F_60_79 b c d;
          b = CRYPTO_rotl_u32 b 30
      in (f, b, X))"

type_synonym regs6 = "u32 \<times> u32 \<times> u32 \<times> u32 \<times> u32 \<times> u32"

definition sha1_rounds_00_15 :: "u32 list \<Rightarrow> u32 \<times> u32 \<times> u32 \<times> u32 \<times> u32 \<Rightarrow> regs6" where
  "sha1_rounds_00_15 X r =
     (let (A, B, C, D, E) = r;
          (T, B) = BODY_00_15 0 A B C D E (X ! 0);
          (E, A) = BODY_00_15 1 T A B C D (X ! 1);
          (D, T) = BODY_00_15 2 E T A B C (X ! 2);
          (C, E) = BODY_00_15 3 D E T A B (X ! 3);
          (B, D) = BODY_00_15 4 C D E T A (X ! 4);
          (A, C) = BODY_00_15 5 B C D E T (X ! 5);
          (T, B) = BODY_00_15 6 A B C D E (X ! 6);
          (E, A) = BODY_00_15 7 T A B C D (X ! 7);
          (D, T) = BODY_00_15 8 E T A B C (X ! 8);
          (C, E) = BODY_00_15 9 D E T A B (X ! 9);
          (B, D) = BODY_00_15 10 C D E T A (X ! 10);
          (A, C) = BODY_00_15 11 B C D E T (X ! 11);
          (T, B) = BODY_00_15 12 A B C D E (X ! 12);
          (E, A) = BODY_00_15 13 T A B C D (X ! 13);
          (D, T) = BODY_00_15 14 E T A B C (X ! 14);
          (C, E) = BODY_00_15 15 D E T A B (X ! 15)
      in (A, B, C, D, E, T))"

definition sha1_rounds_16_19 :: "regs6 \<times> u32 list \<Rightarrow> regs6 \<times> u32 list" where
  "sha1_rounds_16_19 s =
     (let ((A, B, C, D, E, T), X) = s;
          (B, D, X) = BODY_16_19 16 C D E T A 0 0 2 8 13 X;
          (A, C, X) = BODY_16_19 17 B C D E T 1 1 3 9 14 X;
          (T, B, X) = BODY_16_19 18 A B C D E 2 2 4 10 15 X;
          (E, A, X) = BODY_16_19 19 T A B C D 3 3 5 11 0 X
      in ((A, B, C, D, E, T), X))"

definition sha1_rounds_20_31 :: "regs6 \<times> u32 list \<Rightarrow> regs6 \<times> u32 list" where
  "sha1_rounds_20_31 s =
     (let ((A, B, C, D, E, T), X) = s;
          (D, T, X) = BODY_20_31 20 E T A B C 4 4 6 12 1 X;
          (C, E, X) = BODY_20_31 21 D E T A B 5 5 7 13 2 X;
          (B, D, X) = BODY_20_31 22 C D E T A 6 6 8 14 3 X;
          (A, C, X) = BODY_20_31 23 B C D E T 7 7 9 15 4 X;
          (T, B, X) = BODY_20_31 24 A B C D E 8 8 10 0 5 X;
          (E, A, X) = BODY_20_31 25 T A B C D 9 9 11 1 6 X;
          (D, T, X) = BODY_20_31 26 E T A B C 10 10 12 2 7 X;
          (C, E, X) = BODY_20_31 27 D E T A B 11 11 13 3 8 X;
          (B, D, X) = BODY_20_31 28 C D E T A 12 12 14 4 9 X;
          (A, C, X) = BODY_20_31 29 B C D E T 13 13 15 5 10 X;
          (T, B, X) = BODY_20_31 30 A B C D E 14 14 0 6 11 X;
          (E, A, X) = BODY_20_31 31 T A B C D 15 15 1 7 12 X
      in ((A, B, C, D, E, T), X))"

definition sha1_rounds_32_39 :: "regs6 \<times> u32 list \<Rightarrow> regs6 \<times> u32 list" where
  "sha1_rounds_32_39 s =
     (let ((A, B, C, D, E, T), X) = s;
          (D, T, X) = BODY_32_39 32 E T A B C 0 2 8 13 X;
          (C, E, X) = BODY_32_39 33 D E T A B 1 3 9 14 X;
          (B, D, X) = BODY_32_39 34 C D E T A 2 4 10 15 X;
          (A, C, X) = BODY_32_39 35 B C D E T 3 5 11 0 X;
          (T, B, X) = BODY_32_39 36 A B C D E 4 6 12 1 X;
          (E, A, X) = BODY_32_39 37 T A B C D 5 7 13 2 X;
          (D, T, X) = BODY_32_39 38 E T A B C 6 8 14 3 X;
          (C, E, X) = BODY_32_39 39 D E T A B 7 9 15 4 X
      in ((A, B, C, D, E, T), X))"

definition sha1_rounds_40_59 :: "regs6 \<times> u32 list \<Rightarrow> regs6 \<times> u32 list" where
  "sha1_rounds_40_59 s =
     (let ((A, B, C, D, E, T), X) = s;
          (B, D, X) = BODY_40_59 40 C D E T A 8 10 0 5 X;
          (A, C, X) = BODY_40_59 41 B C D E T 9 11 1 6 X;
          (T, B, X) = BODY_40_59 42 A B C D E 10 12 2 7 X;
          (E, A, X) = BODY_40_59 43 T A B C D 11 13 3 8 X;
          (D, T, X) = BODY_40_59 44 E T A B C 12 14 4 9 X;
          (C, E, X) = BODY_40_59 45 D E T A B 13 15 5 10 X;
          (B, D, X) = BODY_40_59 46 C D E T A 14 0 6 11 X;
          (A, C, X) = BODY_40_59 47 B C D E T 15 1 7 12 X;
          (T, B, X) = BODY_40_59 48 A B C D E 0 2 8 13 X;
          (E, A, X) = BODY_40_59 49 T A B C D 1 3 9 14 X;
          (D, T, X) = BODY_40_59 50 E T A B C 2 4 10 15 X;
          (C, E, X) = BODY_40_59 51 D E T A B 3 5 11 0 X;
          (B, D, X) = BODY_40_59 52 C D E T A 4 6 12 1 X;
          (A, C, X) = BODY_40_59 53 B C D E T 5 7 13 2 X;
          (T, B, X) = BODY_40_59 54 A B C D E 6 8 14 3 X;
          (E, A, X) = BODY_40_59 55 T A B C D 7 9 15 4 X;
          (D, T, X) = BODY_40_59 56 E T A B C 8 10 0 5 X;
          (C, E, X) = BODY_40_59 57 D E T A B 9 11 1 6 X;
          (B, D, X) = BODY_40_59 58 C D E T A 10 12 2 7 X;
          (A, C, X) = BODY_40_59 59 B C D E T 11 13 3 8 X
      in ((A, B, C, D, E, T), X))"

definition sha1_rounds_60_79 :: "regs6 \<times> u32 list \<Rightarrow> regs6 \<times> u32 list" where
  "sha1_rounds_60_79 s =
     (let ((A, B, C, D, E, T), X) = s;
          (T, B, X) = BODY_60_79 60 A B C D E 12 14 4 9 X;
          (E, A, X) = BODY_60_79 61 T A B C D 13 15 5 10 X;
          (D, T, X) = BODY_60_79 62 E T A B C 14 0 6 11 X;
          (C, E, X) = BODY_60_79 63 D E T A B 15 1 7 12 X;
          (B, D, X) = BODY_60_79 64 C D E T A 0 2 8 13 X;
          (A, C, X) = BODY_60_79 65 B C D E T 1 3 9 14 X;
          (T, B, X) = BODY_60_79 66 A B C D E 2 4 10 15 X;
          (E, A, X) = BODY_60_79 67 T A B C D 3 5 11 0 X;
          (D, T, X) = BODY_60_79 68 E T A B C 4 6 12 1 X;
          (C, E, X) = BODY_60_79 69 D E T A B 5 7 13 2 X;
          (B, D, X) = BODY_60_79 70 C D E T A 6 8 14 3 X;
          (A, C, X) = BODY_60_79 71 B C D E T 7 9 15 4 X;
          (T, B, X) = BODY_60_79 72 A B C D E 8 10 0 5 X;
          (E, A, X) = BODY_60_79 73 T A B C D 9 11 1 6 X;
          (D, T, X) = BODY_60_79 74 E T A B C 10 12 2 7 X;
          (C, E, X) = BODY_60_79 75 D E T A B 11 13 3 8 X;
          (B, D, X) = BODY_60_79 76 C D E T A 12 14 4 9 X;
          (A, C, X) = BODY_60_79 77 B C D E T 13 15 5 10 X;
          (T, B, X) = BODY_60_79 78 A B C D E 14 0 6 11 X;
          (E, A, X) = BODY_60_79 79 T A B C D 15 1 7 12 X
      in ((A, B, C, D, E, T), X))"

definition sha1_block :: "u32 list \<Rightarrow> bytes \<Rightarrow> u32 list" where
  "sha1_block state data =
     (let X = map (\<lambda>j. CRYPTO_load_u32_be (drop (4 * j) data)) [0..<16];
          r = sha1_rounds_00_15 X (state ! 0, state ! 1, state ! 2, state ! 3, state ! 4);
          ((A, B, C, D, E, T), X) =
            sha1_rounds_60_79 (sha1_rounds_40_59 (sha1_rounds_32_39 (sha1_rounds_20_31
              (sha1_rounds_16_19 (r, X)))))
      in [state ! 0 + E, state ! 1 + T, state ! 2 + A, state ! 3 + B, state ! 4 + C])"

text \<open>
  The loop tests \<open>--num == 0\<close> after its body: \<open>num\<close> counts the further rounds, and a call with zero
  blocks would run \<open>2 ^ 64\<close> times.
\<close>

primrec sha1_block_loop :: "nat \<Rightarrow> u32 list \<Rightarrow> bytes \<Rightarrow> u32 list" where
  "sha1_block_loop 0 state data = sha1_block state data"
| "sha1_block_loop (Suc num) state data = sha1_block_loop num (sha1_block state data) (drop 64 data)"

definition sha1_block_data_order :: md32_block_func where
  "sha1_block_data_order state data num =
     sha1_block_loop ((if num = 0 then size_mod else num) - 1) state data"

definition SHA1_Transform :: "SHA_CTX \<Rightarrow> bytes \<Rightarrow> SHA_CTX" where
  "SHA1_Transform c data = c\<lparr>md_h := sha1_block_data_order (md_h c) data 1\<rparr>"

definition SHA1_Update :: "SHA_CTX \<Rightarrow> bytes \<Rightarrow> SHA_CTX" where
  "SHA1_Update c data = crypto_md32_update sha1_block_data_order SHA_CBLOCK c data"

definition sha1_output_state :: "SHA_CTX \<Rightarrow> bytes" where
  "sha1_output_state ctx =
     CRYPTO_store_u32_be (md_h ctx ! 0) @ CRYPTO_store_u32_be (md_h ctx ! 1)
     @ CRYPTO_store_u32_be (md_h ctx ! 2) @ CRYPTO_store_u32_be (md_h ctx ! 3)
     @ CRYPTO_store_u32_be (md_h ctx ! 4)"

definition SHA1_Final :: "SHA_CTX \<Rightarrow> bytes \<times> SHA_CTX" where
  "SHA1_Final c =
     (let c = crypto_md32_final sha1_block_data_order SHA_CBLOCK True c in (sha1_output_state c, c))"

definition SHA1 :: "bytes \<Rightarrow> bytes" where
  "SHA1 data = fst (SHA1_Final (SHA1_Update SHA1_Init data))"

section \<open>The rounds of SHA-1 against FIPS 180-4\<close>

definition fips_sha1_f :: "nat \<Rightarrow> u32 \<Rightarrow> u32 \<Rightarrow> u32 \<Rightarrow> u32" where
  "fips_sha1_f t x y z =
     (if t < 20 then Ch x y z else if t < 40 then x XOR y XOR z
      else if t < 60 then Maj x y z else x XOR y XOR z)"

definition fips_sha1_K :: "nat \<Rightarrow> u32" where
  "fips_sha1_K t =
     (if t < 20 then 0x5a827999 else if t < 40 then 0x6ed9eba1
      else if t < 60 then 0x8f1bbcdc else 0xca62c1d6)"

definition fips_sha1_schedule :: "u32 list \<Rightarrow> nat \<Rightarrow> u32 list" where
  "fips_sha1_schedule = grow (\<lambda>W. let t = length W in
     word_rotl 1 (W ! (t - 3) XOR W ! (t - 8) XOR W ! (t - 14) XOR W ! (t - 16)))"

type_synonym regs5 = "u32 \<times> u32 \<times> u32 \<times> u32 \<times> u32"

definition fips_sha1_round :: "u32 list \<Rightarrow> regs5 \<Rightarrow> nat \<Rightarrow> regs5" where
  "fips_sha1_round W r t =
     (let (a, b, c, d, e) = r;
          T = word_rotl 5 a + fips_sha1_f t b c d + e + fips_sha1_K t + W ! t
      in (T, a, word_rotl 30 b, c, d))"

definition fips_sha1_block :: "u32 list \<Rightarrow> bytes \<Rightarrow> u32 list" where
  "fips_sha1_block H data =
     (let M = map (\<lambda>j. load_be (take 4 (drop (4 * j) data))) [0..<16];
          W = fips_sha1_schedule M 64;
          (a, b, c, d, e) = foldl (fips_sha1_round W) (H ! 0, H ! 1, H ! 2, H ! 3, H ! 4) [0..<80]
      in [H ! 0 + a, H ! 1 + b, H ! 2 + c, H ! 3 + d, H ! 4 + e])"

lemma length_fips_sha1_schedule [simp]: "length (fips_sha1_schedule M n) = length M + n"
  by (simp add: fips_sha1_schedule_def)

lemma fips_sha1_schedule_words: "t < length M \<Longrightarrow> fips_sha1_schedule M n ! t = M ! t"
  by (simp add: fips_sha1_schedule_def grow_words)

definition sha1_recurrence :: "u32 list \<Rightarrow> bool" where
  "sha1_recurrence W \<longleftrightarrow> (\<forall>t. 16 \<le> t \<longrightarrow> t < length W \<longrightarrow>
     W ! t = word_rotl 1 (W ! (t - 3) XOR W ! (t - 8) XOR W ! (t - 14) XOR W ! (t - 16)))"

lemma fips_sha1_schedule_recurrence:
  "length M = 16 \<Longrightarrow> sha1_recurrence (fips_sha1_schedule M n)"
  by (auto simp: sha1_recurrence_def fips_sha1_schedule_def grow_nth Let_def)

text \<open>The simplified selection and majority functions.\<close>

lemma F_00_19: "F_00_19 b c d = Ch b c d"
  by (rule bit_word_eqI) (auto simp: F_00_19_def Ch_def bit_simps)

lemma F_40_59: "F_40_59 b c d = Maj b c d"
  by (rule bit_word_eqI) (auto simp: F_40_59_def Maj_def bit_simps)

lemma body_00_15_round:
  assumes "t < 16" "x = W ! t" "BODY_00_15 t a b c d e x = (f, b')"
  shows "fips_sha1_round W (a, b, c, d, e) t = (f, a, b', c, d)"
  using assms
  by (auto simp: BODY_00_15_def fips_sha1_round_def Let_def F_00_19 fips_sha1_f_def fips_sha1_K_def
      rotl_u32 algebra_simps)

text \<open>A round from 16 on: the ring gains the next word, the working variables do the step of the reference.\<close>

definition sha1_body ::
  "(nat \<Rightarrow> u32 \<Rightarrow> u32 \<Rightarrow> u32 \<Rightarrow> u32 \<Rightarrow> u32 \<Rightarrow> nat \<Rightarrow> nat \<Rightarrow> nat \<Rightarrow> nat \<Rightarrow> u32 list \<Rightarrow> u32 \<times> u32 \<times> u32 list)
     \<Rightarrow> nat \<Rightarrow> nat \<Rightarrow> bool" where
  "sha1_body B lo hi \<longleftrightarrow> (\<forall>t a b c d e xa xb xc xd X. lo \<le> t \<longrightarrow> t < hi \<longrightarrow>
     B t a b c d e xa xb xc xd X =
       (let f = Xupdate (X ! xa) (X ! xb) (X ! xc) (X ! xd)
        in (f + e + fips_sha1_K t + word_rotl 5 a + fips_sha1_f t b c d, word_rotl 30 b, X[xa := f])))"

lemma sha1_bodies:
  "sha1_body (\<lambda>i a b c d e xa. BODY_16_19 i a b c d e xa xa) 16 20"
  "sha1_body (\<lambda>i a b c d e xa. BODY_20_31 i a b c d e xa xa) 20 32"
  "sha1_body BODY_32_39 32 40" "sha1_body BODY_40_59 40 60"
  by (simp_all add: sha1_body_def BODY_16_19_def BODY_20_31_def BODY_32_39_def BODY_40_59_def Let_def
      fips_sha1_f_def fips_sha1_K_def F_00_19 F_20_39_def F_40_59 rotl_u32 add.assoc)

lemma sha1_body_60_79: 
  assumes "xa < length X" "60 \<le> t" "t < 80"
  shows "BODY_60_79 t a b c d e xa xb xc xd X =
       (let f = Xupdate (X ! xa) (X ! xb) (X ! xc) (X ! xd)
        in (f + e + fips_sha1_K t + word_rotl 5 a + fips_sha1_f t b c d, word_rotl 30 b, X[xa := f]))"
  using assms by (simp add: BODY_60_79_def Let_def fips_sha1_f_def fips_sha1_K_def F_60_79_def
      F_20_39_def rotl_u32)

lemma sha1_ring_round:
  assumes ring: "ring W t X" and W: "sha1_recurrence W" and t: "16 \<le> t" "t < length W"
    and x: "xa = t mod 16" "xb = (t + 2) mod 16" "xc = (t + 8) mod 16" "xd = (t + 13) mod 16"
  shows "Xupdate (X ! xa) (X ! xb) (X ! xc) (X ! xd) = W ! t"
    and "ring W (t + 1) (X[xa := W ! t])"
proof -
  note word = ring_nth [OF ring t(1)]
  have "X ! xa = W ! (t - 16)" using word [of 16 0] x by simp
  moreover have "X ! xb = W ! (t - 14)" unfolding x by (rule word) simp_all
  moreover have "X ! xc = W ! (t - 8)" unfolding x by (rule word) simp_all
  moreover have "X ! xd = W ! (t - 3)" unfolding x by (rule word) simp_all
  moreover have "W ! t = word_rotl 1 (W ! (t - 3) XOR W ! (t - 8) XOR W ! (t - 14) XOR W ! (t - 16))"
    using W t by (simp add: sha1_recurrence_def)
  ultimately show "Xupdate (X ! xa) (X ! xb) (X ! xc) (X ! xd) = W ! t"
    by (simp add: Xupdate_def rotl_u32 ac_simps)
  show "ring W (t + 1) (X[xa := W ! t])" unfolding x by (rule ring_step [OF ring])
qed

lemma sha1_chain_00_15:
  assumes "\<And>f' b'. Q (k f' b') (foldl (fips_sha1_round W) (f', a, b', c, d) [s + 1..<n])"
    and "s = t" "x = W ! t" "s < n" "s < 16"
  shows "Q (case BODY_00_15 t a b c d e x of (f', b') \<Rightarrow> k f' b')
    (foldl (fips_sha1_round W) (a, b, c, d, e) [s..<n])"
proof -
  obtain f' b' where r: "BODY_00_15 t a b c d e x = (f', b')" by (cases "BODY_00_15 t a b c d e x")
  then show ?thesis
    using assms(1) [of f' b'] body_00_15_round [of t x W a b c d e f' b'] assms(2-)
    by (simp add: upt_conv_Cons)
qed

lemma sha1_chain_eq:
  assumes B: "B = (let f = Xupdate (X ! xa) (X ! xb) (X ! xc) (X ! xd)
        in (f + e + fips_sha1_K s + word_rotl 5 a + fips_sha1_f s b c d, word_rotl 30 b, X[xa := f]))"
    and k: "\<And>f' b' X'. ring W (s + 1) X' \<Longrightarrow>
      Q (k f' b' X') (foldl (fips_sha1_round W) (f', a, b', c, d) [s + 1..<n])"
    and "ring W s X" "sha1_recurrence W" "16 \<le> s" "s < n" "n \<le> length W"
    and "xa = s mod 16" "xb = (s + 2) mod 16" "xc = (s + 8) mod 16" "xd = (s + 13) mod 16"
  shows "Q (case B of (f', b', X') \<Rightarrow> k f' b' X')
    (foldl (fips_sha1_round W) (a, b, c, d, e) [s..<n])"
proof -
  have len: "s < length W" using assms by simp
  note r = sha1_ring_round [OF assms(3,4,5) len assms(8-11)]
  have "fips_sha1_round W (a, b, c, d, e) s
      = (W ! s + e + fips_sha1_K s + word_rotl 5 a + fips_sha1_f s b c d, a, word_rotl 30 b, c, d)"
    by (simp add: fips_sha1_round_def Let_def algebra_simps)
  then show ?thesis
    using k [OF r(2)] \<open>s < n\<close> unfolding B Let_def r(1) by (simp add: upt_conv_Cons)
qed

lemma sha1_chain:
  assumes "sha1_body B lo hi"
    and "\<And>f' b' X'. ring W (s + 1) X' \<Longrightarrow>
      Q (k f' b' X') (foldl (fips_sha1_round W) (f', a, b', c, d) [s + 1..<n])"
    and "ring W s X" "sha1_recurrence W" "s = t" "16 \<le> s" "s < n" "n \<le> length W" "lo \<le> s" "s < hi"
    and "xa = s mod 16" "xb = (s + 2) mod 16" "xc = (s + 8) mod 16" "xd = (s + 13) mod 16"
  shows "Q (case B t a b c d e xa xb xc xd X of (f', b', X') \<Rightarrow> k f' b' X')
    (foldl (fips_sha1_round W) (a, b, c, d, e) [s..<n])"
proof (rule sha1_chain_eq [where Q = Q and k = k and W = W and s = s])
  show "B t a b c d e xa xb xc xd X = (let f = Xupdate (X ! xa) (X ! xb) (X ! xc) (X ! xd)
        in (f + e + fips_sha1_K s + word_rotl 5 a + fips_sha1_f s b c d, word_rotl 30 b, X[xa := f]))"
    using assms(1,5,9,10) unfolding sha1_body_def by blast
qed (rule assms, assumption?)+

lemma sha1_chain_60_79:
  assumes "\<And>f' b' X'. ring W (s + 1) X' \<Longrightarrow>
      Q (k f' b' X') (foldl (fips_sha1_round W) (f', a, b', c, d) [s + 1..<n])"
    and "ring W s X" "sha1_recurrence W" "s = t" "60 \<le> s" "s < n" "n \<le> length W" "s < 80"
    and "xa = s mod 16" "xb = (s + 2) mod 16" "xc = (s + 8) mod 16" "xd = (s + 13) mod 16"
  shows "Q (case BODY_60_79 t a b c d e xa xb xc xd X of (f', b', X') \<Rightarrow> k f' b' X')
    (foldl (fips_sha1_round W) (a, b, c, d, e) [s..<n])"
proof (rule sha1_chain_eq [where Q = Q and k = k and W = W and s = s])
  have "xa < length X" using assms(2,9) by (simp add: ring_def)
  then show "BODY_60_79 t a b c d e xa xb xc xd X = (let f = Xupdate (X ! xa) (X ! xb) (X ! xc) (X ! xd)
        in (f + e + fips_sha1_K s + word_rotl 5 a + fips_sha1_f s b c d, word_rotl 30 b, X[xa := f]))"
    using assms(5,8) unfolding assms(4) [symmetric] by (intro sha1_body_60_79)
  show "16 \<le> s" using assms(5) by simp
qed (rule assms, assumption?)+

text \<open>
  Where the six variables of the code stand for the five of the reference before round \<open>t\<close>; one of the
  six is dead.
\<close>

fun sha1_view :: "nat \<Rightarrow> regs6 \<Rightarrow> regs5" where
  "sha1_view t (A, B, C, D, E, T) =
     (if t mod 6 = 0 then (A, B, C, D, E) else if t mod 6 = 1 then (T, A, B, C, D)
      else if t mod 6 = 2 then (E, T, A, B, C) else if t mod 6 = 3 then (D, E, T, A, B)
      else if t mod 6 = 4 then (C, D, E, T, A) else (B, C, D, E, T))"

definition sha1_sim :: "u32 list \<Rightarrow> nat \<Rightarrow> regs6 \<times> u32 list \<Rightarrow> regs5 \<Rightarrow> bool" where
  "sha1_sim W t z s \<longleftrightarrow> s = sha1_view t (fst z) \<and> ring W t (snd z)"

lemma regs6_ring: "\<exists>A B C D E T X. z = ((A, B, C, D, E, T), X)"
  by (metis surj_pair)

lemma sha1_part_00_15:
  assumes "ring W 16 X" "\<And>t. t < 16 \<Longrightarrow> W ! t = X ! t"
  shows "sha1_sim W 16 (sha1_rounds_00_15 X r, X) (foldl (fips_sha1_round W) r [0..<16])"
proof -
  obtain a b c d e where r: "r = (a, b, c, d, e)" by (cases r)
  note chain = sha1_chain_00_15 [where W = W and Q = "\<lambda>z. sha1_sim W 16 (z, X)"]
  show ?thesis
    unfolding sha1_rounds_00_15_def r Let_def prod.case
    by ((rule chain)+, simp_all add: assms sha1_sim_def)
qed

lemma sha1_part_16_19:
  assumes "length W = 80" "sha1_recurrence W" "sha1_sim W 16 z s"
  shows "sha1_sim W 20 (sha1_rounds_16_19 z) (foldl (fips_sha1_round W) s [16..<20])"
proof -
  obtain A B C D E T X where z: "z = ((A, B, C, D, E, T), X)" using regs6_ring [of z] by blast
  note chain = sha1_chain [OF sha1_bodies(1), where W = W and n = 20 and Q = "sha1_sim W 20"]
  have s: "s = (C, D, E, T, A)" and X: "ring W 16 X"
    using assms(3) by (simp_all add: sha1_sim_def z)
  show ?thesis
    unfolding sha1_rounds_16_19_def z s Let_def prod.case
    by ((rule chain)+, simp_all add: assms X sha1_sim_def)
qed

lemma sha1_part_20_31:
  assumes "length W = 80" "sha1_recurrence W" "sha1_sim W 20 z s"
  shows "sha1_sim W 32 (sha1_rounds_20_31 z) (foldl (fips_sha1_round W) s [20..<32])"
proof -
  obtain A B C D E T X where z: "z = ((A, B, C, D, E, T), X)" using regs6_ring [of z] by blast
  note chain = sha1_chain [OF sha1_bodies(2), where W = W and n = 32 and Q = "sha1_sim W 32"]
  have s: "s = (E, T, A, B, C)" and X: "ring W 20 X"
    using assms(3) by (simp_all add: sha1_sim_def z)
  show ?thesis
    unfolding sha1_rounds_20_31_def z s Let_def prod.case
    by ((rule chain)+, simp_all add: assms X sha1_sim_def)
qed

lemma sha1_part_32_39:
  assumes "length W = 80" "sha1_recurrence W" "sha1_sim W 32 z s"
  shows "sha1_sim W 40 (sha1_rounds_32_39 z) (foldl (fips_sha1_round W) s [32..<40])"
proof -
  obtain A B C D E T X where z: "z = ((A, B, C, D, E, T), X)" using regs6_ring [of z] by blast
  note chain = sha1_chain [OF sha1_bodies(3), where W = W and n = 40 and Q = "sha1_sim W 40"]
  have s: "s = (E, T, A, B, C)" and X: "ring W 32 X"
    using assms(3) by (simp_all add: sha1_sim_def z)
  show ?thesis
    unfolding sha1_rounds_32_39_def z s Let_def prod.case
    by ((rule chain)+, simp_all add: assms X sha1_sim_def)
qed

lemma sha1_part_40_59:
  assumes "length W = 80" "sha1_recurrence W" "sha1_sim W 40 z s"
  shows "sha1_sim W 60 (sha1_rounds_40_59 z) (foldl (fips_sha1_round W) s [40..<60])"
proof -
  obtain A B C D E T X where z: "z = ((A, B, C, D, E, T), X)" using regs6_ring [of z] by blast
  note chain = sha1_chain [OF sha1_bodies(4), where W = W and n = 60 and Q = "sha1_sim W 60"]
  have s: "s = (C, D, E, T, A)" and X: "ring W 40 X"
    using assms(3) by (simp_all add: sha1_sim_def z)
  show ?thesis
    unfolding sha1_rounds_40_59_def z s Let_def prod.case
    by ((rule chain)+, simp_all add: assms X sha1_sim_def)
qed

lemma sha1_part_60_79:
  assumes "length W = 80" "sha1_recurrence W" "sha1_sim W 60 z s"
  shows "sha1_sim W 80 (sha1_rounds_60_79 z) (foldl (fips_sha1_round W) s [60..<80])"
proof -
  obtain A B C D E T X where z: "z = ((A, B, C, D, E, T), X)" using regs6_ring [of z] by blast
  note chain = sha1_chain_60_79 [where W = W and n = 80 and Q = "sha1_sim W 80"]
  have s: "s = (A, B, C, D, E)" and X: "ring W 60 X"
    using assms(3) by (simp_all add: sha1_sim_def z)
  show ?thesis
    unfolding sha1_rounds_60_79_def z s Let_def prod.case
    by ((rule chain)+, simp_all add: assms X sha1_sim_def)
qed

lemma sha1_block_fips:
  assumes "64 \<le> length d"
  shows "sha1_block H d = fips_sha1_block H d"
proof -
  define M where "M = map (\<lambda>j. CRYPTO_load_u32_be (drop (4 * j) d)) [0..<16]"
  define W where "W = fips_sha1_schedule M 64"
  have M: "M = map (\<lambda>j. load_be (take 4 (drop (4 * j) d))) [0..<16]"
    using assms by (simp add: M_def load_u32_be)
  have len: "length M = 16" by (simp add: M_def)
  have first: "W ! t = M ! t" if "t < 16" for t using that len by (simp add: W_def fips_sha1_schedule_words)
  have W: "length W = 80" "sha1_recurrence W" "ring W 16 M"
    using len first by (auto simp: W_def intro: fips_sha1_schedule_recurrence intro!: ring_start)
  define r where "r = (H ! 0, H ! 1, H ! 2, H ! 3, H ! 4)"
  define z where "z = sha1_rounds_60_79 (sha1_rounds_40_59 (sha1_rounds_32_39 (sha1_rounds_20_31
              (sha1_rounds_16_19 (sha1_rounds_00_15 M r, M)))))"
  have "sha1_sim W 80 z (foldl (fips_sha1_round W) r
      ([0..<16] @ [16..<20] @ [20..<32] @ [32..<40] @ [40..<60] @ [60..<80]))"
    unfolding z_def foldl_append
    by (intro sha1_part_60_79 sha1_part_40_59 sha1_part_32_39 sha1_part_20_31 sha1_part_16_19
        sha1_part_00_15 W first)
  then have "sha1_sim W 80 z (foldl (fips_sha1_round W) r [0..<80])"
    by (simp add: upt_append del: upt_rec_numeral foldl_append)
  moreover obtain A B C D E T X where "z = ((A, B, C, D, E, T), X)" using regs6_ring [of z] by blast
  ultimately show ?thesis
    unfolding sha1_block_def fips_sha1_block_def Let_def M_def [symmetric] M [symmetric]
      W_def [symmetric] r_def [symmetric] z_def [symmetric]
    by (simp add: sha1_sim_def)
qed

section \<open>SHA-1 as a whole\<close>

lemma sha1_blocks_one: "sha1_block_data_order h d 1 = sha1_block h d"
  by (simp add: sha1_block_data_order_def)

interpretation sha1md: md32_hash sha1_block_data_order SHA_CBLOCK
proof unfold_locales
  show "(8 :: nat) < 64" "(64 :: nat) < 2 ^ 32" by simp_all
  show "sha1_block_data_order h d (Suc (Suc n))
      = sha1_block_data_order (sha1_block_data_order h d 1) (drop 64 d) (Suc n)" for h d n
    by (simp add: sha1_block_data_order_def)
  fix d e :: bytes and h assume d: "length d = 64"
  have "map (\<lambda>j. load_be (take 4 (drop (4 * j) (d @ e))) :: u32) [0..<16]
      = map (\<lambda>j. load_be (take 4 (drop (4 * j) d))) [0..<16]"
    using d by (intro map_cong refl) (auto simp: take_drop_append)
  then have "fips_sha1_block h (d @ e) = fips_sha1_block h d"
    by (simp only: fips_sha1_block_def)
  then show "sha1_block_data_order h (d @ e) 1 = sha1_block_data_order h d 1"
    using d unfolding sha1_blocks_one by (simp add: sha1_block_fips)
qed

definition fips_sha1 :: "bytes \<Rightarrow> bytes" where
  "fips_sha1 m =
     (let H = md_hash fips_sha1_block 64 8 (be_bytes 8)
        [0x67452301, 0xefcdab89, 0x98badcfe, 0x10325476, 0xc3d2e1f0] m
      in concat (map (\<lambda>i. be_bytes 4 (unat (H ! i))) [0, 1, 2, 3, 4]))"

lemma md32_hash_cong:
  assumes "\<And>h d. length d = 64 \<Longrightarrow> md_step blocks h d = f h d"
  shows "md_hash (md_step blocks) 64 8 enc iv m = md_hash f 64 8 enc iv m"
  unfolding md_hash_def by (rule absorb_cong) (simp_all add: assms)

lemma md32_length_True: "md32_length True = be_bytes 8" and md32_length_False: "md32_length False = le_bytes 8"
  by (simp_all add: fun_eq_iff md32_length_def)

lemma sha1_init_tracks: "md32_tracks sha1_block_data_order 64 (md_h SHA1_Init) [] SHA1_Init"
  by (auto simp: md32_tracks_def bit_count_def SHA1_Init_def intro: tracks_empty)

lemma SHA1_Update_md32: "SHA1_Update = crypto_md32_update sha1_block_data_order 64"
  by (simp add: fun_eq_iff SHA1_Update_def)

lemma sha1_final_tracks:
  assumes "md32_tracks sha1_block_data_order 64 (md_h SHA1_Init) m c"
  shows "fst (SHA1_Final c) = fips_sha1 m"
proof -
  have "md_hash (md_step sha1_block_data_order) 64 8 enc iv m = md_hash fips_sha1_block 64 8 enc iv m"
    for enc iv m
    by (rule md32_hash_cong) (simp add: md_step_def sha1_blocks_one [simplified] sha1_block_fips)
  with sha1md.final_hash [OF assms, of True] show ?thesis
    by (simp add: SHA1_Final_def Let_def sha1_output_state_def fips_sha1_def store_u32_be
        md32_length_True SHA1_Init_def)
qed

text \<open>C31 SHA-1 in any number of calls is the SHA-1 of FIPS 180-4 of the whole message: the eighty
  unrolled rounds, which rotate the names of six variables, do the steps of the standard.\<close>
theorem sha1_stream:
  assumes "\<forall>x \<in> set xs. length x < size_mod"
  shows "fst (SHA1_Final (foldl SHA1_Update SHA1_Init xs)) = fips_sha1 (concat xs)"
  using sha1_final_tracks sha1md.stream_tracks [OF sha1_init_tracks assms]
  by (simp add: SHA1_Update_md32)

lemma sha1_stream_witness:
  "fst (SHA1_Final (SHA1_Update (SHA1_Update SHA1_Init [0x61, 0x62]) [0x63])) = fips_sha1 [0x61, 0x62, 0x63]"
  using sha1_stream [of "[[0x61, 0x62], [0x63]]"] by (simp add: size_mod_def)

section \<open>The generator of FIPS 186-2\<close>

text \<open>
  \<open>CRYPTO_fips_186_2_prf\<close>: \<open>block\<close> holds the 160-bit value XKEY, padded to a block. The carry runs from
  the last word to the first.
\<close>

fun prf_add :: "u32 list \<Rightarrow> nat \<Rightarrow> u32 \<Rightarrow> bytes \<Rightarrow> bytes" where
  "prf_add h 0 carry block = block"
| "prf_add h (Suc i) carry block =
     (let tmp = CRYPTO_load_u32_be (drop (i * 4) block);
          (tmp, carry) = CRYPTO_addc_u32 tmp (h ! i) carry
      in prf_add h i carry (memcpy_at block (i * 4) (CRYPTO_store_u32_be tmp)))"

function fips_186_2_loop :: "bytes \<Rightarrow> nat \<Rightarrow> bytes" where
  "fips_186_2_loop block out_len =
     (if out_len = 0 then []
      else
        let ctx = SHA1_Transform SHA1_Init block;
            block = prf_add (md_h ctx) 5 1 block
        in if out_len < SHA_DIGEST_LENGTH then take out_len (sha1_output_state ctx)
           else sha1_output_state ctx @ fips_186_2_loop block (out_len - SHA_DIGEST_LENGTH))"
  by pat_completeness auto
termination
  by (relation "measure snd") auto

definition CRYPTO_fips_186_2_prf :: "nat \<Rightarrow> bytes \<Rightarrow> bytes" where
  "CRYPTO_fips_186_2_prf out_len xkey =
     fips_186_2_loop (memcpy_at (replicate 64 0) 0 (take SHA_DIGEST_LENGTH xkey)) out_len"

lemma addc_u32:
  assumes "unat carry \<le> 1" "CRYPTO_addc_u32 x y carry = (s, c)"
  shows "unat s + 2 ^ 32 * unat c = unat x + unat y + unat carry" and "unat c \<le> 1"
proof -
  define ret :: u64 where "ret = ucast carry + (ucast x + ucast y)"
  have b: "unat x < 2 ^ 32" "unat y < 2 ^ 32"
    using unsigned_less [of x, where ?'a = nat] unsigned_less [of y, where ?'a = nat] by simp_all
  have u: "unat (ucast v :: u64) = unat v" for v :: u32
    using unsigned_less [of v, where ?'a = nat] by (simp add: unsigned_ucast_eq take_bit_nat_eq_self)
  have ret: "unat ret = unat x + unat y + unat carry"
    using b assms(1) by (simp add: ret_def unat_word_ariths u)
  have s: "unat s = unat ret mod 2 ^ 32" and c: "unat c = unat ret div 2 ^ 32"
  proof -
    have sc: "s = ucast ret" "c = ucast (drop_bit 32 ret)"
      using assms(2) by (simp_all add: CRYPTO_addc_u32_def Let_def ret_def)
    have low: "unat (ucast v :: u32) = unat v mod 2 ^ 32" for v :: u64
      by (simp add: unsigned_ucast_eq take_bit_eq_mod)
    have high: "unat (drop_bit 32 ret) = unat ret div 2 ^ 32"
      unfolding unat_drop_bit_eq by (rule drop_bit_eq_div)
    show "unat s = unat ret mod 2 ^ 32" by (simp only: sc low)
    have "unat ret div 2 ^ 32 < 2 ^ 32" using unsigned_less [of ret, where ?'a = nat] by simp
    then show "unat c = unat ret div 2 ^ 32" by (simp only: sc low high mod_less)
  qed
  show "unat s + 2 ^ 32 * unat c = unat x + unat y + unat carry"
    unfolding s c ret [symmetric] by (rule mod_mult_div_eq)
  show "unat c \<le> 1" unfolding c ret using b assms(1) by simp
qed

definition words_be :: "u32 list \<Rightarrow> bytes" where
  "words_be ws = concat (map (\<lambda>w. be_bytes 4 (unat w)) ws)"

lemma length_words_be [simp]: "length (words_be ws) = 4 * length ws"
  by (induction ws) (simp_all add: words_be_def)

lemma words_be_snoc: "be_value (words_be (ws @ [w])) = be_value (words_be ws) * 2 ^ 32 + unat w"
  using unsigned_less [of w, where ?'a = nat] by (simp add: words_be_def byte_simps)

lemma be_bytes_join: "v < 256 ^ n \<Longrightarrow> be_bytes (m + n) (u * 256 ^ n + v) = be_bytes m u @ be_bytes n v"
proof (rule be_value_inj)
  assume "v < 256 ^ n"
  then have "u mod 256 ^ m * 256 ^ n + v = (u * 256 ^ n + v) mod (256 ^ n * 256 ^ m)" by (rule mod_digit)
  with \<open>v < 256 ^ n\<close> show "be_value (be_bytes (m + n) (u * 256 ^ n + v)) = be_value (be_bytes m u @ be_bytes n v)"
    by (simp add: byte_simps power_add mult.commute)
qed simp

lemma prf_add_value:
  assumes "4 * i \<le> length block" "i \<le> length h" "unat carry \<le> 1"
  shows "prf_add h i carry block
    = be_bytes (4 * i) (be_value (take (4 * i) block) + be_value (words_be (take i h)) + unat carry)
      @ drop (4 * i) block"
  using assms
proof (induction i arbitrary: carry block)
  case (Suc i)
  define x where "x = CRYPTO_load_u32_be (drop (i * 4) block)"
  obtain s c where sc: "CRYPTO_addc_u32 x (h ! i) carry = (s, c)" by (cases "CRYPTO_addc_u32 x (h ! i) carry")
  note add = addc_u32 [OF Suc.prems(3) sc]
  define b' where "b' = memcpy_at block (i * 4) (be_bytes 4 (unat s))"
  have b': "take (4 * i) b' = take (4 * i) block" "drop (4 * i) b' = be_bytes 4 (unat s) @ drop (4 * Suc i) block"
    "length b' = length block"
    using Suc.prems(1) by (simp_all add: b'_def memcpy_at_def ac_simps)
  have x: "x = load_be (take 4 (drop (4 * i) block))"
    using Suc.prems(1) by (simp add: x_def load_u32_be mult.commute)
  have ux: "unat x = be_value (take 4 (drop (4 * i) block))"
    unfolding x by (rule unat_load_be_exact) simp_all
  have "take (4 * Suc i) block = take (4 * i) block @ take 4 (drop (4 * i) block)"
    using take_add [of "4 * i" 4 block] by (simp add: add.commute)
  then have blk: "be_value (take (4 * Suc i) block) = be_value (take (4 * i) block) * 2 ^ 32 + unat x"
    using Suc.prems(1) by (simp add: byte_simps ux)
  have hw: "be_value (words_be (take (Suc i) h)) = be_value (words_be (take i h)) * 2 ^ 32 + unat (h ! i)"
    using Suc.prems(2) by (simp add: take_Suc_conv_app_nth words_be_snoc)
  define hi where "hi = be_value (take (4 * i) block) + be_value (words_be (take i h)) + unat c"
  have sum: "be_value (take (4 * Suc i) block) + be_value (words_be (take (Suc i) h)) + unat carry
      = hi * 2 ^ 32 + unat s"
    using add(1) unfolding blk hw hi_def by (simp add: algebra_simps)
  have s: "unat s < 2 ^ 32" using unsigned_less [of s, where ?'a = nat] by simp
  have "be_bytes (4 * Suc i) (hi * 2 ^ 32 + unat s) = be_bytes (4 * i) hi @ be_bytes 4 (unat s)"
    using be_bytes_join [of "unat s" 4 "4 * i" hi] s by (simp add: add.commute)
  moreover have "prf_add h (Suc i) carry block = prf_add h i c b'"
    by (simp add: sc store_u32_be flip: x_def b'_def)
  moreover have "prf_add h i c b' = be_bytes (4 * i) hi @ be_bytes 4 (unat s) @ drop (4 * Suc i) block"
    using Suc.IH [of b' c] Suc.prems add(2) b' by (simp add: hi_def)
  ultimately show ?case unfolding sum by simp
qed simp

text \<open>
  The reference: a state of 160 bits; each step outputs the compression of the state, padded with
  zeros to a block, and adds the output and one to the state.
\<close>

definition fips186_w :: "nat \<Rightarrow> bytes" where
  "fips186_w x = words_be (fips_sha1_block (md_h SHA1_Init) (be_bytes 20 x @ replicate 44 0))"

primrec fips186_stream :: "nat \<Rightarrow> nat \<Rightarrow> bytes" where
  "fips186_stream 0 x = []"
| "fips186_stream (Suc n) x =
     fips186_w x @ fips186_stream n ((1 + x + be_value (fips186_w x)) mod 2 ^ 160)"

lemma length_fips186_w [simp]: "length (fips186_w x) = 20"
  by (simp add: fips186_w_def fips_sha1_block_def Let_def split: prod.split)

declare fips_186_2_loop.simps [simp del]

lemma fips_186_2_loop_stream:
  "fips_186_2_loop (be_bytes 20 x @ replicate 44 0) n = take n (fips186_stream (Suc (n div 20)) x)"
proof (induction n arbitrary: x rule: less_induct)
  case (less n)
  define blk where "blk = be_bytes 20 x @ replicate 44 (0 :: u8)"
  define ctx where "ctx = SHA1_Transform SHA1_Init blk"
  have len: "length blk = 64" by (simp add: blk_def)
  have "length (fips_sha1_block (md_h SHA1_Init) blk) = 5"
    by (simp add: fips_sha1_block_def Let_def split: prod.split)
  then obtain a b c d e where ws: "fips_sha1_block (md_h SHA1_Init) blk = [a, b, c, d, e]"
    by (auto simp: numeral_eq_Suc length_Suc_conv)
  have h: "md_h ctx = fips_sha1_block (md_h SHA1_Init) blk"
    by (simp add: ctx_def SHA1_Transform_def sha1_blocks_one [simplified] sha1_block_fips len)
  have out: "sha1_output_state ctx = fips186_w x"
    unfolding sha1_output_state_def fips186_w_def h blk_def [symmetric] ws
    by (simp add: words_be_def store_u32_be)
  have "prf_add (md_h ctx) 5 1 blk
      = be_bytes 20 (be_value (take 20 blk) + be_value (fips186_w x) + 1) @ drop 20 blk"
    using prf_add_value [of 5 blk "md_h ctx" 1] len
    by (simp add: h fips186_w_def ws flip: blk_def)
  also have "be_value (take 20 blk) = x mod 256 ^ 20" by (simp add: blk_def be_value_be_bytes)
  also have "be_bytes 20 (x mod 256 ^ 20 + be_value (fips186_w x) + 1)
      = be_bytes 20 ((1 + x + be_value (fips186_w x)) mod 2 ^ 160)"
  proof -
    have "(x mod 256 ^ 20 + (be_value (fips186_w x) + 1)) mod 256 ^ 20
        = (x + (be_value (fips186_w x) + 1)) mod 256 ^ 20" by (rule mod_add_left_eq)
    then have "be_bytes 20 (x mod 256 ^ 20 + (be_value (fips186_w x) + 1))
        = be_bytes 20 ((x + (be_value (fips186_w x) + 1)) mod 256 ^ 20)"
      using be_bytes_mod [of 20 "x mod 256 ^ 20 + (be_value (fips186_w x) + 1)"] by simp
    then show ?thesis by (simp add: ac_simps)
  qed
  also have "drop 20 blk = replicate 44 0" by (simp add: blk_def)
  finally have nxt: "prf_add (md_h ctx) 5 1 blk
      = be_bytes 20 ((1 + x + be_value (fips186_w x)) mod 2 ^ 160) @ replicate 44 0" .
  have step: "fips_186_2_loop blk n = (if n = 0 then [] else if n < 20 then take n (fips186_w x)
      else fips186_w x @ fips_186_2_loop (be_bytes 20 ((1 + x + be_value (fips186_w x)) mod 2 ^ 160) @ replicate 44 0) (n - 20))"
    by (subst fips_186_2_loop.simps) (simp add: Let_def out nxt flip: ctx_def)
  show ?case
  proof (cases "n < 20")
    case True
    then show ?thesis unfolding blk_def [symmetric] step by simp
  next
    case False
    then have "n div 20 = Suc ((n - 20) div 20)" by (simp add: le_div_geq)
    then show ?thesis
      unfolding blk_def [symmetric] step using False less.IH [of "n - 20"] by simp
  qed
qed

text \<open>C32 The generator \<open>CRYPTO_fips_186_2_prf\<close> outputs, for any length, the prefix of the stream that
  FIPS 186-2 defines: the carry chain over five words adds the output and one to the 160-bit state
  modulo \<open>2 ^ 160\<close>.\<close>
theorem fips_186_2_prf_stream:
  assumes "length xkey = 20"
  shows "CRYPTO_fips_186_2_prf out_len xkey
    = take out_len (fips186_stream (Suc (out_len div 20)) (be_value xkey))"
proof -
  have "memcpy_at (replicate 64 0) 0 (take 20 xkey) = be_bytes 20 (be_value xkey) @ replicate 44 (0 :: u8)"
    using assms be_bytes_of [OF assms] by (simp add: memcpy_at_def)
  then show ?thesis
    using fips_186_2_loop_stream [of "be_value xkey" out_len] by (simp add: CRYPTO_fips_186_2_prf_def)
qed

lemma fips_186_2_prf_stream_witness:
  "CRYPTO_fips_186_2_prf 50 (replicate 20 9)
    = take 50 (fips186_stream 3 (be_value (replicate 20 9)))"
  using fips_186_2_prf_stream [of "replicate 20 9" 50] by (simp add: numeral_3_eq_3)

end
