(* ===== verification/MD5_MD4.thy ===== *)
theory MD5_MD4
  imports SHA1
begin

text \<open>
  \<open>crypto/fipsmodule/md5/md5.c\<close> and \<open>md4/md4.c\<close>, portable branch: the calls of the round macros as the
  code unrolls them, against the loops of RFC 1321 and RFC 1320. Both are little-endian users of the
  collector \<^theory_text>\<open>Digest_MD32\<close>.
\<close>

type_synonym regs4 = "u32 \<times> u32 \<times> u32 \<times> u32"

section \<open>MD5\<close>

type_synonym MD5_CTX = md32_ctx

definition MD5_Init :: MD5_CTX where
  "MD5_Init = \<lparr>md_h = [0x67452301, 0xefcdab89, 0x98badcfe, 0x10325476],
     md_Nl = 0, md_Nh = 0, md_data = replicate 64 0, md_num = 0\<rparr>"

definition md5_F :: "u32 \<Rightarrow> u32 \<Rightarrow> u32 \<Rightarrow> u32" where
  "md5_F b c d = ((c XOR d) AND b) XOR d"

definition md5_G :: "u32 \<Rightarrow> u32 \<Rightarrow> u32 \<Rightarrow> u32" where
  "md5_G b c d = ((b XOR c) AND d) XOR c"

definition md5_H :: "u32 \<Rightarrow> u32 \<Rightarrow> u32 \<Rightarrow> u32" where
  "md5_H b c d = b XOR c XOR d"

definition md5_I :: "u32 \<Rightarrow> u32 \<Rightarrow> u32 \<Rightarrow> u32" where
  "md5_I b c d = (NOT d OR b) XOR c"

definition md5_R0 :: "u32 \<Rightarrow> u32 \<Rightarrow> u32 \<Rightarrow> u32 \<Rightarrow> u32 \<Rightarrow> nat \<Rightarrow> u32 \<Rightarrow> u32" where
  "md5_R0 a b c d k s t = (let a = a + (k + t + md5_F b c d);
          a = CRYPTO_rotl_u32 a s
      in a + b)"

definition md5_R1 :: "u32 \<Rightarrow> u32 \<Rightarrow> u32 \<Rightarrow> u32 \<Rightarrow> u32 \<Rightarrow> nat \<Rightarrow> u32 \<Rightarrow> u32" where
  "md5_R1 a b c d k s t = (let a = a + (k + t + md5_G b c d);
          a = CRYPTO_rotl_u32 a s
      in a + b)"

definition md5_R2 :: "u32 \<Rightarrow> u32 \<Rightarrow> u32 \<Rightarrow> u32 \<Rightarrow> u32 \<Rightarrow> nat \<Rightarrow> u32 \<Rightarrow> u32" where
  "md5_R2 a b c d k s t = (let a = a + (k + t + md5_H b c d);
          a = CRYPTO_rotl_u32 a s
      in a + b)"

definition md5_R3 :: "u32 \<Rightarrow> u32 \<Rightarrow> u32 \<Rightarrow> u32 \<Rightarrow> u32 \<Rightarrow> nat \<Rightarrow> u32 \<Rightarrow> u32" where
  "md5_R3 a b c d k s t = (let a = a + (k + t + md5_I b c d);
          a = CRYPTO_rotl_u32 a s
      in a + b)"

definition md5_round_0 :: "u32 list \<Rightarrow> regs4 \<Rightarrow> regs4" where
  "md5_round_0 X r =
     (let (A, B, C, D) = r;
          A = md5_R0 A B C D (X ! 0) 7 0xd76aa478;
          D = md5_R0 D A B C (X ! 1) 12 0xe8c7b756;
          C = md5_R0 C D A B (X ! 2) 17 0x242070db;
          B = md5_R0 B C D A (X ! 3) 22 0xc1bdceee;
          A = md5_R0 A B C D (X ! 4) 7 0xf57c0faf;
          D = md5_R0 D A B C (X ! 5) 12 0x4787c62a;
          C = md5_R0 C D A B (X ! 6) 17 0xa8304613;
          B = md5_R0 B C D A (X ! 7) 22 0xfd469501;
          A = md5_R0 A B C D (X ! 8) 7 0x698098d8;
          D = md5_R0 D A B C (X ! 9) 12 0x8b44f7af;
          C = md5_R0 C D A B (X ! 10) 17 0xffff5bb1;
          B = md5_R0 B C D A (X ! 11) 22 0x895cd7be;
          A = md5_R0 A B C D (X ! 12) 7 0x6b901122;
          D = md5_R0 D A B C (X ! 13) 12 0xfd987193;
          C = md5_R0 C D A B (X ! 14) 17 0xa679438e;
          B = md5_R0 B C D A (X ! 15) 22 0x49b40821
      in (A, B, C, D))"

definition md5_round_1 :: "u32 list \<Rightarrow> regs4 \<Rightarrow> regs4" where
  "md5_round_1 X r =
     (let (A, B, C, D) = r;
          A = md5_R1 A B C D (X ! 1) 5 0xf61e2562;
          D = md5_R1 D A B C (X ! 6) 9 0xc040b340;
          C = md5_R1 C D A B (X ! 11) 14 0x265e5a51;
          B = md5_R1 B C D A (X ! 0) 20 0xe9b6c7aa;
          A = md5_R1 A B C D (X ! 5) 5 0xd62f105d;
          D = md5_R1 D A B C (X ! 10) 9 0x02441453;
          C = md5_R1 C D A B (X ! 15) 14 0xd8a1e681;
          B = md5_R1 B C D A (X ! 4) 20 0xe7d3fbc8;
          A = md5_R1 A B C D (X ! 9) 5 0x21e1cde6;
          D = md5_R1 D A B C (X ! 14) 9 0xc33707d6;
          C = md5_R1 C D A B (X ! 3) 14 0xf4d50d87;
          B = md5_R1 B C D A (X ! 8) 20 0x455a14ed;
          A = md5_R1 A B C D (X ! 13) 5 0xa9e3e905;
          D = md5_R1 D A B C (X ! 2) 9 0xfcefa3f8;
          C = md5_R1 C D A B (X ! 7) 14 0x676f02d9;
          B = md5_R1 B C D A (X ! 12) 20 0x8d2a4c8a
      in (A, B, C, D))"

definition md5_round_2 :: "u32 list \<Rightarrow> regs4 \<Rightarrow> regs4" where
  "md5_round_2 X r =
     (let (A, B, C, D) = r;
          A = md5_R2 A B C D (X ! 5) 4 0xfffa3942;
          D = md5_R2 D A B C (X ! 8) 11 0x8771f681;
          C = md5_R2 C D A B (X ! 11) 16 0x6d9d6122;
          B = md5_R2 B C D A (X ! 14) 23 0xfde5380c;
          A = md5_R2 A B C D (X ! 1) 4 0xa4beea44;
          D = md5_R2 D A B C (X ! 4) 11 0x4bdecfa9;
          C = md5_R2 C D A B (X ! 7) 16 0xf6bb4b60;
          B = md5_R2 B C D A (X ! 10) 23 0xbebfbc70;
          A = md5_R2 A B C D (X ! 13) 4 0x289b7ec6;
          D = md5_R2 D A B C (X ! 0) 11 0xeaa127fa;
          C = md5_R2 C D A B (X ! 3) 16 0xd4ef3085;
          B = md5_R2 B C D A (X ! 6) 23 0x04881d05;
          A = md5_R2 A B C D (X ! 9) 4 0xd9d4d039;
          D = md5_R2 D A B C (X ! 12) 11 0xe6db99e5;
          C = md5_R2 C D A B (X ! 15) 16 0x1fa27cf8;
          B = md5_R2 B C D A (X ! 2) 23 0xc4ac5665
      in (A, B, C, D))"

definition md5_round_3 :: "u32 list \<Rightarrow> regs4 \<Rightarrow> regs4" where
  "md5_round_3 X r =
     (let (A, B, C, D) = r;
          A = md5_R3 A B C D (X ! 0) 6 0xf4292244;
          D = md5_R3 D A B C (X ! 7) 10 0x432aff97;
          C = md5_R3 C D A B (X ! 14) 15 0xab9423a7;
          B = md5_R3 B C D A (X ! 5) 21 0xfc93a039;
          A = md5_R3 A B C D (X ! 12) 6 0x655b59c3;
          D = md5_R3 D A B C (X ! 3) 10 0x8f0ccc92;
          C = md5_R3 C D A B (X ! 10) 15 0xffeff47d;
          B = md5_R3 B C D A (X ! 1) 21 0x85845dd1;
          A = md5_R3 A B C D (X ! 8) 6 0x6fa87e4f;
          D = md5_R3 D A B C (X ! 15) 10 0xfe2ce6e0;
          C = md5_R3 C D A B (X ! 6) 15 0xa3014314;
          B = md5_R3 B C D A (X ! 13) 21 0x4e0811a1;
          A = md5_R3 A B C D (X ! 4) 6 0xf7537e82;
          D = md5_R3 D A B C (X ! 11) 10 0xbd3af235;
          C = md5_R3 C D A B (X ! 2) 15 0x2ad7d2bb;
          B = md5_R3 B C D A (X ! 9) 21 0xeb86d391
      in (A, B, C, D))"

text \<open>One turn of the loop: the words of the block are loaded, and the result is added to the state.\<close>

definition md5_block :: "u32 list \<Rightarrow> bytes \<Rightarrow> u32 list" where
  "md5_block state data =
     (let X = map (\<lambda>j. CRYPTO_load_u32_le (drop (4 * j) data)) [0..<16];
          (A, B, C, D) = (state ! 0, state ! 1, state ! 2, state ! 3);
          (A, B, C, D) = md5_round_3 X (md5_round_2 X (md5_round_1 X (md5_round_0 X (A, B, C, D))))
      in [state ! 0 + A, state ! 1 + B, state ! 2 + C, state ! 3 + D])"

primrec md5_block_loop :: "nat \<Rightarrow> u32 list \<Rightarrow> bytes \<Rightarrow> u32 list" where
  "md5_block_loop 0 state data = state"
| "md5_block_loop (Suc num) state data = md5_block_loop num (md5_block state data) (drop 64 data)"

definition md5_block_data_order :: md32_block_func where
  "md5_block_data_order state data num = md5_block_loop num state data"

definition MD5_Transform :: "MD5_CTX \<Rightarrow> bytes \<Rightarrow> MD5_CTX" where
  "MD5_Transform c data = c\<lparr>md_h := md5_block_data_order (md_h c) data 1\<rparr>"

definition MD5_Update :: "MD5_CTX \<Rightarrow> bytes \<Rightarrow> MD5_CTX" where
  "MD5_Update c data = crypto_md32_update md5_block_data_order 64 c data"

definition MD5_Final :: "MD5_CTX \<Rightarrow> bytes \<times> MD5_CTX" where
  "MD5_Final c =
     (let c = crypto_md32_final md5_block_data_order 64 False c
      in (CRYPTO_store_u32_le (md_h c ! 0) @ CRYPTO_store_u32_le (md_h c ! 1)
          @ CRYPTO_store_u32_le (md_h c ! 2) @ CRYPTO_store_u32_le (md_h c ! 3), c))"

definition MD5 :: "bytes \<Rightarrow> bytes" where
  "MD5 data = fst (MD5_Final (MD5_Update MD5_Init data))"

section \<open>MD4\<close>

type_synonym MD4_CTX = md32_ctx

definition MD4_Init :: MD4_CTX where
  "MD4_Init = \<lparr>md_h = [0x67452301, 0xefcdab89, 0x98badcfe, 0x10325476],
     md_Nl = 0, md_Nh = 0, md_data = replicate 64 0, md_num = 0\<rparr>"

definition md4_F :: "u32 \<Rightarrow> u32 \<Rightarrow> u32 \<Rightarrow> u32" where
  "md4_F b c d = ((c XOR d) AND b) XOR d"

definition md4_G :: "u32 \<Rightarrow> u32 \<Rightarrow> u32 \<Rightarrow> u32" where
  "md4_G b c d = (b AND c) OR (b AND d) OR (c AND d)"

definition md4_H :: "u32 \<Rightarrow> u32 \<Rightarrow> u32 \<Rightarrow> u32" where
  "md4_H b c d = b XOR c XOR d"

definition md4_R0 :: "u32 \<Rightarrow> u32 \<Rightarrow> u32 \<Rightarrow> u32 \<Rightarrow> u32 \<Rightarrow> nat \<Rightarrow> u32 \<Rightarrow> u32" where
  "md4_R0 a b c d k s t = (let a = a + (k + t + md4_F b c d) in CRYPTO_rotl_u32 a s)"

definition md4_R1 :: "u32 \<Rightarrow> u32 \<Rightarrow> u32 \<Rightarrow> u32 \<Rightarrow> u32 \<Rightarrow> nat \<Rightarrow> u32 \<Rightarrow> u32" where
  "md4_R1 a b c d k s t = (let a = a + (k + t + md4_G b c d) in CRYPTO_rotl_u32 a s)"

definition md4_R2 :: "u32 \<Rightarrow> u32 \<Rightarrow> u32 \<Rightarrow> u32 \<Rightarrow> u32 \<Rightarrow> nat \<Rightarrow> u32 \<Rightarrow> u32" where
  "md4_R2 a b c d k s t = (let a = a + (k + t + md4_H b c d) in CRYPTO_rotl_u32 a s)"

definition md4_round_0 :: "u32 list \<Rightarrow> regs4 \<Rightarrow> regs4" where
  "md4_round_0 X r =
     (let (A, B, C, D) = r;
          A = md4_R0 A B C D (X ! 0) 3 0;
          D = md4_R0 D A B C (X ! 1) 7 0;
          C = md4_R0 C D A B (X ! 2) 11 0;
          B = md4_R0 B C D A (X ! 3) 19 0;
          A = md4_R0 A B C D (X ! 4) 3 0;
          D = md4_R0 D A B C (X ! 5) 7 0;
          C = md4_R0 C D A B (X ! 6) 11 0;
          B = md4_R0 B C D A (X ! 7) 19 0;
          A = md4_R0 A B C D (X ! 8) 3 0;
          D = md4_R0 D A B C (X ! 9) 7 0;
          C = md4_R0 C D A B (X ! 10) 11 0;
          B = md4_R0 B C D A (X ! 11) 19 0;
          A = md4_R0 A B C D (X ! 12) 3 0;
          D = md4_R0 D A B C (X ! 13) 7 0;
          C = md4_R0 C D A B (X ! 14) 11 0;
          B = md4_R0 B C D A (X ! 15) 19 0
      in (A, B, C, D))"

definition md4_round_1 :: "u32 list \<Rightarrow> regs4 \<Rightarrow> regs4" where
  "md4_round_1 X r =
     (let (A, B, C, D) = r;
          A = md4_R1 A B C D (X ! 0) 3 0x5A827999;
          D = md4_R1 D A B C (X ! 4) 5 0x5A827999;
          C = md4_R1 C D A B (X ! 8) 9 0x5A827999;
          B = md4_R1 B C D A (X ! 12) 13 0x5A827999;
          A = md4_R1 A B C D (X ! 1) 3 0x5A827999;
          D = md4_R1 D A B C (X ! 5) 5 0x5A827999;
          C = md4_R1 C D A B (X ! 9) 9 0x5A827999;
          B = md4_R1 B C D A (X ! 13) 13 0x5A827999;
          A = md4_R1 A B C D (X ! 2) 3 0x5A827999;
          D = md4_R1 D A B C (X ! 6) 5 0x5A827999;
          C = md4_R1 C D A B (X ! 10) 9 0x5A827999;
          B = md4_R1 B C D A (X ! 14) 13 0x5A827999;
          A = md4_R1 A B C D (X ! 3) 3 0x5A827999;
          D = md4_R1 D A B C (X ! 7) 5 0x5A827999;
          C = md4_R1 C D A B (X ! 11) 9 0x5A827999;
          B = md4_R1 B C D A (X ! 15) 13 0x5A827999
      in (A, B, C, D))"

definition md4_round_2 :: "u32 list \<Rightarrow> regs4 \<Rightarrow> regs4" where
  "md4_round_2 X r =
     (let (A, B, C, D) = r;
          A = md4_R2 A B C D (X ! 0) 3 0x6ED9EBA1;
          D = md4_R2 D A B C (X ! 8) 9 0x6ED9EBA1;
          C = md4_R2 C D A B (X ! 4) 11 0x6ED9EBA1;
          B = md4_R2 B C D A (X ! 12) 15 0x6ED9EBA1;
          A = md4_R2 A B C D (X ! 2) 3 0x6ED9EBA1;
          D = md4_R2 D A B C (X ! 10) 9 0x6ED9EBA1;
          C = md4_R2 C D A B (X ! 6) 11 0x6ED9EBA1;
          B = md4_R2 B C D A (X ! 14) 15 0x6ED9EBA1;
          A = md4_R2 A B C D (X ! 1) 3 0x6ED9EBA1;
          D = md4_R2 D A B C (X ! 9) 9 0x6ED9EBA1;
          C = md4_R2 C D A B (X ! 5) 11 0x6ED9EBA1;
          B = md4_R2 B C D A (X ! 13) 15 0x6ED9EBA1;
          A = md4_R2 A B C D (X ! 3) 3 0x6ED9EBA1;
          D = md4_R2 D A B C (X ! 11) 9 0x6ED9EBA1;
          C = md4_R2 C D A B (X ! 7) 11 0x6ED9EBA1;
          B = md4_R2 B C D A (X ! 15) 15 0x6ED9EBA1
      in (A, B, C, D))"

text \<open>One turn of the loop: the words of the block are loaded, and the result is added to the state.\<close>

definition md4_block :: "u32 list \<Rightarrow> bytes \<Rightarrow> u32 list" where
  "md4_block state data =
     (let X = map (\<lambda>j. CRYPTO_load_u32_le (drop (4 * j) data)) [0..<16];
          (A, B, C, D) = (state ! 0, state ! 1, state ! 2, state ! 3);
          (A, B, C, D) = md4_round_2 X (md4_round_1 X (md4_round_0 X (A, B, C, D)))
      in [state ! 0 + A, state ! 1 + B, state ! 2 + C, state ! 3 + D])"

primrec md4_block_loop :: "nat \<Rightarrow> u32 list \<Rightarrow> bytes \<Rightarrow> u32 list" where
  "md4_block_loop 0 state data = state"
| "md4_block_loop (Suc num) state data = md4_block_loop num (md4_block state data) (drop 64 data)"

definition md4_block_data_order :: md32_block_func where
  "md4_block_data_order state data num = md4_block_loop num state data"

definition MD4_Transform :: "MD4_CTX \<Rightarrow> bytes \<Rightarrow> MD4_CTX" where
  "MD4_Transform c data = c\<lparr>md_h := md4_block_data_order (md_h c) data 1\<rparr>"

definition MD4_Update :: "MD4_CTX \<Rightarrow> bytes \<Rightarrow> MD4_CTX" where
  "MD4_Update c data = crypto_md32_update md4_block_data_order 64 c data"

definition MD4_Final :: "MD4_CTX \<Rightarrow> bytes \<times> MD4_CTX" where
  "MD4_Final c =
     (let c = crypto_md32_final md4_block_data_order 64 False c
      in (CRYPTO_store_u32_le (md_h c ! 0) @ CRYPTO_store_u32_le (md_h c ! 1)
          @ CRYPTO_store_u32_le (md_h c ! 2) @ CRYPTO_store_u32_le (md_h c ! 3), c))"

definition MD4 :: "bytes \<Rightarrow> bytes" where
  "MD4 data = fst (MD4_Final (MD4_Update MD4_Init data))"

section \<open>The references\<close>

text \<open>
  RFC 1321: in step \<open>i\<close> the word \<open>rfc1321_k i\<close> of the block and the constant \<open>rfc1321_T ! i\<close> are added,
  and the sum is rotated by \<open>rfc1321_s i\<close>.
\<close>

definition rfc1321_T :: "u32 list" where
  "rfc1321_T = [0xd76aa478, 0xe8c7b756, 0x242070db, 0xc1bdceee]
     @ [0xf57c0faf, 0x4787c62a, 0xa8304613, 0xfd469501]
     @ [0x698098d8, 0x8b44f7af, 0xffff5bb1, 0x895cd7be]
     @ [0x6b901122, 0xfd987193, 0xa679438e, 0x49b40821]
     @ [0xf61e2562, 0xc040b340, 0x265e5a51, 0xe9b6c7aa]
     @ [0xd62f105d, 0x02441453, 0xd8a1e681, 0xe7d3fbc8]
     @ [0x21e1cde6, 0xc33707d6, 0xf4d50d87, 0x455a14ed]
     @ [0xa9e3e905, 0xfcefa3f8, 0x676f02d9, 0x8d2a4c8a]
     @ [0xfffa3942, 0x8771f681, 0x6d9d6122, 0xfde5380c]
     @ [0xa4beea44, 0x4bdecfa9, 0xf6bb4b60, 0xbebfbc70]
     @ [0x289b7ec6, 0xeaa127fa, 0xd4ef3085, 0x04881d05]
     @ [0xd9d4d039, 0xe6db99e5, 0x1fa27cf8, 0xc4ac5665]
     @ [0xf4292244, 0x432aff97, 0xab9423a7, 0xfc93a039]
     @ [0x655b59c3, 0x8f0ccc92, 0xffeff47d, 0x85845dd1]
     @ [0x6fa87e4f, 0xfe2ce6e0, 0xa3014314, 0x4e0811a1]
     @ [0xf7537e82, 0xbd3af235, 0x2ad7d2bb, 0xeb86d391]"

definition rfc1321_f :: "nat \<Rightarrow> u32 \<Rightarrow> u32 \<Rightarrow> u32 \<Rightarrow> u32" where
  "rfc1321_f i x y z =
     (if i < 16 then (x AND y) OR (NOT x AND z)
      else if i < 32 then (x AND z) OR (y AND NOT z)
      else if i < 48 then x XOR y XOR z
      else y XOR (x OR NOT z))"

definition rfc1321_k :: "nat \<Rightarrow> nat" where
  "rfc1321_k i =
     (if i < 16 then i else if i < 32 then (5 * i + 1) mod 16
      else if i < 48 then (3 * i + 5) mod 16 else 7 * i mod 16)"

definition rfc1321_s :: "nat \<Rightarrow> nat" where
  "rfc1321_s i =
     [[7, 12, 17, 22], [5, 9, 14, 20], [4, 11, 16, 23], [6, 10, 15, 21]] ! (i div 16) ! (i mod 4)"

definition rfc1321_step :: "u32 list \<Rightarrow> regs4 \<Rightarrow> nat \<Rightarrow> regs4" where
  "rfc1321_step X r i =
     (let (a, b, c, d) = r
      in (d, b + word_rotl (rfc1321_s i) (a + rfc1321_f i b c d + X ! rfc1321_k i + rfc1321_T ! i), b, c))"

definition rfc1321_block :: "u32 list \<Rightarrow> bytes \<Rightarrow> u32 list" where
  "rfc1321_block H data =
     (let X = map (\<lambda>j. of_nat (le_value (take 4 (drop (4 * j) data)))) [0..<16];
          (a, b, c, d) = foldl (rfc1321_step X) (H ! 0, H ! 1, H ! 2, H ! 3) [0..<64]
      in [H ! 0 + a, H ! 1 + b, H ! 2 + c, H ! 3 + d])"

text \<open>RFC 1320, with three rounds.\<close>

definition rfc1320_f :: "nat \<Rightarrow> u32 \<Rightarrow> u32 \<Rightarrow> u32 \<Rightarrow> u32" where
  "rfc1320_f i x y z =
     (if i < 16 then (x AND y) OR (NOT x AND z)
      else if i < 32 then (x AND y) OR (x AND z) OR (y AND z)
      else x XOR y XOR z)"

definition rfc1320_k :: "nat \<Rightarrow> nat" where
  "rfc1320_k i =
     (if i < 16 then i else if i < 32 then i mod 4 * 4 + (i div 4 - 4)
      else [0, 8, 4, 12, 2, 10, 6, 14, 1, 9, 5, 13, 3, 11, 7, 15] ! (i - 32))"

definition rfc1320_s :: "nat \<Rightarrow> nat" where
  "rfc1320_s i = [[3, 7, 11, 19], [3, 5, 9, 13], [3, 9, 11, 15]] ! (i div 16) ! (i mod 4)"

definition rfc1320_K :: "nat \<Rightarrow> u32" where
  "rfc1320_K i = (if i < 16 then 0 else if i < 32 then 0x5A827999 else 0x6ED9EBA1)"

definition rfc1320_step :: "u32 list \<Rightarrow> regs4 \<Rightarrow> nat \<Rightarrow> regs4" where
  "rfc1320_step X r i =
     (let (a, b, c, d) = r
      in (d, word_rotl (rfc1320_s i) (a + rfc1320_f i b c d + X ! rfc1320_k i + rfc1320_K i), b, c))"

definition rfc1320_block :: "u32 list \<Rightarrow> bytes \<Rightarrow> u32 list" where
  "rfc1320_block H data =
     (let X = map (\<lambda>j. of_nat (le_value (take 4 (drop (4 * j) data)))) [0..<16];
          (a, b, c, d) = foldl (rfc1320_step X) (H ! 0, H ! 1, H ! 2, H ! 3) [0..<48]
      in [H ! 0 + a, H ! 1 + b, H ! 2 + c, H ! 3 + d])"

lemma load_u32_le: "4 \<le> length p \<Longrightarrow> CRYPTO_load_u32_le p = of_nat (le_value (take 4 p))"
proof -
  assume "4 \<le> length p"
  have "unat (load_be (rev (take 4 p)) :: u32) = be_value (rev (take 4 p))"
    by (rule unat_load_be_exact) simp_all
  also have "\<dots> = le_value (take 4 p)" by (metis le_value_rev rev_rev_ident)
  finally have "of_nat (unat (CRYPTO_load_u32_le p)) = (of_nat (le_value (take 4 p)) :: u32)"
    by (simp only: CRYPTO_load_u32_le_def)
  then show ?thesis by simp
qed

section \<open>The rounds\<close>

text \<open>One call of a macro is one step of the reference, with the roles of the variables shifted.\<close>

definition md_steps ::
  "(u32 \<Rightarrow> u32 \<Rightarrow> u32 \<Rightarrow> u32 \<Rightarrow> u32 \<Rightarrow> nat \<Rightarrow> u32 \<Rightarrow> u32) \<Rightarrow> (u32 list \<Rightarrow> regs4 \<Rightarrow> nat \<Rightarrow> regs4)
    \<Rightarrow> (nat \<Rightarrow> nat) \<Rightarrow> (nat \<Rightarrow> nat) \<Rightarrow> (nat \<Rightarrow> u32) \<Rightarrow> nat \<Rightarrow> nat \<Rightarrow> bool" where
  "md_steps R step k s T lo hi \<longleftrightarrow> (\<forall>i a b c d X. lo \<le> i \<longrightarrow> i < hi \<longrightarrow>
     step X (a, b, c, d) i = (d, R a b c d (X ! k i) (s i) (T i), b, c))"

lemma md_chain:
  assumes R: "md_steps R step k s T lo hi"
    and rest: "\<And>a'. Q (f a') (foldl (step X) (d, a', b, c) [i + 1..<n])"
    and "lo \<le> i" "i < hi" "i < n" "x = X ! k i" "sh = s i" "t = T i"
  shows "Q (Let (R a b c d x sh t) f) (foldl (step X) (a, b, c, d) [i..<n])"
proof -
  have "step X (a, b, c, d) i = (d, R a b c d x sh t, b, c)"
    using R assms(3-) by (auto simp: md_steps_def)
  then show ?thesis using rest [of "R a b c d x sh t"] \<open>i < n\<close> by (simp add: upt_conv_Cons Let_def)
qed

lemma let_regs4: "(let (A, B, C, D) = (a, b, c, d) in f A B C D) = f a b c d"
  by simp

lemma bit_functions:
  "md5_F b c d = (b AND c) OR (NOT b AND d)" "md5_G b c d = (b AND d) OR (c AND NOT d)"
  "md5_I b c d = c XOR (b OR NOT d)" "md4_F b c d = (b AND c) OR (NOT b AND d)"
  by (rule bit_word_eqI, auto simp: md5_F_def md5_G_def md5_I_def md4_F_def bit_simps)+

lemma md5_steps:
  "md_steps md5_R0 rfc1321_step rfc1321_k rfc1321_s (\<lambda>i. rfc1321_T ! i) 0 16"
  "md_steps md5_R1 rfc1321_step rfc1321_k rfc1321_s (\<lambda>i. rfc1321_T ! i) 16 32"
  "md_steps md5_R2 rfc1321_step rfc1321_k rfc1321_s (\<lambda>i. rfc1321_T ! i) 32 48"
  "md_steps md5_R3 rfc1321_step rfc1321_k rfc1321_s (\<lambda>i. rfc1321_T ! i) 48 64"
proof -
  have s: "0 < rfc1321_s i \<and> rfc1321_s i < 32" if "i < 64" for i
  proof -
    have "i div 16 \<in> {0, 1, 2, 3}" "i mod 4 \<in> {0, 1, 2, 3}" using that by auto
    then show ?thesis by (auto simp: rfc1321_s_def)
  qed
  show "md_steps md5_R0 rfc1321_step rfc1321_k rfc1321_s (\<lambda>i. rfc1321_T ! i) 0 16"
    "md_steps md5_R1 rfc1321_step rfc1321_k rfc1321_s (\<lambda>i. rfc1321_T ! i) 16 32"
    "md_steps md5_R2 rfc1321_step rfc1321_k rfc1321_s (\<lambda>i. rfc1321_T ! i) 32 48"
    "md_steps md5_R3 rfc1321_step rfc1321_k rfc1321_s (\<lambda>i. rfc1321_T ! i) 48 64"
    by (auto simp: md_steps_def rfc1321_step_def rfc1321_f_def Let_def md5_R0_def md5_R1_def md5_R2_def
        md5_R3_def bit_functions md5_H_def rotl_u32 s ac_simps)
qed

lemma md4_steps:
  "md_steps md4_R0 rfc1320_step rfc1320_k rfc1320_s rfc1320_K 0 16"
  "md_steps md4_R1 rfc1320_step rfc1320_k rfc1320_s rfc1320_K 16 32"
  "md_steps md4_R2 rfc1320_step rfc1320_k rfc1320_s rfc1320_K 32 48"
proof -
  have s: "0 < rfc1320_s i \<and> rfc1320_s i < 32" if "i < 48" for i
  proof -
    have "i div 16 \<in> {0, 1, 2}" "i mod 4 \<in> {0, 1, 2, 3}" using that by auto
    then show ?thesis by (auto simp: rfc1320_s_def)
  qed
  show "md_steps md4_R0 rfc1320_step rfc1320_k rfc1320_s rfc1320_K 0 16"
    "md_steps md4_R1 rfc1320_step rfc1320_k rfc1320_s rfc1320_K 16 32"
    "md_steps md4_R2 rfc1320_step rfc1320_k rfc1320_s rfc1320_K 32 48"
    by (auto simp: md_steps_def rfc1320_step_def rfc1320_f_def rfc1320_K_def Let_def md4_R0_def md4_R1_def
        md4_R2_def bit_functions md4_G_def md4_H_def rotl_u32 s ac_simps)
qed

lemma md5_rounds:
  "md5_round_0 X r = foldl (rfc1321_step X) r [0..<16]"
  "md5_round_1 X r = foldl (rfc1321_step X) r [16..<32]"
  "md5_round_2 X r = foldl (rfc1321_step X) r [32..<48]"
  "md5_round_3 X r = foldl (rfc1321_step X) r [48..<64]"
proof -
  obtain a b c d where r: "r = (a, b, c, d)" by (cases r)
  note chain = md_chain [where Q = "(=)"]
  show "md5_round_0 X r = foldl (rfc1321_step X) r [0..<16]"
    unfolding md5_round_0_def r let_regs4
    by ((rule chain [OF md5_steps(1)])+, simp_all add: rfc1321_k_def rfc1321_s_def rfc1321_T_def del: One_nat_def)
  show "md5_round_1 X r = foldl (rfc1321_step X) r [16..<32]"
    unfolding md5_round_1_def r let_regs4
    by ((rule chain [OF md5_steps(2)])+, simp_all add: rfc1321_k_def rfc1321_s_def rfc1321_T_def del: One_nat_def)
  show "md5_round_2 X r = foldl (rfc1321_step X) r [32..<48]"
    unfolding md5_round_2_def r let_regs4
    by ((rule chain [OF md5_steps(3)])+, simp_all add: rfc1321_k_def rfc1321_s_def rfc1321_T_def del: One_nat_def)
  show "md5_round_3 X r = foldl (rfc1321_step X) r [48..<64]"
    unfolding md5_round_3_def r let_regs4
    by ((rule chain [OF md5_steps(4)])+, simp_all add: rfc1321_k_def rfc1321_s_def rfc1321_T_def del: One_nat_def)
qed

lemma md4_rounds:
  "md4_round_0 X r = foldl (rfc1320_step X) r [0..<16]"
  "md4_round_1 X r = foldl (rfc1320_step X) r [16..<32]"
  "md4_round_2 X r = foldl (rfc1320_step X) r [32..<48]"
proof -
  obtain a b c d where r: "r = (a, b, c, d)" by (cases r)
  note chain = md_chain [where Q = "(=)"]
  show "md4_round_0 X r = foldl (rfc1320_step X) r [0..<16]"
    unfolding md4_round_0_def r let_regs4
    by ((rule chain [OF md4_steps(1)])+, simp_all add: rfc1320_k_def rfc1320_s_def rfc1320_K_def del: One_nat_def)
  show "md4_round_1 X r = foldl (rfc1320_step X) r [16..<32]"
    unfolding md4_round_1_def r let_regs4
    by ((rule chain [OF md4_steps(2)])+, simp_all add: rfc1320_k_def rfc1320_s_def rfc1320_K_def del: One_nat_def,
        simp_all add: numeral_2_eq_2)
  show "md4_round_2 X r = foldl (rfc1320_step X) r [32..<48]"
    unfolding md4_round_2_def r let_regs4
    by ((rule chain [OF md4_steps(3)])+, simp_all add: rfc1320_k_def rfc1320_s_def rfc1320_K_def del: One_nat_def)
qed

section \<open>MD5 and MD4 as a whole\<close>

lemma words_le_loads:
  "64 \<le> length d \<Longrightarrow> map (\<lambda>j. CRYPTO_load_u32_le (drop (4 * j) d)) [0..<16]
     = map (\<lambda>j. of_nat (le_value (take 4 (drop (4 * j) d)))) [0..<16]"
  by (intro map_cong refl load_u32_le) auto

lemma words_le_append:
  "length d = 64 \<Longrightarrow> map (\<lambda>j. CRYPTO_load_u32_le (drop (4 * j) (d @ e))) [0..<16]
     = map (\<lambda>j. CRYPTO_load_u32_le (drop (4 * j) d)) [0..<16]"
  unfolding CRYPTO_load_u32_le_def by (intro map_cong refl) (auto simp: take_drop_append)

lemma md5_block_rfc:
  assumes "64 \<le> length d"
  shows "md5_block H d = rfc1321_block H d"
proof -
  have "foldl (rfc1321_step X) r ([0..<16] @ [16..<32] @ [32..<48] @ [48..<64])
      = foldl (rfc1321_step X) r [0..<64]" for X r
    by (simp add: upt_append del: upt_rec_numeral foldl_append)
  then have "md5_round_3 X (md5_round_2 X (md5_round_1 X (md5_round_0 X r)))
      = foldl (rfc1321_step X) r [0..<64]" for X r
    by (simp only: md5_rounds foldl_append)
  then show ?thesis
    by (simp only: md5_block_def rfc1321_block_def Let_def prod.case words_le_loads [OF assms])
qed

lemma md4_block_rfc:
  assumes "64 \<le> length d"
  shows "md4_block H d = rfc1320_block H d"
proof -
  have "foldl (rfc1320_step X) r ([0..<16] @ [16..<32] @ [32..<48]) = foldl (rfc1320_step X) r [0..<48]"
    for X r by (simp add: upt_append del: upt_rec_numeral foldl_append)
  then have "md4_round_2 X (md4_round_1 X (md4_round_0 X r)) = foldl (rfc1320_step X) r [0..<48]" for X r
    by (simp only: md4_rounds foldl_append)
  then show ?thesis
    by (simp only: md4_block_def rfc1320_block_def Let_def prod.case words_le_loads [OF assms])
qed

lemma md5_blocks_one: "md5_block_data_order h d 1 = md5_block h d"
  by (simp add: md5_block_data_order_def)

lemma md4_blocks_one: "md4_block_data_order h d 1 = md4_block h d"
  by (simp add: md4_block_data_order_def)

interpretation md5md: md32_hash md5_block_data_order 64
proof unfold_locales
  show "(8 :: nat) < 64" "(64 :: nat) < 2 ^ 32" by simp_all
  show "md5_block_data_order h d (Suc (Suc n))
      = md5_block_data_order (md5_block_data_order h d 1) (drop 64 d) (Suc n)" for h d n
    by (simp add: md5_block_data_order_def)
  show "md5_block_data_order h (d @ e) 1 = md5_block_data_order h d 1" if "length d = 64" for h d e
    by (simp only: md5_blocks_one md5_block_def words_le_append [OF that])
qed

interpretation md4md: md32_hash md4_block_data_order 64
proof unfold_locales
  show "(8 :: nat) < 64" "(64 :: nat) < 2 ^ 32" by simp_all
  show "md4_block_data_order h d (Suc (Suc n))
      = md4_block_data_order (md4_block_data_order h d 1) (drop 64 d) (Suc n)" for h d n
    by (simp add: md4_block_data_order_def)
  show "md4_block_data_order h (d @ e) 1 = md4_block_data_order h d 1" if "length d = 64" for h d e
    by (simp only: md4_blocks_one md4_block_def words_le_append [OF that])
qed

text \<open>The initial value and the output are the same in both: four words, least significant byte first.\<close>

definition rfc_md :: "(u32 list \<Rightarrow> bytes \<Rightarrow> u32 list) \<Rightarrow> bytes \<Rightarrow> bytes" where
  "rfc_md block m =
     (let H = md_hash block 64 8 (le_bytes 8) [0x67452301, 0xefcdab89, 0x98badcfe, 0x10325476] m
      in concat (map (\<lambda>i. le_bytes 4 (unat (H ! i))) [0, 1, 2, 3]))"

lemma md5_md4_init_tracks:
  "md32_tracks md5_block_data_order 64 (md_h MD5_Init) [] MD5_Init"
  "md32_tracks md4_block_data_order 64 (md_h MD4_Init) [] MD4_Init"
  by (auto simp: md32_tracks_def bit_count_def MD5_Init_def MD4_Init_def intro: tracks_empty)

lemma MD5_Update_md32: "MD5_Update = crypto_md32_update md5_block_data_order 64"
  by (simp add: fun_eq_iff MD5_Update_def)

lemma md5_final_tracks:
  assumes "md32_tracks md5_block_data_order 64 (md_h MD5_Init) m c"
  shows "fst (MD5_Final c) = rfc_md rfc1321_block m"
proof -
  have "md_hash (md_step md5_block_data_order) 64 8 enc iv m = md_hash rfc1321_block 64 8 enc iv m"
    for enc iv m
    by (rule md32_hash_cong) (simp add: md_step_def md5_blocks_one [simplified] md5_block_rfc)
  with md5md.final_hash [OF assms, of False] show ?thesis
    by (simp add: MD5_Final_def Let_def rfc_md_def CRYPTO_store_u32_le_def md32_length_False MD5_Init_def)
qed

lemma MD4_Update_md32: "MD4_Update = crypto_md32_update md4_block_data_order 64"
  by (simp add: fun_eq_iff MD4_Update_def)

lemma md4_final_tracks:
  assumes "md32_tracks md4_block_data_order 64 (md_h MD4_Init) m c"
  shows "fst (MD4_Final c) = rfc_md rfc1320_block m"
proof -
  have "md_hash (md_step md4_block_data_order) 64 8 enc iv m = md_hash rfc1320_block 64 8 enc iv m"
    for enc iv m
    by (rule md32_hash_cong) (simp add: md_step_def md4_blocks_one [simplified] md4_block_rfc)
  with md4md.final_hash [OF assms, of False] show ?thesis
    by (simp add: MD4_Final_def Let_def rfc_md_def CRYPTO_store_u32_le_def md32_length_False MD4_Init_def)
qed

text \<open>C33 MD5 and MD4 in any number of calls are those of RFC 1321 and RFC 1320 of the whole message: the
  unrolled rounds with their simplified bit functions do the 64 and 48 steps of the documents, and
  padding, length and output are little-endian.\<close>
theorem md5_md4_stream:
  assumes "\<forall>x \<in> set xs. length x < size_mod"
  shows "fst (MD5_Final (foldl MD5_Update MD5_Init xs)) = rfc_md rfc1321_block (concat xs)
    \<and> fst (MD4_Final (foldl MD4_Update MD4_Init xs)) = rfc_md rfc1320_block (concat xs)"
  using md5_final_tracks md4_final_tracks md5md.stream_tracks [OF md5_md4_init_tracks(1) assms]
    md4md.stream_tracks [OF md5_md4_init_tracks(2) assms]
  by (simp add: MD5_Update_md32 MD4_Update_md32)

lemma md5_md4_stream_witness:
  "fst (MD5_Final (MD5_Update (MD5_Update MD5_Init [0x61, 0x62]) [0x63])) = rfc_md rfc1321_block [0x61, 0x62, 0x63]
    \<and> fst (MD4_Final (MD4_Update (MD4_Update MD4_Init [0x61, 0x62]) [0x63])) = rfc_md rfc1320_block [0x61, 0x62, 0x63]"
  using md5_md4_stream [of "[[0x61, 0x62], [0x63]]"] by (simp add: size_mod_def)

end
