(* ===== verification/HMAC_Digest.thy ===== *)
theory HMAC_Digest
  imports MD5_MD4 Mem "HOL-Library.Monad_Syntax"
begin

text \<open>
  The digest interface, \<open>crypto/fipsmodule/digest/digest.c\<close> and \<open>digests.c\<close>, and HMAC on top of it,
  \<open>crypto/fipsmodule/hmac/hmac.c\<close>. The static \<open>EVP_MD\<close> objects are a datatype, and the function pointers
  in them are functions that distinguish its constructors. The block \<open>md_data\<close> of a context is what the
  hash function keeps in it, or raw bytes before it was initialised and after it was cleansed. A result
  \<open>None\<close> of a function that cannot fail says that the code dereferences a null pointer. The locale
  \<open>stream_hash\<close> is the contract of a hash function that takes its message in pieces.
\<close>

section \<open>Digest objects\<close>

datatype EVP_MD = EVP_md4 | EVP_md5 | EVP_sha1 | EVP_sha224 | EVP_sha256 | EVP_sha384 | EVP_sha512
  | EVP_sha512_256 | EVP_md5_sha1

datatype md_data = MD_RAW bytes | MD_MD32 md32_ctx | MD_SHA256 SHA256_CTX | MD_SHA512 SHA512_CTX
  | MD_MD5_SHA1 MD5_CTX SHA_CTX

fun EVP_MD_type :: "EVP_MD \<Rightarrow> nat" where
  "EVP_MD_type EVP_md4 = 257"
| "EVP_MD_type EVP_md5 = 4"
| "EVP_MD_type EVP_sha1 = 64"
| "EVP_MD_type EVP_sha224 = 675"
| "EVP_MD_type EVP_sha256 = 672"
| "EVP_MD_type EVP_sha384 = 673"
| "EVP_MD_type EVP_sha512 = 674"
| "EVP_MD_type EVP_sha512_256 = 962"
| "EVP_MD_type EVP_md5_sha1 = 114"

fun EVP_MD_size :: "EVP_MD \<Rightarrow> nat" where
  "EVP_MD_size EVP_md4 = 16"
| "EVP_MD_size EVP_md5 = 16"
| "EVP_MD_size EVP_sha1 = 20"
| "EVP_MD_size EVP_sha224 = 28"
| "EVP_MD_size EVP_sha256 = 32"
| "EVP_MD_size EVP_sha384 = 48"
| "EVP_MD_size EVP_sha512 = 64"
| "EVP_MD_size EVP_sha512_256 = 32"
| "EVP_MD_size EVP_md5_sha1 = 16 + 20"

fun EVP_MD_block_size :: "EVP_MD \<Rightarrow> nat" where
  "EVP_MD_block_size EVP_sha384 = 128"
| "EVP_MD_block_size EVP_sha512 = 128"
| "EVP_MD_block_size EVP_sha512_256 = 128"
| "EVP_MD_block_size _ = 64"

text \<open>The sizes of the context structures.\<close>

fun ctx_size :: "EVP_MD \<Rightarrow> nat" where
  "ctx_size EVP_md4 = 92"
| "ctx_size EVP_md5 = 92"
| "ctx_size EVP_sha1 = 96"
| "ctx_size EVP_sha224 = 112"
| "ctx_size EVP_sha256 = 112"
| "ctx_size EVP_sha384 = 216"
| "ctx_size EVP_sha512 = 216"
| "ctx_size EVP_sha512_256 = 216"
| "ctx_size EVP_md5_sha1 = 92 + 96"

text \<open>The bytes of the field \<open>p\<close> of a \<open>SHA512_CTX\<close>, which its initialisers leave alone.\<close>

fun stale_p :: "md_data \<Rightarrow> bytes" where
  "stale_p (MD_RAW b) = take 128 (drop 80 b)"
| "stale_p (MD_SHA512 c) = s5_p c"
| "stale_p _ = replicate 128 0"

fun md_init :: "EVP_MD \<Rightarrow> md_data \<Rightarrow> md_data" where
  "md_init EVP_md4 d = MD_MD32 MD4_Init"
| "md_init EVP_md5 d = MD_MD32 MD5_Init"
| "md_init EVP_sha1 d = MD_MD32 SHA1_Init"
| "md_init EVP_sha224 d = MD_SHA256 SHA224_Init"
| "md_init EVP_sha256 d = MD_SHA256 SHA256_Init"
| "md_init EVP_sha384 d = MD_SHA512 (SHA384_Init (stale_p d))"
| "md_init EVP_sha512 d = MD_SHA512 (SHA512_Init (stale_p d))"
| "md_init EVP_sha512_256 d = MD_SHA512 (SHA512_256_Init (stale_p d))"
| "md_init EVP_md5_sha1 d = MD_MD5_SHA1 MD5_Init SHA1_Init"

text \<open>A context of another digest than \<open>md\<close> does not occur; it is left unchanged here.\<close>

fun md_update :: "EVP_MD \<Rightarrow> md_data \<Rightarrow> bytes \<Rightarrow> md_data" where
  "md_update EVP_md4 (MD_MD32 c) x = MD_MD32 (MD4_Update c x)"
| "md_update EVP_md5 (MD_MD32 c) x = MD_MD32 (MD5_Update c x)"
| "md_update EVP_sha1 (MD_MD32 c) x = MD_MD32 (SHA1_Update c x)"
| "md_update EVP_sha224 (MD_SHA256 c) x = MD_SHA256 (SHA224_Update c x)"
| "md_update EVP_sha256 (MD_SHA256 c) x = MD_SHA256 (SHA256_Update c x)"
| "md_update EVP_sha384 (MD_SHA512 c) x = MD_SHA512 (SHA384_Update c x)"
| "md_update EVP_sha512 (MD_SHA512 c) x = MD_SHA512 (SHA512_Update c x)"
| "md_update EVP_sha512_256 (MD_SHA512 c) x = MD_SHA512 (SHA512_256_Update c x)"
| "md_update EVP_md5_sha1 (MD_MD5_SHA1 c1 c2) x = MD_MD5_SHA1 (MD5_Update c1 x) (SHA1_Update c2 x)"
| "md_update _ d x = d"

fun md_final :: "EVP_MD \<Rightarrow> md_data \<Rightarrow> bytes" where
  "md_final EVP_md4 (MD_MD32 c) = fst (MD4_Final c)"
| "md_final EVP_md5 (MD_MD32 c) = fst (MD5_Final c)"
| "md_final EVP_sha1 (MD_MD32 c) = fst (SHA1_Final c)"
| "md_final EVP_sha224 (MD_SHA256 c) = (case fst (SHA224_Final c) of Some out \<Rightarrow> out | None \<Rightarrow> [])"
| "md_final EVP_sha256 (MD_SHA256 c) = (case fst (SHA256_Final c) of Some out \<Rightarrow> out | None \<Rightarrow> [])"
| "md_final EVP_sha384 (MD_SHA512 c) = (case fst (SHA384_Final c) of Some out \<Rightarrow> out | None \<Rightarrow> [])"
| "md_final EVP_sha512 (MD_SHA512 c) = (case fst (SHA512_Final c) of Some out \<Rightarrow> out | None \<Rightarrow> [])"
| "md_final EVP_sha512_256 (MD_SHA512 c) = (case fst (SHA512_256_Final c) of Some out \<Rightarrow> out | None \<Rightarrow> [])"
| "md_final EVP_md5_sha1 (MD_MD5_SHA1 c1 c2) = fst (MD5_Final c1) @ fst (SHA1_Final c2)"
| "md_final _ d = []"

section \<open>Digest contexts\<close>

text \<open>
  \<open>'p\<close> stands for \<open>EVP_PKEY_CTX\<close>, opaque at this layer; the operation \<open>dup\<close> of its table \<open>pctx_ops\<close> is an
  argument where it is called.
\<close>

record 'p EVP_MD_CTX =
  mc_digest :: "EVP_MD option"
  mc_data :: "md_data option"
  mc_pctx :: "'p option"

definition EVP_MD_CTX_init :: "'p EVP_MD_CTX" where
  "EVP_MD_CTX_init = \<lparr>mc_digest = None, mc_data = None, mc_pctx = None\<rparr>"

definition EVP_MD_CTX_new :: "heap_env \<Rightarrow> 'p EVP_MD_CTX option" where
  "EVP_MD_CTX_new env =
     (case OPENSSL_malloc env 32 of None \<Rightarrow> None | Some _ \<Rightarrow> Some EVP_MD_CTX_init)"

definition EVP_MD_CTX_cleanup :: "'p EVP_MD_CTX \<Rightarrow> 'p EVP_MD_CTX" where
  "EVP_MD_CTX_cleanup ctx = EVP_MD_CTX_init"

definition EVP_MD_CTX_copy_ex ::
  "heap_env \<Rightarrow> ('p \<Rightarrow> 'p option) \<Rightarrow> 'p EVP_MD_CTX \<Rightarrow> 'p EVP_MD_CTX \<Rightarrow> bool \<times> 'p EVP_MD_CTX" where
  "EVP_MD_CTX_copy_ex env dup out inp =
     (if mc_pctx inp = None \<and> mc_digest inp = None then (False, out) else
      let pctx = (case mc_pctx inp of None \<Rightarrow> None | Some p \<Rightarrow> dup p) in
      if mc_pctx inp \<noteq> None \<and> pctx = None then (False, out) else
      case mc_digest inp of
        None \<Rightarrow> (True, \<lparr>mc_digest = None, mc_data = None, mc_pctx = pctx\<rparr>)
      | Some md \<Rightarrow>
          if mc_digest out \<noteq> Some md \<and> OPENSSL_malloc env (ctx_size md) = None then (False, out)
          else (True, \<lparr>mc_digest = Some md, mc_data = mc_data inp, mc_pctx = pctx\<rparr>))"

text \<open>The moved context and the one it was moved from.\<close>

definition EVP_MD_CTX_move :: "'p EVP_MD_CTX \<Rightarrow> 'p EVP_MD_CTX \<times> 'p EVP_MD_CTX" where
  "EVP_MD_CTX_move inp = (inp, EVP_MD_CTX_init)"

definition EVP_MD_CTX_copy ::
  "heap_env \<Rightarrow> ('p \<Rightarrow> 'p option) \<Rightarrow> 'p EVP_MD_CTX \<Rightarrow> bool \<times> 'p EVP_MD_CTX" where
  "EVP_MD_CTX_copy env dup inp = EVP_MD_CTX_copy_ex env dup EVP_MD_CTX_init inp"

definition EVP_DigestInit_ex :: "heap_env \<Rightarrow> 'p EVP_MD_CTX \<Rightarrow> EVP_MD \<Rightarrow> bool \<times> 'p EVP_MD_CTX" where
  "EVP_DigestInit_ex env ctx type =
     (if mc_digest ctx \<noteq> Some type then
        (case OPENSSL_malloc env (ctx_size type) of
           None \<Rightarrow> (False, ctx)
         | Some blk \<Rightarrow>
             (True, ctx\<lparr>mc_data := Some (md_init type (MD_RAW blk)), mc_digest := Some type\<rparr>))
      else (True, ctx\<lparr>mc_data := map_option (md_init type) (mc_data ctx)\<rparr>))"

definition EVP_DigestInit :: "heap_env \<Rightarrow> EVP_MD \<Rightarrow> bool \<times> 'p EVP_MD_CTX" where
  "EVP_DigestInit env type = EVP_DigestInit_ex env EVP_MD_CTX_init type"

definition EVP_DigestUpdate :: "'p EVP_MD_CTX \<Rightarrow> bytes \<Rightarrow> 'p EVP_MD_CTX option" where
  "EVP_DigestUpdate ctx data = do {
     md \<leftarrow> mc_digest ctx;
     d \<leftarrow> mc_data ctx;
     Some (ctx\<lparr>mc_data := Some (md_update md d data)\<rparr>)
   }"

text \<open>The digest, and the context with its state cleansed.\<close>

definition EVP_DigestFinal_ex :: "'p EVP_MD_CTX \<Rightarrow> (bytes \<times> 'p EVP_MD_CTX) option" where
  "EVP_DigestFinal_ex ctx = do {
     md \<leftarrow> mc_digest ctx;
     d \<leftarrow> mc_data ctx;
     Some (md_final md d, ctx\<lparr>mc_data := Some (MD_RAW (replicate (ctx_size md) 0))\<rparr>)
   }"

definition EVP_DigestFinal :: "'p EVP_MD_CTX \<Rightarrow> (bytes \<times> 'p EVP_MD_CTX) option" where
  "EVP_DigestFinal ctx = do { (md, ctx) \<leftarrow> EVP_DigestFinal_ex ctx; Some (md, EVP_MD_CTX_cleanup ctx) }"

text \<open>\<open>Some None\<close>: the function fails.\<close>

definition EVP_Digest :: "heap_env \<Rightarrow> bytes \<Rightarrow> EVP_MD \<Rightarrow> bytes option option" where
  "EVP_Digest env data type =
     (case EVP_DigestInit_ex env (EVP_MD_CTX_init :: unit EVP_MD_CTX) type of
        (False, ctx) \<Rightarrow> Some None
      | (True, ctx) \<Rightarrow> do {
          ctx \<leftarrow> EVP_DigestUpdate ctx data;
          (md, ctx) \<leftarrow> EVP_DigestFinal_ex ctx;
          Some (Some md)
        })"

section \<open>HMAC\<close>

record 'p HMAC_CTX =
  hm_md :: "EVP_MD option"
  hm_md_ctx :: "'p EVP_MD_CTX"
  hm_i_ctx :: "'p EVP_MD_CTX"
  hm_o_ctx :: "'p EVP_MD_CTX"

definition HMAC_CTX_init :: "'p HMAC_CTX" where
  "HMAC_CTX_init = \<lparr>hm_md = None, hm_md_ctx = EVP_MD_CTX_init, hm_i_ctx = EVP_MD_CTX_init,
     hm_o_ctx = EVP_MD_CTX_init\<rparr>"

definition HMAC_CTX_new :: "heap_env \<Rightarrow> 'p HMAC_CTX option" where
  "HMAC_CTX_new env = (case OPENSSL_malloc env 104 of None \<Rightarrow> None | Some _ \<Rightarrow> Some HMAC_CTX_init)"

text \<open>
  The key block: long keys are hashed with \<open>md_ctx\<close>, and keys are padded with zeros. The outer \<open>None\<close> is a
  null pointer, \<open>Inl\<close> the failure of an allocation.
\<close>

definition hmac_key_block ::
  "heap_env \<Rightarrow> EVP_MD \<Rightarrow> bytes \<Rightarrow> 'p EVP_MD_CTX \<Rightarrow> ('p EVP_MD_CTX + bytes \<times> 'p EVP_MD_CTX) option" where
  "hmac_key_block env md key md_ctx =
     (let block_size = EVP_MD_block_size md in
      if block_size < length key then
        (case EVP_DigestInit_ex env md_ctx md of
           (False, md_ctx) \<Rightarrow> Some (Inl md_ctx)
         | (True, md_ctx) \<Rightarrow> do {
             md_ctx \<leftarrow> EVP_DigestUpdate md_ctx key;
             (kb, md_ctx) \<leftarrow> EVP_DigestFinal_ex md_ctx;
             Some (Inr (kb @ replicate (block_size - length kb) 0, md_ctx))
           })
      else Some (Inr (key @ replicate (block_size - length key) 0, md_ctx)))"

text \<open>Start a digest on the key block with a constant added to each byte.\<close>

definition hmac_start_pad ::
  "heap_env \<Rightarrow> 'p EVP_MD_CTX \<Rightarrow> EVP_MD \<Rightarrow> u8 \<Rightarrow> bytes \<Rightarrow> (bool \<times> 'p EVP_MD_CTX) option" where
  "hmac_start_pad env c md b kb =
     (case EVP_DigestInit_ex env c md of
        (False, c) \<Rightarrow> Some (False, c)
      | (True, c) \<Rightarrow> do { c \<leftarrow> EVP_DigestUpdate c (map (\<lambda>k. b XOR k) kb); Some (True, c) })"

text \<open>\<open>key\<close> is \<open>None\<close> and \<open>md\<close> is \<open>None\<close> for null pointers.\<close>

definition HMAC_Init_ex ::
  "heap_env \<Rightarrow> ('p \<Rightarrow> 'p option) \<Rightarrow> 'p HMAC_CTX \<Rightarrow> bytes option \<Rightarrow> EVP_MD option
     \<Rightarrow> (bool \<times> 'p HMAC_CTX) option" where
  "HMAC_Init_ex env dup ctx key md =
     (let md = (if md = None then hm_md ctx else md);
          copy = (\<lambda>ctx. let (ok, c) = EVP_MD_CTX_copy_ex env dup (hm_md_ctx ctx) (hm_i_ctx ctx)
                        in (ok, ctx\<lparr>hm_md_ctx := c\<rparr>))
      in if md \<noteq> hm_md ctx \<or> key \<noteq> None then do {
           m \<leftarrow> md;
           r \<leftarrow> hmac_key_block env m (case key of None \<Rightarrow> [] | Some k \<Rightarrow> k) (hm_md_ctx ctx);
           (case r of
              Inl c \<Rightarrow> Some (False, ctx\<lparr>hm_md_ctx := c\<rparr>)
            | Inr (kb, c) \<Rightarrow> do {
                ctx \<leftarrow> Some (ctx\<lparr>hm_md_ctx := c\<rparr>);
                (ok, i) \<leftarrow> hmac_start_pad env (hm_i_ctx ctx) m 0x36 kb;
                ctx \<leftarrow> Some (ctx\<lparr>hm_i_ctx := i\<rparr>);
                if \<not> ok then Some (False, ctx) else do {
                  (ok, p) \<leftarrow> hmac_start_pad env (hm_o_ctx ctx) m 0x5c kb;
                  ctx \<leftarrow> Some (ctx\<lparr>hm_o_ctx := p\<rparr>);
                  if \<not> ok then Some (False, ctx) else Some (copy (ctx\<lparr>hm_md := md\<rparr>))
                }
              })
         }
         else Some (copy ctx))"

definition HMAC_Update :: "'p HMAC_CTX \<Rightarrow> bytes \<Rightarrow> 'p HMAC_CTX option" where
  "HMAC_Update ctx data = do {
     c \<leftarrow> EVP_DigestUpdate (hm_md_ctx ctx) data;
     Some (ctx\<lparr>hm_md_ctx := c\<rparr>)
   }"

text \<open>The code, or \<open>None\<close> when copying the outer context fails.\<close>

definition HMAC_Final ::
  "heap_env \<Rightarrow> ('p \<Rightarrow> 'p option) \<Rightarrow> 'p HMAC_CTX \<Rightarrow> (bytes option \<times> 'p HMAC_CTX) option" where
  "HMAC_Final env dup ctx = do {
     (buf, c) \<leftarrow> EVP_DigestFinal_ex (hm_md_ctx ctx);
     (case EVP_MD_CTX_copy_ex env dup c (hm_o_ctx ctx) of
        (False, c) \<Rightarrow> Some (None, ctx\<lparr>hm_md_ctx := c\<rparr>)
      | (True, c) \<Rightarrow> do {
          c \<leftarrow> EVP_DigestUpdate c buf;
          (out, c) \<leftarrow> EVP_DigestFinal_ex c;
          Some (Some out, ctx\<lparr>hm_md_ctx := c\<rparr>)
        })
   }"

definition HMAC_size :: "'p HMAC_CTX \<Rightarrow> nat option" where
  "HMAC_size ctx = map_option EVP_MD_size (hm_md ctx)"

definition HMAC_CTX_copy_ex ::
  "heap_env \<Rightarrow> ('p \<Rightarrow> 'p option) \<Rightarrow> 'p HMAC_CTX \<Rightarrow> 'p HMAC_CTX \<Rightarrow> bool \<times> 'p HMAC_CTX" where
  "HMAC_CTX_copy_ex env dup dest src =
     (let (ok, i) = EVP_MD_CTX_copy_ex env dup (hm_i_ctx dest) (hm_i_ctx src);
          dest = dest\<lparr>hm_i_ctx := i\<rparr>
      in if \<not> ok then (False, dest) else
      let (ok, p) = EVP_MD_CTX_copy_ex env dup (hm_o_ctx dest) (hm_o_ctx src);
          dest = dest\<lparr>hm_o_ctx := p\<rparr>
      in if \<not> ok then (False, dest) else
      let (ok, c) = EVP_MD_CTX_copy_ex env dup (hm_md_ctx dest) (hm_md_ctx src);
          dest = dest\<lparr>hm_md_ctx := c\<rparr>
      in if \<not> ok then (False, dest) else (True, dest\<lparr>hm_md := hm_md src\<rparr>))"

definition HMAC_CTX_copy ::
  "heap_env \<Rightarrow> ('p \<Rightarrow> 'p option) \<Rightarrow> 'p HMAC_CTX \<Rightarrow> bool \<times> 'p HMAC_CTX" where
  "HMAC_CTX_copy env dup src = HMAC_CTX_copy_ex env dup HMAC_CTX_init src"

text \<open>The one-shot function: \<open>Some None\<close> for a failure.\<close>

definition HMAC :: "heap_env \<Rightarrow> EVP_MD option \<Rightarrow> bytes option \<Rightarrow> bytes \<Rightarrow> bytes option option" where
  "HMAC env md key data = do {
     (ok, ctx) \<leftarrow> HMAC_Init_ex env (\<lambda>p :: unit. None) HMAC_CTX_init key md;
     if \<not> ok then Some None else do {
       ctx \<leftarrow> HMAC_Update ctx data;
       (out, ctx) \<leftarrow> HMAC_Final env (\<lambda>p. None) ctx;
       Some out
     }
   }"

section \<open>A hash function that takes its message in pieces\<close>

definition pad_key :: "nat \<Rightarrow> (bytes \<Rightarrow> bytes) \<Rightarrow> bytes \<Rightarrow> bytes" where
  "pad_key bsize H key =
     (let k = (if bsize < length key then H key else key) in k @ replicate (bsize - length k) 0)"

text \<open>FIPS 198-1: the hash of the key and of an inner hash, with different constants added to the key.\<close>

definition fips_hmac :: "nat \<Rightarrow> (bytes \<Rightarrow> bytes) \<Rightarrow> bytes \<Rightarrow> bytes \<Rightarrow> bytes" where
  "fips_hmac bsize H key m =
     (let k = pad_key bsize H key in H (map (\<lambda>b. 0x5c XOR b) k @ H (map (\<lambda>b. 0x36 XOR b) k @ m)))"

locale stream_hash =
  fixes absorbs :: "bytes \<Rightarrow> 'd \<Rightarrow> bool"
    and fit :: "'d \<Rightarrow> bool"
    and start :: "'d \<Rightarrow> 'd"
    and upd :: "'d \<Rightarrow> bytes \<Rightarrow> 'd"
    and fin :: "'d \<Rightarrow> bytes"
    and H :: "bytes \<Rightarrow> bytes"
    and out_len bsize :: nat
  assumes start: "fit d \<Longrightarrow> absorbs [] (start d)"
    and upd: "absorbs m d \<Longrightarrow> length x < size_mod \<Longrightarrow> absorbs (m @ x) (upd d x)"
    and fin: "absorbs m d \<Longrightarrow> fin d = H m"
    and fit: "absorbs m d \<Longrightarrow> fit d"
    and out_len: "length (H m) = out_len" "out_len \<le> bsize" "bsize < size_mod"
begin

lemma length_pad_key: "length (pad_key bsize H key) = bsize"
  using out_len by (auto simp: pad_key_def Let_def)

lemma stream:
  "absorbs m d \<Longrightarrow> \<forall>x \<in> set xs. length x < size_mod \<Longrightarrow> absorbs (m @ concat xs) (foldl upd d xs)"
proof (induction xs arbitrary: m d)
  case (Cons x xs)
  then show ?case using Cons.IH [OF upd [OF Cons.prems(1), of x]] by simp
qed simp

lemma start_pad:
  "fit d \<Longrightarrow> length k = bsize \<Longrightarrow> absorbs (map (\<lambda>b. c XOR b) k) (upd (start d) (map (\<lambda>b. c XOR b) k))"
  using upd [OF start, of d "map (\<lambda>b. c XOR b) k"] out_len by simp

lemma hmac_outer:
  assumes "absorbs (map (\<lambda>b. 0x36 XOR b) (pad_key bsize H key) @ m) i"
    and "absorbs (map (\<lambda>b. 0x5c XOR b) (pad_key bsize H key)) u"
  shows "fin (upd u (fin i)) = fips_hmac bsize H key m"
proof -
  have "length (fin i) < size_mod" using assms(1) out_len by (simp add: fin)
  from upd [OF assms(2) this] show ?thesis
    using assms(1) by (simp add: fin fips_hmac_def Let_def)
qed

end

section \<open>The digests of the library keep the contract\<close>

fun evp_hash :: "EVP_MD \<Rightarrow> bytes \<Rightarrow> bytes" where
  "evp_hash EVP_md4 m = rfc_md rfc1320_block m"
| "evp_hash EVP_md5 m = rfc_md rfc1321_block m"
| "evp_hash EVP_sha1 m = fips_sha1 m"
| "evp_hash EVP_sha224 m = fips_sha256 (md_h SHA224_Init) 28 m"
| "evp_hash EVP_sha256 m = fips_sha256 (md_h SHA256_Init) 32 m"
| "evp_hash EVP_sha384 m = fips_sha512 (s5_h (SHA384_Init [])) 48 m"
| "evp_hash EVP_sha512 m = fips_sha512 (s5_h (SHA512_Init [])) 64 m"
| "evp_hash EVP_sha512_256 m = fips_sha512 (s5_h (SHA512_256_Init [])) 32 m"
| "evp_hash EVP_md5_sha1 m = rfc_md rfc1321_block m @ fips_sha1 m"

fun evp_absorbs :: "EVP_MD \<Rightarrow> bytes \<Rightarrow> md_data \<Rightarrow> bool" where
  "evp_absorbs EVP_md4 m (MD_MD32 c) = md32_tracks md4_block_data_order 64 (md_h MD4_Init) m c"
| "evp_absorbs EVP_md5 m (MD_MD32 c) = md32_tracks md5_block_data_order 64 (md_h MD5_Init) m c"
| "evp_absorbs EVP_sha1 m (MD_MD32 c) = md32_tracks sha1_block_data_order 64 (md_h SHA1_Init) m c"
| "evp_absorbs EVP_sha224 m (MD_SHA256 c) = md32_tracks sha256_blocks 64 (md_h SHA224_Init) m c"
| "evp_absorbs EVP_sha256 m (MD_SHA256 c) =
     (md32_tracks sha256_blocks 64 (md_h SHA256_Init) m c \<and> md_len c = 32)"
| "evp_absorbs EVP_sha384 m (MD_SHA512 c) = sha512_tracks (s5_h (SHA384_Init [])) m c"
| "evp_absorbs EVP_sha512 m (MD_SHA512 c) =
     (sha512_tracks (s5_h (SHA512_Init [])) m c \<and> s5_md_len c = 64)"
| "evp_absorbs EVP_sha512_256 m (MD_SHA512 c) = sha512_tracks (s5_h (SHA512_256_Init [])) m c"
| "evp_absorbs EVP_md5_sha1 m (MD_MD5_SHA1 c1 c2) =
     (md32_tracks md5_block_data_order 64 (md_h MD5_Init) m c1
      \<and> md32_tracks sha1_block_data_order 64 (md_h SHA1_Init) m c2)"
| "evp_absorbs _ m d = False"

text \<open>A block that can be initialised: a \<open>SHA512_CTX\<close> has a buffer of 128 bytes in it.\<close>

definition evp_fit :: "EVP_MD \<Rightarrow> md_data \<Rightarrow> bool" where
  "evp_fit md d \<longleftrightarrow> EVP_MD_block_size md = 128 \<longrightarrow> length (stale_p d) = 128"

lemma length_md_outputs:
  "length (rfc_md block m) = 16" "length (fips_sha1 m) = 20"
  "length (fips_sha256 iv n m) = n div 4 * 4" "length (fips_sha512 iv' n m) = n div 8 * 8"
  by (simp_all add: rfc_md_def fips_sha1_def fips_sha256_def fips_sha512_def Let_def length_concat
      comp_def sum_list_triv)

lemma sha512_init_h:
  "s5_h (SHA512_Init p) = s5_h (SHA512_Init [])" "s5_h (SHA384_Init p) = s5_h (SHA384_Init [])"
  "s5_h (SHA512_256_Init p) = s5_h (SHA512_256_Init [])" "s5_md_len (SHA512_Init p) = 64"
  by (simp_all add: SHA512_Init_def SHA384_Init_def SHA512_256_Init_def)

lemma evp_absorbs_init: "evp_fit md d \<Longrightarrow> evp_absorbs md [] (md_init md d)"
  using sha512_init_tracks [of "stale_p d"] sha512_init_h [of "stale_p d"]
  by (cases md)
    (simp_all add: md5_md4_init_tracks sha1_init_tracks sha256_init_tracks evp_fit_def SHA256_Init_def [THEN arg_cong [of _ _ md_len]])

lemma SHA256_Update_md32: "SHA256_Update = crypto_md32_update sha256_blocks 64"
  "SHA224_Update = crypto_md32_update sha256_blocks 64"
  by (simp_all add: fun_eq_iff SHA224_Update_def SHA256_Update_def)

lemma sha256_update_tracks:
  "md32_tracks sha256_blocks 64 iv m c \<Longrightarrow> length x < size_mod \<Longrightarrow>
     md32_tracks sha256_blocks 64 iv (m @ x) (SHA256_Update c x)"
  unfolding SHA256_Update_def by (rule sha256md.update_tracks)

lemma sha512_update_md_len: "s5_md_len (SHA512_Update c x) = s5_md_len c"
  using s5_md_len_kept [of c "[x]"] by simp

lemma evp_absorbs_update:
  assumes "evp_absorbs md m d" "length x < size_mod"
  shows "evp_absorbs md (m @ x) (md_update md d x)"
  using assms
  by (cases "(md, m, d)" rule: evp_absorbs.cases)
    (auto simp: MD4_Update_md32 MD5_Update_md32 SHA1_Update_md32 SHA256_Update_md32(2)
      SHA384_Update_def SHA512_256_Update_def md_len_kept sha512_update_md_len
      intro: md4md.update_tracks md5md.update_tracks sha1md.update_tracks sha512_update_tracks
        sha256md.update_tracks sha256_update_tracks)

lemma evp_absorbs_final: "evp_absorbs md m d \<Longrightarrow> md_final md d = evp_hash md m"
  by (cases "(md, m, d)" rule: evp_absorbs.cases)
    (auto simp: md4_final_tracks md5_final_tracks sha1_final_tracks sha256_final_tracks sha512_final_tracks
      SHA224_Final_def SHA256_Final_def SHA384_Final_def SHA512_Final_def SHA512_256_Final_def)

lemma evp_absorbs_fit: "evp_absorbs md m d \<Longrightarrow> evp_fit md d"
  by (cases "(md, m, d)" rule: evp_absorbs.cases)
    (auto simp: evp_fit_def sha512_tracks_def tracks_def)

interpretation evp: stream_hash "evp_absorbs md" "evp_fit md" "md_init md" "md_update md" "md_final md"
  "evp_hash md" "EVP_MD_size md" "EVP_MD_block_size md" for md
proof unfold_locales
  show "length (evp_hash md m) = EVP_MD_size md" for m by (cases md) (simp_all add: length_md_outputs)
  show "EVP_MD_size md \<le> EVP_MD_block_size md" by (cases md) simp_all
  show "EVP_MD_block_size md < size_mod" by (cases md) (simp_all add: size_mod_def)
qed (fact evp_absorbs_init evp_absorbs_update evp_absorbs_final evp_absorbs_fit)+

section \<open>Contexts\<close>

definition ctx_absorbs :: "EVP_MD \<Rightarrow> bytes \<Rightarrow> 'p EVP_MD_CTX \<Rightarrow> bool" where
  "ctx_absorbs md m c \<longleftrightarrow> mc_digest c = Some md \<and> (\<exists>d. mc_data c = Some d \<and> evp_absorbs md m d)"

text \<open>Fit for use with any digest: empty, or holding a block for its own.\<close>

definition ctx_fit :: "'p EVP_MD_CTX \<Rightarrow> bool" where
  "ctx_fit c \<longleftrightarrow> (\<forall>md. mc_digest c = Some md \<longrightarrow> (\<exists>d. mc_data c = Some d \<and> evp_fit md d))"

definition grants :: "heap_env \<Rightarrow> bool" where
  "grants env \<longleftrightarrow> (\<forall>n. libc_malloc env n)"

lemma malloc_ctx:
  "grants env \<Longrightarrow> \<exists>blk. OPENSSL_malloc env (ctx_size md) = Some blk \<and> evp_fit md (MD_RAW blk)"
  by (cases md) (auto simp: OPENSSL_malloc_def grants_def size_add_def size_mod_def
      OPENSSL_MALLOC_PREFIX_def evp_fit_def)

lemma ctx_absorbs_fit: "ctx_absorbs md m c \<Longrightarrow> ctx_fit c"
  by (auto simp: ctx_absorbs_def ctx_fit_def evp_absorbs_fit)

lemma ctx_init_fit: "ctx_fit EVP_MD_CTX_init"
  by (simp add: ctx_fit_def EVP_MD_CTX_init_def)

lemma digest_init:
  assumes "grants env" "ctx_fit c"
  shows "\<exists>c'. EVP_DigestInit_ex env c md = (True, c') \<and> ctx_absorbs md [] c' \<and> mc_pctx c' = mc_pctx c"
proof (cases "mc_digest c = Some md")
  case True
  then show ?thesis
    using assms(2) evp.start [of md] by (auto simp: EVP_DigestInit_ex_def ctx_fit_def ctx_absorbs_def)
next
  case False
  obtain blk where "OPENSSL_malloc env (ctx_size md) = Some blk" "evp_fit md (MD_RAW blk)"
    using malloc_ctx [OF assms(1), of md] by blast
  then show ?thesis
    using False evp.start [of md "MD_RAW blk"] by (simp add: EVP_DigestInit_ex_def ctx_absorbs_def)
qed

lemma digest_update:
  assumes "ctx_absorbs md m c" "length x < size_mod"
  shows "\<exists>c'. EVP_DigestUpdate c x = Some c' \<and> ctx_absorbs md (m @ x) c' \<and> mc_pctx c' = mc_pctx c"
  using assms evp.upd [of md m] by (auto simp: EVP_DigestUpdate_def ctx_absorbs_def)

lemma digest_final:
  assumes "ctx_absorbs md m c"
  shows "\<exists>c'. EVP_DigestFinal_ex c = Some (evp_hash md m, c') \<and> ctx_fit c' \<and> mc_digest c' = Some md
    \<and> mc_pctx c' = mc_pctx c"
proof -
  have "evp_fit md (MD_RAW (replicate (ctx_size md) 0))" by (cases md) (simp_all add: evp_fit_def)
  then show ?thesis
    using assms evp.fin [of md m] by (auto simp: EVP_DigestFinal_ex_def ctx_absorbs_def ctx_fit_def)
qed

lemma digest_copy:
  assumes "grants env" "ctx_absorbs md m c" "mc_pctx c = None"
  shows "EVP_MD_CTX_copy_ex env dup u c = (True, c)"
  using assms malloc_ctx [of env md] by (auto simp: EVP_MD_CTX_copy_ex_def ctx_absorbs_def)

text \<open>C34 \<open>EVP_Digest\<close> computes, for each digest of the library and whatever \<open>malloc\<close> returns in the
  fresh block, the hash that the standard defines; when \<open>malloc\<close> fails it fails, and it never dereferences
  a null pointer.\<close>
theorem evp_digest_hash:
  assumes "length data < size_mod"
  shows "EVP_Digest env data md =
    Some (if libc_malloc env (ctx_size md + 8) then Some (evp_hash md data) else None)"
proof -
  have "size_add (ctx_size md) 8 = ctx_size md + 8"
    by (cases md) (simp_all add: size_add_def size_mod_def)
  then have malloc: "OPENSSL_malloc env (ctx_size md)
      = (if libc_malloc env (ctx_size md + 8) then Some (map (garbage env) [0..<ctx_size md]) else None)"
    by (simp add: OPENSSL_malloc_def OPENSSL_MALLOC_PREFIX_def)
  have "evp_fit md (MD_RAW (map (garbage env) [0..<ctx_size md]))"
    by (cases md) (simp_all add: evp_fit_def del: upt_rec_numeral)
  note absorbed = evp.upd [OF evp.start [OF this] assms]
  show ?thesis
    using evp.fin [OF absorbed]
    by (simp add: EVP_Digest_def EVP_DigestInit_ex_def EVP_DigestUpdate_def EVP_DigestFinal_ex_def
        EVP_MD_CTX_init_def malloc del: upt_rec_numeral)
qed

section \<open>HMAC is that of FIPS 198\<close>

text \<open>
  A keyed context has the two pads in its inner and outer digest; a running one has absorbed the inner
  pad and the message so far.
\<close>

abbreviation evp_hmac :: "EVP_MD \<Rightarrow> bytes \<Rightarrow> bytes \<Rightarrow> bytes" where
  "evp_hmac md \<equiv> fips_hmac (EVP_MD_block_size md) (evp_hash md)"

definition hmac_pad :: "EVP_MD \<Rightarrow> u8 \<Rightarrow> bytes \<Rightarrow> bytes" where
  "hmac_pad md b key = map (\<lambda>k. b XOR k) (pad_key (EVP_MD_block_size md) (evp_hash md) key)"

definition hmac_keyed :: "EVP_MD \<Rightarrow> bytes \<Rightarrow> 'p HMAC_CTX \<Rightarrow> bool" where
  "hmac_keyed md key h \<longleftrightarrow> hm_md h = Some md \<and> ctx_absorbs md (hmac_pad md 0x36 key) (hm_i_ctx h)
     \<and> ctx_absorbs md (hmac_pad md 0x5c key) (hm_o_ctx h) \<and> ctx_fit (hm_md_ctx h)
     \<and> mc_pctx (hm_i_ctx h) = None \<and> mc_pctx (hm_o_ctx h) = None"

definition hmac_running :: "EVP_MD \<Rightarrow> bytes \<Rightarrow> bytes \<Rightarrow> 'p HMAC_CTX \<Rightarrow> bool" where
  "hmac_running md key m h \<longleftrightarrow>
     hmac_keyed md key h \<and> ctx_absorbs md (hmac_pad md 0x36 key @ m) (hm_md_ctx h)"

text \<open>A context that \<open>HMAC_Init_ex\<close> may be called on: fresh, or used with any key and digest before.\<close>

definition hmac_fit :: "'p HMAC_CTX \<Rightarrow> bool" where
  "hmac_fit h \<longleftrightarrow> ctx_fit (hm_md_ctx h) \<and> ctx_fit (hm_i_ctx h) \<and> ctx_fit (hm_o_ctx h)
     \<and> mc_pctx (hm_i_ctx h) = None \<and> mc_pctx (hm_o_ctx h) = None"

lemma hmac_fit_init: "hmac_fit HMAC_CTX_init"
  by (simp add: hmac_fit_def HMAC_CTX_init_def ctx_init_fit) (simp add: EVP_MD_CTX_init_def)

lemma hmac_keyed_fit: "hmac_keyed md key h \<Longrightarrow> hmac_fit h"
  by (auto simp: hmac_keyed_def hmac_fit_def dest: ctx_absorbs_fit)

lemma hmac_key_block_pad:
  assumes "grants env" "ctx_fit c" "length key < size_mod"
  shows "\<exists>c'. hmac_key_block env md key c = Some (Inr (pad_key (EVP_MD_block_size md) (evp_hash md) key, c'))
    \<and> ctx_fit c'"
proof (cases "EVP_MD_block_size md < length key")
  case False
  then show ?thesis using assms(2) by (simp add: hmac_key_block_def pad_key_def)
next
  case True
  obtain c1 where c1: "EVP_DigestInit_ex env c md = (True, c1)" "ctx_absorbs md [] c1"
    using digest_init [OF assms(1,2)] by blast
  obtain c2 where c2: "EVP_DigestUpdate c1 key = Some c2" "ctx_absorbs md key c2"
    using digest_update [OF c1(2) assms(3)] by auto
  obtain c3 where "EVP_DigestFinal_ex c2 = Some (evp_hash md key, c3)" "ctx_fit c3"
    using digest_final [OF c2(2)] by blast
  then show ?thesis using True c1(1) c2(1) by (simp add: hmac_key_block_def pad_key_def Let_def)
qed

lemma hmac_start_pad:
  assumes "grants env" "ctx_fit c" "mc_pctx c = None"
  shows "\<exists>c'. hmac_start_pad env c md b (pad_key (EVP_MD_block_size md) (evp_hash md) key) = Some (True, c')
    \<and> ctx_absorbs md (hmac_pad md b key) c' \<and> mc_pctx c' = None"
proof -
  obtain c1 where c1: "EVP_DigestInit_ex env c md = (True, c1)" "ctx_absorbs md [] c1" "mc_pctx c1 = None"
    using digest_init [OF assms(1,2)] assms(3) by metis
  have "length (hmac_pad md b key) < size_mod"
    using evp.length_pad_key [of md key] evp.out_len(3) [of md] by (simp add: hmac_pad_def)
  from digest_update [OF c1(2) this] show ?thesis using c1(1,3) by (auto simp: hmac_start_pad_def hmac_pad_def)
qed

lemma hmac_init:
  assumes "grants env" "hmac_fit h" "length key < size_mod"
  shows "\<exists>h'. HMAC_Init_ex env dup h (Some key) (Some md) = Some (True, h') \<and> hmac_running md key [] h'"
proof -
  obtain c where c: "hmac_key_block env md key (hm_md_ctx h)
      = Some (Inr (pad_key (EVP_MD_block_size md) (evp_hash md) key, c))" "ctx_fit c"
    using hmac_key_block_pad [OF assms(1) _ assms(3)] assms(2) unfolding hmac_fit_def by metis
  obtain i where i: "hmac_start_pad env (hm_i_ctx h) md 0x36 (pad_key (EVP_MD_block_size md) (evp_hash md) key)
      = Some (True, i)" "ctx_absorbs md (hmac_pad md 0x36 key) i" "mc_pctx i = None"
    using hmac_start_pad [OF assms(1)] assms(2) unfolding hmac_fit_def by metis
  obtain u where u: "hmac_start_pad env (hm_o_ctx h) md 0x5c (pad_key (EVP_MD_block_size md) (evp_hash md) key)
      = Some (True, u)" "ctx_absorbs md (hmac_pad md 0x5c key) u" "mc_pctx u = None"
    using hmac_start_pad [OF assms(1)] assms(2) unfolding hmac_fit_def by metis
  have "EVP_MD_CTX_copy_ex env dup c i = (True, i)" by (rule digest_copy [OF assms(1) i(2,3)])
  then show ?thesis
    using c i u by (auto simp: HMAC_Init_ex_def Let_def hmac_running_def hmac_keyed_def dest: ctx_absorbs_fit)
qed

lemma hmac_rewind:
  assumes "grants env" "hmac_keyed md key h"
  shows "\<exists>h'. HMAC_Init_ex env dup h None None = Some (True, h') \<and> hmac_running md key [] h'"
proof -
  have "EVP_MD_CTX_copy_ex env dup (hm_md_ctx h) (hm_i_ctx h) = (True, hm_i_ctx h)"
    using assms(2) by (intro digest_copy [OF assms(1)]) (auto simp: hmac_keyed_def)
  then show ?thesis
    using assms(2)
    by (auto simp: HMAC_Init_ex_def Let_def hmac_running_def hmac_keyed_def dest: ctx_absorbs_fit)
qed

lemma hmac_update:
  assumes "hmac_running md key m h" "length x < size_mod"
  shows "\<exists>h'. HMAC_Update h x = Some h' \<and> hmac_running md key (m @ x) h'"
proof -
  obtain c where "EVP_DigestUpdate (hm_md_ctx h) x = Some c" "ctx_absorbs md (hmac_pad md 0x36 key @ m @ x) c"
    using digest_update [of md "hmac_pad md 0x36 key @ m" "hm_md_ctx h" x] assms
    by (auto simp: hmac_running_def)
  then show ?thesis
    using assms(1) by (auto simp: HMAC_Update_def hmac_running_def hmac_keyed_def dest: ctx_absorbs_fit)
qed

lemma hmac_final:
  assumes "grants env" "hmac_running md key m h"
  shows "\<exists>h'. HMAC_Final env dup h = Some (Some (evp_hmac md key m), h') \<and> hmac_keyed md key h'"
proof -
  have k: "hmac_keyed md key h" and run: "ctx_absorbs md (hmac_pad md 0x36 key @ m) (hm_md_ctx h)"
    using assms(2) by (simp_all add: hmac_running_def)
  define inner where "inner = evp_hash md (hmac_pad md 0x36 key @ m)"
  obtain c where c: "EVP_DigestFinal_ex (hm_md_ctx h) = Some (inner, c)"
    using digest_final [OF run] by (auto simp: inner_def)
  have copy: "EVP_MD_CTX_copy_ex env dup c (hm_o_ctx h) = (True, hm_o_ctx h)"
    using k by (intro digest_copy [OF assms(1)]) (auto simp: hmac_keyed_def)
  have "length inner < size_mod"
    using evp.out_len [of md] by (simp add: inner_def)
  then obtain u where u: "EVP_DigestUpdate (hm_o_ctx h) inner = Some u"
      "ctx_absorbs md (hmac_pad md 0x5c key @ inner) u"
    using digest_update [of md _ "hm_o_ctx h" inner] k by (auto simp: hmac_keyed_def)
  obtain v where v: "EVP_DigestFinal_ex u = Some (evp_hash md (hmac_pad md 0x5c key @ inner), v)" "ctx_fit v"
    using digest_final [OF u(2)] by blast
  have "evp_hash md (hmac_pad md 0x5c key @ inner) = evp_hmac md key m"
    by (simp add: inner_def fips_hmac_def hmac_pad_def Let_def)
  then show ?thesis
    using c copy u(1) v k by (auto simp: HMAC_Final_def hmac_keyed_def)
qed

definition HMAC_Init :: "heap_env \<Rightarrow> ('p \<Rightarrow> 'p option) \<Rightarrow> 'p HMAC_CTX \<Rightarrow> bytes option \<Rightarrow> EVP_MD option
     \<Rightarrow> (bool \<times> 'p HMAC_CTX) option" where
  "HMAC_Init env dup ctx key md =
     HMAC_Init_ex env dup (if key \<noteq> None \<and> md \<noteq> None then HMAC_CTX_init else ctx) key md"

lemma hmac_oneshot:
  assumes "grants env" "length key < size_mod" "length data < size_mod"
  shows "HMAC env (Some md) (Some key) data = Some (Some (evp_hmac md key data))"
proof -
  obtain h where h: "HMAC_Init_ex env (\<lambda>p :: unit. None) HMAC_CTX_init (Some key) (Some md) = Some (True, h)"
      "hmac_running md key [] h"
    using hmac_init [OF assms(1) hmac_fit_init assms(2)] by metis
  obtain h' where h': "HMAC_Update h data = Some h'" "hmac_running md key data h'"
    using hmac_update [OF h(2) assms(3)] by auto
  obtain h'' where "HMAC_Final env (\<lambda>p. None) h' = Some (Some (evp_hmac md key data), h'')"
    using hmac_final [OF assms(1) h'(2)] by metis
  then show ?thesis using h(1) h'(1) by (simp add: HMAC_def)
qed

text \<open>
  The ways a context is used: it is keyed, then messages are authenticated one after the other, each in
  pieces, the context being rewound after each; then it is keyed again, also for another digest. \<open>None\<close>: keying or rewinding
  failed, or a null pointer was followed.
\<close>

fun hmac_updates :: "'p HMAC_CTX \<Rightarrow> bytes list \<Rightarrow> 'p HMAC_CTX option" where
  "hmac_updates h [] = Some h"
| "hmac_updates h (x # xs) = HMAC_Update h x \<bind> (\<lambda>h. hmac_updates h xs)"

fun hmac_messages ::
  "heap_env \<Rightarrow> ('p \<Rightarrow> 'p option) \<Rightarrow> 'p HMAC_CTX \<Rightarrow> bytes list list \<Rightarrow> (bytes option list \<times> 'p HMAC_CTX) option"
where
  "hmac_messages env dup h [] = Some ([], h)"
| "hmac_messages env dup h (xs # ms) = do {
     h \<leftarrow> hmac_updates h xs;
     (out, h) \<leftarrow> HMAC_Final env dup h;
     (ok, h) \<leftarrow> HMAC_Init_ex env dup h None None;
     (outs, h) \<leftarrow> (if ok then hmac_messages env dup h ms else None);
     Some (out # outs, h)
   }"

fun hmac_sessions :: "heap_env \<Rightarrow> ('p \<Rightarrow> 'p option) \<Rightarrow> 'p HMAC_CTX
     \<Rightarrow> (EVP_MD \<times> bytes \<times> bytes list list) list \<Rightarrow> bytes option list list option" where
  "hmac_sessions env dup h [] = Some []"
| "hmac_sessions env dup h ((md, key, ms) # ss) = do {
     (ok, h) \<leftarrow> HMAC_Init_ex env dup h (Some key) (Some md);
     (outs, h) \<leftarrow> (if ok then hmac_messages env dup h ms else None);
     rest \<leftarrow> hmac_sessions env dup h ss;
     Some (outs # rest)
   }"

lemma hmac_updates_running:
  "hmac_running md key m h \<Longrightarrow> \<forall>x \<in> set xs. length x < size_mod \<Longrightarrow>
     \<exists>h'. hmac_updates h xs = Some h' \<and> hmac_running md key (m @ concat xs) h'"
proof (induction xs arbitrary: m h)
  case (Cons x xs)
  obtain h1 where h1: "HMAC_Update h x = Some h1" "hmac_running md key (m @ x) h1"
    using hmac_update [OF Cons.prems(1), of x] Cons.prems(2) by auto
  from Cons.IH [OF h1(2)] show ?case using Cons.prems(2) h1(1) by simp
qed simp

lemma hmac_messages_running:
  "grants env \<Longrightarrow> hmac_running md key [] h \<Longrightarrow> \<forall>xs \<in> set ms. \<forall>x \<in> set xs. length x < size_mod \<Longrightarrow>
     \<exists>h'. hmac_messages env dup h ms = Some (map (\<lambda>xs. Some (evp_hmac md key (concat xs))) ms, h')
       \<and> hmac_running md key [] h'"
proof (induction ms arbitrary: h)
  case (Cons xs ms)
  obtain h1 where h1: "hmac_updates h xs = Some h1" "hmac_running md key (concat xs) h1"
    using hmac_updates_running [OF Cons.prems(2), of xs] Cons.prems(3) by auto
  obtain h2 where h2: "HMAC_Final env dup h1 = Some (Some (evp_hmac md key (concat xs)), h2)"
      "hmac_keyed md key h2"
    using hmac_final [OF Cons.prems(1) h1(2)] by metis
  obtain h3 where h3: "HMAC_Init_ex env dup h2 None None = Some (True, h3)" "hmac_running md key [] h3"
    using hmac_rewind [OF Cons.prems(1) h2(2)] by metis
  from Cons.IH [OF Cons.prems(1) h3(2)] show ?case using Cons.prems(3) h1(1) h2(1) h3(1) by auto
qed simp

lemma hmac_sessions_fit:
  "grants env \<Longrightarrow> hmac_fit h
   \<Longrightarrow> \<forall>(md, key, ms) \<in> set ss. length key < size_mod \<and> (\<forall>xs \<in> set ms. \<forall>x \<in> set xs. length x < size_mod)
   \<Longrightarrow> hmac_sessions env dup h ss
     = Some (map (\<lambda>(md, key, ms). map (\<lambda>xs. Some (evp_hmac md key (concat xs))) ms) ss)"
proof (induction ss arbitrary: h)
  case (Cons s ss)
  obtain md key ms where s: "s = (md, key, ms)" by (cases s)
  obtain h1 where h1: "HMAC_Init_ex env dup h (Some key) (Some md) = Some (True, h1)"
      "hmac_running md key [] h1"
    using hmac_init [OF Cons.prems(1,2), of key dup md] Cons.prems(3) s by auto
  obtain h2 where h2: "hmac_messages env dup h1 ms
      = Some (map (\<lambda>xs. Some (evp_hmac md key (concat xs))) ms, h2)" "hmac_running md key [] h2"
    using hmac_messages_running [OF Cons.prems(1) h1(2), of ms dup] Cons.prems(3) s by auto
  have "hmac_fit h2" using h2(2) by (auto simp: hmac_running_def intro: hmac_keyed_fit)
  from Cons.IH [OF Cons.prems(1) this] show ?case using Cons.prems(3) h1(1) h2(1) by (simp add: s)
qed simp

text \<open>C35 One context serves any sequence of keys, digests and messages: started from
  \<open>HMAC_CTX_init\<close>, each time \<open>HMAC_Init_ex\<close> sets a key and a digest, whatever it was used for before,
  and each message is then given to \<open>HMAC_Update\<close> in pieces, finished with \<open>HMAC_Final\<close> and the context
  rewound with a null key and digest, the codes are those of FIPS 198 for that key and message. No call
  fails when \<open>malloc\<close> does not, and no null pointer is followed.\<close>
theorem hmac_context_reuse:
  assumes "grants env"
    and "\<forall>(md, key, ms) \<in> set ss. length key < size_mod \<and> (\<forall>xs \<in> set ms. \<forall>x \<in> set xs. length x < size_mod)"
  shows "hmac_sessions env dup HMAC_CTX_init ss
    = Some (map (\<lambda>(md, key, ms).
        map (\<lambda>xs. Some (fips_hmac (EVP_MD_block_size md) (evp_hash md) key (concat xs))) ms) ss)"
  by (rule hmac_sessions_fit [OF assms(1) hmac_fit_init assms(2)])

text \<open>A key that is longer than a block, then the empty key with another digest.\<close>
theorem hmac_context_reuse_witness:
  "hmac_sessions \<lparr>libc_malloc = (\<lambda>_. True), garbage = (\<lambda>_. 0xAA)\<rparr> (\<lambda>p :: unit. None) HMAC_CTX_init
     [(EVP_sha256, replicate 65 0xaa, [[[1, 2], [3]], []]), (EVP_sha512, [], [[[7]]])]
   = Some [[Some (fips_hmac 64 (evp_hash EVP_sha256) (replicate 65 0xaa) [1, 2, 3]),
            Some (fips_hmac 64 (evp_hash EVP_sha256) (replicate 65 0xaa) [])],
           [Some (fips_hmac 128 (evp_hash EVP_sha512) [] [7])]]"
  using hmac_context_reuse [of "\<lparr>libc_malloc = (\<lambda>_. True), garbage = (\<lambda>_. 0xAA)\<rparr>"
      "[(EVP_sha256, replicate 65 0xaa, [[[1, 2], [3]], []]), (EVP_sha512, [], [[[7]]])]" "\<lambda>p :: unit. None"]
  by (simp add: grants_def size_mod_def)

text \<open>With an allocator that refuses the block, and with one that grants it.\<close>
theorem evp_digest_hash_witness:
  "EVP_Digest \<lparr>libc_malloc = (\<lambda>n. n < 200), garbage = (\<lambda>_. 0xAA)\<rparr> [1, 2, 3] EVP_sha512 = Some None
   \<and> EVP_Digest \<lparr>libc_malloc = (\<lambda>n. n < 200), garbage = (\<lambda>_. 0xAA)\<rparr> [1, 2, 3] EVP_sha1
     = Some (Some (fips_sha1 [1, 2, 3]))"
  using evp_digest_hash [of "[1, 2, 3]" "\<lparr>libc_malloc = (\<lambda>n. n < 200), garbage = (\<lambda>_. 0xAA)\<rparr>"]
  by (simp add: size_mod_def)

end
