(* ===== verification/Modes.thy ===== *)
theory Modes
  imports Digest_MD32
begin

text \<open>
  The modes of operation that turn a block cipher into a stream cipher: \<open>ctr.c\<close>, \<open>ofb.c\<close> and \<open>cfb.c\<close> of
  \<open>crypto/fipsmodule/modes\<close>. The block cipher under its key is an argument, as in the C code. Input and
  output may be the same buffer: a byte is written only after the byte in its place was read, so an
  operation is a function from the input to the output. The locale \<open>stream_mode\<close> is the contract of the
  three phases of these functions (the rest of a block, whole blocks, the beginning of a block); under
  it they are the byte-at-a-time machine \<open>run\<close>, so that the cuts between calls do not matter.
\<close>

section \<open>Shared definitions\<close>

text \<open>
  \<open>block in i\<close> is the byte \<open>i\<close> of what a \<open>block128_f\<close> writes for the block \<open>in\<close>; \<open>call128\<close> is the call.
\<close>

type_synonym block128_f = "bytes \<Rightarrow> nat \<Rightarrow> u8"

definition call128 :: "block128_f \<Rightarrow> bytes \<Rightarrow> bytes" where
  "call128 block inp = map (block inp) [0..<16]"

definition CRYPTO_load_word_le :: "bytes \<Rightarrow> u64" where
  "CRYPTO_load_word_le p = CRYPTO_load_u64_le p"

definition CRYPTO_store_word_le :: "u64 \<Rightarrow> bytes" where
  "CRYPTO_store_word_le v = CRYPTO_store_u64_le v"

definition CRYPTO_xor16 :: "bytes \<Rightarrow> bytes \<Rightarrow> bytes" where
  "CRYPTO_xor16 a b = concat (map (\<lambda>i.
     CRYPTO_store_word_le (CRYPTO_load_word_le (drop i a) XOR CRYPTO_load_word_le (drop i b))) [0, 8])"

text \<open>The first loop: \<open>n\<close> is the position in the block \<open>buf\<close>.\<close>

fun xor_head :: "bytes \<Rightarrow> nat \<Rightarrow> bytes \<Rightarrow> bytes \<times> bytes \<times> nat" where
  "xor_head buf n [] = ([], [], n)"
| "xor_head buf n (x # xs) =
     (if n = 0 then ([], x # xs, n)
      else let (out, rest, m) = xor_head buf ((n + 1) mod 16) xs in ((x XOR buf ! n) # out, rest, m))"

text \<open>The last loop, which starts at \<open>n = 0\<close>.\<close>

definition xor_tail :: "bytes \<Rightarrow> nat \<Rightarrow> bytes \<Rightarrow> bytes \<times> nat" where
  "xor_tail buf n inp = (map (\<lambda>i. inp ! i XOR buf ! i) [n..<n + length inp], n + length inp)"

section \<open>Counter mode\<close>

fun inc_loop :: "nat \<Rightarrow> u32 \<Rightarrow> bytes \<Rightarrow> bytes" where
  "inc_loop 0 c counter = counter"
| "inc_loop (Suc n) c counter =
     (let c = c + ucast (counter ! n) in inc_loop n (drop_bit 8 c) (counter[n := ucast c]))"

definition ctr128_inc :: "bytes \<Rightarrow> bytes" where
  "ctr128_inc counter = inc_loop 16 1 counter"

definition ctr96_inc :: "bytes \<Rightarrow> bytes" where
  "ctr96_inc counter = inc_loop 12 1 counter"

text \<open>\<open>ivec\<close> and \<open>ecount_buf\<close>; the position \<open>num\<close> is passed beside them.\<close>

type_synonym ctr_state = "bytes \<times> bytes"

fun ctr_blocks :: "block128_f \<Rightarrow> ctr_state \<Rightarrow> nat \<Rightarrow> bytes \<Rightarrow> bytes \<times> ctr_state \<times> nat \<times> bytes" where
  "ctr_blocks block (ivec, ecount) n inp =
     (if length inp \<ge> 16 then
        let ecount = call128 block ivec; ivec = ctr128_inc ivec;
            (out, r) = ctr_blocks block (ivec, ecount) 0 (drop 16 inp)
        in (CRYPTO_xor16 inp ecount @ out, r)
      else ([], (ivec, ecount), n, inp))"

text \<open>The output, the new \<open>ivec\<close> and \<open>ecount_buf\<close>, and the new \<open>num\<close>.\<close>

definition CRYPTO_ctr128_encrypt ::
  "block128_f \<Rightarrow> ctr_state \<Rightarrow> nat \<Rightarrow> bytes \<Rightarrow> bytes \<times> ctr_state \<times> nat" where
  "CRYPTO_ctr128_encrypt block s num inp =
     (let (out1, inp, n) = xor_head (snd s) num inp;
          (out2, (ivec, ecount), n, inp) = ctr_blocks block s n inp
      in if inp = [] then (out1 @ out2, (ivec, ecount), n)
         else let ecount = call128 block ivec;
                  ivec = ctr128_inc ivec;
                  (out3, n) = xor_tail ecount n inp
              in (out1 @ out2 @ out3, (ivec, ecount), n))"

text \<open>
  The variant for a function that encrypts many blocks at once, with a counter in the last four bytes of
  \<open>ivec\<close> that must not overflow. \<open>func in ivec\<close> is its output.
\<close>

type_synonym ctr128_f = "bytes \<Rightarrow> bytes \<Rightarrow> bytes"

definition ctr32_step :: "nat \<Rightarrow> u32 \<Rightarrow> nat \<times> u32" where
  "ctr32_step blocks ctr32 =
     (let blocks = (if blocks > 2 ^ 28 then 2 ^ 28 else blocks);
          ctr32 = ctr32 + of_nat blocks
      in if unat ctr32 < blocks then (blocks - unat ctr32, 0) else (blocks, ctr32))"

definition ctr32_advance :: "bytes \<Rightarrow> u32 \<Rightarrow> bytes" where
  "ctr32_advance ivec ctr32 =
     (let ivec = memcpy_at ivec 12 (CRYPTO_store_u32_be ctr32)
      in if ctr32 = 0 then ctr96_inc ivec else ivec)"

lemma ctr32_step_pos: "0 < k \<Longrightarrow> 0 < fst (ctr32_step k c)"
  by (auto simp: ctr32_step_def Let_def)

function ctr32_blocks :: "ctr128_f \<Rightarrow> bytes \<Rightarrow> u32 \<Rightarrow> bytes \<Rightarrow> bytes \<times> bytes \<times> u32 \<times> bytes" where
  "ctr32_blocks func ivec ctr32 inp =
     (if length inp \<ge> 16 then
        let (blocks, ctr32) = ctr32_step (length inp div 16) ctr32;
            out = func (take (16 * blocks) inp) ivec;
            ivec = ctr32_advance ivec ctr32;
            (outs, r) = ctr32_blocks func ivec ctr32 (drop (16 * blocks) inp)
        in (out @ outs, r)
      else ([], ivec, ctr32, inp))"
  by pat_completeness auto
termination
proof (relation "measure (\<lambda>(func, ivec, ctr32, inp). length inp)", goal_cases)
  case (2 func ivec ctr32 inp x blocks c out iv)
  then show ?case using ctr32_step_pos [of "length inp div 16" ctr32]
    by (auto simp: prod_eq_iff div_greater_zero_iff)
qed simp

definition CRYPTO_ctr128_encrypt_ctr32 ::
  "ctr128_f \<Rightarrow> ctr_state \<Rightarrow> nat \<Rightarrow> bytes \<Rightarrow> bytes \<times> ctr_state \<times> nat" where
  "CRYPTO_ctr128_encrypt_ctr32 func s num inp =
     (let (ivec, ecount) = s;
          (out1, inp, n) = xor_head ecount num inp;
          ctr32 = CRYPTO_load_u32_be (drop 12 ivec);
          (out2, ivec, ctr32, inp) = ctr32_blocks func ivec ctr32 inp
      in if inp = [] then (out1 @ out2, (ivec, ecount), n)
         else let ecount = func (replicate 16 0) ivec;
                  ctr32 = ctr32 + 1;
                  ivec = ctr32_advance ivec ctr32;
                  (out3, n) = xor_tail ecount n inp
              in (out1 @ out2 @ out3, (ivec, ecount), n))"

section \<open>Output feedback\<close>

fun ofb_blocks :: "block128_f \<Rightarrow> bytes \<Rightarrow> nat \<Rightarrow> bytes \<Rightarrow> bytes \<times> bytes \<times> nat \<times> bytes" where
  "ofb_blocks block ivec n inp =
     (if length inp \<ge> 16 then
        let ivec = call128 block ivec;
            (out, r) = ofb_blocks block ivec 0 (drop 16 inp)
        in (CRYPTO_xor16 inp ivec @ out, r)
      else ([], ivec, n, inp))"

definition CRYPTO_ofb128_encrypt :: "block128_f \<Rightarrow> bytes \<Rightarrow> nat \<Rightarrow> bytes \<Rightarrow> bytes \<times> bytes \<times> nat" where
  "CRYPTO_ofb128_encrypt block ivec num inp =
     (let (out1, inp, n) = xor_head ivec num inp;
          (out2, ivec, n, inp) = ofb_blocks block ivec n inp
      in if inp = [] then (out1 @ out2, ivec, n)
         else let ivec = call128 block ivec;
                  (out3, n) = xor_tail ivec n inp
              in (out1 @ out2 @ out3, ivec, n))"

section \<open>Cipher feedback\<close>

text \<open>Encryption and decryption: the first loop, 64 bits of a block, and the last loop, from \<open>n = 0\<close>.\<close>

fun cfb_head :: "bool \<Rightarrow> bytes \<Rightarrow> nat \<Rightarrow> bytes \<Rightarrow> bytes \<times> bytes \<times> nat \<times> bytes" where
  "cfb_head enc ivec n [] = ([], ivec, n, [])"
| "cfb_head enc ivec n (x # xs) =
     (if n = 0 then ([], ivec, n, x # xs)
      else let y = ivec ! n XOR x;
               (out, r) = cfb_head enc (ivec[n := (if enc then y else x)]) ((n + 1) mod 16) xs
           in (y # out, r))"

definition cfb_word :: "bool \<Rightarrow> bytes \<times> bytes \<Rightarrow> nat \<Rightarrow> bytes \<Rightarrow> bytes \<times> bytes" where
  "cfb_word enc oi n inp =
     (let (out, ivec) = oi;
          t = CRYPTO_load_word_le (drop n inp);
          y = CRYPTO_load_word_le (drop n ivec) XOR t
      in (out @ CRYPTO_store_word_le y,
          memcpy_at ivec n (CRYPTO_store_word_le (if enc then y else t))))"

function cfb_words :: "bool \<Rightarrow> nat \<Rightarrow> bytes \<Rightarrow> bytes \<times> bytes \<Rightarrow> bytes \<times> bytes" where
  "cfb_words enc n inp oi = (if n < 16 then cfb_words enc (n + 8) inp (cfb_word enc oi n inp) else oi)"
  by pat_completeness auto
termination
  by (relation "measure (\<lambda>(enc, n, inp, oi). 16 - n)") auto

fun cfb_blocks :: "block128_f \<Rightarrow> bool \<Rightarrow> bytes \<Rightarrow> nat \<Rightarrow> bytes \<Rightarrow> bytes \<times> bytes \<times> nat \<times> bytes" where
  "cfb_blocks block enc ivec n inp =
     (if length inp \<ge> 16 then
        let ivec = call128 block ivec;
            (out, ivec) = cfb_words enc n inp ([], ivec);
            (outs, r) = cfb_blocks block enc ivec 0 (drop 16 inp)
        in (out @ outs, r)
      else ([], ivec, n, inp))"

fun cfb_tail :: "bool \<Rightarrow> bytes \<Rightarrow> nat \<Rightarrow> bytes \<Rightarrow> bytes \<times> bytes \<times> nat" where
  "cfb_tail enc ivec n [] = ([], ivec, n)"
| "cfb_tail enc ivec n (x # xs) =
     (let y = ivec ! n XOR x;
          (out, r) = cfb_tail enc (ivec[n := (if enc then y else x)]) (n + 1) xs
      in (y # out, r))"

definition CRYPTO_cfb128_encrypt ::
  "block128_f \<Rightarrow> bool \<Rightarrow> bytes \<Rightarrow> nat \<Rightarrow> bytes \<Rightarrow> bytes \<times> bytes \<times> nat" where
  "CRYPTO_cfb128_encrypt block enc ivec num inp =
     (let (out1, ivec, n, inp) = cfb_head enc ivec num inp;
          (out2, ivec, n, inp) = cfb_blocks block enc ivec n inp
      in if inp = [] then (out1 @ out2, ivec, n)
         else let (out3, ivec, n) = cfb_tail enc (call128 block ivec) n inp
              in (out1 @ out2 @ out3, ivec, n))"

section \<open>Words are xored byte by byte\<close>

lemma xor_digit: "(of_nat (v XOR w) :: u8) = of_nat v XOR of_nat w"
  by (rule of_nat_xor_eq)

lemma xor_div_256: "(v XOR w) div 256 = v div 256 XOR w div (256 :: nat)"
  using drop_bit_xor [of 8 v w] by (simp add: drop_bit_eq_div)

lemma le_bytes_xor: "le_bytes n (v XOR w) = map2 (XOR) (le_bytes n v) (le_bytes n w)"
  by (induction n arbitrary: v w) (simp_all add: of_nat_xor_eq xor_div_256)

lemma store_load_word: "8 \<le> length p \<Longrightarrow> CRYPTO_store_word_le (CRYPTO_load_word_le p) = take 8 p"
proof -
  assume "8 \<le> length p"
  then have l: "length (take 8 p) = 8" by simp
  then have "unat (load_be (rev (take 8 p)) :: u64) = be_value (rev (take 8 p))"
    by (subst unat_load_be_exact) auto
  then have "CRYPTO_store_word_le (CRYPTO_load_word_le p) = rev (be_bytes 8 (be_value (rev (take 8 p))))"
    by (simp only: CRYPTO_store_word_le_def CRYPTO_load_word_le_def CRYPTO_load_u64_le_def
        CRYPTO_store_u64_le_def rev_be_bytes)
  also have "\<dots> = take 8 p" using l by (simp add: be_bytes_of)
  finally show ?thesis .
qed

lemma store_word_xor:
  "CRYPTO_store_word_le (v XOR w) = map2 (XOR) (CRYPTO_store_word_le v) (CRYPTO_store_word_le w)"
  by (simp only: CRYPTO_store_word_le_def CRYPTO_store_u64_le_def unsigned_xor_eq le_bytes_xor)

lemma xor_words:
  "8 \<le> length a \<Longrightarrow> 8 \<le> length b \<Longrightarrow>
     CRYPTO_store_word_le (CRYPTO_load_word_le a XOR CRYPTO_load_word_le b) = map2 (XOR) (take 8 a) (take 8 b)"
  by (simp only: store_word_xor store_load_word)

lemma take_16: "take 16 xs = take 8 xs @ take 8 (drop 8 xs)"
  using take_add [of 8 8 xs] by simp

lemma xor16: "16 \<le> length a \<Longrightarrow> 16 \<le> length b \<Longrightarrow> CRYPTO_xor16 a b = map2 (XOR) (take 16 a) (take 16 b)"
  by (simp add: CRYPTO_xor16_def xor_words take_16)

lemma length_call128 [simp]: "length (call128 block b) = 16"
  by (simp add: call128_def)

section \<open>A mode is a machine that takes a byte at a time\<close>

text \<open>
  \<open>mix s n x\<close> treats the byte \<open>x\<close> at position \<open>n\<close> of a block; \<open>refill\<close> prepares the state for a new
  block. \<open>mixes\<close> stays in a block, \<open>run\<close> goes from block to block.
\<close>

fun mixes :: "('s \<Rightarrow> nat \<Rightarrow> u8 \<Rightarrow> u8 \<times> 's) \<Rightarrow> 's \<Rightarrow> nat \<Rightarrow> bytes \<Rightarrow> bytes \<times> 's" where
  "mixes mix s n [] = ([], s)"
| "mixes mix s n (x # xs) =
     (case mix s n x of (y, s) \<Rightarrow> map_prod ((#) y) id (mixes mix s (Suc n) xs))"

fun run :: "('s \<Rightarrow> 's) \<Rightarrow> ('s \<Rightarrow> nat \<Rightarrow> u8 \<Rightarrow> u8 \<times> 's) \<Rightarrow> 's \<Rightarrow> nat \<Rightarrow> bytes \<Rightarrow> bytes \<times> 's \<times> nat" where
  "run refill mix s n [] = ([], s, n)"
| "run refill mix s n (x # xs) =
     (case mix (if n = 0 then refill s else s) n x of
        (y, s) \<Rightarrow> map_prod ((#) y) id (run refill mix s ((n + 1) mod 16) xs))"

text \<open>Consecutive calls, each with a piece of the input.\<close>

fun calls :: "('s \<Rightarrow> nat \<Rightarrow> bytes \<Rightarrow> bytes \<times> 's \<times> nat) \<Rightarrow> 's \<Rightarrow> nat \<Rightarrow> bytes list \<Rightarrow> bytes list \<times> 's \<times> nat" where
  "calls code s n [] = ([], s, n)"
| "calls code s n (x # xs) =
     (case code s n x of (y, s, n) \<Rightarrow> map_prod ((#) y) id (calls code s n xs))"

lemma run_append:
  "run refill mix s n (xs @ ys) =
     (case run refill mix s n xs of (zs, s, n) \<Rightarrow> map_prod ((@) zs) id (run refill mix s n ys))"
  by (induction refill mix s n xs rule: run.induct)
    (auto simp: map_prod_def split: prod.splits if_splits)

lemma run_within:
  "0 < n \<Longrightarrow> n < 16 \<Longrightarrow> n + length xs \<le> 16 \<Longrightarrow> run refill mix s n xs =
     (case mixes mix s n xs of (ys, s) \<Rightarrow> (ys, s, (n + length xs) mod 16))"
proof (induction xs arbitrary: s n)
  case (Cons x xs)
  then show ?case
    by (cases "n = 15") (auto simp: map_prod_def split: prod.splits)
qed simp

lemma run_from_0:
  "xs \<noteq> [] \<Longrightarrow> length xs \<le> 16 \<Longrightarrow> run refill mix s 0 xs =
     (case mixes mix (refill s) 0 xs of (ys, s) \<Rightarrow> (ys, s, length xs mod 16))"
  by (cases xs) (auto simp: run_within map_prod_def split: prod.splits)

lemma run_length: "length (fst (run refill mix s n xs)) = length xs"
  by (induction xs arbitrary: s n) (auto split: prod.splits)

lemma run_pos: "n < 16 \<Longrightarrow> snd (snd (run refill mix s n xs)) = (n + length xs) mod 16"
  by (induction xs arbitrary: s n) (auto split: prod.splits simp: mod_simps)

locale stream_mode =
  fixes refill :: "'s \<Rightarrow> 's"
    and mix :: "'s \<Rightarrow> nat \<Rightarrow> u8 \<Rightarrow> u8 \<times> 's"
    and code :: "'s \<Rightarrow> nat \<Rightarrow> bytes \<Rightarrow> bytes \<times> 's \<times> nat"
  assumes code_Nil: "code s n [] = ([], s, n)"
    and code_rest: "0 < n \<Longrightarrow> n < 16 \<Longrightarrow> code s n (x # xs) =
       (case mix s n x of (y, s) \<Rightarrow> map_prod ((#) y) id (code s ((n + 1) mod 16) xs))"
    and code_block: "16 \<le> length xs \<Longrightarrow> code s 0 xs =
       (case mixes mix (refill s) 0 (take 16 xs) of
          (ys, s) \<Rightarrow> map_prod ((@) ys) id (code s 0 (drop 16 xs)))"
    and code_tail: "xs \<noteq> [] \<Longrightarrow> length xs < 16 \<Longrightarrow> code s 0 xs =
       (case mixes mix (refill s) 0 xs of (ys, s) \<Rightarrow> (ys, s, length xs))"
begin

text \<open>The routine is the machine.\<close>

lemma code_run: "n < 16 \<Longrightarrow> code s n xs = run refill mix s n xs"
proof (induction "length xs" arbitrary: s n xs rule: less_induct)
  case less
  consider "xs = []" | x xs' where "xs = x # xs'" "0 < n"
    | "n = 0" "xs \<noteq> []" "length xs < 16" | "n = 0" "16 \<le> length xs"
    by (cases xs; cases "n = 0"; fastforce)
  then show ?case
  proof cases
    case 1
    then show ?thesis by (simp add: code_Nil)
  next
    case 2
    then show ?thesis using less by (auto simp: code_rest split: prod.splits)
  next
    case 3
    then show ?thesis by (simp add: code_tail run_from_0 split: prod.splits)
  next
    case 4
    obtain ys s' where m: "mixes mix (refill s) 0 (take 16 xs) = (ys, s')" by fastforce
    have "xs \<noteq> []" using 4 by auto
    then have "run refill mix s 0 (take 16 xs) = (ys, s', 0)"
      using run_from_0 [of "take 16 xs" refill mix s] m 4 by (simp add: min_absorb2)
    moreover have "code s' 0 (drop 16 xs) = run refill mix s' 0 (drop 16 xs)"
      using less.hyps 4 by simp
    ultimately show ?thesis
      using run_append [of refill mix s 0 "take 16 xs" "drop 16 xs"] 4 m by (simp add: code_block)
  qed
qed

text \<open>The cuts between calls do not matter.\<close>

lemma calls_run: "n < 16 \<Longrightarrow> map_prod concat id (calls code s n xss) = run refill mix s n (concat xss)"
proof (induction xss arbitrary: s n)
  case (Cons xs xss)
  obtain ys s' n' where c: "code s n xs = (ys, s', n')" by (cases "code s n xs")
  then have r: "run refill mix s n xs = (ys, s', n')" using Cons.prems by (simp add: code_run)
  then have "n' < 16" using run_pos [OF Cons.prems, of refill mix s xs] by simp
  from Cons.IH [OF this, of s'] r c show ?case
    by (cases "calls code s' n' xss"; cases "run refill mix s' n' (concat xss)") (simp add: run_append)
qed simp

end

locale mode_pair =
  enc: stream_mode refill mix_enc code_enc + dec: stream_mode refill mix_dec code_dec
  for refill :: "'s \<Rightarrow> 's" and mix_enc mix_dec :: "'s \<Rightarrow> nat \<Rightarrow> u8 \<Rightarrow> u8 \<times> 's"
    and code_enc code_dec :: "'s \<Rightarrow> nat \<Rightarrow> bytes \<Rightarrow> bytes \<times> 's \<times> nat" +
  assumes mix_inverse: "mix_enc s n x = (y, s') \<Longrightarrow> mix_dec s n y = (x, s')"
begin

lemma run_inverse: "run refill mix_enc s n xs = (ys, r) \<Longrightarrow> run refill mix_dec s n ys = (xs, r)"
proof (induction xs arbitrary: s n ys r)
  case (Cons x xs)
  obtain y s' where m: "mix_enc (if n = 0 then refill s else s) n x = (y, s')" by fastforce
  obtain zs r' where r: "run refill mix_enc s' ((n + 1) mod 16) xs = (zs, r')" by (rule prod.exhaust)
  from Cons.IH [OF r] Cons.prems m mix_inverse [OF m] r show ?case by (auto split: if_splits)
qed simp

text \<open>Decryption recovers the input, and ends in the same state, however both are cut into calls.\<close>

lemma roundtrip:
  assumes "n < 16" "calls code_enc s n xss = (yss, r)" "concat zss = concat yss"
  shows "map_prod concat id (calls code_dec s n zss) = (concat xss, r)"
proof -
  have "run refill mix_enc s n (concat xss) = (concat zss, r)"
    using enc.calls_run [OF assms(1), of s xss] assms(2,3) by simp
  from run_inverse [OF this] show ?thesis using dec.calls_run [OF assms(1), of s zss] by simp
qed

end


section \<open>The modes keep the contract\<close>

definition xor_mix :: "('s \<Rightarrow> bytes) \<Rightarrow> 's \<Rightarrow> nat \<Rightarrow> u8 \<Rightarrow> u8 \<times> 's" where
  "xor_mix buf s n x = (x XOR buf s ! n, s)"

definition cfb_mix :: "bool \<Rightarrow> bytes \<Rightarrow> nat \<Rightarrow> u8 \<Rightarrow> u8 \<times> bytes" where
  "cfb_mix enc ivec n x = (let y = ivec ! n XOR x in (y, ivec[n := (if enc then y else x)]))"

definition ctr_refill :: "block128_f \<Rightarrow> ctr_state \<Rightarrow> ctr_state" where
  "ctr_refill block s = (ctr128_inc (fst s), call128 block (fst s))"

lemma map_index_map2:
  "n + length xs \<le> length ys \<Longrightarrow> map (\<lambda>i. f (xs ! i) (ys ! (n + i))) [0..<length xs] = map2 f xs (drop n ys)"
  by (rule nth_equalityI) auto

lemma mixes_xor:
  "n + length xs \<le> length (buf s) \<Longrightarrow> mixes (xor_mix buf) s n xs = (map2 (XOR) xs (drop n (buf s)), s)"
proof (induction xs arbitrary: n)
  case (Cons x xs)
  then have "drop n (buf s) = buf s ! n # drop (Suc n) (buf s)" by (simp add: Cons_nth_drop_Suc)
  with Cons show ?case by (simp add: xor_mix_def)
qed simp

lemma xor_tail_map2: "length xs \<le> length buf \<Longrightarrow> xor_tail buf 0 xs = (map2 (XOR) xs buf, length xs)"
  using map_index_map2 [of 0 xs buf "(XOR)"] by (simp add: xor_tail_def)

lemma xor_head_0: "xor_head buf 0 xs = ([], xs, 0)"
  by (cases xs) simp_all

declare ctr_blocks.simps [simp del] ofb_blocks.simps [simp del] cfb_blocks.simps [simp del]
  ctr32_blocks.simps [simp del] cfb_words.simps [simp del]

interpretation ctr: mode_pair "ctr_refill block" "xor_mix snd" "xor_mix snd"
  "CRYPTO_ctr128_encrypt block" "CRYPTO_ctr128_encrypt block" for block
proof unfold_locales
  show "CRYPTO_ctr128_encrypt block s n [] = ([], s, n)" for s n
    by (cases s) (simp add: CRYPTO_ctr128_encrypt_def ctr_blocks.simps)
  show "CRYPTO_ctr128_encrypt block s n (x # xs) =
       (case xor_mix snd s n x of (y, s) \<Rightarrow>
          map_prod ((#) y) id (CRYPTO_ctr128_encrypt block s ((n + 1) mod 16) xs))" if "0 < n" for s n x xs
    using that by (auto simp: CRYPTO_ctr128_encrypt_def xor_mix_def Let_def split: prod.splits)
  show "CRYPTO_ctr128_encrypt block s 0 xs =
       (case mixes (xor_mix snd) (ctr_refill block s) 0 (take 16 xs) of
          (ys, s) \<Rightarrow> map_prod ((@) ys) id (CRYPTO_ctr128_encrypt block s 0 (drop 16 xs)))"
    if "16 \<le> length xs" for s xs
    using that by (cases s)
      (auto simp: CRYPTO_ctr128_encrypt_def xor_head_0 ctr_blocks.simps [of block _ _ _ xs] mixes_xor ctr_refill_def
        xor16 Let_def split: prod.splits)
  show "CRYPTO_ctr128_encrypt block s 0 xs =
       (case mixes (xor_mix snd) (ctr_refill block s) 0 xs of (ys, s) \<Rightarrow> (ys, s, length xs))"
    if "xs \<noteq> []" "length xs < 16" for s xs
    using that by (cases s)
      (simp add: CRYPTO_ctr128_encrypt_def xor_head_0 ctr_blocks.simps mixes_xor ctr_refill_def xor_tail_map2 Let_def)
qed (auto simp: xor_mix_def xor.assoc)

interpretation ofb: mode_pair "call128 block" "xor_mix id" "xor_mix id"
  "CRYPTO_ofb128_encrypt block" "CRYPTO_ofb128_encrypt block" for block
proof unfold_locales
  show "CRYPTO_ofb128_encrypt block s n [] = ([], s, n)" for s n
    by (simp add: CRYPTO_ofb128_encrypt_def ofb_blocks.simps)
  show "CRYPTO_ofb128_encrypt block s n (x # xs) =
       (case xor_mix id s n x of (y, s) \<Rightarrow>
          map_prod ((#) y) id (CRYPTO_ofb128_encrypt block s ((n + 1) mod 16) xs))" if "0 < n" for s n x xs
    using that by (auto simp: CRYPTO_ofb128_encrypt_def xor_mix_def Let_def split: prod.splits)
  show "CRYPTO_ofb128_encrypt block s 0 xs =
       (case mixes (xor_mix id) (call128 block s) 0 (take 16 xs) of
          (ys, s) \<Rightarrow> map_prod ((@) ys) id (CRYPTO_ofb128_encrypt block s 0 (drop 16 xs)))"
    if "16 \<le> length xs" for s xs
    using that by (auto simp: CRYPTO_ofb128_encrypt_def xor_head_0 ofb_blocks.simps [of block _ _ xs]
        mixes_xor xor16 Let_def split: prod.splits)
  show "CRYPTO_ofb128_encrypt block s 0 xs =
       (case mixes (xor_mix id) (call128 block s) 0 xs of (ys, s) \<Rightarrow> (ys, s, length xs))"
    if "xs \<noteq> []" "length xs < 16" for s xs
    using that by (simp add: CRYPTO_ofb128_encrypt_def xor_head_0 ofb_blocks.simps mixes_xor xor_tail_map2 Let_def)
qed (auto simp: xor_mix_def xor.assoc)

text \<open>Cipher feedback writes the ciphertext over the block, in eight-byte words or byte by byte.\<close>

lemma cfb_mixes:
  "n + length xs \<le> length iv \<Longrightarrow> mixes (cfb_mix enc) iv n xs =
     (map2 (XOR) (drop n iv) xs,
      take n iv @ (if enc then map2 (XOR) (drop n iv) xs else xs) @ drop (n + length xs) iv)"
proof (induction xs arbitrary: n iv)
  case (Cons x xs)
  then have d: "drop n iv = iv ! n # drop (Suc n) iv" by (simp add: Cons_nth_drop_Suc)
  have "drop (Suc n) (iv[n := c]) = drop (Suc n) iv" for c by simp
  with Cons d show ?case
    by (simp add: cfb_mix_def Let_def take_Suc_conv_app_nth take_update_cancel nth_append)
qed simp

lemma cfb_tail_mixes:
  "cfb_tail enc iv n xs = (case mixes (cfb_mix enc) iv n xs of (ys, s) \<Rightarrow> (ys, s, n + length xs))"
  by (induction enc iv n xs rule: cfb_tail.induct) (auto simp: cfb_mix_def Let_def split: prod.splits)

lemma cfb_head_0: "cfb_head enc iv 0 xs = ([], iv, 0, xs)"
  by (cases xs) simp_all

lemma cfb_words_16:
  assumes "length iv = 16" "16 \<le> length xs"
  shows "cfb_words enc 0 xs ([], iv) =
    (map2 (XOR) iv (take 16 xs), if enc then map2 (XOR) iv (take 16 xs) else take 16 xs)"
proof -
  obtain a b where iv: "iv = a @ b" "length a = 8" "length b = 8"
    using assms(1) that [of "take 8 iv" "drop 8 iv"] by simp
  have "cfb_words enc 0 xs ([], iv) = cfb_word enc (cfb_word enc ([], iv) 0 xs) 8 xs"
    by (simp add: cfb_words.simps)
  then show ?thesis
    using assms(2) by (simp add: cfb_word_def iv xor_words store_load_word memcpy_at_def Let_def take_16)
qed

lemma cfb_laws:
  shows "CRYPTO_cfb128_encrypt block enc s n [] = ([], s, n)"
    and "0 < n \<Longrightarrow> CRYPTO_cfb128_encrypt block enc s n (x # xs) =
       (case cfb_mix enc s n x of (y, s) \<Rightarrow>
          map_prod ((#) y) id (CRYPTO_cfb128_encrypt block enc s ((n + 1) mod 16) xs))"
    and "16 \<le> length xs \<Longrightarrow> CRYPTO_cfb128_encrypt block enc s 0 xs =
       (case mixes (cfb_mix enc) (call128 block s) 0 (take 16 xs) of
          (ys, s) \<Rightarrow> map_prod ((@) ys) id (CRYPTO_cfb128_encrypt block enc s 0 (drop 16 xs)))"
    and "xs \<noteq> [] \<Longrightarrow> length xs < 16 \<Longrightarrow> CRYPTO_cfb128_encrypt block enc s 0 xs =
       (case mixes (cfb_mix enc) (call128 block s) 0 xs of (ys, s) \<Rightarrow> (ys, s, length xs))"
proof -
  show "CRYPTO_cfb128_encrypt block enc s n [] = ([], s, n)"
    by (simp add: CRYPTO_cfb128_encrypt_def cfb_blocks.simps)
  show "CRYPTO_cfb128_encrypt block enc s n (x # xs) =
       (case cfb_mix enc s n x of (y, s) \<Rightarrow>
          map_prod ((#) y) id (CRYPTO_cfb128_encrypt block enc s ((n + 1) mod 16) xs))" if "0 < n"
    using that by (auto simp: CRYPTO_cfb128_encrypt_def cfb_mix_def Let_def split: prod.splits)
  show "CRYPTO_cfb128_encrypt block enc s 0 xs =
       (case mixes (cfb_mix enc) (call128 block s) 0 (take 16 xs) of
          (ys, s) \<Rightarrow> map_prod ((@) ys) id (CRYPTO_cfb128_encrypt block enc s 0 (drop 16 xs)))"
    if "16 \<le> length xs"
    using that by (auto simp: CRYPTO_cfb128_encrypt_def cfb_head_0 cfb_blocks.simps [of block enc _ _ xs]
        cfb_mixes cfb_words_16 Let_def split: prod.splits)
  show "CRYPTO_cfb128_encrypt block enc s 0 xs =
       (case mixes (cfb_mix enc) (call128 block s) 0 xs of (ys, s) \<Rightarrow> (ys, s, length xs))"
    if "xs \<noteq> []" "length xs < 16"
    using that by (simp add: CRYPTO_cfb128_encrypt_def cfb_head_0 cfb_blocks.simps cfb_tail_mixes Let_def
        split: prod.splits)
qed

interpretation cfb: mode_pair "call128 block" "cfb_mix True" "cfb_mix False"
  "CRYPTO_cfb128_encrypt block True" "CRYPTO_cfb128_encrypt block False" for block
  by unfold_locales (auto simp: cfb_laws cfb_mix_def Let_def xor.assoc [symmetric])

section \<open>Counters and keystreams\<close>

lemma inc_loop_value:
  "unat c < 2 ^ 16 \<Longrightarrow> length ys = n \<Longrightarrow> inc_loop n c (ys @ zs) = be_bytes n (be_value ys + unat c) @ zs"
proof (induction n arbitrary: c ys zs)
  case (Suc n)
  then obtain ys' b where ys: "ys = ys' @ [b]" "length ys' = n" by (cases ys rule: rev_cases) auto
  let ?c = "c + ucast b"
  have "unat b < 2 ^ 32" by (rule less_le_trans [OF u8_less]) simp
  then have b: "unat (ucast b :: u32) = unat b" by (simp add: unsigned_ucast_eq take_bit_nat_eq_self)
  have "unat c + unat b < 2 ^ 16 + 256" by (rule add_strict_mono [OF Suc.prems(1) u8_less])
  then have sum: "unat c + unat b < 65792" by simp
  then have u: "unat ?c = unat c + unat b" by (simp add: unat_word_ariths(1) b)
  have "unat (drop_bit 8 ?c) = (unat c + unat b) div 256"
    by (simp only: unat_drop_bit_eq u) (simp add: drop_bit_eq_div)
  moreover have "(unat c + unat b) div 256 < 2 ^ 16"
    by (rule less_mult_imp_div_less) (use sum in simp)
  ultimately have IH: "inc_loop n (drop_bit 8 ?c) (ys' @ ucast ?c # zs)
      = be_bytes n (be_value ys' + (unat c + unat b) div 256) @ ucast ?c # zs"
    using Suc.IH [of "drop_bit 8 ?c" ys'] ys(2) by simp
  have "(ucast ?c :: u8) = of_nat (unat c + unat b)"
    by (metis u of_nat_unat)
  also have "\<dots> = of_nat (unat c + unat b + be_value ys' * 256)"
    by (simp only: word_unat_eq_iff unat_of_nat_u8 mod_mult_self1)
  also have "unat c + unat b + be_value ys' * 256 = be_value ys' * 256 + unat b + unat c" by simp
  finally have "(ucast ?c :: u8) = of_nat (be_value ys + unat c)" by (simp add: ys byte_simps)
  moreover have "(be_value ys + unat c) div 256 = be_value ys' + (unat c + unat b) div 256"
    by (simp add: ys byte_simps add.assoc add.commute)
  moreover have "(ys' @ b # zs)[n := v] = ys' @ v # zs" for v using ys(2) by auto
  ultimately show ?case using IH ys(2) by (simp add: ys nth_append Let_def)
qed simp

lemma ctr128_inc_value: "length iv = 16 \<Longrightarrow> ctr128_inc iv = be_bytes 16 (be_value iv + 1)"
  using inc_loop_value [of 1 iv 16 "[]"] by (simp add: ctr128_inc_def)

lemma ctr96_inc_value:
  "length a = 12 \<Longrightarrow> ctr96_inc (a @ b) = be_bytes 12 (be_value a + 1) @ b"
  using inc_loop_value [of 1 a 12 b] by (simp add: ctr96_inc_def)

text \<open>The counter block of the \<open>i\<close>-th block, and a byte of the keystream of SP 800-38A.\<close>

definition counter_block :: "bytes \<Rightarrow> nat \<Rightarrow> bytes" where
  "counter_block iv i = be_bytes 16 (be_value iv + i)"

definition ctr_byte :: "block128_f \<Rightarrow> bytes \<Rightarrow> nat \<Rightarrow> u8" where
  "ctr_byte block iv i = block (counter_block iv (i div 16)) (i mod 16)"

lemma counter_block_0: "length iv = 16 \<Longrightarrow> counter_block iv 0 = iv"
  by (simp add: counter_block_def be_bytes_of)

lemma counter_block_add: "counter_block (counter_block iv i) j = counter_block iv (i + j)"
proof -
  have "counter_block (counter_block iv i) j = be_bytes 16 (((be_value iv + i) mod 256 ^ 16 + j) mod 256 ^ 16)"
    by (simp only: counter_block_def be_value_be_bytes be_bytes_mod)
  then show ?thesis by (simp only: mod_add_left_eq be_bytes_mod counter_block_def add.assoc)
qed

lemma length_counter_block [simp]: "length (counter_block iv i) = 16"
  by (simp add: counter_block_def)

lemma ctr128_inc_block: "length iv = 16 \<Longrightarrow> ctr128_inc iv = counter_block iv 1"
  by (simp add: ctr128_inc_value counter_block_def)

lemma call128_nth: "n < 16 \<Longrightarrow> call128 block b ! n = block b n"
  by (simp add: call128_def)

text \<open>Where counter mode stands after \<open>p\<close> bytes from the block \<open>iv\<close>.\<close>

definition ctr_at :: "block128_f \<Rightarrow> bytes \<Rightarrow> nat \<Rightarrow> ctr_state \<Rightarrow> nat \<Rightarrow> bool" where
  "ctr_at block iv p s n \<longleftrightarrow> n = p mod 16 \<and> fst s = counter_block iv ((p + 15) div 16)
     \<and> (n \<noteq> 0 \<longrightarrow> snd s = call128 block (counter_block iv (p div 16)))"

lemma ctr_at_start: "length iv = 16 \<Longrightarrow> ctr_at block iv 0 (iv, e) 0"
  by (simp add: ctr_at_def counter_block_0)

lemma blocks_begun: "(p + 15) div 16 = (if p mod 16 = 0 then p div 16 else Suc (p div 16))" for p :: nat
proof -
  define q r where "q = p div 16" and "r = p mod 16"
  then have p: "p = r + q * 16" "r < 16" by simp_all
  have "(p + 15) div 16 = q + (r + 15) div 16" by (simp add: p(1) add.commute add.left_commute)
  moreover have "(r + 15) div 16 = (if r = 0 then 0 else 1)"
    using p(2) by (auto intro: div_nat_eqI)
  ultimately show ?thesis by (simp flip: q_def r_def)
qed

lemma ctr_at_step:
  assumes "ctr_at block iv p s n"
  defines "s' \<equiv> (if n = 0 then ctr_refill block s else s)"
  shows "snd s' ! n = ctr_byte block iv p" and "ctr_at block iv (p + 1) s' ((n + 1) mod 16)"
proof -
  have p: "n = p mod 16" using assms(1) by (simp add: ctr_at_def)
  have hi: "(p + 1 + 15) div 16 = Suc (p div 16)" by simp
  have lo: "(p + 15) div 16 = (if n = 0 then p div 16 else Suc (p div 16))"
    unfolding p by (rule blocks_begun)
  have same: "(n + 1) mod 16 \<noteq> 0 \<Longrightarrow> (p + 1) div 16 = p div 16"
    unfolding p mod_add_left_eq by (simp add: div_Suc mod_Suc)
  have m: "(n + 1) mod 16 = (p + 1) mod 16" unfolding p by (rule mod_add_left_eq)
  have s': "fst s' = counter_block iv (Suc (p div 16))" "snd s' = call128 block (counter_block iv (p div 16))"
    using assms(1) lo by (auto simp: ctr_at_def s'_def ctr_refill_def ctr128_inc_block counter_block_add)
  show "snd s' ! n = ctr_byte block iv p" by (simp add: s' ctr_byte_def call128_nth p)
  show "ctr_at block iv (p + 1) s' ((n + 1) mod 16)"
    unfolding ctr_at_def hi using m s' same by simp
qed

lemma ctr_run_at:
  "ctr_at block iv p s n \<Longrightarrow> \<exists>s' n'. run (ctr_refill block) (xor_mix snd) s n xs =
     (map2 (XOR) xs (map (ctr_byte block iv) [p..<p + length xs]), s', n') \<and> ctr_at block iv (p + length xs) s' n'"
proof (induction xs arbitrary: p s n)
  case (Cons x xs)
  define t where "t = (if n = 0 then ctr_refill block s else s)"
  note step = ctr_at_step [OF Cons.prems, folded t_def]
  have "run (ctr_refill block) (xor_mix snd) s n (x # xs) = map_prod ((#) (x XOR ctr_byte block iv p)) id
      (run (ctr_refill block) (xor_mix snd) t ((n + 1) mod 16) xs)"
    using step(1) by (simp add: xor_mix_def [of snd t] flip: t_def)
  moreover obtain s' n' where "run (ctr_refill block) (xor_mix snd) t ((n + 1) mod 16) xs =
     (map2 (XOR) xs (map (ctr_byte block iv) [p + 1..<p + 1 + length xs]), s', n')"
     "ctr_at block iv (p + 1 + length xs) s' n'"
    using Cons.IH [OF step(2)] by blast
  moreover have "[p..<p + length (x # xs)] = p # [p + 1..<p + 1 + length xs]"
    using upt_conv_Cons [of p "p + length (x # xs)"] by simp
  ultimately show ?case by (simp del: upt_Suc)
qed simp

section \<open>The 32-bit counter\<close>

text \<open>
  What a \<open>ctr128_f\<close> promises: whole blocks are encrypted in counter mode from \<open>ivec\<close>, as long as the last
  32 bits of the counter do not overflow before the last block.
\<close>

definition encrypts_ctr32 :: "block128_f \<Rightarrow> ctr128_f \<Rightarrow> bool" where
  "encrypts_ctr32 block func \<longleftrightarrow> (\<forall>inp ivec. length ivec = 16 \<longrightarrow> length inp mod 16 = 0 \<longrightarrow>
     be_value (drop 12 ivec) + length inp div 16 \<le> 2 ^ 32 \<longrightarrow>
     func inp ivec = map2 (XOR) inp (map (ctr_byte block ivec) [0..<length inp]))"

lemma unat_ctr32: "length iv = 16 \<Longrightarrow> unat (CRYPTO_load_u32_be (drop 12 iv)) = be_value (drop 12 iv)"
  by (simp add: load_u32_be) (subst unat_load_be_exact; simp)

lemma ctr32_advance_block:
  assumes iv: "length iv = 16" and c: "unat c = (be_value (drop 12 iv) + b) mod 2 ^ 32"
    and b: "0 < b" "be_value (drop 12 iv) + b \<le> 2 ^ 32"
  shows "ctr32_advance iv c = counter_block iv b"
proof -
  define A C where "A = take 12 iv" and "C = be_value (drop 12 iv)"
  have A: "length A = 12" using iv by (simp add: A_def)
  have v: "be_value iv = be_value A * 2 ^ 32 + C"
    using be_value_append [of A "drop 12 iv"] iv by (simp add: A_def C_def)
  have blk: "counter_block iv b = be_bytes 12 ((be_value iv + b) div 2 ^ 32) @ be_bytes 4 (be_value iv + b)"
    using be_bytes_split [of 12 4 "be_value iv + b"] by (simp add: counter_block_def)
  have low: "be_bytes 4 (be_value iv + b) = be_bytes 4 (unat c)"
    using be_bytes_mod [of 4 "be_value iv + b"] be_bytes_mod [of 4 "C + b"] c
    by (simp add: v C_def add.assoc)
  have adv: "memcpy_at iv 12 (CRYPTO_store_u32_be c) = A @ be_bytes 4 (unat c)"
    using iv by (simp add: memcpy_at_def A_def store_u32_be)
  show ?thesis
  proof (cases "C + b = 2 ^ 32")
    case True
    then have "c = 0" using c by (simp add: C_def word_unat_eq_iff)
    moreover have "(be_value iv + b) div 2 ^ 32 = be_value A + 1"
      using True by (simp add: v add.assoc)
    ultimately show ?thesis
      using A adv by (simp add: ctr32_advance_def blk low ctr96_inc_value del: be_bytes.simps)
  next
    case False
    then have lt: "C + b < 2 ^ 32" using b(2) by (simp add: C_def)
    then have "c \<noteq> 0" using c b(1) by (auto simp: C_def)
    moreover have "(be_value iv + b) div 2 ^ 32 = be_value A"
      using lt by (simp add: v add.assoc)
    ultimately show ?thesis
      using A adv by (simp add: ctr32_advance_def blk low be_bytes_of)
  qed
qed

lemma ctr32_of_block:
  "length iv = 16 \<Longrightarrow> unat c = (be_value (drop 12 iv) + b) mod 2 ^ 32 \<Longrightarrow>
     c = CRYPTO_load_u32_be (drop 12 (counter_block iv b))"
proof -
  assume iv: "length iv = 16" and c: "unat c = (be_value (drop 12 iv) + b) mod 2 ^ 32"
  have v: "be_value iv = be_value (take 12 iv) * 256 ^ 4 + be_value (drop 12 iv)"
    using be_value_append [of "take 12 iv" "drop 12 iv"] iv by simp
  have "drop 12 (counter_block iv b) = be_bytes 4 (be_value iv + b)"
    using be_bytes_split [of 12 4 "be_value iv + b"] by (simp add: counter_block_def)
  then have "be_value (drop 12 (counter_block iv b)) = unat c"
    using c by (simp add: be_value_be_bytes v add.assoc)
  then show ?thesis using unat_ctr32 [of "counter_block iv b"] by (simp add: word_unat_eq_iff)
qed

lemma ctr32_step_value:
  assumes "0 < k" "ctr32_step k c = (b, c')"
  shows "0 < b" "b \<le> k" "unat c + b \<le> 2 ^ 32" "unat c' = (unat c + b) mod 2 ^ 32"
proof -
  define m where "m = (if k > 2 ^ 28 then 2 ^ 28 else k)"
  have m: "0 < m" "m \<le> 2 ^ 28" "m \<le> k" using assms(1) by (simp_all add: m_def)
  define n where "n = unat (c + of_nat m)"
  have lt: "unat c < 2 ^ 32" using unsigned_less [of c, where ?'a = nat] by simp
  have "unat (of_nat m :: u32) = m" using m(2) by (simp add: unsigned_of_nat take_bit_nat_eq_self)
  then have n: "n = (unat c + m) mod 2 ^ 32" by (simp add: n_def unat_word_ariths(1))
  have r: "(b, c') = (if n < m then (m - n, 0) else (m, c + of_nat m))"
    using assms(2) unfolding ctr32_step_def Let_def m_def [symmetric] n_def [symmetric] by (rule sym)
  have "0 < b \<and> b \<le> k \<and> unat c + b \<le> 2 ^ 32 \<and> unat c' = (unat c + b) mod 2 ^ 32"
  proof (cases "unat c + m < 2 ^ 32")
    case True
    then have "n = unat c + m" by (simp add: n)
    then show ?thesis using r m True by (simp add: n_def)
  next
    case False
    then have "n = unat c + m - 2 ^ 32" using lt m(2) by (simp add: n le_mod_geq)
    then have "n < m" using lt m(1) False by linarith
    then have "b = 2 ^ 32 - unat c" "c' = 0"
      using r \<open>n = unat c + m - 2 ^ 32\<close> lt False by simp_all
    then show ?thesis using lt m False by simp
  qed
  then show "0 < b" "b \<le> k" "unat c + b \<le> 2 ^ 32" "unat c' = (unat c + b) mod 2 ^ 32" by blast+
qed

lemma ctr_byte_add: "ctr_byte block (counter_block iv b) = (\<lambda>i. ctr_byte block iv (16 * b + i))"
  by (simp add: fun_eq_iff ctr_byte_def counter_block_add)

lemma ctr32_call:
  "encrypts_ctr32 block func \<Longrightarrow> length iv = 16 \<Longrightarrow> length inp = 16 * b \<Longrightarrow>
     be_value (drop 12 iv) + b \<le> 2 ^ 32 \<Longrightarrow>
     func inp iv = map2 (XOR) inp (map (ctr_byte block iv) [0..<16 * b])"
  by (simp add: encrypts_ctr32_def)

lemma xor_keystream_append:
  "length inp = n + k \<Longrightarrow> map2 (XOR) inp (map f [0..<n + k]) =
     map2 (XOR) (take n inp) (map f [0..<n]) @ map2 (XOR) (drop n inp) (map (\<lambda>i. f (n + i)) [0..<k])"
  by (rule nth_equalityI) (auto simp: nth_append min_def)

lemma ctr32_bulk:
  assumes "encrypts_ctr32 block func"
  shows "length iv = 16 \<Longrightarrow> c = CRYPTO_load_u32_be (drop 12 iv) \<Longrightarrow> length inp div 16 = k \<Longrightarrow>
    ctr32_blocks func iv c inp =
      (map2 (XOR) (take (16 * k) inp) (map (ctr_byte block iv) [0..<16 * k]), counter_block iv k,
       CRYPTO_load_u32_be (drop 12 (counter_block iv k)), drop (16 * k) inp)"
proof (induction k arbitrary: iv c inp rule: less_induct)
  case (less k)
  show ?case
  proof (cases "k = 0")
    case True
    then show ?thesis
      using less.prems by (simp add: ctr32_blocks.simps counter_block_0 not_le div_eq_0_iff)
  next
    case False
    obtain b c' where st: "ctr32_step k c = (b, c')" by fastforce
    note b = ctr32_step_value [OF _ st]
    have "unat c = be_value (drop 12 iv)" using less.prems by (simp add: unat_ctr32)
    then have sum: "be_value (drop 12 iv) + b \<le> 2 ^ 32" "unat c' = (be_value (drop 12 iv) + b) mod 2 ^ 32"
      using b False by auto
    note adv = ctr32_advance_block [OF less.prems(1) sum(2) _ sum(1)]
    have len: "16 * b \<le> length inp" using b(2) False less.prems(3) by auto
    then have out: "func (take (16 * b) inp) iv
        = map2 (XOR) (take (16 * b) inp) (map (ctr_byte block iv) [0..<16 * b])"
      using less.prems(1) sum(1) by (intro ctr32_call [OF assms]) auto
    have "16 \<le> length inp" using False less.prems(3) by (simp add: div_greater_zero_iff)
    then have "ctr32_blocks func iv c inp = (case ctr32_blocks func (counter_block iv b) c' (drop (16 * b) inp) of
        (outs, r) \<Rightarrow> (func (take (16 * b) inp) iv @ outs, r))"
      using less.prems(3) st adv b(1) False
      by (subst ctr32_blocks.simps) (simp add: Let_def split: prod.splits)
    moreover have "ctr32_blocks func (counter_block iv b) c' (drop (16 * b) inp) =
      (map2 (XOR) (take (16 * (k - b)) (drop (16 * b) inp)) (map (ctr_byte block (counter_block iv b)) [0..<16 * (k - b)]),
       counter_block (counter_block iv b) (k - b),
       CRYPTO_load_u32_be (drop 12 (counter_block (counter_block iv b) (k - b))),
       drop (16 * (k - b)) (drop (16 * b) inp))"
      using b False less.prems(3) ctr32_of_block [OF less.prems(1) sum(2)] by (intro less.IH) auto
    moreover have k: "16 * k = 16 * b + 16 * (k - b)" "b + (k - b) = k" using b(2) False by auto
    moreover have "map2 (XOR) (take (16 * k) inp) (map (ctr_byte block iv) [0..<16 * k]) =
        map2 (XOR) (take (16 * b) inp) (map (ctr_byte block iv) [0..<16 * b]) @
        map2 (XOR) (take (16 * (k - b)) (drop (16 * b) inp))
          (map (ctr_byte block (counter_block iv b)) [0..<16 * (k - b)])"
    proof -
      have "length (take (16 * k) inp) = 16 * b + 16 * (k - b)" using less.prems(3) k(1) by auto
      moreover have "take (16 * b) (take (16 * k) inp) = take (16 * b) inp"
        "drop (16 * b) (take (16 * k) inp) = take (16 * (k - b)) (drop (16 * b) inp)"
        using b(2) False by (simp_all add: drop_take min_def right_diff_distrib')
      ultimately show ?thesis
        using xor_keystream_append [of "take (16 * k) inp" "16 * b" "16 * (k - b)" "ctr_byte block iv"] k(1)
        by (simp only: ctr_byte_add)
    qed
    moreover have "drop (16 * (k - b)) (drop (16 * b) inp) = drop (16 * k) inp"
      unfolding drop_drop k(1) by (simp add: add.commute)
    ultimately show ?thesis using out by (simp only: counter_block_add prod.case)
  qed
qed

lemma map_ctr_byte: "j \<le> 16 \<Longrightarrow> map (ctr_byte block iv) [0..<j] = take j (call128 block (counter_block iv 0))"
  by (simp add: call128_def take_map ctr_byte_def)

lemma ctr32_from_0:
  assumes func: "encrypts_ctr32 block func" and iv: "length iv = 16"
  shows "\<exists>e'. CRYPTO_ctr128_encrypt_ctr32 func (iv, e) 0 inp =
     (map2 (XOR) inp (map (ctr_byte block iv) [0..<length inp]),
      (counter_block iv ((length inp + 15) div 16), e'), length inp mod 16)
     \<and> (length inp mod 16 \<noteq> 0 \<longrightarrow> e' = call128 block (counter_block iv (length inp div 16)))"
proof -
  define k r where "k = length inp div 16" and "r = length inp mod 16"
  have len: "length inp = 16 * k + r" "r < 16" by (simp_all add: k_def r_def)
  note bulk = ctr32_bulk [OF func iv refl k_def [symmetric]]
  have parts: "length inp div 16 = k" "length inp mod 16 = r"
    "(length inp + 15) div 16 = (if r = 0 then k else k + 1)"
    using blocks_begun [of "length inp"] by (simp_all add: k_def r_def)
  let ?iv = "counter_block iv k"
  show ?thesis
  proof (cases "r = 0")
    case True
    then have "length inp = 16 * k" using len by simp
    with True show ?thesis
      unfolding parts CRYPTO_ctr128_encrypt_ctr32_def xor_head_0 by (simp add: bulk)
  next
    case False
    have lt: "be_value (drop 12 ?iv) < 2 ^ 32" using be_value_less [of "drop 12 ?iv"] by simp
    have e: "func (replicate 16 0) ?iv = call128 block ?iv"
      using ctr32_call [OF func, of ?iv "replicate 16 0" 1] lt map_ctr_byte [of 16 block ?iv]
      by (simp add: counter_block_add) (auto intro: nth_equalityI)
    have "ctr32_advance ?iv (CRYPTO_load_u32_be (drop 12 ?iv) + 1) = counter_block iv (k + 1)"
      using ctr32_advance_block [of ?iv "CRYPTO_load_u32_be (drop 12 ?iv) + 1" 1] lt
      by (simp add: unat_ctr32 unat_word_ariths(1) counter_block_add)
    moreover have "map2 (XOR) inp (map (ctr_byte block iv) [0..<length inp]) =
        map2 (XOR) (take (16 * k) inp) (map (ctr_byte block iv) [0..<16 * k]) @
        map2 (XOR) (drop (16 * k) inp) (take r (call128 block ?iv))"
      using xor_keystream_append [of inp "16 * k" r "ctr_byte block iv"] len map_ctr_byte [of r block ?iv]
      by (simp add: ctr_byte_add counter_block_add)
    moreover have "map2 (XOR) (drop (16 * k) inp) (call128 block ?iv) =
        map2 (XOR) (drop (16 * k) inp) (take r (call128 block ?iv))"
      using len by (auto intro: nth_equalityI)
    ultimately show ?thesis
      unfolding parts CRYPTO_ctr128_encrypt_ctr32_def xor_head_0 using len False
      by (simp add: bulk e xor_tail_map2 Let_def)
  qed
qed

lemma ctr32_at:
  assumes "encrypts_ctr32 block func" "length iv = 16" "ctr_at block iv p s n"
  shows "\<exists>s' n'. CRYPTO_ctr128_encrypt_ctr32 func s n xs =
     (map2 (XOR) xs (map (ctr_byte block iv) [p..<p + length xs]), s', n') \<and> ctr_at block iv (p + length xs) s' n'"
  using assms(3)
proof (induction xs arbitrary: p n)
  case Nil
  then show ?case by (cases s) (simp add: CRYPTO_ctr128_encrypt_ctr32_def ctr32_blocks.simps)
next
  case (Cons x xs)
  obtain ivec e where s: "s = (ivec, e)" by (cases s)
  show ?case
  proof (cases "n = 0")
    case False
    then have "snd s ! n = ctr_byte block iv p" "ctr_at block iv (p + 1) s ((n + 1) mod 16)"
      using ctr_at_step [OF Cons.prems] by simp_all
    moreover have "CRYPTO_ctr128_encrypt_ctr32 func s n (x # xs)
        = map_prod ((#) (x XOR snd s ! n)) id (CRYPTO_ctr128_encrypt_ctr32 func s ((n + 1) mod 16) xs)"
      using False by (simp add: s CRYPTO_ctr128_encrypt_ctr32_def Let_def split: prod.splits)
    moreover have "[p..<p + length (x # xs)] = p # [p + 1..<p + 1 + length xs]"
      using upt_conv_Cons [of p "p + length (x # xs)"] by simp
    ultimately show ?thesis using Cons.IH by fastforce
  next
    case True
    define q inp where "q = p div 16" and "inp = x # xs"
    have p: "p = 16 * q" and ivec: "ivec = counter_block iv q"
      using Cons.prems True blocks_begun [of p] by (auto simp: ctr_at_def s q_def)
    obtain e' where e': "CRYPTO_ctr128_encrypt_ctr32 func (ivec, e) 0 inp =
       (map2 (XOR) inp (map (ctr_byte block ivec) [0..<length inp]),
        (counter_block ivec ((length inp + 15) div 16), e'), length inp mod 16)"
       "length inp mod 16 \<noteq> 0 \<Longrightarrow> e' = call128 block (counter_block ivec (length inp div 16))"
      using ctr32_from_0 [OF assms(1), of ivec e inp] by (auto simp: ivec)
    have "map (ctr_byte block ivec) [0..<length inp] = map (ctr_byte block iv) [p..<p + length inp]"
      by (rule nth_equalityI) (simp_all add: ivec ctr_byte_add p)
    moreover have "ctr_at block iv (p + length inp) (counter_block ivec ((length inp + 15) div 16), e') (length inp mod 16)"
      using e'(2) by (simp add: ctr_at_def p ivec counter_block_add add.assoc)
    ultimately show ?thesis using e'(1) True by (simp only: s flip: inp_def) blast
  qed
qed

section \<open>Properties\<close>

text \<open>A call of either routine for counter mode, and a sequence of such calls.\<close>

datatype ctr_call = Plain bytes | Ctr32 bytes

fun ctr_input :: "ctr_call \<Rightarrow> bytes" where
  "ctr_input (Plain x) = x"
| "ctr_input (Ctr32 x) = x"

fun ctr_calls :: "block128_f \<Rightarrow> ctr128_f \<Rightarrow> ctr_state \<Rightarrow> nat \<Rightarrow> ctr_call list \<Rightarrow> bytes" where
  "ctr_calls block func s n [] = []"
| "ctr_calls block func s n (c # cs) =
     (case (case c of Plain x \<Rightarrow> CRYPTO_ctr128_encrypt block s n x
                    | Ctr32 x \<Rightarrow> CRYPTO_ctr128_encrypt_ctr32 func s n x) of
        (out, s, n) \<Rightarrow> out @ ctr_calls block func s n cs)"

lemma ctr_plain_at:
  "ctr_at block iv p s n \<Longrightarrow> \<exists>s' n'. CRYPTO_ctr128_encrypt block s n xs =
     (map2 (XOR) xs (map (ctr_byte block iv) [p..<p + length xs]), s', n') \<and> ctr_at block iv (p + length xs) s' n'"
  using ctr_run_at [of block iv p s n xs] by (simp add: ctr.enc.code_run ctr_at_def)

lemma ctr_calls_at:
  "encrypts_ctr32 block func \<Longrightarrow> length iv = 16 \<Longrightarrow> ctr_at block iv p s n \<Longrightarrow>
     ctr_calls block func s n cs =
       (let m = concat (map ctr_input cs) in map2 (XOR) m (map (ctr_byte block iv) [p..<p + length m]))"
proof (induction cs arbitrary: p s n)
  case (Cons c cs)
  obtain s' n' where "(case c of Plain x \<Rightarrow> CRYPTO_ctr128_encrypt block s n x
                    | Ctr32 x \<Rightarrow> CRYPTO_ctr128_encrypt_ctr32 func s n x)
      = (map2 (XOR) (ctr_input c) (map (ctr_byte block iv) [p..<p + length (ctr_input c)]), s', n')"
      and at: "ctr_at block iv (p + length (ctr_input c)) s' n'"
    using ctr_plain_at [OF Cons.prems(3)] ctr32_at [OF Cons.prems] by (cases c) (auto, blast+)
  moreover define m where "m = concat (map ctr_input cs)"
  moreover have "[p..<p + length (ctr_input c @ m)] =
      [p..<p + length (ctr_input c)] @ [p + length (ctr_input c)..<p + length (ctr_input c) + length m]"
    using upt_add_eq_append [of p "p + length (ctr_input c)" "length m"] by (simp add: add.assoc)
  ultimately show ?case
    using Cons.IH [OF Cons.prems(1,2) at] by (simp add: Let_def zip_append)
qed simp

text \<open>C36 Counter mode is that of SP 800-38A: whatever sequence of calls of
  \<open>CRYPTO_ctr128_encrypt\<close> and of \<open>CRYPTO_ctr128_encrypt_ctr32\<close> works on one state, however the message is
  cut, and wherever the 32-bit counter overflows into the upper 96 bits, byte \<open>i\<close> of the message is xored
  with byte \<open>i mod 16\<close> of the cipher on the counter block plus \<open>i div 16\<close>, modulo \<open>2 ^ 128\<close>.\<close>
theorem ctr_mode_keystream:
  assumes "encrypts_ctr32 block func" "length iv = 16"
  shows "ctr_calls block func (iv, ecount_buf) 0 cs =
    (let m = concat (map ctr_input cs) in
     map (\<lambda>i. m ! i XOR block (be_bytes 16 (be_value iv + i div 16)) (i mod 16)) [0..<length m])"
  using ctr_calls_at [OF assms ctr_at_start [OF assms(2)], of ecount_buf cs]
  by (auto simp: Let_def ctr_byte_def counter_block_def intro!: nth_equalityI)

text \<open>
  A cipher that adds up the block, and a 32-bit counter that overflows in the second call.
\<close>
theorem ctr_mode_keystream_witness:
  "let block = (\<lambda>b i. sum_list b + of_nat i); func = (\<lambda>inp iv. map2 (XOR) inp (map (ctr_byte block iv) [0..<length inp]));
       iv = replicate 11 0 @ [7] @ replicate 4 0xff;
       m = replicate 1 0 @ replicate 47 0x11
   in ctr_calls block func (iv, replicate 16 0) 0 [Plain (take 1 m), Ctr32 (drop 1 m)] =
     map (\<lambda>i. m ! i XOR block (be_bytes 16 (be_value iv + i div 16)) (i mod 16)) [0..<length m]"
proof -
  define block :: block128_f where "block = (\<lambda>b i. sum_list b + of_nat i)"
  define func :: ctr128_f where "func = (\<lambda>inp iv. map2 (XOR) inp (map (ctr_byte block iv) [0..<length inp]))"
  define iv m :: bytes where "iv = replicate 11 0 @ [7] @ replicate 4 0xff" and "m = replicate 1 0 @ replicate 47 0x11"
  have "encrypts_ctr32 block func" by (simp add: encrypts_ctr32_def func_def)
  moreover have "length iv = 16" by (simp add: iv_def)
  ultimately have "ctr_calls block func (iv, replicate 16 0) 0 [Plain (take 1 m), Ctr32 (drop 1 m)] =
      map (\<lambda>i. m ! i XOR block (be_bytes 16 (be_value iv + i div 16)) (i mod 16)) [0..<length m]"
    using ctr_mode_keystream [of block func iv "replicate 16 0" "[Plain (take 1 m), Ctr32 (drop 1 m)]"]
    by (simp add: Let_def)
  then show ?thesis by (simp only: Let_def block_def func_def iv_def m_def)
qed

text \<open>C37 Output feedback and cipher feedback decrypt what they encrypted: the ciphertext of any
  sequence of calls, cut into other pieces, is decrypted to the message, and decryption ends in the state
  in which encryption ended. The output feedback routine is its own inverse.\<close>
theorem feedback_modes_roundtrip:
  assumes "num < 16"
    and "concat ofb_pieces = concat (fst (calls (CRYPTO_ofb128_encrypt block) ivec num xss))"
    and "concat cfb_pieces = concat (fst (calls (CRYPTO_cfb128_encrypt block True) ivec num xss))"
  shows "map_prod concat id (calls (CRYPTO_ofb128_encrypt block) ivec num ofb_pieces)
      = (concat xss, snd (calls (CRYPTO_ofb128_encrypt block) ivec num xss))
    \<and> map_prod concat id (calls (CRYPTO_cfb128_encrypt block False) ivec num cfb_pieces)
      = (concat xss, snd (calls (CRYPTO_cfb128_encrypt block True) ivec num xss))"
  using ofb.roundtrip [OF assms(1) prod.collapse [symmetric] assms(2)]
    cfb.roundtrip [OF assms(1) prod.collapse [symmetric] assms(3)] by blast

text \<open>A call in the middle of a block; the ciphertext in one piece.\<close>
theorem feedback_modes_roundtrip_witness:
  "let block = (\<lambda>b i. b ! i + 1); iv = replicate 16 0; xss = [replicate 3 5, replicate 40 6];
       ofb = [concat (fst (calls (CRYPTO_ofb128_encrypt block) iv 9 xss))];
       cfb = [concat (fst (calls (CRYPTO_cfb128_encrypt block True) iv 9 xss))]
   in map_prod concat id (calls (CRYPTO_ofb128_encrypt block) iv 9 ofb)
      = (concat xss, snd (calls (CRYPTO_ofb128_encrypt block) iv 9 xss))
    \<and> map_prod concat id (calls (CRYPTO_cfb128_encrypt block False) iv 9 cfb)
      = (concat xss, snd (calls (CRYPTO_cfb128_encrypt block True) iv 9 xss))"
  unfolding Let_def by (rule feedback_modes_roundtrip) (simp_all only: concat.simps append_Nil2 less_numeral_simps arith_simps order.refl rel_simps)

end
