(* ===== verification/CBC.thy ===== *)
theory CBC
  imports Modes Flat_Memory
begin

text \<open>
  Cipher block chaining, \<open>crypto/fipsmodule/modes/cbc.c\<close>. The routines work on pointers, and decryption
  chooses its loop by comparing them, so they are modelled on the flat memory: input, output and \<open>ivec\<close>
  are addresses. \<open>cbc_enc\<close> and \<open>cbc_dec\<close> are the chaining of SP 800-38A on byte strings.
\<close>

section \<open>The routines\<close>

text \<open>\<open>(*block)(in, out, key)\<close>, and \<open>CRYPTO_xor16(out, a, b)\<close>.\<close>

definition block_at :: "block128_f \<Rightarrow> nat \<Rightarrow> nat \<Rightarrow> mem \<Rightarrow> mem" where
  "block_at block inp out m = mem_write out (call128 block (mem_read m inp 16)) m"

definition xor16_at :: "nat \<Rightarrow> nat \<Rightarrow> nat \<Rightarrow> mem \<Rightarrow> mem" where
  "xor16_at out a b m = foldl (\<lambda>m i. mem_write (out + i) (CRYPTO_store_word_le
     (CRYPTO_load_word_le (mem_read m (a + i) 8) XOR CRYPTO_load_word_le (mem_read m (b + i) 8))) m) m [0, 8]"

definition memcpy_mem :: "nat \<Rightarrow> nat \<Rightarrow> nat \<Rightarrow> mem \<Rightarrow> mem" where
  "memcpy_mem dst src n m = mem_write dst (mem_read m src n) m"

fun cbc_enc_blocks :: "block128_f \<Rightarrow> nat \<Rightarrow> nat \<Rightarrow> nat \<Rightarrow> nat \<Rightarrow> mem \<Rightarrow> nat \<times> nat \<times> nat \<times> nat \<times> mem" where
  "cbc_enc_blocks block inp out len iv m =
     (if len \<ge> 16 then
        cbc_enc_blocks block (inp + 16) (out + 16) (len - 16) out (block_at block out out (xor16_at out inp iv m))
      else (inp, out, len, iv, m))"

text \<open>The loop for what is left runs at most once, since fewer than 16 bytes are left.\<close>

definition cbc_enc_rest :: "block128_f \<Rightarrow> nat \<Rightarrow> nat \<Rightarrow> nat \<Rightarrow> nat \<Rightarrow> mem \<Rightarrow> nat \<times> mem" where
  "cbc_enc_rest block inp out len iv m =
     (if len = 0 then (iv, m) else
      let m = foldl (\<lambda>m n. m(out + n := m (inp + n) XOR m (iv + n))) m [0..<len];
          m = foldl (\<lambda>m n. m(out + n := m (iv + n))) m [len..<16]
      in (out, block_at block out out m))"

definition CRYPTO_cbc128_encrypt :: "block128_f \<Rightarrow> nat \<Rightarrow> nat \<Rightarrow> nat \<Rightarrow> nat \<Rightarrow> mem \<Rightarrow> mem" where
  "CRYPTO_cbc128_encrypt block inp out len ivec m =
     (if len = 0 then m else
      let (inp, out, len, iv, m) = cbc_enc_blocks block inp out len ivec m;
          (iv, m) = cbc_enc_rest block inp out len iv m
      in memcpy_mem ivec iv 16 m)"

fun cbc_dec_blocks :: "block128_f \<Rightarrow> nat \<Rightarrow> nat \<Rightarrow> nat \<Rightarrow> nat \<Rightarrow> mem \<Rightarrow> nat \<times> nat \<times> nat \<times> nat \<times> mem" where
  "cbc_dec_blocks block inp out len iv m =
     (if len \<ge> 16 then
        cbc_dec_blocks block (inp + 16) (out + 16) (len - 16) inp (xor16_at out out iv (block_at block inp out m))
      else (inp, out, len, iv, m))"

text \<open>The step of the second loop, with the decrypted block in \<open>tmp\<close>, a word at a time.\<close>

definition cbc_dec_word :: "bytes \<Rightarrow> nat \<Rightarrow> nat \<Rightarrow> nat \<Rightarrow> mem \<Rightarrow> nat \<Rightarrow> mem" where
  "cbc_dec_word tmp inp out ivec m n =
     (let c = CRYPTO_load_word_le (mem_read m (inp + n) 8);
          m = mem_write (out + n) (CRYPTO_store_word_le
                (CRYPTO_load_word_le (drop n tmp) XOR CRYPTO_load_word_le (mem_read m (ivec + n) 8))) m
      in mem_write (ivec + n) (CRYPTO_store_word_le c) m)"

fun cbc_dec_inplace :: "block128_f \<Rightarrow> nat \<Rightarrow> nat \<Rightarrow> nat \<Rightarrow> nat \<Rightarrow> mem \<Rightarrow> nat \<times> nat \<times> nat \<times> mem" where
  "cbc_dec_inplace block inp out len ivec m =
     (if len \<ge> 16 then
        let tmp = call128 block (mem_read m inp 16)
        in cbc_dec_inplace block (inp + 16) (out + 16) (len - 16) ivec (foldl (cbc_dec_word tmp inp out ivec) m [0, 8])
      else (inp, out, len, m))"

definition cbc_dec_rest :: "block128_f \<Rightarrow> nat \<Rightarrow> nat \<Rightarrow> nat \<Rightarrow> nat \<Rightarrow> mem \<Rightarrow> mem" where
  "cbc_dec_rest block inp out len ivec m =
     (if len = 0 then m else
      let tmp = call128 block (mem_read m inp 16);
          m = foldl (\<lambda>m n. let c = m (inp + n); m = m(out + n := tmp ! n XOR m (ivec + n)) in m(ivec + n := c)) m [0..<len]
      in foldl (\<lambda>m n. m(ivec + n := m (inp + n))) m [len..<16])"

text \<open>The choice between the two loops, and the loop.\<close>

definition cbc_dec_whole :: "block128_f \<Rightarrow> nat \<Rightarrow> nat \<Rightarrow> nat \<Rightarrow> nat \<Rightarrow> mem \<Rightarrow> nat \<times> nat \<times> nat \<times> mem" where
  "cbc_dec_whole block inp out len ivec m =
     (if (inp \<ge> 32 \<and> out \<le> inp - 32) \<or> inp < out then
        let (inp, out, len, iv, m) = cbc_dec_blocks block inp out len ivec m
        in (inp, out, len, memcpy_mem ivec iv 16 m)
      else cbc_dec_inplace block inp out len ivec m)"

text \<open>The assertion on aliases at the top of \<open>CRYPTO_cbc128_decrypt\<close>; a release build does not check it.\<close>

definition cbc_decrypt_assert :: "nat \<Rightarrow> nat \<Rightarrow> nat \<Rightarrow> bool" where
  "cbc_decrypt_assert inptr outptr len \<longleftrightarrow> inptr \<ge> outptr \<or> inptr + len \<le> outptr"

definition CRYPTO_cbc128_decrypt :: "block128_f \<Rightarrow> nat \<Rightarrow> nat \<Rightarrow> nat \<Rightarrow> nat \<Rightarrow> mem \<Rightarrow> mem" where
  "CRYPTO_cbc128_decrypt block inp out len ivec m =
     (if len = 0 then m else
      let (inp, out, len, m) = cbc_dec_whole block inp out len ivec m
      in cbc_dec_rest block inp out len ivec m)"

section \<open>Chaining of byte strings\<close>

fun cbc_enc :: "block128_f \<Rightarrow> nat \<Rightarrow> bytes \<Rightarrow> bytes \<Rightarrow> bytes" where
  "cbc_enc block 0 iv xs = []"
| "cbc_enc block (Suc k) iv xs =
     (let c = call128 block (map2 (XOR) (take 16 xs) iv) in c @ cbc_enc block k c (drop 16 xs))"

fun cbc_dec :: "block128_f \<Rightarrow> nat \<Rightarrow> bytes \<Rightarrow> bytes \<Rightarrow> bytes" where
  "cbc_dec block 0 iv xs = []"
| "cbc_dec block (Suc k) iv xs =
     map2 (XOR) (call128 block (take 16 xs)) iv @ cbc_dec block k (take 16 xs) (drop 16 xs)"

definition pad16 :: "bytes \<Rightarrow> bytes" where
  "pad16 xs = xs @ replicate (16 * ((length xs + 15) div 16) - length xs) 0"

text \<open>The last of \<open>k\<close> blocks, or \<open>iv\<close> when there is none.\<close>

definition last_block :: "nat \<Rightarrow> bytes \<Rightarrow> bytes \<Rightarrow> bytes" where
  "last_block k iv xs = (if k = 0 then iv else take 16 (drop (16 * (k - 1)) xs))"

declare cbc_enc_blocks.simps [simp del] cbc_dec_blocks.simps [simp del] cbc_dec_inplace.simps [simp del]

lemma length_cbc_enc [simp]: "length (cbc_enc block k iv xs) = 16 * k"
  by (induction block k iv xs rule: cbc_enc.induct) (simp_all add: Let_def)

lemma length_cbc_dec:
  "length xs = 16 * k \<Longrightarrow> length iv = 16 \<Longrightarrow> length (cbc_dec block k iv xs) = 16 * k"
  by (induction block k iv xs rule: cbc_dec.induct) simp_all

lemma length_pad16 [simp]: "length (pad16 xs) = 16 * ((length xs + 15) div 16)"
proof -
  have "(length xs + 15) mod 16 < 16" by simp
  then have "length xs \<le> 16 * ((length xs + 15) div 16)"
    using mult_div_mod_eq [of 16 "length xs + 15"] by linarith
  then show ?thesis by (simp add: pad16_def)
qed

section \<open>Steps on the memory\<close>

lemma mem_read_split: "mem_read m a 16 = mem_read m a 8 @ mem_read m (a + 8) 8"
  using mem_read_append [of m a 8 8] by simp

lemma xor16_at_write:
  assumes "out \<le> a \<or> a + 16 \<le> out" "out + 16 \<le> b \<or> b + 16 \<le> out"
  shows "xor16_at out a b m = mem_write out (map2 (XOR) (mem_read m a 16) (mem_read m b 16)) m"
proof -
  let ?w = "\<lambda>i. map2 (XOR) (mem_read m (a + i) 8) (mem_read m (b + i) 8)"
  have "mem_read (mem_write out (?w 0) m) (a + 8) 8 = mem_read m (a + 8) 8"
    "mem_read (mem_write out (?w 0) m) (b + 8) 8 = mem_read m (b + 8) 8"
    using assms by (auto intro!: mem_read_other)
  then have "xor16_at out a b m = mem_write (out + 8) (?w 8) (mem_write out (?w 0) m)"
    by (simp add: xor16_at_def xor_words)
  also have "\<dots> = mem_write out (?w 0 @ ?w 8) m" by (simp add: mem_write_append)
  finally show ?thesis by (simp add: mem_read_split)
qed

lemma block_at_write: "length b = 16 \<Longrightarrow> block_at block out out (mem_write out b m) = mem_write out (call128 block b) m"
  by (simp add: block_at_def mem_write_twice)

section \<open>Encryption\<close>

lemma enc_blocks_eq:
  assumes "len div 16 = k" "iv + 16 \<le> out \<or> out + 16 * k \<le> iv" "out \<le> inp \<or> inp + 16 * k \<le> out"
  shows "cbc_enc_blocks block inp out len iv m = (inp + 16 * k, out + 16 * k, len mod 16,
     if k = 0 then iv else out + 16 * (k - 1),
     mem_write out (cbc_enc block k (mem_read m iv 16) (mem_read m inp (16 * k))) m)"
  using assms
proof (induction k arbitrary: inp out len iv m)
  case 0
  then have "len < 16" by (simp add: div_eq_0_iff)
  then show ?case by (simp add: cbc_enc_blocks.simps)
next
  case (Suc k)
  have len: "16 \<le> len" "(len - 16) div 16 = k" "(len - 16) mod 16 = len mod 16"
    using Suc.prems(1) le_div_geq [of 16 len] le_mod_geq [of 16 len] by (cases "len < 16"; simp)+
  define c where "c = call128 block (map2 (XOR) (mem_read m inp 16) (mem_read m iv 16))"
  have lc [simp]: "length c = 16" by (simp add: c_def)
  have step: "block_at block out out (xor16_at out inp iv m) = mem_write out c m"
    using Suc.prems by (subst xor16_at_write) (auto simp: block_at_write c_def)
  have IH: "cbc_enc_blocks block (inp + 16) (out + 16) (len - 16) out (mem_write out c m) =
      (inp + 16 + 16 * k, out + 16 + 16 * k, len mod 16, if k = 0 then out else out + 16 + 16 * (k - 1),
       mem_write (out + 16) (cbc_enc block k c (mem_read m (inp + 16) (16 * k))) (mem_write out c m))"
    using Suc.IH [of "len - 16" out "out + 16" "inp + 16" "mem_write out c m"] len Suc.prems(3)
    by (auto simp: mem_read_other)
  have "mem_read m inp (16 * Suc k) = mem_read m inp 16 @ mem_read m (inp + 16) (16 * k)"
    using mem_read_append [of m inp 16 "16 * k"] by simp
  then have "cbc_enc block (Suc k) (mem_read m iv 16) (mem_read m inp (16 * Suc k))
      = c @ cbc_enc block k c (mem_read m (inp + 16) (16 * k))"
    by (simp add: c_def Let_def)
  then show ?case
    using len(1) IH by (subst cbc_enc_blocks.simps) (auto simp: step mem_write_append)
qed

text \<open>The byte loops write a range.\<close>

lemma byte_loop:
  assumes "\<And>n m'. n < k \<Longrightarrow> (\<forall>i. out + n \<le> i \<or> i < out \<longrightarrow> m' i = m i) \<Longrightarrow> f m' n = g n"
  shows "foldl (\<lambda>m n. m(out + n := f m n)) m [0..<k] = mem_write out (map g [0..<k]) m"
  using assms
proof (induction k)
  case (Suc k)
  let ?m = "mem_write out (map g [0..<k]) m"
  have "f ?m k = g k" by (rule Suc.prems) (auto simp: mem_write_def)
  moreover have "?m(out + k := g k) = mem_write out (map g [0..<Suc k]) m"
    by (rule ext) (auto simp: mem_write_def nth_append)
  moreover have "foldl (\<lambda>m n. m(out + n := f m n)) m [0..<k] = ?m" by (rule Suc.IH) (use Suc.prems in simp)
  ultimately show ?case by (simp del: fun_upd_apply map_append)
qed simp

lemma foldl_cong_on:
  "(\<And>n m. n \<in> set ns \<Longrightarrow> f m n = g m n) \<Longrightarrow> foldl f m ns = foldl g m ns"
  by (induction ns arbitrary: m) auto

lemma enc_rest_eq:
  assumes "0 < len" "len < 16" "iv + 16 \<le> out \<or> out + 16 \<le> iv" "out \<le> inp \<or> inp + len \<le> out"
  shows "cbc_enc_rest block inp out len iv m =
    (out, mem_write out (cbc_enc block 1 (mem_read m iv 16) (pad16 (mem_read m inp len))) m)"
proof -
  let ?f = "\<lambda>m n. (if n < len then m (inp + n) else 0) XOR m (iv + n)"
  let ?g = "\<lambda>n. (if n < len then m (inp + n) else 0) XOR m (iv + n)"
  have "foldl (\<lambda>m n. m(out + n := m (inp + n) XOR m (iv + n))) m [0..<len]
      = foldl (\<lambda>m n. m(out + n := ?f m n)) m [0..<len]"
    by (rule foldl_cong_on) auto
  moreover have "foldl (\<lambda>m n. m(out + n := m (iv + n))) m' [len..<16]
      = foldl (\<lambda>m n. m(out + n := ?f m n)) m' [len..<16]" for m'
    by (rule foldl_cong_on) auto
  ultimately have "foldl (\<lambda>m n. m(out + n := m (iv + n)))
        (foldl (\<lambda>m n. m(out + n := m (inp + n) XOR m (iv + n))) m [0..<len]) [len..<16]
      = foldl (\<lambda>m n. m(out + n := ?f m n)) (foldl (\<lambda>m n. m(out + n := ?f m n)) m [0..<len]) [len..<16]"
    by (simp only:)
  also have "\<dots> = foldl (\<lambda>m n. m(out + n := ?f m n)) m [0..<16]"
    using assms(2) upt_append [of 0 len 16] by (simp flip: foldl_append del: upt_rec_numeral)
  also have "\<dots> = mem_write out (map ?g [0..<16]) m"
    by (rule byte_loop) (use assms in auto)
  finally have "foldl (\<lambda>m n. m(out + n := m (iv + n)))
        (foldl (\<lambda>m n. m(out + n := m (inp + n) XOR m (iv + n))) m [0..<len]) [len..<16]
      = mem_write out (map ?g [0..<16]) m" .
  moreover have "map ?g [0..<16] = map2 (XOR) (take 16 (pad16 (mem_read m inp len))) (mem_read m iv 16)"
    using assms(1,2) blocks_begun [of len]
    by (intro nth_equalityI) (auto simp: pad16_def nth_append mem_read_nth simp del: upt_rec_numeral)
  moreover have "16 \<le> length (pad16 (mem_read m inp len))" using assms(1) by simp
  ultimately show ?thesis
    using assms(1) by (simp add: cbc_enc_rest_def Let_def block_at_write mem_write_twice
        del: upt_rec_numeral fun_upd_apply)
qed

lemma cbc_enc_append:
  "length xs = 16 * a \<Longrightarrow>
     cbc_enc block (a + b) iv (xs @ ys) = cbc_enc block a iv xs @ cbc_enc block b (last_block a iv (cbc_enc block a iv xs)) ys"
proof (induction a arbitrary: iv xs)
  case (Suc a)
  define c where "c = call128 block (map2 (XOR) (take 16 xs) iv)"
  have "last_block (Suc a) iv (c @ zs) = last_block a c zs" for zs
    by (cases a) (simp_all add: last_block_def c_def)
  with Suc show ?case by (simp add: Let_def flip: c_def)
qed (simp add: last_block_def)

definition cbc_blocks :: "nat \<Rightarrow> nat" where
  "cbc_blocks len = (len + 15) div 16"

lemma encrypt_eq:
  fixes block :: block128_f and m :: mem
  assumes "0 < len" "ivec + 16 \<le> out \<or> out + 16 * cbc_blocks len \<le> ivec" "out \<le> inp \<or> inp + len \<le> out"
  defines "c \<equiv> cbc_enc block (cbc_blocks len) (mem_read m ivec 16) (pad16 (mem_read m inp len))"
  shows "CRYPTO_cbc128_encrypt block inp out len ivec m =
    mem_write ivec (last_block (cbc_blocks len) (mem_read m ivec 16) c) (mem_write out c m)"
proof -
  define k r where "k = len div 16" and "r = len mod 16"
  have len: "len = 16 * k + r" "r < 16" by (simp_all add: k_def r_def)
  have blocks: "cbc_blocks len = k + (if r = 0 then 0 else 1)"
    by (simp add: cbc_blocks_def blocks_begun k_def r_def)
  define iv where "iv = mem_read m ivec 16"
  define c1 where "c1 = cbc_enc block k iv (mem_read m inp (16 * k))"
  define m1 where "m1 = mem_write out c1 m"
  have first: "cbc_enc_blocks block inp out len ivec m =
      (inp + 16 * k, out + 16 * k, r, if k = 0 then ivec else out + 16 * (k - 1), m1)"
    unfolding m1_def c1_def iv_def r_def
    by (rule enc_blocks_eq [OF k_def [symmetric]]) (use assms(2,3) blocks len(1) in linarith)+
  have iv1: "mem_read m1 (if k = 0 then ivec else out + 16 * (k - 1)) 16 = last_block k iv c1"
  proof (cases "k = 0")
    case False
    have "mem_read m1 (out + 16 * (k - 1)) 16 = take 16 (drop (16 * (k - 1)) c1)"
      using False by (intro nth_equalityI) (auto simp: m1_def c1_def mem_read_def mem_write_def simp del: upt_rec_numeral)
    then show ?thesis using False by (simp add: last_block_def)
  qed (simp add: m1_def c1_def iv_def last_block_def)
  show ?thesis
  proof (cases "r = 0")
    case True
    then have "pad16 (mem_read m inp len) = mem_read m inp (16 * k)" by (simp add: pad16_def len)
    then show ?thesis
      using assms(1) iv1 first True blocks
      by (simp add: CRYPTO_cbc128_encrypt_def cbc_enc_rest_def memcpy_mem_def c_def m1_def c1_def iv_def)
  next
    case False
    define x where "x = mem_read m (inp + 16 * k) r"
    have x: "mem_read m1 (inp + 16 * k) r = x"
      unfolding x_def m1_def c1_def using assms(3) len by (intro mem_read_other) auto
    define c2 where "c2 = cbc_enc block 1 (last_block k iv c1) (pad16 x)"
    have "cbc_enc_rest block (inp + 16 * k) (out + 16 * k) r (if k = 0 then ivec else out + 16 * (k - 1)) m1
        = (out + 16 * k, mem_write (out + 16 * k) c2 m1)"
      unfolding c2_def x [symmetric] iv1 [symmetric]
      by (rule enc_rest_eq) (use False len assms(2,3) blocks in auto)
    moreover have "mem_read m inp len = mem_read m inp (16 * k) @ x"
      using mem_read_append [of m inp "16 * k" r] by (simp add: len(1) x_def)
    then have "pad16 (mem_read m inp len) = mem_read m inp (16 * k) @ pad16 x"
      by (simp add: pad16_def x_def add.assoc)
    then have "c = c1 @ c2"
      using cbc_enc_append [of "mem_read m inp (16 * k)" k block 1 iv "pad16 x"] False
      by (simp only: c_def blocks c1_def c2_def iv_def) simp
    moreover have "last_block (k + 1) iv (c1 @ c2) = c2" by (simp add: last_block_def c1_def c2_def)
    moreover have "length c1 = 16 * k" "length c2 = 16" by (simp_all add: c1_def c2_def del: cbc_enc.simps)
    ultimately show ?thesis
      using assms(1) first False blocks
      by (simp add: CRYPTO_cbc128_encrypt_def memcpy_mem_def m1_def mem_write_append flip: iv_def)
  qed
qed

section \<open>Decryption\<close>

lemma dec_blocks_eq:
  assumes "len div 16 = k" "0 < k \<Longrightarrow> iv + 16 \<le> out \<or> out + 16 \<le> iv" "inp + 16 * k \<le> out \<or> out + 32 \<le> inp"
  shows "cbc_dec_blocks block inp out len iv m = (inp + 16 * k, out + 16 * k, len mod 16,
     if k = 0 then iv else inp + 16 * (k - 1),
     mem_write out (cbc_dec block k (mem_read m iv 16) (mem_read m inp (16 * k))) m)"
  using assms
proof (induction k arbitrary: inp out len iv m)
  case 0
  then have "len < 16" by (simp add: div_eq_0_iff)
  then show ?case by (simp add: cbc_dec_blocks.simps)
next
  case (Suc k)
  have len: "16 \<le> len" "(len - 16) div 16 = k" "(len - 16) mod 16 = len mod 16"
    using Suc.prems(1) le_div_geq [of 16 len] le_mod_geq [of 16 len] by (cases "len < 16"; simp)+
  define p where "p = map2 (XOR) (call128 block (mem_read m inp 16)) (mem_read m iv 16)"
  have lp [simp]: "length p = 16" by (simp add: p_def)
  have step: "xor16_at out out iv (block_at block inp out m) = mem_write out p m"
    using Suc.prems(2) by (subst xor16_at_write) (auto simp: block_at_def mem_read_other mem_write_twice p_def)
  have IH: "cbc_dec_blocks block (inp + 16) (out + 16) (len - 16) inp (mem_write out p m) =
      (inp + 16 + 16 * k, out + 16 + 16 * k, len mod 16, if k = 0 then inp else inp + 16 + 16 * (k - 1),
       mem_write (out + 16) (cbc_dec block k (mem_read m inp 16) (mem_read m (inp + 16) (16 * k))) (mem_write out p m))"
    using Suc.IH [of "len - 16" inp "out + 16" "inp + 16" "mem_write out p m"] len Suc.prems(3)
    by (auto simp: mem_read_other)
  have "mem_read m inp (16 * Suc k) = mem_read m inp 16 @ mem_read m (inp + 16) (16 * k)"
    using mem_read_append [of m inp 16 "16 * k"] by simp
  then have "cbc_dec block (Suc k) (mem_read m iv 16) (mem_read m inp (16 * Suc k))
      = p @ cbc_dec block k (mem_read m inp 16) (mem_read m (inp + 16) (16 * k))"
    by (simp add: p_def)
  then show ?case
    using len(1) IH by (subst cbc_dec_blocks.simps) (auto simp: step mem_write_append)
qed

lemma dec_words_write:
  assumes "length tmp = 16" "out \<le> inp"
    and "ivec + 16 \<le> inp \<or> inp + 16 \<le> ivec" "ivec + 16 \<le> out \<or> out + 16 \<le> ivec"
  shows "foldl (cbc_dec_word tmp inp out ivec) m [0, 8] =
    mem_write ivec (mem_read m inp 16) (mem_write out (map2 (XOR) tmp (mem_read m ivec 16)) m)"
proof -
  let ?w = "\<lambda>i. map2 (XOR) (take 8 (drop i tmp)) (mem_read m (ivec + i) 8)"
  define m1 where "m1 = mem_write ivec (mem_read m inp 8) (mem_write out (?w 0) m)"
  have m1: "cbc_dec_word tmp inp out ivec m 0 = m1"
    using assms by (simp add: cbc_dec_word_def Let_def xor_words store_load_word m1_def mem_read_other)
  have "mem_read m1 (inp + 8) 8 = mem_read m (inp + 8) 8" "mem_read m1 (ivec + 8) 8 = mem_read m (ivec + 8) 8"
    using assms by (auto simp: m1_def mem_read_other)
  then have "cbc_dec_word tmp inp out ivec m1 8 =
      mem_write (ivec + 8) (mem_read m (inp + 8) 8) (mem_write (out + 8) (?w 8) m1)"
    using assms by (simp add: cbc_dec_word_def Let_def xor_words store_load_word mem_read_other)
  also have "\<dots> = mem_write (ivec + 8) (mem_read m (inp + 8) 8) (mem_write ivec (mem_read m inp 8)
      (mem_write (out + 8) (?w 8) (mem_write out (?w 0) m)))"
    unfolding m1_def using assms by (subst mem_write_swap) auto
  also have "\<dots> = mem_write ivec (mem_read m inp 8 @ mem_read m (inp + 8) 8) (mem_write out (?w 0 @ ?w 8) m)"
    using assms(1) by (simp add: mem_write_append)
  also have "?w 0 @ ?w 8 = map2 (XOR) tmp (mem_read m ivec 16)"
    using assms(1) by (simp add: mem_read_split flip: take_16 zip_append map_append)
  finally show ?thesis by (simp add: m1 mem_read_split)
qed

lemma last_block_Suc: "length b = 16 \<Longrightarrow> last_block (Suc k) iv (b @ xs) = last_block k b xs"
  by (cases k) (simp_all add: last_block_def)

lemma dec_inplace_eq:
  assumes "len div 16 = k" "out \<le> inp"
    and "ivec + 16 \<le> inp \<or> inp + 16 * k \<le> ivec" "ivec + 16 \<le> out \<or> out + 16 * k \<le> ivec"
  shows "cbc_dec_inplace block inp out len ivec m = (inp + 16 * k, out + 16 * k, len mod 16,
     mem_write ivec (last_block k (mem_read m ivec 16) (mem_read m inp (16 * k)))
       (mem_write out (cbc_dec block k (mem_read m ivec 16) (mem_read m inp (16 * k))) m))"
  using assms
proof (induction k arbitrary: inp out len m)
  case 0
  then have "len < 16" by (simp add: div_eq_0_iff)
  then show ?case by (simp add: cbc_dec_inplace.simps last_block_def mem_write_same)
next
  case (Suc k)
  have len: "16 \<le> len" "(len - 16) div 16 = k" "(len - 16) mod 16 = len mod 16"
    using Suc.prems(1) le_div_geq [of 16 len] le_mod_geq [of 16 len] by (cases "len < 16"; simp)+
  define c p where "c = mem_read m inp 16" and "p = map2 (XOR) (call128 block c) (mem_read m ivec 16)"
  have lp [simp]: "length p = 16" "length c = 16" by (simp_all add: p_def c_def)
  define m1 where "m1 = mem_write ivec c (mem_write out p m)"
  have step: "foldl (cbc_dec_word (call128 block c) inp out ivec) m [0, 8] = m1"
    unfolding m1_def p_def c_def using Suc.prems by (intro dec_words_write) auto
  have rest: "mem_read m1 (inp + 16) (16 * k) = mem_read m (inp + 16) (16 * k)"
    using Suc.prems by (auto simp: m1_def mem_read_other)
  have IH: "cbc_dec_inplace block (inp + 16) (out + 16) (len - 16) ivec m1 =
      (inp + 16 + 16 * k, out + 16 + 16 * k, len mod 16,
       mem_write ivec (last_block k c (mem_read m (inp + 16) (16 * k)))
         (mem_write (out + 16) (cbc_dec block k c (mem_read m (inp + 16) (16 * k))) m1))"
  proof -
    have "mem_read m1 ivec 16 = c" by (simp add: m1_def)
    moreover have "out + 16 \<le> inp + 16" "ivec + 16 \<le> inp + 16 \<or> inp + 16 + 16 * k \<le> ivec"
      "ivec + 16 \<le> out + 16 \<or> out + 16 + 16 * k \<le> ivec"
      using Suc.prems(2-4) by auto
    note Suc.IH [OF len(2) this, of m1]
    ultimately show ?thesis by (simp only: rest len(3))
  qed
  have split: "mem_read m inp (16 + 16 * k) = c @ mem_read m (inp + 16) (16 * k)"
    using mem_read_append [of m inp 16 "16 * k"] by (simp add: c_def)
  have d: "length (cbc_dec block k c (mem_read m (inp + 16) (16 * k))) = 16 * k"
    by (rule length_cbc_dec) simp_all
  have "length (last_block k c (mem_read m (inp + 16) (16 * k))) = 16"
    by (cases k) (simp_all add: last_block_def)
  then have "mem_write ivec (last_block k c (mem_read m (inp + 16) (16 * k)))
      (mem_write (out + 16) (cbc_dec block k c (mem_read m (inp + 16) (16 * k))) m1)
    = mem_write ivec (last_block k c (mem_read m (inp + 16) (16 * k)))
      (mem_write out (p @ cbc_dec block k c (mem_read m (inp + 16) (16 * k))) m)"
    unfolding m1_def using Suc.prems(4) d
    by (subst mem_write_swap [of "out + 16"]) (auto simp: mem_write_twice mem_write_append)
  then show ?case
    using len(1) IH step
    by (subst cbc_dec_inplace.simps) (simp add: split last_block_Suc c_def [symmetric] p_def [symmetric])
qed

lemma dec_rest_eq:
  assumes "0 < len" "len < 16" "out \<le> inp \<or> inp + 16 \<le> out"
    and "ivec + 16 \<le> inp \<or> inp + 16 \<le> ivec" "ivec + 16 \<le> out \<or> out + len \<le> ivec"
  shows "cbc_dec_rest block inp out len ivec m =
    mem_write ivec (mem_read m inp 16)
      (mem_write out (take len (map2 (XOR) (call128 block (mem_read m inp 16)) (mem_read m ivec 16))) m)"
proof -
  define c iv where "c = mem_read m inp 16" and "iv = mem_read m ivec 16"
  define p where "p = map2 (XOR) (call128 block c) iv"
  have l [simp]: "length c = 16" "length iv = 16" "length p = 16" by (simp_all add: c_def iv_def p_def)
  let ?s = "\<lambda>k. mem_write ivec (take k c) (mem_write out (take (min k len) p) m)"
  let ?f = "\<lambda>m n. let c' = m (inp + n); m = m(out + n := call128 block c ! n XOR m (ivec + n)) in m(ivec + n := c')"
  let ?g = "\<lambda>m n. m(ivec + n := m (inp + n))"
  have inp: "?s k (inp + k) = c ! k" if "k < 16" for k
    using that assms by (auto simp: mem_write_def c_def mem_read_nth)
  have iv: "?s k (ivec + k) = iv ! k" if "k < 16" for k
    using that assms by (auto simp: mem_write_def iv_def mem_read_nth)
  have ivec: "(mem_write ivec (take k c) m')(ivec + k := c ! k) = mem_write ivec (take (Suc k) c) m'" if "k < 16" for k m'
    using that by (auto simp: fun_eq_iff mem_write_def nth_append take_Suc_conv_app_nth less_Suc_eq)
  have step: "?f (?s k) k = ?s (Suc k)" if "k < len" for k
  proof -
    have k: "k < 16" using that assms(2) by simp
    have "(?s k)(out + k := p ! k) = mem_write ivec (take k c) (mem_write out (take (min (Suc k) len) p) m)"
      using that k assms(5)
      by (auto simp: fun_eq_iff mem_write_def nth_append take_Suc_conv_app_nth less_Suc_eq min_def)
    moreover have "call128 block c ! k XOR iv ! k = p ! k" using k by (simp add: p_def)
    ultimately show ?thesis using ivec [OF k] inp [OF k] iv [OF k] by (simp only: Let_def)
  qed
  have step2: "?g (?s k) k = ?s (Suc k)" if "len \<le> k" "k < 16" for k
    using ivec [OF that(2)] inp [OF that(2)] that(1) by (simp only: min_absorb2 le_SucI)
  have first: "k \<le> len \<Longrightarrow> foldl ?f m [0..<k] = ?s k" for k
    by (induction k) (simp_all only: upt_Suc foldl_append foldl.simps step Suc_leD Suc_le_lessD le0 if_True, simp_all)
  have second: "len + j \<le> 16 \<Longrightarrow> foldl ?g (?s len) [len..<len + j] = ?s (len + j)" for j
    using step2 by (induction j) (simp_all only: add_Suc_right upt_Suc le_add1 if_True foldl_append foldl.simps Suc_leD Suc_le_lessD, simp_all)
  show ?thesis
    using first [of len] second [of "16 - len"] assms(1,2)
    by (simp add: cbc_dec_rest_def Let_def p_def flip: c_def iv_def)
qed

lemma cbc_dec_append:
  "length xs = 16 * a \<Longrightarrow>
     cbc_dec block (a + b) iv (xs @ ys) = cbc_dec block a iv xs @ cbc_dec block b (last_block a iv xs) ys"
proof (induction a arbitrary: iv xs)
  case (Suc a)
  have "last_block (Suc a) iv xs = last_block a (take 16 xs) (drop 16 xs)"
    using Suc.prems last_block_Suc [of "take 16 xs" a iv "drop 16 xs"] by simp
  with Suc show ?case by simp
qed (simp add: last_block_def)

lemma length_last_block [simp]: "length iv = 16 \<Longrightarrow> length xs = 16 * k \<Longrightarrow> length (last_block k iv xs) = 16"
  by (cases k) (simp_all add: last_block_def)

lemma dec_whole_blocks:
  assumes "len div 16 = k" "out \<le> inp \<or> inp + 16 * k \<le> out" "0 < k"
    and "ivec + 16 \<le> inp \<or> inp + 16 * k \<le> ivec" "ivec + 16 \<le> out \<or> out + 16 * k \<le> ivec"
  shows "cbc_dec_whole block inp out len ivec m =
    (inp + 16 * k, out + 16 * k, len mod 16,
     mem_write ivec (last_block k (mem_read m ivec 16) (mem_read m inp (16 * k)))
       (mem_write out (cbc_dec block k (mem_read m ivec 16) (mem_read m inp (16 * k))) m))"
proof (cases "(inp \<ge> 32 \<and> out \<le> inp - 32) \<or> inp < out")
  case True
  let ?p = "cbc_dec block k (mem_read m ivec 16) (mem_read m inp (16 * k))"
  have p: "length ?p = 16 * k" by (rule length_cbc_dec) simp_all
  have far: "inp + 16 * k \<le> out \<or> out + 32 \<le> inp" using True assms(2) by auto
  have "mem_read (mem_write out ?p m) (inp + 16 * (k - 1)) 16 = mem_read m (inp + 16 * (k - 1)) 16"
    using far assms(3) p by (intro mem_read_other) auto
  also have "\<dots> = last_block k (mem_read m ivec 16) (mem_read m inp (16 * k))"
    using assms(3) mem_read_append [of m inp "16 * (k - 1)" 16]
    by (cases k) (simp_all add: last_block_def add.commute)
  finally show ?thesis
    using True assms(3) dec_blocks_eq [OF assms(1) _ far, of ivec block m] assms(5)
    by (auto simp: cbc_dec_whole_def memcpy_mem_def)
next
  case False
  then show ?thesis using dec_inplace_eq [OF assms(1) _ assms(4,5)] by (auto simp: cbc_dec_whole_def)
qed

lemma dec_short:
  "len < 16 \<Longrightarrow> cbc_dec_whole block inp out len ivec m = (inp, out, len, m)"
  by (simp add: cbc_dec_whole_def cbc_dec_blocks.simps cbc_dec_inplace.simps memcpy_mem_def mem_write_same)

lemma decrypt_first:
  assumes "0 < len" "len = 16 * k + r" "r < 16" "out \<le> inp \<or> inp + 16 * k \<le> out"
    and "ivec + 16 \<le> inp \<or> inp + 16 * k \<le> ivec" "ivec + 16 \<le> out \<or> out + 16 * k \<le> ivec"
  shows "CRYPTO_cbc128_decrypt block inp out len ivec m =
    (let iv = mem_read m ivec 16; c = mem_read m inp (16 * k) in
     cbc_dec_rest block (inp + 16 * k) (out + 16 * k) r ivec
       (mem_write ivec (last_block k iv c) (mem_write out (cbc_dec block k iv c) m)))"
proof -
  have k: "len div 16 = k" and r: "len mod 16 = r" using assms(2,3) by simp_all
  show ?thesis
  proof (cases "k = 0")
    case True
    then show ?thesis using assms(1,2,3) dec_short [of len]
      by (simp add: CRYPTO_cbc128_decrypt_def last_block_def mem_write_same)
  next
    case False
    from dec_whole_blocks [OF k assms(4) _ assms(5,6)] False show ?thesis
      using assms(1) r by (simp add: CRYPTO_cbc128_decrypt_def Let_def)
  qed
qed

lemma decrypt_eq:
  fixes block :: block128_f and m :: mem
  assumes "0 < len" "out \<le> inp \<or> inp + 16 * cbc_blocks len \<le> out"
    and "ivec + 16 \<le> inp \<or> inp + 16 * cbc_blocks len \<le> ivec"
    and "ivec + 16 \<le> out \<or> out + len \<le> ivec"
  defines "c \<equiv> mem_read m inp (16 * cbc_blocks len)"
  shows "CRYPTO_cbc128_decrypt block inp out len ivec m =
    mem_write ivec (last_block (cbc_blocks len) (mem_read m ivec 16) c)
      (mem_write out (take len (cbc_dec block (cbc_blocks len) (mem_read m ivec 16) c)) m)"
proof -
  define k r where "k = len div 16" and "r = len mod 16"
  have len: "len = 16 * k + r" "r < 16" by (simp_all add: k_def r_def)
  have blocks: "cbc_blocks len = k + (if r = 0 then 0 else 1)"
    by (simp add: cbc_blocks_def blocks_begun k_def r_def)
  define iv c1 where "iv = mem_read m ivec 16" and "c1 = mem_read m inp (16 * k)"
  define p1 where "p1 = cbc_dec block k iv c1"
  define m1 where "m1 = mem_write ivec (last_block k iv c1) (mem_write out p1 m)"
  have l [simp]: "length p1 = 16 * k" "length (last_block k iv c1) = 16"
    unfolding p1_def by (rule length_cbc_dec) (simp_all add: iv_def c1_def)
  have "out \<le> inp \<or> inp + 16 * k \<le> out" "ivec + 16 \<le> inp \<or> inp + 16 * k \<le> ivec"
    "ivec + 16 \<le> out \<or> out + 16 * k \<le> ivec"
    using assms(2-4) blocks len(1) by linarith+
  from decrypt_first [OF assms(1) len this]
  have first: "CRYPTO_cbc128_decrypt block inp out len ivec m =
      cbc_dec_rest block (inp + 16 * k) (out + 16 * k) r ivec m1"
    by (simp add: m1_def p1_def c1_def iv_def Let_def)
  show ?thesis
  proof (cases "r = 0")
    case True
    moreover have "take (16 * k) p1 = p1" by simp
    ultimately show ?thesis
      using first blocks len by (simp add: cbc_dec_rest_def m1_def c_def p1_def c1_def iv_def)
  next
    case False
    define x where "x = mem_read m (inp + 16 * k) 16"
    have x: "mem_read m1 (inp + 16 * k) 16 = x"
      unfolding m1_def x_def using assms(2,3) blocks False by (subst mem_read_other; (subst mem_read_other)?; auto)
    have "mem_read m1 ivec 16 = last_block k iv c1" by (simp add: m1_def)
    moreover define p2 where "p2 = map2 (XOR) (call128 block x) (last_block k iv c1)"
    moreover have "cbc_dec_rest block (inp + 16 * k) (out + 16 * k) r ivec m1 =
      mem_write ivec (mem_read m1 (inp + 16 * k) 16) (mem_write (out + 16 * k)
        (take r (map2 (XOR) (call128 block (mem_read m1 (inp + 16 * k) 16)) (mem_read m1 ivec 16))) m1)"
      by (rule dec_rest_eq) (use False len assms(2-4) blocks in auto)
    ultimately have rest: "cbc_dec_rest block (inp + 16 * k) (out + 16 * k) r ivec m1 =
        mem_write ivec x (mem_write (out + 16 * k) (take r p2) m1)"
      by (simp only: x)
    have lx: "length x = 16" "length (take r p2) = r" using len(2) by (simp_all add: x_def p2_def)
    have c: "c = c1 @ x" and bl: "cbc_blocks len = k + 1"
      using mem_read_append [of m inp "16 * k" 16] False blocks by (simp_all add: c_def c1_def x_def add.commute)
    have "cbc_dec block (cbc_blocks len) iv c = p1 @ p2"
      using cbc_dec_append [of c1 k block 1 iv x] lx by (simp add: bl c p1_def p2_def c1_def)
    then have "take len (cbc_dec block (cbc_blocks len) iv c) = p1 @ take r p2" by (simp add: len(1))
    moreover have "last_block (cbc_blocks len) iv c = x" using lx by (simp add: bl c last_block_def c1_def)
    moreover have "mem_write ivec x (mem_write (out + 16 * k) (take r p2) m1) =
        mem_write ivec x (mem_write out (p1 @ take r p2) m)"
      unfolding m1_def using assms(4) lx len(1)
      by (subst mem_write_swap [of "out + 16 * k"]) (auto simp: mem_write_twice mem_write_append)
    ultimately show ?thesis using first rest by (simp flip: iv_def)
  qed
qed

section \<open>Properties\<close>

lemma xor_twice: "length xs \<le> length ys \<Longrightarrow> map2 (XOR) (map2 (XOR) xs ys) ys = (xs :: bytes)"
  by (rule nth_equalityI) (simp_all add: xor.assoc)

lemma cbc_dec_enc:
  assumes "\<And>b. length b = 16 \<Longrightarrow> call128 D (call128 E b) = b"
  shows "length iv = 16 \<Longrightarrow> length xs = 16 * k \<Longrightarrow> cbc_dec D k iv (cbc_enc E k iv xs) = xs"
proof (induction k arbitrary: iv xs)
  case (Suc k)
  then show ?case using xor_twice [of "take 16 xs" iv] by (simp add: Let_def assms)
qed simp

text \<open>An output that starts behind the last byte of the input but inside its last block: the assertion
  holds, and the first loop overwrites ciphertext that the last step reads.\<close>

definition spill_block :: block128_f where
  "spill_block = (\<lambda>b i. b ! 1)"

definition spill_mem :: mem where
  "spill_mem = (\<lambda>a. if a = 17 then 1 else 0)"

lemma spill_plaintext: "CRYPTO_cbc128_decrypt spill_block 0 17 17 100 spill_mem 33 = 0"
proof -
  define m1 where "m1 = mem_write 100 (mem_read spill_mem 0 16)
    (mem_write 17 (cbc_dec spill_block 1 (mem_read spill_mem 100 16) (mem_read spill_mem 0 16)) spill_mem)"
  have run: "CRYPTO_cbc128_decrypt spill_block 0 17 17 100 spill_mem = cbc_dec_rest spill_block 16 33 1 100 m1"
  proof -
    have "last_block 1 iv (mem_read spill_mem 0 16) = mem_read spill_mem 0 16" for iv
      by (simp add: last_block_def)
    moreover have "CRYPTO_cbc128_decrypt spill_block 0 17 17 100 spill_mem =
      (let iv = mem_read spill_mem 100 16; c = mem_read spill_mem 0 (16 * 1) in
       cbc_dec_rest spill_block (0 + 16 * 1) (17 + 16 * 1) 1 100
         (mem_write 100 (last_block 1 iv c) (mem_write 17 (cbc_dec spill_block 1 iv c) spill_mem)))"
      by (rule decrypt_first) simp_all
    moreover have "17 + 16 * 1 = (33 :: nat)" by simp
    ultimately show ?thesis unfolding m1_def by (simp only: Let_def mult_1_right add_0)
  qed
  have keep: "foldl (\<lambda>m n. m(100 + n := m (16 + n))) f ns 33 = f 33" for f :: mem and ns
    by (induction ns arbitrary: f) simp_all
  have "cbc_dec spill_block 1 (mem_read spill_mem 100 16) (mem_read spill_mem 0 16) ! 0 = 0" by code_simp
  then have "m1 17 = 0"
    using length_cbc_dec [of "mem_read spill_mem 0 16" 1 "mem_read spill_mem 100 16" spill_block]
    by (simp add: m1_def mem_write_def del: cbc_dec.simps One_nat_def)
  moreover have "m1 100 = 0"
    by (simp add: m1_def mem_write_def mem_read_nth spill_mem_def del: cbc_dec.simps One_nat_def)
  moreover have "call128 spill_block (mem_read m1 16 16) ! 0 = m1 17"
    by (simp add: call128_def spill_block_def mem_read_def)
  ultimately show ?thesis
    unfolding run cbc_dec_rest_def Let_def by (simp add: keep upt_rec [of 0 1])
qed

lemma spill_reference:
  "mem_write 100 w (mem_write 17 (take 17 (cbc_dec spill_block 2 (mem_read spill_mem 100 16) (mem_read spill_mem 0 32))) spill_mem) 33 = 1"
proof -
  have "cbc_dec spill_block 2 (mem_read spill_mem 100 16) (mem_read spill_mem 0 32) ! 16 = 1" by code_simp
  then show ?thesis using length_cbc_dec [of "mem_read spill_mem 0 32" 2 "mem_read spill_mem 100 16" spill_block]
    by (simp add: mem_write_def del: cbc_dec.simps)
qed

text \<open>C39 \<open>CRYPTO_cbc128_decrypt\<close> chooses its loop by comparing pointers, and either choice is right:
  if the assertion on aliases holds and the output does not start in the unused rest of the last block
  of the input, the plaintext of the original ciphertext is written, \<open>len\<close> bytes of it, \<open>ivec\<close> receives the
  last block of the original ciphertext, and no other byte changes. The output may overlap the input by
  any amount from below. The exception is real: there the assertion holds too, but the first loop
  overwrites bytes of the last ciphertext block before they are read.\<close>
theorem cbc_decrypt_any_overlap:
  assumes "0 < len" "cbc_decrypt_assert inp out len"
    and "\<not> (inp + len \<le> out \<and> out < inp + 16 * ((len + 15) div 16))"
    and "ivec + 16 \<le> inp \<or> inp + 16 * ((len + 15) div 16) \<le> ivec"
    and "ivec + 16 \<le> out \<or> out + len \<le> ivec"
  shows "CRYPTO_cbc128_decrypt block inp out len ivec m =
      (let k = (len + 15) div 16; c = mem_read m inp (16 * k) in
       mem_write ivec (drop (16 * (k - 1)) c) (mem_write out (take len (cbc_dec block k (mem_read m ivec 16) c)) m))
    \<and> cbc_decrypt_assert 0 17 17
    \<and> CRYPTO_cbc128_decrypt spill_block 0 17 17 100 spill_mem \<noteq>
      (let k = (17 + 15) div 16; c = mem_read spill_mem 0 (16 * k) in
       mem_write 100 (drop (16 * (k - 1)) c)
         (mem_write 17 (take 17 (cbc_dec spill_block k (mem_read spill_mem 100 16) c)) spill_mem))"
proof -
  have "cbc_blocks len \<noteq> 0" using assms(1) by (simp add: cbc_blocks_def)
  moreover have "out \<le> inp \<or> inp + 16 * ((len + 15) div 16) \<le> out"
    using assms(2,3) by (auto simp: cbc_decrypt_assert_def)
  moreover have "CRYPTO_cbc128_decrypt spill_block 0 17 17 100 spill_mem \<noteq>
      mem_write 100 w (mem_write 17 (take 17 (cbc_dec spill_block 2 (mem_read spill_mem 100 16) (mem_read spill_mem 0 32))) spill_mem)" for w
    using spill_plaintext spill_reference [of w] by (metis zero_neq_one)
  ultimately show ?thesis
    using decrypt_eq [of len out inp ivec block m] assms
    by (simp add: Let_def last_block_def cbc_blocks_def right_diff_distrib' cbc_decrypt_assert_def)
qed

text \<open>The output starts eight bytes before the input, and the last block is not whole.\<close>
theorem cbc_decrypt_any_overlap_witness:
  "let block = (\<lambda>b i. b ! i + 1); m = (\<lambda>a. of_nat a) :: mem in
   CRYPTO_cbc128_decrypt block 108 100 20 50 m =
     mem_write 50 (drop 16 (mem_read m 108 32))
       (mem_write 100 (take 20 (cbc_dec block 2 (mem_read m 50 16) (mem_read m 108 32))) m)"
proof -
  define block :: block128_f where "block = (\<lambda>b i. b ! i + 1)"
  define m :: mem where "m = (\<lambda>a. of_nat a)"
  have "CRYPTO_cbc128_decrypt block 108 100 20 50 m =
     mem_write 50 (drop 16 (mem_read m 108 32))
       (mem_write 100 (take 20 (cbc_dec block 2 (mem_read m 50 16) (mem_read m 108 32))) m)"
    using cbc_decrypt_any_overlap [of 20 108 100 50 block m]
    by (simp add: Let_def cbc_decrypt_assert_def del: cbc_dec.simps)
  then show ?thesis by (simp only: Let_def block_def m_def)
qed

text \<open>C40 A message of any length, whole blocks or not, that \<open>CRYPTO_cbc128_encrypt\<close> encrypts from
  \<open>inp\<close> to \<open>out\<close>, in place or not, is recovered by \<open>CRYPTO_cbc128_decrypt\<close> in place with the same
  initialisation vector, and both leave the same vector for the next call.\<close>
theorem cbc_roundtrip:
  assumes "\<forall>b. length b = 16 \<longrightarrow> call128 D (call128 E b) = b"
    and "0 < len" "out \<le> inp \<or> inp + len \<le> out"
    and "ivec + 16 \<le> out \<or> out + 16 * ((len + 15) div 16) \<le> ivec"
  shows "let m1 = CRYPTO_cbc128_encrypt E inp out len ivec m;
             m2 = CRYPTO_cbc128_decrypt D out out len ivec (mem_write ivec (mem_read m ivec 16) m1)
         in mem_read m2 out len = mem_read m inp len \<and> mem_read m2 ivec 16 = mem_read m1 ivec 16"
proof -
  define k where "k = cbc_blocks len"
  have a: "ivec + 16 \<le> out \<or> out + 16 * k \<le> ivec" using assms(4) by (simp add: k_def cbc_blocks_def)
  have k: "len \<le> 16 * k" using length_pad16 [of "replicate len 0"] by (simp add: k_def cbc_blocks_def pad16_def)
  define iv c where "iv = mem_read m ivec 16" and "c = cbc_enc E k iv (pad16 (mem_read m inp len))"
  have lc: "length c = 16 * k" "length (last_block k iv c) = 16" by (simp_all add: c_def iv_def)
  define m1 where "m1 = mem_write ivec (last_block k iv c) (mem_write out c m)"
  have enc: "CRYPTO_cbc128_encrypt E inp out len ivec m = m1"
    unfolding m1_def c_def iv_def k_def by (rule encrypt_eq) (use assms(2,3) a k_def in auto)
  define m' where "m' = mem_write ivec iv m1"
  have c: "mem_read m' out (16 * k) = c" and iv: "mem_read m' ivec 16 = iv"
    using a lc by (auto simp: m'_def m1_def iv_def mem_read_other)
  have "cbc_dec D k iv c = pad16 (mem_read m inp len)"
    unfolding c_def by (rule cbc_dec_enc) (use assms(1) in \<open>simp_all add: iv_def k_def cbc_blocks_def\<close>)
  then have p: "take len (cbc_dec D k iv c) = mem_read m inp len" by (simp add: pad16_def)
  have "CRYPTO_cbc128_decrypt D out out len ivec m' =
      mem_write ivec (last_block k iv c) (mem_write out (mem_read m inp len) m')"
    using decrypt_eq [of len out out ivec D m'] assms(2) a k c iv p by (auto simp flip: k_def)
  moreover have "out + len \<le> ivec \<or> ivec + 16 \<le> out" using a k by auto
  moreover have "mem_read m1 ivec 16 = last_block k iv c" using lc by (simp add: m1_def)
  ultimately show ?thesis
    unfolding Let_def enc iv_def [symmetric] m'_def [symmetric] using lc by (auto simp: mem_read_other)
qed

text \<open>Encrypted in place, with a cipher that adds one to each byte.\<close>
theorem cbc_roundtrip_witness:
  "let E = (\<lambda>b i. b ! i + 1); D = (\<lambda>b i. b ! i - 1); m = (\<lambda>a. of_nat a) :: mem;
       m1 = CRYPTO_cbc128_encrypt E 100 100 37 50 m;
       m2 = CRYPTO_cbc128_decrypt D 100 100 37 50 (mem_write 50 (mem_read m 50 16) m1)
   in mem_read m2 100 37 = mem_read m 100 37 \<and> mem_read m2 50 16 = mem_read m1 50 16"
proof -
  define E D :: block128_f where "E = (\<lambda>b i. b ! i + 1)" and "D = (\<lambda>b i. b ! i - 1)"
  have "\<forall>b. length b = 16 \<longrightarrow> call128 D (call128 E b) = b"
    by (auto simp: call128_def E_def D_def intro!: nth_equalityI simp del: upt_rec_numeral)
  from cbc_roundtrip [OF this, of 37 100 100 50 "\<lambda>a. of_nat a"] show ?thesis
    by (simp add: Let_def flip: E_def D_def)
qed

end
