(* ===== verification/CFB_Shift.thy ===== *)
theory CFB_Shift
  imports Modes
begin

text \<open>
  Cipher feedback by bits and by bytes, the rest of \<open>crypto/fipsmodule/modes/cfb.c\<close>. The initialisation
  vector is a shift register: \<open>cfbr_encrypt_block\<close> shifts a segment of 1 to 128 bits of ciphertext in.
\<close>

section \<open>The routines\<close>

text \<open>The output and the new \<open>ivec\<close>; \<open>ovec\<close> is the old register with the ciphertext behind it.\<close>

definition cfbr_encrypt_block :: "block128_f \<Rightarrow> bool \<Rightarrow> nat \<Rightarrow> bytes \<Rightarrow> bytes \<Rightarrow> bytes \<times> bytes" where
  "cfbr_encrypt_block block enc nbits ivec inp =
     (if nbits = 0 \<or> nbits > 128 then ([], ivec) else
      let ovec = ivec;
          ivec = call128 block ivec;
          num = (nbits + 7) div 8;
          out = map (\<lambda>n. inp ! n XOR ivec ! n) [0..<num];
          ovec = ovec @ (if enc then out else take num inp);
          rem = nbits mod 8;
          num = nbits div 8
      in (out, if rem = 0 then take 16 (drop num ovec)
               else map (\<lambda>n. push_bit rem (ovec ! (n + num)) OR drop_bit (8 - rem) (ovec ! (n + num + 1))) [0..<16]))"

text \<open>\<open>n\<close> counts the bits; the input and the output are packed, most significant bit first.\<close>

fun cfb1_loop :: "block128_f \<Rightarrow> bool \<Rightarrow> nat \<Rightarrow> nat \<Rightarrow> bytes \<Rightarrow> bytes \<Rightarrow> bytes \<Rightarrow> bytes \<times> bytes" where
  "cfb1_loop block enc n 0 inp out ivec = (out, ivec)"
| "cfb1_loop block enc n (Suc k) inp out ivec =
     (let c = (if inp ! (n div 8) AND push_bit (7 - n mod 8) 1 \<noteq> 0 then 0x80 else 0);
          (d, ivec) = cfbr_encrypt_block block enc 1 ivec [c];
          out = out[n div 8 := (out ! (n div 8) AND NOT (push_bit (7 - n mod 8) 1))
                                OR drop_bit (n mod 8) (d ! 0 AND 0x80)]
      in cfb1_loop block enc (Suc n) k inp out ivec)"

definition CRYPTO_cfb128_1_encrypt :: "block128_f \<Rightarrow> bool \<Rightarrow> bytes \<Rightarrow> nat \<Rightarrow> bytes \<Rightarrow> bytes \<Rightarrow> bytes \<times> bytes" where
  "CRYPTO_cfb128_1_encrypt block enc ivec bits inp out = cfb1_loop block enc 0 bits inp out ivec"

fun CRYPTO_cfb128_8_encrypt :: "block128_f \<Rightarrow> bool \<Rightarrow> bytes \<Rightarrow> bytes \<Rightarrow> bytes \<times> bytes" where
  "CRYPTO_cfb128_8_encrypt block enc ivec [] = ([], ivec)"
| "CRYPTO_cfb128_8_encrypt block enc ivec (x # xs) =
     (let (y, ivec) = cfbr_encrypt_block block enc 8 ivec [x];
          (ys, ivec) = CRYPTO_cfb128_8_encrypt block enc ivec xs
      in (y @ ys, ivec))"

section \<open>The register\<close>

text \<open>A window of bytes, shifted by \<open>r\<close> bits.\<close>

lemma shift_byte:
  assumes "0 < r" "r < 8"
  shows "unat (push_bit r x OR drop_bit (8 - r) (y :: u8)) = (unat x * 2 ^ r + unat y div 2 ^ (8 - r)) mod 256"
proof -
  have lo: "unat (drop_bit (8 - r) y) = unat y div 2 ^ (8 - r)"
    by (simp only: unat_drop_bit_eq) (simp add: drop_bit_eq_div)
  have "unat y < 2 ^ (8 - r) * 2 ^ r" using assms by (simp flip: power_add)
  then have "unat (drop_bit (8 - r) y) < 2 ^ r" unfolding lo by (simp add: less_mult_imp_div_less mult.commute)
  then show ?thesis
    by (simp add: push_or_add unat_word_ariths(1) unat_push_bit lo mod_simps)
qed

lemma shift_window:
  assumes "0 < r" "r < 8"
  shows "length bs = k + 1 \<Longrightarrow>
    be_value (map (\<lambda>n. push_bit r (bs ! n) OR drop_bit (8 - r) (bs ! (n + 1))) [0..<k])
      = be_value bs div 2 ^ (8 - r) mod 256 ^ k"
proof (induction k arbitrary: bs)
  case 0
  then obtain b where "bs = [b]" by (auto simp: length_Suc_conv)
  then show ?case by simp
next
  case (Suc k)
  then obtain as y where bs: "bs = as @ [y]" "length as = k + 1" by (cases bs rule: rev_cases) auto
  then obtain zs x where as: "as = zs @ [x]" "length zs = k" by (cases as rule: rev_cases) auto
  let ?f = "\<lambda>bs n. push_bit r (bs ! n) OR drop_bit (8 - r) (bs ! (n + 1))"
  have init: "map (?f bs) [0..<k] = map (?f as) [0..<k]"
    using bs by (auto simp: nth_append)
  have "?f bs k = push_bit r x OR drop_bit (8 - r) y" using bs as by (simp add: nth_append)
  then have "map (?f bs) [0..<Suc k] = map (?f as) [0..<k] @ [push_bit r x OR drop_bit (8 - r) y]"
    using init by (simp only: upt_Suc_append le0 map_append list.map)
  then have "be_value (map (?f bs) [0..<Suc k])
      = be_value (map (?f as) [0..<k]) * 256 + unat (push_bit r x OR drop_bit (8 - r) y)"
    by (simp only: be_value_append) simp
  then have v: "be_value (map (?f bs) [0..<Suc k])
      = be_value as div 2 ^ (8 - r) mod 256 ^ k * 256 + (unat x * 2 ^ r + unat y div 2 ^ (8 - r)) mod 256"
    by (simp only: Suc.IH [OF bs(2)] shift_byte [OF assms])
  have e: "(256 :: nat) = 2 ^ r * 2 ^ (8 - r)" using assms by (simp flip: power_add)
  define w where "w = be_value bs div 2 ^ (8 - r)"
  have b: "be_value bs = be_value as * 256 + unat y" using bs by (simp add: byte_simps)
  have "be_value bs = (be_value as * 2 ^ r) * 2 ^ (8 - r) + unat y" unfolding b e by simp
  then have "w = be_value as * 2 ^ r + unat y div 2 ^ (8 - r)" unfolding w_def by (simp only:) simp
  also have "\<dots> = unat x * 2 ^ r + unat y div 2 ^ (8 - r) + be_value zs * 2 ^ r * 256"
    using as by (simp add: byte_simps algebra_simps)
  finally have low: "w mod 256 = (unat x * 2 ^ r + unat y div 2 ^ (8 - r)) mod 256"
    by (simp only: mod_mult_self1)
  have "w div 256 = be_value bs div 256 div 2 ^ (8 - r)"
    by (simp add: w_def mult.commute flip: div_mult2_eq)
  also have "be_value bs div 256 = be_value as" using b by simp
  finally have "w mod 256 ^ Suc k = be_value as div 2 ^ (8 - r) mod 256 ^ k * 256 + w mod 256"
    by (simp add: mod_mult2_eq)
  then show ?case using v low by (simp only: w_def)
qed

text \<open>The register is shifted by a segment, the leading bits of the ciphertext.\<close>

lemma cfbr_register:
  fixes block :: block128_f and ivec inp :: bytes and enc :: bool
  assumes "length ivec = 16" "0 < nbits" "nbits \<le> 128" "length inp = (nbits + 7) div 8"
  defines "out \<equiv> map2 (XOR) inp (call128 block ivec)"
  defines "c \<equiv> (if enc then out else inp)"
  shows "fst (cfbr_encrypt_block block enc nbits ivec inp) = out"
    and "length (snd (cfbr_encrypt_block block enc nbits ivec inp)) = 16"
    and "be_value (snd (cfbr_encrypt_block block enc nbits ivec inp)) =
      (be_value ivec * 2 ^ nbits + be_value c div 2 ^ (8 * length inp - nbits)) mod 2 ^ 128"
proof -
  define num where "num = nbits div 8"
  define r where "r = nbits mod 8"
  have nb: "nbits = 8 * num + r" "r < 8" by (simp_all add: num_def r_def)
  have li: "length inp = (if r = 0 then num else num + 1)"
  proof -
    have "(nbits + 7) div 8 = num + (r + 7) div 8" by (simp add: nb(1))
    moreover have "(r + 7) div 8 = (if r = 0 then 0 else 1)" using nb(2) by (auto intro: div_nat_eqI)
    ultimately show ?thesis using assms(4) by simp
  qed
  have le: "length inp \<le> 16" using assms(3) nb li by (auto split: if_splits)
  have out: "map (\<lambda>n. inp ! n XOR call128 block ivec ! n) [0..<length inp] = out"
    using map_index_map2 [of 0 inp "call128 block ivec" "(XOR)"] le by (simp add: out_def)
  have lc: "length c = length inp" using le by (simp add: c_def out_def)
  let ?o = "ivec @ c"
  have eq: "cfbr_encrypt_block block enc nbits ivec inp =
      (out, if r = 0 then take 16 (drop num ?o)
            else map (\<lambda>n. push_bit r (?o ! (n + num)) OR drop_bit (8 - r) (?o ! (n + num + 1))) [0..<16])"
    using assms(2,3,4) out by (simp add: cfbr_encrypt_block_def Let_def c_def num_def r_def del: upt_rec_numeral)
  show "fst (cfbr_encrypt_block block enc nbits ivec inp) = out" by (simp add: eq)
  show "length (snd (cfbr_encrypt_block block enc nbits ivec inp)) = 16"
    using lc li le assms(1) by (simp add: eq del: upt_rec_numeral split: if_splits)
  have p: "(2 :: nat) ^ (8 * k) = 256 ^ k" for k by (simp add: power_mult)
  have V: "be_value ?o = be_value ivec * 256 ^ length inp + be_value c" by (simp add: byte_simps lc)
  have drop: "be_value (drop k ?o) = be_value ?o mod 256 ^ (16 + length inp - k)" if "k \<le> 16" for k
  proof -
    have ld: "length (drop k ?o) = 16 + length inp - k" using assms(1) lc that by simp
    have "be_value ?o = be_value (take k ?o) * 256 ^ (16 + length inp - k) + be_value (drop k ?o)"
      using be_value_append [of "take k ?o" "drop k ?o"] by (simp only: append_take_drop_id ld)
    moreover have "be_value (drop k ?o) < 256 ^ (16 + length inp - k)"
      using be_value_less [of "drop k ?o"] by (simp only: ld)
    ultimately show ?thesis by simp
  qed
  show "be_value (snd (cfbr_encrypt_block block enc nbits ivec inp)) =
      (be_value ivec * 2 ^ nbits + be_value c div 2 ^ (8 * length inp - nbits)) mod 2 ^ 128"
  proof (cases "r = 0")
    case True
    then have tk: "take 16 (drop num ?o) = drop num ?o" and nb8: "nbits = 8 * num"
      using li lc assms(1) nb by simp_all
    have "num \<le> 16" using le li by (simp split: if_splits)
    moreover have "snd (cfbr_encrypt_block block enc nbits ivec inp) = drop num ?o"
      by (simp only: eq True tk simp_thms if_True snd_conv)
    ultimately show ?thesis
      using drop [of num] li True p [of 16] p [of num] V nb8 by simp
  next
    case False
    let ?w = "drop num ?o"
    have num: "num + 1 \<le> 16" using le li False by simp
    have lw: "length ?w = 16 + 1" using lc li False assms(1) num by simp
    have w: "map (\<lambda>n. push_bit r (?o ! (n + num)) OR drop_bit (8 - r) (?o ! (n + num + 1))) [0..<16]
        = map (\<lambda>n. push_bit r (?w ! n) OR drop_bit (8 - r) (?w ! (n + 1))) [0..<16]"
    proof -
      have "num \<le> length ?o" using assms(1) num by simp
      then have "?w ! n = ?o ! (n + num)" for n by (simp only: nth_drop add.commute)
      then show ?thesis by (simp only: add.assoc add.commute add.left_commute)
    qed
    have e: "8 * length inp - nbits = 8 - r" using li False nb by simp
    have s: "(256 :: nat) ^ (num + 1) = 2 ^ nbits * 2 ^ (8 - r)"
    proof -
      have "8 * (num + 1) = nbits + (8 - r)" using nb by simp
      then show ?thesis using p [of "num + 1"] by (simp only: power_add)
    qed
    have "be_value ?o = be_value ivec * 2 ^ nbits * 2 ^ (8 - r) + be_value c"
      using V li False s by (simp add: mult.assoc)
    then have sh: "be_value ?o div 2 ^ (8 - r) = be_value ivec * 2 ^ nbits + be_value c div 2 ^ (8 - r)"
      by (simp only:) simp
    have "be_value ?w div 2 ^ (8 - r) mod 256 ^ 16 = be_value ?o div 2 ^ (8 - r) mod 256 ^ 16"
    proof -
      have "(256 :: nat) = 2 ^ (8 - r) * 2 ^ r" using nb(2) by (simp flip: power_add)
      then have "(256 :: nat) * 256 ^ 16 = 2 ^ (8 - r) * (2 ^ r * 256 ^ 16)" by (simp only: mult.assoc)
      then have "(256 :: nat) ^ 17 = 2 ^ (8 - r) * (2 ^ r * 256 ^ 16)" by simp
      moreover have "be_value ?w = be_value ?o mod 256 ^ 17" using drop [of num] num li False by simp
      ultimately have "be_value ?w div 2 ^ (8 - r) = be_value ?o div 2 ^ (8 - r) mod (2 ^ r * 256 ^ 16)"
        by (simp only: mod_mult2_eq) simp
      then show ?thesis by (simp only: mod_mod_cancel [OF dvd_triv_right])
    qed
    moreover have "be_value (map (\<lambda>n. push_bit r (?w ! n) OR drop_bit (8 - r) (?w ! (n + 1))) [0..<16])
        = be_value ?w div 2 ^ (8 - r) mod 256 ^ 16"
      by (rule shift_window) (use False nb(2) lw in simp_all)
    moreover have "snd (cfbr_encrypt_block block enc nbits ivec inp)
        = map (\<lambda>n. push_bit r (?w ! n) OR drop_bit (8 - r) (?w ! (n + 1))) [0..<16]"
      by (simp only: eq False if_False snd_conv w)
    moreover have "(2 :: nat) ^ 128 = 256 ^ 16" by simp
    ultimately show ?thesis by (simp only: sh e)
  qed
qed

section \<open>Bits\<close>

abbreviation bit_at :: "bytes \<Rightarrow> nat \<Rightarrow> bool" where
  "bit_at xs n \<equiv> bit (xs ! (n div 8)) (7 - n mod 8)"

text \<open>Cipher feedback of bits: a ciphertext bit is shifted into the register.\<close>

fun cfb_bits :: "block128_f \<Rightarrow> bool \<Rightarrow> bytes \<Rightarrow> bool list \<Rightarrow> bool list \<times> bytes" where
  "cfb_bits block enc iv [] = ([], iv)"
| "cfb_bits block enc iv (x # xs) =
     (let y = (x \<noteq> bit (block iv 0) 7);
          (ys, iv) = cfb_bits block enc (be_bytes 16 (be_value iv * 2 + of_bool (if enc then y else x))) xs
      in (y # ys, iv))"

lemma top_bit: "unat c div 2 ^ 7 = of_bool (bit (c :: u8) 7)"
proof -
  have "unat c div 2 ^ 7 < 2" by (rule less_mult_imp_div_less) simp
  moreover have "bit (unat c) 7 = bit c 7" by (simp add: bit_unsigned_iff)
  then have "odd (unat c div 2 ^ 7) = bit c 7" unfolding bit_iff_odd [of "unat c"] .
  ultimately show ?thesis by (cases "bit c 7") (auto simp: less_2_cases_iff)
qed

lemma cfbr_one_bit:
  assumes "length iv = 16" "bit c 7 = x"
  shows "fst (cfbr_encrypt_block block enc 1 iv [c]) = [c XOR block iv 0]"
    and "snd (cfbr_encrypt_block block enc 1 iv [c]) =
      be_bytes 16 (be_value iv * 2 + of_bool (if enc then x \<noteq> bit (block iv 0) 7 else x))"
proof -
  have c0: "call128 block iv = block iv 0 # map (block iv) [1..<16]"
    by (simp add: call128_def upt_conv_Cons)
  show "fst (cfbr_encrypt_block block enc 1 iv [c]) = [c XOR block iv 0]"
    by (subst cfbr_register(1) [OF assms(1)]) (simp_all add: c0 del: upt_rec_numeral)
  have "be_value (snd (cfbr_encrypt_block block enc 1 iv [c])) =
      (be_value iv * 2 + of_bool (if enc then x \<noteq> bit (block iv 0) 7 else x)) mod 256 ^ 16"
    using assms(2) by (subst cfbr_register(3) [OF assms(1)])
      (simp_all add: c0 top_bit [simplified] bit_xor_iff del: upt_rec_numeral)
  moreover have "length (snd (cfbr_encrypt_block block enc 1 iv [c])) = 16"
    by (rule cfbr_register(2) [OF assms(1)]) simp_all
  ultimately show "snd (cfbr_encrypt_block block enc 1 iv [c]) =
      be_bytes 16 (be_value iv * 2 + of_bool (if enc then x \<noteq> bit (block iv 0) 7 else x))"
    by (intro be_value_inj) (simp_all add: be_value_be_bytes)
qed

lemma put_bit:
  "i < 8 \<Longrightarrow> s < 8 \<Longrightarrow> bit ((b AND NOT (push_bit (7 - s) 1)) OR drop_bit s (d AND 0x80) :: u8) i
     = (if i = 7 - s then bit d 7 else bit b i)"
proof -
  assume "i < 8" "s < 8"
  have "bit (push_bit 7 (1 :: u8)) k \<longleftrightarrow> k = 7" for k
    unfolding bit_push_bit_iff by (auto simp: bit_1_iff)
  then have "bit (0x80 :: u8) k \<longleftrightarrow> k = 7" for k by simp
  moreover have "bit (push_bit (7 - s) (1 :: u8)) i \<longleftrightarrow> i = 7 - s" using \<open>i < 8\<close> by (auto simp: bit_simps)
  moreover have "s + i = 7 \<longleftrightarrow> i = 7 - s" using \<open>s < 8\<close> by auto
  ultimately show ?thesis
    using \<open>i < 8\<close> \<open>s < 8\<close> by (auto simp: bit_or_iff bit_and_iff bit_not_iff bit_drop_bit_eq)
qed

lemma bit_at_same: "m div 8 = n div 8 \<Longrightarrow> 7 - m mod 8 = 7 - n mod 8 \<longleftrightarrow> m = n" for m n :: nat
proof -
  assume d: "m div 8 = n div 8"
  have "m mod 8 < 8" "n mod 8 < 8" by simp_all
  then have "7 - m mod 8 = 7 - n mod 8 \<longleftrightarrow> m mod 8 = n mod 8" by linarith
  also have "\<dots> \<longleftrightarrow> m = n" using d by (metis mult_div_mod_eq)
  finally show ?thesis .
qed

lemma cfb1_step_bit:
  assumes "m < 8 * length out" "n < 8 * length out"
  shows "bit_at (out[n div 8 := (out ! (n div 8) AND NOT (push_bit (7 - n mod 8) 1))
       OR drop_bit (n mod 8) (d AND 0x80)]) m = (if m = n then bit d 7 else bit_at out m)"
proof (cases "m div 8 = n div 8")
  case True
  then show ?thesis
    using assms bit_at_same [OF True] put_bit [of "7 - m mod 8" "n mod 8" "out ! (n div 8)" d]
    by (simp add: div_less_iff_less_mult)
qed auto

lemma cfb1_loop_bits:
  "n + k \<le> 8 * length inp \<Longrightarrow> n + k \<le> 8 * length out \<Longrightarrow> length iv = 16 \<Longrightarrow>
   cfb1_loop block enc n k inp out iv = (out', iv') \<Longrightarrow>
   cfb_bits block enc iv (map (bit_at inp) [n..<n + k]) = (ys, r) \<Longrightarrow>
   iv' = r \<and> length out' = length out \<and>
   (\<forall>m < 8 * length out. bit_at out' m = (if n \<le> m \<and> m < n + k then ys ! (m - n) else bit_at out m))"
proof (induction k arbitrary: n out iv ys)
  case 0
  then show ?case by auto
next
  case (Suc k)
  define x where "x = bit_at inp n"
  define c :: u8 where "c = (if inp ! (n div 8) AND push_bit (7 - n mod 8) 1 \<noteq> 0 then 0x80 else 0)"
  have c: "bit c 7 = x"
  proof -
    have "bit (push_bit 7 (1 :: u8)) 7" unfolding bit_push_bit_iff by simp
    then show ?thesis by (simp add: c_def x_def bit_iff_and_push_bit_not_eq_0 [of "inp ! (n div 8)"])
  qed
  note step = cfbr_one_bit [OF Suc.prems(3) c]
  define iv1 where "iv1 = be_bytes 16 (be_value iv * 2 + of_bool (if enc then x \<noteq> bit (block iv 0) 7 else x))"
  define out1 where "out1 = out[n div 8 := (out ! (n div 8) AND NOT (push_bit (7 - n mod 8) 1))
      OR drop_bit (n mod 8) ((c XOR block iv 0) AND 0x80)]"
  have cfbr: "cfbr_encrypt_block block enc 1 iv [c] = ([c XOR block iv 0], iv1)"
    using step [of block enc] unfolding iv1_def by (simp only: prod_eq_iff fst_conv snd_conv)
  have loop: "cfb1_loop block enc (Suc n) k inp out1 iv1 = (out', iv')"
    using Suc.prems(4)
    unfolding cfb1_loop.simps Let_def c_def [symmetric] cfbr prod.case nth_Cons_0 out1_def [symmetric] .
  have bits: "map (bit_at inp) [n..<n + Suc k] = x # map (bit_at inp) [Suc n..<Suc n + k]"
    using upt_conv_Cons [of n "n + Suc k"] by (simp add: x_def del: upt_Suc)
  obtain zs r0 where z: "cfb_bits block enc iv1 (map (bit_at inp) [Suc n..<Suc n + k]) = (zs, r0)" by fastforce
  have "ys = (x \<noteq> bit (block iv 0) 7) # zs \<and> r0 = r"
    using Suc.prems(5) unfolding bits cfb_bits.simps Let_def iv1_def [symmetric] z by simp
  then have zs: "cfb_bits block enc iv1 (map (bit_at inp) [Suc n..<Suc n + k]) = (zs, r)"
      "ys = (x \<noteq> bit (block iv 0) 7) # zs"
    using z by simp_all
  have "iv' = r \<and> length out' = length out1 \<and>
     (\<forall>m < 8 * length out1. bit_at out' m = (if Suc n \<le> m \<and> m < Suc n + k then zs ! (m - Suc n) else bit_at out1 m))"
    by (rule Suc.IH [OF _ _ _ loop zs(1)]) (use Suc.prems in \<open>simp_all add: out1_def iv1_def\<close>)
  moreover have "length out1 = length out" by (simp add: out1_def)
  moreover have "bit_at out1 m = (if m = n then x \<noteq> bit (block iv 0) 7 else bit_at out m)"
    if "m < 8 * length out" for m
    unfolding out1_def using Suc.prems(2) c by (subst cfb1_step_bit [OF that]) (auto simp: bit_xor_iff)
  ultimately show ?case
    using Suc.prems(2) by (auto simp: zs(2) nth_Cons' Suc_diff_Suc)
qed

lemma cfb_bits_inverse: "cfb_bits block True iv xs = (ys, r) \<Longrightarrow> cfb_bits block False iv ys = (xs, r)"
  by (induction block True iv xs arbitrary: ys rule: cfb_bits.induct) (auto simp: Let_def split: prod.splits)


lemma cfb8_roundtrip:
  "length iv = 16 \<Longrightarrow> CRYPTO_cfb128_8_encrypt block True iv xs = (ys, r) \<Longrightarrow>
     CRYPTO_cfb128_8_encrypt block False iv ys = (xs, r)"
proof (induction xs arbitrary: iv ys)
  case (Cons x xs)
  have c0: "call128 block iv = block iv 0 # map (block iv) [1..<16]"
    by (simp add: call128_def upt_conv_Cons)
  define y where "y = x XOR block iv 0"
  obtain iv1 where e: "cfbr_encrypt_block block True 8 iv [x] = ([y], iv1)" "length iv1 = 16"
    using cfbr_register(1,2) [OF Cons.prems(1), of 8 "[x]" block True]
    by (cases "cfbr_encrypt_block block True 8 iv [x]") (simp add: c0 y_def)
  have d: "cfbr_encrypt_block block False 8 iv [y] = ([x], iv1)"
  proof (rule prod_eqI)
    show "fst (cfbr_encrypt_block block False 8 iv [y]) = fst ([x], iv1)"
      using cfbr_register(1) [OF Cons.prems(1), of 8 "[y]" block False] by (simp add: c0 y_def xor.assoc)
    have "length (snd (cfbr_encrypt_block block False 8 iv [y])) = length (snd ([x], iv1))"
      using cfbr_register(2) [OF Cons.prems(1), of 8 "[y]" block False] e(2) by simp
    moreover have "be_value (snd (cfbr_encrypt_block block False 8 iv [y])) = be_value (snd ([x], iv1))"
      using cfbr_register(3) [OF Cons.prems(1), of 8 "[y]" block False]
        cfbr_register(3) [OF Cons.prems(1), of 8 "[x]" block True] e(1) by (simp add: c0 y_def)
    ultimately show "snd (cfbr_encrypt_block block False 8 iv [y]) = snd ([x], iv1)" by (rule be_value_inj)
  qed
  obtain zs where "CRYPTO_cfb128_8_encrypt block True iv1 xs = (zs, r)" "ys = y # zs"
    using Cons.prems(2) e(1) by (auto split: prod.splits)
  then show ?case using Cons.IH [OF e(2)] d by simp
qed simp

section \<open>Properties\<close>

text \<open>C38 Cipher feedback by bits: whatever the output buffers held, a message of any number of
  bits that \<open>CRYPTO_cfb128_1_encrypt\<close> encrypted is decrypted to the same bits, and the bits behind it in the
  output buffer are kept; encryption and decryption leave the same register. Likewise for
  \<open>CRYPTO_cfb128_8_encrypt\<close> and bytes.\<close>
theorem cfb_bits_roundtrip:
  assumes "length ivec = 16" "bits \<le> 8 * length msg" "bits \<le> 8 * length buf1" "bits \<le> 8 * length buf2"
  shows "let (ct, r) = CRYPTO_cfb128_1_encrypt block True ivec bits msg buf1;
             (pt, r') = CRYPTO_cfb128_1_encrypt block False ivec bits ct buf2;
             (ct8, r8) = CRYPTO_cfb128_8_encrypt block True ivec msg
         in r' = r \<and> length pt = length buf2
            \<and> (\<forall>m < 8 * length buf2. bit_at pt m = bit_at (if m < bits then msg else buf2) m)
            \<and> CRYPTO_cfb128_8_encrypt block False ivec ct8 = (msg, r8)"
proof -
  obtain ct r where e: "CRYPTO_cfb128_1_encrypt block True ivec bits msg buf1 = (ct, r)" by fastforce
  obtain pt r' where d: "CRYPTO_cfb128_1_encrypt block False ivec bits ct buf2 = (pt, r')" by fastforce
  obtain ct8 r8 where e8: "CRYPTO_cfb128_8_encrypt block True ivec msg = (ct8, r8)" by fastforce
  obtain ys s where b: "cfb_bits block True ivec (map (bit_at msg) [0..<bits]) = (ys, s)" by fastforce
  have ct: "r = s \<and> length ct = length buf1
      \<and> (\<forall>m < 8 * length buf1. bit_at ct m = (if 0 \<le> m \<and> m < 0 + bits then ys ! (m - 0) else bit_at buf1 m))"
    by (rule cfb1_loop_bits [OF _ _ assms(1) e [unfolded CRYPTO_cfb128_1_encrypt_def]]) (use assms b in simp_all)
  have len: "length (fst (cfb_bits block True iv xs)) = length xs" for iv xs
    by (induction block True iv xs rule: cfb_bits.induct) (auto simp: Let_def split: prod.splits)
  have "length ys = bits" using len [of ivec "map (bit_at msg) [0..<bits]"] unfolding b by simp
  then have "map (bit_at ct) [0..<0 + bits] = ys" using ct assms(3) by (intro nth_equalityI) auto
  then have db: "cfb_bits block False ivec (map (bit_at ct) [0..<0 + bits]) = (map (bit_at msg) [0..<bits], s)"
    using cfb_bits_inverse [OF b] by simp
  have "r' = s \<and> length pt = length buf2 \<and> (\<forall>m < 8 * length buf2. bit_at pt m =
      (if 0 \<le> m \<and> m < 0 + bits then map (bit_at msg) [0..<bits] ! (m - 0) else bit_at buf2 m))"
    by (rule cfb1_loop_bits [OF _ _ assms(1) d [unfolded CRYPTO_cfb128_1_encrypt_def] db])
      (use assms ct in simp_all)
  then show ?thesis using cfb8_roundtrip [OF assms(1) e8] ct by (simp add: e d e8)
qed

text \<open>Eleven bits, into buffers that are not empty.\<close>
theorem cfb_bits_roundtrip_witness:
  "let (ct, r) = CRYPTO_cfb128_1_encrypt (\<lambda>b i. b ! i + 1) True (replicate 16 0xa5) 11 [0x5a, 0xff] [0xff, 0x1f];
       (pt, r') = CRYPTO_cfb128_1_encrypt (\<lambda>b i. b ! i + 1) False (replicate 16 0xa5) 11 ct [0, 1];
       (ct8, r8) = CRYPTO_cfb128_8_encrypt (\<lambda>b i. b ! i + 1) True (replicate 16 0xa5) [0x5a, 0xff]
   in r' = r \<and> length pt = length [0, 1 :: u8]
      \<and> (\<forall>m < 8 * length [0, 1 :: u8]. bit_at pt m = bit_at (if m < 11 then [0x5a, 0xff] else [0, 1]) m)
      \<and> CRYPTO_cfb128_8_encrypt (\<lambda>b i. b ! i + 1) False (replicate 16 0xa5) ct8 = ([0x5a, 0xff], r8)"
  by (rule cfb_bits_roundtrip) simp_all

end
