(* ===== verification/PB_Message.thy ===== *)
theory PB_Message
  imports PB_Arrays
begin

text \<open>
  Messages of nanopb: default values, release and decoding (\<open>Pods/nanopb/pb_decode.c\<close>). The descriptors,
  the user's callbacks and extension types and the heap functions are the parameter \<open>pb_env\<close>; they
  are found by their addresses, as the code finds them. An operation returns \<open>None\<close> if it does not
  return, and its result and the context otherwise. The functions call each other through the submessages; the
  number \<open>n\<close> bounds the nesting of these calls, and where it is 0 there is no result.
\<close>

section \<open>Operations that may not return\<close>

type_synonym ('st, 'a) pop = "'st pb_dctx \<Rightarrow> ('a option \<times> 'st pb_dctx) option"

definition lift :: "('st, 'a) dop \<Rightarrow> ('st, 'a) pop" where
  "lift p c = Some (p c)"

definition pbind :: "('st, 'a) pop \<Rightarrow> ('a \<Rightarrow> ('st, 'b) pop) \<Rightarrow> ('st, 'b) pop" where
  "pbind p f c = (case p c of
     None \<Rightarrow> None
   | Some (None, c) \<Rightarrow> Some (None, c)
   | Some (Some a, c) \<Rightarrow> f a c)"

text \<open>A function that only changes the memory.\<close>

definition on_mem :: "(mem \<Rightarrow> mem option) \<Rightarrow> ('st, unit) pop" where
  "on_mem f c = map_option (\<lambda>m. (Some (), c\<lparr>d_mem := m\<rparr>)) (f (d_mem c))"

text \<open>\<open>PB_RETURN_ERROR(stream, msg)\<close>.\<close>

abbreviation pb_return_error :: "string \<Rightarrow> ('st, 'a) pop" where
  "pb_return_error msg \<equiv> lift (on_in (i_error msg))"

abbreviation pok :: "'a \<Rightarrow> ('st, 'a) pop" where
  "pok a \<equiv> lift (gret a)"

text \<open>Pointers and \<open>pb_size_t\<close> counters in memory.\<close>

abbreviation ptr_at :: "mem \<Rightarrow> nat \<Rightarrow> nat" where
  "ptr_at m a \<equiv> mem_nat m a 8"

abbreviation size_at :: "mem \<Rightarrow> nat \<Rightarrow> nat" where
  "size_at m a \<equiv> mem_nat m a 4"

definition set_ptr :: "nat \<Rightarrow> nat \<Rightarrow> mem \<Rightarrow> mem" where
  "set_ptr a p = mem_write a (le_bytes 8 p)"

definition set_size :: "nat \<Rightarrow> nat \<Rightarrow> mem \<Rightarrow> mem" where
  "set_size a n = mem_write a (le_bytes 4 n)"

definition set_bool :: "nat \<Rightarrow> bool \<Rightarrow> mem \<Rightarrow> mem" where
  "set_bool a b = mem_write a [of_bool b]"

definition mem_zero :: "nat \<Rightarrow> nat \<Rightarrow> mem \<Rightarrow> mem" where
  "mem_zero a n = mem_write a (replicate n 0)"

section \<open>The environment\<close>

record 'st pb_extension_type =
  xt_decode :: "(nat \<Rightarrow> u32 \<Rightarrow> u32 \<Rightarrow> ('st, unit) dop) option"
  xt_encode :: "(mem \<Rightarrow> nat \<Rightarrow> ('st, unit) oop) option"
  xt_arg :: nat

text \<open>
  The descriptors and the extension type at an address, the user's functions at an address,
  \<open>pb_realloc\<close> and \<open>pb_free\<close>, and the address of the local variable \<open>fixed_count_size\<close> in the activation of
  \<open>pb_decode_noinit\<close> that has \<open>n\<close> levels below it.
\<close>

record 'st pb_env =
  fields_at :: "nat \<Rightarrow> pb_field list"
  extension_type_at :: "nat \<Rightarrow> 'st pb_extension_type"
  decode_fn :: "nat \<Rightarrow> pb_field \<Rightarrow> nat \<Rightarrow> ('st, unit) dop"
  encode_fn :: "nat \<Rightarrow> pb_field \<Rightarrow> mem \<Rightarrow> nat \<Rightarrow> ('st, unit) oop"
  heap_realloc :: pb_realloc
  heap_free :: "nat \<Rightarrow> mem \<Rightarrow> mem"
  fixed_count_size :: "nat \<Rightarrow> nat"

definition PB_ATYPE_CALLBACK :: u8 where "PB_ATYPE_CALLBACK = 0x40"
definition PB_LTYPE_LAST_PACKABLE :: u8 where "PB_LTYPE_LAST_PACKABLE = 0x05"
definition PB_MAX_REQUIRED_FIELDS :: nat where "PB_MAX_REQUIRED_FIELDS = 64"

definition is_static :: "pb_field \<Rightarrow> bool" where
  "is_static f \<longleftrightarrow> PB_ATYPE (f_type f) = PB_ATYPE_STATIC"

definition is_pointer :: "pb_field \<Rightarrow> bool" where
  "is_pointer f \<longleftrightarrow> PB_ATYPE (f_type f) = PB_ATYPE_POINTER"

definition is_callback :: "pb_field \<Rightarrow> bool" where
  "is_callback f \<longleftrightarrow> PB_ATYPE (f_type f) = PB_ATYPE_CALLBACK"

abbreviation ltype :: "pb_field \<Rightarrow> u8" where "ltype f \<equiv> PB_LTYPE (f_type f)"
abbreviation htype :: "pb_field \<Rightarrow> u8" where "htype f \<equiv> PB_HTYPE (f_type f)"

text \<open>The members of \<open>pb_extension_t\<close> are \<open>type\<close>, \<open>dest\<close>, \<open>next\<close> (pointers) and \<open>found\<close>.\<close>

definition iter_from_extension :: "'st pb_env \<Rightarrow> nat \<Rightarrow> mem \<Rightarrow> pb_field_iter" where
  "iter_from_extension env ext m =
     (let field = fields_at env (xt_arg (extension_type_at env (ptr_at m ext)));
          it = snd (pb_field_iter_begin field (ptr_at m (ext + 8)));
          it = it\<lparr>pData := ptr_at m (ext + 8), pSize := ext + 24\<rparr> in
      if is_pointer (field ! 0) then it\<lparr>pData := ext + 8\<rparr> else it)"

section \<open>Loops over fields and extensions\<close>

text \<open>\<open>do ... while (pb_field_iter_next(&iter))\<close>.\<close>

partial_function (option) field_walk :: "(pb_field_iter \<Rightarrow> mem \<Rightarrow> mem option) \<Rightarrow> pb_field_iter \<Rightarrow> mem \<Rightarrow> mem option" where
  "field_walk f it m = (case f it m of
     None \<Rightarrow> None
   | Some m \<Rightarrow> (case pb_field_iter_next it of (again, it) \<Rightarrow> if again then field_walk f it m else Some m))"

text \<open>The linked list of the extensions.\<close>

partial_function (option) extension_walk :: "(nat \<Rightarrow> mem \<Rightarrow> mem option) \<Rightarrow> nat \<Rightarrow> mem \<Rightarrow> mem option" where
  "extension_walk f ext m =
     (if ext = 0 then Some m
      else case f ext m of None \<Rightarrow> None | Some m \<Rightarrow> extension_walk f (ptr_at m (ext + 16)) m)"

fun item_walk :: "(nat \<Rightarrow> mem \<Rightarrow> mem option) \<Rightarrow> nat \<Rightarrow> nat \<Rightarrow> nat \<Rightarrow> mem \<Rightarrow> mem option" where
  "item_walk f step 0 p m = Some m"
| "item_walk f step (Suc cnt) p m = (case f p m of None \<Rightarrow> None | Some m \<Rightarrow> item_walk f step cnt (p + step) m)"

section \<open>Default values\<close>

definition set_to_defaults :: "(pb_field_iter \<Rightarrow> mem \<Rightarrow> mem option) \<Rightarrow> pb_field list \<Rightarrow> nat \<Rightarrow> mem \<Rightarrow> mem option" where
  "set_to_defaults set_field fs dest m =
     (case pb_field_iter_begin fs dest of (again, it) \<Rightarrow> if again then field_walk set_field it m else Some m)"

fun pb_field_set_to_default :: "'st pb_env \<Rightarrow> nat \<Rightarrow> pb_field_iter \<Rightarrow> mem \<Rightarrow> mem option" where
  "pb_field_set_to_default env 0 it m = None"
| "pb_field_set_to_default env (Suc n) it m =
     (let f = cur_field it in
      if ltype f = PB_LTYPE_EXTENSION then
        extension_walk (\<lambda>ext m.
          let m = set_bool (ext + 24) False m in
          pb_field_set_to_default env n (iter_from_extension env ext m) m) (ptr_at m (pData it)) m
      else if is_static f then
        if htype f = PB_HTYPE_REPEATED \<or> htype f = PB_HTYPE_ONEOF then Some (set_size (pSize it) 0 m)
        else
          let m = (if htype f = PB_HTYPE_OPTIONAL \<and> pSize it \<noteq> pData it then set_bool (pSize it) False m else m) in
          if ltype f = PB_LTYPE_SUBMESSAGE
          then set_to_defaults (pb_field_set_to_default env n) (fields_at env (f_ptr f)) (pData it) m
          else if f_ptr f \<noteq> 0 then Some (mem_write (pData it) (mem_read m (f_ptr f) (data_size f)) m)
          else Some (mem_zero (pData it) (data_size f) m)
      else if is_pointer f then
        let m = set_ptr (pData it) 0 m in
        if htype f = PB_HTYPE_REPEATED \<or> htype f = PB_HTYPE_ONEOF then Some (set_size (pSize it) 0 m) else Some m
      else Some m)"

definition pb_message_set_to_defaults :: "'st pb_env \<Rightarrow> nat \<Rightarrow> pb_field list \<Rightarrow> nat \<Rightarrow> mem \<Rightarrow> mem option" where
  "pb_message_set_to_defaults env n = set_to_defaults (pb_field_set_to_default env n)"

section \<open>Release\<close>

definition release_fields :: "(pb_field_iter \<Rightarrow> mem \<Rightarrow> mem option) \<Rightarrow> pb_field list \<Rightarrow> nat \<Rightarrow> mem \<Rightarrow> mem option" where
  "release_fields release_field fs dest m =
     (if dest = 0 then Some m
      else case pb_field_iter_begin fs dest of (again, it) \<Rightarrow> if again then field_walk release_field it m else Some m)"

text \<open>The number of submessages at \<open>pItem\<close>.\<close>

definition release_count :: "pb_field_iter \<Rightarrow> mem \<Rightarrow> nat" where
  "release_count it m =
     (let f = cur_field it in
      if htype f = PB_HTYPE_REPEATED then
        let cnt = (if is_static f \<and> pSize it = pData it then array_size f else size_at m (pSize it)) in
        if is_static f \<and> cnt > array_size f then array_size f else cnt
      else 1)"

text \<open>The end of \<open>pb_release_single_field\<close>: the pointers of the field itself.\<close>

definition release_pointer :: "'st pb_env \<Rightarrow> pb_field_iter \<Rightarrow> mem \<Rightarrow> mem option" where
  "release_pointer env it m =
     (let f = cur_field it in
      if is_pointer f then
        case (if htype f = PB_HTYPE_REPEATED \<and> (ltype f = PB_LTYPE_STRING \<or> ltype f = PB_LTYPE_BYTES)
              then item_walk (\<lambda>p m. Some (set_ptr p 0 (heap_free env (ptr_at m p) m))) 8
                     (size_at m (pSize it)) (ptr_at m (pData it)) m
              else Some m) of
          None \<Rightarrow> None
        | Some m \<Rightarrow>
            let m = (if htype f = PB_HTYPE_REPEATED then set_size (pSize it) 0 m else m) in
            Some (set_ptr (pData it) 0 (heap_free env (ptr_at m (pData it)) m))
      else Some m)"

fun pb_release_single_field :: "'st pb_env \<Rightarrow> nat \<Rightarrow> pb_field_iter \<Rightarrow> mem \<Rightarrow> mem option" where
  "pb_release_single_field env 0 it m = None"
| "pb_release_single_field env (Suc n) it m =
     (let f = cur_field it in
      if htype f = PB_HTYPE_ONEOF \<and> size_at m (pSize it) \<noteq> f_tag f then Some m
      else case
        (if ltype f = PB_LTYPE_EXTENSION then
           extension_walk (\<lambda>ext m. pb_release_single_field env n (iter_from_extension env ext m) m) (ptr_at m (pData it)) m
         else if ltype f = PB_LTYPE_SUBMESSAGE \<and> \<not> is_callback f then
           let pItem = (if is_pointer f then ptr_at m (pData it) else pData it) in
           if pItem \<noteq> 0
           then item_walk (release_fields (pb_release_single_field env n) (fields_at env (f_ptr f)))
                  (data_size f) (release_count it m) pItem m
           else Some m
         else Some m) of
          None \<Rightarrow> None
        | Some m \<Rightarrow> release_pointer env it m)"

definition pb_release :: "'st pb_env \<Rightarrow> nat \<Rightarrow> pb_field list \<Rightarrow> nat \<Rightarrow> mem \<Rightarrow> mem option" where
  "pb_release env n = release_fields (pb_release_single_field env n)"

text \<open>The iterator is moved to the old field and back.\<close>

definition pb_release_union_field :: "'st pb_env \<Rightarrow> nat \<Rightarrow> pb_field_iter \<Rightarrow> ('st, pb_field_iter) pop" where
  "pb_release_union_field env n it c =
     (let old_tag = size_at (d_mem c) (pSize it); new_tag = f_tag (cur_field it) in
      if old_tag = 0 then pok it c
      else if old_tag = new_tag then pok it c
      else case pb_field_iter_find it old_tag of
        None \<Rightarrow> None
      | Some (False, it) \<Rightarrow> pb_return_error ''invalid union tag'' c
      | Some (True, it) \<Rightarrow>
          pbind (on_mem (pb_release_single_field env n it)) (\<lambda>_ c.
            case pb_field_iter_find it new_tag of
              None \<Rightarrow> None
            | Some (False, it) \<Rightarrow> pb_return_error ''iterator error'' c
            | Some (True, it) \<Rightarrow>
                if is_pointer (cur_field it) then pok it (c\<lparr>d_mem := set_ptr (pData it) 0 (d_mem c)\<rparr>)
                else pok it c) c)"

section \<open>Decoding a field\<close>

text \<open>
  The table \<open>PB_DECODERS\<close>. The entry for submessages is the argument \<open>submessage\<close>; that for
  extensions is a null pointer.
\<close>

definition packable_decoder :: "pb_field \<Rightarrow> nat \<Rightarrow> ('st, unit) dop" where
  "packable_decoder f =
     (if ltype f = PB_LTYPE_BOOL then dec_bool f
      else if ltype f = PB_LTYPE_VARINT then pb_dec_varint f
      else if ltype f = PB_LTYPE_UVARINT then pb_dec_uvarint f
      else if ltype f = PB_LTYPE_SVARINT then pb_dec_svarint f
      else if ltype f = PB_LTYPE_FIXED32 then pb_dec_fixed32 f
      else pb_dec_fixed64 f)"

definition PB_DECODERS :: "'st pb_env \<Rightarrow> (pb_field \<Rightarrow> nat \<Rightarrow> ('st, unit) pop) \<Rightarrow> pb_field \<Rightarrow> nat \<Rightarrow> ('st, unit) pop" where
  "PB_DECODERS env submessage f dest =
     (if ltype f \<le> PB_LTYPE_LAST_PACKABLE then lift (packable_decoder f dest)
      else if ltype f = PB_LTYPE_BYTES then lift (pb_dec_bytes (heap_realloc env) f dest)
      else if ltype f = PB_LTYPE_STRING then lift (pb_dec_string (heap_realloc env) f dest)
      else if ltype f = PB_LTYPE_SUBMESSAGE then submessage f dest
      else if ltype f = PB_LTYPE_FIXED_LENGTH_BYTES then lift (pb_dec_fixed_length_bytes f dest)
      else (\<lambda>c. None))"

definition decode_static_field ::
  "'st pb_env \<Rightarrow> nat \<Rightarrow> (pb_field \<Rightarrow> nat \<Rightarrow> ('st, unit) pop) \<Rightarrow> u32 \<Rightarrow> pb_field_iter \<Rightarrow> ('st, unit) pop" where
  "decode_static_field env n submessage wire_type it c =
     (let f = cur_field it; func = PB_DECODERS env submessage f in
      if htype f = PB_HTYPE_REQUIRED then func (pData it) c
      else if htype f = PB_HTYPE_OPTIONAL then
        func (pData it) (if pSize it \<noteq> pData it then c\<lparr>d_mem := set_bool (pSize it) True (d_mem c)\<rparr> else c)
      else if htype f = PB_HTYPE_REPEATED then
        if wire_type = PB_WT_STRING \<and> ltype f \<le> PB_LTYPE_LAST_PACKABLE
        then decode_packed (packable_decoder f) f (pData it) (pSize it) c
        else
          let size = size_at (d_mem c) (pSize it);
              pItem = pData it + data_size f * size;
              c = c\<lparr>d_mem := set_size (pSize it) (size + 1) (d_mem c)\<rparr> in
          if size \<ge> array_size f then pb_return_error ''array overflow'' c else func pItem c
      else if htype f = PB_HTYPE_ONEOF then
        pbind (if ltype f = PB_LTYPE_SUBMESSAGE \<and> size_at (d_mem c) (pSize it) \<noteq> f_tag f
               then on_mem (\<lambda>m. pb_message_set_to_defaults env n (fields_at env (f_ptr f)) (pData it)
                 (mem_zero (pData it) (data_size f) m))
               else pok ())
          (\<lambda>_ c. func (pData it) (c\<lparr>d_mem := set_size (pSize it) (f_tag f) (d_mem c)\<rparr>)) c
      else pb_return_error ''invalid field type'' c)"

subsection \<open>Pointer fields\<close>

definition initialize_pointer_field :: "'st pb_env \<Rightarrow> nat \<Rightarrow> nat \<Rightarrow> pb_field \<Rightarrow> mem \<Rightarrow> mem option" where
  "initialize_pointer_field env n pItem f m =
     (if ltype f = PB_LTYPE_STRING \<or> ltype f = PB_LTYPE_BYTES then Some (set_ptr pItem 0 m)
      else if ltype f = PB_LTYPE_SUBMESSAGE
      then pb_message_set_to_defaults env n (fields_at env (f_ptr f)) pItem (mem_zero pItem (data_size f) m)
      else Some m)"

text \<open>The loop over a packed array, with the result \<open>status\<close>, and whether there were too many entries.\<close>

partial_function (option) packed_pointer_loop ::
  "'st pb_env \<Rightarrow> nat \<Rightarrow> pb_field_iter \<Rightarrow> nat \<Rightarrow> 'st pb_dctx \<Rightarrow> ((bool \<times> bool) \<times> 'st pb_dctx) option" where
  "packed_pointer_loop env n it allocated_size c =
     (let f = cur_field it; size = size_at (d_mem c) (pSize it) in
      if bytes_left (d_in c) = 0 then Some ((True, False), c)
      else if size = PB_SIZE_MAX then Some ((False, True), c)
      else
        let grow = size + 1 > allocated_size;
            remain = (bytes_left (d_in c) - 1) div data_size f + 1;
            allocated_size = (if grow then
              if remain < PB_SIZE_MAX - allocated_size then allocated_size + remain else allocated_size + 1
              else allocated_size) in
        case (if grow then allocate_field (heap_realloc env) (pData it) (data_size f) allocated_size c else (Some (), c)) of
          (None, c) \<Rightarrow> Some ((False, False), c)
        | (Some _, c) \<Rightarrow>
            let pItem = ptr_at (d_mem c) (pData it) + data_size f * size_at (d_mem c) (pSize it) in
            if pItem = 0 then Some ((False, False), c)
            else case initialize_pointer_field env n pItem f (d_mem c) of
              None \<Rightarrow> None
            | Some m \<Rightarrow> (case packable_decoder f pItem (c\<lparr>d_mem := m\<rparr>) of
                (None, c) \<Rightarrow> Some ((False, False), c)
              | (Some _, c) \<Rightarrow> packed_pointer_loop env n it allocated_size
                  (c\<lparr>d_mem := set_size (pSize it) (size_at (d_mem c) (pSize it) + 1) (d_mem c)\<rparr>)))"

definition decode_packed_pointer :: "'st pb_env \<Rightarrow> nat \<Rightarrow> pb_field_iter \<Rightarrow> ('st, unit) pop" where
  "decode_packed_pointer env n it c =
     (let allocated_size = size_at (d_mem c) (pSize it) in
      case on_in pb_make_string_substream c of
        (None, c) \<Rightarrow> Some (None, c)
      | (Some sub, c) \<Rightarrow> (case packed_pointer_loop env n it allocated_size \<lparr>d_in = sub, d_mem = d_mem c\<rparr> of
          None \<Rightarrow> None
        | Some ((status, too_many), sc) \<Rightarrow>
            let c = c\<lparr>d_mem := d_mem sc, d_in := (if too_many then (d_in c)\<lparr>i_errmsg := Some ''too many array entries''\<rparr> else d_in c)\<rparr> in
            case on_in (pb_close_string_substream (d_in sc)) c of
              (None, c) \<Rightarrow> Some (None, c)
            | (Some _, c) \<Rightarrow> Some (if status then Some () else None, c)))"

definition decode_pointer_field ::
  "'st pb_env \<Rightarrow> nat \<Rightarrow> (pb_field \<Rightarrow> nat \<Rightarrow> ('st, unit) pop) \<Rightarrow> u32 \<Rightarrow> pb_field_iter \<Rightarrow> ('st, unit) pop" where
  "decode_pointer_field env n submessage wire_type it c =
     (let f = cur_field it; func = PB_DECODERS env submessage f in
      if htype f = PB_HTYPE_REQUIRED \<or> htype f = PB_HTYPE_OPTIONAL \<or> htype f = PB_HTYPE_ONEOF then
        pbind (if ltype f = PB_LTYPE_SUBMESSAGE \<and> ptr_at (d_mem c) (pData it) \<noteq> 0
               then on_mem (pb_release_single_field env n it) else pok ())
          (\<lambda>_ c.
            let c = (if htype f = PB_HTYPE_ONEOF then c\<lparr>d_mem := set_size (pSize it) (f_tag f) (d_mem c)\<rparr> else c) in
            if ltype f = PB_LTYPE_STRING \<or> ltype f = PB_LTYPE_BYTES then func (pData it) c
            else pbind (lift (allocate_field (heap_realloc env) (pData it) (data_size f) 1)) (\<lambda>_ c.
              pbind (on_mem (initialize_pointer_field env n (ptr_at (d_mem c) (pData it)) f)) (\<lambda>_ c.
                func (ptr_at (d_mem c) (pData it)) c) c) c) c
      else if htype f = PB_HTYPE_REPEATED then
        if wire_type = PB_WT_STRING \<and> ltype f \<le> PB_LTYPE_LAST_PACKABLE then decode_packed_pointer env n it c
        else
          let size = size_at (d_mem c) (pSize it) in
          if size = PB_SIZE_MAX then pb_return_error ''too many array entries'' c
          else pbind (lift (allocate_field (heap_realloc env) (pData it) (data_size f) (size + 1))) (\<lambda>_ c.
            let size = size_at (d_mem c) (pSize it);
                pItem = ptr_at (d_mem c) (pData it) + data_size f * size;
                c = c\<lparr>d_mem := set_size (pSize it) (size + 1) (d_mem c)\<rparr> in
            pbind (on_mem (initialize_pointer_field env n pItem f)) (\<lambda>_. func pItem) c) c
      else pb_return_error ''invalid field type'' c)"

subsection \<open>Callback fields\<close>

text \<open>The members of \<open>pb_callback_t\<close> are the function and \<open>arg\<close>, both pointers.\<close>

definition call_decode :: "'st pb_env \<Rightarrow> pb_field_iter \<Rightarrow> ('st, unit) dop" where
  "call_decode env it c = decode_fn env (ptr_at (d_mem c) (pData it)) (cur_field it) (pData it + 8) c"

partial_function (option) callback_loop :: "'st pb_env \<Rightarrow> pb_field_iter \<Rightarrow> 'st pb_dctx \<Rightarrow> (bool \<times> 'st pb_dctx) option" where
  "callback_loop env it c = (case call_decode env it c of
     (None, c) \<Rightarrow> Some (False, c)
   | (Some _, c) \<Rightarrow> if bytes_left (d_in c) \<noteq> 0 then callback_loop env it c else Some (True, c))"

definition decode_callback_field :: "'st pb_env \<Rightarrow> u32 \<Rightarrow> pb_field_iter \<Rightarrow> ('st, unit) pop" where
  "decode_callback_field env wire_type it c =
     (if pData it = 0 \<or> ptr_at (d_mem c) (pData it) = 0 then lift (on_in (pb_skip_field wire_type)) c
      else if wire_type = PB_WT_STRING then
        (case on_in pb_make_string_substream c of
          (None, c) \<Rightarrow> Some (None, c)
        | (Some sub, c) \<Rightarrow> (case callback_loop env it \<lparr>d_in = sub, d_mem = d_mem c\<rparr> of
            None \<Rightarrow> None
          | Some (False, sc) \<Rightarrow> pb_return_error ''callback failed''
              (c\<lparr>d_in := shared_source (d_in sc) (d_in c), d_mem := d_mem sc\<rparr>)
          | Some (True, sc) \<Rightarrow> lift (on_in (pb_close_string_substream (d_in sc))) (c\<lparr>d_mem := d_mem sc\<rparr>)))
      else
        (case on_in (read_raw_value wire_type 10) c of
          (None, c) \<Rightarrow> Some (None, c)
        | (Some buffer, c) \<Rightarrow>
            (case call_decode env it \<lparr>d_in = pb_istream_from_buffer buffer (length buffer), d_mem = d_mem c\<rparr> of
              (status, sc) \<Rightarrow> Some (status, c\<lparr>d_mem := d_mem sc\<rparr>))))"

subsection \<open>All fields\<close>

text \<open>The iterator may be moved within its union.\<close>

definition decode_field ::
  "'st pb_env \<Rightarrow> nat \<Rightarrow> (pb_field \<Rightarrow> nat \<Rightarrow> ('st, unit) pop) \<Rightarrow> u32 \<Rightarrow> pb_field_iter \<Rightarrow> ('st, pb_field_iter) pop" where
  "decode_field env n submessage wire_type it =
     pbind (if htype (cur_field it) = PB_HTYPE_ONEOF then pb_release_union_field env n it else pok it) (\<lambda>it.
       pbind (let f = cur_field it in
           if is_static f then decode_static_field env n submessage wire_type it
           else if is_pointer f then decode_pointer_field env n submessage wire_type it
           else if is_callback f then decode_callback_field env wire_type it
           else pb_return_error ''invalid field type'')
         (\<lambda>_. pok it))"

section \<open>Extensions\<close>

definition default_extension_decoder ::
  "'st pb_env \<Rightarrow> nat \<Rightarrow> (pb_field \<Rightarrow> nat \<Rightarrow> ('st, unit) pop) \<Rightarrow> nat \<Rightarrow> u32 \<Rightarrow> u32 \<Rightarrow> ('st, unit) pop" where
  "default_extension_decoder env n submessage ext tag wire_type c =
     (let field = fields_at env (xt_arg (extension_type_at env (ptr_at (d_mem c) ext))) ! 0 in
      if f_tag field \<noteq> unat tag then pok () c
      else
        let it = iter_from_extension env ext (d_mem c);
            c = c\<lparr>d_mem := set_bool (ext + 24) True (d_mem c)\<rparr> in
        pbind (decode_field env n submessage wire_type it) (\<lambda>_. pok ()) c)"

text \<open>The loop of \<open>decode_extension\<close>; \<open>pos\<close> is the number of bytes that were left at its start.\<close>

partial_function (option) decode_extension_loop ::
  "'st pb_env \<Rightarrow> nat \<Rightarrow> (pb_field \<Rightarrow> nat \<Rightarrow> ('st, unit) pop) \<Rightarrow> u32 \<Rightarrow> u32 \<Rightarrow> nat \<Rightarrow> nat \<Rightarrow> ('st, unit) pop" where
  "decode_extension_loop env n submessage tag wire_type pos ext c =
     (if ext \<noteq> 0 \<and> pos = bytes_left (d_in c) then
        (case (case xt_decode (extension_type_at env (ptr_at (d_mem c) ext)) of
            Some f \<Rightarrow> lift (f ext tag wire_type) c
          | None \<Rightarrow> default_extension_decoder env n submessage ext tag wire_type c) of
          None \<Rightarrow> None
        | Some (None, c) \<Rightarrow> Some (None, c)
        | Some (Some _, c) \<Rightarrow>
            decode_extension_loop env n submessage tag wire_type pos (ptr_at (d_mem c) (ext + 16)) c)
      else pok () c)"

definition decode_extension ::
  "'st pb_env \<Rightarrow> nat \<Rightarrow> (pb_field \<Rightarrow> nat \<Rightarrow> ('st, unit) pop) \<Rightarrow> u32 \<Rightarrow> u32 \<Rightarrow> pb_field_iter \<Rightarrow> ('st, unit) pop" where
  "decode_extension env n submessage tag wire_type it c =
     decode_extension_loop env n submessage tag wire_type (bytes_left (d_in c)) (ptr_at (d_mem c) (pData it)) c"

partial_function (option) find_extension_loop :: "nat \<Rightarrow> pb_field_iter \<Rightarrow> (bool \<times> pb_field_iter) option" where
  "find_extension_loop start it =
     (if ltype (cur_field it) = PB_LTYPE_EXTENSION then Some (True, it)
      else let it = snd (pb_field_iter_next it) in
        if iter_pos it \<noteq> start then find_extension_loop start it else Some (False, it))"

definition find_extension_field :: "pb_field_iter \<Rightarrow> (bool \<times> pb_field_iter) option" where
  "find_extension_field it = find_extension_loop (iter_pos it) it"

section \<open>Decoding a message\<close>

text \<open>The locals of \<open>pb_decode_noinit\<close>; \<open>fixed_count_field\<close> is an index of the descriptors.\<close>

record pb_decode_state =
  ds_iter :: pb_field_iter
  fields_seen :: "u32 list"
  extension_range_start :: u32
  fixed_count_field :: "nat option"

text \<open>No field has the tag: an extension handles it, or it is skipped.\<close>

definition decode_unknown ::
  "'st pb_env \<Rightarrow> nat \<Rightarrow> (pb_field \<Rightarrow> nat \<Rightarrow> ('st, unit) pop) \<Rightarrow> u32 \<Rightarrow> u32 \<Rightarrow> pb_decode_state \<Rightarrow> ('st, pb_decode_state) pop" where
  "decode_unknown env n submessage tag wire_type st c =
     (let skip = (\<lambda>st. lift (gbind (on_in (pb_skip_field wire_type)) (\<lambda>_. gret st))) in
      if tag \<ge> extension_range_start st then
        (case find_extension_field (ds_iter st) of
          None \<Rightarrow> None
        | Some (found, it) \<Rightarrow>
            let st = st\<lparr>ds_iter := it, extension_range_start := (if found then of_nat (f_tag (cur_field it)) else - 1)\<rparr> in
            if tag \<ge> extension_range_start st then
              let pos = bytes_left (d_in c) in
              pbind (decode_extension env n submessage tag wire_type it) (\<lambda>_ c.
                if pos \<noteq> bytes_left (d_in c) then pok st c else skip st c) c
            else skip st c)
      else skip st c)"

text \<open>The counter of a repeated field of fixed count: the array has none of its own.\<close>

definition enter_fixed_count :: "'st pb_env \<Rightarrow> nat \<Rightarrow> pb_decode_state \<Rightarrow> ('st, pb_decode_state) pop" where
  "enter_fixed_count env n st c =
     (let it = ds_iter st; local_size = fixed_count_size env n in
      if htype (cur_field it) = PB_HTYPE_REPEATED \<and> pSize it = pData it then
        let st' = st\<lparr>ds_iter := it\<lparr>pSize := local_size\<rparr>, fixed_count_field := Some (iter_pos it)\<rparr> in
        if fixed_count_field st \<noteq> Some (iter_pos it) then
          if (case fixed_count_field st of None \<Rightarrow> False
              | Some k \<Rightarrow> size_at (d_mem c) local_size \<noteq> array_size (iter_start it ! k))
          then pb_return_error ''wrong size for fixed count field'' c
          else pok st' (c\<lparr>d_mem := set_size local_size 0 (d_mem c)\<rparr>)
        else pok st' c
      else pok st c)"

definition mark_required :: "pb_field_iter \<Rightarrow> u32 list \<Rightarrow> u32 list" where
  "mark_required it seen =
     (let i = required_field_index it in
      if htype (cur_field it) = PB_HTYPE_REQUIRED \<and> i < PB_MAX_REQUIRED_FIELDS
      then seen[i div 32 := seen ! (i div 32) OR push_bit (i mod 32) 1] else seen)"

text \<open>The body of the loop; the result is \<open>None\<close> for \<open>break\<close>.\<close>

definition decode_step ::
  "'st pb_env \<Rightarrow> nat \<Rightarrow> (pb_field \<Rightarrow> nat \<Rightarrow> ('st, unit) pop) \<Rightarrow> pb_decode_state \<Rightarrow> ('st, pb_decode_state option) pop" where
  "decode_step env n submessage st c =
     (case pb_decode_tag (d_in c) of
       (None, eof, s) \<Rightarrow> Some (if eof then Some None else None, c\<lparr>d_in := s\<rparr>)
     | (Some (wire_type, tag), _, s) \<Rightarrow>
         let c = c\<lparr>d_in := s\<rparr> in
         (case pb_field_iter_find (ds_iter st) (unat tag) of
           None \<Rightarrow> None
         | Some (False, it) \<Rightarrow>
             pbind (decode_unknown env n submessage tag wire_type (st\<lparr>ds_iter := it\<rparr>)) (\<lambda>st. pok (Some st)) c
         | Some (True, it) \<Rightarrow>
             pbind (enter_fixed_count env n (st\<lparr>ds_iter := it\<rparr>)) (\<lambda>st.
               let st = st\<lparr>fields_seen := mark_required (ds_iter st) (fields_seen st)\<rparr> in
               pbind (decode_field env n submessage wire_type (ds_iter st)) (\<lambda>it.
                 pok (Some (st\<lparr>ds_iter := it\<rparr>)))) c))"

partial_function (option) decode_loop ::
  "(pb_decode_state \<Rightarrow> ('st, pb_decode_state option) pop) \<Rightarrow> pb_decode_state \<Rightarrow> ('st, pb_decode_state) pop" where
  "decode_loop step st c =
     (if bytes_left (d_in c) = 0 then pok st c
      else case step st c of
        None \<Rightarrow> None
      | Some (None, c) \<Rightarrow> Some (None, c)
      | Some (Some None, c) \<Rightarrow> pok st c
      | Some (Some (Some st), c) \<Rightarrow> decode_loop step st c)"

text \<open>Seeking to the end: the index and the type of the last field, and the iterator at the start.\<close>

partial_function (option) last_field_loop :: "pb_field_iter \<Rightarrow> (nat \<times> u8 \<times> pb_field_iter) option" where
  "last_field_loop it =
     (case pb_field_iter_next it of
       (again, it') \<Rightarrow> if again then last_field_loop it' else Some (required_field_index it, f_type (cur_field it), it'))"

definition missing_required :: "u32 list \<Rightarrow> nat \<Rightarrow> bool" where
  "missing_required seen req_field_count \<longleftrightarrow> req_field_count > 0 \<and>
     ((\<exists>i < req_field_count div 32. seen ! i \<noteq> - 1)
      \<or> (req_field_count mod 32 \<noteq> 0
         \<and> seen ! (req_field_count div 32) \<noteq> drop_bit (32 - req_field_count mod 32) (- 1)))"

definition check_required :: "pb_decode_state \<Rightarrow> ('st, unit) pop" where
  "check_required st c = (case last_field_loop (ds_iter st) of
     None \<Rightarrow> None
   | Some (req_field_count, last_type, it) \<Rightarrow>
       let req_field_count = (if PB_HTYPE last_type = PB_HTYPE_REQUIRED \<and> f_tag (cur_field it) \<noteq> 0
             then req_field_count + 1 else req_field_count);
           req_field_count = (if req_field_count > PB_MAX_REQUIRED_FIELDS then PB_MAX_REQUIRED_FIELDS else req_field_count) in
       if missing_required (fields_seen st) req_field_count
       then pb_return_error ''missing required field'' c else pok () c)"

definition decode_message ::
  "'st pb_env \<Rightarrow> nat \<Rightarrow> (pb_field \<Rightarrow> nat \<Rightarrow> ('st, unit) pop) \<Rightarrow> pb_field list \<Rightarrow> nat \<Rightarrow> ('st, unit) pop" where
  "decode_message env n submessage fs dest c =
     (let c = c\<lparr>d_mem := set_size (fixed_count_size env n) 0 (d_mem c)\<rparr>;
          st = \<lparr>ds_iter = snd (pb_field_iter_begin fs dest), fields_seen = [0, 0], extension_range_start = 0,
                fixed_count_field = None\<rparr> in
      pbind (decode_loop (decode_step env n submessage) st) (\<lambda>st c.
        if (case fixed_count_field st of None \<Rightarrow> False
            | Some k \<Rightarrow> size_at (d_mem c) (fixed_count_size env n) \<noteq> array_size (fs ! k))
        then pb_return_error ''wrong size for fixed count field'' c
        else check_required st c) c)"

text \<open>\<open>pb_decode\<close>, with \<open>pb_decode_noinit\<close> as an argument.\<close>

definition decode_with :: "'st pb_env \<Rightarrow> nat \<Rightarrow> (pb_field list \<Rightarrow> nat \<Rightarrow> ('st, unit) pop) \<Rightarrow> pb_field list \<Rightarrow> nat \<Rightarrow> ('st, unit) pop" where
  "decode_with env n noinit fs dest =
     pbind (on_mem (pb_message_set_to_defaults env n fs dest)) (\<lambda>_ c.
       case noinit fs dest c of
         None \<Rightarrow> None
       | Some (None, c) \<Rightarrow> (case on_mem (pb_release env n fs dest) c of
           None \<Rightarrow> None | Some (_, c) \<Rightarrow> Some (None, c))
       | Some (Some _, c) \<Rightarrow> Some (Some (), c))"

text \<open>An operation on the string that follows, in a substream.\<close>

definition in_substream :: "('st, unit) pop \<Rightarrow> ('st, unit) pop" where
  "in_substream p c = (case on_in pb_make_string_substream c of
     (None, c) \<Rightarrow> Some (None, c)
   | (Some sub, c) \<Rightarrow> (case p \<lparr>d_in = sub, d_mem = d_mem c\<rparr> of
       None \<Rightarrow> None
     | Some (status, sc) \<Rightarrow> (case on_in (pb_close_string_substream (d_in sc)) (c\<lparr>d_mem := d_mem sc\<rparr>) of
         (None, c) \<Rightarrow> Some (None, c)
       | (Some _, c) \<Rightarrow> Some (status, c))))"

definition pb_dec_submessage ::
  "'st pb_env \<Rightarrow> nat \<Rightarrow> (pb_field list \<Rightarrow> nat \<Rightarrow> ('st, unit) pop) \<Rightarrow> pb_field \<Rightarrow> nat \<Rightarrow> ('st, unit) pop" where
  "pb_dec_submessage env n noinit f dest c =
     (if f_ptr f = 0 then
        (case on_in pb_make_string_substream c of
          (None, c) \<Rightarrow> Some (None, c)
        | (Some _, c) \<Rightarrow> pb_return_error ''invalid field descriptor'' c)
      else in_substream
        ((if htype f = PB_HTYPE_REPEATED then decode_with env n noinit else noinit) (fields_at env (f_ptr f)) dest) c)"

fun pb_decode_noinit :: "'st pb_env \<Rightarrow> nat \<Rightarrow> pb_field list \<Rightarrow> nat \<Rightarrow> ('st, unit) pop" where
  "pb_decode_noinit env 0 fs dest c = None"
| "pb_decode_noinit env (Suc n) fs dest c =
     decode_message env n (pb_dec_submessage env n (pb_decode_noinit env n)) fs dest c"

definition pb_decode :: "'st pb_env \<Rightarrow> nat \<Rightarrow> pb_field list \<Rightarrow> nat \<Rightarrow> ('st, unit) pop" where
  "pb_decode env n = decode_with env n (pb_decode_noinit env n)"

definition pb_decode_delimited_noinit :: "'st pb_env \<Rightarrow> nat \<Rightarrow> pb_field list \<Rightarrow> nat \<Rightarrow> ('st, unit) pop" where
  "pb_decode_delimited_noinit env n fs dest = in_substream (pb_decode_noinit env n fs dest)"

definition pb_decode_delimited :: "'st pb_env \<Rightarrow> nat \<Rightarrow> pb_field list \<Rightarrow> nat \<Rightarrow> ('st, unit) pop" where
  "pb_decode_delimited env n fs dest = in_substream (pb_decode env n fs dest)"

definition pb_decode_nullterminated :: "'st pb_env \<Rightarrow> nat \<Rightarrow> pb_field list \<Rightarrow> nat \<Rightarrow> ('st, unit) pop" where
  "pb_decode_nullterminated = pb_decode"

end
