(* ===== verification/PB_Required.thy ===== *)
theory PB_Required
  imports PB_Message
begin

text \<open>
  Required fields: what the bitmap \<open>fields_seen\<close> of \<open>pb_decode_noinit\<close> says about the fields that were on the wire.
\<close>

section \<open>Where the iterator is\<close>

text \<open>
  While a repeated field of fixed count is decoded, \<open>pSize\<close> points to a local variable. Apart from that the iterator is one of
  the \<open>iter_at\<close>.
\<close>

definition at_field :: "pb_field list \<Rightarrow> nat \<Rightarrow> nat \<Rightarrow> pb_field_iter \<Rightarrow> bool" where
  "at_field fs dest k it \<longleftrightarrow> k < length fs - 1 \<and> (\<exists>x. it = (iter_at fs dest k)\<lparr>pSize := x\<rparr>)"

lemma at_field_iter_at: "k < length fs - 1 \<Longrightarrow> at_field fs dest k (iter_at fs dest k)"
  unfolding at_field_def by (intro conjI exI [of _ "pSize (iter_at fs dest k)"]) simp_all

lemma at_field_pSize: "at_field fs dest k it \<Longrightarrow> at_field fs dest k (it\<lparr>pSize := x\<rparr>)"
  by (auto simp: at_field_def)

lemma at_field_simps:
  assumes "terminated fs" "at_field fs dest k it"
  shows "k < length fs - 1" "iter_start it = fs" "iter_pos it = k" "cur_field it = fs ! k"
    "required_field_index it = required_field_index (iter_at fs dest k)"
  using assms iter_at_inv [OF assms(1), of k dest] by (auto simp: at_field_def cur_field_def)

lemma next_pSize:
  "\<exists>y. pb_field_iter_next (it\<lparr>pSize := x\<rparr>) = (fst (pb_field_iter_next it), (snd (pb_field_iter_next it))\<lparr>pSize := y\<rparr>)"
proof -
  have self: "\<exists>y. it = it\<lparr>pSize := y\<rparr>" for it :: pb_field_iter
    by (intro exI [of _ "pSize it"]) simp
  show ?thesis
    by (cases it) (simp add: pb_field_iter_next_def cur_field_def Let_def pb_field_iter_begin_def)
qed

lemma at_field_next:
  assumes "terminated fs" "at_field fs dest k it"
  shows "fst (pb_field_iter_next it) \<longleftrightarrow> Suc k < length fs - 1"
    and "at_field fs dest (if Suc k < length fs - 1 then Suc k else 0) (snd (pb_field_iter_next it))"
proof -
  obtain x where k: "k < length fs - 1" and it: "it = (iter_at fs dest k)\<lparr>pSize := x\<rparr>"
    using assms(2) by (auto simp: at_field_def)
  obtain y where "pb_field_iter_next it = (fst (pb_field_iter_next (iter_at fs dest k)),
      (snd (pb_field_iter_next (iter_at fs dest k)))\<lparr>pSize := y\<rparr>)"
    using next_pSize [where it = "iter_at fs dest k" and x = x] unfolding it by blast
  then have n: "pb_field_iter_next it = (Suc k < length fs - 1,
      (iter_at fs dest (if Suc k < length fs - 1 then Suc k else 0))\<lparr>pSize := y\<rparr>)"
    unfolding iter_at_next [OF assms(1) k] by auto
  show "fst (pb_field_iter_next it) \<longleftrightarrow> Suc k < length fs - 1" unfolding n by simp
  show "at_field fs dest (if Suc k < length fs - 1 then Suc k else 0) (snd (pb_field_iter_next it))"
    unfolding n at_field_def using k by auto
qed

lemma at_field_find_loop:
  assumes fs: "terminated fs" and "iter_find_loop tag start it = Some r" "at_field fs dest k it"
  shows "\<exists>k'. at_field fs dest k' (snd r) \<and> (fst r \<longrightarrow> is_field fs tag k')"
  using assms(2,3)
proof (induction tag start it r arbitrary: k rule: iter_find_loop.raw_induct [rotated, consumes 1, case_names 1])
  case (1 loop tag start it r)
  note at = at_field_simps [OF fs 1(3)]
  show ?case
  proof (cases "is_field fs tag k")
    case True
    then have "r = (True, it)" using 1(2) unfolding at(4) is_field_def by simp
    with True 1(3) show ?thesis by auto
  next
    case False
    let ?it = "snd (pb_field_iter_next it)"
    have nxt: "at_field fs dest (if Suc k < length fs - 1 then Suc k else 0) ?it" by (rule at_field_next(2) [OF fs 1(3)])
    from False 1(2) have "(if iter_pos ?it \<noteq> start then loop tag start ?it else Some (False, ?it)) = Some r"
      unfolding at(4) is_field_def by (auto simp: Let_def)
    then show ?thesis using 1(1) [OF _ nxt] nxt by (auto split: if_splits)
  qed
qed

lemma at_field_find:
  assumes "terminated fs" "at_field fs dest k it" "pb_field_iter_find it tag = Some (b, it')"
  obtains k' where "at_field fs dest k' it'" "b \<Longrightarrow> is_field fs tag k'"
  using at_field_find_loop [OF assms(1) assms(3) [unfolded pb_field_iter_find_def] assms(2)] that by auto

lemma at_field_find_extension:
  assumes fs: "terminated fs" and "find_extension_loop start it = Some r" "at_field fs dest k it"
  shows "\<exists>k'. at_field fs dest k' (snd r)"
  using assms(2,3)
proof (induction start it r arbitrary: k rule: find_extension_loop.raw_induct [rotated, consumes 1, case_names 1])
  case (1 loop start it r)
  have nxt: "at_field fs dest (if Suc k < length fs - 1 then Suc k else 0) (snd (pb_field_iter_next it))"
    by (rule at_field_next(2) [OF fs 1(3)])
  show ?case using 1(1) [OF _ nxt] 1(2,3) nxt by (auto simp: Let_def split: if_splits)
qed

section \<open>Required fields and the bitmap\<close>

definition is_required :: "pb_field list \<Rightarrow> nat \<Rightarrow> bool" where
  "is_required fs k \<longleftrightarrow> k < length fs - 1 \<and> htype (fs ! k) = PB_HTYPE_REQUIRED"

definition required_before :: "pb_field list \<Rightarrow> nat \<Rightarrow> nat" where
  "required_before fs k = length (filter (\<lambda>f. htype f = PB_HTYPE_REQUIRED) (take k fs))"

lemma required_before_Suc:
  "k < length fs \<Longrightarrow> required_before fs (Suc k) = required_before fs k + of_bool (htype (fs ! k) = PB_HTYPE_REQUIRED)"
  by (simp add: required_before_def take_Suc_conv_app_nth)

lemma iter_at_required:
  assumes "terminated fs" "k < length fs - 1"
  shows "required_field_index (iter_at fs dest k) = required_before fs k"
  using assms(2)
proof (induction k)
  case 0
  show ?case by (simp add: iter_at_0 begin_simps required_before_def)
next
  case (Suc k)
  then have k: "k < length fs - 1" by simp
  have inv: "iter_start (iter_at fs dest k) = fs" "iter_pos (iter_at fs dest k) = k"
    using iter_at_inv [OF assms(1) k, of dest] by simp_all
  from next_step [OF assms(1) inv(1)] k Suc.prems have "required_field_index (snd (pb_field_iter_next (iter_at fs dest k)))
      = required_field_index (iter_at fs dest k) + of_bool (htype (fs ! k) = PB_HTYPE_REQUIRED)"
    unfolding inv(2) by auto
  then show ?case using Suc.IH [OF k] k by (simp add: iter_at_Suc required_before_Suc)
qed

lemma required_before_mono: "j \<le> k \<Longrightarrow> k \<le> length fs \<Longrightarrow> required_before fs j \<le> required_before fs k"
proof (induction k)
  case (Suc k)
  then show ?case by (cases "j = Suc k") (auto simp: required_before_Suc)
qed simp

lemma required_before_inj:
  assumes "is_required fs j" "is_required fs k" "required_before fs j = required_before fs k"
  shows "j = k"
proof -
  have less: "required_before fs a < required_before fs b" if "a < b" "is_required fs a" "is_required fs b" for a b
  proof -
    have "b < length fs" "a < length fs" using that unfolding is_required_def by linarith+
    then show ?thesis using required_before_mono [of "Suc a" b fs] that by (simp add: required_before_Suc is_required_def)
  qed
  from less [of j k] less [of k j] assms show ?thesis
    by (cases j k rule: linorder_cases) auto
qed

text \<open>Every index below the number of required fields is that of one of them.\<close>

lemma required_before_onto:
  assumes "i < required_before fs k" "k \<le> length fs - 1"
  obtains j where "is_required fs j" "j < k" "required_before fs j = i"
  using assms
proof (induction k arbitrary: thesis)
  case 0
  then show ?case by (simp add: required_before_def)
next
  case (Suc k)
  show ?case
  proof (cases "i < required_before fs k")
    case True
    then show ?thesis using Suc.IH [OF _ True] Suc.prems by (metis Suc_leD less_SucI)
  next
    case False
    have "k < length fs" using Suc.prems(3) by simp
    then have "htype (fs ! k) = PB_HTYPE_REQUIRED \<and> required_before fs k = i"
      using False Suc.prems(2) by (cases "htype (fs ! k) = PB_HTYPE_REQUIRED") (simp_all add: required_before_Suc)
    then show ?thesis using Suc.prems(1) [of k] Suc.prems(3) by (simp add: is_required_def)
  qed
qed

definition seen_bit :: "u32 list \<Rightarrow> nat \<Rightarrow> bool" where
  "seen_bit seen i \<longleftrightarrow> bit (seen ! (i div 32)) (i mod 32)"

lemma full_word: "w = - 1 \<longleftrightarrow> (\<forall>b < 32. bit w b)" for w :: u32
  by (auto simp: bit_eq_iff bit_simps) 

lemma low_word:
  fixes w :: u32
  assumes "0 < r" "r < 32"
  shows "w = drop_bit (32 - r) (- 1) \<longleftrightarrow> (\<forall>b < 32. bit w b \<longleftrightarrow> b < r)"
proof -
  have "bit (drop_bit (32 - r) (- 1 :: u32)) b \<longleftrightarrow> b < r" for b
    using assms by (auto simp: bit_simps)
  then show ?thesis using bit_imp_le_length [of w] by (auto simp: bit_eq_iff bit_simps not_less)
qed

lemma missing_required_iff:
  assumes "r \<le> 64" "\<And>i. i < 64 \<Longrightarrow> seen_bit seen i \<Longrightarrow> i < r"
  shows "missing_required seen r \<longleftrightarrow> (\<exists>i < r. \<not> seen_bit seen i)"
proof -
  define q t where "q = r div 32" and "t = r mod 32"
  have r: "r = 32 * q + t" "t < 32" by (simp_all add: q_def t_def)
  have idx: "(32 * j + b) div 32 = j" "(32 * j + b) mod 32 = b" if "b < 32" for j b :: nat
    using that by (simp_all add: div_mult2_eq)
  have whole: "(\<exists>i < q. seen ! i \<noteq> - 1) \<longleftrightarrow> (\<exists>i < 32 * q. \<not> seen_bit seen i)"
  proof
    assume "\<exists>i < q. seen ! i \<noteq> - 1"
    then obtain j b where "j < q" "b < 32" "\<not> bit (seen ! j) b" unfolding full_word by blast
    then show "\<exists>i < 32 * q. \<not> seen_bit seen i"
      by (intro exI [of _ "32 * j + b"]) (simp add: seen_bit_def idx)
  next
    assume "\<exists>i < 32 * q. \<not> seen_bit seen i"
    then obtain i where "i < 32 * q" "\<not> seen_bit seen i" by blast
    then show "\<exists>i < q. seen ! i \<noteq> - 1"
      unfolding full_word seen_bit_def
      by (intro exI [of _ "i div 32"]) (auto simp: less_mult_imp_div_less mult.commute intro: exI [of _ "i mod 32"])
  qed
  have rest: "t \<noteq> 0 \<and> seen ! q \<noteq> drop_bit (32 - t) (- 1) \<longleftrightarrow> (\<exists>i < r. 32 * q \<le> i \<and> \<not> seen_bit seen i)"
  proof (cases "t = 0")
    case False
    have high: "\<not> bit (seen ! q) b" if "b < 32" "t \<le> b" for b
    proof
      assume "bit (seen ! q) b"
      then have "seen_bit seen (32 * q + b)" using that by (simp add: seen_bit_def idx)
      moreover have "32 * q + b < 64" using assms(1) r that False by (cases q; cases "q = 1") auto
      ultimately show False using assms(2) r that by fastforce
    qed
    show ?thesis
    proof
      assume "t \<noteq> 0 \<and> seen ! q \<noteq> drop_bit (32 - t) (- 1)"
      then obtain b where b: "b < 32" "bit (seen ! q) b \<noteq> (b < t)" using low_word [of t "seen ! q"] r by auto
      then have "b < t" "\<not> bit (seen ! q) b" using high [of b] by (auto simp: not_less)
      then show "\<exists>i < r. 32 * q \<le> i \<and> \<not> seen_bit seen i"
        using b r by (intro exI [of _ "32 * q + b"]) (simp add: seen_bit_def idx)
    next
      assume "\<exists>i < r. 32 * q \<le> i \<and> \<not> seen_bit seen i"
      then obtain i where i: "i < r" "32 * q \<le> i" "\<not> seen_bit seen i" by blast
      define b where "b = i - 32 * q"
      have "i = 32 * q + b" "b < t" using i r by (simp_all add: b_def)
      then show "t \<noteq> 0 \<and> seen ! q \<noteq> drop_bit (32 - t) (- 1)"
        using i(3) r low_word [of t "seen ! q"] by (auto simp: seen_bit_def idx)
    qed
  qed (use r in auto)
  have "missing_required seen r \<longleftrightarrow> 0 < r \<and> ((\<exists>i < 32 * q. \<not> seen_bit seen i) \<or> (\<exists>i < r. 32 * q \<le> i \<and> \<not> seen_bit seen i))"
    unfolding missing_required_def q_def [symmetric] t_def [symmetric] whole [symmetric] rest [symmetric] by simp
  also have "\<dots> \<longleftrightarrow> (\<exists>i < r. \<not> seen_bit seen i)"
  proof -
    have lt: "i < r" if "i < 32 * q" for i using that r(1) by linarith
    show ?thesis using lt not_le by (cases "r = 0") blast+
  qed
  finally show ?thesis .
qed

lemma mark_required_bits:
  assumes "length seen = 2" "i < 64"
  shows "length (mark_required it seen) = 2"
    and "seen_bit (mark_required it seen) i \<longleftrightarrow> seen_bit seen i
      \<or> htype (cur_field it) = PB_HTYPE_REQUIRED \<and> required_field_index it = i"
proof -
  show "length (mark_required it seen) = 2" using assms by (simp add: mark_required_def Let_def)
  have 1: "bit (push_bit a 1 :: u32) b \<longleftrightarrow> a = b" if "a < 32" "b < 32" for a b
    using that by (auto simp: bit_simps bit_1_iff)
  let ?r = "required_field_index it"
  show "seen_bit (mark_required it seen) i \<longleftrightarrow> seen_bit seen i
      \<or> htype (cur_field it) = PB_HTYPE_REQUIRED \<and> ?r = i"
  proof (cases "htype (cur_field it) = PB_HTYPE_REQUIRED \<and> ?r < PB_MAX_REQUIRED_FIELDS")
    case True
    then have lt: "?r div 32 < length seen" using assms(1) by (simp add: PB_MAX_REQUIRED_FIELDS_def less_mult_imp_div_less)
    show ?thesis
    proof (cases "?r div 32 = i div 32")
      case eq: True
      then have "?r mod 32 = i mod 32 \<longleftrightarrow> ?r = i" by (metis div_mult_mod_eq)
      moreover have "mark_required it seen ! (i div 32) = seen ! (i div 32) OR push_bit (?r mod 32) 1"
        using True lt eq by (simp add: mark_required_def del: push_bit_of_1)
      ultimately show ?thesis using True by (simp add: seen_bit_def bit_or_iff 1 del: push_bit_of_1)
    next
      case False
      then show ?thesis using True by (auto simp: mark_required_def Let_def seen_bit_def)
    qed
  qed (use assms(2) in \<open>auto simp: mark_required_def PB_MAX_REQUIRED_FIELDS_def\<close>)
qed

section \<open>A run of the loop\<close>

text \<open>
  A step of the loop, and the run of several steps with the indices of the fields that were found on the wire.
\<close>

definition found_field :: "pb_decode_state \<Rightarrow> 'st pb_dctx \<Rightarrow> nat list" where
  "found_field st c = (case pb_decode_tag (d_in c) of
     (Some (wire_type, tag), _, s) \<Rightarrow> (case pb_field_iter_find (ds_iter st) (unat tag) of
       Some (True, it) \<Rightarrow> [iter_pos it] | _ \<Rightarrow> [])
   | _ \<Rightarrow> [])"

inductive decode_run ::
  "(pb_decode_state \<Rightarrow> ('st, pb_decode_state option) pop) \<Rightarrow> pb_decode_state \<Rightarrow> 'st pb_dctx \<Rightarrow> nat list
    \<Rightarrow> pb_decode_state \<Rightarrow> 'st pb_dctx \<Rightarrow> bool" for step where
  run_refl: "decode_run step st c [] st c"
| run_step: "decode_run step st c ks st' c' \<Longrightarrow> bytes_left (d_in c') \<noteq> 0 \<Longrightarrow>
    step st' c' = Some (Some (Some st''), c'') \<Longrightarrow> decode_run step st c (ks @ found_field st' c') st'' c''"

text \<open>The loop ends where no byte is left, or at the tag that stands for the end.\<close>

lemma decode_run_loop:
  assumes "decode_run step st c ks st' c'"
  shows "decode_loop step st c = decode_loop step st' c'"
  using assms
proof induction
  case (run_step st c ks st' c' st'' c'')
  then show ?case by (simp add: decode_loop.simps [of step st' c'])
qed simp

lemma decode_loop_run:
  assumes "decode_loop step st c = Some (Some st', c')"
  shows "\<exists>ks c''. decode_run step st c ks st' c'' \<and>
    (bytes_left (d_in c'') = 0 \<and> c' = c'' \<or> bytes_left (d_in c'') \<noteq> 0 \<and> step st' c'' = Some (Some None, c'))"
proof -
  have "\<forall>st0 c0 ks. decode_run step st0 c0 ks st c \<longrightarrow> r = (Some st', c') \<longrightarrow> (\<exists>ks c''. decode_run step st0 c0 ks st' c'' \<and>
      (bytes_left (d_in c'') = 0 \<and> c' = c'' \<or> bytes_left (d_in c'') \<noteq> 0 \<and> step st' c'' = Some (Some None, c')))"
    if "decode_loop step st c = Some r" for r
    using that
  proof (induction step st c r rule: decode_loop.raw_induct [rotated, consumes 1, case_names 1])
    case (1 loop step st c r)
    show ?case
    proof (intro allI impI)
      fix st0 c0 ks assume run: "decode_run step st0 c0 ks st c" and r: "r = (Some st', c')"
      show "\<exists>ks c''. decode_run step st0 c0 ks st' c'' \<and>
          (bytes_left (d_in c'') = 0 \<and> c' = c'' \<or> bytes_left (d_in c'') \<noteq> 0 \<and> step st' c'' = Some (Some None, c'))"
      proof (cases "bytes_left (d_in c) = 0")
        case True
        then show ?thesis using 1(2) run r by (auto simp: lift_def gret_def)
      next
        case False
        note body = 1(2) [unfolded if_not_P [OF False] r]
        from body obtain x d where x: "step st c = Some (Some x, d)"
          by (auto split: option.splits prod.splits)
        show ?thesis
        proof (cases x)
          case None
          then show ?thesis using body x run False by (auto simp: lift_def gret_def)
        next
          case (Some st1)
          from run_step [OF run False, of st1 d] x Some
          have "decode_run step st0 c0 (ks @ found_field st c) st1 d" by simp
          moreover have "loop step st1 d = Some r" using body x Some r by simp
          ultimately show ?thesis using 1(1) [of step st1 d r] r by blast
        qed
      qed
    qed
  qed
  from this [OF assms] show ?thesis using run_refl by blast
qed

subsection \<open>What a step does to the iterator and the bitmap\<close>

lemma lift_Some [simp]: "lift p c = Some r \<longleftrightarrow> p c = r"
  by (simp add: lift_def)

lemma pbind_Some:
  "pbind p f c = Some (Some b, c') \<longleftrightarrow> (\<exists>a d. p c = Some (Some a, d) \<and> f a d = Some (Some b, c'))"
  by (auto simp: pbind_def split: option.splits)

lemma i_error_None: "on_in (i_error msg) c = (r, c') \<Longrightarrow> r = None"
  by (auto simp: on_in_def i_error_def)

lemma release_union_at:
  assumes "terminated fs" "at_field fs dest k it" "pb_release_union_field env n it c = Some (Some it', c')"
  shows "\<exists>k'. at_field fs dest k' it'"
proof (cases "size_at (d_mem c) (pSize it) = 0 \<or> size_at (d_mem c) (pSize it) = f_tag (cur_field it)")
  case True
  then show ?thesis using assms(2,3) by (auto simp: pb_release_union_field_def Let_def split: if_splits)
next
  case False
  with assms(3) obtain it1 b where 1: "pb_field_iter_find it (size_at (d_mem c) (pSize it)) = Some (b, it1)"
    by (auto simp: pb_release_union_field_def Let_def split: option.splits)
  obtain k1 where k1: "at_field fs dest k1 it1" by (rule at_field_find [OF assms(1,2) 1])
  from assms(3) False 1 have "b" by (cases b) (auto simp: pb_release_union_field_def Let_def dest: i_error_None)
  with assms(3) False 1 have 2: "pb_field_iter_find it1 (f_tag (cur_field it)) = Some (True, it')"
    by (auto simp: pb_release_union_field_def Let_def pbind_Some split: option.splits prod.splits bool.splits if_splits
        dest: i_error_None)
  show ?thesis by (rule at_field_find [OF assms(1) k1 2]) blast
qed

lemma decode_field_at:
  assumes "terminated fs" "at_field fs dest k it" "decode_field env n sub wt it c = Some (Some it', c')"
  shows "\<exists>k'. at_field fs dest k' it'"
  using assms(3) release_union_at [OF assms(1,2)] assms(2) unfolding decode_field_def
  by (auto simp: pbind_Some split: if_splits)

lemma decode_unknown_at:
  assumes "terminated fs" "at_field fs dest k (ds_iter st)" "decode_unknown env n sub tag wt st c = Some (Some st', c')"
  shows "(\<exists>k'. at_field fs dest k' (ds_iter st')) \<and> fields_seen st' = fields_seen st"
proof -
  have skip: "gbind (on_in (pb_skip_field wt)) (\<lambda>_. gret st1) d = (Some st', c') \<Longrightarrow> st' = st1" for st1 d
    by (auto simp: gbind_def split: option.splits prod.splits)
  show ?thesis
  proof (cases "tag \<ge> extension_range_start st")
    case False
    then show ?thesis using assms(2,3) by (auto simp: decode_unknown_def Let_def dest: skip)
  next
    case True
    with assms(3) obtain found it where f: "find_extension_field (ds_iter st) = Some (found, it)"
      by (auto simp: decode_unknown_def Let_def split: option.splits)
    obtain k' where k': "at_field fs dest k' it"
      using at_field_find_extension [OF assms(1) f [unfolded find_extension_field_def] assms(2)] by auto
    have "ds_iter st' = it \<and> fields_seen st' = fields_seen st"
      using assms(3) True f by (auto simp: decode_unknown_def Let_def pbind_Some dest!: skip split: if_splits)
    with k' show ?thesis by auto
  qed
qed

lemma enter_fixed_count_at:
  assumes "at_field fs dest k (ds_iter st)" "enter_fixed_count env n st c = Some (Some st', c')"
  shows "at_field fs dest k (ds_iter st') \<and> fields_seen st' = fields_seen st"
  using assms by (auto simp: enter_fixed_count_def Let_def at_field_pSize split: if_splits option.splits dest: i_error_None)

text \<open>The part of the state that the check of the required fields depends on.\<close>

definition marks :: "pb_field list \<Rightarrow> nat \<Rightarrow> nat set \<Rightarrow> pb_decode_state \<Rightarrow> bool" where
  "marks fs dest ks st \<longleftrightarrow> (\<exists>k. at_field fs dest k (ds_iter st)) \<and> length (fields_seen st) = 2
     \<and> (\<forall>i < 64. seen_bit (fields_seen st) i \<longleftrightarrow> (\<exists>j \<in> ks. is_required fs j \<and> required_before fs j = i))"

lemma decode_step_marks:
  assumes fs: "terminated fs" and m: "marks fs dest ks st"
    and run: "decode_step env n sub st c = Some (Some (Some st'), c')"
  shows "marks fs dest (ks \<union> set (found_field st c)) st'"
proof -
  obtain k where k: "at_field fs dest k (ds_iter st)" and len: "length (fields_seen st) = 2"
    using m by (auto simp: marks_def)
  obtain wt tag e s where t: "pb_decode_tag (d_in c) = (Some (wt, tag), e, s)"
    using run by (auto simp: decode_step_def split: prod.splits option.splits if_splits)
  let ?c = "c\<lparr>d_in := s\<rparr>"
  obtain b it where f: "pb_field_iter_find (ds_iter st) (unat tag) = Some (b, it)"
    using run t by (auto simp: decode_step_def Let_def split: option.splits)
  obtain k1 where k1: "at_field fs dest k1 it" by (rule at_field_find [OF fs k f])
  show ?thesis
  proof (cases b)
    case False
    with run t f have "decode_unknown env n sub tag wt (st\<lparr>ds_iter := it\<rparr>) ?c = Some (Some st', c')"
      by (auto simp: decode_step_def Let_def pbind_Some)
    from decode_unknown_at [OF fs _ this, of dest k1] k1 m have "marks fs dest ks st'" by (auto simp: marks_def)
    then show ?thesis using t f False by (simp add: found_field_def)
  next
    case True
    with run t f obtain st1 d it' where 1: "enter_fixed_count env n (st\<lparr>ds_iter := it\<rparr>) ?c = Some (Some st1, d)"
      and 2: "decode_field env n sub wt (ds_iter st1) d = Some (Some it', c')"
      and st': "st' = st1\<lparr>fields_seen := mark_required (ds_iter st1) (fields_seen st1), ds_iter := it'\<rparr>"
      by (auto simp: decode_step_def Let_def pbind_Some)
    have k2: "at_field fs dest k1 (ds_iter st1)" "fields_seen st1 = fields_seen st"
      using enter_fixed_count_at [OF _ 1, of fs dest k1] k1 by simp_all
    obtain k3 where k3: "at_field fs dest k3 it'" using decode_field_at [OF fs k2(1) 2] by blast
    have found: "found_field st c = [k1]" using t f True at_field_simps(3) [OF fs k1] by (simp add: found_field_def)
    have bits: "seen_bit (fields_seen st') i \<longleftrightarrow> seen_bit (fields_seen st) i
        \<or> is_required fs k1 \<and> required_before fs k1 = i" if "i < 64" for i
      using mark_required_bits(2) [of "fields_seen st" i "ds_iter st1", OF len that] at_field_simps [OF fs k2(1)]
        iter_at_required [OF fs at_field_simps(1) [OF fs k1], of dest]
      by (auto simp: st' k2(2) is_required_def)
    have "length (fields_seen st') = 2" using mark_required_bits(1) [of "fields_seen st" 0] len by (simp add: st' k2(2))
    then show ?thesis using m k3 bits unfolding marks_def found st' by auto
  qed
qed

lemma decode_run_marks:
  assumes "decode_run (decode_step env n sub) st c ks st' c'" "terminated fs" "marks fs dest {} st"
  shows "marks fs dest (set ks) st'"
  using assms
proof induction
  case (run_step st c ks st' c' st'' c'')
  then show ?case using decode_step_marks [OF run_step.prems(1) _ run_step.hyps(3)] by simp
qed simp

lemma last_field_loop_at:
  assumes fs: "terminated fs" and "at_field fs dest k it"
  shows "\<exists>it'. last_field_loop it = Some (required_before fs (length fs - 2), f_type (fs ! (length fs - 2)), it')
    \<and> at_field fs dest 0 it'"
  using assms(2)
proof (induction "length fs - 1 - k" arbitrary: k it)
  case 0
  then have "k < length fs - 1" by (simp add: at_field_def)
  with 0(1) show ?case by simp
next
  case (Suc d)
  note at = at_field_simps [OF fs Suc.prems]
  obtain b it' where n: "pb_field_iter_next it = (b, it')" by fastforce
  note nxt = at_field_next [OF fs Suc.prems, unfolded n fst_conv snd_conv]
  show ?case
  proof (cases "Suc k < length fs - 1")
    case True
    then have "d = length fs - 1 - Suc k" "at_field fs dest (Suc k) it'" using Suc.hyps(2) nxt by auto
    from Suc.hyps(1) [OF this] show ?thesis using nxt(1) True by (subst last_field_loop.simps) (simp add: n)
  next
    case False
    then have k: "k = length fs - 2" using at(1) by simp
    have "last_field_loop it = Some (required_field_index it, f_type (cur_field it), it')"
      using nxt(1) False by (subst last_field_loop.simps) (simp add: n)
    then show ?thesis
      using nxt(2) False k at(1) iter_at_required [OF fs at(1), of dest] unfolding at(4,5) by auto
  qed
qed

lemma check_required_iff:
  assumes fs: "terminated fs" and m: "marks fs dest ks st"
  shows "check_required st c =
    (if \<forall>k. is_required fs k \<and> required_before fs k < PB_MAX_REQUIRED_FIELDS \<longrightarrow> k \<in> ks then Some (Some (), c)
     else pb_return_error ''missing required field'' c)"
proof -
  let ?all = "\<forall>k. is_required fs k \<and> required_before fs k < PB_MAX_REQUIRED_FIELDS \<longrightarrow> k \<in> ks"
  obtain k where k: "at_field fs dest k (ds_iter st)" using m by (auto simp: marks_def)
  have len: "1 < length fs" using k by (auto simp: at_field_def)
  obtain it where it: "last_field_loop (ds_iter st) = Some (required_before fs (length fs - 2), f_type (fs ! (length fs - 2)), it)"
    "at_field fs dest 0 it" using last_field_loop_at [OF fs k] by blast
  have tag: "f_tag (cur_field it) \<noteq> 0" using fs len at_field_simps(4) [OF fs it(2)] by (auto simp: terminated_def)
  define total where "total = required_before fs (length fs - 1)"
  have sum: "(if htype (fs ! (length fs - 2)) = PB_HTYPE_REQUIRED \<and> f_tag (cur_field it) \<noteq> 0
      then required_before fs (length fs - 2) + 1 else required_before fs (length fs - 2)) = total"
    using required_before_Suc [of "length fs - 2" fs] len tag by (simp add: total_def Suc_diff_Suc numeral_2_eq_2)
  define r where "r = (if total > PB_MAX_REQUIRED_FIELDS then PB_MAX_REQUIRED_FIELDS else total)"
  have r: "i < r \<longleftrightarrow> i < total \<and> i < 64" for i by (auto simp: r_def PB_MAX_REQUIRED_FIELDS_def)
  have in_total: "required_before fs j < total" if "is_required fs j" for j
    using required_before_mono [of "Suc j" "length fs - 1" fs] that
    by (simp add: total_def is_required_def required_before_Suc Suc_leI)
  have bits: "seen_bit (fields_seen st) i \<longleftrightarrow> (\<exists>j \<in> ks. is_required fs j \<and> required_before fs j = i)" if "i < 64" for i
    using m that by (simp add: marks_def)
  have "missing_required (fields_seen st) r \<longleftrightarrow> (\<exists>i < r. \<not> seen_bit (fields_seen st) i)"
    using r in_total bits by (intro missing_required_iff) (auto simp: r_def PB_MAX_REQUIRED_FIELDS_def)
  also have "\<dots> \<longleftrightarrow> \<not> ?all"
  proof
    assume "\<exists>i < r. \<not> seen_bit (fields_seen st) i"
    then obtain i where i: "i < total" "i < 64" "\<not> seen_bit (fields_seen st) i" by (auto simp: r)
    obtain j where "is_required fs j" "required_before fs j = i"
      using i(1) unfolding total_def by (rule required_before_onto) simp
    then show "\<not> ?all" using bits [OF i(2)] i(2,3) by (auto simp: PB_MAX_REQUIRED_FIELDS_def)
  next
    assume "\<not> ?all"
    then obtain j where j: "is_required fs j" "required_before fs j < 64" "j \<notin> ks" by (auto simp: PB_MAX_REQUIRED_FIELDS_def)
    have "\<not> seen_bit (fields_seen st) (required_before fs j)"
      using j required_before_inj [OF _ j(1)] by (auto simp: bits)
    then show "\<exists>i < r. \<not> seen_bit (fields_seen st) i" using r in_total j by blast
  qed
  finally have missing: "missing_required (fields_seen st) r \<longleftrightarrow> \<not> ?all" .
  have swap: "(if \<not> P then x else y) = (if P then y else x)" for P and x y :: 'z by simp
  show ?thesis
    unfolding check_required_def it(1) option.case prod.case Let_def sum r_def [symmetric] missing swap
    by (simp only: lift_def gret_def)
qed

section \<open>Decoding as a run\<close>

definition message_step :: "'st pb_env \<Rightarrow> nat \<Rightarrow> pb_decode_state \<Rightarrow> ('st, pb_decode_state option) pop" where
  "message_step env n = decode_step env n (pb_dec_submessage env n (pb_decode_noinit env n))"

definition message_start :: "pb_field list \<Rightarrow> nat \<Rightarrow> pb_decode_state" where
  "message_start fs dest = \<lparr>ds_iter = snd (pb_field_iter_begin fs dest), fields_seen = [0, 0], extension_range_start = 0,
     fixed_count_field = None\<rparr>"

definition message_entry :: "'st pb_env \<Rightarrow> nat \<Rightarrow> 'st pb_dctx \<Rightarrow> 'st pb_dctx" where
  "message_entry env n c = c\<lparr>d_mem := set_size (fixed_count_size env n) 0 (d_mem c)\<rparr>"

text \<open>The end of the input, or the tag 0.\<close>

definition message_ends :: "'st pb_env \<Rightarrow> nat \<Rightarrow> pb_decode_state \<Rightarrow> 'st pb_dctx \<Rightarrow> 'st pb_dctx \<Rightarrow> bool" where
  "message_ends env n st c c' \<longleftrightarrow> bytes_left (d_in c) = 0 \<and> c' = c
     \<or> bytes_left (d_in c) \<noteq> 0 \<and> message_step env n st c = Some (Some None, c')"

definition fixed_count_done :: "'st pb_env \<Rightarrow> nat \<Rightarrow> pb_field list \<Rightarrow> pb_decode_state \<Rightarrow> mem \<Rightarrow> bool" where
  "fixed_count_done env n fs st m \<longleftrightarrow>
     (case fixed_count_field st of None \<Rightarrow> True | Some k \<Rightarrow> size_at m (fixed_count_size env n) = array_size (fs ! k))"

inductive_cases decode_run_cases: "decode_run step st c ks st' c'"

lemma start_marks:
  assumes "terminated fs" "1 < length fs"
  shows "marks fs dest {} (message_start fs dest)"
proof -
  have "at_field fs dest 0 (ds_iter (message_start fs dest))"
    using at_field_iter_at [of 0 fs dest] assms(2) by (simp add: message_start_def iter_at_0)
  moreover have "\<not> seen_bit [0, 0] i" if "i < 64" for i
  proof -
    have "i div 32 = 0 \<or> i div 32 = 1" using that by auto
    then show ?thesis by (auto simp: seen_bit_def)
  qed
  ultimately show ?thesis by (auto simp: marks_def message_start_def)
qed

lemma pb_decode_noinit_loop:
  "pb_decode_noinit env (Suc n) fs dest c = pbind (decode_loop (message_step env n) (message_start fs dest)) (\<lambda>st c.
     if \<not> fixed_count_done env n fs st (d_mem c) then pb_return_error ''wrong size for fixed count field'' c
     else check_required st c) (message_entry env n c)"
proof -
  have "\<not> fixed_count_done env n fs st m \<longleftrightarrow> (case fixed_count_field st of None \<Rightarrow> False
      | Some k \<Rightarrow> size_at m (fixed_count_size env n) \<noteq> array_size (fs ! k))" for st m
    by (simp add: fixed_count_done_def split: option.splits)
  then show ?thesis
    by (simp add: decode_message_def Let_def message_step_def message_start_def message_entry_def)
qed

lemma loop_iff_run:
  "decode_loop (message_step env n) st0 c0 = Some (Some st, c) \<longleftrightarrow>
     (\<exists>ks c'. decode_run (message_step env n) st0 c0 ks st c' \<and> message_ends env n st c' c)"
proof
  assume "decode_loop (message_step env n) st0 c0 = Some (Some st, c)"
  from decode_loop_run [OF this] show "\<exists>ks c'. decode_run (message_step env n) st0 c0 ks st c' \<and> message_ends env n st c' c"
    by (auto simp: message_ends_def)
next
  assume "\<exists>ks c'. decode_run (message_step env n) st0 c0 ks st c' \<and> message_ends env n st c' c"
  then obtain ks c' where "decode_run (message_step env n) st0 c0 ks st c'" "message_ends env n st c' c" by blast
  with decode_run_loop [OF this(1)] show "decode_loop (message_step env n) st0 c0 = Some (Some st, c)"
    by (auto simp: message_ends_def decode_loop.simps [of _ st c'] lift_def gret_def)
qed

lemma noinit_success_iff:
  assumes "terminated fs" "1 < length fs"
  shows "pb_decode_noinit env (Suc n) fs dest c = Some (Some (), c') \<longleftrightarrow>
    (\<exists>ks st d. decode_run (message_step env n) (message_start fs dest) (message_entry env n c) ks st d
       \<and> message_ends env n st d c' \<and> fixed_count_done env n fs st (d_mem c')
       \<and> (\<forall>k. is_required fs k \<and> required_before fs k < PB_MAX_REQUIRED_FIELDS \<longrightarrow> k \<in> set ks))"
    (is "?lhs \<longleftrightarrow> (\<exists>ks st d. ?run ks st d)")
proof -
  have check: "check_required st c = Some (Some (), d) \<longleftrightarrow>
      d = c \<and> (\<forall>k. is_required fs k \<and> required_before fs k < PB_MAX_REQUIRED_FIELDS \<longrightarrow> k \<in> set ks)"
    if "decode_run (message_step env n) (message_start fs dest) e ks st e'" for st c d ks e e'
  proof -
    have "marks fs dest (set ks) st"
      using that start_marks [OF assms] decode_run_marks [OF _ assms(1)] unfolding message_step_def by blast
    from check_required_iff [OF assms(1) this, of c] show ?thesis by (auto dest: i_error_None)
  qed
  have "?lhs \<longleftrightarrow> (\<exists>st d. decode_loop (message_step env n) (message_start fs dest) (message_entry env n c) = Some (Some st, d)
      \<and> fixed_count_done env n fs st (d_mem d) \<and> check_required st d = Some (Some (), c'))"
    unfolding pb_decode_noinit_loop pbind_Some by (auto dest: i_error_None split: if_splits)
  also have "\<dots> \<longleftrightarrow> (\<exists>ks st d. ?run ks st d)"
    unfolding loop_iff_run using check by (smt (verit, del_insts))
  finally show ?thesis .
qed

text \<open>C27 \<open>pb_decode_noinit\<close> succeeds if and only if its loop runs to the end of the input, a repeated field of fixed count that was
  begun last is complete, and every required field, up to the number \<open>PB_MAX_REQUIRED_FIELDS\<close> that the bitmap can hold, was found on
  the wire. The context after a success is that at the end of the loop.\<close>

theorem required_fields_checked:
  assumes "terminated fs" "1 < length fs"
  shows "pb_decode_noinit env (Suc n) fs dest c = Some (Some (), c') \<longleftrightarrow>
    (\<exists>ks st d. decode_run (message_step env n) (message_start fs dest) (message_entry env n c) ks st d
       \<and> message_ends env n st d c' \<and> fixed_count_done env n fs st (d_mem c')
       \<and> (\<forall>k. is_required fs k \<and> required_before fs k < PB_MAX_REQUIRED_FIELDS \<longrightarrow> k \<in> set ks))"
  using assms by (rule noinit_success_iff)

definition flag_fields :: "pb_field list" where
  "flag_fields = [\<lparr>f_tag = 1, f_type = 0, data_offset = 0, size_offset = 0, data_size = 1, array_size = 0, f_ptr = 0\<rparr>,
     \<lparr>f_tag = 0, f_type = 0, data_offset = 0, size_offset = 0, data_size = 0, array_size = 0, f_ptr = 0\<rparr>]"

definition plain_env :: "unit pb_env" where
  "plain_env = \<lparr>fields_at = \<lambda>_. flag_fields, extension_type_at = \<lambda>_. \<lparr>xt_decode = None, xt_encode = None, xt_arg = 0\<rparr>,
     decode_fn = \<lambda>_ _ _ c. (None, c), encode_fn = \<lambda>_ _ _ _ s. (None, s),
     heap_realloc = \<lambda>m _ _. (0, m), heap_free = \<lambda>_ m. m, fixed_count_size = \<lambda>n. 1000 + 4 * n\<rparr>"

text \<open>An empty message does not have the required field.\<close>

theorem required_fields_checked_witness:
  "\<not> (\<exists>c'. pb_decode_noinit plain_env 1 flag_fields 100 (dctx [] 0 None (\<lambda>_. 0)) = Some (Some (), c'))"
proof -
  let ?c = "dctx [] 0 None (\<lambda>_. 0) :: unit pb_dctx"
  have fs: "terminated flag_fields" "1 < length flag_fields" "is_required flag_fields 0"
    "required_before flag_fields 0 < PB_MAX_REQUIRED_FIELDS"
    by (auto simp: flag_fields_def terminated_def is_required_def required_before_def PB_MAX_REQUIRED_FIELDS_def
        PB_HTYPE_def PB_HTYPE_REQUIRED_def less_Suc_eq)
  have empty: "decode_run s st e ks st' d \<Longrightarrow> bytes_left (d_in e) = 0 \<Longrightarrow> ks = [] \<and> d = e"
    for s :: "pb_decode_state \<Rightarrow> (unit, pb_decode_state option) pop" and st e ks st' d
    by (induction rule: decode_run.induct) auto
  show ?thesis
  proof
    assume "\<exists>c'. pb_decode_noinit plain_env 1 flag_fields 100 ?c = Some (Some (), c')"
    then obtain c' where "pb_decode_noinit plain_env (Suc 0) flag_fields 100 ?c = Some (Some (), c')" by auto
    with required_fields_checked [OF fs(1,2), of plain_env 0 100 ?c c'] obtain ks st d where
      run: "decode_run (message_step plain_env 0) (message_start flag_fields 100) (message_entry plain_env 0 ?c) ks st d"
      and "\<forall>k. is_required flag_fields k \<and> required_before flag_fields k < PB_MAX_REQUIRED_FIELDS \<longrightarrow> k \<in> set ks"
      by blast
    then have "0 \<in> set ks" using fs(3,4) by blast
    with empty [OF run] show False by (simp add: message_entry_def)
  qed
qed

end
