(* ===== verification/PB_Encode.thy ===== *)
theory PB_Encode
  imports PB_Message
begin

text \<open>
  Encoding of messages (\<open>Pods/nanopb/pb_encode.c\<close>). The structure lies in a memory that the encoder does not
  change. As in \<open>PB_Message\<close>, \<open>n\<close> bounds the nesting of the submessages.
\<close>

section \<open>Encoding a field\<close>

type_synonym ('st, 'a) eop = "'st pb_ostream \<Rightarrow> ('a option \<times> 'st pb_ostream) option"

definition elift :: "('st, 'a) oop \<Rightarrow> ('st, 'a) eop" where
  "elift p s = Some (p s)"

definition ebind :: "('st, 'a) eop \<Rightarrow> ('a \<Rightarrow> ('st, 'b) eop) \<Rightarrow> ('st, 'b) eop" where
  "ebind p f s = (case p s of
     None \<Rightarrow> None
   | Some (None, s) \<Rightarrow> Some (None, s)
   | Some (Some a, s) \<Rightarrow> f a s)"

text \<open>
  \<open>pb_check_proto3_default_value\<close>. The loop over the fields of a submessage ends at the first field that
  is not zero.
\<close>

partial_function (option) all_fields_loop :: "(pb_field_iter \<Rightarrow> bool option) \<Rightarrow> pb_field_iter \<Rightarrow> bool option" where
  "all_fields_loop check it = (case check it of
     None \<Rightarrow> None
   | Some zero \<Rightarrow> if \<not> zero then Some False
       else case pb_field_iter_next it of (again, it) \<Rightarrow> if again then all_fields_loop check it else Some True)"

definition is_zero :: "mem \<Rightarrow> nat \<Rightarrow> nat \<Rightarrow> bool" where
  "is_zero m a n \<longleftrightarrow> list_all (\<lambda>b. b = 0) (mem_read m a n)"

fun pb_check_proto3_default_value :: "'st pb_env \<Rightarrow> nat \<Rightarrow> mem \<Rightarrow> pb_field \<Rightarrow> nat \<Rightarrow> bool option" where
  "pb_check_proto3_default_value env 0 m f data = None"
| "pb_check_proto3_default_value env (Suc n) m f data =
     (let psize = size_addr data f in
      if htype f = PB_HTYPE_REQUIRED then Some False
      else if htype f = PB_HTYPE_REPEATED \<and> size_offset f \<noteq> 0 then Some (size_at m psize = 0)
      else if htype f = PB_HTYPE_REPEATED \<and> is_static f then Some False
      else if htype f = PB_HTYPE_ONEOF then Some (size_at m psize = 0)
      else if htype f = PB_HTYPE_OPTIONAL \<and> size_offset f \<noteq> 0 then Some (\<not> safe_read_bool m psize)
      else if is_static f \<and> ltype f = PB_LTYPE_BYTES then Some (size_at m data = 0)
      else if is_static f \<and> ltype f = PB_LTYPE_STRING then Some (m data = 0)
      else if is_static f \<and> ltype f = PB_LTYPE_FIXED_LENGTH_BYTES then Some (data_size f = 0)
      else if is_static f \<and> ltype f = PB_LTYPE_SUBMESSAGE then
        (case pb_field_iter_begin (fields_at env (f_ptr f)) data of (again, it) \<Rightarrow>
          if again then all_fields_loop (\<lambda>it. pb_check_proto3_default_value env n m (cur_field it) (pData it)) it
          else Some True)
      else if is_pointer f \<and> ltype f > PB_LTYPE_LAST_PACKABLE then Some (ptr_at m data = 0)
      else Some (is_zero m data (data_size f)))"

text \<open>
  The table \<open>PB_ENCODERS\<close>. \<open>value_encoder\<close> has the entries that do not call \<open>pb_encode\<close>, and
  \<open>submessage\<close> is the one that does.
\<close>

definition value_encoder :: "pb_field \<Rightarrow> mem \<Rightarrow> nat \<Rightarrow> ('st, unit) oop" where
  "value_encoder f =
     (if ltype f = PB_LTYPE_BOOL then pb_enc_bool f
      else if ltype f = PB_LTYPE_VARINT then pb_enc_varint f
      else if ltype f = PB_LTYPE_UVARINT then pb_enc_uvarint f
      else if ltype f = PB_LTYPE_SVARINT then pb_enc_svarint f
      else if ltype f = PB_LTYPE_FIXED32 then pb_enc_fixed32 f
      else if ltype f = PB_LTYPE_FIXED64 then pb_enc_fixed64 f
      else if ltype f = PB_LTYPE_BYTES then pb_enc_bytes f
      else if ltype f = PB_LTYPE_STRING then pb_enc_string f
      else pb_enc_fixed_length_bytes f)"

definition has_value_encoder :: "pb_field \<Rightarrow> bool" where
  "has_value_encoder f \<longleftrightarrow> ltype f \<le> PB_LTYPE_STRING \<or> ltype f = PB_LTYPE_FIXED_LENGTH_BYTES"

definition PB_ENCODERS :: "(pb_field \<Rightarrow> nat \<Rightarrow> ('st, unit) eop) \<Rightarrow> mem \<Rightarrow> pb_field \<Rightarrow> nat \<Rightarrow> ('st, unit) eop" where
  "PB_ENCODERS submessage m f data =
     (if has_value_encoder f then elift (value_encoder f m data)
      else if ltype f = PB_LTYPE_SUBMESSAGE then submessage f data
      else (\<lambda>s. None))"

text \<open>\<open>encode_array\<close> on an array of submessages, which is never packed.\<close>

fun submessage_loop :: "(nat \<Rightarrow> ('st, unit) eop) \<Rightarrow> pb_field \<Rightarrow> nat \<Rightarrow> nat \<Rightarrow> ('st, unit) eop" where
  "submessage_loop func f 0 p = elift (gret ())"
| "submessage_loop func f (Suc k) p =
     ebind (elift (pb_encode_tag_for_field f)) (\<lambda>_. ebind (func p) (\<lambda>_. submessage_loop func f k (p + data_size f)))"

definition encode_submessages :: "(nat \<Rightarrow> ('st, unit) eop) \<Rightarrow> pb_field \<Rightarrow> nat \<Rightarrow> nat \<Rightarrow> ('st, unit) eop" where
  "encode_submessages func f data cnt =
     (if cnt = 0 then elift (gret ())
      else if \<not> is_pointer f \<and> cnt > array_size f then elift (o_error ''array max size exceeded'')
      else submessage_loop func f cnt data)"

text \<open>Whether a field without \<open>size_offset\<close> counts as present, before pointers are considered.\<close>

definition implicit_has :: "'st pb_env \<Rightarrow> nat \<Rightarrow> mem \<Rightarrow> pb_field \<Rightarrow> nat \<Rightarrow> bool option" where
  "implicit_has env n m f data =
     (if size_offset f = 0 \<and> htype f = PB_HTYPE_OPTIONAL
      then map_option Not (pb_check_proto3_default_value env n m f data) else Some True)"

definition encode_basic_field ::
  "'st pb_env \<Rightarrow> nat \<Rightarrow> (pb_field \<Rightarrow> nat \<Rightarrow> ('st, unit) eop) \<Rightarrow> mem \<Rightarrow> pb_field \<Rightarrow> nat \<Rightarrow> ('st, unit) eop" where
  "encode_basic_field env n submessage m f data s = (case implicit_has env n m f data of
     None \<Rightarrow> None
   | Some has \<Rightarrow>
       let psize = size_addr data f;
           p = (if is_pointer f then ptr_at m data else data);
           has = (if is_pointer f then p \<noteq> 0 else has);
           func = PB_ENCODERS submessage m f;
           write = ebind (elift (pb_encode_tag_for_field f)) (\<lambda>_. func p) in
       if htype f = PB_HTYPE_REQUIRED then
         if p = 0 then elift (o_error ''missing required field'') s else write s
       else if htype f = PB_HTYPE_OPTIONAL then
         if (if size_offset f \<noteq> 0 then safe_read_bool m psize else has) then write s else elift (gret ()) s
       else if htype f = PB_HTYPE_REPEATED then
         let cnt = (if size_offset f \<noteq> 0 then size_at m psize else array_size f) in
         if ltype f = PB_LTYPE_SUBMESSAGE then encode_submessages func f p cnt s
         else if has_value_encoder f then elift (encode_array f m p cnt value_encoder) s
         else None
       else if htype f = PB_HTYPE_ONEOF then
         if size_at m psize = f_tag f then write s else elift (gret ()) s
       else elift (o_error ''invalid field type'') s)"

definition encode_callback_field :: "'st pb_env \<Rightarrow> mem \<Rightarrow> pb_field \<Rightarrow> nat \<Rightarrow> ('st, unit) oop" where
  "encode_callback_field env m f data s =
     (if ptr_at m data \<noteq> 0 then
        case encode_fn env (ptr_at m data) f m (data + 8) s of
          (None, s) \<Rightarrow> o_error ''callback error'' s
        | (Some _, s) \<Rightarrow> (Some (), s)
      else (Some (), s))"

definition encode_field ::
  "'st pb_env \<Rightarrow> nat \<Rightarrow> (pb_field \<Rightarrow> nat \<Rightarrow> ('st, unit) eop) \<Rightarrow> mem \<Rightarrow> pb_field \<Rightarrow> nat \<Rightarrow> ('st, unit) eop" where
  "encode_field env n submessage m f data =
     (if is_static f \<or> is_pointer f then encode_basic_field env n submessage m f data
      else if is_callback f then elift (encode_callback_field env m f data)
      else elift (o_error ''invalid field type''))"

text \<open>A pointer extension is stored in \<open>extension->dest\<close> itself.\<close>

definition default_extension_encoder ::
  "'st pb_env \<Rightarrow> nat \<Rightarrow> (pb_field \<Rightarrow> nat \<Rightarrow> ('st, unit) eop) \<Rightarrow> mem \<Rightarrow> nat \<Rightarrow> ('st, unit) eop" where
  "default_extension_encoder env n submessage m ext =
     (let f = fields_at env (xt_arg (extension_type_at env (ptr_at m ext))) ! 0 in
      encode_field env n submessage m f (if is_pointer f then ext + 8 else ptr_at m (ext + 8)))"

partial_function (option) encode_extension_loop ::
  "'st pb_env \<Rightarrow> nat \<Rightarrow> (pb_field \<Rightarrow> nat \<Rightarrow> ('st, unit) eop) \<Rightarrow> mem \<Rightarrow> nat \<Rightarrow> ('st, unit) eop" where
  "encode_extension_loop env n submessage m ext s =
     (if ext \<noteq> 0 then
        case (case xt_encode (extension_type_at env (ptr_at m ext)) of
            Some f \<Rightarrow> elift (f m ext) s
          | None \<Rightarrow> default_extension_encoder env n submessage m ext s) of
          None \<Rightarrow> None
        | Some (None, s) \<Rightarrow> Some (None, s)
        | Some (Some _, s) \<Rightarrow> encode_extension_loop env n submessage m (ptr_at m (ext + 16)) s
      else Some (Some (), s))"

definition encode_extension_field ::
  "'st pb_env \<Rightarrow> nat \<Rightarrow> (pb_field \<Rightarrow> nat \<Rightarrow> ('st, unit) eop) \<Rightarrow> mem \<Rightarrow> nat \<Rightarrow> ('st, unit) eop" where
  "encode_extension_field env n submessage m data =
     encode_extension_loop env n submessage m (ptr_at m data)"

section \<open>Encoding a message\<close>

partial_function (option) encode_loop :: "(pb_field_iter \<Rightarrow> ('st, unit) eop) \<Rightarrow> pb_field_iter \<Rightarrow> ('st, unit) eop" where
  "encode_loop encode it s = (case encode it s of
     None \<Rightarrow> None
   | Some (None, s) \<Rightarrow> Some (None, s)
   | Some (Some _, s) \<Rightarrow>
       (case pb_field_iter_next it of (again, it) \<Rightarrow> if again then encode_loop encode it s else Some (Some (), s)))"

definition encode_message ::
  "'st pb_env \<Rightarrow> nat \<Rightarrow> (pb_field \<Rightarrow> nat \<Rightarrow> ('st, unit) eop) \<Rightarrow> mem \<Rightarrow> pb_field list \<Rightarrow> nat \<Rightarrow> ('st, unit) eop" where
  "encode_message env n submessage m fs src s = (case pb_field_iter_begin fs src of (again, it) \<Rightarrow>
     if again then encode_loop (\<lambda>it.
         if ltype (cur_field it) = PB_LTYPE_EXTENSION then encode_extension_field env n submessage m (pData it)
         else encode_field env n submessage m (cur_field it) (pData it)) it s
     else Some (Some (), s))"

text \<open>
  \<open>pb_encode_submessage\<close>, with \<open>pb_encode\<close> for the submessage as an argument: once on a stream that
  only counts, and again on a substream whose size is the result.
\<close>

definition encode_submessage_with :: "('st, unit) eop \<Rightarrow> ('st, unit) eop" where
  "encode_submessage_with encode s = (case encode PB_OSTREAM_SIZING of
     None \<Rightarrow> None
   | Some (None, sub) \<Rightarrow> Some (None, s\<lparr>o_errmsg := o_errmsg sub\<rparr>)
   | Some (Some _, sub) \<Rightarrow>
       let size = bytes_written sub in
       ebind (elift (pb_encode_varint (of_nat size))) (\<lambda>_ s.
         if o_sink s = Null_sink then elift (pb_write_null size) s
         else if size_add (bytes_written s) size > max_size s then elift (o_error ''stream full'') s
         else case encode \<lparr>o_sink = o_sink s, max_size = size, bytes_written = 0, o_errmsg = None\<rparr> of
           None \<Rightarrow> None
         | Some (status, sub) \<Rightarrow>
             let s = s\<lparr>bytes_written := size_add (bytes_written s) (bytes_written sub), o_sink := o_sink sub,
                       o_errmsg := o_errmsg sub\<rparr> in
             if bytes_written sub \<noteq> size then elift (o_error ''submsg size changed'') s
             else Some (status, s)) s)"

definition pb_enc_submessage :: "'st pb_env \<Rightarrow> (pb_field list \<Rightarrow> nat \<Rightarrow> ('st, unit) eop) \<Rightarrow> pb_field \<Rightarrow> nat \<Rightarrow> ('st, unit) eop" where
  "pb_enc_submessage env encode f src =
     (if f_ptr f = 0 then elift (o_error ''invalid field descriptor'')
      else encode_submessage_with (encode (fields_at env (f_ptr f)) src))"

fun pb_encode :: "'st pb_env \<Rightarrow> nat \<Rightarrow> mem \<Rightarrow> pb_field list \<Rightarrow> nat \<Rightarrow> ('st, unit) eop" where
  "pb_encode env 0 m fs src s = None"
| "pb_encode env (Suc n) m fs src s = encode_message env n (pb_enc_submessage env (pb_encode env n m)) m fs src s"

definition pb_encode_submessage :: "'st pb_env \<Rightarrow> nat \<Rightarrow> mem \<Rightarrow> pb_field list \<Rightarrow> nat \<Rightarrow> ('st, unit) eop" where
  "pb_encode_submessage env n m fs src = encode_submessage_with (pb_encode env n m fs src)"

definition pb_encode_delimited :: "'st pb_env \<Rightarrow> nat \<Rightarrow> mem \<Rightarrow> pb_field list \<Rightarrow> nat \<Rightarrow> ('st, unit) eop" where
  "pb_encode_delimited = pb_encode_submessage"

definition pb_encode_nullterminated :: "'st pb_env \<Rightarrow> nat \<Rightarrow> mem \<Rightarrow> pb_field list \<Rightarrow> nat \<Rightarrow> ('st, unit) eop" where
  "pb_encode_nullterminated env n m fs src = ebind (pb_encode env n m fs src) (\<lambda>_. elift (pb_write [0]))"

definition pb_get_encoded_size :: "'st pb_env \<Rightarrow> nat \<Rightarrow> mem \<Rightarrow> pb_field list \<Rightarrow> nat \<Rightarrow> nat option option" where
  "pb_get_encoded_size env n m fs src = (case pb_encode env n m fs src PB_OSTREAM_SIZING of
     None \<Rightarrow> None
   | Some (None, _) \<Rightarrow> Some None
   | Some (Some _, s) \<Rightarrow> Some (Some (bytes_written s)))"

end
