(* ===== verification/PB_Returns.thy ===== *)
theory PB_Returns
  imports PB_Required
begin

text \<open>
  Decoding returns, whatever the input is: the loops over descriptors come back to their start, the others
  consume input, and the calls of a message for its submessages are as deep as the descriptors are nested.
\<close>

section \<open>Operations that return\<close>

definition returns :: "('st, 'a) pop \<Rightarrow> bool" where
  "returns p \<longleftrightarrow> (\<forall>c. \<exists>r c'. p c = Some (r, c') \<and> bytes_left (d_in c') \<le> bytes_left (d_in c))"

definition shrinks :: "('st, 'a) dop \<Rightarrow> bool" where
  "shrinks p \<longleftrightarrow> (\<forall>c r c'. p c = (r, c') \<longrightarrow> bytes_left (d_in c') \<le> bytes_left (d_in c))"

text \<open>A success consumes input.\<close>

definition consumes_in :: "('st, 'a) iop \<Rightarrow> bool" where
  "consumes_in p \<longleftrightarrow> (\<forall>s a s'. p s = (Some a, s') \<longrightarrow> bytes_left s' < bytes_left s)"

definition consumes :: "('st, 'a) dop \<Rightarrow> bool" where
  "consumes p \<longleftrightarrow> (\<forall>c a c'. p c = (Some a, c') \<longrightarrow> bytes_left (d_in c') < bytes_left (d_in c))"

named_theorems returning

lemma returnsE:
  assumes "returns p"
  obtains r c' where "p c = Some (r, c')" "bytes_left (d_in c') \<le> bytes_left (d_in c)"
  using assms unfolding returns_def by blast

lemma returnsI: "(\<And>c. \<exists>r c'. p c = Some (r, c') \<and> bytes_left (d_in c') \<le> bytes_left (d_in c)) \<Longrightarrow> returns p"
  unfolding returns_def by blast

lemma returns_lift [returning]: "shrinks p \<Longrightarrow> returns (lift p)"
  unfolding returns_def shrinks_def lift_def by (metis prod.collapse)

lemma returns_pbind [returning]:
  assumes "returns p" "\<And>a. returns (f a)"
  shows "returns (pbind p f)"
proof (rule returnsI)
  fix c
  obtain r c1 where 1: "p c = Some (r, c1)" "bytes_left (d_in c1) \<le> bytes_left (d_in c)" by (rule returnsE [OF assms(1)])
  show "\<exists>r c'. pbind p f c = Some (r, c') \<and> bytes_left (d_in c') \<le> bytes_left (d_in c)"
  proof (cases r)
    case (Some a)
    obtain r' c2 where "f a c1 = Some (r', c2)" "bytes_left (d_in c2) \<le> bytes_left (d_in c1)" by (rule returnsE [OF assms(2)])
    with 1 Some show ?thesis by (auto simp: pbind_def)
  qed (use 1 in \<open>simp add: pbind_def\<close>)
qed

lemma returns_on_mem [returning]:
  assumes "\<And>m. \<exists>m'. f m = Some m'"
  shows "returns (on_mem f)"
proof (rule returnsI)
  fix c :: "'a pb_dctx"
  obtain m' where "f (d_mem c) = Some m'" using assms by blast
  then show "\<exists>r c'. on_mem f c = Some (r, c') \<and> bytes_left (d_in c') \<le> bytes_left (d_in c)"
    by (simp add: on_mem_def)
qed

text \<open>An operation that looks at the context first, and one that changes the memory first.\<close>

lemma returns_choice: "(\<And>c. \<exists>q d. returns q \<and> p c = q d \<and> d_in d = d_in c) \<Longrightarrow> returns p"
  unfolding returns_def by metis

lemma returns_dep:
  assumes "\<And>x. returns (p x)" "\<And>c. d_in (g c) = d_in c"
  shows "returns (\<lambda>c. p (h c) (g c))"
  by (rule returns_choice) (use assms in blast)

lemma returns_mem [returning]: "returns p \<Longrightarrow> (\<And>c. d_in (g c) = d_in c) \<Longrightarrow> returns (\<lambda>c. p (g c))"
  by (rule returns_dep [where p = "\<lambda>_. p"])

lemma returns_if_ctx: "returns p \<Longrightarrow> returns q \<Longrightarrow> returns (\<lambda>c. if b c then p c else q c)"
  unfolding returns_def by simp

lemma returns_pbind_ctx: "(\<And>c. returns (p c)) \<Longrightarrow> (\<And>a. returns (f a)) \<Longrightarrow> returns (\<lambda>c. pbind (p c) f c)"
  by (rule returns_choice) (use returns_pbind in blast)

section \<open>Reading from a stream\<close>

lemma pb_read_buf_le: "pb_read_buf n s = (r, s') \<Longrightarrow> bytes_left s' \<le> bytes_left s"
  using i_call_left [of n s]
  by (cases "i_call n s"; cases "fst (i_call n s)") (auto simp: pb_read_buf_def i_error_eq split: if_splits)

lemma pb_skip_loop_le: "pb_skip_loop n s = (r, s') \<Longrightarrow> bytes_left s' \<le> bytes_left s"
proof (induction n arbitrary: s r s' rule: pb_skip_loop.induct)
  case (1 n)
  obtain x t where x: "pb_read_buf (if n > 16 then 16 else n) s = (x, t)" by fastforce
  note t = pb_read_buf_le [OF x]
  show ?case
  proof (cases "n > 16 \<and> x \<noteq> None")
    case True
    then have "pb_skip_loop (n - 16) t = (r, s')" using 1(2) x by (auto simp: pb_skip_loop.simps [of n] gbind_def)
    with 1(1) [of t r s'] True t show ?thesis by simp
  next
    case False
    then show ?thesis using 1(2) x t
      by (auto simp: pb_skip_loop.simps [of n] gbind_def gret_def split: option.splits if_splits)
  qed
qed

lemma pb_read_null_le: "pb_read_null n s = (r, s') \<Longrightarrow> bytes_left s' \<le> bytes_left s"
  by (auto simp: pb_read_null_def i_error_eq dest: pb_skip_loop_le split: if_splits isource.splits)

lemma reads_left: "reads s t \<Longrightarrow> bytes_left t \<le> bytes_left s"
proof (induction rule: reads.induct)
  case (reads_byte s t r t')
  then show ?case using i_call_left [of 1 t]
    by (cases "i_call 1 t"; cases "fst (i_call 1 t)") (auto simp: pb_readbyte_def i_error_eq split: if_splits)
qed (auto dest: pb_read_buf_le pb_read_null_le)

lemma shrinks_in [returning]: "(\<And>s r s'. p s = (r, s') \<Longrightarrow> reads s s') \<Longrightarrow> shrinks (on_in p)"
  unfolding shrinks_def on_in_def by (auto dest!: reads_left split: prod.splits)

lemma shrinks_gbind [returning]:
  assumes "shrinks p" "\<And>a. shrinks (f a)"
  shows "shrinks (gbind p f)"
  using assms unfolding shrinks_def gbind_def
  by (auto split: option.splits prod.splits dest: order_trans) (meson order_trans)

lemma shrinks_simps [returning]: "shrinks (gret a)" "shrinks (store p bs)" "shrinks (on_in (i_error msg))"
  by (auto simp: shrinks_def gret_def store_def on_in_def i_error_def)

lemma shrinks_reads [returning]: "shrinks (on_in (pb_read_buf n))" "shrinks (on_in (pb_read_null n))"
  "shrinks (on_in pb_decode_varint)" "shrinks (on_in pb_decode_svarint)" "shrinks (on_in pb_decode_varint32)"
  "shrinks (on_in pb_decode_fixed32)" "shrinks (on_in pb_decode_fixed64)" "shrinks (on_in pb_dec_bool)"
  by (rule shrinks_in, erule decoders_read reads_steps)+

lemma pb_skip_varint_le: "pb_skip_varint s = (r, s') \<Longrightarrow> bytes_left s' \<le> bytes_left s"
proof (induction "bytes_left s" arbitrary: s rule: less_induct)
  case less
  obtain x t where x: "pb_read_buf 1 s = (x, t)" by fastforce
  show ?case
  proof (cases x)
    case None
    then show ?thesis using less(2) pb_read_buf_le [OF x] by (simp add: pb_skip_varint.simps [of s] x del: One_nat_def)
  next
    case (Some bs)
    then have "bytes_left s = Suc (bytes_left t)" using pb_read_buf_left [of 1 s bs t] x by simp
    then show ?thesis using less(1) [of t] less(2) Some
      by (auto simp: pb_skip_varint.simps [of s] x simp del: One_nat_def split: if_splits)
  qed
qed

lemma shrinks_skip [returning]: "shrinks (on_in (pb_skip_field wire_type) :: ('st, unit) dop)"
proof -
  have "shrinks (on_in pb_skip_varint :: ('st, unit) dop)"
    unfolding shrinks_def on_in_def by (auto dest: pb_skip_varint_le split: prod.splits)
  moreover have "shrinks (on_in pb_skip_string :: ('st, unit) dop)"
    unfolding shrinks_def on_in_def pb_skip_string_def
    by (auto simp: gbind_def dest!: pb_read_null_le decoders_read(3) [THEN reads_left] split: prod.splits option.splits)
  ultimately show ?thesis
    unfolding pb_skip_field_def by (simp add: shrinks_reads shrinks_simps)
qed

lemma shrinks_raw [returning]: "shrinks (on_in (read_raw_value wire_type maximum))"
proof -
  have loop: "raw_varint_loop n buf s = (r, s') \<Longrightarrow> bytes_left s' \<le> bytes_left s" for n buf and s s' :: "'a pb_istream" and r
    by (induction n buf s rule: raw_varint_loop.induct)
      (auto dest!: pb_read_buf_le split: prod.splits option.splits if_splits)
  have "shrinks (on_in (raw_varint_loop maximum []) :: ('a, bytes) dop)"
    unfolding shrinks_def on_in_def by (auto dest: loop split: prod.splits)
  then show ?thesis unfolding read_raw_value_def by (simp add: shrinks_reads shrinks_simps)
qed

subsection \<open>What a success consumes\<close>

lemma varint32_consumes: "consumes_in pb_decode_varint32"
proof -
  have "bytes_left s' < bytes_left s" if "pb_decode_varint32 s = (Some a, s')" for s s' :: "'a pb_istream" and a
  proof -
    obtain x t where x: "pb_readbyte s = (x, t)" by fastforce
    with that obtain b where b: "x = Some b" by (cases x) (auto simp: pb_decode_varint32_def pb_decode_varint32_eof_def)
    have t: "bytes_left s = Suc (bytes_left t)" using pb_readbyte_left [of s b t] x b by simp
    have "bytes_left s' \<le> bytes_left t"
      using that x b by (auto simp: pb_decode_varint32_def pb_decode_varint32_eof_def
          dest!: varint32_loop_reads [THEN reads_left] split: prod.splits if_splits)
    with t show ?thesis by simp
  qed
  then show ?thesis by (simp add: consumes_in_def)
qed

lemma varint_consumes: "consumes_in pb_decode_varint"
proof -
  have "bytes_left s' < bytes_left s" if "pb_decode_varint s = (Some a, s')" for s s' :: "'a pb_istream" and a
  proof -
    from that [unfolded pb_decode_varint_def] obtain b t where b: "pb_readbyte s = (Some b, t)"
      "(if b AND 0x80 \<noteq> 0 then varint_loop (0 + 7) (0 OR push_bit (unat (0 :: u8)) (ucast (b AND 0x7F))) t
      else (Some (0 OR push_bit (unat (0 :: u8)) (ucast (b AND 0x7F))), t)) = (Some a, s')"
      by (rule varint_loop_Some)
    have "bytes_left s' \<le> bytes_left t"
      using b(2) by (auto dest: varint_loop_reads [THEN reads_left] split: if_splits)
    with pb_readbyte_left [OF b(1)] show ?thesis by simp
  qed
  then show ?thesis by (simp add: consumes_in_def)
qed

lemma consumes_in_gbind:
  assumes "consumes_in p" "\<And>a s r s'. f a s = (r, s') \<Longrightarrow> bytes_left s' \<le> bytes_left s"
  shows "consumes_in (gbind p f)"
  unfolding consumes_in_def
proof (intro allI impI)
  fix s b s' assume "gbind p f s = (Some b, s')"
  then obtain a t where "p s = (Some a, t)" "f a t = (Some b, s')"
    by (auto simp: gbind_def split: prod.splits option.splits)
  with assms(1) assms(2) [of a t "Some b" s'] show "bytes_left s' < bytes_left s"
    unfolding consumes_in_def by (metis le_less_trans)
qed

lemma value_decoders_consume:
  "consumes_in pb_decode_svarint" "consumes_in pb_decode_fixed32" "consumes_in pb_decode_fixed64" "consumes_in pb_dec_bool"
proof -
  have buf: "consumes_in (pb_read_buf n)" if "0 < n" for n
    using that unfolding consumes_in_def by (auto dest: pb_read_buf_left)
  show "consumes_in pb_decode_svarint" unfolding pb_decode_svarint_def
    by (rule consumes_in_gbind [OF varint_consumes]) (simp add: gret_def)
  show "consumes_in pb_decode_fixed32" unfolding pb_decode_fixed32_def
    by (rule consumes_in_gbind [OF buf]) (simp_all add: gret_def)
  show "consumes_in pb_decode_fixed64" unfolding pb_decode_fixed64_def
    by (rule consumes_in_gbind [OF buf]) (simp_all add: gret_def)
  show "consumes_in pb_dec_bool" unfolding pb_dec_bool_def
    by (rule consumes_in_gbind [OF varint32_consumes]) (simp add: gret_def)
qed

lemma consumes_gbind:
  assumes "consumes_in p" "\<And>a. shrinks (f a)"
  shows "consumes (gbind (on_in p) f)"
  unfolding consumes_def
proof (intro allI impI)
  fix c b c' assume "gbind (on_in p) f c = (Some b, c')"
  then obtain a s where "p (d_in c) = (Some a, s)" "f a (c\<lparr>d_in := s\<rparr>) = (Some b, c')"
    by (auto simp: gbind_def on_in_def split: prod.splits option.splits)
  then have "bytes_left s < bytes_left (d_in c)" "bytes_left (d_in c') \<le> bytes_left s"
    using assms unfolding consumes_in_def shrinks_def by fastforce+
  then show "bytes_left (d_in c') < bytes_left (d_in c)" by simp
qed

lemma shrinks_store_clamped [returning]: "shrinks (store_clamped dest n v w)"
  unfolding store_clamped_def by (auto intro!: shrinks_gbind simp: shrinks_simps split: option.split)

lemma packable_consumes: "consumes (packable_decoder f dest)"
  unfolding packable_decoder_def
  by (simp add: dec_bool_def pb_dec_varint_def pb_dec_uvarint_def pb_dec_svarint_def pb_dec_fixed32_def pb_dec_fixed64_def
      Let_def consumes_gbind varint_consumes value_decoders_consume shrinks_store_clamped shrinks_simps)

lemma packable_shrinks [returning]: "shrinks (packable_decoder f dest)"
  unfolding packable_decoder_def
  by (simp add: dec_bool_def pb_dec_varint_def pb_dec_uvarint_def pb_dec_svarint_def pb_dec_fixed32_def pb_dec_fixed64_def
      Let_def shrinks_gbind shrinks_reads shrinks_store_clamped shrinks_simps)

lemma shrinks_read_into [returning]: "shrinks (read_into a n)"
  unfolding read_into_def by (intro returning)

lemma shrinks_lambda: "(\<And>c. \<exists>q. shrinks q \<and> (\<exists>d. d_in d = d_in c \<and> p c = q d)) \<Longrightarrow> shrinks p"
  unfolding shrinks_def by metis

lemma static_values_shrink [returning]:
  assumes "\<not> is_pointer f"
  shows "shrinks (pb_dec_bytes realloc f dest)" "shrinks (pb_dec_string realloc f dest)" "shrinks (pb_dec_fixed_length_bytes f dest)"
proof -
  have string: "shrinks (read_string a n)" for a n
    using shrinks_read_into [of a n] unfolding shrinks_def read_string_def by (auto split: prod.splits)
  have p: "PB_ATYPE (f_type f) \<noteq> PB_ATYPE_POINTER" using assms by (simp add: is_pointer_def)
  show "shrinks (pb_dec_bytes realloc f dest)" "shrinks (pb_dec_string realloc f dest)" "shrinks (pb_dec_fixed_length_bytes f dest)"
    unfolding pb_dec_bytes_def pb_dec_string_def pb_dec_fixed_length_bytes_def Let_def if_not_P [OF p]
    by (intro returning if_split [where P = shrinks, THEN iffD2] conjI impI string)+
qed

section \<open>Descriptors of static fields\<close>

text \<open>
  A message with fields, all of them static, whose submessages are nested at most \<open>n\<close> deep. Fields with pointers
  depend on the heap, and callbacks on the user's functions.
\<close>

definition static_type :: "pb_field \<Rightarrow> bool" where
  "static_type f \<longleftrightarrow> is_static f \<and> (ltype f \<le> PB_LTYPE_SUBMESSAGE \<or> ltype f = PB_LTYPE_FIXED_LENGTH_BYTES)"

fun nested :: "'st pb_env \<Rightarrow> nat \<Rightarrow> pb_field list \<Rightarrow> bool" where
  "nested env 0 fs \<longleftrightarrow> False"
| "nested env (Suc n) fs \<longleftrightarrow> terminated fs \<and> 1 < length fs \<and> list_all static_type (butlast fs)
     \<and> list_all (\<lambda>f. ltype f = PB_LTYPE_SUBMESSAGE \<longrightarrow> nested env n (fields_at env (f_ptr f))) (butlast fs)"

lemma nestedD:
  assumes "nested env n fs"
  shows "terminated fs" "1 < length fs"
  using assms by (cases n; simp)+

lemma nested_field:
  assumes "nested env (Suc n) fs" "at_field fs dest k it"
  shows "static_type (cur_field it)"
    and "ltype (cur_field it) = PB_LTYPE_SUBMESSAGE \<Longrightarrow> nested env n (fields_at env (f_ptr (cur_field it)))"
proof -
  have k: "k < length (butlast fs)" "cur_field it = butlast fs ! k"
    using at_field_simps [OF nestedD(1) [OF assms(1)] assms(2)] by (simp_all add: nth_butlast)
  show "static_type (cur_field it)"
    "ltype (cur_field it) = PB_LTYPE_SUBMESSAGE \<Longrightarrow> nested env n (fields_at env (f_ptr (cur_field it)))"
    using assms(1) k by (simp_all add: list_all_length)
qed

lemma static_type_simps:
  assumes "static_type f"
  shows "is_static f" "\<not> is_pointer f" "\<not> is_callback f" "ltype f \<noteq> PB_LTYPE_EXTENSION"
  using assms by (auto simp: static_type_def is_static_def is_pointer_def is_callback_def PB_ATYPE_STATIC_def
      PB_ATYPE_POINTER_def PB_ATYPE_CALLBACK_def PB_LTYPE_defs)

lemma nested_mono: "nested env n fs \<Longrightarrow> nested env (Suc n) fs"
proof (induction n arbitrary: fs)
  case (Suc n)
  then show ?case unfolding nested.simps(2) [of env "Suc n"] nested.simps(2) [of env n]
    by (auto simp: list_all_iff)
qed simp

subsection \<open>Loops over the fields\<close>

lemma at_field_begin:
  assumes "terminated fs" "1 < length fs"
  shows "fst (pb_field_iter_begin fs dest)" "at_field fs dest 0 (snd (pb_field_iter_begin fs dest))"
proof -
  have "f_tag (fs ! 0) \<noteq> 0" using assms by (auto simp: terminated_def)
  then show "fst (pb_field_iter_begin fs dest)" by (simp add: pb_field_iter_begin_def Let_def split: prod.splits)
  show "at_field fs dest 0 (snd (pb_field_iter_begin fs dest))"
    using at_field_iter_at [of 0 fs dest] assms(2) by (simp add: iter_at_0)
qed

lemma field_walk_returns:
  assumes fs: "terminated fs" and at: "at_field fs dest k it"
    and f: "\<And>k it m. at_field fs dest k it \<Longrightarrow> \<exists>m'. f it m = Some m'"
  shows "\<exists>m'. field_walk f it m = Some m'"
  using at
proof (induction "length fs - 1 - k" arbitrary: k it m)
  case 0
  then show ?case by (auto simp: at_field_def)
next
  case (Suc d)
  obtain m1 where m1: "f it m = Some m1" using f [OF Suc.prems] by blast
  obtain b it' where n: "pb_field_iter_next it = (b, it')" by fastforce
  note nxt = at_field_next [OF fs Suc.prems, unfolded n fst_conv snd_conv]
  show ?case
  proof (cases b)
    case True
    then have "d = length fs - 1 - Suc k" "at_field fs dest (Suc k) it'" using nxt Suc.hyps(2) by auto
    from Suc.hyps(1) [OF this, of m1] True show ?thesis by (simp add: field_walk.simps [of f it m] m1 n)
  qed (simp add: field_walk.simps [of f it m] m1 n)
qed

lemma all_fields_return:
  assumes fs: "terminated fs" "1 < length fs" and f: "\<And>k it m. at_field fs dest k it \<Longrightarrow> \<exists>m'. f it m = Some m'"
  shows "\<exists>m'. set_to_defaults f fs dest m = Some m'" "\<exists>m'. release_fields f fs dest m = Some m'"
proof -
  obtain it where it: "pb_field_iter_begin fs dest = (True, it)" "at_field fs dest 0 it"
    using at_field_begin [OF fs, of dest] by (metis (full_types) prod.collapse)
  have "\<exists>m'. field_walk f it m = Some m'" using fs(1) it(2) f by (rule field_walk_returns)
  then show "\<exists>m'. set_to_defaults f fs dest m = Some m'" "\<exists>m'. release_fields f fs dest m = Some m'"
    by (simp_all add: set_to_defaults_def release_fields_def it(1))
qed

lemma set_to_default_returns:
  "nested env n fs \<Longrightarrow> at_field fs dest k it \<Longrightarrow> \<exists>m'. pb_field_set_to_default env n it m = Some m'"
proof (induction n arbitrary: fs dest k it m)
  case (Suc n)
  have "\<exists>m'. set_to_defaults (pb_field_set_to_default env n) (fields_at env (f_ptr (cur_field it))) p m = Some m'"
    if "ltype (cur_field it) = PB_LTYPE_SUBMESSAGE" for p m
    using nestedD [OF nested_field(2) [OF Suc.prems that]] Suc.IH [OF nested_field(2) [OF Suc.prems that]]
    by (rule all_fields_return(1))
  then show ?case using static_type_simps [OF nested_field(1) [OF Suc.prems]] by (simp add: Let_def)
qed simp

lemma defaults_return:
  assumes "nested env n fs"
  shows "\<exists>m'. pb_message_set_to_defaults env n fs dest m = Some m'"
  unfolding pb_message_set_to_defaults_def
  using nestedD [OF assms] set_to_default_returns [OF assms] by (rule all_fields_return(1))

lemma item_walk_returns: "(\<And>p m. \<exists>m'. f p m = Some m') \<Longrightarrow> \<exists>m'. item_walk f step k p m = Some m'"
proof (induction k arbitrary: p m)
  case (Suc k)
  from Suc.prems obtain m1 where "f p m = Some m1" by blast
  with Suc show ?case by simp
qed simp

lemma release_field_returns:
  "nested env n fs \<Longrightarrow> at_field fs dest k it \<Longrightarrow> \<exists>m'. pb_release_single_field env n it m = Some m'"
proof (induction n arbitrary: fs dest k it m)
  case (Suc n)
  have "\<exists>m'. release_fields (pb_release_single_field env n) (fields_at env (f_ptr (cur_field it))) p m = Some m'"
    if "ltype (cur_field it) = PB_LTYPE_SUBMESSAGE" for p m
    using nestedD [OF nested_field(2) [OF Suc.prems that]] Suc.IH [OF nested_field(2) [OF Suc.prems that]]
    by (rule all_fields_return(2))
  then have "\<exists>m'. item_walk (release_fields (pb_release_single_field env n) (fields_at env (f_ptr (cur_field it)))) step j p m = Some m'"
    if "ltype (cur_field it) = PB_LTYPE_SUBMESSAGE" for step j p m
    using that by (intro item_walk_returns) blast
  then show ?case using static_type_simps [OF nested_field(1) [OF Suc.prems]]
    by (auto simp: Let_def release_pointer_def split: option.splits) (metis option.distinct(1))+
qed simp

lemma release_returns:
  assumes "nested env n fs"
  shows "\<exists>m'. pb_release env n fs dest m = Some m'"
  unfolding pb_release_def
  using nestedD [OF assms] release_field_returns [OF assms] by (rule all_fields_return(2))

subsection \<open>Searches\<close>

lemma find_loop_pSize:
  assumes "iter_find_loop tag start it = Some r"
  shows "\<exists>y. iter_find_loop tag start (it\<lparr>pSize := x\<rparr>) = Some (fst r, (snd r)\<lparr>pSize := y\<rparr>)"
  using assms
proof (induction tag start it r arbitrary: x rule: iter_find_loop.raw_induct [rotated, consumes 1, case_names 1])
  case (1 loop tag start it r)
  have cur: "cur_field (it\<lparr>pSize := x\<rparr>) = cur_field it" by (simp add: cur_field_def)
  show ?case
  proof (cases "f_tag (cur_field it) = tag \<and> PB_LTYPE (f_type (cur_field it)) \<noteq> PB_LTYPE_EXTENSION")
    case True
    then show ?thesis using 1(2) find_hit [of "it\<lparr>pSize := x\<rparr>" tag start] by (auto simp: cur)
  next
    case False
    obtain y where y: "snd (pb_field_iter_next (it\<lparr>pSize := x\<rparr>)) = (snd (pb_field_iter_next it))\<lparr>pSize := y\<rparr>"
      using next_pSize [where it = it and x = x] by auto
    let ?it = "snd (pb_field_iter_next it)"
    from False 1(2) have r: "(if iter_pos ?it \<noteq> start then loop tag start ?it else Some (False, ?it)) = Some r"
      by (auto simp: Let_def)
    have "iter_find_loop tag start (it\<lparr>pSize := x\<rparr>) =
        (if iter_pos ?it \<noteq> start then iter_find_loop tag start (?it\<lparr>pSize := y\<rparr>) else Some (False, ?it\<lparr>pSize := y\<rparr>))"
      using False by (subst find_miss [OF _ y]) (simp_all add: cur)
    then show ?thesis using r 1(1) [of tag start ?it r y] by (auto split: if_splits)
  qed
qed

lemma find_returns:
  assumes "terminated fs" "at_field fs dest k it"
  shows "\<exists>b it'. pb_field_iter_find it tag = Some (b, it')"
proof -
  obtain x where k: "k < length fs - 1" and it: "it = (iter_at fs dest k)\<lparr>pSize := x\<rparr>"
    using assms(2) by (auto simp: at_field_def)
  obtain j where "pb_field_iter_find (iter_at fs dest k) tag = Some (is_field fs tag j, iter_at fs dest j)"
    using iter_find_at [OF assms(1) k, of dest tag] by blast
  from find_loop_pSize [OF this [unfolded pb_field_iter_find_def], of x] show ?thesis
    unfolding pb_field_iter_find_def it by auto
qed

lemma find_extension_returns:
  assumes fs: "terminated fs" and no: "\<forall>k < length fs - 1. ltype (fs ! k) \<noteq> PB_LTYPE_EXTENSION" and "at_field fs dest k it"
  shows "\<exists>it'. find_extension_field it = Some (False, it')"
proof -
  let ?n = "length fs - 1"
  have run: "\<exists>it'. find_extension_loop k it = Some (False, it')"
    if "at_field fs dest j it" "k < ?n" "d = (if j < k then k - j else k + ?n - j)" for d j it
    using that(1,3)
  proof (induction d arbitrary: j it rule: less_induct)
    case (less d)
    note at = at_field_simps [OF fs less.prems(1)]
    let ?it = "snd (pb_field_iter_next it)" and ?j = "if Suc j < ?n then Suc j else 0"
    have nxt: "at_field fs dest ?j ?it" by (rule at_field_next(2) [OF fs less.prems(1)])
    have step: "find_extension_loop k it = (if ?j \<noteq> k then find_extension_loop k ?it else Some (False, ?it))"
      using no at(1) at_field_simps(3) [OF fs nxt] by (subst find_extension_loop.simps) (simp add: at(4) Let_def)
    show ?case
    proof (cases "?j = k")
      case False
      have "(if ?j < k then k - ?j else k + ?n - ?j) < d"
        using False less.prems(2) that(2) at(1) by (auto split: if_splits)
      from less.IH [OF this nxt refl] False show ?thesis unfolding step by simp
    qed (simp add: step)
  qed
  have "k < ?n" "iter_pos it = k" using at_field_simps [OF fs assms(3)] by simp_all
  with run [OF assms(3) this(1) refl] show ?thesis by (simp add: find_extension_field_def)
qed

section \<open>Fields\<close>

lemma packed_loop_returns:
  "\<exists>b c'. packed_loop (packable_decoder f) f data psize c = Some (b, c') \<and> bytes_left (d_in c') \<le> bytes_left (d_in c)"
proof (induction "bytes_left (d_in c)" arbitrary: c rule: less_induct)
  case less
  let ?cnt = "mem_nat (d_mem c) psize 4"
  show ?case
  proof (cases "bytes_left (d_in c) > 0 \<and> ?cnt < array_size f")
    case True
    obtain r c1 where 1: "packable_decoder f (data + data_size f * ?cnt) c = (r, c1)" by fastforce
    show ?thesis
    proof (cases r)
      case None
      then show ?thesis using 1 True packable_shrinks [of f "data + data_size f * ?cnt"]
        by (auto simp: packed_loop.simps [of _ f data psize c] shrinks_def)
    next
      case (Some u)
      then have lt: "bytes_left (d_in c1) < bytes_left (d_in c)"
        using 1 packable_consumes [of f "data + data_size f * ?cnt"] unfolding consumes_def by blast
      let ?c1 = "c1\<lparr>d_mem := mem_write psize (le_bytes 4 (mem_nat (d_mem c1) psize 4 + 1)) (d_mem c1)\<rparr>"
      obtain b c' where "packed_loop (packable_decoder f) f data psize ?c1 = Some (b, c')" "bytes_left (d_in c') \<le> bytes_left (d_in c1)"
        using less [of ?c1] lt by auto
      then show ?thesis using 1 Some True lt by (simp add: packed_loop.simps [of _ f data psize c])
    qed
  qed (auto simp: packed_loop.simps [of _ f data psize c])
qed

lemma make_substream_left:
  assumes "on_in pb_make_string_substream c = (Some sub, c')"
  shows "bytes_left sub + bytes_left (d_in c') < bytes_left (d_in c)"
proof -
  obtain n s where "pb_decode_varint32 (d_in c) = (Some n, s)"
    "sub = s\<lparr>bytes_left := unat n\<rparr>" "\<not> bytes_left s < unat n" "d_in c' = s\<lparr>bytes_left := bytes_left s - unat n\<rparr>"
    using assms by (auto simp: on_in_def pb_make_string_substream_def gbind_def i_error_def split: prod.splits option.splits if_splits)
  moreover from this(1) have "bytes_left s < bytes_left (d_in c)"
    using varint32_consumes unfolding consumes_in_def by blast
  ultimately show ?thesis by simp
qed

lemma make_substream_fails:
  assumes "on_in pb_make_string_substream c = (None, c')"
  shows "bytes_left (d_in c') \<le> bytes_left (d_in c)"
  using assms
  by (auto simp: on_in_def pb_make_string_substream_def gbind_def i_error_def split: prod.splits option.splits if_splits
      dest!: decoders_read(3) [THEN reads_left])

lemma close_substream_left:
  "on_in (pb_close_string_substream sub) c = (r, c') \<Longrightarrow> bytes_left (d_in c') = bytes_left (d_in c)"
  by (auto simp: on_in_def pb_close_string_substream_def shared_source_def split: prod.splits option.splits if_splits)

lemma returns_packed [returning]: "returns (decode_packed (packable_decoder f) f data psize)"
proof (rule returnsI)
  fix c :: "'a pb_dctx"
  obtain r c1 where 1: "on_in pb_make_string_substream c = (r, c1)" by fastforce
  show "\<exists>r c'. decode_packed (packable_decoder f) f data psize c = Some (r, c') \<and> bytes_left (d_in c') \<le> bytes_left (d_in c)"
  proof (cases r)
    case None
    then show ?thesis using 1 make_substream_fails [of c c1] by (simp add: decode_packed_def)
  next
    case (Some sub)
    note lt = make_substream_left [OF 1 [unfolded Some]]
    obtain b sc where 2: "packed_loop (packable_decoder f) f data psize \<lparr>d_in = sub, d_mem = d_mem c1\<rparr> = Some (b, sc)"
      using packed_loop_returns by blast
    obtain r' c2 where 3: "on_in (pb_close_string_substream (d_in sc)) (c1\<lparr>d_mem := d_mem sc\<rparr>) = (r', c2)" by fastforce
    let ?over = "\<lambda>s. i_error ''array overflow'' (shared_source (d_in sc) s)"
    have 4: "bytes_left (d_in (snd (on_in ?over c :: unit option \<times> 'a pb_dctx))) = bytes_left (d_in c)" for c :: "'a pb_dctx"
      by (simp add: on_in_def i_error_def shared_source_def)
    have "decode_packed (packable_decoder f) f data psize c =
        (if bytes_left (d_in sc) \<noteq> 0 then Some (on_in ?over (c1\<lparr>d_mem := d_mem sc\<rparr>))
         else Some (case r' of None \<Rightarrow> None | Some _ \<Rightarrow> if b then Some () else None, c2))"
      by (simp add: decode_packed_def 1 Some 2 3 Let_def split: option.split)
    then show ?thesis
      using lt close_substream_left [OF 3] 4 [of "c1\<lparr>d_mem := d_mem sc\<rparr>"]
      by (cases "on_in ?over (c1\<lparr>d_mem := d_mem sc\<rparr>) :: unit option \<times> 'a pb_dctx") auto
  qed
qed

lemma returns_in_substream [returning]:
  assumes "returns p"
  shows "returns (in_substream p)"
proof (rule returnsI)
  fix c :: "'a pb_dctx"
  obtain r c1 where 1: "on_in pb_make_string_substream c = (r, c1)" by fastforce
  show "\<exists>r c'. in_substream p c = Some (r, c') \<and> bytes_left (d_in c') \<le> bytes_left (d_in c)"
  proof (cases r)
    case None
    then show ?thesis using 1 make_substream_fails [of c c1] by (simp add: in_substream_def)
  next
    case (Some sub)
    note lt = make_substream_left [OF 1 [unfolded Some]]
    obtain status sc where 2: "p \<lparr>d_in = sub, d_mem = d_mem c1\<rparr> = Some (status, sc)" using returnsE [OF assms] by blast
    obtain r' c2 where 3: "on_in (pb_close_string_substream (d_in sc)) (c1\<lparr>d_mem := d_mem sc\<rparr>) = (r', c2)" by fastforce
    show ?thesis
      using lt close_substream_left [OF 3] by (cases r') (auto simp: in_substream_def 1 Some 2 3)
  qed
qed

text \<open>The decoder for submessages is one that returns for the descriptors of the message.\<close>

definition subs_return :: "'st pb_env \<Rightarrow> nat \<Rightarrow> (pb_field \<Rightarrow> nat \<Rightarrow> ('st, unit) pop) \<Rightarrow> bool" where
  "subs_return env n sub \<longleftrightarrow>
     (\<forall>f p. ltype f = PB_LTYPE_SUBMESSAGE \<and> (\<exists>n'. n = Suc n' \<and> nested env n' (fields_at env (f_ptr f))) \<longrightarrow> returns (sub f p))"

lemma decoders_return:
  assumes "nested env n fs" "at_field fs dest k it" "subs_return env n sub"
  shows "returns (PB_DECODERS env sub (cur_field it) p)"
proof -
  obtain n' where n: "n = Suc n'" using assms(1) by (cases n) simp_all
  note f = nested_field [OF assms(1) [unfolded n] assms(2)]
  let ?f = "cur_field it"
  have le: "l \<le> PB_LTYPE_SUBMESSAGE \<Longrightarrow> l \<le> PB_LTYPE_LAST_PACKABLE \<or> l = PB_LTYPE_BYTES \<or> l = PB_LTYPE_STRING \<or> l = PB_LTYPE_SUBMESSAGE"
    for l :: u8
  proof -
    assume "l \<le> PB_LTYPE_SUBMESSAGE"
    then have "unat l \<le> 8" by (simp add: word_le_nat_alt PB_LTYPE_defs)
    then have "unat l \<le> 5 \<or> unat l = 6 \<or> unat l = 7 \<or> unat l = 8" by linarith
    then show ?thesis by (auto simp: word_le_nat_alt PB_LTYPE_defs PB_LTYPE_LAST_PACKABLE_def intro: word_eq_unatI)
  qed
  have sub: "ltype ?f = PB_LTYPE_SUBMESSAGE \<Longrightarrow> returns (sub ?f p)"
    using assms(3) f(2) n unfolding subs_return_def by blast
  have "returns (if ltype ?f \<le> PB_LTYPE_LAST_PACKABLE then lift (packable_decoder ?f p)
      else if ltype ?f = PB_LTYPE_BYTES then lift (pb_dec_bytes (heap_realloc env) ?f p)
      else if ltype ?f = PB_LTYPE_STRING then lift (pb_dec_string (heap_realloc env) ?f p)
      else if ltype ?f = PB_LTYPE_SUBMESSAGE then sub ?f p
      else if ltype ?f = PB_LTYPE_FIXED_LENGTH_BYTES then lift (pb_dec_fixed_length_bytes ?f p) else (\<lambda>c. None))"
    using f(1) le [of "ltype ?f"] static_type_simps(2) [OF f(1)] sub
    by (auto simp: static_type_def intro!: returns_lift static_values_shrink packable_shrinks)
  then show ?thesis unfolding PB_DECODERS_def [abs_def] by (simp add: fun_eq_iff cong: if_cong)
qed

lemma static_field_returns:
  assumes "nested env n fs" "at_field fs dest k it" "subs_return env n sub"
  shows "returns (decode_static_field env n sub wt it)"
proof -
  obtain n' where n: "n = Suc n'" using assms(1) by (cases n) simp_all
  let ?f = "cur_field it"
  note dec = decoders_return [OF assms]
  have def: "ltype ?f = PB_LTYPE_SUBMESSAGE \<Longrightarrow> \<exists>m'. pb_message_set_to_defaults env n (fields_at env (f_ptr ?f)) p m = Some m'" for p m
    using nested_field(2) [OF assms(1) [unfolded n] assms(2)] nested_mono defaults_return unfolding n by blast
  have init: "returns (if ltype ?f = PB_LTYPE_SUBMESSAGE \<and> b
      then on_mem (\<lambda>m. pb_message_set_to_defaults env n (fields_at env (f_ptr ?f)) (pData it) (mem_zero (pData it) (data_size ?f) m))
      else pok ())" for b
    using def by (auto intro!: returns_on_mem returns_lift shrinks_simps)
  show ?thesis
    unfolding decode_static_field_def [abs_def] Let_def
    by (intro returns_if_ctx returns_pbind_ctx init returns_mem [OF dec] returns_packed
        returns_dep [where p = "PB_DECODERS env sub ?f", OF dec] returns_lift returns_mem [OF returns_lift] shrinks_simps dec) simp_all
qed

lemma release_union_returns:
  assumes "nested env n fs" "at_field fs dest k it"
  shows "returns (pb_release_union_field env n it)"
proof -
  note fs = nestedD(1) [OF assms(1)]
  have after: "returns (\<lambda>c. case pb_field_iter_find it1 tag of
      None \<Rightarrow> None
    | Some (False, it) \<Rightarrow> pb_return_error ''iterator error'' c
    | Some (True, it) \<Rightarrow> if is_pointer (cur_field it) then pok it (c\<lparr>d_mem := set_ptr (pData it) 0 (d_mem c)\<rparr>) else pok it c)"
    if k1: "at_field fs dest k1 it1" for k1 it1 tag
  proof -
    obtain b it2 where 2: "pb_field_iter_find it1 tag = Some (b, it2)" using find_returns [OF fs k1] by blast
    show ?thesis unfolding 2
      by (cases b) (auto intro!: returns_if_ctx returns_lift shrinks_simps returns_mem [OF returns_lift])
  qed
  have "\<exists>q d. returns q \<and> pb_release_union_field env n it c = q d \<and> d_in d = d_in c" for c
  proof -
    let ?old = "size_at (d_mem c) (pSize it)"
    obtain b it1 where 1: "pb_field_iter_find it ?old = Some (b, it1)" using find_returns [OF fs assms(2)] by blast
    obtain k1 where k1: "at_field fs dest k1 it1" by (rule at_field_find [OF fs assms(2) 1])
    have "returns (if ?old = 0 then pok it else if ?old = f_tag (cur_field it) then pok it
        else if \<not> b then pb_return_error ''invalid union tag''
        else pbind (on_mem (pb_release_single_field env n it1)) (\<lambda>_ c. case pb_field_iter_find it1 (f_tag (cur_field it)) of
            None \<Rightarrow> None
          | Some (False, it) \<Rightarrow> pb_return_error ''iterator error'' c
          | Some (True, it) \<Rightarrow> if is_pointer (cur_field it) then pok it (c\<lparr>d_mem := set_ptr (pData it) 0 (d_mem c)\<rparr>) else pok it c))"
      using release_field_returns [OF assms(1) k1] after [OF k1]
      by (auto intro!: returns_lift shrinks_simps returns_pbind returns_on_mem)
    then show ?thesis by (auto simp: pb_release_union_field_def Let_def 1 intro!: exI [of _ c] split: bool.split)
  qed
  then show ?thesis by (rule returns_choice)
qed

lemma decode_field_returns:
  assumes "nested env n fs" "at_field fs dest k it" "subs_return env n sub"
  shows "returns (decode_field env n sub wt it)"
proof (rule returnsI)
  fix c
  let ?release = "if htype (cur_field it) = PB_HTYPE_ONEOF then pb_release_union_field env n it else pok it"
  have "returns ?release" using release_union_returns [OF assms(1,2)] by (simp add: returns_lift shrinks_simps)
  then obtain r c1 where 1: "?release c = Some (r, c1)" "bytes_left (d_in c1) \<le> bytes_left (d_in c)" by (rule returnsE)
  show "\<exists>r c'. decode_field env n sub wt it c = Some (r, c') \<and> bytes_left (d_in c') \<le> bytes_left (d_in c)"
  proof (cases r)
    case (Some it1)
    have "\<exists>k1. at_field fs dest k1 it1"
      using release_union_at [OF nestedD(1) [OF assms(1)] assms(2)] 1(1) assms(2) Some by (auto split: if_splits)
    then obtain k1 where k1: "at_field fs dest k1 it1" by blast
    obtain n' where n: "n = Suc n'" using assms(1) by (cases n) simp_all
    have st: "is_static (cur_field it1)"
      using static_type_simps(1) [OF nested_field(1) [OF assms(1) [unfolded n] k1]] .
    obtain r2 c2 where 2: "decode_static_field env n sub wt it1 c1 = Some (r2, c2)" "bytes_left (d_in c2) \<le> bytes_left (d_in c1)"
      by (rule returnsE [OF static_field_returns [OF assms(1) k1 assms(3)]])
    show ?thesis using 1 2 st Some by (cases r2) (auto simp: decode_field_def pbind_def lift_def gret_def)
  qed (use 1 in \<open>simp add: decode_field_def pbind_def\<close>)
qed

section \<open>Messages\<close>

lemma decode_tag_left:
  assumes "pb_decode_tag s = (r, e, s')"
  shows "bytes_left s' \<le> bytes_left s"
    and "r = Some (wt, tag) \<Longrightarrow> bytes_left s' < bytes_left s \<and> tag < 2 ^ 29"
proof -
  obtain x e' t where x: "pb_decode_varint32_eof s = (x, e', t)" by (metis prod_cases3)
  then have v: "pb_decode_varint32 s = (x, t)" by (simp add: pb_decode_varint32_def)
  have s': "s' = t" using assms x by (auto simp: pb_decode_tag_def split: option.splits if_splits)
  show "bytes_left s' \<le> bytes_left s" using decoders_read(3) [OF v, THEN reads_left] s' by simp
  assume r: "r = Some (wt, tag)"
  then obtain w where w: "x = Some w" "tag = drop_bit 3 w"
    using assms x by (auto simp: pb_decode_tag_def split: option.splits if_splits)
  have "unat w < 2 ^ 32" using unsigned_less [of w, where ?'a = nat] by simp
  moreover have "unat (drop_bit 3 w) = unat w div 2 ^ 3" unfolding unat_drop_bit_eq by (rule drop_bit_eq_div)
  ultimately have "unat (drop_bit 3 w) < 2 ^ 29" by (simp add: less_mult_imp_div_less)
  moreover have "bytes_left t < bytes_left s" using varint32_consumes v w unfolding consumes_in_def by blast
  ultimately show "bytes_left s' < bytes_left s \<and> tag < 2 ^ 29" by (simp add: s' w(2) word_less_nat_alt)
qed

lemma decode_unknown_returns:
  fixes env :: "'st pb_env"
  assumes "nested env n fs" "at_field fs dest k (ds_iter st)" "tag < 2 ^ 29"
  shows "returns (decode_unknown env n sub tag wt st)"
proof -
  obtain n' where n: "n = Suc n'" using assms(1) by (cases n) simp_all
  have no: "\<forall>k < length fs - 1. ltype (fs ! k) \<noteq> PB_LTYPE_EXTENSION"
  proof (intro allI impI)
    fix k assume "k < length fs - 1"
    then have "static_type (fs ! k)" using assms(1) by (simp add: n list_all_length nth_butlast)
    then show "ltype (fs ! k) \<noteq> PB_LTYPE_EXTENSION" by (rule static_type_simps(4))
  qed
  obtain it where f: "find_extension_field (ds_iter st) = Some (False, it)"
    using find_extension_returns [OF nestedD(1) [OF assms(1)] no assms(2)] by blast
  have tag: "\<not> - 1 \<le> tag"
  proof
    assume "- 1 \<le> tag"
    then have "tag = - 1" by (simp add: word_order.extremum_unique)
    with assms(3) show False by simp
  qed
  have skip: "returns (lift (gbind (on_in (pb_skip_field wt)) (\<lambda>_. gret st')) :: ('st, pb_decode_state) pop)" for st' :: pb_decode_state
    by (intro returns_lift shrinks_gbind shrinks_skip shrinks_simps)
  have "decode_unknown env n sub tag wt st = (if extension_range_start st \<le> tag
      then lift (gbind (on_in (pb_skip_field wt)) (\<lambda>_. gret (st\<lparr>ds_iter := it, extension_range_start := - 1\<rparr>)))
      else lift (gbind (on_in (pb_skip_field wt)) (\<lambda>_. gret st)))"
    by (rule ext) (simp add: decode_unknown_def Let_def f tag)
  then show ?thesis using skip by simp
qed

lemma enter_fixed_count_returns: "returns (enter_fixed_count env n st)"
  unfolding enter_fixed_count_def [abs_def] Let_def
  by (intro returns_if_ctx returns_lift returns_mem [OF returns_lift] shrinks_simps) simp_all

lemma decode_step_returns:
  assumes "nested env n fs" "marks fs dest ks st" "subs_return env n sub"
  obtains r c' where "decode_step env n sub st c = Some (r, c')" "bytes_left (d_in c') \<le> bytes_left (d_in c)"
    "\<And>st'. r = Some (Some st') \<Longrightarrow> bytes_left (d_in c') < bytes_left (d_in c) \<and> (\<exists>ks. marks fs dest ks st')"
proof -
  note fs = nestedD(1) [OF assms(1)]
  obtain k where k: "at_field fs dest k (ds_iter st)" using assms(2) by (auto simp: marks_def)
  obtain x e s where t: "pb_decode_tag (d_in c) = (x, e, s)" by (metis prod_cases3)
  have "\<exists>r c'. decode_step env n sub st c = Some (r, c') \<and> bytes_left (d_in c') \<le> bytes_left (d_in c)
      \<and> (\<forall>st'. r = Some (Some st') \<longrightarrow> bytes_left (d_in c') < bytes_left (d_in c))"
  proof (cases x)
    case None
    then show ?thesis using t decode_tag_left(1) [OF t] by (auto simp: decode_step_def)
  next
    case (Some wtag)
    obtain wt tag where wt: "wtag = (wt, tag)" by (cases wtag)
    have lt: "bytes_left s < bytes_left (d_in c)" "tag < 2 ^ 29" using decode_tag_left(2) [OF t] Some wt by simp_all
    obtain b it where f: "pb_field_iter_find (ds_iter st) (unat tag) = Some (b, it)" using find_returns [OF fs k] by blast
    obtain k1 where k1: "at_field fs dest k1 it" by (rule at_field_find [OF fs k f])
    have unk: "returns (pbind (decode_unknown env n sub tag wt (st\<lparr>ds_iter := it\<rparr>)) (\<lambda>st. pok (Some st)))"
      using decode_unknown_returns [OF assms(1) _ lt(2), of dest k1 "st\<lparr>ds_iter := it\<rparr>"] k1
      by (intro returns_pbind returns_lift shrinks_simps) simp
    have known: "\<exists>r c'. pbind (enter_fixed_count env n (st\<lparr>ds_iter := it\<rparr>)) (\<lambda>st.
          let st = st\<lparr>fields_seen := mark_required (ds_iter st) (fields_seen st)\<rparr> in
          pbind (decode_field env n sub wt (ds_iter st)) (\<lambda>it. pok (Some (st\<lparr>ds_iter := it\<rparr>)))) d = Some (r, c')
        \<and> bytes_left (d_in c') \<le> bytes_left (d_in d)" for d
    proof -
      obtain r1 c1 where 1: "enter_fixed_count env n (st\<lparr>ds_iter := it\<rparr>) d = Some (r1, c1)" "bytes_left (d_in c1) \<le> bytes_left (d_in d)"
        by (rule returnsE [OF enter_fixed_count_returns])
      show ?thesis
      proof (cases r1)
        case (Some st1)
        have "at_field fs dest k1 (ds_iter st1)"
          using enter_fixed_count_at [of fs dest k1 "st\<lparr>ds_iter := it\<rparr>" env n d st1 c1] k1 1 Some by simp
        from decode_field_returns [OF assms(1) this assms(3)]
        have "returns (pbind (decode_field env n sub wt (ds_iter st1)) (\<lambda>it. pok (Some (st1\<lparr>fields_seen := mark_required (ds_iter st1) (fields_seen st1), ds_iter := it\<rparr>))))"
          by (intro returns_pbind returns_lift shrinks_simps) simp
        then obtain r2 c2 where "pbind (decode_field env n sub wt (ds_iter st1)) (\<lambda>it. pok (Some (st1\<lparr>fields_seen := mark_required (ds_iter st1) (fields_seen st1), ds_iter := it\<rparr>))) c1
            = Some (r2, c2)" "bytes_left (d_in c2) \<le> bytes_left (d_in c1)" by (rule returnsE)
        then show ?thesis using 1 Some by (auto simp: pbind_def [of "enter_fixed_count env n (st\<lparr>ds_iter := it\<rparr>)"] Let_def)
      qed (use 1 in \<open>simp add: pbind_def\<close>)
    qed
    let ?c = "c\<lparr>d_in := s\<rparr>"
    obtain r1 c1 where 1: "pbind (decode_unknown env n sub tag wt (st\<lparr>ds_iter := it\<rparr>)) (\<lambda>st. pok (Some st)) ?c = Some (r1, c1)"
      "bytes_left (d_in c1) \<le> bytes_left (d_in ?c)" by (rule returnsE [OF unk])
    obtain r2 c2 where 2: "pbind (enter_fixed_count env n (st\<lparr>ds_iter := it\<rparr>)) (\<lambda>st.
          let st = st\<lparr>fields_seen := mark_required (ds_iter st) (fields_seen st)\<rparr> in
          pbind (decode_field env n sub wt (ds_iter st)) (\<lambda>it. pok (Some (st\<lparr>ds_iter := it\<rparr>)))) ?c = Some (r2, c2)"
      "bytes_left (d_in c2) \<le> bytes_left (d_in ?c)" using known [of ?c] by blast
    have "decode_step env n sub st c = Some (if b then (r2, c2) else (r1, c1))"
      unfolding decode_step_def t Some wt option.case prod.case Let_def f using 1(1) 2(1) [unfolded Let_def] by (cases b) simp_all
    then show ?thesis using 1(2) 2(2) lt(1) by (cases b) auto
  qed
  then obtain r c' where r: "decode_step env n sub st c = Some (r, c')" "bytes_left (d_in c') \<le> bytes_left (d_in c)"
    "\<forall>st'. r = Some (Some st') \<longrightarrow> bytes_left (d_in c') < bytes_left (d_in c)" by blast
  moreover have "\<exists>ks. marks fs dest ks st'" if "r = Some (Some st')" for st'
    using decode_step_marks [OF fs assms(2), of env n sub c st' c'] r(1) that by blast
  ultimately show thesis using that by blast
qed

lemma decode_loop_returns:
  assumes "nested env n fs" "marks fs dest ks st" "subs_return env n sub"
  shows "\<exists>r c'. decode_loop (decode_step env n sub) st c = Some (r, c') \<and> bytes_left (d_in c') \<le> bytes_left (d_in c)
    \<and> (\<forall>st'. r = Some st' \<longrightarrow> (\<exists>ks. marks fs dest ks st'))"
  using assms(2)
proof (induction "bytes_left (d_in c)" arbitrary: c st ks rule: less_induct)
  case less
  obtain r c1 where 1: "decode_step env n sub st c = Some (r, c1)" "bytes_left (d_in c1) \<le> bytes_left (d_in c)"
    "\<And>st'. r = Some (Some st') \<Longrightarrow> bytes_left (d_in c1) < bytes_left (d_in c) \<and> (\<exists>ks. marks fs dest ks st')"
    using decode_step_returns [OF assms(1) less.prems assms(3), of c] by metis
  show ?case
  proof (cases "bytes_left (d_in c) = 0")
    case True
    then show ?thesis using less.prems by (auto simp: decode_loop.simps [of _ st c] lift_def gret_def)
  next
    case False
    show ?thesis
    proof (cases "\<exists>st'. r = Some (Some st')")
      case True
      then obtain st' ks' where st': "r = Some (Some st')" "marks fs dest ks' st'" "bytes_left (d_in c1) < bytes_left (d_in c)"
        using 1(3) by blast
      from less.hyps [OF st'(3,2)] st'(3) False 1(1) st'(1) show ?thesis
        by (fastforce simp: decode_loop.simps [of _ st c])
    next
      case 2: False
      then have "r = None \<or> r = Some None" by (metis not_None_eq)
      then show ?thesis using 1(1,2) False less.prems by (auto simp: decode_loop.simps [of _ st c] lift_def gret_def)
    qed
  qed
qed

lemma noinit_step_returns:
  assumes fs: "nested env n fs" and sub: "subs_return env n (pb_dec_submessage env n (pb_decode_noinit env n))"
  shows "returns (pb_decode_noinit env (Suc n) fs dest)"
proof (rule returnsI)
  fix c
  note fs' = nestedD [OF fs]
  obtain r c1 where 1: "decode_loop (message_step env n) (message_start fs dest) (message_entry env n c) = Some (r, c1)"
    "bytes_left (d_in c1) \<le> bytes_left (d_in c)" "\<forall>st'. r = Some st' \<longrightarrow> (\<exists>ks. marks fs dest ks st')"
    using decode_loop_returns [OF fs start_marks [OF fs', of dest] sub, where c = "message_entry env n c"]
    unfolding message_step_def by (auto simp: message_entry_def)
  show "\<exists>r c'. pb_decode_noinit env (Suc n) fs dest c = Some (r, c') \<and> bytes_left (d_in c') \<le> bytes_left (d_in c)"
  proof (cases r)
    case (Some st)
    then obtain ks where ks: "marks fs dest ks st" using 1(3) by blast
    have err: "bytes_left (d_in (snd (on_in (i_error msg) c1 :: unit option \<times> 'a pb_dctx))) = bytes_left (d_in c1)" for msg
      by (simp add: on_in_def i_error_def)
    show ?thesis
      unfolding pb_decode_noinit_loop pbind_def 1(1) Some option.case prod.case
      using check_required_iff [OF fs'(1) ks, of c1] 1(2) err [of "''missing required field''"] err [of "''wrong size for fixed count field''"]
      by (cases "on_in (i_error ''missing required field'') c1 :: unit option \<times> 'a pb_dctx";
          cases "on_in (i_error ''wrong size for fixed count field'') c1 :: unit option \<times> 'a pb_dctx")
        (auto simp: lift_def)
  qed (use 1 in \<open>simp add: pb_decode_noinit_loop pbind_def del: pb_decode_noinit.simps\<close>)
qed

lemma decode_with_returns:
  assumes "nested env n fs" "\<And>dest. returns (noinit fs dest)"
  shows "returns (decode_with env n noinit fs dest)"
proof -
  have "returns (\<lambda>c. case noinit fs dest c of None \<Rightarrow> None
      | Some (None, c) \<Rightarrow> (case on_mem (pb_release env n fs dest) c of None \<Rightarrow> None | Some (_, c) \<Rightarrow> Some (None, c))
      | Some (Some _, c) \<Rightarrow> Some (Some (), c))"
  proof (rule returnsI)
    fix c
    obtain r c1 where 1: "noinit fs dest c = Some (r, c1)" "bytes_left (d_in c1) \<le> bytes_left (d_in c)"
      by (rule returnsE [OF assms(2)])
    obtain m where "pb_release env n fs dest (d_mem c1) = Some m" using release_returns [OF assms(1)] by blast
    then show "\<exists>r c'. (case noinit fs dest c of None \<Rightarrow> None
        | Some (None, c) \<Rightarrow> (case on_mem (pb_release env n fs dest) c of None \<Rightarrow> None | Some (_, c) \<Rightarrow> Some (None, c))
        | Some (Some _, c) \<Rightarrow> Some (Some (), c)) = Some (r, c') \<and> bytes_left (d_in c') \<le> bytes_left (d_in c)"
      using 1 by (cases r) (simp_all add: on_mem_def)
  qed
  then show ?thesis unfolding decode_with_def
    using defaults_return [OF assms(1)] by (intro returns_pbind returns_on_mem) auto
qed

lemma error_returns:
  "\<exists>r c'. (pb_return_error msg :: ('st, 'a) pop) c = Some (r, c') \<and> bytes_left (d_in c') = bytes_left (d_in c)"
  by (simp add: lift_def on_in_def i_error_def)

lemma noinit_returns:
  fixes env :: "'st pb_env"
  shows "nested env n fs \<Longrightarrow> returns (pb_decode_noinit env (Suc n) fs dest)"
proof (induction n arbitrary: fs dest)
  case (Suc n)
  have sub: "returns (pb_dec_submessage env (Suc n) (pb_decode_noinit env (Suc n)) f p)"
    if "nested env n (fields_at env (f_ptr f))" for f p
  proof -
    have null: "returns ((\<lambda>c. case on_in pb_make_string_substream c of (None, c) \<Rightarrow> Some (None, c)
      | (Some _, c) \<Rightarrow> pb_return_error ''invalid field descriptor'' c) :: ('st, unit) pop)"
    proof (rule returnsI)
      fix c :: "'st pb_dctx"
      obtain r c1 where 1: "on_in pb_make_string_substream c = (r, c1)" by fastforce
      obtain r2 c2 where 2: "(pb_return_error ''invalid field descriptor'' :: ('st, unit) pop) c1 = Some (r2, c2)"
        "bytes_left (d_in c2) = bytes_left (d_in c1)" using error_returns by blast
      show "\<exists>r c'. (case on_in pb_make_string_substream c of (None, c) \<Rightarrow> Some (None, c)
          | (Some _, c) \<Rightarrow> (pb_return_error ''invalid field descriptor'' :: ('st, unit) pop) c) = Some (r, c')
          \<and> bytes_left (d_in c') \<le> bytes_left (d_in c)"
      proof (cases r)
        case None
        then show ?thesis unfolding 1 using make_substream_fails [of c c1] 1 by simp
      next
        case (Some a)
        then show ?thesis unfolding 1 Some option.case prod.case 2(1) using make_substream_left [OF 1 [unfolded Some]] 2(2) by simp
      qed
    qed
    show ?thesis
      unfolding pb_dec_submessage_def [abs_def]
      using Suc.IH [OF that] decode_with_returns [where noinit = "pb_decode_noinit env (Suc n)", OF nested_mono [OF that] Suc.IH [OF that]] null
      by (intro returns_if_ctx returns_in_substream) (simp_all del: pb_decode_noinit.simps)
  qed
  then show ?case by (intro noinit_step_returns Suc.prems) (auto simp: subs_return_def)
qed simp

text \<open>C28 For static fields whose submessages are nested at most \<open>n\<close> deep, decoding returns on every input: from a buffer or through
  a callback, whatever the bytes and the memory are. With \<open>n + 1\<close> levels of calls \<open>pb_decode\<close>, \<open>pb_decode_noinit\<close> and
  \<open>pb_decode_delimited\<close> give a result, and no more bytes are left than before.\<close>

theorem decoding_returns:
  assumes "nested env n fs"
    and "decode \<in> {pb_decode env (Suc n) fs dest, pb_decode_noinit env (Suc n) fs dest, pb_decode_delimited env (Suc n) fs dest}"
  shows "\<exists>status c'. decode c = Some (status, c') \<and> bytes_left (d_in c') \<le> bytes_left (d_in c)"
proof -
  have "returns (pb_decode env (Suc n) fs dest)"
    unfolding pb_decode_def by (rule decode_with_returns [where noinit = "pb_decode_noinit env (Suc n)", OF nested_mono [OF assms(1)] noinit_returns [OF assms(1)]])
  then have "returns decode"
    using assms(2) noinit_returns [OF assms(1)] returns_in_substream unfolding pb_decode_delimited_def by blast
  then show ?thesis unfolding returns_def by blast
qed

text \<open>A message with an optional submessage at address 1 of the table.\<close>

definition nested_env :: "unit pb_env" where
  "nested_env = plain_env\<lparr>fields_at := \<lambda>p. if p = 1 then flag_fields else []\<rparr>"

definition outer_fields :: "pb_field list" where
  "outer_fields = [\<lparr>f_tag = 1, f_type = 0x18, data_offset = 1, size_offset = - 1, data_size = 1, array_size = 0, f_ptr = 1\<rparr>,
     \<lparr>f_tag = 0, f_type = 0, data_offset = 0, size_offset = 0, data_size = 0, array_size = 0, f_ptr = 0\<rparr>]"

theorem decoding_returns_witness:
  "\<exists>status c'. pb_decode nested_env 3 outer_fields 100 (dctx [0x0a, 0x7f, 0x80] 3 None (\<lambda>_. 0)) = Some (status, c')
     \<and> bytes_left (d_in c') \<le> bytes_left (d_in (dctx [0x0a, 0x7f, 0x80] 3 None (\<lambda>_. 0) :: unit pb_dctx))"
proof -
  have types: "static_type f" if "f \<in> set flag_fields \<union> set outer_fields" for f
    using that by (auto simp: flag_fields_def outer_fields_def static_type_def is_static_def PB_ATYPE_def PB_ATYPE_STATIC_def
        PB_LTYPE_def PB_LTYPE_defs)
  have ends: "terminated flag_fields" "terminated outer_fields" "1 < length flag_fields" "1 < length outer_fields"
    by (auto simp: flag_fields_def outer_fields_def terminated_def less_Suc_eq)
  have leaf: "\<forall>f \<in> set flag_fields. ltype f \<noteq> PB_LTYPE_SUBMESSAGE"
    by (simp add: flag_fields_def PB_LTYPE_def PB_LTYPE_defs)
  have ptr: "\<forall>f \<in> set outer_fields. ltype f = PB_LTYPE_SUBMESSAGE \<longrightarrow> f_ptr f = 1"
    by (simp add: outer_fields_def PB_LTYPE_def PB_LTYPE_defs)
  have inner: "nested nested_env (Suc 0) flag_fields"
    using types ends leaf by (auto simp: list_all_iff dest: in_set_butlastD)
  moreover have "fields_at nested_env 1 = flag_fields" by (simp add: nested_env_def)
  ultimately have "nested nested_env (Suc (Suc 0)) outer_fields"
    using types ends ptr unfolding nested.simps(2) [of _ "Suc 0"] by (auto simp: list_all_iff simp del: nested.simps dest: in_set_butlastD)
  from decoding_returns [OF this, of "pb_decode nested_env 3 outer_fields 100" 100] show ?thesis
    unfolding numeral_3_eq_3 by blast
qed

end
