(* ===== verification/PB_Image.thy ===== *)
theory PB_Image
  imports PB_Encode PB_Returns
begin

text \<open>
  What \<open>pb_encode\<close> writes. The image of a message is a function of the memory alone, without streams;
  on a stream that only counts and on a buffer \<open>pb_encode\<close> does what writing the image in one piece would do, so that the
  two passes over a submessage agree.
\<close>

section \<open>Operations that write a byte string\<close>

abbreviation wbuf :: "bytes \<Rightarrow> nat \<Rightarrow> nat \<Rightarrow> nat \<Rightarrow> string option \<Rightarrow> 'st pb_ostream" where
  "wbuf buf pos mx w e \<equiv> \<lparr>o_sink = Buf_write buf pos, max_size = mx, bytes_written = w, o_errmsg = e\<rparr>"

text \<open>A buffer with room for what may still be written.\<close>

definition roomy :: "bytes \<Rightarrow> nat \<Rightarrow> nat \<Rightarrow> nat \<Rightarrow> bool" where
  "roomy buf pos mx w \<longleftrightarrow> w \<le> mx \<and> mx < size_mod \<and> pos + (mx - w) \<le> length buf"

definition emits :: "('st, unit) eop \<Rightarrow> bytes \<Rightarrow> bool" where
  "emits p bs \<longleftrightarrow> length bs < size_mod \<longrightarrow>
     (\<forall>s. o_sink s = Null_sink \<and> bytes_written s + length bs < size_mod \<longrightarrow>
        p s = Some (Some (), s\<lparr>bytes_written := bytes_written s + length bs\<rparr>))
     \<and> (\<forall>buf pos mx w e. roomy buf pos mx w \<and> w + length bs < size_mod \<longrightarrow>
        (if w + length bs \<le> mx
         then \<exists>e'. p (wbuf buf pos mx w e) = Some (Some (), wbuf (put_bytes pos bs buf) (pos + length bs) mx (w + length bs) e')
         else \<exists>s'. p (wbuf buf pos mx w e) = Some (None, s')))"

named_theorems emitting

lemma emits_pb_write [emitting]: "emits (elift (pb_write bs)) bs"
  unfolding emits_def
proof (intro impI conjI allI)
  fix s :: "'a pb_ostream"
  assume "length bs < size_mod" "o_sink s = Null_sink \<and> bytes_written s + length bs < size_mod"
  then show "elift (pb_write bs) s = Some (Some (), s\<lparr>bytes_written := bytes_written s + length bs\<rparr>)"
    by (simp add: elift_def pb_write_def size_add_exact)
next
  fix buf pos mx w e assume len: "length bs < size_mod" and room': "roomy buf pos mx w \<and> w + length bs < size_mod"
  then have room: "roomy buf pos mx w" by simp
  have lim: "size_add w (length bs) < w \<or> size_add w (length bs) > mx \<longleftrightarrow> mx < w + length bs"
    using room len by (intro size_add_limit) (simp_all add: roomy_def)
  show "if w + length bs \<le> mx
      then \<exists>e'. elift (pb_write bs) (wbuf buf pos mx w e) = Some (Some (), wbuf (put_bytes pos bs buf) (pos + length bs) mx (w + length bs) e')
      else \<exists>s'. elift (pb_write bs) (wbuf buf pos mx w e :: 'a pb_ostream) = Some (None, s')"
  proof (cases "w + length bs \<le> mx")
    case True
    then have "size_add w (length bs) = w + length bs" using room by (intro size_add_exact) (simp add: roomy_def)
    with True lim show ?thesis
      by (auto simp: elift_def pb_write_def o_call_def buf_write_def)
  next
    case False
    then have "0 < length bs" using room by (cases bs) (simp_all add: roomy_def)
    with False lim show ?thesis by (auto simp: elift_def pb_write_def o_error_def)
  qed
qed

lemma emits_nothing [emitting]: "emits (elift (gret ())) []"
  by (auto simp: emits_def elift_def gret_def roomy_def)

lemma emits_ebind [emitting]:
  assumes "emits p a" "emits q b"
  shows "emits (ebind p (\<lambda>_. q)) (a @ b)"
  unfolding emits_def
proof (intro impI conjI allI)
  fix s :: "'a pb_ostream"
  assume len: "length (a @ b) < size_mod" and s: "o_sink s = Null_sink \<and> bytes_written s + length (a @ b) < size_mod"
  have "p s = Some (Some (), s\<lparr>bytes_written := bytes_written s + length a\<rparr>)"
    using assms(1) len s unfolding emits_def by simp
  moreover have "q (s\<lparr>bytes_written := bytes_written s + length a\<rparr>) = Some (Some (), s\<lparr>bytes_written := bytes_written s + length a + length b\<rparr>)"
    using assms(2) len s unfolding emits_def by (simp add: add.assoc)
  ultimately show "ebind p (\<lambda>_. q) s = Some (Some (), s\<lparr>bytes_written := bytes_written s + length (a @ b)\<rparr>)"
    by (simp add: ebind_def add.assoc)
next
  fix buf pos mx w e assume len: "length (a @ b) < size_mod" and room': "roomy buf pos mx w \<and> w + length (a @ b) < size_mod"
  then have room: "roomy buf pos mx w" by simp
  have p: "if w + length a \<le> mx
      then \<exists>e'. p (wbuf buf pos mx w e) = Some (Some (), wbuf (put_bytes pos a buf) (pos + length a) mx (w + length a) e')
      else \<exists>s'. p (wbuf buf pos mx w e) = Some (None, s')"
    using assms(1) len room' unfolding emits_def by simp
  show "if w + length (a @ b) \<le> mx
      then \<exists>e'. ebind p (\<lambda>_. q) (wbuf buf pos mx w e) = Some (Some (), wbuf (put_bytes pos (a @ b) buf) (pos + length (a @ b)) mx (w + length (a @ b)) e')
      else \<exists>s'. ebind p (\<lambda>_. q) (wbuf buf pos mx w e) = Some (None, s')"
  proof (cases "w + length a \<le> mx")
    case True
    then obtain e' where e': "p (wbuf buf pos mx w e) = Some (Some (), wbuf (put_bytes pos a buf) (pos + length a) mx (w + length a) e')"
      using p by auto
    have fit: "pos + length a \<le> length buf" using True room unfolding roomy_def by linarith
    then have "roomy (put_bytes pos a buf) (pos + length a) mx (w + length a)" using True room by (simp add: roomy_def)
    then have "if w + length a + length b \<le> mx
      then \<exists>e''. q (wbuf (put_bytes pos a buf) (pos + length a) mx (w + length a) e')
        = Some (Some (), wbuf (put_bytes (pos + length a) b (put_bytes pos a buf)) (pos + length a + length b) mx (w + length a + length b) e'')
      else \<exists>s'. q (wbuf (put_bytes pos a buf) (pos + length a) mx (w + length a) e') = Some (None, s')"
      using assms(2) len room' unfolding emits_def by simp
    then show ?thesis unfolding put_bytes_twice [OF fit]
      by (auto simp: ebind_def e' add.assoc split: if_splits)
  next
    case False
    with p show ?thesis by (auto simp: ebind_def)
  qed
qed

lemma emits_gbind [emitting]:
  "emits (elift p) a \<Longrightarrow> emits (elift q) b \<Longrightarrow> emits (elift (gbind p (\<lambda>_. q))) (a @ b)"
proof -
  assume "emits (elift p) a" "emits (elift q) b"
  moreover have "elift (gbind p (\<lambda>_. q)) = ebind (elift p) (\<lambda>_. elift q)"
    by (auto simp: fun_eq_iff elift_def ebind_def gbind_def split: option.splits prod.splits)
  ultimately show ?thesis using emits_ebind by simp
qed

lemma emits_string [emitting]: "emits (elift (pb_encode_string bs)) (string_bytes bs)"
  unfolding pb_encode_string_def string_bytes_def pb_encode_varint_write by (intro emitting)

text \<open>Both passes over a submessage.\<close>

lemma emits_submessage:
  assumes "emits p bs"
  shows "emits (encode_submessage_with p) (string_bytes bs)"
proof (cases "length bs < size_mod")
  case False
  then show ?thesis by (simp add: emits_def string_bytes_def)
next
  case True
  have sizing: "p PB_OSTREAM_SIZING = Some (Some (), PB_OSTREAM_SIZING\<lparr>bytes_written := length bs\<rparr>)"
    using assms True unfolding emits_def by (simp add: PB_OSTREAM_SIZING_def)
  define rest where "rest = (\<lambda>s :: 'a pb_ostream.
     if o_sink s = Null_sink then elift (pb_write_null (length bs)) s
     else if size_add (bytes_written s) (length bs) > max_size s then elift (o_error ''stream full'') s
     else case p \<lparr>o_sink = o_sink s, max_size = length bs, bytes_written = 0, o_errmsg = None\<rparr> of
       None \<Rightarrow> None
     | Some (status, sub) \<Rightarrow>
         let s = s\<lparr>bytes_written := size_add (bytes_written s) (bytes_written sub), o_sink := o_sink sub, o_errmsg := o_errmsg sub\<rparr> in
         if bytes_written sub \<noteq> length bs then elift (o_error ''submsg size changed'') s else Some (status, s))"
  have "emits rest bs"
    unfolding emits_def
  proof (intro impI conjI allI)
    fix s :: "'a pb_ostream" assume "o_sink s = Null_sink \<and> bytes_written s + length bs < size_mod"
    then show "rest s = Some (Some (), s\<lparr>bytes_written := bytes_written s + length bs\<rparr>)"
      by (simp add: rest_def elift_def pb_write_null_def size_add_exact)
  next
    fix buf pos mx w e assume room': "roomy buf pos mx w \<and> w + length bs < size_mod"
    then have room: "roomy buf pos mx w" by simp
    have lim: "size_add w (length bs) < w \<or> size_add w (length bs) > mx \<longleftrightarrow> mx < w + length bs"
      using room True by (intro size_add_limit) (simp_all add: roomy_def)
    show "if w + length bs \<le> mx
      then \<exists>e'. rest (wbuf buf pos mx w e) = Some (Some (), wbuf (put_bytes pos bs buf) (pos + length bs) mx (w + length bs) e')
      else \<exists>s'. rest (wbuf buf pos mx w e) = Some (None, s')"
    proof (cases "w + length bs \<le> mx")
      case fits: True
      then have add: "size_add w (length bs) = w + length bs" using room by (intro size_add_exact) (simp add: roomy_def)
      have "pos + length bs \<le> length buf" using fits room unfolding roomy_def by linarith
      then have "roomy buf pos (length bs) 0" using True by (simp add: roomy_def)
      then obtain e' where "p (wbuf buf pos (length bs) 0 None) = Some (Some (), wbuf (put_bytes pos bs buf) (pos + length bs) (length bs) (length bs) e')"
        using assms True unfolding emits_def by fastforce
      then show ?thesis using fits add by (auto simp: rest_def)
    next
      case False
      then show ?thesis using room' by (auto simp: rest_def elift_def o_error_def size_add_exact)
    qed
  qed
  then have "emits (ebind (elift (pb_write (varint_bytes (of_nat (length bs))))) (\<lambda>_. rest)) (varint_bytes (of_nat (length bs)) @ bs)"
    by (intro emitting)
  moreover have bw: "bytes_written (PB_OSTREAM_SIZING\<lparr>bytes_written := length bs\<rparr>) = length bs" by simp
  moreover have "encode_submessage_with p = ebind (elift (pb_write (varint_bytes (of_nat (length bs))))) (\<lambda>_. rest)"
    unfolding encode_submessage_with_def sizing rest_def option.case prod.case Let_def bw pb_encode_varint_write
    by (rule refl)
  ultimately show ?thesis by (simp add: string_bytes_def)
qed

text \<open>
  An operation that writes \<open>v\<close>, and fails wherever \<open>v\<close> is not defined. It always returns.
\<close>

definition writes :: "('st, unit) eop \<Rightarrow> bytes option \<Rightarrow> bool" where
  "writes p v \<longleftrightarrow> (\<forall>s. p s \<noteq> None) \<and> (case v of None \<Rightarrow> \<forall>s. \<exists>s'. p s = Some (None, s') | Some bs \<Rightarrow> emits p bs)"

named_theorems writing

text \<open>The concatenation of images, if all of them exist.\<close>

fun cat :: "bytes option list \<Rightarrow> bytes option" where
  "cat [] = Some []"
| "cat (None # xs) = None"
| "cat (Some a # xs) = map_option (\<lambda>b. a @ b) (cat xs)"

lemma writes_elift [writing]: "emits (elift p) bs \<Longrightarrow> writes (elift p) (Some bs)"
  by (simp add: writes_def elift_def)

lemma writes_error [writing]: "writes (elift (o_error msg)) None"
  by (simp add: writes_def elift_def o_error_def)

lemma writes_ebind [writing]:
  assumes "writes p v" "writes q (cat vs)"
  shows "writes (ebind p (\<lambda>_. q)) (cat (v # vs))"
proof -
  have returns: "ebind p (\<lambda>_. q) s \<noteq> None" for s
    using assms unfolding writes_def ebind_def by (auto split: option.splits)
  show ?thesis
  proof (cases v)
    case None
    then have none: "\<exists>s'. p s = Some (None, s')" for s using assms(1) by (simp add: writes_def)
    have "\<exists>s'. ebind p (\<lambda>_. q) s = Some (None, s')" for s using none [of s] by (auto simp: ebind_def)
    with returns None show ?thesis by (simp add: writes_def)
  next
    case (Some a)
    show ?thesis
    proof (cases "cat vs")
      case None
      then have "\<exists>s'. q s = Some (None, s')" for s using assms(2) by (simp add: writes_def)
      then have "\<exists>s'. ebind p (\<lambda>_. q) s = Some (None, s')" for s
        using assms(1) unfolding writes_def ebind_def by (auto split: option.splits)
      with returns None Some show ?thesis by (simp add: writes_def)
    next
      case (Some b)
      then show ?thesis using assms returns \<open>v = Some a\<close> emits_ebind [of p a q b] by (simp add: writes_def)
    qed
  qed
qed

lemma ebind_assoc: "ebind p (\<lambda>_. ebind q (\<lambda>_. r)) = ebind (ebind p (\<lambda>_. q)) (\<lambda>_. r)"
  by (auto simp: fun_eq_iff ebind_def split: option.splits prod.splits)

lemma writes_submessage [writing]:
  assumes "writes p v"
  shows "writes (encode_submessage_with p) (map_option string_bytes v)"
proof (cases v)
  case None
  then have "\<exists>s'. p PB_OSTREAM_SIZING = Some (None, s')" using assms by (simp add: writes_def)
  then have "\<exists>s'. encode_submessage_with p s = Some (None, s')" for s by (auto simp: encode_submessage_with_def)
  then show ?thesis using None by (simp add: writes_def) (metis option.distinct(1))
next
  case (Some bs)
  have p: "p s \<noteq> None" for s using assms by (simp add: writes_def)
  have "encode_submessage_with p s \<noteq> None" for s
    unfolding encode_submessage_with_def Let_def ebind_def elift_def
    by (auto simp: p split: option.splits prod.splits)
  then show ?thesis using assms Some emits_submessage [of p bs] by (simp add: writes_def)
qed

section \<open>The image of a message\<close>

text \<open>
  Fields that are required, optional or repeated, with the sizes that the generator gives their types. A submessage of
  \<open>f\<close> has its descriptors at \<open>f_ptr f\<close>.
\<close>

definition well_sized :: "pb_field \<Rightarrow> bool" where
  "well_sized f \<longleftrightarrow>
     (if ltype f = PB_LTYPE_BOOL then data_size f = 1
      else if ltype f \<in> {PB_LTYPE_VARINT, PB_LTYPE_UVARINT, PB_LTYPE_SVARINT} then data_size f \<in> {1, 2, 4, 8}
      else if ltype f = PB_LTYPE_FIXED32 then data_size f = 4
      else if ltype f = PB_LTYPE_FIXED64 then data_size f = 8
      else if ltype f = PB_LTYPE_BYTES then 4 \<le> data_size f
      else if ltype f = PB_LTYPE_SUBMESSAGE then f_ptr f \<noteq> 0
      else 1 \<le> data_size f)"

definition plain_field :: "pb_field \<Rightarrow> bool" where
  "plain_field f \<longleftrightarrow> static_type f \<and> htype f \<in> {PB_HTYPE_REQUIRED, PB_HTYPE_OPTIONAL, PB_HTYPE_REPEATED} \<and> well_sized f
     \<and> 0 < f_tag f \<and> f_tag f < 2 ^ 29 \<and> data_size f < PB_SIZE_MAX \<and> (htype f = PB_HTYPE_REPEATED \<longrightarrow> 0 < array_size f)"

definition value_image :: "pb_field \<Rightarrow> mem \<Rightarrow> nat \<Rightarrow> bytes option" where
  "value_image f m p =
     (if ltype f = PB_LTYPE_BOOL then Some [of_bool (m p \<noteq> 0)]
      else if ltype f = PB_LTYPE_VARINT then Some (signed_image (mem_read m p (data_size f)))
      else if ltype f = PB_LTYPE_UVARINT then Some (unsigned_image (mem_read m p (data_size f)))
      else if ltype f = PB_LTYPE_SVARINT then Some (zigzag_image (mem_read m p (data_size f)))
      else if ltype f = PB_LTYPE_FIXED32 then Some (mem_read m p 4)
      else if ltype f = PB_LTYPE_FIXED64 then Some (mem_read m p 8)
      else if ltype f = PB_LTYPE_BYTES then
        if size_at m p \<le> data_size f - 4 then Some (string_bytes (mem_read m (p + 4) (size_at m p))) else None
      else if ltype f = PB_LTYPE_STRING then Some (string_bytes (mem_read m p (strlen_loop (data_size f) m p)))
      else Some (string_bytes (mem_read m p (data_size f))))"

definition tagged :: "pb_field \<Rightarrow> bytes \<Rightarrow> bytes" where
  "tagged f bs = tag_bytes (wire_type_of (ltype f)) (f_tag f) @ bs"

definition item_image :: "(nat \<Rightarrow> nat \<Rightarrow> bytes option) \<Rightarrow> pb_field \<Rightarrow> mem \<Rightarrow> nat \<Rightarrow> bytes option" where
  "item_image sub f m p =
     (if ltype f = PB_LTYPE_SUBMESSAGE then map_option string_bytes (sub (f_ptr f) p) else value_image f m p)"

text \<open>A singular field of proto3 is left out if it is zero, and a submessage if all its fields are left out.\<close>

definition zero_value :: "pb_field \<Rightarrow> mem \<Rightarrow> nat \<Rightarrow> bool" where
  "zero_value f m p \<longleftrightarrow>
     (if ltype f = PB_LTYPE_BYTES then size_at m p = 0
      else if ltype f = PB_LTYPE_STRING then m p = 0
      else if ltype f = PB_LTYPE_FIXED_LENGTH_BYTES then data_size f = 0
      else is_zero m p (data_size f))"

definition left_out :: "(nat \<Rightarrow> nat \<Rightarrow> bytes option) \<Rightarrow> pb_field \<Rightarrow> mem \<Rightarrow> nat \<Rightarrow> bool" where
  "left_out sub f m p \<longleftrightarrow> htype f = PB_HTYPE_OPTIONAL \<and>
     (if size_offset f \<noteq> 0 then m (size_addr p f) = 0
      else if ltype f = PB_LTYPE_SUBMESSAGE then sub (f_ptr f) p = Some []
      else zero_value f m p)"

definition item_count :: "pb_field \<Rightarrow> mem \<Rightarrow> nat \<Rightarrow> nat" where
  "item_count f m p = (if size_offset f \<noteq> 0 then size_at m (size_addr p f) else array_size f)"

definition field_image :: "(nat \<Rightarrow> nat \<Rightarrow> bytes option) \<Rightarrow> pb_field \<Rightarrow> mem \<Rightarrow> nat \<Rightarrow> bytes option" where
  "field_image sub f m p =
     (if htype f = PB_HTYPE_REPEATED then
        let cnt = item_count f m p; items = map (\<lambda>i. item_image sub f m (p + data_size f * i)) [0..<cnt] in
        if cnt = 0 then Some []
        else if cnt > array_size f then None
        else if ltype f \<le> PB_LTYPE_LAST_PACKABLE
        then map_option (\<lambda>bs. tag_bytes 2 (f_tag f) @ string_bytes bs) (cat items)
        else cat (map (map_option (tagged f)) items)
      else if left_out sub f m p then Some []
      else map_option (tagged f) (item_image sub f m p))"

text \<open>The addresses of the fields relative to the message.\<close>

fun field_offset :: "pb_field list \<Rightarrow> nat \<Rightarrow> nat" where
  "field_offset fs 0 = data_offset (fs ! 0)"
| "field_offset fs (Suc k) = (if same_union (fs ! k) (fs ! Suc k) then field_offset fs k
     else field_offset fs k + field_space (fs ! k) + data_offset (fs ! Suc k))"

fun message_image :: "'st pb_env \<Rightarrow> nat \<Rightarrow> mem \<Rightarrow> nat \<Rightarrow> nat \<Rightarrow> bytes option" where
  "message_image env 0 m fp src = None"
| "message_image env (Suc n) m fp src =
     (let fs = fields_at env fp in
      cat (map (\<lambda>k. field_image (message_image env n m) (fs ! k) m (src + field_offset fs k)) [0..<length fs - 1]))"

text \<open>All levels of a message are plain.\<close>

fun plain_message :: "'st pb_env \<Rightarrow> nat \<Rightarrow> nat \<Rightarrow> bool" where
  "plain_message env 0 fp \<longleftrightarrow> False"
| "plain_message env (Suc n) fp \<longleftrightarrow>
     (let fs = fields_at env fp in terminated fs \<and> 1 < length fs \<and> list_all plain_field (butlast fs)
        \<and> list_all (\<lambda>f. ltype f = PB_LTYPE_SUBMESSAGE \<longrightarrow> plain_message env n (f_ptr f)) (butlast fs))"

lemma plain_messageD:
  assumes "plain_message env n fp"
  shows "terminated (fields_at env fp)" "1 < length (fields_at env fp)"
  using assms by (cases n; simp add: Let_def)+

lemma plain_message_field:
  assumes "plain_message env (Suc n) fp" "k < length (fields_at env fp) - 1"
  shows "plain_field (fields_at env fp ! k)"
    and "ltype (fields_at env fp ! k) = PB_LTYPE_SUBMESSAGE \<Longrightarrow> plain_message env n (f_ptr (fields_at env fp ! k))"
proof -
  have k: "k < length (butlast (fields_at env fp))" "fields_at env fp ! k = butlast (fields_at env fp) ! k"
    using assms(2) by (simp_all add: nth_butlast)
  show "plain_field (fields_at env fp ! k)"
    "ltype (fields_at env fp ! k) = PB_LTYPE_SUBMESSAGE \<Longrightarrow> plain_message env n (f_ptr (fields_at env fp ! k))"
    using assms(1) k by (simp_all add: list_all_length Let_def)
qed

lemma plain_nested: "plain_message env n fp \<Longrightarrow> nested env n (fields_at env fp)"
proof (induction n arbitrary: fp)
  case (Suc n)
  then show ?case by (auto simp: Let_def list_all_iff plain_field_def)
qed simp

lemma plain_mono: "plain_message env n fp \<Longrightarrow> plain_message env (Suc n) fp"
proof (induction n arbitrary: fp)
  case (Suc n)
  then show ?case unfolding plain_message.simps(2) [of env "Suc n"] plain_message.simps(2) [of env n]
    by (auto simp: list_all_iff Let_def)
qed simp

lemma ltype_cases:
  assumes "plain_field f"
  shows "ltype f \<in> {PB_LTYPE_BOOL, PB_LTYPE_VARINT, PB_LTYPE_UVARINT, PB_LTYPE_SVARINT, PB_LTYPE_FIXED32, PB_LTYPE_FIXED64,
    PB_LTYPE_BYTES, PB_LTYPE_STRING, PB_LTYPE_SUBMESSAGE, PB_LTYPE_FIXED_LENGTH_BYTES}"
proof -
  have small: "l \<in> {0, 1, 2, 3, 4, 5, 6, 7, 8}" if "l \<le> 8" for l :: u8
  proof -
    have "unat l \<le> 8" using that by (simp add: word_le_nat_alt)
    then have "unat l \<in> {0, 1, 2, 3, 4, 5, 6, 7, 8}" by auto
    then show ?thesis by (auto intro: word_eq_unatI)
  qed
  show ?thesis using assms small [of "ltype f"] by (auto simp: plain_field_def static_type_def PB_LTYPE_defs)
qed

lemma packable_iff:
  assumes "plain_field f"
  shows "ltype f \<le> PB_LTYPE_LAST_PACKABLE \<longleftrightarrow> ltype f \<in> {PB_LTYPE_BOOL, PB_LTYPE_VARINT, PB_LTYPE_UVARINT, PB_LTYPE_SVARINT,
    PB_LTYPE_FIXED32, PB_LTYPE_FIXED64}"
  using ltype_cases [OF assms] by (auto simp: PB_LTYPE_defs PB_LTYPE_LAST_PACKABLE_def word_le_nat_alt)

lemma iter_at_addresses:
  assumes "terminated fs" "dest \<noteq> 0" "k < length fs - 1" "\<forall>f \<in> set (butlast fs). htype f \<noteq> PB_HTYPE_ONEOF"
  shows "pData (iter_at fs dest k) = dest + field_offset fs k
    \<and> pSize (iter_at fs dest k) = size_addr (dest + field_offset fs k) (fs ! k)"
  using assms(3)
proof (induction k)
  case 0
  show ?case using assms(2) by (simp add: iter_at_0 pb_field_iter_begin_def Let_def size_addr_def)
next
  case (Suc k)
  have inv: "iter_start (iter_at fs dest k) = fs" "iter_pos (iter_at fs dest k) = k"
    using iter_at_inv [OF assms(1), of k dest] Suc.prems by simp_all
  have no: "\<not> same_union (fs ! k) (fs ! Suc k)"
    using assms(4) nth_mem [of k "butlast fs"] Suc.prems by (auto simp: same_union_def nth_butlast)
  have "pb_field_iter_next (iter_at fs dest k) = (True, iter_at fs dest (Suc k))"
    using iter_at_next [OF assms(1), of k dest] Suc.prems by simp
  with next_step [OF assms(1) inv(1)] Suc.prems Suc.IH no show ?case unfolding inv(2) by (auto simp: add.assoc)
qed

lemma plain_addresses:
  assumes "plain_message env n fp" "src \<noteq> 0" "k < length (fields_at env fp) - 1"
  shows "pData (iter_at (fields_at env fp) src k) = src + field_offset (fields_at env fp) k"
    and "pSize (iter_at (fields_at env fp) src k) = size_addr (src + field_offset (fields_at env fp) k) (fields_at env fp ! k)"
    and "cur_field (iter_at (fields_at env fp) src k) = fields_at env fp ! k"
proof -
  obtain n' where n: "n = Suc n'" using assms(1) by (cases n) simp_all
  have "htype f \<noteq> PB_HTYPE_ONEOF" if "f \<in> set (butlast (fields_at env fp))" for f
    using that assms(1) by (auto simp: n Let_def list_all_iff plain_field_def PB_HTYPE_ONEOF_def PB_HTYPE_REQUIRED_def
        PB_HTYPE_OPTIONAL_def PB_HTYPE_REPEATED_def)
  then show "pData (iter_at (fields_at env fp) src k) = src + field_offset (fields_at env fp) k"
    "pSize (iter_at (fields_at env fp) src k) = size_addr (src + field_offset (fields_at env fp) k) (fields_at env fp ! k)"
    using iter_at_addresses [OF plain_messageD(1) [OF assms(1)] assms(2,3)] by auto
  show "cur_field (iter_at (fields_at env fp) src k) = fields_at env fp ! k"
    using iter_at_inv [OF plain_messageD(1) [OF assms(1)] assms(3)] by (simp add: cur_field_def)
qed

section \<open>Writing the values\<close>

lemma tag_nonempty: "tag_bytes w t \<noteq> []"
  using length_varint by (simp add: tag_bytes_def)

lemma emits_tag:
  assumes "plain_field f"
  shows "emits (elift (pb_encode_tag_for_field f)) (tag_bytes (wire_type_of (ltype f)) (f_tag f))"
proof -
  have t: "f_tag f < 2 ^ 29" using assms by (simp add: plain_field_def)
  have "pb_encode_tag_for_field f = (pb_write (tag_bytes (wire_type_of (ltype f)) (f_tag f)) :: ('a, unit) oop)"
    using ltype_cases [OF assms] pb_encode_tag_write [OF t, of 0] pb_encode_tag_write [OF t, of 1]
      pb_encode_tag_write [OF t, of 2] pb_encode_tag_write [OF t, of 5]
    by (auto simp: pb_encode_tag_for_field_def wire_type_of_def PB_WT_defs PB_LTYPE_defs)
  then show ?thesis using emits_pb_write by simp
qed

lemma extends: "n \<in> {1, 2, 4, 8} \<Longrightarrow> \<exists>v. sign_extend n x = Some v" "n \<in> {1, 2, 4, 8} \<Longrightarrow> \<exists>v. zero_extend n x = Some v"
  by (auto simp: sign_extend_def zero_extend_def)

lemma bytes_limit:
  assumes "plain_field f" "ltype f = PB_LTYPE_BYTES"
  shows "size_add (data_size f) (size_mod - BYTES_OFFSET) = data_size f - 4"
proof -
  have d: "4 \<le> data_size f" "data_size f < 2 ^ 32" using assms
    by (simp_all add: well_sized_def PB_LTYPE_defs plain_field_def PB_SIZE_MAX_def)
  then have "data_size f + (size_mod - 4) = (data_size f - 4) + size_mod" by (simp add: size_mod_def)
  moreover have "data_size f - 4 < size_mod" using d by (simp add: size_mod_def)
  ultimately show ?thesis by (simp add: size_add_def BYTES_OFFSET_def)
qed

lemma emits_value:
  assumes f: "plain_field f" "ltype f \<noteq> PB_LTYPE_SUBMESSAGE" and p: "p \<noteq> 0" and v: "value_image f m p = Some v"
  shows "emits (elift (value_encoder f m p) :: (unit, unit) eop) v"
proof -
  have static: "PB_ATYPE (f_type f) = PB_ATYPE_STATIC" "PB_ATYPE (f_type f) \<noteq> PB_ATYPE_POINTER"
    using f(1) static_type_simps by (auto simp: plain_field_def is_static_def is_pointer_def)
  have sized: "well_sized f" using f(1) by (simp add: plain_field_def)
  show ?thesis
  proof (cases "ltype f = PB_LTYPE_STRING \<or> ltype f = PB_LTYPE_BYTES \<or> ltype f = PB_LTYPE_FIXED_LENGTH_BYTES")
    case True
    note four = bytes_limit [OF f(1)]
    from True v p static sized four show ?thesis
      by (auto simp: value_encoder_def value_image_def PB_LTYPE_defs pb_enc_string_def pb_enc_bytes_def pb_enc_fixed_length_bytes_def
          Let_def BYTES_OFFSET_def intro!: emits_string split: if_splits)
  next
    case False
    have bool: "pb_enc_bool f m p = pb_write [of_bool (m p \<noteq> 0)]"
      by (simp add: pb_enc_bool_def safe_read_bool_def pb_encode_varint_write varint_0_1)
    have "value_encoder f m p = (pb_write v :: (unit, unit) oop)"
      using False v ltype_cases [OF f(1)] f(2) sized bool varint_field.enc_image [where f = f and m = m and src = p] uvarint_field.enc_image [where f = f and m = m and src = p]
        svarint_field.enc_image [where f = f and m = m and src = p] fixed32_field.enc_image [where f = f and m = m and src = p]
        fixed64_field.enc_image [where f = f and m = m and src = p]
      by (auto simp: value_encoder_def value_image_def well_sized_def PB_LTYPE_defs)
    then show ?thesis using emits_pb_write by simp
  qed
qed

lemma writes_value [writing]:
  assumes f: "plain_field f" "ltype f \<noteq> PB_LTYPE_SUBMESSAGE" and p: "p \<noteq> 0"
  shows "writes (elift (value_encoder f m p) :: (unit, unit) eop) (value_image f m p)"
proof (cases "value_image f m p")
  case (Some v)
  then show ?thesis using writes_elift [OF emits_value [OF f p Some]] by simp
next
  case None
  then have b: "ltype f = PB_LTYPE_BYTES" "\<not> size_at m p \<le> data_size f - 4"
    by (auto simp: value_image_def split: if_splits)
  have "PB_ATYPE (f_type f) = PB_ATYPE_STATIC" using f(1) static_type_simps by (auto simp: plain_field_def is_static_def)
  then have "value_encoder f m p = (o_error ''bytes size exceeded'' :: (unit, unit) oop)"
    using b p bytes_limit [OF f(1) b(1)] by (simp add: value_encoder_def pb_enc_bytes_def PB_LTYPE_defs)
  then show ?thesis using None writes_error by simp
qed

lemma writes_tag: "plain_field f \<Longrightarrow> writes (elift (pb_encode_tag_for_field f)) (Some (tag_bytes (wire_type_of (ltype f)) (f_tag f)))"
  by (intro writing emits_tag)

text \<open>\<open>PB_ENCODERS\<close>, with an encoder of submessages that writes the images that \<open>sub\<close> gives.\<close>

definition sub_writes :: "(pb_field \<Rightarrow> nat \<Rightarrow> (unit, unit) eop) \<Rightarrow> (nat \<Rightarrow> nat \<Rightarrow> bytes option) \<Rightarrow> pb_field \<Rightarrow> bool" where
  "sub_writes submessage sub f \<longleftrightarrow>
     (ltype f = PB_LTYPE_SUBMESSAGE \<longrightarrow> (\<forall>p. p \<noteq> 0 \<longrightarrow> writes (submessage f p) (map_option string_bytes (sub (f_ptr f) p))))"

lemma value_encoder_exists: "plain_field f \<Longrightarrow> has_value_encoder f \<longleftrightarrow> ltype f \<noteq> PB_LTYPE_SUBMESSAGE"
  using ltype_cases [of f] by (auto simp: has_value_encoder_def PB_LTYPE_defs word_le_nat_alt)

lemma writes_item:
  assumes "plain_field f" "p \<noteq> 0" "sub_writes submessage sub f"
  shows "writes (PB_ENCODERS submessage m f p) (item_image sub f m p)"
  using writes_value [OF assms(1) _ assms(2), of m] value_encoder_exists [OF assms(1)] assms(2,3)
  by (auto simp: PB_ENCODERS_def item_image_def sub_writes_def)

lemma writes_tagged:
  assumes "plain_field f" "writes p v"
  shows "writes (ebind (elift (pb_encode_tag_for_field f)) (\<lambda>_. p)) (map_option (tagged f) v)"
proof -
  have "cat [v] = v" by (cases v) simp_all
  from writes_ebind [OF writes_tag [OF assms(1)], of p "[v]", unfolded this, OF assms(2)]
  show ?thesis by (cases v) (simp_all add: tagged_def)
qed

section \<open>Arrays\<close>

lemma cat_Some: "cat xs = Some bs \<longleftrightarrow> (\<exists>yss. xs = map Some yss \<and> bs = concat yss)"
proof (induction xs arbitrary: bs rule: cat.induct)
  case (3 a xs)
  have "cat (Some a # xs) = Some bs \<longleftrightarrow> (\<exists>zss. xs = map Some zss \<and> bs = concat (a # zss))"
    using 3 by auto
  also have "\<dots> \<longleftrightarrow> (\<exists>yss. Some a # xs = map Some yss \<and> bs = concat yss)"
    unfolding Cons_eq_map_conv by fastforce
  finally show ?case .
qed auto

lemma elift_gbind: "elift (gbind p (\<lambda>_. q)) = ebind (elift p) (\<lambda>_. elift q)"
  by (auto simp: fun_eq_iff elift_def ebind_def gbind_def split: option.splits prod.splits)

lemma upt_shift: "map g [0..<Suc n] = g 0 # map (\<lambda>i. g (Suc i)) [0..<n]"
  unfolding upt_conv_Cons [OF zero_less_Suc] list.map map_Suc_upt [symmetric] map_map comp_def by (rule refl)

lemma writes_item_loop:
  assumes "\<And>i. i < cnt \<Longrightarrow> writes (elift (func (p + step * i))) (g i)"
  shows "writes (elift (item_loop func step cnt p)) (cat (map g [0..<cnt]))"
  using assms
proof (induction cnt arbitrary: p g)
  case 0
  then show ?case using writes_elift [OF emits_nothing] by simp
next
  case (Suc cnt)
  have "writes (elift (func (p + step + step * i))) (g (Suc i))" if "i < cnt" for i
    using Suc.prems [of "Suc i"] that by (simp add: add.assoc)
  note rest = Suc.IH [of "p + step" "\<lambda>i. g (Suc i)", OF this]
  have "writes (elift (func p)) (g 0)" using Suc.prems [of 0] by simp
  from writes_ebind [OF this rest] show ?case unfolding upt_shift item_loop.simps elift_gbind .
qed

lemma writes_submessage_loop:
  assumes f: "plain_field f" and "\<And>i. i < cnt \<Longrightarrow> writes (func (p + data_size f * i)) (g i)"
  shows "writes (submessage_loop func f cnt p) (cat (map (\<lambda>i. map_option (tagged f) (g i)) [0..<cnt]))"
  using assms(2)
proof (induction cnt arbitrary: p g)
  case 0
  then show ?case using writes_elift [OF emits_nothing] by simp
next
  case (Suc cnt)
  have "writes (func (p + data_size f + data_size f * i)) (g (Suc i))" if "i < cnt" for i
    using Suc.prems [of "Suc i"] that by (simp add: add.assoc)
  note rest = Suc.IH [of "p + data_size f" "\<lambda>i. g (Suc i)", OF this]
  have "writes (func p) (g 0)" using Suc.prems [of 0] by simp
  from writes_ebind [OF writes_tagged [OF f this] rest]
  show ?case unfolding upt_shift submessage_loop.simps ebind_assoc .
qed

lemma cat_values:
  assumes "\<And>i. i < n \<Longrightarrow> f i \<noteq> None"
  obtains vs where "length vs = n" "\<And>i. i < n \<Longrightarrow> f i = Some (vs ! i)" "cat (map f [0..<n]) = Some (concat vs)"
proof
  let ?vs = "map (\<lambda>i. the (f i)) [0..<n]"
  show "length ?vs = n" "\<And>i. i < n \<Longrightarrow> f i = Some (?vs ! i)" using assms by auto
  have "map f [0..<n] = map Some ?vs" using assms by auto
  then show "cat (map f [0..<n]) = Some (concat ?vs)" unfolding cat_Some by blast
qed

lemma emits_null:
  assumes "emits (elift p) bs" "n = length bs"
  shows "emits (elift (\<lambda>s. if o_sink s = Null_sink then pb_write_null n s else p s)) bs"
proof -
  have "elift (\<lambda>s. if o_sink s = Null_sink then pb_write_null n s else p s) (wbuf buf pos mx w e) = elift p (wbuf buf pos mx w e)"
    for buf pos mx w e by (simp add: elift_def)
  moreover have "elift (\<lambda>s. if o_sink s = Null_sink then pb_write_null n s else p s) s = Some (Some (), s\<lparr>bytes_written := bytes_written s + n\<rparr>)"
    if "o_sink s = Null_sink" "bytes_written s + n < size_mod" for s
    using that by (simp add: elift_def pb_write_null_def size_add_exact)
  ultimately show ?thesis using assms unfolding emits_def by simp
qed

lemma fixed_images_length:
  assumes "\<And>i. i < cnt \<Longrightarrow> value_image f m (p + data_size f * i) = Some (vs ! i)" "length vs = cnt"
    and "ltype f = PB_LTYPE_FIXED32 \<and> k = 4 \<or> ltype f = PB_LTYPE_FIXED64 \<and> k = 8"
  shows "length (concat vs) = k * cnt"
proof -
  have one: "length v = k" if "value_image f m a = Some v" for a v
    using assms(3) that by (auto simp: value_image_def PB_LTYPE_defs)
  have "\<forall>v \<in> set vs. length v = k"
    using assms(1,2) one by (metis in_set_conv_nth)
  then have "map length vs = map (\<lambda>_. k) vs" by simp
  then have "length (concat vs) = sum_list (map (\<lambda>_. k) vs)" by (simp only: length_concat)
  then show ?thesis by (simp add: sum_list_triv assms(2))
qed

lemma writes_packed:
  assumes f: "plain_field f" "ltype f \<le> PB_LTYPE_LAST_PACKABLE" and p: "p \<noteq> 0"
    and cnt: "0 < cnt" "cnt \<le> array_size f"
  shows "writes (elift (encode_array f m p cnt value_encoder) :: (unit, unit) eop)
    (map_option (\<lambda>bs. tag_bytes 2 (f_tag f) @ string_bytes bs) (cat (map (\<lambda>i. value_image f m (p + data_size f * i)) [0..<cnt])))"
proof -
  have "value_image f m a \<noteq> None" for a using packable_iff [OF f(1)] f(2) by (auto simp: value_image_def PB_LTYPE_defs)
  then obtain vs where vs: "length vs = cnt" "\<And>i. i < cnt \<Longrightarrow> value_image f m (p + data_size f * i) = Some (vs ! i)"
    "cat (map (\<lambda>i. value_image f m (p + data_size f * i)) [0..<cnt]) = Some (concat vs)"
    using cat_values [of cnt "\<lambda>i. value_image f m (p + data_size f * i)"] by blast
  let ?len = "length (concat vs)" and ?items = "item_loop (value_encoder f m) (data_size f) cnt p :: (unit, unit) oop"
  have ns: "ltype f \<noteq> PB_LTYPE_SUBMESSAGE" using f(2) by (auto simp: PB_LTYPE_defs PB_LTYPE_LAST_PACKABLE_def)
  have "writes (elift ?items) (Some (concat vs))"
    unfolding vs(3) [symmetric] by (rule writes_item_loop) (use f(1) ns p writes_value in simp)
  then have items: "emits (elift ?items) (concat vs)" by (simp add: writes_def)
  show ?thesis
  proof (cases "?len < size_mod")
    case False
    then have "emits q (tag_bytes 2 (f_tag f) @ string_bytes (concat vs))" for q :: "(unit, unit) eop"
      by (simp add: emits_def string_bytes_def)
    then show ?thesis unfolding vs(3) by (simp add: writes_elift)
  next
    case True
    have sizing: "?items PB_OSTREAM_SIZING = (Some (), PB_OSTREAM_SIZING\<lparr>bytes_written := ?len\<rparr>)"
      using items True unfolding emits_def elift_def by (simp add: PB_OSTREAM_SIZING_def)
    have sz: "(if ltype f = PB_LTYPE_FIXED32 then Some (4 * cnt) else if ltype f = PB_LTYPE_FIXED64 then Some (8 * cnt)
        else case ?items PB_OSTREAM_SIZING of (None, _) \<Rightarrow> None | (Some _, z) \<Rightarrow> Some (bytes_written z)) = Some ?len"
      using fixed_images_length [OF vs(2,1), where k = 4] fixed_images_length [OF vs(2,1), where k = 8] by (auto simp: sizing)
    have guards: "cnt \<noteq> 0" "\<not> (PB_ATYPE (f_type f) \<noteq> PB_ATYPE_POINTER \<and> cnt > array_size f)" "ltype f \<le> PB_LTYPE_FIXED64"
      using cnt f(2) by (auto simp: PB_LTYPE_LAST_PACKABLE_def PB_LTYPE_defs)
    have t: "f_tag f < 2 ^ 29" using f(1) by (simp add: plain_field_def)
    have tag: "pb_encode_tag PB_WT_STRING (of_nat (f_tag f)) = (pb_write (tag_bytes 2 (f_tag f)) :: (unit, unit) oop)"
      using pb_encode_tag_write [OF t, of 2] by (simp add: PB_WT_STRING_def)
    have "encode_array f m p cnt value_encoder = gbind (pb_write (tag_bytes 2 (f_tag f))) (\<lambda>_.
        gbind (pb_write (varint_bytes (of_nat ?len))) (\<lambda>_ s. if o_sink s = Null_sink then pb_write_null ?len s else ?items s))"
      unfolding encode_array_def if_not_P [OF guards(1)] if_not_P [OF guards(2)] if_P [OF guards(3)] tag Let_def sz option.case
        pb_encode_varint_write by (rule refl)
    moreover have "emits (elift (gbind (pb_write (tag_bytes 2 (f_tag f))) (\<lambda>_.
        gbind (pb_write (varint_bytes (of_nat ?len))) (\<lambda>_ s. if o_sink s = Null_sink then pb_write_null ?len s else ?items s))))
        (tag_bytes 2 (f_tag f) @ (varint_bytes (of_nat ?len) @ concat vs))"
      by (intro emits_gbind emits_pb_write emits_null [OF items refl])
    ultimately show ?thesis unfolding vs(3) using writes_elift by (simp add: string_bytes_def)
  qed
qed

lemma writes_unpacked:
  assumes f: "plain_field f" "\<not> ltype f \<le> PB_LTYPE_LAST_PACKABLE" "ltype f \<noteq> PB_LTYPE_SUBMESSAGE" and p: "p \<noteq> 0"
    and cnt: "0 < cnt" "cnt \<le> array_size f"
  shows "writes (elift (encode_array f m p cnt value_encoder) :: (unit, unit) eop)
    (cat (map (\<lambda>i. map_option (tagged f) (value_image f m (p + data_size f * i))) [0..<cnt]))"
proof -
  have guards: "cnt \<noteq> 0" "\<not> (PB_ATYPE (f_type f) \<noteq> PB_ATYPE_POINTER \<and> cnt > array_size f)" "\<not> ltype f \<le> PB_LTYPE_FIXED64"
    "\<not> (PB_ATYPE (f_type f) = PB_ATYPE_POINTER \<and> (ltype f = PB_LTYPE_STRING \<or> ltype f = PB_LTYPE_BYTES))"
    using cnt f static_type_simps(2) [of f] by (auto simp: PB_LTYPE_LAST_PACKABLE_def PB_LTYPE_defs plain_field_def is_pointer_def)
  have "(encode_array f m p cnt value_encoder :: (unit, unit) oop) =
      item_loop (\<lambda>p. gbind (pb_encode_tag_for_field f) (\<lambda>_. value_encoder f m p)) (data_size f) cnt p"
    unfolding encode_array_def if_not_P [OF guards(1)] if_not_P [OF guards(2)] if_not_P [OF guards(3)] if_not_P [OF guards(4)]
    by (rule refl)
  moreover have "writes (elift (item_loop (\<lambda>p. gbind (pb_encode_tag_for_field f) (\<lambda>_. value_encoder f m p)) (data_size f) cnt p)
      :: (unit, unit) eop) (cat (map (\<lambda>i. map_option (tagged f) (value_image f m (p + data_size f * i))) [0..<cnt]))"
    unfolding elift_gbind by (rule writes_item_loop) (use writes_tagged [OF f(1) writes_value [OF f(1,3)]] p in \<open>simp add: elift_gbind\<close>)
  ultimately show ?thesis by simp
qed

section \<open>Fields that are left out\<close>

lemma cat_empty: "cat xs = Some [] \<longleftrightarrow> (\<forall>x \<in> set xs. x = Some [])"
proof (induction xs rule: cat.induct)
  case (3 a xs)
  then show ?case by (cases "cat xs") auto
qed auto

lemma tagged_nonempty [simp]: "tagged f bs \<noteq> []"
  by (simp add: tagged_def tag_nonempty)

lemma all_fields_loop_at:
  assumes fs: "terminated fs" and check: "\<And>k. k < length fs - 1 \<Longrightarrow> check (iter_at fs dest k) = Some (b k)"
    and k: "k < length fs - 1"
  shows "all_fields_loop check (iter_at fs dest k) = Some (\<forall>j. k \<le> j \<and> j < length fs - 1 \<longrightarrow> b j)"
  using k
proof (induction "length fs - 1 - k" arbitrary: k)
  case (Suc d)
  show ?case
  proof (cases "b k")
    case False
    then show ?thesis using Suc.prems by (auto simp: all_fields_loop.simps [of check "iter_at fs dest k"] check)
  next
    case True
    have split: "(\<forall>j. k \<le> j \<and> j < length fs - 1 \<longrightarrow> b j) \<longleftrightarrow> (\<forall>j. Suc k \<le> j \<and> j < length fs - 1 \<longrightarrow> b j)"
      using True by (metis Suc_leI le_antisym not_less_eq_eq Suc_leD)
    show ?thesis
    proof (cases "Suc k < length fs - 1")
      case more: True
      then have "d = length fs - 1 - Suc k" using Suc(2) by linarith
      from Suc(1) [OF this more] show ?thesis unfolding split using True Suc.prems more
        by (simp add: all_fields_loop.simps [of check "iter_at fs dest k"] check iter_at_next [OF fs Suc.prems])
    next
      case False
      then have "\<forall>j. Suc k \<le> j \<and> j < length fs - 1 \<longrightarrow> b j" by auto
      then show ?thesis unfolding split using True Suc.prems False
        by (simp add: all_fields_loop.simps [of check "iter_at fs dest k"] check iter_at_next [OF fs Suc.prems])
    qed
  qed
qed simp

lemma plain_htypes:
  assumes "plain_field f"
  shows "htype f = PB_HTYPE_REQUIRED \<or> htype f = PB_HTYPE_OPTIONAL \<or> htype f = PB_HTYPE_REPEATED" "htype f \<noteq> PB_HTYPE_ONEOF"
    "is_static f" "\<not> is_pointer f" "\<not> is_callback f" "ltype f \<noteq> PB_LTYPE_EXTENSION"
  using assms static_type_simps [of f]
  by (auto simp: plain_field_def PB_HTYPE_ONEOF_def PB_HTYPE_REQUIRED_def PB_HTYPE_OPTIONAL_def PB_HTYPE_REPEATED_def)

lemma cat_items_nonempty: "0 < n \<Longrightarrow> cat (map (\<lambda>i. map_option (tagged f) (g i)) [0..<n]) \<noteq> Some []"
  unfolding cat_empty by (auto simp: image_iff intro!: bexI [of _ 0])

lemma field_image_empty:
  assumes "plain_field f"
  shows "field_image sub f m p = Some [] \<longleftrightarrow>
    (if htype f = PB_HTYPE_REPEATED then item_count f m p = 0 else left_out sub f m p)"
proof -
  show ?thesis
    using cat_items_nonempty [of "item_count f m p" f "\<lambda>i. item_image sub f m (p + data_size f * i)"]
    by (auto simp: field_image_def Let_def comp_def tag_nonempty)
qed

lemma check_default:
  fixes env :: "'st pb_env"
  assumes "plain_field f" "data \<noteq> 0" "ltype f = PB_LTYPE_SUBMESSAGE \<Longrightarrow> plain_message env n (f_ptr f)"
  shows "pb_check_proto3_default_value env (Suc n) m f data = Some (field_image (message_image env n m) f m data = Some [])"
  using assms
proof (induction n arbitrary: f data)
  case (0 f data)
  note h = plain_htypes [OF 0(1)]
  have ns: "ltype f \<noteq> PB_LTYPE_SUBMESSAGE" using 0(3) by auto
  have rep: "htype f = PB_HTYPE_REPEATED \<Longrightarrow> 0 < array_size f" using 0(1) by (simp add: plain_field_def)
  show ?case using h ns rep
    by (auto simp: field_image_empty [OF 0(1)] Let_def left_out_def zero_value_def item_count_def safe_read_bool_def
        PB_HTYPE_REQUIRED_def PB_HTYPE_OPTIONAL_def PB_HTYPE_REPEATED_def PB_LTYPE_defs)
next
  case (Suc n)
  note h = plain_htypes [OF Suc(2)]
  have rep: "htype f = PB_HTYPE_REPEATED \<Longrightarrow> 0 < array_size f" using Suc(2) by (simp add: plain_field_def)
  show ?case
  proof (cases "ltype f = PB_LTYPE_SUBMESSAGE \<and> htype f = PB_HTYPE_OPTIONAL \<and> size_offset f = 0")
    case False
    then show ?thesis using h rep
      by (auto simp: pb_check_proto3_default_value.simps(2) [of env "Suc n"] field_image_empty [OF Suc(2)] Let_def left_out_def zero_value_def item_count_def safe_read_bool_def
          PB_HTYPE_REQUIRED_def PB_HTYPE_OPTIONAL_def PB_HTYPE_REPEATED_def PB_LTYPE_defs
          simp del: pb_check_proto3_default_value.simps message_image.simps)
  next
    case True
    let ?fs = "fields_at env (f_ptr f)"
    note sub = Suc(4) [OF conjunct1 [OF True]]
    note fs = plain_messageD [OF sub]
    let ?check = "\<lambda>it. pb_check_proto3_default_value env (Suc n) m (cur_field it) (pData it)"
    let ?im = "\<lambda>k. field_image (message_image env n m) (?fs ! k) m (data + field_offset ?fs k)"
    have check: "?check (iter_at ?fs data k) = Some (?im k = Some [])" if "k < length ?fs - 1" for k
      unfolding plain_addresses [OF sub Suc(3) that] using plain_message_field [OF sub that] Suc(3)
      by (intro Suc(1)) simp_all
    have "pb_field_iter_begin ?fs data = (True, iter_at ?fs data 0)"
      using fs by (auto simp: iter_at_0 pb_field_iter_begin_def Let_def terminated_def)
    moreover have "all_fields_loop ?check (iter_at ?fs data 0) = Some (message_image env (Suc n) m (f_ptr f) data = Some [])"
      using all_fields_loop_at [OF fs(1), of ?check data _ 0, OF check] fs(2) by (auto simp: cat_empty Let_def)
    ultimately show ?thesis using True h
      by (auto simp: pb_check_proto3_default_value.simps(2) [of env "Suc n"] field_image_empty [OF Suc(2)] Let_def left_out_def
          PB_HTYPE_REQUIRED_def PB_HTYPE_OPTIONAL_def PB_HTYPE_REPEATED_def PB_LTYPE_defs
          simp del: pb_check_proto3_default_value.simps message_image.simps)
  qed
qed

section \<open>Messages\<close>

lemma implicit_plain:
  assumes "plain_field f" "data \<noteq> 0" "ltype f = PB_LTYPE_SUBMESSAGE \<Longrightarrow> plain_message env n (f_ptr f)"
  shows "implicit_has env (Suc n) m f data
    = Some (\<not> (size_offset f = 0 \<and> htype f = PB_HTYPE_OPTIONAL \<and> left_out (message_image env n m) f m data))"
proof -
  have "htype f = PB_HTYPE_OPTIONAL \<Longrightarrow> htype f \<noteq> PB_HTYPE_REPEATED"
    by (simp add: PB_HTYPE_OPTIONAL_def PB_HTYPE_REPEATED_def)
  then show ?thesis
    using check_default [OF assms] field_image_empty [OF assms(1)]
    by (auto simp: implicit_has_def simp del: pb_check_proto3_default_value.simps)
qed

lemma writes_cong:
  assumes "\<And>s. p s = q s" "writes q v"
  shows "writes p v"
proof -
  have "p = q" using assms(1) by (rule ext)
  with assms(2) show ?thesis by simp
qed

lemma item_values: "ltype f \<noteq> PB_LTYPE_SUBMESSAGE \<Longrightarrow> item_image sub f m p = value_image f m p"
  by (simp add: item_image_def)

lemma writes_repeated:
  assumes f: "plain_field f" "htype f = PB_HTYPE_REPEATED" and data: "data \<noteq> 0" and sub: "sub_writes submessage sub f"
  shows "writes (\<lambda>s. if ltype f = PB_LTYPE_SUBMESSAGE then encode_submessages (PB_ENCODERS submessage m f) f data (item_count f m data) s
      else elift (encode_array f m data (item_count f m data) value_encoder) s) (field_image sub f m data)"
proof -
  let ?cnt = "item_count f m data"
  note h = plain_htypes [OF f(1)]
  have at: "PB_ATYPE (f_type f) \<noteq> PB_ATYPE_POINTER" using h by (simp add: is_pointer_def)
  have p: "data + data_size f * i \<noteq> 0" for i using data by simp
  consider "?cnt = 0" | "array_size f < ?cnt" "?cnt \<noteq> 0" | "0 < ?cnt" "?cnt \<le> array_size f" by linarith
  then show ?thesis
  proof cases
    case 1
    show ?thesis
    proof (rule writes_cong)
      show "(if ltype f = PB_LTYPE_SUBMESSAGE then encode_submessages (PB_ENCODERS submessage m f) f data ?cnt s
          else elift (encode_array f m data ?cnt value_encoder) s) = elift (gret ()) s" for s
        unfolding 1 encode_submessages_def encode_array_def by simp
      show "writes (elift (gret ())) (field_image sub f m data)"
        using 1 f(2) writes_elift [OF emits_nothing] by (simp add: field_image_def)
    qed
  next
    case 2
    show ?thesis
    proof (rule writes_cong)
      show "(if ltype f = PB_LTYPE_SUBMESSAGE then encode_submessages (PB_ENCODERS submessage m f) f data ?cnt s
          else elift (encode_array f m data ?cnt value_encoder) s) = elift (o_error ''array max size exceeded'') s" for s
        unfolding encode_submessages_def encode_array_def using 2 h(4) at by simp
      show "writes (elift (o_error ''array max size exceeded'')) (field_image sub f m data)"
        using 2 f(2) writes_error by (simp add: field_image_def Let_def)
    qed
  next
    case cnt: 3
    have image: "field_image sub f m data = (if ltype f \<le> PB_LTYPE_LAST_PACKABLE
        then map_option (\<lambda>bs. tag_bytes 2 (f_tag f) @ string_bytes bs) (cat (map (\<lambda>i. item_image sub f m (data + data_size f * i)) [0..<?cnt]))
        else cat (map (\<lambda>i. map_option (tagged f) (item_image sub f m (data + data_size f * i))) [0..<?cnt]))"
      using f(2) cnt by (simp add: field_image_def Let_def comp_def)
    show ?thesis
    proof (cases "ltype f = PB_LTYPE_SUBMESSAGE")
      case True
      then have np: "\<not> ltype f \<le> PB_LTYPE_LAST_PACKABLE" using packable_iff [OF f(1)] by (auto simp: PB_LTYPE_defs)
      have "writes (submessage_loop (PB_ENCODERS submessage m f) f ?cnt data)
        (cat (map (\<lambda>i. map_option (tagged f) (item_image sub f m (data + data_size f * i))) [0..<?cnt]))"
        by (intro writes_submessage_loop writes_item f(1) p sub)
      then show ?thesis unfolding image using True np cnt h(4) by (simp add: encode_submessages_def)
    next
      case False
      show ?thesis unfolding image
        using writes_packed [OF f(1) _ data cnt, of m] writes_unpacked [OF f(1) _ False data cnt, of m] False
        by (simp add: item_values)
    qed
  qed
qed

lemma writes_field:
  fixes env :: "unit pb_env"
  assumes f: "plain_field f" and data: "data \<noteq> 0"
    and sub: "ltype f = PB_LTYPE_SUBMESSAGE \<Longrightarrow> plain_message env n (f_ptr f)" "sub_writes submessage (message_image env n m) f"
  shows "writes (encode_field env (Suc n) submessage m f data) (field_image (message_image env n m) f m data)"
proof -
  let ?put = "ebind (elift (pb_encode_tag_for_field f)) (\<lambda>_. PB_ENCODERS submessage m f data)"
  note h = plain_htypes [OF f]
  note has = implicit_plain [OF f data sub(1)]
  have wr: "writes ?put (map_option (tagged f) (item_image (message_image env n m) f m data))"
    by (intro writes_tagged writes_item f data sub)
  have ne: "PB_HTYPE_OPTIONAL \<noteq> PB_HTYPE_REQUIRED" "PB_HTYPE_REPEATED \<noteq> PB_HTYPE_REQUIRED" "PB_HTYPE_REPEATED \<noteq> PB_HTYPE_OPTIONAL"
    by (simp_all add: PB_HTYPE_OPTIONAL_def PB_HTYPE_REQUIRED_def PB_HTYPE_REPEATED_def)
  have "writes (encode_basic_field env (Suc n) submessage m f data) (field_image (message_image env n m) f m data)"
  proof (rule disjE [OF h(1)])
    assume req: "htype f = PB_HTYPE_REQUIRED"
    show ?thesis
    proof (rule writes_cong)
      show "encode_basic_field env (Suc n) submessage m f data s = ?put s" for s
        using req h data by (simp add: encode_basic_field_def has Let_def)
      show "writes ?put (field_image (message_image env n m) f m data)"
        using wr req ne by (simp add: field_image_def left_out_def)
    qed
  next
    assume "htype f = PB_HTYPE_OPTIONAL \<or> htype f = PB_HTYPE_REPEATED"
    then show ?thesis
    proof
      assume opt: "htype f = PB_HTYPE_OPTIONAL"
      let ?out = "left_out (message_image env n m) f m data"
      show ?thesis
      proof (rule writes_cong)
        have "size_offset f \<noteq> 0 \<Longrightarrow> safe_read_bool m (size_addr data f) \<longleftrightarrow> \<not> ?out"
          using opt by (simp add: left_out_def safe_read_bool_def)
        then show "encode_basic_field env (Suc n) submessage m f data s = (if ?out then elift (gret ()) else ?put) s" for s
          using opt h data ne by (simp add: encode_basic_field_def has Let_def)
        show "writes (if ?out then elift (gret ()) else ?put) (field_image (message_image env n m) f m data)"
          using wr opt ne by (simp add: field_image_def writes_elift emits_nothing)
      qed
    next
      assume rep: "htype f = PB_HTYPE_REPEATED"
      show ?thesis
      proof (rule writes_cong [OF _ writes_repeated [OF f rep data sub(2)]])
        show "encode_basic_field env (Suc n) submessage m f data s =
            (if ltype f = PB_LTYPE_SUBMESSAGE then encode_submessages (PB_ENCODERS submessage m f) f data (item_count f m data) s
             else elift (encode_array f m data (item_count f m data) value_encoder) s)" for s
          using rep h data ne value_encoder_exists [OF f] by (simp add: encode_basic_field_def has Let_def item_count_def)
      qed
    qed
  qed
  then show ?thesis using h by (simp add: encode_field_def)
qed

lemma writes_encode_loop:
  assumes fs: "terminated fs" and enc: "\<And>k. k < length fs - 1 \<Longrightarrow> writes (enc (iter_at fs src k)) (g k)" and k: "k < length fs - 1"
  shows "writes (encode_loop enc (iter_at fs src k)) (cat (map g [k..<length fs - 1]))"
  using k
proof (induction "length fs - 1 - k" arbitrary: k)
  case (Suc d)
  let ?rest = "if Suc k < length fs - 1 then encode_loop enc (iter_at fs src (Suc k)) else elift (gret ())"
  have "encode_loop enc (iter_at fs src k) s = ebind (enc (iter_at fs src k)) (\<lambda>_. ?rest) s" for s
    unfolding encode_loop.simps [of enc "iter_at fs src k"] ebind_def iter_at_next [OF fs Suc.prems]
    by (auto simp: elift_def gret_def split: option.splits)
  then have step: "encode_loop enc (iter_at fs src k) = ebind (enc (iter_at fs src k)) (\<lambda>_. ?rest)" by (rule ext)
  have "writes ?rest (cat (map g [Suc k..<length fs - 1]))"
  proof (cases "Suc k < length fs - 1")
    case True
    then show ?thesis using Suc(1) [of "Suc k"] Suc(2) by simp
  next
    case False
    then show ?thesis using writes_elift [OF emits_nothing] by simp
  qed
  from writes_ebind [OF enc [OF Suc.prems] this] show ?case
    unfolding step upt_conv_Cons [OF Suc.prems] list.map .
qed simp

lemma writes_message:
  fixes env :: "unit pb_env"
  assumes "plain_message env n fp" "src \<noteq> 0"
  shows "writes (pb_encode env (Suc n) m (fields_at env fp) src) (message_image env n m fp src)"
  using assms
proof (induction n arbitrary: fp src)
  case (Suc n)
  let ?fs = "fields_at env fp" and ?sub = "pb_enc_submessage env (pb_encode env (Suc n) m)"
  note fs = plain_messageD [OF Suc.prems(1)]
  let ?enc = "\<lambda>it. if ltype (cur_field it) = PB_LTYPE_EXTENSION then encode_extension_field env (Suc n) ?sub m (pData it)
      else encode_field env (Suc n) ?sub m (cur_field it) (pData it)"
  have field: "writes (?enc (iter_at ?fs src k)) (field_image (message_image env n m) (?fs ! k) m (src + field_offset ?fs k))"
    if k: "k < length ?fs - 1" for k
  proof -
    note f = plain_message_field [OF Suc.prems(1) k]
    have "sub_writes ?sub (message_image env n m) (?fs ! k)"
      using Suc.IH [OF f(2)] f(1) unfolding sub_writes_def
      by (auto simp: pb_enc_submessage_def plain_field_def well_sized_def PB_LTYPE_defs simp del: pb_encode.simps intro: writes_submessage)
    with writes_field [OF f(1) _ f(2)] show ?thesis
      unfolding plain_addresses [OF Suc.prems k] using plain_htypes(6) [OF f(1)] Suc.prems(2) by simp
  qed
  have "pb_field_iter_begin ?fs src = (True, iter_at ?fs src 0)"
    using fs by (auto simp: iter_at_0 pb_field_iter_begin_def Let_def terminated_def)
  then have "pb_encode env (Suc (Suc n)) m ?fs src = encode_loop ?enc (iter_at ?fs src 0)"
    by (simp add: fun_eq_iff encode_message_def)
  with writes_encode_loop [where enc = ?enc and src = src and k = 0, OF fs(1) field] fs(2) show ?case
    by (simp add: Let_def del: pb_encode.simps)
qed simp

text \<open>C3 For a message of required, optional and repeated fields in static memory, with submessages to any depth, everything
  that \<open>pb_encode\<close> does is determined by its image, a function of the memory alone. Where the image is not defined, since an
  array or a byte string is longer than its field, encoding fails on every stream. Otherwise
  \<open>pb_get_encoded_size\<close> gives its length, and encoding into a buffer succeeds if and only if the image fits, and then the
  buffer starts with the image and is unchanged behind it. The size of a submessage never changes between the pass that counts and
  the pass that writes.\<close>

theorem encoding_writes_image:
  fixes env :: "unit pb_env"
  assumes "plain_message env n fp" "src \<noteq> 0"
  shows "case message_image env n m fp src of
      None \<Rightarrow> pb_get_encoded_size env (Suc n) m (fields_at env fp) src = Some None
        \<and> (\<forall>s. \<exists>s'. pb_encode env (Suc n) m (fields_at env fp) src s = Some (None, s'))
    | Some bs \<Rightarrow> length bs < size_mod \<longrightarrow>
        pb_get_encoded_size env (Suc n) m (fields_at env fp) src = Some (Some (length bs))
        \<and> (\<forall>buf bufsize. bufsize \<le> length buf \<and> bufsize < size_mod \<longrightarrow>
            (if length bs \<le> bufsize
             then \<exists>e. pb_encode env (Suc n) m (fields_at env fp) src (pb_ostream_from_buffer buf bufsize)
               = Some (Some (), obuf (bs @ drop (length bs) buf) bufsize (length bs) e)
             else \<exists>s'. pb_encode env (Suc n) m (fields_at env fp) src (pb_ostream_from_buffer buf bufsize) = Some (None, s')))"
proof (cases "message_image env n m fp src")
  case None
  then have "\<forall>s. \<exists>s'. pb_encode env (Suc n) m (fields_at env fp) src s = Some (None, s')"
    using writes_message [OF assms, of m] by (simp add: writes_def del: pb_encode.simps)
  moreover from this obtain s' where "pb_encode env (Suc n) m (fields_at env fp) src PB_OSTREAM_SIZING = Some (None, s')" by blast
  ultimately show ?thesis using None by (simp add: pb_get_encoded_size_def del: pb_encode.simps)
next
  case (Some bs)
  let ?enc = "pb_encode env (Suc n) m (fields_at env fp) src"
  have e: "emits ?enc bs" using writes_message [OF assms, of m] Some by (simp add: writes_def del: pb_encode.simps)
  show ?thesis
  proof (cases "length bs < size_mod")
    case True
    have sz: "pb_get_encoded_size env (Suc n) m (fields_at env fp) src = Some (Some (length bs))"
      using e True unfolding emits_def by (simp add: pb_get_encoded_size_def PB_OSTREAM_SIZING_def del: pb_encode.simps)
    have "if length bs \<le> mx then \<exists>e. ?enc (pb_ostream_from_buffer buf mx) = Some (Some (), obuf (bs @ drop (length bs) buf) mx (length bs) e)
        else \<exists>s'. ?enc (pb_ostream_from_buffer buf mx) = Some (None, s')" if mx: "mx \<le> length buf" "mx < size_mod" for buf mx
    proof -
      have "roomy buf 0 mx 0 \<and> 0 + length bs < size_mod" using mx True by (simp add: roomy_def)
      with e True have "if 0 + length bs \<le> mx
          then \<exists>e'. ?enc (wbuf buf 0 mx 0 None) = Some (Some (), wbuf (put_bytes 0 bs buf) (0 + length bs) mx (0 + length bs) e')
          else \<exists>s'. ?enc (wbuf buf 0 mx 0 None) = Some (None, s')" unfolding emits_def by blast
      moreover have "put_bytes 0 bs buf = bs @ drop (length bs) buf" by (simp add: put_bytes_def)
      ultimately show ?thesis unfolding pb_ostream_from_buffer_def by (simp only: add_0)
    qed
    with sz Some show ?thesis by (simp del: pb_encode.simps)
  qed (use Some in simp)
qed

text \<open>A message with a submessage that has one Boolean.\<close>

definition image_env :: "unit pb_env" where
  "image_env = plain_env\<lparr>fields_at := \<lambda>p. if p = 1 then flag_fields else outer_fields\<rparr>"

lemma image_env_fields: "fields_at image_env (Suc 0) = flag_fields" "fields_at image_env 2 = outer_fields"
  by (simp_all add: image_env_def)

lemma image_env_plain: "plain_message image_env 2 2"
proof -
  have ends: "terminated flag_fields" "terminated outer_fields"
    by (auto simp: flag_fields_def outer_fields_def terminated_def less_Suc_eq)
  have f: "plain_field f" if "f \<in> set (butlast flag_fields) \<union> set (butlast outer_fields)" for f
    using that by (auto simp: flag_fields_def outer_fields_def plain_field_def static_type_def is_static_def well_sized_def PB_ATYPE_def
        PB_ATYPE_STATIC_def PB_LTYPE_def PB_LTYPE_defs PB_HTYPE_def PB_HTYPE_REQUIRED_def PB_HTYPE_OPTIONAL_def PB_SIZE_MAX_def
        PB_HTYPE_REPEATED_def)
  have leaf: "\<forall>f \<in> set (butlast flag_fields). ltype f \<noteq> PB_LTYPE_SUBMESSAGE" "\<forall>f \<in> set (butlast outer_fields). f_ptr f = Suc 0"
    by (simp_all add: flag_fields_def outer_fields_def PB_LTYPE_def PB_LTYPE_defs)
  have len: "1 < length flag_fields" "1 < length outer_fields" by (simp_all add: flag_fields_def outer_fields_def)
  have "plain_message image_env (Suc 0) (Suc 0)"
    unfolding plain_message.simps Let_def image_env_fields using ends f leaf len by (auto simp: list_all_iff)
  then show ?thesis
    unfolding numeral_2_eq_2 plain_message.simps(2) [of _ "Suc 0"] Let_def image_env_fields [unfolded numeral_2_eq_2]
    using ends f leaf len by (auto simp: list_all_iff simp del: plain_message.simps)
qed

lemma image_env_image: "message_image image_env 2 (\<lambda>_. 1) 2 100 = Some [10, 2, 8, 1]"
proof -
  have v: "varint_bytes 8 = [8]" "varint_bytes 10 = [10]" "varint_bytes 2 = [2]" by (simp_all add: varint_bytes.simps)
  have inner: "message_image image_env (Suc 0) (\<lambda>_. 1) (Suc 0) a = Some [8, 1]" for a
    by (simp add: Let_def image_env_fields flag_fields_def field_image_def left_out_def item_image_def value_image_def tagged_def
        tag_bytes_def wire_type_of_def PB_LTYPE_def PB_LTYPE_defs PB_HTYPE_def PB_HTYPE_OPTIONAL_def PB_HTYPE_REPEATED_def v)
  have "message_image image_env (Suc (Suc 0)) (\<lambda>_. 1) 2 100 = Some [10, 2, 8, 1]"
    unfolding message_image.simps(2) [of _ "Suc 0"] image_env_fields Let_def
    by (simp add: Let_def image_env_fields outer_fields_def field_image_def left_out_def item_image_def inner tagged_def
        tag_bytes_def wire_type_of_def string_bytes_def PB_LTYPE_def PB_LTYPE_defs PB_HTYPE_def PB_HTYPE_OPTIONAL_def
        PB_HTYPE_REPEATED_def v size_addr_def del: message_image.simps)
  then show ?thesis by (simp only: numeral_2_eq_2)
qed

theorem encoding_writes_image_witness:
  "pb_get_encoded_size image_env 3 (\<lambda>_. 1) outer_fields 100 = Some (Some 4)"
proof -
  have len: "(100 :: nat) \<noteq> 0" "length [10 :: u8, 2, 8, 1] < size_mod" "length [10 :: u8, 2, 8, 1] = 4" "Suc 2 = 3"
    by (simp_all add: size_mod_def)
  from encoding_writes_image [OF image_env_plain len(1), of "\<lambda>_. 1", unfolded image_env_image option.case image_env_fields] len(2)
  show ?thesis unfolding len(3,4) by blast
qed

end
