(* ===== verification/PB_Roundtrip.thy ===== *)
theory PB_Roundtrip
  imports PB_Image
begin

text \<open>
  Decoding what was encoded: \<open>pb_decode\<close> on the image of a message fills another structure so that its image is
  the same. The structure may lie anywhere and hold anything before, as long as its fields do not overlap.
\<close>

section \<open>Values\<close>

text \<open>The bytes that the decoder of a packable type stores.\<close>

definition stored :: "pb_field \<Rightarrow> mem \<Rightarrow> nat \<Rightarrow> bytes" where
  "stored f m p = (if ltype f = PB_LTYPE_BOOL then [of_bool (m p \<noteq> 0)] else mem_read m p (data_size f))"

lemma length_stored: "plain_field f \<Longrightarrow> length (stored f m p) = data_size f"
  by (simp add: stored_def plain_field_def well_sized_def)

lemma packable_reads:
  assumes f: "plain_field f" "ltype f \<le> PB_LTYPE_LAST_PACKABLE" and v: "value_image f m p = Some v"
  shows "packable_decoder f dest (dctx (v @ rest) (length v + N) e \<mu> :: unit pb_dctx) = (Some (), dctx rest N e (mem_write dest (stored f m p) \<mu>))"
proof -
  have sized: "well_sized f" using f(1) by (simp add: plain_field_def)
  have l: "length (mem_read m p (data_size f)) = data_size f" by simp
  have bool: "[of_bool (m p \<noteq> 0)] = [0 :: u8] \<or> [of_bool (m p \<noteq> 0)] = [1 :: u8]" "length [of_bool (m p \<noteq> 0) :: u8] = 1" by auto
  consider "ltype f = PB_LTYPE_BOOL" | "ltype f = PB_LTYPE_VARINT" | "ltype f = PB_LTYPE_UVARINT" | "ltype f = PB_LTYPE_SVARINT"
    | "ltype f = PB_LTYPE_FIXED32" | "ltype f = PB_LTYPE_FIXED64"
    using packable_iff [OF f(1)] f(2) by auto
  then show ?thesis
  proof cases
    case 1
    then have "v = [of_bool (m p \<noteq> 0)]" using v by (simp add: value_image_def)
    then show ?thesis using bool_field.dec_image [OF bool, of f dest rest N e \<mu>] 1
      by (simp add: packable_decoder_def stored_def)
  next
    case 2
    then have "v = signed_image (mem_read m p (data_size f))" "data_size f \<in> {1, 2, 4, 8}"
      using v sized by (simp_all add: value_image_def well_sized_def PB_LTYPE_defs)
    with varint_field.dec_image [OF this(2) l, of dest rest N e \<mu>] show ?thesis
      using 2 by (simp add: packable_decoder_def stored_def PB_LTYPE_defs)
  next
    case 3
    then have "v = unsigned_image (mem_read m p (data_size f))" "data_size f \<in> {1, 2, 4, 8}"
      using v sized by (simp_all add: value_image_def well_sized_def PB_LTYPE_defs)
    with uvarint_field.dec_image [OF this(2) l, of dest rest N e \<mu>] show ?thesis
      using 3 by (simp add: packable_decoder_def stored_def PB_LTYPE_defs)
  next
    case 4
    then have "v = zigzag_image (mem_read m p (data_size f))" "data_size f \<in> {1, 2, 4, 8}"
      using v sized by (simp_all add: value_image_def well_sized_def PB_LTYPE_defs)
    with svarint_field.dec_image [OF this(2) l, of dest rest N e \<mu>] show ?thesis
      using 4 by (simp add: packable_decoder_def stored_def PB_LTYPE_defs)
  next
    case 5
    then have "v = mem_read m p 4" "data_size f = 4"
      using v sized by (simp_all add: value_image_def well_sized_def PB_LTYPE_defs)
    with fixed32_field.dec_image [OF TrueI, of "mem_read m p 4" f dest rest N e \<mu>] show ?thesis
      using 5 by (simp add: packable_decoder_def stored_def PB_LTYPE_defs)
  next
    case 6
    then have "v = mem_read m p 8" "data_size f = 8"
      using v sized by (simp_all add: value_image_def well_sized_def PB_LTYPE_defs)
    with fixed64_field.dec_image [OF TrueI, of "mem_read m p 8" f dest rest N e \<mu>] show ?thesis
      using 6 by (simp add: packable_decoder_def stored_def PB_LTYPE_defs)
  qed
qed

lemma packable_formulas:
  assumes f: "plain_field f" "ltype f \<le> PB_LTYPE_LAST_PACKABLE"
  shows "value_image f m p = Some (if ltype f = PB_LTYPE_BOOL then [of_bool (m p \<noteq> 0)]
      else if ltype f = PB_LTYPE_VARINT then signed_image (mem_read m p (data_size f))
      else if ltype f = PB_LTYPE_UVARINT then unsigned_image (mem_read m p (data_size f))
      else if ltype f = PB_LTYPE_SVARINT then zigzag_image (mem_read m p (data_size f)) else mem_read m p (data_size f))"
    and "zero_value f m p \<longleftrightarrow> list_all (\<lambda>b. b = 0) (mem_read m p (data_size f))"
    and "ltype f = PB_LTYPE_FIXED32 \<Longrightarrow> data_size f = 4" "ltype f = PB_LTYPE_FIXED64 \<Longrightarrow> data_size f = 8" "0 < data_size f"
proof -
  have sized: "well_sized f" using f(1) by (simp add: plain_field_def)
  have other: "ltype f \<noteq> PB_LTYPE_BYTES" "ltype f \<noteq> PB_LTYPE_STRING" "ltype f \<noteq> PB_LTYPE_FIXED_LENGTH_BYTES"
    using f(2) by (auto simp: PB_LTYPE_defs PB_LTYPE_LAST_PACKABLE_def)
  show s: "ltype f = PB_LTYPE_FIXED32 \<Longrightarrow> data_size f = 4" "ltype f = PB_LTYPE_FIXED64 \<Longrightarrow> data_size f = 8"
    using sized by (simp_all add: PB_LTYPE_defs well_sized_def)
  show "0 < data_size f" using sized packable_iff [OF f(1)] f(2) by (auto simp: PB_LTYPE_defs well_sized_def)
  show "value_image f m p = Some (if ltype f = PB_LTYPE_BOOL then [of_bool (m p \<noteq> 0)]
      else if ltype f = PB_LTYPE_VARINT then signed_image (mem_read m p (data_size f))
      else if ltype f = PB_LTYPE_UVARINT then unsigned_image (mem_read m p (data_size f))
      else if ltype f = PB_LTYPE_SVARINT then zigzag_image (mem_read m p (data_size f)) else mem_read m p (data_size f))"
    using packable_iff [OF f(1)] f(2) other s by (auto simp: value_image_def)
  show "zero_value f m p \<longleftrightarrow> list_all (\<lambda>b. b = 0) (mem_read m p (data_size f))"
    using other by (simp add: zero_value_def is_zero_def)
qed

lemma stored_value:
  assumes f: "plain_field f" "ltype f \<le> PB_LTYPE_LAST_PACKABLE" and r: "mem_read \<mu> d (data_size f) = stored f m p"
  shows "value_image f \<mu> d = value_image f m p" "zero_value f \<mu> d \<longleftrightarrow> zero_value f m p"
proof -
  have sized: "well_sized f" using f(1) by (simp add: plain_field_def)
  have b: "ltype f = PB_LTYPE_BOOL \<Longrightarrow> data_size f = 1 \<and> \<mu> d = of_bool (m p \<noteq> 0)"
    using r sized by (simp add: well_sized_def stored_def mem_read_def)
  have same: "mem_read \<mu> d (data_size f) = mem_read m p (data_size f)" if "ltype f \<noteq> PB_LTYPE_BOOL" using r that by (simp add: stored_def)
  show "value_image f \<mu> d = value_image f m p" "zero_value f \<mu> d \<longleftrightarrow> zero_value f m p"
    unfolding packable_formulas(1,2) [OF f] using same b by (cases "ltype f = PB_LTYPE_BOOL"; simp add: mem_read_def)+
qed

text \<open>A value fits its field when it is a string with a terminator.\<close>

definition ends :: "pb_field \<Rightarrow> mem \<Rightarrow> nat \<Rightarrow> bool" where
  "ends f m p \<longleftrightarrow> (ltype f = PB_LTYPE_STRING \<longrightarrow> strlen_loop (data_size f) m p < data_size f)"

lemma string_length: "length bs \<le> length (string_bytes bs)"
  by (simp add: string_bytes_def)

lemma mem_write_inside: "a \<notin> {d..<d + n} \<Longrightarrow> length bs \<le> n \<Longrightarrow> mem_write d bs \<mu> a = \<mu> a"
  by (auto simp: mem_write_def)

definition keeps :: "nat set \<Rightarrow> mem \<Rightarrow> mem \<Rightarrow> bool" where
  "keeps A m m' \<longleftrightarrow> (\<forall>a. a \<notin> A \<longrightarrow> m' a = m a)"

lemma keeps_trans: "keeps A m m1 \<Longrightarrow> keeps A m1 m2 \<Longrightarrow> keeps A m m2"
  by (simp add: keeps_def)

lemma keeps_mono: "keeps A m m' \<Longrightarrow> A \<subseteq> B \<Longrightarrow> keeps B m m'"
  by (auto simp: keeps_def)

lemma keeps_refl [simp]: "keeps A m m"
  by (simp add: keeps_def)

lemma keeps_write: "{a..<a + length bs} \<subseteq> A \<Longrightarrow> keeps A m (mem_write a bs m)"
  by (auto simp: keeps_def mem_write_def subset_iff)

lemma string_reads:
  assumes "length bs < 2 ^ 32"
  shows "gbind (on_in pb_decode_varint32) g (dctx (string_bytes bs @ rest) (length (string_bytes bs) + N) e \<mu> :: 'st pb_dctx)
    = g (of_nat (length bs)) (dctx (bs @ rest) (length bs + N) e \<mu>)"
  by (rule on_in_bind) (rule length_prefix_read [OF assms])

lemma bytes_reads:
  assumes f: "plain_field f" "ltype f = PB_LTYPE_BYTES" and bs: "length bs \<le> data_size f - 4"
  shows "pb_dec_bytes realloc f d (dctx (string_bytes bs @ rest) (length (string_bytes bs) + N) e \<mu> :: 'st pb_dctx)
    = (Some (), dctx rest N e (mem_write (d + 4) bs (mem_write d (le_bytes 4 (length bs)) \<mu>)))"
proof -
  have d: "4 \<le> data_size f" "data_size f < 2 ^ 32 - 1" using f by (simp_all add: plain_field_def well_sized_def PB_LTYPE_defs PB_SIZE_MAX_def)
  have static: "PB_ATYPE (f_type f) \<noteq> PB_ATYPE_POINTER" using f(1) static_type_simps by (auto simp: plain_field_def is_pointer_def)
  have len: "length bs < 2 ^ 32" using bs d by linarith
  have u: "unat (of_nat (length bs) :: u32) = length bs" using len by (simp add: unsigned_of_nat take_bit_nat_eq_self)
  have a: "size_add (length bs) BYTES_OFFSET = length bs + 4" using len by (simp add: size_add_def BYTES_OFFSET_def size_mod_def)
  have c: "\<not> length bs > PB_SIZE_MAX" "\<not> length bs > length bs + 4" "\<not> length bs + 4 > data_size f"
    using bs d len by (simp_all add: PB_SIZE_MAX_def)
  show ?thesis
    unfolding pb_dec_bytes_def string_reads [OF len] Let_def u a if_not_P [OF c(1)] if_not_P [OF c(2)] if_not_P [OF static] if_not_P [OF c(3)]
    by (simp add: gbind_def store_def BYTES_OFFSET_def read_into_ibuf)
qed

lemma strlen_zero: "0 < maximum \<Longrightarrow> strlen_loop maximum m p = 0 \<longleftrightarrow> m p = 0"
  by (cases maximum) simp_all

lemma strlen_end: "strlen_loop maximum m p < maximum \<Longrightarrow> m (p + strlen_loop maximum m p) = 0"
proof (induction maximum arbitrary: p)
  case (Suc maximum)
  then show ?case using Suc.IH [of "p + 1"] by (auto split: if_splits)
qed simp

lemma value_reads:
  assumes f: "plain_field f" "ltype f \<noteq> PB_LTYPE_SUBMESSAGE" and v: "value_image f m p = Some v" "ends f m p"
  shows "\<exists>\<mu>'. PB_DECODERS env sub f d (dctx (v @ rest) (length v + N) e \<mu> :: unit pb_dctx) = Some (Some (), dctx rest N e \<mu>')
    \<and> value_image f \<mu>' d = Some v \<and> (zero_value f \<mu>' d \<longleftrightarrow> zero_value f m p) \<and> keeps {d..<d + data_size f} \<mu> \<mu>'"
proof -
  have sized: "well_sized f" using f(1) by (simp add: plain_field_def)
  have static: "PB_ATYPE (f_type f) = PB_ATYPE_STATIC" "PB_ATYPE (f_type f) \<noteq> PB_ATYPE_POINTER"
    using f(1) static_type_simps by (auto simp: plain_field_def is_static_def is_pointer_def)
  consider "ltype f \<le> PB_LTYPE_LAST_PACKABLE" | "ltype f = PB_LTYPE_BYTES" | "ltype f = PB_LTYPE_STRING"
    | "ltype f = PB_LTYPE_FIXED_LENGTH_BYTES"
    using packable_iff [OF f(1)] ltype_cases [OF f(1)] f(2) by auto
  then show ?thesis
  proof cases
    case 1
    let ?\<mu> = "mem_write d (stored f m p) \<mu>"
    have "mem_read ?\<mu> d (data_size f) = stored f m p" by (simp add: length_stored [OF f(1)])
    note s = stored_value [OF f(1) 1 this]
    have "keeps {d..<d + data_size f} \<mu> ?\<mu>" by (rule keeps_write) (simp add: length_stored [OF f(1)])
    then show ?thesis using packable_reads [OF f(1) 1 v(1)] s v(1) 1
      by (intro exI [of _ ?\<mu>]) (simp add: PB_DECODERS_def lift_def)
  next
    case 2
    let ?bs = "mem_read m (p + 4) (size_at m p)"
    let ?\<mu> = "mem_write (d + 4) ?bs (mem_write d (le_bytes 4 (size_at m p)) \<mu>)"
    have size: "size_at m p \<le> data_size f - 4" "v = string_bytes ?bs"
      using v(1) 2 by (auto simp: value_image_def PB_LTYPE_defs split: if_splits)
    have d4: "4 \<le> data_size f" using sized 2 by (simp add: well_sized_def PB_LTYPE_defs)
    have lt: "size_at m p \<le> PB_SIZE_MAX" using size(1) f(1) unfolding plain_field_def by linarith
    have "mem_read ?\<mu> d 4 = mem_read (mem_write d (le_bytes 4 (size_at m p)) \<mu>) d 4" by (rule mem_read_other) simp
    then have size': "size_at ?\<mu> d = size_at m p" using mem_nat_counter [OF lt, of d \<mu>] by (simp add: mem_nat_def)
    have "value_image f ?\<mu> d = Some v" "zero_value f ?\<mu> d \<longleftrightarrow> zero_value f m p"
      using 2 size by (simp_all add: value_image_def zero_value_def size' PB_LTYPE_defs)
    moreover have "keeps {d..<d + data_size f} \<mu> ?\<mu>"
      by (intro keeps_trans [OF keeps_write keeps_write]) (use size(1) d4 in auto)
    moreover have "length ?bs \<le> data_size f - 4" using size(1) by simp
    ultimately show ?thesis unfolding size(2) using bytes_reads [OF f(1) 2, of ?bs "heap_realloc env" d rest N e \<mu>] 2
      by (intro exI [of _ ?\<mu>]) (simp add: PB_DECODERS_def lift_def PB_LTYPE_defs PB_LTYPE_LAST_PACKABLE_def)
  next
    case 3
    let ?n = "strlen_loop (data_size f) m p"
    let ?bs = "mem_read m p ?n"
    let ?\<mu> = "mem_write (d + ?n) [0] (mem_write d ?bs \<mu>)"
    have n: "?n < data_size f" "v = string_bytes ?bs"
      using v(1,2) 3 by (simp_all add: ends_def value_image_def PB_LTYPE_defs)
    have "?n < 2 ^ 32 - 1" using n(1) f(1) by (simp add: plain_field_def PB_SIZE_MAX_def)
    then have read: "pb_dec_string (heap_realloc env) f d (dctx (string_bytes ?bs @ rest) (length (string_bytes ?bs) + N) e \<mu> :: unit pb_dctx)
        = (Some (), dctx rest N e ?\<mu>)"
      using pb_dec_string_static [OF static(2), of ?bs "heap_realloc env" d rest N e \<mu>] n(1) by simp
    have same: "?\<mu> (d + i) = m (p + i)" if "i < ?n" for i
      using that by (simp add: mem_write_def mem_read_nth)
    have len: "strlen_loop (data_size f) ?\<mu> d = ?n"
    proof (rule strlen_loop_unique [OF _ _ n(1)])
      show "\<forall>i < ?n. ?\<mu> (d + i) \<noteq> 0" using same strlen_loop_chars by metis
    qed (simp add: mem_write_def)
    have "mem_read ?\<mu> d ?n = ?bs" using same by (intro nth_equalityI) (simp_all add: mem_read_nth)
    then have "value_image f ?\<mu> d = Some v" using 3 n by (simp add: value_image_def len PB_LTYPE_defs)
    moreover have "?\<mu> d = 0 \<longleftrightarrow> m p = 0"
      using strlen_zero [of "data_size f" ?\<mu> d] strlen_zero [of "data_size f" m p] n(1) unfolding len by simp
    then have "zero_value f ?\<mu> d \<longleftrightarrow> zero_value f m p" using 3 by (simp add: zero_value_def PB_LTYPE_defs)
    moreover have "keeps {d..<d + data_size f} \<mu> ?\<mu>"
      by (intro keeps_trans [OF keeps_write keeps_write]) (use n(1) in auto)
    ultimately show ?thesis unfolding n(2) using read 3
      by (intro exI [of _ ?\<mu>]) (simp add: PB_DECODERS_def lift_def PB_LTYPE_defs PB_LTYPE_LAST_PACKABLE_def)
  next
    case 4
    let ?bs = "mem_read m p (data_size f)"
    let ?\<mu> = "mem_write d ?bs \<mu>"
    have d: "0 < data_size f" "data_size f < 2 ^ 32" "\<not> data_size f > PB_SIZE_MAX"
      using sized f(1) 4 by (simp_all add: well_sized_def plain_field_def PB_LTYPE_defs PB_SIZE_MAX_def)
    have "unat (of_nat (length ?bs) :: u32) = length ?bs" using d(2) by (simp add: unsigned_of_nat take_bit_nat_eq_self)
    then have read: "pb_dec_fixed_length_bytes f d (dctx (string_bytes ?bs @ rest) (length (string_bytes ?bs) + N) e \<mu> :: unit pb_dctx)
        = (Some (), dctx rest N e ?\<mu>)"
      using d read_into_ibuf [of d ?bs rest N e \<mu>] by (simp add: pb_dec_fixed_length_bytes_def string_reads)
    have image: "v = string_bytes ?bs" "value_image f ?\<mu> d = Some v" "zero_value f ?\<mu> d \<longleftrightarrow> zero_value f m p"
      using v(1) 4 by (simp_all add: value_image_def zero_value_def PB_LTYPE_defs)
    have "keeps {d..<d + data_size f} \<mu> ?\<mu>" by (rule keeps_write) simp
    then show ?thesis using read 4 image
      by (intro exI [of _ ?\<mu>]) (simp add: PB_DECODERS_def lift_def PB_LTYPE_defs PB_LTYPE_LAST_PACKABLE_def)
  qed
qed

section \<open>Layout\<close>

text \<open>The addresses of a field and its counter or flag, and those of a message.\<close>

definition size_cells :: "pb_field \<Rightarrow> nat \<Rightarrow> nat set" where
  "size_cells f p = (if size_offset f = 0 then {}
     else if htype f = PB_HTYPE_REPEATED then {size_addr p f..<size_addr p f + 4} else {size_addr p f})"

definition field_cells :: "pb_field \<Rightarrow> nat \<Rightarrow> nat set" where
  "field_cells f p = {p..<p + field_space f} \<union> size_cells f p"

definition message_cells :: "pb_field list \<Rightarrow> nat \<Rightarrow> nat set" where
  "message_cells fs p = (\<Union>k \<in> {..<length fs - 1}. field_cells (fs ! k) (p + field_offset fs k))"

definition field_items :: "pb_field \<Rightarrow> nat" where
  "field_items f = (if htype f = PB_HTYPE_REPEATED then array_size f else 1)"

text \<open>
  A structure whose fields have different tags and do not overlap, and whose repeated fields have a counter. The structure of a
  submessage lies within its field. A field of proto3 is zero by default.
\<close>

definition separate_field :: "(nat \<Rightarrow> nat \<Rightarrow> bool) \<Rightarrow> pb_field \<Rightarrow> nat \<Rightarrow> bool" where
  "separate_field sub f p \<longleftrightarrow> 0 < data_size f \<and> {p..<p + field_space f} \<inter> size_cells f p = {}
     \<and> (htype f = PB_HTYPE_REPEATED \<longrightarrow> size_offset f \<noteq> 0 \<and> array_size f \<le> PB_SIZE_MAX)
     \<and> (htype f = PB_HTYPE_OPTIONAL \<and> size_offset f = 0 \<and> ltype f \<noteq> PB_LTYPE_SUBMESSAGE \<longrightarrow> f_ptr f = 0)
     \<and> (ltype f = PB_LTYPE_SUBMESSAGE \<longrightarrow> (\<forall>i < field_items f. sub (f_ptr f) (p + data_size f * i)))"

fun separate :: "'st pb_env \<Rightarrow> nat \<Rightarrow> nat \<Rightarrow> nat \<Rightarrow> bool" where
  "separate env 0 fp p \<longleftrightarrow> False"
| "separate env (Suc n) fp p \<longleftrightarrow> (let fs = fields_at env fp in
     (\<forall>j < length fs - 1. \<forall>k < length fs - 1. j \<noteq> k \<longrightarrow> f_tag (fs ! j) \<noteq> f_tag (fs ! k)
        \<and> field_cells (fs ! j) (p + field_offset fs j) \<inter> field_cells (fs ! k) (p + field_offset fs k) = {})
     \<and> (\<forall>k < length fs - 1. separate_field (\<lambda>fp' q. separate env n fp' q
          \<and> message_cells (fields_at env fp') q \<subseteq> {q..<q + data_size (fs ! k)}) (fs ! k) (p + field_offset fs k)))"

lemma separateD:
  assumes "separate env (Suc n) fp p" "k < length (fields_at env fp) - 1"
  shows "separate_field (\<lambda>fp' q. separate env n fp' q \<and> message_cells (fields_at env fp') q \<subseteq> {q..<q + data_size (fields_at env fp ! k)})
      (fields_at env fp ! k) (p + field_offset (fields_at env fp) k)"
    "\<And>j. j < length (fields_at env fp) - 1 \<Longrightarrow> j \<noteq> k \<Longrightarrow> f_tag (fields_at env fp ! j) \<noteq> f_tag (fields_at env fp ! k)
      \<and> field_cells (fields_at env fp ! j) (p + field_offset (fields_at env fp) j)
        \<inter> field_cells (fields_at env fp ! k) (p + field_offset (fields_at env fp) k) = {}"
  using assms by (simp_all add: Let_def)

lemma field_space_items: "plain_field f \<Longrightarrow> field_space f = data_size f * field_items f"
  using plain_htypes [of f] by (auto simp: field_space_def field_items_def is_static_def is_pointer_def)

text \<open>An item lies within its field.\<close>

lemma item_cells:
  assumes "plain_field f" "i < field_items f"
  shows "{p + data_size f * i..<p + data_size f * i + data_size f} \<subseteq> {p..<p + field_space f}"
  using item_range [OF assms(2), of "data_size f"] by (auto simp: field_space_items [OF assms(1)])

lemma separate_item:
  assumes "separate env (Suc n) fp p" "k < length (fields_at env fp) - 1" "ltype (fields_at env fp ! k) = PB_LTYPE_SUBMESSAGE"
    and "i < field_items (fields_at env fp ! k)"
  defines "q \<equiv> p + field_offset (fields_at env fp) k + data_size (fields_at env fp ! k) * i"
  shows "separate env n (f_ptr (fields_at env fp ! k)) q"
    and "message_cells (fields_at env (f_ptr (fields_at env fp ! k))) q \<subseteq> {q..<q + data_size (fields_at env fp ! k)}"
  using separateD(1) [OF assms(1,2)] assms(3,4) unfolding q_def separate_field_def by blast+

lemma items_exist: "plain_field f \<Longrightarrow> 0 < field_items f"
  by (auto simp: field_items_def plain_field_def)

lemmas separate_first = separate_item [where i = 0, unfolded mult_0_right add_0_right]

subsection \<open>What an image depends on\<close>

definition agree :: "nat set \<Rightarrow> mem \<Rightarrow> mem \<Rightarrow> bool" where
  "agree A m m' \<longleftrightarrow> (\<forall>a \<in> A. m a = m' a)"

lemma agree_mono: "agree B m m' \<Longrightarrow> A \<subseteq> B \<Longrightarrow> agree A m m'"
  by (auto simp: agree_def)

lemma keeps_agree: "keeps A m m' \<Longrightarrow> A \<inter> B = {} \<Longrightarrow> agree B m' m"
  by (auto simp: keeps_def agree_def)

lemma mem_read_agree: "agree {p..<p + n} m m' \<Longrightarrow> mem_read m p n = mem_read m' p n"
  by (simp add: mem_read_def agree_def)

lemma strlen_agree: "agree {p..<p + n} m m' \<Longrightarrow> strlen_loop n m p = strlen_loop n m' p"
proof (induction n arbitrary: p)
  case (Suc n)
  have "agree {p + 1..<p + 1 + n} m m'" "m p = m' p" using Suc.prems by (auto simp: agree_def)
  with Suc.IH [of "p + 1"] show ?case by simp
qed simp

lemma value_agree:
  assumes f: "plain_field f" "ltype f \<noteq> PB_LTYPE_SUBMESSAGE" and a: "agree {p..<p + data_size f} m m'"
  shows "value_image f m p = value_image f m' p" "zero_value f m p \<longleftrightarrow> zero_value f m' p"
proof -
  have r: "mem_read m (p + i) n = mem_read m' (p + i) n" if "i + n \<le> data_size f" for i n
    using agree_mono [OF a, of "{p + i..<p + i + n}"] that by (intro mem_read_agree) auto
  have r0: "mem_read m p n = mem_read m' p n" if "n \<le> data_size f" for n using r [of 0 n] that by simp
  have s: "strlen_loop (data_size f) m p = strlen_loop (data_size f) m' p" by (rule strlen_agree [OF a])
  have first: "m p = m' p" if "0 < data_size f" using a that by (auto simp: agree_def)
  have sized: "well_sized f" using f(1) by (simp add: plain_field_def)
  consider "ltype f \<le> PB_LTYPE_LAST_PACKABLE" | "ltype f = PB_LTYPE_BYTES" | "ltype f = PB_LTYPE_STRING"
    | "ltype f = PB_LTYPE_FIXED_LENGTH_BYTES"
    using packable_iff [OF f(1)] ltype_cases [OF f(1)] f(2) by auto
  then have "value_image f m p = value_image f m' p \<and> (zero_value f m p \<longleftrightarrow> zero_value f m' p)"
  proof cases
    case 1
    note packable_formulas(5) [OF f(1) 1]
    then show ?thesis unfolding packable_formulas(1,2) [OF f(1) 1] using r0 first by simp
  next
    case 2
    then have "4 \<le> data_size f" using sized by (simp add: well_sized_def PB_LTYPE_defs)
    moreover from this have "size_at m p = size_at m' p" using r0 [of 4] by (simp add: mem_nat_def)
    ultimately show ?thesis using 2 r [of 4 "size_at m' p"] by (simp add: value_image_def zero_value_def PB_LTYPE_defs)
  next
    case 3
    then have "0 < data_size f" using sized by (simp add: well_sized_def PB_LTYPE_defs)
    then show ?thesis using 3 s r0 [of "strlen_loop (data_size f) m' p"] first strlen_loop_le
      by (simp add: value_image_def zero_value_def PB_LTYPE_defs)
  next
    case 4
    then show ?thesis using r0 by (simp add: value_image_def zero_value_def PB_LTYPE_defs)
  qed
  then show "value_image f m p = value_image f m' p" "zero_value f m p \<longleftrightarrow> zero_value f m' p" by simp_all
qed

lemma size_agree:
  assumes "agree (size_cells f p) m m'" "size_offset f \<noteq> 0"
  shows "htype f = PB_HTYPE_REPEATED \<Longrightarrow> size_at m (size_addr p f) = size_at m' (size_addr p f)"
    and "htype f \<noteq> PB_HTYPE_REPEATED \<Longrightarrow> m (size_addr p f) = m' (size_addr p f)"
  using assms mem_read_agree [of "size_addr p f" 4 m m'] by (auto simp: size_cells_def mem_nat_def agree_def)

lemma item_agree:
  assumes "plain_field f" "agree {p..<p + data_size f} m m'" "ltype f = PB_LTYPE_SUBMESSAGE \<Longrightarrow> sub (f_ptr f) p = sub' (f_ptr f) p"
  shows "item_image sub f m p = item_image sub' f m' p"
  using assms value_agree(1) [OF assms(1) _ assms(2)] by (simp add: item_image_def)

lemma field_agree:
  assumes f: "plain_field f" and a: "agree (field_cells f p) m m'"
    and sub: "\<And>i. ltype f = PB_LTYPE_SUBMESSAGE \<Longrightarrow> i < field_items f \<Longrightarrow> sub (f_ptr f) (p + data_size f * i) = sub' (f_ptr f) (p + data_size f * i)"
  shows "field_image sub f m p = field_image sub' f m' p"
proof -
  have cells: "agree {p..<p + field_space f} m m'" "agree (size_cells f p) m m'"
    using agree_mono [OF a] by (auto simp: field_cells_def)
  have items: "item_image sub f m (p + data_size f * i) = item_image sub' f m' (p + data_size f * i)" if "i < field_items f" for i
    using agree_mono [OF cells(1) item_cells [OF f that]] sub that by (intro item_agree f) simp_all
  show ?thesis
  proof (cases "htype f = PB_HTYPE_REPEATED")
    case True
    then have cnt: "item_count f m p = item_count f m' p" using size_agree(1) [OF cells(2)] by (simp add: item_count_def)
    show ?thesis
    proof (cases "item_count f m' p > array_size f")
      case False
      then have "map (\<lambda>i. item_image sub f m (p + data_size f * i)) [0..<item_count f m' p]
          = map (\<lambda>i. item_image sub' f m' (p + data_size f * i)) [0..<item_count f m' p]"
        using items True by (simp add: field_items_def)
      then show ?thesis unfolding field_image_def Let_def cnt by (simp only: if_P [OF True])
    qed (use True in \<open>simp add: field_image_def cnt Let_def\<close>)
  next
    case False
    then have one: "field_items f = 1" by (simp add: field_items_def)
    have "left_out sub f m p = left_out sub' f m' p"
      using size_agree(2) [OF cells(2)] sub [of 0] value_agree(2) [OF f, of p m m'] cells(1) one False
      by (auto simp: left_out_def field_space_items [OF f])
    then show ?thesis using items [of 0] one False by (simp add: field_image_def)
  qed
qed

text \<open>One field of a message, when the images of submessages depend on their cells alone.\<close>

lemma field_image_stable:
  assumes IH: "\<And>fp p. plain_message env n fp \<Longrightarrow> separate env n fp p \<Longrightarrow> agree (message_cells (fields_at env fp) p) m m' \<Longrightarrow>
      message_image env n m fp p = message_image env n m' fp p"
    and plain: "plain_message env (Suc n) fp" and sep: "separate env (Suc n) fp p" and k: "k < length (fields_at env fp) - 1"
    and a: "agree (field_cells (fields_at env fp ! k) (p + field_offset (fields_at env fp) k)) m m'"
  shows "field_image (message_image env n m) (fields_at env fp ! k) m (p + field_offset (fields_at env fp) k)
      = field_image (message_image env n m') (fields_at env fp ! k) m' (p + field_offset (fields_at env fp) k)"
proof (rule field_agree [OF _ a])
  let ?fs = "fields_at env fp"
  note f = plain_message_field [OF plain k]
  show "plain_field (?fs ! k)" by (rule f)
  fix i assume i: "ltype (?fs ! k) = PB_LTYPE_SUBMESSAGE" "i < field_items (?fs ! k)"
  note sub = separate_item [OF sep k i]
  show "message_image env n m (f_ptr (?fs ! k)) (p + field_offset ?fs k + data_size (?fs ! k) * i)
      = message_image env n m' (f_ptr (?fs ! k)) (p + field_offset ?fs k + data_size (?fs ! k) * i)"
    using sub(2) item_cells [OF f(1) i(2), of "p + field_offset ?fs k"]
    by (intro IH [OF f(2) [OF i(1)] sub(1)] agree_mono [OF a]) (auto simp: field_cells_def)
qed

lemma field_cells_message: "k < length fs - 1 \<Longrightarrow> field_cells (fs ! k) (p + field_offset fs k) \<subseteq> message_cells fs p"
  by (auto simp: message_cells_def)

lemma message_agree:
  "plain_message env n fp \<Longrightarrow> separate env n fp p \<Longrightarrow> agree (message_cells (fields_at env fp) p) m m' \<Longrightarrow>
     message_image env n m fp p = message_image env n m' fp p"
proof (induction n arbitrary: fp p)
  case (Suc n)
  let ?fs = "fields_at env fp"
  have "field_image (message_image env n m) (?fs ! k) m (p + field_offset ?fs k)
      = field_image (message_image env n m') (?fs ! k) m' (p + field_offset ?fs k)" if k: "k < length ?fs - 1" for k
    by (rule field_image_stable [OF Suc.IH Suc.prems(1,2) k agree_mono [OF Suc.prems(3) field_cells_message [OF k]]])
  then have "map (\<lambda>k. field_image (message_image env n m) (?fs ! k) m (p + field_offset ?fs k)) [0..<length ?fs - 1]
      = map (\<lambda>k. field_image (message_image env n m') (?fs ! k) m' (p + field_offset ?fs k)) [0..<length ?fs - 1]" by simp
  then show ?case unfolding message_image.simps Let_def by (rule arg_cong)
qed simp

section \<open>Default values\<close>

text \<open>A field before any of its records has been decoded.\<close>

definition fresh_field :: "(nat \<Rightarrow> nat \<Rightarrow> bool) \<Rightarrow> pb_field \<Rightarrow> mem \<Rightarrow> nat \<Rightarrow> bool" where
  "fresh_field sub f m p \<longleftrightarrow>
     (if htype f = PB_HTYPE_REPEATED then size_at m (size_addr p f) = 0
      else (htype f = PB_HTYPE_OPTIONAL \<and> size_offset f \<noteq> 0 \<longrightarrow> m (size_addr p f) = 0)
        \<and> (if ltype f = PB_LTYPE_SUBMESSAGE then sub (f_ptr f) p
           else htype f = PB_HTYPE_OPTIONAL \<and> size_offset f = 0 \<and> ltype f \<noteq> PB_LTYPE_FIXED_LENGTH_BYTES \<longrightarrow> zero_value f m p))"

fun fresh_message :: "'st pb_env \<Rightarrow> nat \<Rightarrow> mem \<Rightarrow> nat \<Rightarrow> nat \<Rightarrow> bool" where
  "fresh_message env 0 m fp p \<longleftrightarrow> False"
| "fresh_message env (Suc n) m fp p \<longleftrightarrow> (let fs = fields_at env fp in
     \<forall>k < length fs - 1. fresh_field (fresh_message env n m) (fs ! k) m (p + field_offset fs k))"

lemma fresh_field_agree:
  assumes f: "plain_field f" and a: "agree (field_cells f p) m m'" and r: "htype f = PB_HTYPE_REPEATED \<longrightarrow> size_offset f \<noteq> 0"
    and sub: "ltype f = PB_LTYPE_SUBMESSAGE \<Longrightarrow> htype f \<noteq> PB_HTYPE_REPEATED \<Longrightarrow> sub (f_ptr f) p = sub' (f_ptr f) p"
  shows "fresh_field sub f m p \<longleftrightarrow> fresh_field sub' f m' p"
proof -
  have cells: "agree {p..<p + field_space f} m m'" "agree (size_cells f p) m m'"
    using agree_mono [OF a] by (auto simp: field_cells_def)
  show ?thesis
  proof (cases "htype f = PB_HTYPE_REPEATED")
    case True
    then show ?thesis using size_agree(1) [OF cells(2)] r by (simp add: fresh_field_def)
  next
    case False
    then have "field_space f = data_size f" by (simp add: field_space_items [OF f] field_items_def)
    then show ?thesis using size_agree(2) [OF cells(2)] value_agree(2) [OF f, of p m m'] cells(1) sub False
      by (auto simp: fresh_field_def)
  qed
qed

lemma fresh_field_stable:
  assumes IH: "\<And>fp p. plain_message env n fp \<Longrightarrow> separate env n fp p \<Longrightarrow> agree (message_cells (fields_at env fp) p) m m' \<Longrightarrow>
      fresh_message env n m fp p = fresh_message env n m' fp p"
    and plain: "plain_message env (Suc n) fp" and sep: "separate env (Suc n) fp p" and k: "k < length (fields_at env fp) - 1"
    and a: "agree (field_cells (fields_at env fp ! k) (p + field_offset (fields_at env fp) k)) m m'"
  shows "fresh_field (fresh_message env n m) (fields_at env fp ! k) m (p + field_offset (fields_at env fp) k)
      \<longleftrightarrow> fresh_field (fresh_message env n m') (fields_at env fp ! k) m' (p + field_offset (fields_at env fp) k)"
proof (rule fresh_field_agree [OF _ a])
  let ?fs = "fields_at env fp" and ?q = "p + field_offset (fields_at env fp) k"
  note f = plain_message_field [OF plain k]
  show "plain_field (?fs ! k)" by (rule f)
  show "htype (?fs ! k) = PB_HTYPE_REPEATED \<longrightarrow> size_offset (?fs ! k) \<noteq> 0"
    using separateD(1) [OF sep k] by (simp add: separate_field_def)
  assume i: "ltype (?fs ! k) = PB_LTYPE_SUBMESSAGE"
  note sub = separate_first [OF sep k i items_exist [OF f(1)]]
  show "fresh_message env n m (f_ptr (?fs ! k)) ?q = fresh_message env n m' (f_ptr (?fs ! k)) ?q"
    using sub(2) item_cells [OF f(1) items_exist [OF f(1)], of ?q, unfolded mult_0_right add_0_right]
    by (intro IH [OF f(2) [OF i] sub(1)] agree_mono [OF a]) (auto simp: field_cells_def)
qed

lemma fresh_agree:
  "plain_message env n fp \<Longrightarrow> separate env n fp p \<Longrightarrow> agree (message_cells (fields_at env fp) p) m m' \<Longrightarrow>
     fresh_message env n m fp p \<longleftrightarrow> fresh_message env n m' fp p"
proof (induction n arbitrary: fp p)
  case (Suc n)
  have "fresh_field (fresh_message env n m) (fields_at env fp ! k) m (p + field_offset (fields_at env fp) k)
      \<longleftrightarrow> fresh_field (fresh_message env n m') (fields_at env fp ! k) m' (p + field_offset (fields_at env fp) k)"
    if k: "k < length (fields_at env fp) - 1" for k
    by (rule fresh_field_stable [OF Suc.IH Suc.prems(1,2) k agree_mono [OF Suc.prems(3) field_cells_message [OF k]]])
  then show ?case by (simp add: Let_def)
qed simp

text \<open>What was left out stays left out.\<close>

lemma fresh_field_empty:
  assumes f: "plain_field f" and r: "htype f = PB_HTYPE_REPEATED \<longrightarrow> size_offset f \<noteq> 0"
    and "field_image sub f m p = Some []" "fresh_field fr f \<mu> d"
    and sub: "ltype f = PB_LTYPE_SUBMESSAGE \<Longrightarrow> sub (f_ptr f) p = Some [] \<Longrightarrow> fr (f_ptr f) d \<Longrightarrow> sub' (f_ptr f) d = Some []"
  shows "field_image sub' f \<mu> d = Some []"
proof -
  have "ltype f = PB_LTYPE_FIXED_LENGTH_BYTES \<Longrightarrow> \<not> zero_value f m p" using f
    by (simp add: plain_field_def well_sized_def zero_value_def PB_LTYPE_defs)
  then show ?thesis
    using assms(2-) unfolding field_image_empty [OF f]
    by (auto simp: fresh_field_def left_out_def item_count_def split: if_splits)
qed

lemma fresh_empty:
  "plain_message env n fp \<Longrightarrow> separate env n fp d \<Longrightarrow> message_image env n m fp p = Some [] \<Longrightarrow> fresh_message env n \<mu> fp d \<Longrightarrow>
     message_image env n \<mu> fp d = Some []"
proof (induction n arbitrary: fp p d)
  case (Suc n)
  let ?fs = "fields_at env fp"
  have "field_image (message_image env n \<mu>) (?fs ! k) \<mu> (d + field_offset ?fs k) = Some []" if k: "k < length ?fs - 1" for k
  proof (rule fresh_field_empty)
    note f = plain_message_field [OF Suc.prems(1) k]
    note s = separateD(1) [OF Suc.prems(2) k, unfolded separate_field_def]
    show "plain_field (?fs ! k)" "htype (?fs ! k) = PB_HTYPE_REPEATED \<longrightarrow> size_offset (?fs ! k) \<noteq> 0" using f s by blast+
    show "field_image (message_image env n m) (?fs ! k) m (p + field_offset ?fs k) = Some []"
      using Suc.prems(3) k by (auto simp: Let_def cat_empty)
    show "fresh_field (fresh_message env n \<mu>) (?fs ! k) \<mu> (d + field_offset ?fs k)"
      using Suc.prems(4) k by (simp add: Let_def)
    assume i: "ltype (?fs ! k) = PB_LTYPE_SUBMESSAGE"
      "message_image env n m (f_ptr (?fs ! k)) (p + field_offset ?fs k) = Some []"
      "fresh_message env n \<mu> (f_ptr (?fs ! k)) (d + field_offset ?fs k)"
    show "message_image env n \<mu> (f_ptr (?fs ! k)) (d + field_offset ?fs k) = Some []"
      by (rule Suc.IH [OF f(2) [OF i(1)] separate_first(1) [OF Suc.prems(2) k i(1) items_exist [OF f(1)]] i(2,3)])
  qed
  then show ?case by (auto simp: Let_def cat_empty)
qed simp

subsection \<open>Setting a message to its defaults\<close>

lemma size_of_set_size: "k \<le> PB_SIZE_MAX \<Longrightarrow> size_at (set_size a k m) a = k"
  by (simp add: set_size_def mem_nat_counter)

lemma keeps_set_size: "{a..<a + 4} \<subseteq> A \<Longrightarrow> keeps A m (set_size a k m)"
  unfolding set_size_def by (rule keeps_write) simp

lemma keeps_set_bool: "a \<in> A \<Longrightarrow> keeps A m (set_bool a b m)"
  unfolding set_bool_def by (rule keeps_write) auto

lemma zero_mem_zero:
  assumes "plain_field f" "ltype f \<noteq> PB_LTYPE_SUBMESSAGE" "ltype f \<noteq> PB_LTYPE_FIXED_LENGTH_BYTES"
  shows "zero_value f (mem_zero p (data_size f) m) p"
proof -
  have sized: "well_sized f" using assms(1) by (simp add: plain_field_def)
  have z: "mem_zero p (data_size f) m a = 0" if "a \<in> {p..<p + data_size f}" for a
    using that by (auto simp: mem_zero_def mem_write_def)
  have r: "mem_read (mem_zero p (data_size f) m) p n = replicate n 0" if "n \<le> data_size f" for n
    using z that by (intro nth_equalityI) (simp_all add: mem_read_nth)
  have le0: "le_value (replicate n 0) = 0" for n by (induction n) simp_all
  show ?thesis
    using ltype_cases [OF assms(1)] assms(2,3) sized r [of 4] r [of "data_size f"] z [of p] le0 [of 4]
    by (auto simp: zero_value_def well_sized_def PB_LTYPE_defs is_zero_def mem_nat_def list_all_iff)
qed

lemma field_walk_at:
  assumes fs: "terminated fs"
    and step: "\<And>k m. k < length fs - 1 \<Longrightarrow> \<exists>m'. g (iter_at fs p k) m = Some m' \<and> P k m' \<and> keeps (C k) m m'"
    and stable: "\<And>j k m m'. j < length fs - 1 \<Longrightarrow> k < length fs - 1 \<Longrightarrow> j \<noteq> k \<Longrightarrow> P j m \<Longrightarrow> keeps (C k) m m' \<Longrightarrow> P j m'"
    and k: "k < length fs - 1" "\<forall>j < k. P j m"
  shows "\<exists>m'. field_walk g (iter_at fs p k) m = Some m' \<and> (\<forall>j < length fs - 1. P j m') \<and> keeps (\<Union>j \<in> {..<length fs - 1}. C j) m m'"
  using k
proof (induction "length fs - 1 - k" arbitrary: k m)
  case (Suc d)
  obtain m1 where m1: "g (iter_at fs p k) m = Some m1" "P k m1" "keeps (C k) m m1" using step [OF Suc.prems(1)] by blast
  have cells: "keeps (\<Union>j \<in> {..<length fs - 1}. C j) m m1"
    using Suc.prems(1) by (intro keeps_mono [OF m1(3)]) auto
  have before: "P j m1" if "j < Suc k" for j
    using that Suc.prems m1(2) stable [OF _ Suc.prems(1) _ _ m1(3), of j] by (cases "j = k") auto
  show ?case
  proof (cases "Suc k < length fs - 1")
    case True
    then have "d = length fs - 1 - Suc k" using Suc(2) by linarith
    from Suc(1) [OF this True, of m1] before obtain m2 where
      m2: "field_walk g (iter_at fs p (Suc k)) m1 = Some m2" "\<forall>j < length fs - 1. P j m2" "keeps (\<Union>j \<in> {..<length fs - 1}. C j) m1 m2"
      by blast
    have "field_walk g (iter_at fs p k) m = Some m2"
      using m1(1) m2(1) True by (simp add: field_walk.simps [of g "iter_at fs p k"] iter_at_next [OF fs Suc.prems(1)])
    with m2 keeps_trans [OF cells m2(3)] show ?thesis by blast
  next
    case False
    then have "\<forall>j < length fs - 1. P j m1" using before Suc.prems(1) by (metis less_antisym not_less_iff_gr_or_eq less_trans_Suc)
    moreover have "field_walk g (iter_at fs p k) m = Some m1"
      using m1(1) False by (simp add: field_walk.simps [of g "iter_at fs p k"] iter_at_next [OF fs Suc.prems(1)])
    ultimately show ?thesis using cells by blast
  qed
qed simp

lemma default_field:
  assumes f: "plain_field f" "separate_field sep f p" and it: "cur_field it = f" "pData it = p" "pSize it = size_addr p f"
    and sub: "\<And>m. ltype f = PB_LTYPE_SUBMESSAGE \<Longrightarrow>
      \<exists>m'. set_to_defaults (pb_field_set_to_default env N) (fields_at env (f_ptr f)) p m = Some m' \<and> fr m' (f_ptr f) p
        \<and> keeps {p..<p + data_size f} m m'"
  shows "\<exists>m'. pb_field_set_to_default env (Suc N) it m = Some m' \<and> fresh_field (fr m') f m' p \<and> keeps (field_cells f p) m m'"
proof -
  note h = plain_htypes [OF f(1)]
  have sized: "well_sized f" using f(1) by (simp add: plain_field_def)
  show ?thesis
  proof (cases "htype f = PB_HTYPE_REPEATED")
    case True
    let ?m = "set_size (size_addr p f) 0 m"
    have "keeps (field_cells f p) m ?m"
      using f(2) True by (intro keeps_set_size) (auto simp: separate_field_def field_cells_def size_cells_def)
    then show ?thesis using h it True by (intro exI [of _ ?m]) (simp add: Let_def fresh_field_def size_of_set_size)
  next
    case False
    then have space: "field_space f = data_size f" by (simp add: field_space_items [OF f(1)] field_items_def)
    have d: "0 < data_size f" and apart: "{p..<p + data_size f} \<inter> size_cells f p = {}"
      using f(2) space by (simp_all add: separate_field_def)
    have cell: "size_offset f \<noteq> 0 \<Longrightarrow> size_addr p f \<in> size_cells f p" using False by (simp add: size_cells_def)
    have "size_offset f \<noteq> 0 \<Longrightarrow> size_addr p f \<noteq> p" using cell apart d by force
    moreover have "size_offset f = 0 \<Longrightarrow> size_addr p f = p" by (simp add: size_addr_def)
    ultimately have flag: "size_addr p f \<noteq> p \<longleftrightarrow> size_offset f \<noteq> 0" by blast
    define m1 where "m1 = (if htype f = PB_HTYPE_OPTIONAL \<and> size_addr p f \<noteq> p then set_bool (size_addr p f) False m else m)"
    have m1: "keeps (field_cells f p) m m1"
      using False flag by (auto simp: m1_def field_cells_def size_cells_def intro: keeps_set_bool)
    have result: "pb_field_set_to_default env (Suc N) it m = (if ltype f = PB_LTYPE_SUBMESSAGE
        then set_to_defaults (pb_field_set_to_default env N) (fields_at env (f_ptr f)) p m1
        else if f_ptr f \<noteq> 0 then Some (mem_write p (mem_read m1 (f_ptr f) (data_size f)) m1) else Some (mem_zero p (data_size f) m1))"
      unfolding pb_field_set_to_default.simps Let_def it m1_def [symmetric] using h False by simp
    obtain m2 where m2: "pb_field_set_to_default env (Suc N) it m = Some m2" "keeps {p..<p + data_size f} m1 m2"
      "ltype f = PB_LTYPE_SUBMESSAGE \<longrightarrow> fr m2 (f_ptr f) p"
      "ltype f \<noteq> PB_LTYPE_SUBMESSAGE \<and> htype f = PB_HTYPE_OPTIONAL \<and> size_offset f = 0 \<and> ltype f \<noteq> PB_LTYPE_FIXED_LENGTH_BYTES
        \<longrightarrow> zero_value f m2 p"
    proof (cases "ltype f = PB_LTYPE_SUBMESSAGE")
      case True
      obtain m2 where "set_to_defaults (pb_field_set_to_default env N) (fields_at env (f_ptr f)) p m1 = Some m2" "fr m2 (f_ptr f) p"
        "keeps {p..<p + data_size f} m1 m2" using sub [OF True] by blast
      then show thesis using True by (intro that [of m2]) (simp_all add: result del: pb_field_set_to_default.simps)
    next
      case ns: False
      let ?m2 = "if f_ptr f \<noteq> 0 then mem_write p (mem_read m1 (f_ptr f) (data_size f)) m1 else mem_zero p (data_size f) m1"
      show thesis
      proof (rule that [of ?m2])
        show "keeps {p..<p + data_size f} m1 ?m2" unfolding mem_zero_def by (auto intro!: keeps_write)
        show "pb_field_set_to_default env (Suc N) it m = Some ?m2" using ns by (simp add: result del: pb_field_set_to_default.simps)
        show "ltype f \<noteq> PB_LTYPE_SUBMESSAGE \<and> htype f = PB_HTYPE_OPTIONAL \<and> size_offset f = 0 \<and> ltype f \<noteq> PB_LTYPE_FIXED_LENGTH_BYTES
          \<longrightarrow> zero_value f ?m2 p" using f zero_mem_zero [OF f(1)] by (auto simp: separate_field_def)
      qed (use ns in simp)
    qed
    have "keeps (field_cells f p) m m2"
      using keeps_trans [OF m1 keeps_mono [OF m2(2)]] by (auto simp: field_cells_def space)
    moreover have "m2 (size_addr p f) = 0" if "htype f = PB_HTYPE_OPTIONAL" "size_offset f \<noteq> 0"
    proof -
      have "m2 (size_addr p f) = m1 (size_addr p f)"
        using m2(2) apart that False by (auto simp: keeps_def size_cells_def)
      then show ?thesis using that flag by (simp add: m1_def set_bool_def mem_write_def)
    qed
    ultimately show ?thesis using m2 False by (intro exI [of _ m2]) (auto simp: fresh_field_def)
  qed
qed

lemma defaults_fresh:
  "plain_message env n fp \<Longrightarrow> separate env n fp p \<Longrightarrow> p \<noteq> 0 \<Longrightarrow> n \<le> N \<Longrightarrow>
     \<exists>m'. set_to_defaults (pb_field_set_to_default env N) (fields_at env fp) p m = Some m' \<and> fresh_message env n m' fp p
       \<and> keeps (message_cells (fields_at env fp) p) m m'"
proof (induction n arbitrary: N fp p m)
  case (Suc n)
  then obtain N' where N: "N = Suc N'" "n \<le> N'" by (cases N) auto
  let ?fs = "fields_at env fp"
  note fs = plain_messageD [OF Suc.prems(1)]
  let ?P = "\<lambda>k m. fresh_field (fresh_message env n m) (?fs ! k) m (p + field_offset ?fs k)"
  let ?C = "\<lambda>k. field_cells (?fs ! k) (p + field_offset ?fs k)"
  have step: "\<exists>m'. pb_field_set_to_default env N (iter_at ?fs p k) m = Some m' \<and> ?P k m' \<and> keeps (?C k) m m'"
    if k: "k < length ?fs - 1" for k m
    unfolding N(1)
  proof (rule default_field)
    note f = plain_message_field [OF Suc.prems(1) k]
    note at = plain_addresses [OF Suc.prems(1,3) k]
    show "plain_field (?fs ! k)" by (rule f)
    show "separate_field (\<lambda>fp' q. separate env n fp' q \<and> message_cells (fields_at env fp') q \<subseteq> {q..<q + data_size (?fs ! k)})
        (?fs ! k) (p + field_offset ?fs k)" by (rule separateD [OF Suc.prems(2) k])
    show "cur_field (iter_at ?fs p k) = ?fs ! k" "pData (iter_at ?fs p k) = p + field_offset ?fs k"
      "pSize (iter_at ?fs p k) = size_addr (p + field_offset ?fs k) (?fs ! k)" by (rule at)+
    fix m assume i: "ltype (?fs ! k) = PB_LTYPE_SUBMESSAGE"
    note s = separate_first [OF Suc.prems(2) k i items_exist [OF f(1)]]
    have "p + field_offset ?fs k \<noteq> 0" using Suc.prems(3) by simp
    from Suc.IH [OF f(2) [OF i] s(1) this N(2), of m] s(2)
    show "\<exists>m'. set_to_defaults (pb_field_set_to_default env N') (fields_at env (f_ptr (?fs ! k))) (p + field_offset ?fs k) m = Some m'
        \<and> fresh_message env n m' (f_ptr (?fs ! k)) (p + field_offset ?fs k)
        \<and> keeps {p + field_offset ?fs k..<p + field_offset ?fs k + data_size (?fs ! k)} m m'"
      by (blast intro: keeps_mono)
  qed
  have stable: "?P j m'" if j: "j < length ?fs - 1" and k: "k < length ?fs - 1" and "j \<noteq> k" "?P j m" "keeps (?C k) m m'" for j k m m'
  proof -
    have "?C k \<inter> ?C j = {}" using separateD(2) [OF Suc.prems(2) j k] \<open>j \<noteq> k\<close> by auto
    from fresh_field_stable [OF fresh_agree Suc.prems(1,2) j keeps_agree [OF that(5) this]]
    have "?P j m' \<longleftrightarrow> ?P j m" .
    with that(4) show ?thesis by simp
  qed
  have "pb_field_iter_begin ?fs p = (True, iter_at ?fs p 0)"
    using fs by (auto simp: iter_at_0 pb_field_iter_begin_def Let_def terminated_def)
  moreover have "\<exists>m'. field_walk (pb_field_set_to_default env N) (iter_at ?fs p 0) m = Some m' \<and> (\<forall>j < length ?fs - 1. ?P j m')
      \<and> keeps (\<Union>j \<in> {..<length ?fs - 1}. ?C j) m m'"
  proof (rule field_walk_at [where P = ?P and C = ?C, OF fs(1) step])
    show "?P j m'" if "j < length ?fs - 1" "k < length ?fs - 1" "j \<noteq> k" "?P j m" "keeps (?C k) m m'" for j k m m'
      using that by (rule stable)
  qed (use fs(2) in simp_all)
  ultimately show ?case
    by (auto simp: set_to_defaults_def message_cells_def Let_def simp del: pb_field_set_to_default.simps)
qed simp

section \<open>Decoding a field\<close>

text \<open>The strings that are present have a terminator.\<close>

definition ends_field :: "(nat \<Rightarrow> nat \<Rightarrow> bool) \<Rightarrow> pb_field \<Rightarrow> mem \<Rightarrow> nat \<Rightarrow> bool" where
  "ends_field sub f m p \<longleftrightarrow> htype f = PB_HTYPE_OPTIONAL \<and> size_offset f \<noteq> 0 \<and> m (size_addr p f) = 0
     \<or> (\<forall>i < (if htype f = PB_HTYPE_REPEATED then item_count f m p else 1).
          if ltype f = PB_LTYPE_SUBMESSAGE then sub (f_ptr f) (p + data_size f * i) else ends f m (p + data_size f * i))"

fun ends_message :: "'st pb_env \<Rightarrow> nat \<Rightarrow> mem \<Rightarrow> nat \<Rightarrow> nat \<Rightarrow> bool" where
  "ends_message env 0 m fp p \<longleftrightarrow> False"
| "ends_message env (Suc n) m fp p \<longleftrightarrow> (let fs = fields_at env fp in
     \<forall>k < length fs - 1. ends_field (ends_message env n m) (fs ! k) m (p + field_offset fs k))"

text \<open>The local variables of \<open>pb_decode_noinit\<close> that the code takes the address of, in all activations.\<close>

definition locals :: "'st pb_env \<Rightarrow> nat set" where
  "locals env = (\<Union>j. {fixed_count_size env j..<fixed_count_size env j + 4})"

text \<open>A decoder of submessages that does its work.\<close>

definition sub_decodes :: "unit pb_env \<Rightarrow> nat \<Rightarrow> (pb_field \<Rightarrow> nat \<Rightarrow> (unit, unit) pop) \<Rightarrow> mem \<Rightarrow> pb_field \<Rightarrow> bool" where
  "sub_decodes env n sub m f \<longleftrightarrow> (\<forall>p v d \<mu> rest N e.
     message_image env n m (f_ptr f) p = Some v \<and> ends_message env n m (f_ptr f) p \<and> length v < 2 ^ 32 \<and> separate env n (f_ptr f) d
     \<and> (htype f \<noteq> PB_HTYPE_REPEATED \<longrightarrow> fresh_message env n \<mu> (f_ptr f) d) \<and> d \<noteq> 0
     \<and> message_cells (fields_at env (f_ptr f)) d \<inter> locals env = {} \<longrightarrow>
     (\<exists>\<mu>'. sub f d (dctx (string_bytes v @ rest) (length (string_bytes v) + N) e \<mu>) = Some (Some (), dctx rest N e \<mu>')
        \<and> message_image env n \<mu>' (f_ptr f) d = Some v \<and> keeps (message_cells (fields_at env (f_ptr f)) d \<union> locals env) \<mu> \<mu>'))"

lemma item_reads:
  fixes env :: "unit pb_env"
  assumes f: "plain_field f" and v: "item_image (message_image env n m) f m p = Some v" "length v < 2 ^ 32"
    "if ltype f = PB_LTYPE_SUBMESSAGE then ends_message env n m (f_ptr f) p else ends f m p"
    and sub: "ltype f = PB_LTYPE_SUBMESSAGE \<Longrightarrow> sub_decodes env n sub m f"
      "ltype f = PB_LTYPE_SUBMESSAGE \<Longrightarrow> separate env n (f_ptr f) d \<and> message_cells (fields_at env (f_ptr f)) d \<subseteq> {d..<d + data_size f}"
      "ltype f = PB_LTYPE_SUBMESSAGE \<Longrightarrow> htype f \<noteq> PB_HTYPE_REPEATED \<Longrightarrow> fresh_message env n \<mu> (f_ptr f) d"
    and d: "d \<noteq> 0" "{d..<d + data_size f} \<inter> locals env = {}"
  shows "\<exists>\<mu>'. PB_DECODERS env sub f d (dctx (v @ rest) (length v + N) e \<mu>) = Some (Some (), dctx rest N e \<mu>')
    \<and> item_image (message_image env n \<mu>') f \<mu>' d = Some v
    \<and> (ltype f \<noteq> PB_LTYPE_SUBMESSAGE \<longrightarrow> (zero_value f \<mu>' d \<longleftrightarrow> zero_value f m p))
    \<and> keeps ({d..<d + data_size f} \<union> locals env) \<mu> \<mu>'"
proof (cases "ltype f = PB_LTYPE_SUBMESSAGE")
  case False
  have "value_image f m p = Some v" using v(1) False by (simp add: item_image_def)
  from value_reads [OF f False this, where env = env and sub = sub and d = d and rest = rest and N = N and e = e and \<mu> = \<mu>] v(3) False
  show ?thesis by (auto simp: item_image_def intro: keeps_mono)
next
  case True
  obtain w where w: "message_image env n m (f_ptr f) p = Some w" "v = string_bytes w" using v(1) True by (auto simp: item_image_def)
  have "length w < 2 ^ 32" using v(2) string_length [of w] unfolding w(2) by linarith
  moreover have "message_cells (fields_at env (f_ptr f)) d \<inter> locals env = {}" using sub(2) [OF True] d(2) by blast
  ultimately obtain \<mu>' where \<mu>': "sub f d (dctx (v @ rest) (length v + N) e \<mu>) = Some (Some (), dctx rest N e \<mu>')"
    "message_image env n \<mu>' (f_ptr f) d = Some w" "keeps (message_cells (fields_at env (f_ptr f)) d \<union> locals env) \<mu> \<mu>'"
    using sub(1) [OF True, unfolded sub_decodes_def, rule_format, of p w d \<mu> rest N e] sub(2,3) True w v(3) d(1) by auto
  have np: "\<not> ltype f \<le> PB_LTYPE_LAST_PACKABLE" using packable_iff [OF f] True by (auto simp: PB_LTYPE_defs)
  have "PB_DECODERS env sub f d (dctx (v @ rest) (length v + N) e \<mu>) = Some (Some (), dctx rest N e \<mu>')"
    using \<mu>'(1) True np by (simp add: PB_DECODERS_def PB_LTYPE_defs)
  moreover have "keeps ({d..<d + data_size f} \<union> locals env) \<mu> \<mu>'" using keeps_mono [OF \<mu>'(3)] sub(2) [OF True] by blast
  ultimately show ?thesis using \<mu>'(2) True w(2) by (auto simp: item_image_def)
qed

text \<open>What a field promises its message: the record is read, the field has its image, and nothing else changes.\<close>

definition field_read :: "unit pb_env \<Rightarrow> nat \<Rightarrow> pb_field \<Rightarrow> nat \<Rightarrow> bytes \<Rightarrow> mem \<Rightarrow> mem \<Rightarrow> bool" where
  "field_read env n f d im \<mu> \<mu>' \<longleftrightarrow> field_image (message_image env n \<mu>') f \<mu>' d = Some im \<and> keeps (field_cells f d \<union> locals env) \<mu> \<mu>'"

lemma flag_set:
  assumes "separate_field sep f d" "plain_field f" "htype f \<noteq> PB_HTYPE_REPEATED"
  shows "size_addr d f \<noteq> d \<longleftrightarrow> size_offset f \<noteq> 0" "size_offset f \<noteq> 0 \<Longrightarrow> size_addr d f \<in> size_cells f d"
    "{d..<d + data_size f} \<inter> size_cells f d = {}"
proof -
  have space: "field_space f = data_size f" using assms(3) by (simp add: field_space_items [OF assms(2)] field_items_def)
  show cell: "size_offset f \<noteq> 0 \<Longrightarrow> size_addr d f \<in> size_cells f d" using assms(3) by (simp add: size_cells_def)
  show apart: "{d..<d + data_size f} \<inter> size_cells f d = {}" using assms(1) space by (simp add: separate_field_def)
  have "0 < data_size f" using assms(1) by (simp add: separate_field_def)
  then have "size_offset f \<noteq> 0 \<Longrightarrow> size_addr d f \<noteq> d" using cell apart by force
  moreover have "size_offset f = 0 \<Longrightarrow> size_addr d f = d" by (simp add: size_addr_def)
  ultimately show "size_addr d f \<noteq> d \<longleftrightarrow> size_offset f \<noteq> 0" by blast
qed

lemma string_bytes_empty: "string_bytes [] = string_bytes z \<Longrightarrow> z = []"
proof -
  assume eq: "string_bytes [] = string_bytes z"
  have "length (string_bytes []) = 1" by (simp add: string_bytes_def varint_0_1)
  moreover have "0 < length (varint_bytes (of_nat (length z)))" using length_varint by simp
  moreover have "length (string_bytes z) = length (varint_bytes (of_nat (length z))) + length z" by (simp add: string_bytes_def)
  ultimately have "length z = 0" unfolding eq by linarith
  then show "z = []" by simp
qed

lemma singular_reads:
  fixes env :: "unit pb_env"
  assumes f: "plain_field f" "htype f \<noteq> PB_HTYPE_REPEATED" and it: "cur_field it = f" "pData it = d" "pSize it = size_addr d f"
    and im: "\<not> left_out (message_image env n m) f m p" "item_image (message_image env n m) f m p = Some v" "length v < 2 ^ 32"
    and ends: "ends_field (ends_message env n m) f m p"
    and sep: "separate_field (\<lambda>fp' q. separate env n fp' q \<and> message_cells (fields_at env fp') q \<subseteq> {q..<q + data_size f}) f d"
    and sub: "ltype f = PB_LTYPE_SUBMESSAGE \<Longrightarrow> sub_decodes env n sub m f" "ltype f = PB_LTYPE_SUBMESSAGE \<Longrightarrow> plain_message env n (f_ptr f)"
    and fresh: "fresh_field (fresh_message env n \<mu>) f \<mu> d"
    and d: "d \<noteq> 0" "field_cells f d \<inter> locals env = {}"
  shows "\<exists>\<mu>'. decode_static_field env n' sub wt it (dctx (v @ rest) (length v + N) e \<mu>) = Some (Some (), dctx rest N e \<mu>')
    \<and> field_read env n f d (tagged f v) \<mu> \<mu>'"
proof -
  note h = plain_htypes [OF f(1)]
  note flag = flag_set [OF sep f]
  have one: "field_items f = 1" "field_space f = data_size f" using f(2) by (simp_all add: field_space_items [OF f(1)] field_items_def)
  have sub_at: "separate env n (f_ptr f) d \<and> message_cells (fields_at env (f_ptr f)) d \<subseteq> {d..<d + data_size f}"
    if "ltype f = PB_LTYPE_SUBMESSAGE"
    using sep that one(1) unfolding separate_field_def by (metis add_0_right less_one mult_0_right)
  define \<mu>1 where "\<mu>1 = (if htype f = PB_HTYPE_OPTIONAL \<and> size_addr d f \<noteq> d then set_bool (size_addr d f) True \<mu> else \<mu>)"
  have k1: "keeps (size_cells f d) \<mu> \<mu>1" using flag by (auto simp: \<mu>1_def intro: keeps_set_bool)
  have "fresh_message env n \<mu>1 (f_ptr f) d" if "ltype f = PB_LTYPE_SUBMESSAGE"
  proof -
    have "agree (message_cells (fields_at env (f_ptr f)) d) \<mu>1 \<mu>"
      by (rule keeps_agree [OF k1]) (use sub_at [OF that] flag(3) in blast)
    from fresh_agree [OF sub(2) [OF that] _ this] sub_at [OF that] fresh that f(2) show ?thesis by (simp add: fresh_field_def)
  qed
  moreover have "if ltype f = PB_LTYPE_SUBMESSAGE then ends_message env n m (f_ptr f) p else ends f m p"
    using ends im(1) f(2) by (auto simp: ends_field_def left_out_def)
  moreover have "{d..<d + data_size f} \<inter> locals env = {}" using d(2) one(2) by (auto simp: field_cells_def)
  ultimately obtain \<mu>' where \<mu>': "PB_DECODERS env sub f d (dctx (v @ rest) (length v + N) e \<mu>1) = Some (Some (), dctx rest N e \<mu>')"
    "item_image (message_image env n \<mu>') f \<mu>' d = Some v" "ltype f \<noteq> PB_LTYPE_SUBMESSAGE \<longrightarrow> (zero_value f \<mu>' d \<longleftrightarrow> zero_value f m p)"
    "keeps ({d..<d + data_size f} \<union> locals env) \<mu>1 \<mu>'"
    using item_reads [where sub = sub and d = d and \<mu> = \<mu>1 and rest = rest and N = N and e = e, OF f(1) im(2,3)] sub(1) sub_at d(1)
    by blast
  have "decode_static_field env n' sub wt it (dctx (v @ rest) (length v + N) e \<mu>) = Some (Some (), dctx rest N e \<mu>')"
    using h f(2) \<mu>'(1) it by (auto simp: decode_static_field_def Let_def \<mu>1_def PB_HTYPE_REQUIRED_def PB_HTYPE_OPTIONAL_def)
  moreover have "\<not> left_out (message_image env n \<mu>') f \<mu>' d"
  proof (cases "htype f = PB_HTYPE_OPTIONAL \<and> size_offset f \<noteq> 0")
    case True
    then have "size_addr d f \<in> field_cells f d" using flag(2) by (simp add: field_cells_def)
    then have "size_addr d f \<notin> {d..<d + data_size f} \<union> locals env" using flag(2,3) d(2) True by blast
    then have "\<mu>' (size_addr d f) = \<mu>1 (size_addr d f)" using \<mu>'(4) unfolding keeps_def by blast
    then have "\<mu>' (size_addr d f) \<noteq> 0" using True flag(1) by (simp add: \<mu>1_def set_bool_def mem_write_def)
    then show ?thesis using True by (simp add: left_out_def)
  next
    case False
    then show ?thesis using im(1,2) \<mu>'(2,3) by (auto simp: left_out_def item_image_def dest: string_bytes_empty split: if_splits)
  qed
  moreover have "keeps (field_cells f d \<union> locals env) \<mu> \<mu>'"
    by (rule keeps_trans [OF keeps_mono [OF k1] keeps_mono [OF \<mu>'(4)]]) (auto simp: field_cells_def one(2))
  ultimately show ?thesis using \<mu>'(2) f(2) by (auto simp: field_read_def field_image_def)
qed

subsection \<open>Packed arrays\<close>

definition packable_ok :: "pb_field \<Rightarrow> bytes \<Rightarrow> bool" where
  "packable_ok f bs \<longleftrightarrow> plain_field f \<and> ltype f \<le> PB_LTYPE_LAST_PACKABLE \<and> (ltype f = PB_LTYPE_BOOL \<longrightarrow> bs = [0] \<or> bs = [1])"

definition packable_image :: "pb_field \<Rightarrow> bytes \<Rightarrow> bytes" where
  "packable_image f bs = the (value_image f (\<lambda>a. bs ! a) 0)"

lemma packable_value:
  assumes "plain_field f" "ltype f \<le> PB_LTYPE_LAST_PACKABLE"
  obtains v where "value_image f m p = Some v"
  using packable_iff [OF assms(1)] assms(2) by (auto simp: value_image_def PB_LTYPE_defs)

lemma stored_bytes: "packable_ok f bs \<Longrightarrow> length bs = data_size f \<Longrightarrow> stored f (\<lambda>a. bs ! a) 0 = bs"
  using map_nth [of bs] by (auto simp: packable_ok_def stored_def mem_read_def simp del: map_nth)

lemma packable_image_stored:
  assumes "plain_field f" "ltype f \<le> PB_LTYPE_LAST_PACKABLE"
  shows "value_image f m p = Some (packable_image f (stored f m p))" "packable_ok f (stored f m p)"
proof -
  show ok: "packable_ok f (stored f m p)" using assms by (auto simp: packable_ok_def stored_def)
  obtain v where v: "value_image f m p = Some v" by (rule packable_value [OF assms])
  have "mem_read (\<lambda>a. stored f m p ! a) 0 (data_size f) = stored f m p"
    using length_stored [OF assms(1), of m p] map_nth [of "stored f m p"] by (simp add: mem_read_def)
  then have "value_image f (\<lambda>a. stored f m p ! a) 0 = value_image f m p" by (rule stored_value(1) [OF assms])
  then show "value_image f m p = Some (packable_image f (stored f m p))" using v by (simp add: packable_image_def)
qed

lemma packable_writes:
  assumes "plain_field f" "ltype f \<le> PB_LTYPE_LAST_PACKABLE" "value_image f m p = Some v"
  shows "value_encoder f m p = (pb_write v :: (unit, unit) oop)"
proof -
  have sized: "well_sized f" using assms(1) by (simp add: plain_field_def)
  have bool: "pb_enc_bool f m p = pb_write [of_bool (m p \<noteq> 0)]"
    by (simp add: pb_enc_bool_def safe_read_bool_def pb_encode_varint_write varint_0_1)
  show ?thesis
    using assms packable_iff [OF assms(1)] sized bool varint_field.enc_image [where f = f and m = m and src = p]
      uvarint_field.enc_image [where f = f and m = m and src = p] svarint_field.enc_image [where f = f and m = m and src = p]
      fixed32_field.enc_image [where f = f and m = m and src = p] fixed64_field.enc_image [where f = f and m = m and src = p]
    by (auto simp: value_encoder_def value_image_def well_sized_def PB_LTYPE_defs)
qed

lemma packable_image_length: "packable_ok f bs \<Longrightarrow> length bs = data_size f \<Longrightarrow> packable_image f bs \<noteq> [] \<and> length (packable_image f bs) \<le> 10"
proof -
  assume ok: "packable_ok f bs" and len: "length bs = data_size f"
  then have f: "plain_field f" "ltype f \<le> PB_LTYPE_LAST_PACKABLE" "well_sized f" by (simp_all add: packable_ok_def plain_field_def)
  have r: "mem_read (\<lambda>a. bs ! a) 0 n = take n bs" if "n \<le> length bs" for n
    using that by (intro nth_equalityI) (simp_all add: mem_read_nth)
  have "0 < length bs" "ltype f \<notin> {PB_LTYPE_BOOL, PB_LTYPE_VARINT, PB_LTYPE_UVARINT, PB_LTYPE_SVARINT} \<Longrightarrow> length bs \<le> 8"
    using packable_formulas(3-5) [OF f(1,2)] packable_iff [OF f(1)] f(2) len by auto
  then show ?thesis using length_varint r [of "data_size f"] len
    unfolding packable_image_def packable_formulas(1) [OF f(1,2)] option.sel
    by (auto simp: signed_image_def unsigned_image_def zigzag_image_def)
qed

text \<open>All packable types under one contract.\<close>

interpretation packable: field_codec "data_size f" "packable_ok f" "packable_image f" "value_encoder f" "packable_decoder f" for f
proof unfold_locales
  fix m src assume ok: "packable_ok f (mem_read m src (data_size f))"
  then have f: "plain_field f" "ltype f \<le> PB_LTYPE_LAST_PACKABLE" by (simp_all add: packable_ok_def)
  have "stored f m src = mem_read m src (data_size f)"
  proof (cases "ltype f = PB_LTYPE_BOOL")
    case True
    then have "data_size f = 1" using f(1) by (simp add: plain_field_def well_sized_def)
    then show ?thesis using ok True by (auto simp: packable_ok_def stored_def mem_read_def)
  qed (simp add: stored_def)
  with packable_writes [OF f packable_image_stored(1) [OF f, of m src]]
  show "value_encoder f m src = (pb_write (packable_image f (mem_read m src (data_size f))) :: (unit, unit) oop)" by simp
next
  fix bs rest :: bytes and dest k e m assume ok: "packable_ok f bs" and len: "length bs = data_size f"
  then have f: "plain_field f" "ltype f \<le> PB_LTYPE_LAST_PACKABLE" by (simp_all add: packable_ok_def)
  have "value_image f (\<lambda>a. bs ! a) 0 = Some (packable_image f bs)"
    using packable_image_stored(1) [OF f, of "\<lambda>a. bs ! a" 0] stored_bytes [OF ok len] by simp
  from packable_reads [OF f this, of dest rest k e m] stored_bytes [OF ok len]
  show "packable_decoder f dest (dctx (packable_image f bs @ rest) (length (packable_image f bs) + k) e m :: unit pb_dctx)
      = (Some (), dctx rest k e (mem_write dest bs m))" by simp
next
  fix bs assume "packable_ok f bs" "length bs = data_size f"
  from packable_image_length [OF this] show "packable_image f bs \<noteq> []" "length (packable_image f bs) < size_mod"
    by (simp_all add: size_mod_def)
qed

lemma intervals_apart: "{a..<a + n} \<inter> {b..<b + k} = {} \<Longrightarrow> 0 < n \<Longrightarrow> 0 < k \<Longrightarrow> b + k \<le> a \<or> a + n \<le> b" for a b n k :: nat
proof (rule ccontr)
  assume none: "{a..<a + n} \<inter> {b..<b + k} = {}" and "0 < n" "0 < k" "\<not> (b + k \<le> a \<or> a + n \<le> b)"
  then have "max a b \<in> {a..<a + n} \<inter> {b..<b + k}" by (cases "a \<le> b") auto
  with none show False by blast
qed

lemma counter_apart:
  assumes f: "plain_field f" "htype f = PB_HTYPE_REPEATED" and sep: "separate_field sep f d"
  shows "apart d (data_size f * array_size f) (size_addr d f)" "size_cells f d = {size_addr d f..<size_addr d f + 4}"
    "array_size f \<le> PB_SIZE_MAX" "field_space f = data_size f * array_size f" "field_items f = array_size f"
proof -
  show cells: "size_cells f d = {size_addr d f..<size_addr d f + 4}" and "array_size f \<le> PB_SIZE_MAX"
    using f(2) sep by (simp_all add: separate_field_def size_cells_def)
  show space: "field_space f = data_size f * array_size f" and "field_items f = array_size f"
    using f(2) by (simp_all add: field_space_items [OF f(1)] field_items_def)
  have "0 < data_size f * array_size f" using f sep by (simp add: plain_field_def separate_field_def)
  then show "apart d (data_size f * array_size f) (size_addr d f)"
    using intervals_apart [of d "data_size f * array_size f" "size_addr d f" 4] sep cells space
    by (auto simp: separate_field_def apart_def)
qed

lemma packed_reads:
  fixes env :: "unit pb_env"
  assumes f: "plain_field f" "htype f = PB_HTYPE_REPEATED" "ltype f \<le> PB_LTYPE_LAST_PACKABLE"
    and it: "cur_field it = f" "pData it = d" "pSize it = size_addr d f"
    and im: "cat (map (\<lambda>i. value_image f m (p + data_size f * i)) [0..<cnt]) = Some bs" "0 < cnt" "cnt \<le> array_size f" "length bs < 2 ^ 32"
    and sep: "separate_field sep f d" and fresh: "size_at \<mu> (size_addr d f) = 0"
  shows "\<exists>\<mu>'. decode_static_field env n' sub PB_WT_STRING it (dctx (string_bytes bs @ rest) (length (string_bytes bs) + N) e \<mu>)
      = Some (Some (), dctx rest N e \<mu>') \<and> field_read env n f d (tag_bytes 2 (f_tag f) @ string_bytes bs) \<mu> \<mu>'"
proof -
  let ?bss = "map (\<lambda>i. stored f m (p + data_size f * i)) [0..<cnt]" and ?a = "size_addr d f"
  let ?\<mu> = "store_items (data_size f) d ?a 0 ?bss \<mu>"
  note apart = counter_apart [OF f(1,2) sep]
  have so: "size_offset f \<noteq> 0" using sep f(2) by (simp add: separate_field_def)
  have bss: "\<forall>x \<in> set ?bss. packable_ok f x \<and> length x = data_size f"
    using packable_image_stored(2) [OF f(1,3)] length_stored [OF f(1)] by auto
  have "map (\<lambda>i. value_image f m (p + data_size f * i)) [0..<cnt] = map Some (map (packable_image f) ?bss)"
    using packable_image_stored(1) [OF f(1,3)] by simp
  moreover have "cat (map Some (map (packable_image f) ?bss)) = Some (concat (map (packable_image f) ?bss))"
    unfolding cat_Some by blast
  ultimately have bs: "packable.packed_bytes f ?bss = bs" using im(1) by (simp only: packable.packed_bytes_def option.inject)
  have "decode_packed (packable_decoder f) f d ?a (dctx (string_bytes bs @ rest) (length (string_bytes bs) + N) e \<mu> :: unit pb_dctx)
      = Some (Some (), dctx rest N e ?\<mu>)"
    using packable.decode_packed_reads [OF bss refl apart(3), of d ?a \<mu> rest N e] im(3,4) apart(1) fresh unfolding bs
    by (simp add: string_bytes_def add.assoc)
  then have dec: "decode_static_field env n' sub PB_WT_STRING it (dctx (string_bytes bs @ rest) (length (string_bytes bs) + N) e \<mu>)
      = Some (Some (), dctx rest N e ?\<mu>)"
    using f(2,3) it by (simp add: decode_static_field_def Let_def PB_HTYPE_REQUIRED_def PB_HTYPE_OPTIONAL_def PB_HTYPE_REPEATED_def)
  have eff: "size_at ?\<mu> ?a = cnt" "\<And>i. i < cnt \<Longrightarrow> mem_read ?\<mu> (d + data_size f * i) (data_size f) = stored f m (p + data_size f * i)"
    "\<And>a. \<not> (?a \<le> a \<and> a < ?a + 4) \<Longrightarrow> \<not> (d \<le> a \<and> a < d + data_size f * array_size f) \<Longrightarrow> ?\<mu> a = \<mu> a"
    using store_items_effect [OF _ apart(1) _ apart(3), of ?bss 0 \<mu>] bss im(3) fresh by auto
  have "item_image (message_image env n ?\<mu>) f ?\<mu> (d + data_size f * i) = value_image f m (p + data_size f * i)" if "i < cnt" for i
    using stored_value(1) [OF f(1,3) eff(2) [OF that]] f(3) by (auto simp: item_image_def PB_LTYPE_defs PB_LTYPE_LAST_PACKABLE_def)
  then have items: "map (\<lambda>i. item_image (message_image env n ?\<mu>) f ?\<mu> (d + data_size f * i)) [0..<cnt]
      = map (\<lambda>i. value_image f m (p + data_size f * i)) [0..<cnt]" by simp
  have cnt: "item_count f ?\<mu> d = cnt" using eff(1) so by (simp add: item_count_def)
  have "field_image (message_image env n ?\<mu>) f ?\<mu> d = Some (tag_bytes 2 (f_tag f) @ string_bytes bs)"
    unfolding field_image_def if_P [OF f(2)] Let_def cnt items im(1) using im(2,3) f(3) by simp
  moreover have "keeps (field_cells f d \<union> locals env) \<mu> ?\<mu>"
    using eff(3) apart(2,4) by (auto simp: keeps_def field_cells_def)
  ultimately show ?thesis using dec by (auto simp: field_read_def)
qed

subsection \<open>Arrays item by item\<close>

lemma separate_items:
  assumes "separate_field (\<lambda>fp' q. separate env n fp' q \<and> message_cells (fields_at env fp') q \<subseteq> {q..<q + data_size f}) f d"
    and "ltype f = PB_LTYPE_SUBMESSAGE" "i < field_items f"
  shows "separate env n (f_ptr f) (d + data_size f * i)
    \<and> message_cells (fields_at env (f_ptr f)) (d + data_size f * i) \<subseteq> {d + data_size f * i..<d + data_size f * i + data_size f}"
  using assms unfolding separate_field_def by blast

lemma item_stable:
  assumes f: "plain_field f" and sep: "separate_field (\<lambda>fp' q. separate env n fp' q
      \<and> message_cells (fields_at env fp') q \<subseteq> {q..<q + data_size f}) f d"
    and sub: "ltype f = PB_LTYPE_SUBMESSAGE \<Longrightarrow> plain_message env n (f_ptr f)" and i: "i < field_items f"
    and a: "agree {d + data_size f * i..<d + data_size f * i + data_size f} \<mu>' \<mu>"
  shows "item_image (message_image env n \<mu>') f \<mu>' (d + data_size f * i) = item_image (message_image env n \<mu>) f \<mu> (d + data_size f * i)"
proof (rule item_agree [OF f a])
  assume s: "ltype f = PB_LTYPE_SUBMESSAGE"
  note at = separate_items [OF sep s i]
  show "message_image env n \<mu>' (f_ptr f) (d + data_size f * i) = message_image env n \<mu> (f_ptr f) (d + data_size f * i)"
    using at by (intro message_agree sub s agree_mono [OF a]) auto
qed

lemma repeated_item_reads:
  fixes env :: "unit pb_env"
  assumes f: "plain_field f" "htype f = PB_HTYPE_REPEATED" "\<not> ltype f \<le> PB_LTYPE_LAST_PACKABLE"
    and it: "cur_field it = f" "pData it = d" "pSize it = size_addr d f"
    and v: "item_image (message_image env n m) f m p = Some v" "length v < 2 ^ 32"
      "if ltype f = PB_LTYPE_SUBMESSAGE then ends_message env n m (f_ptr f) p else ends f m p"
    and sep: "separate_field (\<lambda>fp' q. separate env n fp' q \<and> message_cells (fields_at env fp') q \<subseteq> {q..<q + data_size f}) f d"
    and sub: "ltype f = PB_LTYPE_SUBMESSAGE \<Longrightarrow> sub_decodes env n sub m f"
    and d: "d \<noteq> 0" "field_cells f d \<inter> locals env = {}"
    and i: "size_at \<mu> (size_addr d f) = i" "i < array_size f"
  shows "\<exists>\<mu>'. decode_static_field env n' sub wt it (dctx (v @ rest) (length v + N) e \<mu>) = Some (Some (), dctx rest N e \<mu>')
    \<and> size_at \<mu>' (size_addr d f) = Suc i \<and> item_image (message_image env n \<mu>') f \<mu>' (d + data_size f * i) = Some v
    \<and> keeps (size_cells f d \<union> {d + data_size f * i..<d + data_size f * i + data_size f} \<union> locals env) \<mu> \<mu>'"
proof -
  let ?a = "size_addr d f" and ?q = "d + data_size f * i"
  note apart = counter_apart [OF f(1,2) sep]
  have fi: "i < field_items f" using i(2) apart(5) by simp
  have item: "{?q..<?q + data_size f} \<subseteq> {d..<d + field_space f}" by (rule item_cells [OF f(1) fi])
  have cells: "{d..<d + field_space f} \<inter> size_cells f d = {}" using sep by (simp add: separate_field_def)
  define \<mu>1 where "\<mu>1 = set_size ?a (Suc i) \<mu>"
  have k1: "keeps (size_cells f d) \<mu> \<mu>1" unfolding \<mu>1_def apart(2) by (rule keeps_set_size) simp
  have s1: "size_at \<mu>1 ?a = Suc i" unfolding \<mu>1_def using i(2) apart(3) by (intro size_of_set_size) simp
  have "{d..<d + field_space f} \<inter> locals env = {}" using d(2) by (auto simp: field_cells_def)
  then have q: "?q \<noteq> 0" "{?q..<?q + data_size f} \<inter> locals env = {}" using d(1) item by (simp, blast)
  obtain \<mu>' where \<mu>': "PB_DECODERS env sub f ?q (dctx (v @ rest) (length v + N) e \<mu>1) = Some (Some (), dctx rest N e \<mu>')"
    "item_image (message_image env n \<mu>') f \<mu>' ?q = Some v" "keeps ({?q..<?q + data_size f} \<union> locals env) \<mu>1 \<mu>'"
    using item_reads [where sub = sub and d = ?q and \<mu> = \<mu>1 and rest = rest and N = N and e = e, OF f(1) v sub separate_items [OF sep _ fi] _ q] f(2)
    by blast
  have "{?a..<?a + 4} \<inter> ({?q..<?q + data_size f} \<union> locals env) = {}"
    using cells item d(2) unfolding apart(2) [symmetric] field_cells_def by blast
  then have "mem_read \<mu>' ?a 4 = mem_read \<mu>1 ?a 4"
    using keeps_agree [OF \<mu>'(3), of "{?a..<?a + 4}"] by (intro mem_read_agree) blast
  then have "size_at \<mu>' ?a = Suc i" using s1 by (simp add: mem_nat_def)
  moreover have "decode_static_field env n' sub wt it (dctx (v @ rest) (length v + N) e \<mu>) = Some (Some (), dctx rest N e \<mu>')"
    using f(2,3) it i \<mu>'(1) unfolding decode_static_field_def Let_def \<mu>1_def
    by (simp add: PB_HTYPE_REQUIRED_def PB_HTYPE_OPTIONAL_def PB_HTYPE_REPEATED_def)
  moreover have "keeps (size_cells f d \<union> {?q..<?q + data_size f} \<union> locals env) \<mu> \<mu>'"
    by (rule keeps_trans [OF keeps_mono [OF k1] keeps_mono [OF \<mu>'(3)]]) auto
  ultimately show ?thesis using \<mu>'(2) by blast
qed

section \<open>Records\<close>

text \<open>The state of the loop between two records.\<close>

definition idle :: "pb_field list \<Rightarrow> nat \<Rightarrow> pb_decode_state \<Rightarrow> bool" where
  "idle fs d st \<longleftrightarrow> (\<exists>j < length fs - 1. ds_iter st = iter_at fs d j) \<and> fixed_count_field st = None"

lemma step_reads:
  fixes env :: "unit pb_env"
  assumes plain: "plain_message env (Suc n) fp" and sep: "separate env (Suc n) fp d" and d: "d \<noteq> 0"
    and st: "idle (fields_at env fp) d st" and k: "k < length (fields_at env fp) - 1"
    and dec: "decode_static_field env n' (pb_dec_submessage env n' (pb_decode_noinit env n')) (of_nat w) (iter_at (fields_at env fp) d k)
        (dctx bs N e \<mu>) = Some (Some (), c')" "w < 8"
  defines "tag \<equiv> tag_bytes w (f_tag (fields_at env fp ! k))"
  shows "\<exists>st'. message_step env n' st (dctx (tag @ bs) (length tag + N) e \<mu>) = Some (Some (Some st'), c') \<and> idle (fields_at env fp) d st'
    \<and> found_field st (dctx (tag @ bs) (length tag + N) e \<mu> :: unit pb_dctx) = [k]"
proof -
  let ?fs = "fields_at env fp"
  note fs = plain_messageD [OF plain]
  note f = plain_message_field(1) [OF plain k]
  note h = plain_htypes [OF f]
  note at = plain_addresses [OF plain d k]
  have t: "0 < f_tag (?fs ! k)" "f_tag (?fs ! k) < 2 ^ 29" using f by (simp_all add: plain_field_def)
  have u: "unat (of_nat (f_tag (?fs ! k)) :: u32) = f_tag (?fs ! k)" using t(2) by (simp add: unsigned_of_nat take_bit_nat_eq_self)
  have tag: "pb_decode_tag (ibuf (tag @ bs) (length tag + N) e :: unit pb_istream) = (Some (of_nat w, of_nat (f_tag (?fs ! k))), False, ibuf bs N e)"
    unfolding tag_def by (rule pb_decode_tag_bytes [OF t(2) dec(2) t(1)])
  obtain j where j: "j < length ?fs - 1" "ds_iter st = iter_at ?fs d j" using st by (auto simp: idle_def)
  obtain i where i: "i < length ?fs - 1" "pb_field_iter_find (iter_at ?fs d j) (f_tag (?fs ! k)) = Some (is_field ?fs (f_tag (?fs ! k)) i, iter_at ?fs d i)"
    "is_field ?fs (f_tag (?fs ! k)) i \<or> i = j \<and> (\<forall>i < length ?fs - 1. \<not> is_field ?fs (f_tag (?fs ! k)) i)"
    using iter_find_at [OF fs(1) j(1)] by blast
  have hit: "is_field ?fs (f_tag (?fs ! k)) k" using h(6) by (simp add: is_field_def)
  then have "is_field ?fs (f_tag (?fs ! k)) i" using i(3) k by blast
  then have "i = k" using separateD(2) [OF sep k i(1)] by (auto simp: is_field_def)
  then have find: "pb_field_iter_find (ds_iter st) (f_tag (?fs ! k)) = Some (True, iter_at ?fs d k)"
    using i(2) hit j(2) by simp
  let ?st = "st\<lparr>ds_iter := iter_at ?fs d k\<rparr>"
  have "\<not> (htype (?fs ! k) = PB_HTYPE_REPEATED \<and> pSize (iter_at ?fs d k) = pData (iter_at ?fs d k))"
  proof
    assume r': "htype (?fs ! k) = PB_HTYPE_REPEATED \<and> pSize (iter_at ?fs d k) = pData (iter_at ?fs d k)"
    then have r: "htype (?fs ! k) = PB_HTYPE_REPEATED" by simp
    note a = counter_apart [OF f r separateD(1) [OF sep k]]
    have "0 < data_size (?fs ! k) * array_size (?fs ! k)"
      using f r separateD(1) [OF sep k] by (simp add: plain_field_def separate_field_def)
    moreover have "size_addr (d + field_offset ?fs k) (?fs ! k) = d + field_offset ?fs k" using r' unfolding at by simp
    ultimately show False using a(1) unfolding apart_def by linarith
  qed
  then have "\<not> (htype (cur_field (ds_iter ?st)) = PB_HTYPE_REPEATED \<and> pSize (ds_iter ?st) = pData (ds_iter ?st))"
    by (simp add: at(3))
  then have enter: "enter_fixed_count env n' ?st c = Some (Some ?st, c)" for c
    unfolding enter_fixed_count_def Let_def by (simp only: if_False lift_def gret_def)
  have field: "decode_field env n' (pb_dec_submessage env n' (pb_decode_noinit env n')) (of_nat w) (iter_at ?fs d k) (dctx bs N e \<mu>)
      = Some (Some (iter_at ?fs d k), c')"
    using dec(1) h by (simp add: decode_field_def at(3) pbind_def lift_def gret_def)
  let ?st' = "?st\<lparr>fields_seen := mark_required (iter_at ?fs d k) (fields_seen st), ds_iter := iter_at ?fs d k\<rparr>"
  have "message_step env n' st (dctx (tag @ bs) (length tag + N) e \<mu>) = Some (Some (Some ?st'), c')"
    by (simp add: message_step_def decode_step_def tag find u enter field pbind_def lift_def gret_def)
  moreover have "idle ?fs d ?st'" using st k by (auto simp: idle_def)
  moreover have "found_field st (dctx (tag @ bs) (length tag + N) e \<mu> :: unit pb_dctx) = [k]"
    using iter_at_inv [OF fs(1) k, of d] by (simp add: found_field_def tag find u)
  ultimately show ?thesis by blast
qed

lemma decode_run_trans: "decode_run s st2 c2 ks' st3 c3 \<Longrightarrow> decode_run s st1 c1 ks st2 c2 \<Longrightarrow> decode_run s st1 c1 (ks @ ks') st3 c3"
proof (induction rule: decode_run.induct)
  case (run_step st c ks' st' c' st'' c'')
  have "decode_run s st1 c1 ((ks @ ks') @ found_field st' c') st'' c''"
    by (rule decode_run.run_step [OF run_step.IH [OF run_step.prems] run_step.hyps(2,3)])
  then show ?case by simp
qed simp

lemma run_single:
  "bytes_left (d_in c) \<noteq> 0 \<Longrightarrow> step st c = Some (Some (Some st'), c') \<Longrightarrow> decode_run step st c (found_field st c) st' c'"
  using run_step [OF run_refl, of c step st st' c'] by simp

lemma items_read:
  fixes env :: "unit pb_env"
  assumes plain: "plain_message env (Suc n) fp" and sep: "separate env (Suc n) fp d" and d: "d \<noteq> 0"
    "message_cells (fields_at env fp) d \<inter> locals env = {}" and k: "k < length (fields_at env fp) - 1"
  defines "f \<equiv> fields_at env fp ! k" and "q \<equiv> d + field_offset (fields_at env fp) k"
  assumes f: "htype f = PB_HTYPE_REPEATED" "\<not> ltype f \<le> PB_LTYPE_LAST_PACKABLE"
    and sub: "ltype f = PB_LTYPE_SUBMESSAGE \<Longrightarrow> sub_decodes env n (pb_dec_submessage env n' (pb_decode_noinit env n')) m f"
    and vs: "\<And>j. j < length vs \<Longrightarrow> item_image (message_image env n m) f m (p + data_size f * (i + j)) = Some (vs ! j)"
      "\<And>j. j < length vs \<Longrightarrow> length (vs ! j) < 2 ^ 32"
      "\<And>j. j < length vs \<Longrightarrow> if ltype f = PB_LTYPE_SUBMESSAGE then ends_message env n m (f_ptr f) (p + data_size f * (i + j))
        else ends f m (p + data_size f * (i + j))"
    and st: "idle (fields_at env fp) d st" and i: "size_at \<mu> (size_addr q f) = i" "i + length vs \<le> array_size f"
  shows "\<exists>ks st' \<mu>'. decode_run (message_step env n') st
      (dctx (concat (map (tagged f) vs) @ rest) (length (concat (map (tagged f) vs)) + N) e \<mu>) ks st' (dctx rest N e \<mu>')
    \<and> idle (fields_at env fp) d st' \<and> size_at \<mu>' (size_addr q f) = i + length vs
    \<and> (\<forall>j < length vs. item_image (message_image env n \<mu>') f \<mu>' (q + data_size f * (i + j)) = Some (vs ! j))
    \<and> keeps (size_cells f q \<union> {q + data_size f * i..<q + data_size f * (i + length vs)} \<union> locals env) \<mu> \<mu>'"
  using vs st i
proof (induction vs arbitrary: i \<mu> st)
  case Nil
  then show ?case by (intro exI [of _ "[]"] exI [of _ st] exI [of _ \<mu>]) (simp add: run_refl)
next
  case (Cons v vs)
  note f' = plain_message_field [OF plain k, folded f_def]
  note sep' = separateD(1) [OF sep k, folded f_def q_def]
  note at = plain_addresses [OF plain d(1) k, folded f_def q_def]
  note apart = counter_apart [OF f'(1) f(1) sep']
  have "field_cells f q \<subseteq> message_cells (fields_at env fp) d" using k by (auto simp: message_cells_def f_def q_def)
  then have local: "q \<noteq> 0" "field_cells f q \<inter> locals env = {}" using d by (auto simp: q_def)
  let ?rest = "concat (map (tagged f) vs) @ rest" and ?N = "length (concat (map (tagged f) vs)) + N"
  have lt: "i < array_size f" using Cons.prems(6) by simp
  have v: "item_image (message_image env n m) f m (p + data_size f * i) = Some v" "length v < 2 ^ 32"
    "if ltype f = PB_LTYPE_SUBMESSAGE then ends_message env n m (f_ptr f) (p + data_size f * i) else ends f m (p + data_size f * i)"
    using Cons.prems(1-3) [of 0, unfolded add_0_right] by simp_all
  obtain \<mu>1 where \<mu>1: "decode_static_field env n' (pb_dec_submessage env n' (pb_decode_noinit env n')) (of_nat (wire_type_of (ltype f)))
      (iter_at (fields_at env fp) d k) (dctx (v @ ?rest) (length v + ?N) e \<mu>) = Some (Some (), dctx ?rest ?N e \<mu>1)"
    "size_at \<mu>1 (size_addr q f) = Suc i" "item_image (message_image env n \<mu>1) f \<mu>1 (q + data_size f * i) = Some v"
    "keeps (size_cells f q \<union> {q + data_size f * i..<q + data_size f * i + data_size f} \<union> locals env) \<mu> \<mu>1"
    using repeated_item_reads [OF f'(1) f at(3,1,2) v sep' sub local Cons.prems(5) lt] by blast
  let ?c = "dctx (tag_bytes (wire_type_of (ltype f)) (f_tag f) @ v @ ?rest)
      (length (tag_bytes (wire_type_of (ltype f)) (f_tag f)) + (length v + ?N)) e \<mu> :: unit pb_dctx"
  have "wire_type_of (ltype f) < 8" by (simp add: wire_type_of_def)
  from step_reads [OF plain sep d(1) Cons.prems(4) k \<mu>1(1) this, folded f_def] obtain st1 where
    st1: "message_step env n' st ?c = Some (Some (Some st1), dctx ?rest ?N e \<mu>1)" "idle (fields_at env fp) d st1" by blast
  have "bytes_left (d_in ?c) \<noteq> 0" using tag_nonempty by simp
  from run_single [of ?c "message_step env n'", OF this st1(1)] obtain ks1 where
    run1: "decode_run (message_step env n') st ?c ks1 st1 (dctx ?rest ?N e \<mu>1)" by blast
  have "\<exists>ks st' \<mu>'. decode_run (message_step env n') st1 (dctx ?rest ?N e \<mu>1) ks st' (dctx rest N e \<mu>')
    \<and> idle (fields_at env fp) d st' \<and> size_at \<mu>' (size_addr q f) = Suc i + length vs
    \<and> (\<forall>j < length vs. item_image (message_image env n \<mu>') f \<mu>' (q + data_size f * (Suc i + j)) = Some (vs ! j))
    \<and> keeps (size_cells f q \<union> {q + data_size f * Suc i..<q + data_size f * (Suc i + length vs)} \<union> locals env) \<mu>1 \<mu>'"
  proof (rule Cons.IH)
    fix j assume "j < length vs"
    then show "item_image (message_image env n m) f m (p + data_size f * (Suc i + j)) = Some (vs ! j)" "length (vs ! j) < 2 ^ 32"
      "if ltype f = PB_LTYPE_SUBMESSAGE then ends_message env n m (f_ptr f) (p + data_size f * (Suc i + j))
        else ends f m (p + data_size f * (Suc i + j))"
      using Cons.prems(1-3) [of "Suc j", unfolded add_Suc_right] unfolding add_Suc by simp_all
  qed (use st1(2) \<mu>1(2) Cons.prems(6) in simp_all)
  then obtain ks2 st2 \<mu>2 where
    run2: "decode_run (message_step env n') st1 (dctx ?rest ?N e \<mu>1) ks2 st2 (dctx rest N e \<mu>2)" "idle (fields_at env fp) d st2"
    "size_at \<mu>2 (size_addr q f) = Suc i + length vs"
    "\<forall>j < length vs. item_image (message_image env n \<mu>2) f \<mu>2 (q + data_size f * (Suc i + j)) = Some (vs ! j)"
    "keeps (size_cells f q \<union> {q + data_size f * Suc i..<q + data_size f * (Suc i + length vs)} \<union> locals env) \<mu>1 \<mu>2" by blast
  have fi: "i < field_items f" using lt apart(5) by simp
  have "agree {q + data_size f * i..<q + data_size f * i + data_size f} \<mu>2 \<mu>1"
  proof (rule keeps_agree [OF run2(5)])
    have "{q + data_size f * i..<q + data_size f * i + data_size f} \<inter> size_cells f q = {}"
      using item_cells [OF f'(1) fi, of q] sep' unfolding separate_field_def by blast
    moreover have "{q + data_size f * i..<q + data_size f * i + data_size f} \<inter> locals env = {}"
      using item_cells [OF f'(1) fi, of q] local(2) unfolding field_cells_def by blast
    moreover have "{q + data_size f * Suc i..<q + data_size f * (Suc i + length vs)} \<inter> {q + data_size f * i..<q + data_size f * i + data_size f} = {}"
      by auto
    ultimately show "(size_cells f q \<union> {q + data_size f * Suc i..<q + data_size f * (Suc i + length vs)} \<union> locals env)
        \<inter> {q + data_size f * i..<q + data_size f * i + data_size f} = {}" by blast
  qed
  from item_stable [OF f'(1) sep' f'(2) fi this] \<mu>1(3)
  have first: "item_image (message_image env n \<mu>2) f \<mu>2 (q + data_size f * i) = Some v" by simp
  have "item_image (message_image env n \<mu>2) f \<mu>2 (q + data_size f * (i + j)) = Some ((v # vs) ! j)" if "j < length (v # vs)" for j
    using first run2(4) that by (cases j) auto
  moreover have "keeps (size_cells f q \<union> {q + data_size f * i..<q + data_size f * (i + length (v # vs))} \<union> locals env) \<mu> \<mu>2"
    by (rule keeps_trans [OF keeps_mono [OF \<mu>1(4)] keeps_mono [OF run2(5)]]) (auto simp: algebra_simps)
  moreover have c: "?c = dctx (concat (map (tagged f) (v # vs)) @ rest) (length (concat (map (tagged f) (v # vs))) + N) e \<mu>"
    by (simp add: tagged_def add.assoc)
  moreover have "decode_run (message_step env n') st
      (dctx (concat (map (tagged f) (v # vs)) @ rest) (length (concat (map (tagged f) (v # vs))) + N) e \<mu>)
      (ks1 @ ks2) st2 (dctx rest N e \<mu>2)"
    using decode_run_trans [OF run2(1) run1] by (simp only: c)
  moreover have "size_at \<mu>2 (size_addr q f) = i + length (v # vs)" using run2(3) by simp
  ultimately show ?case using run2(2) by blast
qed

lemma cat_tagged_items:
  assumes "cat (map (\<lambda>i. map_option (tagged f) (g i)) [0..<cnt]) = Some bs"
  obtains vs where "length vs = cnt" "\<And>i. i < cnt \<Longrightarrow> g i = Some (vs ! i)" "bs = concat (map (tagged f) vs)"
proof -
  obtain yss where yss: "map (\<lambda>i. map_option (tagged f) (g i)) [0..<cnt] = map Some yss" "bs = concat yss"
    using assms unfolding cat_Some by blast
  have len: "length yss = cnt" using arg_cong [OF yss(1), of length] by simp
  have each: "map_option (tagged f) (g i) = Some (yss ! i)" if "i < cnt" for i
    using arg_cong [OF yss(1), of "\<lambda>xs. xs ! i"] that len by simp
  define vs where "vs = map (\<lambda>i. the (g i)) [0..<cnt]"
  have v: "g i = Some (vs ! i) \<and> yss ! i = tagged f (vs ! i)" if "i < cnt" for i
    using each [OF that] that by (auto simp: vs_def)
  then have "yss = map (tagged f) vs" using len by (intro nth_equalityI) (simp_all add: vs_def)
  with v yss(2) show thesis by (intro that [of vs]) (simp_all add: vs_def)
qed

lemma length_item: "v \<in> set vs \<Longrightarrow> length v \<le> length (concat (map (tagged f) vs))"
  by (induction vs) (auto simp: tagged_def)

lemma field_run:
  fixes env :: "unit pb_env"
  assumes plain: "plain_message env (Suc n) fp" and sep: "separate env (Suc n) fp d" and d: "d \<noteq> 0"
    "message_cells (fields_at env fp) d \<inter> locals env = {}" and k: "k < length (fields_at env fp) - 1"
  defines "f \<equiv> fields_at env fp ! k" and "q \<equiv> d + field_offset (fields_at env fp) k"
  assumes sub: "ltype f = PB_LTYPE_SUBMESSAGE \<Longrightarrow> sub_decodes env n (pb_dec_submessage env n' (pb_decode_noinit env n')) m f"
    and im: "field_image (message_image env n m) f m p = Some bs" "length bs < 2 ^ 32" "ends_field (ends_message env n m) f m p"
    and st: "idle (fields_at env fp) d st" and fresh: "fresh_field (fresh_message env n \<mu>) f \<mu> q"
  shows "\<exists>ks st' \<mu>'. decode_run (message_step env n') st (dctx (bs @ rest) (length bs + N) e \<mu>) ks st' (dctx rest N e \<mu>')
    \<and> idle (fields_at env fp) d st' \<and> (htype f = PB_HTYPE_REQUIRED \<longrightarrow> k \<in> set ks) \<and> field_read env n f q bs \<mu> \<mu>'"
proof -
  note f = plain_message_field [OF plain k, folded f_def]
  note sep' = separateD(1) [OF sep k, folded f_def q_def]
  note at = plain_addresses [OF plain d(1) k, folded f_def q_def]
  note h = plain_htypes [OF f(1)]
  have "field_cells f q \<subseteq> message_cells (fields_at env fp) d" using k by (auto simp: message_cells_def f_def q_def)
  then have local: "q \<noteq> 0" "field_cells f q \<inter> locals env = {}" using d by (auto simp: q_def)
  have one_record: ?thesis
    if w: "w < 8" "bs = tag_bytes w (f_tag f) @ cs"
      and dec: "decode_static_field env n' (pb_dec_submessage env n' (pb_decode_noinit env n')) (of_nat w) (iter_at (fields_at env fp) d k)
        (dctx (cs @ rest) (length cs + N) e \<mu>) = Some (Some (), dctx rest N e \<mu>')" and read: "field_read env n f q bs \<mu> \<mu>'"
    for w cs \<mu>'
  proof -
    let ?c = "dctx (tag_bytes w (f_tag f) @ cs @ rest) (length (tag_bytes w (f_tag f)) + (length cs + N)) e \<mu> :: unit pb_dctx"
    from step_reads [OF plain sep d(1) st k dec w(1), folded f_def] obtain st1 where
      st1: "message_step env n' st ?c = Some (Some (Some st1), dctx rest N e \<mu>')" "idle (fields_at env fp) d st1" "found_field st ?c = [k]"
      by blast
    have "bytes_left (d_in ?c) \<noteq> 0" using tag_nonempty by simp
    from run_single [of ?c "message_step env n'", OF this st1(1)] st1(3)
    have run: "decode_run (message_step env n') st ?c [k] st1 (dctx rest N e \<mu>')" by simp
    have c: "?c = dctx (bs @ rest) (length bs + N) e \<mu>" by (simp add: w(2) add.assoc)
    have "k \<in> set [k]" by simp
    with run [unfolded c] st1(2) read show ?thesis by blast
  qed
  show ?thesis
  proof (cases "bs = []")
    case True
    have "field_image (message_image env n \<mu>) f \<mu> q = Some []"
    proof (rule fresh_field_empty [OF f(1) _ im(1) [unfolded True] fresh])
      show "htype f = PB_HTYPE_REPEATED \<longrightarrow> size_offset f \<noteq> 0" using sep' by (simp add: separate_field_def)
      assume i: "ltype f = PB_LTYPE_SUBMESSAGE" "message_image env n m (f_ptr f) p = Some []" "fresh_message env n \<mu> (f_ptr f) q"
      show "message_image env n \<mu> (f_ptr f) q = Some []"
        using separate_items [OF sep' i(1) items_exist [OF f(1)]] by (intro fresh_empty [OF f(2) [OF i(1)] _ i(2,3)]) simp
    qed
    moreover have "htype f \<noteq> PB_HTYPE_REQUIRED"
      using im(1) [unfolded True field_image_empty [OF f(1)]]
      by (auto simp: left_out_def PB_HTYPE_REQUIRED_def PB_HTYPE_OPTIONAL_def PB_HTYPE_REPEATED_def)
    ultimately show ?thesis using True st
      by (intro exI [of _ "[]"] exI [of _ st] exI [of _ \<mu>]) (simp add: run_refl field_read_def)
  next
    case ne: False
    show ?thesis
    proof (cases "htype f = PB_HTYPE_REPEATED")
      case False
      have nl: "\<not> left_out (message_image env n m) f m p" using im(1) ne False by (auto simp: field_image_def)
      then obtain v where v: "item_image (message_image env n m) f m p = Some v" "bs = tagged f v"
        using im(1) False by (auto simp: field_image_def)
      have lv: "length v < 2 ^ 32" using im(2) v(2) by (simp add: tagged_def)
      obtain \<mu>' where \<mu>': "decode_static_field env n' (pb_dec_submessage env n' (pb_decode_noinit env n')) (of_nat (wire_type_of (ltype f)))
          (iter_at (fields_at env fp) d k) (dctx (v @ rest) (length v + N) e \<mu>) = Some (Some (), dctx rest N e \<mu>')"
        "field_read env n f q (tagged f v) \<mu> \<mu>'"
        using singular_reads [OF f(1) False at(3,1,2) nl v(1) lv im(3) sep' sub f(2) fresh local] by blast
      show ?thesis using \<mu>' v(2) by (intro one_record [of "wire_type_of (ltype f)" v]) (simp_all add: tagged_def wire_type_of_def)
    next
      case rep: True
      let ?cnt = "item_count f m p"
      note apart = counter_apart [OF f(1) rep sep']
      have zero: "size_at \<mu> (size_addr q f) = 0" using fresh rep by (simp add: fresh_field_def)
      have cnt: "0 < ?cnt" "?cnt \<le> array_size f" using im(1) ne rep by (auto simp: field_image_def Let_def split: if_splits)
      show ?thesis
      proof (cases "ltype f \<le> PB_LTYPE_LAST_PACKABLE")
        case True
        have ns: "ltype f \<noteq> PB_LTYPE_SUBMESSAGE" using True by (auto simp: PB_LTYPE_defs PB_LTYPE_LAST_PACKABLE_def)
        obtain cs where cs: "cat (map (\<lambda>i. value_image f m (p + data_size f * i)) [0..<?cnt]) = Some cs"
          "bs = tag_bytes 2 (f_tag f) @ string_bytes cs"
          using im(1) rep cnt True ns by (auto simp: field_image_def Let_def item_image_def)
        have "length cs < 2 ^ 32" using im(2) cs(2) string_length [of cs] by simp
        from packed_reads [OF f(1) rep True at(3,1,2) cs(1) cnt this sep' zero] obtain \<mu>' where \<mu>':
          "decode_static_field env n' (pb_dec_submessage env n' (pb_decode_noinit env n')) PB_WT_STRING (iter_at (fields_at env fp) d k)
            (dctx (string_bytes cs @ rest) (length (string_bytes cs) + N) e \<mu>) = Some (Some (), dctx rest N e \<mu>')"
          "field_read env n f q (tag_bytes 2 (f_tag f) @ string_bytes cs) \<mu> \<mu>'" by blast
        show ?thesis using \<mu>' cs(2) by (intro one_record [of 2 "string_bytes cs"]) (simp_all add: PB_WT_STRING_def)
      next
        case False
        obtain vs where vs: "length vs = ?cnt"
          "\<And>i. i < ?cnt \<Longrightarrow> item_image (message_image env n m) f m (p + data_size f * i) = Some (vs ! i)"
          "bs = concat (map (tagged f) vs)"
          using im(1) rep cnt False cat_tagged_items [of f "\<lambda>i. item_image (message_image env n m) f m (p + data_size f * i)" ?cnt bs]
          by (auto simp: field_image_def Let_def comp_def)
        have short: "length (vs ! j) < 2 ^ 32" if "j < length vs" for j
          using length_item [of "vs ! j" vs f] that im(2) vs(3) by simp
        have ends: "if ltype f = PB_LTYPE_SUBMESSAGE then ends_message env n m (f_ptr f) (p + data_size f * j) else ends f m (p + data_size f * j)"
          if "j < length vs" for j
          using im(3) rep that vs(1) by (auto simp: ends_field_def PB_HTYPE_REPEATED_def PB_HTYPE_OPTIONAL_def)
        note items = items_read [where vs = vs and m = m and p = p and i = 0 and st = st and \<mu> = \<mu> and rest = rest and N = N and e = e,
            OF plain sep d k, folded f_def q_def, OF rep False sub, unfolded add_0 mult_0_right add_0_right, folded vs(3)]
        have "\<exists>ks st' \<mu>'. decode_run (message_step env n') st (dctx (bs @ rest) (length bs + N) e \<mu>) ks st' (dctx rest N e \<mu>')
            \<and> idle (fields_at env fp) d st' \<and> size_at \<mu>' (size_addr q f) = length vs
            \<and> (\<forall>j < length vs. item_image (message_image env n \<mu>') f \<mu>' (q + data_size f * j) = Some (vs ! j))
            \<and> keeps (size_cells f q \<union> {q..<q + data_size f * length vs} \<union> locals env) \<mu> \<mu>'"
        proof (rule items)
          show "item_image (message_image env n m) f m (p + data_size f * j) = Some (vs ! j)" if "j < length vs" for j
            using vs(1,2) that by simp
        qed (use short ends st zero cnt(2) vs(1) in simp_all)
        then obtain ks st' \<mu>' where run: "decode_run (message_step env n') st (dctx (bs @ rest) (length bs + N) e \<mu>) ks st' (dctx rest N e \<mu>')"
          "idle (fields_at env fp) d st'" "size_at \<mu>' (size_addr q f) = ?cnt"
          "\<forall>j < ?cnt. item_image (message_image env n \<mu>') f \<mu>' (q + data_size f * j) = Some (vs ! j)"
          "keeps (size_cells f q \<union> {q..<q + data_size f * ?cnt} \<union> locals env) \<mu> \<mu>'"
          unfolding vs(1) by blast
        have "size_offset f \<noteq> 0" using sep' rep by (simp add: separate_field_def)
        then have c: "item_count f \<mu>' q = ?cnt" using run(3) by (simp add: item_count_def)
        have "map (\<lambda>i. map_option (tagged f) (item_image (message_image env n \<mu>') f \<mu>' (q + data_size f * i))) [0..<?cnt]
            = map Some (map (tagged f) vs)"
          using run(4) vs(1) by (intro nth_equalityI) simp_all
        then have "cat (map (\<lambda>i. map_option (tagged f) (item_image (message_image env n \<mu>') f \<mu>' (q + data_size f * i))) [0..<?cnt]) = Some bs"
          unfolding cat_Some vs(3) by blast
        then have "field_image (message_image env n \<mu>') f \<mu>' q = Some bs"
          using rep False cnt c by (simp add: field_image_def Let_def comp_def)
        moreover have "q + data_size f * ?cnt \<le> q + field_space f"
          unfolding apart(4) by (intro add_left_mono mult_le_mono2 cnt(2))
        then have "keeps (field_cells f q \<union> locals env) \<mu> \<mu>'"
          by (intro keeps_mono [OF run(5)]) (auto simp: field_cells_def)
        ultimately show ?thesis using run(1,2) rep
          by (auto simp: field_read_def PB_HTYPE_REQUIRED_def PB_HTYPE_REPEATED_def)
      qed
    qed
  qed
qed

section \<open>Decoding a message\<close>

lemma fields_run:
  fixes env :: "unit pb_env"
  assumes plain: "plain_message env (Suc n) fp" and sep: "separate env (Suc n) fp d" and d: "d \<noteq> 0"
    "message_cells (fields_at env fp) d \<inter> locals env = {}"
  defines "fs \<equiv> fields_at env fp"
  assumes sub: "\<And>k. k < length fs - 1 \<Longrightarrow> ltype (fs ! k) = PB_LTYPE_SUBMESSAGE \<Longrightarrow>
      sub_decodes env n (pb_dec_submessage env n' (pb_decode_noinit env n')) m (fs ! k)"
    and im: "\<And>k. k < length fs - 1 \<Longrightarrow> field_image (message_image env n m) (fs ! k) m (src + field_offset fs k) = Some (ims k)"
      "\<And>k. k < length fs - 1 \<Longrightarrow> length (ims k) < 2 ^ 32"
      "\<And>k. k < length fs - 1 \<Longrightarrow> ends_field (ends_message env n m) (fs ! k) m (src + field_offset fs k)"
    and st: "idle fs d st" and k: "k \<le> length fs - 1"
    and before: "\<And>j. j < k \<Longrightarrow> field_image (message_image env n \<mu>) (fs ! j) \<mu> (d + field_offset fs j) = Some (ims j)"
    and fresh: "\<And>j. k \<le> j \<Longrightarrow> j < length fs - 1 \<Longrightarrow> fresh_field (fresh_message env n \<mu>) (fs ! j) \<mu> (d + field_offset fs j)"
  shows "\<exists>ks st' \<mu>'. decode_run (message_step env n') st
      (dctx (concat (map ims [k..<length fs - 1]) @ rest) (length (concat (map ims [k..<length fs - 1])) + N) e \<mu>) ks st' (dctx rest N e \<mu>')
    \<and> idle fs d st' \<and> (\<forall>j. k \<le> j \<and> is_required fs j \<longrightarrow> j \<in> set ks)
    \<and> (\<forall>j < length fs - 1. field_image (message_image env n \<mu>') (fs ! j) \<mu>' (d + field_offset fs j) = Some (ims j))
    \<and> keeps (message_cells fs d \<union> locals env) \<mu> \<mu>'"
  using st k before fresh
proof (induction "length fs - 1 - k" arbitrary: k st \<mu>)
  case 0
  then have "k = length fs - 1" by simp
  with 0 show ?case by (intro exI [of _ "[]"] exI [of _ st] exI [of _ \<mu>]) (simp add: run_refl is_required_def)
next
  case (Suc r)
  then have k: "k < length fs - 1" by simp
  let ?cs = "concat (map ims [Suc k..<length fs - 1])"
  let ?C = "\<lambda>j. field_cells (fs ! j) (d + field_offset fs j)"
  have now: "fresh_field (fresh_message env n \<mu>) (fs ! k) \<mu> (d + field_offset fs k)" using Suc.prems(4) k by simp
  obtain ks1 st1 \<mu>1 where one: "decode_run (message_step env n') st (dctx (ims k @ ?cs @ rest) (length (ims k) + (length ?cs + N)) e \<mu>) ks1 st1
      (dctx (?cs @ rest) (length ?cs + N) e \<mu>1)" "idle fs d st1" "htype (fs ! k) = PB_HTYPE_REQUIRED \<longrightarrow> k \<in> set ks1"
    "field_read env n (fs ! k) (d + field_offset fs k) (ims k) \<mu> \<mu>1"
    using field_run [OF plain sep d k [unfolded fs_def], folded fs_def, OF sub [OF k] im(1-3) [OF k] Suc.prems(1) now] by blast
  have agree: "agree (?C j) \<mu>1 \<mu>" if "j < length fs - 1" "j \<noteq> k" for j
  proof (rule keeps_agree)
    show "keeps (?C k \<union> locals env) \<mu> \<mu>1" using one(4) by (simp add: field_read_def)
    have "?C j \<inter> ?C k = {}" using separateD(2) [OF sep k [unfolded fs_def]] that unfolding fs_def by blast
    moreover have "?C j \<subseteq> message_cells fs d" using that(1) by (rule field_cells_message)
    ultimately show "(?C k \<union> locals env) \<inter> ?C j = {}" using d(2) unfolding fs_def by blast
  qed
  have stable: "field_image (message_image env n \<mu>1) (fs ! j) \<mu>1 (d + field_offset fs j) = field_image (message_image env n \<mu>) (fs ! j) \<mu> (d + field_offset fs j)"
    "fresh_field (fresh_message env n \<mu>1) (fs ! j) \<mu>1 (d + field_offset fs j) = fresh_field (fresh_message env n \<mu>) (fs ! j) \<mu> (d + field_offset fs j)"
    if "j < length fs - 1" "j \<noteq> k" for j
    using field_image_stable [OF message_agree plain sep that(1) [unfolded fs_def]] fresh_field_stable [OF fresh_agree plain sep that(1) [unfolded fs_def]]
      agree [OF that] unfolding fs_def by blast+
  have "r = length fs - 1 - Suc k" using Suc(2) by linarith
  note IH = Suc(1) [of "Suc k" st1 \<mu>1, OF this one(2)]
  have "\<exists>ks st' \<mu>'. decode_run (message_step env n') st1 (dctx (?cs @ rest) (length ?cs + N) e \<mu>1) ks st' (dctx rest N e \<mu>')
    \<and> idle fs d st' \<and> (\<forall>j. Suc k \<le> j \<and> is_required fs j \<longrightarrow> j \<in> set ks)
    \<and> (\<forall>j < length fs - 1. field_image (message_image env n \<mu>') (fs ! j) \<mu>' (d + field_offset fs j) = Some (ims j))
    \<and> keeps (message_cells fs d \<union> locals env) \<mu>1 \<mu>'"
  proof (rule IH)
    show "Suc k \<le> length fs - 1" using k by simp
    fix j assume "j < Suc k"
    then show "field_image (message_image env n \<mu>1) (fs ! j) \<mu>1 (d + field_offset fs j) = Some (ims j)"
      using Suc.prems(3) stable(1) [of j] one(4) k by (cases "j = k") (auto simp: field_read_def)
  next
    fix j assume "Suc k \<le> j" "j < length fs - 1"
    then show "fresh_field (fresh_message env n \<mu>1) (fs ! j) \<mu>1 (d + field_offset fs j)"
      using Suc.prems(4) stable(2) [of j] by simp
  qed
  then obtain ks2 st2 \<mu>2 where two: "decode_run (message_step env n') st1 (dctx (?cs @ rest) (length ?cs + N) e \<mu>1) ks2 st2 (dctx rest N e \<mu>2)"
    "idle fs d st2" "\<forall>j. Suc k \<le> j \<and> is_required fs j \<longrightarrow> j \<in> set ks2"
    "\<forall>j < length fs - 1. field_image (message_image env n \<mu>2) (fs ! j) \<mu>2 (d + field_offset fs j) = Some (ims j)"
    "keeps (message_cells fs d \<union> locals env) \<mu>1 \<mu>2" by blast
  have c: "dctx (ims k @ ?cs @ rest) (length (ims k) + (length ?cs + N)) e \<mu>
      = dctx (concat (map ims [k..<length fs - 1]) @ rest) (length (concat (map ims [k..<length fs - 1])) + N) e \<mu>"
    unfolding upt_conv_Cons [OF k] by (simp add: add.assoc)
  have run: "decode_run (message_step env n') st (dctx (concat (map ims [k..<length fs - 1]) @ rest) (length (concat (map ims [k..<length fs - 1])) + N) e \<mu>)
      (ks1 @ ks2) st2 (dctx rest N e \<mu>2)"
    using decode_run_trans [OF two(1) one(1)] unfolding c .
  have req: "\<forall>j. k \<le> j \<and> is_required fs j \<longrightarrow> j \<in> set (ks1 @ ks2)"
  proof (intro allI impI)
    fix j assume j: "k \<le> j \<and> is_required fs j"
    show "j \<in> set (ks1 @ ks2)"
    proof (cases "j = k")
      case True
      then show ?thesis using j one(3) by (simp add: is_required_def)
    next
      case False
      then show ?thesis using j two(3) by simp
    qed
  qed
  have "keeps (message_cells fs d \<union> locals env) \<mu> \<mu>1"
    using one(4) field_cells_message [OF k, of d] by (auto simp: field_read_def intro: keeps_mono)
  from keeps_trans [OF this two(5)] show ?case using run two(2,4) req by blast
qed

text \<open>A submessage in its substream.\<close>

lemma in_substream_reads:
  assumes "length v < 2 ^ 32" and "p (dctx (v @ rest) (length v) e \<mu>) = Some (Some (), dctx rest 0 e \<mu>')"
  shows "in_substream p (dctx (string_bytes v @ rest) (length (string_bytes v) + N) e \<mu> :: 'st pb_dctx) = Some (Some (), dctx rest N e \<mu>')"
proof -
  have u: "unat (of_nat (length v) :: u32) = length v" using assms(1) by (simp add: unsigned_of_nat take_bit_nat_eq_self)
  have "on_in pb_make_string_substream (dctx (string_bytes v @ rest) (length (string_bytes v) + N) e \<mu> :: 'st pb_dctx)
      = (Some (ibuf (v @ rest) (length v) e), dctx (v @ rest) N e \<mu>)"
    using length_prefix_read [OF assms(1), of rest N e, where ?'st = 'st]
    by (simp add: on_in_def pb_make_string_substream_def gbind_def u)
  then show ?thesis using assms(2) by (simp add: in_substream_def on_in_def pb_close_string_substream_def)
qed

lemma concat_map_cat:
  assumes "cat (map g [0..<n]) = Some bs"
  obtains ims where "\<And>k. k < n \<Longrightarrow> g k = Some (ims k)" "bs = concat (map ims [0..<n])"
proof -
  obtain yss where yss: "map g [0..<n] = map Some yss" "bs = concat yss" using assms unfolding cat_Some by blast
  have len: "length yss = n" using arg_cong [OF yss(1), of length] by simp
  have "g k = Some (yss ! k)" if "k < n" for k using arg_cong [OF yss(1), of "\<lambda>xs. xs ! k"] that len by simp
  moreover have "bs = concat (map ((!) yss) [0..<n])" using yss(2) map_nth [of yss] len by simp
  ultimately show thesis by (rule that)
qed

lemma noinit_reads:
  fixes env :: "unit pb_env"
  shows "plain_message env n fp \<Longrightarrow> separate env n fp d \<Longrightarrow> d \<noteq> 0 \<Longrightarrow> message_cells (fields_at env fp) d \<inter> locals env = {} \<Longrightarrow>
    message_image env n m fp src = Some bs \<Longrightarrow> length bs < 2 ^ 32 \<Longrightarrow> ends_message env n m fp src \<Longrightarrow> fresh_message env n \<mu> fp d \<Longrightarrow>
    n \<le> N \<Longrightarrow>
    \<exists>\<mu>'. pb_decode_noinit env (Suc N) (fields_at env fp) d (dctx (bs @ rest) (length bs) e \<mu>) = Some (Some (), dctx rest 0 e \<mu>')
      \<and> message_image env n \<mu>' fp d = Some bs \<and> keeps (message_cells (fields_at env fp) d \<union> locals env) \<mu> \<mu>'"
proof (induction n arbitrary: N fp src d bs \<mu> rest e)
  case (Suc n)
  then obtain N' where N: "N = Suc N'" "n \<le> N'" by (cases N) auto
  let ?fs = "fields_at env fp" and ?sub = "pb_dec_submessage env N (pb_decode_noinit env N)"
  note fs = plain_messageD [OF Suc.prems(1)]
  have sub: "sub_decodes env n ?sub m (?fs ! k)" if k: "k < length ?fs - 1" and s: "ltype (?fs ! k) = PB_LTYPE_SUBMESSAGE" for k
    unfolding sub_decodes_def
  proof (intro allI impI)
    fix p v d' \<mu> rest e and M :: nat
    let ?f = "?fs ! k" and ?gs = "fields_at env (f_ptr (?fs ! k))"
    assume a: "message_image env n m (f_ptr ?f) p = Some v \<and> ends_message env n m (f_ptr ?f) p \<and> length v < 2 ^ 32
      \<and> separate env n (f_ptr ?f) d' \<and> (htype ?f \<noteq> PB_HTYPE_REPEATED \<longrightarrow> fresh_message env n \<mu> (f_ptr ?f) d') \<and> d' \<noteq> 0
      \<and> message_cells ?gs d' \<inter> locals env = {}"
    note f = plain_message_field [OF Suc.prems(1) k]
    note noinit = Suc.IH [OF f(2) [OF s] _ _ _ _ _ _ _ N(2), folded N(1)]
    have ptr: "f_ptr ?f \<noteq> 0" using f(1) s by (simp add: plain_field_def well_sized_def PB_LTYPE_defs)
    have "\<exists>\<mu>'. (if htype ?f = PB_HTYPE_REPEATED then decode_with env N (pb_decode_noinit env N) else pb_decode_noinit env N) ?gs d'
        (dctx (v @ rest) (length v) e \<mu>) = Some (Some (), dctx rest 0 e \<mu>')
      \<and> message_image env n \<mu>' (f_ptr ?f) d' = Some v \<and> keeps (message_cells ?gs d' \<union> locals env) \<mu> \<mu>'"
    proof (cases "htype ?f = PB_HTYPE_REPEATED")
      case False
      then show ?thesis using noinit [of d' p v \<mu> rest e] a by simp
    next
      case True
      have "n \<le> N" using N by simp
      then obtain \<mu>1 where \<mu>1: "set_to_defaults (pb_field_set_to_default env N) ?gs d' \<mu> = Some \<mu>1"
        "fresh_message env n \<mu>1 (f_ptr ?f) d'" "keeps (message_cells ?gs d') \<mu> \<mu>1"
        using defaults_fresh [OF f(2) [OF s]] a by blast
      obtain \<mu>' where \<mu>': "pb_decode_noinit env N ?gs d' (dctx (v @ rest) (length v) e \<mu>1) = Some (Some (), dctx rest 0 e \<mu>')"
        "message_image env n \<mu>' (f_ptr ?f) d' = Some v" "keeps (message_cells ?gs d' \<union> locals env) \<mu>1 \<mu>'"
        using noinit [of d' p v \<mu>1 rest e] a \<mu>1(2) by blast
      have "keeps (message_cells ?gs d' \<union> locals env) \<mu> \<mu>'"
        by (rule keeps_trans [OF keeps_mono [OF \<mu>1(3)] \<mu>'(3)]) simp
      then show ?thesis using True \<mu>1(1) \<mu>'(1,2)
        by (intro exI [of _ \<mu>']) (simp add: decode_with_def pbind_def on_mem_def pb_message_set_to_defaults_def)
    qed
    then obtain \<mu>' where \<mu>': "(if htype ?f = PB_HTYPE_REPEATED then decode_with env N (pb_decode_noinit env N) else pb_decode_noinit env N) ?gs d'
        (dctx (v @ rest) (length v) e \<mu>) = Some (Some (), dctx rest 0 e \<mu>')"
      "message_image env n \<mu>' (f_ptr ?f) d' = Some v" "keeps (message_cells ?gs d' \<union> locals env) \<mu> \<mu>'" by blast
    have "?sub ?f d' (dctx (string_bytes v @ rest) (length (string_bytes v) + M) e \<mu>) = Some (Some (), dctx rest M e \<mu>')"
      unfolding pb_dec_submessage_def if_not_P [OF ptr] proof (rule in_substream_reads)
        show "length v < 2 ^ 32" using a by blast
      qed (rule \<mu>'(1))
    with \<mu>'(2,3) show "\<exists>\<mu>'. ?sub ?f d' (dctx (string_bytes v @ rest) (length (string_bytes v) + M) e \<mu>) = Some (Some (), dctx rest M e \<mu>')
        \<and> message_image env n \<mu>' (f_ptr ?f) d' = Some v \<and> keeps (message_cells ?gs d' \<union> locals env) \<mu> \<mu>'" by blast
  qed
  obtain ims where ims: "\<And>k. k < length ?fs - 1 \<Longrightarrow> field_image (message_image env n m) (?fs ! k) m (src + field_offset ?fs k) = Some (ims k)"
    "bs = concat (map ims [0..<length ?fs - 1])"
    by (rule concat_map_cat [OF Suc.prems(5) [unfolded message_image.simps Let_def]]) blast
  have short: "length (ims k) < 2 ^ 32" if "k < length ?fs - 1" for k
  proof -
    have "ims k \<in> set (map ims [0..<length ?fs - 1])" using that by simp
    then have "length (ims k) \<le> length bs" unfolding ims(2) by (metis in_set_conv_decomp concat_append concat.simps(2) length_append trans_le_add1 trans_le_add2 le_refl)
    then show ?thesis using Suc.prems(6) by simp
  qed
  let ?\<mu> = "set_size (fixed_count_size env N) 0 \<mu>"
  have k0: "keeps (locals env) \<mu> ?\<mu>" by (rule keeps_set_size) (auto simp: locals_def)
  have "agree (message_cells ?fs d) ?\<mu> \<mu>" by (rule keeps_agree [OF k0]) (use Suc.prems(4) in blast)
  from fresh_agree [OF Suc.prems(1,2) this] Suc.prems(8) have fresh: "fresh_message env (Suc n) ?\<mu> fp d" by simp
  have idle: "idle ?fs d (message_start ?fs d)"
    using fs(2) by (auto simp: idle_def message_start_def iter_at_0 intro!: exI [of _ 0])
  have ends: "ends_field (ends_message env n m) (?fs ! k) m (src + field_offset ?fs k)" if "k < length ?fs - 1" for k
    using Suc.prems(7) that by (simp add: Let_def)
  have fr: "fresh_field (fresh_message env n ?\<mu>) (?fs ! k) ?\<mu> (d + field_offset ?fs k)" if "k < length ?fs - 1" for k
    using fresh that by (simp add: Let_def)
  have "\<exists>ks st' \<mu>'. decode_run (message_step env N) (message_start ?fs d) (dctx (bs @ rest) (length bs + 0) e ?\<mu>) ks st' (dctx rest 0 e \<mu>')
      \<and> idle ?fs d st' \<and> (\<forall>j. 0 \<le> j \<and> is_required ?fs j \<longrightarrow> j \<in> set ks)
      \<and> (\<forall>j < length ?fs - 1. field_image (message_image env n \<mu>') (?fs ! j) \<mu>' (d + field_offset ?fs j) = Some (ims j))
      \<and> keeps (message_cells ?fs d \<union> locals env) ?\<mu> \<mu>'"
    unfolding ims(2)
  proof (rule fields_run [OF Suc.prems(1-4) sub ims(1) short ends idle le0])
    show "fresh_field (fresh_message env n ?\<mu>) (?fs ! j) ?\<mu> (d + field_offset ?fs j)" if "j < length ?fs - 1" for j
      by (rule fr [OF that])
  qed auto
  then obtain ks st' \<mu>' where all: "decode_run (message_step env N) (message_start ?fs d) (dctx (bs @ rest) (length bs + 0) e ?\<mu>) ks st' (dctx rest 0 e \<mu>')
      \<and> idle ?fs d st' \<and> (\<forall>j. 0 \<le> j \<and> is_required ?fs j \<longrightarrow> j \<in> set ks)
      \<and> (\<forall>j < length ?fs - 1. field_image (message_image env n \<mu>') (?fs ! j) \<mu>' (d + field_offset ?fs j) = Some (ims j))
      \<and> keeps (message_cells ?fs d \<union> locals env) ?\<mu> \<mu>'"
    by (elim exE)
  note run = conjunct1 [OF all] conjunct1 [OF conjunct2 [OF all]] conjunct1 [OF conjunct2 [OF conjunct2 [OF all]]]
    conjunct1 [OF conjunct2 [OF conjunct2 [OF conjunct2 [OF all]]]] conjunct2 [OF conjunct2 [OF conjunct2 [OF conjunct2 [OF all]]]]
  let ?c = "dctx (bs @ rest) (length bs) e \<mu> :: unit pb_dctx"
  have "message_entry env N ?c = dctx (bs @ rest) (length bs + 0) e ?\<mu>" by (simp add: message_entry_def)
  moreover have "message_ends env N st' (dctx rest 0 e \<mu>') (dctx rest 0 e \<mu>')" by (simp add: message_ends_def)
  moreover have "fixed_count_done env N ?fs st' \<mu>'" using run(2) by (simp add: fixed_count_done_def idle_def)
  ultimately have dec: "pb_decode_noinit env (Suc N) ?fs d ?c = Some (Some (), dctx rest 0 e \<mu>')"
    unfolding noinit_success_iff [OF fs] using run(1,3) by (intro exI [of _ ks] exI [of _ st'] exI [of _ "dctx rest 0 e \<mu>'"]) simp
  have "map (\<lambda>k. field_image (message_image env n \<mu>') (?fs ! k) \<mu>' (d + field_offset ?fs k)) [0..<length ?fs - 1]
      = map Some (map ims [0..<length ?fs - 1])" using run(4) by simp
  then have "cat (map (\<lambda>k. field_image (message_image env n \<mu>') (?fs ! k) \<mu>' (d + field_offset ?fs k)) [0..<length ?fs - 1]) = Some bs"
    unfolding cat_Some ims(2) by blast
  then have image: "message_image env (Suc n) \<mu>' fp d = Some bs" by (simp add: Let_def)
  have "keeps (message_cells ?fs d \<union> locals env) \<mu> \<mu>'"
    by (rule keeps_trans [OF keeps_mono [OF k0] run(5)]) simp
  with dec image show ?case by blast
qed simp

section \<open>The round trip\<close>

lemma emits_into_buffer:
  assumes "emits p bs" "length bs \<le> bufsize" "bufsize \<le> length buf" "bufsize < size_mod"
  shows "\<exists>e. p (pb_ostream_from_buffer buf bufsize) = Some (Some (), obuf (bs @ drop (length bs) buf) bufsize (length bs) e)"
proof -
  have "roomy buf 0 bufsize 0 \<and> 0 + length bs < size_mod" "length bs < size_mod" using assms(2-4) by (simp_all add: roomy_def)
  with assms(1,2) have "\<exists>e'. p (wbuf buf 0 bufsize 0 None) = Some (Some (), wbuf (put_bytes 0 bs buf) (0 + length bs) bufsize (0 + length bs) e')"
    unfolding emits_def by (smt (verit) add_0)
  then show ?thesis by (simp add: pb_ostream_from_buffer_def put_bytes_def)
qed

text \<open>C2 A message of required, optional and repeated static fields, with submessages to any depth, survives the trip: what \<open>pb_encode\<close>
  wrote into a buffer, \<open>pb_decode\<close> reads into a structure at any address of any memory with the same descriptors. Decoding succeeds, uses all
  of the input and changes nothing outside the fields of the structure and the local variables of the decoder, and encoding the new structure
  gives the same bytes. The hypotheses are that the fields of the structure do not overlap, that the strings of the message end within their
  fields, and that its image is shorter than \<open>2 ^ 32\<close>.\<close>

theorem message_roundtrip:
  fixes env :: "unit pb_env"
  assumes "plain_message env n fp" "src \<noteq> 0" "message_image env n m fp src = Some bs" "ends_message env n m fp src" "length bs < 2 ^ 32"
    and "length bs \<le> bufsize" "bufsize \<le> length buf" "bufsize < size_mod"
    and "separate env n fp dest" "dest \<noteq> 0" "message_cells (fields_at env fp) dest \<inter> locals env = {}"
  shows "\<exists>buf' e. pb_encode env (Suc n) m (fields_at env fp) src (pb_ostream_from_buffer buf bufsize) = Some (Some (), obuf buf' bufsize (length bs) e)
    \<and> (\<exists>c' e'. pb_decode env (Suc n) (fields_at env fp) dest \<lparr>d_in = pb_istream_from_buffer buf' (length bs), d_mem = \<mu>\<rparr> = Some (Some (), c')
      \<and> bytes_left (d_in c') = 0
      \<and> (\<forall>a. a \<notin> message_cells (fields_at env fp) dest \<and> a \<notin> locals env \<longrightarrow> d_mem c' a = \<mu> a)
      \<and> pb_encode env (Suc n) (d_mem c') (fields_at env fp) dest (pb_ostream_from_buffer buf bufsize)
        = Some (Some (), obuf buf' bufsize (length bs) e'))"
proof -
  let ?fs = "fields_at env fp" and ?rest = "drop (length bs) buf"
  have image: "emits (pb_encode env (Suc n) x ?fs p) bs" if "message_image env n x fp p = Some bs" "p \<noteq> 0" for x p
    using writes_message [OF assms(1) that(2), of x] that(1) by (simp add: writes_def del: pb_encode.simps)
  obtain e where e: "pb_encode env (Suc n) m ?fs src (pb_ostream_from_buffer buf bufsize) = Some (Some (), obuf (bs @ ?rest) bufsize (length bs) e)"
    using emits_into_buffer [OF image [OF assms(3,2)] assms(6-8)] by blast
  obtain \<mu>1 where \<mu>1: "set_to_defaults (pb_field_set_to_default env (Suc n)) ?fs dest \<mu> = Some \<mu>1" "fresh_message env n \<mu>1 fp dest"
    "keeps (message_cells ?fs dest) \<mu> \<mu>1"
    using defaults_fresh [OF assms(1,9,10) le_SucI [OF order_refl], of \<mu>] by blast
  obtain \<mu>' where \<mu>': "pb_decode_noinit env (Suc n) ?fs dest (dctx (bs @ ?rest) (length bs) None \<mu>1) = Some (Some (), dctx ?rest 0 None \<mu>')"
    "message_image env n \<mu>' fp dest = Some bs" "keeps (message_cells ?fs dest \<union> locals env) \<mu>1 \<mu>'"
    using noinit_reads [OF assms(1,9,10,11,3,5,4) \<mu>1(2) order_refl] by blast
  have "pb_decode env (Suc n) ?fs dest \<lparr>d_in = pb_istream_from_buffer (bs @ ?rest) (length bs), d_mem = \<mu>\<rparr> = Some (Some (), dctx ?rest 0 None \<mu>')"
    using \<mu>1(1) \<mu>'(1)
    by (simp add: pb_decode_def decode_with_def pbind_def on_mem_def pb_message_set_to_defaults_def pb_istream_from_buffer_def
        del: pb_decode_noinit.simps)
  moreover have "keeps (message_cells ?fs dest \<union> locals env) \<mu> \<mu>'"
    by (rule keeps_trans [OF keeps_mono [OF \<mu>1(3)] \<mu>'(3)]) simp
  then have "\<forall>a. a \<notin> message_cells ?fs dest \<and> a \<notin> locals env \<longrightarrow> d_mem (dctx ?rest 0 None \<mu>' :: unit pb_dctx) a = \<mu> a"
    by (simp add: keeps_def)
  moreover obtain e' where "pb_encode env (Suc n) \<mu>' ?fs dest (pb_ostream_from_buffer buf bufsize)
      = Some (Some (), obuf (bs @ ?rest) bufsize (length bs) e')"
    using emits_into_buffer [OF image [OF \<mu>'(2) assms(10)] assms(6-8)] by blast
  ultimately show ?thesis using e by fastforce
qed

lemma example_types:
  "htype (outer_fields ! 0) = PB_HTYPE_OPTIONAL" "ltype (outer_fields ! 0) = PB_LTYPE_SUBMESSAGE"
  "htype (flag_fields ! 0) = PB_HTYPE_REQUIRED" "ltype (flag_fields ! 0) = PB_LTYPE_BOOL"
  "PB_ATYPE (f_type (outer_fields ! 0)) = PB_ATYPE_STATIC" "PB_ATYPE (f_type (flag_fields ! 0)) = PB_ATYPE_STATIC"
  by (simp_all add: outer_fields_def flag_fields_def PB_HTYPE_def PB_LTYPE_def PB_HTYPE_REQUIRED_def PB_HTYPE_OPTIONAL_def PB_LTYPE_defs
      PB_ATYPE_def PB_ATYPE_STATIC_def)

lemma example_layout:
  "length outer_fields - 1 = 1" "length flag_fields - 1 = 1" "field_offset outer_fields 0 = 1" "field_offset flag_fields 0 = 0"
  "size_offset (outer_fields ! 0) = - 1" "size_offset (flag_fields ! 0) = 0" "data_size (outer_fields ! 0) = 1" "data_size (flag_fields ! 0) = 1"
  "f_ptr (outer_fields ! 0) = Suc 0" "length outer_fields = 2" "length flag_fields = 2" "data_offset (outer_fields ! 0) = 1"
  "data_offset (flag_fields ! 0) = 0"
  by (simp_all add: outer_fields_def flag_fields_def)

lemma example_cells:
  "message_cells outer_fields 200 = {200, 201}" "message_cells flag_fields 201 = {201}"
  unfolding message_cells_def example_layout field_cells_def field_space_def size_cells_def size_addr_def example_types
  by (auto simp: PB_HTYPE_REPEATED_def PB_HTYPE_OPTIONAL_def PB_HTYPE_REQUIRED_def PB_ATYPE_STATIC_def PB_ATYPE_POINTER_def
      example_layout example_types lessThan_Suc)

lemma example_separate: "separate image_env 2 2 200"
proof -
  have inner: "separate image_env (Suc 0) (Suc 0) 201"
    by (simp add: Let_def image_env_fields example_layout example_types separate_field_def size_cells_def field_items_def
        PB_HTYPE_REPEATED_def PB_HTYPE_OPTIONAL_def PB_HTYPE_REQUIRED_def PB_LTYPE_defs)
  have "separate image_env (Suc (Suc 0)) 2 200"
    unfolding separate.simps(2) [of _ "Suc 0"] image_env_fields Let_def example_layout
    using inner example_cells(2)
    by (simp add: example_layout example_types image_env_fields separate_field_def size_cells_def size_addr_def field_items_def field_space_def
        PB_HTYPE_REPEATED_def PB_HTYPE_OPTIONAL_def PB_HTYPE_REQUIRED_def PB_LTYPE_defs PB_ATYPE_STATIC_def PB_ATYPE_POINTER_def
        del: separate.simps)
  then show ?thesis by (simp only: numeral_2_eq_2)
qed

theorem message_roundtrip_witness:
  "\<exists>buf' e. pb_encode image_env 3 (\<lambda>_. 1) outer_fields 100 (pb_ostream_from_buffer (replicate 8 0) 8) = Some (Some (), obuf buf' 8 4 e)
    \<and> (\<exists>c' e'. pb_decode image_env 3 outer_fields 200 \<lparr>d_in = pb_istream_from_buffer buf' 4, d_mem = (\<lambda>_. 7)\<rparr> = Some (Some (), c')
      \<and> bytes_left (d_in c') = 0
      \<and> (\<forall>a. a \<notin> message_cells outer_fields 200 \<and> a \<notin> locals image_env \<longrightarrow> d_mem c' a = 7)
      \<and> pb_encode image_env 3 (d_mem c') outer_fields 200 (pb_ostream_from_buffer (replicate 8 0) 8) = Some (Some (), obuf buf' 8 4 e'))"
proof -
  have ends: "ends_message image_env 2 (\<lambda>_. 1) 2 100"
    unfolding numeral_2_eq_2 ends_message.simps Let_def image_env_fields [unfolded numeral_2_eq_2] example_layout
    by (simp add: ends_field_def ends_def example_types example_layout image_env_fields PB_LTYPE_defs PB_HTYPE_REPEATED_def
        PB_HTYPE_OPTIONAL_def PB_HTYPE_REQUIRED_def)
  have "locals image_env \<subseteq> {1000..}" by (auto simp: locals_def image_env_def plain_env_def)
  then have apart: "message_cells (fields_at image_env 2) 200 \<inter> locals image_env = {}"
    unfolding image_env_fields example_cells by auto
  have len: "length [10 :: u8, 2, 8, 1] < 2 ^ 32" "length [10 :: u8, 2, 8, 1] \<le> 8" "8 \<le> length (replicate 8 (0 :: u8))" "(8 :: nat) < size_mod"
    "(100 :: nat) \<noteq> 0" "(200 :: nat) \<noteq> 0" "Suc 2 = 3" "length [10 :: u8, 2, 8, 1] = 4"
    by (simp_all add: size_mod_def)
  show ?thesis
    using message_roundtrip [where \<mu> = "\<lambda>_. 7", OF image_env_plain len(5) image_env_image ends len(1-4) example_separate len(6) apart]
    unfolding image_env_fields len(7,8) .
qed

end
