(* ===== verification/Spec2Isabelle.thy ===== *)
theory Spec2Isabelle
  imports CBB_Props Unicode_Conv BER Base64 Stack LHash Posix_Time Time_Parse PB_Arrays HMAC_Digest CBC CFB_Shift PB_Required PB_Encode PB_Returns PB_Roundtrip
begin

text \<open>
  A verification development for the C code that the TimeCapsule application is built with.

  \<^bold>\<open>The repository.\<close> TimeCapsule is an iOS application: its own code is Swift, and the C code
  of the repository lives in the vendored Pods under \<open>src/TimeCapsule/Pods\<close>. The C code that carries logic
  of its own is BoringSSL (\<open>Pods/BoringSSL-GRPC/src\<close>), which secures the connections of gRPC and
  Firestore, and nanopb (\<open>Pods/nanopb\<close>), which writes and reads the protocol buffers of Firebase. Of BoringSSL
  the development models the foundation, the code that every certificate and key passes through (byte
  strings, DER and BER, text encodings, times, and the containers they are kept in), and the symmetric
  cryptography that does not depend on a processor: the hash functions, the digest interface, HMAC and the
  modes of operation. Paths below are relative to \<open>Pods/BoringSSL-GRPC/src\<close>, and those of nanopb to
  \<open>Pods/nanopb\<close>.

  \<^bold>\<open>The theories, in the order in which the code depends on itself.\<close>

  \<^item> \<^theory_text>\<open>Prelude\<close>: machine words, byte strings as numbers, \<open>size_t\<close> arithmetic with its
    wrap-around.
  \<^item> \<^theory_text>\<open>Codec\<close>: parsing functions (a result and the state they leave behind, also when they
    fail) and the locales \<open>codec\<close>, \<open>progress_codec\<close> and \<open>canonical_codec\<close>, which say what an
    encoder promises its decoder. Every wire format of the development interprets one of them.
  \<^item> \<^theory_text>\<open>Mem\<close>: \<open>crypto/mem.c\<close>. Allocation is a parameter \<open>heap_env\<close>: which requests the C
    library grants and what a fresh block holds. Also the C string functions and constant-time comparison.
  \<^item> \<^theory_text>\<open>CBS_Read\<close>, \<^theory_text>\<open>CBS_ASN1\<close>: \<open>crypto/bytestring/cbs.c\<close>. A \<open>CBS\<close> is the
    list of bytes that are left to read. Every getter is a function on it, with the input it leaves on failure.
  \<^item> \<^theory_text>\<open>CBB\<close>, \<^theory_text>\<open>CBB_DER\<close>: \<open>crypto/bytestring/cbb.c\<close>. A \<open>CBB\<close> is its buffer and
    the chain of open children; handles are the depths of the chain. A flush closes children and makes their
    handles dead (null base); an error clears one \<open>child\<close> pointer (\<open>cbb_cut\<close>) and leaves the handles below it
    alive. An access through a null base is the flag \<open>cbb_fault\<close>.
  \<^item> \<^theory_text>\<open>CBB_Props\<close>: the properties of the two. The abstract builder is a stack of byte strings
    with pending length prefixes; \<open>cbb_program_refines\<close> says that the buffer with its offsets, moves and
    reallocations implements it.
  \<^item> \<^theory_text>\<open>Unicode_Conv\<close>: \<open>crypto/bytestring/unicode.c\<close>. \<^theory_text>\<open>BER\<close>:
    \<open>crypto/bytestring/ber.c\<close>, with the inductive relation \<open>der_of\<close> as the grammar of BER contents and what
    they stand for. \<^theory_text>\<open>Base64\<close>: \<open>crypto/base64/base64.c\<close> and the constant-time helpers of
    \<open>crypto/internal.h\<close>, with the alphabet of RFC 4648 as reference.
  \<^item> \<^theory_text>\<open>Stack\<close>: \<open>crypto/stack/stack.c\<close>. The locale \<open>comparator\<close> is what a
    comparison function promises and \<open>seq_store\<close> what a container addressed by position does; heap sort and
    binary search are proved correct under the first, insertion and removal under the second.
  \<^item> \<^theory_text>\<open>LHash\<close>: \<open>crypto/lhash/lhash.c\<close>. The locale \<open>hash_cmp\<close> is what a hash
    and an equality owe each other (interpreted on the FNV hash of \<open>mem.c\<close>), \<open>dict\<close> the interface of a
    dictionary, interpreted on the table.
  \<^item> \<^theory_text>\<open>Posix_Time\<close>: \<open>crypto/asn1/posix_time.c\<close>, against a calendar that counts days;
    \<^theory_text>\<open>Time_Parse\<close>: the time parsers of \<open>cbs.c\<close>, which the two sides meet in.
  \<^item> \<^theory_text>\<open>PB_Stream\<close>, \<^theory_text>\<open>PB_Wire\<close>: the streams of nanopb and the
    primitives of the wire (\<open>pb_encode.c\<close>, \<open>pb_decode.c\<close>). A stream has a position, limits, a sticky error and
    a callback with a state of its own; an operation is a function on it. The locale \<open>wire\<close> is the
    contract of a primitive: what was written is read back and nothing behind it is touched.
  \<^item> \<^theory_text>\<open>Flat_Memory\<close>: memory as a map from addresses to bytes, for the code that computes
    with pointers. \<^theory_text>\<open>PB_Fields\<close>: the field iterator of \<open>pb_common.c\<close> and the encoders and
    decoders of single values, on message structures in that memory, little-endian, with \<open>pb_realloc\<close> as a
    parameter. \<^theory_text>\<open>PB_Arrays\<close>: tags, skipping and packed arrays, under the locale
    \<open>field_codec\<close>.
  \<^item> \<^theory_text>\<open>PB_Message\<close>, \<^theory_text>\<open>PB_Encode\<close>: the message loops of \<open>pb_decode.c\<close> and \<open>pb_encode.c\<close>, with
    static, pointer and callback fields, submessages, extensions, default values and release. The
    record \<open>pb_env\<close> holds what comes from outside: the descriptors at an address, the callbacks and extension
    types of the user, and the heap. \<^theory_text>\<open>PB_Required\<close>: when decoding succeeds, by an inductive relation
    \<open>decode_run\<close> that lists the fields a run of the loop has seen. \<^theory_text>\<open>PB_Returns\<close>: decoding
    ends. \<^theory_text>\<open>PB_Image\<close>: the bytes of a message as a function of the memory, which encoding
    refines. \<^theory_text>\<open>PB_Roundtrip\<close>: decoding them again.
  \<^item> \<^theory_text>\<open>Digest_MD32\<close>: the collector of \<open>md32_common.h\<close>, the loads, stores and rotations
    of \<open>crypto/internal.h\<close>, and the locales \<open>block_hash\<close> and \<open>md32_hash\<close>, which say what a block function owes
    the collector. \<^theory_text>\<open>SHA2\<close> (\<open>sha256.c\<close>, \<open>sha512.c\<close>, locale \<open>sha2_rounds\<close>),
    \<^theory_text>\<open>SHA1\<close> and \<^theory_text>\<open>MD5_MD4\<close> interpret them on the unrolled rounds of
    the portable code, with the standards as reference.
  \<^item> \<^theory_text>\<open>HMAC_Digest\<close>: \<open>digest.c\<close>, \<open>digests.c\<close> and \<open>hmac.c\<close>. The locale \<open>stream_hash\<close>
    is the contract between a digest and HMAC; it is interpreted on the digest objects.
  \<^item> \<^theory_text>\<open>Modes\<close>: \<open>ctr.c\<close>, \<open>ofb.c\<close> and \<open>cfb.c\<close> of \<open>crypto/fipsmodule/modes\<close>, under the
    locales \<open>stream_mode\<close> (a routine is a machine that takes a byte at a time) and \<open>mode_pair\<close> (decryption
    undoes encryption). \<^theory_text>\<open>CFB_Shift\<close>: the rest of \<open>cfb.c\<close>, feedback by bits and by bytes
    through a shift register. \<^theory_text>\<open>CBC\<close>: \<open>cbc.c\<close> on the flat memory, since the code compares
    pointers. The block cipher is an argument, as in the C code.

  \<^bold>\<open>How code becomes definitions.\<close> Definitions keep the names of the functions. A function that
  returns 0 on failure and writes its results through pointers returns an option, or an option with the state
  it leaves behind where it changes its argument before it fails. A loop is a recursive function whose
  parameters are the locals of the loop; it carries a name of its own and its lines are listed under the
  function it belongs to. A structure is a record with the fields of the source. Machine integers are words
  where the code shifts, masks or wraps, \<open>size_t\<close> counters are natural numbers with the wrap-around written out
  where the code tests for it, and \<open>int64_t\<close> is an integer in \<^theory_text>\<open>Posix_Time\<close>, where a bound shows
  that nothing overflows. Function pointers of the containers are numbers that a helper applies, as the C
  signatures do.

  \<^bold>\<open>What the lemmas show.\<close> Readers accept exactly the canonical encodings of a value
  (\<open>utf8_canonical\<close>, \<open>asn1_uint64_canonical\<close>, \<open>time_text_canonical\<close>, ...), and what a writer wrote is read
  back (\<open>cbb_cbs_der_roundtrip\<close>, \<open>oid_text_roundtrip\<close>, \<open>base64_stream_roundtrip\<close>, ...). Builders and
  containers refine an abstract specification under any sequence of operations (\<open>cbb_program_refines\<close>,
  \<open>stack_refines_list\<close>, \<open>lh_refines_map\<close>). Optimised routines agree with a reference: constant-time
  base64 with a table, heap sort with sorting, binary with linear search, the closed formula for dates
  with a calendar, unrolled hash rounds with the loops of the standards, the cut of a message into calls with the
  whole message (\<open>sha256_stream\<close>, \<open>hmac_context_reuse\<close>, \<open>ctr_mode_keystream\<close>), loops over overlapping buffers
  with functions of byte strings (\<open>cbc_decrypt_any_overlap\<close>). Messages of nanopb are written as their image says
  (\<open>encoding_writes_image\<close>), survive the trip into another memory (\<open>message_roundtrip\<close>), and are read successfully exactly when their required fields have been seen
  (\<open>required_fields_checked\<close>). Errors are part of the statements: an error locks a builder, a failed copy frees what was copied, and
  three theorems show behaviour that a caller would not expect (\<open>cbb_dead_child_fault\<close>,
  \<open>sk_set_breaks_order\<close>, \<open>time_zone_offset\<close>).

  \<^bold>\<open>Termination and bounds.\<close> Recursions have a measure, that of
  \<open>cbs_convert_ber\<close> being the remaining depth and input; the loops of nanopb that depend on a message
  descriptor are partial functions, and that they end is proved where the statements use them. The only fuel is the
  number that the message functions of nanopb take: it bounds the nesting of submessages, which the code bounds by its stack
  alone. For static fields nested \<open>n\<close> deep, \<open>n + 1\<close> is enough on every input (\<open>decoding_returns\<close>) and for
  encoding (\<open>encoding_writes_image\<close>). Sizes are bounded where the statements say so:
  builders by \<open>2 ^ 64\<close> bytes (\<open>2 ^ 62\<close> where success is claimed, so that doubling does not wrap), tables by
  \<open>2 ^ 56\<close> buckets.

  \<^bold>\<open>Not modelled.\<close> Error queues (\<open>OPENSSL_PUT_ERROR\<close>), freeing of memory beyond which pointers
  are freed, and callbacks that change a hash table while it is walked. The assembly versions of the hash functions and
  the variant of the SHA-512 rounds for i386 are replaced by the portable code, and the FIPS service indicator
  is left out. The rest of BoringSSL (block ciphers, big numbers, curves, X.509, PEM) is not covered. The generated protocol-buffer C code of
  gRPC and GoogleDataTransport is data in C syntax; the Swift, Objective-C and C++ parts of the repository are
  outside the language that is modelled.
\<close>

end
